(* ===== verification/K3s_Prelude.thy ===== *)
theory K3s_Prelude
  imports Main "HOL-Library.Word"
begin

text \<open>
  Shared vocabulary of the development.  \<open>vm_error\<close> lists the ways a k3s program stops without a
  result: \<open>LOG_FATAL\<close> (common/macro.h:9, prints and aborts), a failed \<open>ASSERT\<close>
  (common/macro.h:8; the default CMake build does not define NDEBUG, so assertions are live), an
  access the C++ standard leaves undefined (a read outside an array or of memory that holds no
  object), and running out of the fuel of a recursion of the model.  A fallible operation returns
  \<open>vm_error + 'a\<close>; \<open>rbind\<close> sequences two of them, \<open>guard\<close> is an assertion, and
  \<open>fold_res\<close> is a loop over a list that stops at the first error.  The lemmas decompose a
  sequence of operations that is known to have succeeded, which is how the component proofs use
  them; the collection \<open>res_simps\<close> holds them.
\<close>

named_theorems res_simps "decomposition of successful sequences of fallible operations"
named_theorems vm_defs "definitions unfolded by the component proofs"

datatype vm_error = Fatal string | AssertFailed | Undefined | OutOfFuel

type_synonym 'a res = "vm_error + 'a"

fun rbind :: "'a res \<Rightarrow> ('a \<Rightarrow> 'b res) \<Rightarrow> 'b res" where
  "rbind (Inl e) f = Inl e"
| "rbind (Inr x) f = f x"

text \<open>\<open>ASSERT(b)\<close> (common/macro.h:8) and \<open>if (b) LOG_FATAL\<close>, in front of a continuation.\<close>

definition guard :: "bool \<Rightarrow> vm_error \<Rightarrow> 'a res \<Rightarrow> 'a res" where
  "guard b e r = (if b then r else Inl e)"

definition of_opt :: "vm_error \<Rightarrow> 'a option \<Rightarrow> 'a res" where
  "of_opt e m = (case m of None \<Rightarrow> Inl e | Some x \<Rightarrow> Inr x)"

text \<open>An indexed read: outside the bounds it is undefined behaviour, never a value.\<close>

definition nth_res :: "'a list \<Rightarrow> nat \<Rightarrow> 'a res" where
  "nth_res xs i = (if i < length xs then Inr (xs ! i) else Inl Undefined)"

definition upd_res :: "'a list \<Rightarrow> nat \<Rightarrow> 'a \<Rightarrow> 'a list res" where
  "upd_res xs i x = (if i < length xs then Inr (xs[i := x]) else Inl Undefined)"

fun fold_res :: "('a \<Rightarrow> 's \<Rightarrow> 's res) \<Rightarrow> 'a list \<Rightarrow> 's \<Rightarrow> 's res" where
  "fold_res f [] s = Inr s"
| "fold_res f (x # xs) s = rbind (f x s) (fold_res f xs)"

fun map_res :: "('a \<Rightarrow> 'b res) \<Rightarrow> 'a list \<Rightarrow> 'b list res" where
  "map_res f [] = Inr []"
| "map_res f (x # xs) = rbind (f x) (\<lambda>y. rbind (map_res f xs) (\<lambda>ys. Inr (y # ys)))"

subsection \<open>Decomposing a successful run\<close>

lemma rbind_eq_Inr [res_simps]: "rbind m f = Inr y \<longleftrightarrow> (\<exists>x. m = Inr x \<and> f x = Inr y)"
  by (cases m) auto

lemma rbind_eq_Inl: "rbind m f = Inl e \<longleftrightarrow> m = Inl e \<or> (\<exists>x. m = Inr x \<and> f x = Inl e)"
  by (cases m) auto

lemma guard_eq_Inr [res_simps]: "guard b e r = Inr y \<longleftrightarrow> b \<and> r = Inr y"
  by (simp add: guard_def)

lemma guard_True [simp]: "guard True e r = r"
  by (simp add: guard_def)

lemma guard_False [simp]: "guard False e r = Inl e"
  by (simp add: guard_def)

lemma of_opt_eq_Inr [res_simps]: "of_opt e m = Inr x \<longleftrightarrow> m = Some x"
  by (simp add: of_opt_def split: option.splits)

lemma of_opt_simps [simp]: "of_opt e None = Inl e" "of_opt e (Some x) = Inr x"
  by (simp_all add: of_opt_def)

lemma nth_res_eq_Inr [res_simps]: "nth_res xs i = Inr x \<longleftrightarrow> i < length xs \<and> x = xs ! i"
  by (auto simp: nth_res_def)

lemma upd_res_eq_Inr [res_simps]: "upd_res xs i x = Inr ys \<longleftrightarrow> i < length xs \<and> ys = xs[i := x]"
  by (auto simp: upd_res_def)

lemma nth_res_in [simp]: "i < length xs \<Longrightarrow> nth_res xs i = Inr (xs ! i)"
  by (simp add: nth_res_def)

lemma upd_res_in [simp]: "i < length xs \<Longrightarrow> upd_res xs i x = Inr (xs[i := x])"
  by (simp add: upd_res_def)

lemma rbind_assoc: "rbind (rbind m f) g = rbind m (\<lambda>x. rbind (f x) g)"
  by (cases m) auto

lemma fold_res_append: "fold_res f (xs @ ys) s = rbind (fold_res f xs s) (fold_res f ys)"
proof (induction xs arbitrary: s)
  case (Cons x xs)
  then show ?case by (cases "f x s") simp_all
qed simp

lemma fold_res_cong [fundef_cong]:
  "xs = ys \<Longrightarrow> s = t \<Longrightarrow> (\<And>x u. x \<in> set ys \<Longrightarrow> f x u = g x u) \<Longrightarrow> fold_res f xs s = fold_res g ys t"
proof (induction ys arbitrary: xs s t)
  case (Cons y ys)
  then show ?case by (cases "g y t") auto
qed simp

lemma rbind_cong [fundef_cong]:
  "m = n \<Longrightarrow> (\<And>x. n = Inr x \<Longrightarrow> f x = g x) \<Longrightarrow> rbind m f = rbind n g"
  by (cases n) auto

lemma map_res_eq_Inr: "map_res f xs = Inr ys \<longleftrightarrow> list_all2 (\<lambda>x y. f x = Inr y) xs ys"
  by (induction xs arbitrary: ys) (auto simp: res_simps list_all2_Cons1)

lemma map_res_Inr: "(\<And>x. x \<in> set xs \<Longrightarrow> f x = Inr (g x)) \<Longrightarrow> map_res f xs = Inr (map g xs)"
  by (induction xs) auto

lemma map_res_cong [fundef_cong]:
  "xs = ys \<Longrightarrow> (\<And>x. x \<in> set ys \<Longrightarrow> f x = g x) \<Longrightarrow> map_res f xs = map_res g ys"
proof (induction ys arbitrary: xs)
  case (Cons y ys)
  then show ?case by (cases "g y") auto
qed simp

text \<open>The loop rule: what every iteration keeps, the whole loop keeps.\<close>

lemma fold_res_invariant:
  assumes "fold_res f xs s = Inr t" and "P s"
    and "\<And>x u v. x \<in> set xs \<Longrightarrow> P u \<Longrightarrow> f x u = Inr v \<Longrightarrow> P v"
  shows "P t"
  using assms
proof (induction xs arbitrary: s)
  case (Cons x xs)
  from Cons.prems(1) obtain u where u: "f x s = Inr u" and rest: "fold_res f xs u = Inr t"
    by (auto simp: res_simps)
  have "P u" using Cons.prems(2) Cons.prems(3)[OF _ _ u] by simp
  then show ?case using Cons.IH[OF rest] Cons.prems(3) by auto
qed simp

subsection \<open>Transition systems\<close>

text \<open>
  The contract between a step function and an invariant: every component that runs a loop of
  steps (the interpreter, the assembler's statement loop, the class-file loader) interprets it.
\<close>

locale step_system =
  fixes step :: "'a \<Rightarrow> 's \<Rightarrow> 's res" and inv :: "'s \<Rightarrow> bool"
  assumes step_inv: "inv s \<Longrightarrow> step x s = Inr t \<Longrightarrow> inv t"
begin

lemma run_inv: "inv s \<Longrightarrow> fold_res step xs s = Inr t \<Longrightarrow> inv t"
  by (rule fold_res_invariant [where P = inv]) (auto intro: step_inv)

lemma run_split:
  "inv s \<Longrightarrow> fold_res step (xs @ ys) s = Inr t \<Longrightarrow>
   \<exists>u. fold_res step xs s = Inr u \<and> inv u \<and> fold_res step ys u = Inr t"
  by (auto simp: fold_res_append res_simps intro: run_inv)

end

subsection \<open>Words and lists\<close>

type_synonym byte = "8 word"
type_synonym u64 = "64 word"

text \<open>\<open>static_cast<size_t>(int8_t)\<close>: sign extension to 64 bits.\<close>

definition sext8 :: "byte \<Rightarrow> u64" where
  "sext8 b = scast b"

lemma sext8_int: "sext8 b = word_of_int (sint b)"
  by (simp only: sext8_def scast_eq)

lemma unat_lt_256: "unat (b :: byte) < 256"
  using unsigned_less [of b, where 'a = nat] by simp

lemma unat_lt_64: "unat (w :: u64) < 18446744073709551616"
  using unsigned_less [of w, where 'a = nat] by simp

lemma unat_eq_iff: "unat a = unat b \<longleftrightarrow> a = b"
  by (auto intro: unsigned_word_eqI)

lemma byte_nat: obtains n where "(b :: byte) = word_of_nat n" "n < 256" "unat b = n"
  using unat_lt_256 [of b] that [of "unat b"] by simp

lemma sint_byte: "sint (b :: byte) = (if unat b < 128 then int (unat b) else int (unat b) - 256)"
proof -
  obtain n where n: "b = word_of_nat n" "n < 256" "unat b = n" by (rule byte_nat)
  have "(word_of_int (int n) :: byte) = word_of_int (int n - 256)"
    by simp
  then have eq: "b = word_of_int (if n < 128 then int n else int n - 256)"
    by (simp add: n(1))
  show ?thesis
    unfolding n(3) by (subst eq, subst sint_sbintrunc', rule signed_take_bit_int_eq_self) (use n(2) in auto)
qed

lemma unat_sext8: "unat (sext8 b) = (if unat b < 128 then unat b else unat b + 18446744073709551360)"
proof -
  obtain n where n: "b = word_of_nat n" "n < 256" "unat b = n" by (rule byte_nat)
  have "(word_of_int (int n - 256) :: u64) = word_of_nat (n + 18446744073709551360)"
    by simp
  then have "sext8 b = word_of_nat (if n < 128 then n else n + 18446744073709551360)"
    by (simp add: sext8_int sint_byte n(3))
  then show ?thesis using n(2) by (simp add: n(3) unat_of_nat)
qed

lemma sext8_less_iff: "sext8 i < 256 \<longleftrightarrow> unat i < 128"
  by (simp add: word_less_nat_alt unat_sext8)
lemma sum_list_map_mono:
  "(\<And>x. x \<in> set xs \<Longrightarrow> f x \<le> g x) \<Longrightarrow> sum_list (map f xs) \<le> sum_list (map (g :: 'a \<Rightarrow> nat) xs)"
  by (induction xs) (auto intro: add_mono)

end
