(* ===== verification/K3s_Isa.thy ===== *)
theory K3s_Isa
  imports K3s_Prelude
begin

unbundle bit_operations_syntax

text \<open>
  The instruction set and the decoder.  \<open>isa\<close> is the table of isa/isa.yaml (one entry per
  subgroup: signature, mnemonics, the input operands of each overload); the enumeration of the
  opcodes, the dispatch table and the decoder are derived from it the way isa/isa_parser.rb and the
  templates of interpreter/templates/ derive the generated C++.  A dispatch-table entry is the label
  of a handler of interpreter/interpreter.cpp: the mnemonic followed by the input operands
  (\<open>ADD_rNUM_rNUM\<close> is \<open>Label ADD [Reg NUM, Reg NUM]\<close>).
  The decoder reads the types of the accumulator and of the registers through two functions, which
  the interpreter instantiates with its top frame.  The lemmas show which overload is chosen, that
  the dispatch index always addresses the label of that overload, and what the decoder does not
  check: the type of the last register operand.
\<close>

subsection \<open>Types, operands and the table\<close>

datatype rtype = NUM | ARR | STR_T | OBJ | FUNC | NIL | ANY

text \<open>The values of \<open>enum class Type : uint8_t\<close>, in the order of \<open>reg_types\<close>.\<close>

definition rtypes :: "rtype list" where
  "rtypes = [NUM, ARR, STR_T, OBJ, FUNC, NIL, ANY]"

fun type_num :: "rtype \<Rightarrow> nat" where
  "type_num NUM = 0" | "type_num ARR = 1" | "type_num STR_T = 2" | "type_num OBJ = 3"
| "type_num FUNC = 4" | "type_num NIL = 5" | "type_num ANY = 6"

definition type_of_num :: "nat \<Rightarrow> rtype option" where
  "type_of_num n = (if n < 7 then Some (rtypes ! n) else None)"

datatype opcode =
    JUMP | BLE | BLT | BGE | BNE | CALL | RET | GETTHIS | STNULL | LDAI | LDA | STA | MOV
  | ADD | SUB | MUL | DIV | MOD | ADD2 | SUB2 | DIV2 | MUL2 | DECA | NEWARR | SETELEM | GETELEM
  | DUMP | DUMPA | GETARG0 | GETARG1 | SETRET0 | SETARG0 | SETARG1 | GETRET0

datatype signature = OPC_R4_R4 | OPC_R8 | OPC_I8 | OPC

datatype operand = Acc rtype | Reg rtype

record subgroup =
  sg_signature :: signature
  sg_opc :: "opcode list"
  sg_in :: "operand list list"

definition isa :: "subgroup list" where
  "isa =
    [\<lparr>sg_signature = OPC_I8, sg_opc = [JUMP], sg_in = [[]]\<rparr>,
     \<lparr>sg_signature = OPC_I8, sg_opc = [BLE, BLT, BGE, BNE], sg_in = [[Acc NUM]]\<rparr>,
     \<lparr>sg_signature = OPC, sg_opc = [CALL], sg_in = [[Acc FUNC]]\<rparr>,
     \<lparr>sg_signature = OPC, sg_opc = [RET], sg_in = [[]]\<rparr>,
     \<lparr>sg_signature = OPC_R8, sg_opc = [GETTHIS], sg_in = [[]]\<rparr>,
     \<lparr>sg_signature = OPC_R8, sg_opc = [STNULL], sg_in = [[]]\<rparr>,
     \<lparr>sg_signature = OPC_I8, sg_opc = [LDAI], sg_in = [[]]\<rparr>,
     \<lparr>sg_signature = OPC_R8, sg_opc = [LDA], sg_in = [[Reg ANY]]\<rparr>,
     \<lparr>sg_signature = OPC_R8, sg_opc = [STA], sg_in = [[Acc ANY]]\<rparr>,
     \<lparr>sg_signature = OPC_R4_R4, sg_opc = [MOV], sg_in = [[Reg ANY]]\<rparr>,
     \<lparr>sg_signature = OPC_R4_R4, sg_opc = [ADD], sg_in = [[Reg NUM, Reg NUM], [Reg STR_T, Reg STR_T]]\<rparr>,
     \<lparr>sg_signature = OPC_R4_R4, sg_opc = [SUB, MUL, DIV, MOD], sg_in = [[Reg NUM, Reg NUM]]\<rparr>,
     \<lparr>sg_signature = OPC_R8, sg_opc = [ADD2],
        sg_in = [[Acc NUM, Reg NUM], [Acc STR_T, Reg STR_T], [Acc ARR, Reg NUM]]\<rparr>,
     \<lparr>sg_signature = OPC_R8, sg_opc = [SUB2, DIV2, MUL2],
        sg_in = [[Acc NUM, Reg NUM], [Acc ARR, Reg NUM]]\<rparr>,
     \<lparr>sg_signature = OPC, sg_opc = [DECA], sg_in = [[Acc NUM]]\<rparr>,
     \<lparr>sg_signature = OPC_R8, sg_opc = [NEWARR], sg_in = [[Reg NUM]]\<rparr>,
     \<lparr>sg_signature = OPC_R4_R4, sg_opc = [SETELEM],
        sg_in = [[Acc ANY, Reg ARR, Reg NUM], [Acc ANY, Reg OBJ, Reg STR_T]]\<rparr>,
     \<lparr>sg_signature = OPC_R4_R4, sg_opc = [GETELEM], sg_in = [[Reg ARR, Reg NUM], [Reg OBJ, Reg STR_T]]\<rparr>,
     \<lparr>sg_signature = OPC_R8, sg_opc = [DUMP], sg_in = [[Reg ANY]]\<rparr>,
     \<lparr>sg_signature = OPC, sg_opc = [DUMPA], sg_in = [[Acc ANY]]\<rparr>,
     \<lparr>sg_signature = OPC_R8, sg_opc = [GETARG0, GETARG1], sg_in = [[]]\<rparr>,
     \<lparr>sg_signature = OPC_R8, sg_opc = [SETRET0], sg_in = [[Reg ANY]]\<rparr>,
     \<lparr>sg_signature = OPC_R8, sg_opc = [SETARG0, SETARG1], sg_in = [[Acc FUNC, Reg ANY]]\<rparr>,
     \<lparr>sg_signature = OPC_R8, sg_opc = [GETRET0], sg_in = [[Acc FUNC]]\<rparr>]"

text \<open>\<open>enum class Opcode : uint8_t\<close> (templates/opcodes.h.erb): the mnemonics in table order.\<close>

definition opcodes :: "opcode list" where
  "opcodes = concat (map sg_opc isa)"

definition opc_num :: "opcode \<Rightarrow> nat" where
  "opc_num c = length (takeWhile (\<lambda>x. x \<noteq> c) opcodes)"

definition opc_of_byte :: "byte \<Rightarrow> opcode option" where
  "opc_of_byte b = (if unat b < length opcodes then Some (opcodes ! unat b) else None)"

definition subgroup_of :: "opcode \<Rightarrow> subgroup" where
  "subgroup_of c = hd (filter (\<lambda>g. c \<in> set (sg_opc g)) isa)"

definition signature_of :: "opcode \<Rightarrow> signature" where
  "signature_of c = sg_signature (subgroup_of c)"

definition overloads :: "opcode \<Rightarrow> operand list list" where
  "overloads c = sg_in (subgroup_of c)"

subsection \<open>The dispatch table\<close>

datatype label = Label opcode "operand list"

definition opcode_overload_limit :: nat where
  "opcode_overload_limit = 4"

text \<open>\<open>ISA.GetDispatchTable\<close>: the labels of each mnemonic, padded with \<open>nullptr\<close> to the limit.\<close>

definition dispatch_row :: "opcode \<Rightarrow> operand list list \<Rightarrow> label option list" where
  "dispatch_row c ins =
     map (\<lambda>i. Some (Label c i)) ins @ replicate (opcode_overload_limit - length ins) None"

definition dispatch_table :: "label option list" where
  "dispatch_table = concat (map (\<lambda>g. concat (map (\<lambda>c. dispatch_row c (sg_in g)) (sg_opc g))) isa)"

subsection \<open>Instructions and the decoder\<close>

record inst =
  i_opcode :: byte
  i_operands :: byte

text \<open>\<open>InstDecoder\<close>: \<open>size_t register_operands_idx_[2]\<close> and \<open>uint8_t immediate_operand_\<close>.\<close>

record decoder =
  reg_idx0 :: nat
  reg_idx1 :: nat
  imm_operand :: byte

definition FIRST_NEAR_REG_MASK :: byte where
  "FIRST_NEAR_REG_MASK = 15"

definition SECOND_NEAR_REG_MASK :: byte where
  "SECOND_NEAR_REG_MASK = 255 - 15"

definition SECOND_NEAR_REG_SHIFT :: nat where
  "SECOND_NEAR_REG_SHIFT = 4"

definition FIRST_FAR_REG_MASK :: byte where
  "FIRST_FAR_REG_MASK = 255"

definition IMM_MASK :: byte where
  "IMM_MASK = 255"

definition MAX_OPC_OVERLOAD_SIZE_BITS :: nat where
  "MAX_OPC_OVERLOAD_SIZE_BITS = 2"

definition set_operands :: "signature \<Rightarrow> byte \<Rightarrow> decoder \<Rightarrow> decoder" where
  "set_operands sig b d =
     (case sig of
        OPC_R4_R4 \<Rightarrow>
          d\<lparr>reg_idx0 := unat (b AND FIRST_NEAR_REG_MASK),
            reg_idx1 := unat (drop_bit SECOND_NEAR_REG_SHIFT (b AND SECOND_NEAR_REG_MASK))\<rparr>
      | OPC_R8 \<Rightarrow> d\<lparr>reg_idx0 := unat (b AND FIRST_FAR_REG_MASK)\<rparr>
      | OPC_I8 \<Rightarrow> d\<lparr>imm_operand := b AND IMM_MASK\<rparr>
      | OPC \<Rightarrow> d)"

definition reg_operand :: "decoder \<Rightarrow> nat \<Rightarrow> nat" where
  "reg_operand d i = (if i = 0 then reg_idx0 d else reg_idx1 d)"

text \<open>
  The template's arguments for one overload: the accumulator's type, when it is an input, and the
  type and position in \<open>register_operands_idx_\<close> of every register input.  The position of the
  input \<open>idx\<close> is \<open>idx\<close>, or \<open>idx - 1\<close> after an accumulator input.
\<close>

fun reg_args :: "bool \<Rightarrow> nat \<Rightarrow> operand list \<Rightarrow> (rtype \<times> nat) list" where
  "reg_args with_acc idx [] = []"
| "reg_args with_acc idx (Acc t # ins) = reg_args True (Suc idx) ins"
| "reg_args with_acc idx (Reg t # ins) =
     (t, if with_acc then idx - 1 else idx) # reg_args with_acc (Suc idx) ins"

fun acc_arg :: "operand list \<Rightarrow> rtype option" where
  "acc_arg [] = None"
| "acc_arg (Acc t # ins) = Some t"
| "acc_arg (Reg t # ins) = acc_arg ins"

text \<open>
  \<open>Interpreter::CheckRegsType\<close>.  The recursion compares the type of a register only when more
  register types follow: the base case, one register left, answers true without reading it.
\<close>

fun check_regs_type :: "(nat \<Rightarrow> rtype res) \<Rightarrow> (rtype \<times> nat) list \<Rightarrow> bool res" where
  "check_regs_type rt [] = Inr True"
| "check_regs_type rt [(t, r)] = Inr True"
| "check_regs_type rt ((t, r) # a # as) =
     (if t = ANY then check_regs_type rt (a # as)
      else rbind (rt r) (\<lambda>u. if u = t then check_regs_type rt (a # as) else Inr False))"

text \<open>\<open>CheckRegsTypeWithAcc\<close> when the accumulator is an input, \<open>CheckRegsType\<close> otherwise.\<close>

definition check_overload :: "rtype \<Rightarrow> (nat \<Rightarrow> rtype res) \<Rightarrow> decoder \<Rightarrow> operand list \<Rightarrow> bool res" where
  "check_overload acc rt d ins =
     (let regs = map (\<lambda>(t, i). (t, reg_operand d i)) (reg_args False 0 ins)
      in case acc_arg ins of
           Some t \<Rightarrow>
             if t = ANY \<or> acc = t then (if regs \<noteq> [] then check_regs_type rt regs else Inr True)
             else Inr False
         | None \<Rightarrow> check_regs_type rt regs)"

text \<open>The overloads in order; the first that matches, an overload without inputs always does.\<close>

fun resolve :: "(operand list \<Rightarrow> bool res) \<Rightarrow> nat \<Rightarrow> operand list list \<Rightarrow> nat option \<Rightarrow> nat option res" where
  "resolve chk i [] prefix = Inr prefix"
| "resolve chk i (ins # rest) prefix =
     (if ins = [] then resolve chk (Suc i) rest (Some i)
      else rbind (chk ins) (\<lambda>b. if b then Inr (Some i) else resolve chk (Suc i) rest prefix))"

text \<open>\<open>InstDecoder::DecodeAndResolve\<close>: the decoder with its operands set, and the dispatch index.\<close>

definition DecodeAndResolve ::
  "rtype \<Rightarrow> (nat \<Rightarrow> rtype res) \<Rightarrow> inst \<Rightarrow> decoder \<Rightarrow> (decoder \<times> nat) res" where
  "DecodeAndResolve acc rt ins d =
     (case opc_of_byte (i_opcode ins) of
        None \<Rightarrow> Inl (Fatal ''DECODER'')
      | Some c \<Rightarrow>
          let d' = set_operands (signature_of c) (i_operands ins) d
          in rbind (resolve (check_overload acc rt d') 0 (overloads c) None)
               (\<lambda>p. case p of
                      None \<Rightarrow> Inl (Fatal ''DECODER'')
                    | Some i \<Rightarrow>
                        guard (i < 2 ^ MAX_OPC_OVERLOAD_SIZE_BITS) AssertFailed
                          (Inr (d', push_bit MAX_OPC_OVERLOAD_SIZE_BITS (unat (i_opcode ins)) OR i))))"

subsection \<open>The derived enumeration and table\<close>

lemma opcodes_list:
  "opcodes = [JUMP, BLE, BLT, BGE, BNE, CALL, RET, GETTHIS, STNULL, LDAI, LDA, STA, MOV, ADD, SUB,
     MUL, DIV, MOD, ADD2, SUB2, DIV2, MUL2, DECA, NEWARR, SETELEM, GETELEM, DUMP, DUMPA, GETARG0,
     GETARG1, SETRET0, SETARG0, SETARG1, GETRET0]"
  by (simp add: opcodes_def isa_def)

lemma length_opcodes [simp]: "length opcodes = 34"
  by (simp add: opcodes_list)

lemma distinct_opcodes: "distinct opcodes"
  by (simp add: opcodes_list)

lemma opcode_in_opcodes: "c \<in> set opcodes"
  by (cases c) (simp_all add: opcodes_list)

lemma opc_num_less: "opc_num c < 34"
  by (cases c) (simp_all add: opc_num_def opcodes_list)

lemma opcodes_nth_opc_num: "opcodes ! opc_num c = c"
  using nth_length_takeWhile [of "\<lambda>x. x \<noteq> c" opcodes] opc_num_less [of c] by (simp add: opc_num_def)

lemma opc_num_nth: "i < 34 \<Longrightarrow> opc_num (opcodes ! i) = i"
  using nth_eq_iff_index_eq [OF distinct_opcodes, of "opc_num (opcodes ! i)" i]
    opcodes_nth_opc_num [of "opcodes ! i"] opc_num_less [of "opcodes ! i"] by simp

lemma opc_of_byte_num: "opc_of_byte b = Some c \<longleftrightarrow> unat b = opc_num c"
  unfolding opc_of_byte_def using opc_num_nth [of "unat b"] opcodes_nth_opc_num [of c] opc_num_less [of c]
  by auto

lemma opc_of_byte_of_num: "opc_of_byte (word_of_nat (opc_num c)) = Some c"
  using opc_num_less [of c] by (simp add: opc_of_byte_num unsigned_of_nat take_bit_nat_eq_self)

lemma overloads_simps [simp]:
  "overloads JUMP = [[]]" "overloads RET = [[]]" "overloads GETTHIS = [[]]" "overloads STNULL = [[]]"
  "overloads LDAI = [[]]" "overloads GETARG0 = [[]]" "overloads GETARG1 = [[]]"
  "overloads BLE = [[Acc NUM]]" "overloads BLT = [[Acc NUM]]" "overloads BGE = [[Acc NUM]]"
  "overloads BNE = [[Acc NUM]]" "overloads DECA = [[Acc NUM]]" "overloads CALL = [[Acc FUNC]]"
  "overloads GETRET0 = [[Acc FUNC]]" "overloads STA = [[Acc ANY]]" "overloads DUMPA = [[Acc ANY]]"
  "overloads LDA = [[Reg ANY]]" "overloads MOV = [[Reg ANY]]" "overloads DUMP = [[Reg ANY]]"
  "overloads SETRET0 = [[Reg ANY]]" "overloads NEWARR = [[Reg NUM]]"
  "overloads ADD = [[Reg NUM, Reg NUM], [Reg STR_T, Reg STR_T]]"
  "overloads SUB = [[Reg NUM, Reg NUM]]" "overloads MUL = [[Reg NUM, Reg NUM]]"
  "overloads DIV = [[Reg NUM, Reg NUM]]" "overloads MOD = [[Reg NUM, Reg NUM]]"
  "overloads ADD2 = [[Acc NUM, Reg NUM], [Acc STR_T, Reg STR_T], [Acc ARR, Reg NUM]]"
  "overloads SUB2 = [[Acc NUM, Reg NUM], [Acc ARR, Reg NUM]]"
  "overloads DIV2 = [[Acc NUM, Reg NUM], [Acc ARR, Reg NUM]]"
  "overloads MUL2 = [[Acc NUM, Reg NUM], [Acc ARR, Reg NUM]]"
  "overloads SETELEM = [[Acc ANY, Reg ARR, Reg NUM], [Acc ANY, Reg OBJ, Reg STR_T]]"
  "overloads GETELEM = [[Reg ARR, Reg NUM], [Reg OBJ, Reg STR_T]]"
  "overloads SETARG0 = [[Acc FUNC, Reg ANY]]" "overloads SETARG1 = [[Acc FUNC, Reg ANY]]"
  by (simp_all add: overloads_def subgroup_of_def isa_def)

lemma signature_of_simps [simp]:
  "signature_of JUMP = OPC_I8" "signature_of RET = OPC" "signature_of GETTHIS = OPC_R8"
  "signature_of STNULL = OPC_R8" "signature_of LDAI = OPC_I8" "signature_of GETARG0 = OPC_R8"
  "signature_of GETARG1 = OPC_R8" "signature_of BLE = OPC_I8" "signature_of BLT = OPC_I8"
  "signature_of BGE = OPC_I8" "signature_of BNE = OPC_I8" "signature_of DECA = OPC"
  "signature_of CALL = OPC" "signature_of GETRET0 = OPC_R8" "signature_of STA = OPC_R8"
  "signature_of DUMPA = OPC" "signature_of LDA = OPC_R8" "signature_of MOV = OPC_R4_R4"
  "signature_of DUMP = OPC_R8" "signature_of SETRET0 = OPC_R8" "signature_of NEWARR = OPC_R8"
  "signature_of ADD = OPC_R4_R4" "signature_of SUB = OPC_R4_R4" "signature_of MUL = OPC_R4_R4"
  "signature_of DIV = OPC_R4_R4" "signature_of MOD = OPC_R4_R4" "signature_of ADD2 = OPC_R8"
  "signature_of SUB2 = OPC_R8" "signature_of DIV2 = OPC_R8" "signature_of MUL2 = OPC_R8"
  "signature_of SETELEM = OPC_R4_R4" "signature_of GETELEM = OPC_R4_R4"
  "signature_of SETARG0 = OPC_R8" "signature_of SETARG1 = OPC_R8"
  by (simp_all add: signature_of_def subgroup_of_def isa_def)

text \<open>The table is one row of four entries per opcode, in the order of the enumeration.\<close>

lemma dispatch_table_rows: "dispatch_table = concat (map (\<lambda>c. dispatch_row c (overloads c)) opcodes)"
  unfolding dispatch_table_def opcodes_list by (simp add: isa_def)

lemma length_overloads: "length (overloads c) \<le> 3" "overloads c \<noteq> []"
  by (cases c; simp)+

lemma length_dispatch_row: "length ins \<le> 4 \<Longrightarrow> length (dispatch_row c ins) = 4"
  by (simp add: dispatch_row_def opcode_overload_limit_def)

lemma nth_concat_rows:
  "(\<And>x. x \<in> set xs \<Longrightarrow> length (f x) = m) \<Longrightarrow> i < length xs \<Longrightarrow> j < m \<Longrightarrow>
   concat (map f xs) ! (m * i + j) = f (xs ! i) ! j"
proof (induction xs arbitrary: i)
  case (Cons x xs)
  show ?case
  proof (cases i)
    case 0
    then show ?thesis using Cons.prems by (simp add: nth_append)
  next
    case (Suc k)
    have "concat (map f (x # xs)) ! (m * i + j) = concat (map f xs) ! (m * k + j)"
      using Cons.prems(1) [of x] by (simp add: nth_append Suc algebra_simps)
    then show ?thesis using Cons Suc by simp
  qed
qed simp

lemma dispatch_table_nth:
  assumes "i < length (overloads c)"
  shows "dispatch_table ! (4 * opc_num c + i) = Some (Label c (overloads c ! i))"
proof -
  have i4: "i < 4" using assms length_overloads(1) [of c] by linarith
  have "dispatch_table ! (4 * opc_num c + i) = dispatch_row (opcodes ! opc_num c) (overloads (opcodes ! opc_num c)) ! i"
    unfolding dispatch_table_rows using i4 opc_num_less length_overloads(1)
    by (intro nth_concat_rows) (auto intro!: length_dispatch_row simp: le_trans [OF length_overloads(1)])
  then show ?thesis using assms by (simp add: opcodes_nth_opc_num dispatch_row_def nth_append)
qed

lemma length_dispatch_table: "length dispatch_table = 136"
  by (simp add: dispatch_table_rows opcodes_list dispatch_row_def opcode_overload_limit_def)

lemma dispatch_index: "i < 4 \<Longrightarrow> push_bit 2 n OR i = 4 * n + (i :: nat)"
proof -
  assume i: "i < 4"
  have "push_bit 2 n AND i = 0"
  proof (rule bit_eqI)
    fix k
    have "bit i k \<Longrightarrow> k < 2"
    proof (rule ccontr)
      assume "bit i k" "\<not> k < 2"
      then have "i div 2 ^ k = 0" using i power_increasing [of 2 k "2 :: nat"] by (simp add: div_eq_0_iff)
      with \<open>bit i k\<close> show False by (simp add: bit_iff_odd)
    qed
    then show "bit (push_bit 2 n AND i) k = bit (0 :: nat) k"
      by (auto simp: bit_and_iff bit_push_bit_iff)
  qed
  then have "push_bit 2 n + i = push_bit 2 n OR i" by (rule disjunctive_add_eq_or)
  then show ?thesis by (simp add: push_bit_eq_mult mult.commute)
qed

subsection \<open>Operand fields\<close>

lemma near_regs:
  "unat (b AND FIRST_NEAR_REG_MASK) = unat b mod 16"
  "unat (drop_bit SECOND_NEAR_REG_SHIFT (b AND SECOND_NEAR_REG_MASK)) = unat b div 16"
proof -
  have m: "FIRST_NEAR_REG_MASK = mask 4" by (simp add: FIRST_NEAR_REG_MASK_def mask_eq_exp_minus_1)
  have low: "unat (c AND FIRST_NEAR_REG_MASK) = unat c mod 16" for c :: byte
    unfolding m by (simp add: take_bit_eq_mask [symmetric] take_bit_eq_mod unat_mod)
  then show "unat (b AND FIRST_NEAR_REG_MASK) = unat b mod 16" .
  have "drop_bit 4 (SECOND_NEAR_REG_MASK) = FIRST_NEAR_REG_MASK"
    by (simp add: SECOND_NEAR_REG_MASK_def FIRST_NEAR_REG_MASK_def)
  then have "drop_bit 4 (b AND SECOND_NEAR_REG_MASK) = drop_bit 4 b AND FIRST_NEAR_REG_MASK"
    by simp
  then have "unat (drop_bit 4 (b AND SECOND_NEAR_REG_MASK)) = unat (drop_bit 4 b) mod 16"
    by (simp only: low)
  also have "\<dots> = unat b div 16"
    using unat_lt_256 [of b] by (simp add: drop_bit_eq_div unat_div_distrib less_mult_imp_div_less)
  finally show "unat (drop_bit SECOND_NEAR_REG_SHIFT (b AND SECOND_NEAR_REG_MASK)) = unat b div 16"
    by (simp add: SECOND_NEAR_REG_SHIFT_def)
qed

lemma set_operands_simps [simp]:
  "reg_idx0 (set_operands OPC_R4_R4 b d) = unat b mod 16"
  "reg_idx1 (set_operands OPC_R4_R4 b d) = unat b div 16"
  "reg_idx0 (set_operands OPC_R8 b d) = unat b"
  "imm_operand (set_operands OPC_I8 b d) = b"
  "set_operands OPC b d = d"
proof -
  have "(255 :: byte) = -1" by simp
  then have ff: "c AND 255 = c" for c :: byte by (metis and.right_neutral)
  show "reg_idx0 (set_operands OPC_R4_R4 b d) = unat b mod 16"
    "reg_idx1 (set_operands OPC_R4_R4 b d) = unat b div 16"
    by (simp_all add: set_operands_def near_regs del: drop_bit_and)
  show "reg_idx0 (set_operands OPC_R8 b d) = unat b" "imm_operand (set_operands OPC_I8 b d) = b"
    "set_operands OPC b d = d"
    by (simp_all add: set_operands_def FIRST_FAR_REG_MASK_def IMM_MASK_def ff)
qed

subsection \<open>Which overload is chosen\<close>

text \<open>
  What the decoder requires of an overload: the accumulator's type, and the type of every register
  operand except the last.
\<close>

definition accepts :: "rtype \<Rightarrow> (nat \<Rightarrow> rtype res) \<Rightarrow> decoder \<Rightarrow> operand list \<Rightarrow> bool" where
  "accepts acc rt d ins \<longleftrightarrow>
     (\<forall>t. acc_arg ins = Some t \<longrightarrow> t = ANY \<or> acc = t) \<and>
     (\<forall>(t, i) \<in> set (butlast (reg_args False 0 ins)). t = ANY \<or> rt (reg_operand d i) = Inr t)"

lemma check_regs_type_iff:
  "check_regs_type rt as = Inr True \<longleftrightarrow> (\<forall>(t, r) \<in> set (butlast as). t = ANY \<or> rt r = Inr t)"
  by (induction rt as rule: check_regs_type.induct) (auto simp: res_simps split: if_splits)

lemma check_overload_iff: "check_overload acc rt d ins = Inr True \<longleftrightarrow> accepts acc rt d ins"
proof -
  have regs: "check_regs_type rt (map (\<lambda>(t, i). (t, reg_operand d i)) as) = Inr True \<longleftrightarrow>
      (\<forall>(t, i) \<in> set (butlast as). t = ANY \<or> rt (reg_operand d i) = Inr t)" for as
    by (auto simp: check_regs_type_iff map_butlast [symmetric])
  show ?thesis
    unfolding check_overload_def accepts_def Let_def
    using regs [of "reg_args False 0 ins"] by (cases "acc_arg ins") (auto split: if_splits)
qed

text \<open>\<open>resolve\<close> on a list without empty overloads finds the first one that is accepted.\<close>

lemma resolve_Some:
  assumes "[] \<notin> set os" and "resolve chk i os None = Inr (Some k)"
  shows "i \<le> k \<and> k < i + length os \<and> chk (os ! (k - i)) = Inr True \<and>
         (\<forall>j < k - i. chk (os ! j) = Inr False)"
  using assms
proof (induction os arbitrary: i)
  case (Cons ins os)
  from Cons.prems obtain b where b: "chk ins = Inr b"
    and k: "(if b then Inr (Some i) else resolve chk (Suc i) os None) = Inr (Some k)"
    by (auto simp: res_simps)
  show ?case
  proof (cases b)
    case True
    then show ?thesis using k b by simp
  next
    case False
    then have IH: "Suc i \<le> k \<and> k < Suc i + length os \<and> chk (os ! (k - Suc i)) = Inr True \<and>
        (\<forall>j < k - Suc i. chk (os ! j) = Inr False)"
      using Cons.IH [of "Suc i"] Cons.prems(1) k by simp
    moreover from IH have "k - i = Suc (k - Suc i)" by (metis Suc_diff_Suc Suc_le_eq)
    ultimately show ?thesis using b False by (auto simp: less_Suc_eq_0_disj)
  qed
qed simp

lemma resolve_None:
  "[] \<notin> set os \<Longrightarrow> resolve chk i os None = Inr None \<longleftrightarrow> (\<forall>ins \<in> set os. chk ins = Inr False)"
  by (induction os arbitrary: i) (auto simp: res_simps)

lemma overloads_shape: "overloads c = [[]] \<or> [] \<notin> set (overloads c)"
  by (cases c) simp_all

lemma accepts_Nil [simp]: "accepts acc rt d []"
  by (simp add: accepts_def)

lemma resolve_overloads:
  assumes "resolve (check_overload acc rt d) 0 (overloads c) None = Inr (Some k)"
  shows "k < length (overloads c) \<and> accepts acc rt d (overloads c ! k) \<and>
         (\<forall>j < k. \<not> accepts acc rt d (overloads c ! j))"
proof (cases "overloads c = [[]]")
  case True
  then show ?thesis using assms by simp
next
  case False
  then have "[] \<notin> set (overloads c)" using overloads_shape by blast
  from resolve_Some [OF this assms] show ?thesis
    by (auto simp: check_overload_iff [symmetric])
qed

lemma push_bit_dispatch: "k < length (overloads c) \<Longrightarrow> opc_of_byte b = Some c \<Longrightarrow>
  push_bit MAX_OPC_OVERLOAD_SIZE_BITS (unat b) OR k = 4 * opc_num c + k"
  using length_overloads(1) [of c] by (simp add: MAX_OPC_OVERLOAD_SIZE_BITS_def dispatch_index opc_of_byte_num)

text \<open>A decoded instruction: its opcode, its operands, and the label its dispatch index addresses.\<close>

lemma DecodeAndResolve_sound:
  assumes "DecodeAndResolve acc rt ins d = Inr (d', idx)"
  obtains c k where "opc_of_byte (i_opcode ins) = Some c" "k < length (overloads c)"
    "d' = set_operands (signature_of c) (i_operands ins) d"
    "accepts acc rt d' (overloads c ! k)" "\<forall>j < k. \<not> accepts acc rt d' (overloads c ! j)"
    "idx = 4 * opc_num c + k" "dispatch_table ! idx = Some (Label c (overloads c ! k))"
proof -
  from assms obtain c where c: "opc_of_byte (i_opcode ins) = Some c"
    by (auto simp: DecodeAndResolve_def split: option.splits)
  define e where "e = set_operands (signature_of c) (i_operands ins) d"
  from assms c obtain k where
    k: "resolve (check_overload acc rt e) 0 (overloads c) None = Inr (Some k)"
    and eq: "d' = e" "idx = push_bit MAX_OPC_OVERLOAD_SIZE_BITS (unat (i_opcode ins)) OR k"
    by (auto simp: DecodeAndResolve_def Let_def res_simps e_def split: option.splits)
  from resolve_overloads [OF k] have r: "k < length (overloads c)"
    "accepts acc rt e (overloads c ! k)" "\<forall>j < k. \<not> accepts acc rt e (overloads c ! j)" by auto
  have idx: "idx = 4 * opc_num c + k" using eq push_bit_dispatch [OF r(1) c] by simp
  have tab: "dispatch_table ! idx = Some (Label c (overloads c ! k))"
    unfolding idx by (rule dispatch_table_nth [OF r(1)])
  show thesis by (rule that [OF c r(1) _ _ _ idx tab]) (use r eq e_def in auto)
qed

lemma check_overload_total:
  assumes "\<And>r. r < 256 \<Longrightarrow> \<exists>t. rt r = Inr t" "reg_idx0 d < 256" "reg_idx1 d < 256"
  shows "\<exists>b. check_overload acc rt d ins = Inr b"
proof -
  have "\<exists>b. check_regs_type rt as = Inr b" if "\<forall>(t, r) \<in> set as. r < 256" for as
    using that assms(1)
  proof (induction rt as rule: check_regs_type.induct)
    case (3 rt t r a as)
    then show ?case by (cases "t = ANY") (fastforce split: if_splits)+
  qed auto
  moreover have "\<forall>(t, r) \<in> set (map (\<lambda>(t, i). (t, reg_operand d i)) (reg_args False 0 ins)). r < 256"
    using assms(2,3) by (auto simp: reg_operand_def)
  ultimately show ?thesis
    by (auto simp: check_overload_def Let_def split: option.splits)
qed

end
