(* ===== verification/K3s_Double.thy ===== *)
theory K3s_Double
  imports K3s_Prelude
begin

text \<open>
  The C++ type \<open>double\<close> as the interpreter uses it: a NUM register holds the bit pattern of an
  IEEE-754 binary64 number (interpreter/register.h:51-54, bit_cast in common/macro.h:36-42), and
  the handlers of interpreter/interpreter.cpp add, subtract, multiply, divide, take \<open>fmod\<close>,
  compare with zero and truncate to \<open>size_t\<close>.  The operations are computed on exact dyadic
  rationals and rounded once, to nearest with ties to even.  A NaN result is the quiet NaN with
  positive sign; the standard leaves payload and sign of a NaN open, and only DUMP shows them.
  The lemmas show that arithmetic on integers of magnitude at most \<open>2 ^ 53\<close> is exact.
\<close>

type_synonym f64 = "64 word"

datatype fp = FNan | FInf bool | FFin bool nat int  \<comment> \<open>sign, significand, exponent of two\<close>

definition unpack :: "f64 \<Rightarrow> fp" where
  "unpack w =
     (let n = unat w; s = (n div 2 ^ 63 = 1); E = n div 2 ^ 52 mod 2 ^ 11; F = n mod 2 ^ 52
      in if E = 2047 then (if F = 0 then FInf s else FNan)
         else if E = 0 then FFin s F (- 1074)
         else FFin s (2 ^ 52 + F) (int E - 1075))"

definition with_sign :: "bool \<Rightarrow> nat \<Rightarrow> f64" where
  "with_sign s n = word_of_nat ((if s then 2 ^ 63 else 0) + n)"

definition qnan :: f64 where
  "qnan = 0x7FF8000000000000"

definition inf_bits :: nat where
  "inf_bits = 2047 * 2 ^ 52"

fun bitlen :: "nat \<Rightarrow> nat" where
  "bitlen n = (if n = 0 then 0 else Suc (bitlen (n div 2)))"

declare bitlen.simps [simp del]

text \<open>\<open>n / 2 ^ k\<close> to the nearest integer, ties to even; \<open>st\<close>: the true value is a little above \<open>n\<close>.\<close>

definition rhe :: "nat \<Rightarrow> nat \<Rightarrow> bool \<Rightarrow> nat" where
  "rhe n k st =
     (let q = n div 2 ^ k; r = n mod 2 ^ k; h = 2 ^ (k - 1)
      in if k = 0 \<or> r < h then q
         else if r = h \<and> \<not> st then (if even q then q else Suc q)
         else Suc q)"

definition round_shift :: "nat \<Rightarrow> int \<Rightarrow> int" where
  "round_shift n e = max (int (bitlen n) - 53) (- 1074 - e)"

definition round_pack :: "bool \<Rightarrow> nat \<Rightarrow> int \<Rightarrow> bool \<Rightarrow> f64" where
  "round_pack s n e st =
     (let k = round_shift n e;
          q = (if k \<le> 0 then n * 2 ^ nat (- k) else rhe n (nat k) st);
          bits = nat (e + k + 1074) * 2 ^ 52 + q
      in with_sign s (if n = 0 then 0 else min bits inf_bits))"

text \<open>\<open>(n / d) * 2 ^ e\<close> for a positive \<open>d\<close>: enough quotient bits, and a sticky bit for the rest.\<close>

definition round_ratio :: "bool \<Rightarrow> nat \<Rightarrow> nat \<Rightarrow> int \<Rightarrow> f64" where
  "round_ratio s n d e =
     (let K = 55 + bitlen d
      in round_pack s (n * 2 ^ K div d) (e - int K) (n * 2 ^ K mod d \<noteq> 0))"

subsection \<open>The operations of the handlers\<close>

definition sgnd :: "bool \<Rightarrow> nat \<Rightarrow> int" where
  "sgnd s m = (if s then - int m else int m)"

definition fneg_fp :: "fp \<Rightarrow> fp" where
  "fneg_fp x = (case x of FNan \<Rightarrow> FNan | FInf s \<Rightarrow> FInf (\<not> s) | FFin s m e \<Rightarrow> FFin (\<not> s) m e)"

fun fadd_fp :: "fp \<Rightarrow> fp \<Rightarrow> f64" where
  "fadd_fp FNan y = qnan"
| "fadd_fp x FNan = qnan"
| "fadd_fp (FInf a) (FInf b) = (if a = b then with_sign a inf_bits else qnan)"
| "fadd_fp (FInf a) (FFin t m f) = with_sign a inf_bits"
| "fadd_fp (FFin s n e) (FInf b) = with_sign b inf_bits"
| "fadd_fp (FFin s n e) (FFin t m f) =
     (let g = min e f;
          v = sgnd s (n * 2 ^ nat (e - g)) + sgnd t (m * 2 ^ nat (f - g))
      in if v = 0 then with_sign (s \<and> t) 0 else round_pack (v < 0) (nat \<bar>v\<bar>) g False)"

definition fadd :: "f64 \<Rightarrow> f64 \<Rightarrow> f64" where
  "fadd x y = fadd_fp (unpack x) (unpack y)"

definition fsub :: "f64 \<Rightarrow> f64 \<Rightarrow> f64" where
  "fsub x y = fadd_fp (unpack x) (fneg_fp (unpack y))"

fun fmul_fp :: "fp \<Rightarrow> fp \<Rightarrow> f64" where
  "fmul_fp FNan y = qnan"
| "fmul_fp x FNan = qnan"
| "fmul_fp (FInf a) (FInf b) = with_sign (a \<noteq> b) inf_bits"
| "fmul_fp (FInf a) (FFin t m f) = (if m = 0 then qnan else with_sign (a \<noteq> t) inf_bits)"
| "fmul_fp (FFin s n e) (FInf b) = (if n = 0 then qnan else with_sign (s \<noteq> b) inf_bits)"
| "fmul_fp (FFin s n e) (FFin t m f) = round_pack (s \<noteq> t) (n * m) (e + f) False"

definition fmul :: "f64 \<Rightarrow> f64 \<Rightarrow> f64" where
  "fmul x y = fmul_fp (unpack x) (unpack y)"

fun fdiv_fp :: "fp \<Rightarrow> fp \<Rightarrow> f64" where
  "fdiv_fp FNan y = qnan"
| "fdiv_fp x FNan = qnan"
| "fdiv_fp (FInf a) (FInf b) = qnan"
| "fdiv_fp (FInf a) (FFin t m f) = with_sign (a \<noteq> t) inf_bits"
| "fdiv_fp (FFin s n e) (FInf b) = with_sign (s \<noteq> b) 0"
| "fdiv_fp (FFin s n e) (FFin t m f) =
     (if m = 0 then (if n = 0 then qnan else with_sign (s \<noteq> t) inf_bits)
      else round_ratio (s \<noteq> t) n m (e - f))"

definition fdiv :: "f64 \<Rightarrow> f64 \<Rightarrow> f64" where
  "fdiv x y = fdiv_fp (unpack x) (unpack y)"

text \<open>\<open>std::fmod\<close>: the exact remainder of the truncated quotient, with the sign of the dividend.\<close>

fun fmod_fp :: "fp \<Rightarrow> fp \<Rightarrow> f64" where
  "fmod_fp FNan y = qnan"
| "fmod_fp x FNan = qnan"
| "fmod_fp (FInf a) y = qnan"
| "fmod_fp (FFin s n e) (FInf b) = round_pack s n e False"
| "fmod_fp (FFin s n e) (FFin t m f) =
     (if m = 0 then qnan
      else let g = min e f
           in round_pack s ((n * 2 ^ nat (e - g)) mod (m * 2 ^ nat (f - g))) g False)"

definition fmod :: "f64 \<Rightarrow> f64 \<Rightarrow> f64" where
  "fmod x y = fmod_fp (unpack x) (unpack y)"

text \<open>Comparisons with the literal \<open>0.\<close>; every ordered comparison with a NaN is false.\<close>

definition is_zero :: "f64 \<Rightarrow> bool" where
  "is_zero x = (case unpack x of FFin s m e \<Rightarrow> m = 0 | _ \<Rightarrow> False)"

definition lt_zero :: "f64 \<Rightarrow> bool" where
  "lt_zero x = (case unpack x of FNan \<Rightarrow> False | FInf s \<Rightarrow> s | FFin s m e \<Rightarrow> s \<and> m \<noteq> 0)"

definition le_zero :: "f64 \<Rightarrow> bool" where
  "le_zero x = (lt_zero x \<or> is_zero x)"

definition ge_zero :: "f64 \<Rightarrow> bool" where
  "ge_zero x = (case unpack x of FNan \<Rightarrow> False | FInf s \<Rightarrow> \<not> s | FFin s m e \<Rightarrow> \<not> s \<or> m = 0)"

definition ne_zero :: "f64 \<Rightarrow> bool" where
  "ne_zero x = (\<not> is_zero x)"

text \<open>
  \<open>static_cast<size_t>\<close>: truncation towards zero, undefined for a NaN, an infinity and a truncated
  value that \<open>size_t\<close> cannot hold.
\<close>

definition to_size_t :: "f64 \<Rightarrow> u64 option" where
  "to_size_t x =
     (case unpack x of
        FFin s m e \<Rightarrow>
          (let t = (if e < 0 then m div 2 ^ nat (- e) else m * 2 ^ nat e)
           in if (s \<and> t > 0) \<or> t \<ge> 2 ^ 64 then None else Some (word_of_nat t))
      | _ \<Rightarrow> None)"

definition f64_of_int :: "int \<Rightarrow> f64" where
  "f64_of_int i = round_pack (i < 0) (nat \<bar>i\<bar>) 0 False"

subsection \<open>Bit lengths\<close>

lemma bitlen_0 [simp]: "bitlen 0 = 0"
  by (simp add: bitlen.simps)

lemma bitlen_pos: "0 < n \<Longrightarrow> bitlen n = Suc (bitlen (n div 2))"
  by (simp add: bitlen.simps [of n])

lemma bitlen_eq_0 [simp]: "bitlen n = 0 \<longleftrightarrow> n = 0"
  by (cases "n = 0") (simp_all add: bitlen_pos)

lemma bitlen_double: "0 < n \<Longrightarrow> bitlen (n * 2) = Suc (bitlen n)"
  by (subst bitlen_pos) simp_all

lemma bitlen_mult_pow: "0 < n \<Longrightarrow> bitlen (n * 2 ^ k) = bitlen n + k"
proof (induction k)
  case (Suc k)
  have "bitlen (n * 2 ^ Suc k) = bitlen ((n * 2 ^ k) * 2)" by (simp add: ac_simps)
  also have "\<dots> = Suc (bitlen (n * 2 ^ k))" using Suc.prems by (intro bitlen_double) simp
  finally show ?case using Suc by simp
qed simp

lemma bitlen_upper: "n < 2 ^ bitlen n"
proof (induction n rule: bitlen.induct)
  case (1 n)
  show ?case
  proof (cases "n = 0")
    case False
    then have "n div 2 < 2 ^ bitlen (n div 2)" using 1 by simp
    then have "n < 2 * 2 ^ bitlen (n div 2)" by linarith
    then show ?thesis using False by (simp add: bitlen_pos)
  qed simp
qed

lemma bitlen_lower: "0 < n \<Longrightarrow> 2 ^ (bitlen n - 1) \<le> n"
proof (induction n rule: bitlen.induct)
  case (1 n)
  show ?case
  proof (cases "n = 1")
    case True
    then show ?thesis by (simp add: bitlen_pos)
  next
    case False
    then have pos: "0 < n div 2" using 1 by linarith
    have IH: "2 ^ (bitlen (n div 2) - 1) \<le> n div 2" using 1 pos by simp
    obtain l where l: "bitlen (n div 2) = Suc l" using bitlen_pos [OF pos] by blast
    have "2 * 2 ^ l \<le> n" using IH l by simp
    then show ?thesis using 1 l by (simp add: bitlen_pos [of n])
  qed
qed

lemma bitlen_le: "n < 2 ^ k \<Longrightarrow> bitlen n \<le> k"
proof (rule ccontr)
  assume n: "n < 2 ^ k" and "\<not> bitlen n \<le> k"
  then have "k \<le> bitlen n - 1" and "0 < n" by (auto intro: Nat.gr0I)
  then have "2 ^ k \<le> n" using bitlen_lower [of n] power_increasing [of k "bitlen n - 1" "2 :: nat"]
    by linarith
  with n show False by simp
qed

subsection \<open>Rounding is invariant under exact scaling\<close>

lemma rhe_scale: "0 < k \<Longrightarrow> rhe (n * 2 ^ j) (k + j) False = rhe n k False"
proof -
  assume k: "0 < k"
  have q: "n * 2 ^ j div 2 ^ (k + j) = n div 2 ^ k" by (simp add: power_add)
  have r: "n * 2 ^ j mod 2 ^ (k + j) = (n mod 2 ^ k) * 2 ^ j"
    by (simp add: power_add mult_mod_left)
  have h: "(2 :: nat) ^ (k + j - 1) = 2 ^ (k - 1) * 2 ^ j" using k by (simp flip: power_add)
  show ?thesis unfolding rhe_def Let_def q r h using k by simp
qed

lemma rhe_exact: "rhe (n * 2 ^ j) j False = n"
  by (simp add: rhe_def Let_def)

lemma round_pack_scale: "round_pack s (n * 2 ^ j) (e - int j) False = round_pack s n e False"
proof (cases "n = 0")
  case True
  then show ?thesis by (simp add: round_pack_def Let_def)
next
  case False
  define k where "k = round_shift n e"
  have k': "round_shift (n * 2 ^ j) (e - int j) = k + int j"
    using False by (simp add: round_shift_def k_def bitlen_mult_pow)
  have q: "(if k + int j \<le> 0 then n * 2 ^ j * 2 ^ nat (- (k + int j)) else rhe (n * 2 ^ j) (nat (k + int j)) False)
         = (if k \<le> 0 then n * 2 ^ nat (- k) else rhe n (nat k) False)" (is "?l = ?r")
  proof (cases "k \<le> 0")
    case neg: True
    show ?thesis
    proof (cases "k + int j \<le> 0")
      case True
      then have "j + nat (- (k + int j)) = nat (- k)" by linarith
      then have "n * 2 ^ j * 2 ^ nat (- (k + int j)) = n * 2 ^ nat (- k)"
        by (simp add: mult.assoc flip: power_add)
      then show ?thesis using True neg by simp
    next
      case False
      define d where "d = nat (k + int j)"
      have "j = nat (- k) + d" using False neg by (simp add: d_def)
      then have "rhe (n * 2 ^ j) d False = n * 2 ^ nat (- k)"
        by (simp add: power_add rhe_exact flip: mult.assoc)
      then show ?thesis using False neg by (simp add: d_def)
    qed
  next
    case pos: False
    then have "nat (k + int j) = nat k + j" by (simp add: nat_add_distrib)
    then show ?thesis using pos rhe_scale [of "nat k" n j] by simp
  qed
  show ?thesis
    unfolding round_pack_def Let_def k' k_def [symmetric] q using False by simp
qed

lemma round_pack_scale_to_0: "round_pack s (n * 2 ^ j) (- int j) False = round_pack s n 0 False"
  using round_pack_scale [of s n j 0] by simp

subsection \<open>Integers of magnitude below \<open>2 ^ 53\<close>\<close>

lemma unat_with_sign: "b < 2 ^ 63 \<Longrightarrow> unat (with_sign s b) = (if s then 2 ^ 63 else 0) + b"
  by (simp add: with_sign_def unsigned_of_nat take_bit_nat_eq_self del: of_nat_add)

lemma unpack_fields:
  assumes "E < 2047" "F < 2 ^ 52"
  shows "unpack (with_sign s (E * 2 ^ 52 + F)) =
         (if E = 0 then FFin s F (- 1074) else FFin s (2 ^ 52 + F) (int E - 1075))"
proof -
  have lt: "E * 2 ^ 52 + F < 2 ^ 63" using assms by simp
  have w: "unat (with_sign s (E * 2 ^ 52 + F)) = ((if s then 2 ^ 11 else 0) + E) * 2 ^ 52 + F"
    using unat_with_sign [OF lt, of s] by simp
  have split: "(A * 2 ^ 52 + F) div 2 ^ 52 = A" "(A * 2 ^ 52 + F) mod 2 ^ 52 = F" for A :: nat
    using assms by simp_all
  note hi = split(1) [of "(if s then 2 ^ 11 else 0) + E"] and lo = split(2) [of "(if s then 2 ^ 11 else 0) + E"]
  have sg: "(((if s then 2 ^ 11 else 0) + E) * 2 ^ 52 + F) div 2 ^ 63 = (if s then 1 else 0)"
  proof -
    have "(((if s then 2 ^ 11 else 0) + E) * 2 ^ 52 + F) div 2 ^ 63
        = ((((if s then 2 ^ 11 else 0) + E) * 2 ^ 52 + F) div 2 ^ 52) div 2 ^ 11"
      by (simp flip: div_mult2_eq)
    moreover have "((if s then 2 ^ 11 else 0) + E) div 2 ^ 11 = (if s then 1 else 0)"
      using assms by (auto intro: div_nat_eqI)
    ultimately show ?thesis unfolding hi by simp
  qed
  have ex: "((if s then 2 ^ 11 else 0) + E) mod 2 ^ 11 = E" using assms by simp
  show ?thesis unfolding unpack_def Let_def w hi lo sg ex using assms by simp
qed

lemma unpack_zero: "unpack (with_sign s 0) = FFin s 0 (- 1074)"
  using unpack_fields [of 0 0 s] by simp

lemma unpack_round_int:
  assumes "0 < n" "n < 2 ^ 53"
  shows "unpack (round_pack s n 0 False) = FFin s (n * 2 ^ (53 - bitlen n)) (- int (53 - bitlen n))"
proof -
  define l where "l = bitlen n"
  have l: "0 < l" "l \<le> 53" using assms bitlen_le [of n 53] by (auto simp: l_def intro: Nat.gr0I)
  define q where "q = n * 2 ^ (53 - l)"
  have lower: "2 ^ 52 \<le> q"
  proof -
    have "2 ^ (l - 1) * 2 ^ (53 - l) \<le> q"
      unfolding q_def l_def using bitlen_lower assms(1) by (intro mult_right_mono) auto
    moreover have "(2 :: nat) ^ (l - 1) * 2 ^ (53 - l) = 2 ^ 52" using l by (simp flip: power_add)
    ultimately show ?thesis by simp
  qed
  have upper: "q < 2 ^ 53"
  proof -
    have "q < 2 ^ l * 2 ^ (53 - l)"
      unfolding q_def l_def using bitlen_upper [of n] by (intro mult_strict_right_mono) auto
    moreover have "(2 :: nat) ^ l * 2 ^ (53 - l) = 2 ^ 53" using l by (simp flip: power_add)
    ultimately show ?thesis by simp
  qed
  have k: "round_shift n 0 = int l - 53" using l by (simp add: round_shift_def l_def [symmetric])
  have nk: "nat (- (int l - 53)) = 53 - l" "nat (int l - 53 + 1074) = l + 1021" using l by auto
  have bits: "(l + 1021) * 2 ^ 52 + q = (l + 1022) * 2 ^ 52 + (q - 2 ^ 52)" using lower by simp
  have small: "(l + 1021) * 2 ^ 52 + q < inf_bits" using l upper by (simp add: inf_bits_def)
  have "round_pack s n 0 False = with_sign s (min ((l + 1021) * 2 ^ 52 + q) inf_bits)"
    unfolding round_pack_def Let_def k add_0 nk q_def [symmetric] using l assms by simp
  then have "round_pack s n 0 False = with_sign s ((l + 1022) * 2 ^ 52 + (q - 2 ^ 52))"
    unfolding min_absorb1 [OF less_imp_le, OF small] unfolding bits .
  moreover have "unpack (with_sign s ((l + 1022) * 2 ^ 52 + (q - 2 ^ 52)))
      = FFin s (2 ^ 52 + (q - 2 ^ 52)) (int (l + 1022) - 1075)"
    by (subst unpack_fields) (use l lower upper in auto)
  moreover have "int (l + 1022) - 1075 = - int (53 - l)" "2 ^ 52 + (q - 2 ^ 52) = q"
    using l lower by simp_all
  ultimately show ?thesis by (simp only: q_def l_def)
qed

lemma unpack_round_0: "unpack (round_pack s 0 e st) = FFin s 0 (- 1074)"
  by (simp add: round_pack_def Let_def unpack_zero)

text \<open>One shape for zero and non-zero integers: significand and exponent of a common power of two.\<close>

lemma unpack_of_int:
  assumes "\<bar>i\<bar> < 2 ^ 53"
  obtains j where "unpack (f64_of_int i) = FFin (i < 0) (nat \<bar>i\<bar> * 2 ^ j) (- int j)"
proof (cases "i = 0")
  case True
  have "unpack (f64_of_int i) = FFin (i < 0) (nat \<bar>i\<bar> * 2 ^ 1074) (- int 1074)"
    using True by (simp add: f64_of_int_def unpack_round_0)
  then show ?thesis by (rule that)
next
  case False
  have "unpack (f64_of_int i)
      = FFin (i < 0) (nat \<bar>i\<bar> * 2 ^ (53 - bitlen (nat \<bar>i\<bar>))) (- int (53 - bitlen (nat \<bar>i\<bar>)))"
    unfolding f64_of_int_def using False assms by (intro unpack_round_int) auto
  then show ?thesis by (rule that)
qed

lemma sgnd_scaled: "sgnd (i < 0) (nat \<bar>i\<bar> * 2 ^ j) = i * 2 ^ j"
  by (simp add: sgnd_def)

lemma round_pack_int: "v = i * 2 ^ j \<Longrightarrow> v \<noteq> 0 \<Longrightarrow> round_pack (v < 0) (nat \<bar>v\<bar>) (- int j) False = f64_of_int i"
proof -
  assume v: "v = i * 2 ^ j" "v \<noteq> 0"
  have "nat \<bar>v\<bar> = nat \<bar>i\<bar> * 2 ^ j" by (simp add: v(1) abs_mult nat_mult_distrib nat_power_eq)
  moreover have "(v < 0) = (i < 0)" by (simp add: v(1) mult_less_0_iff)
  ultimately show ?thesis by (simp add: round_pack_scale_to_0 f64_of_int_def)
qed

lemma zero_bits: "with_sign False 0 = f64_of_int 0"
  by (simp add: f64_of_int_def round_pack_def Let_def)

text \<open>The sum of two aligned significands: common exponent, exact integer sum.\<close>

lemma fadd_fp_scaled:
  assumes nz: "a + b \<noteq> 0 \<or> \<not> (s \<and> t)"
    and n: "sgnd s n = a * 2 ^ j" and m: "sgnd t m = b * 2 ^ k"
  shows "fadd_fp (FFin s n (- int j)) (FFin t m (- int k)) = f64_of_int (a + b)"
proof -
  define M where "M = max j k"
  have g: "min (- int j) (- int k) = - int M" by (simp add: M_def)
  have "M = j + (M - j)" "M = k + (M - k)" by (auto simp: M_def)
  then have e: "nat (- int j - - int M) = M - j" "nat (- int k - - int M) = M - k"
    and p: "(2 :: int) ^ M = 2 ^ j * 2 ^ (M - j)" "(2 :: int) ^ M = 2 ^ k * 2 ^ (M - k)"
    by (auto simp flip: power_add)
  have s1: "sgnd s (n * 2 ^ x) = sgnd s n * 2 ^ x" and s2: "sgnd t (m * 2 ^ x) = sgnd t m * 2 ^ x" for x
    by (simp_all add: sgnd_def)
  have v: "sgnd s (n * 2 ^ (M - j)) + sgnd t (m * 2 ^ (M - k)) = (a + b) * 2 ^ M"
    unfolding s1 s2 n m distrib_right mult.assoc p(1) [symmetric] p(2) [symmetric] ..
  show ?thesis
  proof (cases "a + b = 0")
    case True
    then show ?thesis unfolding fadd_fp.simps Let_def g e v using nz by (auto simp: zero_bits)
  next
    case False
    then show ?thesis unfolding fadd_fp.simps Let_def g e v
      using round_pack_int [OF refl, of "a + b" M] by simp
  qed
qed

lemma fadd_of_int:
  assumes "\<bar>a\<bar> < 2 ^ 53" "\<bar>b\<bar> < 2 ^ 53"
  shows "fadd (f64_of_int a) (f64_of_int b) = f64_of_int (a + b)"
proof -
  obtain j where j: "unpack (f64_of_int a) = FFin (a < 0) (nat \<bar>a\<bar> * 2 ^ j) (- int j)"
    using unpack_of_int assms(1) by blast
  obtain k where k: "unpack (f64_of_int b) = FFin (b < 0) (nat \<bar>b\<bar> * 2 ^ k) (- int k)"
    using unpack_of_int assms(2) by blast
  show ?thesis unfolding fadd_def j k
    by (rule fadd_fp_scaled) (auto simp: sgnd_scaled)
qed

lemma fsub_of_int:
  assumes "\<bar>a\<bar> < 2 ^ 53" "\<bar>b\<bar> < 2 ^ 53"
  shows "fsub (f64_of_int a) (f64_of_int b) = f64_of_int (a - b)"
proof -
  obtain j where j: "unpack (f64_of_int a) = FFin (a < 0) (nat \<bar>a\<bar> * 2 ^ j) (- int j)"
    using unpack_of_int assms(1) by blast
  obtain k where k: "unpack (f64_of_int b) = FFin (b < 0) (nat \<bar>b\<bar> * 2 ^ k) (- int k)"
    using unpack_of_int assms(2) by blast
  have "fadd_fp (FFin (a < 0) (nat \<bar>a\<bar> * 2 ^ j) (- int j)) (FFin (\<not> b < 0) (nat \<bar>b\<bar> * 2 ^ k) (- int k))
      = f64_of_int (a + - b)"
    by (rule fadd_fp_scaled) (auto simp: sgnd_def)
  then show ?thesis unfolding fsub_def j k by (simp add: fneg_fp_def)
qed

lemma fmul_of_int:
  assumes "\<bar>a\<bar> < 2 ^ 53" "\<bar>b\<bar> < 2 ^ 53" "a \<noteq> 0" "b \<noteq> 0"
  shows "fmul (f64_of_int a) (f64_of_int b) = f64_of_int (a * b)"
proof -
  obtain j where j: "unpack (f64_of_int a) = FFin (a < 0) (nat \<bar>a\<bar> * 2 ^ j) (- int j)"
    using unpack_of_int assms(1) by blast
  obtain k where k: "unpack (f64_of_int b) = FFin (b < 0) (nat \<bar>b\<bar> * 2 ^ k) (- int k)"
    using unpack_of_int assms(2) by blast
  have "nat \<bar>a\<bar> * 2 ^ j * (nat \<bar>b\<bar> * 2 ^ k) = nat \<bar>a * b\<bar> * 2 ^ (j + k)"
    by (simp add: abs_mult nat_mult_distrib power_add ac_simps)
  moreover have "((a < 0) \<noteq> (b < 0)) = (a * b < 0)" using assms by (auto simp: mult_less_0_iff)
  moreover have "- int j + - int k = - int (j + k)" by simp
  ultimately show ?thesis unfolding fmul_def j k fmul_fp.simps
    by (simp only: round_pack_scale_to_0 f64_of_int_def)
qed

lemma is_zero_of_int: "\<bar>i\<bar> < 2 ^ 53 \<Longrightarrow> is_zero (f64_of_int i) \<longleftrightarrow> i = 0"
  by (erule unpack_of_int) (auto simp: is_zero_def)

lemma lt_zero_of_int: "\<bar>i\<bar> < 2 ^ 53 \<Longrightarrow> lt_zero (f64_of_int i) \<longleftrightarrow> i < 0"
  by (erule unpack_of_int) (auto simp: lt_zero_def)

lemma le_zero_of_int: "\<bar>i\<bar> < 2 ^ 53 \<Longrightarrow> le_zero (f64_of_int i) \<longleftrightarrow> i \<le> 0"
  by (auto simp: le_zero_def lt_zero_of_int is_zero_of_int)

lemma ge_zero_of_int: "\<bar>i\<bar> < 2 ^ 53 \<Longrightarrow> ge_zero (f64_of_int i) \<longleftrightarrow> 0 \<le> i"
  by (erule unpack_of_int) (auto simp: ge_zero_def)

lemma ne_zero_of_int: "\<bar>i\<bar> < 2 ^ 53 \<Longrightarrow> ne_zero (f64_of_int i) \<longleftrightarrow> i \<noteq> 0"
  by (simp add: ne_zero_def is_zero_of_int)

lemma to_size_t_of_int:
  assumes "0 \<le> i" "i < 2 ^ 53"
  shows "to_size_t (f64_of_int i) = Some (word_of_int i)"
proof -
  obtain j where j: "unpack (f64_of_int i) = FFin (i < 0) (nat \<bar>i\<bar> * 2 ^ j) (- int j)"
    using unpack_of_int [of i] assms by auto
  have "nat i < 2 ^ 64" using assms by simp
  moreover have "(word_of_nat (nat i) :: u64) = word_of_int i" using assms by simp
  ultimately show ?thesis using assms unfolding to_size_t_def j by (cases "j = 0") auto
qed

lemma fmod_of_nat:
  assumes "0 \<le> a" "a < 2 ^ 53" "0 < b" "b < 2 ^ 53"
  shows "fmod (f64_of_int a) (f64_of_int b) = f64_of_int (a mod b)"
proof -
  obtain j where j: "unpack (f64_of_int a) = FFin (a < 0) (nat \<bar>a\<bar> * 2 ^ j) (- int j)"
    using unpack_of_int [of a] assms by auto
  obtain k where k: "unpack (f64_of_int b) = FFin (b < 0) (nat \<bar>b\<bar> * 2 ^ k) (- int k)"
    using unpack_of_int [of b] assms by auto
  define M where "M = max j k"
  have g: "min (- int j) (- int k) = - int M" by (simp add: M_def)
  have "M = j + (M - j)" "M = k + (M - k)" by (auto simp: M_def)
  then have e: "nat (- int j - - int M) = M - j" "nat (- int k - - int M) = M - k"
    and p: "(2 :: nat) ^ M = 2 ^ j * 2 ^ (M - j)" "(2 :: nat) ^ M = 2 ^ k * 2 ^ (M - k)"
    by (auto simp flip: power_add)
  have r: "nat \<bar>a\<bar> * 2 ^ j * 2 ^ (M - j) mod (nat \<bar>b\<bar> * 2 ^ k * 2 ^ (M - k)) = nat (a mod b) * 2 ^ M"
    using assms by (simp add: mult.assoc nat_mod_distrib mult_mod_left flip: p)
  have "nat \<bar>a mod b\<bar> = nat (a mod b)" "\<not> a mod b < 0" using assms by (auto simp: not_less)
  then show ?thesis unfolding fmod_def j k fmod_fp.simps Let_def g e r
    using assms by (simp add: round_pack_scale_to_0 f64_of_int_def)
qed

end
