(* ===== verification/K3s_Object.thy ===== *)
theory K3s_Object
  imports K3s_Isa K3s_Double
begin

text \<open>
  Registers (interpreter/register.h) and the heap objects of interpreter/types/: \<open>Array\<close>,
  \<open>String\<close>, \<open>Function\<close> and \<open>Object\<close>, each behind an \<open>ObjectHeader\<close>
  (allocator/object_header.h).  A register is a type tag and 64 bits, the bits being a
  \<open>double\<close> or the address of an object.  A body keeps what the C++ object stores: the elements of
  an array, the bytes of a string without the terminating NUL, the target pc, receiver, inputs and
  outputs of a function, the field mapping and the fields of an object.  \<open>slots\<close> lists the
  registers inside a body in the order in which the collector visits them.  Sizes are those of the
  default build (the debug mark of the header is present).
\<close>

type_synonym addr = u64
type_synonym cstring = "byte list"

subsection \<open>Registers\<close>

record register =
  r_type :: rtype
  r_value :: u64

definition reg_reset :: register where
  "reg_reset = \<lparr>r_type = ANY, r_value = 0\<rparr>"

definition IsPrimitive :: "register \<Rightarrow> bool" where
  "IsPrimitive r \<longleftrightarrow> r_type r = NUM \<or> r_type r = ANY"

text \<open>\<open>Set(Type, uint64_t)\<close> asserts that the type is not NUM; \<open>Set(double)\<close> and the pointer overloads do not fail.\<close>

definition set_typed :: "rtype \<Rightarrow> u64 \<Rightarrow> register res" where
  "set_typed t v = guard (t \<noteq> NUM) AssertFailed (Inr \<lparr>r_type = t, r_value = v\<rparr>)"

definition set_num :: "f64 \<Rightarrow> register" where
  "set_num d = \<lparr>r_type = NUM, r_value = d\<rparr>"

definition set_str :: "addr \<Rightarrow> register" where
  "set_str p = \<lparr>r_type = STR_T, r_value = p\<rparr>"

definition set_func :: "addr \<Rightarrow> register" where
  "set_func p = \<lparr>r_type = FUNC, r_value = p\<rparr>"

definition set_obj :: "addr \<Rightarrow> register" where
  "set_obj p = \<lparr>r_type = OBJ, r_value = p\<rparr>"

definition set_arr :: "addr \<Rightarrow> register" where
  "set_arr p = \<lparr>r_type = ARR, r_value = p\<rparr>"

text \<open>\<open>GetAsNum\<close> does not look at the type; the pointer getters do, and abort on a mismatch.\<close>

definition GetAsNum :: "register \<Rightarrow> f64" where
  "GetAsNum r = r_value r"

definition get_as :: "rtype \<Rightarrow> register \<Rightarrow> addr res" where
  "get_as t r = (if r_type r \<noteq> t then Inl (Fatal ''TypeError'') else Inr (r_value r))"

definition GetAsFunction :: "register \<Rightarrow> addr res" where
  "GetAsFunction = get_as FUNC"

definition GetAsArray :: "register \<Rightarrow> addr res" where
  "GetAsArray = get_as ARR"

definition GetAsObject :: "register \<Rightarrow> addr res" where
  "GetAsObject = get_as OBJ"

definition GetAsString :: "register \<Rightarrow> addr res" where
  "GetAsString = get_as STR_T"

subsection \<open>Objects\<close>

type_synonym mapping = "(cstring \<times> u64) list"

datatype body =
    Array (elems: "register list")
  | String (data: cstring)
  | Function (target_pc: u64) (this_reg: register) (inputs: "register list") (outputs: "register list")
  | Object (map_ref: mapping) (fields: "register list")

record obj =
  o_mark :: u64
  o_size :: u64       \<comment> \<open>\<open>allocated_size_\<close>\<close>
  o_reloc :: addr     \<comment> \<open>\<open>relocated_ptr_\<close>, 0 is nullptr\<close>
  o_body :: body

definition new_obj :: "u64 \<Rightarrow> body \<Rightarrow> obj" where
  "new_obj n b = \<lparr>o_mark = 0, o_size = n, o_reloc = 0, o_body = b\<rparr>"

definition INPUTS_COUNT :: nat where
  "INPUTS_COUNT = 4"

definition OUTPUTS_COUNT :: nat where
  "OUTPUTS_COUNT = 4"

definition new_function :: "u64 \<Rightarrow> body" where
  "new_function pc = Function pc reg_reset (replicate INPUTS_COUNT reg_reset) (replicate OUTPUTS_COUNT reg_reset)"

text \<open>
  \<open>sizeof\<close> on the 64-bit ABI: a header is the 16-bit debug mark padded to eight bytes, the mark,
  the allocated size and the relocation pointer; a register is a one-byte type padded to eight
  bytes and a value.
\<close>

definition sizeof_header :: u64 where "sizeof_header = 32"
definition sizeof_register :: u64 where "sizeof_register = 16"
definition sizeof_array :: u64 where "sizeof_array = sizeof_header + 8"
definition sizeof_string :: u64 where "sizeof_string = sizeof_header + 8"
definition sizeof_object :: u64 where "sizeof_object = sizeof_header + 8"
definition sizeof_function :: u64 where
  "sizeof_function = sizeof_header + 8 + sizeof_register * (1 + of_nat INPUTS_COUNT + of_nat OUTPUTS_COUNT)"

lemmas sizeof_defs = sizeof_header_def sizeof_register_def sizeof_array_def sizeof_string_def
  sizeof_object_def sizeof_function_def INPUTS_COUNT_def OUTPUTS_COUNT_def

fun slots :: "body \<Rightarrow> register list" where
  "slots (Array es) = es"
| "slots (String bs) = []"
| "slots (Function p t ins outs) = t # ins @ outs"
| "slots (Object m fs) = fs"

fun set_slot :: "body \<Rightarrow> nat \<Rightarrow> register \<Rightarrow> body" where
  "set_slot (Array es) i r = Array (es[i := r])"
| "set_slot (String bs) i r = String bs"
| "set_slot (Function p t ins outs) i r =
     (case i of
        0 \<Rightarrow> Function p r ins outs
      | Suc j \<Rightarrow> if j < length ins then Function p t (ins[j := r]) outs
                else Function p t ins (outs[j - length ins := r]))"
| "set_slot (Object m fs) i r = Object m (fs[i := r])"

text \<open>The body a register of each type points to (\<open>static_cast\<close> trusts the tag).\<close>

fun body_type :: "body \<Rightarrow> rtype" where
  "body_type (Array es) = ARR"
| "body_type (String bs) = STR_T"
| "body_type (Function p t ins outs) = FUNC"
| "body_type (Object m fs) = OBJ"

definition slots_as :: "rtype \<Rightarrow> body \<Rightarrow> register list res" where
  "slots_as t b = (if body_type b = t then Inr (slots b) else Inl Undefined)"

subsection \<open>Slots\<close>

lemma length_slots_set [simp]: "length (slots (set_slot b i r)) = length (slots b)"
  by (cases b) (auto split: nat.splits)

lemma body_type_set [simp]: "body_type (set_slot b i r) = body_type b"
  by (cases b) (auto split: nat.splits)

lemma slots_set: "i < length (slots b) \<Longrightarrow> slots (set_slot b i r) = (slots b)[i := r]"
  by (cases b) (auto split: nat.splits simp: list_update_append)

lemma set_slot_same: "i < length (slots b) \<Longrightarrow> set_slot b i (slots b ! i) = b"
  by (cases b) (auto split: nat.splits simp: nth_append)

text \<open>Two bodies that agree outside their slots: what relocation may change of an object.\<close>

fun shape :: "body \<Rightarrow> rtype \<times> u64 \<times> cstring \<times> mapping \<times> nat \<times> nat" where
  "shape (Array es) = (ARR, 0, [], [], length es, 0)"
| "shape (String bs) = (STR_T, 0, bs, [], 0, 0)"
| "shape (Function p t ins outs) = (FUNC, p, [], [], length ins, length outs)"
| "shape (Object m fs) = (OBJ, 0, [], m, length fs, 0)"

lemma shape_set_slot [simp]: "shape (set_slot b i r) = shape b"
  by (cases b) (auto split: nat.splits)

lemma shape_length_slots: "shape b = shape c \<Longrightarrow> length (slots b) = length (slots c)"
  by (cases b; cases c) auto

lemma shape_slots_eq: "shape b = shape c \<Longrightarrow> slots b = slots c \<Longrightarrow> b = c"
  by (cases b; cases c) auto

lemma shape_body_type: "shape b = shape c \<Longrightarrow> body_type b = body_type c"
  by (cases b; cases c) auto

end
