(* ===== verification/K3s_Heap.thy ===== *)
theory K3s_Heap
  imports K3s_Object "HOL-Library.AList"
begin

text \<open>
  The state of the virtual machine and its memory.  \<open>vm\<close> gathers what \<open>Runtime\<close>
  (runtime/runtime.h) holds: the objects on the heap, the cursors of the three object regions
  (allocator/region.h, allocator/gc_region.h), the interpreter's frames, program counter and
  program (interpreter/interpreter.h), the collector's fields (allocator/gc.h), the constant pool
  (classfile/class_file.h) and what DUMP has written.

  A pool is named by its template argument \<open>N_REGIONS\<close>: 2 and 1 are the two survivor regions, 0
  is the tenured region.  Memory is a map from the address of an object to the object.  Resetting a
  region only resets its cursor, as in the code, so the objects of a collected region stay readable
  until a new object is placed over them: \<open>place\<close> removes every object that starts inside the
  new one.
  What the regions promise to the constructors of objects is the locale \<open>object_allocator\<close> of the
  theory \<open>K3s_Safety\<close>.
\<close>

subsection \<open>Constant pool\<close>

record 'v element =
  e_type :: rtype
  e_val :: 'v

text \<open>
  The values of a loaded pool.  A pointer to constant data is modelled by the data: the bytes of a
  string, and the vector \<open>methods_bc_offs\<close> (its first entry is the number of methods).
\<close>

datatype cval = CBits u64 | CText cstring | CMethods "u64 list"

record const_pool =
  cp_data :: "cval element list"
  cp_maps :: "mapping list"

definition CONSTANT_POOL_SIZE :: nat where
  "CONSTANT_POOL_SIZE = 256"

definition pool_set :: "byte \<Rightarrow> rtype \<Rightarrow> 'v \<Rightarrow> 'v element list \<Rightarrow> 'v element list" where
  "pool_set i t v es = es[unat i := \<lparr>e_type = t, e_val = v\<rparr>]"

definition pool_get :: "byte \<Rightarrow> 'v element list \<Rightarrow> 'v element res" where
  "pool_get i es = nth_res es (unat i)"

definition GetFunctionBytecodeOffset :: "byte \<Rightarrow> 'v element list \<Rightarrow> 'v res" where
  "GetFunctionBytecodeOffset i es =
     rbind (pool_get i es) (\<lambda>e. guard (e_type e = FUNC) AssertFailed (Inr (e_val e)))"

definition empty_pool :: const_pool where
  "empty_pool =
     \<lparr>cp_data = replicate CONSTANT_POOL_SIZE \<lparr>e_type = ANY, e_val = CBits 0\<rparr>,
      cp_maps = replicate CONSTANT_POOL_SIZE []\<rparr>"

subsection \<open>The machine\<close>

record frame =
  f_acc :: register
  f_regs :: "register list"
  f_caller_pc :: u64
  f_callee :: addr

text \<open>A register outside the heap, by frame (0 is the top of the stack).\<close>

datatype root = RCallee nat | RAcc nat | RReg nat nat

text \<open>\<open>DanglingReference\<close>: a root (offset 0) or a slot of a holder object.\<close>

datatype dangling = DRoot root | DSlot addr nat

record gc_stage =
  target_objects :: "addr list"              \<comment> \<open>the last element of the vector first\<close>
  estimating_realloc_size :: u64
  references_to_targets :: "dangling list"   \<comment> \<open>the last element of the vector first\<close>

datatype out_item = OText string | ONum f64 | OBytes cstring | OWord u64

type_synonym heap = "(addr \<times> obj) list"

record vm =
  objs :: heap
  cursors :: "nat \<Rightarrow> u64"
  frames :: "frame list"          \<comment> \<open>\<open>state_stack_\<close>, top first\<close>
  pc :: u64
  program :: "inst list"
  gc_mark :: u64
  gc_forbidden :: bool
  stages :: "gc_stage list"       \<comment> \<open>\<open>stages_stack_\<close>, top first\<close>
  gc_cursor :: nat                \<comment> \<open>cursor of the region of the collector's vectors\<close>
  cpool :: const_pool
  out :: "out_item list"

subsection \<open>Regions\<close>

definition ALLOC_START_ADDR :: u64 where "ALLOC_START_ADDR = 0xE000000"
definition ALLOC_SIZE :: u64 where "ALLOC_SIZE = 1024 * 1024 * 32"
definition OBJECTS_START :: u64 where "OBJECTS_START = ALLOC_START_ADDR + ALLOC_SIZE div 2"
definition OBJECTS_SIZE :: u64 where "OBJECTS_SIZE = ALLOC_SIZE div 2"
definition GC_INTERNALS_SIZE :: u64 where "GC_INTERNALS_SIZE = ALLOC_SIZE div 8"
definition STACK_SIZE :: u64 where "STACK_SIZE = ALLOC_SIZE div 8"
definition TENURED_SIZE :: u64 where "TENURED_SIZE = OBJECTS_SIZE div 4"
definition SURVIVORS_N :: nat where "SURVIVORS_N = 2"
definition SURVIVORS_SIZE :: u64 where
  "SURVIVORS_SIZE = (OBJECTS_SIZE - TENURED_SIZE) div of_nat SURVIVORS_N"

text \<open>
  \<open>RegionsPool<START_PTR, REGION_SIZE, N, REMAINING_SIZE>\<close> and its nested pools: start address
  and size of the region \<open>this_\<close> of the pool with \<open>N\<close> regions.
\<close>

fun pool_params :: "nat \<Rightarrow> nat \<Rightarrow> u64 \<Rightarrow> u64 \<Rightarrow> (u64 \<times> u64)" where
  "pool_params N 0 start rem = (start, if N = 0 then rem else SURVIVORS_SIZE)"
| "pool_params N (Suc k) start rem =
     pool_params (N - 1) k (start + SURVIVORS_SIZE) (rem - SURVIVORS_SIZE)"

definition START_PTR :: "nat \<Rightarrow> u64" where
  "START_PTR N = fst (pool_params SURVIVORS_N (SURVIVORS_N - N) OBJECTS_START OBJECTS_SIZE)"

definition REGION_SIZE :: "nat \<Rightarrow> u64" where
  "REGION_SIZE N = snd (pool_params SURVIVORS_N (SURVIVORS_N - N) OBJECTS_START OBJECTS_SIZE)"

definition MAX_ALLOC_SIZE :: "nat \<Rightarrow> u64" where
  "MAX_ALLOC_SIZE N = REGION_SIZE N - 8"

definition Contains :: "nat \<Rightarrow> addr \<Rightarrow> bool" where
  "Contains N p \<longleftrightarrow> p \<ge> START_PTR N \<and> p < START_PTR N + REGION_SIZE N"

definition Reset :: "nat \<Rightarrow> vm \<Rightarrow> vm" where
  "Reset N s = s\<lparr>cursors := (cursors s)(N := 8)\<rparr>"

definition GetRemainingSpace :: "nat \<Rightarrow> vm \<Rightarrow> u64" where
  "GetRemainingSpace N s = REGION_SIZE N - cursors s N"

text \<open>\<open>Region::AllocBytes\<close>; the addition is 64-bit.\<close>

definition AllocBytes :: "nat \<Rightarrow> u64 \<Rightarrow> vm \<Rightarrow> (addr \<times> vm) res" where
  "AllocBytes N n s =
     (let new_cursor = cursors s N + n
      in if new_cursor > REGION_SIZE N then Inl (Fatal ''ALLOCATOR OOM'')
         else Inr (START_PTR N + cursors s N, s\<lparr>cursors := (cursors s)(N := new_cursor)\<rparr>))"

subsection \<open>Memory\<close>

definition hget :: "addr \<Rightarrow> vm \<Rightarrow> obj res" where
  "hget a s = of_opt Undefined (map_of (objs s) a)"

definition hput :: "addr \<Rightarrow> obj \<Rightarrow> vm \<Rightarrow> vm" where
  "hput a b s = s\<lparr>objs := AList.update a b (objs s)\<rparr>"

text \<open>Placement \<open>new\<close> and \<open>memcpy\<close> into fresh storage of \<open>n\<close> bytes.\<close>

definition place :: "addr \<Rightarrow> u64 \<Rightarrow> obj \<Rightarrow> vm \<Rightarrow> vm" where
  "place a n b s =
     s\<lparr>objs := AList.update a b (filter (\<lambda>(p, _). \<not> (a \<le> p \<and> p < a + n)) (objs s))\<rparr>"

definition read_root :: "root \<Rightarrow> vm \<Rightarrow> register res" where
  "read_root r s =
     (case r of
        RCallee i \<Rightarrow> rbind (nth_res (frames s) i) (\<lambda>f. Inr (set_func (f_callee f)))
      | RAcc i \<Rightarrow> rbind (nth_res (frames s) i) (\<lambda>f. Inr (f_acc f))
      | RReg i j \<Rightarrow> rbind (nth_res (frames s) i) (\<lambda>f. nth_res (f_regs f) j))"

text \<open>Writing through \<open>ObjectHeader **\<close>: the pointer changes, the type tag stays.\<close>

definition write_root_frame :: "root \<Rightarrow> addr \<Rightarrow> frame \<Rightarrow> frame" where
  "write_root_frame r a f =
     (case r of
        RCallee i \<Rightarrow> f\<lparr>f_callee := a\<rparr>
      | RAcc i \<Rightarrow> f\<lparr>f_acc := (f_acc f)\<lparr>r_value := a\<rparr>\<rparr>
      | RReg i j \<Rightarrow> f\<lparr>f_regs := (f_regs f)[j := (f_regs f ! j)\<lparr>r_value := a\<rparr>]\<rparr>)"

definition root_frame :: "root \<Rightarrow> nat" where
  "root_frame r = (case r of RCallee i \<Rightarrow> i | RAcc i \<Rightarrow> i | RReg i j \<Rightarrow> i)"

definition write_root :: "root \<Rightarrow> addr \<Rightarrow> vm \<Rightarrow> vm" where
  "write_root r a s =
     s\<lparr>frames := (frames s)[root_frame r := write_root_frame r a (frames s ! root_frame r)]\<rparr>"

definition write_slot :: "addr \<Rightarrow> nat \<Rightarrow> addr \<Rightarrow> obj \<Rightarrow> vm \<Rightarrow> vm" where
  "write_slot h i a b s =
     hput h (b\<lparr>o_body := set_slot (o_body b) i ((slots (o_body b) ! i)\<lparr>r_value := a\<rparr>)\<rparr>) s"

subsection \<open>Facts about regions\<close>

lemma region_sizes [simp]:
  "OBJECTS_START = 251658240" "OBJECTS_SIZE = 16777216" "TENURED_SIZE = 4194304"
  "SURVIVORS_SIZE = 6291456"
  by (simp_all add: SURVIVORS_SIZE_def OBJECTS_SIZE_def SURVIVORS_N_def
      OBJECTS_START_def TENURED_SIZE_def ALLOC_START_ADDR_def ALLOC_SIZE_def)

lemma pool_params_values:
  "pool_params 2 0 OBJECTS_START OBJECTS_SIZE = (251658240, 6291456)"
  "pool_params 2 (Suc 0) OBJECTS_START OBJECTS_SIZE = (257949696, 6291456)"
  "pool_params 2 (Suc (Suc 0)) OBJECTS_START OBJECTS_SIZE = (264241152, 4194304)"
  by simp_all

lemma region_values [simp]:
  "START_PTR 2 = 251658240" "START_PTR (Suc 0) = 257949696" "START_PTR 0 = 264241152"
  "REGION_SIZE 2 = 6291456" "REGION_SIZE (Suc 0) = 6291456" "REGION_SIZE 0 = 4194304"
proof -
  have two: "2 - 0 = Suc (Suc 0)" "2 - Suc 0 = Suc 0" "2 - 2 = (0 :: nat)" by simp_all
  show "START_PTR 2 = 251658240" "START_PTR (Suc 0) = 257949696" "START_PTR 0 = 264241152"
    "REGION_SIZE 2 = 6291456" "REGION_SIZE (Suc 0) = 6291456" "REGION_SIZE 0 = 4194304"
    unfolding START_PTR_def REGION_SIZE_def SURVIVORS_N_def two pool_params_values by simp_all
qed

lemma hget_eq_Inr [res_simps]: "hget a s = Inr b \<longleftrightarrow> map_of (objs s) a = Some b"
  by (simp add: hget_def res_simps)

lemma map_of_hput [simp]: "map_of (objs (hput a b s)) p = (if p = a then Some b else map_of (objs s) p)"
  by (simp add: hput_def AList.update_conv')

lemma map_of_filter_key: "map_of (filter (\<lambda>(p, _). P p) xs) a = (if P a then map_of xs a else None)"
  by (induction xs) auto

lemma map_of_place [simp]:
  "map_of (objs (place a n b s)) p =
     (if p = a then Some b else if a \<le> p \<and> p < a + n then None else map_of (objs s) p)"
  by (simp add: place_def AList.update_conv' map_of_filter_key)

lemma hput_fields [simp]:
  "cursors (hput a b s) = cursors s" "frames (hput a b s) = frames s" "pc (hput a b s) = pc s"
  "program (hput a b s) = program s" "gc_mark (hput a b s) = gc_mark s"
  "gc_forbidden (hput a b s) = gc_forbidden s" "stages (hput a b s) = stages s"
  "cpool (hput a b s) = cpool s" "out (hput a b s) = out s"
  by (simp_all add: hput_def)

lemma place_fields [simp]:
  "cursors (place a n b s) = cursors s" "frames (place a n b s) = frames s" "pc (place a n b s) = pc s"
  "program (place a n b s) = program s" "gc_mark (place a n b s) = gc_mark s"
  "gc_forbidden (place a n b s) = gc_forbidden s" "stages (place a n b s) = stages s"
  "cpool (place a n b s) = cpool s" "out (place a n b s) = out s"
  by (simp_all add: place_def)

end
