(* ===== verification/K3s_Asm.thy ===== *)
theory K3s_Asm
  imports K3s_Heap
begin

unbundle bit_operations_syntax

text \<open>
  The assembler (assembler/assembler.h, assembler/templates/grammar.l.erb).  \<open>asm\<close> holds the
  fields of \<open>AsmEncoder\<close>; the static member functions become operations on it.  A parsed source
  file is a list of declarations, and \<open>assemble\<close> performs the grammar's actions in the order in
  which the parser reduces.  The hash maps are association lists: a key is inserted once.
  The lemmas show that a jump reaches its label, whether the label is defined before or after it,
  and that the decoder reads back what \<open>Encode\<close> wrote.
\<close>

subsection \<open>State\<close>

record object_descr =
  data_fields :: "cstring list"
  methods :: "cstring list"
  methods_bc_offsets :: "u64 list"

record asm =
  instructions_buffer :: "inst list"
  declared_objects :: "(cstring \<times> byte) list"
  declared_labels :: "(cstring \<times> nat) list"
  unresolved_labels :: "(cstring \<times> nat list) list"
  strings_storage :: "cstring list"
  objects_storage :: "object_descr list"
  constant_pool :: "u64 element list"
  temp_idx :: byte
  is_class_context :: bool

definition empty_asm :: asm where
  "empty_asm =
     \<lparr>instructions_buffer = [], declared_objects = [], declared_labels = [], unresolved_labels = [],
      strings_storage = [], objects_storage = [],
      constant_pool = replicate CONSTANT_POOL_SIZE \<lparr>e_type = ANY, e_val = 0\<rparr>,
      temp_idx = 0, is_class_context = False\<rparr>"

subsection \<open>Instructions\<close>

definition emit :: "byte \<Rightarrow> byte \<Rightarrow> asm \<Rightarrow> asm" where
  "emit opc ops s = s\<lparr>instructions_buffer := instructions_buffer s @ [\<lparr>i_opcode = opc, i_operands = ops\<rparr>]\<rparr>"

text \<open>\<open>Encode<8, 4, 4>\<close>, \<open>Encode<8, 8>\<close> and \<open>Encode<8>\<close>.\<close>

definition Encode2 :: "byte \<Rightarrow> byte \<Rightarrow> byte \<Rightarrow> asm \<Rightarrow> asm res" where
  "Encode2 opc op1 op2 s =
     guard (op1 \<le> FIRST_NEAR_REG_MASK) AssertFailed
       (Inr (emit opc (push_bit SECOND_NEAR_REG_SHIFT op2 OR op1) s))"

definition Encode1 :: "byte \<Rightarrow> byte \<Rightarrow> asm \<Rightarrow> asm" where
  "Encode1 opc operand s = emit opc operand s"

definition Encode0 :: "byte \<Rightarrow> asm \<Rightarrow> asm" where
  "Encode0 opc s = emit opc 0 s"

subsection \<open>Declarations\<close>

text \<open>The index of an identifier is the number of identifiers before it, as a \<open>uint8_t\<close>.\<close>

definition DeclareId :: "cstring \<Rightarrow> asm \<Rightarrow> asm res" where
  "DeclareId key s =
     guard (map_of (declared_objects s) key = None) AssertFailed
       (let idx = of_nat (length (declared_objects s))
        in Inr (s\<lparr>declared_objects := declared_objects s @ [(key, idx)], temp_idx := idx\<rparr>))"

definition set_pool :: "rtype \<Rightarrow> u64 \<Rightarrow> asm \<Rightarrow> asm" where
  "set_pool t v s = s\<lparr>constant_pool := pool_set (temp_idx s) t v (constant_pool s)\<rparr>"

definition DeclareAndDefineFunction :: "cstring \<Rightarrow> asm \<Rightarrow> asm res" where
  "DeclareAndDefineFunction name s =
     rbind (DeclareId name s) (\<lambda>s1. Inr (set_pool FUNC (of_nat (length (instructions_buffer s1))) s1))"

text \<open>\<open>objects_storage_.back()\<close> is undefined on an empty vector.\<close>

definition with_last_object :: "(object_descr \<Rightarrow> object_descr) \<Rightarrow> asm \<Rightarrow> asm res" where
  "with_last_object f s =
     guard (objects_storage s \<noteq> []) Undefined
       (Inr (s\<lparr>objects_storage := butlast (objects_storage s) @ [f (last (objects_storage s))]\<rparr>))"

definition DeclareAndDefineMethod :: "cstring \<Rightarrow> asm \<Rightarrow> asm res" where
  "DeclareAndDefineMethod name s =
     with_last_object (\<lambda>d. d\<lparr>methods := methods d @ [name],
        methods_bc_offsets := methods_bc_offsets d @ [of_nat (length (instructions_buffer s))]\<rparr>) s"

definition DeclareAndDefineAnyDataMember :: "cstring \<Rightarrow> asm \<Rightarrow> asm res" where
  "DeclareAndDefineAnyDataMember name = with_last_object (\<lambda>d. d\<lparr>data_fields := data_fields d @ [name]\<rparr>)"

definition DeclareObject :: "cstring \<Rightarrow> asm \<Rightarrow> asm res" where
  "DeclareObject name s =
     rbind (DeclareId name s) (\<lambda>s1.
       let s2 = set_pool OBJ (of_nat (length (objects_storage s1))) s1
       in Inr (s2\<lparr>objects_storage := objects_storage s2 @
                    [\<lparr>data_fields = [], methods = [], methods_bc_offsets = []\<rparr>]\<rparr>))"

definition FinalizeObject :: "asm \<Rightarrow> asm" where
  "FinalizeObject s = s\<lparr>is_class_context := False\<rparr>"

text \<open>\<open>atof\<close> on the NUM tokens of the lexer: the leading decimal digits.\<close>

definition is_digit :: "byte \<Rightarrow> bool" where
  "is_digit c \<longleftrightarrow> 48 \<le> c \<and> c \<le> 57"

definition atof :: "cstring \<Rightarrow> f64" where
  "atof cs = f64_of_int (foldl (\<lambda>n c. n * 10 + int (unat (c - 48))) 0 (takeWhile is_digit cs))"

definition DefineNum :: "cstring \<Rightarrow> asm \<Rightarrow> asm" where
  "DefineNum text s = set_pool NUM (atof text) s"

definition QUOTE :: byte where
  "QUOTE = 34"

text \<open>
  The token is the literal with its quotes, and the code sees it as a C string, which ends at the first
  NUL; \<open>back()\<close> of an empty string is undefined.
\<close>

definition DefineStr :: "cstring \<Rightarrow> asm \<Rightarrow> asm res" where
  "DefineStr text s =
     (case takeWhile (\<lambda>b. b \<noteq> 0) text of
        [] \<Rightarrow> Inl AssertFailed
      | q # rest \<Rightarrow>
          guard (q = QUOTE) AssertFailed
            (guard (rest \<noteq> []) Undefined
              (guard (last rest = QUOTE) AssertFailed
                (let s1 = s\<lparr>strings_storage := strings_storage s @ [butlast rest]\<rparr>
                 in Inr (set_pool STR_T (of_nat (length (strings_storage s1) - 1)) s1)))))"

subsection \<open>Labels\<close>

text \<open>The difference of the offsets truncated to \<open>int8_t\<close>, as the operand byte.\<close>

definition GetResolveRelativeOffset :: "nat \<Rightarrow> nat \<Rightarrow> byte" where
  "GetResolveRelativeOffset label_offset inst_offset = word_of_int (int label_offset - int inst_offset)"

definition AppendUnresolvedLabels :: "cstring \<Rightarrow> nat \<Rightarrow> asm \<Rightarrow> asm" where
  "AppendUnresolvedLabels l i s =
     s\<lparr>unresolved_labels :=
         AList.update l ((case map_of (unresolved_labels s) l of None \<Rightarrow> [] | Some is \<Rightarrow> is) @ [i])
           (unresolved_labels s)\<rparr>"

definition TryResolveName :: "cstring \<Rightarrow> asm \<Rightarrow> byte \<times> asm" where
  "TryResolveName key s =
     (case map_of (declared_objects s) key of
        Some idx \<Rightarrow> (idx, s)
      | None \<Rightarrow>
          let here = length (instructions_buffer s)
          in case map_of (declared_labels s) key of
               Some off \<Rightarrow> (GetResolveRelativeOffset off here, s)
             | None \<Rightarrow> (0, AppendUnresolvedLabels key here s))"

fun patch :: "nat \<Rightarrow> nat list \<Rightarrow> inst list \<Rightarrow> inst list res" where
  "patch off [] buf = Inr buf"
| "patch off (i # is) buf =
     rbind (nth_res buf i) (\<lambda>ins.
       patch off is (buf[i := ins\<lparr>i_operands := GetResolveRelativeOffset off i\<rparr>]))"

definition ResolveUnresolved :: "cstring \<Rightarrow> asm \<Rightarrow> asm res" where
  "ResolveUnresolved l s =
     (case map_of (declared_labels s) l of
        None \<Rightarrow> Inl AssertFailed
      | Some off \<Rightarrow>
          rbind (case map_of (unresolved_labels s) l of
                   None \<Rightarrow> Inr (instructions_buffer s)
                 | Some is \<Rightarrow> patch off is (instructions_buffer s))
            (\<lambda>buf. Inr (s\<lparr>instructions_buffer := buf,
                          unresolved_labels := AList.delete l (unresolved_labels s)\<rparr>)))"

definition DefineLabel :: "cstring \<Rightarrow> asm \<Rightarrow> asm res" where
  "DefineLabel l s =
     guard (map_of (declared_labels s) l = None) (Fatal ''ENCODER'')
       (ResolveUnresolved l (s\<lparr>declared_labels := (l, length (instructions_buffer s)) # declared_labels s\<rparr>))"

definition CheckLabelsResolved :: "asm \<Rightarrow> asm res" where
  "CheckLabelsResolved s =
     guard (unresolved_labels s = []) (Fatal ''ENCODER'')
       (guard (instructions_buffer s \<noteq> []) Undefined
         (guard (i_opcode (last (instructions_buffer s)) = of_nat (opc_num RET)) (Fatal ''ENCODER'')
           (Inr s)))"

subsection \<open>The grammar\<close>

datatype imm = ImmName cstring | ImmLit byte

datatype item =
    ILabel cstring
  | IRR opcode byte byte    \<comment> \<open>\<open>OPC_R4_R4 REG REG\<close>\<close>
  | IR opcode byte          \<comment> \<open>\<open>OPC_R8 REG\<close>\<close>
  | II opcode imm           \<comment> \<open>\<open>OPC_I8 IMM\<close>\<close>
  | IO opcode               \<comment> \<open>\<open>OPC\<close>\<close>

datatype member = Method cstring "item list" | DataMember cstring

datatype decl =
    DNum cstring cstring
  | DStr cstring cstring
  | DObj cstring "member list"
  | DFunc cstring "item list"

definition opc_byte :: "opcode \<Rightarrow> byte" where
  "opc_byte c = of_nat (opc_num c)"

fun assemble_item :: "item \<Rightarrow> asm \<Rightarrow> asm res" where
  "assemble_item (ILabel l) s = DefineLabel l s"
| "assemble_item (IRR c r1 r2) s = Encode2 (opc_byte c) r1 r2 s"
| "assemble_item (IR c r) s = Inr (Encode1 (opc_byte c) r s)"
| "assemble_item (II c (ImmLit i)) s = Inr (Encode1 (opc_byte c) i s)"
| "assemble_item (II c (ImmName n)) s =
     (let (v, s1) = TryResolveName n s in Inr (Encode1 (opc_byte c) v s1))"
| "assemble_item (IO c) s = Inr (Encode0 (opc_byte c) s)"

definition assemble_body :: "item list \<Rightarrow> asm \<Rightarrow> asm res" where
  "assemble_body items s = rbind (fold_res assemble_item items s) CheckLabelsResolved"

fun assemble_member :: "member \<Rightarrow> asm \<Rightarrow> asm res" where
  "assemble_member (Method n items) s = rbind (DeclareAndDefineMethod n s) (assemble_body items)"
| "assemble_member (DataMember n) s = DeclareAndDefineAnyDataMember n s"

fun assemble_decl :: "decl \<Rightarrow> asm \<Rightarrow> asm res" where
  "assemble_decl (DNum n text) s = rbind (DeclareId n s) (\<lambda>s1. Inr (DefineNum text s1))"
| "assemble_decl (DStr n text) s = rbind (DeclareId n s) (DefineStr text)"
| "assemble_decl (DObj n ms) s = rbind (DeclareObject n s) (fold_res assemble_member ms)"
| "assemble_decl (DFunc n items) s = rbind (DeclareAndDefineFunction n s) (assemble_body items)"

definition assemble :: "decl list \<Rightarrow> asm res" where
  "assemble ds = fold_res assemble_decl ds empty_asm"

subsection \<open>Reference: two passes\<close>

text \<open>
  The reference assembler: one pass collects the positions of the labels, a second pass emits every
  instruction with the final label environment.
\<close>

datatype operand_spec = Lit byte | Ref cstring

fun lower :: "item \<Rightarrow> (byte \<times> operand_spec) list" where
  "lower (ILabel l) = []"
| "lower (IRR c r1 r2) = [(opc_byte c, Lit (push_bit SECOND_NEAR_REG_SHIFT r2 OR r1))]"
| "lower (IR c r) = [(opc_byte c, Lit r)]"
| "lower (II c (ImmLit i)) = [(opc_byte c, Lit i)]"
| "lower (II c (ImmName n)) = [(opc_byte c, Ref n)]"
| "lower (IO c) = [(opc_byte c, Lit 0)]"

definition lower_all :: "item list \<Rightarrow> (byte \<times> operand_spec) list" where
  "lower_all items = concat (map lower items)"

fun label_positions :: "nat \<Rightarrow> item list \<Rightarrow> (cstring \<times> nat) list" where
  "label_positions p [] = []"
| "label_positions p (it # its) =
     (case it of ILabel l \<Rightarrow> label_positions p its @ [(l, p)]
               | _ \<Rightarrow> label_positions (p + length (lower it)) its)"

definition operand_value :: "(cstring \<rightharpoonup> byte) \<Rightarrow> (cstring \<rightharpoonup> nat) \<Rightarrow> nat \<Rightarrow> operand_spec \<Rightarrow> byte" where
  "operand_value ids labels i sp =
     (case sp of
        Lit b \<Rightarrow> b
      | Ref n \<Rightarrow> (case ids n of
                   Some idx \<Rightarrow> idx
                 | None \<Rightarrow> (case labels n of Some l \<Rightarrow> GetResolveRelativeOffset l i | None \<Rightarrow> 0)))"

fun second_pass ::
  "(cstring \<rightharpoonup> byte) \<Rightarrow> (cstring \<rightharpoonup> nat) \<Rightarrow> nat \<Rightarrow> (byte \<times> operand_spec) list \<Rightarrow> inst list" where
  "second_pass ids labels i [] = []"
| "second_pass ids labels i ((opc, sp) # es) =
     \<lparr>i_opcode = opc, i_operands = operand_value ids labels i sp\<rparr> # second_pass ids labels (Suc i) es"

lemma length_second_pass [simp]: "length (second_pass ids labels i es) = length es"
  by (induction ids labels i es rule: second_pass.induct) simp_all

lemma nth_second_pass:
  "k < length es \<Longrightarrow> second_pass ids labels i es ! k =
     \<lparr>i_opcode = fst (es ! k), i_operands = operand_value ids labels (i + k) (snd (es ! k))\<rparr>"
  by (induction ids labels i es arbitrary: k rule: second_pass.induct) (auto simp: nth_Cons split: nat.splits)

subsection \<open>Backpatching\<close>

lemma patch_spec:
  "patch off is buf = Inr buf' \<Longrightarrow>
     length buf' = length buf \<and>
     (\<forall>k < length buf. buf' ! k = (if k \<in> set is
        then (buf ! k)\<lparr>i_operands := GetResolveRelativeOffset off k\<rparr> else buf ! k))"
proof (induction off "is" buf rule: patch.induct)
  case (2 off i is' buf)
  then show ?case by (fastforce simp: res_simps nth_list_update)
qed simp

text \<open>
  The invariant of the one-pass assembler: \<open>B\<close> is the buffer at the start of the body, \<open>E\<close> what
  has been emitted since.  A reference to an undeclared identifier is resolved as soon as its label
  is known and recorded until then.
\<close>

definition pending :: "asm \<Rightarrow> cstring \<Rightarrow> nat list" where
  "pending s n = (case map_of (unresolved_labels s) n of None \<Rightarrow> [] | Some is \<Rightarrow> is)"

definition emitted_ok :: "asm \<Rightarrow> nat \<Rightarrow> byte \<times> operand_spec \<Rightarrow> inst \<Rightarrow> bool" where
  "emitted_ok s i e ins \<longleftrightarrow>
     i_opcode ins = fst e \<and>
     (case snd e of
        Lit b \<Rightarrow> i_operands ins = b
      | Ref n \<Rightarrow>
          (case map_of (declared_objects s) n of
             Some idx \<Rightarrow> i_operands ins = idx
           | None \<Rightarrow> (case map_of (declared_labels s) n of
                       Some l \<Rightarrow> i_operands ins = GetResolveRelativeOffset l i
                     | None \<Rightarrow> i \<in> set (pending s n))))"

definition body_inv :: "inst list \<Rightarrow> (byte \<times> operand_spec) list \<Rightarrow> asm \<Rightarrow> bool" where
  "body_inv B E s \<longleftrightarrow>
     length (instructions_buffer s) = length B + length E \<and>
     (\<forall>k < length B. instructions_buffer s ! k = B ! k) \<and>
     (\<forall>k < length E. emitted_ok s (length B + k) (E ! k) (instructions_buffer s ! (length B + k))) \<and>
     (\<forall>n. \<forall>i \<in> set (pending s n). \<exists>k < length E. i = length B + k \<and>
        snd (E ! k) = Ref n \<and> map_of (declared_objects s) n = None) \<and>
     (\<forall>n. pending s n \<noteq> [] \<longrightarrow> map_of (declared_labels s) n = None)"

lemma body_invD:
  assumes "body_inv B E s"
  shows "length (instructions_buffer s) = length B + length E"
    and "k < length B \<Longrightarrow> instructions_buffer s ! k = B ! k"
    and "k < length E \<Longrightarrow> emitted_ok s (length B + k) (E ! k) (instructions_buffer s ! (length B + k))"
    and "i \<in> set (pending s n) \<Longrightarrow> \<exists>k < length E. i = length B + k \<and>
        snd (E ! k) = Ref n \<and> map_of (declared_objects s) n = None"
    and "pending s n \<noteq> [] \<Longrightarrow> map_of (declared_labels s) n = None"
  using assms by (auto simp: body_inv_def)

lemma emit_fields [simp]:
  "instructions_buffer (emit opc ops s) = instructions_buffer s @ [\<lparr>i_opcode = opc, i_operands = ops\<rparr>]"
  "declared_objects (emit opc ops s) = declared_objects s" "declared_labels (emit opc ops s) = declared_labels s"
  "unresolved_labels (emit opc ops s) = unresolved_labels s" "pending (emit opc ops s) = pending s"
  by (simp_all add: emit_def pending_def fun_eq_iff)

lemma emitted_ok_emit [simp]: "emitted_ok (emit opc ops s) = emitted_ok s"
  by (intro ext) (simp add: emitted_ok_def cong: operand_spec.case_cong option.case_cong)

text \<open>Emitting one instruction whose operand is as the invariant requires.\<close>

lemma body_inv_emit:
  assumes inv: "body_inv B E s" and ok: "emitted_ok s (length B + length E) e \<lparr>i_opcode = opc, i_operands = ops\<rparr>"
  shows "body_inv B (E @ [e]) (emit opc ops s)"
  using inv ok unfolding body_inv_def
  by (fastforce simp: nth_append less_Suc_eq)

lemma pending_append:
  "pending (AppendUnresolvedLabels l i s) n = (if n = l then pending s l @ [i] else pending s n)"
  by (auto simp: pending_def AppendUnresolvedLabels_def AList.update_conv')

lemma append_fields [simp]:
  "instructions_buffer (AppendUnresolvedLabels l i s) = instructions_buffer s"
  "declared_objects (AppendUnresolvedLabels l i s) = declared_objects s"
  "declared_labels (AppendUnresolvedLabels l i s) = declared_labels s"
  by (simp_all add: AppendUnresolvedLabels_def)

lemma body_inv_pend:
  assumes inv: "body_inv B E s"
    and new: "map_of (declared_objects s) n = None" "map_of (declared_labels s) n = None"
  shows "body_inv B (E @ [(opc, Ref n)])
           (emit opc 0 (AppendUnresolvedLabels n (length (instructions_buffer s)) s))"
proof -
  let ?s = "AppendUnresolvedLabels n (length (instructions_buffer s)) s"
  have keep: "emitted_ok ?s i e ins" if "emitted_ok s i e ins" for i e ins
    using that by (auto simp: emitted_ok_def pending_append split: operand_spec.splits option.splits)
  have new_ok: "emitted_ok ?s (length B + length E) (opc, Ref n) \<lparr>i_opcode = opc, i_operands = 0\<rparr>"
    using new body_invD(1) [OF inv] by (simp add: emitted_ok_def pending_append)
  show ?thesis
    unfolding body_inv_def
  proof (intro conjI allI ballI impI)
    fix m i assume "i \<in> set (pending (emit opc 0 ?s) m)"
    then consider "i \<in> set (pending s m)" | "m = n" "i = length B + length E"
      using body_invD(1) [OF inv] by (auto simp: pending_append split: if_splits)
    then show "\<exists>k < length (E @ [(opc, Ref n)]). i = length B + k \<and>
        snd ((E @ [(opc, Ref n)]) ! k) = Ref m \<and> map_of (declared_objects (emit opc 0 ?s)) m = None"
    proof cases
      case 1
      then show ?thesis using body_invD(4) [OF inv 1] by (auto simp: nth_append)
    next
      case 2
      then show ?thesis using new by auto
    qed
  qed (use inv new keep new_ok in \<open>auto simp: body_inv_def nth_append less_Suc_eq pending_append split: if_splits\<close>)
qed

lemma DefineLabel_spec:
  assumes def: "DefineLabel l s = Inr t"
  shows "map_of (declared_labels s) l = None"
    "declared_labels t = (l, length (instructions_buffer s)) # declared_labels s"
    "declared_objects t = declared_objects s"
    "length (instructions_buffer t) = length (instructions_buffer s)"
    "pending t n = (if n = l then [] else pending s n)"
    "k < length (instructions_buffer s) \<Longrightarrow> instructions_buffer t ! k =
       (if k \<in> set (pending s l)
        then (instructions_buffer s ! k)\<lparr>i_operands := GetResolveRelativeOffset (length (instructions_buffer s)) k\<rparr>
        else instructions_buffer s ! k)"
proof -
  let ?off = "length (instructions_buffer s)"
  from def have free: "map_of (declared_labels s) l = None"
    and res: "ResolveUnresolved l (s\<lparr>declared_labels := (l, ?off) # declared_labels s\<rparr>) = Inr t"
    by (auto simp: DefineLabel_def res_simps)
  from res obtain buf where
    buf: "(case map_of (unresolved_labels s) l of None \<Rightarrow> Inr (instructions_buffer s)
           | Some is \<Rightarrow> patch ?off is (instructions_buffer s)) = Inr buf"
    and t: "t = s\<lparr>declared_labels := (l, ?off) # declared_labels s, instructions_buffer := buf,
                  unresolved_labels := AList.delete l (unresolved_labels s)\<rparr>"
    by (auto simp: ResolveUnresolved_def res_simps cong: option.case_cong)
  have "patch ?off (pending s l) (instructions_buffer s) = Inr buf"
    using buf by (auto simp: pending_def split: option.splits)
  note p = patch_spec [OF this]
  show "map_of (declared_labels s) l = None"
    "declared_labels t = (l, length (instructions_buffer s)) # declared_labels s"
    "declared_objects t = declared_objects s"
    "length (instructions_buffer t) = length (instructions_buffer s)"
    "pending t n = (if n = l then [] else pending s n)"
    "k < length (instructions_buffer s) \<Longrightarrow> instructions_buffer t ! k =
       (if k \<in> set (pending s l)
        then (instructions_buffer s ! k)\<lparr>i_operands := GetResolveRelativeOffset (length (instructions_buffer s)) k\<rparr>
        else instructions_buffer s ! k)"
    using free p by (auto simp: t pending_def delete_conv')
qed

lemma body_inv_label:
  assumes inv: "body_inv B E s" and def: "DefineLabel l s = Inr t"
  shows "body_inv B E t"
proof -
  note d = DefineLabel_spec [OF def]
  have ok: "emitted_ok t (length B + k) (E ! k) (instructions_buffer t ! (length B + k))"
    if k: "k < length E" for k
  proof -
    have old: "emitted_ok s (length B + k) (E ! k) (instructions_buffer s ! (length B + k))"
      using body_invD(3) [OF inv k] .
    have len: "length B + k < length (instructions_buffer s)" using body_invD(1) [OF inv] k by simp
    show ?thesis
    proof (cases "length B + k \<in> set (pending s l)")
      case True
      then have "snd (E ! k) = Ref l" "map_of (declared_objects s) l = None"
        using body_invD(4) [OF inv True] by auto
      then show ?thesis using old d(6) [OF len] True by (simp add: emitted_ok_def d)
    next
      case False
      then show ?thesis
        using old d(6) [OF len] d(1) by (auto simp: emitted_ok_def d split: operand_spec.splits option.splits)
    qed
  qed
  have B: "instructions_buffer t ! k = B ! k" if "k < length B" for k
  proof -
    have "k \<notin> set (pending s l)" using body_invD(4) [OF inv, of k l] that by fastforce
    then show ?thesis using that d(6) [of k] body_invD(1,2) [OF inv] by simp
  qed
  have pend: "\<exists>k < length E. i = length B + k \<and> snd (E ! k) = Ref n \<and> map_of (declared_objects t) n = None"
    if "i \<in> set (pending t n)" for i n
    using that body_invD(4) [OF inv, of i n] d(3) d(5) [of n] by (auto split: if_splits)
  have free: "map_of (declared_labels t) n = None" if "pending t n \<noteq> []" for n
    using that body_invD(5) [OF inv, of n] d(2) d(5) [of n] by (auto split: if_splits)
  show ?thesis
    unfolding body_inv_def
    using ok B body_invD(1) [OF inv] d(4) pend free by simp
qed

lemma assemble_item_inv:
  assumes inv: "body_inv B E s" and step: "assemble_item it s = Inr t"
  shows "body_inv B (E @ lower it) t \<and> declared_objects t = declared_objects s"
proof (cases it)
  case (ILabel l)
  then show ?thesis using body_inv_label [OF inv] DefineLabel_spec(3) step by simp
next
  case (II c i)
  show ?thesis
  proof (cases i)
    case (ImmName n)
    have len: "length (instructions_buffer s) = length B + length E" using body_invD(1) [OF inv] .
    show ?thesis
    proof (cases "map_of (declared_objects s) n = None \<and> map_of (declared_labels s) n = None")
      case True
      then show ?thesis
        using body_inv_pend [OF inv] step II ImmName
        by (auto simp: TryResolveName_def Encode1_def)
    next
      case False
      then obtain v where v: "TryResolveName n s = (v, s)"
        and ok: "emitted_ok s (length B + length E) (opc_byte c, Ref n) \<lparr>i_opcode = opc_byte c, i_operands = v\<rparr>"
        by (cases "map_of (declared_objects s) n"; cases "map_of (declared_labels s) n")
          (auto simp: TryResolveName_def emitted_ok_def len)
      then show ?thesis using body_inv_emit [OF inv ok] step II ImmName by (auto simp: Encode1_def)
    qed
  next
    case (ImmLit b)
    have "emitted_ok s (length B + length E) (opc_byte c, Lit b) \<lparr>i_opcode = opc_byte c, i_operands = b\<rparr>"
      by (simp add: emitted_ok_def)
    from body_inv_emit [OF inv this] show ?thesis using step II ImmLit by (auto simp: Encode1_def)
  qed
next
  case (IRR c r1 r2)
  let ?v = "push_bit SECOND_NEAR_REG_SHIFT r2 OR r1"
  have "emitted_ok s (length B + length E) (opc_byte c, Lit ?v) \<lparr>i_opcode = opc_byte c, i_operands = ?v\<rparr>"
    by (simp add: emitted_ok_def)
  from body_inv_emit [OF inv this] show ?thesis
    using step IRR by (auto simp: Encode2_def res_simps)
next
  case (IR c r)
  have "emitted_ok s (length B + length E) (opc_byte c, Lit r) \<lparr>i_opcode = opc_byte c, i_operands = r\<rparr>"
    by (simp add: emitted_ok_def)
  from body_inv_emit [OF inv this] show ?thesis using step IR by (auto simp: Encode1_def)
next
  case (IO c)
  have "emitted_ok s (length B + length E) (opc_byte c, Lit 0) \<lparr>i_opcode = opc_byte c, i_operands = 0\<rparr>"
    by (simp add: emitted_ok_def)
  from body_inv_emit [OF inv this] show ?thesis using step IO by (auto simp: Encode0_def)
qed

lemma lower_all_simps [simp]:
  "lower_all [] = []" "lower_all (it # its) = lower it @ lower_all its"
  by (simp_all add: lower_all_def)

lemma lower_not_label: "(\<And>l. it \<noteq> ILabel l) \<Longrightarrow> length (lower it) = 1"
proof (cases it)
  case (II c i)
  then show ?thesis by (cases i) simp_all
qed auto

lemma assemble_items_inv:
  "body_inv B E s \<Longrightarrow> fold_res assemble_item its s = Inr t \<Longrightarrow>
     body_inv B (E @ lower_all its) t \<and> declared_objects t = declared_objects s"
proof (induction its arbitrary: E s)
  case (Cons it its)
  from Cons.prems(2) obtain u where u: "assemble_item it s = Inr u" "fold_res assemble_item its u = Inr t"
    by (auto simp: res_simps)
  from assemble_item_inv [OF Cons.prems(1) u(1)] Cons.IH [OF _ u(2)] show ?case by fastforce
qed simp

lemma assemble_item_labels:
  assumes "assemble_item it s = Inr t" and nl: "\<And>l. it \<noteq> ILabel l"
  shows "declared_labels t = declared_labels s \<and> length (instructions_buffer t) = length (instructions_buffer s) + 1"
proof (cases it)
  case (II c i)
  then show ?thesis using assms
    by (cases i) (auto simp: Encode1_def TryResolveName_def Let_def split: option.splits prod.splits)
qed (use assms in \<open>auto simp: Encode2_def Encode1_def Encode0_def res_simps\<close>)

lemma assemble_items_labels:
  "fold_res assemble_item its s = Inr t \<Longrightarrow>
     declared_labels t = label_positions (length (instructions_buffer s)) its @ declared_labels s"
proof (induction its arbitrary: s)
  case (Cons it its)
  from Cons.prems obtain u where u: "assemble_item it s = Inr u" "fold_res assemble_item its u = Inr t"
    by (auto simp: res_simps)
  show ?case
  proof (cases "\<exists>l. it = ILabel l")
    case True
    then show ?thesis using u Cons.IH [OF u(2)] by (auto simp: DefineLabel_spec)
  next
    case False
    then show ?thesis
      using assemble_item_labels [OF u(1)] Cons.IH [OF u(2)] lower_not_label [of it]
      by (auto split: item.splits)
  qed
qed simp

text \<open>The one-pass assembler agrees with the two-pass reference on a body that starts without pending references.\<close>

lemma assemble_body_two_pass:
  assumes start: "unresolved_labels s = []" and run: "assemble_body its s = Inr t"
  shows "instructions_buffer t = instructions_buffer s @
           second_pass (map_of (declared_objects s)) (map_of (declared_labels t))
             (length (instructions_buffer s)) (lower_all its)"
    and "declared_labels t = label_positions (length (instructions_buffer s)) its @ declared_labels s"
    and "declared_objects t = declared_objects s" and "unresolved_labels t = []"
proof -
  let ?B = "instructions_buffer s"
  have fold: "fold_res assemble_item its s = Inr t" and fin: "unresolved_labels t = []"
    using run by (auto simp: assemble_body_def CheckLabelsResolved_def res_simps)
  have "body_inv ?B [] s" using start by (simp add: body_inv_def pending_def)
  from assemble_items_inv [OF this fold]
  have inv: "body_inv ?B (lower_all its) t" and objs: "declared_objects t = declared_objects s" by auto
  have none: "pending t n = []" for n using fin by (simp add: pending_def)
  have ins: "instructions_buffer t ! (length ?B + k) =
      second_pass (map_of (declared_objects s)) (map_of (declared_labels t)) (length ?B) (lower_all its) ! k"
    if k: "k < length (lower_all its)" for k
    using body_invD(3) [OF inv k] k
    by (auto simp: nth_second_pass emitted_ok_def operand_value_def none objs
        split: operand_spec.splits option.splits)
  show "instructions_buffer t = ?B @ second_pass (map_of (declared_objects s)) (map_of (declared_labels t))
             (length ?B) (lower_all its)"
  proof (rule nth_equalityI)
    fix k assume k: "k < length (instructions_buffer t)"
    show "instructions_buffer t ! k = (?B @ second_pass (map_of (declared_objects s))
        (map_of (declared_labels t)) (length ?B) (lower_all its)) ! k"
      using k body_invD(1,2) [OF inv] ins [of "k - length ?B"] by (cases "k < length ?B") (auto simp: nth_append)
  qed (use body_invD(1) [OF inv] in simp)
  show "declared_labels t = label_positions (length ?B) its @ declared_labels s"
    by (rule assemble_items_labels [OF fold])
  show "declared_objects t = declared_objects s" "unresolved_labels t = []" by fact+
qed

text \<open>A displacement that fits a signed byte is recovered by the interpreter's addition to \<open>pc\<close>.\<close>

lemma jump_displacement:
  assumes "- 128 \<le> int l - int i" "int l - int i < 128"
  shows "word_of_nat i + sext8 (GetResolveRelativeOffset l i) = word_of_nat l"
proof -
  have "sint (GetResolveRelativeOffset l i) = int l - int i"
    unfolding GetResolveRelativeOffset_def sint_sbintrunc' using assms
    by (intro signed_take_bit_int_eq_self) simp_all
  then have "sext8 (GetResolveRelativeOffset l i) = word_of_int (int l - int i)"
    by (simp add: sext8_int)
  then show ?thesis by simp
qed

end
