(* ===== verification/K3s_ClassFile.thy ===== *)
theory K3s_ClassFile
  imports K3s_Asm
begin

text \<open>
  The class file (classfile/class_file.h, classfile/class_file.cpp): writing an assembled program
  and loading it back.  Bytes are little endian.  The writer keeps the file buffer and the position
  \<open>buf_pos_\<close>; a copy past the end of the buffer is undefined.  Record sizes are those of the 64-bit
  ABI; the bytes that pad a record on the stack are indeterminate, so they are a parameter
  \<open>pad\<close> of the writer.  Pointers into the loaded file are modelled by the data they point to.  Loading
  charges the constant region for the file, the offsets of the methods and the maps of the names.
  The lemmas show the round trip of the records and of a whole file, and what the signed loop
  counter of the writer leaves out.
\<close>

subsection \<open>Bytes\<close>

fun le_bytes :: "nat \<Rightarrow> nat \<Rightarrow> byte list" where
  "le_bytes 0 v = []"
| "le_bytes (Suc n) v = word_of_nat (v mod 256) # le_bytes n (v div 256)"

fun le_value :: "byte list \<Rightarrow> nat" where
  "le_value [] = 0"
| "le_value (b # bs) = unat b + 256 * le_value bs"

definition put64 :: "u64 \<Rightarrow> byte list" where
  "put64 w = le_bytes 8 (unat w)"

definition get64 :: "byte list \<Rightarrow> u64" where
  "get64 bs = word_of_nat (le_value (take 8 bs))"

text \<open>Reading \<open>n\<close> bytes at a position: undefined past the end of the buffer.\<close>

definition read_bytes :: "byte list \<Rightarrow> nat \<Rightarrow> nat \<Rightarrow> byte list res" where
  "read_bytes buf pos n = guard (pos + n \<le> length buf) Undefined (Inr (take n (drop pos buf)))"

definition read64 :: "byte list \<Rightarrow> nat \<Rightarrow> u64 res" where
  "read64 buf pos = rbind (read_bytes buf pos 8) (\<lambda>bs. Inr (get64 bs))"

definition read_byte :: "byte list \<Rightarrow> nat \<Rightarrow> byte res" where
  "read_byte buf pos = nth_res buf pos"

text \<open>The C string at a position; undefined when no NUL follows.\<close>

definition read_cstr :: "byte list \<Rightarrow> nat \<Rightarrow> cstring res" where
  "read_cstr buf pos =
     (let rest = drop pos buf; str = takeWhile (\<lambda>c. c \<noteq> 0) rest
      in guard (length str < length rest) Undefined (Inr str))"

subsection \<open>Sizes\<close>

definition sizeof_ClassFileHeader :: nat where "sizeof_ClassFileHeader = 24"
definition sizeof_MetaRecord :: nat where "sizeof_MetaRecord = 1"
definition sizeof_FuncRecord :: nat where "sizeof_FuncRecord = 16"
definition sizeof_NumRecord :: nat where "sizeof_NumRecord = 16"
definition sizeof_StrRecord :: nat where "sizeof_StrRecord = 16"
definition sizeof_ObjRecord :: nat where "sizeof_ObjRecord = 24"

lemmas record_sizes = sizeof_ClassFileHeader_def sizeof_MetaRecord_def sizeof_FuncRecord_def
  sizeof_NumRecord_def sizeof_StrRecord_def sizeof_ObjRecord_def

definition storage_str :: "asm \<Rightarrow> u64 \<Rightarrow> cstring res" where
  "storage_str a v = nth_res (strings_storage a) (unat v)"

definition storage_obj :: "asm \<Rightarrow> u64 \<Rightarrow> object_descr res" where
  "storage_obj a v = nth_res (objects_storage a) (unat v)"

definition names_size :: "cstring list \<Rightarrow> nat" where
  "names_size ns = sum_list (map (\<lambda>n. length n + 1) ns)"

definition EstimateEncodingSize :: "asm \<Rightarrow> u64 element \<Rightarrow> nat res" where
  "EstimateEncodingSize a e =
     (case e_type e of
        FUNC \<Rightarrow> Inr (sizeof_MetaRecord + sizeof_FuncRecord)
      | NUM \<Rightarrow> Inr (sizeof_MetaRecord + sizeof_NumRecord)
      | STR_T \<Rightarrow> rbind (storage_str a (e_val e)) (\<lambda>str.
          Inr (sizeof_MetaRecord + sizeof_StrRecord + (length str + 1)))
      | OBJ \<Rightarrow> rbind (storage_obj a (e_val e)) (\<lambda>d.
          guard (length (methods d) = length (methods_bc_offsets d)) AssertFailed
            (Inr (sizeof_MetaRecord + sizeof_ObjRecord + names_size (data_fields d)
                  + names_size (methods d) + 8 * length (methods d))))
      | _ \<Rightarrow> Inr 0)"

subsection \<open>Writing\<close>

record writer =
  file_buffer :: "byte list"
  buf_pos :: nat

definition code_bytes :: "inst list \<Rightarrow> byte list" where
  "code_bytes is = concat (map (\<lambda>i. [i_opcode i, i_operands i]) is)"

definition AllocateBuffer :: "asm \<Rightarrow> writer res" where
  "AllocateBuffer a =
     rbind (map_res (EstimateEncodingSize a) (constant_pool a)) (\<lambda>sizes.
       Inr \<lparr>file_buffer = replicate (sizeof_ClassFileHeader
                + 2 * length (instructions_buffer a) + sum_list sizes) 0, buf_pos = 0\<rparr>)"

definition write_buf :: "byte list \<Rightarrow> writer \<Rightarrow> writer res" where
  "write_buf src w =
     guard (buf_pos w + length src \<le> length (file_buffer w)) Undefined
       (Inr \<lparr>file_buffer = take (buf_pos w) (file_buffer w) @ src
                            @ drop (buf_pos w + length src) (file_buffer w),
             buf_pos = buf_pos w + length src\<rparr>)"

definition ENTRY_FUNC_NAME :: cstring where
  "ENTRY_FUNC_NAME = [109, 97, 105, 110]"

definition entry_offset :: "asm \<Rightarrow> u64 res" where
  "entry_offset a =
     GetFunctionBytecodeOffset (fst (TryResolveName ENTRY_FUNC_NAME a)) (constant_pool a)"

definition table_offset :: "asm \<Rightarrow> u64" where
  "table_offset a = of_nat (sizeof_ClassFileHeader + 2 * length (instructions_buffer a))"

definition WriteHeader :: "asm \<Rightarrow> writer \<Rightarrow> writer res" where
  "WriteHeader a w =
     rbind (entry_offset a) (\<lambda>entry.
       rbind (write_buf (put64 (of_nat sizeof_ClassFileHeader) @ put64 (table_offset a) @ put64 entry) w)
         (\<lambda>w1. guard (buf_pos w1 = sizeof_ClassFileHeader) AssertFailed (Inr w1)))"

definition WriteCodeSection :: "asm \<Rightarrow> writer \<Rightarrow> writer res" where
  "WriteCodeSection a w = write_buf (code_bytes (instructions_buffer a)) w"

definition names_bytes :: "cstring list \<Rightarrow> byte list" where
  "names_bytes ns = concat (map (\<lambda>n. n @ [0]) ns)"

text \<open>The bytes of one record; the padding of the record with identifier \<open>i\<close> is \<open>pad i 0\<close>, \<open>pad i 1\<close>, ...\<close>

definition record_bytes :: "(byte \<Rightarrow> nat \<Rightarrow> byte) \<Rightarrow> asm \<Rightarrow> u64 element \<Rightarrow> byte \<Rightarrow> byte list res" where
  "record_bytes pad a e i =
     (let tail = i # map (pad i) [0..<7]
      in case e_type e of
           ANY \<Rightarrow> Inr []
         | FUNC \<Rightarrow> Inr (of_nat (type_num FUNC) # put64 (e_val e) @ tail)
         | NUM \<Rightarrow> Inr (of_nat (type_num NUM) # put64 (e_val e) @ tail)
         | STR_T \<Rightarrow> rbind (storage_str a (e_val e)) (\<lambda>str.
             Inr (of_nat (type_num STR_T) # put64 (of_nat (length str)) @ tail @ str @ [0]))
         | OBJ \<Rightarrow> rbind (storage_obj a (e_val e)) (\<lambda>d.
             Inr (of_nat (type_num OBJ) # put64 (of_nat (length (data_fields d)))
                    @ put64 (of_nat (length (methods d))) @ tail
                    @ names_bytes (data_fields d) @ names_bytes (methods d)
                    @ concat (map put64 (methods_bc_offsets d))))
         | t \<Rightarrow> Inr [of_nat (type_num t)])"

text \<open>\<open>WriteObj\<close> copies the parts of a record one after the other: the same bytes in one copy.\<close>

definition WriteObj :: "(byte \<Rightarrow> nat \<Rightarrow> byte) \<Rightarrow> asm \<Rightarrow> u64 element \<Rightarrow> byte \<Rightarrow> writer \<Rightarrow> writer res" where
  "WriteObj pad a e i w = rbind (record_bytes pad a e i) (\<lambda>bs. write_buf bs w)"

text \<open>The loop counter is an \<open>int8_t\<close>, compared with the pool's size after conversion to \<open>size_t\<close>.\<close>

function write_pool_from :: "(byte \<Rightarrow> nat \<Rightarrow> byte) \<Rightarrow> asm \<Rightarrow> byte \<Rightarrow> writer \<Rightarrow> writer res" where
  "write_pool_from pad a pool_id w =
     (if sext8 pool_id < of_nat CONSTANT_POOL_SIZE
      then rbind (pool_get pool_id (constant_pool a)) (\<lambda>e.
             rbind (WriteObj pad a e pool_id w) (write_pool_from pad a (pool_id + 1)))
      else Inr w)"
  by pat_completeness auto
termination
proof (relation "measure (\<lambda>(pad, a, i, w). 128 - unat i)", goal_cases)
  case (2 pad a i w e w1)
  then have "unat i < 128" by (simp add: CONSTANT_POOL_SIZE_def sext8_less_iff)
  then show ?case by (simp add: unat_word_ariths)
qed simp

declare write_pool_from.simps [simp del]

definition WriteConstantPool :: "(byte \<Rightarrow> nat \<Rightarrow> byte) \<Rightarrow> asm \<Rightarrow> writer \<Rightarrow> writer res" where
  "WriteConstantPool pad a = write_pool_from pad a 0"

definition DumpClassFile :: "(byte \<Rightarrow> nat \<Rightarrow> byte) \<Rightarrow> asm \<Rightarrow> byte list res" where
  "DumpClassFile pad a =
     rbind (AllocateBuffer a) (\<lambda>w0. rbind (WriteHeader a w0) (\<lambda>w1.
       guard (buf_pos w1 < length (file_buffer w1)) AssertFailed
         (rbind (WriteCodeSection a w1) (\<lambda>w2.
            guard (buf_pos w2 < length (file_buffer w2)) AssertFailed
              (rbind (WriteConstantPool pad a w2) (\<lambda>w3.
                 guard (buf_pos w3 \<le> length (file_buffer w3)) AssertFailed
                   (Inr (file_buffer w3))))))))"

subsection \<open>Loading\<close>

record header =
  code_offset :: u64
  h_table_offset :: u64
  entry_point :: u64

definition LoadHeader :: "byte list \<Rightarrow> header res" where
  "LoadHeader buf =
     rbind (read64 buf 0) (\<lambda>c. rbind (read64 buf 8) (\<lambda>t. rbind (read64 buf 16) (\<lambda>e.
       Inr \<lparr>code_offset = c, h_table_offset = t, entry_point = e\<rparr>)))"

text \<open>The instructions are the file's bytes after the header; nothing marks where the code ends.\<close>

fun insts_of_bytes :: "byte list \<Rightarrow> inst list" where
  "insts_of_bytes (c # r # bs) = \<lparr>i_opcode = c, i_operands = r\<rparr> # insts_of_bytes bs"
| "insts_of_bytes bs = []"

definition LoadCodeSection :: "byte list \<Rightarrow> inst list" where
  "LoadCodeSection buf = insts_of_bytes (drop sizeof_ClassFileHeader buf)"

text \<open>
  The constant region, in which the file, the offsets of the methods and the hash maps of the names
  lie.  Its cursor is an argument of the functions below.  What a hash map of the standard library
  takes when a key is added to \<open>k\<close> others, a node and now and then a new array of buckets, is the
  argument \<open>node k\<close>.
\<close>

definition CONST_SIZE :: nat where
  "CONST_SIZE = unat (ALLOC_SIZE div 2 - GC_INTERNALS_SIZE - STACK_SIZE)"

definition const_alloc :: "nat \<Rightarrow> nat \<Rightarrow> nat res" where
  "const_alloc n c = (if c + n > CONST_SIZE then Inl (Fatal ''ALLOCATOR OOM'') else Inr (c + n))"

text \<open>The loops over the names of an object: each is a key that must be new.\<close>

fun load_names :: "(nat \<Rightarrow> nat) \<Rightarrow> byte list \<Rightarrow> nat \<Rightarrow> nat \<Rightarrow> u64 \<Rightarrow> mapping \<Rightarrow> nat \<Rightarrow> (mapping \<times> nat \<times> nat) res" where
  "load_names node buf pos 0 v m c = Inr (m, pos, c)"
| "load_names node buf pos (Suc n) v m c =
     rbind (read_cstr buf pos) (\<lambda>str.
       guard (map_of m str = None) (Fatal ''INTERPRETER'')
         (rbind (const_alloc (node (length m)) c)
           (load_names node buf (pos + length str + 1) n (v + 1) (m @ [(str, v)]))))"

fun load_words :: "byte list \<Rightarrow> nat \<Rightarrow> nat \<Rightarrow> u64 list res" where
  "load_words buf pos 0 = Inr []"
| "load_words buf pos (Suc n) =
     rbind (read64 buf pos) (\<lambda>w. rbind (load_words buf (pos + 8) n) (\<lambda>ws. Inr (w # ws)))"

text \<open>One iteration of the loop of \<open>LoadConstantPool\<close>.\<close>

definition load_record :: "(nat \<Rightarrow> nat) \<Rightarrow> byte list \<Rightarrow> nat \<Rightarrow> const_pool \<Rightarrow> nat \<Rightarrow> (nat \<times> const_pool \<times> nat) res" where
  "load_record node buf pos0 cp c =
     rbind (read_byte buf pos0) (\<lambda>t.
       let pos = pos0 + sizeof_MetaRecord
       in case type_of_num (unat t) of
            Some FUNC \<Rightarrow>
              rbind (read64 buf pos) (\<lambda>v. rbind (read_byte buf (pos + 8)) (\<lambda>i.
                Inr (pos + sizeof_FuncRecord, cp\<lparr>cp_data := pool_set i FUNC (CBits v) (cp_data cp)\<rparr>, c)))
          | Some NUM \<Rightarrow>
              rbind (read64 buf pos) (\<lambda>v. rbind (read_byte buf (pos + 8)) (\<lambda>i.
                Inr (pos + sizeof_NumRecord, cp\<lparr>cp_data := pool_set i NUM (CBits v) (cp_data cp)\<rparr>, c)))
          | Some STR_T \<Rightarrow>
              rbind (read64 buf pos) (\<lambda>size.
                let data_pos = pos + sizeof_StrRecord
                in rbind (read_byte buf (data_pos + unat size)) (\<lambda>z.
                     guard (z = 0) AssertFailed
                       (rbind (read_byte buf (pos + 8)) (\<lambda>i.
                          Inr (data_pos + unat size + 1,
                               cp\<lparr>cp_data := pool_set i STR_T
                                    (CText (take (unat size) (drop data_pos buf))) (cp_data cp)\<rparr>, c)))))
          | Some OBJ \<Rightarrow>
              rbind (read64 buf pos) (\<lambda>nf. rbind (read64 buf (pos + 8)) (\<lambda>nm.
                rbind (read_byte buf (pos + 16)) (\<lambda>i.
                  rbind (nth_res (cp_maps cp) (unat i)) (\<lambda>m0.
                    rbind (load_names node buf (pos + sizeof_ObjRecord) (unat nf) 0 m0 c) (\<lambda>(m1, p1, c1).
                      rbind (load_names node buf p1 (unat nm) nf m1 c1) (\<lambda>(m2, p2, c2).
                        rbind (const_alloc (8 * (unat nm + 1)) c2) (\<lambda>c3.
                          rbind (load_words buf p2 (unat nm)) (\<lambda>offs.
                            Inr (p2 + 8 * unat nm,
                                 cp\<lparr>cp_data := pool_set i OBJ (CMethods (nm # offs)) (cp_data cp),
                                    cp_maps := (cp_maps cp)[unat i := m2]\<rparr>, c3)))))))))
          | _ \<Rightarrow> Inl (Fatal ''exit''))"

lemma load_names_pos: "load_names node buf pos n v m c = Inr (m', pos', c') \<Longrightarrow> pos + n \<le> pos'"
  by (induction node buf pos n v m c rule: load_names.induct) (fastforce simp: res_simps)+

text \<open>Every record moves the position forward, so the loop ends.\<close>

lemma load_record_progress:
  assumes "load_record node buf pos cp c = Inr (pos', r)"
  shows "pos < pos'"
proof -
  from assms obtain t where t: "read_byte buf pos = Inr t" by (auto simp: load_record_def res_simps)
  show ?thesis
  proof (cases "type_of_num (unat t)")
    case None
    then show ?thesis using assms t by (simp add: load_record_def)
  next
    case (Some ty)
    then show ?thesis
      using assms t
      by (cases ty) (fastforce simp: load_record_def Let_def res_simps record_sizes dest!: load_names_pos)+
  qed
qed

function LoadConstantPool :: "(nat \<Rightarrow> nat) \<Rightarrow> byte list \<Rightarrow> nat \<Rightarrow> const_pool \<Rightarrow> nat \<Rightarrow> const_pool res" where
  "LoadConstantPool node buf pos cp c =
     (if pos < length buf
      then rbind (load_record node buf pos cp c) (\<lambda>r. LoadConstantPool node buf (fst r) (fst (snd r)) (snd (snd r)))
      else Inr cp)"
  by pat_completeness auto
termination
  by (relation "measure (\<lambda>(node, buf, pos, cp, c). length buf - pos)") (auto dest!: load_record_progress)

declare LoadConstantPool.simps [simp del]

text \<open>\<open>ReadFile\<close> puts the whole file into the region; \<open>c\<close> is the cursor before.\<close>

definition LoadClassFile :: "(nat \<Rightarrow> nat) \<Rightarrow> byte list \<Rightarrow> const_pool \<Rightarrow> nat \<Rightarrow> (header \<times> inst list \<times> const_pool) res" where
  "LoadClassFile node buf cp c =
     rbind (const_alloc (length buf) c) (\<lambda>c1.
       rbind (LoadHeader buf) (\<lambda>h.
         let code_size = h_table_offset h - code_offset h
         in guard (code_size mod 2 = 0) AssertFailed
              (guard (sizeof_ClassFileHeader + unat code_size \<le> length buf) Undefined
                 (rbind (LoadConstantPool node (drop (sizeof_ClassFileHeader + unat code_size) buf) 0 cp c1) (\<lambda>cp'.
                    Inr (h, LoadCodeSection buf, cp'))))))"

subsection \<open>Round trip of the encodings\<close>

lemma length_le_bytes [simp]: "length (le_bytes n v) = n"
  by (induction n v rule: le_bytes.induct) simp_all

lemma le_value_bytes: "le_value (le_bytes n v) = v mod 256 ^ n"
proof (induction n v rule: le_bytes.induct)
  case (2 n v)
  have "unat (word_of_nat (v mod 256) :: byte) = v mod 256" by (simp add: unat_of_nat)
  then show ?case using 2 by (simp add: mod_mult2_eq)
qed simp

lemma length_put64 [simp]: "length (put64 w) = 8"
  by (simp add: put64_def)

lemma get64_put64 [simp]: "get64 (put64 w @ rest) = w"
  using unat_lt_64 [of w] by (simp add: get64_def put64_def le_value_bytes)

text \<open>What a read returns depends on the bytes from its position on.\<close>

lemma drop_add: "drop pos buf = xs \<Longrightarrow> drop (pos + k) buf = drop k xs"
  by (metis add.commute drop_drop)

lemma read64_at: "drop pos buf = put64 w @ rest \<Longrightarrow> read64 buf pos = Inr w"
proof -
  assume d: "drop pos buf = put64 w @ rest"
  then have "length buf - pos = 8 + length rest" by (metis length_append length_drop length_put64)
  then have "pos + 8 \<le> length buf" by simp
  moreover have "get64 (take 8 (drop pos buf)) = w" by (simp add: d get64_def put64_def le_value_bytes)
      (use unat_lt_64 [of w] in simp)
  ultimately show ?thesis by (simp add: read64_def read_bytes_def)
qed

lemma read_byte_at: "drop pos buf = b # rest \<Longrightarrow> read_byte buf pos = Inr b"
  unfolding read_byte_def nth_res_def
  by (metis drop_eq_Nil hd_drop_conv_nth leI list.distinct(1) list.sel(1))

lemma read_cstr_at:
  "drop pos buf = str @ 0 # rest \<Longrightarrow> 0 \<notin> set str \<Longrightarrow> read_cstr buf pos = Inr str"
proof -
  assume d: "drop pos buf = str @ 0 # rest" and z: "0 \<notin> set str"
  have "takeWhile (\<lambda>c. c \<noteq> 0) (str @ 0 # rest) = str"
    using z by (subst takeWhile_append2) auto
  then show ?thesis by (simp add: read_cstr_def d)
qed

fun number :: "u64 \<Rightarrow> cstring list \<Rightarrow> mapping" where
  "number v [] = []"
| "number v (n # ns) = (n, v) # number (v + 1) ns"

lemma length_number: "length (number v ns) = length ns"
  by (induction v ns rule: number.induct) simp_all

lemma map_fst_number [simp]: "map fst (number v ns) = ns"
  by (induction v ns rule: number.induct) simp_all

text \<open>What the nodes of \<open>n\<close> names take in a map that holds \<open>k\<close> others.\<close>

primrec names_cost :: "(nat \<Rightarrow> nat) \<Rightarrow> nat \<Rightarrow> nat \<Rightarrow> nat" where
  "names_cost node k 0 = 0"
| "names_cost node k (Suc n) = node k + names_cost node (Suc k) n"

lemma names_cost_add: "names_cost node k (m + n) = names_cost node k m + names_cost node (k + m) n"
  by (induction m arbitrary: k) simp_all

text \<open>To go on with the cursor \<open>c\<close> when \<open>n\<close> bytes have been taken from the region, or to be out of memory.\<close>

definition charged :: "nat \<Rightarrow> nat \<Rightarrow> 'a \<Rightarrow> 'a res" where
  "charged n c x = (if CONST_SIZE < c + n then Inl (Fatal ''ALLOCATOR OOM'') else Inr x)"

lemma load_names_at:
  "drop pos buf = names_bytes ns @ rest \<Longrightarrow> \<forall>n \<in> set ns. 0 \<notin> set n \<Longrightarrow>
   distinct (map fst m @ ns) \<Longrightarrow> c \<le> CONST_SIZE \<Longrightarrow>
   load_names node buf pos (length ns) v m c = charged (names_cost node (length m) (length ns)) c
     (m @ number v ns, pos + length (names_bytes ns), c + names_cost node (length m) (length ns))"
proof (induction ns arbitrary: pos v m c)
  case (Cons n ns)
  from Cons.prems(1) have d: "drop pos buf = n @ 0 # (names_bytes ns @ rest)" by (simp add: names_bytes_def)
  have r: "read_cstr buf pos = Inr n" using read_cstr_at [OF d] Cons.prems(2) by simp
  have new: "map_of m n = None" using Cons.prems(3) by (auto simp: map_of_eq_None_iff)
  have d': "drop (pos + length n + 1) buf = names_bytes ns @ rest"
    using drop_add [OF d, of "length n + 1"] by simp
  show ?case
    using Cons.IH [OF d', of "m @ [(n, v)]" "c + node (length m)" "v + 1"] Cons.prems(2-4) r new
    by (auto simp: names_bytes_def const_alloc_def charged_def)
qed (simp add: names_bytes_def charged_def)

lemma load_words_at:
  "drop pos buf = concat (map put64 ws) @ rest \<Longrightarrow> load_words buf pos (length ws) = Inr ws"
proof (induction ws arbitrary: pos)
  case (Cons w ws)
  from Cons.prems have d: "drop pos buf = put64 w @ (concat (map put64 ws) @ rest)" by simp
  have "drop (pos + 8) buf = concat (map put64 ws) @ rest" using drop_add [OF d, of 8] by simp
  from Cons.IH [OF this] read64_at [OF d] show ?case by simp
qed simp

lemma length_concat_put64 [simp]: "length (concat (map put64 ws)) = 8 * length ws"
  by (induction ws) simp_all

subsection \<open>Round trip of a record\<close>

text \<open>What an assembled element is when loaded.\<close>

definition loaded_value :: "asm \<Rightarrow> u64 element \<Rightarrow> cval" where
  "loaded_value a e =
     (case e_type e of
        STR_T \<Rightarrow> CText (strings_storage a ! unat (e_val e))
      | OBJ \<Rightarrow> (let d = objects_storage a ! unat (e_val e)
                in CMethods (of_nat (length (methods d)) # methods_bc_offsets d))
      | _ \<Rightarrow> CBits (e_val e))"

definition loaded_map :: "asm \<Rightarrow> u64 element \<Rightarrow> mapping" where
  "loaded_map a e =
     (if e_type e = OBJ
      then (let d = objects_storage a ! unat (e_val e)
            in number 0 (data_fields d) @ number (of_nat (length (data_fields d))) (methods d))
      else [])"

definition wf_descr :: "object_descr \<Rightarrow> bool" where
  "wf_descr d \<longleftrightarrow> distinct (data_fields d @ methods d) \<and>
     (\<forall>n \<in> set (data_fields d @ methods d). 0 \<notin> set n) \<and>
     length (methods d) = length (methods_bc_offsets d) \<and>
     length (data_fields d) < 2 ^ 64 \<and> length (methods d) < 2 ^ 64"

definition wf_element :: "asm \<Rightarrow> u64 element \<Rightarrow> bool" where
  "wf_element a e \<longleftrightarrow>
     (case e_type e of
        NUM \<Rightarrow> True
      | FUNC \<Rightarrow> True
      | ANY \<Rightarrow> e_val e = 0
      | STR_T \<Rightarrow> unat (e_val e) < length (strings_storage a) \<and>
                 length (strings_storage a ! unat (e_val e)) < 2 ^ 64
      | OBJ \<Rightarrow> unat (e_val e) < length (objects_storage a) \<and> wf_descr (objects_storage a ! unat (e_val e))
      | _ \<Rightarrow> False)"

definition load_one :: "asm \<Rightarrow> byte \<Rightarrow> u64 element \<Rightarrow> const_pool \<Rightarrow> const_pool" where
  "load_one a i e cp =
     (if e_type e = ANY then cp
      else cp\<lparr>cp_data := pool_set i (e_type e) (loaded_value a e) (cp_data cp),
              cp_maps := (if e_type e = OBJ then (cp_maps cp)[unat i := loaded_map a e] else cp_maps cp)\<rparr>)"

text \<open>What the map and the offsets of an object take from the constant region.\<close>

definition record_cost :: "(nat \<Rightarrow> nat) \<Rightarrow> asm \<Rightarrow> u64 element \<Rightarrow> nat" where
  "record_cost node a e =
     (if e_type e = OBJ
      then (let d = objects_storage a ! unat (e_val e)
            in names_cost node 0 (length (data_fields d) + length (methods d)) + 8 * (length (methods d) + 1))
      else 0)"

lemma unat_of_nat64: "n < 18446744073709551616 \<Longrightarrow> unat (of_nat n :: u64) = n"
  by (simp add: unat_of_nat)

lemma load_record_at:
  assumes wf: "wf_element a e" and ne: "e_type e \<noteq> ANY"
    and bytes: "record_bytes pad a e i = Inr bs" and d: "drop pos buf = bs @ rest"
    and free: "length (cp_maps cp) = 256" "e_type e = OBJ \<Longrightarrow> cp_maps cp ! unat i = []" and c: "c \<le> CONST_SIZE"
  shows "load_record node buf pos cp c =
    charged (record_cost node a e) c (pos + length bs, load_one a i e cp, c + record_cost node a e)"
proof -
  let ?tail = "i # map (pad i) [0..<7]"
  have t6: "unat (of_nat (type_num (e_type e)) :: byte) = type_num (e_type e)"
    by (cases "e_type e") simp_all
  have ty: "type_of_num (type_num (e_type e)) = Some (e_type e)"
    by (cases "e_type e") (simp_all add: type_of_num_def rtypes_def)
  show ?thesis
  proof (cases "e_type e")
    case FUNC
    with d bytes have d0: "drop pos buf = of_nat (type_num FUNC) # put64 (e_val e) @ i # (map (pad i) [0..<7] @ rest)"
      and len: "length bs = 17" by (auto simp: record_bytes_def)
    show ?thesis
      using read_byte_at [OF d0] read64_at [OF drop_add [OF d0, of 1, simplified]] len ne FUNC t6 ty c
        read_byte_at [OF drop_add [OF d0, of 9, simplified]]
      by (simp add: load_record_def load_one_def loaded_value_def record_sizes record_cost_def charged_def add.commute [of pos])
  next
    case NUM
    with d bytes have d0: "drop pos buf = of_nat (type_num NUM) # put64 (e_val e) @ i # (map (pad i) [0..<7] @ rest)"
      and len: "length bs = 17" by (auto simp: record_bytes_def)
    show ?thesis
      using read_byte_at [OF d0] read64_at [OF drop_add [OF d0, of 1, simplified]] len ne NUM t6 ty c
        read_byte_at [OF drop_add [OF d0, of 9, simplified]]
      by (simp add: load_record_def load_one_def loaded_value_def record_sizes record_cost_def charged_def add.commute [of pos])
  next
    case STR_T
    define str where "str = strings_storage a ! unat (e_val e)"
    have str: "storage_str a (e_val e) = Inr str" "length str < 18446744073709551616"
      using wf STR_T by (auto simp: wf_element_def storage_str_def str_def)
    with d bytes STR_T have d0: "drop pos buf = of_nat (type_num STR_T) # put64 (of_nat (length str)) @
        i # (map (pad i) [0..<7] @ str @ 0 # rest)"
      and len: "length bs = 18 + length str" by (auto simp: record_bytes_def)
    have d17: "drop (pos + 17) buf = str @ 0 # rest" using drop_add [OF d0, of 17] by simp
    have z: "read_byte buf (pos + 17 + length str) = Inr 0"
      using read_byte_at [of "pos + 17 + length str" buf 0 rest] drop_add [OF d17, of "length str"] by simp
    show ?thesis
      using read_byte_at [OF d0] read64_at [OF drop_add [OF d0, of 1, simplified]] len ne STR_T t6 ty c
        read_byte_at [OF drop_add [OF d0, of 9, simplified]]
        z d17 unat_of_nat64 [OF str(2)]
      by (simp add: load_record_def load_one_def loaded_value_def record_sizes record_cost_def charged_def add.commute [of pos] str_def)
  next
    case OBJ
    define o' where "o' = objects_storage a ! unat (e_val e)"
    let ?F = "data_fields o'" and ?M = "methods o'" and ?O = "methods_bc_offsets o'"
    have ob: "storage_obj a (e_val e) = Inr o'" and wfd: "wf_descr o'"
      using wf OBJ by (auto simp: wf_element_def storage_obj_def o'_def)
    from wfd have lens: "length ?F < 18446744073709551616" "length ?M < 18446744073709551616"
      "length ?O = length ?M" by (simp_all add: wf_descr_def)
    let ?body = "names_bytes ?F @ names_bytes ?M @ concat (map put64 ?O) @ rest"
    from d bytes OBJ ob have d0: "drop pos buf = of_nat (type_num OBJ) # put64 (of_nat (length ?F)) @
        put64 (of_nat (length ?M)) @ i # (map (pad i) [0..<7] @ ?body)"
      and len: "length bs = 25 + length (names_bytes ?F) + length (names_bytes ?M) + 8 * length ?M"
      using lens(3) by (auto simp: record_bytes_def)
    have d25: "drop (pos + 25) buf = ?body" using drop_add [OF d0, of 25] by simp
    let ?p1 = "pos + 25 + length (names_bytes ?F)"
    let ?p2 = "?p1 + length (names_bytes ?M)"
    have d1: "drop ?p1 buf = names_bytes ?M @ concat (map put64 ?O) @ rest"
      using drop_add [OF d25, of "length (names_bytes ?F)"] by simp
    have d2: "drop ?p2 buf = concat (map put64 ?O) @ rest"
      using drop_add [OF d1, of "length (names_bytes ?M)"] by simp
    let ?c1 = "names_cost node 0 (length ?F)" and ?c2 = "names_cost node (length ?F) (length ?M)"
    have n1: "load_names node buf (pos + 25) (length ?F) 0 [] c = charged ?c1 c (number 0 ?F, ?p1, c + ?c1)"
      using load_names_at [OF d25, of "[]" c node 0] wfd c by (simp add: wf_descr_def)
    have n2: "load_names node buf ?p1 (length ?M) (of_nat (length ?F)) (number 0 ?F) (c + ?c1) =
        charged ?c2 (c + ?c1) (number 0 ?F @ number (of_nat (length ?F)) ?M, ?p2, c + ?c1 + ?c2)" if "c + ?c1 \<le> CONST_SIZE"
      using load_names_at [OF d1, of "number 0 ?F" "c + ?c1" node "of_nat (length ?F)"] wfd that
      by (simp add: wf_descr_def length_number)
    have w: "load_words buf ?p2 (length ?M) = Inr ?O"
      using load_words_at [OF d2] lens(3) by simp
    have i: "nth_res (cp_maps cp) (unat i) = Inr []"
      using free OBJ unat_lt_256 [of i] by simp
    have h: "read_byte buf pos = Inr (of_nat (type_num OBJ))" "read64 buf (pos + 1) = Inr (of_nat (length ?F))"
      "read64 buf (pos + 9) = Inr (of_nat (length ?M))" "read_byte buf (pos + 17) = Inr i"
      using read_byte_at [OF d0] read64_at [OF drop_add [OF d0, of 1, simplified]]
        read64_at [OF drop_add [OF d0, of 9, simplified]] read_byte_at [OF drop_add [OF d0, of 17, simplified]]
      by simp_all
    let ?n = "?c1 + ?c2 + 8 * (length ?M + 1)"
    have "load_record node buf pos cp c = charged ?n c (?p2 + 8 * length ?M,
        cp\<lparr>cp_data := pool_set i OBJ (CMethods (of_nat (length ?M) # ?O)) (cp_data cp),
           cp_maps := (cp_maps cp)[unat i := number 0 ?F @ number (of_nat (length ?F)) ?M]\<rparr>, c + ?n)"
      using t6 ty OBJ h i n1 n2 w unat_of_nat64 [OF lens(1)] unat_of_nat64 [OF lens(2)]
      by (auto simp: load_record_def record_sizes charged_def const_alloc_def add.commute [of pos])
    moreover have "record_cost node a e = ?n"
      using OBJ by (simp add: record_cost_def o'_def [symmetric] names_cost_add Let_def)
    ultimately show ?thesis
      using OBJ len by (simp add: load_one_def loaded_value_def loaded_map_def o'_def [symmetric] Let_def add.assoc)
  qed (use wf ne in \<open>auto simp: wf_element_def\<close>)
qed

subsection \<open>Round trip of a file\<close>

definition wf_asm :: "asm \<Rightarrow> bool" where
  "wf_asm a \<longleftrightarrow> length (constant_pool a) = CONSTANT_POOL_SIZE \<and>
     (\<forall>e \<in> set (constant_pool a). wf_element a e) \<and>
     (\<forall>e \<in> set (drop 128 (constant_pool a)). e_type e = ANY) \<and>
     24 + 2 * length (instructions_buffer a) < 2 ^ 64"

definition loaded_pool :: "asm \<Rightarrow> const_pool" where
  "loaded_pool a =
     \<lparr>cp_data = map (\<lambda>e. \<lparr>e_type = e_type e, e_val = loaded_value a e\<rparr>) (constant_pool a),
      cp_maps = map (loaded_map a) (constant_pool a)\<rparr>"

lemma length_names_bytes: "length (names_bytes ns) = names_size ns"
  by (induction ns) (simp_all add: names_bytes_def names_size_def)

text \<open>A record has the size \<open>AllocateBuffer\<close> reserves for it.\<close>

lemma record_bytes_size:
  assumes "wf_element a e"
  obtains bs where "record_bytes pad a e i = Inr bs" "EstimateEncodingSize a e = Inr (length bs)"
proof (cases "e_type e")
  case OBJ
  with assms obtain d where "storage_obj a (e_val e) = Inr d" "length (methods d) = length (methods_bc_offsets d)"
    by (auto simp: wf_element_def storage_obj_def wf_descr_def)
  then show ?thesis
    using that OBJ
    by (simp add: record_bytes_def EstimateEncodingSize_def record_sizes length_names_bytes)
qed (use assms that in \<open>auto simp: wf_element_def record_bytes_def EstimateEncodingSize_def
      record_sizes storage_str_def\<close>)

definition written :: "writer \<Rightarrow> byte list \<Rightarrow> nat \<Rightarrow> bool" where
  "written w bs n \<longleftrightarrow> length (file_buffer w) = n \<and> buf_pos w = length bs \<and>
     take (length bs) (file_buffer w) = bs \<and> length bs \<le> n"

lemma write_buf_written:
  assumes "written w bs n" "length bs + length src \<le> n"
  obtains w' where "write_buf src w = Inr w'" "written w' (bs @ src) n"
  using assms that by (auto simp: written_def write_buf_def min_def)

definition write_one :: "(byte \<Rightarrow> nat \<Rightarrow> byte) \<Rightarrow> asm \<Rightarrow> byte \<Rightarrow> writer \<Rightarrow> writer res" where
  "write_one pad a i w = rbind (pool_get i (constant_pool a)) (\<lambda>e. WriteObj pad a e i w)"

text \<open>The loop writes the identifiers 0 to 127 and no others: the signed counter wraps there.\<close>

lemma write_pool_from_eq:
  "n \<le> 128 \<Longrightarrow> write_pool_from pad a (word_of_nat n) w =
     fold_res (write_one pad a) (map word_of_nat [n..<128]) w"
proof (induction "128 - n" arbitrary: n w)
  case 0
  then have "n = 128" by simp
  then show ?case by (simp add: write_pool_from.simps [of _ _ 128] CONSTANT_POOL_SIZE_def sext8_less_iff)
next
  case (Suc k)
  then have n: "n < 128" by simp
  have u: "unat (word_of_nat n :: byte) = n" using n by (simp add: unat_of_nat)
  have "word_of_nat n + 1 = (word_of_nat (Suc n) :: byte)" by simp
  moreover have "write_pool_from pad a (word_of_nat (Suc n)) =
      fold_res (write_one pad a) (map word_of_nat [Suc n..<128])"
    by (rule ext, rule Suc.hyps(1)) (use Suc.hyps(2) n in simp_all)
  ultimately show ?case
    using n u by (simp add: write_pool_from.simps [of _ _ "word_of_nat n"] CONSTANT_POOL_SIZE_def
        sext8_less_iff upt_rec [of n] write_one_def rbind_assoc del: of_nat_Suc)
qed

lemma write_all_written:
  assumes "\<And>i. i \<in> set ids \<Longrightarrow> \<exists>e. pool_get i (constant_pool a) = Inr e \<and> record_bytes pad a e i = Inr (rb i)"
    and "written w bs n" "length bs + length (concat (map rb ids)) \<le> n"
  shows "\<exists>w'. fold_res (write_one pad a) ids w = Inr w' \<and> written w' (bs @ concat (map rb ids)) n"
  using assms
proof (induction ids arbitrary: w bs)
  case (Cons i ids)
  from Cons.prems(1) [of i] obtain e where "pool_get i (constant_pool a) = Inr e" "record_bytes pad a e i = Inr (rb i)"
    by auto
  moreover from Cons.prems(3) have fit: "length bs + length (rb i) \<le> n" by simp
  from write_buf_written [OF Cons.prems(2) fit]
  obtain w1 where "write_buf (rb i) w = Inr w1" and w1: "written w1 (bs @ rb i) n" .
  ultimately have one: "write_one pad a i w = Inr w1" by (simp add: write_one_def WriteObj_def)
  have "\<exists>w'. fold_res (write_one pad a) ids w1 = Inr w' \<and> written w' ((bs @ rb i) @ concat (map rb ids)) n"
    by (rule Cons.IH) (use Cons.prems w1 in auto)
  then show ?case using one by simp
qed simp

text \<open>Loading what \<open>write_one\<close> wrote for a list of identifiers.\<close>

lemma load_all_at:
  assumes "\<And>i. i \<in> set ids \<Longrightarrow> wf_element a (el i) \<and> record_bytes pad a (el i) i = Inr (rb i)"
    and "distinct ids" "\<And>i. i \<in> set ids \<Longrightarrow> cp_maps cp ! unat i = []" "length (cp_maps cp) = 256"
    and "drop pos buf = concat (map rb ids)" and "c \<le> CONST_SIZE"
  shows "LoadConstantPool node buf pos cp c =
    charged (\<Sum>i\<leftarrow>ids. record_cost node a (el i)) c (fold (\<lambda>i. load_one a i (el i)) ids cp)"
  using assms
proof (induction ids arbitrary: cp pos c)
  case Nil
  then show ?case by (simp add: LoadConstantPool.simps charged_def)
next
  case (Cons i ids)
  from Cons.prems(1) [of i] have wf: "wf_element a (el i)" and rb: "record_bytes pad a (el i) i = Inr (rb i)"
    by auto
  have d: "drop pos buf = rb i @ concat (map rb ids)" using Cons.prems(5) by simp
  let ?cp = "load_one a i (el i) cp"
  have maps: "cp_maps ?cp ! unat j = []" if "j \<in> set ids" for j
  proof -
    have "unat j \<noteq> unat i" using Cons.prems(2) that by (auto simp: unat_eq_iff)
    then show ?thesis using Cons.prems(3) [of j] that by (simp add: load_one_def)
  qed
  have len: "length (cp_maps ?cp) = 256" using Cons.prems(4) by (simp add: load_one_def)
  let ?n = "record_cost node a (el i)"
  have IH: "LoadConstantPool node buf (pos + length (rb i)) ?cp (c + ?n) =
      charged (\<Sum>i\<leftarrow>ids. record_cost node a (el i)) (c + ?n) (fold (\<lambda>i. load_one a i (el i)) ids ?cp)"
    if "c + ?n \<le> CONST_SIZE"
    by (rule Cons.IH) (use Cons.prems(1,2) maps len drop_add [OF d, of "length (rb i)"] that in auto)
  show ?case
  proof (cases "e_type (el i) = ANY")
    case True
    with rb have "rb i = []" by (simp add: record_bytes_def)
    moreover from True have "load_one a i (el i) cp = cp" "?n = 0" by (simp_all add: load_one_def record_cost_def)
    ultimately show ?thesis using IH Cons.prems(6) by simp
  next
    case False
    have "load_record node buf pos cp c = charged ?n c (pos + length (rb i), ?cp, c + ?n)"
      by (rule load_record_at [OF wf False rb d]) (use Cons.prems in auto)
    moreover have "rb i \<noteq> []" using rb False by (cases "e_type (el i)") (auto simp: record_bytes_def res_simps)
    then have "pos < length buf" using d by (cases "pos < length buf") auto
    ultimately show ?thesis using IH by (auto simp: LoadConstantPool.simps [of node buf pos] charged_def)
  qed
qed

lemma load_one_nth:
  assumes "length (cp_data cp) = 256" "length (cp_maps cp) = 256"
  shows "cp_data (load_one a i e cp) ! unat j =
      (if j = i \<and> e_type e \<noteq> ANY then \<lparr>e_type = e_type e, e_val = loaded_value a e\<rparr> else cp_data cp ! unat j)"
    "cp_maps (load_one a i e cp) ! unat j =
      (if j = i \<and> e_type e = OBJ then loaded_map a e else cp_maps cp ! unat j)"
  using assms unat_lt_256 [of i]
  by (auto simp: load_one_def pool_set_def nth_list_update unat_eq_iff)

lemma fold_load_one:
  assumes "distinct ids" "length (cp_data cp) = 256" "length (cp_maps cp) = 256"
  shows "length (cp_data (fold (\<lambda>i. load_one a i (el i)) ids cp)) = 256 \<and>
     length (cp_maps (fold (\<lambda>i. load_one a i (el i)) ids cp)) = 256 \<and>
     (\<forall>j. cp_data (fold (\<lambda>i. load_one a i (el i)) ids cp) ! unat (j :: byte) =
        (if j \<in> set ids \<and> e_type (el j) \<noteq> ANY
         then \<lparr>e_type = e_type (el j), e_val = loaded_value a (el j)\<rparr> else cp_data cp ! unat j) \<and>
      cp_maps (fold (\<lambda>i. load_one a i (el i)) ids cp) ! unat j =
        (if j \<in> set ids \<and> e_type (el j) = OBJ then loaded_map a (el j) else cp_maps cp ! unat j))"
  using assms
proof (induction ids arbitrary: cp)
  case (Cons i ids)
  have "length (cp_data (load_one a i (el i) cp)) = 256" "length (cp_maps (load_one a i (el i) cp)) = 256"
    using Cons.prems by (simp_all add: load_one_def pool_set_def)
  note IH = Cons.IH [OF _ this] and nth = load_one_nth [OF Cons.prems(2,3)]
  show ?case
    using IH Cons.prems(1) by (auto simp: nth)
qed simp

lemma byte_ids: "distinct (map word_of_nat [0..<128] :: byte list)"
  "set (map word_of_nat [0..<128] :: byte list) = {i. unat i < 128}"
proof -
  have u: "unat (word_of_nat n :: byte) = n" if "n < 128" for n using that by (simp add: unat_of_nat)
  show "distinct (map word_of_nat [0..<128] :: byte list)"
    by (simp add: distinct_map) (rule inj_on_inverseI [where g = unat], simp add: u)
  have "i \<in> word_of_nat ` {0..<128}" if "unat i < 128" for i :: byte
    using that by (intro image_eqI [of _ _ "unat i"]) simp_all
  then show "set (map word_of_nat [0..<128] :: byte list) = {i. unat i < 128}"
    using u by fastforce
qed

text \<open>The entries from 128 on are unused.\<close>

lemma wf_asm_high:
  assumes wf: "wf_asm a" and i: "\<not> unat (i :: byte) < 128"
  shows "e_type (constant_pool a ! unat i) = ANY"
proof -
  have len: "length (constant_pool a) = 256" using wf by (simp add: wf_asm_def CONSTANT_POOL_SIZE_def)
  have eq: "constant_pool a ! unat i = drop 128 (constant_pool a) ! (unat i - 128)" using i len by simp
  have "constant_pool a ! unat i \<in> set (drop 128 (constant_pool a))"
    by (simp only: eq) (rule nth_mem, use i len unat_lt_256 [of i] in simp)
  then show ?thesis using wf by (simp add: wf_asm_def)
qed

lemma loaded_pool_eq:
  assumes wf: "wf_asm a" and ids: "ids = map word_of_nat [0..<128]"
  shows "fold (\<lambda>i. load_one a i (constant_pool a ! unat i)) ids empty_pool = loaded_pool a"
proof -
  let ?el = "\<lambda>i :: byte. constant_pool a ! unat i"
  let ?cp = "fold (\<lambda>i. load_one a i (?el i)) ids empty_pool"
  have len: "length (constant_pool a) = 256" using wf by (simp add: wf_asm_def CONSTANT_POOL_SIZE_def)
  have start: "length (cp_data empty_pool) = 256" "length (cp_maps empty_pool) = 256"
    "\<And>k. k < 256 \<Longrightarrow> cp_data empty_pool ! k = \<lparr>e_type = ANY, e_val = CBits 0\<rparr>"
    "\<And>k. k < 256 \<Longrightarrow> cp_maps empty_pool ! k = []"
    by (simp_all add: empty_pool_def CONSTANT_POOL_SIZE_def)
  have "distinct ids" using byte_ids(1) by (simp only: ids)
  note f = fold_load_one [OF this start(1,2), of a ?el]
  have any0: "e_val (?el i) = 0" if "e_type (?el i) = ANY" for i
  proof -
    have "?el i \<in> set (constant_pool a)" using len unat_lt_256 [of i] by simp
    then show ?thesis using wf that by (fastforce simp: wf_asm_def wf_element_def)
  qed
  have mem: "i \<in> set ids \<longleftrightarrow> unat i < 128" for i using byte_ids(2) by (simp only: ids) auto
  have each: "cp_data ?cp ! unat i = \<lparr>e_type = e_type (?el i), e_val = loaded_value a (?el i)\<rparr> \<and>
      cp_maps ?cp ! unat i = loaded_map a (?el i)" for i
    using f wf_asm_high [OF wf, of i] any0 [of i] start(3,4) [OF unat_lt_256 [of i]] mem [of i]
    by (auto simp: loaded_value_def loaded_map_def)
  have data: "cp_data ?cp ! k = \<lparr>e_type = e_type (constant_pool a ! k), e_val = loaded_value a (constant_pool a ! k)\<rparr>"
    "cp_maps ?cp ! k = loaded_map a (constant_pool a ! k)" if "k < 256" for k
    using each [of "word_of_nat k"] that by (simp_all add: unat_of_nat)
  have lens: "length (cp_data ?cp) = 256" "length (cp_maps ?cp) = 256" using f by auto
  show ?thesis
  proof (rule const_pool.equality)
    show "cp_data ?cp = cp_data (loaded_pool a)"
      by (rule nth_equalityI) (simp_all only: lens data, simp_all add: loaded_pool_def len data)
    show "cp_maps ?cp = cp_maps (loaded_pool a)"
      by (rule nth_equalityI) (simp_all only: lens data, simp_all add: loaded_pool_def len data)
  qed simp
qed

lemma length_code_bytes [simp]: "length (code_bytes is) = 2 * length is"
  by (induction "is") (simp_all add: code_bytes_def)

lemma insts_of_code: "take (length is) (insts_of_bytes (code_bytes is @ rest)) = is"
  by (induction "is") (simp_all add: code_bytes_def)

lemma sum_list_take_drop: "sum_list (take n xs) + sum_list (drop n xs) = sum_list (xs :: nat list)"
  by (metis append_take_drop_id sum_list_append)

text \<open>The sizes reserved add up to the records of the identifiers below 128.\<close>

lemma AllocateBuffer_size:
  assumes wf: "wf_asm a"
    and rb: "\<And>i. unat i < 128 \<Longrightarrow> EstimateEncodingSize a (constant_pool a ! unat (i :: byte)) = Inr (length (rb i))"
  shows "AllocateBuffer a = Inr \<lparr>file_buffer = replicate (24 + 2 * length (instructions_buffer a)
           + length (concat (map rb (map word_of_nat [0..<128])))) 0, buf_pos = 0\<rparr>"
proof -
  let ?est = "\<lambda>e. case EstimateEncodingSize a e of Inr n \<Rightarrow> n | Inl _ \<Rightarrow> 0"
  have len: "length (constant_pool a) = 256" using wf by (simp add: wf_asm_def CONSTANT_POOL_SIZE_def)
  have ok: "EstimateEncodingSize a e = Inr (?est e)" if "e \<in> set (constant_pool a)" for e
  proof -
    have "wf_element a e" using wf that by (simp add: wf_asm_def)
    then show ?thesis by (auto elim: record_bytes_size [of a e undefined undefined])
  qed
  have low: "map ?est (take 128 (constant_pool a)) = map length (map rb (map word_of_nat [0..<128]))"
  proof (rule nth_equalityI)
    fix k assume "k < length (map ?est (take 128 (constant_pool a)))"
    then have k: "k < 128" by simp
    then have "unat (word_of_nat k :: byte) = k" by (simp add: unat_of_nat)
    then show "map ?est (take 128 (constant_pool a)) ! k = map length (map rb (map word_of_nat [0..<128])) ! k"
      using k len rb [of "word_of_nat k"] by simp
  qed (simp add: len)
  have "?est e = 0" if "e \<in> set (drop 128 (constant_pool a))" for e
    using wf that by (simp add: wf_asm_def EstimateEncodingSize_def)
  then have high: "sum_list (map ?est (drop 128 (constant_pool a))) = 0" by (simp add: sum_list_eq_0_iff)
  have "sum_list (map ?est (constant_pool a)) = length (concat (map rb (map word_of_nat [0..<128])))"
    using sum_list_take_drop [of 128 "map ?est (constant_pool a)"] low high
    by (simp add: take_map drop_map length_concat)
  then show ?thesis
    by (simp add: AllocateBuffer_def map_res_Inr [OF ok] record_sizes)
qed

text \<open>The bytes of the file, and what the constant region needs to load it behind the cursor \<open>c\<close>.\<close>

definition file_size :: "asm \<Rightarrow> nat" where
  "file_size a = (case AllocateBuffer a of Inl _ \<Rightarrow> 0 | Inr w \<Rightarrow> length (file_buffer w))"

definition const_need :: "(nat \<Rightarrow> nat) \<Rightarrow> asm \<Rightarrow> nat" where
  "const_need node a = file_size a + (\<Sum>e\<leftarrow>constant_pool a. record_cost node a e)"

lemma record_costs:
  assumes wf: "wf_asm a"
  shows "(\<Sum>e\<leftarrow>constant_pool a. record_cost node a e) =
    (\<Sum>i\<leftarrow>(map word_of_nat [0..<128] :: byte list). record_cost node a (constant_pool a ! unat i))"
proof -
  have len: "length (constant_pool a) = 256" using wf by (simp add: wf_asm_def CONSTANT_POOL_SIZE_def)
  have "(\<Sum>e\<leftarrow>drop 128 (constant_pool a). record_cost node a e) = 0"
    using wf by (intro sum_list_eq_0_iff [THEN iffD2]) (auto simp: wf_asm_def record_cost_def)
  moreover have "take 128 (constant_pool a) = map (\<lambda>i. constant_pool a ! unat i) (map word_of_nat [0..<128] :: byte list)"
    by (rule nth_equalityI) (use len in \<open>simp_all add: unat_of_nat\<close>)
  moreover have "(\<Sum>e\<leftarrow>constant_pool a. record_cost node a e) =
      (\<Sum>e\<leftarrow>take 128 (constant_pool a). record_cost node a e) + (\<Sum>e\<leftarrow>drop 128 (constant_pool a). record_cost node a e)"
    by (metis append_take_drop_id map_append sum_list_append)
  ultimately show ?thesis by (simp add: comp_def)
qed

lemma dump_load:
  assumes wf: "wf_asm a" and entry: "entry_offset a = Inr entry"
  obtains bs prog where "DumpClassFile pad a = Inr bs"
    "LoadClassFile node bs empty_pool c =
       charged (const_need node a) c (\<lparr>code_offset = 24, h_table_offset = table_offset a, entry_point = entry\<rparr>, prog, loaded_pool a)"
    "take (length (instructions_buffer a)) prog = instructions_buffer a"
proof -
  let ?el = "\<lambda>i :: byte. constant_pool a ! unat i"
  let ?ids = "map word_of_nat [0..<128] :: byte list"
  let ?n = "length (instructions_buffer a)"
  have len: "length (constant_pool a) = 256" using wf by (simp add: wf_asm_def CONSTANT_POOL_SIZE_def)
  have wfe: "wf_element a (?el i)" for i
    using wf len unat_lt_256 [of i] by (simp add: wf_asm_def)
  have "\<forall>i. \<exists>b. record_bytes pad a (?el i) i = Inr b \<and> EstimateEncodingSize a (?el i) = Inr (length b)"
    using record_bytes_size [OF wfe] by metis
  then obtain rb where rb: "record_bytes pad a (?el i) i = Inr (rb i)"
    "EstimateEncodingSize a (?el i) = Inr (length (rb i))" for i by metis
  define R where "R = concat (map rb ?ids)"
  define hdr where "hdr = put64 (of_nat sizeof_ClassFileHeader) @ put64 (table_offset a) @ put64 entry"
  define code where "code = code_bytes (instructions_buffer a)"
  define n where "n = 24 + 2 * ?n + length R"
  have R_ne: "R \<noteq> []"
  proof -
    let ?m = "fst (TryResolveName ENTRY_FUNC_NAME a)"
    from entry have F: "e_type (?el ?m) = FUNC"
      by (auto simp: entry_offset_def GetFunctionBytecodeOffset_def pool_get_def res_simps)
    then have "unat ?m < 128" using wf_asm_high [OF wf, of ?m] by auto
    then have "?m \<in> set ?ids" using byte_ids(2) by simp
    moreover have "rb ?m \<noteq> []" using rb(1) [of ?m] F by (auto simp: record_bytes_def)
    ultimately show ?thesis by (auto simp: R_def)
  qed
  have w0: "AllocateBuffer a = Inr \<lparr>file_buffer = replicate n 0, buf_pos = 0\<rparr>"
    unfolding n_def R_def by (rule AllocateBuffer_size [OF wf rb(2)])
  have hl: "length hdr = 24" "length code = 2 * ?n" by (simp_all add: hdr_def code_def)
  have W0: "written \<lparr>file_buffer = replicate n 0, buf_pos = 0\<rparr> [] n" by (simp add: written_def)
  obtain w1 where "write_buf hdr \<lparr>file_buffer = replicate n 0, buf_pos = 0\<rparr> = Inr w1" and W1: "written w1 hdr n"
    by (rule write_buf_written [OF W0, of hdr]) (use hl n_def in auto)
  then have w1: "WriteHeader a \<lparr>file_buffer = replicate n 0, buf_pos = 0\<rparr> = Inr w1"
    using entry hl by (simp add: WriteHeader_def hdr_def written_def record_sizes)
  obtain w2 where w2: "WriteCodeSection a w1 = Inr w2" and W2: "written w2 (hdr @ code) n"
    by (rule write_buf_written [OF W1, of code]) (use hl n_def in \<open>auto simp: WriteCodeSection_def code_def\<close>)
  have "\<exists>w3. fold_res (write_one pad a) ?ids w2 = Inr w3 \<and> written w3 ((hdr @ code) @ concat (map rb ?ids)) n"
    by (rule write_all_written [OF _ W2])
      (use rb(1) len unat_lt_256 hl in \<open>auto simp: pool_get_def n_def R_def\<close>)
  then obtain w3 where "fold_res (write_one pad a) ?ids w2 = Inr w3" and W3: "written w3 ((hdr @ code) @ R) n"
    unfolding R_def by blast
  then have w3: "WriteConstantPool pad a w2 = Inr w3"
    using write_pool_from_eq [of 0 pad a w2] by (simp add: WriteConstantPool_def)
  have buf: "file_buffer w3 = hdr @ code @ R" and pos: "buf_pos w3 = n"
    using W3 hl by (auto simp: written_def n_def)
  have dump: "DumpClassFile pad a = Inr (hdr @ code @ R)"
    using w0 w1 w2 w3 W1 W2 W3 R_ne hl buf pos
    by (simp add: DumpClassFile_def written_def n_def)
  have n64: "24 + 2 * ?n < 18446744073709551616" using wf by (simp add: wf_asm_def)
  have size: "table_offset a - 24 = of_nat (2 * ?n)"
    by (simp add: table_offset_def record_sizes)
  have usize: "unat (table_offset a - 24) = 2 * ?n"
    unfolding size using n64 by (simp only: unat_of_nat64)
  have mod2: "(table_offset a - 24) mod 2 = 0"
    unfolding unat_eq_iff [symmetric] by (simp add: unat_mod usize)
  have h: "read64 (hdr @ code @ R) 0 = Inr 24" "read64 (hdr @ code @ R) 8 = Inr (table_offset a)"
    "read64 (hdr @ code @ R) 16 = Inr entry"
    by (rule read64_at, simp add: hdr_def record_sizes)+
  have pool: "LoadConstantPool node R 0 empty_pool d =
      charged (\<Sum>i\<leftarrow>?ids. record_cost node a (?el i)) d (loaded_pool a)" if d: "d \<le> CONST_SIZE" for d
  proof -
    have "LoadConstantPool node R 0 empty_pool d =
      charged (\<Sum>i\<leftarrow>?ids. record_cost node a (?el i)) d (fold (\<lambda>i. load_one a i (?el i)) ?ids empty_pool)"
    proof (rule load_all_at)
      show "distinct ?ids" by (rule byte_ids(1))
      show "drop 0 R = concat (map rb ?ids)" by (simp add: R_def)
    qed (use wfe rb(1) unat_lt_256 d in \<open>auto simp: empty_pool_def CONSTANT_POOL_SIZE_def\<close>)
    then show ?thesis by (simp only: loaded_pool_eq [OF wf refl])
  qed
  have need: "const_need node a = n + (\<Sum>i\<leftarrow>?ids. record_cost node a (?el i))"
    using record_costs [OF wf, of node] by (simp add: const_need_def file_size_def w0)
  have "length (hdr @ code @ R) = n" by (simp add: hl n_def)
  then have load: "LoadClassFile node (hdr @ code @ R) empty_pool c =
      charged (const_need node a) c (\<lparr>code_offset = 24, h_table_offset = table_offset a, entry_point = entry\<rparr>,
           LoadCodeSection (hdr @ code @ R), loaded_pool a)"
    using h pool usize mod2 hl unfolding need
    by (auto simp: LoadClassFile_def LoadHeader_def record_sizes const_alloc_def charged_def)
  show thesis
    by (rule that [OF dump load])
      (use hl insts_of_code in \<open>simp add: LoadCodeSection_def record_sizes code_def\<close>)
qed

subsection \<open>What the assembler produces\<close>

text \<open>A pool entry is unused or well typed; the methods of an object have their offsets.\<close>

definition pool_entry_ok :: "asm \<Rightarrow> u64 element \<Rightarrow> bool" where
  "pool_entry_ok a e \<longleftrightarrow>
     (case e_type e of
        NUM \<Rightarrow> True
      | FUNC \<Rightarrow> True
      | ANY \<Rightarrow> e_val e = 0
      | STR_T \<Rightarrow> unat (e_val e) < length (strings_storage a)
      | OBJ \<Rightarrow> unat (e_val e) < length (objects_storage a)
      | _ \<Rightarrow> False)"

lemma pool_entry_ok_simps [simp]:
  "pool_entry_ok a \<lparr>e_type = NUM, e_val = v\<rparr>" "pool_entry_ok a \<lparr>e_type = FUNC, e_val = v\<rparr>"
  "pool_entry_ok a \<lparr>e_type = ANY, e_val = 0\<rparr>"
  "pool_entry_ok a \<lparr>e_type = STR_T, e_val = v\<rparr> \<longleftrightarrow> unat v < length (strings_storage a)"
  "pool_entry_ok a \<lparr>e_type = OBJ, e_val = v\<rparr> \<longleftrightarrow> unat v < length (objects_storage a)"
  by (simp_all add: pool_entry_ok_def)

definition asm_inv :: "asm \<Rightarrow> bool" where
  "asm_inv a \<longleftrightarrow> length (constant_pool a) = 256 \<and>
     (\<forall>e \<in> set (constant_pool a). pool_entry_ok a e) \<and>
     (\<forall>d \<in> set (objects_storage a). length (methods d) = length (methods_bc_offsets d)) \<and>
     (\<forall>k < 256. length (declared_objects a) \<le> k \<longrightarrow> e_type (constant_pool a ! k) = ANY) \<and>
     length (strings_storage a) + length (objects_storage a) \<le> length (declared_objects a)"

text \<open>Between a declaration and its definition, \<open>temp_idx\<close> is the identifier just declared.\<close>

definition declaring :: "asm \<Rightarrow> bool" where
  "declaring a \<longleftrightarrow> asm_inv a \<and> declared_objects a \<noteq> [] \<and>
     temp_idx a = of_nat (length (declared_objects a) - 1) \<and>
     length (strings_storage a) + length (objects_storage a) < length (declared_objects a)"

lemma pool_entry_ok_mono:
  "pool_entry_ok a e \<Longrightarrow> length (strings_storage a) \<le> length (strings_storage b) \<Longrightarrow>
   length (objects_storage a) \<le> length (objects_storage b) \<Longrightarrow> pool_entry_ok b e"
  by (auto simp: pool_entry_ok_def split: rtype.splits)

lemma asm_inv_empty: "asm_inv empty_asm"
  by (simp add: asm_inv_def empty_asm_def CONSTANT_POOL_SIZE_def pool_entry_ok_def)

lemma DeclareId_declaring:
  assumes "asm_inv a" "DeclareId n a = Inr b" "length (declared_objects b) \<le> 256"
  shows "declaring b \<and> objects_storage b = objects_storage a \<and> strings_storage b = strings_storage a"
  using assms
  by (auto simp: DeclareId_def res_simps Let_def declaring_def asm_inv_def intro: pool_entry_ok_mono [of a])

text \<open>Defining the entry just declared, with the storages grown or not.\<close>

lemma set_pool_inv:
  assumes a: "declaring a" and le: "length (declared_objects a) \<le> 256"
    and b: "b = set_pool t v (a\<lparr>strings_storage := ss, objects_storage := os\<rparr>)"
    and grow: "length (strings_storage a) \<le> length ss" "length (objects_storage a) \<le> length os"
    and ok: "pool_entry_ok b \<lparr>e_type = t, e_val = v\<rparr>"
    and d: "\<forall>d \<in> set os. length (methods d) = length (methods_bc_offsets d)"
    and fit: "length ss + length os \<le> length (declared_objects a)"
  shows "asm_inv b"
proof -
  let ?k = "length (declared_objects a) - 1"
  have kl: "?k < length (declared_objects a)" "?k < 256"
    using a le by (auto simp: declaring_def)
  have "temp_idx a = of_nat ?k" using a by (simp only: declaring_def)
  then have "unat (temp_idx a) = ?k" using kl(2) by (simp only: unat_of_nat) simp
  note k = this kl
  have inv: "asm_inv a" using a by (simp add: declaring_def)
  have pool: "constant_pool b = (constant_pool a)[?k := \<lparr>e_type = t, e_val = v\<rparr>]"
    by (simp add: b set_pool_def pool_set_def k)
  have fields: "declared_objects b = declared_objects a" "strings_storage b = ss" "objects_storage b = os"
    by (simp_all add: b set_pool_def)
  have "pool_entry_ok b e" if "e \<in> set (constant_pool b)" for e
  proof -
    have "e = \<lparr>e_type = t, e_val = v\<rparr> \<or> e \<in> set (constant_pool a)"
      using that set_update_subset_insert [of "constant_pool a" ?k] by (auto simp: pool)
    then show ?thesis
      using ok inv grow by (auto simp: asm_inv_def fields intro: pool_entry_ok_mono)
  qed
  then show ?thesis
    using inv k d fit by (auto simp: asm_inv_def fields pool nth_list_update)
qed

lemma item_keeps:
  assumes "assemble_item it a = Inr b"
  shows "declared_objects b = declared_objects a \<and> constant_pool b = constant_pool a \<and>
    strings_storage b = strings_storage a \<and> objects_storage b = objects_storage a"
proof (cases it)
  case (ILabel l)
  with assms show ?thesis by (auto simp: DefineLabel_def ResolveUnresolved_def res_simps)
next
  case (II c i)
  with assms show ?thesis
    by (cases i) (auto simp: Encode1_def emit_def TryResolveName_def AppendUnresolvedLabels_def Let_def
        split: option.splits)
qed (use assms in \<open>auto simp: Encode2_def Encode1_def Encode0_def emit_def res_simps\<close>)

lemma body_keeps:
  assumes "assemble_body its a = Inr b"
  shows "declared_objects b = declared_objects a \<and> constant_pool b = constant_pool a \<and>
    strings_storage b = strings_storage a \<and> objects_storage b = objects_storage a"
proof -
  from assms have run: "fold_res assemble_item its a = Inr b"
    by (auto simp: assemble_body_def CheckLabelsResolved_def res_simps)
  show ?thesis
    by (rule fold_res_invariant [OF run, of "\<lambda>x. declared_objects x = declared_objects a \<and>
        constant_pool x = constant_pool a \<and> strings_storage x = strings_storage a \<and>
        objects_storage x = objects_storage a"]) (auto dest: item_keeps)
qed

lemma asm_inv_cong:
  assumes "asm_inv a" "declared_objects b = declared_objects a" "constant_pool b = constant_pool a"
    "strings_storage b = strings_storage a" "length (objects_storage b) = length (objects_storage a)"
    "\<forall>d \<in> set (objects_storage b). length (methods d) = length (methods_bc_offsets d)"
  shows "asm_inv b"
  using assms by (auto simp: asm_inv_def intro: pool_entry_ok_mono)

lemma asm_inv_methods:
  "asm_inv a \<Longrightarrow> d \<in> set (objects_storage a) \<Longrightarrow> length (methods d) = length (methods_bc_offsets d)"
  by (simp add: asm_inv_def)

lemma with_last_object_inv:
  assumes a: "asm_inv a" and b: "with_last_object f a = Inr b"
    and f: "\<And>d. length (methods d) = length (methods_bc_offsets d) \<Longrightarrow>
                  length (methods (f d)) = length (methods_bc_offsets (f d))"
  shows "asm_inv b \<and> declared_objects b = declared_objects a"
proof -
  from b have ne: "objects_storage a \<noteq> []"
    and eq: "b = a\<lparr>objects_storage := butlast (objects_storage a) @ [f (last (objects_storage a))]\<rparr>"
    by (auto simp: with_last_object_def res_simps)
  have "asm_inv b"
    by (rule asm_inv_cong [OF a]) (use a ne f in \<open>auto simp: eq asm_inv_def dest: in_set_butlastD\<close>)
  then show ?thesis by (simp add: eq)
qed

lemma member_inv:
  assumes "asm_inv a" "assemble_member m a = Inr b"
  shows "asm_inv b \<and> declared_objects b = declared_objects a"
proof (cases m)
  case (Method n its)
  with assms(2) obtain c where c: "DeclareAndDefineMethod n a = Inr c" and b: "assemble_body its c = Inr b"
    by (auto simp: res_simps)
  have "asm_inv c \<and> declared_objects c = declared_objects a"
    using with_last_object_inv [OF assms(1) c [unfolded DeclareAndDefineMethod_def]] by simp
  with body_keeps [OF b] show ?thesis using asm_inv_cong [of c b] asm_inv_methods [of c] by auto
next
  case (DataMember n)
  with assms(2) have "with_last_object (\<lambda>d. d\<lparr>data_fields := data_fields d @ [n]\<rparr>) a = Inr b"
    by (simp add: DeclareAndDefineAnyDataMember_def)
  from with_last_object_inv [OF assms(1) this] show ?thesis by simp
qed

text \<open>What holds of the storages of a class file that the target can express.\<close>

definition names_ok :: "object_descr \<Rightarrow> bool" where
  "names_ok d \<longleftrightarrow> distinct (data_fields d @ methods d) \<and>
     (\<forall>n \<in> set (data_fields d @ methods d). 0 \<notin> set n) \<and>
     length (data_fields d) < 2 ^ 64 \<and> length (methods d) < 2 ^ 64"

definition representable :: "asm \<Rightarrow> bool" where
  "representable a \<longleftrightarrow> length (declared_objects a) \<le> 128 \<and>
     (\<forall>d \<in> set (objects_storage a). names_ok d) \<and>
     (\<forall>str \<in> set (strings_storage a). length str < 2 ^ 64) \<and>
     24 + 2 * length (instructions_buffer a) < 2 ^ 64"

lemma asm_inv_wf:
  assumes inv: "asm_inv a" and rep: "representable a"
  shows "wf_asm a"
proof -
  have len: "length (constant_pool a) = 256" using inv by (simp add: asm_inv_def)
  have "wf_element a e" if "e \<in> set (constant_pool a)" for e
  proof -
    have "pool_entry_ok a e" using inv that by (simp add: asm_inv_def)
    moreover have "wf_descr (objects_storage a ! k)" if "k < length (objects_storage a)" for k
    proof -
      have "objects_storage a ! k \<in> set (objects_storage a)" using that by simp
      then show ?thesis using inv rep by (auto simp: asm_inv_def representable_def names_ok_def wf_descr_def)
    qed
    moreover have "length (strings_storage a ! k) < 2 ^ 64" if "k < length (strings_storage a)" for k
      using rep that by (auto simp: representable_def)
    ultimately show ?thesis by (auto simp: pool_entry_ok_def wf_element_def split: rtype.splits)
  qed
  moreover have "e_type e = ANY" if e: "e \<in> set (drop 128 (constant_pool a))" for e
  proof -
    obtain k where "k < length (drop 128 (constant_pool a))" "drop 128 (constant_pool a) ! k = e"
      using e by (auto simp: in_set_conv_nth)
    then have "e = constant_pool a ! (128 + k)" "128 + k < 256" using len by auto
    then show ?thesis using inv rep by (auto simp: asm_inv_def representable_def)
  qed
  ultimately show ?thesis using len rep by (simp add: wf_asm_def representable_def CONSTANT_POOL_SIZE_def)
qed

text \<open>Declarations only add identifiers.\<close>

lemma DeclareId_length: "DeclareId n a = Inr b \<Longrightarrow> length (declared_objects b) = Suc (length (declared_objects a))"
  by (auto simp: DeclareId_def res_simps Let_def)

lemma member_declared: "assemble_member m a = Inr b \<Longrightarrow> declared_objects b = declared_objects a"
  by (cases m) (auto simp: res_simps DeclareAndDefineMethod_def DeclareAndDefineAnyDataMember_def
      with_last_object_def dest: body_keeps)

lemma members_declared:
  assumes "fold_res assemble_member ms a = Inr b"
  shows "declared_objects b = declared_objects a"
  by (rule fold_res_invariant [OF assms, of "\<lambda>x. declared_objects x = declared_objects a"])
    (auto dest: member_declared)

interpretation members: step_system assemble_member asm_inv
  by unfold_locales (blast dest: member_inv)

lemma decl_length:
  assumes step: "assemble_decl d a = Inr b"
  shows "length (declared_objects b) = Suc (length (declared_objects a))"
proof (cases d)
  case (DStr n tx)
  then show ?thesis using step
    by (cases "takeWhile (\<lambda>b. b \<noteq> 0) tx") (auto simp: res_simps DefineStr_def Let_def set_pool_def dest!: DeclareId_length)
qed (use step in \<open>auto simp: res_simps DefineNum_def DeclareObject_def DeclareAndDefineFunction_def
      Let_def set_pool_def dest!: DeclareId_length members_declared body_keeps\<close>)

lemma decl_inv:
  assumes inv: "asm_inv a" and step: "assemble_decl d a = Inr b"
    and le: "length (declared_objects b) \<le> 256"
  shows "asm_inv b"
proof (cases d)
  case (DNum n tx)
  with step obtain c where c: "DeclareId n a = Inr c" and b: "b = DefineNum tx c" by (auto simp: res_simps)
  have le': "length (declared_objects c) \<le> 256" using le by (simp add: b DefineNum_def set_pool_def)
  from DeclareId_declaring [OF inv c le'] have dec: "declaring c" by simp
  then have "asm_inv c" by (simp add: declaring_def)
  then show ?thesis
    by (intro set_pool_inv [OF dec le', where ss = "strings_storage c" and os = "objects_storage c"
          and t = NUM and v = "atof tx"]) (simp_all add: b DefineNum_def asm_inv_def)
next
  case (DStr n tx)
  with step obtain c q rest where c: "DeclareId n a = Inr c"
    and b: "b = set_pool STR_T (of_nat (length (strings_storage c)))
      (c\<lparr>strings_storage := strings_storage c @ [butlast rest]\<rparr>)"
    by (cases "takeWhile (\<lambda>b. b \<noteq> 0) tx") (auto simp: res_simps DefineStr_def Let_def)
  have le': "length (declared_objects c) \<le> 256" using le by (simp add: b set_pool_def)
  from DeclareId_declaring [OF inv c le'] have dec: "declaring c" by simp
  then have inv_c: "asm_inv c" and lt: "length (strings_storage c) + length (objects_storage c) < length (declared_objects c)"
    by (simp_all add: declaring_def)
  have "unat (of_nat (length (strings_storage c)) :: u64) = length (strings_storage c)"
    using lt le' by (intro unat_of_nat64) simp
  then show ?thesis
    using inv_c lt
    by (intro set_pool_inv [OF dec le', where ss = "strings_storage c @ [butlast rest]" and os = "objects_storage c"
          and t = STR_T and v = "of_nat (length (strings_storage c))"])
      (simp_all add: b asm_inv_def set_pool_def)
next
  case (DObj n ms)
  define new where "new = \<lparr>data_fields = [], methods = [], methods_bc_offsets = []\<rparr>"
  from DObj step obtain c e where c: "DeclareId n a = Inr c"
    and e0: "DeclareObject n a = Inr e" and b: "fold_res assemble_member ms e = Inr b"
    by (auto simp: res_simps DeclareObject_def)
  have e: "e = set_pool OBJ (of_nat (length (objects_storage c)))
      (c\<lparr>objects_storage := objects_storage c @ [new]\<rparr>)"
    using e0 c by (intro asm.equality) (auto simp: DeclareObject_def Let_def set_pool_def new_def)
  have "asm_inv e" if "length (declared_objects c) \<le> 256"
  proof -
    from DeclareId_declaring [OF inv c that] have dec: "declaring c" by simp
    then have inv_c: "asm_inv c" and lt: "length (strings_storage c) + length (objects_storage c) < length (declared_objects c)"
      by (simp_all add: declaring_def)
    have "unat (of_nat (length (objects_storage c)) :: u64) = length (objects_storage c)"
      using lt that by (intro unat_of_nat64) simp
    then show ?thesis
      using inv_c lt
      by (intro set_pool_inv [OF dec that, where ss = "strings_storage c" and os = "objects_storage c @ [new]"
          and t = OBJ and v = "of_nat (length (objects_storage c))"])
        (auto simp: e asm_inv_def set_pool_def new_def)
  qed
  moreover have "declared_objects b = declared_objects c"
    using members_declared [OF b] by (simp add: e set_pool_def)
  ultimately show ?thesis using le members.run_inv [OF _ b] by simp
next
  case (DFunc n its)
  with step obtain c e where c: "DeclareId n a = Inr c"
    and e: "e = set_pool FUNC (of_nat (length (instructions_buffer c))) c"
    and b: "assemble_body its e = Inr b"
    by (auto simp: res_simps DeclareAndDefineFunction_def)
  note keep = body_keeps [OF b]
  have le': "length (declared_objects c) \<le> 256" using le keep by (simp add: e set_pool_def)
  from DeclareId_declaring [OF inv c le'] have dec: "declaring c" by simp
  then have "asm_inv c" by (simp add: declaring_def)
  then have "asm_inv e"
    by (intro set_pool_inv [OF dec le', where ss = "strings_storage c" and os = "objects_storage c"
          and t = FUNC and v = "of_nat (length (instructions_buffer c))"])
      (simp_all add: e asm_inv_def)
  then show ?thesis using asm_inv_cong [of e b] asm_inv_methods [of e] keep by auto
qed

text \<open>As long as no more than 256 identifiers are declared, the invariant holds of every assembled program.\<close>

definition asm_bounded_inv :: "asm \<Rightarrow> bool" where
  "asm_bounded_inv a \<longleftrightarrow> length (declared_objects a) \<le> 256 \<longrightarrow> asm_inv a"

interpretation decls: step_system assemble_decl asm_bounded_inv
proof
  fix a d b assume a: "asm_bounded_inv a" and step: "assemble_decl d a = Inr b"
  note len = decl_length [OF step]
  show "asm_bounded_inv b"
  proof (cases "asm_inv a")
    case True
    then show ?thesis using decl_inv [OF True step] by (simp add: asm_bounded_inv_def)
  next
    case False
    then show ?thesis using a len by (simp add: asm_bounded_inv_def)
  qed
qed

lemma assemble_inv: "assemble ds = Inr a \<Longrightarrow> length (declared_objects a) \<le> 256 \<Longrightarrow> asm_inv a"
  using decls.run_inv [of empty_asm ds a] asm_inv_empty by (simp add: assemble_def asm_bounded_inv_def)

end
