(* ===== verification/K3s_GC.thy ===== *)
theory K3s_GC
  imports K3s_Heap
begin

text \<open>
  The garbage collector (allocator/gc.h, allocator/gc_region.h, allocator/gc_region.cpp).  A
  collection of pool \<open>N\<close> marks what is reachable from the frames, recording the objects that live
  in the region and the references to them, moves those objects to pool \<open>N - 1\<close> (collecting that
  one first when it is too full), redirects the recorded references and resets the region.
  Collections nest, so the recorded work is a stack of stages.

  Marking is a recursion over the object graph; the model bounds it by fuel, and \<open>mark_fuel\<close>, one
  more than the number of objects, is shown to be enough.  The C++ call stack is taken to be
  unlimited, and the timestamps are not modelled.

  The vectors of the collector (\<open>GCVector\<close>, allocator/containers.h) live in a region of 4 MB that is
  only reset when the last stage is finished.  \<open>std::vector\<close> doubles its capacity when it is full and
  asks its allocator for the new storage; \<open>deallocate\<close> does nothing.
\<close>

subsection \<open>The vectors of the collector\<close>

text \<open>
  \<open>Region::AllocBytes\<close> of the region of the collector.  The sizes are numbers: a vector that grows lies
  in the region with all its elements, so no sum comes near the end of 64 bits.
\<close>

definition internals_alloc :: "nat \<Rightarrow> vm \<Rightarrow> vm res" where
  "internals_alloc n s =
     (if gc_cursor s + n > unat GC_INTERNALS_SIZE then Inl (Fatal ''ALLOCATOR OOM'')
      else Inr (s\<lparr>gc_cursor := gc_cursor s + n\<rparr>))"

text \<open>The capacity of a vector that was empty and to which \<open>n\<close> elements have been added.\<close>

primrec capacity :: "nat \<Rightarrow> nat" where
  "capacity 0 = 0"
| "capacity (Suc n) = (if capacity n = n then (if n = 0 then 1 else 2 * n) else capacity n)"

text \<open>
  \<open>push_back\<close> and \<open>emplace_back\<close> on a vector with \<open>n\<close> elements of \<open>sz\<close> bytes.  In a stage nothing is
  added any more once elements are taken away, and at most two stages are open, so the number of
  elements determines the capacity.
\<close>

definition push_bytes :: "nat \<Rightarrow> nat \<Rightarrow> nat" where
  "push_bytes sz n = (if capacity n = n then capacity (Suc n) * sz else 0)"

definition GCVector_push_back :: "nat \<Rightarrow> nat \<Rightarrow> vm \<Rightarrow> vm res" where
  "GCVector_push_back sz n s = (if push_bytes sz n = 0 then Inr s else internals_alloc (push_bytes sz n) s)"

text \<open>\<open>sizeof\<close> of \<open>ObjectHeader *\<close>, \<open>DanglingReference\<close> and \<open>GCStageState\<close> (two vectors and a size).\<close>

definition sizeof_target :: nat where "sizeof_target = 8"
definition sizeof_dangling :: nat where "sizeof_dangling = 16"
definition sizeof_stage :: nat where "sizeof_stage = 56"

subsection \<open>Stages\<close>

definition PrepareNewStage :: "vm \<Rightarrow> vm res" where
  "PrepareNewStage s =
     rbind (GCVector_push_back sizeof_stage (length (stages s)) s) (\<lambda>s1.
       Inr (s1\<lparr>stages := \<lparr>target_objects = [], estimating_realloc_size = 0, references_to_targets = []\<rparr> # stages s1\<rparr>))"

text \<open>When the last stage is finished, the region of the vectors is reset.\<close>

definition FinalizeStage :: "vm \<Rightarrow> vm res" where
  "FinalizeStage s =
     guard (stages s \<noteq> []) AssertFailed
       (Inr (s\<lparr>stages := tl (stages s), gc_cursor := (if tl (stages s) = [] then 8 else gc_cursor s)\<rparr>))"

text \<open>\<open>stages_stack_.back()\<close>, undefined when the stack is empty.\<close>

definition with_stage :: "vm \<Rightarrow> (gc_stage \<Rightarrow> 'a res) \<Rightarrow> 'a res" where
  "with_stage s k = (case stages s of [] \<Rightarrow> Inl Undefined | st # _ \<Rightarrow> k st)"

definition set_stage :: "gc_stage \<Rightarrow> vm \<Rightarrow> vm" where
  "set_stage st s = s\<lparr>stages := st # tl (stages s)\<rparr>"

definition AppendAliveObject :: "addr \<Rightarrow> obj \<Rightarrow> vm \<Rightarrow> vm res" where
  "AppendAliveObject a b s =
     guard (a \<noteq> 0) AssertFailed
       (with_stage s (\<lambda>st.
          rbind (GCVector_push_back sizeof_target (length (target_objects st)) s) (\<lambda>s1.
            Inr (set_stage
              (st\<lparr>estimating_realloc_size := estimating_realloc_size st + o_size b,
                 target_objects := a # target_objects st\<rparr>) s1))))"

definition AppendRefToAliveObject :: "dangling \<Rightarrow> vm \<Rightarrow> vm res" where
  "AppendRefToAliveObject d s =
     with_stage s (\<lambda>st.
       rbind (GCVector_push_back sizeof_dangling (length (references_to_targets st)) s) (\<lambda>s1.
         Inr (set_stage (st\<lparr>references_to_targets := d # references_to_targets st\<rparr>) s1)))"

definition GetEstimatedSpace :: "vm \<Rightarrow> u64 res" where
  "GetEstimatedSpace s = with_stage s (\<lambda>st. Inr (estimating_realloc_size st))"

definition PopAliveObject :: "vm \<Rightarrow> (addr option \<times> vm) res" where
  "PopAliveObject s =
     with_stage s (\<lambda>st.
       case target_objects st of
         [] \<Rightarrow> Inr (None, s)
       | a # as \<Rightarrow>
           guard (a \<noteq> 0) AssertFailed
             (rbind (hget a s) (\<lambda>b.
                guard (o_reloc b = 0) AssertFailed
                  (Inr (Some a, set_stage (st\<lparr>target_objects := as\<rparr>) s)))))"

definition PopRefToMovedObject :: "vm \<Rightarrow> (dangling option \<times> vm) res" where
  "PopRefToMovedObject s =
     with_stage s (\<lambda>st.
       case references_to_targets st of
         [] \<Rightarrow> Inr (None, s)
       | d # ds \<Rightarrow> Inr (Some d, set_stage (st\<lparr>references_to_targets := ds\<rparr>) s))"

definition InitMark :: "vm \<Rightarrow> vm" where
  "InitMark s = s\<lparr>gc_mark := gc_mark s + 1\<rparr>"

subsection \<open>Marking\<close>

definition append_if :: "bool \<Rightarrow> dangling \<Rightarrow> vm \<Rightarrow> vm res" where
  "append_if b d s = (if b then AppendRefToAliveObject d s else Inr s)"

text \<open>
  \<open>mark_reg\<close> is \<open>MarkAndFetchRecursively\<close>; \<open>mark_slots\<close> is the loop of \<open>MarkArray\<close>,
  \<open>MarkObject\<close> and \<open>MarkFunction\<close>, which differ only in the registers they enumerate.
\<close>

function (sequential) mark_reg :: "nat \<Rightarrow> nat \<Rightarrow> register \<Rightarrow> vm \<Rightarrow> (bool \<times> vm) res"
  and mark_slots :: "nat \<Rightarrow> nat \<Rightarrow> addr \<Rightarrow> nat \<Rightarrow> register list \<Rightarrow> vm \<Rightarrow> vm res" where
  "mark_reg 0 N v s = Inl OutOfFuel"
| "mark_reg (Suc f) N v s =
     (if IsPrimitive v then Inr (False, s)
      else
        let a = r_value v; realoc = Contains N a
        in rbind (hget a s) (\<lambda>b.
             if o_mark b = gc_mark s then Inr (realoc, s)
             else
               rbind (let s1 = hput a (b\<lparr>o_mark := gc_mark s\<rparr>) s
                      in if realoc then AppendAliveObject a b s1 else Inr s1) (\<lambda>s2.
                 case r_type v of
                   STR_T \<Rightarrow> Inr (realoc, s2)
                 | NIL \<Rightarrow> Inl (Fatal ''GC'')
                 | t \<Rightarrow> rbind (slots_as t (o_body b)) (\<lambda>rs.
                          rbind (mark_slots f N a 0 rs s2) (\<lambda>s3. Inr (realoc, s3))))))"
| "mark_slots f N h i [] s = Inr s"
| "mark_slots f N h i (r # rs) s =
     rbind (mark_reg f N r s) (\<lambda>(b, s1).
       rbind (append_if b (DSlot h i) s1) (mark_slots f N h (Suc i) rs))"
  by pat_completeness auto
termination
  by (relation "measures [\<lambda>x. case x of Inl (f, _) \<Rightarrow> f | Inr (f, _) \<Rightarrow> f,
                          \<lambda>x. case x of Inl _ \<Rightarrow> 0 | Inr (_, _, _, _, rs, _) \<Rightarrow> Suc (length rs)]") auto

definition mark_fuel :: "vm \<Rightarrow> nat" where
  "mark_fuel s = Suc (Suc (length (objs s)))"

text \<open>The roots of one frame: the callee, the accumulator, the sixteen registers.\<close>

definition frame_roots :: "nat \<Rightarrow> root list" where
  "frame_roots i = RCallee i # RAcc i # map (RReg i) [0..<16]"

text \<open>The frames from the bottom of the stack to the top.\<close>

definition all_roots :: "vm \<Rightarrow> root list" where
  "all_roots s = concat (map frame_roots (rev [0..<length (frames s)]))"

definition mark_root :: "nat \<Rightarrow> root \<Rightarrow> vm \<Rightarrow> vm res" where
  "mark_root N r s =
     rbind (read_root r s) (\<lambda>v.
       rbind (mark_reg (mark_fuel s) N v s) (\<lambda>(b, s1). append_if b (DRoot r) s1))"

definition MarkAndFetchTargetObjects :: "nat \<Rightarrow> vm \<Rightarrow> vm res" where
  "MarkAndFetchTargetObjects N s = (let s1 = InitMark s in fold_res (mark_root N) (all_roots s1) s1)"

subsection \<open>Moving\<close>

definition reloc_of :: "addr \<Rightarrow> vm \<Rightarrow> addr res" where
  "reloc_of a s = rbind (hget a s) (\<lambda>b. Inr (o_reloc b))"

definition fix_holder :: "vm \<Rightarrow> dangling \<Rightarrow> dangling res" where
  "fix_holder s d =
     (case d of
        DRoot r \<Rightarrow> Inr (DRoot r)
      | DSlot h i \<Rightarrow> rbind (reloc_of h s) (\<lambda>n. Inr (DSlot (if n \<noteq> 0 then n else h) i)))"

definition FixInvalidDanglingReferences :: "vm \<Rightarrow> vm res" where
  "FixInvalidDanglingReferences s =
     rbind (map_res (\<lambda>st. rbind (map_res (fix_holder s) (references_to_targets st))
                            (\<lambda>ds. Inr (st\<lparr>references_to_targets := ds\<rparr>))) (stages s))
       (\<lambda>sts. Inr (s\<lparr>stages := sts\<rparr>))"

text \<open>One object: \<open>AllocBytes\<close> in the next region, \<open>memcpy\<close>, \<open>SetRelocatedPtr\<close>.\<close>

definition move_object :: "nat \<Rightarrow> addr \<Rightarrow> vm \<Rightarrow> vm res" where
  "move_object N a s =
     rbind (hget a s) (\<lambda>b.
       rbind (AllocBytes (N - 1) (o_size b) s) (\<lambda>(new, s1).
         guard (o_reloc b = 0) AssertFailed
           (Inr (hput a (b\<lparr>o_reloc := new\<rparr>) (place new (o_size b) b s1)))))"

text \<open>The loop pops at most as many objects as were recorded.\<close>

fun move_loop :: "nat \<Rightarrow> nat \<Rightarrow> vm \<Rightarrow> vm res" where
  "move_loop 0 N s = Inl OutOfFuel"
| "move_loop (Suc n) N s =
     rbind (PopAliveObject s) (\<lambda>(ao, s1).
       case ao of None \<Rightarrow> Inr s1
                | Some a \<Rightarrow> rbind (move_object N a s1) (move_loop n N))"

definition stage_size :: "(gc_stage \<Rightarrow> 'a list) \<Rightarrow> vm \<Rightarrow> nat" where
  "stage_size sel s = (case stages s of [] \<Rightarrow> 0 | st # _ \<Rightarrow> length (sel st))"

subsection \<open>Rebinding\<close>

text \<open>\<open>*GetDanglingRefFrom(base)\<close>: the pointer stored in a slot.\<close>

definition slot_ptr :: "addr \<Rightarrow> nat \<Rightarrow> vm \<Rightarrow> addr res" where
  "slot_ptr h i s =
     rbind (hget h s) (\<lambda>b. rbind (nth_res (slots (o_body b)) i) (\<lambda>r. Inr (r_value r)))"

definition set_slot_ptr :: "addr \<Rightarrow> nat \<Rightarrow> addr \<Rightarrow> vm \<Rightarrow> vm res" where
  "set_slot_ptr h i p s =
     rbind (hget h s) (\<lambda>b. guard (i < length (slots (o_body b))) Undefined (Inr (write_slot h i p b s)))"

definition Fix :: "dangling \<Rightarrow> vm \<Rightarrow> vm res" where
  "Fix d s =
     (case d of
        DRoot r \<Rightarrow>
          rbind (read_root r s) (\<lambda>v. rbind (reloc_of (r_value v) s) (\<lambda>n.
            guard (n \<noteq> 0) AssertFailed (Inr (write_root r n s))))
      | DSlot h i \<Rightarrow>
          rbind (slot_ptr h i s) (\<lambda>p. rbind (reloc_of p s) (\<lambda>n.
            guard (n \<noteq> 0) AssertFailed
              (rbind (reloc_of h s) (\<lambda>h'.
                 if h' \<noteq> 0 then
                   rbind (slot_ptr h' i s) (\<lambda>q. rbind (reloc_of q s) (\<lambda>m.
                     guard (m = n) AssertFailed (set_slot_ptr h' i n s)))
                 else set_slot_ptr h i n s)))))"

fun rebind_loop :: "nat \<Rightarrow> vm \<Rightarrow> vm res" where
  "rebind_loop 0 s = Inl OutOfFuel"
| "rebind_loop (Suc n) s =
     rbind (PopRefToMovedObject s) (\<lambda>(d, s1).
       case d of None \<Rightarrow> Inr s1 | Some d \<Rightarrow> rbind (Fix d s1) (rebind_loop n))"

definition RebindLinks :: "vm \<Rightarrow> vm res" where
  "RebindLinks s = rebind_loop (Suc (stage_size references_to_targets s)) s"

subsection \<open>Collection\<close>

text \<open>\<open>MoveObjects\<close> of the pool \<open>N\<close>; \<open>cleanup\<close> is \<open>CleanupThis\<close> of the pool \<open>N - 1\<close>.\<close>

definition MoveObjects :: "(vm \<Rightarrow> vm res) \<Rightarrow> nat \<Rightarrow> vm \<Rightarrow> vm res" where
  "MoveObjects cleanup N s =
     rbind (GetEstimatedSpace s) (\<lambda>e.
       rbind (if GetRemainingSpace (N - 1) s < e
              then rbind (cleanup s) (\<lambda>s1.
                     rbind (GetEstimatedSpace s1) (\<lambda>e1.
                       guard (GetRemainingSpace (N - 1) s1 \<ge> e1) AssertFailed
                         (FixInvalidDanglingReferences s1)))
              else Inr s)
         (\<lambda>s2. move_loop (Suc (stage_size target_objects s2)) N s2))"

fun CleanupThis :: "nat \<Rightarrow> vm \<Rightarrow> vm res" where
  "CleanupThis 0 s = Inr s"
| "CleanupThis (Suc M) s =
     guard (\<not> gc_forbidden s) (Fatal ''GC'')
       (rbind (rbind (PrepareNewStage s) (MarkAndFetchTargetObjects (Suc M))) (\<lambda>s1.
          rbind (MoveObjects (CleanupThis M) (Suc M) s1) (\<lambda>s2.
            rbind (RebindLinks s2) (\<lambda>s3. FinalizeStage (Reset (Suc M) s3)))))"

subsection \<open>The objects region\<close>

text \<open>\<open>GCRegion::AllocBytes\<close> is \<open>RegionsPool::AllocBytes\<close> of the first survivor pool.\<close>

definition PoolAllocBytes :: "u64 \<Rightarrow> vm \<Rightarrow> (addr \<times> vm) res" where
  "PoolAllocBytes n s =
     (if GetRemainingSpace SURVIVORS_N s \<ge> n then AllocBytes SURVIVORS_N n s
      else rbind (CleanupThis SURVIVORS_N s) (\<lambda>s1.
             guard (GetRemainingSpace SURVIVORS_N s1 = MAX_ALLOC_SIZE SURVIVORS_N) AssertFailed
               (AllocBytes SURVIVORS_N n s1)))"

definition PrepareForSequentAllocations :: "u64 \<Rightarrow> vm \<Rightarrow> vm res" where
  "PrepareForSequentAllocations n s =
     rbind (if GetRemainingSpace SURVIVORS_N s \<le> n
            then rbind (CleanupThis SURVIVORS_N s) (\<lambda>s1.
                   guard (GetRemainingSpace SURVIVORS_N s1 > n) AssertFailed (Inr s1))
            else Inr s)
       (\<lambda>s2. Inr (s2\<lparr>gc_forbidden := True\<rparr>))"

definition EndSequentAllocations :: "vm \<Rightarrow> vm" where
  "EndSequentAllocations s = s\<lparr>gc_forbidden := False\<rparr>"

end
