(* ===== verification/K3s_Alloc.thy ===== *)
theory K3s_Alloc
  imports K3s_GC
begin

text \<open>
  Creation of heap objects: \<open>Function::New\<close>, \<open>Array::New\<close>, \<open>String::New\<close> and
  \<open>Object::New\<close> (interpreter/types/), and the accessors the interpreter uses.  \<open>Object::New\<close>
  reserves the space of the object and of its methods first and forbids collections while it
  builds them; the fields of the methods hold an empty register until their function is created
  (the code leaves them unset; nothing reads them in between).
\<close>

subsection \<open>Functions, arrays and strings\<close>

definition Function_New :: "u64 \<Rightarrow> vm \<Rightarrow> (addr \<times> vm) res" where
  "Function_New bc_offs s =
     rbind (PoolAllocBytes sizeof_function s) (\<lambda>(p, s1).
       Inr (p, place p sizeof_function (new_obj sizeof_function (new_function bc_offs)) s1))"

text \<open>
  The size is a 64-bit product, and \<open>Region::AllocBytes\<close> adds it to the cursor before it compares.
  When one of them wraps, the allocation succeeds and the constructor writes past the region.
  \<open>in_storage p k\<close> says that \<open>k\<close> bytes from \<open>p\<close> lie in the region of new objects.
\<close>

definition in_storage :: "addr \<Rightarrow> nat \<Rightarrow> bool" where
  "in_storage p k \<longleftrightarrow> unat p + k \<le> unat (START_PTR SURVIVORS_N) + unat (REGION_SIZE SURVIVORS_N)"

definition array_size :: "u64 \<Rightarrow> u64" where
  "array_size n = sizeof_array + sizeof_register * n"

definition Array_New :: "u64 \<Rightarrow> vm \<Rightarrow> (addr \<times> vm) res" where
  "Array_New n s =
     rbind (PoolAllocBytes (array_size n) s) (\<lambda>(p, s1).
       guard (in_storage p (40 + 16 * unat n)) Undefined
         (Inr (p, place p (array_size n)
                    (new_obj (array_size n) (Array (replicate (unat n) reg_reset))) s1)))"

text \<open>\<open>strlen\<close> of constant data: the bytes before the first NUL.\<close>

definition c_str :: "cstring \<Rightarrow> cstring" where
  "c_str bs = takeWhile (\<lambda>c. c \<noteq> 0) bs"

definition string_size :: "cstring \<Rightarrow> u64" where
  "string_size bs = sizeof_string + of_nat (length bs) + 1"

definition String_New :: "cstring \<Rightarrow> vm \<Rightarrow> (addr \<times> vm) res" where
  "String_New text s =
     (let bs = c_str text in
      rbind (PoolAllocBytes (string_size bs) s) (\<lambda>(p, s1).
        guard (in_storage p (41 + length bs)) Undefined
          (Inr (p, place p (string_size bs) (new_obj (string_size bs) (String bs)) s1))))"

subsection \<open>Objects\<close>

definition object_size :: "mapping \<Rightarrow> u64" where
  "object_size m = sizeof_object + sizeof_register * of_nat (length m)"

definition set_field :: "addr \<Rightarrow> nat \<Rightarrow> register \<Rightarrow> vm \<Rightarrow> vm res" where
  "set_field p i r s =
     rbind (hget p s) (\<lambda>b.
       guard (i < length (slots (o_body b))) Undefined
         (Inr (hput p (b\<lparr>o_body := set_slot (o_body b) i r\<rparr>) s)))"

text \<open>The loop of the constructor over the methods, from field \<open>i\<close> on.\<close>

fun new_methods :: "addr \<Rightarrow> nat \<Rightarrow> u64 list \<Rightarrow> vm \<Rightarrow> vm res" where
  "new_methods p i [] s = Inr s"
| "new_methods p i (off # offs) s =
     rbind (Function_New off s) (\<lambda>(f, s1).
       rbind (set_field p i (set_func f) s1) (new_methods p (Suc i) offs))"

definition Object_New :: "mapping \<Rightarrow> u64 list \<Rightarrow> vm \<Rightarrow> (addr \<times> vm) res" where
  "Object_New m bc_offsets_vector s =
     rbind (nth_res bc_offsets_vector 0) (\<lambda>methods_n.
       rbind (PrepareForSequentAllocations (sizeof_function * methods_n + object_size m) s) (\<lambda>s1.
         rbind (PoolAllocBytes (object_size m) s1) (\<lambda>(p, s2).
           let s3 = place p (object_size m) (new_obj 0 (Object m (replicate (length m) reg_reset))) s2
           in guard (in_storage p (40 + 16 * length m)) Undefined (guard (of_nat (length m) \<ge> methods_n) AssertFailed
                (guard (unat methods_n < length bc_offsets_vector) Undefined
                   (rbind (new_methods p (length m - unat methods_n)
                             (take (unat methods_n) (tl bc_offsets_vector)) s3) (\<lambda>s4.
                      rbind (hget p s4) (\<lambda>b.
                        Inr (p, EndSequentAllocations (hput p (b\<lparr>o_size := object_size m\<rparr>) s4))))))))))"

definition ResolveId :: "mapping \<Rightarrow> cstring \<Rightarrow> nat res" where
  "ResolveId m name = (case map_of m name of None \<Rightarrow> Inl (Fatal ''INTERPRETER'') | Some i \<Rightarrow> Inr (unat i))"

subsection \<open>Accessors\<close>

text \<open>Reading through a pointer of a given class: anything else at the address is undefined.\<close>

definition get_body :: "rtype \<Rightarrow> addr \<Rightarrow> vm \<Rightarrow> body res" where
  "get_body t p s =
     rbind (hget p s) (\<lambda>b. guard (body_type (o_body b) = t) Undefined (Inr (o_body b)))"

text \<open>\<open>Array::GetElem\<close> does not check the index; \<open>SetElem\<close> asserts it.\<close>

definition Array_GetElem :: "addr \<Rightarrow> u64 \<Rightarrow> vm \<Rightarrow> register res" where
  "Array_GetElem p idx s = rbind (get_body ARR p s) (\<lambda>b. nth_res (slots b) (unat idx))"

definition Array_SetElem :: "addr \<Rightarrow> u64 \<Rightarrow> register \<Rightarrow> vm \<Rightarrow> vm res" where
  "Array_SetElem p idx r s =
     rbind (get_body ARR p s) (\<lambda>b.
       guard (unat idx < length (slots b)) AssertFailed (set_field p (unat idx) r s))"

definition String_GetData :: "addr \<Rightarrow> vm \<Rightarrow> cstring res" where
  "String_GetData p s = rbind (get_body STR_T p s) (\<lambda>b. Inr (c_str (data b)))"

definition Object_GetElem :: "addr \<Rightarrow> cstring \<Rightarrow> vm \<Rightarrow> register res" where
  "Object_GetElem p name s =
     rbind (get_body OBJ p s) (\<lambda>b. rbind (ResolveId (map_ref b) name) (nth_res (slots b)))"

definition Object_SetElem :: "addr \<Rightarrow> cstring \<Rightarrow> register \<Rightarrow> vm \<Rightarrow> vm res" where
  "Object_SetElem p name r s =
     rbind (get_body OBJ p s) (\<lambda>b. rbind (ResolveId (map_ref b) name) (\<lambda>i. set_field p i r s))"

text \<open>Slot positions of a function: \<open>this_\<close>, then the inputs, then the outputs.\<close>

definition THIS_SLOT :: nat where "THIS_SLOT = 0"
definition ARG_SLOT :: "nat \<Rightarrow> nat" where "ARG_SLOT i = 1 + i"
definition RET_SLOT :: "nat \<Rightarrow> nat" where "RET_SLOT i = 1 + INPUTS_COUNT + i"

definition Function_Get :: "nat \<Rightarrow> addr \<Rightarrow> vm \<Rightarrow> register res" where
  "Function_Get k p s = rbind (get_body FUNC p s) (\<lambda>b. nth_res (slots b) k)"

definition Function_Set :: "nat \<Rightarrow> addr \<Rightarrow> register \<Rightarrow> vm \<Rightarrow> vm res" where
  "Function_Set k p r s = rbind (get_body FUNC p s) (\<lambda>b. set_field p k r s)"

definition GetTargetPc :: "addr \<Rightarrow> vm \<Rightarrow> u64 res" where
  "GetTargetPc p s = rbind (get_body FUNC p s) (\<lambda>b. Inr (target_pc b))"

end
