(* ===== verification/K3s_Interp.thy ===== *)
theory K3s_Interp
  imports K3s_Alloc
begin

text \<open>
  The interpreter (interpreter/interpreter.h, interpreter/interpreter.cpp, interpreter/register.cpp).
  The threaded code of \<open>Interpreter::Invoke\<close> is a step function on the machine and the
  decoder: fetch the instruction at \<open>pc\<close>, decode and resolve it, run the handler whose label the
  dispatch table holds.  A handler ends by fetching the next instruction, so one step is one
  handler.  \<open>run\<close> iterates steps with fuel and \<open>Invoke\<close> starts from a new frame for the entry
  function.  The decoder is a local variable without an initialiser, an argument of the model.
\<close>

subsection \<open>The top frame\<close>

definition with_top :: "vm \<Rightarrow> (frame \<Rightarrow> 'a res) \<Rightarrow> 'a res" where
  "with_top s k = (case frames s of [] \<Rightarrow> Inl Undefined | f # _ \<Rightarrow> k f)"

definition set_top :: "frame \<Rightarrow> vm \<Rightarrow> vm" where
  "set_top f s = s\<lparr>frames := f # tl (frames s)\<rparr>"

text \<open>\<open>GetReg(id)\<close>: \<open>regs_\<close> has sixteen entries and the index is not checked.\<close>

definition GetReg :: "nat \<Rightarrow> vm \<Rightarrow> register res" where
  "GetReg i s = with_top s (\<lambda>f. nth_res (f_regs f) i)"

definition SetReg :: "nat \<Rightarrow> register \<Rightarrow> vm \<Rightarrow> vm res" where
  "SetReg i r s = with_top s (\<lambda>f.
     rbind (upd_res (f_regs f) i r) (\<lambda>rs. Inr (set_top (f\<lparr>f_regs := rs\<rparr>) s)))"

definition GetAcc :: "vm \<Rightarrow> register res" where
  "GetAcc s = with_top s (\<lambda>f. Inr (f_acc f))"

definition SetAcc :: "register \<Rightarrow> vm \<Rightarrow> vm res" where
  "SetAcc r s = with_top s (\<lambda>f. Inr (set_top (f\<lparr>f_acc := r\<rparr>) s))"

definition GetCallee :: "vm \<Rightarrow> addr res" where
  "GetCallee s = with_top s (\<lambda>f. Inr (f_callee f))"

definition new_frame :: "u64 \<Rightarrow> addr \<Rightarrow> frame" where
  "new_frame caller callee =
     \<lparr>f_acc = reg_reset, f_regs = replicate 16 reg_reset, f_caller_pc = caller, f_callee = callee\<rparr>"

text \<open>
  \<open>emplace_back\<close> on the stack vector.  Its capacity is reserved once from the 4 MB stack region,
  4194296 bytes over the 288 of a frame; growing it beyond asks the region for more and aborts.
\<close>

definition STACK_CAPACITY :: nat where
  "STACK_CAPACITY = 4194296 div 288"

definition push_frame :: "frame \<Rightarrow> vm \<Rightarrow> vm res" where
  "push_frame f s =
     guard (length (frames s) < STACK_CAPACITY) (Fatal ''ALLOCATOR OOM'')
       (Inr (s\<lparr>frames := f # frames s\<rparr>))"

subsection \<open>Printing\<close>

definition type_name :: "rtype \<Rightarrow> string" where
  "type_name t =
     (case t of NUM \<Rightarrow> ''NUM'' | ARR \<Rightarrow> ''ARR'' | STR_T \<Rightarrow> ''STR'' | OBJ \<Rightarrow> ''OBJ''
              | FUNC \<Rightarrow> ''FUNC'' | NIL \<Rightarrow> ''NIL'' | ANY \<Rightarrow> ''ANY'')"

definition endl :: string where
  "endl = [CHR 0x0A]"

definition indent :: "nat \<Rightarrow> out_item" where
  "indent n = OText (replicate n CHR ''-'')"

text \<open>
  \<open>Register::Dump\<close>, \<open>DumpArray\<close> and \<open>DumpObject\<close>.  The text written is a list of items;
  a cyclic structure makes the code recurse for ever, the model runs out of fuel.
\<close>

function (sequential) dump_reg :: "nat \<Rightarrow> vm \<Rightarrow> nat \<Rightarrow> register \<Rightarrow> out_item list res"
  and dump_slots :: "nat \<Rightarrow> vm \<Rightarrow> nat \<Rightarrow> bool \<Rightarrow> nat \<Rightarrow> register list \<Rightarrow> out_item list res" where
  "dump_reg 0 s l r = Inl OutOfFuel"
| "dump_reg (Suc f) s l r =
     rbind
       (case r_type r of
          NUM \<Rightarrow> Inr [OText ''val_: '', ONum (GetAsNum r), OText (''}'' @ endl)]
        | STR_T \<Rightarrow> rbind (GetAsString r) (\<lambda>p. rbind (String_GetData p s) (\<lambda>bs.
            Inr [OText ''val_: '', OBytes bs, OText (''}'' @ endl)]))
        | ARR \<Rightarrow> rbind (GetAsArray r) (\<lambda>p. rbind (get_body ARR p s) (\<lambda>b.
            rbind (dump_slots f s l False 0 (slots b)) (\<lambda>os.
              Inr ([OText ''size_: '', OWord (of_nat (length (slots b))), OText (''; data_:'' @ endl)] @
                   os @ [indent l, OText (''}'' @ endl)]))))
        | OBJ \<Rightarrow> rbind (GetAsObject r) (\<lambda>p. rbind (get_body OBJ p s) (\<lambda>b.
            rbind (dump_slots f s l True 0 (slots b)) (\<lambda>os.
              Inr ([OText ''size_: '', OWord (of_nat (length (slots b))), OText (''; data_:'' @ endl)] @
                   os @ [indent l, OText (''}'' @ endl)]))))
        | FUNC \<Rightarrow> rbind (GetAsFunction r) (\<lambda>p. rbind (GetTargetPc p s) (\<lambda>t.
            Inr [OText ''target_pc_: '', OWord t, OText (''}'' @ endl)]))
        | _ \<Rightarrow> Inr [OText ''val_: '', OWord (r_value r), OText (''}'' @ endl)])
       (\<lambda>os. Inr (OText ''{ type_: '' # OText (type_name (r_type r)) # OText '', '' # os))"
| "dump_slots f s l skip i [] = Inr []"
| "dump_slots f s l skip i (r # rs) =
     (if skip \<and> r_type r = FUNC then dump_slots f s l skip (Suc i) rs
      else rbind (dump_reg f s (Suc l) r) (\<lambda>os.
             rbind (dump_slots f s l skip (Suc i) rs) (\<lambda>os'.
               Inr ([indent l, OText '' ['', OWord (of_nat i), OText ''] ''] @ os @ os'))))"
  by pat_completeness auto
termination
  by (relation "measures [\<lambda>x. case x of Inl (f, _) \<Rightarrow> f | Inr (f, _) \<Rightarrow> f,
                          \<lambda>x. case x of Inl _ \<Rightarrow> 0 | Inr (_, _, _, _, _, rs) \<Rightarrow> Suc (length rs)]") auto

definition Dump :: "nat \<Rightarrow> register \<Rightarrow> vm \<Rightarrow> vm res" where
  "Dump fuel r s = rbind (dump_reg fuel s 0 r) (\<lambda>os. Inr (s\<lparr>out := out s @ os\<rparr>))"

subsection \<open>Handlers\<close>

datatype outcome = Next vm | Exit byte

text \<open>\<open>ADVANCE_FETCH_AND_DISPATCH\<close> moves to the next instruction.\<close>

definition advance :: "vm res \<Rightarrow> outcome res" where
  "advance r = rbind r (\<lambda>s. Inr (Next (s\<lparr>pc := pc s + 1\<rparr>)))"

definition LDAI_step :: "byte \<Rightarrow> vm \<Rightarrow> vm res" where
  "LDAI_step imm s =
     rbind (pool_get imm (cp_data (cpool s))) (\<lambda>elem.
       case e_type elem of
         FUNC \<Rightarrow> rbind (GetFunctionBytecodeOffset imm (cp_data (cpool s))) (\<lambda>v.
                  case v of
                    CBits offs \<Rightarrow> rbind (Function_New offs s) (\<lambda>(p, s1). SetAcc (set_func p) s1)
                  | _ \<Rightarrow> Inl Undefined)
       | NUM \<Rightarrow> (case e_val elem of CBits v \<Rightarrow> SetAcc (set_num v) s | _ \<Rightarrow> Inl Undefined)
       | STR_T \<Rightarrow> (case e_val elem of
                    CText t \<Rightarrow> rbind (String_New t s) (\<lambda>(p, s1). SetAcc (set_str p) s1)
                  | _ \<Rightarrow> Inl Undefined)
       | OBJ \<Rightarrow> rbind (nth_res (cp_maps (cpool s)) (unat imm)) (\<lambda>m.
                 case e_val elem of
                   CMethods offs \<Rightarrow> rbind (Object_New m offs s) (\<lambda>(p, s1). SetAcc (set_obj p) s1)
                 | _ \<Rightarrow> Inl Undefined)
       | _ \<Rightarrow> Inl (Fatal ''INTERPRETER''))"

definition JUMP_step :: "byte \<Rightarrow> vm \<Rightarrow> outcome res" where
  "JUMP_step imm s = guard (imm \<noteq> 0) AssertFailed (Inr (Next (s\<lparr>pc := pc s + sext8 imm\<rparr>)))"

text \<open>The four conditional jumps differ in the comparison of the accumulator with zero.\<close>

definition branch_step :: "(f64 \<Rightarrow> bool) \<Rightarrow> byte \<Rightarrow> vm \<Rightarrow> outcome res" where
  "branch_step cond imm s =
     guard (imm \<noteq> 0) AssertFailed
       (rbind (GetAcc s) (\<lambda>a.
          if cond (GetAsNum a) then Inr (Next (s\<lparr>pc := pc s + sext8 imm\<rparr>))
          else advance (Inr s)))"

definition RET_step :: "byte \<Rightarrow> vm \<Rightarrow> outcome res" where
  "RET_step imm s =
     (if length (frames s) = 1 then Inr (Exit imm)
      else with_top s (\<lambda>f. Inr (Next (s\<lparr>pc := f_caller_pc f + 1, frames := tl (frames s)\<rparr>))))"

definition CALL_step :: "vm \<Rightarrow> outcome res" where
  "CALL_step s =
     rbind (GetAcc s) (\<lambda>a. rbind (GetAsFunction a) (\<lambda>p.
       rbind (push_frame (new_frame (pc s) p) s) (\<lambda>s1.
         rbind (GetTargetPc p s1) (\<lambda>t. Inr (Next (s1\<lparr>pc := t\<rparr>))))))"

text \<open>\<open>GETARG0\<close>, \<open>GETARG1\<close> and \<open>GETTHIS\<close> copy a slot of the callee into a register.\<close>

definition get_callee_slot :: "nat \<Rightarrow> nat \<Rightarrow> vm \<Rightarrow> vm res" where
  "get_callee_slot k r s =
     rbind (GetCallee s) (\<lambda>p. rbind (Function_Get k p s) (\<lambda>v. SetReg r v s))"

text \<open>
  \<open>SETARG0\<close>, \<open>SETARG1\<close> and \<open>GETRET0\<close> use the accumulator's bits as a function without
  checking its type: the decoder has.
\<close>

definition SETARG_step :: "nat \<Rightarrow> nat \<Rightarrow> vm \<Rightarrow> vm res" where
  "SETARG_step i r s =
     rbind (GetAcc s) (\<lambda>a. rbind (GetReg r s) (\<lambda>v. Function_Set (ARG_SLOT i) (r_value a) v s))"

definition GETRET_step :: "nat \<Rightarrow> nat \<Rightarrow> vm \<Rightarrow> vm res" where
  "GETRET_step i r s =
     rbind (GetAcc s) (\<lambda>a. rbind (Function_Get (RET_SLOT i) (r_value a) s) (\<lambda>v. SetReg r v s))"

definition SETRET_step :: "nat \<Rightarrow> nat \<Rightarrow> vm \<Rightarrow> vm res" where
  "SETRET_step i r s =
     rbind (GetCallee s) (\<lambda>p. rbind (GetReg r s) (\<lambda>v. Function_Set (RET_SLOT i) p v s))"

text \<open>Arithmetic on two registers, and on the accumulator and a register.\<close>

definition arith_step :: "(f64 \<Rightarrow> f64 \<Rightarrow> f64) \<Rightarrow> register \<Rightarrow> register \<Rightarrow> vm \<Rightarrow> vm res" where
  "arith_step f x y s = SetAcc (set_num (f (GetAsNum x) (GetAsNum y))) s"

definition div_step :: "(f64 \<Rightarrow> f64 \<Rightarrow> f64) \<Rightarrow> register \<Rightarrow> register \<Rightarrow> vm \<Rightarrow> vm res" where
  "div_step f x y s =
     (if is_zero (GetAsNum y) then Inl (Fatal ''RUNTIME_ERROR'') else arith_step f x y s)"

definition on_regs :: "(register \<Rightarrow> register \<Rightarrow> vm \<Rightarrow> vm res) \<Rightarrow> decoder \<Rightarrow> vm \<Rightarrow> vm res" where
  "on_regs k d s = rbind (GetReg (reg_idx0 d) s) (\<lambda>x. rbind (GetReg (reg_idx1 d) s) (\<lambda>y. k x y s))"

definition on_acc :: "(register \<Rightarrow> register \<Rightarrow> vm \<Rightarrow> vm res) \<Rightarrow> decoder \<Rightarrow> vm \<Rightarrow> vm res" where
  "on_acc k d s = rbind (GetAcc s) (\<lambda>x. rbind (GetReg (reg_idx0 d) s) (\<lambda>y. k x y s))"

definition f64_one :: f64 where
  "f64_one = 0x3FF0000000000000"

definition DECA_step :: "vm \<Rightarrow> vm res" where
  "DECA_step s = rbind (GetAcc s) (\<lambda>a. SetAcc (set_num (fsub (GetAsNum a) f64_one)) s)"

definition NEWARR_step :: "nat \<Rightarrow> vm \<Rightarrow> vm res" where
  "NEWARR_step r s =
     rbind (GetReg r s) (\<lambda>v. rbind (of_opt Undefined (to_size_t (GetAsNum v))) (\<lambda>n.
       rbind (Array_New n s) (\<lambda>(p, s1). SetAcc (set_arr p) s1)))"

definition SETELEM_arr_step :: "register \<Rightarrow> register \<Rightarrow> vm \<Rightarrow> vm res" where
  "SETELEM_arr_step x y s =
     rbind (of_opt Undefined (to_size_t (GetAsNum y))) (\<lambda>idx. rbind (GetAsArray x) (\<lambda>p.
       rbind (GetAcc s) (\<lambda>a. Array_SetElem p idx a s)))"

definition SETELEM_obj_step :: "register \<Rightarrow> register \<Rightarrow> vm \<Rightarrow> vm res" where
  "SETELEM_obj_step x y s =
     rbind (GetAsString y) (\<lambda>q. rbind (GetAsObject x) (\<lambda>p. rbind (String_GetData q s) (\<lambda>name.
       rbind (GetAcc s) (\<lambda>a. Object_SetElem p name a s))))"

definition GETELEM_arr_step :: "register \<Rightarrow> register \<Rightarrow> vm \<Rightarrow> vm res" where
  "GETELEM_arr_step x y s =
     rbind (of_opt Undefined (to_size_t (GetAsNum y))) (\<lambda>idx. rbind (GetAsArray x) (\<lambda>p.
       rbind (Array_GetElem p idx s) (\<lambda>v. SetAcc v s)))"

text \<open>A method read from an object is bound to it: \<open>SetThis\<close>.\<close>

definition GETELEM_obj_step :: "register \<Rightarrow> register \<Rightarrow> vm \<Rightarrow> vm res" where
  "GETELEM_obj_step x y s =
     rbind (GetAsString y) (\<lambda>q. rbind (GetAsObject x) (\<lambda>p. rbind (String_GetData q s) (\<lambda>name.
       rbind (Object_GetElem p name s) (\<lambda>v. rbind (SetAcc v s) (\<lambda>s1.
         if r_type v = FUNC then rbind (GetAsFunction v) (\<lambda>g. Function_Set THIS_SLOT g x s1)
         else Inr s1)))))"

definition unimplemented :: "vm \<Rightarrow> vm res" where
  "unimplemented s = Inl (Fatal ''INTERPERTER'')"

definition MOV_step :: "nat \<Rightarrow> nat \<Rightarrow> vm \<Rightarrow> vm res" where
  "MOV_step src dst s = rbind (GetReg src s) (\<lambda>v. SetReg dst v s)"

definition STNULL_step :: "nat \<Rightarrow> vm \<Rightarrow> vm res" where
  "STNULL_step r s = rbind (set_typed ANY 0) (\<lambda>v. SetReg r v s)"

text \<open>The code at each label of the dispatch table; \<open>df\<close> bounds the depth DUMP descends.\<close>

definition exec_label :: "nat \<Rightarrow> label \<Rightarrow> decoder \<Rightarrow> vm \<Rightarrow> outcome res" where
  "exec_label df lbl d s =
     (case lbl of Label c ins \<Rightarrow>
        (case c of
           JUMP \<Rightarrow> JUMP_step (imm_operand d) s
         | BLE \<Rightarrow> branch_step le_zero (imm_operand d) s
         | BLT \<Rightarrow> branch_step lt_zero (imm_operand d) s
         | BGE \<Rightarrow> branch_step ge_zero (imm_operand d) s
         | BNE \<Rightarrow> branch_step ne_zero (imm_operand d) s
         | CALL \<Rightarrow> CALL_step s
         | RET \<Rightarrow> RET_step (imm_operand d) s
         | GETTHIS \<Rightarrow> advance (get_callee_slot THIS_SLOT (reg_idx0 d) s)
         | STNULL \<Rightarrow> advance (STNULL_step (reg_idx0 d) s)
         | LDAI \<Rightarrow> advance (LDAI_step (imm_operand d) s)
         | LDA \<Rightarrow> advance (rbind (GetReg (reg_idx0 d) s) (\<lambda>v. SetAcc v s))
         | STA \<Rightarrow> advance (rbind (GetAcc s) (\<lambda>v. SetReg (reg_idx0 d) v s))
         | MOV \<Rightarrow> advance (MOV_step (reg_idx0 d) (reg_idx1 d) s)
         | ADD \<Rightarrow> advance (if ins = [Reg NUM, Reg NUM] then on_regs (arith_step fadd) d s
                            else unimplemented s)
         | SUB \<Rightarrow> advance (on_regs (arith_step fsub) d s)
         | MUL \<Rightarrow> advance (on_regs (arith_step fmul) d s)
         | DIV \<Rightarrow> advance (on_regs (div_step fdiv) d s)
         | MOD \<Rightarrow> advance (on_regs (div_step fmod) d s)
         | ADD2 \<Rightarrow> advance (if ins = [Acc NUM, Reg NUM] then on_acc (arith_step fadd) d s
                             else unimplemented s)
         | SUB2 \<Rightarrow> advance (if ins = [Acc NUM, Reg NUM] then on_acc (arith_step fsub) d s
                             else unimplemented s)
         | DIV2 \<Rightarrow> advance (if ins = [Acc NUM, Reg NUM] then on_acc (div_step fdiv) d s
                             else unimplemented s)
         | MUL2 \<Rightarrow> advance (if ins = [Acc NUM, Reg NUM] then on_acc (arith_step fmul) d s
                             else unimplemented s)
         | DECA \<Rightarrow> advance (DECA_step s)
         | NEWARR \<Rightarrow> advance (NEWARR_step (reg_idx0 d) s)
         | SETELEM \<Rightarrow> advance (on_regs (if ins = [Acc ANY, Reg ARR, Reg NUM] then SETELEM_arr_step
                                         else SETELEM_obj_step) d s)
         | GETELEM \<Rightarrow> advance (on_regs (if ins = [Reg ARR, Reg NUM] then GETELEM_arr_step
                                         else GETELEM_obj_step) d s)
         | DUMP \<Rightarrow> advance (rbind (GetReg (reg_idx0 d) s) (\<lambda>v. Dump df v s))
         | DUMPA \<Rightarrow> advance (rbind (GetAcc s) (\<lambda>v. Dump df v s))
         | GETARG0 \<Rightarrow> advance (get_callee_slot (ARG_SLOT 0) (reg_idx0 d) s)
         | GETARG1 \<Rightarrow> advance (get_callee_slot (ARG_SLOT 1) (reg_idx0 d) s)
         | SETRET0 \<Rightarrow> advance (SETRET_step 0 (reg_idx0 d) s)
         | SETARG0 \<Rightarrow> advance (SETARG_step 0 (reg_idx0 d) s)
         | SETARG1 \<Rightarrow> advance (SETARG_step 1 (reg_idx0 d) s)
         | GETRET0 \<Rightarrow> advance (GETRET_step 0 (reg_idx0 d) s)))"

subsection \<open>Dispatch and the run\<close>

definition Fetch :: "vm \<Rightarrow> inst res" where
  "Fetch s = nth_res (program s) (unat (pc s))"

definition reg_type_of :: "vm \<Rightarrow> nat \<Rightarrow> rtype res" where
  "reg_type_of s i = rbind (GetReg i s) (\<lambda>r. Inr (r_type r))"

text \<open>\<open>FETCH_AND_DISPATCH\<close>: the label to go to and the decoder after \<open>DecodeAndResolve\<close>.\<close>

definition FETCH_AND_DISPATCH :: "decoder \<Rightarrow> vm \<Rightarrow> (label \<times> decoder) res" where
  "FETCH_AND_DISPATCH d s =
     rbind (Fetch s) (\<lambda>ins. rbind (GetAcc s) (\<lambda>a.
       rbind (DecodeAndResolve (r_type a) (reg_type_of s) ins d) (\<lambda>(d', idx).
         rbind (nth_res dispatch_table idx) (\<lambda>l.
           case l of None \<Rightarrow> Inl AssertFailed | Some lbl \<Rightarrow> Inr (lbl, d')))))"

definition step :: "nat \<Rightarrow> decoder \<Rightarrow> vm \<Rightarrow> (outcome \<times> decoder) res" where
  "step df d s =
     rbind (FETCH_AND_DISPATCH d s) (\<lambda>(lbl, d'). rbind (exec_label df lbl d' s) (\<lambda>o'. Inr (o', d')))"

fun run :: "nat \<Rightarrow> nat \<Rightarrow> decoder \<Rightarrow> vm \<Rightarrow> (byte \<times> vm) res" where
  "run 0 df d s = Inl OutOfFuel"
| "run (Suc n) df d s =
     rbind (step df d s) (\<lambda>(o', d').
       case o' of Exit r \<Rightarrow> Inr (r, s) | Next s' \<Rightarrow> run n df d' s')"

definition Invoke :: "nat \<Rightarrow> nat \<Rightarrow> decoder \<Rightarrow> vm \<Rightarrow> (byte \<times> vm) res" where
  "Invoke fuel df d s =
     rbind (Function_New (pc s) s) (\<lambda>(main_ptr, s1).
       rbind (push_frame (new_frame (- 1) main_ptr) s1) (run fuel df d))"

end
