(* ===== verification/K3s_Runtime.thy ===== *)
theory K3s_Runtime
  imports K3s_ClassFile K3s_Interp
begin

text \<open>
  The runtime (runtime/runtime.h, runtime/runtime.cpp): the machine before and after a class file is
  loaded, and \<open>main\<close>.  The command line, the file system and the mapping of the memory are not
  modelled: the file is its bytes, and the memory is there.
\<close>

text \<open>\<open>Runtime::Create\<close> and \<open>Allocator::Init\<close>: empty regions and default-constructed components.\<close>

definition Create :: vm where
  "Create =
     \<lparr>objs = [], cursors = (\<lambda>_. 8), frames = [], pc = 0, program = [], gc_mark = 0,
      gc_forbidden = False, stages = [], gc_cursor = 8, cpool = empty_pool, out = []\<rparr>"

text \<open>
  \<open>used\<close> is the cursor of the constant region after \<open>Create\<close>, behind the \<open>Runtime\<close> object, and \<open>node\<close> the
  memory that the hash maps take (\<open>load_names\<close>); nothing else is allocated there.
\<close>

definition Runtime_LoadClassFile :: "(nat \<Rightarrow> nat) \<Rightarrow> nat \<Rightarrow> byte list \<Rightarrow> vm \<Rightarrow> vm res" where
  "Runtime_LoadClassFile node used buf s =
     rbind (LoadClassFile node buf (cpool s) used) (\<lambda>(h, prog, cp).
       Inr (s\<lparr>cpool := cp, pc := entry_point h, program := prog\<rparr>))"

definition runtime_main :: "nat \<Rightarrow> nat \<Rightarrow> decoder \<Rightarrow> (nat \<Rightarrow> nat) \<Rightarrow> nat \<Rightarrow> byte list \<Rightarrow> (byte \<times> vm) res" where
  "runtime_main fuel df d node used buf = rbind (Runtime_LoadClassFile node used buf Create) (Invoke fuel df d)"

end
