(* ===== verification/K3s_Toolchain.thy ===== *)
theory K3s_Toolchain
  imports K3s_Runtime
begin

unbundle bit_operations_syntax

text \<open>
  Properties of the path from a source file to a loaded program: the decoder generated from the
  instruction set, the assembler, and the class file.  The witnesses run on \<open>demo\<close>, a program that
  counts five down to zero.
\<close>

subsection \<open>A program\<close>

definition ascii :: "string \<Rightarrow> cstring" where
  "ascii s = map of_char s"

text \<open>The body of \<open>main\<close>: a loop over DECA and BNE, and a jump forward.\<close>

definition demo_body :: "item list" where
  "demo_body =
     [II LDAI (ImmName (ascii ''five'')), ILabel (ascii ''loop''), IO DECA,
      II BNE (ImmName (ascii ''loop'')), II JUMP (ImmName (ascii ''out'')), ILabel (ascii ''out''), IO RET]"

text \<open>\<open>.num five 5\<close>, \<open>.str hi "hi"\<close>, \<open>.obj pair\<close> with two fields, \<open>.def main\<close>.\<close>

definition demo :: "decl list" where
  "demo =
     [DNum (ascii ''five'') (ascii ''5''), DStr (ascii ''hi'') (QUOTE # ascii ''hi'' @ [QUOTE]),
      DObj (ascii ''pair'') [DataMember (ascii ''fst''), DataMember (ascii ''snd'')],
      DFunc (ascii ''main'') demo_body]"

definition demo_code :: "inst list" where
  "demo_code = [\<lparr>i_opcode = 9, i_operands = 0\<rparr>, \<lparr>i_opcode = 22, i_operands = 0\<rparr>,
     \<lparr>i_opcode = 4, i_operands = - 1\<rparr>, \<lparr>i_opcode = 0, i_operands = 1\<rparr>, \<lparr>i_opcode = 6, i_operands = 0\<rparr>]"

text \<open>What the assembler makes of it.\<close>

definition demo_asm :: asm where
  "demo_asm =
     \<lparr>instructions_buffer = demo_code,
      declared_objects = [(ascii ''five'', 0), (ascii ''hi'', 1), (ascii ''pair'', 2), (ascii ''main'', 3)],
      declared_labels = [(ascii ''out'', 4), (ascii ''loop'', 1)],
      unresolved_labels = [], strings_storage = [ascii ''hi''],
      objects_storage = [\<lparr>data_fields = [ascii ''fst'', ascii ''snd''], methods = [], methods_bc_offsets = []\<rparr>],
      constant_pool = (replicate CONSTANT_POOL_SIZE \<lparr>e_type = ANY, e_val = 0\<rparr>)
        [0 := \<lparr>e_type = NUM, e_val = atof (ascii ''5'')\<rparr>, 1 := \<lparr>e_type = STR_T, e_val = 0\<rparr>,
         2 := \<lparr>e_type = OBJ, e_val = 0\<rparr>, 3 := \<lparr>e_type = FUNC, e_val = 0\<rparr>],
      temp_idx = 3, is_class_context = False\<rparr>"

lemmas assembling = DeclareId_def set_pool_def pool_set_def DefineNum_def DefineStr_def QUOTE_def
  DeclareObject_def DeclareAndDefineFunction_def with_last_object_def DeclareAndDefineAnyDataMember_def
  Let_def assemble_body_def TryResolveName_def AppendUnresolvedLabels_def DefineLabel_def
  ResolveUnresolved_def CheckLabelsResolved_def Encode1_def Encode0_def emit_def opc_byte_def
  opc_num_def opcodes_list GetResolveRelativeOffset_def ascii_def

lemma demo_assembles: "assemble demo = Inr demo_asm"
  by (simp add: assemble_def demo_def demo_body_def empty_asm_def demo_asm_def demo_code_def assembling)

lemma demo_representable: "representable demo_asm"
  by (simp add: representable_def names_ok_def demo_asm_def demo_code_def ascii_def)

lemma demo_entry: "entry_offset demo_asm = Inr 0"
  by (simp add: entry_offset_def GetFunctionBytecodeOffset_def pool_get_def demo_asm_def TryResolveName_def
      ENTRY_FUNC_NAME_def ascii_def CONSTANT_POOL_SIZE_def)

lemma demo_size: "const_need (\<lambda>_. 400) demo_asm < 2000"
proof -
  have pool: "constant_pool demo_asm = [\<lparr>e_type = NUM, e_val = atof (ascii ''5'')\<rparr>, \<lparr>e_type = STR_T, e_val = 0\<rparr>,
      \<lparr>e_type = OBJ, e_val = 0\<rparr>, \<lparr>e_type = FUNC, e_val = 0\<rparr>] @ replicate 252 \<lparr>e_type = ANY, e_val = 0\<rparr>"
    by (simp add: demo_asm_def CONSTANT_POOL_SIZE_def eval_nat_numeral)
  have unused: "map_res (EstimateEncodingSize demo_asm) (replicate n \<lparr>e_type = ANY, e_val = 0\<rparr>) = Inr (replicate n 0)" for n
    by (induction n) (simp_all add: EstimateEncodingSize_def)
  have demo_parts: "storage_str demo_asm 0 = Inr (ascii ''hi'')" "length (instructions_buffer demo_asm) = 5"
    "storage_obj demo_asm 0 = Inr \<lparr>data_fields = [ascii ''fst'', ascii ''snd''], methods = [], methods_bc_offsets = []\<rparr>"
    "objects_storage demo_asm ! 0 = \<lparr>data_fields = [ascii ''fst'', ascii ''snd''], methods = [], methods_bc_offsets = []\<rparr>"
    by (simp_all add: demo_asm_def demo_code_def storage_str_def storage_obj_def)
  show ?thesis
    unfolding const_need_def file_size_def AllocateBuffer_def pool
    by (simp add: unused EstimateEncodingSize_def demo_parts record_sizes record_cost_def names_size_def ascii_def
        eval_nat_numeral sum_list_replicate)
qed

lemma demo_room: "\<not> CONST_SIZE < 20000 + const_need (\<lambda>_. 400) demo_asm"
  using demo_size by (simp add: CONST_SIZE_def ALLOC_SIZE_def GC_INTERNALS_SIZE_def STACK_SIZE_def)

text \<open>The state in which the body of \<open>main\<close> is assembled, and the state after it.\<close>

definition demo_before :: asm where
  "demo_before = demo_asm\<lparr>instructions_buffer := [], declared_labels := []\<rparr>"

lemma demo_body_assembles: "assemble_body demo_body demo_before = Inr demo_asm"
  by (simp add: demo_body_def demo_before_def demo_asm_def demo_code_def assembling)

subsection \<open>The assembler\<close>

text \<open>
  C4: The one-pass assembler with backpatching (\<open>TryResolveName\<close>, \<open>DefineLabel\<close>,
  \<open>ResolveUnresolved\<close>) emits for every body it accepts exactly the code of a two-pass assembler
  that knows all labels from the start, and leaves no pending label.
\<close>

theorem assembler_refines_two_passes:
  assumes "unresolved_labels s = []" and "assemble_body its s = Inr t"
  shows "instructions_buffer t = instructions_buffer s @
           second_pass (map_of (declared_objects s))
             (map_of (label_positions (length (instructions_buffer s)) its @ declared_labels s))
             (length (instructions_buffer s)) (lower_all its) \<and>
         unresolved_labels t = [] \<and> declared_objects t = declared_objects s"
  using assemble_body_two_pass [OF assms] by simp

theorem assembler_refines_two_passes_witness:
  "demo_code = second_pass (map_of (declared_objects demo_before)) (map_of (label_positions 0 demo_body)) 0
     (lower_all demo_body)"
  using assembler_refines_two_passes [OF _ demo_body_assembles]
  by (simp add: demo_before_def demo_asm_def)

text \<open>
  C5: A jump whose operand is a label, defined before or after the jump, moves the program counter
  to the instruction after the label, when the distance fits the signed operand byte and is not 0.
\<close>

theorem jump_reaches_its_label:
  assumes "unresolved_labels a = []" and "assemble_body its a = Inr b"
    and "k < length (lower_all its)" and "lower_all its ! k = (opc, Ref l)"
    and "map_of (declared_objects a) l = None" and "map_of (declared_labels b) l = Some p"
    and "i = length (instructions_buffer a) + k"
    and "- 128 \<le> int p - int i" "int p - int i < 128" "p \<noteq> i"
    and "pc s = of_nat i"
  shows "JUMP_step (i_operands (instructions_buffer b ! i)) s = Inr (Next (s\<lparr>pc := of_nat p\<rparr>))"
proof -
  have "i_operands (instructions_buffer b ! i) = GetResolveRelativeOffset p i"
    using assemble_body_two_pass(1) [OF assms(1,2)] assms(3-7)
    by (simp add: nth_append nth_second_pass operand_value_def)
  moreover have "sint (GetResolveRelativeOffset p i) = int p - int i"
    unfolding GetResolveRelativeOffset_def sint_sbintrunc' using assms(8,9)
    by (intro signed_take_bit_int_eq_self) simp_all
  then have "GetResolveRelativeOffset p i \<noteq> 0" using assms(10) by auto
  ultimately show ?thesis
    using jump_displacement [OF assms(8,9)] assms(11) by (simp add: JUMP_step_def)
qed

theorem jump_reaches_its_label_witness:
  "JUMP_step (i_operands (demo_code ! 2)) (Create\<lparr>pc := 2\<rparr>) = Inr (Next (Create\<lparr>pc := 1\<rparr>))"
  using jump_reaches_its_label [OF _ demo_body_assembles, of 2 "opc_byte BNE" "ascii ''loop''" 1 2 "Create\<lparr>pc := 2\<rparr>"]
  by (simp add: demo_before_def demo_asm_def demo_body_def lower_all_def ascii_def)

lemma packed_operands:
  assumes "(r1 :: byte) < 16" "r2 < 16"
  shows "unat (push_bit 4 r2 OR r1) = unat r2 * 16 + unat r1"
proof -
  have n: "unat r1 < 16" "unat r2 < 16" using assms by (simp_all add: word_less_nat_alt)
  have low: "bit r1 k \<Longrightarrow> k < 4" for k
  proof (rule ccontr)
    assume "bit r1 k" "\<not> k < 4"
    then have "bit (unat r1) k" by (simp add: bit_unsigned_iff)
    moreover have "unat r1 < 2 ^ k" using n(1) \<open>\<not> k < 4\<close> power_increasing [of 4 k "2 :: nat"] by simp
    ultimately show False by (simp add: bit_iff_odd)
  qed
  have "push_bit 4 r2 AND r1 = 0"
    by (rule bit_eqI) (auto simp: bit_and_iff bit_push_bit_iff dest: low)
  then have "push_bit 4 r2 OR r1 = push_bit 4 r2 + r1" by (simp add: disjunctive_add_eq_or)
  also have "unat \<dots> = unat (push_bit 4 r2) + unat r1"
    using n by (intro unat_add_lem [THEN iffD1]) (simp add: push_bit_eq_mult unat_word_ariths)
  also have "unat (push_bit 4 r2) = unat r2 * 16" using n(2) by (simp add: push_bit_eq_mult unat_word_ariths)
  finally show ?thesis .
qed

text \<open>
  C10: The decoder reads back both register operands that \<open>Encode\<close> packed into the operand byte when
  the second one is a valid register number; the assertion of \<open>Encode\<close> covers only the first.
\<close>

theorem register_operands_survive:
  assumes "Encode2 opc r1 r2 a = Inr b" and "r2 < 16"
  shows "set_operands OPC_R4_R4 (i_operands (last (instructions_buffer b))) d =
    d\<lparr>reg_idx0 := unat r1, reg_idx1 := unat r2\<rparr>"
proof -
  have r1: "r1 < 16" using assms(1) by (simp add: Encode2_def res_simps FIRST_NEAR_REG_MASK_def word_le_nat_alt word_less_nat_alt)
  have ops: "unat (i_operands (last (instructions_buffer b))) = unat r2 * 16 + unat r1"
    using assms(1) packed_operands [OF r1 assms(2)]
    by (auto simp: Encode2_def res_simps emit_def SECOND_NEAR_REG_SHIFT_def)
  have "unat r1 < 16" using r1 by (simp add: word_less_nat_alt)
  then have "unat (i_operands (last (instructions_buffer b))) mod 16 = unat r1"
    "unat (i_operands (last (instructions_buffer b))) div 16 = unat r2" by (simp_all add: ops)
  then show ?thesis
    by (simp add: set_operands_def near_regs del: drop_bit_and)
qed

theorem register_operands_survive_witness:
  "set_operands OPC_R4_R4 0x53 \<lparr>reg_idx0 = 0, reg_idx1 = 0, imm_operand = 9\<rparr> =
     \<lparr>reg_idx0 = 3, reg_idx1 = 5, imm_operand = 9\<rparr>"
proof -
  have enc: "Encode2 13 3 5 empty_asm = Inr (emit 13 0x53 empty_asm)"
    by (simp add: Encode2_def FIRST_NEAR_REG_MASK_def SECOND_NEAR_REG_SHIFT_def)
  show ?thesis using register_operands_survive [OF enc] by simp
qed

subsection \<open>The class file\<close>

text \<open>
  A program that the assembler accepts and that the class file can represent (at most 128
  identifiers, no name twice in an object) is written without an error, and loading the written
  bytes gives back its entry point, its instructions and its constant pool, unless the constant region
  is too small for them (\<open>const_need\<close>).
\<close>

theorem class_file_round_trip:
  assumes "assemble ds = Inr a" and "representable a" and "entry_offset a = Inr entry"
  shows "\<exists>bs prog. DumpClassFile pad a = Inr bs \<and>
    Runtime_LoadClassFile node used bs Create =
      (if CONST_SIZE < used + const_need node a then Inl (Fatal ''ALLOCATOR OOM'')
       else Inr (Create\<lparr>cpool := loaded_pool a, pc := entry, program := prog\<rparr>)) \<and>
    take (length (instructions_buffer a)) prog = instructions_buffer a"
proof -
  have "length (declared_objects a) \<le> 256" using assms(2) by (simp add: representable_def)
  from asm_inv_wf [OF assemble_inv [OF assms(1) this] assms(2)] have "wf_asm a" .
  from dump_load [OF this assms(3)] obtain bs prog where "DumpClassFile pad a = Inr bs"
    "LoadClassFile node bs empty_pool used =
       charged (const_need node a) used (\<lparr>code_offset = 24, h_table_offset = table_offset a, entry_point = entry\<rparr>, prog, loaded_pool a)"
    "take (length (instructions_buffer a)) prog = instructions_buffer a" .
  then show ?thesis by (auto simp: Runtime_LoadClassFile_def Create_def charged_def)
qed

theorem class_file_round_trip_witness:
  "\<exists>bs prog. DumpClassFile (\<lambda>_ _. 0) demo_asm = Inr bs \<and>
    Runtime_LoadClassFile (\<lambda>_. 400) 20000 bs Create =
      Inr (Create\<lparr>cpool := loaded_pool demo_asm, pc := 0, program := prog\<rparr>) \<and>
    take (length (instructions_buffer demo_asm)) prog = instructions_buffer demo_asm"
  using class_file_round_trip [OF demo_assembles demo_representable demo_entry, of "\<lambda>_ _. 0" "\<lambda>_. 400" 20000] demo_room
  by simp

text \<open>
  C11: The signed loop counter of \<open>WriteConstantPool\<close> stops it after the identifier 127: what is
  written does not depend on the definitions of the identifiers from 128 on.
\<close>

theorem high_identifiers_are_not_written:
  assumes "length (constant_pool a) = CONSTANT_POOL_SIZE" and "length (constant_pool b) = CONSTANT_POOL_SIZE"
    and "take 128 (constant_pool a) = take 128 (constant_pool b)"
    and "strings_storage a = strings_storage b" "objects_storage a = objects_storage b"
  shows "WriteConstantPool pad a w = WriteConstantPool pad b w"
proof -
  have elem: "constant_pool a ! n = constant_pool b ! n" if "n < 128" for n
    using arg_cong [OF assms(3), of "\<lambda>xs. xs ! n"] that by simp
  have one: "write_one pad a i u = write_one pad b i u" if "i \<in> set (map word_of_nat [0..<128])" for i u
  proof -
    from that obtain n where n: "n < 128" "i = word_of_nat n" by auto
    then have "unat i = n" by (simp add: unat_of_nat)
    then show ?thesis
      using n assms elem [OF n(1)]
      by (simp add: write_one_def pool_get_def nth_res_def WriteObj_def record_bytes_def Let_def
          storage_str_def storage_obj_def CONSTANT_POOL_SIZE_def cong: rtype.case_cong)
  qed
  have "write_pool_from pad c 0 w = fold_res (write_one pad c) (map word_of_nat [0..<128]) w" for c
    using write_pool_from_eq [of 0 pad c w] by simp
  then show ?thesis
    unfolding WriteConstantPool_def by (simp only:) (rule fold_res_cong, use one in simp_all)
qed

theorem high_identifiers_are_not_written_witness:
  "WriteConstantPool (\<lambda>_ _. 0) (demo_asm\<lparr>constant_pool := (constant_pool demo_asm)[200 := \<lparr>e_type = NUM, e_val = 7\<rparr>]\<rparr>)
     \<lparr>file_buffer = replicate 500 0, buf_pos = 24\<rparr> =
   WriteConstantPool (\<lambda>_ _. 0) demo_asm \<lparr>file_buffer = replicate 500 0, buf_pos = 24\<rparr>"
  by (rule high_identifiers_are_not_written) (simp_all add: demo_asm_def CONSTANT_POOL_SIZE_def)

subsection \<open>The decoder\<close>

text \<open>
  C9: Whatever bytes an instruction has and whatever types the registers have, a decoding that
  succeeds has set the operands of the instruction's signature, has chosen the first overload the
  types are accepted for, and returns an index at which the dispatch table holds the label of
  exactly that overload: the null entries are never reached.
\<close>

theorem decoder_addresses_the_chosen_overload:
  assumes "DecodeAndResolve acc rt ins d = Inr (d', idx)"
  shows "\<exists>c k. opc_of_byte (i_opcode ins) = Some c \<and> k < length (overloads c) \<and>
    d' = set_operands (signature_of c) (i_operands ins) d \<and>
    accepts acc rt d' (overloads c ! k) \<and> (\<forall>j < k. \<not> accepts acc rt d' (overloads c ! j)) \<and>
    idx < length dispatch_table \<and> dispatch_table ! idx = Some (Label c (overloads c ! k))"
proof -
  from DecodeAndResolve_sound [OF assms] obtain c k where ck: "opc_of_byte (i_opcode ins) = Some c"
    "k < length (overloads c)" "d' = set_operands (signature_of c) (i_operands ins) d"
    "accepts acc rt d' (overloads c ! k)" "\<forall>j < k. \<not> accepts acc rt d' (overloads c ! j)"
    "idx = 4 * opc_num c + k" "dispatch_table ! idx = Some (Label c (overloads c ! k))" .
  have "idx < length dispatch_table"
    using ck(2,6) opc_num_less [of c] length_overloads(1) [of c] by (simp add: length_dispatch_table)
  then show ?thesis using ck by blast
qed

lemma decode_GETELEM:
  "DecodeAndResolve NIL (\<lambda>r. Inr (if r = 3 then OBJ else STR_T)) \<lparr>i_opcode = 25, i_operands = 0x53\<rparr> d =
     Inr (d\<lparr>reg_idx0 := 3, reg_idx1 := 5\<rparr>, 101)"
  by (simp add: DecodeAndResolve_def opc_of_byte_def opcodes_list Let_def set_operands_def check_overload_def
      reg_operand_def FIRST_NEAR_REG_MASK_def SECOND_NEAR_REG_MASK_def SECOND_NEAR_REG_SHIFT_def
      MAX_OPC_OVERLOAD_SIZE_BITS_def)

theorem decoder_addresses_the_chosen_overload_witness:
  "\<exists>c k. opc_of_byte 25 = Some c \<and> k < length (overloads c) \<and>
    dispatch_table ! 101 = Some (Label c (overloads c ! k))"
  using decoder_addresses_the_chosen_overload [OF decode_GETELEM [of "\<lparr>reg_idx0 = 0, reg_idx1 = 0, imm_operand = 0\<rparr>"]]
  by auto

text \<open>
  C12: The type of the last register operand is never looked at: ADD with a number in its first
  register is executed as the addition of numbers whatever its second register holds, and the bits
  of that register, an address for instance, are taken for a number.
\<close>

theorem last_register_is_unchecked:
  assumes "Fetch s = Inr \<lparr>i_opcode = 13, i_operands = b\<rparr>"
    and "frames s = f # fs" "length (f_regs f) = 16"
    and "r_type (f_regs f ! (unat b mod 16)) = NUM"
  shows "step df d s =
    Inr (Next (s\<lparr>frames := f\<lparr>f_acc := set_num (fadd (r_value (f_regs f ! (unat b mod 16)))
                                                    (r_value (f_regs f ! (unat b div 16))))\<rparr> # fs,
                 pc := pc s + 1\<rparr>),
         d\<lparr>reg_idx0 := unat b mod 16, reg_idx1 := unat b div 16\<rparr>)"
proof -
  let ?d = "d\<lparr>reg_idx0 := unat b mod 16, reg_idx1 := unat b div 16\<rparr>"
  have ops: "set_operands OPC_R4_R4 b d = ?d"
    by (simp add: set_operands_def near_regs del: drop_bit_and)
  have div16: "unat b div 16 < 16" using unat_lt_256 [of b] by linarith
  have t: "reg_type_of s (unat b mod 16) = Inr NUM"
    using assms by (simp add: reg_type_of_def GetReg_def with_top_def)
  have "DecodeAndResolve (r_type (f_acc f)) (reg_type_of s) \<lparr>i_opcode = 13, i_operands = b\<rparr> d = Inr (?d, 52)"
    by (simp add: DecodeAndResolve_def opc_of_byte_def opcodes_list Let_def ops check_overload_def
      reg_operand_def t MAX_OPC_OVERLOAD_SIZE_BITS_def)
  moreover have "dispatch_table ! 52 = Some (Label ADD [Reg NUM, Reg NUM])"
    using dispatch_table_nth [of 0 ADD] by (simp add: opc_num_def opcodes_list)
  ultimately have "FETCH_AND_DISPATCH d s = Inr (Label ADD [Reg NUM, Reg NUM], ?d)"
    using assms(1,2) by (simp add: FETCH_AND_DISPATCH_def GetAcc_def with_top_def length_dispatch_table nth_res_def)
  then show ?thesis
    using assms(2-4) div16
    by (simp add: step_def exec_label_def on_regs_def GetReg_def with_top_def arith_step_def SetAcc_def set_top_def
        advance_def GetAsNum_def)
qed

theorem last_register_is_unchecked_witness:
  "step 0 \<lparr>reg_idx0 = 0, reg_idx1 = 0, imm_operand = 0\<rparr>
     (Create\<lparr>program := [\<lparr>i_opcode = 13, i_operands = 0x10\<rparr>],
        frames := [(new_frame 0 0)\<lparr>f_regs := set_num 0 # set_str 8 # replicate 14 reg_reset\<rparr>]\<rparr>) =
   Inr (Next (Create\<lparr>program := [\<lparr>i_opcode = 13, i_operands = 0x10\<rparr>],
        frames := [(new_frame 0 0)\<lparr>f_regs := set_num 0 # set_str 8 # replicate 14 reg_reset, f_acc := set_num (fadd 0 8)\<rparr>],
        pc := 1\<rparr>),
     \<lparr>reg_idx0 = 0, reg_idx1 = 1, imm_operand = 0\<rparr>)"
  by (subst last_register_is_unchecked [where b = "0x10" and f = "(new_frame 0 0)\<lparr>f_regs := set_num 0 # set_str 8 # replicate 14 reg_reset\<rparr>"])
    (simp_all add: Fetch_def Create_def new_frame_def set_num_def set_str_def)

end
