(* ===== verification/K3s_Lexer.thy ===== *)
theory K3s_Lexer
  imports K3s_Toolchain
begin

text \<open>
  The lexer of the assembler (assembler/templates/lexer.l.erb).  A pattern is the predicate of the
  words it matches; \<open>rules\<close> lists the patterns with their actions in the order of the file, the
  mnemonics in the order of isa/isa.yaml.  flex takes the longest match of all rules and of equally
  long ones the first; a pattern that ends in \<open>$\<close> wants a newline behind the match, which counts for
  the length but is not consumed.  \<open>yylval\<close> is an \<open>int\<close> that every use converts to \<open>uint8_t\<close>, so a
  token holds the byte.  The count of lines is only for messages and left out.
\<close>

subsection \<open>Tokens\<close>

datatype token =
    T_REG byte | T_NUM cstring | T_STR cstring | T_IMM byte
  | T_FUNCTION_KEYW | T_OBJ_KEYW | T_STR_KEYW | T_NUM_KEYW | T_ANY_KEYW
  | T_IDENTIFIER cstring | T_B_BEGIN | T_COLON | T_B_END
  | T_OPC opcode         \<comment> \<open>the token of its signature, with its number as value\<close>
  | T_UNKNOWN            \<comment> \<open>\<open>UnknownTokenHandle\<close>: the process exits\<close>
  | T_OVERFLOW           \<comment> \<open>\<open>atoi\<close> of a number that is no \<open>int\<close>\<close>

datatype action = Skip | Return token | EndOfFile

fun mnemonic :: "opcode \<Rightarrow> string" where
  "mnemonic JUMP = ''jump''" | "mnemonic BLE = ''ble''" | "mnemonic BLT = ''blt''" | "mnemonic BGE = ''bge''"
| "mnemonic BNE = ''bne''" | "mnemonic CALL = ''call''" | "mnemonic RET = ''ret''" | "mnemonic GETTHIS = ''getthis''"
| "mnemonic STNULL = ''stnull''" | "mnemonic LDAI = ''ldai''" | "mnemonic LDA = ''lda''" | "mnemonic STA = ''sta''"
| "mnemonic MOV = ''mov''" | "mnemonic ADD = ''add''" | "mnemonic SUB = ''sub''" | "mnemonic MUL = ''mul''"
| "mnemonic DIV = ''div''" | "mnemonic MOD = ''mod''" | "mnemonic ADD2 = ''add2''" | "mnemonic SUB2 = ''sub2''"
| "mnemonic DIV2 = ''div2''" | "mnemonic MUL2 = ''mul2''" | "mnemonic DECA = ''deca''" | "mnemonic NEWARR = ''newarr''"
| "mnemonic SETELEM = ''setelem''" | "mnemonic GETELEM = ''getelem''" | "mnemonic DUMP = ''dump''"
| "mnemonic DUMPA = ''dumpa''" | "mnemonic GETARG0 = ''getarg0''" | "mnemonic GETARG1 = ''getarg1''"
| "mnemonic SETRET0 = ''setret0''" | "mnemonic SETARG0 = ''setarg0''" | "mnemonic SETARG1 = ''setarg1''"
| "mnemonic GETRET0 = ''getret0''"

subsection \<open>Patterns\<close>

definition is_letter :: "byte \<Rightarrow> bool" where
  "is_letter c \<longleftrightarrow> 65 \<le> c \<and> c \<le> 90 \<or> 97 \<le> c \<and> c \<le> 122 \<or> c = 95"

definition NEWLINE :: byte where
  "NEWLINE = 10"

definition digits_pat :: "cstring \<Rightarrow> bool" where
  "digits_pat w \<longleftrightarrow> w \<noteq> [] \<and> list_all is_digit w"

text \<open>\<open>[0-9]+(\\.[0-9]+)?\<close>: in a flex pattern the two backslashes are one, and the dot is any character.\<close>

definition doubl :: "cstring \<Rightarrow> bool" where
  "doubl w \<longleftrightarrow> takeWhile is_digit w \<noteq> [] \<and>
     (case dropWhile is_digit w of
        [] \<Rightarrow> True
      | [_] \<Rightarrow> False
      | b # c # ds \<Rightarrow> b = 92 \<and> c \<noteq> NEWLINE \<and> digits_pat ds)"

definition integ :: "cstring \<Rightarrow> bool" where
  "integ w \<longleftrightarrow> (case w of [] \<Rightarrow> False | c # ds \<Rightarrow> if c = 43 \<or> c = 45 then digits_pat ds else digits_pat w)"

definition reg_pat :: "cstring \<Rightarrow> bool" where
  "reg_pat w \<longleftrightarrow> (case w of [] \<Rightarrow> False | c # ds \<Rightarrow> c = 114 \<and> integ ds)"

definition str_pat :: "cstring \<Rightarrow> bool" where
  "str_pat w \<longleftrightarrow> (case w of [] \<Rightarrow> False
     | q # u \<Rightarrow> q = QUOTE \<and> u \<noteq> [] \<and> last u = QUOTE \<and> NEWLINE \<notin> set (butlast u))"

definition ident :: "cstring \<Rightarrow> bool" where
  "ident w \<longleftrightarrow> (case w of [] \<Rightarrow> False | c # cs \<Rightarrow> is_letter c \<and> list_all (\<lambda>d. is_letter d \<or> is_digit d) cs)"

definition comment_pat :: "cstring \<Rightarrow> bool" where
  "comment_pat w \<longleftrightarrow> (case w of [] \<Rightarrow> False | c # u \<Rightarrow> c = 35 \<and> u \<noteq> [] \<and> NEWLINE \<notin> set u)"

text \<open>A pattern with trailing context \<open>$\<close> matches the word and the newline.\<close>

definition at_eol :: "(cstring \<Rightarrow> bool) \<Rightarrow> cstring \<Rightarrow> bool" where
  "at_eol P w \<longleftrightarrow> w \<noteq> [] \<and> last w = NEWLINE \<and> P (butlast w)"

subsection \<open>Actions\<close>

text \<open>\<open>atoi\<close> on a match of \<open>{integ}\<close>.\<close>

definition atoi :: "cstring \<Rightarrow> int" where
  "atoi w =
     (let ds = (if hd w = 43 \<or> hd w = 45 then tl w else w);
          n = foldl (\<lambda>n c. n * 10 + int (unat (c - 48))) 0 ds
      in if hd w = 45 then - n else n)"

definition int_token :: "(byte \<Rightarrow> token) \<Rightarrow> cstring \<Rightarrow> token" where
  "int_token t w = (if - (2 ^ 31) \<le> atoi w \<and> atoi w < 2 ^ 31 then t (word_of_int (atoi w)) else T_OVERFLOW)"

text \<open>Pattern, whether the last character is trailing context, and the action on the matched text.\<close>

type_synonym lex_rule = "(cstring \<Rightarrow> bool) \<times> bool \<times> (cstring \<Rightarrow> action)"

definition keyword :: "string \<Rightarrow> token \<Rightarrow> lex_rule" where
  "keyword w t = ((\<lambda>v. v = ascii w), False, \<lambda>_. Return t)"

definition front_rules :: "lex_rule list" where
  "front_rules =
    [(at_eol comment_pat, True, \<lambda>_. Skip),
     (at_eol (\<lambda>v. v = [35]), True, \<lambda>_. Skip),
     ((\<lambda>v. v = [NEWLINE]), False, \<lambda>_. Skip),
     keyword ''.def'' T_FUNCTION_KEYW, keyword ''.obj'' T_OBJ_KEYW, keyword ''.any'' T_ANY_KEYW,
     keyword ''.num'' T_NUM_KEYW, keyword ''.str'' T_STR_KEYW,
     keyword ''{'' T_B_BEGIN, keyword '':'' T_COLON, keyword ''}'' T_B_END,
     (doubl, False, \<lambda>w. Return (T_NUM w)),
     (str_pat, False, \<lambda>w. Return (T_STR w)),
     ((\<lambda>v. v \<noteq> [] \<and> list_all (\<lambda>c. c = 32) v), False, \<lambda>_. Skip),
     (integ, False, \<lambda>w. Return (int_token T_IMM w)),
     (reg_pat, False, \<lambda>w. Return (int_token T_REG (tl w)))]"

definition back_rules :: "lex_rule list" where
  "back_rules =
    [((\<lambda>v. v = ascii ''EOF''), False, \<lambda>_. EndOfFile),
     (ident, False, \<lambda>w. Return (T_IDENTIFIER w)),
     ((\<lambda>v. length v = 1 \<and> hd v \<noteq> NEWLINE), False, \<lambda>_. Return T_UNKNOWN)]"

definition rules :: "lex_rule list" where
  "rules = front_rules @ map (\<lambda>c. keyword (mnemonic c) (T_OPC c)) opcodes @ back_rules"

subsection \<open>Scanning\<close>

definition longest :: "(cstring \<Rightarrow> bool) \<Rightarrow> cstring \<Rightarrow> nat" where
  "longest P s = (case filter (\<lambda>n. P (take n s)) [1..<Suc (length s)] of [] \<Rightarrow> 0 | ns \<Rightarrow> last ns)"

text \<open>The longest match, the first of equally long ones: how much is consumed, and the action.\<close>

fun best :: "lex_rule list \<Rightarrow> cstring \<Rightarrow> nat \<times> nat \<times> action \<Rightarrow> nat \<times> nat \<times> action" where
  "best [] s b = b"
| "best ((P, trail, act) # rs) s b =
     (let n = longest P s; k = (if trail then n - 1 else n) in
      best rs s (if fst b < n then (n, k, act (take k s)) else b))"

definition scan :: "cstring \<Rightarrow> nat \<times> action" where
  "scan s = snd (best rules s (0, 0, Skip))"

text \<open>The scanner stops where the process exits, at the end of the input and at the word EOF.\<close>

function lex :: "cstring \<Rightarrow> token list" where
  "lex s =
     (if s = [] then []
      else case scan s of (n, a) \<Rightarrow>
        (case a of
           Skip \<Rightarrow> lex (drop (max 1 n) s)
         | EndOfFile \<Rightarrow> []
         | Return t \<Rightarrow> if t = T_UNKNOWN then [T_UNKNOWN] else t # lex (drop (max 1 n) s)))"
  by pat_completeness auto
termination
  by (relation "measure length") auto

declare lex.simps [simp del]

end
