(* ===== verification/K3s_Parser.thy ===== *)
theory K3s_Parser
  imports K3s_Lexer
begin

text \<open>
  The parser of the assembler (assembler/templates/grammar.l.erb), one function per nonterminal.  A
  function takes the tokens that are left and the state of the encoder, and performs the action of a
  rule at the point where it stands in the rule, so an action in the middle comes before the tokens
  behind it are looked at.  The grammar has one symbol of lookahead; where the empty alternative of
  \<open>program\<close> and \<open>obj_definition\<close> conflicts with the first symbol of a declaration or member, bison
  shifts.  The first token that does not fit ends the parse, and \<open>main\<close> (assembler/main.cpp) fails.
  The limit of 10000 symbols on bison's stack is not modelled.
\<close>

subsection \<open>Instructions\<close>

text \<open>A token that does not fit: the process has exited in the lexer, or \<open>yyparse\<close> fails.\<close>

definition reject :: "token list \<Rightarrow> 'a res" where
  "reject ts =
     (case ts of
        T_UNKNOWN # _ \<Rightarrow> Inl (Fatal ''LEXER'')
      | T_OVERFLOW # _ \<Rightarrow> Inl Undefined
      | _ \<Rightarrow> Inl (Fatal ''ASSEMBLER''))"

definition p_REG :: "token list \<Rightarrow> (byte \<times> token list) res" where
  "p_REG ts = (case ts of T_REG r # us \<Rightarrow> Inr (r, us) | _ \<Rightarrow> reject ts)"

definition p_IMM :: "token list \<Rightarrow> asm \<Rightarrow> (byte \<times> token list \<times> asm) res" where
  "p_IMM ts s =
     (case ts of
        T_IDENTIFIER n # us \<Rightarrow> (let (v, s1) = TryResolveName n s in Inr (v, us, s1))
      | T_IMM v # us \<Rightarrow> Inr (v, us, s)
      | _ \<Rightarrow> reject ts)"

text \<open>The token itself, for the punctuation and the keywords.\<close>

definition expect :: "token \<Rightarrow> token list \<Rightarrow> token list res" where
  "expect t ts = (case ts of u # us \<Rightarrow> if u = t then Inr us else reject ts | [] \<Rightarrow> reject ts)"

definition p_IDENTIFIER :: "token list \<Rightarrow> (cstring \<times> token list) res" where
  "p_IDENTIFIER ts = (case ts of T_IDENTIFIER n # us \<Rightarrow> Inr (n, us) | _ \<Rightarrow> reject ts)"

definition p_NUM :: "token list \<Rightarrow> (cstring \<times> token list) res" where
  "p_NUM ts = (case ts of T_NUM w # us \<Rightarrow> Inr (w, us) | _ \<Rightarrow> reject ts)"

definition p_STR :: "token list \<Rightarrow> (cstring \<times> token list) res" where
  "p_STR ts = (case ts of T_STR w # us \<Rightarrow> Inr (w, us) | _ \<Rightarrow> reject ts)"

definition p_instruction :: "opcode \<Rightarrow> token list \<Rightarrow> asm \<Rightarrow> (token list \<times> asm) res" where
  "p_instruction c ts s =
     (case signature_of c of
        OPC_R4_R4 \<Rightarrow> rbind (p_REG ts) (\<lambda>(r1, us). rbind (p_REG us) (\<lambda>(r2, vs).
          rbind (Encode2 (opc_byte c) r1 r2 s) (\<lambda>s1. Inr (vs, s1))))
      | OPC_R8 \<Rightarrow> rbind (p_REG ts) (\<lambda>(r, us). Inr (us, Encode1 (opc_byte c) r s))
      | OPC_I8 \<Rightarrow> rbind (p_IMM ts s) (\<lambda>(v, us, s1). Inr (us, Encode1 (opc_byte c) v s1))
      | OPC \<Rightarrow> Inr (ts, Encode0 (opc_byte c) s))"

definition p_instruction_or_label :: "token list \<Rightarrow> asm \<Rightarrow> (token list \<times> asm) res" where
  "p_instruction_or_label ts s =
     (case ts of
        T_OPC c # us \<Rightarrow> p_instruction c us s
      | T_IDENTIFIER l # us \<Rightarrow> rbind (DefineLabel l s) (\<lambda>s1. rbind (expect T_COLON us) (\<lambda>vs. Inr (vs, s1)))
      | _ \<Rightarrow> reject ts)"

definition starts_item :: "token list \<Rightarrow> bool" where
  "starts_item ts \<longleftrightarrow> (case ts of T_OPC _ # _ \<Rightarrow> True | T_IDENTIFIER _ # _ \<Rightarrow> True | _ \<Rightarrow> False)"

lemma reject_not_Inr [simp]: "reject ts \<noteq> Inr x" "Inr x \<noteq> reject ts"
  by (auto simp: reject_def split: list.splits token.splits)

text \<open>What each function that consumes tokens has seen when it succeeds.\<close>

lemma p_tokens [simp]:
  "p_REG ts = Inr (r, us) \<longleftrightarrow> ts = T_REG r # us"
  "p_NUM ts = Inr (w, us) \<longleftrightarrow> ts = T_NUM w # us"
  "p_STR ts = Inr (w, us) \<longleftrightarrow> ts = T_STR w # us"
  "p_IDENTIFIER ts = Inr (w, us) \<longleftrightarrow> ts = T_IDENTIFIER w # us"
  "expect t ts = Inr us \<longleftrightarrow> ts = t # us"
  by (auto simp: p_REG_def p_NUM_def p_STR_def p_IDENTIFIER_def expect_def split: list.splits token.splits if_splits)

lemma p_IMM_Inr:
  "p_IMM ts s = Inr (v, us, t) \<longleftrightarrow>
     (\<exists>n. ts = T_IDENTIFIER n # us \<and> TryResolveName n s = (v, t)) \<or> ts = T_IMM v # us \<and> t = s"
  by (auto simp: p_IMM_def split: list.splits token.splits prod.splits)

lemma p_instruction_Inr:
  "p_instruction c ts s = Inr (us, t) \<longleftrightarrow>
     (case signature_of c of
        OPC_R4_R4 \<Rightarrow> \<exists>r1 r2. ts = T_REG r1 # T_REG r2 # us \<and> Encode2 (opc_byte c) r1 r2 s = Inr t
      | OPC_R8 \<Rightarrow> \<exists>r. ts = T_REG r # us \<and> t = Encode1 (opc_byte c) r s
      | OPC_I8 \<Rightarrow> \<exists>v s1. p_IMM ts s = Inr (v, us, s1) \<and> t = Encode1 (opc_byte c) v s1
      | OPC \<Rightarrow> ts = us \<and> t = Encode0 (opc_byte c) s)"
  by (auto simp: p_instruction_def rbind_eq_Inr split: signature.splits)

lemma p_instruction_le: "p_instruction c ts s = Inr (us, t) \<Longrightarrow> length us \<le> length ts"
  by (cases "signature_of c") (auto simp: p_instruction_Inr p_IMM_Inr)

lemma p_item_Inr:
  "p_instruction_or_label ts s = Inr (us, t) \<longleftrightarrow>
     (\<exists>c vs. ts = T_OPC c # vs \<and> p_instruction c vs s = Inr (us, t)) \<or>
     (\<exists>l. ts = T_IDENTIFIER l # T_COLON # us \<and> DefineLabel l s = Inr t)"
  by (auto simp: p_instruction_or_label_def rbind_eq_Inr split: list.splits token.splits)

lemma p_item_shorter: "p_instruction_or_label ts s = Inr (us, t) \<Longrightarrow> length us < length ts"
  using p_instruction_le by (fastforce simp: p_item_Inr)

text \<open>\<open>instructions\<close>: at least one, as long as the next token can begin one.\<close>

function p_instructions :: "token list \<Rightarrow> asm \<Rightarrow> (token list \<times> asm) res" where
  "p_instructions ts s =
     rbind (p_instruction_or_label ts s) (\<lambda>(us, s1).
       if starts_item us then p_instructions us s1 else Inr (us, s1))"
  by pat_completeness auto
termination
  by (relation "measure (\<lambda>(ts, s). length ts)") (auto dest: p_item_shorter)

declare p_instructions.simps [simp del]

text \<open>\<open>B_BEGIN instructions B_END\<close> and the check behind it.\<close>

definition p_body :: "token list \<Rightarrow> asm \<Rightarrow> (token list \<times> asm) res" where
  "p_body ts s =
     rbind (expect T_B_BEGIN ts) (\<lambda>us. rbind (p_instructions us s) (\<lambda>(vs, s1).
       rbind (expect T_B_END vs) (\<lambda>ws. rbind (CheckLabelsResolved s1) (\<lambda>s2. Inr (ws, s2)))))"

subsection \<open>Declarations\<close>

definition p_member :: "token list \<Rightarrow> asm \<Rightarrow> (token list \<times> asm) res" where
  "p_member ts s =
     (case ts of
        T_FUNCTION_KEYW # us \<Rightarrow> rbind (p_IDENTIFIER us) (\<lambda>(n, vs).
          rbind (DeclareAndDefineMethod n s) (p_body vs))
      | T_ANY_KEYW # us \<Rightarrow> rbind (p_IDENTIFIER us) (\<lambda>(n, vs).
          rbind (DeclareAndDefineAnyDataMember n s) (\<lambda>s1. Inr (vs, s1)))
      | _ \<Rightarrow> reject ts)"

definition starts_member :: "token list \<Rightarrow> bool" where
  "starts_member ts \<longleftrightarrow> (case ts of T_FUNCTION_KEYW # _ \<Rightarrow> True | T_ANY_KEYW # _ \<Rightarrow> True | _ \<Rightarrow> False)"

lemma p_instructions_shorter: "p_instructions ts s = Inr (us, t) \<Longrightarrow> length us < length ts"
proof (induction ts s rule: p_instructions.induct)
  case (1 ts s)
  from "1.prems" obtain vs u where item: "p_instruction_or_label ts s = Inr (vs, u)"
    and rest: "(if starts_item vs then p_instructions vs u else Inr (vs, u)) = Inr (us, t)"
    by (subst (asm) p_instructions.simps) (auto simp: res_simps)
  from p_item_shorter [OF item] "1.IH" [OF item] rest show ?case by (auto split: if_splits)
qed

lemma p_body_shorter: "p_body ts s = Inr (us, t) \<Longrightarrow> length us < length ts"
  by (auto simp: p_body_def rbind_eq_Inr dest!: p_instructions_shorter)

lemma p_member_Inr:
  "p_member ts s = Inr (us, t) \<longleftrightarrow>
     (\<exists>n vs s1. ts = T_FUNCTION_KEYW # T_IDENTIFIER n # vs \<and> DeclareAndDefineMethod n s = Inr s1 \<and> p_body vs s1 = Inr (us, t)) \<or>
     (\<exists>n. ts = T_ANY_KEYW # T_IDENTIFIER n # us \<and> DeclareAndDefineAnyDataMember n s = Inr t)"
  by (auto simp: p_member_def rbind_eq_Inr split: list.splits token.splits)

lemma p_member_shorter: "p_member ts s = Inr (us, t) \<Longrightarrow> length us < length ts"
  by (auto simp: p_member_Inr dest!: p_body_shorter)

function p_obj_definition :: "token list \<Rightarrow> asm \<Rightarrow> (token list \<times> asm) res" where
  "p_obj_definition ts s =
     (if starts_member ts then rbind (p_member ts s) (\<lambda>(us, s1). p_obj_definition us s1) else Inr (ts, s))"
  by pat_completeness auto
termination
  by (relation "measure (\<lambda>(ts, s). length ts)") (auto dest: p_member_shorter)

declare p_obj_definition.simps [simp del]

definition p_num :: "token list \<Rightarrow> asm \<Rightarrow> (token list \<times> asm) res" where
  "p_num ts s =
     rbind (p_IDENTIFIER ts) (\<lambda>(n, us). rbind (DeclareId n s) (\<lambda>s1.
       rbind (p_NUM us) (\<lambda>(w, vs). Inr (vs, DefineNum w s1))))"

definition p_str :: "token list \<Rightarrow> asm \<Rightarrow> (token list \<times> asm) res" where
  "p_str ts s =
     rbind (p_IDENTIFIER ts) (\<lambda>(n, us). rbind (DeclareId n s) (\<lambda>s1.
       rbind (p_STR us) (\<lambda>(w, vs). rbind (DefineStr w s1) (\<lambda>s2. Inr (vs, s2)))))"

definition p_obj :: "token list \<Rightarrow> asm \<Rightarrow> (token list \<times> asm) res" where
  "p_obj ts s =
     rbind (p_IDENTIFIER ts) (\<lambda>(n, us). rbind (DeclareObject n s) (\<lambda>s1.
       rbind (expect T_B_BEGIN us) (\<lambda>vs. rbind (p_obj_definition vs s1) (\<lambda>(ws, s2).
         rbind (expect T_B_END ws) (\<lambda>xs. Inr (xs, s2))))))"

definition p_function :: "token list \<Rightarrow> asm \<Rightarrow> (token list \<times> asm) res" where
  "p_function ts s =
     rbind (p_IDENTIFIER ts) (\<lambda>(n, us). rbind (DeclareAndDefineFunction n s) (\<lambda>s1. p_body us s1))"

definition p_declaration :: "token list \<Rightarrow> asm \<Rightarrow> (token list \<times> asm) res" where
  "p_declaration ts s =
     (case ts of
        T_NUM_KEYW # us \<Rightarrow> p_num us s
      | T_STR_KEYW # us \<Rightarrow> p_str us s
      | T_OBJ_KEYW # us \<Rightarrow> p_obj us s
      | T_FUNCTION_KEYW # us \<Rightarrow> p_function us s
      | _ \<Rightarrow> reject ts)"

lemma p_obj_definition_shorter: "p_obj_definition ts s = Inr (us, t) \<Longrightarrow> length us \<le> length ts"
proof (induction ts s rule: p_obj_definition.induct)
  case (1 ts s)
  show ?case
  proof (cases "starts_member ts")
    case True
    with "1.prems" obtain vs u where m: "p_member ts s = Inr (vs, u)" and rest: "p_obj_definition vs u = Inr (us, t)"
      by (subst (asm) p_obj_definition.simps) (auto simp: res_simps)
    from p_member_shorter [OF m] "1.IH" [OF True m _ rest] show ?thesis by simp
  next
    case False
    then show ?thesis using "1.prems" by (subst (asm) p_obj_definition.simps) simp
  qed
qed

lemma p_declaration_Inr:
  "p_declaration ts s = Inr (us, t) \<longleftrightarrow>
     (\<exists>vs. ts = T_NUM_KEYW # vs \<and> p_num vs s = Inr (us, t)) \<or> (\<exists>vs. ts = T_STR_KEYW # vs \<and> p_str vs s = Inr (us, t)) \<or>
     (\<exists>vs. ts = T_OBJ_KEYW # vs \<and> p_obj vs s = Inr (us, t)) \<or> (\<exists>vs. ts = T_FUNCTION_KEYW # vs \<and> p_function vs s = Inr (us, t))"
  by (auto simp: p_declaration_def split: list.splits token.splits)

lemma p_declaration_shorter: "p_declaration ts s = Inr (us, t) \<Longrightarrow> length us < length ts"
  by (auto simp: p_declaration_Inr p_num_def p_str_def p_obj_def p_function_def rbind_eq_Inr
      dest!: p_obj_definition_shorter p_body_shorter)

function yyparse :: "token list \<Rightarrow> asm \<Rightarrow> asm res" where
  "yyparse ts s = (if ts = [] then Inr s else rbind (p_declaration ts s) (\<lambda>(us, s1). yyparse us s1))"
  by pat_completeness auto
termination
  by (relation "measure (\<lambda>(ts, s). length ts)") (auto dest: p_declaration_shorter)

declare yyparse.simps [simp del]

text \<open>\<open>AsmEncoder::Process\<close>, from the contents of the file.\<close>

definition Process :: "cstring \<Rightarrow> asm res" where
  "Process file = yyparse (lex file) empty_asm"

text \<open>\<open>main\<close>, from the contents of the first file to those of the second.\<close>

definition assembler_main :: "(byte \<Rightarrow> nat \<Rightarrow> byte) \<Rightarrow> cstring \<Rightarrow> byte list res" where
  "assembler_main pad file = rbind (Process file) (DumpClassFile pad)"

end
