(* ===== verification/K3s_Grammar.thy ===== *)
theory K3s_Grammar
  imports K3s_Parser
begin

text \<open>
  The parser against the language of declarations of K3s_Asm.  \<open>decl_tokens\<close> writes a declaration as
  tokens.  The functions of the parser succeed exactly on such sequences and then have done what
  \<open>assemble_decl\<close> does, so the two-pass specification of the assembler and the class-file theorems
  apply to source files.
\<close>

subsection \<open>Declarations as tokens\<close>

fun item_tokens :: "item \<Rightarrow> token list" where
  "item_tokens (ILabel l) = [T_IDENTIFIER l, T_COLON]"
| "item_tokens (IRR c r1 r2) = [T_OPC c, T_REG r1, T_REG r2]"
| "item_tokens (IR c r) = [T_OPC c, T_REG r]"
| "item_tokens (II c (ImmName n)) = [T_OPC c, T_IDENTIFIER n]"
| "item_tokens (II c (ImmLit v)) = [T_OPC c, T_IMM v]"
| "item_tokens (IO c) = [T_OPC c]"

definition items_tokens :: "item list \<Rightarrow> token list" where
  "items_tokens its = concat (map item_tokens its)"

definition body_tokens :: "item list \<Rightarrow> token list" where
  "body_tokens its = T_B_BEGIN # items_tokens its @ [T_B_END]"

fun member_tokens :: "member \<Rightarrow> token list" where
  "member_tokens (Method n its) = T_FUNCTION_KEYW # T_IDENTIFIER n # body_tokens its"
| "member_tokens (DataMember n) = [T_ANY_KEYW, T_IDENTIFIER n]"

definition members_tokens :: "member list \<Rightarrow> token list" where
  "members_tokens ms = concat (map member_tokens ms)"

fun decl_tokens :: "decl \<Rightarrow> token list" where
  "decl_tokens (DNum n w) = [T_NUM_KEYW, T_IDENTIFIER n, T_NUM w]"
| "decl_tokens (DStr n w) = [T_STR_KEYW, T_IDENTIFIER n, T_STR w]"
| "decl_tokens (DObj n ms) = [T_OBJ_KEYW, T_IDENTIFIER n, T_B_BEGIN] @ members_tokens ms @ [T_B_END]"
| "decl_tokens (DFunc n its) = [T_FUNCTION_KEYW, T_IDENTIFIER n] @ body_tokens its"

definition program_tokens :: "decl list \<Rightarrow> token list" where
  "program_tokens ds = concat (map decl_tokens ds)"

text \<open>Operands as the signature of the mnemonic wants them, and no empty bodies.\<close>

fun wf_item :: "item \<Rightarrow> bool" where
  "wf_item (ILabel l) = True"
| "wf_item (IRR c r1 r2) = (signature_of c = OPC_R4_R4)"
| "wf_item (IR c r) = (signature_of c = OPC_R8)"
| "wf_item (II c i) = (signature_of c = OPC_I8)"
| "wf_item (IO c) = (signature_of c = OPC)"

definition wf_body :: "item list \<Rightarrow> bool" where
  "wf_body its \<longleftrightarrow> its \<noteq> [] \<and> list_all wf_item its"

fun wf_member :: "member \<Rightarrow> bool" where
  "wf_member (Method n its) = wf_body its"
| "wf_member (DataMember n) = True"

fun wf_decl :: "decl \<Rightarrow> bool" where
  "wf_decl (DObj n ms) = list_all wf_member ms"
| "wf_decl (DFunc n its) = wf_body its"
| "wf_decl _ = True"

named_theorems token_simps "token sequences, one element at a time"

lemma token_lists [token_simps]:
  "items_tokens [] = []" "items_tokens (it # its) = item_tokens it @ items_tokens its"
  "members_tokens [] = []" "members_tokens (m # ms) = member_tokens m @ members_tokens ms"
  "program_tokens [] = []" "program_tokens (d # ds) = decl_tokens d @ program_tokens ds"
  by (simp_all add: items_tokens_def members_tokens_def program_tokens_def)

subsection \<open>What is written is parsed\<close>

lemma p_token_calls [simp]:
  "p_REG (T_REG r # us) = Inr (r, us)" "p_NUM (T_NUM w # us) = Inr (w, us)" "p_STR (T_STR w # us) = Inr (w, us)"
  "p_IDENTIFIER (T_IDENTIFIER w # us) = Inr (w, us)" "expect t (t # us) = Inr us"
  by simp_all

lemma parse_item:
  "wf_item it \<Longrightarrow> p_instruction_or_label (item_tokens it @ us) s = rbind (assemble_item it s) (\<lambda>s1. Inr (us, s1))"
  by (cases it rule: item_tokens.cases)
    (simp_all add: p_instruction_or_label_def p_instruction_def p_IMM_def split: prod.splits)

lemma starts_items: "its \<noteq> [] \<Longrightarrow> starts_item (items_tokens its @ us)"
proof (cases its)
  case (Cons it js)
  then show ?thesis by (cases it rule: item_tokens.cases) (simp_all add: token_simps starts_item_def)
qed simp

lemma parse_instructions:
  assumes "its \<noteq> []" and "list_all wf_item its" and "\<not> starts_item us"
  shows "p_instructions (items_tokens its @ us) s = rbind (fold_res assemble_item its s) (\<lambda>s1. Inr (us, s1))"
  using assms(1,2)
proof (induction its arbitrary: s)
  case (Cons it js)
  show ?case
  proof (cases "js = []")
    case True
    then show ?thesis using Cons.prems assms(3)
      by (subst p_instructions.simps) (cases "assemble_item it s"; simp add: token_simps parse_item)
  next
    case False
    then show ?thesis using Cons starts_items [OF False, of us]
      by (subst p_instructions.simps) (cases "assemble_item it s"; simp add: token_simps parse_item)
  qed
qed simp

lemma parse_body: "wf_body its \<Longrightarrow> p_body (body_tokens its @ us) = (\<lambda>s. rbind (assemble_body its s) (\<lambda>s1. Inr (us, s1)))"
proof (rule ext)
  fix s
  show "wf_body its \<Longrightarrow> p_body (body_tokens its @ us) s = rbind (assemble_body its s) (\<lambda>s1. Inr (us, s1))"
    using parse_instructions [of its "T_B_END # us" s]
    by (cases "fold_res assemble_item its s")
      (simp_all add: wf_body_def p_body_def body_tokens_def assemble_body_def starts_item_def)
qed

lemma parse_member: "wf_member m \<Longrightarrow> p_member (member_tokens m @ us) s = rbind (assemble_member m s) (\<lambda>s1. Inr (us, s1))"
  by (cases m) (simp_all add: p_member_def parse_body rbind_assoc)

lemma parse_members:
  assumes "\<not> starts_member us"
  shows "list_all wf_member ms \<Longrightarrow>
    p_obj_definition (members_tokens ms @ us) s = rbind (fold_res assemble_member ms s) (\<lambda>s1. Inr (us, s1))"
proof (induction ms arbitrary: s)
  case Nil
  then show ?case using assms by (subst p_obj_definition.simps) (simp add: token_simps)
next
  case (Cons m ms)
  have "starts_member (member_tokens m @ members_tokens ms @ us)"
    by (cases m) (simp_all add: starts_member_def)
  with Cons show ?case
    by (subst p_obj_definition.simps) (cases "assemble_member m s"; simp add: token_simps parse_member)
qed

lemma parse_declaration: "wf_decl d \<Longrightarrow> p_declaration (decl_tokens d @ us) s = rbind (assemble_decl d s) (\<lambda>s1. Inr (us, s1))"
  by (cases d) (simp_all add: p_declaration_def p_num_def p_str_def p_obj_def p_function_def rbind_assoc
    parse_members [of "T_B_END # us"] starts_member_def parse_body)

lemma decl_tokens_not_Nil [simp]: "decl_tokens d \<noteq> []"
  by (cases d) simp_all

lemma parse_program: "list_all wf_decl ds \<Longrightarrow> yyparse (program_tokens ds) s = fold_res assemble_decl ds s"
proof (induction ds arbitrary: s)
  case Nil
  then show ?case by (subst yyparse.simps) (simp add: token_simps)
next
  case (Cons d ds)
  then show ?case by (subst yyparse.simps) (cases "assemble_decl d s"; simp add: token_simps parse_declaration)
qed

subsection \<open>What is parsed has been written\<close>

lemma item_parsed:
  assumes "p_instruction_or_label ts s = Inr (us, t)"
  shows "\<exists>it. wf_item it \<and> ts = item_tokens it @ us \<and> assemble_item it s = Inr t"
proof -
  from assms consider (label) l where "ts = T_IDENTIFIER l # T_COLON # us" "DefineLabel l s = Inr t"
    | (inst) c vs where "ts = T_OPC c # vs" "p_instruction c vs s = Inr (us, t)"
    unfolding p_item_Inr by blast
  then show ?thesis
  proof cases
    case label
    then show ?thesis by (intro exI [of _ "ILabel l"]) simp
  next
    case inst
    show ?thesis
    proof (cases "signature_of c")
      case OPC_R4_R4
      with inst obtain r1 r2 where "vs = T_REG r1 # T_REG r2 # us" "Encode2 (opc_byte c) r1 r2 s = Inr t"
        by (auto simp: p_instruction_Inr)
      then show ?thesis using inst OPC_R4_R4 by (intro exI [of _ "IRR c r1 r2"]) simp
    next
      case OPC_R8
      with inst obtain r where "vs = T_REG r # us" "t = Encode1 (opc_byte c) r s" by (auto simp: p_instruction_Inr)
      then show ?thesis using inst OPC_R8 by (intro exI [of _ "IR c r"]) simp
    next
      case OPC_I8
      with inst obtain v s1 where "p_IMM vs s = Inr (v, us, s1)" "t = Encode1 (opc_byte c) v s1"
        by (auto simp: p_instruction_Inr)
      then consider n where "vs = T_IDENTIFIER n # us" "assemble_item (II c (ImmName n)) s = Inr t"
        | "vs = T_IMM v # us" "assemble_item (II c (ImmLit v)) s = Inr t"
        by (auto simp: p_IMM_Inr)
      then show ?thesis
        using inst OPC_I8 exI [of "\<lambda>it. wf_item it \<and> ts = item_tokens it @ us \<and> assemble_item it s = Inr t"]
        by cases (metis append_Cons append_Nil item_tokens.simps wf_item.simps(4))+
    next
      case OPC
      then show ?thesis using inst by (intro exI [of _ "IO c"]) (simp add: p_instruction_Inr)
    qed
  qed
qed

lemma instructions_parsed:
  "p_instructions ts s = Inr (us, t) \<Longrightarrow>
   \<exists>its. wf_body its \<and> ts = items_tokens its @ us \<and> fold_res assemble_item its s = Inr t"
proof (induction ts s rule: p_instructions.induct)
  case (1 ts s)
  from "1.prems" obtain vs u where item: "p_instruction_or_label ts s = Inr (vs, u)"
    and rest: "(if starts_item vs then p_instructions vs u else Inr (vs, u)) = Inr (us, t)"
    by (subst (asm) p_instructions.simps) (auto simp: res_simps)
  from item_parsed [OF item] obtain it where it: "wf_item it" "ts = item_tokens it @ vs" "assemble_item it s = Inr u" by blast
  show ?case
  proof (cases "starts_item vs")
    case True
    with "1.IH" [OF item _ True] rest obtain its
      where "wf_body its" "vs = items_tokens its @ us" "fold_res assemble_item its u = Inr t" by auto
    then show ?thesis using it by (intro exI [of _ "it # its"]) (simp add: wf_body_def token_simps)
  next
    case False
    then show ?thesis using it rest by (intro exI [of _ "[it]"]) (simp add: wf_body_def token_simps)
  qed
qed

lemma body_parsed:
  assumes "p_body ts s = Inr (us, t)"
  shows "\<exists>its. wf_body its \<and> ts = body_tokens its @ us \<and> assemble_body its s = Inr t"
proof -
  from assms obtain vs u where "ts = T_B_BEGIN # vs" "p_instructions vs s = Inr (T_B_END # us, u)"
    "CheckLabelsResolved u = Inr t"
    by (auto simp: p_body_def rbind_eq_Inr)
  with instructions_parsed [OF this(2)] show ?thesis by (auto simp: body_tokens_def assemble_body_def)
qed

lemma member_parsed:
  assumes "p_member ts s = Inr (us, t)"
  shows "\<exists>m. wf_member m \<and> ts = member_tokens m @ us \<and> assemble_member m s = Inr t"
proof -
  from assms consider n vs s1 where "ts = T_FUNCTION_KEYW # T_IDENTIFIER n # vs" "DeclareAndDefineMethod n s = Inr s1" "p_body vs s1 = Inr (us, t)"
    | n where "ts = T_ANY_KEYW # T_IDENTIFIER n # us" "DeclareAndDefineAnyDataMember n s = Inr t"
    unfolding p_member_Inr by blast
  then show ?thesis
  proof cases
    case (1 n vs s1)
    from body_parsed [OF 1(3)] obtain its where "wf_body its" "vs = body_tokens its @ us" "assemble_body its s1 = Inr t" by blast
    then show ?thesis using 1 by (intro exI [of _ "Method n its"]) simp
  next
    case (2 n)
    then show ?thesis by (intro exI [of _ "DataMember n"]) simp
  qed
qed

lemma members_parsed:
  "p_obj_definition ts s = Inr (us, t) \<Longrightarrow>
   \<exists>ms. list_all wf_member ms \<and> ts = members_tokens ms @ us \<and> fold_res assemble_member ms s = Inr t"
proof (induction ts s rule: p_obj_definition.induct)
  case (1 ts s)
  show ?case
  proof (cases "starts_member ts")
    case True
    with "1.prems" obtain vs u where m: "p_member ts s = Inr (vs, u)" and rest: "p_obj_definition vs u = Inr (us, t)"
      by (subst (asm) p_obj_definition.simps) (auto simp: res_simps)
    from member_parsed [OF m] obtain m where "wf_member m" "ts = member_tokens m @ vs" "assemble_member m s = Inr u" by blast
    moreover from "1.IH" [OF True m _ rest] obtain ms
      where "list_all wf_member ms" "vs = members_tokens ms @ us" "fold_res assemble_member ms u = Inr t" by auto
    ultimately show ?thesis by (intro exI [of _ "m # ms"]) (simp add: token_simps)
  next
    case False
    then show ?thesis using "1.prems" by (subst (asm) p_obj_definition.simps) (auto simp: token_simps intro: exI [of _ "[]"])
  qed
qed

lemma declaration_parsed:
  assumes "p_declaration ts s = Inr (us, t)"
  shows "\<exists>d. wf_decl d \<and> ts = decl_tokens d @ us \<and> assemble_decl d s = Inr t"
proof -
  from assms consider (num) vs where "ts = T_NUM_KEYW # vs" "p_num vs s = Inr (us, t)"
    | (str) vs where "ts = T_STR_KEYW # vs" "p_str vs s = Inr (us, t)"
    | (obj) vs where "ts = T_OBJ_KEYW # vs" "p_obj vs s = Inr (us, t)"
    | (func) vs where "ts = T_FUNCTION_KEYW # vs" "p_function vs s = Inr (us, t)"
    unfolding p_declaration_Inr by blast
  then show ?thesis
  proof cases
    case num
    then obtain n w s1 where "vs = T_IDENTIFIER n # T_NUM w # us" "DeclareId n s = Inr s1" "t = DefineNum w s1"
      by (auto simp: p_num_def rbind_eq_Inr)
    then show ?thesis using num by (intro exI [of _ "DNum n w"]) simp
  next
    case str
    then obtain n w s1 where "vs = T_IDENTIFIER n # T_STR w # us" "DeclareId n s = Inr s1" "DefineStr w s1 = Inr t"
      by (auto simp: p_str_def rbind_eq_Inr)
    then show ?thesis using str by (intro exI [of _ "DStr n w"]) simp
  next
    case obj
    then obtain n ws s1 where "vs = T_IDENTIFIER n # T_B_BEGIN # ws" "DeclareObject n s = Inr s1"
      "p_obj_definition ws s1 = Inr (T_B_END # us, t)"
      by (auto simp: p_obj_def rbind_eq_Inr)
    moreover from members_parsed [OF this(3)] obtain ms
      where "list_all wf_member ms" "ws = members_tokens ms @ T_B_END # us" "fold_res assemble_member ms s1 = Inr t" by blast
    ultimately show ?thesis using obj by (intro exI [of _ "DObj n ms"]) simp
  next
    case func
    then obtain n ws s1 where "vs = T_IDENTIFIER n # ws" "DeclareAndDefineFunction n s = Inr s1" "p_body ws s1 = Inr (us, t)"
      by (auto simp: p_function_def rbind_eq_Inr)
    moreover from body_parsed [OF this(3)] obtain its where "wf_body its" "ws = body_tokens its @ us" "assemble_body its s1 = Inr t" by blast
    ultimately show ?thesis using func by (intro exI [of _ "DFunc n its"]) simp
  qed
qed

lemma program_parsed:
  "yyparse ts s = Inr t \<Longrightarrow> \<exists>ds. list_all wf_decl ds \<and> ts = program_tokens ds \<and> fold_res assemble_decl ds s = Inr t"
proof (induction ts s rule: yyparse.induct)
  case (1 ts s)
  show ?case
  proof (cases "ts = []")
    case True
    then show ?thesis using "1.prems" by (subst (asm) yyparse.simps) (auto simp: token_simps intro: exI [of _ "[]"])
  next
    case False
    with "1.prems" obtain us u where d: "p_declaration ts s = Inr (us, u)" and rest: "yyparse us u = Inr t"
      by (subst (asm) yyparse.simps) (auto simp: res_simps)
    from declaration_parsed [OF d] obtain d where "wf_decl d" "ts = decl_tokens d @ us" "assemble_decl d s = Inr u" by blast
    moreover from "1.IH" [OF False d _ rest] obtain ds
      where "list_all wf_decl ds" "us = program_tokens ds" "fold_res assemble_decl ds u = Inr t" by auto
    ultimately show ?thesis by (intro exI [of _ "d # ds"]) (simp add: token_simps)
  qed
qed

text \<open>
  C7: The parser accepts exactly the token sequences of well-formed programs, and its actions leave
  the encoder in the state that assembling the declarations in their order leaves.
\<close>

theorem parser_accepts_the_grammar:
  "yyparse ts s = Inr t \<longleftrightarrow>
     (\<exists>ds. list_all wf_decl ds \<and> ts = program_tokens ds \<and> fold_res assemble_decl ds s = Inr t)"
  using program_parsed parse_program by auto

end
