(* ===== verification/K3s_Source.thy ===== *)
theory K3s_Source
  imports K3s_Grammar
begin

text \<open>
  Source files.  A layout puts the tokens of a program into a text, each followed by a gap of spaces,
  newlines and comments.  The lexer gives the tokens back whatever the gaps are, so parsing a file
  performs the actions of the program it spells, and the round trip through the class file starts
  from the source text.  A string is followed by a newline at once: the pattern of a literal runs to
  the last quote of the line.
\<close>

subsection \<open>Longest matches\<close>

definition matches :: "(cstring \<Rightarrow> bool) \<Rightarrow> cstring \<Rightarrow> nat list" where
  "matches P s = filter (\<lambda>n. P (take n s)) [1..<Suc (length s)]"

lemma in_matches: "k \<in> set (matches P s) \<longleftrightarrow> 0 < k \<and> k \<le> length s \<and> P (take k s)"
  by (auto simp: matches_def simp del: upt_Suc)

lemma longest_last: "longest P s = (if matches P s = [] then 0 else last (matches P s))"
  by (simp add: longest_def matches_def split: list.splits del: upt_Suc)

lemma longest_in: "longest P s \<noteq> 0 \<Longrightarrow> longest P s \<in> set (matches P s)"
  by (simp add: longest_last split: if_splits)

lemma longest_matches: "longest P s \<noteq> 0 \<Longrightarrow> P (take (longest P s) s)"
  using longest_in [of P s] by (simp add: in_matches)

lemma longest_upto: "(\<And>m. k < m \<Longrightarrow> m \<le> length s \<Longrightarrow> \<not> P (take m s)) \<Longrightarrow> longest P s \<le> k"
  using longest_in [of P s] by (cases "longest P s = 0") (auto simp: in_matches not_less [symmetric])

lemma sorted_le_last: "sorted xs \<Longrightarrow> x \<in> set xs \<Longrightarrow> x \<le> last xs"
  by (induction xs) auto

lemma longest_at_least:
  assumes "P (take k s)" and "k \<le> length s"
  shows "k \<le> longest P s"
proof (cases "k = 0")
  case False
  then have k: "k \<in> set (matches P s)" using assms by (simp add: in_matches)
  have "sorted (matches P s)" by (simp add: matches_def sorted_wrt_filter del: upt_Suc)
  from sorted_le_last [OF this k] k show ?thesis by (auto simp: longest_last)
qed simp

lemma longest_0: "(\<And>v. \<not> P (c # v)) \<Longrightarrow> longest P (c # s) = 0"
  using longest_upto [of 0 "c # s" P] by (auto simp: take_Cons split: nat.splits)

text \<open>A match of a word that is followed by a character no longer match can contain.\<close>

lemma longest_word:
  assumes "P w" and "\<And>v. P (w @ c # v) \<Longrightarrow> False"
  shows "longest P (w @ c # s) = length w"
proof (rule antisym)
  have "\<not> P (take m (w @ c # s))" if "length w < m" for m
  proof -
    have "take m (w @ c # s) = w @ c # take (m - length w - 1) s"
      using that by (cases "m - length w") (simp_all add: take_Cons')
    then show ?thesis using assms(2) by auto
  qed
  then show "longest P (w @ c # s) \<le> length w" by (intro longest_upto) auto
  show "length w \<le> longest P (w @ c # s)" by (rule longest_at_least) (simp_all add: assms(1))
qed

lemma longest_short:
  assumes "\<And>v. P (w @ c # v) \<Longrightarrow> False"
  shows "longest P (w @ c # s) \<le> length w"
proof (rule longest_upto)
  fix m assume "length w < m"
  then have "take m (w @ c # s) = w @ c # take (m - length w - 1) s"
    by (cases "m - length w") (simp_all add: take_Cons')
  then show "\<not> P (take m (w @ c # s))" using assms by auto
qed

text \<open>The rule that wins: longer than those before it, not shorter than those behind it.\<close>

lemma best_keeps:
  "(\<And>r. r \<in> set rs \<Longrightarrow> longest (fst r) s \<le> fst b) \<Longrightarrow> best rs s b = b"
proof (induction rs s b rule: best.induct)
  case (2 P trail act rs s b)
  have "\<not> fst b < longest P s" using "2.prems" [of "(P, trail, act)"] by simp
  then show ?case using "2.IH" [OF refl refl] "2.prems" by (simp add: Let_def)
qed simp

lemma best_below:
  "(\<And>r. r \<in> set rs \<Longrightarrow> longest (fst r) s < n) \<Longrightarrow> fst b < n \<Longrightarrow> fst (best rs s b) < n"
proof (induction rs s b rule: best.induct)
  case (2 P trail act rs s b)
  have "longest P s < n" using "2.prems"(1) [of "(P, trail, act)"] by simp
  then show ?case using "2.IH" [OF refl refl] "2.prems" by (simp add: Let_def)
qed simp

lemma best_append: "best (rs @ qs) s b = best qs s (best rs s b)"
  by (induction rs s b rule: best.induct) (simp_all add: Let_def)

lemma best_wins:
  assumes "n = longest P s" "0 < n"
    and "\<And>r. r \<in> set rs \<Longrightarrow> longest (fst r) s < n" and "\<And>r. r \<in> set qs \<Longrightarrow> longest (fst r) s \<le> n"
  shows "best (rs @ (P, trail, act) # qs) s (0, 0, Skip) = (n, let k = (if trail then n - 1 else n) in (k, act (take k s)))"
proof -
  have "fst (best rs s (0, 0, Skip)) < n" by (rule best_below) (use assms in auto)
  then show ?thesis using assms by (simp add: best_append best_keeps Let_def)
qed

subsection \<open>Where the patterns begin and end\<close>

text \<open>The characters that may stand behind a word: a space, a newline, \<open>#\<close>, \<open>:\<close> and the braces.\<close>

definition stops :: "byte \<Rightarrow> bool" where
  "stops c \<longleftrightarrow> c \<in> {32, NEWLINE, 35, 58, 123, 125}"

definition word_char :: "byte \<Rightarrow> bool" where
  "word_char c \<longleftrightarrow> is_letter c \<or> is_digit c"

lemma stops_chars: "stops c \<Longrightarrow> \<not> is_letter c \<and> \<not> is_digit c \<and> c \<noteq> 43 \<and> c \<noteq> 45 \<and> c \<noteq> 92"
  by (auto simp: stops_def is_letter_def is_digit_def NEWLINE_def)

lemma longest_eq: "longest (\<lambda>v. v = k) s = (if take (length k) s = k then length k else 0)"
proof (cases "take (length k) s = k")
  case True
  then have len: "length k \<le> length s" by (metis length_take min.cobounded1)
  have "longest (\<lambda>v. v = k) s \<le> length k" by (rule longest_upto) (metis length_take min.absorb2 nat_less_le)
  moreover have "length k \<le> longest (\<lambda>v. v = k) s" by (rule longest_at_least) (simp_all add: True len)
  ultimately show ?thesis using True by simp
next
  case False
  have "longest (\<lambda>v. v = k) s = 0"
  proof (rule ccontr)
    assume n: "longest (\<lambda>v. v = k) s \<noteq> 0"
    from longest_in [OF n] have "longest (\<lambda>v. v = k) s \<le> length s" by (simp add: in_matches)
    with longest_matches [OF n] have "length k = longest (\<lambda>v. v = k) s" by (metis length_take min.absorb2)
    with longest_matches [OF n] False show False by simp
  qed
  then show ?thesis using False by simp
qed

lemma longest_any: "longest (\<lambda>v. length v = 1 \<and> hd v \<noteq> NEWLINE) (x # s) = (if x = NEWLINE then 0 else 1)"
proof -
  let ?P = "\<lambda>v :: cstring. length v = 1 \<and> hd v \<noteq> NEWLINE"
  have "longest ?P (x # s) \<le> 1" by (rule longest_upto) auto
  moreover have "1 \<le> longest ?P (x # s)" if "x \<noteq> NEWLINE" using that by (intro longest_at_least) simp_all
  moreover have "longest ?P (x # s) = 0" if "x = NEWLINE" using that by (intro longest_0) simp
  ultimately show ?thesis by auto
qed

lemma no_start:
  "x \<noteq> 35 \<Longrightarrow> longest (at_eol comment_pat) (x # s) = 0"
  "x \<noteq> 35 \<Longrightarrow> longest (at_eol (\<lambda>v. v = [35])) (x # s) = 0"
  "\<not> is_digit x \<Longrightarrow> longest doubl (x # s) = 0"
  "x \<noteq> QUOTE \<Longrightarrow> longest str_pat (x # s) = 0"
  "x \<noteq> 32 \<Longrightarrow> longest (\<lambda>v. v \<noteq> [] \<and> list_all (\<lambda>c. c = 32) v) (x # s) = 0"
  "\<not> is_digit x \<Longrightarrow> x \<noteq> 43 \<Longrightarrow> x \<noteq> 45 \<Longrightarrow> longest integ (x # s) = 0"
  "x \<noteq> 114 \<Longrightarrow> longest reg_pat (x # s) = 0"
  "\<not> is_letter x \<Longrightarrow> longest ident (x # s) = 0"
  by (rule longest_0; auto simp: at_eol_def comment_pat_def doubl_def str_pat_def integ_def reg_pat_def ident_def digits_pat_def
      split: if_splits)+

lemma list_all_blank:
  "stops c \<Longrightarrow> \<not> list_all is_digit (w @ c # v)" "stops c \<Longrightarrow> \<not> list_all (\<lambda>d. is_letter d \<or> is_digit d) (w @ c # v)"
  using stops_chars [of c] by auto

lemma no_stop_inside:
  assumes "stops c"
  shows "\<not> integ (w @ c # v)" "\<not> reg_pat (w @ c # v)" "\<not> ident (w @ c # v)"
proof -
  have d: "\<not> digits_pat (u @ c # v)" for u using list_all_blank [OF assms] by (simp add: digits_pat_def)
  show i: "\<not> integ (w @ c # v)" for w using d [of w] d [of "tl w"] stops_chars [OF assms] d [of "[]"]
    by (cases w) (auto simp: integ_def)
  show "\<not> reg_pat (w @ c # v)" using i [of "tl w"] i [of "[]"] assms
    by (cases w) (auto simp: reg_pat_def stops_def NEWLINE_def)
  show "\<not> ident (w @ c # v)" using list_all_blank [OF assms, of "tl w"] stops_chars [OF assms]
    by (cases w) (auto simp: ident_def)
qed

lemma mnemonic_chars: "list_all word_char (ascii (mnemonic c)) \<and> mnemonic c \<noteq> [] \<and> is_letter (hd (ascii (mnemonic c)))"
  by (cases c) (simp_all add: ascii_def word_char_def is_letter_def is_digit_def)

lemma mnemonic_inject: "ascii (mnemonic c) = ascii (mnemonic d) \<Longrightarrow> c = d"
proof -
  have "distinct (map (\<lambda>c. ascii (mnemonic c)) opcodes)" by code_simp
  then show "ascii (mnemonic c) = ascii (mnemonic d) \<Longrightarrow> c = d"
    using opcode_in_opcodes by (auto simp: distinct_map inj_on_def)
qed

text \<open>A fixed text without the character behind the word matches at most the word.\<close>

lemma longest_fixed:
  assumes "x \<notin> set k"
  shows "longest (\<lambda>v. v = k) (w @ x # s) \<le> length w"
proof -
  define b where "b \<longleftrightarrow> take (length k) (w @ x # s) = k"
  have l: "longest (\<lambda>v. v = k) (w @ x # s) = (if b then length k else 0)" by (simp only: longest_eq b_def)
  have len: "length k \<le> length w" if b
  proof (rule ccontr)
    assume "\<not> length k \<le> length w"
    then have "take (length k) (w @ x # s) = w @ x # take (length k - length w - 1) s"
      by (cases "length k - length w") (simp_all add: take_Cons')
    then show False using \<open>b\<close> assms unfolding b_def by (metis in_set_conv_decomp)
  qed
  then show ?thesis by (simp add: l)
qed

subsection \<open>Scanning one token\<close>

lemma scan_word:
  assumes r: "rules = pre @ (P, False, act) # post" and w: "w \<noteq> []" "P w"
    and le: "\<And>r. r \<in> set rules \<Longrightarrow> longest (fst r) (w @ s) \<le> length w"
    and pre: "\<And>r. r \<in> set pre \<Longrightarrow> \<not> fst r w"
  shows "scan (w @ s) = (length w, act w)"
proof -
  have "length w \<le> longest P (w @ s)" by (rule longest_at_least) (use w in simp_all)
  moreover have "(P, False, act) \<in> set rules" by (simp add: r)
  from le [OF this] have "longest P (w @ s) \<le> length w" by simp
  ultimately have n: "length w = longest P (w @ s)" by simp
  have "longest (fst r) (w @ s) < length w" if "r \<in> set pre" for r
  proof (rule ccontr)
    assume "\<not> longest (fst r) (w @ s) < length w"
    moreover have "r \<in> set rules" using that by (simp add: r)
    ultimately have "longest (fst r) (w @ s) = length w" using le [of r] by simp
    with longest_matches [of "fst r" "w @ s"] w(1) pre [OF that] show False by simp
  qed
  moreover have "longest (fst r) (w @ s) \<le> length w" if "r \<in> set post" for r
    by (rule le) (simp add: r that)
  ultimately show ?thesis
    using best_wins [OF n, of pre post False act] w(1) by (simp add: scan_def r)
qed

lemma rules_cases [consumes 1, case_names front opcode last]:
  assumes "r \<in> set rules"
  obtains "r \<in> set front_rules" | c where "r = keyword (mnemonic c) (T_OPC c)" | "r \<in> set back_rules"
  using assms by (auto simp: rules_def)

lemma after_digits: "\<not> is_digit c \<Longrightarrow> c \<noteq> 92 \<Longrightarrow> 92 \<notin> set w \<Longrightarrow>
  dropWhile is_digit (w @ c # v) \<noteq> [] \<and> hd (dropWhile is_digit (w @ c # v)) \<noteq> 92"
  by (induction w) auto

lemma doubl_blank: "stops c \<Longrightarrow> 92 \<notin> set w \<Longrightarrow> \<not> doubl (w @ c # v)"
  using after_digits [of c w v] stops_chars [of c] by (auto simp: doubl_def split: list.splits)

lemma back_bounded:
  assumes c: "stops c" and r: "r \<in> set back_rules"
  shows "longest (fst r) (x # w @ c # s) \<le> length (x # w)"
proof -
  have "c \<notin> set (ascii ''EOF'')" using c by (auto simp: ascii_def stops_def NEWLINE_def)
  then have "longest (\<lambda>v. v = ascii ''EOF'') (x # w @ c # s) \<le> length (x # w)"
    using longest_fixed [of c "ascii ''EOF''" "x # w" s] by simp
  moreover have "longest ident (x # w @ c # s) \<le> length (x # w)"
    using longest_short [of ident "x # w" c s] no_stop_inside(3) [OF c, of "x # w"] by simp
  moreover have "longest (\<lambda>v. length v = 1 \<and> hd v \<noteq> NEWLINE) (x # w @ c # s) \<le> length (x # w)"
    unfolding longest_any by simp
  ultimately show ?thesis using r by (auto simp only: back_rules_def list.set insert_iff empty_iff fst_conv)
qed

lemma mnemonic_bounded: "stops y \<Longrightarrow> longest (fst (keyword (mnemonic c) t)) (w @ y # s) \<le> length w"
proof -
  assume "stops y"
  then have "y \<notin> set (ascii (mnemonic c))"
    using mnemonic_chars [of c] stops_chars [of y] by (auto simp: list_all_iff word_char_def)
  from longest_fixed [OF this] show ?thesis by (simp add: keyword_def)
qed

text \<open>No rule goes on behind the word: the patterns that admit a stops character do not begin like it.\<close>

definition closed :: "byte \<Rightarrow> byte \<Rightarrow> cstring \<Rightarrow> bool" where
  "closed c x w \<longleftrightarrow> stops c \<and> x \<notin> {35, NEWLINE, 32} \<and> (\<forall>v. \<not> doubl (x # w @ c # v)) \<and> (\<forall>v. \<not> str_pat (x # w @ c # v))"

lemma closed_plain: "stops c \<Longrightarrow> x \<notin> {35, NEWLINE, 32, QUOTE} \<Longrightarrow> 92 \<notin> set (x # w) \<Longrightarrow> closed c x w"
  using doubl_blank [of c "x # w"] by (simp add: closed_def str_pat_def)

lemma fixed_texts:
  assumes "stops c" and "k \<in> set [''.def'', ''.obj'', ''.any'', ''.num'', ''.str'', ''{'', '':'', ''}'']"
  shows "c \<notin> set (ascii k) \<or> length k = 1"
proof -
  have "list_all (\<lambda>k. list_all (\<lambda>c. c \<notin> set (ascii k) \<or> length k = 1) [32, NEWLINE, 35, 58, 123, 125])
     [''.def'', ''.obj'', ''.any'', ''.num'', ''.str'', ''{'', '':'', ''}'']"
    by code_simp
  moreover have "c \<in> set [32, NEWLINE, 35, 58, 123, 125]" using assms(1) by (simp add: stops_def)
  ultimately show ?thesis using assms(2) unfolding list_all_iff by blast
qed

lemma bounded:
  assumes cl: "closed c x w" and r: "r \<in> set rules"
  shows "longest (fst r) (x # w @ c # s) \<le> length (x # w)"
  using r
proof (cases rule: rules_cases)
  case front
  have c: "stops c" and x: "x \<notin> {35, NEWLINE, 32}" using cl by (auto simp: closed_def)
  have "longest (fst (keyword k t)) (x # w @ c # s) \<le> length (x # w)" if "c \<notin> set (ascii k) \<or> length k = 1" for k t
    using that
  proof
    assume "c \<notin> set (ascii k)"
    from longest_fixed [OF this, of "x # w" s] show ?thesis by (simp add: keyword_def)
  qed (auto simp: keyword_def longest_eq ascii_def)
  moreover have "c \<notin> set (ascii k) \<or> length k = 1" if "k \<in> {''.def'', ''.obj'', ''.any'', ''.num'', ''.str'', ''{'', '':'', ''}''}" for k
    using fixed_texts [OF c, of k] that unfolding list.set by blast
  moreover have "longest doubl (x # w @ c # s) \<le> length (x # w)" "longest str_pat (x # w @ c # s) \<le> length (x # w)"
    using longest_short [of doubl "x # w" c s] longest_short [of str_pat "x # w" c s] cl by (simp_all add: closed_def)
  moreover have "longest integ (x # w @ c # s) \<le> length (x # w)" "longest reg_pat (x # w @ c # s) \<le> length (x # w)"
    using longest_short [of integ "x # w" c s] longest_short [of reg_pat "x # w" c s] no_stop_inside(1,2) [OF c, of "x # w"]
    by simp_all
  moreover have "longest (\<lambda>v. v = [NEWLINE]) (x # w @ c # s) = 0"
    using x by (intro longest_0) simp
  ultimately show ?thesis
    using front x unfolding front_rules_def by (auto simp: no_start)
next
  case (opcode d)
  then show ?thesis using mnemonic_bounded [of c d _ "x # w" s] cl by (simp add: closed_def)
next
  case last
  then show ?thesis using back_bounded [of c r x w s] cl by (simp add: closed_def)
qed

text \<open>The texts of the tokens; several for numbers.\<close>

fun spells :: "cstring \<Rightarrow> token \<Rightarrow> bool" where
  "spells w (T_REG r) \<longleftrightarrow> reg_pat w \<and> int_token T_REG (tl w) = T_REG r"
| "spells w (T_NUM v) \<longleftrightarrow> digits_pat w \<and> v = w"
| "spells w (T_STR v) \<longleftrightarrow> str_pat w \<and> v = w"
| "spells w (T_IMM v) \<longleftrightarrow> integ w \<and> \<not> digits_pat w \<and> int_token T_IMM w = T_IMM v"
| "spells w T_FUNCTION_KEYW \<longleftrightarrow> w = ascii ''.def''"
| "spells w T_OBJ_KEYW \<longleftrightarrow> w = ascii ''.obj''"
| "spells w T_STR_KEYW \<longleftrightarrow> w = ascii ''.str''"
| "spells w T_NUM_KEYW \<longleftrightarrow> w = ascii ''.num''"
| "spells w T_ANY_KEYW \<longleftrightarrow> w = ascii ''.any''"
| "spells w (T_IDENTIFIER n) \<longleftrightarrow> ident w \<and> \<not> reg_pat w \<and> (\<forall>c \<in> set opcodes. w \<noteq> ascii (mnemonic c)) \<and> w \<noteq> ascii ''EOF'' \<and> n = w"
| "spells w T_B_BEGIN \<longleftrightarrow> w = ascii ''{''"
| "spells w T_COLON \<longleftrightarrow> w = ascii '':''"
| "spells w T_B_END \<longleftrightarrow> w = ascii ''}''"
| "spells w (T_OPC c) \<longleftrightarrow> w = ascii (mnemonic c)"
| "spells w T_UNKNOWN \<longleftrightarrow> False"
| "spells w T_OVERFLOW \<longleftrightarrow> False"

text \<open>The rule of a token, with the rules before it.\<close>

definition rule_at :: "nat \<Rightarrow> lex_rule" where
  "rule_at k = rules ! k"

lemma rules_split: "k < length rules \<Longrightarrow> rules = take k rules @ rule_at k # drop (Suc k) rules"
  by (simp add: rule_at_def id_take_nth_drop)

lemma scan_rule:
  assumes "k < length rules" and "rule_at k = (P, False, act)" and "closed c x w"
    and "P (x # w)" and "\<And>r. r \<in> set (take k rules) \<Longrightarrow> \<not> fst r (x # w)"
  shows "scan (x # w @ c # s) = (length (x # w), act (x # w))"
proof -
  have r: "rules = take k rules @ (P, False, act) # drop (Suc k) rules"
    using rules_split [OF assms(1)] assms(2) by simp
  have "longest (fst r) ((x # w) @ c # s) \<le> length (x # w)" if "r \<in> set rules" for r
    using bounded [OF assms(3) that, of s] by simp
  from scan_word [OF r, of "x # w" "c # s"] this assms(4,5) show ?thesis by simp
qed

lemma length_front [simp]: "length front_rules = 16"
  by (simp add: front_rules_def)

lemma length_back [simp]: "length back_rules = 3"
  by (simp add: back_rules_def)

lemma length_rules: "length rules = 19 + length opcodes"
  by (simp add: rules_def)

lemma front_take: "k \<le> 16 \<Longrightarrow> take k rules = take k front_rules"
  by (simp add: rules_def)

lemma front_at: "k < 16 \<Longrightarrow> rule_at k = front_rules ! k"
  by (simp add: rule_at_def rules_def nth_append)

definition unmatched :: "nat \<Rightarrow> cstring \<Rightarrow> bool" where
  "unmatched j w \<longleftrightarrow> list_all (\<lambda>r. \<not> fst r w) (take j front_rules)"

lemma scan_front:
  assumes "j < 16" and "front_rules ! j = (P, False, act)" and "closed c x w" and "P (x # w)" and "unmatched j (x # w)"
  shows "scan (x # w @ c # s) = (length (x # w), act (x # w))"
proof (rule scan_rule [of j P act c x w])
  show "j < length rules" using assms(1) by (simp add: length_rules)
  show "rule_at j = (P, False, act)" using assms(1,2) by (simp add: front_at)
  show "closed c x w" "P (x # w)" by (rule assms)+
  show "\<not> fst r (x # w)" if "r \<in> set (take j rules)" for r
    using that assms(1,5) by (simp add: front_take unmatched_def list_all_iff)
qed

lemma scan_keyword:
  assumes "stops c" and "j < 16" and "front_rules ! j = keyword k t"
    and "unmatched j (ascii k)" and "ascii k \<noteq> []" and "hd (ascii k) \<notin> {35, NEWLINE, 32, QUOTE}" and "92 \<notin> set (ascii k)"
  shows "scan (ascii k @ c # s) = (length (ascii k), Return t)"
proof -
  obtain x w where w: "ascii k = x # w" using assms(5) by (cases "ascii k") auto
  then have closed: "closed c x w" using closed_plain [OF assms(1), of x w] assms(6,7) by simp
  have rule: "front_rules ! j = ((\<lambda>v. v = x # w), False, \<lambda>_. Return t)" using assms(3) by (simp only: keyword_def w)
  have "unmatched j (x # w)" using assms(4) by (simp only: w)
  from scan_front [OF assms(2) rule closed refl this, of s] show ?thesis by (simp only: w append_Cons)
qed

lemma scan_keywords:
  assumes "stops c"
  shows "scan (ascii ''.def'' @ c # s) = (length (ascii ''.def''), Return T_FUNCTION_KEYW)"
    and "scan (ascii ''.obj'' @ c # s) = (length (ascii ''.obj''), Return T_OBJ_KEYW)"
    and "scan (ascii ''.any'' @ c # s) = (length (ascii ''.any''), Return T_ANY_KEYW)"
    and "scan (ascii ''.num'' @ c # s) = (length (ascii ''.num''), Return T_NUM_KEYW)"
    and "scan (ascii ''.str'' @ c # s) = (length (ascii ''.str''), Return T_STR_KEYW)"
    and "scan (ascii ''{'' @ c # s) = (length (ascii ''{''), Return T_B_BEGIN)"
    and "scan (ascii '':'' @ c # s) = (length (ascii '':''), Return T_COLON)"
    and "scan (ascii ''}'' @ c # s) = (length (ascii ''}''), Return T_B_END)"
         apply (rule scan_keyword [OF assms, of 3]; (simp add: front_rules_def; fail)?; code_simp?)
        apply (rule scan_keyword [OF assms, of 4]; (simp add: front_rules_def; fail)?; code_simp?)
       apply (rule scan_keyword [OF assms, of 5]; (simp add: front_rules_def; fail)?; code_simp?)
      apply (rule scan_keyword [OF assms, of 6]; (simp add: front_rules_def; fail)?; code_simp?)
     apply (rule scan_keyword [OF assms, of 7]; (simp add: front_rules_def; fail)?; code_simp?)
    apply (rule scan_keyword [OF assms, of 8]; (simp add: front_rules_def; fail)?; code_simp?)
   apply (rule scan_keyword [OF assms, of 9]; (simp add: front_rules_def; fail)?; code_simp?)
  apply (rule scan_keyword [OF assms, of 10]; (simp add: front_rules_def; fail)?; code_simp?)
  done

lemma scan_NUM:
  assumes "stops c" and w: "digits_pat w"
  shows "scan (w @ c # s) = (length w, Return (T_NUM w))"
proof -
  obtain x u where u: "w = x # u" "is_digit x" "list_all is_digit u" using w by (cases w) (auto simp: digits_pat_def)
  have "92 \<notin> set w" "x \<notin> {35, NEWLINE, 32, QUOTE}"
    using u by (auto simp: list_all_iff is_digit_def NEWLINE_def QUOTE_def)
  moreover have "unmatched 11 w"
    using u(2) by (auto simp: unmatched_def front_rules_def u(1) at_eol_def comment_pat_def keyword_def ascii_def NEWLINE_def is_digit_def)
  moreover have all: "dropWhile is_digit u = []" using u(3) by (simp add: list_all_iff)
  have "doubl w" using u(2) by (simp add: doubl_def u(1) all)
  ultimately show ?thesis
    using scan_front [of 11 doubl "\<lambda>w. Return (T_NUM w)" c x u s] closed_plain [OF assms(1), of x u]
    by (simp add: u(1) front_rules_def)
qed

lemma scan_STR:
  assumes w: "str_pat w"
  shows "scan (w @ NEWLINE # s) = (length w, Return (T_STR w))"
proof -
  obtain u where u: "w = QUOTE # u" "u \<noteq> []" "last u = QUOTE" "NEWLINE \<notin> set (butlast u)"
    using w by (cases w) (auto simp: str_pat_def)
  have "\<not> str_pat (QUOTE # u @ NEWLINE # v)" for v
    by (cases v) (auto simp: str_pat_def QUOTE_def NEWLINE_def butlast_append)
  then have "closed NEWLINE QUOTE u"
    by (simp add: closed_def doubl_def stops_def QUOTE_def NEWLINE_def is_digit_def)
  moreover have "unmatched 12 w"
    by (auto simp: unmatched_def front_rules_def u(1) at_eol_def comment_pat_def keyword_def ascii_def NEWLINE_def QUOTE_def
        doubl_def is_digit_def)
  ultimately show ?thesis
    using scan_front [of 12 str_pat "\<lambda>w. Return (T_STR w)" NEWLINE QUOTE u s] w
    by (simp add: u(1) front_rules_def)
qed

lemma scan_IMM:
  assumes "stops c" and w: "integ w" "\<not> digits_pat w"
  shows "scan (w @ c # s) = (length w, Return (int_token T_IMM w))"
proof -
  obtain x u where u: "w = x # u" "x = 43 \<or> x = 45" "list_all is_digit u"
    using w by (cases w) (auto simp: integ_def digits_pat_def split: if_splits)
  have "92 \<notin> set w" "x \<notin> {35, NEWLINE, 32, QUOTE}"
    using u by (auto simp: list_all_iff is_digit_def NEWLINE_def QUOTE_def)
  moreover have "unmatched 14 w"
    using u(2) by (auto simp: unmatched_def front_rules_def u(1) at_eol_def comment_pat_def keyword_def ascii_def NEWLINE_def QUOTE_def
        doubl_def is_digit_def str_pat_def)
  ultimately show ?thesis
    using scan_front [of 14 integ "\<lambda>w. Return (int_token T_IMM w)" c x u s] closed_plain [OF assms(1), of x u] w(1)
    by (simp add: u(1) front_rules_def)
qed

lemma scan_REG:
  assumes "stops c" and w: "reg_pat w"
  shows "scan (w @ c # s) = (length w, Return (int_token T_REG (tl w)))"
proof -
  obtain u where u: "w = 114 # u" "integ u" using w by (cases w) (auto simp: reg_pat_def)
  have "92 \<notin> set u" using u(2) by (cases u) (auto simp: integ_def digits_pat_def list_all_iff is_digit_def split: if_splits)
  moreover have "unmatched 15 w"
    by (auto simp: unmatched_def front_rules_def u(1) at_eol_def comment_pat_def keyword_def ascii_def NEWLINE_def QUOTE_def
        doubl_def is_digit_def str_pat_def integ_def digits_pat_def)
  ultimately show ?thesis
    using scan_front [of 15 reg_pat "\<lambda>w. Return (int_token T_REG (tl w))" c 114 u s] closed_plain [OF assms(1), of 114 u] w
    by (simp add: u(1) front_rules_def NEWLINE_def QUOTE_def)
qed

text \<open>Words: mnemonics and identifiers.\<close>

lemma word_start:
  assumes "is_letter x" "list_all word_char w" "stops c"
  shows "closed c x w" "unmatched 15 (x # w)"
proof -
  have x: "x \<notin> {35, 10, 32, QUOTE, 46, 123, 58, 125, 43, 45}"
    using assms(1) by (auto simp: is_letter_def QUOTE_def)
  have "\<not> is_digit x"
    using assms(1) by (auto simp: is_letter_def is_digit_def word_le_nat_alt)
  have "92 \<notin> set (x # w)"
    using assms(1,2) by (auto simp: list_all_iff word_char_def is_letter_def is_digit_def)
  with x show "closed c x w" by (intro closed_plain [OF assms(3)]) (auto simp: NEWLINE_def)
  show "unmatched 15 (x # w)"
    using x \<open>\<not> is_digit x\<close> by (auto simp: unmatched_def front_rules_def at_eol_def comment_pat_def keyword_def ascii_def NEWLINE_def
        doubl_def str_pat_def integ_def digits_pat_def)
qed

lemma unmatched_16: "unmatched 16 w \<longleftrightarrow> unmatched 15 w \<and> \<not> reg_pat w"
  by (simp add: unmatched_def front_rules_def)

lemma scan_later:
  assumes "16 \<le> j" "j < length rules" and "rule_at j = (P, False, act)" and "stops c" "is_letter x" "list_all word_char w"
    and "\<not> reg_pat (x # w)" and "P (x # w)"
    and "\<And>r. r \<in> set (take (j - 16) (map (\<lambda>c. keyword (mnemonic c) (T_OPC c)) opcodes @ back_rules)) \<Longrightarrow> \<not> fst r (x # w)"
  shows "scan (x # w @ c # s) = (length (x # w), act (x # w))"
proof (rule scan_rule [OF assms(2,3) _ assms(8)])
  show "closed c x w" by (rule word_start) (use assms in simp_all)
  have "unmatched 16 (x # w)" using word_start(2) [OF assms(5,6,4)] assms(7) by (simp add: unmatched_16)
  then show "\<not> fst r (x # w)" if "r \<in> set (take j rules)" for r
    using that assms(1) assms(9) [of r] by (auto simp: rules_def unmatched_def list_all_iff)
qed

lemma mnemonic_no_reg: "\<not> reg_pat (ascii (mnemonic c))"
  by (cases c) (simp_all add: ascii_def reg_pat_def integ_def digits_pat_def is_digit_def)

lemma scan_OPC:
  assumes "stops c"
  shows "scan (ascii (mnemonic d) @ c # s) = (length (ascii (mnemonic d)), Return (T_OPC d))"
proof -
  obtain i where i: "i < length opcodes" "opcodes ! i = d" using opcode_in_opcodes by (metis in_set_conv_nth)
  obtain x w where w: "ascii (mnemonic d) = x # w"
    using mnemonic_chars [of d] by (cases "ascii (mnemonic d)") (auto simp: ascii_def)
  have rule: "rule_at (16 + i) = ((\<lambda>v. v = x # w), False, \<lambda>_. Return (T_OPC d))"
    using i by (simp add: rule_at_def rules_def nth_append keyword_def w)
  have earlier: "\<not> fst r (x # w)"
    if "r \<in> set (take i (map (\<lambda>c. keyword (mnemonic c) (T_OPC c)) opcodes @ back_rules))" for r
  proof -
    from that i(1) obtain e where e: "r = keyword (mnemonic e) (T_OPC e)" "e \<in> set (take i opcodes)"
      by (auto simp: take_map)
    then have "e \<noteq> d" using distinct_opcodes i by (auto simp: in_set_conv_nth nth_eq_iff_index_eq)
    then show ?thesis using mnemonic_inject [of d e] by (auto simp: e(1) keyword_def w)
  qed
  have "scan (x # w @ c # s) = (length (x # w), Return (T_OPC d))"
    using mnemonic_chars [of d] mnemonic_no_reg [of d] i(1) earlier
    by (intro scan_later [OF _ _ rule assms]) (simp_all add: w length_rules)
  then show ?thesis by (simp only: w append_Cons)
qed

lemma scan_IDENTIFIER:
  assumes "stops c" and w: "ident w" "\<not> reg_pat w" "\<forall>d \<in> set opcodes. w \<noteq> ascii (mnemonic d)" "w \<noteq> ascii ''EOF''"
  shows "scan (w @ c # s) = (length w, Return (T_IDENTIFIER w))"
proof -
  obtain x u where u: "w = x # u" "is_letter x" "list_all word_char u"
    using w(1) by (cases w) (auto simp: ident_def word_char_def list_all_iff)
  have rule: "rule_at (17 + length opcodes) = (ident, False, \<lambda>w. Return (T_IDENTIFIER w))"
    by (simp add: rule_at_def rules_def nth_append back_rules_def)
  have "\<not> fst r (x # u)"
    if "r \<in> set (take (Suc (length opcodes)) (map (\<lambda>c. keyword (mnemonic c) (T_OPC c)) opcodes @ back_rules))" for r
    using that w(3,4) by (auto simp: back_rules_def keyword_def u(1))
  then have "scan (x # u @ c # s) = (length (x # u), Return (T_IDENTIFIER (x # u)))"
    using u w by (intro scan_later [OF _ _ rule assms(1)]) (simp_all add: length_rules)
  then show ?thesis by (simp only: u(1) append_Cons)
qed

lemma scan_token:
  assumes "spells w t" and "stops c" and "\<And>v. t = T_STR v \<Longrightarrow> c = NEWLINE"
  shows "scan (w @ c # s) = (length w, Return t)" and "w \<noteq> []" and "t \<noteq> T_UNKNOWN"
proof -
  show "scan (w @ c # s) = (length w, Return t)"
    using assms by (cases t)
      (simp_all add: scan_keywords scan_NUM scan_STR scan_IMM scan_REG scan_OPC scan_IDENTIFIER)
  show "w \<noteq> []" using assms(1) mnemonic_chars
    by (cases t) (auto simp: reg_pat_def digits_pat_def str_pat_def integ_def ident_def ascii_def)
  show "t \<noteq> T_UNKNOWN" using assms(1) by auto
qed

lemma lex_token:
  assumes "spells w t" and "stops c" and "\<And>v. t = T_STR v \<Longrightarrow> c = NEWLINE"
  shows "lex (w @ c # s) = t # lex (c # s)"
proof -
  have "max 1 (length w) = length w" using scan_token(2) [OF assms(1,2)] assms(3) by (cases w) auto
  then show ?thesis using scan_token(1,3) [OF assms] by (subst lex.simps) simp
qed

subsection \<open>Gaps\<close>

text \<open>What may stand between two tokens, in any number.\<close>

datatype gap = Blank | Break | Remark cstring

fun gap_text :: "gap \<Rightarrow> cstring" where
  "gap_text Blank = [32]"
| "gap_text Break = [NEWLINE]"
| "gap_text (Remark u) = 35 # u @ [NEWLINE]"

fun wf_gap :: "gap \<Rightarrow> bool" where
  "wf_gap (Remark u) \<longleftrightarrow> NEWLINE \<notin> set u"
| "wf_gap _ \<longleftrightarrow> True"

definition gaps_text :: "gap list \<Rightarrow> cstring" where
  "gaps_text gs = concat (map gap_text gs)"

lemma longest_other: "k \<noteq> [] \<Longrightarrow> hd k \<noteq> x \<Longrightarrow> longest (\<lambda>v. v = k) (x # s) = 0"
  by (rule longest_0) auto

lemma keyword_other: "ascii k \<noteq> [] \<Longrightarrow> hd (ascii k) \<noteq> x \<Longrightarrow> longest (fst (keyword k t)) (x # s) = 0"
  by (simp add: keyword_def longest_other)

lemma gap_rules:
  assumes x: "x \<in> {NEWLINE, 32, 35}" and r: "r \<in> set rules"
  shows "longest (fst r) (x # s) \<le> 1 \<or> x = 35 \<and> r \<in> set (take 2 front_rules) \<or> x = 32 \<and> r = front_rules ! 13"
  using r
proof (cases rule: rules_cases)
  case front
  have n: "longest (\<lambda>v. v = [NEWLINE]) (x # s) \<le> 1" by (simp add: longest_eq)
  have k: "longest (fst (keyword k t)) (x # s) = 0"
    if "k \<in> {''.def'', ''.obj'', ''.any'', ''.num'', ''.str'', ''{'', '':'', ''}''}" for k t
    by (rule keyword_other) (use that x in \<open>auto simp: ascii_def NEWLINE_def\<close>)
  have e: "longest doubl (x # s) = 0" "longest str_pat (x # s) = 0" "longest integ (x # s) = 0" "longest reg_pat (x # s) = 0"
    using x by (auto intro!: no_start simp: is_digit_def NEWLINE_def QUOTE_def)
  let ?F = front_rules and ?low = "\<lambda>r :: lex_rule. longest (fst r) (x # s) \<le> 1"
  have other: "list_all ?low (take 11 (drop 2 ?F) @ drop 14 ?F)"
    by (simp add: front_rules_def n [unfolded One_nat_def] e k)
  have comments: "x \<noteq> 35 \<Longrightarrow> list_all ?low (take 2 ?F)" and spaces: "x \<noteq> 32 \<Longrightarrow> ?low (?F ! 13)"
    by (simp_all add: front_rules_def no_start)
  have "?F = take 2 ?F @ take 11 (drop 2 ?F) @ ?F ! 13 # drop 14 ?F"
    by (simp add: front_rules_def)
  from arg_cong [OF this, of set] front
  have "r \<in> set (take 2 ?F) \<or> r \<in> set (take 11 (drop 2 ?F) @ drop 14 ?F) \<or> r = ?F ! 13" by auto
  then show ?thesis using other comments spaces unfolding list_all_iff by blast
next
  case (opcode d)
  have "is_letter (hd (ascii (mnemonic d)))" "ascii (mnemonic d) \<noteq> []" using mnemonic_chars [of d] by (auto simp: ascii_def)
  moreover have "\<not> is_letter x" using x by (auto simp: is_letter_def NEWLINE_def)
  ultimately show ?thesis using keyword_other [of "mnemonic d" x _ s] by (cases "hd (ascii (mnemonic d)) = x") (simp_all add: opcode)
next
  case last
  have "longest (\<lambda>v. v = ascii ''EOF'') (x # s) = 0" "longest ident (x # s) = 0"
    using x by (auto intro!: longest_other no_start simp: is_letter_def NEWLINE_def ascii_def)
  then have "list_all (\<lambda>r. longest (fst r) (x # s) \<le> 1) back_rules"
    using longest_any [of x s] by (simp add: back_rules_def del: One_nat_def)
  then show ?thesis using last by (simp add: list_all_iff)
qed

lemma scan_at:
  assumes j: "j < length rules" "rule_at j = (P, trail, act)" and n: "n = longest P s" "0 < n"
    and "\<And>r. r \<in> set (take j rules) \<Longrightarrow> longest (fst r) s < n" and "\<And>r. r \<in> set rules \<Longrightarrow> longest (fst r) s \<le> n"
  shows "scan s = (let k = (if trail then n - 1 else n) in (k, act (take k s)))"
proof -
  have r: "rules = take j rules @ (P, trail, act) # drop (Suc j) rules"
    using rules_split [OF j(1)] j(2) by simp
  have "longest (fst r) s \<le> n" if "r \<in> set (drop (Suc j) rules)" for r
    by (rule assms(6)) (rule in_set_dropD [OF that])
  with best_wins [OF n, of "take j rules" "drop (Suc j) rules" trail act] assms(5) show ?thesis
    unfolding scan_def r [symmetric] by simp
qed

lemma scan_break: "scan (NEWLINE # s) = (1, Skip)"
proof -
  have "longest (at_eol comment_pat) (NEWLINE # s) = 0" "longest (at_eol (\<lambda>v. v = [35])) (NEWLINE # s) = 0"
    by (rule no_start; simp add: NEWLINE_def)+
  then have p: "longest (fst r) (NEWLINE # s) < 1" if "r \<in> set (take 2 rules)" for r
    using that by (auto simp: front_take front_rules_def numeral_2_eq_2)
  have a: "longest (fst r) (NEWLINE # s) \<le> 1" if "r \<in> set rules" for r
    using gap_rules [OF _ that, of NEWLINE s] by (auto simp: NEWLINE_def)
  have n: "1 = longest (\<lambda>v. v = [NEWLINE]) (NEWLINE # s)" by (simp add: longest_eq)
  have r: "rule_at 2 = ((\<lambda>v. v = [NEWLINE]), False, \<lambda>_. Skip)" by (simp add: front_at front_rules_def)
  show ?thesis using scan_at [OF _ r n _ p a] by (simp add: length_rules)
qed

lemma scan_spaces: "scan (32 # s) = (Suc (length (takeWhile (\<lambda>c. c = 32) s)), Skip)"
proof -
  let ?P = "\<lambda>v :: cstring. v \<noteq> [] \<and> list_all (\<lambda>c. c = 32) v" and ?n = "Suc (length (takeWhile (\<lambda>c. c = 32) s))"
  have t: "take ?n (32 # s) = 32 # takeWhile (\<lambda>c. c = 32) s"
    by (simp add: takeWhile_eq_take [symmetric])
  have "?n \<le> longest ?P (32 # s)"
  proof (rule longest_at_least)
    show "?P (take ?n (32 # s))" unfolding t by (auto simp: list_all_iff dest: set_takeWhileD)
    show "?n \<le> length (32 # s)" by (simp add: length_takeWhile_le)
  qed
  moreover have "longest ?P (32 # s) \<le> ?n"
  proof (rule longest_upto)
    fix m assume m: "?n < m" "m \<le> length (32 # s)"
    then have l: "length (takeWhile (\<lambda>c. c = 32) s) < length s" by simp
    have "s ! length (takeWhile (\<lambda>c. c = 32) s) \<in> set (take (m - 1) s)"
      using m by (auto simp: in_set_conv_nth intro!: exI [of _ "length (takeWhile (\<lambda>c. c = 32) s)"])
    then have "\<exists>c \<in> set (take (m - 1) s). c \<noteq> 32" using nth_length_takeWhile [OF l] by blast
    then show "\<not> ?P (take m (32 # s))" using m by (auto simp: take_Cons' list_all_iff)
  qed
  ultimately have n: "?n = longest ?P (32 # s)" by simp
  have "longest (at_eol comment_pat) (32 # s) = 0" "longest (at_eol (\<lambda>v. v = [35])) (32 # s) = 0"
    "longest doubl (32 # s) = 0" "longest str_pat (32 # s) = 0" "longest (\<lambda>v. v = [NEWLINE]) (32 # s) = 0"
    by (simp_all add: no_start longest_other is_digit_def QUOTE_def NEWLINE_def)
  moreover have k: "longest (fst (keyword k t)) (32 # s) = 0"
    if "k \<in> {''.def'', ''.obj'', ''.any'', ''.num'', ''.str'', ''{'', '':'', ''}''}" for k t
    by (rule keyword_other) (use that in \<open>auto simp: ascii_def\<close>)
  ultimately have "list_all (\<lambda>r. longest (fst r) (32 # s) < ?n) (take 13 front_rules)"
    by (simp add: front_rules_def k)
  then have p: "longest (fst r) (32 # s) < ?n" if "r \<in> set (take 13 rules)" for r
    using that by (simp add: front_take list_all_iff)
  have a: "longest (fst r) (32 # s) \<le> ?n" if "r \<in> set rules" for r
    using gap_rules [OF _ that, of 32 s] n by (auto simp: front_rules_def)
  have r: "rule_at 13 = (?P, False, \<lambda>_. Skip)" by (simp add: front_at front_rules_def)
  show ?thesis using scan_at [OF _ r n _ p a] by (simp add: length_rules)
qed

lemma longest_eol:
  assumes u: "NEWLINE \<notin> set u" and P: "\<And>w. P w \<Longrightarrow> NEWLINE \<notin> set w"
  shows "longest (at_eol P) (u @ NEWLINE # s) = (if P u then Suc (length u) else 0)"
proof -
  have only: "m = Suc (length u) \<and> P u" if m: "0 < m" "m \<le> length (u @ NEWLINE # s)" "at_eol P (take m (u @ NEWLINE # s))" for m
  proof -
    consider "m \<le> length u" | "m = Suc (length u)" | k where "m = length u + 2 + k" by atomize_elim presburger
    then show ?thesis
    proof cases
      case 1
      then have "last (take m u) = NEWLINE" "take m u \<noteq> []" using m by (auto simp: at_eol_def)
      then have "NEWLINE \<in> set u" by (metis in_set_takeD last_in_set)
      then show ?thesis using u by simp
    next
      case 2
      then show ?thesis using m by (simp add: at_eol_def)
    next
      case 3
      then have t: "take m (u @ NEWLINE # s) = u @ NEWLINE # take (Suc k) s" "take (Suc k) s \<noteq> []" using m(2) by auto
      then have "NEWLINE \<in> set (butlast (take m (u @ NEWLINE # s)))" by (simp add: butlast_append)
      then show ?thesis using P m(3) by (auto simp: at_eol_def)
    qed
  qed
  show ?thesis
  proof (cases "P u")
    case True
    have "longest (at_eol P) (u @ NEWLINE # s) \<le> Suc (length u)"
    proof (rule longest_upto)
      fix m assume "Suc (length u) < m" "m \<le> length (u @ NEWLINE # s)"
      then show "\<not> at_eol P (take m (u @ NEWLINE # s))" using only [of m] by auto
    qed
    moreover have "Suc (length u) \<le> longest (at_eol P) (u @ NEWLINE # s)"
      by (rule longest_at_least) (simp_all add: at_eol_def True)
    ultimately show ?thesis using True by simp
  next
    case False
    have "longest (at_eol P) (u @ NEWLINE # s) \<le> 0" by (rule longest_upto) (use only False in auto)
    then show ?thesis using False by simp
  qed
qed

lemma comment_line: "comment_pat w \<Longrightarrow> NEWLINE \<notin> set w"
  by (auto simp: comment_pat_def NEWLINE_def split: list.splits)

lemma scan_comment:
  assumes u: "NEWLINE \<notin> set u"
  shows "scan (35 # u @ NEWLINE # s) = (Suc (length u), Skip)"
proof -
  let ?s = "35 # u @ NEWLINE # s" and ?j = "if u = [] then 1 else 0 :: nat"
  have l: "longest (at_eol comment_pat) ?s = (if u = [] then 0 else length u + 2)"
    "longest (at_eol (\<lambda>v. v = [35])) ?s = (if u = [] then 2 else 0)"
    using u longest_eol [of "35 # u" comment_pat s, OF _ comment_line] longest_eol [of "35 # u" "\<lambda>v. v = [35]" s]
    by (auto simp: NEWLINE_def comment_pat_def)
  have a: "longest (fst r) ?s \<le> length u + 2" if "r \<in> set rules" for r
  proof -
    have "longest (fst q) ?s \<le> length u + 2" if "q \<in> set (take 2 front_rules)" for q
      using that l by (auto simp: front_rules_def)
    moreover have "longest (fst r) ?s \<le> 1 \<or> r \<in> set (take 2 front_rules)"
      using gap_rules [OF _ that, of 35 "u @ NEWLINE # s"] by simp
    ultimately show ?thesis by fastforce
  qed
  have p: "longest (fst r) ?s < length u + 2" if "r \<in> set (take ?j rules)" for r
    using that l by (auto simp: front_take front_rules_def split: if_splits)
  have r: "rule_at ?j = (fst (rule_at ?j), True, \<lambda>_. Skip)" by (simp add: front_at front_rules_def)
  have n: "length u + 2 = longest (fst (rule_at ?j)) ?s" using l by (cases "u = []") (simp_all add: front_at front_rules_def)
  from scan_at [OF _ r n _ p a] show ?thesis by (simp add: length_rules)
qed

lemma lex_skip: "scan s = (n, Skip) \<Longrightarrow> 0 < n \<Longrightarrow> s \<noteq> [] \<Longrightarrow> lex s = lex (drop n s)"
  by (subst lex.simps) (simp add: max_def)

lemma lex_spaces: "lex (dropWhile (\<lambda>c. c = 32) s) = lex s"
proof (cases s)
  case (Cons x u)
  have "drop (length (takeWhile (\<lambda>c. c = 32) u)) u = dropWhile (\<lambda>c. c = 32) u"
    by (rule dropWhile_eq_drop [symmetric])
  with lex_skip [OF scan_spaces [of u]] show ?thesis by (simp add: Cons)
qed simp

lemma lex_gap: "wf_gap g \<Longrightarrow> lex (gap_text g @ s) = lex s"
proof (cases g)
  case Blank
  have "lex (32 # s) = lex (dropWhile (\<lambda>c. c = 32) (32 # s))" by (rule lex_spaces [symmetric])
  also have "\<dots> = lex s" by (simp add: lex_spaces)
  finally show ?thesis by (simp add: Blank)
next
  case Break
  show ?thesis using lex_skip [OF scan_break] by (simp add: Break)
next
  case (Remark u)
  assume "wf_gap g"
  then show ?thesis using lex_skip [OF scan_comment [of u s]] lex_skip [OF scan_break] by (simp add: Remark)
qed

lemma lex_gaps: "list_all wf_gap gs \<Longrightarrow> lex (gaps_text gs @ s) = lex s"
  by (induction gs) (simp_all add: gaps_text_def lex_gap)

subsection \<open>Layouts\<close>

text \<open>A text of tokens: the spelling of each and the gap behind it.\<close>

type_synonym layout = "(token \<times> cstring \<times> gap list) list"

fun layout_text :: "layout \<Rightarrow> cstring" where
  "layout_text [] = []"
| "layout_text ((t, w, gs) # ps) = w @ gaps_text gs @ layout_text ps"

text \<open>What may follow the spelling of a token: a string has the rest of its line for itself.\<close>

definition follows :: "token \<Rightarrow> cstring \<Rightarrow> bool" where
  "follows t s \<longleftrightarrow>
     (case s of
        [] \<Rightarrow> False
      | c # _ \<Rightarrow> (case t of T_STR _ \<Rightarrow> c = NEWLINE | _ \<Rightarrow> stops c))"

fun wf_layout :: "layout \<Rightarrow> bool" where
  "wf_layout [] \<longleftrightarrow> True"
| "wf_layout ((t, w, gs) # ps) \<longleftrightarrow>
     spells w t \<and> list_all wf_gap gs \<and> follows t (gaps_text gs @ layout_text ps) \<and> wf_layout ps"

lemma lex_layout: "wf_layout ps \<Longrightarrow> lex (layout_text ps) = map fst ps"
proof (induction ps)
  case Nil
  show ?case by (subst lex.simps) simp
next
  case (Cons p ps)
  obtain t w gs where p: "p = (t, w, gs)" by (cases p)
  let ?s = "gaps_text gs @ layout_text ps"
  obtain c s where s: "?s = c # s" "stops c" "\<And>v. t = T_STR v \<Longrightarrow> c = NEWLINE"
    using Cons.prems by (cases "?s") (auto simp: p follows_def stops_def split: token.splits)
  have "lex (w @ ?s) = t # lex ?s"
    using lex_token [of w t c s] Cons.prems s by (simp add: p)
  then show ?case using Cons by (simp add: p lex_gaps)
qed

subsection \<open>The scanner always moves\<close>

text \<open>Some rule matches every text, so the \<open>max 1\<close> in \<open>lex\<close> is never used.\<close>

lemma best_consumes:
  assumes "\<And>r. r \<in> set rs \<Longrightarrow> fst (snd r) \<Longrightarrow> longest (fst r) s \<noteq> 1" and "fst b = 0 \<or> 0 < fst (snd b)"
  shows "(let b1 = best rs s b in fst b1 = 0 \<or> 0 < fst (snd b1)) \<and> fst b \<le> fst (best rs s b) \<and>
    (\<forall>r \<in> set rs. longest (fst r) s \<le> fst (best rs s b))"
  using assms
proof (induction rs s b rule: best.induct)
  case (2 P trail act rs s b)
  define n where "n = longest P s"
  define c where "c = (if fst b < n then (n, if trail then n - 1 else n, act (take (if trail then n - 1 else n) s)) else b)"
  have next_c: "best ((P, trail, act) # rs) s b = best rs s c" by (simp add: c_def n_def Let_def)
  have "trail \<Longrightarrow> n \<noteq> 1" using "2.prems"(1) [of "(P, trail, act)"] by (simp add: n_def)
  then have "fst c = 0 \<or> 0 < fst (snd c)" using "2.prems"(2) by (auto simp: c_def)
  moreover have "n \<le> fst c" "fst b \<le> fst c" by (auto simp: c_def)
  ultimately show ?case
    using "2.IH" [OF refl refl, folded n_def, folded c_def] "2.prems"(1) unfolding next_c
    by (fastforce simp: Let_def n_def)
qed (simp add: Let_def)

lemma at_eol_not_1: "\<not> P [] \<Longrightarrow> longest (at_eol P) s \<noteq> 1"
proof
  assume "\<not> P []" and one: "longest (at_eol P) s = 1"
  from longest_matches [of "at_eol P" s] one have "at_eol P (take 1 s)" by simp
  then show False using \<open>\<not> P []\<close> by (cases s) (auto simp: at_eol_def)
qed

lemma scan_consumes: "s \<noteq> [] \<Longrightarrow> 0 < fst (scan s)"
proof -
  assume "s \<noteq> []"
  then obtain x u where s: "s = x # u" by (cases s) auto
  have trail: "longest (fst r) s \<noteq> 1" if "r \<in> set rules" "fst (snd r)" for r
    using that at_eol_not_1 [of comment_pat s] at_eol_not_1 [of "\<lambda>v. v = [35]" s]
    by (auto simp: rules_def front_rules_def back_rules_def keyword_def comment_pat_def)
  have "1 \<le> longest (\<lambda>v. v = [NEWLINE]) s \<or> 1 \<le> longest (\<lambda>v. length v = 1 \<and> hd v \<noteq> NEWLINE) s"
    unfolding s longest_any by (simp add: longest_eq)
  moreover have "((\<lambda>v. v = [NEWLINE]), False, \<lambda>_. Skip) \<in> set rules"
    "((\<lambda>v. length v = 1 \<and> hd v \<noteq> NEWLINE), False, \<lambda>_. Return T_UNKNOWN) \<in> set rules"
    by (simp_all add: rules_def front_rules_def back_rules_def)
  ultimately obtain r where "r \<in> set rules" "1 \<le> longest (fst r) s" by force
  with best_consumes [of rules s "(0, 0, Skip)", OF trail] show ?thesis
    by (fastforce simp: scan_def Let_def)
qed

subsection \<open>Source files\<close>

text \<open>The program of K3s_Toolchain as a file, and a file with registers and a literal.\<close>

definition word :: "token \<Rightarrow> string \<Rightarrow> gap \<Rightarrow> token \<times> cstring \<times> gap list" where
  "word t w g = (t, ascii w, [g])"

abbreviation name_word :: "string \<Rightarrow> gap \<Rightarrow> token \<times> cstring \<times> gap list" where
  "name_word n g \<equiv> word (T_IDENTIFIER (ascii n)) n g"

definition demo_layout :: layout where
  "demo_layout =
     [word T_NUM_KEYW ''.num'' Blank, name_word ''five'' Blank, word (T_NUM (ascii ''5'')) ''5'' Break,
      word T_STR_KEYW ''.str'' Blank, name_word ''hi'' Blank,
      (let w = QUOTE # ascii ''hi'' @ [QUOTE] in (T_STR w, w, [Break, Remark (ascii '' fields'')])),
      word T_OBJ_KEYW ''.obj'' Blank, name_word ''pair'' Blank, word T_B_BEGIN ''{'' Break,
      word T_ANY_KEYW ''.any'' Blank, name_word ''fst'' Break, word T_ANY_KEYW ''.any'' Blank, name_word ''snd'' Break,
      word T_B_END ''}'' Break,
      word T_FUNCTION_KEYW ''.def'' Blank, name_word ''main'' Blank, word T_B_BEGIN ''{'' (Remark []),
      word (T_OPC LDAI) ''ldai'' Blank, name_word ''five'' Break,
      (T_IDENTIFIER (ascii ''loop''), ascii ''loop'', []), word T_COLON '':'' Blank, word (T_OPC DECA) ''deca'' Break,
      word (T_OPC BNE) ''bne'' Blank, name_word ''loop'' Break, word (T_OPC JUMP) ''jump'' Blank, name_word ''out'' Break,
      (T_IDENTIFIER (ascii ''out''), ascii ''out'', []), word T_COLON '':'' Blank, word (T_OPC RET) ''ret'' Break,
      word T_B_END ''}'' Break]"

lemma demo_layout_ok: "wf_layout demo_layout" "map fst demo_layout = program_tokens demo" "list_all wf_decl demo"
  by code_simp+

lemma demo_processed: "Process (layout_text demo_layout) = Inr demo_asm"
  using demo_layout_ok demo_assembles by (simp add: Process_def lex_layout parse_program assemble_def)

definition small_layout :: layout where
  "small_layout =
     [word T_FUNCTION_KEYW ''.def'' Blank, (T_IDENTIFIER (ascii ''f''), ascii ''f'', []), word T_B_BEGIN ''{'' Blank,
      word (T_OPC MOV) ''mov'' Blank, word (T_REG 3) ''r3'' Blank, word (T_REG 5) ''r+5'' (Remark (ascii ''x'')),
      word (T_OPC JUMP) ''jump'' Blank, (T_IMM (- 2), ascii ''-2'', []), word T_B_END ''}'' Break]"

text \<open>
  C8: The gaps between the tokens of a source file do not matter: a file that spells the tokens of a
  program, with spaces, newlines and comments in between, is assembled like the program.  Two
  conditions are needed (\<open>follows\<close>): every token, the last one included, is followed by a space, a
  newline, a comment, a colon or a brace, and every string literal by a newline, because the rule for
  strings takes everything up to the last quotation mark of the line.
\<close>

theorem layout_does_not_matter:
  assumes "wf_layout ps" and "list_all wf_gap gs" and "map fst ps = program_tokens ds" and "list_all wf_decl ds"
  shows "Process (gaps_text gs @ layout_text ps) = assemble ds"
  using assms by (simp add: Process_def lex_gaps lex_layout parse_program assemble_def)

theorem layout_does_not_matter_witness:
  "Process (gaps_text [Break] @ layout_text small_layout) =
     assemble [DFunc (ascii ''f'') [IRR MOV 3 5, II JUMP (ImmLit (- 2))]]"
  by (rule layout_does_not_matter; code_simp)

text \<open>
  C6: When the assembler accepts a source file and the class file can represent the result (at most
  128 identifiers, no name twice in an object), its \<open>main\<close> writes the class file without an error and
  the runtime loads from it the entry point, the instructions and the constant pool, or reports that it
  is out of memory, exactly when the file with the maps and offsets of its objects (\<open>const_need\<close>) does
  not fit into the constant region behind the first \<open>used\<close> bytes.
\<close>

theorem source_file_round_trip:
  assumes "Process file = Inr a" and "representable a" and "entry_offset a = Inr entry"
  shows "\<exists>bs prog. assembler_main pad file = Inr bs \<and>
    Runtime_LoadClassFile node used bs Create =
      (if CONST_SIZE < used + const_need node a then Inl (Fatal ''ALLOCATOR OOM'')
       else Inr (Create\<lparr>cpool := loaded_pool a, pc := entry, program := prog\<rparr>)) \<and>
    take (length (instructions_buffer a)) prog = instructions_buffer a"
proof -
  from program_parsed [OF assms(1) [unfolded Process_def]] obtain ds where "assemble ds = Inr a"
    by (auto simp: assemble_def)
  from class_file_round_trip [OF this assms(2,3)] show ?thesis by (simp add: assembler_main_def assms(1))
qed

theorem source_file_round_trip_witness:
  "\<exists>bs prog. assembler_main (\<lambda>_ _. 0) (layout_text demo_layout) = Inr bs \<and>
    Runtime_LoadClassFile (\<lambda>_. 400) 20000 bs Create =
      Inr (Create\<lparr>cpool := loaded_pool demo_asm, pc := 0, program := prog\<rparr>) \<and>
    take (length (instructions_buffer demo_asm)) prog = instructions_buffer demo_asm"
  using source_file_round_trip [OF demo_processed demo_representable demo_entry, of "\<lambda>_ _. 0" "\<lambda>_. 400" 20000] demo_room
  by simp

end
