(* ===== verification/K3s_Mark.thy ===== *)
theory K3s_Mark
  imports K3s_GC
begin

text \<open>
  Correctness of marking (allocator/gc_region.cpp, \<open>MarkAndFetchTargetObjects\<close> and below).  On a
  heap whose references are sound, marking ends with the fuel the model gives it, marks exactly the
  objects reachable from the frames, records every marked object of the region once, with the sum
  of their sizes, and records every reference to one of them once; unless the vectors of the records
  do not fit in the collector's region, which \<open>stage_bytes\<close> decides beforehand.
\<close>

subsection \<open>The object graph\<close>

text \<open>The heap without the marks, which is all marking leaves unchanged.\<close>

definition graph :: "vm \<Rightarrow> addr \<Rightarrow> (u64 \<times> addr \<times> body) option" where
  "graph s a = map_option (\<lambda>b. (o_size b, o_reloc b, o_body b)) (map_of (objs s) a)"

definition slots_at :: "vm \<Rightarrow> addr \<Rightarrow> register list" where
  "slots_at s a = (case graph s a of None \<Rightarrow> [] | Some (n, p, b) \<Rightarrow> slots b)"

definition size_at :: "vm \<Rightarrow> addr \<Rightarrow> u64" where
  "size_at s a = (case graph s a of None \<Rightarrow> 0 | Some (n, p, b) \<Rightarrow> n)"

text \<open>A register is primitive or refers to an object of \<open>A\<close> of the class its tag names.\<close>

definition ref_ok :: "vm \<Rightarrow> addr set \<Rightarrow> register \<Rightarrow> bool" where
  "ref_ok s A r \<longleftrightarrow> IsPrimitive r \<or>
     (r_value r \<in> A \<and> (\<exists>n p b. graph s (r_value r) = Some (n, p, b) \<and> body_type b = r_type r))"

definition closed :: "vm \<Rightarrow> addr set \<Rightarrow> bool" where
  "closed s A \<longleftrightarrow> (\<forall>a \<in> A. graph s a \<noteq> None \<and> (\<forall>r \<in> set (slots_at s a). ref_ok s A r))"

text \<open>The objects reachable from a set of registers.\<close>

inductive_set reach :: "vm \<Rightarrow> register set \<Rightarrow> addr set" for s R where
  root: "r \<in> R \<Longrightarrow> \<not> IsPrimitive r \<Longrightarrow> r_value r \<in> reach s R"
| step: "a \<in> reach s R \<Longrightarrow> r \<in> set (slots_at s a) \<Longrightarrow> \<not> IsPrimitive r \<Longrightarrow> r_value r \<in> reach s R"

definition marked :: "vm \<Rightarrow> addr set" where
  "marked s = {a. \<exists>b. map_of (objs s) a = Some b \<and> o_mark b = gc_mark s}"

text \<open>A reference that a collection of pool \<open>N\<close> has to redirect.\<close>

definition into :: "nat \<Rightarrow> register \<Rightarrow> bool" where
  "into N r \<longleftrightarrow> \<not> IsPrimitive r \<and> Contains N (r_value r)"

definition slot_refs :: "nat \<Rightarrow> vm \<Rightarrow> addr set \<Rightarrow> dangling set" where
  "slot_refs N s A = {DSlot h i |h i. h \<in> A \<and> i < length (slots_at s h) \<and> into N (slots_at s h ! i)}"

lemma reach_sub:
  assumes "closed s A" "\<forall>r \<in> R. ref_ok s A r"
  shows "reach s R \<subseteq> A"
proof
  fix a assume "a \<in> reach s R"
  then show "a \<in> A"
    by induction (use assms in \<open>auto simp: ref_ok_def closed_def\<close>)
qed

subsection \<open>The storage of the records\<close>

abbreviation oom :: "'a res" where
  "oom \<equiv> Inl (Fatal ''ALLOCATOR OOM'')"

text \<open>The bytes that \<open>k\<close> additions to a vector of \<open>m\<close> elements take from the region.\<close>

primrec pushed :: "nat \<Rightarrow> nat \<Rightarrow> nat \<Rightarrow> nat" where
  "pushed sz m 0 = 0"
| "pushed sz m (Suc k) = push_bytes sz m + pushed sz (Suc m) k"

lemma pushed_add: "pushed sz m (j + k) = pushed sz m j + pushed sz (m + j) k"
  by (induction j arbitrary: m) simp_all

lemma pushed_mono: "j \<le> k \<Longrightarrow> pushed sz m j \<le> pushed sz m k"
  using pushed_add [of sz m j "k - j"] by simp

lemma push_cases:
  "GCVector_push_back sz n s =
     (if push_bytes sz n = 0 \<or> gc_cursor s + push_bytes sz n \<le> unat GC_INTERNALS_SIZE
      then Inr (s\<lparr>gc_cursor := gc_cursor s + push_bytes sz n\<rparr>) else oom)"
  by (simp add: GCVector_push_back_def internals_alloc_def not_le)

text \<open>
  What the region has to hold when the objects of \<open>A\<close> that are not yet marked are visited and \<open>e\<close>
  further references are recorded.
\<close>

definition need :: "nat \<Rightarrow> addr set \<Rightarrow> nat \<Rightarrow> vm \<Rightarrow> nat" where
  "need N A e s = gc_cursor s +
     pushed sizeof_target (stage_size target_objects s) (card {a \<in> A - marked s. Contains N a}) +
     pushed sizeof_dangling (stage_size references_to_targets s) (card (slot_refs N s (A - marked s)) + e)"

lemma need_mono: "e \<le> e' \<Longrightarrow> need N A e s \<le> need N A e' s"
  by (simp add: need_def pushed_mono)

lemma slot_refs_finite: "finite A \<Longrightarrow> finite (slot_refs N s A)"
proof -
  assume "finite A"
  then have "finite ((\<lambda>(h, i). DSlot h i) ` (SIGMA h:A. {..<length (slots_at s h)}))" by auto
  then show ?thesis by (rule rev_finite_subset) (auto simp: slot_refs_def)
qed

subsection \<open>What a marking step changes\<close>

definition same_but_marks :: "vm \<Rightarrow> vm \<Rightarrow> bool" where
  "same_but_marks s t \<longleftrightarrow> graph t = graph s \<and> t = s\<lparr>objs := objs t, stages := stages t, gc_cursor := gc_cursor t\<rparr> \<and>
     length (objs t) = length (objs s) \<and>
     (\<forall>a b. map_of (objs t) a = Some b \<longrightarrow> map_of (objs s) a = Some b \<or> o_mark b = gc_mark s)"

definition sum_sizes :: "vm \<Rightarrow> addr list \<Rightarrow> u64" where
  "sum_sizes s as = sum_list (map (size_at s) as)"

text \<open>
  \<open>t\<close> is \<open>s\<close> with more objects marked; the objects newly marked are recorded, and so are the
  references of \<open>R\<close>.
\<close>

definition records :: "nat \<Rightarrow> dangling set \<Rightarrow> vm \<Rightarrow> vm \<Rightarrow> bool" where
  "records N R s t \<longleftrightarrow> same_but_marks s t \<and> marked s \<subseteq> marked t \<and>
     (\<exists>st st' rest objs' refs'.
        stages s = st # rest \<and> stages t = st' # rest \<and>
        target_objects st' = objs' @ target_objects st \<and> distinct objs' \<and>
        set objs' = {a \<in> marked t - marked s. Contains N a} \<and>
        estimating_realloc_size st' = estimating_realloc_size st + sum_sizes s objs' \<and>
        references_to_targets st' = refs' @ references_to_targets st \<and> distinct refs' \<and> set refs' = R \<and>
        gc_cursor t = gc_cursor s + pushed sizeof_target (length (target_objects st)) (length objs') +
          pushed sizeof_dangling (length (references_to_targets st)) (length refs') \<and>
        (gc_cursor s \<le> unat GC_INTERNALS_SIZE \<longrightarrow> gc_cursor t \<le> unat GC_INTERNALS_SIZE))"

text \<open>Every newly marked object has its references marked too.\<close>

definition black :: "vm \<Rightarrow> vm \<Rightarrow> bool" where
  "black s t \<longleftrightarrow> (\<forall>a \<in> marked t - marked s. \<forall>r \<in> set (slots_at s a). \<not> IsPrimitive r \<longrightarrow> r_value r \<in> marked t)"

lemma graph_Some: "map_of (objs s) a = Some b \<Longrightarrow> graph s a = Some (o_size b, o_reloc b, o_body b)"
  by (simp add: graph_def)

lemma graph_Some_iff:
  "graph s a = Some (n, p, c) \<longleftrightarrow>
     (\<exists>b. map_of (objs s) a = Some b \<and> o_size b = n \<and> o_reloc b = p \<and> o_body b = c)"
  unfolding graph_def map_option_eq_Some by auto

lemma graph_eq:
  assumes "graph t = graph s"
  shows "slots_at t = slots_at s" "size_at t = size_at s" "ref_ok t = ref_ok s" "closed t = closed s"
    "slot_refs N t = slot_refs N s" "reach t = reach s"
proof -
  show sl: "slots_at t = slots_at s" and "size_at t = size_at s" and r: "ref_ok t = ref_ok s"
    by (simp_all add: fun_eq_iff slots_at_def size_at_def ref_ok_def assms)
  show "closed t = closed s" by (intro ext) (simp add: closed_def assms sl r)
  show "slot_refs N t = slot_refs N s" by (intro ext) (simp add: slot_refs_def sl)
  show "reach t = reach s"
  proof (intro ext set_eqI iffI)
    fix R a
    show "a \<in> reach s R" if "a \<in> reach t R" using that by induction (auto intro: reach.intros simp: sl)
    show "a \<in> reach t R" if "a \<in> reach s R" using that by induction (auto intro: reach.intros simp: sl)
  qed
qed

lemma same_refl: "same_but_marks s s"
  by (simp add: same_but_marks_def)

lemma same_trans:
  assumes "same_but_marks s t" "same_but_marks t u"
  shows "same_but_marks s u"
proof -
  have t: "t = s\<lparr>objs := objs t, stages := stages t, gc_cursor := gc_cursor t\<rparr>"
    and u: "u = t\<lparr>objs := objs u, stages := stages u, gc_cursor := gc_cursor u\<rparr>"
    using assms by (auto simp: same_but_marks_def)
  have "u = s\<lparr>objs := objs u, stages := stages u, gc_cursor := gc_cursor u\<rparr>" using t u by (cases s, cases t, cases u) auto
  moreover have "gc_mark t = gc_mark s" by (subst t) simp
  ultimately show ?thesis using assms unfolding same_but_marks_def by metis
qed

lemma same_fields:
  "same_but_marks s t \<Longrightarrow> gc_mark t = gc_mark s \<and> frames t = frames s \<and> cursors t = cursors s"
  unfolding same_but_marks_def by (cases s, cases t) auto

lemma slot_refs_empty [simp]: "slot_refs N s {} = {}"
  by (simp add: slot_refs_def)

lemma slot_refs_Un: "slot_refs N s (A \<union> B) = slot_refs N s A \<union> slot_refs N s B"
  by (auto simp: slot_refs_def)

lemma records_refl: "stages s \<noteq> [] \<Longrightarrow> records N {} s s"
  by (cases "stages s") (auto simp: records_def same_refl sum_sizes_def)

lemma records_trans:
  assumes st: "records N R1 s t" and tu: "records N R2 t u" and disj: "R1 \<inter> R2 = {}"
  shows "records N (R1 \<union> R2) s u"
proof -
  from st obtain a b rest o1 r1 where same1: "same_but_marks s t" and sub1: "marked s \<subseteq> marked t"
    and S1: "stages s = a # rest" "stages t = b # rest"
      "target_objects b = o1 @ target_objects a" "distinct o1" "set o1 = {a \<in> marked t - marked s. Contains N a}"
      "estimating_realloc_size b = estimating_realloc_size a + sum_sizes s o1"
      "references_to_targets b = r1 @ references_to_targets a" "distinct r1" "set r1 = R1"
      "gc_cursor t = gc_cursor s + pushed sizeof_target (length (target_objects a)) (length o1) +
        pushed sizeof_dangling (length (references_to_targets a)) (length r1)"
      "gc_cursor s \<le> unat GC_INTERNALS_SIZE \<longrightarrow> gc_cursor t \<le> unat GC_INTERNALS_SIZE"
    unfolding records_def by blast
  have g: "graph t = graph s" using same1 by (simp add: same_but_marks_def)
  from tu obtain c o2 r2 where same2: "same_but_marks t u" and sub2: "marked t \<subseteq> marked u"
    and S2: "stages u = c # rest" "target_objects c = o2 @ target_objects b" "distinct o2"
      "set o2 = {a \<in> marked u - marked t. Contains N a}"
      "estimating_realloc_size c = estimating_realloc_size b + sum_sizes s o2"
      "references_to_targets c = r2 @ references_to_targets b" "distinct r2" "set r2 = R2"
      "gc_cursor u = gc_cursor t + pushed sizeof_target (length (target_objects b)) (length o2) +
        pushed sizeof_dangling (length (references_to_targets b)) (length r2)"
      "gc_cursor t \<le> unat GC_INTERNALS_SIZE \<longrightarrow> gc_cursor u \<le> unat GC_INTERNALS_SIZE"
    unfolding records_def sum_sizes_def graph_eq [OF g] S1(2) by auto
  show ?thesis
    unfolding records_def
  proof (intro conjI exI)
    show "same_but_marks s u" using same_trans [OF same1 same2] .
    show "marked s \<subseteq> marked u" using sub1 sub2 by simp
    show "stages s = a # rest" "stages u = c # rest" by fact+
    show "target_objects c = (o2 @ o1) @ target_objects a" using S1 S2 by simp
    show "distinct (o2 @ o1)" "set (o2 @ o1) = {a \<in> marked u - marked s. Contains N a}"
      using S1(4,5) S2(3,4) sub1 sub2 by auto
    show "estimating_realloc_size c = estimating_realloc_size a + sum_sizes s (o2 @ o1)"
      using S1 S2 by (simp add: sum_sizes_def)
    show "references_to_targets c = (r2 @ r1) @ references_to_targets a" using S1 S2 by simp
    show "distinct (r2 @ r1)" "set (r2 @ r1) = R1 \<union> R2" using S1 S2 disj by auto
    show "gc_cursor u = gc_cursor s + pushed sizeof_target (length (target_objects a)) (length (o2 @ o1)) +
        pushed sizeof_dangling (length (references_to_targets a)) (length (r2 @ r1))"
      using S1(3,7,10) S2(2,6,9)
      by (simp add: pushed_add add.commute [of "length o2"] add.commute [of "length r2"])
        (simp add: add.commute [of "length o1"] add.commute [of "length r1"])
    show "gc_cursor s \<le> unat GC_INTERNALS_SIZE \<longrightarrow> gc_cursor u \<le> unat GC_INTERNALS_SIZE" using S1(11) S2(10) by blast
  qed
qed

lemma records_same: "records N R s t \<Longrightarrow> same_but_marks s t"
  and records_marked: "records N R s t \<Longrightarrow> marked s \<subseteq> marked t"
  and records_stages: "records N R s t \<Longrightarrow> stages t \<noteq> []"
  by (auto simp: records_def)

lemma records_graph: "records N R s t \<Longrightarrow> graph t = graph s"
  by (simp add: records_def same_but_marks_def)

text \<open>What is needed for the rest: a recorded object or reference is no longer counted.\<close>

lemma records_need:
  assumes rec: "records N R s t" and A: "marked t \<subseteq> marked s \<union> A" "finite A"
    and R: "card R = card (slot_refs N s (marked t - marked s)) + j"
  shows "need N A e t = need N A (j + e) s"
proof -
  from rec obtain st st' rest o1 r1 where sub: "marked s \<subseteq> marked t" and same: "same_but_marks s t"
    and S: "stages s = st # rest" "stages t = st' # rest" "target_objects st' = o1 @ target_objects st"
      "distinct o1" "set o1 = {a \<in> marked t - marked s. Contains N a}"
      "references_to_targets st' = r1 @ references_to_targets st" "distinct r1" "set r1 = R"
      "gc_cursor t = gc_cursor s + pushed sizeof_target (length (target_objects st)) (length o1) +
        pushed sizeof_dangling (length (references_to_targets st)) (length r1)"
    unfolding records_def by blast
  have g: "graph t = graph s" using same by (simp add: same_but_marks_def)
  let ?new = "marked t - marked s"
  have split: "A - marked s = ?new \<union> (A - marked t)" and disj: "?new \<inter> (A - marked t) = {}"
    using sub A(1) by auto
  have fin: "finite ?new" using A by (auto intro: finite_subset [of _ A])
  have "{a \<in> A - marked s. Contains N a} = {a \<in> ?new. Contains N a} \<union> {a \<in> A - marked t. Contains N a}"
    using split by auto
  moreover have "card ({a \<in> ?new. Contains N a} \<union> {a \<in> A - marked t. Contains N a}) =
      card {a \<in> ?new. Contains N a} + card {a \<in> A - marked t. Contains N a}"
    using fin A(2) by (intro card_Un_disjoint) auto
  moreover have "card {a \<in> ?new. Contains N a} = length o1" using S(4,5) distinct_card by metis
  ultimately have c1: "card {a \<in> A - marked s. Contains N a} = length o1 + card {a \<in> A - marked t. Contains N a}"
    by simp
  have "slot_refs N s (A - marked s) = slot_refs N s ?new \<union> slot_refs N s (A - marked t)"
    by (subst split) (rule slot_refs_Un)
  moreover have "card (slot_refs N s ?new \<union> slot_refs N s (A - marked t)) =
      card (slot_refs N s ?new) + card (slot_refs N s (A - marked t))"
    using fin A(2) disj by (intro card_Un_disjoint slot_refs_finite) (auto simp: slot_refs_def)
  moreover have "card R = length r1" using S(7,8) distinct_card by metis
  ultimately have c2: "card (slot_refs N s (A - marked s)) + (j + e) =
      length r1 + (card (slot_refs N s (A - marked t)) + e)" using R by simp
  have regroup: "c + p + q + x + y = c + (p + x) + (q + y)" for c p q x y :: nat by simp
  show ?thesis
    unfolding need_def graph_eq [OF g] c1 c2 stage_size_def
    by (simp only: S(1,2,3,6,9) list.case length_append pushed_add add.commute [of "length o1" "length (target_objects st)"]
        add.commute [of "length r1" "length (references_to_targets st)"] regroup)
qed

text \<open>The two elementary changes: a reference recorded, an object marked.\<close>

lemma marked_set_stage [simp]: "marked (set_stage st s) = marked s"
  by (simp add: marked_def set_stage_def)

lemma records_ref:
  assumes "stages s \<noteq> []"
  shows "(append_if b d s = oom \<and> b \<and> unat GC_INTERNALS_SIZE < need N A 1 s) \<or>
    (\<exists>t. append_if b d s = Inr t \<and> records N (if b then {d} else {}) s t \<and> marked t = marked s)"
proof (cases b)
  case True
  from assms obtain st rest where st: "stages s = st # rest" by (cases "stages s") auto
  let ?n = "push_bytes sizeof_dangling (length (references_to_targets st))"
  have "?n \<le> pushed sizeof_dangling (length (references_to_targets st)) (card (slot_refs N s (A - marked s)) + 1)"
    by simp
  then have "gc_cursor s + ?n \<le> need N A 1 s"
    unfolding need_def by (simp add: stage_size_def st)
  then show ?thesis
    using True st
    by (auto simp: append_if_def AppendRefToAliveObject_def with_stage_def records_def same_but_marks_def
        graph_def set_stage_def marked_def sum_sizes_def push_cases)
next
  case False
  then show ?thesis using records_refl [OF assms] by (simp add: append_if_def)
qed

lemma Contains_nonzero: "Contains N a \<Longrightarrow> N \<le> 2 \<Longrightarrow> a \<noteq> 0"
proof -
  assume c: "Contains N a" and "N \<le> 2"
  then consider "N = 0" | "N = Suc 0" | "N = 2" by linarith
  then show "a \<noteq> 0" using c by cases (auto simp: Contains_def)
qed

lemma map_of_update_length: "map_of xs a \<noteq> None \<Longrightarrow> length (AList.update a b xs) = length xs"
  by (induction xs) (auto split: if_splits)

lemma records_mark:
  assumes N: "N \<le> 2" and b: "map_of (objs s) a = Some b" and new: "o_mark b \<noteq> gc_mark s"
    and stage: "stages s \<noteq> []"
  and A: "a \<in> A" "finite A"
  shows "((let s1 = hput a (b\<lparr>o_mark := gc_mark s\<rparr>) s
              in if Contains N a then AppendAliveObject a b s1 else Inr s1) = oom \<and>
             unat GC_INTERNALS_SIZE < need N A 0 s) \<or>
    (\<exists>t. (let s1 = hput a (b\<lparr>o_mark := gc_mark s\<rparr>) s
              in if Contains N a then AppendAliveObject a b s1 else Inr s1) = Inr t \<and>
             records N {} s t \<and> marked t = insert a (marked s))"
proof -
  let ?s1 = "hput a (b\<lparr>o_mark := gc_mark s\<rparr>) s"
  from stage obtain st rest where st: "stages s = st # rest" by (cases "stages s") auto
  have g: "graph ?s1 = graph s" by (auto simp: graph_def fun_eq_iff b)
  have m: "marked ?s1 = insert a (marked s)" by (auto simp: marked_def)
  have a: "a \<notin> marked s" using b new by (simp add: marked_def)
  have same: "same_but_marks s (?s1\<lparr>gc_cursor := c, stages := x\<rparr>)" for x c
    using g map_of_update_length [of "objs s" a] b
    by (simp add: same_but_marks_def graph_def hput_def fun_eq_iff AList.update_conv')
  have sz: "size_at s a = o_size b" using b by (simp add: size_at_def graph_Some)
  show ?thesis
  proof (cases "Contains N a")
    case True
    let ?st = "st\<lparr>estimating_realloc_size := estimating_realloc_size st + o_size b, target_objects := a # target_objects st\<rparr>"
    let ?n = "push_bytes sizeof_target (length (target_objects st))"
    let ?t = "?s1\<lparr>gc_cursor := gc_cursor s + ?n, stages := ?st # rest\<rparr>"
    let ?fits = "?n = 0 \<or> gc_cursor s + ?n \<le> unat GC_INTERNALS_SIZE"
    have app: "AppendAliveObject a b ?s1 = (if ?fits then Inr ?t else oom)"
      using Contains_nonzero [OF True N] st
      by (simp add: AppendAliveObject_def with_stage_def set_stage_def push_cases hput_def)
    have mt: "marked ?t = insert a (marked s)" using m by (simp add: marked_def)
    have "{x \<in> A - marked s. Contains N x} \<noteq> {}" using A(1) a True by auto
    then obtain k where k: "card {x \<in> A - marked s. Contains N x} = Suc k"
      using A(2) by (metis (no_types, lifting) card_eq_0_iff finite_Diff finite_subset mem_Collect_eq not0_implies_Suc subsetI)
    then have nd: "gc_cursor s + ?n \<le> need N A 0 s" by (simp add: need_def stage_size_def st)
    have "records N {} s ?t" if ?fits
      unfolding records_def
      by (rule conjI [OF same], rule conjI, simp add: mt subset_insertI,
          rule exI [of _ st], rule exI [of _ ?st], rule exI [of _ rest], rule exI [of _ "[a]"], rule exI [of _ "[]"])
        (use st a True sz that in \<open>auto simp: mt sum_sizes_def\<close>)
    with mt have "?thesis" if ?fits using True app that by simp
    moreover have "?thesis" if "\<not> ?fits" using True app nd that by simp
    ultimately show ?thesis by blast
  next
    case False
    have "same_but_marks s ?s1"
      using g map_of_update_length [of "objs s" a] b by (simp add: same_but_marks_def hput_def AList.update_conv')
    then have "records N {} s ?s1"
      using st a False
      by (auto simp: records_def m sum_sizes_def) (simp_all add: hput_def)
    then show ?thesis using False m by simp
  qed
qed

subsection \<open>The recursion\<close>

lemma closedD:
  assumes "closed s A" "a \<in> A"
  shows "graph s a \<noteq> None" "r \<in> set (slots_at s a) \<Longrightarrow> ref_ok s A r"
  using assms by (auto simp: closed_def)

lemma slots_at_eq: "map_of (objs s) a = Some b \<Longrightarrow> slots_at s a = slots (o_body b)"
  by (simp add: slots_at_def graph_Some)

lemma black_trans:
  assumes st: "black s t" and tu: "black t u" and g: "graph t = graph s" and sub: "marked t \<subseteq> marked u"
  shows "black s u"
  unfolding black_def
proof (intro ballI impI)
  fix a r assume a: "a \<in> marked u - marked s" and r: "r \<in> set (slots_at s a)" "\<not> IsPrimitive r"
  show "r_value r \<in> marked u"
  proof (cases "a \<in> marked t")
    case True
    then show ?thesis using st a r sub by (auto simp: black_def)
  next
    case False
    then show ?thesis using tu a r by (auto simp: black_def graph_eq [OF g])
  qed
qed

lemma reach_mono: "R \<subseteq> S \<Longrightarrow> reach s R \<subseteq> reach s S"
proof
  fix a assume "R \<subseteq> S" "a \<in> reach s R"
  from this(2,1) show "a \<in> reach s S" by induction (auto intro: reach.intros)
qed

lemma reach_step_sub: "a \<in> reach s R \<Longrightarrow> reach s (set (slots_at s a)) \<subseteq> reach s R"
proof
  fix x assume a: "a \<in> reach s R" and "x \<in> reach s (set (slots_at s a))"
  from this(2) show "x \<in> reach s R" by induction (auto intro: reach.intros a)
qed

definition slot_list :: "nat \<Rightarrow> addr \<Rightarrow> nat \<Rightarrow> register list \<Rightarrow> dangling set" where
  "slot_list N h i rs = {DSlot h (i + k) |k. k < length rs \<and> into N (rs ! k)}"

lemma slot_list_simps:
  "slot_list N h i [] = {}"
  "slot_list N h i (r # rs) = (if into N r then {DSlot h i} else {}) \<union> slot_list N h (Suc i) rs"
proof -
  show "slot_list N h i (r # rs) = (if into N r then {DSlot h i} else {}) \<union> slot_list N h (Suc i) rs"
  proof (rule set_eqI, rule iffI)
    fix d assume "d \<in> slot_list N h i (r # rs)"
    then obtain k where k: "d = DSlot h (i + k)" "k < Suc (length rs)" "into N ((r # rs) ! k)"
      by (auto simp: slot_list_def)
    then show "d \<in> (if into N r then {DSlot h i} else {}) \<union> slot_list N h (Suc i) rs"
      by (cases k) (auto simp: slot_list_def)
  next
    fix d assume "d \<in> (if into N r then {DSlot h i} else {}) \<union> slot_list N h (Suc i) rs"
    then consider "into N r" "d = DSlot h i" | k where "d = DSlot h (Suc i + k)" "k < length rs" "into N (rs ! k)"
      by (auto simp: slot_list_def split: if_splits)
    then show "d \<in> slot_list N h i (r # rs)"
    proof cases
      case 1
      then show ?thesis by (force simp: slot_list_def)
    next
      case (2 k)
      then have "d = DSlot h (i + Suc k)" "Suc k < length (r # rs)" "into N ((r # rs) ! Suc k)" by simp_all
      then show ?thesis unfolding slot_list_def by blast
    qed
  qed
qed (simp add: slot_list_def)

lemma slot_list_all: "slot_list N h 0 (slots_at s h) = slot_refs N s {h}"
  by (auto simp: slot_list_def slot_refs_def)

text \<open>What a call of \<open>mark_reg\<close> and of \<open>mark_slots\<close> achieves.\<close>

definition reg_post :: "nat \<Rightarrow> register \<Rightarrow> vm \<Rightarrow> vm \<Rightarrow> bool" where
  "reg_post N v s t \<longleftrightarrow> records N (slot_refs N s (marked t - marked s)) s t \<and> black s t \<and>
     (\<not> IsPrimitive v \<longrightarrow> r_value v \<in> marked t) \<and> marked t \<subseteq> marked s \<union> reach s {v}"

definition list_post :: "nat \<Rightarrow> dangling set \<Rightarrow> register list \<Rightarrow> vm \<Rightarrow> vm \<Rightarrow> bool" where
  "list_post N E rs s t \<longleftrightarrow>
     records N (slot_refs N s (marked t - marked s) \<union> E) s t \<and> black s t \<and>
     (\<forall>v \<in> set rs. \<not> IsPrimitive v \<longrightarrow> r_value v \<in> marked t) \<and> marked t \<subseteq> marked s \<union> reach s (set rs)"

lemma list_post_Nil: "stages s \<noteq> [] \<Longrightarrow> list_post N {} [] s s"
  using records_refl [of s N] by (simp add: list_post_def black_def)

text \<open>One register of a list: marked, recorded if it points into the region, then the rest.\<close>

lemma list_post_Cons:
  assumes st: "reg_post N r s t" and rec: "records N D t u" and same: "marked u = marked t"
    and uw: "list_post N E rs u w"
    and disj: "D \<inter> E = {}" "(D \<union> E) \<inter> slot_refs N s (- marked s) = {}"
  shows "list_post N (D \<union> E) (r # rs) s w"
proof -
  from st have A: "records N (slot_refs N s (marked t - marked s)) s t" "black s t"
    "\<not> IsPrimitive r \<longrightarrow> r_value r \<in> marked t" "marked t \<subseteq> marked s \<union> reach s {r}"
    by (auto simp: reg_post_def)
  have gt: "graph t = graph s" and gu: "graph u = graph s"
    using records_graph [OF A(1)] records_graph [OF rec] by simp_all
  from uw have B: "records N (slot_refs N s (marked w - marked u) \<union> E) u w" "black u w"
    "\<forall>v \<in> set rs. \<not> IsPrimitive v \<longrightarrow> r_value v \<in> marked w" "marked w \<subseteq> marked u \<union> reach s (set rs)"
    by (auto simp: list_post_def graph_eq [OF gu])
  have sub: "marked s \<subseteq> marked t" "marked t \<subseteq> marked w"
    using records_marked [OF A(1)] records_marked [OF B(1)] same by auto
  have out: "e \<notin> slot_refs N s X" if "e \<in> D \<union> E" "X \<subseteq> - marked s" for e X
    using that disj(2) by (auto simp: slot_refs_def)
  have "records N (slot_refs N s (marked t - marked s) \<union> D) s u"
    by (rule records_trans [OF A(1) rec]) (use out [of _ "marked t - marked s"] in auto)
  then have "records N ((slot_refs N s (marked t - marked s) \<union> D) \<union>
      (slot_refs N s (marked w - marked u) \<union> E)) s w"
  proof (rule records_trans [OF _ B(1)])
    have "slot_refs N s (marked t - marked s) \<inter> slot_refs N s (marked w - marked u) = {}"
      using same by (auto simp: slot_refs_def)
    moreover have "D \<inter> slot_refs N s (marked w - marked u) = {}" "E \<inter> slot_refs N s (marked t - marked s) = {}"
      using out [of _ "marked w - marked u"] out [of _ "marked t - marked s"] sub same by auto
    ultimately show "(slot_refs N s (marked t - marked s) \<union> D) \<inter>
        (slot_refs N s (marked w - marked u) \<union> E) = {}" using disj(1) by auto
  qed
  moreover have "marked w - marked s = (marked t - marked s) \<union> (marked w - marked u)"
    using sub same by auto
  ultimately have rec': "records N (slot_refs N s (marked w - marked s) \<union> (D \<union> E)) s w"
    by (simp add: slot_refs_Un Un_ac)
  have "black t w" using B(2) by (simp add: black_def same graph_eq [OF gu] graph_eq [OF gt])
  then have blk: "black s w" by (rule black_trans [OF A(2) _ gt sub(2)])
  have B4: "marked w \<subseteq> marked t \<union> reach s (set rs)" using B(4) by (simp only: same)
  have "reach s {r} \<subseteq> reach s (set (r # rs))" by (rule reach_mono) simp
  moreover have "reach s (set rs) \<subseteq> reach s (set (r # rs))" by (rule reach_mono) auto
  ultimately have "marked w \<subseteq> marked s \<union> reach s (set (r # rs))" using A(4) B4 by blast
  with rec' blk show ?thesis using A(3) B(3) sub by (auto simp: list_post_def)
qed

lemma slot_list_apart: "h \<in> marked s \<Longrightarrow> slot_list N h i rs \<inter> slot_refs N s (- marked s) = {}"
  by (auto simp: slot_list_def slot_refs_def)

lemma reg_post_visit:
  assumes rec: "records N {} s t" and new: "marked t = insert a (marked s)" "a \<notin> marked s"
    and a: "r_value v = a" "\<not> IsPrimitive v" and post: "list_post N (slot_refs N s {a}) (slots_at s a) t u"
  shows "reg_post N v s u"
proof -
  have g: "graph t = graph s" by (rule records_graph [OF rec])
  from post have B: "records N (slot_refs N s (marked u - marked t) \<union> slot_refs N s {a}) t u" "black t u"
    "\<forall>r \<in> set (slots_at s a). \<not> IsPrimitive r \<longrightarrow> r_value r \<in> marked u"
    "marked u \<subseteq> marked t \<union> reach s (set (slots_at s a))"
    by (auto simp: list_post_def graph_eq [OF g])
  have sub: "marked t \<subseteq> marked u" using records_marked [OF B(1)] .
  have "records N ({} \<union> (slot_refs N s (marked u - marked t) \<union> slot_refs N s {a})) s u"
    by (rule records_trans [OF rec B(1)]) simp
  moreover have "marked u - marked s = (marked u - marked t) \<union> {a}" using new sub by auto
  ultimately have "records N (slot_refs N s (marked u - marked s)) s u" by (simp only: slot_refs_Un Un_empty_left)
  moreover have "black s u"
    using B(2,3) new by (auto simp: black_def graph_eq [OF g])
  moreover have "a \<in> reach s {v}" using reach.root [of v "{v}" s] a by simp
  then have "marked u \<subseteq> marked s \<union> reach s {v}"
    using B(4) new reach_step_sub [of a s "{v}"] by auto
  ultimately show ?thesis using new sub a by (auto simp: reg_post_def)
qed

lemma reg_post_need:
  assumes post: "reg_post N v s t" and A: "closed s A" "finite A" "ref_ok s A v"
  shows "need N A e t = need N A e s"
proof -
  have "reach s {v} \<subseteq> A" using A by (intro reach_sub) simp_all
  then show ?thesis
    using records_need [of N _ s t A 0 e] post A(2) by (auto simp: reg_post_def)
qed

lemma slot_list_finite: "finite (slot_list N h i rs)"
  by (simp add: slot_list_def)

lemma card_slot_list_Cons:
  "card (slot_list N h i (r # rs)) = (if into N r then 1 else 0) + card (slot_list N h (Suc i) rs)"
proof -
  have "DSlot h i \<notin> slot_list N h (Suc i) rs" by (auto simp: slot_list_def)
  then show ?thesis using slot_list_finite [of N h "Suc i" rs] by (simp add: slot_list_simps)
qed

text \<open>A recorded reference: what was needed with it is needed without it.\<close>

lemma ref_need:
  assumes "records N (if b then {d} else {}) t u" "marked u = marked t" "finite A"
  shows "need N A e u = need N A ((if b then 1 else 0) + e) t"
  using records_need [OF assms(1) _ assms(3), of "if b then 1 else 0" e] assms(2) by simp

text \<open>A visited object: its slots are what remains to be recorded.\<close>

lemma visit_need:
  assumes rec: "records N {} s t" and new: "marked t = insert a (marked s)" "a \<notin> marked s" and A: "a \<in> A" "finite A"
  shows "need N A (card (slot_refs N s {a})) t = need N A 0 s"
proof -
  have g: "graph t = graph s" by (rule records_graph [OF rec])
  have "A - marked s = insert a (A - marked t)" using new A by auto
  then have "slot_refs N s (A - marked s) = slot_refs N s {a} \<union> slot_refs N s (A - marked t)"
    using slot_refs_Un [of N s "{a}" "A - marked t"] by simp
  moreover have "card (slot_refs N s {a} \<union> slot_refs N s (A - marked t)) =
      card (slot_refs N s {a}) + card (slot_refs N s (A - marked t))"
    using A new by (intro card_Un_disjoint slot_refs_finite) (auto simp: slot_refs_def)
  moreover from rec obtain st st' rest o1 where S: "stages s = st # rest" "stages t = st' # rest"
      "target_objects st' = o1 @ target_objects st" "distinct o1" "set o1 = {x \<in> marked t - marked s. Contains N x}"
      "references_to_targets st' = references_to_targets st"
      "gc_cursor t = gc_cursor s + pushed sizeof_target (length (target_objects st)) (length o1)"
    unfolding records_def by auto
  moreover have "{x \<in> A - marked s. Contains N x} =
      (if Contains N a then insert a {x \<in> A - marked t. Contains N x} else {x \<in> A - marked t. Contains N x})"
    using new A by auto
  moreover have "length o1 = (if Contains N a then 1 else 0)"
  proof -
    have "set o1 = (if Contains N a then {a} else {})" using S(5) new by auto
    then show ?thesis using distinct_card [OF S(4)] by (simp split: if_splits)
  qed
  ultimately show ?thesis
    using A new by (simp add: need_def graph_eq [OF g] stage_size_def add_ac)
qed

lemma mark_spec:
  "\<lbrakk>N \<le> 2; finite A; closed s A; ref_ok s A v; stages s \<noteq> []; card (A - marked s) < f\<rbrakk> \<Longrightarrow>
     (mark_reg f N v s = oom \<and> unat GC_INTERNALS_SIZE < need N A 0 s) \<or>
     (\<exists>t. mark_reg f N v s = Inr (into N v, t) \<and> reg_post N v s t)"
  "\<lbrakk>N \<le> 2; finite A; closed s A; \<forall>v \<in> set rs. ref_ok s A v; stages s \<noteq> []; card (A - marked s) < f;
    h \<in> marked s\<rbrakk> \<Longrightarrow>
     (mark_slots f N h i rs s = oom \<and> unat GC_INTERNALS_SIZE < need N A (card (slot_list N h i rs)) s) \<or>
     (\<exists>t. mark_slots f N h i rs s = Inr t \<and> list_post N (slot_list N h i rs) rs s t)"
proof (induction f N v s and f N h i rs s rule: mark_reg_mark_slots.induct)
  case (2 f N v s)
  show ?case
  proof (cases "IsPrimitive v")
    case True
    then show ?thesis
      using records_refl [OF "2.prems"(5)] by (auto simp: reg_post_def into_def black_def)
  next
    case False
    let ?a = "r_value v"
    from False "2.prems"(4) obtain b where aA: "?a \<in> A" and b: "map_of (objs s) ?a = Some b"
      and ty: "body_type (o_body b) = r_type v"
      by (auto simp: ref_ok_def graph_Some_iff)
    show ?thesis
    proof (cases "o_mark b = gc_mark s")
      case True
      then have "reg_post N v s s"
        using b records_refl [OF "2.prems"(5)] by (auto simp: marked_def reg_post_def black_def)
      then show ?thesis using False True b by (auto simp: hget_def into_def)
    next
      case new: False
      then have fresh: "?a \<notin> marked s" using b by (auto simp: marked_def)
      let ?put = "let s1 = hput ?a (b\<lparr>o_mark := gc_mark s\<rparr>) s
              in if Contains N ?a then AppendAliveObject ?a b s1 else Inr s1"
      from records_mark [OF "2.prems"(1) b new "2.prems"(5) aA "2.prems"(2)] show ?thesis
      proof (elim disjE exE conjE)
        assume "?put = oom" "unat GC_INTERNALS_SIZE < need N A 0 s"
        then show ?thesis using False new b by (simp add: hget_def into_def Let_def)
      next
        fix s2 assume s2: "?put = Inr s2" and rec: "records N {} s s2" and m2: "marked s2 = insert ?a (marked s)"
        have g2: "graph s2 = graph s" by (rule records_graph [OF rec])
        have sl: "slots_at s ?a = slots (o_body b)" by (rule slots_at_eq [OF b])
        have closed2: "closed s2 A" using "2.prems"(3) by (simp add: graph_eq [OF g2])
        have slots_ok: "\<forall>r \<in> set (slots (o_body b)). ref_ok s2 A r"
          using closedD(2) [OF "2.prems"(3) aA] sl by (simp add: graph_eq [OF g2])
        have "A - marked s2 \<subset> A - marked s" using aA fresh m2 by auto
        then have "card (A - marked s2) < card (A - marked s)" by (intro psubset_card_mono) (use "2.prems"(2) in auto)
        then have fuel: "card (A - marked s2) < f" using "2.prems"(6) by simp
        have ns: "\<not> (r_type v = NUM \<or> r_type v = ANY)" using False by (simp add: IsPrimitive_def)
        have nil: "r_type v \<noteq> NIL" using ty by (cases "o_body b") auto
        show ?thesis
        proof (cases "r_type v = STR_T")
          case True
          have "slots_at s ?a = []" using ty True sl by (cases "o_body b") auto
          then have "list_post N (slot_refs N s {?a}) (slots_at s ?a) s2 s2"
            using list_post_Nil [OF records_stages [OF rec]] by (simp add: slot_list_all [symmetric] slot_list_simps)
          from reg_post_visit [OF rec m2 fresh refl False this] show ?thesis
            using False new b s2 True by (auto simp: hget_def into_def Let_def)
        next
          case st: False
          have need: "need N A (card (slot_list N ?a 0 (slots (o_body b)))) s2 = need N A 0 s"
            using visit_need [OF rec m2 fresh aA "2.prems"(2)] by (simp add: sl [symmetric] slot_list_all)
          have "(mark_slots f N ?a 0 (slots (o_body b)) s2 = oom \<and>
               unat GC_INTERNALS_SIZE < need N A (card (slot_list N ?a 0 (slots (o_body b)))) s2) \<or>
              (\<exists>t. mark_slots f N ?a 0 (slots (o_body b)) s2 = Inr t \<and>
               list_post N (slot_list N ?a 0 (slots (o_body b))) (slots (o_body b)) s2 t)"
            using "2.IH" [OF False refl refl _ new s2] "2.prems"(1,2) closed2 slots_ok
              records_stages [OF rec] fuel m2 b ty st nil ns
            by (cases "r_type v") (auto simp: hget_def slots_as_def)
          then show ?thesis
          proof (elim disjE exE conjE)
            assume "mark_slots f N ?a 0 (slots (o_body b)) s2 = oom"
              "unat GC_INTERNALS_SIZE < need N A (card (slot_list N ?a 0 (slots (o_body b)))) s2"
            then show ?thesis
              using False new b s2 st nil ns ty need
              by (cases "r_type v") (auto simp: hget_def slots_as_def Let_def)
          next
            fix t assume t: "mark_slots f N ?a 0 (slots (o_body b)) s2 = Inr t"
              and "list_post N (slot_list N ?a 0 (slots (o_body b))) (slots (o_body b)) s2 t"
            then have post: "list_post N (slot_refs N s {?a}) (slots_at s ?a) s2 t"
              by (simp add: sl slot_list_all [symmetric])
            from reg_post_visit [OF rec m2 fresh refl False post] show ?thesis
              using False new b s2 st nil ns ty t
              by (cases "r_type v") (auto simp: hget_def into_def slots_as_def Let_def)
          qed
        qed
      qed
    qed
  qed
next
  case (3 f N h i s)
  then show ?case using list_post_Nil [of s N] by (simp add: slot_list_simps)
next
  case (4 f N h i r rs s)
  have r: "ref_ok s A r" using "4.prems"(4) by simp
  have "(mark_reg f N r s = oom \<and> unat GC_INTERNALS_SIZE < need N A 0 s) \<or>
      (\<exists>t. mark_reg f N r s = Inr (into N r, t) \<and> reg_post N r s t)"
    using "4.IH"(1) "4.prems" by auto
  then show ?case
  proof (elim disjE exE conjE)
    assume "mark_reg f N r s = oom" "unat GC_INTERNALS_SIZE < need N A 0 s"
    then show ?thesis using need_mono [of 0 "card (slot_list N h i (r # rs))" N A s] by auto
  next
    fix t assume t: "mark_reg f N r s = Inr (into N r, t)" and post: "reg_post N r s t"
    then have rec: "records N (slot_refs N s (marked t - marked s)) s t" by (simp add: reg_post_def)
    note nt = reg_post_need [OF post "4.prems"(3,2) r]
    from records_ref [OF records_stages [OF rec], of "into N r" "DSlot h i" N A] show ?thesis
    proof (elim disjE exE conjE)
      assume "append_if (into N r) (DSlot h i) t = oom" "into N r" "unat GC_INTERNALS_SIZE < need N A 1 t"
      then show ?thesis
        using t nt [of 1] need_mono [of 1 "card (slot_list N h i (r # rs))" N A s] by (auto simp: card_slot_list_Cons)
    next
      fix u assume u: "append_if (into N r) (DSlot h i) t = Inr u"
        and rec2: "records N (if into N r then {DSlot h i} else {}) t u" and same: "marked u = marked t"
      have gu: "graph u = graph s" using records_graph [OF rec] records_graph [OF rec2] by simp
      have sub: "marked s \<subseteq> marked u" using records_marked [OF rec] same by simp
      have "card (A - marked u) \<le> card (A - marked s)"
        using sub "4.prems"(2) by (intro card_mono) auto
      then have fuel: "card (A - marked u) < f" using "4.prems"(6) by simp
      have nu: "need N A (card (slot_list N h (Suc i) rs)) u = need N A (card (slot_list N h i (r # rs))) s"
        by (simp add: ref_need [OF rec2 same "4.prems"(2)] nt card_slot_list_Cons)
      have "(mark_slots f N h (Suc i) rs u = oom \<and> unat GC_INTERNALS_SIZE < need N A (card (slot_list N h (Suc i) rs)) u) \<or>
          (\<exists>w. mark_slots f N h (Suc i) rs u = Inr w \<and> list_post N (slot_list N h (Suc i) rs) rs u w)"
        using "4.IH"(2) [OF t refl u] "4.prems" fuel sub records_stages [OF rec2]
        by (auto simp: graph_eq [OF gu])
      then show ?thesis
      proof (elim disjE exE conjE)
        assume "mark_slots f N h (Suc i) rs u = oom" "unat GC_INTERNALS_SIZE < need N A (card (slot_list N h (Suc i) rs)) u"
        then show ?thesis using t u nu by simp
      next
        fix w assume w: "mark_slots f N h (Suc i) rs u = Inr w"
          and postw: "list_post N (slot_list N h (Suc i) rs) rs u w"
        have "list_post N ((if into N r then {DSlot h i} else {}) \<union> slot_list N h (Suc i) rs) (r # rs) s w"
        proof (rule list_post_Cons [OF post rec2 same postw])
          show "(if into N r then {DSlot h i} else {}) \<inter> slot_list N h (Suc i) rs = {}"
            by (auto simp: slot_list_def)
          show "((if into N r then {DSlot h i} else {}) \<union> slot_list N h (Suc i) rs) \<inter> slot_refs N s (- marked s) = {}"
            using slot_list_apart [OF "4.prems"(7), of N i "r # rs"] by (simp only: slot_list_simps)
        qed
        then show ?thesis using t u w by (simp add: slot_list_simps)
      qed
    qed
  qed
qed simp

subsection \<open>The roots\<close>

definition frames_ok :: "vm \<Rightarrow> bool" where
  "frames_ok s \<longleftrightarrow> (\<forall>f \<in> set (frames s). length (f_regs f) = 16)"

text \<open>The register a root names.\<close>

definition root_reg :: "vm \<Rightarrow> root \<Rightarrow> register" where
  "root_reg s r =
     (case r of
        RCallee i \<Rightarrow> set_func (f_callee (frames s ! i))
      | RAcc i \<Rightarrow> f_acc (frames s ! i)
      | RReg i j \<Rightarrow> f_regs (frames s ! i) ! j)"

definition root_regs :: "vm \<Rightarrow> register set" where
  "root_regs s = root_reg s ` set (all_roots s)"

lemma set_all_roots:
  "r \<in> set (all_roots s) \<longleftrightarrow> root_frame r < length (frames s) \<and> (case r of RReg i j \<Rightarrow> j < 16 | _ \<Rightarrow> True)"
  by (cases r) (auto simp: all_roots_def frame_roots_def root_frame_def image_iff)

lemma distinct_all_roots: "distinct (all_roots s)"
proof -
  have "distinct (concat (map frame_roots is))" if "distinct is" for "is" :: "nat list"
    using that by (induction "is") (auto simp: frame_roots_def distinct_map inj_on_def)
  then show ?thesis by (simp add: all_roots_def)
qed

lemma read_root_eq:
  assumes "frames_ok s" "r \<in> set (all_roots s)"
  shows "read_root r s = Inr (root_reg s r)"
proof -
  have i: "root_frame r < length (frames s)" using assms(2) by (simp add: set_all_roots)
  then have "length (f_regs (frames s ! root_frame r)) = 16" using assms(1) by (simp add: frames_ok_def)
  then show ?thesis
    using i assms(2) by (cases r) (auto simp: read_root_def root_reg_def set_all_roots root_frame_def)
qed

definition root_refs :: "nat \<Rightarrow> vm \<Rightarrow> root list \<Rightarrow> dangling set" where
  "root_refs N s rts = {DRoot r |r. r \<in> set rts \<and> into N (root_reg s r)}"

lemma frames_eq:
  assumes "frames t = frames s"
  shows "frames_ok t = frames_ok s" "root_reg t = root_reg s" "all_roots t = all_roots s" "root_regs t = root_regs s"
    "read_root r t = read_root r s" "root_refs N t = root_refs N s"
proof -
  show reg: "root_reg t = root_reg s" unfolding fun_eq_iff root_reg_def assms by simp
  show all: "all_roots t = all_roots s" by (simp add: all_roots_def assms)
  show "root_regs t = root_regs s" by (simp add: root_regs_def reg all)
  show "frames_ok t = frames_ok s" "read_root r t = read_root r s"
    unfolding frames_ok_def read_root_def assms by simp_all
  show "root_refs N t = root_refs N s" by (intro ext) (simp add: root_refs_def reg)
qed

lemma root_refs_Cons:
  "root_refs N s (r # rts) = (if into N (root_reg s r) then {DRoot r} else {}) \<union> root_refs N s rts"
  by (auto simp: root_refs_def)

lemma card_unmarked:
  assumes "closed s A"
  shows "finite A" "card (A - M) < mark_fuel s"
proof -
  have sub: "A \<subseteq> fst ` set (objs s)"
    using assms by (fastforce simp: closed_def graph_def map_of_eq_None_iff)
  then show "finite A" by (rule finite_subset) simp
  have "card (A - M) \<le> card (fst ` set (objs s))" using sub by (intro card_mono) auto
  also have "\<dots> \<le> length (objs s)" using card_image_le [of "set (objs s)" fst] card_length [of "objs s"] by simp
  finally show "card (A - M) < mark_fuel s" by (simp add: mark_fuel_def)
qed

lemma root_refs_card_Cons:
  assumes "r \<notin> set rts"
  shows "card (root_refs N s (r # rts)) = (if into N (root_reg s r) then 1 else 0) + card (root_refs N s rts)"
proof -
  have "DRoot r \<notin> root_refs N s rts" using assms by (auto simp: root_refs_def)
  moreover have "finite (root_refs N s rts)"
    by (rule finite_subset [of _ "DRoot ` set rts"]) (auto simp: root_refs_def)
  ultimately show ?thesis by (simp add: root_refs_Cons)
qed

lemma mark_roots_spec:
  assumes "N \<le> 2" "closed s A" "frames_ok s" "set rts \<subseteq> set (all_roots s)" "distinct rts"
    "\<forall>r \<in> set rts. ref_ok s A (root_reg s r)" "stages s \<noteq> []"
  shows "(fold_res (mark_root N) rts s = oom \<and> unat GC_INTERNALS_SIZE < need N A (card (root_refs N s rts)) s) \<or>
    (\<exists>t. fold_res (mark_root N) rts s = Inr t \<and> list_post N (root_refs N s rts) (map (root_reg s) rts) s t)"
  using assms
proof (induction rts arbitrary: s)
  case Nil
  then show ?case using list_post_Nil [of s N] by (simp add: root_refs_def)
next
  case (Cons r rts)
  let ?v = "root_reg s r"
  have v: "read_root r s = Inr ?v" using read_root_eq Cons.prems(3,4) by auto
  have r: "r \<notin> set rts" using Cons.prems(5) by simp
  have ok: "ref_ok s A ?v" using Cons.prems(6) by simp
  note fin = card_unmarked(1) [OF Cons.prems(2)]
  from mark_spec(1) [OF Cons.prems(1) fin Cons.prems(2) ok Cons.prems(7) card_unmarked(2) [OF Cons.prems(2)]]
  show ?case
  proof (elim disjE exE conjE)
    assume "mark_reg (mark_fuel s) N ?v s = oom" "unat GC_INTERNALS_SIZE < need N A 0 s"
    then show ?thesis using v need_mono [of 0 "card (root_refs N s (r # rts))" N A s] by (auto simp: mark_root_def)
  next
    fix t assume t: "mark_reg (mark_fuel s) N ?v s = Inr (into N ?v, t)" and post: "reg_post N ?v s t"
    then have rec: "records N (slot_refs N s (marked t - marked s)) s t" by (simp add: reg_post_def)
    note nt = reg_post_need [OF post Cons.prems(2) fin ok]
    from records_ref [OF records_stages [OF rec], of "into N ?v" "DRoot r" N A] show ?thesis
    proof (elim disjE exE conjE)
      assume "append_if (into N ?v) (DRoot r) t = oom" "into N ?v" "unat GC_INTERNALS_SIZE < need N A 1 t"
      then show ?thesis
        using t v nt [of 1] need_mono [of 1 "card (root_refs N s (r # rts))" N A s]
        by (auto simp: root_refs_card_Cons [OF r] mark_root_def)
    next
      fix u assume u: "append_if (into N ?v) (DRoot r) t = Inr u"
        and rec2: "records N (if into N ?v then {DRoot r} else {}) t u" and same: "marked u = marked t"
      have gu: "graph u = graph s" using records_graph [OF rec] records_graph [OF rec2] by simp
      have fu: "frames u = frames s"
        using same_fields [OF records_same [OF rec]] same_fields [OF records_same [OF rec2]] by simp
      have nu: "need N A (card (root_refs N s rts)) u = need N A (card (root_refs N s (r # rts))) s"
        by (simp add: ref_need [OF rec2 same fin] nt root_refs_card_Cons [OF r])
      have step: "mark_root N r s = Inr u" using v t u by (simp add: mark_root_def)
      have "(fold_res (mark_root N) rts u = oom \<and> unat GC_INTERNALS_SIZE < need N A (card (root_refs N u rts)) u) \<or>
          (\<exists>w. fold_res (mark_root N) rts u = Inr w \<and> list_post N (root_refs N u rts) (map (root_reg u) rts) u w)"
        by (rule Cons.IH) (use Cons.prems records_stages [OF rec2] in \<open>auto simp: graph_eq [OF gu] frames_eq [OF fu]\<close>)
      then show ?thesis
      proof (elim disjE exE conjE)
        assume "fold_res (mark_root N) rts u = oom" "unat GC_INTERNALS_SIZE < need N A (card (root_refs N u rts)) u"
        then show ?thesis using step nu by (simp add: frames_eq [OF fu])
      next
        fix w assume w: "fold_res (mark_root N) rts u = Inr w"
          and "list_post N (root_refs N u rts) (map (root_reg u) rts) u w"
        then have postw: "list_post N (root_refs N s rts) (map (root_reg s) rts) u w"
          by (simp add: frames_eq [OF fu])
        have "list_post N ((if into N ?v then {DRoot r} else {}) \<union> root_refs N s rts) (?v # map (root_reg s) rts) s w"
          by (rule list_post_Cons [OF post rec2 same postw])
            (use r in \<open>auto simp: root_refs_def slot_refs_def\<close>)
        then show ?thesis using w step by (simp only: root_refs_Cons fold_res.simps rbind.simps list.map) blast
      qed
    qed
  qed
qed

subsection \<open>The whole phase\<close>

text \<open>What a collection of pool \<open>N\<close> has recorded before it moves the objects.\<close>

definition recorded :: "nat \<Rightarrow> vm \<Rightarrow> bool" where
  "recorded N s \<longleftrightarrow>
     (\<exists>st rest. stages s = st # rest \<and>
        distinct (target_objects st) \<and>
        set (target_objects st) = {a \<in> reach s (root_regs s). Contains N a} \<and>
        estimating_realloc_size st = sum_sizes s (target_objects st) \<and>
        distinct (references_to_targets st) \<and>
        set (references_to_targets st) =
          slot_refs N s (reach s (root_regs s)) \<union> root_refs N s (all_roots s))"

definition unmarked :: "vm \<Rightarrow> bool" where
  "unmarked s \<longleftrightarrow> (\<forall>a b. map_of (objs s) a = Some b \<longrightarrow> o_mark b \<noteq> gc_mark s + 1)"

text \<open>
  The storage the records of a collection of pool \<open>N\<close> take: one pointer for every reachable object
  of the pool, one \<open>DanglingReference\<close> for every reference to such an object.
\<close>

definition stage_bytes :: "nat \<Rightarrow> vm \<Rightarrow> nat" where
  "stage_bytes N s =
     pushed sizeof_target 0 (card {a \<in> reach s (root_regs s). Contains N a}) +
     pushed sizeof_dangling 0 (card (slot_refs N s (reach s (root_regs s))) + card (root_refs N s (all_roots s)))"

text \<open>The cursor of the collector's region after the stage is opened and its records are made.\<close>

definition internals_need :: "nat \<Rightarrow> vm \<Rightarrow> nat" where
  "internals_need N s = gc_cursor s + push_bytes sizeof_stage (length (stages s)) + stage_bytes N s"

definition mark_stage :: "nat \<Rightarrow> vm \<Rightarrow> vm res" where
  "mark_stage N s = rbind (PrepareNewStage s) (MarkAndFetchTargetObjects N)"

lemma mark_phase:
  assumes N: "N \<le> 2" and closed: "closed s (reach s (root_regs s))" and frames: "frames_ok s"
    and roots: "\<forall>r \<in> root_regs s. ref_ok s (reach s (root_regs s)) r" and fresh: "unmarked s"
  shows "(mark_stage N s = oom \<and> unat GC_INTERNALS_SIZE < internals_need N s) \<or>
    (\<exists>t. mark_stage N s = Inr t \<and> gc_cursor t = internals_need N s \<and>
       (gc_cursor s \<le> unat GC_INTERNALS_SIZE \<longrightarrow> internals_need N s \<le> unat GC_INTERNALS_SIZE) \<and>
       graph t = graph s \<and>
       t = s\<lparr>objs := objs t, stages := stages t, gc_mark := gc_mark s + 1, gc_cursor := gc_cursor t\<rparr> \<and>
       tl (stages t) = stages s \<and> recorded N t \<and> marked t = reach s (root_regs s) \<and>
       (\<forall>a b. map_of (objs t) a = Some b \<longrightarrow> map_of (objs s) a = Some b \<or> o_mark b = gc_mark t))"
proof -
  let ?n = "push_bytes sizeof_stage (length (stages s))" and ?A = "reach s (root_regs s)"
  let ?st = "\<lparr>target_objects = [], estimating_realloc_size = 0, references_to_targets = []\<rparr>"
  let ?s0 = "s\<lparr>gc_cursor := gc_cursor s + ?n, stages := ?st # stages s\<rparr>"
  let ?s1 = "InitMark ?s0"
  let ?rts = "all_roots ?s1"
  have g1: "graph ?s1 = graph s" by (simp add: graph_def InitMark_def fun_eq_iff)
  have f1: "frames ?s1 = frames s" by (simp add: InitMark_def)
  have m1: "marked ?s1 = {}" using fresh by (auto simp: marked_def unmarked_def InitMark_def)
  have st1: "stages ?s1 = ?st # stages s" "gc_cursor ?s1 = gc_cursor s + ?n" by (simp_all add: InitMark_def)
  have refs: "root_refs N ?s1 ?rts = root_refs N s (all_roots s)"
    by (simp add: frames_eq [OF f1])
  have nd: "need N ?A (card (root_refs N ?s1 ?rts)) ?s1 = internals_need N s"
    unfolding need_def internals_need_def stage_bytes_def refs
    by (simp add: m1 graph_eq [OF g1] stage_size_def st1)
  show ?thesis
  proof (cases "?n = 0 \<or> gc_cursor s + ?n \<le> unat GC_INTERNALS_SIZE")
    case False
    then show ?thesis by (auto simp: mark_stage_def PrepareNewStage_def push_cases internals_need_def)
  next
    case True
    then have ms: "mark_stage N s = fold_res (mark_root N) ?rts ?s1"
      by (simp add: mark_stage_def PrepareNewStage_def push_cases MarkAndFetchTargetObjects_def Let_def)
    have cur1: "gc_cursor s \<le> unat GC_INTERNALS_SIZE \<Longrightarrow> gc_cursor ?s1 \<le> unat GC_INTERNALS_SIZE" using True st1 by auto
    have "(fold_res (mark_root N) ?rts ?s1 = oom \<and> unat GC_INTERNALS_SIZE < need N ?A (card (root_refs N ?s1 ?rts)) ?s1) \<or>
      (\<exists>t. fold_res (mark_root N) ?rts ?s1 = Inr t \<and>
        list_post N (root_refs N ?s1 ?rts) (map (root_reg ?s1) ?rts) ?s1 t)"
      by (rule mark_roots_spec [OF N])
        (use closed frames roots distinct_all_roots st1 in
          \<open>auto simp: graph_eq [OF g1] frames_eq [OF f1] root_regs_def\<close>)
    then show ?thesis
    proof (elim disjE exE conjE)
      assume "fold_res (mark_root N) ?rts ?s1 = oom" "unat GC_INTERNALS_SIZE < need N ?A (card (root_refs N ?s1 ?rts)) ?s1"
      then show ?thesis by (simp add: ms nd)
    next
      fix t assume t: "fold_res (mark_root N) ?rts ?s1 = Inr t"
        and post: "list_post N (root_refs N ?s1 ?rts) (map (root_reg ?s1) ?rts) ?s1 t"
      have rr: "set (map (root_reg ?s1) ?rts) = root_regs s"
        by (simp add: root_regs_def frames_eq [OF f1])
      from post have rec: "records N (slot_refs N s (marked t) \<union> root_refs N ?s1 ?rts) ?s1 t"
        and bl: "black ?s1 t" and in_roots: "\<forall>v \<in> root_regs s. \<not> IsPrimitive v \<longrightarrow> r_value v \<in> marked t"
        and up: "marked t \<subseteq> ?A"
        unfolding list_post_def rr by (simp_all add: m1 graph_eq [OF g1])
      have "a \<in> marked t" if "a \<in> ?A" for a
        using that
      proof induction
        case (root r)
        then show ?case using in_roots by auto
      next
        case (step a r)
        then show ?case using bl by (auto simp: black_def m1 graph_eq [OF g1])
      qed
      then have mt: "marked t = ?A" using up by auto
      have gt: "graph t = graph s" using records_graph [OF rec] g1 by simp
      have same: "t = ?s1\<lparr>objs := objs t, stages := stages t, gc_cursor := gc_cursor t\<rparr>"
        using records_same [OF rec] by (simp add: same_but_marks_def)
      have ft: "frames t = frames s" by (subst same) (simp add: f1)
      have "recorded N t"
        unfolding recorded_def graph_eq [OF gt] frames_eq [OF ft]
        using rec st1 unfolding records_def refs m1 mt sum_sizes_def graph_eq [OF g1]
        by (auto simp: sum_sizes_def graph_eq [OF gt])
      moreover have "tl (stages t) = stages s" using rec st1 by (auto simp: records_def)
      moreover have "t = s\<lparr>objs := objs t, stages := stages t, gc_mark := gc_mark s + 1, gc_cursor := gc_cursor t\<rparr>"
        by (subst same) (simp add: InitMark_def)
      moreover have "\<forall>a b. map_of (objs t) a = Some b \<longrightarrow> map_of (objs s) a = Some b \<or> o_mark b = gc_mark t"
        using records_same [OF rec] same_fields [OF records_same [OF rec]]
        by (simp add: same_but_marks_def InitMark_def)
      moreover have "gc_cursor t = internals_need N s"
        "gc_cursor s \<le> unat GC_INTERNALS_SIZE \<Longrightarrow> gc_cursor t \<le> unat GC_INTERNALS_SIZE"
      proof -
        have fin: "finite ?A" by (rule card_unmarked(1) [OF closed])
        have "card (slot_refs N s ?A \<union> root_refs N s (all_roots s)) =
            card (slot_refs N s ?A) + card (root_refs N s (all_roots s))"
          using fin by (intro card_Un_disjoint slot_refs_finite)
            (auto simp: slot_refs_def root_refs_def)
        moreover have "\<exists>o1 r1. gc_cursor t = gc_cursor s + ?n + pushed sizeof_target 0 (length o1) +
            pushed sizeof_dangling 0 (length r1) \<and> distinct o1 \<and> distinct r1 \<and>
            set o1 = {a \<in> ?A. Contains N a} \<and> set r1 = slot_refs N s ?A \<union> root_refs N s (all_roots s)"
          using rec st1 unfolding records_def refs m1 mt by auto
        ultimately show "gc_cursor t = internals_need N s"
          unfolding internals_need_def stage_bytes_def by (metis distinct_card add.assoc)
        show "gc_cursor t \<le> unat GC_INTERNALS_SIZE" if "gc_cursor s \<le> unat GC_INTERNALS_SIZE"
          using rec cur1 [OF that] by (auto simp: records_def)
      qed
      ultimately show ?thesis using ms t gt mt by simp
    qed
  qed
qed

end
