(* ===== verification/K3s_Collect.thy ===== *)
theory K3s_Collect
  imports K3s_Mark
begin

text \<open>
  Correctness of a collection (allocator/gc_region.cpp, \<open>CleanupThis\<close>): it keeps the reachable
  objects up to their addresses.  \<open>heap_iso f s t\<close> says that \<open>t\<close> is \<open>s\<close> with every reachable object
  \<open>a\<close> at the address \<open>f a\<close> and every reference redirected; \<open>heap_wf\<close> is the invariant of the
  objects region.  The proof follows the phases: the objects of the region are copied (\<open>move_all\<close>),
  the recorded references are redirected (\<open>rebind_all\<close>), and a collection that first has to collect
  the next pool continues with its recorded work adjusted to the objects that moved.
\<close>

subsection \<open>Regions as intervals\<close>

definition lo :: "nat \<Rightarrow> nat" where "lo N = unat (START_PTR N)"
definition hi :: "nat \<Rightarrow> nat" where "hi N = unat (START_PTR N) + unat (REGION_SIZE N)"
definition used_end :: "vm \<Rightarrow> nat \<Rightarrow> nat" where "used_end s N = unat (START_PTR N) + unat (cursors s N)"

lemma pools: "N \<le> 2 \<longleftrightarrow> N = 0 \<or> N = Suc 0 \<or> N = (2 :: nat)"
  by linarith

lemma lo_hi_values [simp]:
  "lo 2 = 251658240" "lo (Suc 0) = 257949696" "lo 0 = 264241152"
  "hi 2 = 257949696" "hi (Suc 0) = 264241152" "hi 0 = 268435456"
  by (simp_all add: lo_def hi_def)

lemma lo_hi_2 [simp]: "lo (Suc (Suc 0)) = 251658240" "hi (Suc (Suc 0)) = 257949696"
  using lo_hi_values(1,4) by (simp_all add: numeral_2_eq_2 del: lo_hi_values)

lemma Contains_iff: "N \<le> 2 \<Longrightarrow> Contains N a \<longleftrightarrow> lo N \<le> unat a \<and> unat a < hi N"
  by (auto simp: pools Contains_def word_le_nat_alt word_less_nat_alt)

lemma Contains_unique: "Contains M a \<Longrightarrow> Contains N a \<Longrightarrow> M \<le> 2 \<Longrightarrow> N \<le> 2 \<Longrightarrow> M = N"
  by (auto simp: Contains_iff pools)

text \<open>An allocation that fits: its address, its end and the new cursor do not wrap.\<close>

lemma AllocBytes_fits:
  assumes N: "N \<le> 2" and fit: "used_end s N + unat n \<le> hi N"
  shows "AllocBytes N n s = Inr (START_PTR N + cursors s N, s\<lparr>cursors := (cursors s)(N := cursors s N + n)\<rparr>)"
    "unat (START_PTR N + cursors s N) = used_end s N" "unat (cursors s N + n) = unat (cursors s N) + unat n"
    "unat (START_PTR N + cursors s N + n) = used_end s N + unat n"
proof -
  have hi: "hi N \<le> 268435456" using N by (auto simp: pools)
  have c: "unat (cursors s N) + unat n \<le> unat (REGION_SIZE N)" using fit by (simp add: used_end_def hi_def)
  show cn: "unat (cursors s N + n) = unat (cursors s N) + unat n"
    using c hi by (intro unat_add_lem [THEN iffD1]) (simp add: hi_def)
  show a: "unat (START_PTR N + cursors s N) = used_end s N"
    using fit hi unfolding used_end_def by (intro unat_add_lem [THEN iffD1]) simp
  show "unat (START_PTR N + cursors s N + n) = used_end s N + unat n"
    using fit hi by (subst unat_add_lem [THEN iffD1]) (simp_all add: a)
  show "AllocBytes N n s = Inr (START_PTR N + cursors s N, s\<lparr>cursors := (cursors s)(N := cursors s N + n)\<rparr>)"
    using c by (simp add: AllocBytes_def Let_def word_less_nat_alt cn not_less)
qed

subsection \<open>The invariant and the isomorphism\<close>

definition roots_reach :: "vm \<Rightarrow> addr set" where
  "roots_reach s = reach s (root_regs s)"

text \<open>The storage of an object lies in the allocated part of its region.\<close>

definition in_bounds :: "vm \<Rightarrow> addr \<Rightarrow> bool" where
  "in_bounds s a \<longleftrightarrow> (\<exists>N \<le> 2. lo N + 8 \<le> unat a \<and> unat a + unat (size_at s a) \<le> used_end s N)"

definition apart :: "vm \<Rightarrow> addr set \<Rightarrow> bool" where
  "apart s A \<longleftrightarrow> (\<forall>a \<in> A. \<forall>b \<in> A. a \<noteq> b \<longrightarrow>
     unat a + unat (size_at s a) \<le> unat b \<or> unat b + unat (size_at s b) \<le> unat a)"

definition object_ok :: "vm \<Rightarrow> addr \<Rightarrow> bool" where
  "object_ok s a \<longleftrightarrow> (\<exists>n b. graph s a = Some (n, 0, b) \<and> 0 < unat n)"

definition cursors_ok :: "vm \<Rightarrow> bool" where
  "cursors_ok s \<longleftrightarrow> (\<forall>N \<le> 2. lo N + 8 \<le> used_end s N \<and> used_end s N \<le> hi N)"

definition heap_wf :: "vm \<Rightarrow> bool" where
  "heap_wf s \<longleftrightarrow> cursors_ok s \<and> frames_ok s \<and> closed s (roots_reach s) \<and>
     (\<forall>r \<in> root_regs s. ref_ok s (roots_reach s) r) \<and>
     (\<forall>a \<in> roots_reach s. object_ok s a \<and> in_bounds s a) \<and> apart s (roots_reach s)"

lemma heap_wfD:
  assumes "heap_wf s"
  shows "cursors_ok s" "frames_ok s" "closed s (roots_reach s)" "r \<in> root_regs s \<Longrightarrow> ref_ok s (roots_reach s) r"
    "a \<in> roots_reach s \<Longrightarrow> object_ok s a" "a \<in> roots_reach s \<Longrightarrow> in_bounds s a" "apart s (roots_reach s)"
  using assms by (auto simp: heap_wf_def)

text \<open>Marks never exceed the current one, so that the next one is fresh.\<close>

definition marks_ok :: "vm \<Rightarrow> bool" where
  "marks_ok s \<longleftrightarrow> (\<forall>a b. map_of (objs s) a = Some b \<longrightarrow> o_mark b \<le> gc_mark s)"

definition map_reg :: "(addr \<Rightarrow> addr) \<Rightarrow> register \<Rightarrow> register" where
  "map_reg f r = (if IsPrimitive r then r else r\<lparr>r_value := f (r_value r)\<rparr>)"

fun map_body :: "(register \<Rightarrow> register) \<Rightarrow> body \<Rightarrow> body" where
  "map_body f (Array es) = Array (map f es)"
| "map_body f (String bs) = String bs"
| "map_body f (Function p t ins outs) = Function p (f t) (map f ins) (map f outs)"
| "map_body f (Object m fs) = Object m (map f fs)"

definition map_frame :: "(addr \<Rightarrow> addr) \<Rightarrow> frame \<Rightarrow> frame" where
  "map_frame f fr =
     fr\<lparr>f_acc := map_reg f (f_acc fr), f_regs := map (map_reg f) (f_regs fr), f_callee := f (f_callee fr)\<rparr>"

definition heap_iso :: "(addr \<Rightarrow> addr) \<Rightarrow> vm \<Rightarrow> vm \<Rightarrow> bool" where
  "heap_iso f s t \<longleftrightarrow> inj_on f (roots_reach s) \<and> frames t = map (map_frame f) (frames s) \<and>
     (\<forall>a \<in> roots_reach s. \<forall>n p b. graph s a = Some (n, p, b) \<longrightarrow>
        graph t (f a) = Some (n, 0, map_body (map_reg f) b)) \<and>
     pc t = pc s \<and> program t = program s \<and> cpool t = cpool s \<and> out t = out s"

lemma slots_map_body [simp]: "slots (map_body f b) = map f (slots b)"
  by (cases b) simp_all

lemma shape_map_body [simp]: "shape (map_body f b) = shape b"
  by (cases b) simp_all

lemma body_type_map_body [simp]: "body_type (map_body f b) = body_type b"
  by (cases b) simp_all

lemma map_reg_simps [simp]:
  "IsPrimitive (map_reg f r) = IsPrimitive r" "r_type (map_reg f r) = r_type r"
  "\<not> IsPrimitive r \<Longrightarrow> r_value (map_reg f r) = f (r_value r)"
  by (simp_all add: map_reg_def IsPrimitive_def)

lemma callee_not_primitive [simp]: "\<not> IsPrimitive (set_func p)"
  by (simp add: IsPrimitive_def set_func_def)

lemma root_reg_map:
  assumes fr: "frames t = map (map_frame f) (frames s)" and ok: "frames_ok s" and r: "r \<in> set (all_roots s)"
  shows "root_reg t r = map_reg f (root_reg s r)"
proof -
  have i: "root_frame r < length (frames s)" using r by (simp add: set_all_roots)
  then have len: "length (f_regs (frames s ! root_frame r)) = 16" using ok by (simp add: frames_ok_def)
  show ?thesis
    using i r len
    by (cases r) (auto simp: root_reg_def fr map_frame_def map_reg_def set_func_def IsPrimitive_def
        set_all_roots root_frame_def)
qed

lemma root_regs_map:
  assumes fr: "frames t = map (map_frame f) (frames s)" and ok: "frames_ok s"
  shows "root_regs t = map_reg f ` root_regs s"
proof -
  have "all_roots t = all_roots s" by (simp add: all_roots_def fr)
  then show ?thesis using root_reg_map [OF fr ok] by (force simp: root_regs_def image_iff)
qed

lemma iso_slots:
  assumes iso: "heap_iso f s t" and wf: "heap_wf s" and a: "a \<in> roots_reach s"
  shows "slots_at t (f a) = map (map_reg f) (slots_at s a)" "size_at t (f a) = size_at s a" "object_ok t (f a)"
proof -
  from heap_wfD(5) [OF wf a] obtain n b where "graph s a = Some (n, 0, b)" "0 < unat n" by (auto simp: object_ok_def)
  moreover from this iso a have "graph t (f a) = Some (n, 0, map_body (map_reg f) b)" by (auto simp: heap_iso_def)
  ultimately show "slots_at t (f a) = map (map_reg f) (slots_at s a)" "size_at t (f a) = size_at s a" "object_ok t (f a)"
    by (auto simp: slots_at_def size_at_def object_ok_def)
qed

lemma reach_closed: "a \<in> roots_reach s \<Longrightarrow> r \<in> set (slots_at s a) \<Longrightarrow> \<not> IsPrimitive r \<Longrightarrow> r_value r \<in> roots_reach s"
  unfolding roots_reach_def by (rule reach.step)

lemma roots_reach_root: "r \<in> root_regs s \<Longrightarrow> \<not> IsPrimitive r \<Longrightarrow> r_value r \<in> roots_reach s"
  unfolding roots_reach_def by (rule reach.root)

text \<open>What is reachable afterwards is the image of what was reachable.\<close>

lemma iso_reach:
  assumes iso: "heap_iso f s t" and wf: "heap_wf s"
  shows "roots_reach t = f ` roots_reach s"
proof
  have rr: "root_regs t = map_reg f ` root_regs s"
    using root_regs_map iso heap_wfD(2) [OF wf] by (auto simp: heap_iso_def)
  show "roots_reach t \<subseteq> f ` roots_reach s"
  proof
    fix x assume "x \<in> roots_reach t"
    then show "x \<in> f ` roots_reach s"
      unfolding roots_reach_def [of t]
    proof induction
      case (root r)
      then show ?case using roots_reach_root by (auto simp: rr)
    next
      case (step a r)
      then obtain a0 where a0: "a = f a0" "a0 \<in> roots_reach s" by auto
      then show ?case using step reach_closed [OF a0(2)] iso_slots(1) [OF iso wf a0(2)] by auto
    qed
  qed
  show "f ` roots_reach s \<subseteq> roots_reach t"
  proof clarify
    fix a assume "a \<in> roots_reach s"
    then show "f a \<in> roots_reach t"
      unfolding roots_reach_def [of s]
    proof induction
      case (root r)
      then have "map_reg f r \<in> root_regs t" by (simp add: rr)
      from roots_reach_root [OF this] root show ?case by simp
    next
      case (step a r)
      have "map_reg f r \<in> set (slots_at t (f a))"
        using step iso_slots(1) [OF iso wf, of a] by (simp add: roots_reach_def)
      from reach_closed [OF step(4) this] step show ?case by simp
    qed
  qed
qed

lemma iso_ref_ok:
  assumes iso: "heap_iso f s t" and wf: "heap_wf s" and r: "ref_ok s (roots_reach s) r"
  shows "ref_ok t (roots_reach t) (map_reg f r)"
proof (cases "IsPrimitive r")
  case False
  then obtain n p b where a: "r_value r \<in> roots_reach s" "graph s (r_value r) = Some (n, p, b)"
    and ty: "body_type b = r_type r" using r by (auto simp: ref_ok_def)
  then have "graph t (f (r_value r)) = Some (n, 0, map_body (map_reg f) b)" using iso by (auto simp: heap_iso_def)
  then show ?thesis using False a ty by (auto simp: ref_ok_def iso_reach [OF iso wf])
qed (simp add: ref_ok_def)

text \<open>Only the placement of the new objects is left to check of the invariant.\<close>

lemma iso_wf:
  assumes iso: "heap_iso f s t" and wf: "heap_wf s" and c: "cursors_ok t"
    and place: "\<And>a. a \<in> roots_reach s \<Longrightarrow> in_bounds t (f a)"
    and apart: "\<And>a b. a \<in> roots_reach s \<Longrightarrow> b \<in> roots_reach s \<Longrightarrow> a \<noteq> b \<Longrightarrow>
      unat (f a) + unat (size_at s a) \<le> unat (f b) \<or> unat (f b) + unat (size_at s b) \<le> unat (f a)"
  shows "heap_wf t"
proof -
  have reach: "roots_reach t = f ` roots_reach s" by (rule iso_reach [OF iso wf])
  have fr: "frames t = map (map_frame f) (frames s)" using iso by (simp add: heap_iso_def)
  have "closed t (roots_reach t)"
    using iso_slots [OF iso wf] iso_ref_ok [OF iso wf] closedD(2) [OF heap_wfD(3) [OF wf]]
    by (fastforce simp: closed_def reach object_ok_def)
  moreover have "\<forall>r \<in> root_regs t. ref_ok t (roots_reach t) r"
    using iso_ref_ok [OF iso wf] heap_wfD(4) [OF wf] root_regs_map [OF fr heap_wfD(2) [OF wf]] by auto
  moreover have "apart t (roots_reach t)"
    using apart iso_slots(2) [OF iso wf] by (fastforce simp: apart_def reach)
  moreover have "frames_ok t" using heap_wfD(2) [OF wf] by (auto simp: frames_ok_def fr map_frame_def)
  ultimately show ?thesis
    using c place iso_slots(3) [OF iso wf] by (simp add: heap_wf_def reach)
qed

subsection \<open>Moving the objects\<close>

text \<open>An address that an allocation in region \<open>M\<close> cannot overwrite.\<close>

definition kept :: "vm \<Rightarrow> nat \<Rightarrow> addr \<Rightarrow> bool" where
  "kept s M x \<longleftrightarrow> unat x < used_end s M \<or> hi M \<le> unat x"

definition sizes :: "vm \<Rightarrow> addr list \<Rightarrow> nat" where
  "sizes s as = sum_list (map (\<lambda>a. unat (size_at s a)) as)"

lemma graph_hput: "graph (hput a b s) x = (if x = a then Some (o_size b, o_reloc b, o_body b) else graph s x)"
  by (simp add: graph_def)

lemma graph_place:
  assumes M: "M \<le> 2" and fit: "used_end s M + unat n \<le> hi M" and n: "0 < unat n"
    and x: "kept s M x \<or> unat x = used_end s M"
  shows "graph (place (START_PTR M + cursors s M) n b s') x =
    (if x = START_PTR M + cursors s M then Some (o_size b, o_reloc b, o_body b) else graph s' x)"
proof -
  note f = AllocBytes_fits [OF M fit]
  have "\<not> (START_PTR M + cursors s M \<le> x \<and> x < START_PTR M + cursors s M + n)"
    if "x \<noteq> START_PTR M + cursors s M"
  proof -
    have "unat x \<noteq> used_end s M" using that f(2) by (metis unat_eq_iff)
    then show ?thesis using x fit by (auto simp: word_le_nat_alt word_less_nat_alt f(2,4) kept_def)
  qed
  then show ?thesis by (auto simp: graph_def)
qed

text \<open>One object: it is copied to the end of the region, and its old header points there.\<close>

lemma move_object_spec:
  assumes M: "M \<le> 1" and g: "graph s a = Some (n, 0, b)" and n: "0 < unat n"
    and fit: "used_end s M + unat n \<le> hi M" and a: "kept s M a"
  shows "\<exists>t. move_object (Suc M) a s = Inr t \<and> t = s\<lparr>objs := objs t, cursors := cursors t\<rparr> \<and>
    cursors t = (cursors s)(M := cursors s M + n) \<and>
    used_end t M = used_end s M + unat n \<and>
    (\<forall>x. kept s M x \<longrightarrow> kept t M x \<and>
       graph t x = (if x = a then Some (n, START_PTR M + cursors s M, b) else graph s x)) \<and>
    graph t (START_PTR M + cursors s M) = Some (n, 0, b) \<and> kept t M (START_PTR M + cursors s M) \<and>
    (marks_ok s \<longrightarrow> marks_ok t)"
proof -
  let ?new = "START_PTR M + cursors s M"
  have M2: "M \<le> 2" using M by simp
  note f = AllocBytes_fits [OF M2 fit]
  from g obtain ob where ob: "map_of (objs s) a = Some ob" "o_size ob = n" "o_reloc ob = 0" "o_body ob = b"
    by (auto simp: graph_Some_iff)
  let ?s1 = "s\<lparr>cursors := (cursors s)(M := cursors s M + n)\<rparr>"
  let ?t = "hput a (ob\<lparr>o_reloc := ?new\<rparr>) (place ?new n ob ?s1)"
  have kept_ne: "x \<noteq> ?new" if "kept s M x" for x
  proof
    assume "x = ?new"
    then have "unat x = used_end s M" using f(2) by simp
    then show False using that fit n by (simp add: kept_def)
  qed
  have ue: "used_end ?t M = used_end s M + unat n" using f(3) by (simp add: used_end_def)
  show ?thesis
  proof (intro exI [of _ ?t] conjI allI impI)
    show "move_object (Suc M) a s = Inr ?t"
      using ob f(1) by (simp add: move_object_def hget_def)
    show "?t = s\<lparr>objs := objs ?t, cursors := cursors ?t\<rparr>" by (simp add: hput_def place_def)
    show "cursors ?t = (cursors s)(M := cursors s M + n)" by simp
    show "used_end ?t M = used_end s M + unat n" by (rule ue)
    show "graph ?t x = (if x = a then Some (n, ?new, b) else graph s x)" if "kept s M x" for x
      using graph_place [OF M2 fit n, of x ob ?s1] that kept_ne [OF that] ob by (auto simp: graph_hput graph_def)
    show "graph ?t ?new = Some (n, 0, b)"
      using graph_place [OF M2 fit n, of ?new ob ?s1] f(2) kept_ne [OF a] ob by (auto simp: graph_hput)
    show "kept ?t M x" if "kept s M x" for x using that unfolding kept_def ue by auto
    show "kept ?t M ?new" using n unfolding kept_def ue f(2) by simp
    show "marks_ok ?t" if "marks_ok s"
      using that ob by (auto simp: marks_ok_def split: if_splits)
  qed
qed

text \<open>
  The whole loop: every recorded object ends up in a block of its own between the old and the new
  end of the region, with its old header pointing to it; everything else is untouched.
\<close>

definition moved_to :: "vm \<Rightarrow> vm \<Rightarrow> addr \<Rightarrow> addr" where
  "moved_to s t a = (case graph t a of Some (n, p, b) \<Rightarrow> p | None \<Rightarrow> 0)"

definition copied :: "vm \<Rightarrow> vm \<Rightarrow> nat \<Rightarrow> addr set \<Rightarrow> bool" where
  "copied s t M A \<longleftrightarrow>
     (\<forall>a \<in> A. \<exists>n b. graph s a = Some (n, 0, b) \<and> graph t a = Some (n, moved_to s t a, b) \<and>
        graph t (moved_to s t a) = Some (n, 0, b) \<and>
        used_end s M \<le> unat (moved_to s t a) \<and> unat (moved_to s t a) + unat n \<le> used_end t M) \<and>
     (\<forall>a \<in> A. \<forall>b \<in> A. a \<noteq> b \<longrightarrow>
        unat (moved_to s t a) + unat (size_at s a) \<le> unat (moved_to s t b) \<or>
        unat (moved_to s t b) + unat (size_at s b) \<le> unat (moved_to s t a)) \<and>
     (\<forall>x. kept s M x \<longrightarrow> x \<notin> A \<longrightarrow> graph t x = graph s x)"

definition set_targets :: "addr list \<Rightarrow> vm \<Rightarrow> vm" where
  "set_targets as s = (case stages s of st # rest \<Rightarrow> s\<lparr>stages := st\<lparr>target_objects := as\<rparr> # rest\<rparr> | [] \<Rightarrow> s)"

lemma set_targets_simps [simp]:
  "graph (set_targets as s) = graph s" "cursors (set_targets as s) = cursors s"
  "used_end (set_targets as s) = used_end s" "kept (set_targets as s) = kept s"
  "marks_ok (set_targets as s) = marks_ok s" "frames (set_targets as s) = frames s"
  by (simp_all add: set_targets_def graph_def fun_eq_iff used_end_def kept_def marks_ok_def split: list.splits)

lemma PopAlive_Cons:
  assumes "stages s = st # rest" "target_objects st = a # as" "a \<noteq> 0" "graph s a = Some (n, 0, b)"
  shows "PopAliveObject s = Inr (Some a, set_targets as s)"
  using assms by (auto simp: PopAliveObject_def with_stage_def hget_def graph_Some_iff set_targets_def set_stage_def)

lemma lo_pos: "M \<le> 2 \<Longrightarrow> 0 < lo M"
  by (auto simp: pools)

lemma move_all:
  assumes "M \<le> 1" "stages s = st # rest" "target_objects st = as" "distinct as" "0 \<notin> set as"
    "\<And>a. a \<in> set as \<Longrightarrow> object_ok s a \<and> kept s (M) a"
    "used_end s (M) + sizes s as \<le> hi (M)"
  shows "\<exists>t. move_loop (Suc (length as)) (Suc M) s = Inr t \<and>
    t = s\<lparr>objs := objs t, cursors := cursors t, stages := st\<lparr>target_objects := []\<rparr> # rest\<rparr> \<and>
    (\<forall>K. K \<noteq> M \<longrightarrow> cursors t K = cursors s K) \<and>
    used_end t (M) = used_end s (M) + sizes s as \<and>
    copied s t (M) (set as) \<and> (marks_ok s \<longrightarrow> marks_ok t)"
  using assms
proof (induction as arbitrary: s st)
  case Nil
  then have "move_loop (Suc 0) (Suc M) s = Inr s"
    by (simp add: PopAliveObject_def with_stage_def)
  moreover have "s = s\<lparr>objs := objs s, cursors := cursors s, stages := st\<lparr>target_objects := []\<rparr> # rest\<rparr>"
    using Nil.prems(2,3) by (cases s, cases st) auto
  ultimately show ?case by (auto simp: sizes_def copied_def)
next
  case (Cons a as)
  from Cons.prems(6) [of a] obtain n b where g: "graph s a = Some (n, 0, b)" and n: "0 < unat n" and ka: "kept s M a"
    by (auto simp: object_ok_def)
  have sz: "size_at s a = n" using g by (simp add: size_at_def)
  let ?s1 = "set_targets as s"
  have st1: "stages ?s1 = st\<lparr>target_objects := as\<rparr> # rest" using Cons.prems(2) by (simp add: set_targets_def)
  have pop: "PopAliveObject s = Inr (Some a, ?s1)"
    by (rule PopAlive_Cons [OF Cons.prems(2,3) _ g]) (use Cons.prems(5) in auto)
  have fit: "used_end ?s1 M + unat n \<le> hi M" using Cons.prems(7) by (simp add: sizes_def sz)
  let ?new = "START_PTR M + cursors s M"
  have "graph ?s1 a = Some (n, 0, b)" "kept ?s1 M a" using g ka by simp_all
  from move_object_spec [OF Cons.prems(1) this(1) n fit this(2)]
  obtain s2 where mv: "move_object (Suc M) a ?s1 = Inr s2"
    and s2: "s2 = ?s1\<lparr>objs := objs s2, cursors := cursors s2\<rparr>" "cursors s2 = (cursors s)(M := cursors s M + n)"
      "used_end s2 M = used_end s M + unat n"
      "\<forall>x. kept s M x \<longrightarrow> kept s2 M x \<and> graph s2 x = (if x = a then Some (n, ?new, b) else graph s x)"
      "graph s2 ?new = Some (n, 0, b)" "kept s2 M ?new" "marks_ok s \<longrightarrow> marks_ok s2"
    unfolding set_targets_simps by - (elim exE conjE, rule that)
  have unew: "unat ?new = used_end s M"
    using AllocBytes_fits(2) [of M ?s1 n] fit Cons.prems(1,2) by simp
  have new_as: "?new \<notin> set (a # as)"
  proof
    assume "?new \<in> set (a # as)"
    then have "kept s M ?new" using Cons.prems(6) by blast
    then show False using unew fit n by (simp add: kept_def)
  qed
  have same: "graph s2 x = graph s x" if "x \<in> set as" for x
    using s2(4) Cons.prems(4,6) that by auto
  then have size2: "size_at s2 x = size_at s x" if "x \<in> set as" for x using that by (simp add: size_at_def)
  have szs: "sizes s2 as = sizes s as"
    unfolding sizes_def using size2 by (intro arg_cong [of _ _ sum_list] map_cong) auto
  have stage2: "stages s2 = st\<lparr>target_objects := as\<rparr> # rest" by (subst s2(1)) (simp add: st1)
  have "\<exists>t. move_loop (Suc (length as)) (Suc M) s2 = Inr t \<and>
    t = s2\<lparr>objs := objs t, cursors := cursors t, stages := (st\<lparr>target_objects := as\<rparr>)\<lparr>target_objects := []\<rparr> # rest\<rparr> \<and>
    (\<forall>K. K \<noteq> M \<longrightarrow> cursors t K = cursors s2 K) \<and>
    used_end t (M) = used_end s2 (M) + sizes s2 as \<and>
    copied s2 t (M) (set as) \<and> (marks_ok s2 \<longrightarrow> marks_ok t)"
  proof (rule Cons.IH [OF Cons.prems(1) stage2])
    show "object_ok s2 x \<and> kept s2 M x" if "x \<in> set as" for x
      using Cons.prems(6) [of x] that same [OF that] s2(4) by (auto simp: object_ok_def)
    show "used_end s2 M + sizes s2 as \<le> hi M"
      using Cons.prems(7) by (simp add: szs s2(3)) (simp add: sizes_def sz)
  qed (use Cons.prems in auto)
  then obtain t where t: "move_loop (Suc (length as)) (Suc M) s2 = Inr t"
    "t = s2\<lparr>objs := objs t, cursors := cursors t, stages := (st\<lparr>target_objects := as\<rparr>)\<lparr>target_objects := []\<rparr> # rest\<rparr>"
    "\<forall>K. K \<noteq> M \<longrightarrow> cursors t K = cursors s2 K"
    "used_end t M = used_end s2 M + sizes s2 as" "copied s2 t M (set as)" "marks_ok s2 \<longrightarrow> marks_ok t"
    by blast
  have keep: "graph t x = graph s2 x" if "kept s2 M x" "x \<notin> set as" for x
    using t(5) that by (simp add: copied_def)
  have ta: "graph t a = Some (n, ?new, b)" "graph t ?new = Some (n, 0, b)"
    using keep [of a] keep [of ?new] s2(4,5,6) ka new_as Cons.prems(4) by auto
  then have na: "moved_to s t a = ?new" by (simp add: moved_to_def)
  have mt: "moved_to s t x = moved_to s2 t x" for x by (simp add: moved_to_def)
  have each: "\<exists>n b. graph s x = Some (n, 0, b) \<and> graph t x = Some (n, moved_to s t x, b) \<and>
      graph t (moved_to s t x) = Some (n, 0, b) \<and>
      used_end s2 M \<le> unat (moved_to s t x) \<and> unat (moved_to s t x) + unat n \<le> used_end t M"
    if "x \<in> set as" for x
    using t(5) that same [OF that] unfolding copied_def mt [symmetric] by auto
  have "copied s t M (set (a # as))"
    unfolding copied_def
  proof (intro conjI ballI impI allI)
    fix x assume "x \<in> set (a # as)"
    then show "\<exists>n b. graph s x = Some (n, 0, b) \<and> graph t x = Some (n, moved_to s t x, b) \<and>
        graph t (moved_to s t x) = Some (n, 0, b) \<and>
        used_end s M \<le> unat (moved_to s t x) \<and> unat (moved_to s t x) + unat n \<le> used_end t M"
      using each [of x] g ta na unew s2(3) t(4) by fastforce
  next
    fix x y assume xy: "x \<in> set (a # as)" "y \<in> set (a # as)" "x \<noteq> y"
    have first: "unat (moved_to s t a) + unat (size_at s a) \<le> unat (moved_to s t z)" if "z \<in> set as" for z
      using each [OF that] unew s2(3) by (auto simp: na sz)
    have rest: "unat (moved_to s t x) + unat (size_at s x) \<le> unat (moved_to s t y) \<or>
        unat (moved_to s t y) + unat (size_at s y) \<le> unat (moved_to s t x)"
      if "x \<in> set as" "y \<in> set as"
      using t(5) xy(3) that size2 unfolding copied_def mt [symmetric] by auto
    show "unat (moved_to s t x) + unat (size_at s x) \<le> unat (moved_to s t y) \<or>
        unat (moved_to s t y) + unat (size_at s y) \<le> unat (moved_to s t x)"
      using xy first rest by auto
  next
    fix x assume x: "kept s M x" "x \<notin> set (a # as)"
    then show "graph t x = graph s x" using keep [of x] s2(4) by auto
  qed
  moreover have "t = s\<lparr>objs := objs t, cursors := cursors t, stages := st\<lparr>target_objects := []\<rparr> # rest\<rparr>"
    using t(2) s2(1) Cons.prems(2) by (cases s, cases s2, cases t) (auto simp: set_targets_def)
  moreover have "move_loop (Suc (length (a # as))) (Suc M) s = Inr t" using pop mv t(1) by simp
  moreover have "\<forall>K. K \<noteq> M \<longrightarrow> cursors t K = cursors s K" using t(3) s2(2) by simp
  moreover have "used_end t M = used_end s M + sizes s (a # as)" using t(4) s2(3) szs by (simp add: sizes_def sz)
  moreover have "marks_ok s \<longrightarrow> marks_ok t" using s2(7) t(6) by simp
  ultimately show ?case by blast
qed

subsection \<open>Redirecting the references\<close>

text \<open>Where the objects of a collected region go: out of it, to distinct places.\<close>

definition moving :: "nat \<Rightarrow> vm \<Rightarrow> (addr \<Rightarrow> addr) \<Rightarrow> bool" where
  "moving N s0 f \<longleftrightarrow> inj_on f (roots_reach s0) \<and>
     (\<forall>a \<in> roots_reach s0. if Contains N a then f a \<noteq> 0 \<and> \<not> Contains N (f a) else f a = a)"

definition all_refs :: "nat \<Rightarrow> vm \<Rightarrow> dangling set" where
  "all_refs N s = slot_refs N s (roots_reach s) \<union> root_refs N s (all_roots s)"

text \<open>A register is redirected once its reference is no longer pending.\<close>

definition fixed_reg :: "nat \<Rightarrow> vm \<Rightarrow> (addr \<Rightarrow> addr) \<Rightarrow> dangling set \<Rightarrow> dangling \<Rightarrow> register \<Rightarrow> register" where
  "fixed_reg N s0 f P d r = (if d \<in> all_refs N s0 - P then map_reg f r else r)"

definition fixed_slots :: "nat \<Rightarrow> vm \<Rightarrow> (addr \<Rightarrow> addr) \<Rightarrow> dangling set \<Rightarrow> addr \<Rightarrow> register list \<Rightarrow> register list" where
  "fixed_slots N s0 f P h rs = map (\<lambda>i. fixed_reg N s0 f P (DSlot h i) (rs ! i)) [0..<length rs]"

definition home_ok :: "nat \<Rightarrow> vm \<Rightarrow> (addr \<Rightarrow> addr) \<Rightarrow> dangling set \<Rightarrow> vm \<Rightarrow> addr \<Rightarrow> bool" where
  "home_ok N s0 f P s h \<longleftrightarrow>
     (\<exists>n b b'. graph s0 h = Some (n, 0, b) \<and> graph s (f h) = Some (n, 0, b') \<and> shape b' = shape b \<and>
        slots b' = fixed_slots N s0 f P h (slots b) \<and>
        (Contains N h \<longrightarrow> graph s h = Some (n, f h, b)))"

definition rebinding :: "nat \<Rightarrow> vm \<Rightarrow> (addr \<Rightarrow> addr) \<Rightarrow> dangling set \<Rightarrow> vm \<Rightarrow> bool" where
  "rebinding N s0 f P s \<longleftrightarrow>
     length (frames s) = length (frames s0) \<and> frames_ok s \<and>
     map f_caller_pc (frames s) = map f_caller_pc (frames s0) \<and>
     (\<forall>r \<in> set (all_roots s0). root_reg s r = fixed_reg N s0 f P (DRoot r) (root_reg s0 r)) \<and>
     (\<forall>h \<in> roots_reach s0. home_ok N s0 f P s h)"

lemma length_fixed_slots [simp]: "length (fixed_slots N s0 f P h rs) = length rs"
  by (simp add: fixed_slots_def)

lemma nth_fixed_slots [simp]:
  "i < length rs \<Longrightarrow> fixed_slots N s0 f P h rs ! i = fixed_reg N s0 f P (DSlot h i) (rs ! i)"
  by (simp add: fixed_slots_def)

lemma fixed_pending [simp]: "d \<in> P \<Longrightarrow> fixed_reg N s0 f P d r = r"
  by (simp add: fixed_reg_def)

lemma fixed_done: "d \<in> all_refs N s0 \<Longrightarrow> fixed_reg N s0 f (P - {d}) d r = map_reg f r"
  by (simp add: fixed_reg_def)

lemma fixed_other: "d \<noteq> e \<Longrightarrow> fixed_reg N s0 f (P - {e}) d r = fixed_reg N s0 f P d r"
  by (simp add: fixed_reg_def)

text \<open>The pointer a root holds after \<open>write_root\<close>.\<close>

lemma write_root_spec:
  assumes ok: "frames_ok s" and r: "r \<in> set (all_roots s)" and np: "\<not> IsPrimitive (root_reg s r)"
  shows "length (frames (write_root r a s)) = length (frames s)" "frames_ok (write_root r a s)"
    "map f_caller_pc (frames (write_root r a s)) = map f_caller_pc (frames s)"
    "all_roots (write_root r a s) = all_roots s"
    "q \<in> set (all_roots s) \<Longrightarrow> root_reg (write_root r a s) q =
       (if q = r then (root_reg s r)\<lparr>r_value := a\<rparr> else root_reg s q)"
    "graph (write_root r a s) = graph s"
proof -
  have i: "root_frame r < length (frames s)" using r by (simp add: set_all_roots)
  then have len: "length (f_regs (frames s ! root_frame r)) = 16" using ok by (simp add: frames_ok_def)
  show l: "length (frames (write_root r a s)) = length (frames s)" by (simp add: write_root_def)
  have frame: "length (f_regs (write_root_frame r a f)) = length (f_regs f)"
    "f_caller_pc (write_root_frame r a f) = f_caller_pc f" for f
    by (cases r; simp add: write_root_frame_def)+
  show "frames_ok (write_root r a s)"
    using ok i len by (auto simp: frames_ok_def write_root_def frame all_set_conv_all_nth nth_list_update)
  show "map f_caller_pc (frames (write_root r a s)) = map f_caller_pc (frames s)"
    using i by (intro nth_equalityI) (auto simp: write_root_def nth_list_update frame)
  show "all_roots (write_root r a s) = all_roots s" by (simp add: all_roots_def l)
  show "graph (write_root r a s) = graph s" by (simp add: graph_def write_root_def fun_eq_iff)
  show "root_reg (write_root r a s) q = (if q = r then (root_reg s r)\<lparr>r_value := a\<rparr> else root_reg s q)"
    if q: "q \<in> set (all_roots s)"
  proof -
    have qi: "root_frame q < length (frames s)" "case q of RReg i j \<Rightarrow> j < 16 | _ \<Rightarrow> True"
      using q by (simp_all add: set_all_roots)
    show ?thesis
      using qi i len
      by (cases r; cases q)
        (simp_all add: root_reg_def write_root_def write_root_frame_def root_frame_def nth_list_update set_func_def)
  qed
qed

lemma into_target:
  assumes wf: "heap_wf s" and d: "into N r" and r: "r \<in> root_regs s \<or> (\<exists>h \<in> roots_reach s. r \<in> set (slots_at s h))"
  shows "r_value r \<in> roots_reach s" "Contains N (r_value r)" "\<not> IsPrimitive r"
  using assms roots_reach_root reach_closed by (auto simp: into_def)

text \<open>The header of an object that was in the region points to its copy.\<close>

lemma reloc_moved:
  assumes rb: "rebinding N s0 f P s" and a: "a \<in> roots_reach s0" "Contains N a"
  shows "reloc_of a s = Inr (f a)"
  using rb a by (auto simp: rebinding_def home_ok_def reloc_of_def hget_def graph_Some_iff dest!: bspec)

lemma reloc_kept:
  assumes rb: "rebinding N s0 f P s" and mv: "moving N s0 f" and a: "a \<in> roots_reach s0" "\<not> Contains N a"
  shows "reloc_of a s = Inr 0"
proof -
  have "f a = a" using mv a by (auto simp: moving_def split: if_splits dest!: bspec)
  then show ?thesis
    using rb a by (auto simp: rebinding_def home_ok_def reloc_of_def hget_def graph_Some_iff dest!: bspec)
qed

lemma fix_root:
  assumes wf: "heap_wf s0" and mv: "moving N s0 f" and rb: "rebinding N s0 f P s"
    and d: "DRoot r \<in> P" "DRoot r \<in> all_refs N s0"
  shows "\<exists>t. Fix (DRoot r) s = Inr t \<and> rebinding N s0 f (P - {DRoot r}) t \<and> t = s\<lparr>frames := frames t\<rparr>"
proof -
  have r: "r \<in> set (all_roots s0)" and into: "into N (root_reg s0 r)"
    using d(2) by (auto simp: all_refs_def slot_refs_def root_refs_def)
  let ?v = "root_reg s0 r"
  note tgt = into_target [OF wf into disjI1]
  have v_in: "?v \<in> root_regs s0" using r by (auto simp: root_regs_def)
  have all: "all_roots s = all_roots s0" and ok: "frames_ok s"
    using rb by (auto simp: rebinding_def all_roots_def)
  have v: "root_reg s r = ?v" using rb r d(1) by (auto simp: rebinding_def)
  have fp: "f (r_value ?v) \<noteq> 0" using mv tgt [OF v_in] by (auto simp: moving_def)
  let ?t = "write_root r (f (r_value ?v)) s"
  have fx: "Fix (DRoot r) s = Inr ?t"
    using read_root_eq [OF ok, of r] r all v reloc_moved [OF rb tgt(1,2) [OF v_in]] fp by (simp add: Fix_def)
  have np: "\<not> IsPrimitive (root_reg s r)" using tgt(3) [OF v_in] v by simp
  note w = write_root_spec [OF ok _ np, unfolded all, OF r]
  have "rebinding N s0 f (P - {DRoot r}) ?t"
    unfolding rebinding_def
  proof (intro conjI ballI)
    show "length (frames ?t) = length (frames s0)" "frames_ok ?t"
      "map f_caller_pc (frames ?t) = map f_caller_pc (frames s0)"
      using w(1-3) rb by (auto simp: rebinding_def)
    show "root_reg ?t q = fixed_reg N s0 f (P - {DRoot r}) (DRoot q) (root_reg s0 q)" if q: "q \<in> set (all_roots s0)" for q
    proof (cases "q = r")
      case True
      then show ?thesis
        using w(5) [OF q] v tgt(3) [OF v_in] fixed_done [OF d(2)] by (simp add: map_reg_def)
    next
      case False
      then show ?thesis
        using w(5) [OF q] rb q fixed_other [of "DRoot q" "DRoot r"] by (simp add: rebinding_def)
    qed
    show "home_ok N s0 f (P - {DRoot r}) ?t h" if "h \<in> roots_reach s0" for h
    proof -
      have "fixed_slots N s0 f (P - {DRoot r}) h rs = fixed_slots N s0 f P h rs" for rs
        by (simp add: fixed_slots_def fixed_other)
      then show ?thesis using rb that by (simp add: rebinding_def home_ok_def w(6))
    qed
  qed
  then show ?thesis using fx by (auto simp: write_root_def)
qed

lemma graph_write_slot:
  "map_of (objs s) h = Some b \<Longrightarrow> i < length (slots (o_body b)) \<Longrightarrow> graph (write_slot h i p b s) x =
     (if x = h then Some (o_size b, o_reloc b, set_slot (o_body b) i ((slots (o_body b) ! i)\<lparr>r_value := p\<rparr>))
      else graph s x)"
  by (simp add: write_slot_def graph_hput)

lemma fix_slot:
  assumes N: "N \<le> 2" and wf: "heap_wf s0" and mv: "moving N s0 f" and rb: "rebinding N s0 f P s"
    and d: "DSlot h i \<in> P" "DSlot h i \<in> all_refs N s0"
  shows "\<exists>t. Fix (DSlot h i) s = Inr t \<and> rebinding N s0 f (P - {DSlot h i}) t \<and> t = s\<lparr>objs := objs t\<rparr> \<and>
    (marks_ok s \<longrightarrow> marks_ok t)"
proof -
  let ?d = "DSlot h i"
  have h: "h \<in> roots_reach s0" and i: "i < length (slots_at s0 h)" and into: "into N (slots_at s0 h ! i)"
    using d(2) by (auto simp: all_refs_def slot_refs_def root_refs_def)
  let ?v = "slots_at s0 h ! i"
  let ?p = "r_value ?v"
  have tgt: "?p \<in> roots_reach s0" "Contains N ?p" "\<not> IsPrimitive ?v"
    using into_target [OF wf into] h nth_mem [OF i] by blast+
  have fp: "f ?p \<noteq> 0" using mv tgt by (auto simp: moving_def)
  have inj: "inj_on f (roots_reach s0)" using mv by (simp add: moving_def)
  from rb h have "home_ok N s0 f P s h" by (simp add: rebinding_def)
  then obtain n b b' where g0: "graph s0 h = Some (n, 0, b)" and gf: "graph s (f h) = Some (n, 0, b')"
    and sh: "shape b' = shape b" and sl: "slots b' = fixed_slots N s0 f P h (slots b)"
    and old: "Contains N h \<longrightarrow> graph s h = Some (n, f h, b)"
    unfolding home_ok_def by blast
  have sl0: "slots_at s0 h = slots b" using g0 by (simp add: slots_at_def)
  have len: "length (slots b') = length (slots b)" by (simp add: sl)
  have v': "slots b' ! i = ?v" using i d(1) by (simp add: sl sl0)
  obtain ob where ob: "map_of (objs s) (f h) = Some ob" "o_size ob = n" "o_reloc ob = 0" "o_body ob = b'"
    using gf by (auto simp: graph_Some_iff)
  have rel_p: "reloc_of ?p s = Inr (f ?p)" by (rule reloc_moved [OF rb tgt(1,2)])
  have slot_new: "slot_ptr (f h) i s = Inr ?p"
    using ob i len v' by (simp add: slot_ptr_def hget_def sl0)
  let ?t = "write_slot (f h) i (f ?p) ob s"
  have set_new: "set_slot_ptr (f h) i (f ?p) s = Inr ?t"
    using ob i len by (simp add: set_slot_ptr_def hget_def sl0)
  have fx: "Fix ?d s = Inr ?t"
  proof (cases "Contains N h")
    case True
    have "slot_ptr h i s = Inr ?p"
      using old True i by (auto simp: slot_ptr_def hget_def graph_Some_iff sl0)
    moreover have "reloc_of h s = Inr (f h)" by (rule reloc_moved [OF rb h True])
    moreover have "f h \<noteq> 0" using mv h True by (auto simp: moving_def)
    ultimately show ?thesis using rel_p fp slot_new set_new by (simp add: Fix_def)
  next
    case False
    then have "f h = h" using mv h by (auto simp: moving_def)
    moreover have "reloc_of h s = Inr 0" by (rule reloc_kept [OF rb mv h False])
    ultimately show ?thesis using rel_p fp slot_new set_new by (simp add: Fix_def)
  qed
  have gt: "graph ?t x = (if x = f h then Some (n, 0, set_slot b' i ((slots b' ! i)\<lparr>r_value := f ?p\<rparr>)) else graph s x)" for x
    using graph_write_slot [OF ob(1), of i "f ?p" x] ob i len by (simp add: sl0)
  have ft: "frames ?t = frames s" by (simp add: write_slot_def)
  have nb: "slots (set_slot b' i ((slots b' ! i)\<lparr>r_value := f ?p\<rparr>)) = fixed_slots N s0 f (P - {?d}) h (slots b)"
  proof (rule nth_equalityI)
    fix k assume "k < length (slots (set_slot b' i ((slots b' ! i)\<lparr>r_value := f ?p\<rparr>)))"
    then have k: "k < length (slots b)" by (simp add: len)
    have il: "i < length (slots b')" using i by (simp add: len sl0)
    show "slots (set_slot b' i ((slots b' ! i)\<lparr>r_value := f ?p\<rparr>)) ! k = fixed_slots N s0 f (P - {?d}) h (slots b) ! k"
    proof (cases "k = i")
      case True
      have "slots b ! i = ?v" by (simp add: sl0)
      then show ?thesis
        using True k il v' tgt(3) by (simp add: slots_set fixed_done [OF d(2)] map_reg_def)
    next
      case False
      then have "fixed_reg N s0 f (P - {?d}) (DSlot h k) r = fixed_reg N s0 f P (DSlot h k) r" for r
        by (intro fixed_other) simp
      then show ?thesis using False k il by (simp add: slots_set sl)
    qed
  qed (simp add: len)
  have "rebinding N s0 f (P - {?d}) ?t"
    unfolding rebinding_def frames_eq [OF ft] ft
  proof (intro conjI ballI)
    show "length (frames s) = length (frames s0)" "frames_ok s" "map f_caller_pc (frames s) = map f_caller_pc (frames s0)"
      using rb by (simp_all add: rebinding_def)
    show "root_reg s r = fixed_reg N s0 f (P - {?d}) (DRoot r) (root_reg s0 r)" if "r \<in> set (all_roots s0)" for r
      using rb that fixed_other [of "DRoot r" ?d] by (simp add: rebinding_def)
    show "home_ok N s0 f (P - {?d}) ?t g" if g: "g \<in> roots_reach s0" for g
    proof (cases "g = h")
      case True
      have "Contains N h \<Longrightarrow> f h \<noteq> h" using mv h by (auto simp: moving_def split: if_splits dest!: bspec)
      then show ?thesis
        unfolding home_ok_def True
        using g0 old nb sh
        by (intro exI [of _ n] exI [of _ b] exI [of _ "set_slot b' i ((slots b' ! i)\<lparr>r_value := f ?p\<rparr>)"]) (auto simp: gt)
    next
      case False
      have "fixed_slots N s0 f (P - {?d}) g rs = fixed_slots N s0 f P g rs" for rs
        using False by (simp add: fixed_slots_def fixed_other)
      moreover have "f g \<noteq> f h" using inj g h False by (auto dest: inj_onD)
      moreover have "Contains N g \<Longrightarrow> g \<noteq> f h"
        using mv h by (auto simp: moving_def split: if_splits)
      ultimately show ?thesis using rb g by (auto simp: rebinding_def home_ok_def gt)
    qed
  qed
  moreover have "?t = s\<lparr>objs := objs ?t\<rparr>" by (simp add: write_slot_def hput_def)
  moreover have "marks_ok s \<longrightarrow> marks_ok ?t" using ob(1) by (auto simp: marks_ok_def write_slot_def split: if_splits)
  ultimately show ?thesis using fx by blast
qed

text \<open>The whole loop.\<close>

definition set_refs :: "dangling list \<Rightarrow> vm \<Rightarrow> vm" where
  "set_refs ds s = (case stages s of st # rest \<Rightarrow> s\<lparr>stages := st\<lparr>references_to_targets := ds\<rparr> # rest\<rparr> | [] \<Rightarrow> s)"

lemma set_refs_simps [simp]:
  "graph (set_refs ds s) = graph s" "frames (set_refs ds s) = frames s" "marks_ok (set_refs ds s) = marks_ok s"
  "cursors (set_refs ds s) = cursors s"
  by (simp_all add: set_refs_def graph_def fun_eq_iff marks_ok_def split: list.splits)

lemma rebinding_cong:
  assumes "graph t = graph s" and fr: "frames t = frames s"
  shows "rebinding N s0 f P t = rebinding N s0 f P s"
  unfolding rebinding_def home_ok_def frames_eq [OF fr] assms ..

lemma rebind_all:
  assumes "N \<le> 2" "heap_wf s0" "moving N s0 f" "stages s = st # rest" "references_to_targets st = ds"
    "distinct ds" "set ds \<subseteq> all_refs N s0" "rebinding N s0 f (set ds) s"
  shows "\<exists>t. rebind_loop (Suc (length ds)) s = Inr t \<and> rebinding N s0 f {} t \<and>
    t = s\<lparr>objs := objs t, frames := frames t, stages := st\<lparr>references_to_targets := []\<rparr> # rest\<rparr> \<and>
    (marks_ok s \<longrightarrow> marks_ok t)"
  using assms
proof (induction ds arbitrary: s st)
  case Nil
  then have "rebind_loop (Suc 0) s = Inr s" by (simp add: PopRefToMovedObject_def with_stage_def)
  moreover have "s = s\<lparr>objs := objs s, frames := frames s, stages := st\<lparr>references_to_targets := []\<rparr> # rest\<rparr>"
    using Nil.prems(4,5) by (cases s, cases st) auto
  ultimately show ?case using Nil.prems(8) by auto
next
  case (Cons d ds)
  let ?s1 = "set_refs ds s"
  have st1: "stages ?s1 = st\<lparr>references_to_targets := ds\<rparr> # rest" using Cons.prems(4) by (simp add: set_refs_def)
  have pop: "PopRefToMovedObject s = Inr (Some d, ?s1)"
    using Cons.prems(4,5) by (simp add: PopRefToMovedObject_def with_stage_def set_refs_def set_stage_def)
  have rb1: "rebinding N s0 f (set (d # ds)) ?s1"
    using Cons.prems(8) by (simp add: rebinding_cong [of ?s1 s])
  have dmem: "d \<in> set (d # ds)" "d \<in> all_refs N s0" using Cons.prems(7) by auto
  let ?P = "set (d # ds)"
  have "\<exists>u. Fix d ?s1 = Inr u \<and> rebinding N s0 f (set (d # ds) - {d}) u \<and>
      u = ?s1\<lparr>objs := objs u, frames := frames u\<rparr> \<and> (marks_ok s \<longrightarrow> marks_ok u)"
  proof (cases d)
    case (DRoot r)
    from fix_root [OF Cons.prems(2,3) rb1, of r] dmem obtain u where
      u: "Fix (DRoot r) ?s1 = Inr u" "rebinding N s0 f (set (d # ds) - {DRoot r}) u" "u = ?s1\<lparr>frames := frames u\<rparr>"
      by (auto simp only: DRoot)
    have "objs u = objs ?s1" "gc_mark u = gc_mark ?s1" by (subst u(3), simp)+
    then have "marks_ok s \<longrightarrow> marks_ok u" "u = ?s1\<lparr>objs := objs u, frames := frames u\<rparr>"
      using u(3) set_refs_simps(3) [of ds s] by (auto simp: marks_ok_def)
    then show ?thesis using u DRoot by auto
  next
    case (DSlot h i)
    from fix_slot [OF Cons.prems(1,2,3) rb1, of h i] dmem obtain u where
      u: "Fix (DSlot h i) ?s1 = Inr u" "rebinding N s0 f (set (d # ds) - {DSlot h i}) u" "u = ?s1\<lparr>objs := objs u\<rparr>"
      "marks_ok s \<longrightarrow> marks_ok u"
      by (auto simp only: DSlot set_refs_simps)
    have "frames u = frames ?s1" by (subst u(3)) simp
    then show ?thesis using u DSlot by auto
  qed
  then obtain u where u: "Fix d ?s1 = Inr u" "rebinding N s0 f (set (d # ds) - {d}) u"
    "u = ?s1\<lparr>objs := objs u, frames := frames u\<rparr>" "marks_ok s \<longrightarrow> marks_ok u" by blast
  have su: "stages u = st\<lparr>references_to_targets := ds\<rparr> # rest" by (subst u(3)) (simp add: st1)
  have rbu: "rebinding N s0 f (set ds) u" using u(2) Cons.prems(6) by simp
  have "\<exists>t. rebind_loop (Suc (length ds)) u = Inr t \<and> rebinding N s0 f {} t \<and>
    t = u\<lparr>objs := objs t, frames := frames t,
          stages := (st\<lparr>references_to_targets := ds\<rparr>)\<lparr>references_to_targets := []\<rparr> # rest\<rparr> \<and>
    (marks_ok u \<longrightarrow> marks_ok t)"
    by (rule Cons.IH [OF Cons.prems(1,2,3) su _ _ _ rbu]) (use Cons.prems in auto)
  then obtain t where t: "rebind_loop (Suc (length ds)) u = Inr t" "rebinding N s0 f {} t"
    "t = u\<lparr>objs := objs t, frames := frames t,
          stages := (st\<lparr>references_to_targets := ds\<rparr>)\<lparr>references_to_targets := []\<rparr> # rest\<rparr>"
    "marks_ok u \<longrightarrow> marks_ok t" by blast
  have "t = s\<lparr>objs := objs t, frames := frames t, stages := st\<lparr>references_to_targets := []\<rparr> # rest\<rparr>"
    using t(3) u(3) Cons.prems(4) by (cases s, cases u, cases t) (auto simp: set_refs_def)
  moreover have "rebind_loop (Suc (length (d # ds))) s = Inr t" using pop u(1) t(1) by simp
  ultimately show ?case using t(2,4) u(4) by blast
qed

subsection \<open>One collection\<close>

lemma in_bounds_region:
  assumes wf: "heap_wf s" and a: "a \<in> roots_reach s" "Contains N a" and N: "N \<le> 2"
  shows "lo N + 8 \<le> unat a" "unat a + unat (size_at s a) \<le> used_end s N" "0 < unat (size_at s a)"
proof -
  show pos: "0 < unat (size_at s a)" using heap_wfD(5) [OF wf a(1)] by (auto simp: object_ok_def size_at_def)
  from heap_wfD(6) [OF wf a(1)] obtain M where M: "M \<le> 2" "lo M + 8 \<le> unat a" "unat a + unat (size_at s a) \<le> used_end s M"
    by (auto simp: in_bounds_def)
  have "used_end s M \<le> hi M" using heap_wfD(1) [OF wf] M(1) by (simp add: cursors_ok_def)
  then have "Contains M a" using M pos by (simp add: Contains_iff)
  then have "M = N" using Contains_unique [OF _ a(2) M(1) N] by simp
  then show "lo N + 8 \<le> unat a" "unat a + unat (size_at s a) \<le> used_end s N" using M by simp_all
qed

lemma reach_kept:
  assumes wf: "heap_wf s" and a: "a \<in> roots_reach s" and M: "M \<le> 2"
  shows "kept s M a"
proof (cases "Contains M a")
  case True
  from in_bounds_region [OF wf a True M] show ?thesis by (simp add: kept_def)
next
  case False
  moreover have "lo M \<le> used_end s M" by (simp add: lo_def used_end_def)
  ultimately show ?thesis using M by (auto simp: kept_def Contains_iff)
qed

text \<open>Disjoint objects of a region are not larger than the region, so the sum of their sizes does not wrap.\<close>

lemma sizes_bound:
  assumes wf: "heap_wf s" and N: "N \<le> 2" and d: "distinct as"
    and sub: "set as \<subseteq> {a \<in> roots_reach s. Contains N a}"
  shows "sizes s as \<le> hi N - (lo N + 8)"
proof -
  let ?I = "\<lambda>a. {unat a..<unat a + unat (size_at s a)}"
  have "sizes s as = (\<Sum>a \<in> set as. card (?I a))"
    by (simp add: sizes_def sum_list_distinct_conv_sum_set [OF d])
  also have "\<dots> = card (\<Union>a \<in> set as. ?I a)"
  proof (rule card_UN_disjoint [symmetric])
    show "\<forall>a \<in> set as. \<forall>b \<in> set as. a \<noteq> b \<longrightarrow> ?I a \<inter> ?I b = {}"
      using heap_wfD(7) [OF wf] sub by (fastforce simp: apart_def)
  qed simp_all
  also have "\<dots> \<le> card {lo N + 8..<hi N}"
  proof (rule card_mono)
    have "used_end s N \<le> hi N" using heap_wfD(1) [OF wf] N by (simp add: cursors_ok_def)
    then show "(\<Union>a \<in> set as. ?I a) \<subseteq> {lo N + 8..<hi N}"
      using in_bounds_region [OF wf _ _ N] sub by fastforce
  qed simp
  finally show ?thesis by simp
qed

lemma unat_sum_sizes:
  assumes "sizes s as < 18446744073709551616"
  shows "unat (sum_sizes s as) = sizes s as"
  using assms
proof (induction as)
  case (Cons a as)
  then have IH: "unat (sum_sizes s as) = sizes s as" by (simp add: sizes_def)
  have "unat (size_at s a + sum_sizes s as) = unat (size_at s a) + unat (sum_sizes s as)"
    by (rule unat_add_lem [THEN iffD1]) (use Cons.prems IH in \<open>simp add: sizes_def\<close>)
  then show ?case by (simp add: sum_sizes_def sizes_def IH [unfolded sum_sizes_def sizes_def])
qed (simp add: sum_sizes_def sizes_def)

lemma fixed_none:
  assumes wf: "heap_wf s" and mv: "moving N s f"
  shows "r \<in> set (all_roots s) \<Longrightarrow> fixed_reg N s f {} (DRoot r) (root_reg s r) = map_reg f (root_reg s r)"
    "h \<in> roots_reach s \<Longrightarrow> fixed_slots N s f {} h (slots_at s h) = map (map_reg f) (slots_at s h)"
proof -
  have same: "map_reg f r = r" if "IsPrimitive r \<or> (r_value r \<in> roots_reach s \<and> \<not> Contains N (r_value r))" for r
    using that mv by (auto simp: map_reg_def moving_def)
  show "fixed_reg N s f {} (DRoot r) (root_reg s r) = map_reg f (root_reg s r)" if r: "r \<in> set (all_roots s)"
  proof (cases "into N (root_reg s r)")
    case True
    then show ?thesis using r by (simp add: fixed_reg_def all_refs_def root_refs_def)
  next
    case False
    then have "map_reg f (root_reg s r) = root_reg s r"
      using r roots_reach_root [of "root_reg s r" s] by (intro same) (auto simp: into_def root_regs_def)
    then show ?thesis by (simp add: fixed_reg_def)
  qed
  show "fixed_slots N s f {} h (slots_at s h) = map (map_reg f) (slots_at s h)" if h: "h \<in> roots_reach s"
  proof (rule nth_equalityI)
    fix i assume "i < length (fixed_slots N s f {} h (slots_at s h))"
    then have i: "i < length (slots_at s h)" by simp
    show "fixed_slots N s f {} h (slots_at s h) ! i = map (map_reg f) (slots_at s h) ! i"
    proof (cases "into N (slots_at s h ! i)")
      case True
      then show ?thesis using h i by (auto simp: fixed_reg_def all_refs_def slot_refs_def)
    next
      case False
      then have "map_reg f (slots_at s h ! i) = slots_at s h ! i"
        using reach_closed [OF h nth_mem [OF i]] by (intro same) (auto simp: into_def)
      then show ?thesis using i by (simp add: fixed_reg_def)
    qed
  qed simp
qed

lemma rebinding_iso:
  assumes wf: "heap_wf s" and mv: "moving N s f" and rb: "rebinding N s f {} t"
    and rest: "pc t = pc s" "program t = program s" "cpool t = cpool s" "out t = out s"
  shows "heap_iso f s t"
  unfolding heap_iso_def
proof (intro conjI ballI allI impI)
  show "inj_on f (roots_reach s)" using mv by (simp add: moving_def)
  show "pc t = pc s" "program t = program s" "cpool t = cpool s" "out t = out s" by fact+
  have len: "length (frames t) = length (frames s)" and ok: "frames_ok t" "frames_ok s"
    and pcs: "map f_caller_pc (frames t) = map f_caller_pc (frames s)"
    using rb heap_wfD(2) [OF wf] by (auto simp: rebinding_def)
  have reg: "root_reg t r = map_reg f (root_reg s r)" if "r \<in> set (all_roots s)" for r
    using rb fixed_none(1) [OF wf mv that] that by (simp add: rebinding_def)
  show "frames t = map (map_frame f) (frames s)"
  proof (rule nth_equalityI)
    fix i assume "i < length (frames t)"
    then have i: "i < length (frames s)" "i < length (frames t)" by (simp_all add: len)
    have l16: "length (f_regs (frames s ! i)) = 16" "length (f_regs (frames t ! i)) = 16"
      using ok i by (simp_all add: frames_ok_def)
    have acc: "f_acc (frames t ! i) = map_reg f (f_acc (frames s ! i))"
      using reg [of "RAcc i"] i by (simp add: set_all_roots root_frame_def root_reg_def)
    have callee: "f_callee (frames t ! i) = f (f_callee (frames s ! i))"
      using reg [of "RCallee i"] i
      by (simp add: set_all_roots root_frame_def root_reg_def map_reg_def set_func_def IsPrimitive_def)
    have regs: "f_regs (frames t ! i) = map (map_reg f) (f_regs (frames s ! i))"
    proof (rule nth_equalityI)
      fix j assume "j < length (f_regs (frames t ! i))"
      then show "f_regs (frames t ! i) ! j = map (map_reg f) (f_regs (frames s ! i)) ! j"
        using reg [of "RReg i j"] i l16 by (simp add: set_all_roots root_frame_def root_reg_def)
    qed (simp add: l16)
    have "f_caller_pc (frames t ! i) = f_caller_pc (frames s ! i)"
      using arg_cong [OF pcs, of "\<lambda>xs. xs ! i"] i by simp
    then show "frames t ! i = map (map_frame f) (frames s) ! i"
      using i acc callee regs by (intro frame.equality) (simp_all add: map_frame_def)
  qed (simp add: len)
  fix a n p b assume a: "a \<in> roots_reach s" and g: "graph s a = Some (n, p, b)"
  have "home_ok N s f {} t a" using rb a by (simp add: rebinding_def)
  then obtain b' where gt: "graph t (f a) = Some (n, 0, b')" "shape b' = shape b"
    "slots b' = fixed_slots N s f {} a (slots b)"
    unfolding home_ok_def g by auto
  have "slots b = slots_at s a" using g by (simp add: slots_at_def)
  then have "b' = map_body (map_reg f) b"
    using gt(2,3) fixed_none(2) [OF wf mv a] by (intro shape_slots_eq) simp_all
  then show "graph t (f a) = Some (n, 0, map_body (map_reg f) b)" using gt(1) by simp
qed

text \<open>
  The part of \<open>CleanupThis\<close> after the marking, when the next pool has enough room: the stage is
  consumed, the reachable objects are kept, and the old headers of the objects that moved still lead
  to their copies.
\<close>

definition move_and_rebind :: "nat \<Rightarrow> vm \<Rightarrow> vm res" where
  "move_and_rebind N s =
     rbind (move_loop (Suc (stage_size target_objects s)) N s) (\<lambda>s2.
       rbind (RebindLinks s2) (\<lambda>s3. FinalizeStage (Reset N s3)))"

definition collected :: "nat \<Rightarrow> (addr \<Rightarrow> addr) \<Rightarrow> vm \<Rightarrow> vm \<Rightarrow> bool" where
  "collected M f s t \<longleftrightarrow>
     heap_iso f s t \<and> heap_wf t \<and> marks_ok t \<and>
     (\<forall>a \<in> roots_reach s. if Contains (Suc M) a
        then Contains M (f a) \<and> (\<exists>n b. graph t a = Some (n, f a, b)) else f a = a) \<and>
     gc_forbidden t = gc_forbidden s \<and> cursors t (Suc M) = 8 \<and>
     (\<forall>K. K \<noteq> M \<longrightarrow> K \<noteq> Suc M \<longrightarrow> cursors t K = cursors s K)"

lemma move_and_rebind_spec:
  assumes M: "M \<le> 1" and wf: "heap_wf s" and rec: "recorded (Suc M) s" and marks: "marks_ok s"
    and room: "GetEstimatedSpace s = Inr e" "e \<le> GetRemainingSpace M s"
  shows "\<exists>t f. move_and_rebind (Suc M) s = Inr t \<and> collected M f s t \<and> stages t = tl (stages s) \<and>
    gc_mark t = gc_mark s \<and> gc_cursor t = (if tl (stages s) = [] then 8 else gc_cursor s)"
proof -
  let ?N = "Suc M"
  have M2: "M \<le> 2" "?N \<le> 2" "1 \<le> ?N" using M by auto
  have MN: "\<not> Contains ?N a" if "Contains M a" for a using Contains_unique [OF that _ M2(1,2)] by auto
  from rec obtain st rest where st: "stages s = st # rest"
    and tgt: "distinct (target_objects st)" "set (target_objects st) = {a \<in> roots_reach s. Contains ?N a}"
    and est: "estimating_realloc_size st = sum_sizes s (target_objects st)"
    and refs: "distinct (references_to_targets st)" "set (references_to_targets st) = all_refs ?N s"
    unfolding recorded_def all_refs_def roots_reach_def by blast
  let ?as = "target_objects st"
  let ?T = "{a \<in> roots_reach s. Contains ?N a}"
  have cur: "cursors_ok s" by (rule heap_wfD(1) [OF wf])
  have "sizes s ?as \<le> hi ?N - (lo ?N + 8)" by (rule sizes_bound [OF wf M2(2) tgt(1)]) (simp add: tgt(2))
  then have "sizes s ?as < 18446744073709551616" using M2(2) by (auto simp: pools)
  from unat_sum_sizes [OF this] have "unat e = sizes s ?as"
    using room(1) st est by (auto simp: GetEstimatedSpace_def with_stage_def)
  moreover have "unat (GetRemainingSpace M s) = hi M - used_end s M"
  proof -
    have "cursors s M \<le> REGION_SIZE M" using cur M2(1) by (auto simp: cursors_ok_def used_end_def hi_def word_le_nat_alt)
    then show ?thesis by (simp add: GetRemainingSpace_def unat_sub hi_def used_end_def)
  qed
  moreover have "used_end s M \<le> hi M" using cur M2(1) by (simp add: cursors_ok_def)
  ultimately have fit: "used_end s M + sizes s ?as \<le> hi M" using room(2) by (simp add: word_le_nat_alt)
  have nz: "0 \<notin> set ?as" using tgt(2) Contains_nonzero [OF _ M2(2), of 0] by auto
  have src: "object_ok s a \<and> kept s M a" if "a \<in> set ?as" for a
    using that tgt(2) heap_wfD(5) [OF wf] reach_kept [OF wf _ M2(1)] by auto
  have "\<exists>t. move_loop (Suc (length ?as)) ?N s = Inr t \<and>
      t = s\<lparr>objs := objs t, cursors := cursors t, stages := st\<lparr>target_objects := []\<rparr> # rest\<rparr> \<and>
      (\<forall>K. K \<noteq> M \<longrightarrow> cursors t K = cursors s K) \<and> used_end t M = used_end s M + sizes s ?as \<and>
      copied s t M (set ?as) \<and> (marks_ok s \<longrightarrow> marks_ok t)"
    by (rule move_all [OF M st refl tgt(1) nz _ fit]) (rule src)
  then obtain t1 where t1: "move_loop (Suc (length ?as)) ?N s = Inr t1"
    "t1 = s\<lparr>objs := objs t1, cursors := cursors t1, stages := st\<lparr>target_objects := []\<rparr> # rest\<rparr>"
    "\<forall>K. K \<noteq> M \<longrightarrow> cursors t1 K = cursors s K" "used_end t1 M = used_end s M + sizes s ?as"
    "copied s t1 M (set ?as)" "marks_ok s \<longrightarrow> marks_ok t1"
    by - (elim exE conjE, rule that)
  define f where "f a = (if Contains ?N a then moved_to s t1 a else a)" for a
  have cp: "\<exists>n b. graph s a = Some (n, 0, b) \<and> graph t1 a = Some (n, f a, b) \<and> graph t1 (f a) = Some (n, 0, b) \<and>
      used_end s M \<le> unat (f a) \<and> unat (f a) + unat n \<le> used_end t1 M" if "a \<in> roots_reach s" "Contains ?N a" for a
    using t1(5) that tgt(2) by (simp add: copied_def f_def)
  have cp_apart: "unat (f a) + unat (size_at s a) \<le> unat (f b) \<or> unat (f b) + unat (size_at s b) \<le> unat (f a)"
    if "a \<in> ?T" "b \<in> ?T" "a \<noteq> b" for a b
    using t1(5) that tgt(2) by (simp add: copied_def f_def)
  have stay: "graph t1 a = graph s a" if "a \<in> roots_reach s" "\<not> Contains ?N a" for a
    using t1(5) reach_kept [OF wf that(1) M2(1)] that tgt(2) by (simp add: copied_def)
  have size: "0 < unat (size_at s a)" if "a \<in> roots_reach s" for a
    using heap_wfD(5) [OF wf that] by (auto simp: object_ok_def size_at_def)
  have size_n: "size_at s a = n" if "graph s a = Some (n, p, b)" for a n p b using that by (simp add: size_at_def)
  have inM: "Contains M (f a)" "used_end s M \<le> unat (f a)" "unat (f a) + unat (size_at s a) \<le> used_end t1 M"
    if a: "a \<in> roots_reach s" "Contains ?N a" for a
  proof -
    from cp [OF a] obtain n b where n: "graph s a = Some (n, 0, b)" "used_end s M \<le> unat (f a)"
      "unat (f a) + unat n \<le> used_end t1 M" by blast
    then show "used_end s M \<le> unat (f a)" "unat (f a) + unat (size_at s a) \<le> used_end t1 M" by (simp_all add: size_n [OF n(1)])
    then show "Contains M (f a)"
      using size [OF a(1)] fit t1(4) M2(1) by (simp add: Contains_iff) (simp add: used_end_def lo_def)
  qed
  have apart: "unat (f a) + unat (size_at s a) \<le> unat (f b) \<or> unat (f b) + unat (size_at s b) \<le> unat (f a)"
    if ab: "a \<in> roots_reach s" "b \<in> roots_reach s" "a \<noteq> b" for a b
  proof -
    have mixed: "unat b + unat (size_at s b) \<le> unat (f a) \<or> unat (f a) + unat (size_at s a) \<le> unat b"
      if a: "a \<in> roots_reach s" "Contains ?N a" and b: "b \<in> roots_reach s" "\<not> Contains ?N b" for a b
    proof (cases "Contains M b")
      case True
      then show ?thesis using in_bounds_region(2) [OF wf b(1) True M2(1)] inM(2) [OF a] by simp
    next
      case False
      from heap_wfD(6) [OF wf b(1)] obtain K where K: "K \<le> 2" "lo K + 8 \<le> unat b" "unat b + unat (size_at s b) \<le> used_end s K"
        by (auto simp: in_bounds_def)
      then have "used_end s K \<le> hi K" using cur by (simp add: cursors_ok_def)
      then have "Contains K b" using K size [OF b(1)] by (simp add: Contains_iff)
      then have "K \<noteq> M" "K \<noteq> ?N" using False b(2) by auto
      then have KM: "hi K \<le> lo M \<or> hi M \<le> lo K"
        using K(1) M2(1) unfolding pools by (elim disjE) simp_all
      have "lo M \<le> unat (f a)" "unat (f a) + unat (size_at s a) \<le> hi M"
        using inM [OF a] t1(4) fit by (simp_all add: used_end_def lo_def)
      then show ?thesis using KM K \<open>used_end s K \<le> hi K\<close> by auto
    qed
    consider "Contains ?N a" "Contains ?N b" | "Contains ?N a" "\<not> Contains ?N b"
      | "\<not> Contains ?N a" "Contains ?N b" | "\<not> Contains ?N a" "\<not> Contains ?N b" by blast
    then show ?thesis
    proof cases
      case 1
      then show ?thesis using cp_apart [of a b] ab by simp
    next
      case 2
      then show ?thesis using mixed [of a b] ab by (auto simp: f_def)
    next
      case 3
      then show ?thesis using mixed [of b a] ab by (auto simp: f_def)
    next
      case 4
      then show ?thesis using heap_wfD(7) [OF wf] ab by (auto simp: f_def apart_def)
    qed
  qed
  have inj: "inj_on f (roots_reach s)"
  proof (rule inj_onI)
    fix a b assume "a \<in> roots_reach s" "b \<in> roots_reach s" "f a = f b"
    then show "a = b" using apart [of a b] size [of a] size [of b] by (cases "a = b") auto
  qed
  have mv: "moving ?N s f"
    unfolding moving_def
    using inj inM(1) MN Contains_nonzero [OF _ M2(1)] by (auto simp: f_def)
  have fr1: "frames t1 = frames s" by (subst t1(2)) simp
  have rb1: "rebinding ?N s f (all_refs ?N s) t1"
    unfolding rebinding_def frames_eq [OF fr1] fr1
  proof (intro conjI ballI refl)
    show "frames_ok s" by (rule heap_wfD(2) [OF wf])
    show "root_reg s r = fixed_reg ?N s f (all_refs ?N s) (DRoot r) (root_reg s r)" for r by (simp add: fixed_reg_def)
    have fs: "fixed_slots ?N s f (all_refs ?N s) h rs = rs" for h rs
      by (rule nth_equalityI) (simp_all add: fixed_reg_def)
    show "home_ok ?N s f (all_refs ?N s) t1 h" if h: "h \<in> roots_reach s" for h
    proof (cases "Contains ?N h")
      case True
      then show ?thesis using cp [OF h True] by (auto simp: home_ok_def fs)
    next
      case False
      then have "f h = h" by (simp add: f_def)
      then show ?thesis
        using stay [OF h False] heap_wfD(5) [OF wf h] False by (auto simp: home_ok_def fs object_ok_def)
    qed
  qed
  have st1: "stages t1 = st\<lparr>target_objects := []\<rparr> # rest" by (subst t1(2)) simp
  have "\<exists>t. rebind_loop (Suc (length (references_to_targets st))) t1 = Inr t \<and> rebinding ?N s f {} t \<and>
    t = t1\<lparr>objs := objs t, frames := frames t,
           stages := (st\<lparr>target_objects := []\<rparr>)\<lparr>references_to_targets := []\<rparr> # rest\<rparr> \<and> (marks_ok t1 \<longrightarrow> marks_ok t)"
    by (rule rebind_all [OF M2(2) wf mv st1]) (use refs rb1 in simp_all)
  then obtain t2 where t2: "rebind_loop (Suc (length (references_to_targets st))) t1 = Inr t2"
    "rebinding ?N s f {} t2"
    "t2 = t1\<lparr>objs := objs t2, frames := frames t2,
           stages := (st\<lparr>target_objects := []\<rparr>)\<lparr>references_to_targets := []\<rparr> # rest\<rparr>"
    "marks_ok t1 \<longrightarrow> marks_ok t2"
    by - (elim exE conjE, rule that)
  define c where "c = (if rest = [] then 8 else gc_cursor t2)"
  let ?t = "(Reset ?N t2)\<lparr>stages := rest, gc_cursor := c\<rparr>"
  have st2: "stages t2 = (st\<lparr>target_objects := []\<rparr>)\<lparr>references_to_targets := []\<rparr> # rest"
    by (subst t2(3)) simp
  have fin: "FinalizeStage (Reset ?N t2) = Inr ?t"
    by (simp add: FinalizeStage_def Reset_def st2 c_def)
  have mr: "move_and_rebind ?N s = Inr ?t"
    using t1(1) t2(1) fin st st1
    by (simp add: move_and_rebind_def stage_size_def RebindLinks_def del: move_loop.simps rebind_loop.simps)
  have gt: "graph ?t = graph t2" and ft: "frames ?t = frames t2" by (simp_all add: graph_def Reset_def fun_eq_iff)
  have rbt: "rebinding ?N s f {} ?t" using t2(2) rebinding_cong [OF gt ft] by simp
  have cur_t2: "cursors t2 = cursors t1" by (subst t2(3)) simp
  have iso: "heap_iso f s ?t"
  proof (rule rebinding_iso [OF wf mv rbt])
    show "pc ?t = pc s" "program ?t = program s" "cpool ?t = cpool s" "out ?t = out s"
      by (simp_all add: Reset_def) (subst t2(3), subst t1(2), simp)+
  qed
  have end_t: "used_end ?t K = (if K = ?N then lo ?N + 8 else used_end t1 K)" for K
    by (simp add: used_end_def Reset_def lo_def cur_t2)
  have end_same: "used_end t1 K = used_end s K" if "K \<noteq> M" for K using t1(3) that by (simp add: used_end_def)
  have cur_t: "cursors_ok ?t"
    unfolding cursors_ok_def
  proof (intro allI impI)
    fix K :: nat assume K: "K \<le> 2"
    show "lo K + 8 \<le> used_end ?t K \<and> used_end ?t K \<le> hi K"
    proof (cases "K = ?N")
      case True
      then show ?thesis using M2(2) by (auto simp: end_t pools)
    next
      case False
      then show ?thesis using K cur fit t1(4) end_same [of K] by (cases "K = M") (auto simp: end_t cursors_ok_def)
    qed
  qed
  have wf_t: "heap_wf ?t"
  proof (rule iso_wf [OF iso wf cur_t])
    fix a assume a: "a \<in> roots_reach s"
    have sz: "size_at ?t (f a) = size_at s a" using iso_slots(2) [OF iso wf a] .
    show "in_bounds ?t (f a)"
    proof (cases "Contains ?N a")
      case True
      have "lo M + 8 \<le> unat (f a)" using inM(2) [OF a True] cur M2(1) by (auto simp: cursors_ok_def)
      then show ?thesis
        unfolding in_bounds_def sz using inM(3) [OF a True] M2(1)
        by (intro exI [of _ M]) (simp add: end_t)
    next
      case False
      from heap_wfD(6) [OF wf a] obtain K where K: "K \<le> 2" "lo K + 8 \<le> unat a" "unat a + unat (size_at s a) \<le> used_end s K"
        by (auto simp: in_bounds_def)
      then have "used_end s K \<le> hi K" using cur by (simp add: cursors_ok_def)
      then have "Contains K a" using K size [OF a] by (simp add: Contains_iff)
      then have "K \<noteq> ?N" using False by auto
      moreover have "used_end s K \<le> used_end t1 K" using t1(4) end_same [of K] by (cases "K = M") auto
      ultimately show ?thesis
        unfolding in_bounds_def sz using K False by (intro exI [of _ K]) (auto simp: end_t f_def)
    qed
  qed (rule apart)
  have "marks_ok ?t" using t2(4) t1(6) marks by (simp add: marks_ok_def Reset_def)
  moreover have unchanged: "gc_cursor t2 = gc_cursor s" by (subst t2(3), subst t1(2)) simp
  moreover have mark: "gc_mark ?t = gc_mark s" and "gc_forbidden ?t = gc_forbidden s"
    by (simp_all add: Reset_def) (subst t2(3), subst t1(2), simp)+
  moreover have "if Contains ?N a then Contains M (f a) \<and> (\<exists>n b. graph ?t a = Some (n, f a, b)) else f a = a"
    if a: "a \<in> roots_reach s" for a
    using rbt a inM(1) [OF a] by (auto simp: rebinding_def home_ok_def f_def)
  moreover have "cursors ?t ?N = 8" "\<forall>K. K \<noteq> M \<longrightarrow> K \<noteq> ?N \<longrightarrow> cursors ?t K = cursors s K"
    using t1(3) by (simp_all add: Reset_def cur_t2)
  ultimately have "collected M f s ?t" using iso wf_t by (simp add: collected_def)
  then show ?thesis using mr st mark unchanged by (intro exI [of _ ?t] exI [of _ f]) (simp add: c_def)
qed

subsection \<open>\<open>CleanupThis\<close>\<close>

text \<open>The bytes of the reachable objects of a region: what its collection has to move.\<close>

definition live_bytes :: "vm \<Rightarrow> nat \<Rightarrow> nat" where
  "live_bytes s N = (\<Sum>a \<in> {a \<in> roots_reach s. Contains N a}. unat (size_at s a))"

lemma estimate_is_live:
  assumes N: "N \<le> 2" and wf: "heap_wf s" and rec: "recorded N s" and e: "GetEstimatedSpace s = Inr e"
  shows "unat e = live_bytes s N" "live_bytes s N \<le> hi N - (lo N + 8)"
proof -
  from rec e obtain as where as: "distinct as" "set as = {a \<in> roots_reach s. Contains N a}" "e = sum_sizes s as"
    by (auto simp: recorded_def GetEstimatedSpace_def with_stage_def roots_reach_def)
  have b: "sizes s as \<le> hi N - (lo N + 8)" by (rule sizes_bound [OF wf N as(1)]) (simp add: as(2))
  then have "sizes s as < 18446744073709551616" using N unfolding pools by (elim disjE) simp_all
  moreover have l: "live_bytes s N = sizes s as"
    by (simp add: live_bytes_def sizes_def as(2) [symmetric] sum_list_distinct_conv_sum_set [OF as(1)])
  ultimately show "unat e = live_bytes s N" using unat_sum_sizes [of s as] by (simp add: as(3))
  show "live_bytes s N \<le> hi N - (lo N + 8)" using b l by simp
qed

lemma heap_eq:
  assumes "graph t = graph s" "frames t = frames s" "cursors t = cursors s"
  shows "roots_reach t = roots_reach s" "heap_wf t = heap_wf s" "cursors_ok t = cursors_ok s"
    "used_end t = used_end s" "object_ok t = object_ok s" "in_bounds t = in_bounds s" "apart t = apart s"
proof -
  note g = graph_eq [OF assms(1)] and f = frames_eq [OF assms(2)]
  show r: "roots_reach t = roots_reach s" by (simp add: roots_reach_def g f)
  show u: "used_end t = used_end s" by (simp add: fun_eq_iff used_end_def assms)
  show c: "cursors_ok t = cursors_ok s" by (simp add: cursors_ok_def u)
  show o: "object_ok t = object_ok s" by (simp add: fun_eq_iff object_ok_def assms)
  show i: "in_bounds t = in_bounds s" by (simp add: fun_eq_iff in_bounds_def u g)
  show a: "apart t = apart s" by (simp add: fun_eq_iff apart_def g)
  show "heap_wf t = heap_wf s" by (simp add: heap_wf_def r c o i a g f)
qed

lemma iso_eq:
  assumes "graph t = graph s" "frames t = frames s" "cursors t = cursors s"
    "pc t = pc s" "program t = program s" "cpool t = cpool s" "out t = out s"
  shows "heap_iso f t u = heap_iso f s u"
  by (simp add: heap_iso_def heap_eq [OF assms(1-3)] assms)

lemma map_reg_comp: "map_reg g (map_reg f r) = map_reg (g \<circ> f) r"
  by (simp add: map_reg_def IsPrimitive_def)

lemma map_body_comp: "map_body g (map_body f b) = map_body (\<lambda>r. g (f r)) b"
  by (cases b) simp_all

lemma iso_refl:
  assumes wf: "heap_wf s"
  shows "heap_iso (\<lambda>a. a) s s"
proof -
  have reg: "map_reg (\<lambda>a. a) = (\<lambda>r. r)" by (simp add: fun_eq_iff map_reg_def)
  have "map_frame (\<lambda>a. a) fr = fr" for fr by (simp add: map_frame_def reg)
  then have frames: "map (map_frame (\<lambda>a. a)) (frames s) = frames s" by (simp add: map_idI)
  have body: "map_body (\<lambda>r. r) b = b" for b by (cases b) simp_all
  have "p = 0" if "a \<in> roots_reach s" "graph s a = Some (n, p, b)" for a n p b
    using heap_wfD(5) [OF wf that(1)] that(2) by (simp add: object_ok_def)
  then show ?thesis by (auto simp: heap_iso_def reg body frames)
qed

lemma iso_trans:
  assumes st: "heap_iso f s t" and tu: "heap_iso g t u" and wf: "heap_wf s"
  shows "heap_iso (g \<circ> f) s u"
proof -
  have reach: "roots_reach t = f ` roots_reach s" by (rule iso_reach [OF st wf])
  have "inj_on (g \<circ> f) (roots_reach s)"
    using st tu reach by (intro comp_inj_on) (simp_all add: heap_iso_def)
  moreover have "frames u = map (map_frame (g \<circ> f)) (frames s)"
    using st tu by (simp add: heap_iso_def map_frame_def map_reg_comp comp_def)
  moreover have "graph u (g (f a)) = Some (n, 0, map_body (map_reg (g \<circ> f)) b)"
    if "a \<in> roots_reach s" "graph s a = Some (n, p, b)" for a n p b
  proof -
    have "graph t (f a) = Some (n, 0, map_body (map_reg f) b)" using st that by (auto simp: heap_iso_def)
    then have "graph u (g (f a)) = Some (n, 0, map_body (map_reg g) (map_body (map_reg f) b))"
      using tu that(1) reach by (auto simp: heap_iso_def)
    then show ?thesis by (simp add: map_body_comp map_reg_comp)
  qed
  ultimately show ?thesis using st tu by (simp add: heap_iso_def)
qed

text \<open>Marking establishes what the second half needs.\<close>

lemma next_mark: "gc_mark s \<noteq> - 1 \<Longrightarrow> m \<le> gc_mark s \<Longrightarrow> m < gc_mark s + 1"
proof -
  assume "gc_mark s \<noteq> - 1" and m: "m \<le> gc_mark s"
  then have "unat (gc_mark s + 1) = unat (gc_mark s) + 1"
    using unatSuc [of "gc_mark s"] by (simp add: add_eq_0_iff add.commute)
  then show ?thesis using m by (simp add: word_le_nat_alt word_less_nat_alt)
qed

lemma marks_unmarked: "marks_ok s \<Longrightarrow> gc_mark s \<noteq> - 1 \<Longrightarrow> unmarked s"
  using next_mark [of s] by (force simp: unmarked_def marks_ok_def)

lemma mark_collect:
  assumes N: "N \<le> 2" and wf: "heap_wf s" and marks: "marks_ok s" and headroom: "gc_mark s \<noteq> - 1"
  shows "(mark_stage N s = oom \<and> unat GC_INTERNALS_SIZE < internals_need N s) \<or>
    (\<exists>t. mark_stage N s = Inr t \<and> gc_cursor t = internals_need N s \<and>
       (gc_cursor s \<le> unat GC_INTERNALS_SIZE \<longrightarrow> internals_need N s \<le> unat GC_INTERNALS_SIZE) \<and>
       graph t = graph s \<and>
       t = s\<lparr>objs := objs t, stages := stages t, gc_mark := gc_mark s + 1, gc_cursor := gc_cursor t\<rparr> \<and>
       tl (stages t) = stages s \<and> recorded N t \<and> marks_ok t)"
proof -
  note less = next_mark [OF headroom]
  have fresh: "unmarked s" by (rule marks_unmarked [OF marks headroom])
  have "\<forall>r \<in> root_regs s. ref_ok s (reach s (root_regs s)) r"
    using heap_wfD(4) [OF wf] by (simp add: roots_reach_def)
  from mark_phase [OF N heap_wfD(3) [OF wf, unfolded roots_reach_def] heap_wfD(2) [OF wf] this fresh] show ?thesis
  proof (elim disjE exE conjE)
    fix t assume t: "mark_stage N s = Inr t" "gc_cursor t = internals_need N s"
      "gc_cursor s \<le> unat GC_INTERNALS_SIZE \<longrightarrow> internals_need N s \<le> unat GC_INTERNALS_SIZE" "graph t = graph s"
      "t = s\<lparr>objs := objs t, stages := stages t, gc_mark := gc_mark s + 1, gc_cursor := gc_cursor t\<rparr>"
      "tl (stages t) = stages s" "recorded N t"
      "\<forall>a b. map_of (objs t) a = Some b \<longrightarrow> map_of (objs s) a = Some b \<or> o_mark b = gc_mark t"
    have "gc_mark t = gc_mark s + 1" by (subst t(5)) simp
    then have "marks_ok t" using t(8) marks less unfolding marks_ok_def by (metis order.refl order.strict_implies_order)
    then show ?thesis using t(1-7) by blast
  qed simp
qed

lemma CleanupThis_unfold:
  "CleanupThis (Suc M) s =
     guard (\<not> gc_forbidden s) (Fatal ''GC'')
       (rbind (mark_stage (Suc M) s) (\<lambda>s1.
          rbind (GetEstimatedSpace s1) (\<lambda>e.
            rbind (if GetRemainingSpace M s1 < e
                   then rbind (CleanupThis M s1) (\<lambda>t1.
                          rbind (GetEstimatedSpace t1) (\<lambda>e1.
                            guard (GetRemainingSpace M t1 \<ge> e1) AssertFailed
                              (FixInvalidDanglingReferences t1)))
                   else Inr s1) (move_and_rebind (Suc M)))))"
  unfolding CleanupThis.simps MoveObjects_def diff_Suc_1 mark_stage_def rbind_assoc move_and_rebind_def [abs_def] ..

declare CleanupThis.simps(2) [simp del]

definition cleaned :: "(addr \<Rightarrow> addr) \<Rightarrow> nat \<Rightarrow> vm \<Rightarrow> vm \<Rightarrow> bool" where
  "cleaned f M s t \<longleftrightarrow> heap_iso f s t \<and> heap_wf t \<and> marks_ok t \<and> stages t = stages s \<and>
     gc_forbidden t = gc_forbidden s \<and> cursors t M = 8 \<and> gc_cursor t = 8 \<and>
     (gc_mark t = gc_mark s + 1 \<or> gc_mark t = gc_mark s + 2)"

lemma collected_eq:
  assumes "graph s1 = graph s" "s1 = s\<lparr>objs := objs s1, stages := stages s1, gc_mark := m, gc_cursor := c\<rparr>"
  shows "collected M f s1 t = collected M f s t" "frames s1 = frames s" "cursors s1 = cursors s"
    "heap_wf s1 = heap_wf s" "roots_reach s1 = roots_reach s" "gc_forbidden s1 = gc_forbidden s" "gc_mark s1 = m"
    "heap_iso f s1 t = heap_iso f s t" "live_bytes s1 N = live_bytes s N"
    "GetRemainingSpace N s1 = GetRemainingSpace N s" "stage_bytes N s1 = stage_bytes N s"
proof -
  show fields: "frames s1 = frames s" "cursors s1 = cursors s" and forb: "gc_forbidden s1 = gc_forbidden s"
    and "gc_mark s1 = m" by (subst assms(2), simp)+
  have rest: "pc s1 = pc s" "program s1 = program s" "cpool s1 = cpool s" "out s1 = out s"
    by (subst assms(2), simp)+
  note e = heap_eq [OF assms(1) fields] iso_eq [OF assms(1) fields rest]
  show "heap_wf s1 = heap_wf s" "roots_reach s1 = roots_reach s" "heap_iso f s1 t = heap_iso f s t" by (simp_all add: e)
  show "live_bytes s1 N = live_bytes s N" "GetRemainingSpace N s1 = GetRemainingSpace N s"
    by (simp_all add: live_bytes_def e graph_eq [OF assms(1)] GetRemainingSpace_def fields)
  show "stage_bytes N s1 = stage_bytes N s"
    by (simp add: stage_bytes_def graph_eq [OF assms(1)] frames_eq [OF fields(1)])
  show "collected M f s1 t = collected M f s t"
    unfolding collected_def e fields forb ..
qed

text \<open>Pool 1: its objects go to the tenured pool, or the assertion that there is room fails.\<close>

lemma cleanup_1:
  assumes wf: "heap_wf s" and marks: "marks_ok s" and headroom: "gc_mark s \<noteq> - 1" and allowed: "\<not> gc_forbidden s"
  shows "(CleanupThis (Suc 0) s = oom \<and> unat GC_INTERNALS_SIZE < internals_need (Suc 0) s) \<or>
    ((gc_cursor s \<le> unat GC_INTERNALS_SIZE \<longrightarrow> internals_need (Suc 0) s \<le> unat GC_INTERNALS_SIZE) \<and>
     ((CleanupThis (Suc 0) s = Inl AssertFailed \<and> unat (GetRemainingSpace 0 s) < live_bytes s (Suc 0)) \<or>
      (live_bytes s (Suc 0) \<le> unat (GetRemainingSpace 0 s) \<and>
       (\<exists>t f. CleanupThis (Suc 0) s = Inr t \<and> collected 0 f s t \<and> stages t = stages s \<and>
          gc_mark t = gc_mark s + 1))))"
proof -
  have "Suc 0 \<le> 2" by simp
  from mark_collect [OF this wf marks headroom] show ?thesis
  proof (elim disjE exE conjE)
    assume "mark_stage (Suc 0) s = oom" "unat GC_INTERNALS_SIZE < internals_need (Suc 0) s"
    then show ?thesis unfolding CleanupThis_unfold using allowed by simp
  next
    fix s1 assume room1: "gc_cursor s \<le> unat GC_INTERNALS_SIZE \<longrightarrow> internals_need (Suc 0) s \<le> unat GC_INTERNALS_SIZE"
      and s1: "mark_stage (Suc 0) s = Inr s1" "graph s1 = graph s"
        "s1 = s\<lparr>objs := objs s1, stages := stages s1, gc_mark := gc_mark s + 1, gc_cursor := gc_cursor s1\<rparr>"
        "tl (stages s1) = stages s" "recorded (Suc 0) s1" "marks_ok s1"
    note e = collected_eq [OF s1(2,3)]
    from s1(5) obtain est where est: "GetEstimatedSpace s1 = Inr est"
      by (auto simp: recorded_def GetEstimatedSpace_def with_stage_def)
    have wf1: "heap_wf s1" using wf e(4) by simp
    have live: "unat est = live_bytes s (Suc 0)" using estimate_is_live(1) [OF _ wf1 s1(5) est] e(9) by simp
    show ?thesis
    proof (cases "est \<le> GetRemainingSpace 0 s1")
      case True
      then have "live_bytes s (Suc 0) \<le> unat (GetRemainingSpace 0 s)"
        using live e(10) by (simp add: word_le_nat_alt)
      moreover from move_and_rebind_spec [of 0 s1, OF _ wf1 s1(5,6) est True] obtain t f where
        "move_and_rebind (Suc 0) s1 = Inr t" "collected 0 f s1 t" "stages t = tl (stages s1)" "gc_mark t = gc_mark s1"
        by auto
      ultimately show ?thesis
        using s1 allowed est True e room1 by (auto simp: CleanupThis_unfold not_less)
    next
      case False
      then have no: "(est \<le> GetRemainingSpace 0 s1) = False" "GetRemainingSpace 0 s1 < est" by auto
      have "CleanupThis (Suc 0) s = Inl AssertFailed"
        unfolding CleanupThis_unfold using allowed by (simp only: s1(1) est no) (simp add: est no)
      moreover have "unat (GetRemainingSpace 0 s) < live_bytes s (Suc 0)"
        using live e(10) no(2) by (simp add: word_less_nat_alt)
      ultimately show ?thesis using room1 by simp
    qed
  qed
qed

subsection \<open>Recorded work across a nested collection\<close>

definition relocate_ref :: "(addr \<Rightarrow> addr) \<Rightarrow> dangling \<Rightarrow> dangling" where
  "relocate_ref f d = (case d of DRoot r \<Rightarrow> DRoot r | DSlot h i \<Rightarrow> DSlot (f h) i)"

text \<open>After a nested collection that kept the stages, the recorded references name the moved holders.\<close>

lemma nested_recorded:
  assumes wf: "heap_wf s" and rec: "recorded 2 s" and only: "stages s = [st]"
    and col: "collected 0 f s t" and stages: "stages t = stages s"
  shows "\<exists>u. FixInvalidDanglingReferences t = Inr u \<and> recorded 2 u \<and> u = t\<lparr>stages := stages u\<rparr> \<and>
    GetEstimatedSpace u = GetEstimatedSpace t \<and> tl (stages u) = []"
proof -
  from rec only have tgt: "distinct (target_objects st)" "set (target_objects st) = {a \<in> roots_reach s. Contains 2 a}"
    and est: "estimating_realloc_size st = sum_sizes s (target_objects st)"
    and refs: "distinct (references_to_targets st)" "set (references_to_targets st) = all_refs 2 s"
    by (auto simp: recorded_def all_refs_def roots_reach_def)
  have iso: "heap_iso f s t" and wft: "heap_wf t"
    and where_to: "\<And>a. a \<in> roots_reach s \<Longrightarrow> if Contains (Suc 0) a
        then Contains 0 (f a) \<and> (\<exists>n b. graph t a = Some (n, f a, b)) else f a = a"
    using col by (auto simp: collected_def)
  have reach: "roots_reach t = f ` roots_reach s" by (rule iso_reach [OF iso wf])
  have fr: "frames t = map (map_frame f) (frames s)" and inj: "inj_on f (roots_reach s)"
    using iso by (auto simp: heap_iso_def)
  have alls: "all_roots t = all_roots s" by (simp add: all_roots_def fr)
  have no12: "\<not> (Contains (Suc 0) a \<and> Contains 2 a)" "\<not> (Contains 0 a \<and> Contains 2 a)" for a
    using Contains_unique [of "Suc 0" a 2] Contains_unique [of 0 a 2] by auto
  have two: "Contains 2 (f a) \<longleftrightarrow> Contains 2 a" if "a \<in> roots_reach s" for a
    using where_to [OF that] no12 [of a] no12 [of "f a"] by (auto split: if_splits)
  have fix2: "f a = a" if "a \<in> roots_reach s" "Contains 2 a" for a
    using where_to [OF that(1)] no12 [of a] that(2) by (auto split: if_splits)
  have into: "into 2 (map_reg f r) \<longleftrightarrow> into 2 r" if "\<not> IsPrimitive r \<Longrightarrow> r_value r \<in> roots_reach s" for r
    using that two by (auto simp: into_def)
  have holder: "fix_holder t (DSlot h i) = Inr (DSlot (f h) i)" if h: "h \<in> roots_reach s" for h i
  proof (cases "Contains (Suc 0) h")
    case True
    with where_to [OF h] obtain n b where "Contains 0 (f h)" "graph t h = Some (n, f h, b)" by auto
    moreover have "f h \<noteq> 0" using Contains_nonzero [OF \<open>Contains 0 (f h)\<close>] by simp
    ultimately show ?thesis by (auto simp: fix_holder_def reloc_of_def hget_def graph_Some_iff)
  next
    case False
    then have fh: "f h = h" using where_to [OF h] by simp
    then have "h \<in> roots_reach t" using h by (metis reach image_eqI)
    from heap_wfD(5) [OF wft this] fh show ?thesis
      by (auto simp: fix_holder_def reloc_of_def hget_def graph_Some_iff object_ok_def)
  qed
  let ?refs = "map (relocate_ref f) (references_to_targets st)"
  have "map_res (fix_holder t) (references_to_targets st) = Inr ?refs"
  proof (rule map_res_Inr)
    fix d assume "d \<in> set (references_to_targets st)"
    then have d: "d \<in> all_refs 2 s" by (simp only: refs(2))
    show "fix_holder t d = Inr (relocate_ref f d)"
    proof (cases d)
      case (DRoot r)
      then show ?thesis by (simp add: fix_holder_def relocate_ref_def)
    next
      case (DSlot h i)
      with d have "h \<in> roots_reach s" by (auto simp: all_refs_def slot_refs_def root_refs_def)
      from holder [OF this] DSlot show ?thesis by (simp add: relocate_ref_def)
    qed
  qed
  then have fx: "FixInvalidDanglingReferences t = Inr (t\<lparr>stages := [st\<lparr>references_to_targets := ?refs\<rparr>]\<rparr>)"
    using stages only by (simp add: FixInvalidDanglingReferences_def)
  let ?u = "t\<lparr>stages := [st\<lparr>references_to_targets := ?refs\<rparr>]\<rparr>"
  have gu: "graph ?u = graph t" and fu: "frames ?u = frames t"
    by (simp_all add: graph_def fun_eq_iff)
  have sizes: "sum_sizes t (target_objects st) = sum_sizes s (target_objects st)"
    unfolding sum_sizes_def
  proof (rule arg_cong [of _ _ sum_list], rule map_cong [OF refl])
    fix a assume "a \<in> set (target_objects st)"
    then show "size_at t a = size_at s a" using tgt(2) fix2 [of a] iso_slots(2) [OF iso wf, of a] by auto
  qed
  have "{a \<in> roots_reach t. Contains 2 a} = {a \<in> roots_reach s. Contains 2 a}"
    unfolding reach using two fix2 by force
  moreover have "distinct ?refs"
  proof -
    have "inj_on (relocate_ref f) (set (references_to_targets st))"
      using inj refs(2)
      by (auto simp: inj_on_def relocate_ref_def all_refs_def slot_refs_def root_refs_def split: dangling.splits)
    then show ?thesis using refs(1) by (simp add: distinct_map)
  qed
  moreover have "set ?refs = slot_refs 2 t (roots_reach t) \<union> root_refs 2 t (all_roots t)"
  proof -
    have slots: "relocate_ref f ` slot_refs 2 s (roots_reach s) = slot_refs 2 t (roots_reach t)"
    proof -
      have "into 2 (slots_at t (f h) ! i) \<longleftrightarrow> into 2 (slots_at s h ! i)"
        if "h \<in> roots_reach s" "i < length (slots_at s h)" for h i
        using that iso_slots(1) [OF iso wf that(1)] into [of "slots_at s h ! i"] reach_closed [OF that(1) nth_mem [OF that(2)]]
        by simp
      then show ?thesis
        using iso_slots(1) [OF iso wf] unfolding slot_refs_def reach by (force simp: relocate_ref_def image_iff)
    qed
    have roots: "relocate_ref f ` root_refs 2 s (all_roots s) = root_refs 2 t (all_roots t)"
    proof -
      have "into 2 (root_reg t r) \<longleftrightarrow> into 2 (root_reg s r)" if "r \<in> set (all_roots s)" for r
        using root_reg_map [OF fr heap_wfD(2) [OF wf] that] into [of "root_reg s r"]
          roots_reach_root [of "root_reg s r" s] that by (simp add: root_regs_def)
      then show ?thesis unfolding root_refs_def alls by (force simp: relocate_ref_def image_iff)
    qed
    show ?thesis by (simp add: refs(2) all_refs_def image_Un slots roots)
  qed
  ultimately have "recorded 2 ?u"
    unfolding recorded_def frames_eq [OF fu] graph_eq [OF gu] roots_reach_def [symmetric] sum_sizes_def
    using tgt est sizes by (simp add: sum_sizes_def)
  moreover have "GetEstimatedSpace ?u = GetEstimatedSpace t"
    using stages only by (simp add: GetEstimatedSpace_def with_stage_def)
  ultimately show ?thesis using fx by auto
qed

text \<open>
  Pool 2, from a state in which no collection is running.  Pool 1 is collected first when it has less
  room than the live bytes of pool 2; its stage and its records come on top of those of pool 2.
\<close>

definition nested :: "vm \<Rightarrow> bool" where
  "nested s \<longleftrightarrow> unat (GetRemainingSpace (Suc 0) s) < live_bytes s 2"

definition nested_need :: "vm \<Rightarrow> nat" where
  "nested_need s = internals_need 2 s + push_bytes sizeof_stage 1 + stage_bytes 1 s"

lemma cleanup_2:
  assumes wf: "heap_wf s" and marks: "marks_ok s" and headroom: "gc_mark s + 1 \<noteq> - 1" "gc_mark s \<noteq> - 1"
    and allowed: "\<not> gc_forbidden s" and idle: "stages s = []"
  shows "(CleanupThis 2 s = oom \<and>
       (unat GC_INTERNALS_SIZE < internals_need 2 s \<or> nested s \<and> unat GC_INTERNALS_SIZE < nested_need s)) \<or>
    ((gc_cursor s \<le> unat GC_INTERNALS_SIZE \<longrightarrow>
        internals_need 2 s \<le> unat GC_INTERNALS_SIZE \<and> (nested s \<longrightarrow> nested_need s \<le> unat GC_INTERNALS_SIZE)) \<and>
     ((CleanupThis 2 s = Inl AssertFailed \<and> nested s \<and> unat (GetRemainingSpace 0 s) < live_bytes s (Suc 0)) \<or>
      ((nested s \<longrightarrow> live_bytes s (Suc 0) \<le> unat (GetRemainingSpace 0 s)) \<and>
       (\<exists>t f. CleanupThis 2 s = Inr t \<and> cleaned f 2 s t))))"
proof -
  have two: "(2 :: nat) = Suc (Suc 0)" by simp
  from mark_collect [OF order.refl wf marks headroom(2)] show ?thesis
  proof (elim disjE exE conjE)
    assume "mark_stage 2 s = oom" "unat GC_INTERNALS_SIZE < internals_need 2 s"
    then show ?thesis using CleanupThis_unfold [of "Suc 0" s] allowed by (simp add: two [symmetric])
  next
    fix s1 assume cur1: "gc_cursor s1 = internals_need 2 s"
      and room1: "gc_cursor s \<le> unat GC_INTERNALS_SIZE \<longrightarrow> internals_need 2 s \<le> unat GC_INTERNALS_SIZE"
      and s1: "mark_stage 2 s = Inr s1" "graph s1 = graph s"
        "s1 = s\<lparr>objs := objs s1, stages := stages s1, gc_mark := gc_mark s + 1, gc_cursor := gc_cursor s1\<rparr>"
        "tl (stages s1) = stages s" "recorded 2 s1" "marks_ok s1"
    note e = collected_eq [OF s1(2,3)]
    have wf1: "heap_wf s1" using wf e(4) by simp
    from s1(4,5) idle obtain st where st: "stages s1 = [st]" by (auto simp: recorded_def)
    then have est: "GetEstimatedSpace s1 = Inr (estimating_realloc_size st)"
      by (simp add: GetEstimatedSpace_def with_stage_def)
    let ?e = "estimating_realloc_size st"
    have nst: "nested s \<longleftrightarrow> GetRemainingSpace (Suc 0) s1 < ?e"
      using estimate_is_live(1) [of 2, OF _ wf1 s1(5) est] e(9,10) by (simp add: nested_def word_less_nat_alt)
    have need1: "internals_need (Suc 0) s1 = nested_need s"
      by (simp add: internals_need_def [of "Suc 0"] nested_need_def cur1 st e(11))
    have finish: "\<exists>t f. move_and_rebind 2 u = Inr t \<and> cleaned f 2 s t"
      if u: "heap_iso g s u" "heap_wf u" "recorded 2 u" "marks_ok u" "GetEstimatedSpace u = Inr e'"
        "e' \<le> GetRemainingSpace (Suc 0) u" "tl (stages u) = []" "\<not> gc_forbidden u"
        "gc_mark u = gc_mark s + 1 \<or> gc_mark u = gc_mark s + 2" for u g e'
    proof -
      from move_and_rebind_spec [of "Suc 0" u e'] u obtain t f where
        t: "move_and_rebind 2 u = Inr t" "collected (Suc 0) f u t" "stages t = []" "gc_mark t = gc_mark u" "gc_cursor t = 8"
        by (auto simp: two [symmetric])
      have "heap_iso (f \<circ> g) s t" using iso_trans [OF u(1) _ wf] t(2) by (simp add: collected_def)
      then have "cleaned (f \<circ> g) 2 s t"
        using t(2-5) u(8,9) allowed idle by (simp add: cleaned_def collected_def two [symmetric])
      then show ?thesis using t(1) by blast
    qed
    have unfold: "CleanupThis 2 s =
        rbind (if GetRemainingSpace (Suc 0) s1 < ?e
               then rbind (CleanupThis (Suc 0) s1) (\<lambda>t1.
                      rbind (GetEstimatedSpace t1) (\<lambda>e1.
                        guard (GetRemainingSpace (Suc 0) t1 \<ge> e1) AssertFailed (FixInvalidDanglingReferences t1)))
               else Inr s1) (move_and_rebind 2)"
      using CleanupThis_unfold [of "Suc 0" s] allowed s1(1) est by (simp add: two [symmetric])
    have id: "heap_iso (\<lambda>a. a) s s1" using iso_refl [OF wf1] e(8) by simp
    show ?thesis
    proof (cases "GetRemainingSpace (Suc 0) s1 < ?e")
      case False
      then have "\<not> nested s" by (simp add: nst)
      moreover have "\<exists>t f. CleanupThis 2 s = Inr t \<and> cleaned f 2 s t"
        using finish [OF id wf1 s1(5,6) est] False s1(4) idle e(6,7) allowed by (auto simp: unfold not_less)
      ultimately show ?thesis using room1 by blast
    next
      case True
      then have n: "nested s" by (simp add: nst)
      have "gc_mark s1 \<noteq> - 1" "\<not> gc_forbidden s1" using headroom(1) e(6,7) allowed by simp_all
      from cleanup_1 [OF wf1 s1(6) this, unfolded need1] show ?thesis
      proof (elim disjE exE conjE)
        assume "CleanupThis (Suc 0) s1 = oom" "unat GC_INTERNALS_SIZE < nested_need s"
        then show ?thesis using True n by (simp add: unfold)
      next
        assume "CleanupThis (Suc 0) s1 = Inl AssertFailed" "unat (GetRemainingSpace 0 s1) < live_bytes s1 (Suc 0)"
          "gc_cursor s1 \<le> unat GC_INTERNALS_SIZE \<longrightarrow> nested_need s \<le> unat GC_INTERNALS_SIZE"
        then show ?thesis using True n room1 cur1 e(9,10) by (simp add: unfold)
      next
        fix t1 g assume t1: "CleanupThis (Suc 0) s1 = Inr t1" "collected 0 g s1 t1" "stages t1 = stages s1"
          "gc_mark t1 = gc_mark s1 + 1"
          and fits: "live_bytes s1 (Suc 0) \<le> unat (GetRemainingSpace 0 s1)"
            "gc_cursor s1 \<le> unat GC_INTERNALS_SIZE \<longrightarrow> nested_need s \<le> unat GC_INTERNALS_SIZE"
        from nested_recorded [OF wf1 s1(5) st t1(2,3)] obtain u where
          u: "FixInvalidDanglingReferences t1 = Inr u" "recorded 2 u" "u = t1\<lparr>stages := stages u\<rparr>"
            "GetEstimatedSpace u = GetEstimatedSpace t1" "tl (stages u) = []" by blast
        have est1: "GetEstimatedSpace t1 = Inr ?e" using t1(3) st by (simp add: GetEstimatedSpace_def with_stage_def)
        have gu: "graph u = graph t1" and fu: "frames u = frames t1" and cu: "cursors u = cursors t1"
          and mu: "marks_ok u = marks_ok t1" and forb: "gc_forbidden u = gc_forbidden t1"
          and mark: "gc_mark u = gc_mark t1" and iso_u: "heap_iso g s1 u = heap_iso g s1 t1" for g
          by (subst u(3), simp add: graph_def fun_eq_iff marks_ok_def heap_iso_def)+
        have iso: "heap_iso g s u" using iso_u t1(2) e(8) by (simp add: collected_def)
        have wfu: "heap_wf u" using t1(2) heap_eq(2) [OF gu fu cu] by (simp add: collected_def)
        have room: "?e \<le> GetRemainingSpace (Suc 0) t1"
          using estimate_is_live [of 2, OF _ wf1 s1(5) est] t1(2)
          by (simp add: word_le_nat_alt GetRemainingSpace_def collected_def)
        have "GetRemainingSpace (Suc 0) u = GetRemainingSpace (Suc 0) t1" by (simp add: GetRemainingSpace_def cu)
        then have "\<exists>t f. move_and_rebind 2 u = Inr t \<and> cleaned f 2 s t"
          using finish [OF iso wfu u(2) _ _ _ u(5), of ?e] mu mark t1(2,4) u(4) est1 room forb e(6,7) allowed
          by (simp add: collected_def add.assoc)
        then have "\<exists>t f. CleanupThis 2 s = Inr t \<and> cleaned f 2 s t"
          using True t1(1) est1 room u(1) by (simp add: unfold)
        then show ?thesis using fits room1 cur1 e(9,10) by auto
      qed
    qed
  qed
qed

end
