(* ===== verification/K3s_Machine.thy ===== *)
theory K3s_Machine
  imports K3s_Collect K3s_Runtime
begin

text \<open>
  Properties of the memory manager.  \<open>wf_on\<close> is the invariant of the objects region relative to a
  set of objects that contains the reachable ones; it is what allocation and the handlers of the
  interpreter preserve, and it implies \<open>heap_wf\<close>.
\<close>

subsection \<open>The invariant relative to a set\<close>

definition wf_on :: "addr set \<Rightarrow> vm \<Rightarrow> bool" where
  "wf_on A s \<longleftrightarrow> cursors_ok s \<and> frames_ok s \<and> closed s A \<and> (\<forall>r \<in> root_regs s. ref_ok s A r) \<and>
     (\<forall>a \<in> A. object_ok s a \<and> in_bounds s a) \<and> apart s A"

lemma ref_ok_reach: "ref_ok s A r \<Longrightarrow> (\<not> IsPrimitive r \<Longrightarrow> r_value r \<in> B) \<Longrightarrow> ref_ok s B r"
  by (auto simp: ref_ok_def)

lemma wf_on_heap: "wf_on A s \<Longrightarrow> heap_wf s"
proof -
  assume wf: "wf_on A s"
  let ?R = "roots_reach s"
  have sub: "?R \<subseteq> A" unfolding roots_reach_def using wf by (intro reach_sub) (simp_all add: wf_on_def)
  have "ref_ok s ?R r" if r: "r \<in> root_regs s" for r
  proof -
    have "ref_ok s A r" using wf r by (simp add: wf_on_def)
    then show ?thesis by (rule ref_ok_reach) (rule roots_reach_root [OF r])
  qed
  moreover have "closed s ?R"
    unfolding closed_def
  proof (intro ballI conjI)
    fix a assume a: "a \<in> ?R"
    then show "graph s a \<noteq> None" using wf sub by (auto simp: wf_on_def closed_def)
    fix r assume r: "r \<in> set (slots_at s a)"
    have "ref_ok s A r" using wf sub a r by (auto simp: wf_on_def closed_def)
    then show "ref_ok s ?R r" by (rule ref_ok_reach) (rule reach_closed [OF a r])
  qed
  moreover have "object_ok s a" "in_bounds s a" if "a \<in> ?R" for a
    using wf that sub by (auto simp: wf_on_def)
  moreover have "apart s ?R"
    using wf sub unfolding wf_on_def apart_def by (meson subsetD)
  moreover have "cursors_ok s" "frames_ok s" using wf by (simp_all add: wf_on_def)
  ultimately show ?thesis by (simp add: heap_wf_def)
qed

lemma heap_wf_on: "heap_wf s \<Longrightarrow> wf_on (roots_reach s) s"
  by (simp add: heap_wf_def wf_on_def)

subsection \<open>A small heap\<close>

text \<open>A function, and an array that refers to it and to itself, as a frame sees them.\<close>

definition fun_at :: addr where "fun_at = 0xF000008"
definition arr_at :: addr where "arr_at = 0xF0000C0"

definition small_vm :: vm where
  "small_vm = Create\<lparr>
     objs := [(fun_at, new_obj sizeof_function (new_function 0)),
              (arr_at, new_obj 72 (Array [set_func fun_at, set_arr arr_at]))],
     frames := [(new_frame (- 1) fun_at)\<lparr>f_acc := set_arr arr_at\<rparr>],
     cursors := (\<lambda>_. 8)(2 := 264)\<rparr>"

lemma small_graph:
  "graph small_vm fun_at = Some (184, 0, new_function 0)"
  "graph small_vm arr_at = Some (72, 0, Array [set_func fun_at, set_arr arr_at])"
  by (simp_all add: graph_def small_vm_def new_obj_def sizeof_defs fun_at_def arr_at_def)

lemma small_roots: "root_regs small_vm \<subseteq> {set_func fun_at, set_arr arr_at, reg_reset}"
  by (auto simp: root_regs_def set_all_roots root_reg_def root_frame_def small_vm_def new_frame_def split: root.splits)

lemma small_wf: "wf_on {fun_at, arr_at} small_vm"
  unfolding wf_on_def
proof (intro conjI)
  have prim: "IsPrimitive reg_reset" by (simp add: IsPrimitive_def reg_reset_def)
  have fa: "ref_ok small_vm {fun_at, arr_at} (set_func fun_at)" "ref_ok small_vm {fun_at, arr_at} (set_arr arr_at)"
    "ref_ok small_vm {fun_at, arr_at} reg_reset"
    by (simp_all add: ref_ok_def prim small_graph set_func_def set_arr_def new_function_def)
  show "cursors_ok small_vm"
    by (auto simp: cursors_ok_def pools used_end_def small_vm_def)
  show "frames_ok small_vm" by (simp add: frames_ok_def small_vm_def new_frame_def)
  show "closed small_vm {fun_at, arr_at}"
    using fa by (auto simp: closed_def small_graph slots_at_def new_function_def)
  show "\<forall>r \<in> root_regs small_vm. ref_ok small_vm {fun_at, arr_at} r"
    using small_roots fa by blast
  have "size_at small_vm fun_at = 184" "size_at small_vm arr_at = 72"
    by (simp_all add: size_at_def small_graph)
  moreover have "used_end small_vm 2 = 251658504"
    by (simp add: used_end_def small_vm_def)
  moreover have "object_ok small_vm fun_at" "object_ok small_vm arr_at"
    by (simp_all add: object_ok_def small_graph)
  ultimately show "\<forall>a \<in> {fun_at, arr_at}. object_ok small_vm a \<and> in_bounds small_vm a"
    "apart small_vm {fun_at, arr_at}"
    by (auto simp: in_bounds_def apart_def fun_at_def arr_at_def intro!: exI [of _ 2])
qed

lemma small_idle:
  "marks_ok small_vm" "gc_mark small_vm = 0" "\<not> gc_forbidden small_vm" "stages small_vm = []"
  "gc_cursor small_vm = 8"
  by (auto simp: small_vm_def Create_def marks_ok_def new_obj_def split: if_splits)

text \<open>The records of a collection of the young region fit, and so do its live objects.\<close>

lemma small_sets:
  "roots_reach small_vm \<subseteq> {fun_at, arr_at}"
  "slot_refs 2 small_vm (roots_reach small_vm) \<subseteq> {DSlot arr_at 0, DSlot arr_at 1}"
  "root_refs 2 small_vm (all_roots small_vm) \<subseteq> {DRoot (RCallee 0), DRoot (RAcc 0)}"
proof -
  show sub: "roots_reach small_vm \<subseteq> {fun_at, arr_at}"
    unfolding roots_reach_def using small_wf by (intro reach_sub) (simp_all add: wf_on_def)
  have prim: "\<not> into 2 reg_reset" by (simp add: into_def IsPrimitive_def reg_reset_def)
  have slots: "r = reg_reset" if "r \<in> set (slots_at small_vm fun_at)" for r
    using that by (auto simp: slots_at_def small_graph new_function_def)
  have "\<not> into 2 (slots_at small_vm fun_at ! i)" if "i < length (slots_at small_vm fun_at)" for i
    using slots [OF nth_mem [OF that]] prim by simp
  moreover have "length (slots_at small_vm arr_at) = 2" by (simp add: slots_at_def small_graph)
  ultimately show "slot_refs 2 small_vm (roots_reach small_vm) \<subseteq> {DSlot arr_at 0, DSlot arr_at 1}"
    using sub by (auto simp: slot_refs_def less_2_cases_iff)
  show "root_refs 2 small_vm (all_roots small_vm) \<subseteq> {DRoot (RCallee 0), DRoot (RAcc 0)}"
  proof
    fix d assume "d \<in> root_refs 2 small_vm (all_roots small_vm)"
    then obtain r where d: "d = DRoot r" and r: "r \<in> set (all_roots small_vm)" "into 2 (root_reg small_vm r)"
      by (auto simp: root_refs_def)
    then show "d \<in> {DRoot (RCallee 0), DRoot (RAcc 0)}"
      using prim by (cases r) (auto simp: set_all_roots root_reg_def root_frame_def small_vm_def new_frame_def)
  qed
qed

lemma small_room:
  "unat GC_INTERNALS_SIZE = 4194304" "\<not> nested small_vm" "\<not> unat GC_INTERNALS_SIZE < internals_need 2 small_vm"
proof -
  show size: "unat GC_INTERNALS_SIZE = 4194304" by (simp add: GC_INTERNALS_SIZE_def ALLOC_SIZE_def)
  let ?T = "{a \<in> roots_reach small_vm. Contains 2 a}"
  have T: "?T \<subseteq> {fun_at, arr_at}" using small_sets(1) by auto
  have "live_bytes small_vm 2 \<le> (\<Sum>a \<in> {fun_at, arr_at}. unat (size_at small_vm a))"
    unfolding live_bytes_def by (rule sum_mono2) (use T in auto)
  then have "live_bytes small_vm 2 \<le> 256" by (simp add: fun_at_def arr_at_def size_at_def small_graph [unfolded fun_at_def arr_at_def])
  then show "\<not> nested small_vm" by (simp add: nested_def GetRemainingSpace_def small_vm_def)
  have "card ?T \<le> card {fun_at, arr_at}" using T by (intro card_mono) auto
  then have t: "card ?T \<le> 2" using card_insert_le_m1 [of 2 "{arr_at}" fun_at] by simp
  have "card (slot_refs 2 small_vm (roots_reach small_vm)) \<le> card {DSlot arr_at 0, DSlot arr_at 1}"
    "card (root_refs 2 small_vm (all_roots small_vm)) \<le> card {DRoot (RCallee 0), DRoot (RAcc 0)}"
    by (rule card_mono [OF _ small_sets(2)], simp, rule card_mono [OF _ small_sets(3)], simp)
  then have r: "card (slot_refs 2 small_vm (roots_reach small_vm)) + card (root_refs 2 small_vm (all_roots small_vm)) \<le> 4"
    by simp
  have "stage_bytes 2 small_vm \<le> pushed sizeof_target 0 2 + pushed sizeof_dangling 0 4"
    unfolding stage_bytes_def roots_reach_def [symmetric] by (intro add_mono pushed_mono t r)
  then have "stage_bytes 2 small_vm \<le> 500"
    by (simp add: sizeof_target_def sizeof_dangling_def push_bytes_def eval_nat_numeral)
  then show "\<not> unat GC_INTERNALS_SIZE < internals_need 2 small_vm"
    by (simp add: internals_need_def size small_idle push_bytes_def sizeof_stage_def)
qed

subsection \<open>Collection\<close>

text \<open>
  C2: A collection of the young region, started in a state that satisfies the heap invariant with no
  collection running, ends in exactly one of four ways, and the state decides which.  The middle region is
  collected first when it has less room than the live bytes of the young one.  If the collector's own
  region cannot hold the records (the pointers to the live objects of the region and the references
  to them, in vectors that double), the allocator reports that it is out of memory.  If the middle
  region has to be collected and the tenured region has less room than its live bytes, the assertion
  that there is room fails.  Otherwise the collection succeeds: the objects reachable from the frames
  are kept, every one at one new address, with its size, its data and its references, all references
  and roots are redirected, the invariant holds again, and the young region and the collector's
  region are empty.
\<close>

theorem collection_preserves_the_heap:
  assumes "heap_wf s" and "marks_ok s" and "gc_mark s \<noteq> - 1" "gc_mark s + 1 \<noteq> - 1"
    and "\<not> gc_forbidden s" and "stages s = []" and "gc_cursor s \<le> unat GC_INTERNALS_SIZE"
  shows "if unat GC_INTERNALS_SIZE < internals_need 2 s \<or> nested s \<and> unat GC_INTERNALS_SIZE < nested_need s
    then CleanupThis 2 s = Inl (Fatal ''ALLOCATOR OOM'')
    else if nested s \<and> unat (GetRemainingSpace 0 s) < live_bytes s 1 then CleanupThis 2 s = Inl AssertFailed
    else \<exists>t f. CleanupThis 2 s = Inr t \<and> heap_iso f s t \<and> heap_wf t \<and> marks_ok t \<and> stages t = [] \<and>
       \<not> gc_forbidden t \<and> cursors t 2 = 8 \<and> gc_cursor t = 8"
  using cleanup_2 [OF assms(1,2,4,3,5,6)] assms(5-7) by (auto simp: cleaned_def)

theorem collection_preserves_the_heap_witness:
  "\<exists>t f. CleanupThis 2 small_vm = Inr t \<and> heap_iso f small_vm t \<and> heap_wf t \<and> marks_ok t \<and> stages t = [] \<and>
     \<not> gc_forbidden t \<and> cursors t 2 = 8 \<and> gc_cursor t = 8"
  using collection_preserves_the_heap [of small_vm] small_room
  by (simp add: small_idle wf_on_heap [OF small_wf])

text \<open>
  C3: The marking phase of a collection of the pool \<open>N\<close> ends (the fuel the model gives it suffices).
  If the collector's region can hold the new stage and its records (\<open>internals_need\<close>), it succeeds:
  it has changed nothing but the marks of the objects, the current mark, the stage it has opened on top
  of the others and the cursor of the collector's region, which is now \<open>internals_need\<close>; the marked
  objects are exactly those that are reachable from the frames; and the stage lists every marked object of the
  pool and every reference to one of them once, with the sum of the sizes (\<open>recorded\<close>).  If the
  region cannot hold them, the allocator reports that it is out of memory.
\<close>

theorem marking_is_reachability:
  assumes "N \<le> 2" and "heap_wf s" and "marks_ok s" and "gc_mark s \<noteq> - 1"
    and "gc_cursor s \<le> unat GC_INTERNALS_SIZE"
  shows "if unat GC_INTERNALS_SIZE < internals_need N s
    then rbind (PrepareNewStage s) (MarkAndFetchTargetObjects N) = Inl (Fatal ''ALLOCATOR OOM'')
    else \<exists>t. rbind (PrepareNewStage s) (MarkAndFetchTargetObjects N) = Inr t \<and>
       t = s\<lparr>objs := objs t, stages := stages t, gc_mark := gc_mark s + 1, gc_cursor := internals_need N s\<rparr> \<and>
       graph t = graph s \<and> tl (stages t) = stages s \<and> recorded N t \<and>
       {a. \<exists>b. map_of (objs t) a = Some b \<and> o_mark b = gc_mark t} = reach s (root_regs s)"
proof -
  note wf = heap_wfD [OF assms(2), unfolded roots_reach_def]
  have roots: "\<forall>r \<in> root_regs s. ref_ok s (reach s (root_regs s)) r" using wf(4) by blast
  have fresh: "unmarked s" by (rule marks_unmarked [OF assms(3,4)])
  from mark_phase [OF assms(1) wf(3,2) roots fresh, unfolded mark_stage_def] show ?thesis
  proof (elim disjE exE conjE)
    fix t assume t: "rbind (PrepareNewStage s) (MarkAndFetchTargetObjects N) = Inr t"
        "gc_cursor t = internals_need N s"
        "gc_cursor s \<le> unat GC_INTERNALS_SIZE \<longrightarrow> internals_need N s \<le> unat GC_INTERNALS_SIZE" "graph t = graph s"
      and same: "t = s\<lparr>objs := objs t, stages := stages t, gc_mark := gc_mark s + 1, gc_cursor := gc_cursor t\<rparr>"
      and rest: "tl (stages t) = stages s" "recorded N t" "marked t = reach s (root_regs s)"
    note same [unfolded t(2)]
    then show ?thesis using t(1,3,4) rest assms(5) unfolding marked_def not_less [symmetric] by auto
  qed simp
qed

theorem marking_is_reachability_witness:
  "\<exists>t. rbind (PrepareNewStage small_vm) (MarkAndFetchTargetObjects 2) = Inr t \<and>
     t = small_vm\<lparr>objs := objs t, stages := stages t, gc_mark := gc_mark small_vm + 1,
       gc_cursor := internals_need 2 small_vm\<rparr> \<and>
     graph t = graph small_vm \<and> tl (stages t) = stages small_vm \<and> recorded 2 t \<and>
     {a. \<exists>b. map_of (objs t) a = Some b \<and> o_mark b = gc_mark t} = reach small_vm (root_regs small_vm)"
  using marking_is_reachability [of 2 small_vm] small_room
  by (simp add: small_idle wf_on_heap [OF small_wf])

end
