(* ===== verification/K3s_Safety.thy ===== *)
theory K3s_Safety
  imports K3s_Machine
begin

text \<open>
  Safety of the references: every handler of the interpreter keeps the invariant of the heap, whatever
  program it runs.  A register of a frame or of a reachable object whose tag is a class refers to an
  object of that class, across allocations and the collections they start.  \<open>safe_on A\<close> states the
  invariant relative to a set \<open>A\<close> of objects that contains the reachable ones; a handler that allocates
  may change the set.
\<close>

subsection \<open>The invariant by frames\<close>

definition frame_regs :: "frame \<Rightarrow> register set" where
  "frame_regs f = insert (set_func (f_callee f)) (insert (f_acc f) (set (f_regs f)))"

definition regs_ok :: "vm \<Rightarrow> addr set \<Rightarrow> frame \<Rightarrow> bool" where
  "regs_ok s A f \<longleftrightarrow> length (f_regs f) = 16 \<and> (\<forall>r \<in> frame_regs f. ref_ok s A r)"

definition heap_part :: "addr set \<Rightarrow> vm \<Rightarrow> bool" where
  "heap_part A s \<longleftrightarrow> cursors_ok s \<and> closed s A \<and> (\<forall>a \<in> A. object_ok s a \<and> in_bounds s a) \<and> apart s A"

lemma root_regs_frames:
  assumes "frames_ok s"
  shows "root_regs s = \<Union> (frame_regs ` set (frames s))"
proof (intro equalityI subsetI)
  fix v assume "v \<in> root_regs s"
  then obtain r where r: "r \<in> set (all_roots s)" "v = root_reg s r" by (auto simp: root_regs_def)
  then have i: "frames s ! root_frame r \<in> set (frames s)" by (simp add: set_all_roots)
  then have "length (f_regs (frames s ! root_frame r)) = 16" using assms by (simp add: frames_ok_def)
  then have "v \<in> frame_regs (frames s ! root_frame r)"
    using r by (cases r) (auto simp: root_reg_def root_frame_def frame_regs_def set_all_roots)
  then show "v \<in> \<Union> (frame_regs ` set (frames s))" using i by blast
next
  fix v assume "v \<in> \<Union> (frame_regs ` set (frames s))"
  then obtain i where i: "i < length (frames s)" "v \<in> frame_regs (frames s ! i)" by (auto simp: in_set_conv_nth)
  have len: "length (f_regs (frames s ! i)) = 16" using assms i(1) by (simp add: frames_ok_def)
  from i(2) consider "v = root_reg s (RCallee i)" | "v = root_reg s (RAcc i)" | j where "j < 16" "v = root_reg s (RReg i j)"
    using len by (auto simp: frame_regs_def root_reg_def in_set_conv_nth)
  then show "v \<in> root_regs s"
    by cases (auto simp: root_regs_def set_all_roots root_frame_def i(1))
qed

lemma wf_on_frames: "wf_on A s \<longleftrightarrow> heap_part A s \<and> (\<forall>f \<in> set (frames s). regs_ok s A f)"
proof (cases "frames_ok s")
  case True
  then show ?thesis
    by (auto simp: wf_on_def heap_part_def regs_ok_def root_regs_frames [OF True] frames_ok_def)
next
  case False
  then show ?thesis by (auto simp: wf_on_def regs_ok_def frames_ok_def)
qed

text \<open>The heap part and the references depend only on the objects and the cursors.\<close>

lemma graph_objs: "objs t = objs s \<Longrightarrow> graph t = graph s"
  by (simp add: graph_def fun_eq_iff)

lemma same_heap:
  assumes "objs t = objs s"
  shows "ref_ok t A r = ref_ok s A r" "regs_ok t A f = regs_ok s A f" "cursors t = cursors s \<Longrightarrow> heap_part A t = heap_part A s"
proof -
  note g = graph_objs [OF assms]
  show r: "ref_ok t A r = ref_ok s A r" for r by (simp add: ref_ok_def g)
  then show "regs_ok t A f = regs_ok s A f" by (simp add: regs_ok_def)
  assume c: "cursors t = cursors s"
  have "slots_at t = slots_at s" "size_at t = size_at s" by (simp_all add: slots_at_def size_at_def g fun_eq_iff)
  then show "heap_part A t = heap_part A s"
    using r by (simp add: heap_part_def cursors_ok_def used_end_def c closed_def object_ok_def in_bounds_def apart_def g)
qed

text \<open>The state between two handlers.\<close>

definition safe_on :: "addr set \<Rightarrow> vm \<Rightarrow> bool" where
  "safe_on A s \<longleftrightarrow> wf_on A s \<and> marks_ok s \<and> stages s = []"

definition machine_ok :: "vm \<Rightarrow> bool" where
  "machine_ok s \<longleftrightarrow> heap_wf s \<and> marks_ok s \<and> stages s = [] \<and> \<not> gc_forbidden s"

lemma machine_okI: "safe_on A s \<Longrightarrow> \<not> gc_forbidden s \<Longrightarrow> machine_ok s"
  by (auto simp: safe_on_def machine_ok_def intro: wf_on_heap)

lemma machine_okE:
  assumes "machine_ok s"
  obtains A where "safe_on A s" "\<not> gc_forbidden s"
  using assms heap_wf_on by (auto simp: safe_on_def machine_ok_def)

subsection \<open>Registers\<close>

lemma top_ok:
  assumes "safe_on A s" "frames s = f # fs"
  shows "regs_ok s A f" "\<forall>g \<in> set fs. regs_ok s A g" "heap_part A s"
  using assms by (auto simp: safe_on_def wf_on_frames)

lemma safe_frames:
  assumes "safe_on A s" "\<forall>f \<in> set fs. regs_ok s A f"
  shows "safe_on A (s\<lparr>frames := fs\<rparr>)"
proof -
  have "objs (s\<lparr>frames := fs\<rparr>) = objs s" "cursors (s\<lparr>frames := fs\<rparr>) = cursors s" by simp_all
  note e = same_heap(2) [OF this(1)] same_heap(3) [OF this]
  show ?thesis using assms by (simp add: safe_on_def wf_on_frames e marks_ok_def)
qed

lemma with_top_eq_Inr: "with_top s k = Inr x \<longleftrightarrow> (\<exists>f fs. frames s = f # fs \<and> k f = Inr x)"
  by (auto simp: with_top_def split: list.splits)

lemma GetReg_ok: "safe_on A s \<Longrightarrow> GetReg i s = Inr r \<Longrightarrow> ref_ok s A r"
  by (auto simp: GetReg_def with_top_eq_Inr res_simps regs_ok_def frame_regs_def dest!: top_ok(1))

lemma GetAcc_ok: "safe_on A s \<Longrightarrow> GetAcc s = Inr r \<Longrightarrow> ref_ok s A r"
  by (auto simp: GetAcc_def with_top_eq_Inr regs_ok_def frame_regs_def dest!: top_ok(1))

lemma GetCallee_ok: "safe_on A s \<Longrightarrow> GetCallee s = Inr p \<Longrightarrow> ref_ok s A (set_func p)"
  by (auto simp: GetCallee_def with_top_eq_Inr regs_ok_def frame_regs_def dest!: top_ok(1))

text \<open>A step that keeps the set of objects.\<close>

definition quiet :: "vm \<Rightarrow> vm \<Rightarrow> bool" where
  "quiet s t \<longleftrightarrow> gc_mark t = gc_mark s \<and> gc_forbidden t = gc_forbidden s"

lemma set_top_ok:
  assumes "safe_on A s" "frames s = f # fs" "regs_ok s A g"
  shows "safe_on A (set_top g s) \<and> quiet s (set_top g s)"
  using safe_frames [of A s "g # fs"] assms top_ok(2) [OF assms(1,2)] by (simp add: set_top_def quiet_def)

lemma SetReg_ok:
  assumes "safe_on A s" "ref_ok s A r" "SetReg i r s = Inr t"
  shows "safe_on A t \<and> quiet s t"
proof -
  from assms(3) obtain f fs where f: "frames s = f # fs" "i < length (f_regs f)" "t = set_top (f\<lparr>f_regs := (f_regs f)[i := r]\<rparr>) s"
    by (auto simp: SetReg_def with_top_eq_Inr res_simps)
  have "regs_ok s A (f\<lparr>f_regs := (f_regs f)[i := r]\<rparr>)"
    using top_ok(1) [OF assms(1) f(1)] assms(2) set_update_subset_insert [of "f_regs f" i r]
    by (auto simp: regs_ok_def frame_regs_def)
  then show ?thesis using set_top_ok [OF assms(1) f(1)] f(3) by simp
qed

lemma SetAcc_ok:
  assumes "safe_on A s" "ref_ok s A r" "SetAcc r s = Inr t"
  shows "safe_on A t \<and> quiet s t"
proof -
  from assms(3) obtain f fs where f: "frames s = f # fs" "t = set_top (f\<lparr>f_acc := r\<rparr>) s"
    by (auto simp: SetAcc_def with_top_eq_Inr)
  have "regs_ok s A (f\<lparr>f_acc := r\<rparr>)"
    using top_ok(1) [OF assms(1) f(1)] assms(2) by (auto simp: regs_ok_def frame_regs_def)
  then show ?thesis using set_top_ok [OF assms(1) f(1)] f(2) by simp
qed

lemma primitive_ok: "ref_ok s A (set_num d)" "ref_ok s A reg_reset" "ref_ok s A \<lparr>r_type = ANY, r_value = v\<rparr>"
  by (simp_all add: ref_ok_def IsPrimitive_def set_num_def reg_reset_def)

lemma push_frame_ok:
  assumes "safe_on A s" "ref_ok s A (set_func p)" "push_frame (new_frame c p) s = Inr t"
  shows "safe_on A t \<and> quiet s t"
proof -
  have t: "t = s\<lparr>frames := new_frame c p # frames s\<rparr>" using assms(3) by (auto simp: push_frame_def res_simps)
  have "regs_ok s A (new_frame c p)" using assms(2) by (auto simp: regs_ok_def frame_regs_def new_frame_def primitive_ok)
  then show ?thesis using safe_frames [OF assms(1)] assms(1) by (simp add: t quiet_def safe_on_def wf_on_frames)
qed

subsection \<open>Reading and writing objects\<close>

text \<open>A reference of a class is to an object of that class: the accessors do not miss.\<close>

lemma ref_okE:
  assumes "ref_ok s A r" "r_type r = body_type_of" "body_type_of \<noteq> NUM" "body_type_of \<noteq> ANY"
  shows "r_value r \<in> A" "\<exists>b. map_of (objs s) (r_value r) = Some b \<and> body_type (o_body b) = body_type_of"
  using assms by (auto simp: ref_ok_def IsPrimitive_def graph_Some_iff)

lemma slot_ok_read:
  assumes "safe_on A s" "p \<in> A" "get_body t p s = Inr b" "r \<in> set (slots b)"
  shows "ref_ok s A r"
proof -
  obtain x where x: "map_of (objs s) p = Some x" "b = o_body x" using assms(3) by (auto simp: get_body_def res_simps)
  have "closed s A" using assms(1) by (simp add: safe_on_def wf_on_def)
  then show ?thesis using assms(2,4) x slots_at_eq [OF x(1)] by (auto simp: closed_def)
qed

text \<open>Objects keep their place, size and class.\<close>

definition objects_stay :: "addr set \<Rightarrow> vm \<Rightarrow> vm \<Rightarrow> bool" where
  "objects_stay A s t \<longleftrightarrow> (\<forall>a \<in> A. \<forall>n p b. graph s a = Some (n, p, b) \<longrightarrow>
     (\<exists>c. graph t a = Some (n, p, c) \<and> body_type c = body_type b))"

lemma stay_ref:
  assumes "objects_stay A s t" "ref_ok s A r" "A \<subseteq> B"
  shows "ref_ok t B r"
proof (cases "IsPrimitive r")
  case False
  then obtain n p b where g: "r_value r \<in> A" "graph s (r_value r) = Some (n, p, b)" "body_type b = r_type r"
    using assms(2) by (auto simp: ref_ok_def)
  then obtain c where "graph t (r_value r) = Some (n, p, c)" "body_type c = body_type b"
    using assms(1) unfolding objects_stay_def by blast
  then show ?thesis using g assms(3) by (auto simp: ref_ok_def)
qed (simp add: ref_ok_def)

lemma stay_self: "objects_stay A s t \<Longrightarrow> ref_ok s A r \<Longrightarrow> ref_ok t A r"
  by (rule stay_ref) auto

lemma stay_size: "objects_stay A s t \<Longrightarrow> closed s A \<Longrightarrow> a \<in> A \<Longrightarrow> size_at t a = size_at s a"
  by (fastforce simp: objects_stay_def size_at_def closed_def)

lemma stay_heap:
  assumes "objects_stay A s t" "heap_part A s" "cursors t = cursors s"
    and "\<And>a r. a \<in> A \<Longrightarrow> r \<in> set (slots_at t a) \<Longrightarrow> r \<in> set (slots_at s a) \<or> ref_ok t A r"
  shows "heap_part A t"
proof -
  have old: "cursors_ok s" "closed s A" "\<And>a. a \<in> A \<Longrightarrow> object_ok s a \<and> in_bounds s a" "apart s A"
    using assms(2) by (auto simp: heap_part_def)
  note size = stay_size [OF assms(1) old(2)]
  have "closed t A"
    unfolding closed_def
  proof (intro ballI conjI)
    fix a assume a: "a \<in> A"
    have "graph s a \<noteq> None" using old(2) a by (simp add: closed_def)
    then show "graph t a \<noteq> None" using assms(1) a by (fastforce simp: objects_stay_def)
    fix r assume "r \<in> set (slots_at t a)"
    with assms(4) [OF a] show "ref_ok t A r" using old(2) a stay_self [OF assms(1)] by (auto simp: closed_def)
  qed
  moreover have "object_ok t a" "in_bounds t a" if a: "a \<in> A" for a
  proof -
    obtain n b where b: "graph s a = Some (n, 0, b)" "0 < unat n" using old(3) [OF a] by (auto simp: object_ok_def)
    then show "object_ok t a" using assms(1) a unfolding objects_stay_def object_ok_def by blast
    show "in_bounds t a" using old(3) [OF a] by (simp add: in_bounds_def size [OF a] used_end_def assms(3))
  qed
  moreover have "apart t A" using old(4) size by (simp add: apart_def)
  moreover have "cursors_ok t" using old(1) by (simp add: cursors_ok_def used_end_def assms(3))
  ultimately show ?thesis by (simp add: heap_part_def)
qed

lemma set_field_stay:
  assumes "set_field p i r s = Inr t"
  shows "objects_stay A s t" "a \<noteq> p \<Longrightarrow> graph t a = graph s a" "slots_at t p = (slots_at s p)[i := r]"
    "t = s\<lparr>objs := objs t\<rparr>" "marks_ok s \<Longrightarrow> marks_ok t"
proof -
  from assms obtain b where b: "map_of (objs s) p = Some b" "i < length (slots (o_body b))"
    and t: "t = hput p (b\<lparr>o_body := set_slot (o_body b) i r\<rparr>) s" by (auto simp: set_field_def res_simps)
  have g: "graph t = (graph s)(p := Some (o_size b, o_reloc b, set_slot (o_body b) i r))"
    by (auto simp: t graph_hput fun_eq_iff)
  show "objects_stay A s t" using graph_Some [OF b(1)] by (auto simp: objects_stay_def g)
  show "a \<noteq> p \<Longrightarrow> graph t a = graph s a" by (simp add: g)
  show "slots_at t p = (slots_at s p)[i := r]"
    using b(2) by (simp add: slots_at_eq [OF b(1)] slots_set) (simp add: slots_at_def g slots_set)
  show "t = s\<lparr>objs := objs t\<rparr>" by (simp add: t hput_def)
  show "marks_ok s \<Longrightarrow> marks_ok t" using b(1) by (auto simp: marks_ok_def t)
qed

lemma set_field_ok:
  assumes "safe_on A s" "ref_ok s A r" "set_field p i r s = Inr t"
  shows "safe_on A t \<and> quiet s t"
proof -
  note f = set_field_stay [OF assms(3)]
  have fields: "frames t = frames s" "cursors t = cursors s" "stages t = stages s" "quiet s t"
    by (subst f(4); simp add: quiet_def)+
  have r: "ref_ok t A r" by (rule stay_self [OF f(1) assms(2)])
  have "slots_at t a = slots_at s a" if "a \<noteq> p" for a using f(2) [OF that] by (simp add: slots_at_def)
  then have slots: "v \<in> set (slots_at s a) \<or> ref_ok t A v" if "v \<in> set (slots_at t a)" for a v
    using that r set_update_subset_insert [of "slots_at s p" i r] by (cases "a = p") (auto simp: f(3))
  have old: "heap_part A s" "\<forall>g \<in> set (frames s). regs_ok s A g" "marks_ok s" "stages s = []"
    using assms(1) by (simp_all add: safe_on_def wf_on_frames)
  have "heap_part A t" by (rule stay_heap [OF f(1) old(1) fields(2) slots])
  moreover have "\<forall>g \<in> set (frames t). regs_ok t A g"
    using old(2) stay_self [OF f(1)] by (auto simp: fields(1) regs_ok_def)
  ultimately show ?thesis using f(5) [OF old(3)] old(4) fields by (simp add: safe_on_def wf_on_frames)
qed

subsection \<open>Allocation\<close>

text \<open>Fresh storage of \<open>n\<close> bytes at \<open>p\<close> in the region of new objects, away from the objects of \<open>A\<close>.\<close>

definition fresh_at :: "addr set \<Rightarrow> vm \<Rightarrow> addr \<Rightarrow> nat \<Rightarrow> bool" where
  "fresh_at A s p n \<longleftrightarrow> lo 2 + 8 \<le> unat p \<and> unat p + n \<le> used_end s 2 \<and>
     (\<forall>a \<in> A. unat a + unat (size_at s a) \<le> unat p \<or> unat p + n \<le> unat a)"

lemma used_end_2: "cursors_ok s \<Longrightarrow> lo 2 + 8 \<le> used_end s 2 \<and> used_end s 2 \<le> hi 2"
  unfolding cursors_ok_def by (elim allE [of _ 2]) simp

lemma safe_bounds:
  assumes "safe_on A s" "a \<in> A"
  shows "unat a + unat (size_at s a) \<le> used_end s 2 \<or> hi 2 \<le> unat a" "0 < unat (size_at s a)"
proof -
  have "in_bounds s a" "object_ok s a" "cursors_ok s"
    using assms by (simp_all add: safe_on_def wf_on_frames heap_part_def)
  then show "unat a + unat (size_at s a) \<le> used_end s 2 \<or> hi 2 \<le> unat a" "0 < unat (size_at s a)"
    by (auto simp: in_bounds_def pools object_ok_def size_at_def)
qed

lemma bump_ok:
  assumes safe: "safe_on A s" and fit: "used_end s 2 + unat n \<le> hi 2" and run: "AllocBytes 2 n s = Inr (p, t)"
  shows "safe_on A t" "quiet s t" "fresh_at A t p (unat n)" "unat p = used_end s 2" "objs t = objs s"
    "\<And>q m. fresh_at B s q m \<Longrightarrow> fresh_at B t q m"
proof -
  note f = AllocBytes_fits [OF _ fit]
  have t: "t = s\<lparr>cursors := (cursors s)(2 := cursors s 2 + n)\<rparr>" and p: "p = START_PTR 2 + cursors s 2"
    using f(1) run by simp_all
  show up: "unat p = used_end s 2" using f(2) by (simp add: p)
  have wf: "heap_part A s" "\<forall>g \<in> set (frames s). regs_ok s A g" "marks_ok s" "stages s = []"
    using safe by (simp_all add: safe_on_def wf_on_frames)
  have c: "cursors_ok s" using wf(1) by (simp add: heap_part_def)
  have ue: "used_end t 2 = used_end s 2 + unat n" "\<And>N. N \<noteq> 2 \<Longrightarrow> used_end t N = used_end s N"
    using f(3) by (simp_all add: t used_end_def)
  then have more: "used_end s N \<le> used_end t N" for N by (cases "N = 2") simp_all
  show o: "objs t = objs s" by (simp add: t)
  note e = same_heap(1,2) [OF o] and g = graph_objs [OF o]
  have at: "slots_at t = slots_at s" "size_at t = size_at s" by (simp_all add: slots_at_def size_at_def g fun_eq_iff)
  have "cursors_ok t" using c fit ue more unfolding cursors_ok_def by (metis le_trans)
  moreover have "in_bounds s a \<Longrightarrow> in_bounds t a" for a using more by (auto simp: in_bounds_def at intro: le_trans)
  ultimately have "heap_part A t"
    using wf(1) by (simp add: heap_part_def closed_def object_ok_def apart_def at g e)
  then show "safe_on A t" using wf by (simp add: safe_on_def wf_on_frames e) (simp add: t marks_ok_def)
  show "quiet s t" by (simp add: t quiet_def)
  show "fresh_at A t p (unat n)"
    unfolding fresh_at_def up ue at using used_end_2 [OF c] safe_bounds(1) [OF safe] fit by fastforce
  show "fresh_at B s q m \<Longrightarrow> fresh_at B t q m" for q m using more [of 2] by (auto simp: fresh_at_def at)
qed

lemma cleanup_ok:
  assumes "safe_on A s" "\<not> gc_forbidden s" "CleanupThis 2 s = Inr t" "unat (gc_mark s) + 2 < 2 ^ 64"
  shows "\<exists>B. safe_on B t" "\<not> gc_forbidden t" "unat (gc_mark t) \<le> unat (gc_mark s) + 2" "cursors t 2 = 8"
proof -
  have bound: "unat (gc_mark s + 1) = unat (gc_mark s) + 1" "unat (gc_mark s + 2) = unat (gc_mark s) + 2"
    using assms(4) by (simp_all add: unat_word_ariths)
  have "gc_mark s + 1 \<noteq> 0" "gc_mark s + 2 \<noteq> 0" using bound by (metis add_is_0 unat_0 zero_neq_one, metis add_is_0 unat_0 zero_neq_numeral)
  then have room: "gc_mark s + 1 \<noteq> - 1" "gc_mark s \<noteq> - 1" by (simp_all add: eq_neg_iff_add_eq_0 add.assoc)
  have s: "heap_wf s" "marks_ok s" "stages s = []" using assms(1) wf_on_heap by (auto simp: safe_on_def)
  from cleanup_2 [OF s(1,2) room assms(2) s(3)] assms(3) obtain f where "cleaned f 2 s t" by auto
  then show "\<exists>B. safe_on B t" "\<not> gc_forbidden t" "unat (gc_mark t) \<le> unat (gc_mark s) + 2" "cursors t 2 = 8"
    using heap_wf_on [of t] s(3) assms(2) bound by (auto simp: cleaned_def safe_on_def)
qed

lemma direct_fits:
  assumes "safe_on A s" "GetRemainingSpace 2 s \<ge> n"
  shows "used_end s 2 + unat n \<le> hi 2"
proof -
  have "used_end s 2 \<le> hi 2" using assms(1) used_end_2 by (simp add: safe_on_def wf_on_def)
  then have "cursors s 2 \<le> REGION_SIZE 2" by (simp add: used_end_def word_le_nat_alt)
  then have "unat (GetRemainingSpace 2 s) = unat (REGION_SIZE 2) - unat (cursors s 2)"
    by (simp add: GetRemainingSpace_def unat_sub)
  then show ?thesis using assms(2) \<open>used_end s 2 \<le> hi 2\<close> by (simp add: used_end_def word_le_nat_alt)
qed

text \<open>While collections are forbidden an allocation takes the next bytes of the region.\<close>

lemma forbidden_alloc:
  assumes "safe_on A s" "gc_forbidden s" "PoolAllocBytes n s = Inr (p, t)"
  shows "used_end s 2 + unat n \<le> hi 2" "AllocBytes 2 n s = Inr (p, t)"
proof -
  have "CleanupThis 2 s = Inl (Fatal ''GC'')" using assms(2) CleanupThis_unfold [of "Suc 0" s] by (simp add: numeral_2_eq_2 guard_def)
  then have "GetRemainingSpace 2 s \<ge> n \<and> AllocBytes 2 n s = Inr (p, t)"
    using assms(3) by (auto simp: PoolAllocBytes_def SURVIVORS_N_def split: if_splits)
  then show "used_end s 2 + unat n \<le> hi 2" "AllocBytes 2 n s = Inr (p, t)" using direct_fits [OF assms(1)] by auto
qed

text \<open>The objects may have moved: the state after an allocation is safe relative to some set.\<close>

definition advances :: "vm \<Rightarrow> vm \<Rightarrow> bool" where
  "advances s t \<longleftrightarrow> gc_forbidden t = gc_forbidden s \<and> unat (gc_mark t) \<le> unat (gc_mark s) + 2"

lemma quiet_advances: "quiet s t \<Longrightarrow> advances s t" "advances s t \<Longrightarrow> quiet t u \<Longrightarrow> advances s u" "quiet s t \<Longrightarrow> advances t u \<Longrightarrow> advances s u"
  by (simp_all add: quiet_def advances_def)

lemma pool_alloc_ok:
  assumes "safe_on A s" "\<not> gc_forbidden s" "PoolAllocBytes n s = Inr (p, t)" "unat (gc_mark s) + 2 < 2 ^ 64"
    and "unat n + 8 < 2 ^ 64"
  shows "\<exists>B. safe_on B t \<and> fresh_at B t p (unat n) \<and> advances s t"
proof (cases "GetRemainingSpace 2 s \<ge> n")
  case True
  then have "AllocBytes 2 n s = Inr (p, t)" using assms(3) by (simp add: PoolAllocBytes_def SURVIVORS_N_def)
  from bump_ok [OF assms(1) direct_fits [OF assms(1) True] this] show ?thesis by (blast intro: quiet_advances)
next
  case False
  then obtain u where u: "CleanupThis 2 s = Inr u" "AllocBytes 2 n u = Inr (p, t)"
    using assms(3) by (auto simp: PoolAllocBytes_def SURVIVORS_N_def res_simps)
  from cleanup_ok [OF assms(1,2) u(1) assms(4)] obtain B where B: "safe_on B u" "\<not> gc_forbidden u"
    "unat (gc_mark u) \<le> unat (gc_mark s) + 2" "cursors u 2 = 8" by blast
  have "unat (8 + n) = 8 + unat n" using assms(5) by (simp add: unat_word_ariths)
  moreover have "8 + n \<le> REGION_SIZE 2" using u(2) B(4) by (auto simp: AllocBytes_def Let_def split: if_splits)
  ultimately have "used_end u 2 + unat n \<le> hi 2" by (simp add: used_end_def B(4) word_le_nat_alt)
  from bump_ok [OF B(1) this u(2)] have "safe_on B t" "quiet u t" "fresh_at B t p (unat n)" by blast+
  then show ?thesis using B assms(2) by (auto simp: advances_def quiet_def)
qed

lemma add_object:
  assumes safe: "safe_on A s" and fresh: "fresh_at A s p (unat n)" and n: "0 < unat n"
    and same: "frames t = frames s" "cursors t = cursors s" "stages t = stages s" "marks_ok t"
    and keep: "\<And>a. a \<in> A \<Longrightarrow> graph t a = graph s a"
    and new: "graph t p = Some (n, 0, b)" "\<And>r. r \<in> set (slots b) \<Longrightarrow> ref_ok s A r"
  shows "safe_on (insert p A) t" "ref_ok t (insert p A) \<lparr>r_type = body_type b, r_value = p\<rparr>"
proof -
  have old: "cursors_ok s" "closed s A" "\<And>a. a \<in> A \<Longrightarrow> object_ok s a \<and> in_bounds s a" "apart s A"
    "\<And>f. f \<in> set (frames s) \<Longrightarrow> regs_ok s A f" "stages s = []"
    using safe by (auto simp: safe_on_def wf_on_frames heap_part_def)
  have stay: "objects_stay A s t" using keep by (simp add: objects_stay_def)
  note ref = stay_ref [OF stay _ subset_insertI [of A p]]
  have at: "slots_at t a = slots_at s a" "size_at t a = size_at s a" if "a \<in> A" for a
    using keep [OF that] by (simp_all add: slots_at_def size_at_def)
  have here: "slots_at t p = slots b" "size_at t p = n" using new(1) by (simp_all add: slots_at_def size_at_def)
  have ue: "used_end t N = used_end s N" for N by (simp add: used_end_def same(2))
  have "closed t (insert p A)"
    using old(2) ref keep new by (auto simp: closed_def at here)
  moreover have "object_ok t a \<and> in_bounds t a" if "a \<in> insert p A" for a
  proof (cases "a \<in> A")
    case True
    then show ?thesis using old(3) [OF True] keep by (simp add: object_ok_def in_bounds_def at ue)
  next
    case False
    then show ?thesis using that new(1) n fresh
      by (auto simp: object_ok_def in_bounds_def here ue fresh_at_def intro!: exI [of _ "2 :: nat"])
  qed
  moreover have "apart t (insert p A)"
    using old(4) fresh by (auto simp: apart_def fresh_at_def at here)
  moreover have "cursors_ok t" using old(1) by (simp add: cursors_ok_def ue)
  moreover have "\<forall>f \<in> set (frames t). regs_ok t (insert p A) f" using old(5) ref by (auto simp: same(1) regs_ok_def)
  ultimately show "safe_on (insert p A) t" using same(3,4) old(6) by (simp add: safe_on_def wf_on_frames heap_part_def)
  show "ref_ok t (insert p A) \<lparr>r_type = body_type b, r_value = p\<rparr>" using new(1) by (simp add: ref_ok_def)
qed

text \<open>Placing an object over fresh storage disturbs no object of the set, nor one that starts before it.\<close>

lemma place_graph:
  assumes safe: "safe_on A s" and fresh: "fresh_at A s p (unat n)"
  shows "a \<in> A \<Longrightarrow> 0 < unat n \<Longrightarrow> graph (place p n b s) a = graph s a" "unat a < unat p \<Longrightarrow> graph (place p n b s) a = graph s a"
    "graph (place p n b s) p = Some (o_size b, o_reloc b, o_body b)"
    "marks_ok s \<Longrightarrow> o_mark b = 0 \<Longrightarrow> marks_ok (place p n b s)"
proof -
  have "used_end s 2 \<le> hi 2" using safe used_end_2 by (simp add: safe_on_def wf_on_def)
  then have stop: "unat (p + n) = unat p + unat n"
    using fresh by (intro unat_add_lem [THEN iffD1]) (simp add: fresh_at_def)
  show "graph (place p n b s) a = graph s a" if "unat a < unat p"
  proof -
    have "a \<noteq> p" "\<not> p \<le> a" using that by (auto simp: word_le_nat_alt)
    then show ?thesis by (simp add: graph_def)
  qed
  show "graph (place p n b s) a = graph s a" if "a \<in> A" "0 < unat n"
  proof -
    have "unat a < unat p \<or> unat p + unat n \<le> unat a"
      using fresh safe_bounds(2) [OF safe that(1)] that(1) by (fastforce simp: fresh_at_def)
    then have "a \<noteq> p" "\<not> (p \<le> a \<and> a < p + n)" using that(2) by (auto simp: word_le_nat_alt word_less_nat_alt stop)
    then show ?thesis by (auto simp: graph_def)
  qed
  show "graph (place p n b s) p = Some (o_size b, o_reloc b, o_body b)" by (simp add: graph_def)
  show "marks_ok s \<Longrightarrow> o_mark b = 0 \<Longrightarrow> marks_ok (place p n b s)" by (auto simp: marks_ok_def split: if_splits)
qed

lemma place_new:
  assumes safe: "safe_on A s" and fresh: "fresh_at A s p (unat n)" and n: "0 < unat n" and slots: "\<And>r. r \<in> set (slots b) \<Longrightarrow> IsPrimitive r"
  shows "safe_on (insert p A) (place p n (new_obj n b) s)" "quiet s (place p n (new_obj n b) s)"
    "ref_ok (place p n (new_obj n b) s) (insert p A) \<lparr>r_type = body_type b, r_value = p\<rparr>"
proof -
  let ?t = "place p n (new_obj n b) s"
  note g = place_graph [OF safe fresh]
  have marks: "marks_ok ?t" by (rule g(4)) (use safe in \<open>simp_all add: safe_on_def new_obj_def\<close>)
  have at: "graph ?t p = Some (n, 0, b)" using g(3) by (simp add: new_obj_def)
  note a = add_object [OF safe fresh n place_fields(2,1,7) marks g(1) [OF _ n] at]
  have prim: "ref_ok s A r" if "r \<in> set (slots b)" for r using slots [OF that] by (simp add: ref_ok_def)
  show "safe_on (insert p A) ?t" "ref_ok ?t (insert p A) \<lparr>r_type = body_type b, r_value = p\<rparr>" using a prim by auto
  show "quiet s ?t" by (simp add: quiet_def)
qed

subsection \<open>Constructors\<close>

definition makes :: "(addr \<Rightarrow> register) \<Rightarrow> addr \<Rightarrow> vm \<Rightarrow> vm \<Rightarrow> bool" where
  "makes mk p s t \<longleftrightarrow> (\<exists>B. safe_on B t \<and> ref_ok t B (mk p)) \<and> advances s t"

lemma reg_forms: "set_func p = \<lparr>r_type = FUNC, r_value = p\<rparr>" "set_arr p = \<lparr>r_type = ARR, r_value = p\<rparr>"
  "set_str p = \<lparr>r_type = STR_T, r_value = p\<rparr>" "set_obj p = \<lparr>r_type = OBJ, r_value = p\<rparr>"
  by (simp_all add: set_func_def set_arr_def set_str_def set_obj_def)

text \<open>
  What the constructors rely on: fresh storage in a state that is safe relative to some set.  The pool
  promises it both when collections are allowed and when they are forbidden.
\<close>

locale object_allocator =
  fixes alloc :: "u64 \<Rightarrow> vm \<Rightarrow> (addr \<times> vm) res" and may_alloc :: "vm \<Rightarrow> bool"
  assumes alloc_ok: "safe_on A s \<Longrightarrow> may_alloc s \<Longrightarrow> alloc n s = Inr (p, t) \<Longrightarrow> unat n + 8 < 2 ^ 64 \<Longrightarrow>
    \<exists>B. safe_on B t \<and> fresh_at B t p (unat n) \<and> advances s t"
begin

lemma new_object_makes:
  assumes "safe_on A s" "may_alloc s" "alloc n s = Inr (p, u)"
    and "unat n + 8 < 2 ^ 64" "0 < unat n" "\<And>r. r \<in> set (slots b) \<Longrightarrow> IsPrimitive r"
    and "\<And>q. mk q = \<lparr>r_type = body_type b, r_value = q\<rparr>"
  shows "makes mk p s (place p n (new_obj n b) u)"
proof -
  from alloc_ok [OF assms(1-4)] obtain B where B: "safe_on B u" "fresh_at B u p (unat n)" "advances s u" by blast
  from place_new [OF B(1,2) assms(5,6)] show ?thesis
    unfolding makes_def assms(7) using quiet_advances(2) [OF B(3)] by blast
qed

end

definition may_collect :: "vm \<Rightarrow> bool" where
  "may_collect s \<longleftrightarrow> \<not> gc_forbidden s \<and> unat (gc_mark s) + 2 < 2 ^ 64"

interpretation pool: object_allocator PoolAllocBytes may_collect
  by unfold_locales (use pool_alloc_ok in \<open>auto simp: may_collect_def\<close>)

interpretation reserved: object_allocator PoolAllocBytes gc_forbidden
proof unfold_locales
  fix A s n p t
  assume a: "safe_on A s" "gc_forbidden s" "PoolAllocBytes n s = Inr (p, t)"
  from bump_ok [OF a(1) forbidden_alloc [OF a]] show "\<exists>B. safe_on B t \<and> fresh_at B t p (unat n) \<and> advances s t"
    by (blast intro: quiet_advances(1))
qed

lemma reset_slots: "r \<in> set (slots (new_function off)) \<Longrightarrow> IsPrimitive r" "r \<in> set (replicate k reg_reset) \<Longrightarrow> IsPrimitive r"
  by (auto simp: new_function_def reg_reset_def IsPrimitive_def)

lemma unat_function: "unat sizeof_function = 184"
  by (simp add: sizeof_defs)

lemma Function_New_ok:
  assumes "safe_on A s" "may_collect s" "Function_New off s = Inr (p, t)"
  shows "makes set_func p s t"
proof -
  obtain u where u: "PoolAllocBytes sizeof_function s = Inr (p, u)" "t = place p sizeof_function (new_obj sizeof_function (new_function off)) u"
    using assms(3) by (auto simp: Function_New_def res_simps)
  show ?thesis unfolding u(2)
    by (rule pool.new_object_makes [OF assms(1,2) u(1)]) (use reset_slots(1) in \<open>simp_all add: unat_function reg_forms, simp add: new_function_def\<close>)
qed

lemma sizes_in_storage:
  "in_storage p (40 + 16 * unat m) \<Longrightarrow> unat (array_size m) = 40 + 16 * unat m"
  "in_storage p (41 + length bs) \<Longrightarrow> unat (string_size bs) = 41 + length bs"
  "in_storage p (40 + 16 * length mp) \<Longrightarrow> unat (object_size mp) = 40 + 16 * length mp"
proof -
  have e: "array_size m = of_nat (40 + 16 * unat m)" "string_size bs = of_nat (41 + length bs)" "object_size mp = of_nat (40 + 16 * length mp)"
    by (simp_all add: array_size_def string_size_def object_size_def sizeof_defs)
  have "unat (of_nat k :: u64) = k" if "in_storage p k" for k
    using that by (intro of_nat_inverse) (simp_all add: in_storage_def SURVIVORS_N_def)
  then show "in_storage p (40 + 16 * unat m) \<Longrightarrow> unat (array_size m) = 40 + 16 * unat m"
    "in_storage p (41 + length bs) \<Longrightarrow> unat (string_size bs) = 41 + length bs"
    "in_storage p (40 + 16 * length mp) \<Longrightarrow> unat (object_size mp) = 40 + 16 * length mp"
    by (simp_all only: e)
qed

lemma in_storage_small: "in_storage p k \<Longrightarrow> k + 8 < 2 ^ 64"
  by (simp add: in_storage_def SURVIVORS_N_def)

lemma Array_New_ok:
  assumes "safe_on A s" "may_collect s" "Array_New n s = Inr (p, t)"
  shows "makes set_arr p s t"
proof -
  obtain u where u: "PoolAllocBytes (array_size n) s = Inr (p, u)" "in_storage p (40 + 16 * unat n)"
    and t: "t = place p (array_size n) (new_obj (array_size n) (Array (replicate (unat n) reg_reset))) u"
    using assms(3) by (auto simp: Array_New_def res_simps)
  show ?thesis unfolding t
    by (rule pool.new_object_makes [OF assms(1,2) u(1)])
      (use in_storage_small [OF u(2)] sizes_in_storage(1) [OF u(2)] reset_slots(2) in \<open>auto simp: reg_forms\<close>)
qed

lemma String_New_ok:
  assumes "safe_on A s" "may_collect s" "String_New text s = Inr (p, t)"
  shows "makes set_str p s t"
proof -
  let ?n = "string_size (c_str text)"
  obtain u where u: "PoolAllocBytes ?n s = Inr (p, u)" "in_storage p (41 + length (c_str text))"
    and t: "t = place p ?n (new_obj ?n (String (c_str text))) u"
    using assms(3) by (auto simp: String_New_def Let_def res_simps)
  show ?thesis unfolding t
    by (rule pool.new_object_makes [OF assms(1,2) u(1)])
      (use in_storage_small [OF u(2)] sizes_in_storage(2) [OF u(2)] in \<open>auto simp: reg_forms\<close>)
qed

subsection \<open>An object under construction\<close>

text \<open>It is not yet part of the set, has the size 0 and lies in storage of \<open>n\<close> bytes.\<close>

definition pending :: "addr set \<Rightarrow> vm \<Rightarrow> addr \<Rightarrow> nat \<Rightarrow> mapping \<Rightarrow> bool" where
  "pending A s p n m \<longleftrightarrow> fresh_at A s p n \<and> 0 < n \<and>
     (\<exists>fs. graph s p = Some (0, 0, Object m fs) \<and> (\<forall>r \<in> set fs. ref_ok s A r))"

lemma forbidden_function:
  assumes "safe_on A s" "gc_forbidden s" "Function_New off s = Inr (q, t)" "pending A s p n m"
  shows "safe_on (insert q A) t" "quiet s t" "ref_ok t (insert q A) (set_func q)" "pending (insert q A) t p n m"
proof -
  let ?n = sizeof_function and ?b = "new_function off"
  obtain u where u: "PoolAllocBytes ?n s = Inr (q, u)" and t: "t = place q ?n (new_obj ?n ?b) u"
    using assms(3) by (auto simp: Function_New_def res_simps)
  note f = forbidden_alloc [OF assms(1,2) u]
  note b = bump_ok [OF assms(1) f]
  have pos: "0 < unat ?n" by (simp add: unat_function)
  note new = place_new [OF b(1,3) pos reset_slots(1)]
  show safe: "safe_on (insert q A) t" using new(1) by (simp add: t)
  show "quiet s t" using new(2) b(2) by (simp add: t quiet_def)
  have "body_type ?b = FUNC" by (simp add: new_function_def)
  then show "ref_ok t (insert q A) (set_func q)" using new(3) [where b = ?b] by (simp add: t reg_forms)
  obtain fs where p: "fresh_at A s p n" "0 < n" "graph s p = Some (0, 0, Object m fs)" "\<And>r. r \<in> set fs \<Longrightarrow> ref_ok s A r"
    using assms(4) by (auto simp: pending_def)
  have below: "unat p + n \<le> unat q" using p(1) b(4) by (simp add: fresh_at_def)
  note g = place_graph [OF b(1,3)]
  have "graph t p = graph s p" unfolding t using g(2) [of p] below p(2) graph_objs [OF b(5)] by simp
  moreover have stay: "objects_stay A s t"
    unfolding t objects_stay_def using g(1) [OF _ pos] graph_objs [OF b(5)] by simp
  moreover have "fresh_at (insert q A) t p n"
  proof -
    have "size_at t a = size_at s a" if "a \<in> A" for a
      using g(1) [OF that pos] graph_objs [OF b(5)] by (simp add: t size_at_def)
    then show ?thesis using b(6) [OF p(1)] below p(1) by (auto simp: fresh_at_def t used_end_def)
  qed
  ultimately show "pending (insert q A) t p n m"
    using p(2,3) stay_ref [OF stay p(4) subset_insertI] by (auto simp: pending_def)
qed

lemma pending_field:
  assumes "safe_on A s" "pending A s p n m" "ref_ok s A r" "set_field p i r s = Inr t"
  shows "safe_on A t" "quiet s t" "pending A t p n m"
proof -
  show "safe_on A t" "quiet s t" using set_field_ok [OF assms(1,3,4)] by blast+
  obtain fs where p: "fresh_at A s p n" "0 < n" "graph s p = Some (0, 0, Object m fs)" "\<And>r. r \<in> set fs \<Longrightarrow> ref_ok s A r"
    using assms(2) by (auto simp: pending_def)
  note f = set_field_stay [OF assms(4)]
  have t: "graph t p = Some (0, 0, Object m (fs[i := r]))"
  proof -
    obtain b where b: "map_of (objs s) p = Some b" "t = hput p (b\<lparr>o_body := set_slot (o_body b) i r\<rparr>) s"
      using assms(4) by (auto simp: set_field_def res_simps)
    then show ?thesis using p(3) graph_Some [OF b(1)] by (auto simp: graph_hput)
  qed
  have "p \<notin> A"
  proof
    assume "p \<in> A"
    then have "object_ok s p" using assms(1) by (simp add: safe_on_def wf_on_def)
    then show False using p(3) by (auto simp: object_ok_def)
  qed
  then have "size_at t a = size_at s a" if "a \<in> A" for a using f(2) [of a] that by (cases "a = p") (auto simp: size_at_def)
  moreover have "used_end t 2 = used_end s 2" by (subst f(4)) (simp add: used_end_def)
  ultimately have "fresh_at A t p n" using p(1) by (simp add: fresh_at_def)
  moreover have "ref_ok t A v" if "v \<in> set (fs[i := r])" for v
    using that p(4) assms(3) stay_self [OF f(1)] set_update_subset_insert [of fs i r] by auto
  ultimately show "pending A t p n m" using t p(2) by (auto simp: pending_def)
qed

lemma new_methods_ok:
  assumes "safe_on A s" "gc_forbidden s" "pending A s p n m" "new_methods p i offs s = Inr t"
  shows "\<exists>B. safe_on B t \<and> pending B t p n m \<and> quiet s t"
  using assms
proof (induction offs arbitrary: A i s)
  case Nil
  then show ?case by (auto simp: quiet_def)
next
  case (Cons off offs)
  then obtain q u v where r: "Function_New off s = Inr (q, u)" "set_field p i (set_func q) u = Inr v" "new_methods p (Suc i) offs v = Inr t"
    by (auto simp: res_simps)
  note f = forbidden_function [OF Cons.prems(1,2) r(1) Cons.prems(3)]
  note g = pending_field [OF f(1,4,3) r(2)]
  have "gc_forbidden v" using Cons.prems(2) f(2) g(2) by (simp add: quiet_def)
  from Cons.IH [OF g(1) this g(3) r(3)] show ?case using f(2) g(2) by (auto simp: quiet_def)
qed

lemma place_safe:
  assumes "safe_on A s" "fresh_at A s p (unat n)" "0 < unat n" "o_mark b = 0"
  shows "safe_on A (place p n b s)" "fresh_at A (place p n b s) p (unat n)" "objects_stay A s (place p n b s)"
proof -
  let ?t = "place p n b s"
  note g = place_graph [OF assms(1,2)]
  have at: "slots_at ?t a = slots_at s a" "size_at ?t a = size_at s a" if "a \<in> A" for a
    using g(1) [OF that assms(3)] by (simp_all add: slots_at_def size_at_def)
  show stay: "objects_stay A s ?t" using g(1) assms(3) by (simp add: objects_stay_def)
  have old: "heap_part A s" "\<forall>f \<in> set (frames s). regs_ok s A f" "marks_ok s" "stages s = []"
    using assms(1) by (simp_all add: safe_on_def wf_on_frames)
  have "heap_part A ?t" by (rule stay_heap [OF stay old(1) place_fields(1)]) (simp add: at)
  moreover have "\<forall>f \<in> set (frames ?t). regs_ok ?t A f" using old(2) stay_self [OF stay] by (auto simp: regs_ok_def)
  ultimately show "safe_on A ?t" using g(4) [OF old(3) assms(4)] old(4) by (simp add: safe_on_def wf_on_frames)
  show "fresh_at A ?t p (unat n)" using assms(2) at(2) by (simp add: fresh_at_def used_end_def)
qed

lemma prepare_ok:
  assumes "safe_on A s" "may_collect s" "PrepareForSequentAllocations n s = Inr t"
  shows "\<exists>B. safe_on B t" "gc_forbidden t" "unat (gc_mark t) \<le> unat (gc_mark s) + 2"
proof -
  obtain u where u: "t = u\<lparr>gc_forbidden := True\<rparr>" "u = s \<or> CleanupThis 2 s = Inr u"
    using assms(3) by (auto simp: PrepareForSequentAllocations_def SURVIVORS_N_def res_simps split: if_splits)
  have "(\<exists>B. safe_on B u) \<and> unat (gc_mark u) \<le> unat (gc_mark s) + 2"
    using u(2) assms(1) cleanup_ok [OF assms(1)] assms(2) by (auto simp: may_collect_def)
  moreover have "objs t = objs u" "cursors t = cursors u" by (simp_all add: u(1))
  note same_heap(2) [OF this(1)] same_heap(3) [OF this]
  ultimately show "\<exists>B. safe_on B t" "gc_forbidden t" "unat (gc_mark t) \<le> unat (gc_mark s) + 2"
    by (auto simp: safe_on_def wf_on_frames marks_ok_def u(1))
qed

lemma finish_object:
  assumes "safe_on A s" "pending A s p (unat n) m" "hget p s = Inr b"
  shows "safe_on (insert p A) (hput p (b\<lparr>o_size := n\<rparr>) s)" "ref_ok (hput p (b\<lparr>o_size := n\<rparr>) s) (insert p A) (set_obj p)"
proof -
  let ?t = "hput p (b\<lparr>o_size := n\<rparr>) s"
  obtain fs where p: "fresh_at A s p (unat n)" "0 < unat n" "graph s p = Some (0, 0, Object m fs)" "\<And>r. r \<in> set fs \<Longrightarrow> ref_ok s A r"
    using assms(2) by (auto simp: pending_def)
  have b: "map_of (objs s) p = Some b" using assms(3) by (simp add: res_simps)
  have at: "graph ?t p = Some (n, 0, Object m fs)" using p(3) graph_Some [OF b] by (simp add: graph_hput)
  have "graph ?t a = graph s a" if "a \<in> A" for a
  proof -
    have "object_ok s a" using assms(1) that by (simp add: safe_on_def wf_on_def)
    then have "a \<noteq> p" using p(3) by (auto simp: object_ok_def)
    then show ?thesis by (simp add: graph_hput)
  qed
  moreover have "marks_ok ?t" using assms(1) b by (auto simp: safe_on_def marks_ok_def)
  ultimately show "safe_on (insert p A) ?t" "ref_ok ?t (insert p A) (set_obj p)"
    using add_object [OF assms(1) p(1,2) hput_fields(2,1,7) _ _ at] p(4) by (auto simp: reg_forms)
qed

lemma Object_New_ok:
  assumes "safe_on A s" "may_collect s" "Object_New m offs s = Inr (p, t)"
  shows "makes set_obj p s t"
proof -
  let ?n = "object_size m" and ?b = "new_obj 0 (Object m (replicate (length m) reg_reset))"
  obtain k s1 u s4 b where k: "PrepareForSequentAllocations (sizeof_function * k + ?n) s = Inr s1"
    and u: "PoolAllocBytes ?n s1 = Inr (p, u)" "in_storage p (40 + 16 * length m)"
    and s4: "new_methods p (length m - unat k) (take (unat k) (tl offs)) (place p ?n ?b u) = Inr s4"
    and b: "hget p s4 = Inr b" and t: "t = EndSequentAllocations (hput p (b\<lparr>o_size := ?n\<rparr>) s4)"
    using assms(3) by (auto simp: Object_New_def Let_def res_simps)
  from prepare_ok [OF assms(1,2) k] obtain B where B: "safe_on B s1" "gc_forbidden s1" "unat (gc_mark s1) \<le> unat (gc_mark s) + 2"
    by blast
  note f = forbidden_alloc [OF B(1,2) u(1)]
  note c = bump_ok [OF B(1) f]
  have pos: "0 < unat ?n" using sizes_in_storage(3) [OF u(2)] by simp
  have mark: "o_mark ?b = 0" by (simp add: new_obj_def)
  note pl = place_safe [OF c(1,3) pos mark]
  have "graph (place p ?n ?b u) p = Some (0, 0, Object m (replicate (length m) reg_reset))"
    using place_graph(3) [OF c(1,3)] by (simp add: new_obj_def)
  then have pend: "pending B (place p ?n ?b u) p (unat ?n) m"
    using pl(2) pos by (auto simp: pending_def primitive_ok)
  have "gc_forbidden (place p ?n ?b u)" using c(2) B(2) by (simp add: quiet_def)
  from new_methods_ok [OF pl(1) this pend s4] obtain C where C: "safe_on C s4" "pending C s4 p (unat ?n) m" "quiet (place p ?n ?b u) s4"
    by blast
  note fin = finish_object [OF C(1,2) b]
  let ?s5 = "hput p (b\<lparr>o_size := ?n\<rparr>) s4"
  have o: "objs t = objs ?s5" "cursors t = cursors ?s5" by (simp_all add: t EndSequentAllocations_def)
  note e = same_heap(1,2) [OF o(1)] same_heap(3) [OF o]
  have "safe_on (insert p C) t \<and> ref_ok t (insert p C) (set_obj p)"
    using fin by (simp add: safe_on_def wf_on_frames e) (simp add: t EndSequentAllocations_def marks_ok_def)
  moreover have "advances s t"
    using assms(2) [unfolded may_collect_def] B(3) C(3) c(2) by (simp add: advances_def quiet_def t EndSequentAllocations_def)
  ultimately show ?thesis by (auto simp: makes_def)
qed

subsection \<open>Handlers\<close>

text \<open>Handlers that do not allocate keep the set of objects and the collector's fields.\<close>

definition keeps :: "addr set \<Rightarrow> vm \<Rightarrow> vm \<Rightarrow> bool" where
  "keeps A s t \<longleftrightarrow> safe_on A t \<and> quiet s t"

definition good :: "vm \<Rightarrow> vm \<Rightarrow> bool" where
  "good s t \<longleftrightarrow> (\<exists>B. safe_on B t) \<and> advances s t"

lemma keeps_good: "keeps A s t \<Longrightarrow> good s t"
  by (auto simp: keeps_def good_def intro: quiet_advances)

lemma safe_other:
  "safe_on A (s\<lparr>pc := v\<rparr>) = safe_on A s" "safe_on A (s\<lparr>out := w\<rparr>) = safe_on A s"
proof -
  note a = same_heap [of "s\<lparr>pc := v\<rparr>" s, simplified] same_heap [of "s\<lparr>out := w\<rparr>" s, simplified]
  show "safe_on A (s\<lparr>pc := v\<rparr>) = safe_on A s" "safe_on A (s\<lparr>out := w\<rparr>) = safe_on A s"
    by (simp_all add: safe_on_def wf_on_frames a marks_ok_def)
qed

lemma quiet_pc [simp]: "quiet s (t\<lparr>pc := v\<rparr>) = quiet s t" "quiet s (t\<lparr>out := w\<rparr>) = quiet s t" "quiet s s"
  by (simp_all add: quiet_def)

lemma ref_ok_pc [simp]: "ref_ok (t\<lparr>pc := v\<rparr>) A r = ref_ok t A r"
  by (rule same_heap(1)) simp

lemma get_as_iff [res_simps]: "get_as t r = Inr p \<longleftrightarrow> r_type r = t \<and> p = r_value r"
  by (auto simp: get_as_def)

lemma callee_in: "ref_ok s A (set_func p) \<Longrightarrow> p \<in> A"
  by (simp add: ref_ok_def set_func_def IsPrimitive_def)

lemma ref_in: "ref_ok s A r \<Longrightarrow> r_type r = t \<Longrightarrow> t \<in> {ARR, OBJ, STR_T, FUNC} \<Longrightarrow> r_value r \<in> A"
  by (auto simp: ref_ok_def IsPrimitive_def)

lemma nth_res_set: "nth_res xs i = Inr x \<Longrightarrow> x \<in> set xs"
  by (auto simp: res_simps)

lemma slot_read:
  assumes "safe_on A s" "p \<in> A"
  shows "Function_Get k p s = Inr v \<Longrightarrow> ref_ok s A v" "Array_GetElem p idx s = Inr v \<Longrightarrow> ref_ok s A v"
    "Object_GetElem p name s = Inr v \<Longrightarrow> ref_ok s A v"
proof -
  have read: "ref_ok s A v" if "get_body t p s = Inr b" "nth_res (slots b) i = Inr v" for t b i
    by (rule slot_ok_read [OF assms that(1) nth_res_set [OF that(2)]])
  show "Function_Get k p s = Inr v \<Longrightarrow> ref_ok s A v" "Array_GetElem p idx s = Inr v \<Longrightarrow> ref_ok s A v"
    "Object_GetElem p name s = Inr v \<Longrightarrow> ref_ok s A v"
    by (auto simp: Function_Get_def Array_GetElem_def Object_GetElem_def rbind_eq_Inr intro: read)
qed

lemma slot_write:
  assumes "safe_on A s" "ref_ok s A v"
  shows "Function_Set k p v s = Inr t \<Longrightarrow> keeps A s t" "Array_SetElem p idx v s = Inr t \<Longrightarrow> keeps A s t"
    "Object_SetElem p name v s = Inr t \<Longrightarrow> keeps A s t"
  unfolding Function_Set_def Array_SetElem_def Object_SetElem_def rbind_eq_Inr guard_eq_Inr keeps_def
  using set_field_ok [OF assms] by blast+

lemma set_keeps:
  assumes "safe_on A s" "ref_ok s A v"
  shows "SetReg i v s = Inr t \<Longrightarrow> keeps A s t" "SetAcc v s = Inr t \<Longrightarrow> keeps A s t"
  using SetReg_ok [OF assms] SetAcc_ok [OF assms] by (simp_all add: keeps_def)

lemma get_callee_slot_ok: "safe_on A s \<Longrightarrow> get_callee_slot k r s = Inr t \<Longrightarrow> keeps A s t"
  unfolding get_callee_slot_def rbind_eq_Inr by (blast dest: GetCallee_ok callee_in slot_read(1) intro: set_keeps(1))

lemma SETARG_ok: "safe_on A s \<Longrightarrow> SETARG_step i r s = Inr t \<Longrightarrow> keeps A s t"
  unfolding SETARG_step_def rbind_eq_Inr by (blast dest: GetReg_ok intro: slot_write(1))

lemma SETRET_ok: "safe_on A s \<Longrightarrow> SETRET_step i r s = Inr t \<Longrightarrow> keeps A s t"
  unfolding SETRET_step_def rbind_eq_Inr by (blast dest: GetReg_ok intro: slot_write(1))

text \<open>\<open>GETRET0\<close> trusts the decoder that the accumulator is a function.\<close>

lemma GETRET_ok:
  assumes "safe_on A s" "\<And>a. GetAcc s = Inr a \<Longrightarrow> r_type a = FUNC" "GETRET_step i r s = Inr t"
  shows "keeps A s t"
proof -
  from assms(3) obtain a v where a: "GetAcc s = Inr a" "Function_Get (RET_SLOT i) (r_value a) s = Inr v" "SetReg r v s = Inr t"
    by (auto simp: GETRET_step_def res_simps)
  have "r_value a \<in> A" using ref_in [OF GetAcc_ok [OF assms(1) a(1)] assms(2) [OF a(1)]] by simp
  then show ?thesis using slot_read(1) [OF assms(1) _ a(2)] set_keeps(1) [OF assms(1) _ a(3)] by blast
qed

lemma arith_ok: "safe_on A s \<Longrightarrow> arith_step f x y s = Inr t \<Longrightarrow> keeps A s t"
  unfolding arith_step_def by (blast intro: set_keeps(2) primitive_ok(1))

lemma div_ok: "safe_on A s \<Longrightarrow> div_step f x y s = Inr t \<Longrightarrow> keeps A s t"
  by (auto simp: div_step_def intro: arith_ok split: if_splits)

lemma on_regs_ok:
  assumes "safe_on A s" "on_regs k d s = Inr t" "\<And>x y. ref_ok s A x \<Longrightarrow> ref_ok s A y \<Longrightarrow> k x y s = Inr t \<Longrightarrow> keeps A s t"
  shows "keeps A s t"
  using assms(2) GetReg_ok [OF assms(1)] assms(3) unfolding on_regs_def rbind_eq_Inr by blast

lemma on_acc_ok:
  assumes "safe_on A s" "on_acc k d s = Inr t" "\<And>x y. k x y s = Inr t \<Longrightarrow> keeps A s t"
  shows "keeps A s t"
  using assms(2,3) unfolding on_acc_def rbind_eq_Inr by blast

lemma DECA_ok: "safe_on A s \<Longrightarrow> DECA_step s = Inr t \<Longrightarrow> keeps A s t"
  unfolding DECA_step_def rbind_eq_Inr by (blast intro: set_keeps(2) primitive_ok)

lemma SETELEM_ok:
  assumes "safe_on A s"
  shows "SETELEM_arr_step x y s = Inr t \<Longrightarrow> keeps A s t" "SETELEM_obj_step x y s = Inr t \<Longrightarrow> keeps A s t"
  unfolding SETELEM_arr_step_def SETELEM_obj_step_def rbind_eq_Inr
  using slot_write [OF assms] GetAcc_ok [OF assms] by blast+

lemma GETELEM_arr_ok:
  assumes "safe_on A s" "ref_ok s A x" "GETELEM_arr_step x y s = Inr t"
  shows "keeps A s t"
proof -
  from assms(3) obtain p idx v where p: "GetAsArray x = Inr p" "Array_GetElem p idx s = Inr v" "SetAcc v s = Inr t"
    unfolding GETELEM_arr_step_def rbind_eq_Inr by blast
  have "p \<in> A" using p(1) ref_in [OF assms(2)] by (auto simp: GetAsArray_def res_simps)
  then show ?thesis using slot_read(2) [OF assms(1) _ p(2)] set_keeps(2) [OF assms(1) _ p(3)] by blast
qed

lemma SetAcc_objs: "SetAcc v s = Inr t \<Longrightarrow> objs t = objs s"
  by (auto simp: SetAcc_def with_top_eq_Inr set_top_def)

lemma GETELEM_obj_ok:
  assumes "safe_on A s" "ref_ok s A x" "GETELEM_obj_step x y s = Inr t"
  shows "keeps A s t"
proof -
  from assms(3) obtain p name v u where p: "GetAsObject x = Inr p" "Object_GetElem p name s = Inr v" "SetAcc v s = Inr u"
    and t: "(if r_type v = FUNC then rbind (GetAsFunction v) (\<lambda>g. Function_Set THIS_SLOT g x u) else Inr u) = Inr t"
    unfolding GETELEM_obj_step_def rbind_eq_Inr by blast
  have "p \<in> A" using p(1) ref_in [OF assms(2)] by (auto simp: GetAsObject_def res_simps)
  then have u: "keeps A s u" using slot_read(3) [OF assms(1) _ p(2)] set_keeps(2) [OF assms(1) _ p(3)] by blast
  then have "safe_on A u" "ref_ok u A x" using assms(2) same_heap(1) [OF SetAcc_objs [OF p(3)]] by (simp_all add: keeps_def)
  from slot_write(1) [OF this] show ?thesis
    using t u unfolding keeps_def quiet_def by (fastforce simp: res_simps split: if_splits)
qed

lemma MOV_ok: "safe_on A s \<Longrightarrow> MOV_step a b s = Inr t \<Longrightarrow> keeps A s t"
  unfolding MOV_step_def rbind_eq_Inr by (blast dest: GetReg_ok intro: set_keeps(1))

lemma STNULL_ok: "safe_on A s \<Longrightarrow> STNULL_step r s = Inr t \<Longrightarrow> keeps A s t"
  unfolding STNULL_step_def rbind_eq_Inr set_typed_def guard_eq_Inr by (blast intro: set_keeps(1) primitive_ok(3))

lemma Dump_ok: "safe_on A s \<Longrightarrow> Dump fuel v s = Inr t \<Longrightarrow> keeps A s t"
  by (auto simp: Dump_def rbind_eq_Inr keeps_def safe_other)

lemma move_ok:
  assumes "safe_on A s"
  shows "rbind (GetReg i s) (\<lambda>v. SetAcc v s) = Inr t \<Longrightarrow> keeps A s t" "rbind (GetAcc s) (\<lambda>v. SetReg i v s) = Inr t \<Longrightarrow> keeps A s t"
    "rbind (GetReg i s) (\<lambda>v. Dump fuel v s) = Inr t \<Longrightarrow> keeps A s t" "rbind (GetAcc s) (\<lambda>v. Dump fuel v s) = Inr t \<Longrightarrow> keeps A s t"
  unfolding rbind_eq_Inr using GetReg_ok [OF assms] GetAcc_ok [OF assms] set_keeps [OF assms] Dump_ok [OF assms] by blast+

lemma unimplemented_ok: "unimplemented s = Inr t \<Longrightarrow> keeps A s t"
  by (simp add: unimplemented_def)

lemma makes_acc:
  assumes "makes mk p s u" "SetAcc (mk p) u = Inr t"
  shows "good s t"
proof -
  obtain B where B: "safe_on B u" "ref_ok u B (mk p)" "advances s u" using assms(1) by (auto simp: makes_def)
  from SetAcc_ok [OF B(1,2) assms(2)] show ?thesis using quiet_advances(2) [OF B(3)] by (auto simp: good_def)
qed

lemma LDAI_ok:
  assumes "safe_on A s" "may_collect s" "LDAI_step imm s = Inr t"
  shows "good s t"
proof -
  note made = keeps_good [OF set_keeps(2) [OF assms(1) primitive_ok(1)]] makes_acc [OF Function_New_ok [OF assms(1,2)]]
    makes_acc [OF String_New_ok [OF assms(1,2)]] makes_acc [OF Object_New_ok [OF assms(1,2)]]
  obtain e where "pool_get imm (cp_data (cpool s)) = Inr e" using assms(3) by (auto simp: LDAI_step_def rbind_eq_Inr)
  with assms(3) show ?thesis
    by (cases "e_type e"; cases "e_val e") (auto simp: LDAI_step_def GetFunctionBytecodeOffset_def rbind_eq_Inr guard_eq_Inr intro: made)
qed

lemma NEWARR_ok:
  assumes "safe_on A s" "may_collect s" "NEWARR_step r s = Inr t"
  shows "good s t"
  using assms(3) makes_acc [OF Array_New_ok [OF assms(1,2)]] by (auto simp: NEWARR_step_def rbind_eq_Inr)

lemma CALL_ok:
  assumes "safe_on A s" "CALL_step s = Inr (Next t)"
  shows "keeps A s t"
proof -
  from assms(2) obtain a p u v where a: "GetAcc s = Inr a" "GetAsFunction a = Inr p" "push_frame (new_frame (pc s) p) s = Inr u" "t = u\<lparr>pc := v\<rparr>"
    by (auto simp: CALL_step_def rbind_eq_Inr)
  have "a = set_func p" using a(2) by (cases a) (simp add: GetAsFunction_def res_simps set_func_def)
  then have "ref_ok s A (set_func p)" using GetAcc_ok [OF assms(1) a(1)] by simp
  from push_frame_ok [OF assms(1) this a(3)] show ?thesis by (simp add: a(4) keeps_def safe_other)
qed

lemma RET_ok:
  assumes "safe_on A s" "RET_step imm s = Inr (Next t)"
  shows "keeps A s t"
proof -
  obtain f fs v where f: "frames s = f # fs" "t = s\<lparr>pc := v, frames := fs\<rparr>"
    using assms(2) by (auto simp: RET_step_def with_top_eq_Inr split: if_splits)
  have "safe_on A (s\<lparr>frames := fs\<rparr>)" by (rule safe_frames [OF assms(1) top_ok(2) [OF assms(1) f(1)]])
  then have "safe_on A (s\<lparr>frames := fs\<rparr>\<lparr>pc := v\<rparr>)" by (simp only: safe_other)
  moreover have "t = s\<lparr>frames := fs\<rparr>\<lparr>pc := v\<rparr>" by (simp add: f(2))
  ultimately show ?thesis by (simp add: keeps_def quiet_def)
qed

lemma advance_ok: "advance r = Inr (Next t) \<Longrightarrow> (\<And>u. r = Inr u \<Longrightarrow> good s u) \<Longrightarrow> good s t"
  by (auto simp: advance_def rbind_eq_Inr good_def safe_other advances_def)

lemma jump_ok:
  assumes "safe_on A s"
  shows "JUMP_step imm s = Inr (Next t) \<Longrightarrow> good s t" "branch_step cond imm s = Inr (Next t) \<Longrightarrow> good s t"
  using assms by (auto simp: JUMP_step_def branch_step_def advance_def rbind_eq_Inr guard_eq_Inr good_def safe_other advances_def split: if_splits)

lemma exec_label_ok:
  assumes safe: "safe_on A s" and room: "may_collect s"
    and acc: "c = GETRET0 \<Longrightarrow> (\<And>a. GetAcc s = Inr a \<Longrightarrow> r_type a = FUNC)"
    and run: "exec_label df (Label c ins) d s = Inr (Next t)"
  shows "good s t"
proof -
  note regs = keeps_good [OF on_regs_ok [OF safe]] keeps_good [OF on_acc_ok [OF safe]]
  note same = keeps_good [OF move_ok(1) [OF safe]] keeps_good [OF move_ok(2) [OF safe]] keeps_good [OF move_ok(3) [OF safe]]
    keeps_good [OF move_ok(4) [OF safe]] keeps_good [OF MOV_ok [OF safe]] keeps_good [OF STNULL_ok [OF safe]]
    keeps_good [OF get_callee_slot_ok [OF safe]] keeps_good [OF SETARG_ok [OF safe]] keeps_good [OF SETRET_ok [OF safe]]
    keeps_good [OF DECA_ok [OF safe]] keeps_good [OF GETRET_ok [OF safe acc]] keeps_good [OF unimplemented_ok]
    keeps_good [OF CALL_ok [OF safe]] keeps_good [OF RET_ok [OF safe]] LDAI_ok [OF safe room] NEWARR_ok [OF safe room]
    jump_ok [OF safe]
  note arith = arith_ok [OF safe] div_ok [OF safe] SETELEM_ok [OF safe] GETELEM_arr_ok [OF safe] GETELEM_obj_ok [OF safe]
  show ?thesis using run
    by (cases c) (auto simp: exec_label_def intro: same regs arith elim!: advance_ok split: if_splits)
qed

subsection \<open>Steps and runs\<close>

lemma dispatched_acc:
  assumes "FETCH_AND_DISPATCH d s = Inr (lbl, d')"
  shows "\<exists>c ins. lbl = Label c ins \<and> (c = GETRET0 \<longrightarrow> (\<forall>a. GetAcc s = Inr a \<longrightarrow> r_type a = FUNC))"
proof -
  from assms obtain ins a e idx where f: "GetAcc s = Inr a" "DecodeAndResolve (r_type a) (reg_type_of s) ins d = Inr (e, idx)"
    and l: "nth_res dispatch_table idx = Inr (Some lbl)"
    by (auto simp: FETCH_AND_DISPATCH_def rbind_eq_Inr split: option.splits)
  from DecodeAndResolve_sound [OF f(2)] obtain c k where c: "k < length (overloads c)"
    "accepts (r_type a) (reg_type_of s) e (overloads c ! k)" "dispatch_table ! idx = Some (Label c (overloads c ! k))" .
  have "r_type a = FUNC" if "c = GETRET0" using c(1,2) that by (simp add: accepts_def)
  then show ?thesis using c(3) l f(1) by (auto simp: res_simps)
qed

lemma step_good:
  assumes "machine_ok s" "unat (gc_mark s) + 2 < 2 ^ 64" "step df d s = Inr (Next t, d')"
  shows "machine_ok t" "unat (gc_mark t) \<le> unat (gc_mark s) + 2"
proof -
  obtain A where A: "safe_on A s" "\<not> gc_forbidden s" using assms(1) by (rule machine_okE)
  from assms(3) obtain lbl e where l: "FETCH_AND_DISPATCH d s = Inr (lbl, e)" "exec_label df lbl e s = Inr (Next t)"
    by (auto simp: step_def rbind_eq_Inr)
  from dispatched_acc [OF l(1)] obtain c ins where c: "lbl = Label c ins" "c = GETRET0 \<longrightarrow> (\<forall>a. GetAcc s = Inr a \<longrightarrow> r_type a = FUNC)"
    by blast
  have "good s t" by (rule exec_label_ok [OF A(1), where c = c]) (use A(2) assms(2) l(2) c in \<open>auto simp: may_collect_def\<close>)
  then show "machine_ok t" "unat (gc_mark t) \<le> unat (gc_mark s) + 2"
    using A(2) machine_okI by (auto simp: good_def advances_def)
qed

text \<open>The states of a run after \<open>n\<close> handlers.\<close>

inductive reaches :: "nat \<Rightarrow> decoder \<Rightarrow> vm \<Rightarrow> nat \<Rightarrow> decoder \<Rightarrow> vm \<Rightarrow> bool" for df d s where
  begins: "reaches df d s 0 d s"
| handler: "reaches df d s n e t \<Longrightarrow> step df e t = Inr (Next u, f) \<Longrightarrow> reaches df d s (Suc n) f u"

inductive_cases reaches_SucE: "reaches df d s (Suc n) e t"

lemma run_reaches: "reaches df d s n e t \<Longrightarrow> run (n + m) df d s = run m df e t"
proof (induction arbitrary: m rule: reaches.induct)
  case (handler n e t u f)
  have "run (n + Suc m) df d s = run m df f u" using handler.IH [of "Suc m"] handler.hyps(2) by simp
  then show ?case by simp
qed simp

lemma reaches_ok:
  assumes "reaches df d s n e t" "machine_ok s" "unat (gc_mark s) + 2 * n < 2 ^ 64"
  shows "machine_ok t \<and> unat (gc_mark t) \<le> unat (gc_mark s) + 2 * n"
  using assms
proof (induction rule: reaches.induct)
  case (handler n e t u f)
  have t: "machine_ok t" "unat (gc_mark t) \<le> unat (gc_mark s) + 2 * n" using handler.IH handler.prems by auto
  have "unat (gc_mark t) + 2 < 2 ^ 64" using t(2) handler.prems(2) by simp
  from step_good [OF t(1) this handler.hyps(2)] show ?case using t(2) by simp
qed simp

lemma machine_ok_refs:
  assumes "machine_ok s" "f \<in> set (frames s)" "r \<in> frame_regs f" "\<not> IsPrimitive r"
  shows "\<exists>b. map_of (objs s) (r_value r) = Some b \<and> body_type (o_body b) = r_type r"
proof -
  obtain A where "safe_on A s" using assms(1) by (rule machine_okE)
  then have "ref_ok s A r" using assms(2,3) by (auto simp: safe_on_def wf_on_frames regs_ok_def)
  then show ?thesis using assms(4) by (auto simp: ref_ok_def graph_Some_iff)
qed

lemma fresh_machine: "safe_on {} (Create\<lparr>program := P, pc := e, cpool := C\<rparr>)"
  by (auto simp: safe_on_def wf_on_frames heap_part_def cursors_ok_def used_end_def pools closed_def apart_def Create_def marks_ok_def)

lemma started_ok:
  assumes "rbind (Function_New e (Create\<lparr>program := P, pc := e, cpool := C\<rparr>)) (\<lambda>(p, s1). push_frame (new_frame (- 1) p) s1) = Inr s"
  shows "machine_ok s" "unat (gc_mark s) \<le> 2"
proof -
  let ?c = "Create\<lparr>program := P, pc := e, cpool := C\<rparr>"
  from assms obtain p s1 where p: "Function_New e ?c = Inr (p, s1)" "push_frame (new_frame (- 1) p) s1 = Inr s"
    by (auto simp: rbind_eq_Inr)
  have c: "may_collect ?c" by (simp add: Create_def may_collect_def)
  from Function_New_ok [OF fresh_machine c p(1)] obtain B where B: "safe_on B s1" "ref_ok s1 B (set_func p)" "advances ?c s1"
    by (auto simp: makes_def)
  from push_frame_ok [OF B(1,2) p(2)] have s: "safe_on B s" "quiet s1 s" by auto
  show "machine_ok s" using s B(3) c by (intro machine_okI) (simp_all add: quiet_def advances_def may_collect_def)
  show "unat (gc_mark s) \<le> 2" using s(2) B(3) by (simp add: quiet_def advances_def Create_def)
qed

text \<open>
  C1: References stay valid: whatever program and constant pool are loaded, after any number of
  handlers, with the allocations and collections they start, the invariant of the heap holds, and
  every register of every frame that is tagged as a function, array, string or object holds the
  address of an object of that class.  The bound on the number of handlers is that of the 64-bit
  marks of the collector.
\<close>

theorem references_stay_valid:
  assumes "rbind (Function_New e (Create\<lparr>program := P, pc := e, cpool := C\<rparr>)) (\<lambda>(p, s1). push_frame (new_frame (- 1) p) s1) = Inr s"
    and "reaches df d s n d' t" and "2 * n + 2 < 2 ^ 64"
  shows "machine_ok t \<and> (\<forall>f r. f \<in> set (frames t) \<and> r \<in> frame_regs f \<and> \<not> IsPrimitive r \<longrightarrow>
    (\<exists>b. map_of (objs t) (r_value r) = Some b \<and> body_type (o_body b) = r_type r))"
proof -
  note s = started_ok [OF assms(1)]
  have "machine_ok t" using reaches_ok [OF assms(2) s(1)] s(2) assms(3) by simp
  then show ?thesis using machine_ok_refs by blast
qed

text \<open>A program that creates an empty array.\<close>

definition newarr_vm :: vm where
  "newarr_vm = Create\<lparr>program := [\<lparr>i_opcode = 23, i_operands = 0\<rparr>], pc := 0, cpool := empty_pool\<rparr>"

definition newarr_started :: vm where
  "newarr_started = newarr_vm\<lparr>objs := [(0xF000008, new_obj 184 (new_function 0))], cursors := (\<lambda>_. 8)(2 := 192),
     frames := [new_frame (- 1) 0xF000008]\<rparr>"

lemma newarr_starts:
  "rbind (Function_New 0 newarr_vm) (\<lambda>(p, s1). push_frame (new_frame (- 1) p) s1) = Inr newarr_started"
  by (simp add: Function_New_def PoolAllocBytes_def SURVIVORS_N_def GetRemainingSpace_def AllocBytes_def newarr_vm_def newarr_started_def
      Create_def push_frame_def STACK_CAPACITY_def sizeof_defs place_def Let_def)

lemma newarr_decodes: "FETCH_AND_DISPATCH d newarr_started = Inr (Label NEWARR [Reg NUM], d\<lparr>reg_idx0 := 0\<rparr>)"
proof -
  have "DecodeAndResolve ANY rt \<lparr>i_opcode = 23, i_operands = 0\<rparr> d = Inr (d\<lparr>reg_idx0 := 0\<rparr>, 92)" for rt
    by (simp add: DecodeAndResolve_def opc_of_byte_def opcodes_list Let_def set_operands_def check_overload_def
        reg_operand_def MAX_OPC_OVERLOAD_SIZE_BITS_def)
  moreover have "dispatch_table ! 92 = Some (Label NEWARR [Reg NUM])"
    using dispatch_table_nth [of 0 NEWARR] by (simp add: opc_num_def opcodes_list)
  moreover have "Fetch newarr_started = Inr \<lparr>i_opcode = 23, i_operands = 0\<rparr>" "GetAcc newarr_started = Inr reg_reset"
    by (simp_all add: Fetch_def GetAcc_def with_top_def newarr_started_def newarr_vm_def Create_def new_frame_def nth_res_def)
  ultimately show ?thesis by (simp add: FETCH_AND_DISPATCH_def length_dispatch_table nth_res_def reg_reset_def)
qed

lemma newarr_steps: "\<exists>t. step 0 d newarr_started = Inr (Next t, d\<lparr>reg_idx0 := 0\<rparr>)"
proof -
  have zero: "to_size_t 0 = Some 0" by (simp add: to_size_t_def unpack_def Let_def)
  have "\<exists>t. NEWARR_step 0 newarr_started = Inr t"
    by (simp add: NEWARR_step_def GetReg_def with_top_def newarr_started_def newarr_vm_def Create_def new_frame_def nth_res_def
        reg_reset_def GetAsNum_def zero Array_New_def array_size_def PoolAllocBytes_def SURVIVORS_N_def GetRemainingSpace_def
        AllocBytes_def in_storage_def sizeof_defs SetAcc_def Let_def)
  then show ?thesis by (auto simp: step_def newarr_decodes exec_label_def advance_def)
qed

theorem references_stay_valid_witness:
  "\<exists>t d'. reaches 0 \<lparr>reg_idx0 = 0, reg_idx1 = 0, imm_operand = 0\<rparr> newarr_started 1 d' t \<and> machine_ok t"
proof -
  let ?d = "\<lparr>reg_idx0 = 0, reg_idx1 = 0, imm_operand = 0\<rparr> :: decoder"
  obtain t where "step 0 ?d newarr_started = Inr (Next t, ?d\<lparr>reg_idx0 := 0\<rparr>)" using newarr_steps by blast
  from reaches.handler [OF reaches.begins this] have r: "reaches 0 ?d newarr_started 1 (?d\<lparr>reg_idx0 := 0\<rparr>) t" by simp
  from references_stay_valid [OF newarr_starts [unfolded newarr_vm_def] r] show ?thesis using r by auto
qed

end
