(* ===== verification/K3s_Regions.thy ===== *)
theory K3s_Regions
  imports K3s_Runtime
begin

text \<open>
  The regions of allocator/region.h as they lie in memory, and the map of the allocator
  (allocator/allocator.h).  A region is given by its template arguments; its cursor is the 64-bit word
  at its start.  The six regions tile the mapped memory, and blocks that were allocated from them
  never overlap.  \<open>pool_cursors\<close> relates this memory to the cursors of the state \<open>vm\<close>, whose
  operations on the pools and on the region of the collector's vectors are those of \<open>Region\<close>.
\<close>

subsection \<open>Regions in memory\<close>

record region =
  rg_start :: u64
  rg_size :: u64

text \<open>The words of the mapped memory that hold cursors, by address.\<close>

type_synonym words = "u64 \<Rightarrow> u64"

definition Region_Reset :: "region \<Rightarrow> words \<Rightarrow> words" where
  "Region_Reset r m = m(rg_start r := 8)"

definition Region_Contains :: "region \<Rightarrow> addr \<Rightarrow> bool" where
  "Region_Contains r p \<longleftrightarrow> rg_start r \<le> p \<and> p < rg_start r + rg_size r"

definition Region_GetRemainingSpace :: "region \<Rightarrow> words \<Rightarrow> u64" where
  "Region_GetRemainingSpace r m = rg_size r - m (rg_start r)"

definition Region_AllocBytes :: "region \<Rightarrow> u64 \<Rightarrow> words \<Rightarrow> (addr \<times> words) res" where
  "Region_AllocBytes r n m =
     (let new_cursor = m (rg_start r) + n in
      if new_cursor > rg_size r then Inl (Fatal ''ALLOCATOR OOM'')
      else Inr (rg_start r + m (rg_start r), m(rg_start r := new_cursor)))"

text \<open>\<open>Alloc<T>\<close> and \<open>allocate\<close> of the adapters, for elements of a size; the product is 64-bit.\<close>

definition Region_Alloc :: "region \<Rightarrow> u64 \<Rightarrow> u64 \<Rightarrow> words \<Rightarrow> (addr \<times> words) res" where
  "Region_Alloc r sz n = Region_AllocBytes r (n * sz)"

subsection \<open>The map\<close>

definition ConstRegion :: region where
  "ConstRegion = \<lparr>rg_start = ALLOC_START_ADDR, rg_size = ALLOC_SIZE div 2 - GC_INTERNALS_SIZE - STACK_SIZE\<rparr>"

definition GCInternalsRegion :: region where
  "GCInternalsRegion =
     \<lparr>rg_start = ALLOC_START_ADDR + ALLOC_SIZE div 2 - GC_INTERNALS_SIZE - STACK_SIZE, rg_size = GC_INTERNALS_SIZE\<rparr>"

definition StackRegion :: region where
  "StackRegion = \<lparr>rg_start = ALLOC_START_ADDR + ALLOC_SIZE div 2 - STACK_SIZE, rg_size = STACK_SIZE\<rparr>"

definition pool_region :: "nat \<Rightarrow> region" where
  "pool_region N = \<lparr>rg_start = START_PTR N, rg_size = REGION_SIZE N\<rparr>"

text \<open>\<open>RegionsPool::Reset\<close>: this region, then the others.\<close>

primrec Pool_Reset :: "nat \<Rightarrow> words \<Rightarrow> words" where
  "Pool_Reset 0 m = Region_Reset (pool_region 0) m"
| "Pool_Reset (Suc N) m = Pool_Reset N (Region_Reset (pool_region (Suc N)) m)"

text \<open>\<open>Allocator::Init\<close>; \<open>buf\<close> is what \<open>mmap\<close> returns and \<open>m\<close> the memory it has mapped.\<close>

definition Allocator_Init :: "addr \<Rightarrow> words \<Rightarrow> words res" where
  "Allocator_Init buf m =
     guard (buf = ALLOC_START_ADDR) AssertFailed
       (Inr (Pool_Reset SURVIVORS_N (Region_Reset StackRegion (Region_Reset GCInternalsRegion (Region_Reset ConstRegion m)))))"

definition all_regions :: "region list" where
  "all_regions = [ConstRegion, GCInternalsRegion, StackRegion, pool_region 2, pool_region 1, pool_region 0]"

text \<open>The map in numbers: every region begins where the one before it ends.\<close>

definition lo_of :: "region \<Rightarrow> nat" where "lo_of r = unat (rg_start r)"
definition hi_of :: "region \<Rightarrow> nat" where "hi_of r = unat (rg_start r) + unat (rg_size r)"

lemma region_map:
  "map (\<lambda>r. (lo_of r, hi_of r)) all_regions =
     [(0xE000000, 0xE800000), (0xE800000, 0xEC00000), (0xEC00000, 0xF000000),
      (0xF000000, 0xF600000), (0xF600000, 0xFC00000), (0xFC00000, 0x10000000)]"
  by (simp add: all_regions_def ConstRegion_def GCInternalsRegion_def StackRegion_def pool_region_def region_values
      lo_of_def hi_of_def ALLOC_START_ADDR_def ALLOC_SIZE_def GC_INTERNALS_SIZE_def STACK_SIZE_def)

lemma regions_disjoint:
  assumes "r \<in> set all_regions" "q \<in> set all_regions" "r \<noteq> q"
  shows "hi_of r \<le> lo_of q \<or> hi_of q \<le> lo_of r"
  using assms region_map unfolding all_regions_def by auto

lemma map_sizes: "r \<in> set all_regions \<Longrightarrow> 8 \<le> unat (rg_size r) \<and> unat (rg_size r) < 2 ^ 32 \<and> hi_of r \<le> 2 ^ 32"
  using region_map unfolding all_regions_def by (auto simp: lo_of_def hi_of_def)

lemma region_starts: "r \<in> set all_regions \<Longrightarrow> q \<in> set all_regions \<Longrightarrow> rg_start r = rg_start q \<Longrightarrow> r = q"
  using regions_disjoint [of r q] map_sizes [of r] map_sizes [of q] by (auto simp: lo_of_def hi_of_def)

subsection \<open>Blocks\<close>

definition words_ok :: "words \<Rightarrow> bool" where
  "words_ok m \<longleftrightarrow> list_all (\<lambda>r. 8 \<le> unat (m (rg_start r)) \<and> unat (m (rg_start r)) \<le> unat (rg_size r)) all_regions"

lemma init_cursors: "Allocator_Init buf m0 = Inr m \<Longrightarrow> r \<in> set all_regions \<Longrightarrow> m (rg_start r) = 8"
  by (auto simp: Allocator_Init_def guard_def Region_Reset_def all_regions_def SURVIVORS_N_def numeral_2_eq_2 split: if_splits)

lemma init_ok: "Allocator_Init buf m0 = Inr m \<Longrightarrow> words_ok m"
  using init_cursors [of buf m0 m] map_sizes by (auto simp: words_ok_def list_all_iff)

lemma alloc_block:
  assumes "Region_AllocBytes r n m = Inr (p, m1)" and r: "r \<in> set all_regions" and ok: "words_ok m" and n: "unat n \<le> 2 ^ 63"
  shows "unat p = lo_of r + unat (m (rg_start r))" and "m1 = m(rg_start r := m (rg_start r) + n)"
    and "unat (m (rg_start r) + n) = unat (m (rg_start r)) + unat n" and "lo_of r + unat (m (rg_start r)) + unat n \<le> hi_of r"
    and "words_ok m1"
proof -
  let ?c = "m (rg_start r)"
  have c: "8 \<le> unat ?c" "unat ?c \<le> unat (rg_size r)" using ok r by (auto simp: words_ok_def list_all_iff)
  note size = map_sizes [OF r]
  from assms(1) have fits: "?c + n \<le> rg_size r" and p: "p = rg_start r + ?c" and m1: "m1 = m(rg_start r := ?c + n)"
    by (auto simp: Region_AllocBytes_def Let_def split: if_splits)
  show sum: "unat (?c + n) = unat ?c + unat n"
    using c size n by (subst unat_add_lem [THEN iffD1]) (simp_all)
  then have le: "unat ?c + unat n \<le> unat (rg_size r)" using fits by (simp add: word_le_nat_alt)
  then show "lo_of r + unat ?c + unat n \<le> hi_of r" by (simp add: lo_of_def hi_of_def)
  show "unat p = lo_of r + unat ?c"
    using c size unfolding p lo_of_def hi_of_def by (subst unat_add_lem [THEN iffD1]) simp_all
  show "m1 = m(rg_start r := ?c + n)" by (rule m1)
  have "8 \<le> unat (m1 (rg_start q)) \<and> unat (m1 (rg_start q)) \<le> unat (rg_size q)" if "q \<in> set all_regions" for q
    using ok that c le sum region_starts [OF r that] by (auto simp: m1 words_ok_def list_all_iff)
  then show "words_ok m1" by (simp add: words_ok_def list_all_iff)
qed

primrec alloc_all :: "(region \<times> u64) list \<Rightarrow> words \<Rightarrow> ((addr \<times> u64) list \<times> words) res" where
  "alloc_all [] m = Inr ([], m)"
| "alloc_all (x # xs) m =
     rbind (Region_AllocBytes (fst x) (snd x) m) (\<lambda>(p, m1).
       rbind (alloc_all xs m1) (\<lambda>(bs, m2). Inr ((p, snd x) # bs, m2)))"

text \<open>Two blocks do not overlap; a block is in its region, behind what was allocated before.\<close>

definition blocks_apart :: "addr \<times> u64 \<Rightarrow> addr \<times> u64 \<Rightarrow> bool" where
  "blocks_apart b c \<longleftrightarrow> unat (fst b) + unat (snd b) \<le> unat (fst c) \<or> unat (fst c) + unat (snd c) \<le> unat (fst b)"

definition inside :: "words \<Rightarrow> region \<times> u64 \<Rightarrow> addr \<times> u64 \<Rightarrow> bool" where
  "inside m x b \<longleftrightarrow> snd b = snd x \<and> lo_of (fst x) + unat (m (rg_start (fst x))) \<le> unat (fst b) \<and>
     unat (fst b) + unat (snd b) \<le> hi_of (fst x)"

definition ordinary :: "region \<times> u64 \<Rightarrow> bool" where
  "ordinary x \<longleftrightarrow> fst x \<in> set all_regions \<and> unat (snd x) \<le> 2 ^ 63"

lemma alloc_all_blocks:
  "alloc_all xs m = Inr (bs, m1) \<Longrightarrow> words_ok m \<Longrightarrow> list_all ordinary xs \<Longrightarrow>
   list_all2 (inside m) xs bs \<and> sorted_wrt blocks_apart bs"
proof (induction xs arbitrary: m bs)
  case (Cons x xs)
  obtain r n where x: "x = (r, n)" by (cases x)
  from Cons.prems(1) obtain p m2 cs where a: "Region_AllocBytes r n m = Inr (p, m2)" and rest: "alloc_all xs m2 = Inr (cs, m1)"
    and bs: "bs = (p, n) # cs"
    by (auto simp: x rbind_eq_Inr)
  have r: "r \<in> set all_regions" and n: "unat n \<le> 2 ^ 63" and xs: "list_all ordinary xs"
    using Cons.prems(3) by (auto simp: x ordinary_def [of "(r, n)"])
  note b = alloc_block [OF a r Cons.prems(2) n]
  from Cons.IH [OF rest b(5) xs] have ih: "list_all2 (inside m2) xs cs" "sorted_wrt blocks_apart cs" by simp_all
  have low: "unat (m (rg_start q)) \<le> unat (m2 (rg_start q))" for q
    using b(3) by (simp add: b(2))
  have later: "inside m y c \<and> blocks_apart (p, n) c" if "inside m2 y c" "y \<in> set xs" for y c
  proof
    show "inside m y c" using that(1) low [of "fst y"] by (auto simp: inside_def)
    have y: "fst y \<in> set all_regions" using that(2) xs by (auto simp: list_all_iff ordinary_def)
    show "blocks_apart (p, n) c"
    proof (cases "fst y = r")
      case True
      then show ?thesis using that(1) b(1,3) by (simp add: blocks_apart_def inside_def b(2))
    next
      case False
      from regions_disjoint [OF y r False] that(1) b(1,4) show ?thesis
        by (auto simp: blocks_apart_def inside_def)
    qed
  qed
  have "inside m x (p, n)" using b(1,4) by (simp add: inside_def x)
  moreover have "list_all2 (inside m) xs cs"
    using ih(1) later by (auto simp: list_all2_conv_all_nth)
  moreover have "blocks_apart (p, n) c" if "c \<in> set cs" for c
  proof -
    from that obtain k where "k < length cs" "c = cs ! k" by (auto simp: in_set_conv_nth)
    then show ?thesis using ih(1) later [of "xs ! k" c] by (simp add: list_all2_conv_all_nth)
  qed
  ultimately show ?case using ih(2) by (simp add: bs)
qed simp

text \<open>
  C38: After the initialisation of the allocator, the blocks of any sequence of allocations, in any of
  the regions, lie inside their region behind its cursor word and do not overlap, as long as no size
  is so large that the 64-bit sum of cursor and size wraps.
\<close>

theorem blocks_never_overlap:
  assumes "Allocator_Init buf m0 = Inr m" and "alloc_all xs m = Inr (bs, m1)" and "list_all ordinary xs"
  shows "sorted_wrt blocks_apart bs \<and>
    list_all2 (\<lambda>x b. snd b = snd x \<and> lo_of (fst x) + 8 \<le> unat (fst b) \<and> unat (fst b) + unat (snd b) \<le> hi_of (fst x)) xs bs"
proof -
  from alloc_all_blocks [OF assms(2) init_ok [OF assms(1)] assms(3)]
  have "list_all2 (inside m) xs bs" "sorted_wrt blocks_apart bs" by simp_all
  moreover have "fst x \<in> set all_regions" if "x \<in> set xs" for x
    using that assms(3) by (auto simp: list_all_iff ordinary_def)
  ultimately show ?thesis
    using init_cursors [OF assms(1)] by (auto simp: inside_def list_all2_conv_all_nth)
qed

theorem blocks_never_overlap_witness:
  "sorted_wrt blocks_apart [(0xEC00008, 40), (0xE000008, 5), (0xEC00030, 40)]"
proof -
  define m where "m = Pool_Reset SURVIVORS_N (Region_Reset StackRegion (Region_Reset GCInternalsRegion (Region_Reset ConstRegion (\<lambda>_. 0))))"
  have init: "Allocator_Init ALLOC_START_ADDR (\<lambda>_. 0) = Inr m" by (simp add: Allocator_Init_def m_def)
  have c: "m (rg_start StackRegion) = 8" "m (rg_start ConstRegion) = 8"
    by (rule init_cursors [OF init]; simp add: all_regions_def)+
  have v: "rg_start StackRegion = 0xEC00000" "rg_start ConstRegion = 0xE000000" "rg_size StackRegion = 0x400000" "rg_size ConstRegion = 0x800000"
    by (simp_all add: StackRegion_def ConstRegion_def ALLOC_START_ADDR_def ALLOC_SIZE_def GC_INTERNALS_SIZE_def STACK_SIZE_def)
  have "\<exists>m1. alloc_all [(StackRegion, 40), (ConstRegion, 5), (StackRegion, 40)] m =
      Inr ([(0xEC00008, 40), (0xE000008, 5), (0xEC00030, 40)], m1)"
    using c by (simp add: Region_AllocBytes_def v)
  then obtain m1 where "alloc_all [(StackRegion, 40), (ConstRegion, 5), (StackRegion, 40)] m =
      Inr ([(0xEC00008, 40), (0xE000008, 5), (0xEC00030, 40)], m1)" ..
  from blocks_never_overlap [OF init this] show ?thesis by (simp add: ordinary_def all_regions_def)
qed

subsection \<open>The pools of the virtual machine\<close>

text \<open>The operations on the pools in \<open>vm\<close> are those of \<open>Region\<close> on the words that hold the cursors.\<close>

definition pool_cursors :: "vm \<Rightarrow> words \<Rightarrow> bool" where
  "pool_cursors s m \<longleftrightarrow> (\<forall>N \<in> {0, 1, 2}. m (rg_start (pool_region N)) = cursors s N)"

lemma pool_starts: "M \<in> {0, 1, 2} \<Longrightarrow> N \<in> {0, 1, 2} \<Longrightarrow> rg_start (pool_region M) = rg_start (pool_region N) \<longleftrightarrow> M = N"
  by (auto simp: pool_region_def region_values)

lemma pool_Contains: "Region_Contains (pool_region N) p = Contains N p"
  by (simp add: Region_Contains_def Contains_def pool_region_def)

lemma pool_remaining:
  "pool_cursors s m \<Longrightarrow> N \<in> {0, 1, 2} \<Longrightarrow> Region_GetRemainingSpace (pool_region N) m = GetRemainingSpace N s"
  by (auto simp: pool_cursors_def Region_GetRemainingSpace_def GetRemainingSpace_def pool_region_def)

lemma pool_cursors_update:
  assumes "pool_cursors s m" and N: "N \<in> {0, 1, 2}"
  shows "pool_cursors (s\<lparr>cursors := (cursors s)(N := c)\<rparr>) (m(rg_start (pool_region N) := c))"
  unfolding pool_cursors_def
proof
  fix M :: nat assume M: "M \<in> {0, 1, 2}"
  with assms(1) have "m (rg_start (pool_region M)) = cursors s M" by (auto simp: pool_cursors_def)
  then show "(m(rg_start (pool_region N) := c)) (rg_start (pool_region M)) = cursors (s\<lparr>cursors := (cursors s)(N := c)\<rparr>) M"
    using pool_starts [OF M N] by simp
qed

lemma pool_Reset_refines:
  "pool_cursors s m \<Longrightarrow> N \<in> {0, 1, 2} \<Longrightarrow> pool_cursors (Reset N s) (Region_Reset (pool_region N) m)"
  unfolding Reset_def Region_Reset_def by (rule pool_cursors_update)

lemma pool_AllocBytes_refines:
  assumes "pool_cursors s m" and "N \<in> {0, 1, 2}"
  shows "case AllocBytes N n s of
      Inl e \<Rightarrow> Region_AllocBytes (pool_region N) n m = Inl e
    | Inr (p, t) \<Rightarrow> \<exists>m1. Region_AllocBytes (pool_region N) n m = Inr (p, m1) \<and> pool_cursors t m1"
proof -
  have c: "m (rg_start (pool_region N)) = cursors s N" using assms by (auto simp: pool_cursors_def)
  have r: "rg_size (pool_region N) = REGION_SIZE N" "START_PTR N = rg_start (pool_region N)" by (simp_all add: pool_region_def)
  show ?thesis
    using pool_cursors_update [OF assms, of "cursors s N + n"] by (simp add: AllocBytes_def Region_AllocBytes_def Let_def c r)
qed

text \<open>
  So is the allocation of storage for the vectors of the collector and from the constant region, whose
  cursors the model has as numbers.
\<close>

lemma numeric_alloc:
  assumes c: "unat (m (rg_start r)) = c" and "c \<le> unat (rg_size r)" and "unat (rg_size r) < 2 ^ 62" and n: "n < 2 ^ 63"
  shows "Region_AllocBytes r (of_nat n) m =
    (if c + n > unat (rg_size r) then Inl (Fatal ''ALLOCATOR OOM'')
     else Inr (rg_start r + m (rg_start r), m(rg_start r := m (rg_start r) + of_nat n)))"
    and "unat (m (rg_start r) + of_nat n) = c + n"
proof -
  have "unat (of_nat n :: u64) = n" using n by (simp add: unsigned_of_nat take_bit_nat_eq_self)
  then show sum: "unat (m (rg_start r) + of_nat n) = c + n"
    using assms by (subst unat_add_lem [THEN iffD1]) simp_all
  then have "m (rg_start r) + of_nat n > rg_size r \<longleftrightarrow> c + n > unat (rg_size r)"
    by (simp add: word_less_nat_alt)
  then show "Region_AllocBytes r (of_nat n) m =
    (if c + n > unat (rg_size r) then Inl (Fatal ''ALLOCATOR OOM'')
     else Inr (rg_start r + m (rg_start r), m(rg_start r := m (rg_start r) + of_nat n)))"
    by (simp add: Region_AllocBytes_def Let_def)
qed

definition collector_cursor :: "vm \<Rightarrow> words \<Rightarrow> bool" where
  "collector_cursor s m \<longleftrightarrow> unat (m (rg_start GCInternalsRegion)) = gc_cursor s"

lemma internals_alloc_refines:
  assumes "collector_cursor s m" and "gc_cursor s \<le> unat GC_INTERNALS_SIZE" and "n < 2 ^ 63"
  shows "case internals_alloc n s of
      Inl e \<Rightarrow> Region_AllocBytes GCInternalsRegion (of_nat n) m = Inl e
    | Inr t \<Rightarrow> \<exists>p m1. Region_AllocBytes GCInternalsRegion (of_nat n) m = Inr (p, m1) \<and> collector_cursor t m1"
proof -
  have size: "rg_size GCInternalsRegion = GC_INTERNALS_SIZE" "unat GC_INTERNALS_SIZE = 4194304"
    by (simp_all add: GC_INTERNALS_SIZE_def ALLOC_SIZE_def GCInternalsRegion_def)
  have c: "unat (m (rg_start GCInternalsRegion)) = gc_cursor s" using assms(1) by (simp add: collector_cursor_def)
  show ?thesis
    using numeric_alloc [where m = m and r = GCInternalsRegion, OF c] assms(2,3) size
    by (simp add: internals_alloc_def collector_cursor_def)
qed

lemma const_alloc_refines:
  assumes "unat (m (rg_start ConstRegion)) = c" and "c \<le> CONST_SIZE" and "n < 2 ^ 63"
  shows "case const_alloc n c of
      Inl e \<Rightarrow> Region_AllocBytes ConstRegion (of_nat n) m = Inl e
    | Inr d \<Rightarrow> \<exists>p m1. Region_AllocBytes ConstRegion (of_nat n) m = Inr (p, m1) \<and> unat (m1 (rg_start ConstRegion)) = d"
proof -
  have size: "unat (rg_size ConstRegion) = CONST_SIZE" "CONST_SIZE = 8388608"
    by (simp_all add: CONST_SIZE_def ConstRegion_def GC_INTERNALS_SIZE_def STACK_SIZE_def ALLOC_SIZE_def)
  show ?thesis
    using numeric_alloc [where m = m and r = ConstRegion, OF assms(1)] assms(2,3) size by (simp add: const_alloc_def)
qed

lemma created_pools: "Allocator_Init buf m0 = Inr m \<Longrightarrow> pool_cursors Create m \<and> collector_cursor Create m"
  using init_cursors [of buf m0 m] by (auto simp: pool_cursors_def collector_cursor_def Create_def all_regions_def)

end
