(* ===== verification/Jit_Graph.thy ===== *)
theory Jit_Graph
  imports K3s_Prelude
begin

text \<open>
  The intermediate representation of the JIT (jit/ir/graph/): instructions (instructions.h,
  gen/inst.inl), basic blocks (basic_block.h) and the graph (graph.h, graph.cpp).  Instructions and
  blocks are named by numbers, a pointer is \<open>nat option\<close> with \<open>None\<close> for nullptr, and following
  a null pointer is \<open>Undefined\<close>.  A \<open>User\<close> is the slot \<open>(i, k)\<close>, input \<open>k\<close> of the instruction
  \<open>i\<close>: the code finds \<open>i\<close> by scanning the array of users up to the special last element and \<open>k\<close>
  by the distance from there, so the slot is what a \<open>User *\<close> stands for.  A loop along a list of
  users or instructions has fuel, the number of slots or of instructions.
\<close>

subsection \<open>Data\<close>

datatype jopcode =
    JNONE | JCONST | JPARAMETER | JCAST | JCALL | JRETURN | JRETURNVOID | JCHECKNULL | JCHECKBOUNDS
  | JGETELEM | JADD | JSUB | JMUL | JNEG | JNOT | JXOR | JASHR | JSHL | JPHI | JJMP

datatype jtype = UNKNOWN | FLOAT64 | INT64 | INT32 | UINT64 | UINT32 | ARRAY

type_synonym u32 = "32 word"
type_synonym slot = "nat \<times> nat"

record jinst =
  ji_opcode :: jopcode
  ji_ln :: u32
  ji_bb :: "nat option"
  ji_first_user :: "slot option"
  ji_prev :: "nat option"
  ji_next :: "nat option"
  ji_inputs :: "nat option list"
  ji_users :: "slot option list"   \<comment> \<open>\<open>next_or_inst_\<close> of the users of the inputs\<close>
  ji_type :: jtype
  ji_imm :: u64

record jbb =
  bb_first_phi :: "nat option"
  bb_last_phi :: "nat option"
  bb_first_inst :: "nat option"
  bb_last_inst :: "nat option"
  bb_loop :: "nat option"
  bb_preds :: "nat list"
  bb_succs :: "nat list"

record graph =
  g_inst :: "nat \<Rightarrow> jinst"
  g_insts_count :: nat
  g_bb :: "nat \<Rightarrow> jbb"
  g_bbs_count :: nat

definition HasDst :: "jopcode \<Rightarrow> bool" where
  "HasDst c \<longleftrightarrow> (case c of JRETURN \<Rightarrow> False | JRETURNVOID \<Rightarrow> False | JJMP \<Rightarrow> False | _ \<Rightarrow> True)"

definition IsFixed :: "jopcode \<Rightarrow> bool" where
  "IsFixed c \<longleftrightarrow> (case c of JCALL \<Rightarrow> False | JPHI \<Rightarrow> False | _ \<Rightarrow> True)"

text \<open>\<open>INPUTS_COUNT_ARRAY\<close>; -1 of the variadic opcodes is never read.\<close>

definition fixed_inputs :: "jopcode \<Rightarrow> nat" where
  "fixed_inputs c =
     (case c of JCONST \<Rightarrow> 0 | JPARAMETER \<Rightarrow> 0 | JCAST \<Rightarrow> 1 | JRETURN \<Rightarrow> 1 | JRETURNVOID \<Rightarrow> 0
              | JCHECKNULL \<Rightarrow> 1 | JCHECKBOUNDS \<Rightarrow> 2 | JGETELEM \<Rightarrow> 2 | JADD \<Rightarrow> 2 | JSUB \<Rightarrow> 2 | JMUL \<Rightarrow> 2
              | JNEG \<Rightarrow> 1 | JNOT \<Rightarrow> 1 | JXOR \<Rightarrow> 2 | JASHR \<Rightarrow> 2 | JSHL \<Rightarrow> 2 | JJMP \<Rightarrow> 2 | _ \<Rightarrow> 255)"

definition new_inst :: "jopcode \<Rightarrow> nat \<Rightarrow> jtype \<Rightarrow> u64 \<Rightarrow> jinst" where
  "new_inst c n t imm =
     \<lparr>ji_opcode = c, ji_ln = 0, ji_bb = None, ji_first_user = None, ji_prev = None, ji_next = None,
      ji_inputs = replicate n None, ji_users = replicate n None, ji_type = t, ji_imm = imm\<rparr>"

text \<open>\<open>Graph::New\<close> of an instruction with a fixed number of inputs, and of a variadic one.\<close>

definition New_variadic :: "jopcode \<Rightarrow> nat \<Rightarrow> jtype \<Rightarrow> u64 \<Rightarrow> 'g graph_scheme \<Rightarrow> nat \<times> 'g graph_scheme" where
  "New_variadic c n t imm g =
     (g_insts_count g,
      g\<lparr>g_inst := (g_inst g)(g_insts_count g := new_inst c n t imm), g_insts_count := Suc (g_insts_count g)\<rparr>)"

definition New_inst :: "jopcode \<Rightarrow> jtype \<Rightarrow> u64 \<Rightarrow> 'g graph_scheme \<Rightarrow> nat \<times> 'g graph_scheme" where
  "New_inst c t imm g = New_variadic c (fixed_inputs c) t imm g"

definition new_bb :: jbb where
  "new_bb =
     \<lparr>bb_first_phi = None, bb_last_phi = None, bb_first_inst = None, bb_last_inst = None,
      bb_loop = None, bb_preds = [], bb_succs = []\<rparr>"

definition NewBB :: "'g graph_scheme \<Rightarrow> nat \<times> 'g graph_scheme" where
  "NewBB g =
     (g_bbs_count g, g\<lparr>g_bb := (g_bb g)(g_bbs_count g := new_bb), g_bbs_count := Suc (g_bbs_count g)\<rparr>)"

definition upd_inst :: "nat \<Rightarrow> (jinst \<Rightarrow> jinst) \<Rightarrow> 'g graph_scheme \<Rightarrow> 'g graph_scheme" where
  "upd_inst i f g = g\<lparr>g_inst := (g_inst g)(i := f (g_inst g i))\<rparr>"

definition upd_bb :: "nat \<Rightarrow> (jbb \<Rightarrow> jbb) \<Rightarrow> 'g graph_scheme \<Rightarrow> 'g graph_scheme" where
  "upd_bb b f g = g\<lparr>g_bb := (g_bb g)(b := f (g_bb g b))\<rparr>"

definition IsPhi :: "'g graph_scheme \<Rightarrow> nat \<Rightarrow> bool" where
  "IsPhi g i \<longleftrightarrow> ji_opcode (g_inst g i) = JPHI"

text \<open>Following a pointer.\<close>

definition deref :: "'a option \<Rightarrow> ('a \<Rightarrow> 'b res) \<Rightarrow> 'b res" where
  "deref p k = rbind (of_opt Undefined p) k"

subsection \<open>Inputs\<close>

definition GetInputsCount :: "'g graph_scheme \<Rightarrow> nat \<Rightarrow> nat" where
  "GetInputsCount g i =
     (if IsFixed (ji_opcode (g_inst g i)) then fixed_inputs (ji_opcode (g_inst g i))
      else length (ji_inputs (g_inst g i)))"

text \<open>An index out of range: an assertion of a variadic instruction, none of a fixed one.\<close>

definition input_error :: "'g graph_scheme \<Rightarrow> nat \<Rightarrow> vm_error" where
  "input_error g i =
     (if \<not> IsFixed (ji_opcode (g_inst g i)) then AssertFailed
      else if ji_inputs (g_inst g i) = [] then Fatal ''UNREACHABLE'' else Undefined)"

definition GetInput :: "nat \<Rightarrow> nat \<Rightarrow> 'g graph_scheme \<Rightarrow> nat option res" where
  "GetInput i k g =
     (if k < length (ji_inputs (g_inst g i)) then Inr (ji_inputs (g_inst g i) ! k) else Inl (input_error g i))"

definition next_user :: "'g graph_scheme \<Rightarrow> slot \<Rightarrow> slot option" where
  "next_user g u = ji_users (g_inst g (fst u)) ! snd u"

definition set_next_user :: "slot \<Rightarrow> slot option \<Rightarrow> 'g graph_scheme \<Rightarrow> 'g graph_scheme" where
  "set_next_user u n = upd_inst (fst u) (\<lambda>x. x\<lparr>ji_users := (ji_users x)[snd u := n]\<rparr>)"

definition set_first_user :: "nat \<Rightarrow> slot option \<Rightarrow> 'g graph_scheme \<Rightarrow> 'g graph_scheme" where
  "set_first_user i n = upd_inst i (\<lambda>x. x\<lparr>ji_first_user := n\<rparr>)"

definition put_input :: "nat \<Rightarrow> nat \<Rightarrow> nat \<Rightarrow> 'g graph_scheme \<Rightarrow> 'g graph_scheme" where
  "put_input i k inp = upd_inst i (\<lambda>x. x\<lparr>ji_inputs := (ji_inputs x)[k := Some inp]\<rparr>)"

definition slot_count :: "'g graph_scheme \<Rightarrow> nat" where
  "slot_count g = sum_list (map (\<lambda>i. length (ji_users (g_inst g i))) [0..<g_insts_count g])"

text \<open>\<open>User::GetPrev(first_user)\<close>: null for the head of the list, else the predecessor.\<close>

fun find_prev :: "nat \<Rightarrow> slot \<Rightarrow> slot \<Rightarrow> 'g graph_scheme \<Rightarrow> slot res" where
  "find_prev 0 u v g = Inl OutOfFuel"
| "find_prev (Suc n) u v g =
     (case next_user g v of
        None \<Rightarrow> Inl AssertFailed
      | Some w \<Rightarrow> if w = u then Inr v else find_prev n u w g)"

definition GetPrev :: "slot \<Rightarrow> slot option \<Rightarrow> 'g graph_scheme \<Rightarrow> slot option res" where
  "GetPrev u first g =
     deref first (\<lambda>v. if v = u then Inr None else rbind (find_prev (slot_count g) u v g) (\<lambda>p. Inr (Some p)))"

text \<open>
  \<open>User::ReplaceUserWith\<close>.  For the head of the list \<open>prev\<close> is null, and the assertion
  \<open>!prev->IsSpecial()\<close> reads through it.
\<close>

definition ReplaceUserWith :: "slot \<Rightarrow> nat \<Rightarrow> 'g graph_scheme \<Rightarrow> 'g graph_scheme res" where
  "ReplaceUserWith u inp g =
     rbind (GetInput (fst u) (snd u) g) (\<lambda>old. deref old (\<lambda>d.
       let nxt = next_user g u in
       rbind (GetPrev u (ji_first_user (g_inst g d)) g) (\<lambda>prev.
         let g1 = (if prev = None then set_first_user d nxt g else g) in
         deref prev (\<lambda>p.
           let g2 = set_next_user p nxt g1;
               g3 = set_next_user u (ji_first_user (g_inst g2 inp)) g2
           in Inr (set_first_user inp (Some u) g3)))))"

definition AppendUseOf :: "slot \<Rightarrow> nat \<Rightarrow> 'g graph_scheme \<Rightarrow> 'g graph_scheme res" where
  "AppendUseOf u inp g =
     guard (next_user g u = None) AssertFailed
       (rbind (GetInput (fst u) (snd u) g) (\<lambda>old.
          guard (old = None) AssertFailed
            (Inr (set_first_user inp (Some u) (set_next_user u (ji_first_user (g_inst g inp)) g)))))"

text \<open>\<open>SetInput\<close> of an instruction without inputs aborts, every other one asserts the index.\<close>

definition SetInput :: "nat \<Rightarrow> nat \<Rightarrow> nat \<Rightarrow> 'g graph_scheme \<Rightarrow> 'g graph_scheme res" where
  "SetInput i k inp g =
     guard (k < length (ji_inputs (g_inst g i)))
       (if IsFixed (ji_opcode (g_inst g i)) \<and> ji_inputs (g_inst g i) = [] then Fatal ''UNREACHABLE'' else AssertFailed)
       (let old = ji_inputs (g_inst g i) ! k in
        rbind (if old \<noteq> None then ReplaceUserWith (i, k) inp g else AppendUseOf (i, k) inp g) (\<lambda>g1.
          Inr (put_input i k inp g1)))"

text \<open>\<open>User::SetInput\<close>: the input changes, the list of users does not.\<close>

definition User_SetInput :: "slot \<Rightarrow> nat \<Rightarrow> 'g graph_scheme \<Rightarrow> 'g graph_scheme res" where
  "User_SetInput u inp g =
     rbind (GetInput (fst u) (snd u) g) (\<lambda>old.
       guard (old \<noteq> Some (fst u)) AssertFailed (Inr (put_input (fst u) (snd u) inp g)))"

fun FindAndRemoveFromChain :: "nat \<Rightarrow> slot \<Rightarrow> slot option \<Rightarrow> 'g graph_scheme \<Rightarrow> 'g graph_scheme res" where
  "FindAndRemoveFromChain 0 u v g = Inl OutOfFuel"
| "FindAndRemoveFromChain (Suc n) u v g =
     deref v (\<lambda>w.
       if next_user g w = Some u then Inr (set_next_user w (next_user g u) g)
       else FindAndRemoveFromChain n u (next_user g w) g)"

definition RemoveUser :: "nat \<Rightarrow> slot \<Rightarrow> 'g graph_scheme \<Rightarrow> 'g graph_scheme res" where
  "RemoveUser d u g =
     (if ji_first_user (g_inst g d) = Some u then Inr (set_first_user d (next_user g u) g)
      else FindAndRemoveFromChain (Suc (slot_count g)) u (ji_first_user (g_inst g d)) g)"

definition ClearInputs :: "nat \<Rightarrow> 'g graph_scheme \<Rightarrow> 'g graph_scheme res" where
  "ClearInputs i g =
     fold_res (\<lambda>k h. rbind (GetInput i k h) (\<lambda>inp. deref inp (\<lambda>d. RemoveUser d (i, k) h)))
       [0..<GetInputsCount g i] g"

text \<open>The loop of \<open>ReplaceUsersTo\<close>; it returns the last user.\<close>

fun redirect_users :: "nat \<Rightarrow> nat \<Rightarrow> slot option \<Rightarrow> slot option \<Rightarrow> 'g graph_scheme \<Rightarrow> (slot option \<times> 'g graph_scheme) res" where
  "redirect_users 0 new u prev g = Inl OutOfFuel"
| "redirect_users (Suc n) new u prev g =
     (case u of
        None \<Rightarrow> Inr (prev, g)
      | Some v \<Rightarrow> rbind (User_SetInput v new g) (\<lambda>g1. redirect_users n new (next_user g1 v) (Some v) g1))"

definition ReplaceUsersTo :: "nat \<Rightarrow> nat \<Rightarrow> 'g graph_scheme \<Rightarrow> 'g graph_scheme res" where
  "ReplaceUsersTo old new g =
     rbind (redirect_users (Suc (slot_count g)) new (ji_first_user (g_inst g old)) None g) (\<lambda>(prev, g1).
       case prev of
         None \<Rightarrow> Inr g1
       | Some p \<Rightarrow>
           guard (next_user g1 p = None) AssertFailed
             (Inr (set_first_user new (ji_first_user (g_inst g1 old))
                     (set_next_user p (ji_first_user (g_inst g1 new)) g1))))"

subsection \<open>Instructions of a block\<close>

definition set_next :: "nat option \<Rightarrow> nat option \<Rightarrow> 'g graph_scheme \<Rightarrow> 'g graph_scheme res" where
  "set_next p n g = deref p (\<lambda>i. Inr (upd_inst i (\<lambda>x. x\<lparr>ji_next := n\<rparr>) g))"

definition set_prev :: "nat option \<Rightarrow> nat option \<Rightarrow> 'g graph_scheme \<Rightarrow> 'g graph_scheme res" where
  "set_prev p n g = deref p (\<lambda>i. Inr (upd_inst i (\<lambda>x. x\<lparr>ji_prev := n\<rparr>) g))"

definition unlink :: "nat \<Rightarrow> 'g graph_scheme \<Rightarrow> 'g graph_scheme" where
  "unlink i = upd_inst i (\<lambda>x. x\<lparr>ji_bb := None, ji_next := None, ji_prev := None\<rparr>)"

text \<open>\<open>PushBack\<close> and the \<open>InitEmptyBlock\<close> of an instruction.\<close>

definition PushBack :: "nat \<Rightarrow> nat \<Rightarrow> 'g graph_scheme \<Rightarrow> 'g graph_scheme res" where
  "PushBack b i g =
     guard (\<not> IsPhi g i) AssertFailed
       (guard (ji_bb (g_inst g i) = None) AssertFailed
          (guard ((bb_first_inst (g_bb g b) = None) = (bb_last_inst (g_bb g b) = None)) AssertFailed
             (if bb_first_inst (g_bb g b) = None then
                Inr (upd_inst i (\<lambda>x. x\<lparr>ji_bb := Some b\<rparr>)
                       (upd_bb b (\<lambda>x. x\<lparr>bb_first_inst := Some i, bb_last_inst := Some i\<rparr>) g))
              else
                let l = bb_last_inst (g_bb g b) in
                rbind (set_next l (Some i) g) (\<lambda>g1.
                  Inr (upd_inst i (\<lambda>x. x\<lparr>ji_prev := l, ji_bb := Some b\<rparr>)
                         (upd_bb b (\<lambda>x. x\<lparr>bb_last_inst := Some i\<rparr>) g1))))))"

text \<open>\<open>PushPhi\<close>: \<open>prev_\<close> is set to the last instruction of the block, not to the last phi.\<close>

definition PushPhi :: "nat \<Rightarrow> nat \<Rightarrow> 'g graph_scheme \<Rightarrow> 'g graph_scheme res" where
  "PushPhi b i g =
     guard (ji_bb (g_inst g i) = None) AssertFailed
       (guard (IsPhi g i) AssertFailed
          (guard ((bb_first_phi (g_bb g b) = None) = (bb_last_phi (g_bb g b) = None)) AssertFailed
             (if bb_first_phi (g_bb g b) = None then
                Inr (upd_inst i (\<lambda>x. x\<lparr>ji_bb := Some b\<rparr>)
                       (upd_bb b (\<lambda>x. x\<lparr>bb_first_phi := Some i, bb_last_phi := Some i\<rparr>) g))
              else
                rbind (set_next (bb_last_phi (g_bb g b)) (Some i) g) (\<lambda>g1.
                  let g2 = upd_bb b (\<lambda>x. x\<lparr>bb_last_phi := Some i\<rparr>)
                             (upd_inst i (\<lambda>x. x\<lparr>ji_prev := bb_last_inst (g_bb g b)\<rparr>) g1)
                  in guard (ji_next (g_inst g2 i) = None) AssertFailed
                       (Inr (upd_inst i (\<lambda>x. x\<lparr>ji_bb := Some b\<rparr>) g2))))))"

definition SetFirstInst :: "nat \<Rightarrow> nat option \<Rightarrow> 'g graph_scheme \<Rightarrow> 'g graph_scheme res" where
  "SetFirstInst b p g =
     guard (case p of None \<Rightarrow> True | Some i \<Rightarrow> \<not> IsPhi g i) AssertFailed
       (Inr (upd_bb b (\<lambda>x. x\<lparr>bb_first_inst := p\<rparr>) g))"

definition SetLastInst :: "nat \<Rightarrow> nat option \<Rightarrow> 'g graph_scheme \<Rightarrow> 'g graph_scheme res" where
  "SetLastInst b p g =
     guard (case p of None \<Rightarrow> True | Some i \<Rightarrow> \<not> IsPhi g i) AssertFailed
       (Inr (upd_bb b (\<lambda>x. x\<lparr>bb_last_inst := p\<rparr>) g))"

text \<open>\<open>Inst::ReplaceInBB(nullptr)\<close>.\<close>

definition RemoveFromBB :: "nat \<Rightarrow> 'g graph_scheme \<Rightarrow> 'g graph_scheme res" where
  "RemoveFromBB i g =
     deref (ji_bb (g_inst g i)) (\<lambda>b.
       let nxt = ji_next (g_inst g i); prv = ji_prev (g_inst g i) in
       rbind (if bb_first_inst (g_bb g b) = Some i
              then guard (prv = None) AssertFailed (SetFirstInst b nxt g)
              else set_next prv nxt g) (\<lambda>g1.
         rbind (if bb_last_inst (g_bb g1 b) = Some i
                then guard (nxt = None) AssertFailed (SetLastInst b prv g1)
                else set_prev nxt prv g1) (\<lambda>g2.
           Inr (unlink i g2))))"

text \<open>\<open>Inst::ReplaceInBB(inst)\<close>: both neighbours are written without a test for null.\<close>

definition ReplaceInBB :: "nat \<Rightarrow> nat \<Rightarrow> 'g graph_scheme \<Rightarrow> 'g graph_scheme res" where
  "ReplaceInBB i new g =
     guard (\<not> IsPhi g i) AssertFailed
       (if ji_bb (g_inst g new) = None then
          guard (\<not> IsPhi g new) AssertFailed
            (deref (ji_bb (g_inst g i)) (\<lambda>b.
               rbind (if bb_first_inst (g_bb g b) = Some i then SetFirstInst b (Some new) g else Inr g) (\<lambda>g1.
                 rbind (if bb_last_inst (g_bb g1 b) = Some i then SetLastInst b (Some new) g1 else Inr g1) (\<lambda>g2.
                   let nxt = ji_next (g_inst g i); prv = ji_prev (g_inst g i);
                       g3 = upd_inst new (\<lambda>x. x\<lparr>ji_next := nxt, ji_prev := prv, ji_bb := Some b\<rparr>) g2
                   in rbind (set_prev nxt (Some new) g3) (\<lambda>g4.
                        rbind (set_next prv (Some new) g4) (\<lambda>g5. Inr (unlink i g5)))))))
        else RemoveFromBB i g)"

text \<open>\<open>Inst::Prepend\<close>: the predecessor is written without a test for null.\<close>

definition Prepend :: "nat \<Rightarrow> nat \<Rightarrow> 'g graph_scheme \<Rightarrow> 'g graph_scheme res" where
  "Prepend i new g =
     guard (ji_bb (g_inst g new) = None) AssertFailed
       (guard (ji_prev (g_inst g new) = None) AssertFailed
          (guard (ji_next (g_inst g new) = None) AssertFailed
             (let prv = ji_prev (g_inst g i);
                  g1 = upd_inst new (\<lambda>x. x\<lparr>ji_bb := ji_bb (g_inst g i), ji_next := Some i, ji_prev := prv\<rparr>) g;
                  g2 = upd_inst i (\<lambda>x. x\<lparr>ji_prev := Some new\<rparr>) g1
              in rbind (set_next prv (Some new) g2) (\<lambda>g3.
                   deref (ji_bb (g_inst g i)) (\<lambda>b.
                     if bb_first_inst (g_bb g3 b) = Some i then SetFirstInst b (Some new) g3 else Inr g3)))))"

text \<open>\<open>Inst::ReplaceWith\<close>, with an instruction and with nullptr.\<close>

definition ReplaceWith :: "nat \<Rightarrow> nat \<Rightarrow> 'g graph_scheme \<Rightarrow> 'g graph_scheme res" where
  "ReplaceWith i new g =
     rbind (ClearInputs i g) (\<lambda>g1. rbind (ReplaceInBB i new g1) (ReplaceUsersTo i new))"

definition Remove :: "nat \<Rightarrow> 'g graph_scheme \<Rightarrow> 'g graph_scheme res" where
  "Remove i g = rbind (ClearInputs i g) (RemoveFromBB i)"

subsection \<open>Iterators\<close>

fun follow :: "(nat \<Rightarrow> nat option) \<Rightarrow> nat \<Rightarrow> nat option \<Rightarrow> nat list" where
  "follow f 0 p = []"
| "follow f (Suc n) p = (case p of None \<Rightarrow> [] | Some i \<Rightarrow> i # follow f n (f i))"

definition GetInsts :: "'g graph_scheme \<Rightarrow> nat \<Rightarrow> nat list" where
  "GetInsts g b = follow (\<lambda>i. ji_next (g_inst g i)) (g_insts_count g) (bb_first_inst (g_bb g b))"

definition GetPhis :: "'g graph_scheme \<Rightarrow> nat \<Rightarrow> nat list" where
  "GetPhis g b = follow (\<lambda>i. ji_next (g_inst g i)) (g_insts_count g) (bb_first_phi (g_bb g b))"

text \<open>\<open>GetAllInsts\<close>: the phis, then the other instructions.\<close>

definition GetAllInsts :: "'g graph_scheme \<Rightarrow> nat \<Rightarrow> nat list" where
  "GetAllInsts g b = GetPhis g b @ GetInsts g b"

subsection \<open>Edges\<close>

definition SetSucc :: "nat \<Rightarrow> nat \<Rightarrow> 'g graph_scheme \<Rightarrow> 'g graph_scheme res" where
  "SetSucc b s g =
     guard (bb_succs (g_bb g b) = []) AssertFailed
       (Inr (upd_bb s (\<lambda>x. x\<lparr>bb_preds := bb_preds x @ [b]\<rparr>) (upd_bb b (\<lambda>x. x\<lparr>bb_succs := [s]\<rparr>) g)))"

definition SetTrueFalseSuccs :: "nat \<Rightarrow> nat \<Rightarrow> nat \<Rightarrow> 'g graph_scheme \<Rightarrow> 'g graph_scheme res" where
  "SetTrueFalseSuccs b t f g =
     guard (bb_succs (g_bb g b) = []) AssertFailed
       (Inr (upd_bb f (\<lambda>x. x\<lparr>bb_preds := bb_preds x @ [b]\<rparr>)
              (upd_bb t (\<lambda>x. x\<lparr>bb_preds := bb_preds x @ [b]\<rparr>)
                (upd_bb b (\<lambda>x. x\<lparr>bb_succs := [t, f]\<rparr>) g))))"

text \<open>The position of an element, for \<open>std::find\<close> after an assertion that it is there.\<close>

definition index_of :: "'a \<Rightarrow> 'a list \<Rightarrow> nat" where
  "index_of x xs = length (takeWhile (\<lambda>y. y \<noteq> x) xs)"

definition GetPredIdx :: "nat \<Rightarrow> nat \<Rightarrow> 'g graph_scheme \<Rightarrow> nat res" where
  "GetPredIdx b p g =
     guard (p \<in> set (bb_preds (g_bb g b))) AssertFailed (Inr (index_of p (bb_preds (g_bb g b))))"

definition FindAndReplaceInPreds :: "nat \<Rightarrow> nat \<Rightarrow> nat \<Rightarrow> 'g graph_scheme \<Rightarrow> 'g graph_scheme res" where
  "FindAndReplaceInPreds b old_bb fresh_bb g =
     guard (old_bb \<noteq> fresh_bb) AssertFailed
       (guard (old_bb \<in> set (bb_preds (g_bb g b))) AssertFailed
          (let ps = (bb_preds (g_bb g b))[index_of old_bb (bb_preds (g_bb g b)) := fresh_bb]
           in guard (old_bb \<notin> set ps) AssertFailed (Inr (upd_bb b (\<lambda>x. x\<lparr>bb_preds := ps\<rparr>) g))))"

definition MoveSuccsFrom :: "nat \<Rightarrow> nat \<Rightarrow> 'g graph_scheme \<Rightarrow> 'g graph_scheme" where
  "MoveSuccsFrom b src g =
     upd_bb src (\<lambda>x. x\<lparr>bb_succs := []\<rparr>) (upd_bb b (\<lambda>x. x\<lparr>bb_succs := bb_succs (g_bb g src)\<rparr>) g)"

text \<open>\<open>Inst::SplitBlockAfter\<close>: the instructions after \<open>i\<close> and the successors go to a new block.\<close>

definition SplitBlockAfter :: "nat \<Rightarrow> 'g graph_scheme \<Rightarrow> (nat \<times> 'g graph_scheme) res" where
  "SplitBlockAfter i g =
     guard (\<not> IsPhi g i) AssertFailed
       (let (nb, g1) = NewBB g in
        deref (ji_bb (g_inst g i)) (\<lambda>b.
          rbind
            (if bb_last_inst (g_bb g1 b) \<noteq> Some i then
               rbind (SetLastInst nb (bb_last_inst (g_bb g1 b)) g1) (\<lambda>g2.
                 rbind (SetLastInst b (Some i) g2) (\<lambda>g3.
                   rbind (SetFirstInst nb (ji_next (g_inst g3 i)) g3) (\<lambda>g4.
                     rbind (set_prev (ji_next (g_inst g4 i)) None g4) (\<lambda>g5.
                       let g6 = upd_inst i (\<lambda>x. x\<lparr>ji_next := None\<rparr>) g5
                       in Inr (fold (\<lambda>j. upd_inst j (\<lambda>x. x\<lparr>ji_bb := Some nb\<rparr>)) (GetInsts g6 nb) g6)))))
             else Inr g1) (\<lambda>g7.
            rbind (fold_res (\<lambda>s. FindAndReplaceInPreds s b nb) (bb_succs (g_bb g7 b)) g7) (\<lambda>g8.
              Inr (nb, MoveSuccsFrom nb b g8)))))"

end
