(* ===== verification/Jit_Users.thy ===== *)
theory Jit_Users
  imports Jit_Graph
begin

text \<open>
  Correctness of the def-use lists (instructions.h, graph.cpp).  \<open>users_list g d xs\<close> says that the
  linked list that starts at \<open>first_user_\<close> of \<open>d\<close> runs through the slots \<open>xs\<close>, and
  \<open>consistent D X g\<close> that for the instructions of \<open>D\<close> these are exactly the inputs that refer to
  them, outside the instructions \<open>X\<close> whose inputs have been cleared.
\<close>

subsection \<open>Linked lists\<close>

fun seg :: "('a \<Rightarrow> 'a option) \<Rightarrow> 'a option \<Rightarrow> 'a list \<Rightarrow> 'a option \<Rightarrow> bool" where
  "seg n p [] q \<longleftrightarrow> p = q"
| "seg n p (x # xs) q \<longleftrightarrow> p = Some x \<and> seg n (n x) xs q"

lemma seg_append: "seg n p (xs @ ys) q \<longleftrightarrow> (\<exists>r. seg n p xs r \<and> seg n r ys q)"
  by (induction xs arbitrary: p) auto

lemma seg_cong: "(\<And>x. x \<in> set xs \<Longrightarrow> n x = m x) \<Longrightarrow> seg n p xs q = seg m p xs q"
  by (induction xs arbitrary: p) auto

lemma seg_None: "seg n None xs None \<longleftrightarrow> xs = []"
  by (cases xs) auto

lemma seg_unique: "seg n p xs None \<Longrightarrow> seg n p ys None \<Longrightarrow> xs = ys"
proof (induction xs arbitrary: p ys)
  case Nil
  then show ?case by (cases ys) auto
next
  case (Cons x xs)
  then show ?case by (cases ys) auto
qed

subsection \<open>Slots\<close>

definition slot_ok :: "'g graph_scheme \<Rightarrow> slot \<Rightarrow> bool" where
  "slot_ok g u \<longleftrightarrow> fst u < g_insts_count g \<and> snd u < length (ji_users (g_inst g (fst u))) \<and>
     snd u < length (ji_inputs (g_inst g (fst u)))"

definition input_at :: "'g graph_scheme \<Rightarrow> slot \<Rightarrow> nat option" where
  "input_at g u = ji_inputs (g_inst g (fst u)) ! snd u"

lemma slot_ok_upd [simp]:
  "slot_ok (set_next_user v n g) u = slot_ok g u" "slot_ok (set_first_user d n g) u = slot_ok g u"
  "slot_ok (put_input i k inp g) u = slot_ok g u"
  by (auto simp: slot_ok_def set_next_user_def set_first_user_def put_input_def upd_inst_def)

lemma input_at_upd [simp]:
  "input_at (set_next_user v n g) u = input_at g u" "input_at (set_first_user d n g) u = input_at g u"
  by (auto simp: input_at_def set_next_user_def set_first_user_def upd_inst_def)

lemma input_at_put:
  "slot_ok g (i, k) \<Longrightarrow> input_at (put_input i k inp g) u = (if u = (i, k) then Some inp else input_at g u)"
  by (cases u) (auto simp: input_at_def put_input_def upd_inst_def slot_ok_def)

lemma next_user_upd [simp]:
  "next_user (set_first_user d n g) u = next_user g u" "next_user (put_input i k inp g) u = next_user g u"
  by (auto simp: next_user_def set_first_user_def put_input_def upd_inst_def)

lemma next_user_set: "slot_ok g v \<Longrightarrow> next_user (set_next_user v n g) = (next_user g)(v := n)"
  by (rule ext) (auto simp: next_user_def set_next_user_def upd_inst_def slot_ok_def prod_eq_iff)

lemma first_user_upd [simp]:
  "ji_first_user (g_inst (set_next_user v n g) d) = ji_first_user (g_inst g d)"
  "ji_first_user (g_inst (put_input i k inp g) d) = ji_first_user (g_inst g d)"
  "ji_first_user (g_inst (set_first_user e n g) d) = (if d = e then n else ji_first_user (g_inst g d))"
  by (auto simp: set_next_user_def set_first_user_def put_input_def upd_inst_def)

lemma GetInput_at: "slot_ok g u \<Longrightarrow> GetInput (fst u) (snd u) g = Inr (input_at g u)"
  by (simp add: GetInput_def slot_ok_def input_at_def)

lemma slot_count_upd [simp]:
  "slot_count (set_next_user v n g) = slot_count g" "slot_count (set_first_user d n g) = slot_count g"
  "slot_count (put_input i k inp g) = slot_count g"
  by (auto simp: slot_count_def set_next_user_def set_first_user_def put_input_def upd_inst_def
      intro!: arg_cong [of _ _ sum_list] map_cong)

text \<open>A list of distinct slots is no longer than the number of slots: the fuel of the loops.\<close>

lemma slots_bound:
  assumes "distinct xs" "\<forall>u \<in> set xs. slot_ok g u"
  shows "length xs \<le> slot_count g"
proof -
  let ?S = "SIGMA i:{..<g_insts_count g}. {..<length (ji_users (g_inst g i))}"
  have "set xs \<subseteq> ?S" using assms(2) by (auto simp: slot_ok_def)
  then have "card (set xs) \<le> card ?S" by (intro card_mono) auto
  also have "card ?S = (\<Sum>i<g_insts_count g. length (ji_users (g_inst g i)))" by simp
  also have "\<dots> = slot_count g"
    unfolding slot_count_def by (simp add: interv_sum_list_conv_sum_set_nat atLeast0LessThan)
  finally show ?thesis using distinct_card [OF assms(1)] by simp
qed

definition users_list :: "'g graph_scheme \<Rightarrow> nat \<Rightarrow> slot list \<Rightarrow> bool" where
  "users_list g d xs \<longleftrightarrow> seg (next_user g) (ji_first_user (g_inst g d)) xs None \<and> distinct xs \<and>
     (\<forall>u \<in> set xs. slot_ok g u)"

definition consistent :: "nat set \<Rightarrow> nat set \<Rightarrow> 'g graph_scheme \<Rightarrow> bool" where
  "consistent D X g \<longleftrightarrow> (\<forall>d \<in> D. \<exists>xs. users_list g d xs \<and>
     (\<forall>u. u \<in> set xs \<longleftrightarrow> slot_ok g u \<and> fst u \<notin> X \<and> input_at g u = Some d))"

lemma consistentE:
  assumes "consistent D X g" "d \<in> D"
  obtains xs where "users_list g d xs" "\<And>u. u \<in> set xs \<longleftrightarrow> slot_ok g u \<and> fst u \<notin> X \<and> input_at g u = Some d"
  using assms by (auto simp: consistent_def)

subsection \<open>Inserting a use\<close>

lemma AppendUseOf_list:
  assumes "slot_ok g u" "next_user g u = None" "input_at g u = None"
  obtains g' where "AppendUseOf u inp g = Inr g'"
    "\<And>v. slot_ok g' v = slot_ok g v" "\<And>v. input_at g' v = input_at g v"
    "\<And>d xs. users_list g d xs \<Longrightarrow> u \<notin> set xs \<Longrightarrow> users_list g' d (if d = inp then u # xs else xs)"
proof -
  define g' where "g' = set_first_user inp (Some u) (set_next_user u (ji_first_user (g_inst g inp)) g)"
  have "AppendUseOf u inp g = Inr g'"
    using assms GetInput_at [OF assms(1)] by (simp add: AppendUseOf_def g'_def)
  moreover have "users_list g' d (if d = inp then u # xs else xs)" if l: "users_list g d xs" and u: "u \<notin> set xs" for d xs
  proof -
    have nx: "next_user g' = (next_user g)(u := ji_first_user (g_inst g inp))"
      by (rule ext) (simp add: g'_def next_user_set [OF assms(1)])
    have "seg (next_user g') p xs None = seg (next_user g) p xs None" for p
      by (rule seg_cong) (use u nx in auto)
    then show ?thesis using l u assms(1) by (auto simp: users_list_def nx g'_def next_user_set [OF assms(1)])
  qed
  ultimately show thesis by (intro that [of g']) (simp_all add: g'_def)
qed

lemma SetInput_empty:
  assumes "consistent D X g" and "slot_ok g (i, k)" "i \<notin> X"
    and "ji_inputs (g_inst g i) ! k = None" "next_user g (i, k) = None"
  shows "\<exists>g'. SetInput i k inp g = Inr g' \<and> consistent D X g' \<and>
    (\<forall>u. input_at g' u = (if u = (i, k) then Some inp else input_at g u))"
proof -
  have none: "input_at g (i, k) = None" using assms(4) by (simp add: input_at_def)
  from AppendUseOf_list [OF assms(2,5) none] obtain g1 where g1: "AppendUseOf (i, k) inp g = Inr g1"
    "\<And>v. slot_ok g1 v = slot_ok g v" "\<And>v. input_at g1 v = input_at g v"
    "\<And>d xs. users_list g d xs \<Longrightarrow> (i, k) \<notin> set xs \<Longrightarrow> users_list g1 d (if d = inp then (i, k) # xs else xs)"
    by blast
  let ?g = "put_input i k inp g1"
  have inp: "input_at ?g u = (if u = (i, k) then Some inp else input_at g u)" for u
    using input_at_put [of g1 i k inp u] g1(2,3) assms(2) by simp
  have keep: "users_list ?g d xs = users_list g1 d xs" for d xs
    by (simp add: users_list_def) (metis ext next_user_upd(2))
  have "consistent D X ?g"
    unfolding consistent_def
  proof
    fix d assume "d \<in> D"
    from consistentE [OF assms(1) this] obtain xs where xs: "users_list g d xs"
      "\<And>u. u \<in> set xs \<longleftrightarrow> slot_ok g u \<and> fst u \<notin> X \<and> input_at g u = Some d" by blast
    have "(i, k) \<notin> set xs" using xs(2) none by simp
    from g1(4) [OF xs(1) this] show "\<exists>ys. users_list ?g d ys \<and>
        (\<forall>u. u \<in> set ys \<longleftrightarrow> slot_ok ?g u \<and> fst u \<notin> X \<and> input_at ?g u = Some d)"
      unfolding inp using xs(2) none assms(2,3) by (intro exI [of _ "if d = inp then (i, k) # xs else xs"])
        (auto simp: keep g1(2))
  qed
  moreover have "SetInput i k inp g = Inr ?g"
    using assms(2,4) g1(1) by (simp add: SetInput_def slot_ok_def)
  ultimately show ?thesis using inp by blast
qed

text \<open>
  C13: Filling an empty input keeps the def-use lists consistent: afterwards the list of every
  definition holds exactly the inputs that refer to it.
\<close>

theorem set_input_keeps_lists:
  assumes "consistent D X g" and "slot_ok g (i, k)" "i \<notin> X"
    and "ji_inputs (g_inst g i) ! k = None" "next_user g (i, k) = None"
  shows "\<exists>g'. SetInput i k inp g = Inr g' \<and> consistent D X g' \<and>
    (\<forall>u. input_at g' u = (if u = (i, k) then Some inp else input_at g u))"
  using assms by (rule SetInput_empty)

subsection \<open>Moving a use\<close>

lemma find_prev_spec:
  "seg (next_user g) (Some v) (as @ p # u # bs) q \<Longrightarrow> distinct (as @ p # u # bs) \<Longrightarrow> length as < n \<Longrightarrow>
   find_prev n u v g = Inr p"
proof (induction as arbitrary: v n)
  case Nil
  then show ?case by (cases n) auto
next
  case (Cons a as)
  from Cons.prems(3) obtain m where n: "n = Suc m" and m: "length as < m" by (cases n) auto
  from Cons.prems(1) have v: "a = v" and rest: "seg (next_user g) (next_user g v) (as @ p # u # bs) q" by auto
  from rest obtain w where w: "next_user g v = Some w" by (cases as) auto
  have "w \<noteq> u" using rest w Cons.prems(2) by (cases as) auto
  moreover have "find_prev m u w g = Inr p"
    using Cons.IH [of w m] rest w Cons.prems(2) m by simp
  ultimately show ?case by (simp add: n w)
qed

lemma find_chain_spec:
  "seg (next_user g) v (as @ p # u # bs) q \<Longrightarrow> distinct (as @ p # u # bs) \<Longrightarrow> length as < n \<Longrightarrow>
   FindAndRemoveFromChain n u v g = Inr (set_next_user p (next_user g u) g)"
proof (induction as arbitrary: v n)
  case Nil
  then show ?case by (cases n) (auto simp: deref_def)
next
  case (Cons a as)
  from Cons.prems(3) obtain m where n: "n = Suc m" and m: "length as < m" by (cases n) auto
  from Cons.prems(1) have v: "v = Some a" and rest: "seg (next_user g) (next_user g a) (as @ p # u # bs) q" by auto
  have "next_user g a \<noteq> Some u" using rest Cons.prems(2) by (cases as) auto
  moreover have "FindAndRemoveFromChain m u (next_user g a) g = Inr (set_next_user p (next_user g u) g)"
    using Cons.IH [OF rest _ m] Cons.prems(2) by simp
  ultimately show ?case by (simp add: n v deref_def)
qed

text \<open>Taking the element after \<open>p\<close> out of a list, while \<open>u\<close> is linked elsewhere.\<close>

lemma seg_skip:
  assumes "seg n p (as @ a # u # bs) q" "distinct (as @ a # u # bs)"
  shows "seg (n(a := n u, u := r)) p (as @ a # bs) q"
proof -
  from assms(1) obtain c where c: "seg n p as c" "c = Some a" "n a = Some u" "seg n (n u) bs q"
    by (auto simp: seg_append)
  have "seg (n(a := n u, u := r)) p as c = seg n p as c" "seg (n(a := n u, u := r)) (n u) bs q = seg n (n u) bs q"
    by (rule seg_cong; use assms(2) in auto)+
  then show ?thesis using c assms(2) by (auto simp: seg_append)
qed

lemma filter_other: "u \<notin> set xs \<Longrightarrow> filter (\<lambda>v. v \<noteq> u) xs = xs"
  by (rule filter_True) auto

definition moved_list :: "nat \<Rightarrow> slot \<Rightarrow> nat \<Rightarrow> slot list \<Rightarrow> slot list" where
  "moved_list inp u e xs = (if e = inp then [u] else []) @ filter (\<lambda>v. v \<noteq> u) xs"

lemma ReplaceUserWith_list:
  assumes d: "users_list g d (as @ p # u # bs)" and inp_u: "input_at g u = Some d"
  obtains g' where "ReplaceUserWith u inp g = Inr g'"
    "\<And>v. slot_ok g' v = slot_ok g v" "\<And>v. input_at g' v = input_at g v"
    "\<And>e xs. users_list g e xs \<Longrightarrow> (e \<noteq> d \<Longrightarrow> u \<notin> set xs \<and> p \<notin> set xs) \<Longrightarrow> users_list g' e (moved_list inp u e xs)"
proof -
  let ?f = "ji_first_user (g_inst g d)"
  have ok: "slot_ok g u" "slot_ok g p" and dist: "distinct (as @ p # u # bs)"
    and chain: "seg (next_user g) ?f (as @ p # u # bs) None" using d by (auto simp: users_list_def)
  obtain v where v: "?f = Some v" "v \<noteq> u" using chain dist by (cases as) auto
  have "length (as @ p # u # bs) \<le> slot_count g"
    by (rule slots_bound [OF dist]) (use d in \<open>simp add: users_list_def\<close>)
  then have "find_prev (slot_count g) u v g = Inr p"
    using find_prev_spec [of g v as p u bs None "slot_count g"] chain dist v by simp
  then have prev: "GetPrev u ?f g = Inr (Some p)" using v by (simp add: GetPrev_def deref_def)
  define g2 where "g2 = set_next_user p (next_user g u) g"
  define g' where "g' = set_first_user inp (Some u) (set_next_user u (ji_first_user (g_inst g inp)) g2)"
  have run: "ReplaceUserWith u inp g = Inr g'"
    using GetInput_at [OF ok(1)] inp_u prev
    by (simp add: ReplaceUserWith_def deref_def Let_def g'_def g2_def)
  have nx: "next_user g' = (next_user g)(p := next_user g u, u := ji_first_user (g_inst g inp))"
    using ok by (intro ext) (simp add: g'_def g2_def next_user_set)
  have fu: "ji_first_user (g_inst g' e) = (if e = inp then Some u else ji_first_user (g_inst g e))" for e
    by (simp add: g'_def g2_def)
  have same: "slot_ok g' v = slot_ok g v" for v by (simp add: g'_def g2_def)
  have "users_list g' e (moved_list inp u e xs)"
    if l: "users_list g e xs" and apart: "e \<noteq> d \<Longrightarrow> u \<notin> set xs \<and> p \<notin> set xs" for e xs
  proof -
    have old: "seg (next_user g') (ji_first_user (g_inst g e)) (filter (\<lambda>v. v \<noteq> u) xs) None"
    proof (cases "e = d")
      case True
      then have xs: "xs = as @ p # u # bs" using l chain seg_unique by (auto simp: users_list_def)
      then have "filter (\<lambda>v. v \<noteq> u) xs = as @ p # bs" using dist by (auto simp: filter_other)
      then show ?thesis using seg_skip [OF chain dist] True by (simp add: nx)
    next
      case False
      then have "u \<notin> set xs" "p \<notin> set xs" using apart by auto
      then have "filter (\<lambda>v. v \<noteq> u) xs = xs" by (simp add: filter_other)
      moreover have "seg (next_user g') (ji_first_user (g_inst g e)) xs None =
          seg (next_user g) (ji_first_user (g_inst g e)) xs None"
        by (rule seg_cong) (use \<open>u \<notin> set xs\<close> \<open>p \<notin> set xs\<close> nx in auto)
      ultimately show ?thesis using l by (simp add: users_list_def)
    qed
    moreover have "next_user g' u = ji_first_user (g_inst g inp)" by (simp add: nx)
    ultimately show ?thesis
      using l ok by (auto simp: users_list_def moved_list_def fu same)
  qed
  with run show thesis by (intro that [of g']) (simp_all add: same, simp add: g'_def g2_def)
qed

text \<open>
  Giving another value to an input that is in use moves its slot from the list of the old
  definition to the head of the list of the new one, and the lists stay consistent, provided the
  slot is not the first of its list.
\<close>

theorem set_input_moves_use:
  assumes "consistent UNIV X g" and "slot_ok g (i, k)" "i \<notin> X"
    and "ji_inputs (g_inst g i) ! k = Some d" and "ji_first_user (g_inst g d) \<noteq> Some (i, k)"
  shows "\<exists>g'. SetInput i k inp g = Inr g' \<and> consistent UNIV X g' \<and>
    (\<forall>u. input_at g' u = (if u = (i, k) then Some inp else input_at g u))"
proof -
  let ?u = "(i, k)"
  have ind: "input_at g ?u = Some d" using assms(4) by (simp add: input_at_def)
  from consistentE [OF assms(1) UNIV_I, of d] obtain xs where xs: "users_list g d xs"
    "\<And>u. u \<in> set xs \<longleftrightarrow> slot_ok g u \<and> fst u \<notin> X \<and> input_at g u = Some d" by blast
  have "?u \<in> set xs" using xs(2) ind assms(2,3) by simp
  then obtain cs bs where cs: "xs = cs @ ?u # bs" by (auto simp: in_set_conv_decomp)
  have "cs \<noteq> []" using assms(5) xs(1) cs by (auto simp: users_list_def)
  then obtain as p where "cs = as @ [p]" by (cases cs rule: rev_cases) auto
  with cs have split: "xs = as @ p # ?u # bs" by simp
  obtain g1 where g1: "ReplaceUserWith ?u inp g = Inr g1"
    "\<And>v. slot_ok g1 v = slot_ok g v" "\<And>v. input_at g1 v = input_at g v"
    "\<And>e ys. users_list g e ys \<Longrightarrow> (e \<noteq> d \<Longrightarrow> ?u \<notin> set ys \<and> p \<notin> set ys) \<Longrightarrow> users_list g1 e (moved_list inp ?u e ys)"
    using ReplaceUserWith_list [OF xs(1) [unfolded split] ind] by blast
  let ?g = "put_input i k inp g1"
  have inp: "input_at ?g u = (if u = ?u then Some inp else input_at g u)" for u
    using input_at_put [of g1 i k inp u] g1(2,3) assms(2) by simp
  have keep: "users_list ?g e ys = users_list g1 e ys" for e ys
    by (simp add: users_list_def) (metis ext next_user_upd(2))
  have "consistent UNIV X ?g"
    unfolding consistent_def
  proof
    fix e
    from consistentE [OF assms(1) UNIV_I, of e] obtain ys where ys: "users_list g e ys"
      "\<And>u. u \<in> set ys \<longleftrightarrow> slot_ok g u \<and> fst u \<notin> X \<and> input_at g u = Some e" by blast
    have "input_at g p = Some d" using xs(2) [of p] split by simp
    then have "?u \<notin> set ys \<and> p \<notin> set ys" if "e \<noteq> d"
      using ys(2) [of p] ys(2) [of ?u] that ind by auto
    from g1(4) [OF ys(1), OF this] show "\<exists>zs. users_list ?g e zs \<and>
        (\<forall>u. u \<in> set zs \<longleftrightarrow> slot_ok ?g u \<and> fst u \<notin> X \<and> input_at ?g u = Some e)"
      unfolding inp using ys(2) assms(2,3)
      by (intro exI [of _ "moved_list inp ?u e ys"]) (auto simp: keep g1(2) moved_list_def)
  qed
  moreover have "SetInput i k inp g = Inr ?g"
    using assms(2,4) g1(1) by (simp add: SetInput_def slot_ok_def)
  ultimately show ?thesis using inp by blast
qed

text \<open>
  C17: For the first slot of the list of a definition the same operation reads through a null
  pointer: \<open>ReplaceUserWith\<close> asserts on \<open>prev\<close> after it has found it to be null.
\<close>

theorem set_input_of_head_use_fails:
  assumes "slot_ok g (i, k)" and "ji_inputs (g_inst g i) ! k = Some d"
    and "ji_first_user (g_inst g d) = Some (i, k)"
  shows "SetInput i k inp g = Inl Undefined"
  using assms GetInput_at [OF assms(1)]
  by (simp add: SetInput_def slot_ok_def ReplaceUserWith_def GetPrev_def deref_def input_at_def Let_def)

subsection \<open>Removing and redirecting uses\<close>

lemma RemoveUser_list:
  assumes d: "users_list g d xs" and u: "u \<in> set xs"
  obtains g' where "RemoveUser d u g = Inr g'"
    "\<And>v. slot_ok g' v = slot_ok g v" "\<And>v. input_at g' v = input_at g v"
    "\<And>e ys. users_list g e ys \<Longrightarrow> (e \<noteq> d \<Longrightarrow> set ys \<inter> set xs = {}) \<Longrightarrow>
       users_list g' e (filter (\<lambda>v. v \<noteq> u) ys)"
proof -
  let ?f = "ji_first_user (g_inst g d)"
  from u obtain cs bs where xs: "xs = cs @ u # bs" by (auto simp: in_set_conv_decomp)
  have chain: "seg (next_user g) ?f xs None" and dist: "distinct xs" and ok: "\<forall>v \<in> set xs. slot_ok g v"
    using d by (auto simp: users_list_def)
  have only: "users_list g d ys \<Longrightarrow> ys = xs" for ys
    using chain by (auto simp: users_list_def intro: seg_unique)
  show thesis
  proof (cases cs rule: rev_cases)
    case Nil
    let ?g = "set_first_user d (next_user g u) g"
    have first: "?f = Some u" using chain xs Nil by simp
    have nx: "next_user ?g = next_user g" by (rule ext) simp
    show thesis
    proof (rule that [of ?g])
      show "RemoveUser d u g = Inr ?g" using first by (simp add: RemoveUser_def)
      fix e ys assume l: "users_list g e ys" and apart: "e \<noteq> d \<Longrightarrow> set ys \<inter> set xs = {}"
      show "users_list ?g e (filter (\<lambda>v. v \<noteq> u) ys)"
      proof (cases "e = d")
        case True
        then have "ys = u # bs" using only l xs Nil by simp
        moreover have "filter (\<lambda>v. v \<noteq> u) bs = bs" using dist xs Nil by (simp add: filter_other)
        ultimately show ?thesis using l True by (auto simp: users_list_def nx)
      next
        case False
        then have "u \<notin> set ys" using apart u by auto
        then show ?thesis using l False by (simp add: users_list_def nx filter_other)
      qed
    qed simp_all
  next
    case (snoc as p)
    let ?g = "set_next_user p (next_user g u) g"
    have split: "xs = as @ p # u # bs" using xs snoc by simp
    have p: "slot_ok g p" using ok split by simp
    have nx: "next_user ?g = (next_user g)(p := next_user g u)" by (rule next_user_set [OF p])
    have "length xs \<le> slot_count g" by (rule slots_bound [OF dist ok])
    then have "FindAndRemoveFromChain (Suc (slot_count g)) u ?f g = Inr ?g"
      using find_chain_spec [of g ?f as p u bs None "Suc (slot_count g)"] chain dist split by simp
    moreover have "?f \<noteq> Some u" using chain split dist by (cases as) auto
    ultimately have run: "RemoveUser d u g = Inr ?g" by (simp add: RemoveUser_def)
    show thesis
    proof (rule that [OF run])
      fix e ys assume l: "users_list g e ys" and apart: "e \<noteq> d \<Longrightarrow> set ys \<inter> set xs = {}"
      show "users_list ?g e (filter (\<lambda>v. v \<noteq> u) ys)"
      proof (cases "e = d")
        case True
        then have ys: "ys = as @ p # u # bs" using only l split by simp
        have f: "filter (\<lambda>v. v \<noteq> u) ys = as @ p # bs" using dist split ys by (auto simp: filter_other)
        have "seg ((next_user g)(p := next_user g u, u := next_user g u)) ?f (as @ p # bs) None"
          by (rule seg_skip) (use chain dist split in simp_all)
        then have "seg (next_user ?g) ?f (as @ p # bs) None" by (simp add: nx fun_upd_idem)
        then show ?thesis using l True f by (auto simp: users_list_def ys)
      next
        case False
        then have no: "u \<notin> set ys" "p \<notin> set ys" using apart split by auto
        have "seg (next_user ?g) q ys None = seg (next_user g) q ys None" for q
          by (rule seg_cong) (use no nx in auto)
        then show ?thesis using l no by (simp add: users_list_def filter_other)
      qed
    qed simp_all
  qed
qed

lemma redirect_users_spec:
  assumes "seg (next_user g) p xs None" "distinct xs" "length xs < n"
    and "\<And>v. v \<in> set xs \<Longrightarrow> slot_ok g v \<and> input_at g v \<noteq> Some (fst v)"
  shows "\<exists>g'. redirect_users n new p prev g = Inr (if xs = [] then prev else Some (last xs), g') \<and>
    (\<forall>v. slot_ok g' v = slot_ok g v) \<and> next_user g' = next_user g \<and> slot_count g' = slot_count g \<and>
    (\<forall>d. ji_first_user (g_inst g' d) = ji_first_user (g_inst g d)) \<and>
    (\<forall>v. input_at g' v = (if v \<in> set xs then Some new else input_at g v))"
  using assms
proof (induction xs arbitrary: n p prev g)
  case Nil
  then show ?case by (cases n) auto
next
  case (Cons x xs)
  obtain m where n: "n = Suc m" using Cons.prems(3) by (cases n) auto
  let ?g = "put_input (fst x) (snd x) new g"
  have ok: "slot_ok g x" and ne: "input_at g x \<noteq> Some (fst x)" using Cons.prems(4) by simp_all
  have inp: "input_at ?g v = (if v = x then Some new else input_at g v)" for v
    using input_at_put [of g "fst x" "snd x" new v] ok by simp
  have nx: "next_user ?g = next_user g" by (rule ext) simp
  have one: "User_SetInput x new g = Inr ?g"
    using GetInput_at [OF ok] ne by (simp add: User_SetInput_def)
  have "\<exists>g'. redirect_users m new (next_user ?g x) (Some x) ?g =
      Inr (if xs = [] then Some x else Some (last xs), g') \<and>
    (\<forall>v. slot_ok g' v = slot_ok ?g v) \<and> next_user g' = next_user ?g \<and> slot_count g' = slot_count ?g \<and>
    (\<forall>d. ji_first_user (g_inst g' d) = ji_first_user (g_inst ?g d)) \<and>
    (\<forall>v. input_at g' v = (if v \<in> set xs then Some new else input_at ?g v))"
  proof (rule Cons.IH)
    show "seg (next_user ?g) (next_user ?g x) xs None" using Cons.prems(1) by (simp add: nx)
    show "distinct xs" "length xs < m" using Cons.prems(2,3) n by auto
    fix v assume "v \<in> set xs"
    then show "slot_ok ?g v \<and> input_at ?g v \<noteq> Some (fst v)"
      using Cons.prems(2,4) by (auto simp: inp)
  qed
  moreover have "p = Some x" using Cons.prems(1) by simp
  ultimately show ?case using one inp nx by (auto simp: n)
qed

text \<open>The same with a set of slots that are not in the lists, for the loops that empty them one by one.\<close>

definition uses_ok :: "nat set \<Rightarrow> slot set \<Rightarrow> 'g graph_scheme \<Rightarrow> bool" where
  "uses_ok D S g \<longleftrightarrow> (\<forall>d \<in> D. \<exists>xs. users_list g d xs \<and>
     (\<forall>u. u \<in> set xs \<longleftrightarrow> slot_ok g u \<and> u \<notin> S \<and> input_at g u = Some d))"

lemma uses_okE:
  assumes "uses_ok D S g" "d \<in> D"
  obtains xs where "users_list g d xs" "\<And>u. u \<in> set xs \<longleftrightarrow> slot_ok g u \<and> u \<notin> S \<and> input_at g u = Some d"
  using assms by (auto simp: uses_ok_def)

lemma consistent_uses_ok: "consistent D X g \<longleftrightarrow> uses_ok D {u. fst u \<in> X} g"
  by (simp add: consistent_def uses_ok_def)

lemma ReplaceUsersTo_uses:
  assumes "uses_ok D S g" and "old \<in> D" and "old \<noteq> new"
    and "\<forall>k. slot_ok g (old, k) \<longrightarrow> (old, k) \<notin> S \<longrightarrow> input_at g (old, k) \<noteq> Some old"
  shows "\<exists>g'. ReplaceUsersTo old new g = Inr g' \<and> uses_ok (D - {old}) S g' \<and> (\<forall>u. slot_ok g' u = slot_ok g u) \<and>
    (\<forall>u. input_at g' u = (if slot_ok g u \<and> u \<notin> S \<and> input_at g u = Some old then Some new else input_at g u))"
proof -
  from uses_okE [OF assms(1,2)] obtain xs where xs: "users_list g old xs"
    "\<And>u. u \<in> set xs \<longleftrightarrow> slot_ok g u \<and> u \<notin> S \<and> input_at g u = Some old" by blast
  let ?f = "ji_first_user (g_inst g old)"
  have chain: "seg (next_user g) ?f xs None" and dist: "distinct xs" and ok: "\<forall>u \<in> set xs. slot_ok g u"
    using xs(1) by (auto simp: users_list_def)
  have nself: "slot_ok g v \<and> input_at g v \<noteq> Some (fst v)" if "v \<in> set xs" for v
    using xs(2) [of v] assms(4) that by (cases v) auto
  have bound: "length xs < Suc (slot_count g)" using slots_bound [OF dist ok] by simp
  from redirect_users_spec [OF chain dist bound nself, of new None] obtain g1 where
    g1: "redirect_users (Suc (slot_count g)) new ?f None g = Inr (if xs = [] then None else Some (last xs), g1)"
      "\<And>v. slot_ok g1 v = slot_ok g v" "next_user g1 = next_user g"
      "\<And>d. ji_first_user (g_inst g1 d) = ji_first_user (g_inst g d)"
      "\<And>v. input_at g1 v = (if v \<in> set xs then Some new else input_at g v)"
    by blast
  have inp: "input_at g1 u = (if slot_ok g u \<and> u \<notin> S \<and> input_at g u = Some old then Some new else input_at g u)" for u
    using g1(5) [of u] xs(2) [of u] by simp
  show ?thesis
  proof (cases "xs = []")
    case True
    have "uses_ok (D - {old}) S g1"
      using assms(1) unfolding uses_ok_def users_list_def g1(2-4) by (simp add: g1(5) True)
    moreover have "ReplaceUsersTo old new g = Inr g1" using g1(1) True by (simp add: ReplaceUsersTo_def)
    ultimately show ?thesis using inp g1(2) by blast
  next
    case False
    then obtain ys l where ys: "xs = ys @ [l]" by (cases xs rule: rev_cases) auto
    let ?h = "ji_first_user (g_inst g new)"
    define g' where "g' = set_first_user new ?f (set_next_user l ?h g1)"
    have l: "slot_ok g1 l" using ok ys g1(2) by simp
    have last: "next_user g l = None" using chain ys by (auto simp: seg_append)
    have run: "ReplaceUsersTo old new g = Inr g'"
      using g1(1) ys last by (simp add: ReplaceUsersTo_def g1(3,4) g'_def)
    have nx: "next_user g' = (next_user g)(l := ?h)"
      by (rule ext) (simp add: g'_def next_user_set [OF l] g1(3))
    have fu: "ji_first_user (g_inst g' d) = (if d = new then ?f else ji_first_user (g_inst g d))" for d
      by (simp add: g'_def g1(4))
    have same: "slot_ok g' v = slot_ok g v" "input_at g' v = input_at g1 v" for v
      by (simp_all add: g'_def g1(2))
    have "\<exists>zs. users_list g' d zs \<and> (\<forall>u. u \<in> set zs \<longleftrightarrow> slot_ok g' u \<and> u \<notin> S \<and> input_at g' u = Some d)"
      if d: "d \<in> D" "d \<noteq> old" for d
    proof -
      from uses_okE [OF assms(1) d(1)] obtain ds where ds: "users_list g d ds"
        "\<And>u. u \<in> set ds \<longleftrightarrow> slot_ok g u \<and> u \<notin> S \<and> input_at g u = Some d" by blast
      have apart: "set ds \<inter> set xs = {}" using ds(2) xs(2) d(2) by auto
      have cds: "seg (next_user g') q ds None = seg (next_user g) q ds None" for q
        by (rule seg_cong) (use apart ys nx in auto)
      let ?zs = "(if d = new then xs else []) @ ds"
      have "seg (next_user g') ?f xs ?h"
      proof -
        from chain ys obtain r where r: "seg (next_user g) ?f ys r" "r = Some l" by (auto simp: seg_append)
        have "seg (next_user g') ?f ys r = seg (next_user g) ?f ys r"
          by (rule seg_cong) (use dist ys nx in auto)
        then show ?thesis using r ys nx by (auto simp: seg_append)
      qed
      then have "users_list g' d ?zs"
        using ds(1) xs(1) apart cds by (auto simp: users_list_def fu same seg_append)
      moreover have "u \<in> set ?zs \<longleftrightarrow> slot_ok g' u \<and> u \<notin> S \<and> input_at g' u = Some d" for u
        using xs(2) ds(2) assms(3) d(2) by (auto simp: same g1(5))
      ultimately show ?thesis by blast
    qed
    then have "uses_ok (D - {old}) S g'" by (simp add: uses_ok_def)
    then show ?thesis using run inp same by (intro exI [of _ g']) simp
  qed
qed

text \<open>
  C14: \<open>ReplaceUsersTo\<close> makes every input that referred to the old instruction refer to the new one
  and hands its whole list over, so that the lists of all other definitions stay consistent.
\<close>

theorem replace_users_redirects:
  assumes "consistent UNIV X g" and "old \<noteq> new"
    and "\<forall>k. slot_ok g (old, k) \<longrightarrow> input_at g (old, k) \<noteq> Some old"
  shows "\<exists>g'. ReplaceUsersTo old new g = Inr g' \<and> consistent (- {old}) X g' \<and>
    (\<forall>u. slot_ok g u \<and> fst u \<notin> X \<longrightarrow>
       input_at g' u = (if input_at g u = Some old then Some new else input_at g u))"
  using ReplaceUsersTo_uses [of UNIV "{u. fst u \<in> X}" g old new] assms
  by (auto simp: consistent_uses_ok Compl_eq_Diff_UNIV)

subsection \<open>A graph\<close>

text \<open>\<open>v0 = CONST; v1 = CONST; v2 = SUB v0 v0; RETURN v2\<close> and an ADD that is not used yet.\<close>

definition demo_graph :: graph where
  "demo_graph =
     \<lparr>g_inst = (\<lambda>_. new_inst JCONST 0 INT64 7)
        (0 := (new_inst JCONST 0 INT64 7)\<lparr>ji_first_user := Some (2, 1), ji_bb := Some 1, ji_next := Some 1\<rparr>,
         1 := (new_inst JCONST 0 INT64 7)\<lparr>ji_bb := Some 1, ji_prev := Some 0, ji_next := Some 2\<rparr>,
         2 := (new_inst JSUB 2 INT64 0)\<lparr>ji_first_user := Some (3, 0), ji_bb := Some 1, ji_prev := Some 1,
                ji_next := Some 3, ji_inputs := [Some 0, Some 0], ji_users := [None, Some (2, 0)]\<rparr>,
         3 := (new_inst JRETURN 1 INT64 0)\<lparr>ji_bb := Some 1, ji_prev := Some 2, ji_inputs := [Some 2]\<rparr>,
         4 := new_inst JADD 2 INT64 0),
      g_insts_count = 5,
      g_bb = (\<lambda>_. new_bb)(1 := new_bb\<lparr>bb_first_inst := Some 0, bb_last_inst := Some 3, bb_succs := [0]\<rparr>,
                          0 := new_bb\<lparr>bb_preds := [1]\<rparr>),
      g_bbs_count = 2\<rparr>"

lemma demo_slots: "slot_ok demo_graph (i, k) \<longleftrightarrow> i = 2 \<and> k < 2 \<or> i = 3 \<and> k = 0 \<or> i = 4 \<and> k < 2"
  by (auto simp: slot_ok_def demo_graph_def new_inst_def less_Suc_eq)

lemma demo_inputs:
  "input_at demo_graph (2, 0) = Some 0" "input_at demo_graph (2, Suc 0) = Some 0"
  "input_at demo_graph (3, 0) = Some 2" "input_at demo_graph (4, 0) = None" "input_at demo_graph (4, Suc 0) = None"
  by (simp_all add: input_at_def demo_graph_def new_inst_def)

lemma demo_consistent: "consistent UNIV {} demo_graph"
  unfolding consistent_def
proof
  fix d :: nat
  let ?xs = "if d = 0 then [(2, 1), (2, 0)] else if d = 2 then [(3, 0)] else []"
  have "users_list demo_graph d ?xs"
    by (simp add: users_list_def demo_slots) (simp add: demo_graph_def next_user_def new_inst_def)
  moreover have "u \<in> set ?xs \<longleftrightarrow> slot_ok demo_graph u \<and> fst u \<notin> {} \<and> input_at demo_graph u = Some d" for u
    by (cases u) (auto simp: demo_slots demo_inputs less_2_cases_iff)
  ultimately show "\<exists>xs. users_list demo_graph d xs \<and>
      (\<forall>u. u \<in> set xs \<longleftrightarrow> slot_ok demo_graph u \<and> fst u \<notin> {} \<and> input_at demo_graph u = Some d)" by blast
qed

theorem set_input_keeps_lists_witness:
  "\<exists>g'. SetInput 4 0 2 demo_graph = Inr g' \<and> consistent UNIV {} g' \<and>
    (\<forall>u. input_at g' u = (if u = (4, 0) then Some 2 else input_at demo_graph u))"
  by (rule set_input_keeps_lists [OF demo_consistent])
    (simp_all add: demo_slots, simp_all add: demo_graph_def new_inst_def next_user_def)

theorem set_input_moves_use_witness:
  "\<exists>g'. SetInput 2 0 1 demo_graph = Inr g' \<and> consistent UNIV {} g' \<and>
    (\<forall>u. input_at g' u = (if u = (2, 0) then Some 1 else input_at demo_graph u))"
  by (rule set_input_moves_use [OF demo_consistent, where d = 0])
    (simp_all add: demo_slots, simp_all add: demo_graph_def new_inst_def)

theorem set_input_of_head_use_fails_witness: "SetInput 2 1 1 demo_graph = Inl Undefined"
  by (rule set_input_of_head_use_fails [where d = 0])
    (simp_all add: demo_slots, simp_all add: demo_graph_def new_inst_def)

theorem replace_users_redirects_witness:
  "\<exists>g'. ReplaceUsersTo 0 1 demo_graph = Inr g' \<and> consistent (- {0}) {} g' \<and>
    (\<forall>u. slot_ok demo_graph u \<and> fst u \<notin> {} \<longrightarrow>
       input_at g' u = (if input_at demo_graph u = Some 0 then Some 1 else input_at demo_graph u))"
  by (rule replace_users_redirects [OF demo_consistent]) (simp_all add: demo_slots)

end
