(* ===== verification/Jit_Blocks.thy ===== *)
theory Jit_Blocks
  imports Jit_Users
begin

text \<open>
  Correctness of the instruction lists of the blocks (basic_block.h, graph.cpp).
  \<open>block_list g b xs\<close> says that the doubly linked list of the block \<open>b\<close>, read forwards from
  \<open>first_inst_\<close> and backwards from \<open>last_inst_\<close>, runs through the instructions \<open>xs\<close>, which all
  belong to \<open>b\<close> and are no phis.
\<close>

definition nx :: "'g graph_scheme \<Rightarrow> nat \<Rightarrow> nat option" where "nx g i = ji_next (g_inst g i)"
definition pv :: "'g graph_scheme \<Rightarrow> nat \<Rightarrow> nat option" where "pv g i = ji_prev (g_inst g i)"
definition bb_of :: "'g graph_scheme \<Rightarrow> nat \<Rightarrow> nat option" where "bb_of g i = ji_bb (g_inst g i)"

lemma links_upd:
  "nx (upd_inst i f g) = (nx g)(i := ji_next (f (g_inst g i)))"
  "pv (upd_inst i f g) = (pv g)(i := ji_prev (f (g_inst g i)))"
  "bb_of (upd_inst i f g) = (bb_of g)(i := ji_bb (f (g_inst g i)))"
  "nx (upd_bb b h g) = nx g" "pv (upd_bb b h g) = pv g" "bb_of (upd_bb b h g) = bb_of g"
  by (auto simp: nx_def pv_def bb_of_def upd_inst_def upd_bb_def fun_eq_iff)

lemma g_bb_upd [simp]:
  "g_bb (upd_inst i f g) = g_bb g" "g_bb (upd_bb b h g) = (g_bb g)(b := h (g_bb g b))"
  "g_inst (upd_bb b h g) = g_inst g" "g_inst (upd_inst i f g) = (g_inst g)(i := f (g_inst g i))"
  "g_insts_count (upd_inst i f g) = g_insts_count g" "g_insts_count (upd_bb b h g) = g_insts_count g"
  by (simp_all add: upd_inst_def upd_bb_def)

lemma phi_upd: "ji_opcode (f (g_inst g i)) = ji_opcode (g_inst g i) \<Longrightarrow> IsPhi (upd_inst i f g) = IsPhi g"
  "IsPhi (upd_bb b h g) = IsPhi g"
  by (auto simp: IsPhi_def fun_eq_iff)

definition block_list :: "'g graph_scheme \<Rightarrow> nat \<Rightarrow> nat list \<Rightarrow> bool" where
  "block_list g b xs \<longleftrightarrow>
     seg (nx g) (bb_first_inst (g_bb g b)) xs None \<and> seg (pv g) (bb_last_inst (g_bb g b)) (rev xs) None \<and>
     distinct xs \<and> (\<forall>i \<in> set xs. bb_of g i = Some b \<and> \<not> IsPhi g i)"

lemma block_listD:
  assumes "block_list g b xs"
  shows "seg (nx g) (bb_first_inst (g_bb g b)) xs None" "seg (pv g) (bb_last_inst (g_bb g b)) (rev xs) None"
    "distinct xs" "i \<in> set xs \<Longrightarrow> bb_of g i = Some b" "i \<in> set xs \<Longrightarrow> \<not> IsPhi g i"
  using assms by (auto simp: block_list_def)

text \<open>An instruction that is in no block.\<close>

definition detached :: "'g graph_scheme \<Rightarrow> nat \<Rightarrow> bool" where
  "detached g i \<longleftrightarrow> bb_of g i = None \<and> nx g i = None \<and> pv g i = None \<and> \<not> IsPhi g i"

text \<open>A block keeps its list when neither it nor its instructions change.\<close>

lemma block_list_frame:
  assumes "block_list g c ys" "g_bb h c = g_bb g c"
    and "\<And>j. j \<in> set ys \<Longrightarrow> nx h j = nx g j \<and> pv h j = pv g j \<and> bb_of h j = bb_of g j \<and> IsPhi h j = IsPhi g j"
  shows "block_list h c ys"
proof -
  have "seg (nx h) p ys None = seg (nx g) p ys None" "seg (pv h) p (rev ys) None = seg (pv g) p (rev ys) None" for p
    by (rule seg_cong; use assms(3) in simp)+
  then show ?thesis using assms by (auto simp: block_list_def)
qed

lemma seg_upd_notin: "x \<notin> set xs \<Longrightarrow> seg (n(x := v)) p xs q = seg n p xs q"
  by (rule seg_cong) auto

lemma seg_Cons_iff: "seg n p xs None \<Longrightarrow> p = None \<longleftrightarrow> xs = []"
  by (cases xs) auto

subsection \<open>Insertion at the end\<close>

text \<open>
  \<open>PushBack\<close> appends an instruction that is in no block to the list of the block, forwards and
  backwards, and leaves the lists of all other blocks as they are.
\<close>

theorem push_back_appends:
  assumes "block_list g b xs" and "detached g i"
  shows "\<exists>h. PushBack b i g = Inr h \<and> block_list h b (xs @ [i]) \<and>
    (\<forall>c ys. c \<noteq> b \<longrightarrow> block_list g c ys \<longrightarrow> block_list h c ys)"
proof (cases xs rule: rev_cases)
  case Nil
  let ?h = "upd_inst i (\<lambda>x. x\<lparr>ji_bb := Some b\<rparr>) (upd_bb b (\<lambda>x. x\<lparr>bb_first_inst := Some i, bb_last_inst := Some i\<rparr>) g)"
  have "PushBack b i g = Inr ?h"
    using assms Nil by (simp add: PushBack_def detached_def block_list_def bb_of_def)
  moreover have "block_list ?h b (xs @ [i])"
    using assms Nil by (simp add: block_list_def detached_def links_upd phi_upd) (simp add: nx_def pv_def)
  moreover have "block_list ?h c ys" if "c \<noteq> b" "block_list g c ys" for c ys
  proof (rule block_list_frame [OF that(2)])
    fix j assume "j \<in> set ys"
    then have "j \<noteq> i" using block_listD(4) [OF that(2)] assms(2) by (auto simp: detached_def)
    then show "nx ?h j = nx g j \<and> pv ?h j = pv g j \<and> bb_of ?h j = bb_of g j \<and> IsPhi ?h j = IsPhi g j"
      by (simp add: links_upd phi_upd)
  qed (use that(1) in simp)
  ultimately show ?thesis by blast
next
  case (snoc ys l)
  let ?h = "upd_inst i (\<lambda>x. x\<lparr>ji_prev := Some l, ji_bb := Some b\<rparr>)
    (upd_bb b (\<lambda>x. x\<lparr>bb_last_inst := Some i\<rparr>) (upd_inst l (\<lambda>x. x\<lparr>ji_next := Some i\<rparr>) g))"
  note l = block_listD [OF assms(1)]
  have ends: "bb_last_inst (g_bb g b) = Some l" "bb_first_inst (g_bb g b) \<noteq> None"
    using l(1,2) snoc seg_Cons_iff [OF l(1)] by auto
  have run: "PushBack b i g = Inr ?h"
    using assms(2) ends by (auto simp: PushBack_def detached_def bb_of_def set_next_def deref_def)
  have fresh: "i \<notin> set xs" using l(4) [of i] assms(2) by (auto simp: detached_def)
  then have il: "i \<noteq> l" "i \<notin> set ys" "l \<notin> set ys" using snoc l(3) by auto
  have lin: "nx ?h = (nx g)(l := Some i)" "pv ?h = (pv g)(i := Some l)" "bb_of ?h = (bb_of g)(i := Some b)"
    using il by (auto simp: links_upd fun_eq_iff nx_def pv_def bb_of_def)
  have phi: "IsPhi ?h = IsPhi g" by (simp add: phi_upd)
  have "seg (nx ?h) (bb_first_inst (g_bb ?h b)) (xs @ [i]) None"
  proof -
    from l(1) snoc have "seg (nx g) (bb_first_inst (g_bb g b)) ys (Some l)" by (auto simp: seg_append)
    then have "seg (nx ?h) (bb_first_inst (g_bb g b)) ys (Some l)" using il by (simp add: lin(1) seg_upd_notin)
    then show ?thesis using snoc il assms(2) by (auto simp: seg_append lin(1) detached_def)
  qed
  moreover have "seg (pv ?h) (bb_last_inst (g_bb ?h b)) (rev (xs @ [i])) None"
    using l(2) ends fresh by (simp add: lin(2) seg_upd_notin)
  ultimately have "block_list ?h b (xs @ [i])"
    using l(3-5) fresh assms(2) by (auto simp: block_list_def lin(3) phi detached_def)
  moreover have "block_list ?h c zs" if "c \<noteq> b" "block_list g c zs" for c zs
  proof (rule block_list_frame [OF that(2)])
    fix j assume j: "j \<in> set zs"
    then have "j \<noteq> i" "j \<noteq> l"
      using block_listD(4) [OF that(2)] assms(2) that(1) l(4) [of l] snoc by (auto simp: detached_def)
    then show "nx ?h j = nx g j \<and> pv ?h j = pv g j \<and> bb_of ?h j = bb_of g j \<and> IsPhi ?h j = IsPhi g j"
      by (simp add: lin phi)
  qed (use that(1) in simp)
  ultimately show ?thesis using run by blast
qed

subsection \<open>Removal\<close>

text \<open>The neighbours of an element: null at an end of the list.\<close>

definition before :: "nat list \<Rightarrow> nat option" where
  "before xs = (if xs = [] then None else Some (last xs))"

definition after :: "nat list \<Rightarrow> nat option" where
  "after ys = (if ys = [] then None else Some (hd ys))"

lemma before_simps [simp]: "before [] = None" "before (xs @ [p]) = Some p" "before xs = None \<longleftrightarrow> xs = []"
  by (auto simp: before_def)

lemma after_simps [simp]: "after [] = None" "after (q # ys) = Some q" "after ys = None \<longleftrightarrow> ys = []"
  by (auto simp: after_def)

lemma seg_after: "seg n p ys None \<Longrightarrow> p = after ys"
  by (cases ys) auto

lemma seg_before: "seg n p (rev xs) None \<Longrightarrow> p = before xs"
  by (cases xs rule: rev_cases) auto

text \<open>The links around an element of a list.\<close>

lemma block_list_at:
  assumes "block_list g b (xs @ i # ys)"
  shows "nx g i = after ys" "pv g i = before xs" "bb_of g i = Some b" "\<not> IsPhi g i"
    "bb_first_inst (g_bb g b) = Some i \<longleftrightarrow> xs = []" "bb_last_inst (g_bb g b) = Some i \<longleftrightarrow> ys = []"
    "i \<notin> set xs" "i \<notin> set ys" "set xs \<inter> set ys = {}" "distinct xs" "distinct ys"
proof -
  note l = block_listD [OF assms]
  show "i \<notin> set xs" "i \<notin> set ys" "set xs \<inter> set ys = {}" "distinct xs" "distinct ys" using l(3) by auto
  show "bb_of g i = Some b" "\<not> IsPhi g i" using l(4,5) [of i] by auto
  from l(1) have f: "seg (nx g) (bb_first_inst (g_bb g b)) xs (Some i)" "seg (nx g) (nx g i) ys None"
    by (auto simp: seg_append)
  from l(2) have r: "seg (pv g) (bb_last_inst (g_bb g b)) (rev ys) (Some i)" "seg (pv g) (pv g i) (rev xs) None"
    by (auto simp: seg_append)
  show "nx g i = after ys" "pv g i = before xs" using seg_after [OF f(2)] seg_before [OF r(2)] by auto
  show "bb_first_inst (g_bb g b) = Some i \<longleftrightarrow> xs = []"
    using f(1) \<open>i \<notin> set xs\<close> by (cases xs) auto
  show "bb_last_inst (g_bb g b) = Some i \<longleftrightarrow> ys = []"
    using r(1) \<open>i \<notin> set ys\<close> by (cases ys rule: rev_cases) auto
qed

text \<open>
  Relinking: \<open>zs\<close> is put between \<open>xs\<close> and \<open>ys\<close> by changing only the links of the neighbours.
\<close>

definition relinked :: "'g graph_scheme \<Rightarrow> 'g graph_scheme \<Rightarrow> nat \<Rightarrow> nat list \<Rightarrow> nat list \<Rightarrow> nat option \<Rightarrow> nat option \<Rightarrow> bool" where
  "relinked g h b xs ys f l \<longleftrightarrow>
     (\<forall>j \<in> set xs. nx h j = (if Some j = before xs then f else nx g j) \<and> pv h j = pv g j) \<and>
     (\<forall>j \<in> set ys. pv h j = (if Some j = after ys then l else pv g j) \<and> nx h j = nx g j) \<and>
     bb_first_inst (g_bb h b) = (if xs = [] then f else bb_first_inst (g_bb g b)) \<and>
     bb_last_inst (g_bb h b) = (if ys = [] then l else bb_last_inst (g_bb g b))"

lemma relinked_front:
  assumes "block_list g b (xs @ i # ys)" "relinked g h b xs ys f l"
  shows "seg (nx h) (bb_first_inst (g_bb h b)) xs f" "seg (pv h) (before xs) (rev xs) None"
proof -
  note l = block_listD [OF assms(1)] and at = block_list_at [OF assms(1)]
  have r: "seg (pv g) (before xs) (rev xs) None" using l(2) at(2) by (auto simp: seg_append)
  have "seg (pv h) (before xs) (rev xs) None = seg (pv g) (before xs) (rev xs) None"
    by (rule seg_cong) (use assms(2) in \<open>auto simp: relinked_def\<close>)
  then show "seg (pv h) (before xs) (rev xs) None" using r by simp
  show "seg (nx h) (bb_first_inst (g_bb h b)) xs f"
  proof (cases xs rule: rev_cases)
    case Nil
    then show ?thesis using assms(2) by (simp add: relinked_def)
  next
    case (snoc as p)
    have s: "seg (nx g) (bb_first_inst (g_bb g b)) as (Some p)" using l(1) snoc by (auto simp: seg_append)
    have "seg (nx h) (bb_first_inst (g_bb g b)) as (Some p) = seg (nx g) (bb_first_inst (g_bb g b)) as (Some p)"
      by (rule seg_cong) (use assms(2) snoc at(10) in \<open>auto simp: relinked_def\<close>)
    then show ?thesis using s snoc assms(2) by (auto simp: relinked_def seg_append)
  qed
qed

lemma relinked_back:
  assumes "block_list g b (xs @ i # ys)" "relinked g h b xs ys f l"
  shows "seg (pv h) (bb_last_inst (g_bb h b)) (rev ys) l" "seg (nx h) (after ys) ys None"
proof -
  note bl = block_listD [OF assms(1)] and at = block_list_at [OF assms(1)]
  have r: "seg (nx g) (after ys) ys None" using bl(1) at(1) by (auto simp: seg_append)
  have "seg (nx h) (after ys) ys None = seg (nx g) (after ys) ys None"
    by (rule seg_cong) (use assms(2) in \<open>auto simp: relinked_def\<close>)
  then show "seg (nx h) (after ys) ys None" using r by simp
  show "seg (pv h) (bb_last_inst (g_bb h b)) (rev ys) l"
  proof (cases ys)
    case Nil
    then show ?thesis using assms(2) by (simp add: relinked_def)
  next
    case (Cons q bs)
    have s: "seg (pv g) (bb_last_inst (g_bb g b)) (rev bs) (Some q)" using bl(2) Cons by (auto simp: seg_append)
    have "seg (pv h) (bb_last_inst (g_bb g b)) (rev bs) (Some q) = seg (pv g) (bb_last_inst (g_bb g b)) (rev bs) (Some q)"
      by (rule seg_cong) (use assms(2) Cons at(11) in \<open>auto simp: relinked_def\<close>)
    then show ?thesis using s Cons assms(2) by (auto simp: relinked_def seg_append)
  qed
qed

text \<open>The list with the element \<open>i\<close> replaced by the chain \<open>zs\<close>.\<close>

lemma relinked_list:
  assumes "block_list g b (xs @ i # ys)" "relinked g h b xs ys (after (zs @ ys)) (before (xs @ zs))"
    and "seg (nx h) (after zs) zs (after ys)" "seg (pv h) (before zs) (rev zs) (before xs)"
    and "distinct zs" "set zs \<inter> set (xs @ ys) = {}"
    and "\<forall>j \<in> set (xs @ zs @ ys). bb_of h j = Some b \<and> \<not> IsPhi h j"
  shows "block_list h b (xs @ zs @ ys)"
proof -
  note f = relinked_front [OF assms(1,2)] and k = relinked_back [OF assms(1,2)]
  have "seg (nx h) (bb_first_inst (g_bb h b)) (xs @ zs @ ys) None"
  proof (cases zs)
    case Nil
    then show ?thesis using f(1) k(2) by (auto simp: seg_append)
  next
    case (Cons z as)
    then have "after (zs @ ys) = after zs" by simp
    then show ?thesis using f(1) k(2) assms(3) by (auto simp: seg_append simp del: after_simps)
  qed
  moreover have "seg (pv h) (bb_last_inst (g_bb h b)) (rev (xs @ zs @ ys)) None"
  proof (cases zs rule: rev_cases)
    case Nil
    then show ?thesis using f(2) k(1) by (auto simp: seg_append)
  next
    case (snoc as z)
    then have "before (xs @ zs) = before zs" by (simp add: before_def)
    then show ?thesis using f(2) k(1) assms(4) by (auto simp: seg_append simp del: before_simps)
  qed
  ultimately show ?thesis
    using block_list_at(9-11) [OF assms(1)] assms(5-7) by (auto simp: block_list_def)
qed

text \<open>What the removal of \<open>i\<close> has changed, written out.\<close>

lemma RemoveFromBB_run:
  assumes "block_list g b (xs @ i # ys)"
  obtains h where "RemoveFromBB i g = Inr h" "relinked g h b xs ys (after ys) (before xs)"
    "bb_of h = (bb_of g)(i := None)" "IsPhi h = IsPhi g" "\<And>c. c \<noteq> b \<Longrightarrow> g_bb h c = g_bb g c"
    "\<And>j. j \<notin> set (xs @ i # ys) \<Longrightarrow> nx h j = nx g j \<and> pv h j = pv g j"
proof -
  note at = block_list_at [OF assms] and l = block_listD [OF assms]
  define g1 where "g1 = (if xs = [] then upd_bb b (\<lambda>x. x\<lparr>bb_first_inst := after ys\<rparr>) g
    else upd_inst (last xs) (\<lambda>x. x\<lparr>ji_next := after ys\<rparr>) g)"
  define g2 where "g2 = (if ys = [] then upd_bb b (\<lambda>x. x\<lparr>bb_last_inst := before xs\<rparr>) g1
    else upd_inst (hd ys) (\<lambda>x. x\<lparr>ji_prev := before xs\<rparr>) g1)"
  have phi1: "IsPhi g1 = IsPhi g" by (simp add: g1_def phi_upd)
  have one: "(if bb_first_inst (g_bb g b) = Some i
      then guard (before xs = None) AssertFailed (SetFirstInst b (after ys) g)
      else set_next (before xs) (after ys) g) = Inr g1"
    using l(5) [of "hd ys"] at(5)
    by (cases ys) (auto simp: g1_def SetFirstInst_def set_next_def deref_def before_def)
  have last1: "bb_last_inst (g_bb g1 b) = bb_last_inst (g_bb g b)" by (simp add: g1_def)
  have two: "(if bb_last_inst (g_bb g1 b) = Some i
      then guard (after ys = None) AssertFailed (SetLastInst b (before xs) g1)
      else set_prev (after ys) (before xs) g1) = Inr g2"
    using l(5) [of "last xs"] at(6) last1 phi1
    by (cases xs rule: rev_cases) (auto simp: g2_def SetLastInst_def set_prev_def deref_def after_def)
  have run: "RemoveFromBB i g = Inr (unlink i g2)"
    using at(1-3) one two by (simp add: RemoveFromBB_def deref_def nx_def pv_def bb_of_def)
  have "relinked g (unlink i g2) b xs ys (after ys) (before xs)"
    using at(7-11)
    by (cases xs rule: rev_cases; cases ys)
      (auto simp: relinked_def unlink_def links_upd g1_def g2_def nx_def pv_def)
  moreover have "bb_of (unlink i g2) = (bb_of g)(i := None)"
    by (auto simp: unlink_def links_upd g1_def g2_def fun_eq_iff bb_of_def)
  moreover have "IsPhi (unlink i g2) = IsPhi g" by (simp add: unlink_def g2_def phi_upd phi1)
  moreover have "g_bb (unlink i g2) c = g_bb g c" if "c \<noteq> b" for c
    using that by (simp add: unlink_def g1_def g2_def)
  moreover have "nx (unlink i g2) j = nx g j \<and> pv (unlink i g2) j = pv g j" if "j \<notin> set (xs @ i # ys)" for j
  proof -
    have "j \<noteq> i" "xs \<noteq> [] \<Longrightarrow> j \<noteq> last xs" "ys \<noteq> [] \<Longrightarrow> j \<noteq> hd ys" using that by auto
    then show ?thesis by (auto simp: unlink_def links_upd g1_def g2_def)
  qed
  ultimately show thesis using run that by blast
qed

lemma RemoveFromBB_list:
  assumes "block_list g b (xs @ i # ys)"
  shows "\<exists>h. RemoveFromBB i g = Inr h \<and> block_list h b (xs @ ys) \<and> bb_of h = (bb_of g)(i := None) \<and> IsPhi h = IsPhi g \<and>
    (\<forall>c. c \<noteq> b \<longrightarrow> g_bb h c = g_bb g c) \<and> (\<forall>c zs. c \<noteq> b \<longrightarrow> block_list g c zs \<longrightarrow> block_list h c zs)"
proof -
  note at = block_list_at [OF assms] and l = block_listD [OF assms]
  from RemoveFromBB_run [OF assms] obtain h where h: "RemoveFromBB i g = Inr h"
    "relinked g h b xs ys (after ys) (before xs)" "bb_of h = (bb_of g)(i := None)" "IsPhi h = IsPhi g"
    "\<And>c. c \<noteq> b \<Longrightarrow> g_bb h c = g_bb g c"
    "\<And>j. j \<notin> set (xs @ i # ys) \<Longrightarrow> nx h j = nx g j \<and> pv h j = pv g j" by blast
  have "block_list h b (xs @ [] @ ys)"
    unfolding block_list_def
  proof (intro conjI)
    note f = relinked_front [OF assms h(2)] and k = relinked_back [OF assms h(2)]
    show "seg (nx h) (bb_first_inst (g_bb h b)) (xs @ [] @ ys) None" using f(1) k(2) by (auto simp: seg_append)
    show "seg (pv h) (bb_last_inst (g_bb h b)) (rev (xs @ [] @ ys)) None" using f(2) k(1) by (auto simp: seg_append)
    show "distinct (xs @ [] @ ys)" using at(9-11) by simp
    show "\<forall>j \<in> set (xs @ [] @ ys). bb_of h j = Some b \<and> \<not> IsPhi h j" using l(4,5) at(7,8) h(3,4) by auto
  qed
  moreover have "block_list h c zs" if "c \<noteq> b" "block_list g c zs" for c zs
  proof (rule block_list_frame [OF that(2) h(5) [OF that(1)]])
    fix j assume "j \<in> set zs"
    then have "j \<notin> set (xs @ i # ys)" using block_listD(4) [OF that(2)] l(4) that(1) by fastforce
    then show "nx h j = nx g j \<and> pv h j = pv g j \<and> bb_of h j = bb_of g j \<and> IsPhi h j = IsPhi g j"
      using h(3,4,6) by auto
  qed
  ultimately show ?thesis using h(1,3-5) by auto
qed

text \<open>
  C15: \<open>ReplaceInBB(nullptr)\<close> takes an instruction out of the list of its block, wherever it stands,
  and leaves the lists of all other blocks as they are.
\<close>

theorem remove_from_block:
  assumes "block_list g b (xs @ i # ys)"
  shows "\<exists>h. RemoveFromBB i g = Inr h \<and> block_list h b (xs @ ys) \<and> ji_bb (g_inst h i) = None \<and>
    (\<forall>c zs. c \<noteq> b \<longrightarrow> block_list g c zs \<longrightarrow> block_list h c zs)"
  using RemoveFromBB_list [OF assms] by (auto simp: bb_of_def fun_eq_iff)

subsection \<open>Insertion before an instruction, and replacement\<close>

lemma Prepend_list:
  assumes "block_list g b (xs @ i # ys)" and "detached g new"
  shows "xs \<noteq> [] \<Longrightarrow> \<exists>h. Prepend i new g = Inr h \<and> block_list h b (xs @ new # i # ys) \<and>
      (\<forall>c zs. c \<noteq> b \<longrightarrow> block_list g c zs \<longrightarrow> block_list h c zs)"
    and "xs = [] \<Longrightarrow> Prepend i new g = Inl Undefined"
proof -
  note at = block_list_at [OF assms(1)] and l = block_listD [OF assms(1)]
  have fresh: "new \<notin> set (xs @ i # ys)" using l(4) [of new] assms(2) by (auto simp: detached_def)
  have guards: "ji_bb (g_inst g new) = None" "ji_prev (g_inst g new) = None" "ji_next (g_inst g new) = None"
    using assms(2) by (auto simp: detached_def bb_of_def nx_def pv_def)
  have here: "ji_prev (g_inst g i) = before xs" "ji_bb (g_inst g i) = Some b"
    using at(2,3) by (simp_all add: pv_def bb_of_def)
  show "Prepend i new g = Inl Undefined" if "xs = []"
    using that guards here by (simp add: Prepend_def set_next_def deref_def)
  assume ne: "xs \<noteq> []"
  let ?g2 = "upd_inst i (\<lambda>x. x\<lparr>ji_prev := Some new\<rparr>)
    (upd_inst new (\<lambda>x. x\<lparr>ji_bb := Some b, ji_next := Some i, ji_prev := before xs\<rparr>) g)"
  define h where "h = upd_inst (last xs) (\<lambda>x. x\<lparr>ji_next := Some new\<rparr>) ?g2"
  have run: "Prepend i new g = Inr h"
    using guards here ne at(5) by (simp add: h_def Prepend_def set_next_def deref_def before_def)
  have lin: "last xs \<noteq> i" "last xs \<noteq> new" "i \<noteq> new" using ne at(7) fresh by auto
  have links: "nx h = (nx g)(new := Some i, last xs := Some new)" "pv h = (pv g)(new := before xs, i := Some new)"
    "bb_of h = (bb_of g)(new := Some b)"
    using lin by (auto simp: h_def links_upd fun_eq_iff nx_def pv_def bb_of_def)
  have phi: "IsPhi h = IsPhi g" by (simp add: h_def phi_upd)
  have same: "g_bb h = g_bb g" by (simp add: h_def)
  have "block_list h b (xs @ [new, i] @ ys)"
  proof (rule relinked_list [OF assms(1)])
    show "relinked g h b xs ys (after ([new, i] @ ys)) (before (xs @ [new, i]))"
    proof -
      obtain as p where xs: "xs = as @ [p]" using ne by (cases xs rule: rev_cases) auto
      have "pv g q = Some i" if "ys = q # bs" for q bs
        using block_list_at(2) [of g b "xs @ [i]" q bs] assms(1) that by simp
      then show ?thesis
        using fresh at(6-10) xs by (cases ys) (auto simp: relinked_def links same before_def)
    qed
    show "seg (nx h) (after [new, i]) [new, i] (after ys)" using lin at(1) by (simp add: links)
    show "seg (pv h) (before [new, i]) (rev [new, i]) (before xs)" using lin by (simp add: links before_def)
    show "distinct [new, i]" "set [new, i] \<inter> set (xs @ ys) = {}" using fresh at(7,8) by auto
    show "\<forall>j \<in> set (xs @ [new, i] @ ys). bb_of h j = Some b \<and> \<not> IsPhi h j"
      using l(4,5) assms(2) by (auto simp: links phi detached_def)
  qed
  moreover have "block_list h c zs" if "c \<noteq> b" "block_list g c zs" for c zs
  proof (rule block_list_frame [OF that(2)])
    fix j assume "j \<in> set zs"
    then have "j \<notin> set (xs @ i # ys)" "j \<noteq> new"
      using block_listD(4) [OF that(2)] l(4) that(1) assms(2) by (fastforce simp: detached_def)+
    then have "j \<noteq> new" "j \<noteq> i" "j \<noteq> last xs" using ne by auto
    then show "nx h j = nx g j \<and> pv h j = pv g j \<and> bb_of h j = bb_of g j \<and> IsPhi h j = IsPhi g j"
      by (simp add: links phi)
  qed (simp add: same)
  ultimately show "\<exists>h. Prepend i new g = Inr h \<and> block_list h b (xs @ new # i # ys) \<and>
      (\<forall>c zs. c \<noteq> b \<longrightarrow> block_list g c zs \<longrightarrow> block_list h c zs)" using run by auto
qed

text \<open>
  \<open>Prepend\<close> inserts an instruction that is in no block before an instruction that is not the
  first of its block; before the first one it writes through the null pointer \<open>prev_\<close>.
\<close>

theorem prepend_inserts:
  assumes "block_list g b (xs @ i # ys)" and "detached g new"
  shows "if xs = [] then Prepend i new g = Inl Undefined
    else \<exists>h. Prepend i new g = Inr h \<and> block_list h b (xs @ new # i # ys) \<and>
      (\<forall>c zs. c \<noteq> b \<longrightarrow> block_list g c zs \<longrightarrow> block_list h c zs)"
  using Prepend_list [OF assms] by simp

lemma ReplaceInBB_list:
  assumes "block_list g b (xs @ i # ys)" and "detached g new" and ne: "xs \<noteq> []" "ys \<noteq> []"
  shows "\<exists>h. ReplaceInBB i new g = Inr h \<and> block_list h b (xs @ new # ys) \<and> ji_bb (g_inst h i) = None \<and>
      (\<forall>c zs. c \<noteq> b \<longrightarrow> block_list g c zs \<longrightarrow> block_list h c zs)"
proof -
  note at = block_list_at [OF assms(1)] and l = block_listD [OF assms(1)]
  have fresh: "new \<notin> set (xs @ i # ys)" using l(4) [of new] assms(2) by (auto simp: detached_def)
  obtain as p where xs: "xs = as @ [p]" using ne by (cases xs rule: rev_cases) auto
  obtain q bs where ys: "ys = q # bs" using ne by (cases ys) auto
  have here: "ji_prev (g_inst g i) = Some p" "ji_next (g_inst g i) = Some q" "ji_bb (g_inst g i) = Some b"
    "ji_bb (g_inst g new) = None" "\<not> IsPhi g i" "\<not> IsPhi g new"
    using at(1-4) xs ys assms(2) by (simp_all add: pv_def nx_def bb_of_def detached_def)
  define h where "h = unlink i (upd_inst p (\<lambda>x. x\<lparr>ji_next := Some new\<rparr>) (upd_inst q (\<lambda>x. x\<lparr>ji_prev := Some new\<rparr>)
    (upd_inst new (\<lambda>x. x\<lparr>ji_next := Some q, ji_prev := Some p, ji_bb := Some b\<rparr>) g)))"
  have ends: "bb_first_inst (g_bb g b) \<noteq> Some i" "bb_last_inst (g_bb g b) \<noteq> Some i" using at(5,6) ne by auto
  have run: "ReplaceInBB i new g = Inr h"
    using here ends by (simp add: h_def ReplaceInBB_def set_next_def set_prev_def deref_def Let_def)
  have neq: "p \<noteq> i" "q \<noteq> i" "p \<noteq> q" "new \<noteq> p" "new \<noteq> q" "new \<noteq> i" using at(7-9) fresh xs ys by auto
  have links: "nx h = (nx g)(new := Some q, p := Some new, i := None)"
    "pv h = (pv g)(new := Some p, q := Some new, i := None)" "bb_of h = (bb_of g)(new := Some b, i := None)"
    using neq by (auto simp: h_def unlink_def links_upd fun_eq_iff nx_def pv_def bb_of_def)
  have phi: "IsPhi h = IsPhi g" by (simp add: h_def unlink_def phi_upd)
  have same: "g_bb h = g_bb g" by (simp add: h_def unlink_def)
  have "block_list h b (xs @ [new] @ ys)"
  proof (rule relinked_list [OF assms(1)])
    show "relinked g h b xs ys (after ([new] @ ys)) (before (xs @ [new]))"
      using fresh at(7-11) neq unfolding xs ys by (auto simp: relinked_def links same before_def)
    show "seg (nx h) (after [new]) [new] (after ys)" "seg (pv h) (before [new]) (rev [new]) (before xs)"
      using neq by (simp_all add: links xs ys before_def)
    show "distinct [new]" "set [new] \<inter> set (xs @ ys) = {}" using fresh by auto
    show "\<forall>j \<in> set (xs @ [new] @ ys). bb_of h j = Some b \<and> \<not> IsPhi h j"
      using l(4,5) assms(2) at(7,8) fresh by (auto simp: links phi detached_def)
  qed
  moreover have "block_list h c zs" if "c \<noteq> b" "block_list g c zs" for c zs
  proof (rule block_list_frame [OF that(2)])
    fix j assume "j \<in> set zs"
    then have "j \<notin> set (xs @ i # ys)" "j \<noteq> new"
      using block_listD(4) [OF that(2)] l(4) that(1) assms(2) by (fastforce simp: detached_def)+
    then show "nx h j = nx g j \<and> pv h j = pv g j \<and> bb_of h j = bb_of g j \<and> IsPhi h j = IsPhi g j"
      by (auto simp: links phi xs ys)
  qed (simp add: same)
  moreover have "ji_bb (g_inst h i) = None" using links(3) by (simp add: bb_of_def fun_eq_iff)
  ultimately show ?thesis using run by auto
qed

lemma ReplaceInBB_end:
  assumes "block_list g b (xs @ i # ys)" and "detached g new" and "xs = [] \<or> ys = []"
  shows "ReplaceInBB i new g = Inl Undefined"
proof -
  note at = block_list_at [OF assms(1)] and l = block_listD [OF assms(1)]
  have here: "ji_prev (g_inst g i) = before xs" "ji_next (g_inst g i) = after ys" "ji_bb (g_inst g i) = Some b"
    "ji_bb (g_inst g new) = None" "\<not> IsPhi g i" "\<not> IsPhi g new"
    using at(1-4) assms(2) by (simp_all add: pv_def nx_def bb_of_def detached_def)
  show ?thesis
    using here assms(3) at(5,6)
    by (cases "ys = []") (auto simp: ReplaceInBB_def set_next_def set_prev_def deref_def Let_def SetFirstInst_def
        SetLastInst_def phi_upd of_opt_def after_def split: if_splits)
qed

text \<open>
  C16: \<open>ReplaceInBB\<close> puts a new instruction in the place of one that has a predecessor and a
  successor; for the first and the last instruction of a block it writes through a null pointer.
\<close>

theorem replace_in_block:
  assumes "block_list g b (xs @ i # ys)" and "detached g new"
  shows "if xs = [] \<or> ys = [] then ReplaceInBB i new g = Inl Undefined
    else \<exists>h. ReplaceInBB i new g = Inr h \<and> block_list h b (xs @ new # ys) \<and> ji_bb (g_inst h i) = None \<and>
      (\<forall>c zs. c \<noteq> b \<longrightarrow> block_list g c zs \<longrightarrow> block_list h c zs)"
  using ReplaceInBB_list [OF assms] ReplaceInBB_end [OF assms] by auto

subsection \<open>The example\<close>

lemma demo_block: "block_list demo_graph 1 [0, 1, 2, 3]"
  by (simp add: block_list_def nx_def pv_def bb_of_def IsPhi_def demo_graph_def new_inst_def)

lemma demo_detached: "detached demo_graph 4"
  by (simp add: detached_def nx_def pv_def bb_of_def IsPhi_def demo_graph_def new_inst_def)

theorem push_back_appends_witness:
  "\<exists>h. PushBack 1 4 demo_graph = Inr h \<and> block_list h 1 ([0, 1, 2, 3] @ [4]) \<and>
    (\<forall>c ys. c \<noteq> 1 \<longrightarrow> block_list demo_graph c ys \<longrightarrow> block_list h c ys)"
  by (rule push_back_appends [OF demo_block demo_detached])

theorem remove_from_block_witness:
  "\<exists>h. RemoveFromBB 1 demo_graph = Inr h \<and> block_list h 1 ([0] @ [2, 3]) \<and> ji_bb (g_inst h 1) = None \<and>
    (\<forall>c zs. c \<noteq> 1 \<longrightarrow> block_list demo_graph c zs \<longrightarrow> block_list h c zs)"
  by (rule remove_from_block) (use demo_block in simp)

theorem prepend_inserts_witness:
  "Prepend 0 4 demo_graph = Inl Undefined \<and>
   (\<exists>h. Prepend 2 4 demo_graph = Inr h \<and> block_list h 1 [0, 1, 4, 2, 3])"
proof -
  have "block_list demo_graph 1 ([] @ 0 # [1, 2, 3])" "block_list demo_graph 1 ([0, 1] @ 2 # [3])"
    using demo_block by simp_all
  from this [THEN prepend_inserts [OF _ demo_detached]] show ?thesis by auto
qed

theorem replace_in_block_witness:
  "ReplaceInBB 3 4 demo_graph = Inl Undefined \<and>
   (\<exists>h. ReplaceInBB 2 4 demo_graph = Inr h \<and> block_list h 1 [0, 1, 4, 3])"
proof -
  have "block_list demo_graph 1 ([0, 1, 2] @ 3 # [])" "block_list demo_graph 1 ([0, 1] @ 2 # [3])"
    using demo_block by simp_all
  from this [THEN replace_in_block [OF _ demo_detached]] show ?thesis by auto
qed

end
