(* ===== verification/Jit_Cfg.thy ===== *)
theory Jit_Cfg
  imports Jit_Graph
begin

text \<open>
  The analyses of the control-flow graph: markers (marker.h), the reverse post order
  (analyses/rpo.h), the dominator tree (analyses/dom_tree.h) and the queries on it (graph.h,
  basic_block.cpp, instructions.cpp).  \<open>agraph\<close> extends the graph by what the analyses store in it.
  A block carries one mark, so marking with one marker erases the mark of another.  Vectors of
  block pointers are lists of \<open>nat option\<close>; an index outside is \<open>Undefined\<close>.  The graph is one
  whose identifiers start at 0 (\<open>Graph(true)\<close>), so a block's identifier is its index in \<open>blocks_\<close>.
  The recursions have as fuel the number of blocks, plus one; each call marks a block that
  was not marked, which the termination lemmas of the searches make precise.
\<close>

record jloop =
  l_header :: "nat option"
  l_back_edges :: "nat list"
  l_inner :: "nat list"
  l_outer :: "nat option"
  l_reducible :: bool
  l_id :: nat

record agraph = graph +
  g_marker :: u32
  g_marks :: "nat \<Rightarrow> u32"
  g_rpo :: "nat option list"
  g_idoms :: "nat option list"
  g_loops :: "nat \<Rightarrow> jloop"
  g_loops_count :: nat
  g_loop_id :: nat
  g_root_loop :: "nat option"
  g_reducible :: bool
  g_linear :: "(nat option \<times> nat) list"
  g_max_ln :: nat

definition ENTRY_BLOCK_IDX :: nat where
  "ENTRY_BLOCK_IDX = 1"

definition END_BLOCK_IDX :: nat where
  "END_BLOCK_IDX = 0"

text \<open>\<open>GetEntryBlock\<close> and \<open>GetEndBlock\<close>.\<close>

definition GetEntryBlock :: "'g graph_scheme \<Rightarrow> nat res" where
  "GetEntryBlock g =
     guard (ENTRY_BLOCK_IDX < g_bbs_count g) Undefined
       (guard (bb_preds (g_bb g ENTRY_BLOCK_IDX) = []) AssertFailed (Inr ENTRY_BLOCK_IDX))"

definition GetEndBlock :: "'g graph_scheme \<Rightarrow> nat res" where
  "GetEndBlock g =
     guard (END_BLOCK_IDX < g_bbs_count g) Undefined
       (guard (bb_succs (g_bb g END_BLOCK_IDX) = []) AssertFailed (Inr END_BLOCK_IDX))"

subsection \<open>Markers\<close>

definition NewMarker :: "agraph \<Rightarrow> (u32 \<times> agraph) res" where
  "NewMarker g =
     guard (g_marker g < - 1) AssertFailed (Inr (g_marker g + 1, g\<lparr>g_marker := g_marker g + 1\<rparr>))"

definition Mark :: "nat \<Rightarrow> u32 \<Rightarrow> agraph \<Rightarrow> agraph" where
  "Mark b m g = g\<lparr>g_marks := (g_marks g)(b := m)\<rparr>"

definition IsMarked :: "nat \<Rightarrow> u32 \<Rightarrow> agraph \<Rightarrow> bool" where
  "IsMarked b m g \<longleftrightarrow> g_marks g b = m"

subsection \<open>Reverse post order\<close>

record rpo_state =
  r_g :: agraph
  r_rpo :: "nat option list"
  r_idx :: nat

text \<open>\<open>rpo_[--(*idx)] = bb\<close>.\<close>

definition rpo_put :: "nat \<Rightarrow> rpo_state \<Rightarrow> rpo_state res" where
  "rpo_put b s =
     (case r_idx s of
        0 \<Rightarrow> Inl Undefined
      | Suc i \<Rightarrow> rbind (upd_res (r_rpo s) i (Some b)) (\<lambda>v. Inr (s\<lparr>r_rpo := v, r_idx := i\<rparr>)))"

fun rpo_DFS :: "nat \<Rightarrow> u32 \<Rightarrow> nat \<Rightarrow> rpo_state \<Rightarrow> rpo_state res" where
  "rpo_DFS 0 m b s = Inl OutOfFuel"
| "rpo_DFS (Suc n) m b s =
     rbind (fold_res (\<lambda>c t. if IsMarked c m (r_g t) then Inr t else rpo_DFS n m c t)
              (bb_succs (g_bb (r_g s) b)) (s\<lparr>r_g := Mark b m (r_g s)\<rparr>))
       (rpo_put b)"

definition BuildRPO :: "agraph \<Rightarrow> agraph res" where
  "BuildRPO g =
     rbind (NewMarker g) (\<lambda>(m, g1).
       rbind (GetEntryBlock g1) (\<lambda>e.
         rbind (rpo_DFS (Suc (g_bbs_count g)) m e
                  \<lparr>r_g = g1, r_rpo = replicate (g_bbs_count g) None, r_idx = g_bbs_count g\<rparr>) (\<lambda>s.
           guard (r_idx s = 0) AssertFailed (Inr ((r_g s)\<lparr>g_rpo := r_rpo s\<rparr>)))))"

subsection \<open>Dominator queries\<close>

definition IDomOf :: "nat \<Rightarrow> agraph \<Rightarrow> nat option res" where
  "IDomOf b g = nth_res (g_idoms g) b"

fun idom_loop :: "nat \<Rightarrow> nat \<Rightarrow> nat \<Rightarrow> nat option \<Rightarrow> agraph \<Rightarrow> bool res" where
  "idom_loop 0 d b i g = Inl OutOfFuel"
| "idom_loop (Suc n) d b i g =
     rbind (GetEntryBlock g) (\<lambda>e.
       if b = e then Inr False
       else if i = Some d then Inr True
       else deref i (\<lambda>c. rbind (IDomOf c g) (\<lambda>j. idom_loop n d c j g)))"

definition IsDominator :: "nat \<Rightarrow> nat \<Rightarrow> agraph \<Rightarrow> bool res" where
  "IsDominator d b g =
     (if d = b then Inr True
      else rbind (IDomOf b g) (\<lambda>i. idom_loop (Suc (g_bbs_count g)) d b i g))"

text \<open>\<open>BasicBlock::Dominates\<close>; the graph is the global \<open>GRAPH\<close>.\<close>

fun dominates_loop :: "nat \<Rightarrow> nat \<Rightarrow> nat option \<Rightarrow> agraph \<Rightarrow> bool res" where
  "dominates_loop 0 d p g = Inl OutOfFuel"
| "dominates_loop (Suc n) d p g =
     (case p of
        None \<Rightarrow> Inr False
      | Some b \<Rightarrow> rbind (IDomOf b g) (\<lambda>i. if i = Some d then Inr True else dominates_loop n d i g))"

definition BB_Dominates :: "nat \<Rightarrow> nat \<Rightarrow> agraph \<Rightarrow> bool res" where
  "BB_Dominates d b g = guard (d \<noteq> b) AssertFailed (dominates_loop (Suc (g_bbs_count g)) d (Some b) g)"

fun before_in_block :: "nat \<Rightarrow> nat \<Rightarrow> nat \<Rightarrow> agraph \<Rightarrow> bool res" where
  "before_in_block 0 i j g = Inl OutOfFuel"
| "before_in_block (Suc n) i j g =
     (case ji_prev (g_inst g j) of
        None \<Rightarrow> Inr False
      | Some p \<Rightarrow> if p = i then Inr True else before_in_block n i p g)"

definition Inst_Dominates :: "nat \<Rightarrow> nat \<Rightarrow> agraph \<Rightarrow> bool res" where
  "Inst_Dominates i j g =
     guard (i \<noteq> j) AssertFailed
       (if ji_bb (g_inst g i) = ji_bb (g_inst g j) then before_in_block (Suc (g_insts_count g)) i j g
        else deref (ji_bb (g_inst g i)) (\<lambda>b.
               case ji_bb (g_inst g j) of
                 None \<Rightarrow> Inr False
               | Some c \<Rightarrow> BB_Dominates b c g))"

subsection \<open>The dominator tree\<close>

record dom_state =
  d_g :: agraph
  d_mark :: u32
  v_numbers :: "nat list"
  sorted_bbs :: "nat option list"
  semidoms :: "nat option list"
  spanning_tree_imm_anc :: "nat list"
  idoms :: "nat option list"
  d_idx :: nat

definition NumOf :: "dom_state \<Rightarrow> nat option \<Rightarrow> nat" where
  "NumOf s p = (case p of None \<Rightarrow> 0 | Some b \<Rightarrow> v_numbers s ! b)"

definition SetAncestor :: "nat \<Rightarrow> nat \<Rightarrow> dom_state \<Rightarrow> dom_state" where
  "SetAncestor b a s = s\<lparr>spanning_tree_imm_anc := (spanning_tree_imm_anc s)[b := a]\<rparr>"

text \<open>Marks and numbers a block: the statements of \<open>DomTree::DFS\<close> before its loop.\<close>

definition dom_visit :: "nat \<Rightarrow> dom_state \<Rightarrow> dom_state res" where
  "dom_visit b s =
     (let k = Suc (d_idx s) in
      guard (k \<le> length (sorted_bbs s)) Undefined
        (Inr (s\<lparr>d_g := Mark b (d_mark s) (d_g s), d_idx := k, v_numbers := (v_numbers s)[b := k],
               sorted_bbs := (sorted_bbs s)[length (sorted_bbs s) - k := Some b]\<rparr>)))"

fun dom_DFS :: "nat \<Rightarrow> nat \<Rightarrow> dom_state \<Rightarrow> dom_state res" where
  "dom_DFS 0 b s = Inl OutOfFuel"
| "dom_DFS (Suc n) b s =
     rbind (dom_visit b s) (\<lambda>s1.
       fold_res (\<lambda>c t. if IsMarked c (d_mark t) (d_g t) then Inr t else dom_DFS n c (SetAncestor c b t))
         (bb_succs (g_bb (d_g s) b)) s1)"

definition EnumerateBlocks :: "dom_state \<Rightarrow> dom_state res" where
  "EnumerateBlocks s =
     (let n = g_bbs_count (d_g s);
          s1 = s\<lparr>v_numbers := replicate n 0, sorted_bbs := replicate n None,
                 spanning_tree_imm_anc := replicate n 0, idoms := replicate n None, d_idx := 0\<rparr>
      in rbind (GetEntryBlock (d_g s1)) (\<lambda>e.
           rbind (dom_DFS (Suc n) e s1) (\<lambda>s2.
             guard (d_idx s2 = n) (Fatal ''UNREACHABLE'')
               (guard (v_numbers s2 ! ENTRY_BLOCK_IDX = 1) AssertFailed (Inr s2)))))"

text \<open>The candidate with the smaller number: the last statement of both loops over predecessors.\<close>

definition better :: "dom_state \<Rightarrow> nat option \<Rightarrow> nat option \<Rightarrow> nat option res" where
  "better s tmp cur =
     (if tmp \<noteq> None \<and> (NumOf s tmp < NumOf s cur \<or> cur = None)
      then guard (NumOf s tmp \<noteq> 0) AssertFailed (Inr tmp) else Inr cur)"

definition set_mark :: "nat \<Rightarrow> dom_state \<Rightarrow> dom_state" where
  "set_mark b s = s\<lparr>d_g := Mark b (d_mark s) (d_g s)\<rparr>"

fun FindPredWithLessThan :: "nat \<Rightarrow> nat \<Rightarrow> nat \<Rightarrow> dom_state \<Rightarrow> (nat option \<times> dom_state) res" where
  "FindPredWithLessThan 0 num b s = Inl OutOfFuel"
| "FindPredWithLessThan (Suc n) num b s =
     guard (num \<le> NumOf s (Some b)) AssertFailed
       (fold_res (\<lambda>p (best, t).
          rbind
            (if NumOf t (Some p) < num then
               guard (\<not> IsMarked p (d_mark t) (d_g t)) AssertFailed (Inr (Some p, t))
             else if \<not> IsMarked p (d_mark t) (d_g t) then FindPredWithLessThan n num p t
             else Inr (None, t))
            (\<lambda>(tmp, u). rbind (better u tmp best) (\<lambda>x. Inr (x, u))))
        (bb_preds (g_bb (d_g s) b)) (None, set_mark b s))"

definition new_mark :: "dom_state \<Rightarrow> dom_state res" where
  "new_mark s = rbind (NewMarker (d_g s)) (\<lambda>(m, g). Inr (s\<lparr>d_g := g, d_mark := m\<rparr>))"

definition FindSemiDom :: "nat \<Rightarrow> dom_state \<Rightarrow> dom_state res" where
  "FindSemiDom b s =
     rbind (GetEntryBlock (d_g s)) (\<lambda>e.
       guard (e \<noteq> b) AssertFailed
         (rbind (fold_res (\<lambda>p (best, t).
              rbind
                (if NumOf t (Some p) < NumOf t (Some b) then Inr (Some p, t)
                 else rbind (new_mark t) (\<lambda>u.
                   guard (NumOf u (Some b) < NumOf u (Some p)) AssertFailed
                     (FindPredWithLessThan (Suc (g_bbs_count (d_g u))) (NumOf u (Some b)) p u)))
                (\<lambda>(tmp, u). rbind (better u tmp best) (\<lambda>x. Inr (x, u))))
            (bb_preds (g_bb (d_g s) b)) (None, s)) (\<lambda>(semi, t).
          guard (semi \<noteq> None) AssertFailed (Inr (t\<lparr>semidoms := (semidoms t)[b := semi]\<rparr>)))))"

definition CollectSemiDoms :: "dom_state \<Rightarrow> dom_state res" where
  "CollectSemiDoms s =
     fold_res (\<lambda>p t. deref p (\<lambda>b. rbind (GetEntryBlock (d_g t)) (\<lambda>e. if e \<noteq> b then FindSemiDom b t else Inr t)))
       (sorted_bbs s) (s\<lparr>semidoms := replicate (length (v_numbers s)) None\<rparr>)"

text \<open>The loop up the spanning tree, to the semidominator.\<close>

fun min_semi :: "nat \<Rightarrow> nat \<Rightarrow> nat \<Rightarrow> nat \<Rightarrow> dom_state \<Rightarrow> nat res" where
  "min_semi 0 stop u u_min s = Inl OutOfFuel"
| "min_semi (Suc n) stop u u_min s =
     (if u = stop then Inr u_min
      else
        let v = (if NumOf s (semidoms s ! u) < NumOf s (semidoms s ! u_min) then u else u_min)
        in guard (u \<noteq> ENTRY_BLOCK_IDX) AssertFailed (min_semi n stop (spanning_tree_imm_anc s ! u) v s))"

definition CollectIdoms :: "dom_state \<Rightarrow> dom_state res" where
  "CollectIdoms s =
     fold_res (\<lambda>p t. deref p (\<lambda>b.
         guard (b \<noteq> ENTRY_BLOCK_IDX) AssertFailed
           (case semidoms t ! b of
              None \<Rightarrow> Inl AssertFailed
            | Some semi \<Rightarrow>
                rbind (min_semi (Suc (g_bbs_count (d_g t))) semi b b t) (\<lambda>u.
                  if NumOf t (semidoms t ! u) = NumOf t (semidoms t ! b)
                  then Inr (t\<lparr>idoms := (idoms t)[b := Some semi]\<rparr>)
                  else guard (idoms t ! u \<noteq> None) AssertFailed (Inr (t\<lparr>idoms := (idoms t)[b := idoms t ! u]\<rparr>))))))
       (tl (rev (sorted_bbs s))) (s\<lparr>idoms := (idoms s)[ENTRY_BLOCK_IDX := None]\<rparr>)"

definition DomTree :: "agraph \<Rightarrow> agraph res" where
  "DomTree g =
     rbind (NewMarker g) (\<lambda>(m, g1).
       rbind (EnumerateBlocks \<lparr>d_g = g1, d_mark = m, v_numbers = [], sorted_bbs = [], semidoms = [],
                spanning_tree_imm_anc = [], idoms = [], d_idx = 0\<rparr>) (\<lambda>s.
         rbind (CollectSemiDoms s) (\<lambda>s1.
           rbind (CollectIdoms s1) (\<lambda>s2. Inr ((d_g s2)\<lparr>g_idoms := idoms s2\<rparr>)))))"

subsection \<open>The check of the dominator tree\<close>

text \<open>\<open>CollectBlocks\<close>; the vector of reached blocks, without the ignored one.\<close>

fun CollectBlocks :: "nat \<Rightarrow> nat option \<Rightarrow> nat \<Rightarrow> agraph \<Rightarrow> nat option list \<Rightarrow> nat option list res" where
  "CollectBlocks 0 ign b g v = Inl OutOfFuel"
| "CollectBlocks (Suc n) ign b g v =
     rbind (upd_res v b (Some b)) (\<lambda>v1.
       fold_res (\<lambda>c w. rbind (nth_res w c) (\<lambda>x.
           guard (x = None \<or> x = Some c) AssertFailed
             (if x = None \<and> Some c \<noteq> ign then CollectBlocks n ign c g w else Inr w)))
         (bb_succs (g_bb g b)) v1)"

definition DomTreeCheck :: "agraph \<Rightarrow> unit res" where
  "DomTreeCheck g =
     (let n = g_bbs_count g in
      rbind (GetEntryBlock g) (\<lambda>e.
        rbind (CollectBlocks (Suc n) None e g (replicate n None)) (\<lambda>all.
          fold_res (\<lambda>i u.
              guard (all ! i = Some i) AssertFailed
                (rbind (CollectBlocks (Suc n) (Some i) e g (replicate n None)) (\<lambda>reached.
                   fold_res (\<lambda>j w.
                       if reached ! j = None
                       then rbind (IsDominator i j g) (\<lambda>d. guard d AssertFailed (Inr ()))
                       else Inr ())
                     [0..<n] ())))
            [0..<n] ())))"

definition BuildDomTree :: "agraph \<Rightarrow> agraph res" where
  "BuildDomTree g = rbind (DomTree g) (\<lambda>h. rbind (DomTreeCheck h) (\<lambda>u. Inr h))"

end
