(* ===== verification/Jit_Rpo.thy ===== *)
theory Jit_Rpo
  imports Jit_Cfg
begin

text \<open>
  Correctness of the reverse post order (analyses/rpo.h).  The search of \<open>RPO\<close> is related to
  reachability: one call marks a set of blocks that is closed under successors except for blocks
  marked before, and fills the places of the vector below \<open>idx\<close> with them in an order in which
  an edge goes backwards only inside a cycle.
\<close>

subsection \<open>The edges of a graph\<close>

definition edges :: "'g graph_scheme \<Rightarrow> (nat \<times> nat) set" where
  "edges g = {(u, v). v \<in> set (bb_succs (g_bb g u))}"

definition cfg_ok :: "'g graph_scheme \<Rightarrow> bool" where
  "cfg_ok g \<longleftrightarrow> ENTRY_BLOCK_IDX < g_bbs_count g \<and> bb_preds (g_bb g ENTRY_BLOCK_IDX) = [] \<and>
     (\<forall>u < g_bbs_count g. set (bb_succs (g_bb g u)) \<subseteq> {..<g_bbs_count g})"

text \<open>Markers only grow, so a fresh one is on no block.\<close>

definition marks_fresh :: "agraph \<Rightarrow> bool" where
  "marks_fresh g \<longleftrightarrow> g_marker g < - 1 \<and> (\<forall>b. g_marks g b \<le> g_marker g)"

text \<open>An edge from a later to an earlier block of the order lies on a cycle.\<close>

definition back_on_cycle :: "(nat \<times> nat) set \<Rightarrow> nat \<Rightarrow> nat \<Rightarrow> bool" where
  "back_on_cycle E x y \<longleftrightarrow> ((y, x) \<in> E \<longrightarrow> (x, y) \<in> E\<^sup>*)"

subsection \<open>One search\<close>

definition marked :: "u32 \<Rightarrow> rpo_state \<Rightarrow> nat set" where
  "marked m s = {c. g_marks (r_g s) c = m}"

definition adv :: "u32 \<Rightarrow> nat list \<Rightarrow> rpo_state \<Rightarrow> rpo_state" where
  "adv m ys s = s\<lparr>r_g := (r_g s)\<lparr>g_marks := (\<lambda>c. if c \<in> set ys then m else g_marks (r_g s) c)\<rparr>,
     r_rpo := take (r_idx s - length ys) (r_rpo s) @ map Some ys @ drop (r_idx s) (r_rpo s),
     r_idx := r_idx s - length ys\<rparr>"

lemma adv_Nil [simp]: "adv m [] s = s"
  by (simp add: adv_def)

lemma marked_adv [simp]: "marked m (adv m ys s) = marked m s \<union> set ys"
  by (auto simp: marked_def adv_def)

lemma bb_adv [simp]: "g_bb (r_g (adv m ys s)) = g_bb (r_g s)"
  by (simp add: adv_def)

lemma idx_adv [simp]: "r_idx (adv m ys s) = r_idx s - length ys"
  by (simp add: adv_def)

lemma len_adv: "length ys \<le> r_idx s \<Longrightarrow> r_idx s \<le> length (r_rpo s) \<Longrightarrow> length (r_rpo (adv m ys s)) = length (r_rpo s)"
  by (simp add: adv_def)

lemma adv_adv:
  assumes "length ys + length zs \<le> r_idx s" "r_idx s \<le> length (r_rpo s)"
  shows "adv m zs (adv m ys s) = adv m (zs @ ys) s"
proof -
  have "take (r_idx s - length ys - length zs) (take (r_idx s - length ys) xs) = take (r_idx s - length ys - length zs) xs"
    for xs :: "nat option list" by (simp add: min_def)
  then show ?thesis using assms by (auto simp: adv_def diff_diff_add add.commute fun_eq_iff)
qed

text \<open>What a search for \<open>S\<close> adds to the order, when \<open>M\<close> is marked.\<close>

definition found :: "nat \<Rightarrow> (nat \<times> nat) set \<Rightarrow> nat set \<Rightarrow> nat set \<Rightarrow> nat list \<Rightarrow> bool" where
  "found N E M S ys \<longleftrightarrow> distinct ys \<and> set ys \<subseteq> {..<N} - M \<and> S \<subseteq> M \<union> set ys \<and> E `` set ys \<subseteq> M \<union> set ys \<and>
     sorted_wrt (back_on_cycle E) ys \<and> (\<forall>u \<in> set ys. \<exists>c \<in> S. (c, u) \<in> E\<^sup>*)"

lemma found_length: "found N E M S ys \<Longrightarrow> length ys \<le> card ({..<N} - M)"
  unfolding found_def by (metis card_mono distinct_card finite_Diff finite_lessThan)

lemma found_Nil: "S \<subseteq> M \<Longrightarrow> found N E M S []"
  by (simp add: found_def)

lemma found_append:
  assumes "found N E M S ys" and "found N E (M \<union> set ys) T zs"
  shows "found N E M (S \<union> T) (zs @ ys)"
proof -
  have "back_on_cycle E x y" if "x \<in> set zs" "y \<in> set ys" for x y
    using that assms by (auto simp: found_def back_on_cycle_def)
  then show ?thesis using assms by (auto simp: found_def sorted_wrt_append)
qed

lemma found_Cons:
  assumes "found N E (insert b M) (E `` {b}) ys" and "b < N" "b \<notin> M"
  shows "found N E M {b} (b # ys)"
proof -
  have r: "(b, u) \<in> E\<^sup>*" if "u \<in> set ys" for u
    using that assms(1) by (auto simp: found_def intro: converse_rtrancl_into_rtrancl)
  then show ?thesis using assms by (auto simp: found_def back_on_cycle_def)
qed

definition searches :: "nat \<Rightarrow> (nat \<Rightarrow> jbb) \<Rightarrow> (nat \<times> nat) set \<Rightarrow> nat \<Rightarrow> u32 \<Rightarrow> bool" where
  "searches N B E n m \<longleftrightarrow> (\<forall>b s. g_bb (r_g s) = B \<longrightarrow> b < N \<longrightarrow> b \<notin> marked m s \<longrightarrow> card ({..<N} - marked m s) < n \<longrightarrow>
     card ({..<N} - marked m s) \<le> r_idx s \<longrightarrow> r_idx s \<le> length (r_rpo s) \<longrightarrow>
     (\<exists>ys. rpo_DFS n m b s = Inr (adv m ys s) \<and> found N E (marked m s) {b} ys \<and> hd ys = b))"

lemma rpo_loop:
  assumes IH: "searches N B E n m" and "g_bb (r_g s) = B" and "set cs \<subseteq> {..<N}"
    and "card ({..<N} - marked m s) < n" and "card ({..<N} - marked m s) \<le> r_idx s" "r_idx s \<le> length (r_rpo s)"
  shows "\<exists>ys. fold_res (\<lambda>c t. if IsMarked c m (r_g t) then Inr t else rpo_DFS n m c t) cs s = Inr (adv m ys s) \<and>
     found N E (marked m s) (set cs) ys"
  using assms(2-)
proof (induction cs arbitrary: s)
  case Nil
  then show ?case by (auto intro: exI [of _ "[]"] simp: found_Nil)
next
  case (Cons c cs)
  have c: "c < N" using Cons.prems(2) by simp
  obtain ys where ys: "(if IsMarked c m (r_g s) then Inr s else rpo_DFS n m c s) = Inr (adv m ys s)"
    "found N E (marked m s) {c} ys"
  proof (cases "c \<in> marked m s")
    case True
    then show thesis by (intro that [of "[]"]) (auto simp: IsMarked_def marked_def found_def)
  next
    case False
    then show thesis using IH Cons.prems c that by (auto simp: searches_def IsMarked_def marked_def)
  qed
  let ?s = "adv m ys s"
  have len: "length ys \<le> card ({..<N} - marked m s)" by (rule found_length [OF ys(2)])
  have sub: "set ys \<subseteq> {..<N} - marked m s" "distinct ys" using ys(2) by (auto simp: found_def)
  have "{..<N} - marked m ?s = ({..<N} - marked m s) - set ys" by auto
  then have left: "card ({..<N} - marked m ?s) = card ({..<N} - marked m s) - length ys"
    using sub by (simp add: card_Diff_subset distinct_card)
  obtain zs where zs: "fold_res (\<lambda>c t. if IsMarked c m (r_g t) then Inr t else rpo_DFS n m c t) cs ?s = Inr (adv m zs ?s)"
    "found N E (marked m ?s) (set cs) zs"
  proof -
    have "card ({..<N} - marked m ?s) < n" "card ({..<N} - marked m ?s) \<le> r_idx ?s" "r_idx ?s \<le> length (r_rpo ?s)"
      unfolding left idx_adv len_adv [OF order_trans [OF len Cons.prems(4)] Cons.prems(5)]
      using Cons.prems(3-5) by linarith+
    then show thesis using Cons.IH [of ?s] Cons.prems(1,2) that by auto
  qed
  have "length zs \<le> card ({..<N} - marked m ?s)" by (rule found_length [OF zs(2)])
  then have "length ys + length zs \<le> r_idx s" using left len Cons.prems(4) by linarith
  then have "adv m zs ?s = adv m (zs @ ys) s" by (rule adv_adv) (rule Cons.prems(5))
  moreover have "found N E (marked m s) (set (c # cs)) (zs @ ys)"
    using found_append [OF ys(2), of "set cs" zs] zs(2) by simp
  ultimately show ?case using ys(1) zs(1) by auto
qed

lemma rpo_search:
  assumes succs: "\<And>u. u < N \<Longrightarrow> set (bb_succs (B u)) \<subseteq> {..<N}"
    and E_def: "E = {(u, v). v \<in> set (bb_succs (B u))}"
  shows "searches N B E n m"
proof (induction n)
  case (Suc n)
  show ?case unfolding searches_def
  proof (intro allI impI)
    fix b s
    assume B: "g_bb (r_g s) = B" and b: "b < N" "b \<notin> marked m s"
      and n: "card ({..<N} - marked m s) < Suc n" and i: "card ({..<N} - marked m s) \<le> r_idx s" "r_idx s \<le> length (r_rpo s)"
    let ?s = "s\<lparr>r_g := Mark b m (r_g s)\<rparr>"
    have M: "marked m ?s = insert b (marked m s)" by (auto simp: marked_def Mark_def)
    have "{..<N} - marked m ?s = ({..<N} - marked m s) - {b}" unfolding M by auto
    then have one: "card ({..<N} - marked m s) = Suc (card ({..<N} - marked m ?s))"
      using b by (simp add: card_Diff_singleton card_gt_0_iff)
        (metis Diff_iff Suc_pred card_gt_0_iff empty_iff finite_Diff finite_lessThan lessThan_iff)
    obtain ys where ys: "fold_res (\<lambda>c t. if IsMarked c m (r_g t) then Inr t else rpo_DFS n m c t)
        (bb_succs (B b)) ?s = Inr (adv m ys ?s)" "found N E (marked m ?s) (set (bb_succs (B b))) ys"
      using rpo_loop [OF Suc.IH, of ?s "bb_succs (B b)"] B succs [OF b(1)] n i one by (auto simp: Mark_def)
    have len: "length ys < r_idx s" using found_length [OF ys(2)] one i by simp
    then obtain k where k: "r_idx s - length ys = Suc k" by (cases "r_idx s - length ys") auto
    have "take (Suc k) (r_rpo s) = take k (r_rpo s) @ [r_rpo s ! k]"
      using k i(2) by (intro take_Suc_conv_app_nth) linarith
    then have "rpo_put b (adv m ys ?s) = Inr (adv m (b # ys) s)"
      using k i(2) len by (auto simp: rpo_put_def adv_def Mark_def list_update_append fun_eq_iff diff_Suc split: nat.splits)
    moreover have "found N E (marked m s) {b} (b # ys)"
      using found_Cons [of N E b "marked m s" ys] ys(2) b M by (simp add: E_def Image_def)
    ultimately show "\<exists>ys. rpo_DFS (Suc n) m b s = Inr (adv m ys s) \<and> found N E (marked m s) {b} ys \<and> hd ys = b"
      using ys(1) B by auto
  qed
qed (simp add: searches_def)

lemma fresh_mark: "w < - 1 \<Longrightarrow> x \<le> w \<Longrightarrow> x \<noteq> w + (1 :: u32)"
proof -
  assume w: "w < - 1" "x \<le> w"
  then have "w \<noteq> - 1" by blast
  then have "1 + w \<noteq> 0" by (metis add.commute eq_neg_iff_add_eq_0)
  then have "unat (w + 1) = Suc (unat w)" by (metis add.commute unatSuc)
  then show "x \<noteq> w + 1" using w(2) by (auto simp: word_le_nat_alt)
qed

text \<open>
  C18: On a graph with an entry block and edges between existing blocks \<open>BuildRPO\<close> ends.  When every
  block can be reached from the entry, it computes an order of all blocks that begins with the
  entry and in which an edge leads to an earlier block only if it lies on a cycle; otherwise
  its assertion fails.
\<close>

theorem reverse_post_order:
  assumes "cfg_ok g" and "marks_fresh g"
  shows "if \<forall>b < g_bbs_count g. (ENTRY_BLOCK_IDX, b) \<in> (edges g)\<^sup>*
    then \<exists>h xs. BuildRPO g = Inr h \<and> graph.truncate h = graph.truncate g \<and> g_rpo h = map Some xs \<and>
      distinct xs \<and> set xs = {..<g_bbs_count g} \<and> hd xs = ENTRY_BLOCK_IDX \<and> sorted_wrt (back_on_cycle (edges g)) xs
    else BuildRPO g = Inl AssertFailed"
proof -
  let ?N = "g_bbs_count g" and ?E = "edges g" and ?e = ENTRY_BLOCK_IDX
  define m where "m = g_marker g + 1"
  define s where "s = \<lparr>r_g = g\<lparr>g_marker := m\<rparr>, r_rpo = replicate ?N None, r_idx = ?N\<rparr>"
  have e: "?e < ?N" and pre: "bb_preds (g_bb g ?e) = []" using assms(1) by (auto simp: cfg_ok_def)
  have search: "searches ?N (g_bb g) ?E (Suc ?N) m"
    by (rule rpo_search) (use assms(1) in \<open>auto simp: cfg_ok_def edges_def\<close>)
  have none: "marked m s = {}"
    using assms(2) fresh_mark [of "g_marker g"] by (auto simp: marked_def s_def m_def marks_fresh_def)
  obtain ys where ys: "rpo_DFS (Suc ?N) m ?e s = Inr (adv m ys s)" "found ?N ?E {} {?e} ys" "hd ys = ?e"
  proof -
    have "g_bb (r_g s) = g_bb g" "r_idx s = ?N" "length (r_rpo s) = ?N" by (simp_all add: s_def)
    then show thesis using search [unfolded searches_def, rule_format, of s ?e] e none that by auto
  qed
  have run: "BuildRPO g = guard (length ys = ?N) AssertFailed (Inr ((r_g (adv m ys s))\<lparr>g_rpo := r_rpo (adv m ys s)\<rparr>))"
  proof -
    have len: "length ys \<le> ?N" using found_length [OF ys(2)] by simp
    have "NewMarker g = Inr (m, r_g s)"
      using assms(2) unfolding marks_fresh_def NewMarker_def m_def s_def by simp
    moreover have "GetEntryBlock (r_g s) = Inr ?e" using e pre by (simp add: GetEntryBlock_def s_def)
    moreover have idx: "(r_idx (adv m ys s) = 0) = (length ys = ?N)" using len by (auto simp: s_def)
    moreover have "\<lparr>r_g = r_g s, r_rpo = replicate (g_bbs_count (r_g s)) None, r_idx = g_bbs_count (r_g s)\<rparr> = s"
      "g_bbs_count (r_g s) = ?N" by (simp_all add: s_def)
    ultimately show ?thesis using ys(1) by (simp only: BuildRPO_def rbind.simps prod.case)
  qed
  have d: "distinct ys" "set ys \<subseteq> {..<?N}" "?e \<in> set ys" "?E `` set ys \<subseteq> set ys"
    "sorted_wrt (back_on_cycle ?E) ys" "\<forall>u \<in> set ys. (?e, u) \<in> ?E\<^sup>*" using ys(2) by (auto simp: found_def)
  have "u \<in> set ys" if "(?e, u) \<in> ?E\<^sup>*" for u
    using that d(3,4) by (induction rule: rtrancl_induct) auto
  then have all: "(\<forall>b < ?N. (?e, b) \<in> ?E\<^sup>*) \<longleftrightarrow> set ys = {..<?N}" using d(2,6) by auto
  also have "\<dots> \<longleftrightarrow> length ys = ?N"
    using d(1,2) by (metis card_lessThan card_subset_eq distinct_card finite_lessThan)
  finally have len: "(\<forall>b < ?N. (?e, b) \<in> ?E\<^sup>*) \<longleftrightarrow> length ys = ?N" .
  show ?thesis
  proof (cases "\<forall>b < ?N. (?e, b) \<in> ?E\<^sup>*")
    case True
    then have n: "length ys = ?N" "set ys = {..<?N}" using len all by auto
    let ?h = "(r_g (adv m ys s))\<lparr>g_rpo := r_rpo (adv m ys s)\<rparr>"
    have "graph.truncate ?h = graph.truncate g" "g_rpo ?h = map Some ys"
      using n(1) by (simp_all add: adv_def s_def graph.truncate_def)
    then show ?thesis using True run n d(1,5) ys(3) by auto
  next
    case False
    then show ?thesis using run len by simp
  qed
qed

subsection \<open>An example\<close>

text \<open>The entry 1, a loop of the blocks 2 and 3, and the end block 0.\<close>

definition demo_cfg :: agraph where
  "demo_cfg = \<lparr>g_inst = (\<lambda>_. new_inst JNONE 0 UNKNOWN 0), g_insts_count = 0,
     g_bb = (\<lambda>_. new_bb)(1 := new_bb\<lparr>bb_succs := [2]\<rparr>, 2 := new_bb\<lparr>bb_preds := [1, 3], bb_succs := [3, 0]\<rparr>,
       3 := new_bb\<lparr>bb_preds := [2], bb_succs := [2]\<rparr>, 0 := new_bb\<lparr>bb_preds := [2]\<rparr>),
     g_bbs_count = 4, g_marker = 0, g_marks = (\<lambda>_. 0), g_rpo = [], g_idoms = [],
     g_loops = (\<lambda>_. \<lparr>l_header = None, l_back_edges = [], l_inner = [], l_outer = None, l_reducible = True, l_id = 0\<rparr>),
     g_loops_count = 0, g_loop_id = 0, g_root_loop = None, g_reducible = True, g_linear = [], g_max_ln = 0\<rparr>"

lemma demo_succs:
  "bb_succs (g_bb demo_cfg b) = (if b = 1 then [2] else if b = 2 then [3, 0] else if b = 3 then [2] else [])"
  "bb_preds (g_bb demo_cfg b) = (if b = 2 then [1, 3] else if b = 3 then [2] else if b = 0 then [2] else [])"
  "g_bbs_count demo_cfg = 4"
  by (simp_all add: demo_cfg_def new_bb_def)

lemma demo_edges: "edges demo_cfg = {(1, 2), (2, 3), (2, 0), (3, 2)}"
  unfolding edges_def demo_succs(1) by (auto split: if_splits)

lemma less_4: "b < 4 \<longleftrightarrow> b = 0 \<or> b = 1 \<or> b = 2 \<or> b = (3 :: nat)"
  by auto

lemma demo_ok: "cfg_ok demo_cfg" "marks_fresh demo_cfg"
  by (auto simp: cfg_ok_def ENTRY_BLOCK_IDX_def demo_succs) (simp add: marks_fresh_def demo_cfg_def word_gt_0)

lemma demo_reach: "b < 4 \<Longrightarrow> (1, b) \<in> (edges demo_cfg)\<^sup>*"
proof -
  have "(1, 2) \<in> (edges demo_cfg)\<^sup>*" "(2, 3) \<in> edges demo_cfg" "(2, 0) \<in> edges demo_cfg" by (auto simp: demo_edges)
  then show "b < 4 \<Longrightarrow> (1, b) \<in> (edges demo_cfg)\<^sup>*" unfolding less_4 by (auto intro: rtrancl_into_rtrancl)
qed

theorem reverse_post_order_witness:
  "\<exists>h xs. BuildRPO demo_cfg = Inr h \<and> g_rpo h = map Some xs \<and> set xs = {..<4} \<and> hd xs = 1 \<and>
     sorted_wrt (back_on_cycle (edges demo_cfg)) xs"
  using reverse_post_order [OF demo_ok] demo_reach
  by (simp add: demo_succs(3) ENTRY_BLOCK_IDX_def) blast

end
