(* ===== verification/Jit_Dom.thy ===== *)
theory Jit_Dom
  imports Jit_Rpo
begin

text \<open>
  The dominator check (\<open>DomTreeCheck\<close> of analyses/dom_tree.h): what its search without a block
  collects, and what a check that passes says about \<open>IsDominator\<close>.
\<close>

subsection \<open>Collecting blocks\<close>

text \<open>The edges the search follows when it ignores a block.\<close>

definition avoiding :: "'g graph_scheme \<Rightarrow> nat option \<Rightarrow> (nat \<times> nat) set" where
  "avoiding g d = {(u, v) \<in> edges g. Some v \<noteq> d}"

text \<open>Every place of the vector is null or holds its own block.\<close>

definition slots_own :: "nat option list \<Rightarrow> bool" where
  "slots_own v \<longleftrightarrow> (\<forall>c < length v. v ! c = None \<or> v ! c = Some c)"

definition open_slots :: "nat option list \<Rightarrow> nat set" where
  "open_slots v = {c. c < length v \<and> v ! c = None}"

definition fill :: "nat set \<Rightarrow> nat option list \<Rightarrow> nat option list" where
  "fill S v = map (\<lambda>c. if c \<in> S then Some c else v ! c) [0..<length v]"

lemma fill_nth [simp]:
  "length (fill S v) = length v" "c < length v \<Longrightarrow> fill S v ! c = (if c \<in> S then Some c else v ! c)"
  by (simp_all add: fill_def)

lemma fill_simps [simp]:
  "open_slots (fill S v) = open_slots v - S" "slots_own v \<Longrightarrow> slots_own (fill S v)"
  by (auto simp: open_slots_def slots_own_def split: if_splits)

lemma fill_empty [simp]: "fill {} v = v"
  by (simp add: fill_def map_nth)

lemma fill_fill [simp]: "fill T (fill S v) = fill (S \<union> T) v"
  by (rule nth_equalityI) auto

lemma fill_one: "b < length v \<Longrightarrow> v[b := Some b] = fill {b} v"
  by (rule nth_equalityI) (auto simp: nth_list_update)

lemma finite_open [simp]: "finite (open_slots v)"
  by (simp add: open_slots_def)

definition collected :: "(nat \<times> nat) set \<Rightarrow> nat set \<Rightarrow> nat set \<Rightarrow> nat set \<Rightarrow> bool" where
  "collected A W B S \<longleftrightarrow> S \<subseteq> W \<and> A `` S \<inter> W \<subseteq> S \<and> B \<inter> W \<subseteq> S \<and> (\<forall>u \<in> S. \<exists>b \<in> B. (b, u) \<in> A\<^sup>*)"

lemma collected_union:
  assumes "collected A W B S" and "collected A (W - S) C T"
  shows "collected A W (B \<union> C) (S \<union> T)"
  using assms unfolding collected_def by blast

definition collects :: "nat \<Rightarrow> nat option \<Rightarrow> agraph \<Rightarrow> bool" where
  "collects n d g \<longleftrightarrow> (\<forall>b v. slots_own v \<longrightarrow> length v = g_bbs_count g \<longrightarrow> b \<in> open_slots v \<longrightarrow>
     card (open_slots v) < n \<longrightarrow>
     (\<exists>S. CollectBlocks n d b g v = Inr (fill S v) \<and> b \<in> S \<and> collected (avoiding g d) (open_slots v) {b} S))"

lemma collect_loop:
  assumes IH: "collects n d g"
    and "slots_own v" "length v = g_bbs_count g" "set cs \<subseteq> {..<g_bbs_count g}" "card (open_slots v) < n"
  shows "\<exists>S. fold_res (\<lambda>c w. rbind (nth_res w c) (\<lambda>x. guard (x = None \<or> x = Some c) AssertFailed
      (if x = None \<and> Some c \<noteq> d then CollectBlocks n d c g w else Inr w))) cs v = Inr (fill S v) \<and>
    collected (avoiding g d) (open_slots v) {c \<in> set cs. Some c \<noteq> d} S"
  using assms(2-)
proof (induction cs arbitrary: v)
  case Nil
  then show ?case by (intro exI [of _ "{}"]) (simp add: collected_def)
next
  case (Cons c cs)
  have c: "c < length v" using Cons.prems by simp
  have own: "v ! c = None \<or> v ! c = Some c" using Cons.prems(1) c by (simp add: slots_own_def)
  let ?B = "{b \<in> {c}. Some b \<noteq> d}"
  obtain S where S: "(if v ! c = None \<and> Some c \<noteq> d then CollectBlocks n d c g v else Inr v) = Inr (fill S v)"
    "collected (avoiding g d) (open_slots v) ?B S"
  proof (cases "v ! c = None \<and> Some c \<noteq> d")
    case True
    then have "c \<in> open_slots v" "?B = {c}" using c by (auto simp: open_slots_def)
    then show thesis using IH [unfolded collects_def, rule_format, of v c] Cons.prems True that by auto
  next
    case False
    then have "?B \<inter> open_slots v = {}" using own by (auto simp: open_slots_def)
    then show thesis using False by (intro that [of "{}"]) (auto simp: collected_def)
  qed
  have "card (open_slots (fill S v)) < n" using Cons.prems(4) card_mono [of "open_slots v" "open_slots v - S"] by simp
  then obtain T where T: "fold_res (\<lambda>c w. rbind (nth_res w c) (\<lambda>x. guard (x = None \<or> x = Some c) AssertFailed
      (if x = None \<and> Some c \<noteq> d then CollectBlocks n d c g w else Inr w))) cs (fill S v) = Inr (fill T (fill S v))"
    "collected (avoiding g d) (open_slots (fill S v)) {c \<in> set cs. Some c \<noteq> d} T"
    using Cons.IH [of "fill S v"] Cons.prems(1-3) by auto
  have "?B \<union> {c \<in> set cs. Some c \<noteq> d} = {b \<in> set (c # cs). Some b \<noteq> d}" by auto
  then have "collected (avoiding g d) (open_slots v) {b \<in> set (c # cs). Some b \<noteq> d} (S \<union> T)"
    using collected_union [OF S(2), of "{c \<in> set cs. Some c \<noteq> d}" T] T(2) by simp
  then show ?case using S(1) T(1) c own by (intro exI [of _ "S \<union> T"]) simp
qed

lemma collect: 
  assumes "\<And>u. u < g_bbs_count g \<Longrightarrow> set (bb_succs (g_bb g u)) \<subseteq> {..<g_bbs_count g}"
  shows "collects n d g"
proof (induction n)
  case (Suc n)
  show ?case unfolding collects_def
  proof (intro allI impI)
    fix b v
    assume v: "slots_own v" "length v = g_bbs_count g" and b: "b \<in> open_slots v" and n: "card (open_slots v) < Suc n"
    let ?v = "fill {b} v" and ?A = "avoiding g d"
    have "card (open_slots ?v) < card (open_slots v)"
      using b by (simp add: card_Diff1_less del: card_Diff_insert)
    then obtain S where S: "fold_res (\<lambda>c w. rbind (nth_res w c) (\<lambda>x. guard (x = None \<or> x = Some c) AssertFailed
        (if x = None \<and> Some c \<noteq> d then CollectBlocks n d c g w else Inr w))) (bb_succs (g_bb g b)) ?v = Inr (fill S ?v)"
      "collected ?A (open_slots v - {b}) {c \<in> set (bb_succs (g_bb g b)). Some c \<noteq> d} S"
    proof -
      have "b < g_bbs_count g" using b v(2) by (simp add: open_slots_def)
      then have "slots_own ?v" "length ?v = g_bbs_count g" "set (bb_succs (g_bb g b)) \<subseteq> {..<g_bbs_count g}"
        "card (open_slots ?v) < n" using v assms n \<open>card (open_slots ?v) < card (open_slots v)\<close> by auto
      from collect_loop [OF Suc.IH this] show thesis using that by auto
    qed
    have succ: "{c \<in> set (bb_succs (g_bb g b)). Some c \<noteq> d} = ?A `` {b}" by (auto simp: avoiding_def edges_def)
    have "collected ?A (open_slots v) {b} (insert b S)"
      using S(2) b unfolding succ collected_def by (auto intro: converse_rtrancl_into_rtrancl)
    moreover have "CollectBlocks (Suc n) d b g v = Inr (fill (insert b S) v)"
      using S(1) b v by (simp add: open_slots_def fill_one insert_commute)
    ultimately show "\<exists>S. CollectBlocks (Suc n) d b g v = Inr (fill S v) \<and> b \<in> S \<and> collected ?A (open_slots v) {b} S"
      by blast
  qed
qed (simp add: collects_def)

text \<open>A collection from the entry into an empty vector finds what can be reached without \<open>d\<close>.\<close>

lemma collect_all:
  assumes "cfg_ok g"
  shows "\<exists>v. CollectBlocks (Suc (g_bbs_count g)) d ENTRY_BLOCK_IDX g (replicate (g_bbs_count g) None) = Inr v \<and>
    length v = g_bbs_count g \<and>
    (\<forall>b < g_bbs_count g. v ! b = (if (ENTRY_BLOCK_IDX, b) \<in> (avoiding g d)\<^sup>* then Some b else None))"
proof -
  let ?N = "g_bbs_count g" and ?e = ENTRY_BLOCK_IDX and ?A = "avoiding g d"
  let ?v = "replicate ?N None :: nat option list"
  have all: "open_slots ?v = {..<?N}" by (auto simp: open_slots_def)
  have e: "?e < ?N" using assms by (simp add: cfg_ok_def)
  have succs: "\<And>u. u < ?N \<Longrightarrow> set (bb_succs (g_bb g u)) \<subseteq> {..<?N}" using assms by (simp add: cfg_ok_def)
  have "slots_own ?v" by (simp add: slots_own_def)
  then obtain S where S: "CollectBlocks (Suc ?N) d ?e g ?v = Inr (fill S ?v)" "?e \<in> S" "collected ?A {..<?N} {?e} S"
    using collect [OF succs, unfolded collects_def, rule_format, of ?v ?e "Suc ?N" d] e all
    by (auto simp del: CollectBlocks.simps)
  have closed: "b \<in> S" if "(?e, b) \<in> ?A\<^sup>*" for b
    using that
  proof (induction rule: rtrancl_induct)
    case (step u v)
    then have "u < ?N" using S(3) by (auto simp: collected_def)
    then have "v < ?N" using step.hyps(2) succs by (auto simp: avoiding_def edges_def)
    then show ?case using step S(3) by (auto simp: collected_def)
  qed (rule S(2))
  have "b \<in> S \<longleftrightarrow> (?e, b) \<in> ?A\<^sup>*" for b using closed S(3) by (auto simp: collected_def)
  then show ?thesis using S(1) by auto
qed

subsection \<open>The check\<close>

definition demanded :: "agraph \<Rightarrow> nat \<Rightarrow> nat \<Rightarrow> bool" where
  "demanded g d b \<longleftrightarrow> ((ENTRY_BLOCK_IDX, b) \<notin> (avoiding g (Some d))\<^sup>* \<longrightarrow> IsDominator d b g = Inr True)"

lemma fold_unit: "fold_res f xs () = Inr () \<longleftrightarrow> (\<forall>x \<in> set xs. f x () = Inr ())"
  by (induction xs) (auto simp: res_simps)

lemma check_one:
  assumes "cfg_ok g"
  shows "rbind (CollectBlocks (Suc (g_bbs_count g)) (Some i) ENTRY_BLOCK_IDX g (replicate (g_bbs_count g) None)) (\<lambda>reached.
      fold_res (\<lambda>j w. if reached ! j = None then rbind (IsDominator i j g) (\<lambda>d. guard d AssertFailed (Inr ())) else Inr ())
        [0..<g_bbs_count g] ()) = Inr () \<longleftrightarrow> (\<forall>j < g_bbs_count g. demanded g i j)"
proof -
  obtain v where v: "CollectBlocks (Suc (g_bbs_count g)) (Some i) ENTRY_BLOCK_IDX g (replicate (g_bbs_count g) None) = Inr v"
    "\<forall>b < g_bbs_count g. v ! b = (if (ENTRY_BLOCK_IDX, b) \<in> (avoiding g (Some i))\<^sup>* then Some b else None)"
    using collect_all [OF assms, of "Some i"] by blast
  have "(if v ! j = None then rbind (IsDominator i j g) (\<lambda>d. guard d AssertFailed (Inr ())) else Inr ()) = Inr () \<longleftrightarrow>
      demanded g i j" if "j < g_bbs_count g" for j
    using v(2) that by (auto simp: demanded_def res_simps)
  then show ?thesis unfolding v(1) rbind.simps fold_unit by auto
qed

text \<open>A walk in the graph, and a block that lies on every walk from the entry to another one.\<close>

definition walk :: "'g graph_scheme \<Rightarrow> nat list \<Rightarrow> bool" where
  "walk g p \<longleftrightarrow> p \<noteq> [] \<and> successively (\<lambda>u v. (u, v) \<in> edges g) p"

definition on_every_walk :: "'g graph_scheme \<Rightarrow> nat \<Rightarrow> nat \<Rightarrow> bool" where
  "on_every_walk g d b \<longleftrightarrow> (\<forall>p. walk g p \<and> hd p = ENTRY_BLOCK_IDX \<and> last p = b \<longrightarrow> d \<in> set p)"

lemma avoiding_walk:
  assumes "(a, b) \<in> (avoiding g (Some d))\<^sup>*" "a \<noteq> d"
  shows "\<exists>p. walk g p \<and> hd p = a \<and> last p = b \<and> d \<notin> set p"
  using assms(1)
proof (induction rule: rtrancl_induct)
  case base
  then show ?case using assms(2) by (intro exI [of _ "[a]"]) (simp add: walk_def)
next
  case (step u v)
  then obtain p where "walk g p" "hd p = a" "last p = u" "d \<notin> set p" by blast
  then show ?case
    using step(2) by (intro exI [of _ "p @ [v]"]) (auto simp: walk_def avoiding_def successively_append_iff)
qed

lemma walk_avoiding:
  "walk g p \<Longrightarrow> d \<notin> set p \<Longrightarrow> (hd p, last p) \<in> (avoiding g (Some d))\<^sup>*"
proof (induction p)
  case (Cons u p)
  show ?case
  proof (cases p)
    case (Cons v q)
    then have "(u, v) \<in> avoiding g (Some d)" "walk g p"
      using Cons.prems by (auto simp: walk_def avoiding_def)
    then show ?thesis using Cons Cons.IH Cons.prems(2) by (auto intro: converse_rtrancl_into_rtrancl)
  qed simp
qed (simp add: walk_def)

lemma on_every_walk_iff:
  "d \<noteq> ENTRY_BLOCK_IDX \<Longrightarrow> on_every_walk g d b \<longleftrightarrow> (ENTRY_BLOCK_IDX, b) \<notin> (avoiding g (Some d))\<^sup>*"
  using avoiding_walk [of ENTRY_BLOCK_IDX b g d] walk_avoiding [of g _ d]
  unfolding on_every_walk_def by metis

text \<open>A search that ignores the entry still begins there: it finds everything.\<close>

lemma avoiding_entry: "(a, b) \<in> (edges g)\<^sup>* \<Longrightarrow> (a, b) \<in> (avoiding g (Some a))\<^sup>*"
proof (induction rule: rtrancl_induct)
  case (step u v)
  then show ?case by (cases "v = a") (auto simp: avoiding_def intro: rtrancl_into_rtrancl)
qed simp

text \<open>
  C19: \<open>DomTreeCheck\<close> passes exactly when every block can be reached from the entry and, for every
  block \<open>d\<close> other than the entry, \<open>IsDominator\<close> reports \<open>d\<close> as a dominator of every block that has \<open>d\<close>
  on all walks from the entry to it.  Of the entry itself, which is on every walk, the check demands nothing.
\<close>

theorem dominator_check_exact:
  assumes "cfg_ok g"
  shows "DomTreeCheck g = Inr () \<longleftrightarrow>
    (\<forall>b < g_bbs_count g. (ENTRY_BLOCK_IDX, b) \<in> (edges g)\<^sup>* \<and>
       (\<forall>d < g_bbs_count g. d \<noteq> ENTRY_BLOCK_IDX \<and> on_every_walk g d b \<longrightarrow> IsDominator d b g = Inr True))"
proof -
  let ?N = "g_bbs_count g"
  have one: "demanded g d b \<longleftrightarrow> (d \<noteq> ENTRY_BLOCK_IDX \<and> on_every_walk g d b \<longrightarrow> IsDominator d b g = Inr True)"
    if "(ENTRY_BLOCK_IDX, b) \<in> (edges g)\<^sup>*" for d b
    using avoiding_entry [OF that] on_every_walk_iff [of d g b] unfolding demanded_def
    by (cases "d = ENTRY_BLOCK_IDX") simp_all
  have none: "avoiding g None = edges g" by (auto simp: avoiding_def)
  obtain v where v: "CollectBlocks (Suc ?N) None ENTRY_BLOCK_IDX g (replicate ?N None) = Inr v"
    "\<forall>b < ?N. v ! b = (if (ENTRY_BLOCK_IDX, b) \<in> (edges g)\<^sup>* then Some b else None)"
    using collect_all [OF assms, of None] none by auto
  have e: "GetEntryBlock g = Inr ENTRY_BLOCK_IDX" using assms by (simp add: cfg_ok_def GetEntryBlock_def)
  have "DomTreeCheck g = Inr () \<longleftrightarrow> (\<forall>i < ?N. v ! i = Some i \<and> (\<forall>j < ?N. demanded g i j))"
    unfolding DomTreeCheck_def Let_def e v(1) rbind.simps fold_unit
    by (simp only: guard_eq_Inr check_one [OF assms] set_upt atLeastLessThan_iff Ball_def le0 simp_thms)
  also have "\<dots> \<longleftrightarrow> (\<forall>b < ?N. (ENTRY_BLOCK_IDX, b) \<in> (edges g)\<^sup>* \<and> (\<forall>d < ?N. demanded g d b))"
    using v(2) by auto
  also have "\<dots> \<longleftrightarrow> (\<forall>b < ?N. (ENTRY_BLOCK_IDX, b) \<in> (edges g)\<^sup>* \<and>
       (\<forall>d < ?N. d \<noteq> ENTRY_BLOCK_IDX \<and> on_every_walk g d b \<longrightarrow> IsDominator d b g = Inr True))"
    using one by meson
  finally show ?thesis .
qed

subsection \<open>Blocks that are their own predecessor\<close>

lemma fold_res_fails:
  assumes "x \<in> set xs" and "\<And>u. \<exists>e. f x u = Inl e"
  shows "\<exists>e. fold_res f xs s = Inl e"
  using assms(1)
proof (induction xs arbitrary: s)
  case (Cons y ys)
  show ?case
  proof (cases "f y s")
    case (Inr t)
    then show ?thesis using Cons assms(2) [of s] by auto
  qed auto
qed simp

text \<open>
  A block that is its own predecessor has no semidominator: \<open>FindSemiDom\<close> asserts that the
  numbers of a block and of a predecessor differ, so the dominator tree of a graph with a loop of
  one block cannot be built.
\<close>

theorem self_loop_is_fatal:
  assumes "b \<in> set (bb_preds (g_bb (d_g s) b))"
  shows "\<exists>e. FindSemiDom b s = Inl e"
proof -
  have "\<exists>e. rbind (if NumOf (snd u) (Some b) < NumOf (snd u) (Some b) then Inr (Some b, snd u)
      else rbind (new_mark (snd u)) (\<lambda>w. guard (NumOf w (Some b) < NumOf w (Some b)) AssertFailed
        (FindPredWithLessThan (Suc (g_bbs_count (d_g w))) (NumOf w (Some b)) b w)))
      (\<lambda>(tmp, w). rbind (better w tmp (fst u)) (\<lambda>x. Inr (x, w))) = Inl e" for u :: "nat option \<times> dom_state"
    by (cases "new_mark (snd u)") simp_all
  then have "\<exists>e. fold_res (\<lambda>p (best, t). rbind
      (if NumOf t (Some p) < NumOf t (Some b) then Inr (Some p, t)
       else rbind (new_mark t) (\<lambda>u. guard (NumOf u (Some b) < NumOf u (Some p)) AssertFailed
         (FindPredWithLessThan (Suc (g_bbs_count (d_g u))) (NumOf u (Some b)) p u)))
      (\<lambda>(tmp, u). rbind (better u tmp best) (\<lambda>x. Inr (x, u)))) (bb_preds (g_bb (d_g s) b)) (None, s) = Inl e"
    by (intro fold_res_fails [OF assms]) (simp add: case_prod_unfold)
  then obtain e where e: "fold_res (\<lambda>p (best, t). rbind
      (if NumOf t (Some p) < NumOf t (Some b) then Inr (Some p, t)
       else rbind (new_mark t) (\<lambda>u. guard (NumOf u (Some b) < NumOf u (Some p)) AssertFailed
         (FindPredWithLessThan (Suc (g_bbs_count (d_g u))) (NumOf u (Some b)) p u)))
      (\<lambda>(tmp, u). rbind (better u tmp best) (\<lambda>x. Inr (x, u)))) (bb_preds (g_bb (d_g s) b)) (None, s) = Inl e" ..
  show ?thesis
    unfolding FindSemiDom_def e by (cases "GetEntryBlock (d_g s)") (auto simp: guard_def)
qed

subsection \<open>Examples\<close>

definition demo_tree :: agraph where
  "demo_tree = demo_cfg\<lparr>g_idoms := [Some 2, None, Some 1, Some 2]\<rparr>"

lemma demo_tree_simps [simp]:
  "g_bb demo_tree = g_bb demo_cfg" "g_bbs_count demo_tree = 4" "edges demo_tree = edges demo_cfg"
  "g_idoms demo_tree = [Some 2, None, Some 1, Some 2]"
  by (simp_all add: demo_tree_def demo_succs(3) edges_def)

lemma demo_tree_ok: "cfg_ok demo_tree"
  using demo_ok(1) by (simp add: cfg_ok_def demo_succs(3))

lemma demo_avoiding: "avoiding demo_tree (Some d) = {(u, v) \<in> {(1, 2), (2, 3), (2, 0), (3, 2)}. v \<noteq> d}"
  by (auto simp: avoiding_def demo_edges)

lemma demo_avoids:
  assumes "d < 4" "b < 4" "IsDominator d b demo_tree \<noteq> Inr True"
  shows "(1, b) \<in> (avoiding demo_tree (Some d))\<^sup>*"
proof -
  have e: "GetEntryBlock demo_tree = Inr 1" by (simp add: GetEntryBlock_def ENTRY_BLOCK_IDX_def demo_succs)
  have "b = 1 \<or> (b = 2 \<and> d \<noteq> 2) \<or> (b = 3 \<and> d \<noteq> 2 \<and> d \<noteq> 3) \<or> (b = 0 \<and> d \<noteq> 2 \<and> d \<noteq> 0)"
    using assms unfolding less_4 by (auto simp: IsDominator_def IDomOf_def e deref_def eval_nat_numeral)
  moreover have "(1, 2) \<in> (avoiding demo_tree (Some d))\<^sup>*" if "d \<noteq> 2"
    using that by (intro r_into_rtrancl) (simp add: demo_avoiding)
  moreover have "(2, b) \<in> (avoiding demo_tree (Some d))\<^sup>*" if "d \<noteq> b" "b = 3 \<or> b = 0"
    using that by (intro r_into_rtrancl) (auto simp: demo_avoiding)
  ultimately show ?thesis by (auto intro: rtrancl_trans)
qed

theorem dominator_check_exact_witness: "DomTreeCheck demo_tree = Inr ()"
proof (rule dominator_check_exact [OF demo_tree_ok, THEN iffD2], intro allI impI conjI)
  fix b assume "b < g_bbs_count demo_tree"
  then show "(ENTRY_BLOCK_IDX, b) \<in> (edges demo_tree)\<^sup>*"
    using demo_reach [of b] by (simp add: ENTRY_BLOCK_IDX_def)
next
  fix b d assume "b < g_bbs_count demo_tree" "d < g_bbs_count demo_tree"
    "d \<noteq> ENTRY_BLOCK_IDX \<and> on_every_walk demo_tree d b"
  then show "IsDominator d b demo_tree = Inr True"
    using demo_avoids [of d b] on_every_walk_iff [of d demo_tree b] by (auto simp: ENTRY_BLOCK_IDX_def)
qed

definition loop_state :: dom_state where
  "loop_state = \<lparr>d_g = demo_cfg\<lparr>g_bb := (g_bb demo_cfg)(3 := new_bb\<lparr>bb_preds := [2, 3], bb_succs := [3]\<rparr>)\<rparr>,
     d_mark = 1, v_numbers = [4, 1, 2, 3], sorted_bbs = [Some 0, Some 3, Some 2, Some 1],
     semidoms = [None, None, None, None], spanning_tree_imm_anc = [2, 0, 1, 2], idoms = [None, None, None, None], d_idx = 4\<rparr>"

theorem self_loop_is_fatal_witness: "\<exists>e. FindSemiDom 3 loop_state = Inl e"
  by (rule self_loop_is_fatal) (simp add: loop_state_def)

end
