(* ===== verification/Jit_Loops.thy ===== *)
theory Jit_Loops
  imports Jit_Dom
begin

text \<open>
  Loops (analyses/loop.h): back edges found by a depth-first search, population of reducible loops
  from their back edges, the root loop and the blocks of irreducible loops.  A \<open>Loop *\<close> is an index
  into \<open>g_loops\<close>.  \<open>BasicBlock::loop_\<close> has no initialiser in the code; the model starts it as null,
  which is what the analysis tests for.  The recursions over the blocks have the number of blocks,
  plus one, as fuel for their depth; \<open>DFSIrreducible\<close> keeps no marks, so on a cycle of unvisited
  blocks it does run out.
\<close>

subsection \<open>Loops\<close>

definition upd_loop :: "nat \<Rightarrow> (jloop \<Rightarrow> jloop) \<Rightarrow> agraph \<Rightarrow> agraph" where
  "upd_loop l f g = g\<lparr>g_loops := (g_loops g)(l := f (g_loops g l))\<rparr>"

definition Loop_of :: "nat \<Rightarrow> agraph \<Rightarrow> nat option" where
  "Loop_of b g = bb_loop (g_bb g b)"

definition SetLoop :: "nat \<Rightarrow> nat \<Rightarrow> agraph \<Rightarrow> agraph" where
  "SetLoop b l = upd_bb b (\<lambda>x. x\<lparr>bb_loop := Some l\<rparr>)"

definition IsHeader :: "nat \<Rightarrow> agraph \<Rightarrow> bool res" where
  "IsHeader b g = deref (Loop_of b g) (\<lambda>l. Inr (l_header (g_loops g l) = Some b))"

definition HasInner :: "nat \<Rightarrow> nat \<Rightarrow> agraph \<Rightarrow> bool" where
  "HasInner l i g \<longleftrightarrow> i \<in> set (l_inner (g_loops g l))"

definition IsBackEdge :: "nat \<Rightarrow> nat \<Rightarrow> agraph \<Rightarrow> bool" where
  "IsBackEdge l b g \<longleftrightarrow> b \<in> set (l_back_edges (g_loops g l))"

definition AppendInner :: "nat \<Rightarrow> nat \<Rightarrow> agraph \<Rightarrow> agraph res" where
  "AppendInner l i g =
     guard (\<not> HasInner l i g) AssertFailed (Inr (upd_loop l (\<lambda>x. x\<lparr>l_inner := l_inner x @ [i]\<rparr>) g))"

definition SetOuter :: "nat \<Rightarrow> nat \<Rightarrow> agraph \<Rightarrow> agraph res" where
  "SetOuter l outer g =
     guard (outer \<noteq> l) AssertFailed
       (guard (\<not> HasInner l outer g) AssertFailed
          (case l_outer (g_loops g l) of
             Some old \<Rightarrow> guard (outer = old) AssertFailed (guard (HasInner outer l g) AssertFailed (Inr g))
           | None \<Rightarrow> AppendInner outer l (upd_loop l (\<lambda>x. x\<lparr>l_outer := Some outer\<rparr>) g)))"

definition AppendBackEdge :: "nat \<Rightarrow> nat \<Rightarrow> agraph \<Rightarrow> agraph res" where
  "AppendBackEdge l e g =
     guard (\<not> IsBackEdge l e g) AssertFailed
       (guard (Loop_of e g = None) AssertFailed
          (Inr (SetLoop e l (upd_loop l (\<lambda>x. x\<lparr>l_back_edges := l_back_edges x @ [e]\<rparr>) g))))"

definition NewLoop :: "nat option \<Rightarrow> agraph \<Rightarrow> nat \<times> agraph" where
  "NewLoop header g =
     (let n = (case header of None \<Rightarrow> g_loop_id g | Some _ \<Rightarrow> Suc (g_loop_id g));
          l = \<lparr>l_header = header, l_back_edges = [], l_inner = [], l_outer = None, l_reducible = True,
               l_id = (case header of None \<Rightarrow> 0 | Some _ \<Rightarrow> n)\<rparr>
      in (g_loops_count g,
          g\<lparr>g_loops := (g_loops g)(g_loops_count g := l), g_loops_count := Suc (g_loops_count g), g_loop_id := n\<rparr>))"

subsection \<open>Back edges\<close>

definition ProcessNewBackEdge :: "nat \<Rightarrow> nat \<Rightarrow> agraph \<Rightarrow> agraph res" where
  "ProcessNewBackEdge e b g =
     (let g1 = (if Loop_of b g = None then let (l, h) = NewLoop (Some b) g in SetLoop b l h else g)
      in deref (Loop_of b g1) (\<lambda>l.
           guard (l_header (g_loops g1 l) = Some b) AssertFailed (AppendBackEdge l e g1)))"

text \<open>The two markers of the analyzer: grey (\<open>gb_\<close>) and black (\<open>b_\<close>).\<close>

definition IsGB :: "u32 \<Rightarrow> nat \<Rightarrow> agraph \<Rightarrow> bool" where
  "IsGB gb b g = IsMarked b gb g"

definition IsB :: "u32 \<Rightarrow> u32 \<Rightarrow> nat \<Rightarrow> agraph \<Rightarrow> bool" where
  "IsB gb bm b g \<longleftrightarrow> IsMarked b gb g \<or> IsMarked b bm g"

fun DFSBackEdges :: "nat \<Rightarrow> u32 \<Rightarrow> u32 \<Rightarrow> nat \<Rightarrow> agraph \<Rightarrow> agraph res" where
  "DFSBackEdges 0 gb bm e g = Inl OutOfFuel"
| "DFSBackEdges (Suc n) gb bm e g =
     rbind (fold_res (\<lambda>b h. if IsGB gb b h then ProcessNewBackEdge e b h
                             else if \<not> IsB gb bm b h then DFSBackEdges n gb bm b h
                             else Inr h)
              (bb_succs (g_bb g e)) (Mark e gb g))
       (\<lambda>h. Inr (Mark e bm h))"

subsection \<open>Reducible loops\<close>

fun DFSPopulateBlocks :: "nat \<Rightarrow> nat \<Rightarrow> nat \<Rightarrow> agraph \<Rightarrow> agraph res" where
  "DFSPopulateBlocks 0 l b g = Inl OutOfFuel"
| "DFSPopulateBlocks (Suc n) l b g =
     fold_res (\<lambda>p h.
         case Loop_of p h of
           None \<Rightarrow> DFSPopulateBlocks n l p h
         | Some pl \<Rightarrow>
             if pl \<noteq> l \<and> Some b \<noteq> l_header (g_loops h pl) then
               rbind (SetOuter pl l h) (\<lambda>h1. deref (l_header (g_loops h1 pl)) (\<lambda>c. DFSPopulateBlocks n l c h1))
             else Inr h)
       (bb_preds (g_bb g b)) (if Loop_of b g = None then SetLoop b l g else g)"

definition PopulateBlocks :: "agraph \<Rightarrow> agraph res" where
  "PopulateBlocks g =
     fold_res (\<lambda>p h. deref p (\<lambda>b.
         case Loop_of b h of
           None \<Rightarrow> Inr h
         | Some l \<Rightarrow>
             if l_header (g_loops h l) \<noteq> Some b then Inr h
             else fold_res (\<lambda>e k. rbind (IsDominator b e k) (\<lambda>d.
                    if d then DFSPopulateBlocks (Suc (g_bbs_count k)) l e k
                    else Inr ((upd_loop l (\<lambda>x. x\<lparr>l_reducible := False\<rparr>) k)\<lparr>g_reducible := False\<rparr>)))
                  (l_back_edges (g_loops h l)) h))
       (rev (g_rpo g)) g"

subsection \<open>The root loop\<close>

definition SetRootLoop :: "nat \<Rightarrow> agraph \<Rightarrow> agraph res" where
  "SetRootLoop l g =
     rbind (GetEntryBlock g) (\<lambda>e. guard (Loop_of e g = Some l) AssertFailed (Inr (g\<lparr>g_root_loop := Some l\<rparr>)))"

definition CreateRoot :: "agraph \<Rightarrow> agraph res" where
  "CreateRoot g =
     (let (root, g1) = NewLoop None g in
      rbind (fold_res (\<lambda>p h. deref p (\<lambda>b.
          case Loop_of b h of
            None \<Rightarrow> Inr (SetLoop b root h)
          | Some l \<Rightarrow> if l_outer (g_loops h l) = None then SetOuter l root h else Inr h))
        (g_rpo g1) g1) (SetRootLoop root))"

subsection \<open>Irreducible loops\<close>

fun DFSIrreducible :: "nat \<Rightarrow> u32 \<Rightarrow> u32 \<Rightarrow> nat \<Rightarrow> agraph \<Rightarrow> agraph res" where
  "DFSIrreducible 0 gb bm b g = Inl OutOfFuel"
| "DFSIrreducible (Suc n) gb bm b g =
     deref (Loop_of b g) (\<lambda>l.
       guard (\<not> l_reducible (g_loops g l)) AssertFailed
         (fold_res (\<lambda>p h.
              if IsB gb bm p h then
                guard (Loop_of p h \<noteq> Some l \<or> Some p = l_header (g_loops h l)) AssertFailed (Inr h)
              else
                rbind (IsHeader b h) (\<lambda>hd.
                  guard ((\<not> hd) \<noteq> IsBackEdge l p h) AssertFailed
                    (DFSIrreducible n gb bm p (SetLoop p l h))))
            (bb_preds (g_bb g b)) g))"

definition PopulateIrreducible :: "u32 \<Rightarrow> agraph \<Rightarrow> agraph res" where
  "PopulateIrreducible gb g =
     rbind (NewMarker g) (\<lambda>(bm, g1).
       fold_res (\<lambda>p h. deref p (\<lambda>b.
           let h1 = Mark b bm h in
           rbind (IsHeader b h1) (\<lambda>hd.
             if \<not> hd then Inr h1
             else deref (Loop_of b h1) (\<lambda>l.
               if l_reducible (g_loops h1 l) then Inr h1
               else DFSIrreducible (Suc (g_bbs_count h1)) gb bm b h1))))
         (g_rpo g1) g1)"

text \<open>The constructor of \<open>LoopAnalyzer\<close>, called by \<open>Graph::AnalyzeLoops\<close>.\<close>

definition AnalyzeLoops :: "agraph \<Rightarrow> agraph res" where
  "AnalyzeLoops g =
     rbind (NewMarker g) (\<lambda>(gb, g1).
       rbind (NewMarker g1) (\<lambda>(bm, g2).
         rbind (DomTreeCheck g2) (\<lambda>u.
           rbind (GetEntryBlock g2) (\<lambda>e.
             rbind (DFSBackEdges (Suc (g_bbs_count g2)) gb bm e g2) (\<lambda>g3.
               rbind (PopulateBlocks g3) (\<lambda>g4.
                 rbind (CreateRoot g4) (PopulateIrreducible gb)))))))"

definition IsLoopAnalysisValid :: "agraph \<Rightarrow> bool" where
  "IsLoopAnalysisValid g \<longleftrightarrow> g_root_loop g \<noteq> None"

subsection \<open>The loop forest\<close>

text \<open>
  What every step keeps: the lists of inner loops are exactly the inverse of \<open>outer_\<close>, without
  repetition, no loop is its own outer loop, and the loops that blocks refer to were created.
\<close>

definition loop_forest :: "agraph \<Rightarrow> bool" where
  "loop_forest g \<longleftrightarrow>
     (\<forall>l < g_loops_count g. distinct (l_inner (g_loops g l)) \<and> l_outer (g_loops g l) \<noteq> Some l \<and>
        (\<forall>i. i \<in> set (l_inner (g_loops g l)) \<longleftrightarrow> i < g_loops_count g \<and> l_outer (g_loops g i) = Some l)) \<and>
     (\<forall>l < g_loops_count g. \<forall>p. l_outer (g_loops g l) = Some p \<longrightarrow> p < g_loops_count g) \<and>
     (\<forall>b l. Loop_of b g = Some l \<longrightarrow> l < g_loops_count g)"

text \<open>How the state grows: no block loses its loop and no loop its outer loop.\<close>

definition grows :: "agraph \<Rightarrow> agraph \<Rightarrow> bool" where
  "grows g h \<longleftrightarrow> g_rpo h = g_rpo g \<and> g_loops_count g \<le> g_loops_count h \<and>
     (\<forall>b. Loop_of b g \<noteq> None \<longrightarrow> Loop_of b h \<noteq> None) \<and>
     (\<forall>l < g_loops_count g. l_outer (g_loops g l) \<noteq> None \<longrightarrow> l_outer (g_loops h l) \<noteq> None)"

lemma grows_refl [simp]: "grows g g"
  by (simp add: grows_def)

lemma grows_trans: "grows g h \<Longrightarrow> grows h k \<Longrightarrow> grows g k"
  by (auto simp: grows_def)

text \<open>A step that keeps the forest and grows.\<close>

definition keeps :: "agraph \<Rightarrow> agraph \<Rightarrow> bool" where
  "keeps g h \<longleftrightarrow> (loop_forest g \<longrightarrow> loop_forest h \<and> grows g h)"

lemma keeps_refl [simp]: "keeps g g"
  by (simp add: keeps_def)

lemma keeps_trans: "keeps g h \<Longrightarrow> keeps h k \<Longrightarrow> keeps g k"
  by (auto simp: keeps_def intro: grows_trans)

lemma keeps_fold:
  assumes "fold_res f xs g = Inr h" and "\<And>x u v. x \<in> set xs \<Longrightarrow> keeps g u \<Longrightarrow> f x u = Inr v \<Longrightarrow> keeps u v"
  shows "keeps g h"
proof (rule fold_res_invariant [OF assms(1), where P = "keeps g"])
  show "x \<in> set xs \<Longrightarrow> keeps g u \<Longrightarrow> f x u = Inr v \<Longrightarrow> keeps g v" for x u v
    using assms(2) keeps_trans by blast
qed simp

lemma Mark_simps [simp]:
  "g_loops (Mark b m g) = g_loops g" "g_loops_count (Mark b m g) = g_loops_count g"
  "Loop_of c (Mark b m g) = Loop_of c g" "g_rpo (Mark b m g) = g_rpo g" "g_bb (Mark b m g) = g_bb g"
  "g_root_loop (Mark b m g) = g_root_loop g"
  by (simp_all add: Mark_def Loop_of_def)

lemma Loop_of_SetLoop [simp]: "Loop_of c (SetLoop b l g) = (if c = b then Some l else Loop_of c g)"
  by (simp add: Loop_of_def SetLoop_def upd_bb_def)

lemma SetLoop_simps [simp]:
  "g_loops (SetLoop b l g) = g_loops g" "g_loops_count (SetLoop b l g) = g_loops_count g" "g_rpo (SetLoop b l g) = g_rpo g"
  "g_root_loop (SetLoop b l g) = g_root_loop g"
  by (simp_all add: SetLoop_def upd_bb_def)

lemma upd_loop_simps [simp]:
  "g_loops (upd_loop l f g) = (g_loops g)(l := f (g_loops g l))" "g_loops_count (upd_loop l f g) = g_loops_count g"
  "g_rpo (upd_loop l f g) = g_rpo g" "Loop_of b (upd_loop l f g) = Loop_of b g"
  "g_root_loop (upd_loop l f g) = g_root_loop g"
  by (simp_all add: upd_loop_def Loop_of_def)

lemma keeps_Mark [simp]: "keeps g (Mark b m g)"
  by (simp add: keeps_def loop_forest_def grows_def)

lemma keeps_SetLoop: "l < g_loops_count g \<Longrightarrow> keeps g (SetLoop b l g)"
  by (auto simp: keeps_def loop_forest_def grows_def)

lemma keeps_upd_loop:
  assumes "l_inner (f (g_loops g l)) = l_inner (g_loops g l)" "l_outer (f (g_loops g l)) = l_outer (g_loops g l)"
  shows "keeps g (upd_loop l f g)"
  using assms by (auto simp: keeps_def loop_forest_def grows_def fun_upd_def)

lemma keeps_reducible: "keeps g (g\<lparr>g_reducible := False\<rparr>)"
  by (simp add: keeps_def loop_forest_def grows_def Loop_of_def)

lemma keeps_SetOuter:
  assumes "SetOuter l p g = Inr h" and "l < g_loops_count g" "p < g_loops_count g"
  shows "keeps g h" and "loop_forest g \<Longrightarrow> l_outer (g_loops h l) = Some p" and "g_bb h = g_bb g" "g_loops_count h = g_loops_count g"
    "\<And>k. l_header (g_loops h k) = l_header (g_loops g k)"
proof -
  have ne: "p \<noteq> l" "p \<notin> set (l_inner (g_loops g l))" using assms(1) by (auto simp: SetOuter_def res_simps HasInner_def)
  have "keeps g h \<and> (loop_forest g \<longrightarrow> l_outer (g_loops h l) = Some p) \<and> g_bb h = g_bb g \<and> g_loops_count h = g_loops_count g \<and>
      (\<forall>k. l_header (g_loops h k) = l_header (g_loops g k))"
  proof (cases "l_outer (g_loops g l)")
    case (Some old)
    then show ?thesis using assms(1) by (auto simp: SetOuter_def res_simps)
  next
    case None
    then have h: "h = upd_loop p (\<lambda>x. x\<lparr>l_inner := l_inner x @ [l]\<rparr>) (upd_loop l (\<lambda>x. x\<lparr>l_outer := Some p\<rparr>) g)"
      and out: "l \<notin> set (l_inner (g_loops g p))"
      using assms(1) ne by (auto simp: SetOuter_def AppendInner_def HasInner_def res_simps)
    have "loop_forest h" if "loop_forest g"
    proof -
      have "\<forall>k < g_loops_count g. l \<notin> set (l_inner (g_loops g k))" using that None by (simp add: loop_forest_def)
      then show ?thesis using that None ne assms(2,3) out unfolding h loop_forest_def by auto
    qed
    then show ?thesis using None ne by (auto simp: h keeps_def grows_def) (auto simp: upd_loop_def)
  qed
  then show "keeps g h" "loop_forest g \<Longrightarrow> l_outer (g_loops h l) = Some p" "g_bb h = g_bb g" "g_loops_count h = g_loops_count g"
    "\<And>k. l_header (g_loops h k) = l_header (g_loops g k)" by auto
qed

lemma keeps_NewLoop: "keeps g (snd (NewLoop hdr g))"
proof -
  have "loop_forest (snd (NewLoop hdr g))" if "loop_forest g"
  proof -
    have "l_outer (g_loops g l) \<noteq> Some (g_loops_count g)" if "l < g_loops_count g" for l
      using \<open>loop_forest g\<close> that by (auto simp: loop_forest_def)
    then show ?thesis using that by (auto simp: loop_forest_def NewLoop_def Let_def Loop_of_def less_Suc_eq)
  qed
  then show ?thesis by (auto simp: keeps_def grows_def NewLoop_def Let_def Loop_of_def)
qed

lemma NewLoop_fst: "fst (NewLoop hdr g) = g_loops_count g" "g_loops_count (snd (NewLoop hdr g)) = Suc (g_loops_count g)"
  by (simp_all add: NewLoop_def Let_def)

lemma forest_loop: "loop_forest g \<Longrightarrow> Loop_of b g = Some l \<Longrightarrow> l < g_loops_count g"
  by (auto simp: loop_forest_def)

lemma keeps_if: "(loop_forest g \<Longrightarrow> keeps g h) \<Longrightarrow> keeps g h"
  by (simp add: keeps_def)

lemma keeps_forest: "keeps g h \<Longrightarrow> loop_forest g \<Longrightarrow> loop_forest h"
  by (simp add: keeps_def)

lemma keeps_count: "keeps g h \<Longrightarrow> loop_forest g \<Longrightarrow> l < g_loops_count g \<Longrightarrow> l < g_loops_count h"
  by (auto simp: keeps_def grows_def)

lemma keeps_AppendBackEdge: "AppendBackEdge l e g = Inr h \<Longrightarrow> l < g_loops_count g \<Longrightarrow> keeps g h"
  by (auto simp: AppendBackEdge_def res_simps
      intro!: keeps_trans [OF keeps_upd_loop keeps_SetLoop])

lemma keeps_ProcessNewBackEdge:
  assumes "ProcessNewBackEdge e b g = Inr h"
  shows "keeps g h"
proof (rule keeps_if)
  assume f: "loop_forest g"
  define g1 where "g1 = (if Loop_of b g = None then let (l, h) = NewLoop (Some b) g in SetLoop b l h else g)"
  have "keeps g (SetLoop b (fst (NewLoop (Some b) g)) (snd (NewLoop (Some b) g)))"
    by (rule keeps_trans [OF keeps_NewLoop keeps_SetLoop]) (simp add: NewLoop_fst)
  then have k: "keeps g g1" by (simp add: g1_def case_prod_unfold Let_def)
  from assms obtain l where l: "Loop_of b g1 = Some l" "AppendBackEdge l e g1 = Inr h"
    by (auto simp: ProcessNewBackEdge_def g1_def [symmetric] deref_def res_simps Let_def)
  have "l < g_loops_count g1" using forest_loop l(1) keeps_forest [OF k f] by blast
  then show "keeps g h" using k keeps_AppendBackEdge [OF l(2)] keeps_trans by blast
qed

lemma keeps_DFSBackEdges: "DFSBackEdges n gb bm e g = Inr h \<Longrightarrow> keeps g h"
proof (induction n arbitrary: e g h)
  case (Suc n)
  from Suc.prems obtain k where k: "fold_res (\<lambda>b h. if IsGB gb b h then ProcessNewBackEdge e b h
      else if \<not> IsB gb bm b h then DFSBackEdges n gb bm b h else Inr h) (bb_succs (g_bb g e)) (Mark e gb g) = Inr k"
    and h: "h = Mark e bm k" by (auto simp: res_simps)
  have "keeps (Mark e gb g) k"
    by (rule keeps_fold [OF k]) (auto split: if_splits intro: keeps_ProcessNewBackEdge Suc.IH)
  then show ?case using keeps_trans keeps_Mark h by blast
qed simp

lemma keeps_DFSPopulateBlocks: "DFSPopulateBlocks n l b g = Inr h \<Longrightarrow> l < g_loops_count g \<Longrightarrow> keeps g h"
proof (induction n arbitrary: b g h)
  case (Suc n)
  define g1 where "g1 = (if Loop_of b g = None then SetLoop b l g else g)"
  have k: "keeps g g1" "l < g_loops_count g1" using Suc.prems(2) by (auto simp: g1_def keeps_SetLoop)
  have "keeps g1 h"
  proof (rule keeps_if, rule keeps_fold [OF Suc.prems(1) [unfolded DFSPopulateBlocks.simps g1_def [symmetric]]])
    fix p u v
    assume f: "loop_forest g1" and ku: "keeps g1 u" and step: "(case Loop_of p u of None \<Rightarrow> DFSPopulateBlocks n l p u
        | Some pl \<Rightarrow> if pl \<noteq> l \<and> Some b \<noteq> l_header (g_loops u pl)
            then rbind (SetOuter pl l u) (\<lambda>h1. deref (l_header (g_loops h1 pl)) (\<lambda>c. DFSPopulateBlocks n l c h1))
            else Inr u) = Inr v"
    have l: "l < g_loops_count u" by (rule keeps_count [OF ku f k(2)])
    show "keeps u v"
    proof (cases "Loop_of p u")
      case None
      then show ?thesis using step Suc.IH l by simp
    next
      case (Some pl)
      then have pl: "pl < g_loops_count u" using forest_loop keeps_forest [OF ku f] by blast
      show ?thesis
      proof (cases "pl \<noteq> l \<and> Some b \<noteq> l_header (g_loops u pl)")
        case True
        then obtain h1 c where "SetOuter pl l u = Inr h1" "DFSPopulateBlocks n l c h1 = Inr v"
          using step Some by (auto simp: res_simps deref_def)
        then show ?thesis
          using keeps_trans keeps_SetOuter(1,4) [OF _ pl l] Suc.IH l by (metis (no_types, lifting))
      qed (use step Some in auto)
    qed
  qed
  then show ?case using k(1) keeps_trans by blast
qed simp

lemma keeps_PopulateBlocks:
  assumes "PopulateBlocks g = Inr h"
  shows "keeps g h"
proof (rule keeps_if, rule keeps_fold [OF assms [unfolded PopulateBlocks_def]])
  fix p u v
  assume f: "loop_forest g" and ku: "keeps g u" and step: "deref p (\<lambda>b. case Loop_of b u of None \<Rightarrow> Inr u
      | Some l \<Rightarrow> if l_header (g_loops u l) \<noteq> Some b then Inr u
          else fold_res (\<lambda>e k. rbind (IsDominator b e k) (\<lambda>d. if d then DFSPopulateBlocks (Suc (g_bbs_count k)) l e k
            else Inr ((upd_loop l (\<lambda>x. x\<lparr>l_reducible := False\<rparr>) k)\<lparr>g_reducible := False\<rparr>))) (l_back_edges (g_loops u l)) u) = Inr v"
  from step obtain b where b: "p = Some b" by (cases p) (auto simp: deref_def)
  show "keeps u v"
  proof (cases "\<exists>l. Loop_of b u = Some l \<and> l_header (g_loops u l) = Some b")
    case True
    then obtain l where l: "Loop_of b u = Some l" "l_header (g_loops u l) = Some b" by blast
    have fu: "loop_forest u" by (rule keeps_forest [OF ku f])
    from step l have run: "fold_res (\<lambda>e k. rbind (IsDominator b e k) (\<lambda>d. if d then DFSPopulateBlocks (Suc (g_bbs_count k)) l e k
        else Inr ((upd_loop l (\<lambda>x. x\<lparr>l_reducible := False\<rparr>) k)\<lparr>g_reducible := False\<rparr>))) (l_back_edges (g_loops u l)) u = Inr v"
      by (simp add: b deref_def)
    show ?thesis
    proof (rule keeps_fold [OF run])
      fix e k w
      assume k: "keeps u k" and s: "rbind (IsDominator b e k) (\<lambda>d. if d then DFSPopulateBlocks (Suc (g_bbs_count k)) l e k
        else Inr ((upd_loop l (\<lambda>x. x\<lparr>l_reducible := False\<rparr>) k)\<lparr>g_reducible := False\<rparr>)) = Inr w"
      have "l < g_loops_count k" by (rule keeps_count [OF k fu forest_loop [OF fu l(1)]])
      moreover have "keeps k ((upd_loop l (\<lambda>x. x\<lparr>l_reducible := False\<rparr>) k)\<lparr>g_reducible := False\<rparr>)"
        by (rule keeps_trans [OF keeps_upd_loop keeps_reducible]) simp_all
      ultimately show "keeps k w" using s keeps_DFSPopulateBlocks
        by (auto simp: res_simps simp del: DFSPopulateBlocks.simps split: if_splits)
    qed
  next
    case False
    then show ?thesis using step by (auto simp: b deref_def split: option.splits if_splits)
  qed
qed

subsection \<open>The root\<close>

text \<open>The loop of a block is the root or lies in another loop.\<close>

definition rooted :: "nat \<Rightarrow> nat \<Rightarrow> agraph \<Rightarrow> bool" where
  "rooted r b g \<longleftrightarrow> (\<exists>l. Loop_of b g = Some l \<and> (l = r \<or> l_outer (g_loops g l) \<noteq> None))"

definition settles :: "nat \<Rightarrow> agraph \<Rightarrow> agraph \<Rightarrow> bool" where
  "settles r g h \<longleftrightarrow> keeps g h \<and> g_root_loop h = g_root_loop g \<and>
     (loop_forest g \<longrightarrow> (\<forall>b. rooted r b g \<longrightarrow> rooted r b h))"

lemma settles_refl [simp]: "settles r g g"
  by (simp add: settles_def)

lemma settles_trans: "settles r g h \<Longrightarrow> settles r h k \<Longrightarrow> settles r g k"
  by (auto simp: settles_def keeps_def intro: grows_trans)

lemma settles_keeps: "settles r g h \<Longrightarrow> keeps g h"
  by (simp add: settles_def)

lemma settles_SetLoop: "l < g_loops_count g \<Longrightarrow> l = r \<or> l_outer (g_loops g l) \<noteq> None \<Longrightarrow> settles r g (SetLoop b l g)"
  by (auto simp: settles_def keeps_SetLoop rooted_def)

lemma settles_Mark [simp]: "settles r g (Mark b m g)"
  by (simp add: settles_def rooted_def)

lemma settles_SetOuter:
  assumes "SetOuter l p g = Inr h" "l < g_loops_count g" "p < g_loops_count g"
  shows "settles r g h"
proof -
  note k = keeps_SetOuter [OF assms]
  have "g_root_loop h = g_root_loop g"
    using assms(1) by (auto simp: SetOuter_def AppendInner_def res_simps split: option.splits)
  moreover have "rooted r b h" if f: "loop_forest g" and b: "rooted r b g" for b
  proof -
    from b obtain l where l: "Loop_of b g = Some l" "l = r \<or> l_outer (g_loops g l) \<noteq> None" by (auto simp: rooted_def)
    have "Loop_of b h = Some l" using l(1) k(3) by (simp add: Loop_of_def)
    moreover have "l_outer (g_loops g l) \<noteq> None \<Longrightarrow> l_outer (g_loops h l) \<noteq> None"
      using k(1) f forest_loop [OF f l(1)] by (auto simp: keeps_def grows_def)
    ultimately show ?thesis using l(2) by (auto simp: rooted_def)
  qed
  ultimately show ?thesis using k(1) by (simp add: settles_def)
qed

lemma create_loop:
  assumes "fold_res (\<lambda>p h. deref p (\<lambda>b. case Loop_of b h of None \<Rightarrow> Inr (SetLoop b r h)
      | Some l \<Rightarrow> if l_outer (g_loops h l) = None then SetOuter l r h else Inr h)) ps g = Inr h"
    and "loop_forest g" and "r < g_loops_count g"
  shows "settles r g h \<and> (\<forall>b. Some b \<in> set ps \<longrightarrow> rooted r b h)"
  using assms
proof (induction ps arbitrary: g)
  case (Cons p ps)
  from Cons.prems(1) obtain b u where b: "p = Some b" and u: "(case Loop_of b g of None \<Rightarrow> Inr (SetLoop b r g)
      | Some l \<Rightarrow> if l_outer (g_loops g l) = None then SetOuter l r g else Inr g) = Inr u"
    and rest: "fold_res (\<lambda>p h. deref p (\<lambda>b. case Loop_of b h of None \<Rightarrow> Inr (SetLoop b r h)
      | Some l \<Rightarrow> if l_outer (g_loops h l) = None then SetOuter l r h else Inr h)) ps u = Inr h"
    by (cases p) (auto simp: res_simps deref_def)
  have "settles r g u \<and> rooted r b u"
  proof (cases "Loop_of b g")
    case None
    then show ?thesis using u Cons.prems(3) settles_SetLoop [of r g r b] by (auto simp: rooted_def)
  next
    case (Some l)
    have l: "l < g_loops_count g" by (rule forest_loop [OF Cons.prems(2) Some])
    show ?thesis
    proof (cases "l_outer (g_loops g l) = None")
      case True
      then have o: "SetOuter l r g = Inr u" using u Some by simp
      note k = keeps_SetOuter [OF o l Cons.prems(3)]
      have "Loop_of b u = Some l" using Some k(3) by (simp add: Loop_of_def)
      then show ?thesis using settles_SetOuter [OF o l Cons.prems(3)] k(2) [OF Cons.prems(2)] by (auto simp: rooted_def)
    next
      case False
      then show ?thesis using u Some by (auto simp: rooted_def)
    qed
  qed
  then have one: "settles r g u" "rooted r b u" by auto
  have f: "loop_forest u" "r < g_loops_count u"
    using keeps_forest keeps_count settles_keeps [OF one(1)] Cons.prems(2,3) by blast+
  have IH: "settles r u h" "\<forall>b. Some b \<in> set ps \<longrightarrow> rooted r b h" using Cons.IH [OF rest f] by auto
  then have "rooted r b h" using one(2) f(1) by (auto simp: settles_def)
  then show ?case using settles_trans [OF one(1) IH(1)] IH(2) b by auto
qed simp

lemma settles_DFSIrreducible:
  "DFSIrreducible n gb bm b g = Inr h \<Longrightarrow> loop_forest g \<Longrightarrow> rooted r b g \<Longrightarrow> settles r g h"
proof (induction n arbitrary: b g h)
  case (Suc n)
  from Suc.prems(1,3) obtain l where l: "Loop_of b g = Some l" "l = r \<or> l_outer (g_loops g l) \<noteq> None"
    and run: "fold_res (\<lambda>p h. if IsB gb bm p h
        then guard (Loop_of p h \<noteq> Some l \<or> Some p = l_header (g_loops h l)) AssertFailed (Inr h)
        else rbind (IsHeader b h) (\<lambda>hd. guard ((\<not> hd) \<noteq> IsBackEdge l p h) AssertFailed
          (DFSIrreducible n gb bm p (SetLoop p l h)))) (bb_preds (g_bb g b)) g = Inr h"
    by (auto simp: rooted_def deref_def res_simps)
  have lc: "l < g_loops_count g" by (rule forest_loop [OF Suc.prems(2) l(1)])
  show ?case
  proof (rule fold_res_invariant [OF run, where P = "settles r g"])
    fix p u v
    assume u: "settles r g u" and step: "(if IsB gb bm p u
        then guard (Loop_of p u \<noteq> Some l \<or> Some p = l_header (g_loops u l)) AssertFailed (Inr u)
        else rbind (IsHeader b u) (\<lambda>hd. guard ((\<not> hd) \<noteq> IsBackEdge l p u) AssertFailed
          (DFSIrreducible n gb bm p (SetLoop p l u)))) = Inr v"
    have k: "keeps g u" by (rule settles_keeps [OF u])
    have fu: "loop_forest u" by (rule keeps_forest [OF k Suc.prems(2)])
    have lu: "l < g_loops_count u" by (rule keeps_count [OF k Suc.prems(2) lc])
    have "l_outer (g_loops g l) \<noteq> None \<Longrightarrow> l_outer (g_loops u l) \<noteq> None"
      using k Suc.prems(2) lc by (auto simp: keeps_def grows_def)
    then have ro: "l = r \<or> l_outer (g_loops u l) \<noteq> None" using l(2) by blast
    show "settles r g v"
    proof (cases "IsB gb bm p u")
      case True
      then show ?thesis using step u by (auto simp: res_simps)
    next
      case False
      then have d: "DFSIrreducible n gb bm p (SetLoop p l u) = Inr v" using step by (auto simp: res_simps)
      have s: "settles r u (SetLoop p l u)" by (rule settles_SetLoop [OF lu ro])
      have "rooted r p (SetLoop p l u)" using ro by (auto simp: rooted_def)
      then have "settles r (SetLoop p l u) v"
        by (rule Suc.IH [OF d keeps_forest [OF settles_keeps [OF s] fu]])
      then show ?thesis using u s settles_trans by blast
    qed
  qed simp
qed simp

lemma settles_NewMarker: "NewMarker g = Inr (m, h) \<Longrightarrow> settles r g h"
  by (auto simp: NewMarker_def res_simps settles_def keeps_def loop_forest_def grows_def rooted_def Loop_of_def)

lemma settles_PopulateIrreducible:
  assumes "PopulateIrreducible gb g = Inr h" and f: "loop_forest g"
    and rpo: "\<forall>b. Some b \<in> set (g_rpo g) \<longrightarrow> rooted r b g"
  shows "settles r g h"
proof -
  from assms(1) obtain bm g1 where m: "NewMarker g = Inr (bm, g1)"
    and run: "fold_res (\<lambda>p h. deref p (\<lambda>b. let h1 = Mark b bm h in rbind (IsHeader b h1) (\<lambda>hd.
        if \<not> hd then Inr h1 else deref (Loop_of b h1) (\<lambda>l. if l_reducible (g_loops h1 l) then Inr h1
          else DFSIrreducible (Suc (g_bbs_count h1)) gb bm b h1)))) (g_rpo g1) g1 = Inr h"
    by (auto simp: PopulateIrreducible_def res_simps)
  have s1: "settles r g g1" by (rule settles_NewMarker [OF m])
  have rpo1: "g_rpo g1 = g_rpo g" using m by (auto simp: NewMarker_def res_simps)
  have "settles r g h"
  proof (rule fold_res_invariant [OF run, where P = "settles r g"])
    fix p u v
    assume p: "p \<in> set (g_rpo g1)" and u: "settles r g u" and step: "deref p (\<lambda>b. let h1 = Mark b bm u in
      rbind (IsHeader b h1) (\<lambda>hd. if \<not> hd then Inr h1 else deref (Loop_of b h1) (\<lambda>l.
        if l_reducible (g_loops h1 l) then Inr h1 else DFSIrreducible (Suc (g_bbs_count h1)) gb bm b h1))) = Inr v"
    from step obtain b where b: "p = Some b" by (cases p) (auto simp: deref_def)
    let ?u = "Mark b bm u"
    have su: "settles r g ?u" by (rule settles_trans [OF u settles_Mark])
    have fu: "loop_forest ?u" by (rule keeps_forest [OF settles_keeps [OF su] f])
    have "rooted r b ?u" using p b rpo rpo1 su f by (auto simp: settles_def)
    moreover have "v = ?u \<or> DFSIrreducible (Suc (g_bbs_count ?u)) gb bm b ?u = Inr v"
      using step unfolding b by (auto simp: deref_def res_simps Let_def simp del: DFSIrreducible.simps split: if_splits)
    ultimately show "settles r g v"
      using su settles_DFSIrreducible [OF _ fu] settles_trans by blast
  qed (rule s1)
  then show ?thesis .
qed

text \<open>The analysis of a fresh graph in its phases: the loops are consistent, and every block of the order is rooted.\<close>

lemma analysed:
  assumes "AnalyzeLoops g = Inr h" and "g_loops_count g = 0" and "\<forall>b. Loop_of b g = None"
  obtains gb g1 bm g2 e g3 g4 g5 where "NewMarker g = Inr (gb, g1)" "NewMarker g1 = Inr (bm, g2)"
    "GetEntryBlock g2 = Inr e" "DFSBackEdges (Suc (g_bbs_count g2)) gb bm e g2 = Inr g3" "PopulateBlocks g3 = Inr g4"
    "CreateRoot g4 = Inr g5" "PopulateIrreducible gb g5 = Inr h" "loop_forest g4" "loop_forest h"
    "\<And>b. Some b \<in> set (g_rpo g) \<Longrightarrow> rooted (g_loops_count g4) b g5 \<and> rooted (g_loops_count g4) b h"
proof -
  from assms(1) obtain gb g1 bm g2 e g3 g4 g5 where r: "NewMarker g = Inr (gb, g1)" "NewMarker g1 = Inr (bm, g2)"
    "DFSBackEdges (Suc (g_bbs_count g2)) gb bm e g2 = Inr g3" "PopulateBlocks g3 = Inr g4" "CreateRoot g4 = Inr g5"
    "PopulateIrreducible gb g5 = Inr h" "GetEntryBlock g2 = Inr e"
    by (auto simp: AnalyzeLoops_def res_simps simp del: DFSBackEdges.simps)
  have f: "loop_forest g" using assms(2,3) by (simp add: loop_forest_def)
  have "keeps g g4"
    using settles_NewMarker [OF r(1)] settles_NewMarker [OF r(2)] keeps_DFSBackEdges [OF r(3)] keeps_PopulateBlocks [OF r(4)]
    by (blast intro: keeps_trans settles_keeps)
  then have g4: "loop_forest g4" "g_rpo g4 = g_rpo g" using f by (auto simp: keeps_def grows_def)
  define ro where "ro = fst (NewLoop None g4)"
  define n4 where "n4 = snd (NewLoop None g4)"
  have n4: "loop_forest n4" "ro < g_loops_count n4" "g_rpo n4 = g_rpo g"
    using keeps_NewLoop [of g4 None] g4 NewLoop_fst [of None g4] by (auto simp: keeps_def grows_def n4_def ro_def)
  have pr: "NewLoop None g4 = (ro, n4)" by (simp add: ro_def n4_def)
  from r(5) obtain h4 where h4: "fold_res (\<lambda>p h. deref p (\<lambda>b. case Loop_of b h of None \<Rightarrow> Inr (SetLoop b ro h)
      | Some l \<Rightarrow> if l_outer (g_loops h l) = None then SetOuter l ro h else Inr h)) (g_rpo n4) n4 = Inr h4"
    and g5: "g5 = h4\<lparr>g_root_loop := Some ro\<rparr>"
    by (auto simp: CreateRoot_def pr res_simps SetRootLoop_def)
  note c = create_loop [OF h4 n4(1,2)]
  have c4: "loop_forest h4" "g_rpo h4 = g_rpo g" using c n4 by (auto simp: settles_def keeps_def grows_def)
  have g5f: "loop_forest g5" "g_rpo g5 = g_rpo g" "\<forall>b. Some b \<in> set (g_rpo g) \<longrightarrow> rooted ro b g5"
    using c4 c n4(3) by (auto simp: g5 loop_forest_def rooted_def Loop_of_def)
  have "settles ro g5 h" by (rule settles_PopulateIrreducible [OF r(6)]) (use g5f in simp_all)
  then have "loop_forest h" "\<And>b. Some b \<in> set (g_rpo g) \<Longrightarrow> rooted ro b g5 \<and> rooted ro b h"
    using g5f by (auto simp: settles_def keeps_def)
  moreover have "ro = g_loops_count g4" by (simp add: ro_def NewLoop_fst)
  ultimately show thesis using that r g4(1) by blast
qed

subsection \<open>An example\<close>

lemma small_markers: "(0 :: u32) < - 1" "(1 :: u32) < - 1" "(2 :: u32) < - 1"
  by (simp_all add: word_order.not_eq_extremum [symmetric])

definition demo_ready :: agraph where
  "demo_ready = demo_tree\<lparr>g_rpo := [Some 1, Some 2, Some 0, Some 3]\<rparr>"

lemmas loop_defs = IsGB_def IsB_def IsMarked_def Mark_def ProcessNewBackEdge_def Loop_of_def NewLoop_def SetLoop_def
  upd_bb_def AppendBackEdge_def IsBackEdge_def upd_loop_def PopulateBlocks_def CreateRoot_def SetRootLoop_def
  PopulateIrreducible_def NewMarker_def IsHeader_def IsDominator_def IDomOf_def SetOuter_def AppendInner_def HasInner_def
  GetEntryBlock_def ENTRY_BLOCK_IDX_def deref_def Let_def

lemmas demo_defs = demo_ready_def demo_tree_def demo_cfg_def new_bb_def

lemma demo_analysed: "\<exists>h. AnalyzeLoops demo_ready = Inr h"
proof -
  have check: "DomTreeCheck (demo_ready\<lparr>g_marker := 2\<rparr>) = Inr ()"
    by (simp add: DomTreeCheck_def demo_defs eval_nat_numeral loop_defs)
  have m: "g_marker demo_ready = 0" by (simp add: demo_defs)
  have n: "NewMarker demo_ready = Inr (1, demo_ready\<lparr>g_marker := 1\<rparr>)"
    "NewMarker (demo_ready\<lparr>g_marker := 1\<rparr>) = Inr (2, demo_ready\<lparr>g_marker := 2\<rparr>)"
    by (simp_all add: NewMarker_def m small_markers)
  show ?thesis
    unfolding AnalyzeLoops_def n rbind.simps prod.case check
    by (simp add: small_markers demo_defs eval_nat_numeral loop_defs)
qed

end
