(* ===== verification/Jit_LoopTree.thy ===== *)
theory Jit_LoopTree
  imports Jit_Loops
begin

text \<open>
  The loops form a tree (analyses/loop.h).  The depth-first search for back edges discovers the blocks
  in an order (\<open>discovery\<close>) in which every block but the entry comes after one of its predecessors and
  every block of a loop after its header.  Populating a loop visits a set of blocks that is closed
  under predecessors up to inner loops (\<open>visited_from\<close>); if the entry is not in it, and it is not, because
  the assertion on the root loop would fail, the set lies behind the header.  So an outer loop has
  an earlier header than its inner loops, and the chain of outer loops of every loop ends at the root.
\<close>

subsection \<open>Positions in a list\<close>

definition pos :: "nat list \<Rightarrow> nat \<Rightarrow> nat" where
  "pos vs x = length (takeWhile (\<lambda>y. y \<noteq> x) vs)"

lemma pos_less: "pos vs x < length vs \<longleftrightarrow> x \<in> set vs"
  by (induction vs) (auto simp: pos_def)

lemma pos_le: "pos vs x \<le> length vs"
  by (simp add: pos_def length_takeWhile_le)

lemma pos_append: "x \<in> set vs \<Longrightarrow> pos (vs @ ws) x = pos vs x"
  by (induction vs) (auto simp: pos_def)

lemma pos_new: "x \<notin> set vs \<Longrightarrow> pos (vs @ x # ws) x = length vs"
  by (simp add: pos_def takeWhile_append)

lemma pos_inject: "x \<in> set vs \<Longrightarrow> pos vs x = pos vs y \<Longrightarrow> x = y"
proof (induction vs)
  case (Cons v vs)
  then show ?case by (auto simp: pos_def split: if_splits)
qed simp

subsection \<open>The order of discovery\<close>

definition tree_order :: "agraph \<Rightarrow> nat list \<Rightarrow> bool" where
  "tree_order g vs \<longleftrightarrow> (\<forall>b \<in> set vs. b \<noteq> ENTRY_BLOCK_IDX \<longrightarrow> (\<exists>p \<in> set (bb_preds (g_bb g b)). pos vs p < pos vs b))"

definition discovered :: "u32 \<Rightarrow> u32 \<Rightarrow> agraph \<Rightarrow> nat list \<Rightarrow> bool" where
  "discovered gb bm g vs \<longleftrightarrow> distinct vs \<and> set vs \<subseteq> {..<g_bbs_count g} \<and> (\<forall>b. IsB gb bm b g \<longleftrightarrow> b \<in> set vs) \<and> tree_order g vs"

text \<open>The loops while back edges are collected: their headers and blocks have been discovered.\<close>

definition headed :: "agraph \<Rightarrow> nat list \<Rightarrow> nat \<Rightarrow> nat \<Rightarrow> bool" where
  "headed g vs b l \<longleftrightarrow> b \<in> set vs \<and> l < g_loops_count g \<and>
     (\<exists>c \<in> set vs. l_header (g_loops g l) = Some c \<and> pos vs c \<le> pos vs b)"

definition lone :: "agraph \<Rightarrow> nat list \<Rightarrow> nat \<Rightarrow> bool" where
  "lone g vs l \<longleftrightarrow> l_outer (g_loops g l) = None \<and> (\<exists>c \<in> set vs. l_header (g_loops g l) = Some c \<and> Loop_of c g = Some l)"

definition discovery :: "u32 \<Rightarrow> u32 \<Rightarrow> agraph \<Rightarrow> nat list \<Rightarrow> bool" where
  "discovery gb bm g vs \<longleftrightarrow> discovered gb bm g vs \<and>
     (\<forall>b l. Loop_of b g = Some l \<longrightarrow> headed g vs b l) \<and> (\<forall>l < g_loops_count g. lone g vs l)"

lemma discoveryD:
  assumes "discovery gb bm g vs"
  shows "discovered gb bm g vs" "IsB gb bm b g \<longleftrightarrow> b \<in> set vs" "Loop_of b g = Some l \<Longrightarrow> headed g vs b l"
    "l < g_loops_count g \<Longrightarrow> lone g vs l" "distinct vs" "tree_order g vs"
  using assms by (auto simp: discovery_def discovered_def)

definition same_cfg :: "agraph \<Rightarrow> agraph \<Rightarrow> bool" where
  "same_cfg g h \<longleftrightarrow> g_bbs_count h = g_bbs_count g \<and>
     (\<forall>b. bb_preds (g_bb h b) = bb_preds (g_bb g b) \<and> bb_succs (g_bb h b) = bb_succs (g_bb g b))"

lemma same_cfg_simps [simp]:
  "same_cfg g g" "same_cfg g (Mark b m h) = same_cfg g h" "same_cfg g (SetLoop b l h) = same_cfg g h"
  "same_cfg g (upd_loop l f h) = same_cfg g h"
  by (auto simp: same_cfg_def Mark_def SetLoop_def upd_bb_def upd_loop_def)

lemma same_cfg_trans: "same_cfg g h \<Longrightarrow> same_cfg h k \<Longrightarrow> same_cfg g k"
  by (simp add: same_cfg_def)

lemma tree_order_cfg: "same_cfg g h \<Longrightarrow> tree_order h vs = tree_order g vs"
  by (simp add: tree_order_def same_cfg_def)

definition cfg_linked :: "agraph \<Rightarrow> bool" where
  "cfg_linked g \<longleftrightarrow> (\<forall>u < g_bbs_count g. \<forall>v \<in> set (bb_succs (g_bb g u)). v < g_bbs_count g \<and> u \<in> set (bb_preds (g_bb g v)))"

lemma cfg_linked_cfg: "same_cfg g h \<Longrightarrow> cfg_linked h = cfg_linked g"
  by (simp add: cfg_linked_def same_cfg_def)

lemma marks_simps [simp]:
  "IsGB gb b (Mark e m g) \<longleftrightarrow> (if b = e then m = gb else IsGB gb b g)"
  "IsB gb bm b (Mark e m g) \<longleftrightarrow> (if b = e then m = gb \<or> m = bm else IsB gb bm b g)"
  "IsGB gb b (SetLoop e l g) = IsGB gb b g" "IsB gb bm b (SetLoop e l g) = IsB gb bm b g"
  "IsGB gb b (upd_loop k f g) = IsGB gb b g" "IsB gb bm b (upd_loop k f g) = IsB gb bm b g"
  by (auto simp: IsGB_def IsB_def IsMarked_def Mark_def SetLoop_def upd_bb_def upd_loop_def)

lemma discovery_enter:
  assumes "discovery gb bm g vs" and "e \<notin> set vs" and "e < g_bbs_count g"
    and "e = ENTRY_BLOCK_IDX \<or> (\<exists>p \<in> set (bb_preds (g_bb g e)). p \<in> set vs)"
  shows "discovery gb bm (Mark e gb g) (vs @ [e])"
proof -
  have old: "pos (vs @ [e]) x = pos vs x" if "x \<in> set vs" for x using that by (rule pos_append)
  have low: "pos vs p < length vs" if "p \<in> set vs" for p using that by (simp add: pos_less)
  have "\<exists>p \<in> set (bb_preds (g_bb g b)). pos (vs @ [e]) p < pos (vs @ [e]) b" if b: "b \<in> set vs" "b \<noteq> ENTRY_BLOCK_IDX" for b
  proof -
    obtain p where p: "p \<in> set (bb_preds (g_bb g b))" "pos vs p < pos vs b"
      using assms(1) b by (auto simp: discovery_def discovered_def tree_order_def)
    then have "p \<in> set vs" using pos_less [of vs p] pos_le [of vs b] by linarith
    then show ?thesis using p b(1) by (intro bexI [of _ p]) (simp_all add: old)
  qed
  moreover have "\<exists>p \<in> set (bb_preds (g_bb g e)). pos (vs @ [e]) p < pos (vs @ [e]) e" if e: "e \<noteq> ENTRY_BLOCK_IDX"
  proof -
    obtain p where "p \<in> set (bb_preds (g_bb g e))" "p \<in> set vs" using assms(4) e by blast
    then show ?thesis using pos_new [OF assms(2), of "[]"] low old by (intro bexI [of _ p]) simp_all
  qed
  ultimately have "tree_order (Mark e gb g) (vs @ [e])" by (auto simp: tree_order_def)
  then have "discovered gb bm (Mark e gb g) (vs @ [e])"
    using assms(1-3) by (auto simp: discovery_def discovered_def Mark_def IsB_def IsMarked_def)
  moreover have "headed (Mark e gb g) (vs @ [e]) b l" if "Loop_of b g = Some l" for b l
    using discoveryD(3) [OF assms(1) that] old by (auto simp: headed_def)
  moreover have "lone (Mark e gb g) (vs @ [e]) l" if "l < g_loops_count g" for l
    using discoveryD(4) [OF assms(1) that] by (auto simp: lone_def)
  ultimately show ?thesis by (simp add: discovery_def)
qed

text \<open>A block gets its loop: a new one as its header, or as a back edge.\<close>

lemma discovered_cfg:
  assumes "same_cfg g h" and "\<And>b. IsB gb bm b h = IsB gb bm b g"
  shows "discovered gb bm h vs = discovered gb bm g vs"
  using assms tree_order_cfg [OF assms(1)] by (simp add: discovered_def same_cfg_def)

lemma discovery_SetLoop:
  assumes d: "discovery gb bm g vs" and none: "Loop_of e g = None" and e: "e \<in> set vs" and l: "l < g_loops_count g"
    and c: "l_header (g_loops g l) = Some c" "c \<in> set vs" "pos vs c \<le> pos vs e"
  shows "discovery gb bm (SetLoop e l g) vs"
  unfolding discovery_def
proof (intro conjI allI impI)
  show "discovered gb bm (SetLoop e l g) vs"
    using discoveryD(1) [OF d] discovered_cfg [of g "SetLoop e l g" gb bm vs] by simp
  show "headed (SetLoop e l g) vs b k" if "Loop_of b (SetLoop e l g) = Some k" for b k
    using that discoveryD(3) [OF d, of b k] e l c by (auto simp: headed_def split: if_splits)
  show "lone (SetLoop e l g) vs k" if "k < g_loops_count (SetLoop e l g)" for k
    using that discoveryD(4) [OF d, of k] none by (auto simp: lone_def)
qed

lemma NewLoop_simps:
  "g_bb (snd (NewLoop b g)) = g_bb g" "g_bbs_count (snd (NewLoop b g)) = g_bbs_count g"
  "g_marks (snd (NewLoop b g)) = g_marks g" "g_rpo (snd (NewLoop b g)) = g_rpo g"
  "l_header (g_loops (snd (NewLoop b g)) (g_loops_count g)) = b"
  "l_outer (g_loops (snd (NewLoop b g)) (g_loops_count g)) = None"
  "l < g_loops_count g \<Longrightarrow> g_loops (snd (NewLoop b g)) l = g_loops g l"
  "Loop_of c (snd (NewLoop b g)) = Loop_of c g"
  by (simp_all add: NewLoop_def Let_def Loop_of_def)

lemma discovery_header:
  assumes d: "discovery gb bm g vs" and none: "Loop_of b g = None" and b: "b \<in> set vs"
  shows "discovery gb bm (SetLoop b (g_loops_count g) (snd (NewLoop (Some b) g))) vs" (is "discovery gb bm ?h vs")
  unfolding discovery_def
proof (intro conjI allI impI)
  have "same_cfg g ?h" by (simp add: same_cfg_def SetLoop_def upd_bb_def NewLoop_simps)
  moreover have "IsB gb bm x ?h = IsB gb bm x g" for x by (simp add: IsB_def IsMarked_def SetLoop_def upd_bb_def NewLoop_simps)
  ultimately show "discovered gb bm ?h vs" using discoveryD(1) [OF d] discovered_cfg by metis
  have l: "g_loops ?h l = g_loops g l" if "l < g_loops_count g" for l using that by (simp add: NewLoop_simps)
  show "headed ?h vs x l" if "Loop_of x ?h = Some l" for x l
  proof (cases "x = b")
    case True
    then show ?thesis using that b by (auto simp: headed_def NewLoop_simps NewLoop_fst)
  next
    case False
    then have x: "Loop_of x g = Some l" using that by (simp add: NewLoop_simps)
    then have "l < g_loops_count g" using discoveryD(3) [OF d] by (auto simp: headed_def)
    then show ?thesis using discoveryD(3) [OF d x] by (auto simp: headed_def l NewLoop_fst simp del: SetLoop_simps(1))
  qed
  show "lone ?h vs l" if "l < g_loops_count ?h" for l
  proof (cases "l = g_loops_count g")
    case True
    then show ?thesis using b by (simp add: lone_def NewLoop_simps)
  next
    case False
    then have lt: "l < g_loops_count g" using that by (simp add: NewLoop_fst)
    from discoveryD(4) [OF d lt] obtain c where "c \<in> set vs" "l_header (g_loops g l) = Some c" "Loop_of c g = Some l"
      "l_outer (g_loops g l) = None" by (auto simp: lone_def)
    moreover have "c \<noteq> b" using none \<open>Loop_of c g = Some l\<close> by auto
    ultimately show ?thesis unfolding lone_def l [OF lt] by (auto simp: NewLoop_simps)
  qed
qed

lemma discovery_back_edge:
  assumes "discovery gb bm g vs" and "ProcessNewBackEdge e b g = Inr h" and "b \<in> set vs" "e \<in> set vs" "pos vs b \<le> pos vs e"
  shows "discovery gb bm h vs \<and> same_cfg g h \<and> (\<forall>x. IsGB gb x h = IsGB gb x g)"
proof -
  define g1 where "g1 = (if Loop_of b g = None then SetLoop b (g_loops_count g) (snd (NewLoop (Some b) g)) else g)"
  have "discovery gb bm g1 vs" using assms(1,3) discovery_header by (simp add: g1_def)
  moreover have "same_cfg g g1" "\<forall>x. IsGB gb x g1 = IsGB gb x g"
    by (simp_all add: g1_def same_cfg_def SetLoop_def upd_bb_def IsGB_def IsMarked_def NewLoop_simps)
  ultimately have g1: "discovery gb bm g1 vs" "same_cfg g g1" "\<forall>x. IsGB gb x g1 = IsGB gb x g" by blast+
  have code: "(if Loop_of b g = None then let (l, h) = NewLoop (Some b) g in SetLoop b l h else g) = g1"
    using NewLoop_fst(1) [of "Some b" g] by (cases "NewLoop (Some b) g") (simp add: g1_def)
  from assms(2) obtain l where l: "Loop_of b g1 = Some l" "l_header (g_loops g1 l) = Some b" "AppendBackEdge l e g1 = Inr h"
    unfolding ProcessNewBackEdge_def code by (auto simp: Let_def deref_def res_simps)
  from l(3) have e: "Loop_of e g1 = None"
    and h: "h = SetLoop e l (upd_loop l (\<lambda>x. x\<lparr>l_back_edges := l_back_edges x @ [e]\<rparr>) g1)"
    by (auto simp: AppendBackEdge_def res_simps)
  let ?u = "upd_loop l (\<lambda>x. x\<lparr>l_back_edges := l_back_edges x @ [e]\<rparr>) g1"
  have lc: "l < g_loops_count g1" using discoveryD(3) [OF g1(1) l(1)] by (simp add: headed_def)
  have "discovered gb bm ?u vs = discovered gb bm g1 vs" by (rule discovered_cfg) simp_all
  moreover have "headed ?u vs x k = headed g1 vs x k" "lone ?u vs k = lone g1 vs k" for x k
    by (auto simp: headed_def lone_def)
  ultimately have "discovery gb bm ?u vs" using g1(1) by (simp add: discovery_def)
  then have "discovery gb bm h vs"
    unfolding h by (rule discovery_SetLoop) (use e lc l(2) assms(3-5) in simp_all)
  then show ?thesis using g1(2,3) by (simp add: h)
qed

text \<open>The search appends what it discovers; the blocks that are grey stay grey.\<close>

lemma DFSBackEdges_discovery:
  "DFSBackEdges n gb bm e g = Inr h \<Longrightarrow> discovery gb bm g vs \<Longrightarrow> cfg_linked g \<Longrightarrow> gb \<noteq> bm \<Longrightarrow> e \<notin> set vs \<Longrightarrow>
   e < g_bbs_count g \<Longrightarrow> e = ENTRY_BLOCK_IDX \<or> (\<exists>p \<in> set (bb_preds (g_bb g e)). p \<in> set vs) \<Longrightarrow>
   \<exists>ws. discovery gb bm h (vs @ e # ws) \<and> same_cfg g h \<and> (\<forall>x. IsGB gb x h = IsGB gb x g)"
proof (induction n arbitrary: e g h vs)
  case (Suc n)
  from Suc.prems(1) obtain k where k: "fold_res (\<lambda>b h. if IsGB gb b h then ProcessNewBackEdge e b h
      else if \<not> IsB gb bm b h then DFSBackEdges n gb bm b h else Inr h) (bb_succs (g_bb g e)) (Mark e gb g) = Inr k"
    and h: "h = Mark e bm k" by (auto simp: res_simps)
  let ?P = "\<lambda>u. \<exists>ws. discovery gb bm u (vs @ e # ws) \<and> same_cfg g u \<and> (\<forall>x. IsGB gb x u \<longleftrightarrow> x = e \<or> IsGB gb x g)"
  have "?P k"
  proof (rule fold_res_invariant [OF k])
    show "?P (Mark e gb g)"
      using discovery_enter [OF Suc.prems(2,5,6,7)] by (intro exI [of _ "[]"]) auto
  next
    fix b u v
    assume b: "b \<in> set (bb_succs (g_bb g e))" and u: "?P u" and step: "(if IsGB gb b u then ProcessNewBackEdge e b u
      else if \<not> IsB gb bm b u then DFSBackEdges n gb bm b u else Inr u) = Inr v"
    from u obtain ws where d: "discovery gb bm u (vs @ e # ws)" and c: "same_cfg g u"
      and grey: "\<And>x. IsGB gb x u \<longleftrightarrow> x = e \<or> IsGB gb x g" by blast
    have link: "b < g_bbs_count g" "e \<in> set (bb_preds (g_bb g b))"
      using Suc.prems(3,6) b by (auto simp: cfg_linked_def)
    show "?P v"
    proof (cases "IsGB gb b u")
      case True
      have "b = e \<or> b \<in> set vs" using True grey discoveryD(2) [OF Suc.prems(2), of b] by (auto simp: IsB_def IsGB_def)
      then have "pos (vs @ e # ws) b \<le> pos (vs @ e # ws) e" "b \<in> set (vs @ e # ws)"
        using pos_new [OF Suc.prems(5), of ws] pos_less [of vs b] by (auto simp: pos_append)
      then show ?thesis
        using discovery_back_edge [OF d, of e b v] step True c grey same_cfg_trans by (intro exI [of _ ws]) auto
    next
      case grey_no: False
      show ?thesis
      proof (cases "IsB gb bm b u")
        case True
        then show ?thesis using step grey_no u by simp
      next
        case False
        then have run: "DFSBackEdges n gb bm b u = Inr v" using step grey_no by simp
        have "b \<notin> set (vs @ e # ws)" using False discoveryD(2) [OF d] by simp
        moreover have "b < g_bbs_count u" "\<exists>p \<in> set (bb_preds (g_bb u b)). p \<in> set (vs @ e # ws)"
          using link c by (auto simp: same_cfg_def)
        ultimately obtain ys where "discovery gb bm v ((vs @ e # ws) @ b # ys)" "same_cfg u v" "\<forall>x. IsGB gb x v = IsGB gb x u"
          using Suc.IH [OF run d _ Suc.prems(4)] Suc.prems(3) cfg_linked_cfg [OF c] by blast
        then show ?thesis using same_cfg_trans [OF c] grey by (intro exI [of _ "ws @ b # ys"]) simp
      qed
    qed
  qed
  then obtain ws where d: "discovery gb bm k (vs @ e # ws)" and c: "same_cfg g k"
    and grey: "\<And>x. IsGB gb x k \<longleftrightarrow> x = e \<or> IsGB gb x g" by blast
  have e: "\<not> IsGB gb e g" using discoveryD(2) [OF Suc.prems(2), of e] Suc.prems(5) by (auto simp: IsB_def IsGB_def)
  have "IsB gb bm x h = IsB gb bm x k" for x using discoveryD(2) [OF d, of e] by (simp add: h)
  then have "discovered gb bm h (vs @ e # ws) = discovered gb bm k (vs @ e # ws)"
    by (intro discovered_cfg) (simp_all add: h)
  moreover have "headed h (vs @ e # ws) x l = headed k (vs @ e # ws) x l" "lone h (vs @ e # ws) l = lone k (vs @ e # ws) l" for x l
    by (auto simp: h headed_def lone_def)
  ultimately have "discovery gb bm h (vs @ e # ws)"
    using d by (simp add: discovery_def) (simp add: h)
  then show ?case using c grey e Suc.prems(4) by (intro exI [of _ ws]) (auto simp: h)
qed simp

subsection \<open>Populating a loop\<close>

text \<open>
  \<open>V\<close> is the set of blocks on which \<open>DFSPopulateBlocks\<close> was called for the loop \<open>l\<close> between two states.
  A predecessor of such a block was visited, or belonged to \<open>l\<close> before, or lies in an inner loop of
  which the header was visited or is the block itself.
\<close>

definition left_alone :: "agraph \<Rightarrow> nat \<Rightarrow> nat set \<Rightarrow> nat \<Rightarrow> nat \<Rightarrow> bool" where
  "left_alone g l V b p \<longleftrightarrow> p \<in> V \<or> Loop_of p g = Some l \<or>
     (\<exists>k c. Loop_of p g = Some k \<and> l_header (g_loops g k) = Some c \<and> (c = b \<or> c \<in> V))"

definition same_loops :: "agraph \<Rightarrow> agraph \<Rightarrow> bool" where
  "same_loops g h \<longleftrightarrow> same_cfg g h \<and> g_loops_count h = g_loops_count g \<and> (\<forall>k. l_header (g_loops h k) = l_header (g_loops g k))"

definition visited_from :: "nat \<Rightarrow> agraph \<Rightarrow> agraph \<Rightarrow> nat set \<Rightarrow> bool" where
  "visited_from l g h V \<longleftrightarrow> same_loops g h \<and>
     (\<forall>x. Loop_of x h = Loop_of x g \<or> Loop_of x g = None \<and> Loop_of x h = Some l \<and> x \<in> V) \<and>
     (\<forall>x \<in> V. Loop_of x h \<noteq> None) \<and>
     (\<forall>x \<in> V. \<forall>p \<in> set (bb_preds (g_bb g x)). left_alone g l V x p) \<and>
     (\<forall>k. l_outer (g_loops h k) = l_outer (g_loops g k) \<or>
        l_outer (g_loops h k) = Some l \<and> k \<noteq> l \<and> (\<exists>c \<in> V. l_header (g_loops g k) = Some c))"

lemma same_loops_refl [simp]: "same_loops g g"
  by (simp add: same_loops_def)

lemma same_loops_trans: "same_loops g h \<Longrightarrow> same_loops h k \<Longrightarrow> same_loops g k"
  using same_cfg_trans by (auto simp: same_loops_def)

lemma visited_refl: "visited_from l g g {}"
  by (simp add: visited_from_def)

lemma visited_loop:
  assumes "visited_from l g h V"
  shows "Loop_of x h = Loop_of x g \<or> Loop_of x g = None \<and> Loop_of x h = Some l \<and> x \<in> V"
    and "x \<in> V \<Longrightarrow> Loop_of x h \<noteq> None"
    and "l_outer (g_loops h k) = l_outer (g_loops g k) \<or>
      l_outer (g_loops h k) = Some l \<and> k \<noteq> l \<and> (\<exists>c \<in> V. l_header (g_loops g k) = Some c)"
  using assms unfolding visited_from_def by blast+

text \<open>A predecessor left alone in a later state was left alone in the earlier one.\<close>

lemma left_alone_back:
  assumes v: "visited_from l g h V" and p: "left_alone h l W b p"
  shows "left_alone g l (V \<union> W) b p"
proof (cases "Loop_of p h = Loop_of p g")
  case True
  have "l_header (g_loops h k) = l_header (g_loops g k)" for k using v by (simp add: visited_from_def same_loops_def)
  then show ?thesis using p True by (auto simp: left_alone_def)
next
  case False
  then show ?thesis using visited_loop(1) [OF v, of p] by (auto simp: left_alone_def)
qed

lemma left_alone_mono: "left_alone g l V b p \<Longrightarrow> V \<subseteq> W \<Longrightarrow> left_alone g l W b p"
  unfolding left_alone_def by blast

lemma visited_trans:
  assumes gh: "visited_from l g h V" and hk: "visited_from l h k W"
  shows "visited_from l g k (V \<union> W)"
  unfolding visited_from_def
proof (intro conjI allI ballI)
  have s: "same_loops g h" "same_loops h k" using gh hk by (simp_all add: visited_from_def)
  show "same_loops g k" using same_loops_trans [OF s] .
  show "Loop_of x k = Loop_of x g \<or> Loop_of x g = None \<and> Loop_of x k = Some l \<and> x \<in> V \<union> W" for x
    using visited_loop(1) [OF gh, of x] visited_loop(1) [OF hk, of x] by auto
  show "Loop_of x k \<noteq> None" if "x \<in> V \<union> W" for x
    using that visited_loop(2) [OF gh, of x] visited_loop(1,2) [OF hk, of x] by auto
  show "left_alone g l (V \<union> W) x p" if x: "x \<in> V \<union> W" and p: "p \<in> set (bb_preds (g_bb g x))" for x p
  proof (cases "x \<in> V")
    case True
    then have "left_alone g l V x p" using gh p by (simp add: visited_from_def)
    then show ?thesis by (rule left_alone_mono) simp
  next
    case False
    then have "left_alone h l W x p" using hk x p s(1) by (simp add: visited_from_def same_loops_def same_cfg_def)
    then show ?thesis by (rule left_alone_back [OF gh])
  qed
  show "l_outer (g_loops k m) = l_outer (g_loops g m) \<or>
      l_outer (g_loops k m) = Some l \<and> m \<noteq> l \<and> (\<exists>c \<in> V \<union> W. l_header (g_loops g m) = Some c)" for m
  proof -
    have "l_header (g_loops h m) = l_header (g_loops g m)" using s(1) by (simp add: same_loops_def)
    then show ?thesis using visited_loop(3) [OF gh, of m] visited_loop(3) [OF hk, of m] by auto
  qed
qed

text \<open>An inner loop is entered: its outer loop is set, and the search goes on at its header.\<close>

lemma SetOuter_effect:
  assumes "SetOuter k l g = Inr h"
  shows "same_loops g h" "Loop_of x h = Loop_of x g" "k \<noteq> l"
    "l_outer (g_loops h m) = l_outer (g_loops g m) \<or> m = k \<and> l_outer (g_loops h m) = Some l"
  using assms
  by (auto simp: SetOuter_def AppendInner_def res_simps same_loops_def split: option.splits if_splits)

lemma visited_inner:
  assumes o: "SetOuter k l g = Inr h" and c: "l_header (g_loops g k) = Some c" "c \<in> V" and v: "visited_from l h w V"
  shows "visited_from l g w V"
proof -
  note e = SetOuter_effect [OF o]
  have cfg: "bb_preds (g_bb h x) = bb_preds (g_bb g x)" "l_header (g_loops h m) = l_header (g_loops g m)" for x m
    using e(1) by (simp_all add: same_loops_def same_cfg_def)
  have left: "left_alone h l V x p = left_alone g l V x p" for x p by (simp add: left_alone_def e(2) cfg)
  have out: "l_outer (g_loops w m) = l_outer (g_loops g m) \<or>
      l_outer (g_loops w m) = Some l \<and> m \<noteq> l \<and> (\<exists>c \<in> V. l_header (g_loops g m) = Some c)" for m
    using visited_loop(3) [OF v, of m] e(3) e(4) [of m] c by (auto simp: cfg)
  show ?thesis
    using v out same_loops_trans [OF e(1)] unfolding visited_from_def by (simp add: e(2) cfg left)
qed

lemma DFSPopulateBlocks_visits:
  "DFSPopulateBlocks n l b g = Inr h \<Longrightarrow> \<exists>V. b \<in> V \<and> visited_from l g h V"
proof (induction n arbitrary: b g h)
  case (Suc n)
  define g1 where "g1 = (if Loop_of b g = None then SetLoop b l g else g)"
  let ?f = "\<lambda>p h. case Loop_of p h of None \<Rightarrow> DFSPopulateBlocks n l p h
    | Some pl \<Rightarrow> if pl \<noteq> l \<and> Some b \<noteq> l_header (g_loops h pl)
        then rbind (SetOuter pl l h) (\<lambda>h1. deref (l_header (g_loops h1 pl)) (\<lambda>c. DFSPopulateBlocks n l c h1)) else Inr h"
  have step: "\<exists>V. visited_from l u v V \<and> left_alone u l V b p" if run: "?f p u = Inr v" for p u v
  proof (cases "Loop_of p u")
    case None
    then obtain V where "p \<in> V" "visited_from l u v V" using run Suc.IH [of p u v] by auto
    then show ?thesis by (auto simp: left_alone_def)
  next
    case (Some k)
    show ?thesis
    proof (cases "k \<noteq> l \<and> Some b \<noteq> l_header (g_loops u k)")
      case True
      then obtain h1 c where o: "SetOuter k l u = Inr h1" and c: "l_header (g_loops h1 k) = Some c"
        and inner: "DFSPopulateBlocks n l c h1 = Inr v"
        using run Some by (auto simp: res_simps deref_def split: option.splits)
      obtain V where V: "c \<in> V" "visited_from l h1 v V" using Suc.IH [OF inner] by blast
      have c': "l_header (g_loops u k) = Some c" using c SetOuter_effect(1) [OF o] by (simp add: same_loops_def)
      have "left_alone u l V b p" using Some c' V(1) by (auto simp: left_alone_def)
      then show ?thesis using visited_inner [OF o c' V] by blast
    next
      case False
      then have "v = u" using run Some by auto
      then show ?thesis using False Some visited_refl [of l u] by (intro exI [of _ "{}"]) (auto simp: left_alone_def)
    qed
  qed
  have fold: "\<exists>V. visited_from l u v V \<and> (\<forall>p \<in> set ps. left_alone u l V b p)" if "fold_res ?f ps u = Inr v" for ps u v
    using that
  proof (induction ps arbitrary: u)
    case Nil
    then show ?case using visited_refl [of l u] by (intro exI [of _ "{}"]) simp
  next
    case (Cons p ps)
    from Cons.prems obtain w where w: "?f p u = Inr w" and rest: "fold_res ?f ps w = Inr v" by (auto simp: res_simps)
    from step [OF w] obtain V where V: "visited_from l u w V" "left_alone u l V b p" by blast
    from Cons.IH [OF rest] obtain W where W: "visited_from l w v W" "\<forall>p \<in> set ps. left_alone w l W b p" by blast
    have "left_alone u l (V \<union> W) b q" if "q \<in> set (p # ps)" for q
      using that V(2) W(2) left_alone_back [OF V(1)] left_alone_mono [of u l V b q "V \<union> W"] by auto
    then show ?case using visited_trans [OF V(1) W(1)] by blast
  qed
  have "fold_res ?f (bb_preds (g_bb g b)) g1 = Inr h" using Suc.prems by (simp add: g1_def)
  from fold [OF this] obtain V where V: "visited_from l g1 h V" "\<forall>p \<in> set (bb_preds (g_bb g b)). left_alone g1 l V b p" by blast
  have g1: "same_loops g g1" "Loop_of b g1 \<noteq> None" "l_outer (g_loops g1 k) = l_outer (g_loops g k)"
    "Loop_of x g1 = Loop_of x g \<or> x = b \<and> Loop_of x g = None \<and> Loop_of x g1 = Some l" for x k
    by (auto simp: g1_def same_loops_def)
  have left: "left_alone g l (insert b V) x p" if "left_alone g1 l V x p" for x p
  proof (cases "Loop_of p g1 = Loop_of p g")
    case True
    have "l_header (g_loops g1 k) = l_header (g_loops g k)" for k using g1(1) by (simp add: same_loops_def)
    then show ?thesis using that unfolding left_alone_def True by auto
  next
    case False
    then show ?thesis using g1(4) [of p] by (auto simp: left_alone_def)
  qed
  have "visited_from l g h (insert b V)"
    unfolding visited_from_def
  proof (intro conjI allI ballI)
    show "same_loops g h" using same_loops_trans [OF g1(1)] V(1) by (simp add: visited_from_def)
    show "Loop_of x h = Loop_of x g \<or> Loop_of x g = None \<and> Loop_of x h = Some l \<and> x \<in> insert b V" for x
      using visited_loop(1) [OF V(1), of x] g1(4) [of x] by auto
    show "Loop_of x h \<noteq> None" if "x \<in> insert b V" for x
      using that visited_loop(1,2) [OF V(1), of x] g1(2) by auto
    show "left_alone g l (insert b V) x p" if "x \<in> insert b V" "p \<in> set (bb_preds (g_bb g x))" for x p
    proof (rule left, cases "x = b")
      case False
      then show "left_alone g1 l V x p" using that V(1) g1(1) by (auto simp: visited_from_def same_loops_def same_cfg_def)
    qed (use V(2) that in simp)
    show "l_outer (g_loops h k) = l_outer (g_loops g k) \<or>
        l_outer (g_loops h k) = Some l \<and> k \<noteq> l \<and> (\<exists>c \<in> insert b V. l_header (g_loops g k) = Some c)" for k
      using visited_loop(3) [OF V(1), of k] g1(1,3) by (auto simp: same_loops_def)
  qed
  then show ?case by blast
qed simp

text \<open>
  The loops are ranked by the positions of their headers: a block comes after the header of its loop,
  and the header of a loop after that of the outer one.
\<close>

definition header_pos :: "agraph \<Rightarrow> nat list \<Rightarrow> nat \<Rightarrow> nat" where
  "header_pos g vs l = (case l_header (g_loops g l) of None \<Rightarrow> 0 | Some c \<Rightarrow> pos vs c)"

definition ranked_loops :: "agraph \<Rightarrow> nat list \<Rightarrow> bool" where
  "ranked_loops g vs \<longleftrightarrow> tree_order g vs \<and>
     (\<forall>b l. Loop_of b g = Some l \<longrightarrow> l < g_loops_count g \<and> header_pos g vs l \<le> pos vs b) \<and>
     (\<forall>l < g_loops_count g. \<exists>c \<in> set vs. l_header (g_loops g l) = Some c \<and> Loop_of c g = Some l) \<and>
     (\<forall>l < g_loops_count g. \<forall>p. l_outer (g_loops g l) = Some p \<longrightarrow> p < g_loops_count g \<and> header_pos g vs p < header_pos g vs l)"

lemma discovery_ranked:
  assumes "discovery gb bm g vs"
  shows "ranked_loops g vs"
  unfolding ranked_loops_def
proof (intro conjI allI impI)
  show "tree_order g vs" by (rule discoveryD(6) [OF assms])
  show "l < g_loops_count g" "header_pos g vs l \<le> pos vs b" if "Loop_of b g = Some l" for b l
    using discoveryD(3) [OF assms that] by (auto simp: headed_def header_pos_def)
  show "\<exists>c \<in> set vs. l_header (g_loops g l) = Some c \<and> Loop_of c g = Some l" if "l < g_loops_count g" for l
    using discoveryD(4) [OF assms that] by (simp add: lone_def)
  fix l p assume "l < g_loops_count g" "l_outer (g_loops g l) = Some p"
  then show "p < g_loops_count g" "header_pos g vs p < header_pos g vs l" using discoveryD(4) [OF assms] by (auto simp: lone_def)
qed

text \<open>Blocks visited for a loop lie behind its header when the entry is not among them.\<close>

lemma visited_behind:
  assumes rk: "ranked_loops g vs" and v: "visited_from l g h V" and entry: "Loop_of ENTRY_BLOCK_IDX h = None" and x: "x \<in> V"
  shows "header_pos g vs l \<le> pos vs x"
proof (rule ccontr)
  assume "\<not> header_pos g vs l \<le> pos vs x"
  with x show False
  proof (induction "pos vs x" arbitrary: x rule: less_induct)
    case less
    have "pos vs x < length vs"
    proof -
      have "header_pos g vs l \<le> length vs" by (simp add: header_pos_def pos_le split: option.split)
      then show ?thesis using less.prems(2) by linarith
    qed
    then have "x \<in> set vs" by (simp add: pos_less)
    moreover have "x \<noteq> ENTRY_BLOCK_IDX" using visited_loop(2) [OF v less.prems(1)] entry by auto
    ultimately obtain p where p: "p \<in> set (bb_preds (g_bb g x))" "pos vs p < pos vs x"
      using rk by (auto simp: ranked_loops_def tree_order_def)
    have "left_alone g l V x p" using v less.prems(1) p(1) by (simp add: visited_from_def)
    then consider "p \<in> V" | "Loop_of p g = Some l"
      | k c where "Loop_of p g = Some k" "l_header (g_loops g k) = Some c" "c = x \<or> c \<in> V"
      unfolding left_alone_def by blast
    then show False
    proof cases
      case 1
      show False by (rule less.hyps [OF p(2) 1]) (use less.prems(2) p(2) in linarith)
    next
      case 2
      then have "header_pos g vs l \<le> pos vs p" using rk by (simp add: ranked_loops_def)
      then show False using less.prems(2) p(2) by linarith
    next
      case (3 k c)
      then have "header_pos g vs k \<le> pos vs p" using rk by (simp add: ranked_loops_def)
      then have "pos vs c \<le> pos vs p" by (simp add: header_pos_def 3(2))
      then have c: "pos vs c < pos vs x" using p(2) by linarith
      then have "c \<in> V" using 3(3) by auto
      show False by (rule less.hyps [OF c \<open>c \<in> V\<close>]) (use less.prems(2) c in linarith)
    qed
  qed
qed

lemma visited_ranked:
  assumes rk: "ranked_loops g vs" and v: "visited_from l g h V" and entry: "Loop_of ENTRY_BLOCK_IDX h = None" and l: "l < g_loops_count g"
  shows "ranked_loops h vs"
proof -
  have same: "same_loops g h" using v by (simp add: visited_from_def)
  then have n: "g_loops_count h = g_loops_count g" and hd: "\<And>k. l_header (g_loops h k) = l_header (g_loops g k)"
    and cfg: "same_cfg g h" by (simp_all add: same_loops_def)
  have hp: "header_pos h vs k = header_pos g vs k" for k by (simp add: header_pos_def hd)
  have own: "\<exists>c \<in> set vs. l_header (g_loops g k) = Some c \<and> Loop_of c g = Some k" if "k < g_loops_count g" for k
    using rk that by (simp add: ranked_loops_def)
  show ?thesis
    unfolding ranked_loops_def n hp
  proof (intro conjI allI impI)
    show "tree_order h vs" using rk tree_order_cfg [OF cfg] by (simp add: ranked_loops_def)
    show "k < g_loops_count g" "header_pos g vs k \<le> pos vs b" if "Loop_of b h = Some k" for b k
      using that visited_loop(1) [OF v, of b] rk l visited_behind [OF rk v entry, of b] by (auto simp: ranked_loops_def)
    show "\<exists>c \<in> set vs. l_header (g_loops h k) = Some c \<and> Loop_of c h = Some k" if k: "k < g_loops_count g" for k
    proof -
      from own [OF k] obtain c where "c \<in> set vs" "l_header (g_loops g k) = Some c" "Loop_of c g = Some k" by blast
      then show ?thesis using visited_loop(1) [OF v, of c] by (intro bexI [of _ c]) (auto simp: hd)
    qed
    fix k q assume k: "k < g_loops_count g" and q: "l_outer (g_loops h k) = Some q"
    show "q < g_loops_count g" "header_pos g vs q < header_pos g vs k"
    proof -
      have "q < g_loops_count g \<and> header_pos g vs q < header_pos g vs k"
      proof (cases "l_outer (g_loops h k) = l_outer (g_loops g k)")
        case True
        then show ?thesis using rk k q by (simp add: ranked_loops_def)
      next
        case False
        then obtain c where c: "q = l" "k \<noteq> l" "c \<in> V" "l_header (g_loops g k) = Some c"
          using visited_loop(3) [OF v, of k] q by auto
        have le: "header_pos g vs l \<le> header_pos g vs k"
          using visited_behind [OF rk v entry c(3)] by (simp add: header_pos_def c(4))
        obtain d where d: "d \<in> set vs" "l_header (g_loops g l) = Some d" "Loop_of d g = Some l" using own [OF l] by blast
        have "Loop_of c g = Some k" using own [OF k] c(4) by auto
        then have "d \<noteq> c" using d(3) c(2) by auto
        then have "header_pos g vs l \<noteq> header_pos g vs k"
          using pos_inject [OF d(1), of c] by (auto simp: header_pos_def d(2) c(4))
        then show ?thesis using le l c(1) by simp
      qed
      then show "q < g_loops_count g" "header_pos g vs q < header_pos g vs k" by blast+
    qed
  qed
qed

text \<open>
  A step of \<open>PopulateBlocks\<close>: blocks keep their loops, and the ranking holds afterwards if the entry
  still has none.
\<close>

definition populates :: "nat list \<Rightarrow> agraph \<Rightarrow> agraph \<Rightarrow> bool" where
  "populates vs g h \<longleftrightarrow> same_loops g h \<and> (\<forall>b l. Loop_of b g = Some l \<longrightarrow> Loop_of b h = Some l) \<and>
     (ranked_loops g vs \<longrightarrow> Loop_of ENTRY_BLOCK_IDX h = None \<longrightarrow> ranked_loops h vs)"

lemma populates_refl [simp]: "populates vs g g"
  by (simp add: populates_def)

lemma populates_trans: "populates vs g h \<Longrightarrow> populates vs h k \<Longrightarrow> populates vs g k"
  unfolding populates_def using same_loops_trans by (metis not_None_eq)

lemma populates_visit:
  assumes "DFSPopulateBlocks n l b g = Inr h" and "ranked_loops g vs \<Longrightarrow> l < g_loops_count g"
  shows "populates vs g h"
proof -
  obtain V where v: "visited_from l g h V" using DFSPopulateBlocks_visits [OF assms(1)] by blast
  have "Loop_of x h = Some k" if "Loop_of x g = Some k" for x k using that visited_loop(1) [OF v, of x] by auto
  then show ?thesis using v visited_ranked [OF _ v] assms(2) by (simp add: populates_def visited_from_def)
qed

lemma ranked_same:
  assumes "same_loops g h" and "\<And>x. Loop_of x h = Loop_of x g" and "\<And>k. l_outer (g_loops h k) = l_outer (g_loops g k)"
  shows "ranked_loops h vs = ranked_loops g vs"
proof -
  have "header_pos h vs k = header_pos g vs k" for k using assms(1) by (simp add: header_pos_def same_loops_def)
  moreover have "tree_order h vs = tree_order g vs" using assms(1) by (intro tree_order_cfg) (simp add: same_loops_def)
  ultimately show ?thesis using assms by (simp add: ranked_loops_def same_loops_def)
qed

lemma populates_reducible: "populates vs g ((upd_loop l (\<lambda>x. x\<lparr>l_reducible := False\<rparr>) g)\<lparr>g_reducible := False\<rparr>)"
proof -
  let ?h = "(upd_loop l (\<lambda>x. x\<lparr>l_reducible := False\<rparr>) g)\<lparr>g_reducible := False\<rparr>"
  have "same_loops g ?h" "\<And>x. Loop_of x ?h = Loop_of x g" "\<And>k. l_outer (g_loops ?h k) = l_outer (g_loops g k)"
    by (simp_all add: same_loops_def same_cfg_def upd_loop_def Loop_of_def)
  from this ranked_same [OF this] show ?thesis by (simp add: populates_def)
qed

lemma PopulateBlocks_populates:
  assumes "PopulateBlocks g = Inr h"
  shows "populates vs g h"
proof (rule fold_res_invariant [OF assms [unfolded PopulateBlocks_def], where P = "populates vs g"])
  fix p u v
  assume u: "populates vs g u" and step: "deref p (\<lambda>b. case Loop_of b u of None \<Rightarrow> Inr u
      | Some l \<Rightarrow> if l_header (g_loops u l) \<noteq> Some b then Inr u
          else fold_res (\<lambda>e k. rbind (IsDominator b e k) (\<lambda>d. if d then DFSPopulateBlocks (Suc (g_bbs_count k)) l e k
            else Inr ((upd_loop l (\<lambda>x. x\<lparr>l_reducible := False\<rparr>) k)\<lparr>g_reducible := False\<rparr>))) (l_back_edges (g_loops u l)) u) = Inr v"
  from step obtain b where b: "p = Some b" by (cases p) (auto simp: deref_def)
  have "populates vs u v"
  proof (cases "\<exists>l. Loop_of b u = Some l \<and> l_header (g_loops u l) = Some b")
    case True
    then obtain l where l: "Loop_of b u = Some l" "l_header (g_loops u l) = Some b" by blast
    from step l have run: "fold_res (\<lambda>e k. rbind (IsDominator b e k) (\<lambda>d. if d then DFSPopulateBlocks (Suc (g_bbs_count k)) l e k
        else Inr ((upd_loop l (\<lambda>x. x\<lparr>l_reducible := False\<rparr>) k)\<lparr>g_reducible := False\<rparr>))) (l_back_edges (g_loops u l)) u = Inr v"
      by (simp add: b deref_def)
    have "populates vs u v \<and> Loop_of b v = Some l"
    proof (rule fold_res_invariant [OF run, where P = "\<lambda>k. populates vs u k \<and> Loop_of b k = Some l"])
      fix e k w
      assume k: "populates vs u k \<and> Loop_of b k = Some l" and s: "rbind (IsDominator b e k) (\<lambda>d. if d then DFSPopulateBlocks (Suc (g_bbs_count k)) l e k
        else Inr ((upd_loop l (\<lambda>x. x\<lparr>l_reducible := False\<rparr>) k)\<lparr>g_reducible := False\<rparr>)) = Inr w"
      show "populates vs u w \<and> Loop_of b w = Some l"
      proof -
        have "populates vs k w"
          using s populates_visit [of "Suc (g_bbs_count k)" l e k w vs] populates_reducible [of vs k l] k
          by (auto simp: res_simps ranked_loops_def simp del: DFSPopulateBlocks.simps split: if_splits)
        then show ?thesis using k populates_trans by (auto simp: populates_def [of vs k w])
      qed
    qed (use l in simp)
    then show ?thesis by blast
  next
    case False
    then show ?thesis using step by (auto simp: b deref_def split: option.splits if_splits)
  qed
  then show "populates vs g v" using u populates_trans by blast
qed simp

subsection \<open>The root\<close>

text \<open>While the root gets its inner loops: the other loops are ranked, and the root has no outer loop.\<close>

definition under_root :: "nat list \<Rightarrow> nat \<Rightarrow> agraph \<Rightarrow> bool" where
  "under_root vs r g \<longleftrightarrow> g_loops_count g = Suc r \<and> l_outer (g_loops g r) = None \<and>
     (\<forall>l < r. (\<exists>c \<in> set vs. l_header (g_loops g l) = Some c \<and> Loop_of c g = Some l) \<and>
       (\<forall>p. l_outer (g_loops g l) = Some p \<longrightarrow> p = r \<or> p < r \<and> header_pos g vs p < header_pos g vs l))"

lemma under_root_start:
  assumes "ranked_loops g vs"
  shows "under_root vs (g_loops_count g) (snd (NewLoop None g))"
proof -
  have "header_pos (snd (NewLoop None g)) vs l = header_pos g vs l" if "l < g_loops_count g" for l
    using that by (simp add: header_pos_def NewLoop_simps)
  moreover have "p < g_loops_count g" if "l < g_loops_count g" "l_outer (g_loops g l) = Some p" for l p
    using assms that by (simp add: ranked_loops_def)
  ultimately show ?thesis using assms by (auto simp: under_root_def ranked_loops_def NewLoop_simps NewLoop_fst)
qed

lemma under_root_step:
  assumes u: "under_root vs r g" and step: "(case Loop_of b g of None \<Rightarrow> Inr (SetLoop b r g)
      | Some l \<Rightarrow> if l_outer (g_loops g l) = None then SetOuter l r g else Inr g) = Inr h"
  shows "under_root vs r h \<and> (\<forall>x l. Loop_of x g = Some l \<longrightarrow> Loop_of x h = Some l)"
proof (cases "Loop_of b g")
  case None
  then have h: "h = SetLoop b r g" using step by simp
  have "header_pos h vs l = header_pos g vs l" for l by (simp add: h header_pos_def)
  then have "under_root vs r h" using u None unfolding under_root_def by (fastforce simp: h)
  then show ?thesis using None by (auto simp: h)
next
  case (Some l)
  show ?thesis
  proof (cases "l_outer (g_loops g l) = None")
    case True
    then have o: "SetOuter l r g = Inr h" using step Some by simp
    note e = SetOuter_effect [OF o]
    have hd: "l_header (g_loops h k) = l_header (g_loops g k)" and n: "g_loops_count h = g_loops_count g" for k
      using e(1) by (simp_all add: same_loops_def)
    have "header_pos h vs k = header_pos g vs k" for k by (simp add: header_pos_def hd)
    moreover have "l_outer (g_loops h r) = None" using u e(3) e(4) [of r] by (auto simp: under_root_def)
    ultimately have "under_root vs r h"
      using u e(4) unfolding under_root_def n by (simp add: e(2) hd) (metis option.inject)
    then show ?thesis by (simp add: e(2))
  next
    case False
    then show ?thesis using step Some u by auto
  qed
qed

lemma root_cases [consumes 1, case_names block outer same]:
  assumes "deref p (\<lambda>b. case Loop_of b u of None \<Rightarrow> Inr (SetLoop b r u)
      | Some l \<Rightarrow> if l_outer (g_loops u l) = None then SetOuter l r u else Inr u) = Inr v"
  obtains (block) b where "p = Some b" "Loop_of b u = None" "v = SetLoop b r u"
    | (outer) l where "SetOuter l r u = Inr v"
    | (same) "v = u"
proof -
  from assms obtain b where p: "p = Some b" by (cases p) (auto simp: deref_def)
  show thesis
  proof (cases "Loop_of b u")
    case None
    then show thesis using assms p block by (simp add: deref_def)
  next
    case (Some l)
    show thesis
    proof (cases "l_outer (g_loops u l) = None")
      case True
      show thesis by (rule outer [of l]) (use assms p Some True in \<open>simp add: deref_def\<close>)
    next
      case False
      show thesis by (rule same) (use assms p Some False in \<open>simp add: deref_def\<close>)
    qed
  qed
qed

lemma CreateRoot_tree:
  assumes "CreateRoot g = Inr h" and "Loop_of ENTRY_BLOCK_IDX g = None \<Longrightarrow> ranked_loops g vs"
    and "\<And>b l. Loop_of b g = Some l \<Longrightarrow> l < g_loops_count g"
  shows "under_root vs (g_loops_count g) h \<and> g_root_loop h = Some (g_loops_count g) \<and>
    (\<forall>b l. Loop_of b g = Some l \<longrightarrow> Loop_of b h = Some l)"
proof -
  let ?r = "g_loops_count g" and ?n = "snd (NewLoop None g)"
  let ?f = "\<lambda>p h. deref p (\<lambda>b. case Loop_of b h of None \<Rightarrow> Inr (SetLoop b ?r h)
      | Some l \<Rightarrow> if l_outer (g_loops h l) = None then SetOuter l ?r h else Inr h)"
  have pair: "NewLoop None g = (?r, ?n)" using NewLoop_fst(1) [of None g] by (cases "NewLoop None g") simp
  obtain k where k: "fold_res ?f (g_rpo ?n) ?n = Inr k" and s: "SetRootLoop ?r k = Inr h"
    using assms(1) unfolding CreateRoot_def by (subst (asm) pair) (auto simp: res_simps)
  have stay: "\<forall>x l. Loop_of x g = Some l \<longrightarrow> Loop_of x k = Some l"
  proof (rule fold_res_invariant [OF k, where P = "\<lambda>u. \<forall>x l. Loop_of x g = Some l \<longrightarrow> Loop_of x u = Some l"])
    fix p u v assume u: "\<forall>x l. Loop_of x g = Some l \<longrightarrow> Loop_of x u = Some l" and "?f p u = Inr v"
    from this(2) show "\<forall>x l. Loop_of x g = Some l \<longrightarrow> Loop_of x v = Some l"
      by (cases rule: root_cases) (use u SetOuter_effect(2) in auto)
  qed (simp add: NewLoop_simps)
  have entry: "Loop_of ENTRY_BLOCK_IDX k = Some ?r" and h: "h = k\<lparr>g_root_loop := Some ?r\<rparr>"
    using s by (auto simp: SetRootLoop_def GetEntryBlock_def res_simps)
  have "Loop_of ENTRY_BLOCK_IDX g = None"
    using entry stay assms(3) by (cases "Loop_of ENTRY_BLOCK_IDX g") auto
  then have "under_root vs ?r ?n" using assms(2) under_root_start by blast
  then have "under_root vs ?r k"
  proof (rule fold_res_invariant [OF k, where P = "under_root vs ?r"])
    fix p u v assume u: "under_root vs ?r u" and "?f p u = Inr v"
    then show "under_root vs ?r v" using under_root_step [OF u] by (cases p) (auto simp: deref_def)
  qed
  then have "under_root vs ?r h"
    by (simp add: under_root_def header_pos_def h Loop_of_def)
  then show ?thesis using stay by (simp add: h Loop_of_def)
qed

text \<open>The blocks of irreducible loops change no loop.\<close>

lemma DFSIrreducible_loops:
  "DFSIrreducible n gb bm b g = Inr h \<Longrightarrow> g_loops h = g_loops g \<and> g_loops_count h = g_loops_count g \<and> g_root_loop h = g_root_loop g"
proof (induction n arbitrary: b g h)
  case (Suc n)
  from Suc.prems obtain l where run: "fold_res (\<lambda>p h. if IsB gb bm p h
        then guard (Loop_of p h \<noteq> Some l \<or> Some p = l_header (g_loops h l)) AssertFailed (Inr h)
        else rbind (IsHeader b h) (\<lambda>hd. guard ((\<not> hd) \<noteq> IsBackEdge l p h) AssertFailed
          (DFSIrreducible n gb bm p (SetLoop p l h)))) (bb_preds (g_bb g b)) g = Inr h"
    by (auto simp: deref_def res_simps split: option.splits)
  show ?case
    by (rule fold_res_invariant [OF run, where P = "\<lambda>u. g_loops u = g_loops g \<and> g_loops_count u = g_loops_count g \<and> g_root_loop u = g_root_loop g"])
      (auto simp: res_simps dest!: Suc.IH split: if_splits)
qed simp

lemma PopulateIrreducible_loops:
  assumes "PopulateIrreducible gb g = Inr h"
  shows "g_loops h = g_loops g \<and> g_loops_count h = g_loops_count g \<and> g_root_loop h = g_root_loop g"
proof -
  from assms obtain bm g1 where m: "NewMarker g = Inr (bm, g1)"
    and run: "fold_res (\<lambda>p h. deref p (\<lambda>b. let h1 = Mark b bm h in rbind (IsHeader b h1) (\<lambda>hd.
        if \<not> hd then Inr h1 else deref (Loop_of b h1) (\<lambda>l. if l_reducible (g_loops h1 l) then Inr h1
          else DFSIrreducible (Suc (g_bbs_count h1)) gb bm b h1)))) (g_rpo g1) g1 = Inr h"
    by (auto simp: PopulateIrreducible_def res_simps)
  have g1: "g_loops g1 = g_loops g" "g_loops_count g1 = g_loops_count g" "g_root_loop g1 = g_root_loop g"
    using m by (auto simp: NewMarker_def res_simps)
  let ?P = "\<lambda>u. g_loops u = g_loops g \<and> g_loops_count u = g_loops_count g \<and> g_root_loop u = g_root_loop g"
  show ?thesis
  proof (rule fold_res_invariant [OF run, where P = ?P])
    fix p u v
    assume u: "?P u" and step: "deref p (\<lambda>b. let h1 = Mark b bm u in
      rbind (IsHeader b h1) (\<lambda>hd. if \<not> hd then Inr h1 else deref (Loop_of b h1) (\<lambda>l.
        if l_reducible (g_loops h1 l) then Inr h1 else DFSIrreducible (Suc (g_bbs_count h1)) gb bm b h1))) = Inr v"
    from step obtain b where b: "p = Some b" by (cases p) (auto simp: deref_def)
    have "v = Mark b bm u \<or> DFSIrreducible (Suc (g_bbs_count (Mark b bm u))) gb bm b (Mark b bm u) = Inr v"
      using step unfolding b by (auto simp: deref_def res_simps Let_def simp del: DFSIrreducible.simps split: if_splits)
    then show "?P v" using u DFSIrreducible_loops by (auto simp del: DFSIrreducible.simps)
  qed (simp add: g1)
qed

lemma fresh_le: "w < - 1 \<Longrightarrow> w \<le> w + (1 :: u32)"
proof -
  assume "w < - 1"
  then have "1 + w \<noteq> 0" by (metis add.commute eq_neg_iff_add_eq_0 order_less_irrefl)
  then have "unat (w + 1) = Suc (unat w)" by (metis add.commute unatSuc)
  then show ?thesis by (simp add: word_le_nat_alt)
qed

subsection \<open>The tree\<close>

text \<open>From a loop to its outer loop.\<close>

definition outward :: "agraph \<Rightarrow> (nat \<times> nat) set" where
  "outward g = {(l, p). l_outer (g_loops g l) = Some p}"

lemma chain_to_root:
  assumes u: "under_root vs r g" and all: "\<And>l. l < r \<Longrightarrow> l_outer (g_loops g l) \<noteq> None" and l: "l < r"
  shows "(l, r) \<in> (outward g)\<^sup>*"
  using l
proof (induction "header_pos g vs l" arbitrary: l rule: less_induct)
  case less
  obtain p where p: "l_outer (g_loops g l) = Some p" using all [OF less.prems] by blast
  then have "(l, p) \<in> outward g" by (simp add: outward_def)
  moreover have "(p, r) \<in> (outward g)\<^sup>*"
  proof (cases "p = r")
    case False
    then have "p < r" "header_pos g vs p < header_pos g vs l" using u less.prems p by (auto simp: under_root_def)
    then show ?thesis using less.hyps by blast
  qed simp
  ultimately show ?case by (rule converse_rtrancl_into_rtrancl)
qed

text \<open>
  C33: When the analysis of the loops of a fresh graph succeeds, and the reverse post order lists every
  block, the loops form a tree: the chain of outer loops of every loop ends at the root loop, which
  has no outer loop, and the lists of inner loops are exactly the inverse of \<open>outer_\<close> (\<open>loop_forest\<close>); and
  every block belongs to one of these loops.
\<close>

theorem loops_form_a_tree:
  assumes "AnalyzeLoops g = Inr h" and "g_loops_count g = 0" and "\<forall>b. Loop_of b g = None" and "marks_fresh g"
    and "cfg_linked g" and "\<forall>b < g_bbs_count g. Some b \<in> set (g_rpo g)"
  shows "loop_forest h \<and> (\<exists>r < g_loops_count h. g_root_loop h = Some r \<and> l_outer (g_loops h r) = None \<and>
    (\<forall>l < g_loops_count h. (l, r) \<in> (outward h)\<^sup>*) \<and>
    (\<forall>b < g_bbs_count g. \<exists>l < g_loops_count h. Loop_of b h = Some l))"
proof -
  obtain gb g1 bm g2 e g3 g4 g5 where r: "NewMarker g = Inr (gb, g1)" "NewMarker g1 = Inr (bm, g2)"
    "GetEntryBlock g2 = Inr e" "DFSBackEdges (Suc (g_bbs_count g2)) gb bm e g2 = Inr g3" "PopulateBlocks g3 = Inr g4"
    "CreateRoot g4 = Inr g5" "PopulateIrreducible gb g5 = Inr h" "loop_forest g4" "loop_forest h"
    "\<And>b. Some b \<in> set (g_rpo g) \<Longrightarrow> rooted (g_loops_count g4) b g5 \<and> rooted (g_loops_count g4) b h"
    using analysed [OF assms(1-3)] by blast
  let ?r = "g_loops_count g4"
  have m: "gb = g_marker g + 1" "bm = gb + 1" "gb < - 1" and g2: "g2 = g\<lparr>g_marker := bm\<rparr>"
    using r(1,2) by (auto simp: NewMarker_def res_simps)
  have old: "g_marks g b \<le> g_marker g" for b using assms(4) by (simp add: marks_fresh_def)
  have "g_marks g b \<noteq> gb" for b using fresh_mark [OF _ old [of b]] assms(4) by (simp add: m(1) marks_fresh_def)
  moreover have le: "g_marker g \<le> gb" using fresh_le assms(4) by (simp add: m(1) marks_fresh_def)
  then have "g_marks g b \<noteq> bm" for b using fresh_mark [OF m(3)] old [of b] unfolding m(2) by (meson order_trans)
  ultimately have unmarked: "\<not> IsB gb bm b g2" for b by (simp add: IsB_def IsMarked_def g2)
  have fields: "g_bb g2 = g_bb g" "g_bbs_count g2 = g_bbs_count g" "g_loops_count g2 = 0" "Loop_of b g2 = None" for b
    using assms(2,3) by (simp_all add: g2 Loop_of_def)
  have "gb \<noteq> bm" unfolding m(2) by simp
  have "discovery gb bm g2 []"
    using unmarked fields by (simp add: discovery_def discovered_def tree_order_def)
  moreover have "cfg_linked g2" using assms(5) by (simp add: cfg_linked_def fields)
  moreover have "e = ENTRY_BLOCK_IDX" "e < g_bbs_count g2" using r(3) by (auto simp: GetEntryBlock_def res_simps)
  ultimately obtain ws where d: "discovery gb bm g3 (e # ws)" and c: "same_cfg g2 g3"
    using DFSBackEdges_discovery [OF r(4), of "[]"] \<open>gb \<noteq> bm\<close> by auto
  have "Loop_of ENTRY_BLOCK_IDX g4 = None \<Longrightarrow> ranked_loops g4 (e # ws)"
    using PopulateBlocks_populates [OF r(5), of "e # ws"] discovery_ranked [OF d] by (simp add: populates_def)
  note tree = CreateRoot_tree [OF r(6) this forest_loop [OF r(8)]]
  then have t: "under_root (e # ws) ?r g5" "g_root_loop g5 = Some ?r" by simp_all
  have h: "g_loops h = g_loops g5" "g_loops_count h = g_loops_count g5" "g_root_loop h = g_root_loop g5"
    using PopulateIrreducible_loops [OF r(7)] by simp_all
  have n: "g_loops_count h = Suc ?r" using t(1) h(2) by (simp add: under_root_def)
  have outer: "l_outer (g_loops g5 l) \<noteq> None" if "l < ?r" for l
  proof -
    obtain b where b: "b \<in> set (e # ws)" "Loop_of b g5 = Some l" using t(1) [unfolded under_root_def] \<open>l < ?r\<close> by auto
    then have "b < g_bbs_count g" using d c fields(2) by (auto simp: discovery_def discovered_def same_cfg_def)
    then have "rooted ?r b g5" using assms(6) r(10) by blast
    then show ?thesis using b(2) that by (auto simp: rooted_def)
  qed
  have "outward h = outward g5" by (simp add: outward_def h)
  then have "(l, ?r) \<in> (outward h)\<^sup>*" if "l < g_loops_count h" for l
    using chain_to_root [OF t(1) outer] that n by (cases "l = ?r") simp_all
  moreover have "l_outer (g_loops h ?r) = None" using t(1) h(1) by (simp add: under_root_def)
  moreover have "\<exists>l < g_loops_count h. Loop_of b h = Some l" if "b < g_bbs_count g" for b
    using r(10) [of b] assms(6) that forest_loop [OF r(9)] by (auto simp: rooted_def)
  ultimately show ?thesis using r(9) n t(2) h(3) by (intro conjI exI [of _ ?r]) simp_all
qed

theorem loops_form_a_tree_witness:
  "\<exists>h r. AnalyzeLoops demo_ready = Inr h \<and> loop_forest h \<and> g_root_loop h = Some r \<and>
    (\<forall>b < 4. \<exists>l. Loop_of b h = Some l \<and> (l, r) \<in> (outward h)\<^sup>*)"
proof -
  obtain h where h: "AnalyzeLoops demo_ready = Inr h" using demo_analysed by blast
  have f: "g_loops_count demo_ready = 0" "\<forall>b. Loop_of b demo_ready = None" by (simp_all add: demo_defs Loop_of_def)
  have n: "g_bbs_count demo_ready = 4" by (simp add: demo_defs)
  have m: "marks_fresh demo_ready" by (simp add: marks_fresh_def demo_defs small_markers)
  have c: "cfg_linked demo_ready" by (auto simp: cfg_linked_def demo_defs)
  have "\<forall>b < g_bbs_count demo_ready. Some b \<in> set (g_rpo demo_ready)"
    unfolding n less_4 by (auto simp: demo_defs)
  from loops_form_a_tree [OF h f m c this] show ?thesis using h unfolding n by fast
qed

end
