(* ===== verification/Jit_Linear.thy ===== *)
theory Jit_Linear
  imports Jit_Loops
begin

text \<open>
  The linear order of the blocks and the life numbers of the instructions
  (analyses/linear_order.h).  \<open>life_number_\<close> is a \<open>size_t\<close>, a natural number here; what is stored
  in an instruction is its low 32 bits.
\<close>

record lo_state =
  lo_g :: agraph
  lo_order :: "(nat option \<times> nat) list"
  lo_ln :: nat

definition SetLifeNumber :: "nat \<Rightarrow> nat \<Rightarrow> agraph \<Rightarrow> agraph" where
  "SetLifeNumber i n = upd_inst i (\<lambda>x. x\<lparr>ji_ln := of_nat n\<rparr>)"

definition AssignLifeNumbers :: "nat \<Rightarrow> lo_state \<Rightarrow> lo_state" where
  "AssignLifeNumbers b s =
     (let n = lo_ln s;
          g1 = fold (\<lambda>p. SetLifeNumber p n) (GetPhis (lo_g s) b) (lo_g s);
          (g2, k) = fold (\<lambda>i (h, l). (SetLifeNumber i l h, l + 2)) (GetInsts g1 b) (g1, n + 2)
      in s\<lparr>lo_g := g2, lo_order := lo_order s @ [(Some b, n)], lo_ln := k\<rparr>)"

definition AllSidePredsMarked :: "u32 \<Rightarrow> nat \<Rightarrow> agraph \<Rightarrow> bool res" where
  "AllSidePredsMarked m b g =
     rbind (IsHeader b g) (\<lambda>hd.
       Inr (if \<not> hd then \<forall>p \<in> set (bb_preds (g_bb g b)). IsMarked p m g
            else \<forall>p \<in> set (bb_preds (g_bb g b)). Loop_of p g \<noteq> Loop_of b g \<longrightarrow> IsMarked p m g))"

definition AllBackEdgesMarked :: "u32 \<Rightarrow> nat \<Rightarrow> agraph \<Rightarrow> bool" where
  "AllBackEdgesMarked m l g \<longleftrightarrow> (\<forall>e \<in> set (l_back_edges (g_loops g l)). IsMarked e m g)"

text \<open>\<open>ASSERT((RootLoop() == loop) || IsMarked(loop_header) || !loop->Reducible())\<close>.\<close>

definition header_seen :: "u32 \<Rightarrow> nat \<Rightarrow> agraph \<Rightarrow> bool res" where
  "header_seen m l g =
     (if g_root_loop g = Some l then Inr True
      else deref (l_header (g_loops g l)) (\<lambda>h. Inr (IsMarked h m g \<or> \<not> l_reducible (g_loops g l))))"

primrec lo_DFS :: "nat \<Rightarrow> u32 \<Rightarrow> nat \<Rightarrow> lo_state \<Rightarrow> lo_state res" where
  "lo_DFS 0 m b s = Inl OutOfFuel"
| "lo_DFS (Suc n) m b s =
     rbind (AllSidePredsMarked m b (lo_g s)) (\<lambda>all.
       if \<not> all then Inr s
       else
         let s1 = AssignLifeNumbers b (s\<lparr>lo_g := Mark b m (lo_g s)\<rparr>) in
         deref (Loop_of b (lo_g s1)) (\<lambda>l.
           let outer = l_outer (g_loops (lo_g s1) l) in
           rbind (header_seen m l (lo_g s1)) (\<lambda>seen.
             guard seen AssertFailed
               (rbind (fold_res (\<lambda>c t.
                    if Loop_of c (lo_g t) \<noteq> outer \<and> \<not> IsMarked c m (lo_g t) then lo_DFS n m c t else Inr t)
                  (bb_succs (g_bb (lo_g s1) b)) s1) (\<lambda>s2.
                guard (AllBackEdgesMarked m l (lo_g s2)) AssertFailed
                  (fold_res (\<lambda>c t.
                      if Loop_of c (lo_g t) = outer \<and> \<not> IsMarked c m (lo_g t) then lo_DFS n m c t else Inr t)
                    (bb_succs (g_bb (lo_g s2) b)) s2))))))"

definition BuildLinearOrder :: "agraph \<Rightarrow> agraph res" where
  "BuildLinearOrder g =
     rbind (NewMarker g) (\<lambda>(m, g1).
       guard (IsLoopAnalysisValid g1) AssertFailed
         (rbind (GetEntryBlock g1) (\<lambda>e.
           rbind (lo_DFS (Suc (g_bbs_count g1)) m e \<lparr>lo_g = g1, lo_order = [], lo_ln = 0\<rparr>) (\<lambda>s.
             let order = lo_order s @ [(None, lo_ln s)] in
             guard (g_bbs_count g1 = length order - 1) AssertFailed
               (Inr ((lo_g s)\<lparr>g_linear := order, g_max_ln := lo_ln s\<rparr>))))))"

definition IsLinearOrderValid :: "agraph \<Rightarrow> bool" where
  "IsLinearOrderValid g \<longleftrightarrow> g_linear g \<noteq> []"

text \<open>\<open>GetBlockLinearIDX\<close>, \<open>GetBlockStartLN\<close> and \<open>GetBlockEndLN\<close>.\<close>

definition GetBlockLinearIDX :: "nat \<Rightarrow> agraph \<Rightarrow> nat res" where
  "GetBlockLinearIDX b g =
     guard (Some b \<in> fst ` set (g_linear g)) AssertFailed (Inr (index_of (Some b) (map fst (g_linear g))))"

definition GetBlockStartLN :: "nat \<Rightarrow> agraph \<Rightarrow> u32 res" where
  "GetBlockStartLN k g = rbind (nth_res (g_linear g) k) (\<lambda>e. Inr (of_nat (snd e)))"

definition GetBlockEndLN :: "nat \<Rightarrow> agraph \<Rightarrow> u32 res" where
  "GetBlockEndLN k g = rbind (nth_res (g_linear g) (Suc k)) (\<lambda>e. Inr (of_nat (snd e)))"

subsection \<open>Numbering\<close>

text \<open>The graph up to life numbers and marks.\<close>

definition same_graph :: "agraph \<Rightarrow> agraph \<Rightarrow> bool" where
  "same_graph g h \<longleftrightarrow> g_bb h = g_bb g \<and> g_bbs_count h = g_bbs_count g \<and> g_insts_count h = g_insts_count g \<and>
     g_loops h = g_loops g \<and> g_root_loop h = g_root_loop g \<and>
     (\<forall>i. (g_inst h i)\<lparr>ji_ln := 0\<rparr> = (g_inst g i)\<lparr>ji_ln := 0\<rparr>)"

lemma same_graph_refl [simp]: "same_graph g g"
  by (simp add: same_graph_def)

lemma same_graph_trans: "same_graph g h \<Longrightarrow> same_graph h k \<Longrightarrow> same_graph g k"
  by (simp add: same_graph_def)

lemma same_next: "same_graph g h \<Longrightarrow> ji_next (g_inst h i) = ji_next (g_inst g i)"
  unfolding same_graph_def by (metis jinst.select_convs(6) jinst.update_convs(2) jinst.surjective)

lemma same_lists:
  assumes "same_graph g h"
  shows "GetInsts h b = GetInsts g b" "GetPhis h b = GetPhis g b" "GetAllInsts h b = GetAllInsts g b"
    "Loop_of b h = Loop_of b g"
proof -
  have "(\<lambda>i. ji_next (g_inst h i)) = (\<lambda>i. ji_next (g_inst g i))" using same_next [OF assms] by auto
  moreover have "g_bb h = g_bb g" "g_insts_count h = g_insts_count g" using assms by (auto simp: same_graph_def)
  ultimately show "GetInsts h b = GetInsts g b" "GetPhis h b = GetPhis g b" "GetAllInsts h b = GetAllInsts g b"
    "Loop_of b h = Loop_of b g"
    by (simp_all add: GetInsts_def GetPhis_def GetAllInsts_def Loop_of_def)
qed

lemma same_SetLifeNumber [simp]: "same_graph g (SetLifeNumber i n g)"
  by (simp add: same_graph_def SetLifeNumber_def upd_inst_def)

lemma same_Mark [simp]: "same_graph g (Mark b m g)"
  by (simp add: same_graph_def Mark_def)

definition LN :: "agraph \<Rightarrow> nat \<Rightarrow> u32" where
  "LN g i = ji_ln (g_inst g i)"

lemma LN_SetLifeNumber [simp]: "LN (SetLifeNumber i n g) j = (if j = i then of_nat n else LN g j)"
  by (simp add: LN_def SetLifeNumber_def upd_inst_def)

lemma LN_Mark [simp]: "LN (Mark b m g) j = LN g j"
  by (simp add: LN_def Mark_def)

lemma marks_SetLifeNumber [simp]: "g_marks (SetLifeNumber i n g) = g_marks g"
  by (simp add: SetLifeNumber_def upd_inst_def)

lemma number_phis:
  "same_graph g (fold (\<lambda>p. SetLifeNumber p n) ps g) \<and> g_marks (fold (\<lambda>p. SetLifeNumber p n) ps g) = g_marks g \<and>
   (\<forall>i. LN (fold (\<lambda>p. SetLifeNumber p n) ps g) i = (if i \<in> set ps then of_nat n else LN g i))"
proof (induction ps arbitrary: g)
  case (Cons p ps)
  have "same_graph g (fold (\<lambda>p. SetLifeNumber p n) ps (SetLifeNumber p n g))"
    using same_graph_trans [OF same_SetLifeNumber] Cons.IH by blast
  then show ?case using Cons.IH by auto
qed simp

lemma number_insts:
  assumes "distinct is"
  shows "\<exists>h. fold (\<lambda>i (h, l). (SetLifeNumber i l h, l + 2)) is (g, n) = (h, n + 2 * length is) \<and>
    same_graph g h \<and> g_marks h = g_marks g \<and> (\<forall>i. i \<notin> set is \<longrightarrow> LN h i = LN g i) \<and>
    (\<forall>j < length is. LN h (is ! j) = of_nat (n + 2 * j))"
  using assms
proof (induction "is" arbitrary: g n)
  case (Cons i "is")
  let ?g = "SetLifeNumber i n g"
  obtain h where h: "fold (\<lambda>i (h, l). (SetLifeNumber i l h, l + 2)) is (?g, n + 2) = (h, n + 2 + 2 * length is)"
    "same_graph ?g h" "g_marks h = g_marks ?g" "\<forall>i. i \<notin> set is \<longrightarrow> LN h i = LN ?g i"
    "\<forall>j < length is. LN h (is ! j) = of_nat (n + 2 + 2 * j)"
    using Cons.IH [of ?g "n + 2"] Cons.prems by auto
  have "LN h ((i # is) ! j) = of_nat (n + 2 * j)" if "j < length (i # is)" for j
    using that h(4,5) Cons.prems by (cases j) auto
  moreover have "same_graph g h" using same_graph_trans [OF same_SetLifeNumber h(2)] .
  ultimately show ?case using h by (intro exI [of _ h]) auto
qed simp

subsection \<open>The order so far\<close>

text \<open>The life numbers that the blocks of a list take.\<close>

definition size_of :: "agraph \<Rightarrow> nat \<Rightarrow> nat" where
  "size_of g b = 2 * Suc (length (GetInsts g b))"

definition total :: "agraph \<Rightarrow> nat list \<Rightarrow> nat" where
  "total g bs = sum_list (map (size_of g) bs)"

lemma total_append [simp]: "total g (xs @ ys) = total g xs + total g ys"
  by (simp add: total_def)

lemma total_Cons [simp]: "total g (x # xs) = size_of g x + total g xs" "total g [] = 0"
  by (simp_all add: total_def)

definition order_of :: "agraph \<Rightarrow> nat list \<Rightarrow> (nat option \<times> nat) list" where
  "order_of g bs = map (\<lambda>k. (Some (bs ! k), total g (take k bs))) [0..<length bs]"

lemma order_of_snoc: "order_of g (bs @ [b]) = order_of g bs @ [(Some b, total g bs)]"
  by (auto simp: order_of_def nth_append)

text \<open>
  A block comes after all its predecessors; a loop header after its predecessors outside the loop.
\<close>

definition preds_before :: "agraph \<Rightarrow> nat list \<Rightarrow> bool" where
  "preds_before g bs \<longleftrightarrow> (\<forall>k < length bs. \<forall>p \<in> set (bb_preds (g_bb g (bs ! k))).
     p \<in> set (take k bs) \<or> (IsHeader (bs ! k) g = Inr True \<and> Loop_of p g = Loop_of (bs ! k) g))"

definition numbered :: "agraph \<Rightarrow> agraph \<Rightarrow> nat list \<Rightarrow> bool" where
  "numbered g h bs \<longleftrightarrow> (\<forall>k < length bs.
     (\<forall>p \<in> set (GetPhis g (bs ! k)). LN h p = of_nat (total g (take k bs))) \<and>
     (\<forall>j < length (GetInsts g (bs ! k)). LN h (GetInsts g (bs ! k) ! j) = of_nat (total g (take k bs) + 2 * Suc j)))"

text \<open>No instruction is in two blocks or twice in one.\<close>

definition insts_apart :: "agraph \<Rightarrow> bool" where
  "insts_apart g \<longleftrightarrow> (\<forall>b. distinct (GetAllInsts g b)) \<and>
     (\<forall>b c. b \<noteq> c \<longrightarrow> set (GetAllInsts g b) \<inter> set (GetAllInsts g c) = {})"

text \<open>The order begins with the entry, and every later block has a predecessor before it.\<close>

definition entered :: "agraph \<Rightarrow> nat list \<Rightarrow> bool" where
  "entered g bs \<longleftrightarrow> (\<forall>k < length bs. k = 0 \<and> bs ! k = ENTRY_BLOCK_IDX \<or> (\<exists>p \<in> set (take k bs). bs ! k \<in> set (bb_succs (g_bb g p))))"

definition next_block :: "agraph \<Rightarrow> nat list \<Rightarrow> nat \<Rightarrow> bool" where
  "next_block g bs b \<longleftrightarrow> bs = [] \<and> b = ENTRY_BLOCK_IDX \<or> (\<exists>p \<in> set bs. b \<in> set (bb_succs (g_bb g p)))"

lemma entered_snoc: "entered g bs \<Longrightarrow> next_block g bs b \<Longrightarrow> entered g (bs @ [b])"
  by (auto simp: entered_def next_block_def nth_append less_Suc_eq)

definition ordered :: "u32 \<Rightarrow> agraph \<Rightarrow> nat list \<Rightarrow> lo_state \<Rightarrow> bool" where
  "ordered m g bs s \<longleftrightarrow> same_graph g (lo_g s) \<and> distinct bs \<and> (\<forall>b. IsMarked b m (lo_g s) \<longleftrightarrow> b \<in> set bs) \<and>
     lo_order s = order_of g bs \<and> lo_ln s = total g bs \<and> preds_before g bs \<and>
     entered g bs \<and> numbered g (lo_g s) bs"

lemma ordered_append:
  assumes o: "ordered m g bs s" and apart: "insts_apart g" and b: "b \<notin> set bs"
    and side: "AllSidePredsMarked m b (lo_g s) = Inr True" and nb: "next_block g bs b"
  shows "ordered m g (bs @ [b]) (AssignLifeNumbers b (s\<lparr>lo_g := Mark b m (lo_g s)\<rparr>))"
proof -
  let ?g = "Mark b m (lo_g s)" and ?n = "lo_ln s" and ?ph = "GetPhis g b" and ?is = "GetInsts g b"
  have sg: "same_graph g (lo_g s)" using o by (simp add: ordered_def)
  have gg: "same_graph g ?g" using same_graph_trans [OF sg same_Mark] .
  define g1 where "g1 = fold (\<lambda>p. SetLifeNumber p ?n) ?ph ?g"
  have g1: "same_graph ?g g1" "g_marks g1 = g_marks ?g" "\<And>i. LN g1 i = (if i \<in> set ?ph then of_nat ?n else LN ?g i)"
    using number_phis [of ?g ?n ?ph] by (auto simp: g1_def)
  have s1: "same_graph g g1" using same_graph_trans [OF gg g1(1)] .
  have d: "distinct ?is" "set ?ph \<inter> set ?is = {}" using apart by (auto simp: insts_apart_def GetAllInsts_def dest!: spec [of _ b])
  obtain h where h: "fold (\<lambda>i (h, l). (SetLifeNumber i l h, l + 2)) ?is (g1, ?n + 2) = (h, ?n + 2 + 2 * length ?is)"
    "same_graph g1 h" "g_marks h = g_marks g1" "\<forall>i. i \<notin> set ?is \<longrightarrow> LN h i = LN g1 i"
    "\<forall>j < length ?is. LN h (?is ! j) = of_nat (?n + 2 + 2 * j)"
    using number_insts [OF d(1), of g1 "?n + 2"] by auto
  have sh: "same_graph g h" using same_graph_trans [OF s1 h(2)] .
  have run: "AssignLifeNumbers b (s\<lparr>lo_g := ?g\<rparr>) =
      s\<lparr>lo_g := h, lo_order := lo_order s @ [(Some b, ?n)], lo_ln := ?n + size_of g b\<rparr>"
    using h(1) by (simp add: AssignLifeNumbers_def same_lists [OF gg] same_lists [OF s1] g1_def [symmetric] size_of_def Let_def)
  have old: "LN h i = LN (lo_g s) i" if "i \<notin> set (GetAllInsts g b)" for i
    using that h(4) g1(3) by (simp add: GetAllInsts_def)
  have "numbered g h (bs @ [b])" unfolding numbered_def
  proof (intro allI impI)
    fix k assume k: "k < length (bs @ [b])"
    show "(\<forall>p \<in> set (GetPhis g ((bs @ [b]) ! k)). LN h p = of_nat (total g (take k (bs @ [b])))) \<and>
      (\<forall>j < length (GetInsts g ((bs @ [b]) ! k)). LN h (GetInsts g ((bs @ [b]) ! k) ! j) = of_nat (total g (take k (bs @ [b])) + 2 * Suc j))"
    proof (cases "k < length bs")
      case True
      then have "bs ! k \<noteq> b" using b by (metis nth_mem)
      then have "set (GetAllInsts g (bs ! k)) \<inter> set (GetAllInsts g b) = {}" using apart by (simp add: insts_apart_def)
      then have "LN h i = LN (lo_g s) i" if "i \<in> set (GetAllInsts g (bs ! k))" for i using that old by blast
      then have "LN h i = LN (lo_g s) i" if "i \<in> set (GetPhis g (bs ! k)) \<or> i \<in> set (GetInsts g (bs ! k))" for i
        using that by (simp add: GetAllInsts_def)
      then show ?thesis using True o by (simp add: nth_append ordered_def numbered_def)
    next
      case False
      then have "k = length bs" using k by simp
      moreover have "?n = total g bs" using o by (simp add: ordered_def)
      moreover have "LN h p = of_nat ?n" if "p \<in> set ?ph" for p using that d(2) h(4) g1(3) by auto
      ultimately show ?thesis using h(5) by (simp add: add.assoc)
    qed
  qed
  moreover have "IsMarked c m h \<longleftrightarrow> c \<in> set (bs @ [b])" for c
    using o h(3) g1(2) by (auto simp: ordered_def IsMarked_def Mark_def)
  moreover have "preds_before g (bs @ [b])"
  proof -
    obtain hd where hd: "IsHeader b (lo_g s) = Inr hd" using side by (auto simp: AllSidePredsMarked_def res_simps)
    have "IsHeader b g = Inr hd" using hd same_lists(4) [OF sg] sg by (simp add: IsHeader_def same_graph_def)
    moreover have "p \<in> set bs \<or> (hd \<and> Loop_of p g = Loop_of b g)" if "p \<in> set (bb_preds (g_bb g b))" for p
      using side hd that o sg same_lists(4) [OF sg]
      by (auto simp: AllSidePredsMarked_def ordered_def same_graph_def split: if_splits)
    ultimately show ?thesis using o by (auto simp: preds_before_def ordered_def nth_append less_Suc_eq)
  qed
  moreover have "lo_order s = order_of g bs" "?n = total g bs" "distinct bs" using o by (auto simp: ordered_def)
  moreover have "entered g (bs @ [b])" using entered_snoc o nb by (simp add: ordered_def)
  ultimately show ?thesis using sh b by (simp add: ordered_def run order_of_snoc)
qed

lemma lo_DFS_ordered:
  "lo_DFS n m b s = Inr t \<Longrightarrow> ordered m g bs s \<Longrightarrow> insts_apart g \<Longrightarrow> b \<notin> set bs \<Longrightarrow> next_block g bs b \<Longrightarrow>
     \<exists>cs. ordered m g (bs @ cs) t"
proof (induction n arbitrary: b s t bs)
  case (Suc n)
  from Suc.prems(1) obtain all where all: "AllSidePredsMarked m b (lo_g s) = Inr all"
    and run: "(if \<not> all then Inr s else
         let s1 = AssignLifeNumbers b (s\<lparr>lo_g := Mark b m (lo_g s)\<rparr>) in
         deref (Loop_of b (lo_g s1)) (\<lambda>l.
           let outer = l_outer (g_loops (lo_g s1) l) in
           rbind (header_seen m l (lo_g s1)) (\<lambda>seen.
             guard seen AssertFailed
               (rbind (fold_res (\<lambda>c t.
                    if Loop_of c (lo_g t) \<noteq> outer \<and> \<not> IsMarked c m (lo_g t) then lo_DFS n m c t else Inr t)
                  (bb_succs (g_bb (lo_g s1) b)) s1) (\<lambda>s2.
                guard (AllBackEdgesMarked m l (lo_g s2)) AssertFailed
                  (fold_res (\<lambda>c t.
                      if Loop_of c (lo_g t) = outer \<and> \<not> IsMarked c m (lo_g t) then lo_DFS n m c t else Inr t)
                    (bb_succs (g_bb (lo_g s2) b)) s2)))))) = Inr t"
    by (auto simp: res_simps)
  show ?case
  proof (cases all)
    case False
    then show ?thesis using run Suc.prems(2) by (intro exI [of _ "[]"]) auto
  next
    case True
    let ?s = "AssignLifeNumbers b (s\<lparr>lo_g := Mark b m (lo_g s)\<rparr>)" and ?I = "\<lambda>u. \<exists>cs. ordered m g (bs @ b # cs) u"
    have start: "ordered m g (bs @ [b]) ?s" using ordered_append [OF Suc.prems(2-4)] all True Suc.prems(5) by auto
    have same: "g_bb (lo_g u) = g_bb g" if "ordered m g cs u" for cs u using that by (simp add: ordered_def same_graph_def)
    from run True obtain outer s2 where two:
      "fold_res (\<lambda>c t. if Loop_of c (lo_g t) \<noteq> outer \<and> \<not> IsMarked c m (lo_g t) then lo_DFS n m c t else Inr t)
         (bb_succs (g_bb (lo_g ?s) b)) ?s = Inr s2"
      "fold_res (\<lambda>c t. if Loop_of c (lo_g t) = outer \<and> \<not> IsMarked c m (lo_g t) then lo_DFS n m c t else Inr t)
         (bb_succs (g_bb (lo_g s2) b)) s2 = Inr t"
      by (auto simp: deref_def res_simps Let_def)
    have step: "?I v" if "?I u" "c \<in> set (bb_succs (g_bb g b))"
      "(if P c u \<and> \<not> IsMarked c m (lo_g u) then lo_DFS n m c u else Inr u) = Inr v" for P c u v
    proof (cases "P c u \<and> \<not> IsMarked c m (lo_g u)")
      case True
      from that(1) obtain cs where cs: "ordered m g (bs @ b # cs) u" by blast
      then have "c \<notin> set (bs @ b # cs)" using True by (simp add: ordered_def)
      moreover have "next_block g (bs @ b # cs) c" using that(2) by (auto simp: next_block_def)
      moreover have "lo_DFS n m c u = Inr v" using that(3) True by simp
      ultimately obtain ds where "ordered m g ((bs @ b # cs) @ ds) v" using Suc.IH [OF _ cs Suc.prems(3)] by blast
      then show ?thesis by auto
    qed (use that in auto)
    have one: "?I s2"
    proof (rule fold_res_invariant [OF two(1), where P = ?I])
      show "?I ?s" using start by (intro exI [of _ "[]"]) simp
    qed (use step [where P = "\<lambda>c t. Loop_of c (lo_g t) \<noteq> outer"] same [OF start] in auto)
    then have succs: "g_bb (lo_g s2) = g_bb g" using same by blast
    have "?I t"
      by (rule fold_res_invariant [OF two(2), where P = ?I, OF one])
        (use step [where P = "\<lambda>c t. Loop_of c (lo_g t) = outer"] succs in auto)
    then show ?thesis by auto
  qed
qed simp

lemma linear_order_run:
  assumes "BuildLinearOrder g = Inr h" and "marks_fresh g" and "insts_apart g"
  obtains bs where "g_linear h = order_of g bs @ [(None, total g bs)]" "g_max_ln h = total g bs" "distinct bs"
    "length bs = g_bbs_count g" "preds_before g bs" "entered g bs" "numbered g h bs" "same_graph g h"
proof -
  from assms(1) obtain m g1 e s where m: "NewMarker g = Inr (m, g1)" and e: "GetEntryBlock g1 = Inr e"
    and run: "lo_DFS (Suc (g_bbs_count g1)) m e \<lparr>lo_g = g1, lo_order = [], lo_ln = 0\<rparr> = Inr s"
    and n: "g_bbs_count g1 = length (lo_order s @ [(None, lo_ln s)]) - 1"
    and h: "h = (lo_g s)\<lparr>g_linear := lo_order s @ [(None, lo_ln s)], g_max_ln := lo_ln s\<rparr>"
    by (auto simp: BuildLinearOrder_def res_simps Let_def simp del: lo_DFS.simps)
  have g1: "g1 = g\<lparr>g_marker := m\<rparr>" "m = g_marker g + 1" using m by (auto simp: NewMarker_def res_simps)
  have "\<not> IsMarked b m g1" for b
    using fresh_mark assms(2) by (auto simp: g1 marks_fresh_def IsMarked_def)
  then have "ordered m g [] \<lparr>lo_g = g1, lo_order = [], lo_ln = 0\<rparr>"
    by (simp add: ordered_def order_of_def preds_before_def numbered_def entered_def same_graph_def g1)
  moreover have "next_block g [] e" using e by (auto simp: next_block_def GetEntryBlock_def res_simps)
  ultimately obtain bs where o: "ordered m g bs s" using lo_DFS_ordered [OF run _ assms(3), of "[]"] by auto
  have len: "length bs = g_bbs_count g" using n o by (simp add: ordered_def order_of_def g1)
  have "LN h = LN (lo_g s)" by (simp add: h LN_def fun_eq_iff)
  moreover have "same_graph g h" using o by (simp add: ordered_def same_graph_def h)
  ultimately show thesis using o len by (intro that [of bs]) (auto simp: ordered_def h numbered_def)
qed

text \<open>
  C32: When \<open>BuildLinearOrder\<close> succeeds it has put as many different blocks in the order as the graph
  has, each block after all its predecessors, a loop header after its predecessors outside the loop.
\<close>

theorem linear_order_respects_predecessors:
  assumes "BuildLinearOrder g = Inr h" and "marks_fresh g" and "insts_apart g"
  shows "\<exists>bs. map fst (g_linear h) = map Some bs @ [None] \<and> distinct bs \<and> length bs = g_bbs_count g \<and>
    (\<forall>k < length bs. \<forall>p \<in> set (bb_preds (g_bb g (bs ! k))).
       p \<in> set (take k bs) \<or> (IsHeader (bs ! k) g = Inr True \<and> Loop_of p g = Loop_of (bs ! k) g))"
proof -
  obtain bs where bs: "g_linear h = order_of g bs @ [(None, total g bs)]" "distinct bs" "length bs = g_bbs_count g"
    "preds_before g bs" by (rule linear_order_run [OF assms])
  have "map fst (order_of g bs) = map Some bs" by (simp add: order_of_def) (rule nth_equalityI, simp_all)
  then show ?thesis using bs by (intro exI [of _ bs]) (auto simp: preds_before_def)
qed

text \<open>
  The life numbers follow the order: the phis of a block have the number of the block, its
  instructions the following even numbers, and the next block begins two after the last of them.
\<close>

theorem life_numbers_follow_the_order:
  assumes "BuildLinearOrder g = Inr h" and "marks_fresh g" and "insts_apart g"
  shows "snd (g_linear h ! 0) = 0 \<and> (\<forall>k < g_bbs_count g. \<exists>b n. g_linear h ! k = (Some b, n) \<and>
    snd (g_linear h ! Suc k) = n + 2 * Suc (length (GetInsts g b)) \<and>
    (\<forall>p \<in> set (GetPhis g b). LN h p = of_nat n) \<and>
    (\<forall>j < length (GetInsts g b). LN h (GetInsts g b ! j) = of_nat (n + 2 * Suc j)))"
proof -
  obtain bs where bs: "g_linear h = order_of g bs @ [(None, total g bs)]" "length bs = g_bbs_count g" "numbered g h bs"
    by (rule linear_order_run [OF assms])
  have len: "length (order_of g bs) = length bs" by (simp add: order_of_def)
  have at: "snd (g_linear h ! k) = total g (take k bs)" if "k \<le> length bs" for k
    using that by (cases "k = length bs") (auto simp: bs(1) nth_append len, simp add: order_of_def)
  have here: "g_linear h ! k = (Some (bs ! k), total g (take k bs))" if "k < length bs" for k
    using that by (simp add: bs(1) nth_append len) (simp add: order_of_def)
  have "snd (g_linear h ! Suc k) = total g (take k bs) + 2 * Suc (length (GetInsts g (bs ! k)))" if "k < length bs" for k
    using at [of "Suc k"] that by (simp add: take_Suc_conv_app_nth size_of_def)
  then show ?thesis
    using at [of 0] here bs(2,3) unfolding numbered_def by auto
qed

subsection \<open>An example\<close>

text \<open>The graph of the loop example after its analysis, with one addition in each block of the loop.\<close>

definition demo_looped :: agraph where
  "demo_looped = demo_cfg\<lparr>
     g_inst := (\<lambda>_. new_inst JADD 2 UNKNOWN 0)(0 := (new_inst JADD 2 UNKNOWN 0)\<lparr>ji_next := Some 2\<rparr>), g_insts_count := 3,
     g_bb := (\<lambda>_. new_bb)(1 := new_bb\<lparr>bb_succs := [2], bb_loop := Some 1\<rparr>,
       2 := new_bb\<lparr>bb_preds := [1, 3], bb_succs := [3, 0], bb_loop := Some 0, bb_first_inst := Some 0, bb_last_inst := Some 2\<rparr>,
       3 := new_bb\<lparr>bb_preds := [2], bb_succs := [2], bb_loop := Some 0, bb_first_inst := Some 1, bb_last_inst := Some 1\<rparr>,
       0 := new_bb\<lparr>bb_preds := [2], bb_loop := Some 1\<rparr>),
     g_loops := (\<lambda>_. \<lparr>l_header = None, l_back_edges = [], l_inner = [0], l_outer = None, l_reducible = True, l_id = 0\<rparr>)
       (0 := \<lparr>l_header = Some 2, l_back_edges = [3], l_inner = [], l_outer = Some 1, l_reducible = True, l_id = 1\<rparr>),
     g_loops_count := 2, g_loop_id := 1, g_root_loop := Some 1\<rparr>"

lemma demo_looped_insts: "GetInsts demo_looped b = (if b = 2 then [0, 2] else if b = 3 then [1] else [])" "GetPhis demo_looped b = []"
  by (simp_all add: demo_looped_def demo_cfg_def GetInsts_def GetPhis_def new_bb_def new_inst_def eval_nat_numeral)

lemma demo_looped_ok: "marks_fresh demo_looped" "insts_apart demo_looped"
proof -
  show "marks_fresh demo_looped" by (simp add: marks_fresh_def demo_looped_def demo_cfg_def small_markers)
  show "insts_apart demo_looped" by (auto simp: insts_apart_def GetAllInsts_def demo_looped_insts)
qed

lemma demo_looped_run: "\<exists>h. BuildLinearOrder demo_looped = Inr h"
proof -
  have m: "NewMarker demo_looped = Inr (1, demo_looped\<lparr>g_marker := 1\<rparr>)"
    by (simp add: NewMarker_def demo_looped_def demo_cfg_def small_markers)
  show ?thesis
    unfolding BuildLinearOrder_def m rbind.simps prod.case
    by (simp add: demo_looped_def demo_cfg_def new_bb_def eval_nat_numeral loop_defs IsLoopAnalysisValid_def AllSidePredsMarked_def
        AssignLifeNumbers_def header_seen_def AllBackEdgesMarked_def GetInsts_def GetPhis_def new_inst_def SetLifeNumber_def upd_inst_def)
qed

theorem linear_order_respects_predecessors_witness:
  "\<exists>h bs. BuildLinearOrder demo_looped = Inr h \<and> map fst (g_linear h) = map Some bs @ [None] \<and> distinct bs \<and> length bs = 4"
proof -
  obtain h where h: "BuildLinearOrder demo_looped = Inr h" using demo_looped_run by blast
  have "g_bbs_count demo_looped = 4" by (simp add: demo_looped_def demo_cfg_def)
  with linear_order_respects_predecessors [OF h demo_looped_ok] h show ?thesis by auto
qed

theorem life_numbers_follow_the_order_witness:
  "\<exists>h. BuildLinearOrder demo_looped = Inr h \<and> snd (g_linear h ! 0) = 0 \<and>
    (\<forall>k < 4. \<exists>b n. g_linear h ! k = (Some b, n) \<and> snd (g_linear h ! Suc k) = n + 2 * Suc (length (GetInsts demo_looped b)))"
proof -
  obtain h where h: "BuildLinearOrder demo_looped = Inr h" using demo_looped_run by blast
  have "g_bbs_count demo_looped = 4" by (simp add: demo_looped_def demo_cfg_def)
  with life_numbers_follow_the_order [OF h demo_looped_ok] h show ?thesis by (intro exI [of _ h]) fastforce
qed

end
