(* ===== verification/Jit_Intervals.thy ===== *)
theory Jit_Intervals
  imports Jit_Graph
begin

text \<open>
  Live ranges and live intervals (jit/ir/graph/analyses/live_intervals.h).  A range is half open,
  \<open>[b_, e_)\<close>, over the life numbers of the instructions.  The register allocator attaches a
  \<open>Location\<close> to a range through a map keyed by the address of the range
  (\<open>RegAlloc::locations_\<close>); the ranges live in a linked list, so the address of a range never
  changes and the entry is a field of the range here, \<open>None\<close> when the map has none.  An iterator
  into the list is an index.  The theorems say what \<open>SplitAt\<close> does to the set of life numbers an
  interval covers and to the locations before the split point.
\<close>

subsection \<open>Ranges\<close>

datatype loc_type = UNDEF | REG | SLOT

record location =
  loc_kind :: loc_type
  loc_idx :: nat

record live_range =
  lr_b :: u32
  lr_e :: u32
  lr_loc :: "location option"

definition LiveRange :: "u32 \<Rightarrow> u32 \<Rightarrow> live_range res" where
  "LiveRange b e = guard (b < e) AssertFailed (Inr \<lparr>lr_b = b, lr_e = e, lr_loc = None\<rparr>)"

definition TrimBegin :: "u32 \<Rightarrow> live_range \<Rightarrow> live_range res" where
  "TrimBegin d r =
     guard (lr_b r < d) AssertFailed (guard (d < lr_e r) AssertFailed (Inr (r\<lparr>lr_b := d\<rparr>)))"

definition Prolong :: "u32 \<Rightarrow> live_range \<Rightarrow> live_range res" where
  "Prolong e r = guard (lr_e r \<le> e) AssertFailed (Inr (r\<lparr>lr_e := e\<rparr>))"

definition IntersectsWith :: "u32 \<Rightarrow> u32 \<Rightarrow> live_range \<Rightarrow> bool res" where
  "IntersectsWith b e r =
     guard (b < e) AssertFailed
       (guard (lr_b r < lr_e r) AssertFailed (Inr (\<not> (lr_b r < e \<or> b < lr_e r))))"

subsection \<open>Intervals\<close>

record live_interval =
  iv_ranges :: "live_range list"
  iv_usepoints :: "u32 list"

definition LiveInterval :: "live_range \<Rightarrow> live_interval" where
  "LiveInterval r = \<lparr>iv_ranges = [r], iv_usepoints = []\<rparr>"

text \<open>\<open>GetCurrent\<close> and \<open>IntervalsBack\<close>; the list is never empty.\<close>

definition IntervalsBack :: "live_interval \<Rightarrow> live_range" where
  "IntervalsBack v = last (iv_ranges v)"

definition ExtendActive :: "u32 \<Rightarrow> live_interval \<Rightarrow> live_interval res" where
  "ExtendActive d v =
     rbind (Prolong d (IntervalsBack v)) (\<lambda>r. Inr (v\<lparr>iv_ranges := butlast (iv_ranges v) @ [r]\<rparr>))"

definition AppendAfterHole :: "live_range \<Rightarrow> live_interval \<Rightarrow> live_interval" where
  "AppendAfterHole r v = v\<lparr>iv_ranges := iv_ranges v @ [r]\<rparr>"

fun check_pairs :: "live_range list \<Rightarrow> unit res" where
  "check_pairs (r1 # r2 # rs) =
     guard (lr_b r1 < lr_e r1) AssertFailed
       (guard (lr_b r2 < lr_e r2) AssertFailed
          (guard (lr_e r1 < lr_b r2) AssertFailed (check_pairs (r2 # rs))))"
| "check_pairs rs = Inr ()"

definition CheckIntervals :: "live_interval \<Rightarrow> unit res" where
  "CheckIntervals v =
     guard (lr_b (hd (iv_ranges v)) < lr_e (hd (iv_ranges v))) AssertFailed (check_pairs (iv_ranges v))"

definition Startpoint :: "live_interval \<Rightarrow> u32" where
  "Startpoint v = lr_b (hd (iv_ranges v))"

definition Endpoint :: "live_interval \<Rightarrow> u32" where
  "Endpoint v = lr_e (IntervalsBack v)"

definition FindRangeCoveringOrAfter :: "u32 \<Rightarrow> live_interval \<Rightarrow> (nat \<times> live_interval) res" where
  "FindRangeCoveringOrAfter p v =
     guard (Startpoint v \<le> p) AssertFailed
       (if Endpoint v \<le> p then
          rbind (LiveRange p (p + 2)) (\<lambda>r. Inr (length (iv_ranges v), v\<lparr>iv_ranges := iv_ranges v @ [r]\<rparr>))
        else Inr (length (takeWhile (\<lambda>r. \<not> (p \<le> lr_b r \<or> p < lr_e r)) (iv_ranges v)), v))"

text \<open>The iterator returned points at the range that begins at the split point.\<close>

definition SplitAt :: "u32 \<Rightarrow> live_interval \<Rightarrow> (nat \<times> live_interval) res" where
  "SplitAt p v =
     rbind (FindRangeCoveringOrAfter p v) (\<lambda>(k, w).
       guard (k < length (iv_ranges w)) AssertFailed
         (let r = iv_ranges w ! k in
          if lr_b r < p then
            rbind (LiveRange p (lr_e r)) (\<lambda>n.
              Inr (Suc k, w\<lparr>iv_ranges := take k (iv_ranges w) @ r\<lparr>lr_e := p\<rparr> # n # drop (Suc k) (iv_ranges w)\<rparr>))
          else Inr (k, w\<lparr>iv_ranges := (iv_ranges w)[k := r\<lparr>lr_b := p\<rparr>]\<rparr>)))"

definition SetUsepoints :: "u32 list \<Rightarrow> live_interval \<Rightarrow> live_interval" where
  "SetUsepoints ps v = v\<lparr>iv_usepoints := ps\<rparr>"

definition Usepoint :: "nat \<Rightarrow> live_interval \<Rightarrow> u32 res" where
  "Usepoint k v = nth_res (iv_usepoints v) k"

subsection \<open>What an interval covers\<close>

definition covers :: "live_interval \<Rightarrow> u32 \<Rightarrow> bool" where
  "covers v p \<longleftrightarrow> (\<exists>r \<in> set (iv_ranges v). lr_b r \<le> p \<and> p < lr_e r)"

text \<open>The location of the first range that covers a life number.\<close>

definition loc_at :: "live_interval \<Rightarrow> u32 \<Rightarrow> location option" where
  "loc_at v p = (case find (\<lambda>r. lr_b r \<le> p \<and> p < lr_e r) (iv_ranges v) of None \<Rightarrow> None | Some r \<Rightarrow> lr_loc r)"

definition valid_ranges :: "live_range list \<Rightarrow> bool" where
  "valid_ranges rs \<longleftrightarrow> (\<forall>r \<in> set rs. lr_b r < lr_e r) \<and> sorted_wrt (\<lambda>r s. lr_e r \<le> lr_b s) rs"

lemma valid_ranges_append [simp]:
  "valid_ranges (xs @ ys) \<longleftrightarrow>
     valid_ranges xs \<and> valid_ranges ys \<and> (\<forall>r \<in> set xs. \<forall>s \<in> set ys. lr_e r \<le> lr_b s)"
  by (auto simp: valid_ranges_def sorted_wrt_append)

lemma valid_ranges_Cons [simp]:
  "valid_ranges (r # rs) \<longleftrightarrow> lr_b r < lr_e r \<and> valid_ranges rs \<and> (\<forall>s \<in> set rs. lr_e r \<le> lr_b s)"
  by (auto simp: valid_ranges_def)

lemma valid_ranges_Nil [simp]: "valid_ranges []"
  by (simp add: valid_ranges_def)

definition separated :: "live_range list \<Rightarrow> bool" where
  "separated rs \<longleftrightarrow> valid_ranges rs \<and> sorted_wrt (\<lambda>r s. lr_e r < lr_b s) rs"

lemma separated_two:
  "separated (r1 # r2 # rs) \<longleftrightarrow> lr_b r1 < lr_e r1 \<and> lr_e r1 < lr_b r2 \<and> separated (r2 # rs)"
proof -
  have "lr_e r1 < lr_b s" if "lr_e r1 < lr_b r2" "lr_b r2 < lr_e r2" "lr_e r2 \<le> lr_b s" for s
    using that by (meson less_le_trans less_trans)
  then show ?thesis by (auto simp: separated_def)
qed

lemma separated_one [simp]: "separated [r] \<longleftrightarrow> lr_b r < lr_e r" "separated []"
  by (simp_all add: separated_def)

lemma guard_all:
  "guard a e (guard b e (guard c e (if d then x else Inl e))) = (if a \<and> b \<and> c \<and> d then x else Inl e)"
  by (simp add: guard_def)

lemma check_pairs_eq: "check_pairs (r # rs) = (if rs = [] \<or> separated (r # rs) then Inr () else Inl AssertFailed)"
proof (induction rs arbitrary: r)
  case (Cons r2 rs)
  have val: "separated (r2 # rs) \<Longrightarrow> lr_b r2 < lr_e r2" unfolding separated_def valid_ranges_Cons by blast
  have one: "rs = [] \<Longrightarrow> separated (r2 # rs) \<longleftrightarrow> lr_b r2 < lr_e r2" by (simp only: separated_one)
  have "(lr_b r < lr_e r \<and> lr_b r2 < lr_e r2 \<and> lr_e r < lr_b r2 \<and> (rs = [] \<or> separated (r2 # rs))) \<longleftrightarrow>
      separated (r # r2 # rs)"
    unfolding separated_two using val one by blast
  then show ?case unfolding check_pairs.simps(1) Cons.IH [of r2] guard_all by simp
qed simp

text \<open>\<open>CheckIntervals\<close> accepts exactly the non-empty ranges in order, with a hole between any two.\<close>

lemma CheckIntervals_eq:
  assumes "iv_ranges v \<noteq> []"
  shows "CheckIntervals v =
    (if separated (iv_ranges v) then Inr () else Inl AssertFailed)"
proof (cases "iv_ranges v")
  case (Cons r rs)
  then have "separated (r # rs) \<Longrightarrow> lr_b r < lr_e r" by (simp add: separated_def)
  with Cons show ?thesis by (auto simp: CheckIntervals_def check_pairs_eq guard_def)
qed (use assms in simp)

text \<open>
  \<open>IntersectsWith\<close> answers false on every pair of ranges its assertions let through, also on
  two ranges that do intersect.
\<close>

theorem intersects_with_is_false:
  "IntersectsWith b e r = (if b < e \<and> lr_b r < lr_e r then Inr False else Inl AssertFailed)"
proof -
  have "lr_b r < e \<or> b < lr_e r" if "b < e" "lr_b r < lr_e r"
  proof (cases "lr_b r < e")
    case False
    then have "e \<le> lr_b r" by simp
    then have "b < lr_e r" using that by (blast intro: less_le_trans less_trans)
    then show ?thesis ..
  qed blast
  then show ?thesis by (simp add: IntersectsWith_def guard_def)
qed

subsection \<open>Splitting\<close>

text \<open>The range that \<open>FindRangeCoveringOrAfter\<close> finds inside the interval.\<close>

lemma find_range:
  assumes valid: "valid_ranges (iv_ranges v)" and ne: "iv_ranges v \<noteq> []"
    and p: "Startpoint v \<le> p" "p < Endpoint v"
  obtains as r bs where "iv_ranges v = as @ r # bs" "FindRangeCoveringOrAfter p v = Inr (length as, v)"
    "\<forall>s \<in> set as. lr_e s \<le> p" "p < lr_e r" "\<forall>s \<in> set bs. p < lr_b s" "lr_b (hd (as @ [r])) \<le> p"
proof -
  let ?P = "\<lambda>r. \<not> (p \<le> lr_b r \<or> p < lr_e r)"
  let ?as = "takeWhile ?P (iv_ranges v)"
  obtain r bs where rest: "dropWhile ?P (iv_ranges v) = r # bs"
  proof (cases "dropWhile ?P (iv_ranges v)")
    case Nil
    then have "\<forall>r \<in> set (iv_ranges v). ?P r" by (simp add: dropWhile_eq_Nil_conv)
    then have "?P (last (iv_ranges v))" using ne by simp
    then show thesis using p(2) by (simp add: Endpoint_def IntervalsBack_def)
  qed
  have split: "iv_ranges v = ?as @ r # bs" using rest by (metis takeWhile_dropWhile_id)
  have "\<not> ?P r" using rest by (metis dropWhile_eq_Cons_conv)
  moreover have val: "lr_b r < lr_e r" "\<forall>s \<in> set bs. lr_e r \<le> lr_b s"
    using valid split valid_ranges_append [of ?as "r # bs"] by auto
  ultimately have r: "p < lr_e r" by auto
  have "\<forall>s \<in> set ?as. lr_e s \<le> p" by (auto dest: set_takeWhileD)
  moreover have "\<forall>s \<in> set bs. p < lr_b s" using r val(2) by (meson less_le_trans)
  moreover have "lr_b (hd (?as @ [r])) \<le> p" using p(1) split by (cases ?as) (auto simp: Startpoint_def)
  moreover have "FindRangeCoveringOrAfter p v = Inr (length ?as, v)"
    using p(1) p(2) [unfolded not_le [symmetric]] by (simp add: FindRangeCoveringOrAfter_def)
  ultimately show thesis using that split r by blast
qed

lemma SplitAt_at:
  assumes "iv_ranges v = as @ r # bs" "FindRangeCoveringOrAfter p v = Inr (length as, v)" "p < lr_e r"
  shows "SplitAt p v =
    (if lr_b r < p
     then Inr (Suc (length as), v\<lparr>iv_ranges := as @ r\<lparr>lr_e := p\<rparr> # \<lparr>lr_b = p, lr_e = lr_e r, lr_loc = None\<rparr> # bs\<rparr>)
     else Inr (length as, v\<lparr>iv_ranges := as @ r\<lparr>lr_b := p\<rparr> # bs\<rparr>))"
  using assms by (simp add: SplitAt_def LiveRange_def Let_def)

definition split_result :: "u32 \<Rightarrow> live_interval \<Rightarrow> nat \<Rightarrow> live_interval \<Rightarrow> bool" where
  "split_result p v k w \<longleftrightarrow>
     valid_ranges (iv_ranges w) \<and> k < length (iv_ranges w) \<and> lr_b (iv_ranges w ! k) = p \<and>
     (\<forall>j < k. lr_e (iv_ranges w ! j) \<le> p) \<and> Endpoint w = Endpoint v \<and> iv_usepoints w = iv_usepoints v \<and>
     (\<forall>q. covers w q \<longleftrightarrow> covers v q \<or> (p \<le> q \<and> (\<forall>r \<in> set (iv_ranges v). p < lr_e r \<longrightarrow> q < lr_b r))) \<and>
     (\<forall>q < p. loc_at w q = loc_at v q)"


lemma find_append: "find P (xs @ ys) = (case find P xs of None \<Rightarrow> find P ys | Some x \<Rightarrow> Some x)"
  by (induction xs) auto

lemma find_none: "\<forall>r \<in> set xs. \<not> P r \<Longrightarrow> find P xs = None"
  by (induction xs) auto

lemma split_inside:
  assumes v: "iv_ranges v = as @ r # bs" and ok: "valid_ranges (as @ r # bs)"
    and as: "\<forall>s \<in> set as. lr_e s \<le> p" and bs: "\<forall>s \<in> set bs. p < lr_b s"
    and r: "lr_b r < p" "p < lr_e r"
  shows "split_result p v (Suc (length as))
    (v\<lparr>iv_ranges := as @ r\<lparr>lr_e := p\<rparr> # \<lparr>lr_b = p, lr_e = lr_e r, lr_loc = None\<rparr> # bs\<rparr>)"
    (is "split_result p v ?k ?w")
proof -
  have val: "valid_ranges as" "valid_ranges bs" "\<forall>s \<in> set as. lr_e s \<le> lr_b r" "\<forall>s \<in> set bs. lr_e r \<le> lr_b s"
    "\<forall>a \<in> set as. \<forall>b \<in> set bs. lr_e a \<le> lr_b b"
    using ok by auto
  have "valid_ranges (iv_ranges ?w)" using val r as bs by (auto intro: less_imp_le)
  moreover have "\<forall>j < ?k. lr_e (iv_ranges ?w ! j) \<le> p" using as by (auto simp: nth_append less_Suc_eq)
  moreover have "Endpoint ?w = Endpoint v" using v by (simp add: Endpoint_def IntervalsBack_def)
  moreover have "covers ?w q \<longleftrightarrow> covers v q \<or> (p \<le> q \<and> (\<forall>s \<in> set (iv_ranges v). p < lr_e s \<longrightarrow> q < lr_b s))" for q
  proof -
    have "(lr_b r \<le> q \<and> q < p) \<or> (p \<le> q \<and> q < lr_e r) \<longleftrightarrow> lr_b r \<le> q \<and> q < lr_e r"
      using r by (meson le_less_trans less_imp_le less_trans not_le order_trans)
    moreover have "\<not> (p \<le> q \<and> q < lr_b r)" using r by (meson le_less_trans less_asym)
    ultimately show ?thesis using r by (auto simp: covers_def v)
  qed
  moreover have "loc_at ?w q = loc_at v q" if "q < p" for q
  proof -
    have none: "find (\<lambda>s. lr_b s \<le> q \<and> q < lr_e s) bs = None"
      using that bs by (intro find_none) (auto dest: less_le_trans)
    moreover have "q < lr_e r" "\<not> p \<le> q" using that r by (blast intro: less_trans, simp)
    ultimately show ?thesis using that by (simp add: loc_at_def v find_append split: option.splits)
  qed
  moreover have "lr_b (iv_ranges ?w ! ?k) = p" "?k < length (iv_ranges ?w)" "iv_usepoints ?w = iv_usepoints v"
    by (simp_all add: nth_append)
  ultimately show ?thesis unfolding split_result_def by blast
qed

lemma split_before:
  assumes v: "iv_ranges v = as @ r # bs" and ok: "valid_ranges (as @ r # bs)"
    and as: "\<forall>s \<in> set as. lr_e s \<le> p" and bs: "\<forall>s \<in> set bs. p < lr_b s"
    and r: "p \<le> lr_b r" "p < lr_e r"
  shows "split_result p v (length as) (v\<lparr>iv_ranges := as @ r\<lparr>lr_b := p\<rparr> # bs\<rparr>)"
    (is "split_result p v ?k ?w")
proof -
  have val: "valid_ranges as" "valid_ranges bs" "\<forall>s \<in> set as. lr_e s \<le> lr_b r" "\<forall>s \<in> set bs. lr_e r \<le> lr_b s"
    "\<forall>a \<in> set as. \<forall>b \<in> set bs. lr_e a \<le> lr_b b"
    using ok by auto
  have "valid_ranges (iv_ranges ?w)" using val r as bs by (auto intro: less_imp_le)
  moreover have "\<forall>j < ?k. lr_e (iv_ranges ?w ! j) \<le> p" using as by (auto simp: nth_append)
  moreover have "Endpoint ?w = Endpoint v" using v by (simp add: Endpoint_def IntervalsBack_def)
  moreover have "covers ?w q \<longleftrightarrow> covers v q \<or> (p \<le> q \<and> (\<forall>s \<in> set (iv_ranges v). p < lr_e s \<longrightarrow> q < lr_b s))" for q
  proof -
    have "p \<le> q \<and> q < lr_e r \<longleftrightarrow> (lr_b r \<le> q \<and> q < lr_e r) \<or> (p \<le> q \<and> q < lr_b r)"
      using r val(4) ok by (auto intro: less_trans order_trans)
    moreover have "q < lr_b r \<Longrightarrow> \<forall>s \<in> set bs. q < lr_b s"
      using val(4) ok by (auto intro: less_trans less_le_trans)
    moreover have "\<not> p < lr_e s" if "s \<in> set as" for s using as that by auto
    ultimately show ?thesis using r by (auto simp: covers_def v)
  qed
  moreover have "loc_at ?w q = loc_at v q" if "q < p" for q
  proof -
    have "find (\<lambda>s. lr_b s \<le> q \<and> q < lr_e s) bs = None"
      using that bs by (intro find_none) (auto dest: less_le_trans)
    moreover have "\<not> lr_b r \<le> q" "\<not> p \<le> q" using that r by (auto dest: less_le_trans)
    ultimately show ?thesis by (simp add: loc_at_def v find_append split: option.splits)
  qed
  moreover have "lr_b (iv_ranges ?w ! ?k) = p" "?k < length (iv_ranges ?w)" "iv_usepoints ?w = iv_usepoints v"
    by (simp_all add: nth_append)
  ultimately show ?thesis unfolding split_result_def by blast
qed

lemma SplitAt_inside:
  assumes "valid_ranges (iv_ranges v)" and "iv_ranges v \<noteq> []"
    and "Startpoint v \<le> p" and "p < Endpoint v"
  shows "\<exists>k w. SplitAt p v = Inr (k, w) \<and> split_result p v k w"
proof -
  obtain as r bs where v: "iv_ranges v = as @ r # bs"
    and found: "FindRangeCoveringOrAfter p v = Inr (length as, v)"
    and at: "\<forall>s \<in> set as. lr_e s \<le> p" "p < lr_e r" "\<forall>s \<in> set bs. p < lr_b s"
    by (rule find_range [OF assms]) (rule that)
  have ok: "valid_ranges (as @ r # bs)" using assms(1) unfolding v .
  note run = SplitAt_at [OF v found at(2)]
  show ?thesis
  proof (cases "lr_b r < p")
    case True
    show ?thesis
      unfolding run if_P [OF True] using split_inside [OF v ok at(1,3) True at(2)] by blast
  next
    case False
    then have "p \<le> lr_b r" by simp
    show ?thesis
      unfolding run if_not_P [OF False] using split_before [OF v ok at(1,3) \<open>p \<le> lr_b r\<close> at(2)] by blast
  qed
qed

lemma SplitAt_end:
  assumes "iv_ranges v \<noteq> []" and "Startpoint v \<le> p" and "Endpoint v \<le> p"
  shows "SplitAt p v = (if p < p + 2
    then Inr (length (iv_ranges v), v\<lparr>iv_ranges := iv_ranges v @ [\<lparr>lr_b = p, lr_e = p + 2, lr_loc = None\<rparr>]\<rparr>)
    else Inl AssertFailed)"
  using assms by (simp add: SplitAt_def FindRangeCoveringOrAfter_def LiveRange_def Let_def guard_def)

text \<open>
  C34: Splitting an interval at a life number inside its bounds succeeds and separates it: every
  range before the returned one ends by the split point, the returned one begins there, the ranges
  stay in order and the end stays.  Nothing covered is lost; what is added is the part of a hole
  from the split point to the next range, when the point lies in a hole.  No location before the
  split point changes.
\<close>

theorem split_at_separates:
  assumes "valid_ranges (iv_ranges v)" and "iv_ranges v \<noteq> []"
    and "Startpoint v \<le> p" and "p < Endpoint v"
  shows "\<exists>k w. SplitAt p v = Inr (k, w) \<and> split_result p v k w"
  using assms by (rule SplitAt_inside)

text \<open>
  Splitting at or after the end of an interval appends a range of length two at the split
  point, which is how the allocator makes a value live again; the assertion of the constructor
  stops it when the life number has no successor in 32 bits.
\<close>

theorem split_at_end_appends:
  assumes "iv_ranges v \<noteq> []" and "Startpoint v \<le> p" and "Endpoint v \<le> p"
  shows "SplitAt p v = (if p < p + 2
    then Inr (length (iv_ranges v), v\<lparr>iv_ranges := iv_ranges v @ [\<lparr>lr_b = p, lr_e = p + 2, lr_loc = None\<rparr>]\<rparr>)
    else Inl AssertFailed)"
  using assms by (rule SplitAt_end)

subsection \<open>Examples\<close>

definition hole_interval :: live_interval where
  "hole_interval = \<lparr>iv_ranges =
     [\<lparr>lr_b = 2, lr_e = 6, lr_loc = Some \<lparr>loc_kind = REG, loc_idx = 0\<rparr>\<rparr>,
      \<lparr>lr_b = 10, lr_e = 14, lr_loc = Some \<lparr>loc_kind = REG, loc_idx = 0\<rparr>\<rparr>], iv_usepoints = [6, 14]\<rparr>"

theorem split_at_separates_witness:
  "(\<exists>k w. SplitAt 4 hole_interval = Inr (k, w) \<and> split_result 4 hole_interval k w) \<and>
   (\<exists>k w. SplitAt 8 hole_interval = Inr (k, w) \<and> split_result 8 hole_interval k w \<and> covers w 9)"
proof -
  have *: "valid_ranges (iv_ranges hole_interval)" "iv_ranges hole_interval \<noteq> []"
    "Startpoint hole_interval = 2" "Endpoint hole_interval = 14"
    by (simp_all add: hole_interval_def Startpoint_def Endpoint_def IntervalsBack_def)
  have "\<exists>k w. SplitAt 8 hole_interval = Inr (k, w) \<and> split_result 8 hole_interval k w"
    by (rule split_at_separates) (simp_all add: *)
  moreover have "covers w 9" if "split_result 8 hole_interval k w" for k w
    using that by (simp add: split_result_def) (simp add: hole_interval_def)
  moreover have "\<exists>k w. SplitAt 4 hole_interval = Inr (k, w) \<and> split_result 4 hole_interval k w"
    by (rule split_at_separates) (simp_all add: *)
  ultimately show ?thesis by blast
qed

theorem split_at_end_appends_witness:
  "SplitAt 20 hole_interval =
     Inr (2, hole_interval\<lparr>iv_ranges := iv_ranges hole_interval @ [\<lparr>lr_b = 20, lr_e = 22, lr_loc = None\<rparr>]\<rparr>)"
  by (subst split_at_end_appends)
    (simp_all add: hole_interval_def Startpoint_def Endpoint_def IntervalsBack_def)

end
