(* ===== verification/Jit_Liveness.thy ===== *)
theory Jit_Liveness
  imports Jit_Linear Jit_Intervals
begin

text \<open>
  Liveness (analyses/liveness.h): the blocks are visited against the linear order, each block's
  live set is built from those of its successors, and every value collects the ranges of life
  numbers where it is live; then the ranges of a value and the loops it is live around are merged
  into one interval.  A live set is the vector of the code, where a removed instruction leaves a
  null pointer.  The map from instructions to ranges is a function of the pointer, and the loop
  over it visits the instructions in the order of their numbers; each entry is treated
  on its own, so the order does not matter.
\<close>

subsection \<open>State\<close>

record live_ranges =
  lrs_ranges :: "live_range list"        \<comment> \<open>the last range is first\<close>
  lrs_loop_ranges :: "live_range list"

record lv_state =
  blocks_live_set :: "nat \<Rightarrow> nat option list"
  insts_live_ranges :: "nat option \<Rightarrow> live_ranges option"

definition GetLiveRanges :: "nat option \<Rightarrow> lv_state \<Rightarrow> live_ranges" where
  "GetLiveRanges i s = (case insts_live_ranges s i of None \<Rightarrow> \<lparr>lrs_ranges = [], lrs_loop_ranges = []\<rparr> | Some r \<Rightarrow> r)"

definition put_ranges :: "nat option \<Rightarrow> live_ranges \<Rightarrow> lv_state \<Rightarrow> lv_state" where
  "put_ranges i r s = s\<lparr>insts_live_ranges := (insts_live_ranges s)(i := Some r)\<rparr>"

text \<open>\<open>Append\<close> (also \<open>AddRange\<close>), \<open>AppendLoopRange\<close> and \<open>FinalizeDef\<close> on the entry of an instruction.\<close>

definition AddRange :: "nat option \<Rightarrow> u32 \<Rightarrow> u32 \<Rightarrow> lv_state \<Rightarrow> lv_state res" where
  "AddRange i b e s =
     rbind (LiveRange b e) (\<lambda>r. let x = GetLiveRanges i s in Inr (put_ranges i (x\<lparr>lrs_ranges := lrs_ranges x @ [r]\<rparr>) s))"

definition AppendLoopRange :: "nat option \<Rightarrow> u32 \<Rightarrow> u32 \<Rightarrow> lv_state \<Rightarrow> lv_state res" where
  "AppendLoopRange i b e s =
     rbind (LiveRange b e) (\<lambda>r.
       let x = GetLiveRanges i s in Inr (put_ranges i (x\<lparr>lrs_loop_ranges := lrs_loop_ranges x @ [r]\<rparr>) s))"

definition FinalizeDef :: "nat option \<Rightarrow> u32 \<Rightarrow> lv_state \<Rightarrow> lv_state res" where
  "FinalizeDef i d s =
     (let x = GetLiveRanges i s in
      guard (lrs_ranges x \<noteq> []) Undefined
        (rbind (TrimBegin d (last (lrs_ranges x))) (\<lambda>r.
           Inr (put_ranges i (x\<lparr>lrs_ranges := butlast (lrs_ranges x) @ [r]\<rparr>) s))))"

subsection \<open>Live sets\<close>

definition Extend :: "nat \<Rightarrow> nat option \<Rightarrow> lv_state \<Rightarrow> lv_state" where
  "Extend b i s = s\<lparr>blocks_live_set := (blocks_live_set s)(b := blocks_live_set s b @ [i])\<rparr>"

definition Has :: "nat \<Rightarrow> nat option \<Rightarrow> lv_state \<Rightarrow> bool" where
  "Has b i s \<longleftrightarrow> i \<in> set (blocks_live_set s b)"

definition LS_Remove :: "nat \<Rightarrow> nat \<Rightarrow> lv_state \<Rightarrow> lv_state res" where
  "LS_Remove b i s =
     guard (Has b (Some i) s) AssertFailed
       (Inr (s\<lparr>blocks_live_set := (blocks_live_set s)
              (b := (blocks_live_set s b)[index_of (Some i) (blocks_live_set s b) := None])\<rparr>))"

subsection \<open>One block\<close>

definition InitializeBlock :: "nat \<Rightarrow> u32 \<Rightarrow> u32 \<Rightarrow> agraph \<Rightarrow> lv_state \<Rightarrow> lv_state res" where
  "InitializeBlock b ln_begin ln_end g s =
     guard (blocks_live_set s b = []) AssertFailed
       (fold_res (\<lambda>c t.
          rbind (fold_res (\<lambda>i u.
              if i \<noteq> None \<and> \<not> Has b i u then AddRange i ln_begin ln_end (Extend b i u) else Inr u)
            (blocks_live_set t c) t) (\<lambda>t1.
          rbind (GetPredIdx c b g) (\<lambda>k.
            fold_res (\<lambda>p u. rbind (GetInput p k g) (\<lambda>i.
                if \<not> Has b i u then AddRange i ln_begin ln_end (Extend b i u) else Inr u))
              (GetPhis g c) t1)))
        (bb_succs (g_bb g b)) s)"

text \<open>\<open>GetInsts<true>\<close>: from the last instruction backwards.\<close>

definition GetInstsRev :: "'g graph_scheme \<Rightarrow> nat \<Rightarrow> nat list" where
  "GetInstsRev g b = follow (\<lambda>i. ji_prev (g_inst g i)) (g_insts_count g) (bb_last_inst (g_bb g b))"

definition HasUsers :: "'g graph_scheme \<Rightarrow> nat \<Rightarrow> bool" where
  "HasUsers g i \<longleftrightarrow> ji_first_user (g_inst g i) \<noteq> None"

definition process_inst :: "nat \<Rightarrow> u32 \<Rightarrow> agraph \<Rightarrow> nat \<Rightarrow> lv_state \<Rightarrow> lv_state res" where
  "process_inst b start g i s =
     rbind
       (if HasDst (ji_opcode (g_inst g i)) then
          if HasUsers g i then rbind (FinalizeDef (Some i) (LN g i) s) (LS_Remove b i)
          else rbind (AddRange (Some i) (LN g i) (LN g i + 2) s) (\<lambda>t. guard (\<not> Has b (Some i) t) AssertFailed (Inr t))
        else guard (\<not> Has b (Some i) s) AssertFailed (Inr s))
       (\<lambda>s1. guard (\<not> IsPhi g i) AssertFailed
          (fold_res (\<lambda>x t. if \<not> Has b x t then rbind (AddRange x start (LN g i) t) (\<lambda>u. Inr (Extend b x u)) else Inr t)
             (ji_inputs (g_inst g i)) s1))"

definition ProcessInstructions :: "nat \<Rightarrow> u32 \<Rightarrow> agraph \<Rightarrow> lv_state \<Rightarrow> lv_state res" where
  "ProcessInstructions b start g s =
     rbind (fold_res (process_inst b start g) (GetInstsRev g b) s) (fold_res (LS_Remove b) (GetPhis g b))"

text \<open>
  \<open>ProcessLoop\<close>: \<open>k\<close> is the position of the header.  The range ends at the first later block whose
  own loop is another one; the sentinel at the end of the order has no block.
\<close>

fun loop_end :: "nat \<Rightarrow> (nat option \<times> nat) list \<Rightarrow> agraph \<Rightarrow> nat res" where
  "loop_end l [] g = Inl Undefined"
| "loop_end l ((p, n) # es) g = deref p (\<lambda>b. if Loop_of b g = Some l then loop_end l es g else Inr n)"

definition ProcessLoop :: "nat \<Rightarrow> agraph \<Rightarrow> lv_state \<Rightarrow> lv_state res" where
  "ProcessLoop k g s =
     deref (fst (g_linear g ! k)) (\<lambda>h.
       deref (Loop_of h g) (\<lambda>l.
         rbind (loop_end l (drop (Suc k) (g_linear g)) g) (\<lambda>e.
           fold_res (\<lambda>i t. if i \<noteq> None then AppendLoopRange i (of_nat (snd (g_linear g ! k))) (of_nat e) t else Inr t)
             (blocks_live_set s h) s)))"

definition live_block :: "agraph \<Rightarrow> nat \<Rightarrow> lv_state \<Rightarrow> lv_state res" where
  "live_block g k s =
     deref (fst (g_linear g ! k)) (\<lambda>b.
       rbind (InitializeBlock b (of_nat (snd (g_linear g ! k))) (of_nat (snd (g_linear g ! Suc k))) g s) (\<lambda>s1.
         rbind (ProcessInstructions b (of_nat (snd (g_linear g ! k))) g s1) (\<lambda>s2.
           rbind (IsHeader b g) (\<lambda>hd. if hd then ProcessLoop k g s2 else Inr s2))))"

definition CalculateLifeRanges :: "agraph \<Rightarrow> lv_state \<Rightarrow> lv_state res" where
  "CalculateLifeRanges g = fold_res (live_block g) (rev [0..<length (g_linear g) - 1])"

subsection \<open>Merging ranges into intervals\<close>

fun check_order :: "live_range list \<Rightarrow> unit res" where
  "check_order (r1 # r2 # rs) =
     guard (lr_b r1 < lr_e r1) AssertFailed (guard (lr_b r2 < lr_e r2) AssertFailed
       (guard (lr_e r1 \<le> lr_b r2) AssertFailed (check_order (r2 # rs))))"
| "check_order rs = Inr ()"

fun check_loop_order :: "live_range list \<Rightarrow> unit res" where
  "check_loop_order (r1 # r2 # rs) =
     guard (lr_b r1 < lr_e r1) AssertFailed (guard (lr_b r2 < lr_e r2) AssertFailed
       (guard (lr_e r1 \<le> lr_b r2 \<or> (lr_b r1 \<le> lr_b r2 \<and> lr_e r2 \<le> lr_e r2)) AssertFailed (check_loop_order (r2 # rs))))"
| "check_loop_order rs = Inr ()"

definition CheckRanges :: "live_ranges \<Rightarrow> unit res" where
  "CheckRanges x =
     guard (lrs_ranges x \<noteq> []) AssertFailed
       (rbind (check_order (rev (lrs_ranges x))) (\<lambda>u. check_loop_order (rev (lrs_loop_ranges x))))"

text \<open>
  \<open>loop_ln_begin\<close> and \<open>loop_ln_end\<close> are of type \<open>int\<close>: compared with a \<open>size_t\<close> they are sign
  extended, where the bounds of a range are zero extended.
\<close>

definition sx :: "u32 \<Rightarrow> u64" where
  "sx w = scast w"

definition zx :: "u32 \<Rightarrow> u64" where
  "zx w = ucast w"

text \<open>The loop that appends ranges which begin where the interval ends.\<close>

fun merge_ranges :: "live_interval \<Rightarrow> live_range list \<Rightarrow> (live_interval \<times> live_range list) res" where
  "merge_ranges v [] = Inr (v, [])"
| "merge_ranges v (r # rs) =
     (if Endpoint v = lr_b r then rbind (ExtendActive (lr_e r) v) (\<lambda>w. merge_ranges w rs) else Inr (v, r # rs))"

text \<open>The loop that skips the ranges of nested loops.\<close>

fun skip_loops :: "u32 \<Rightarrow> u32 \<Rightarrow> live_range list \<Rightarrow> live_range list res" where
  "skip_loops lb le [] = Inr []"
| "skip_loops lb le (l # ls) =
     (if zx (lr_e l) < sx le then guard (sx lb \<le> zx (lr_b l)) AssertFailed (skip_loops lb le ls) else Inr (l # ls))"

text \<open>Case 1 of the loop, when the loop reaches beyond the interval.\<close>

definition absorb_loop :: "u32 \<Rightarrow> u32 \<Rightarrow> live_interval \<Rightarrow> live_range list \<Rightarrow> (live_interval \<times> live_range list) res" where
  "absorb_loop lb le v rs =
     rbind (ExtendActive le v) (\<lambda>w.
       case dropWhile (\<lambda>r. zx (lr_e r) < sx le) rs of
         [] \<Rightarrow> Inr (w, [])
       | r # rest \<Rightarrow>
           if zx (lr_b r) \<le> sx le then rbind (ExtendActive (lr_e r) w) (\<lambda>x. Inr (x, rest))
           else Inr (w, r # rest))"

fun fill_interval :: "nat \<Rightarrow> live_interval \<Rightarrow> live_range list \<Rightarrow> live_range list \<Rightarrow> live_interval res" where
  "fill_interval 0 v rs ls = Inl OutOfFuel"
| "fill_interval (Suc n) v rs ls =
     (if ls \<noteq> [] \<and> sx (lr_b (hd ls)) \<le> zx (Endpoint v) then
        let lb = lr_b (hd ls); le = lr_e (hd ls) in
        guard (zx (lr_b (IntervalsBack v)) < sx lb) AssertFailed
          (if sx le \<le> zx (Endpoint v) then fill_interval n v rs (tl ls)
           else rbind (absorb_loop lb le v rs) (\<lambda>(w, rs1).
                  rbind (skip_loops lb le ls) (\<lambda>ls1. fill_interval n w rs1 ls1)))
      else rbind (merge_ranges v rs) (\<lambda>(w, rs1).
        if ls \<noteq> [] \<and> sx (lr_b (hd ls)) < zx (Endpoint w) then fill_interval n w rs1 ls
        else case rs1 of
            [] \<Rightarrow> Inr w
          | r # rest \<Rightarrow>
              guard (Endpoint w < lr_b r) AssertFailed
                (guard (ls = [] \<or> zx (lr_b r) < sx (lr_b (hd ls))) AssertFailed
                   (fill_interval n (AppendAfterHole r w) rest ls))))"

fun user_chain :: "nat \<Rightarrow> slot option \<Rightarrow> agraph \<Rightarrow> slot list" where
  "user_chain 0 p g = []"
| "user_chain (Suc n) p g = (case p of None \<Rightarrow> [] | Some u \<Rightarrow> u # user_chain n (next_user g u) g)"

text \<open>\<open>std::set\<close> gives the use points sorted and without repetition.\<close>

definition FillIntervalUsepoints :: "nat option \<Rightarrow> agraph \<Rightarrow> live_interval \<Rightarrow> live_interval res" where
  "FillIntervalUsepoints p g v =
     deref p (\<lambda>i. Inr (SetUsepoints
       (sorted_list_of_set (set (map (\<lambda>u. LN g (fst u)) (user_chain (Suc (slot_count g)) (ji_first_user (g_inst g i)) g)))) v))"

definition fill_fuel :: "live_range list \<Rightarrow> live_range list \<Rightarrow> nat" where
  "fill_fuel rs ls = 4 * (length rs + length ls) + 4"

definition fill_one :: "nat option \<Rightarrow> agraph \<Rightarrow> live_ranges \<Rightarrow> live_interval res" where
  "fill_one p g x =
     rbind (CheckRanges x) (\<lambda>u.
       let rs = rev (lrs_ranges x); ls = rev (lrs_loop_ranges x) in
       rbind (fill_interval (fill_fuel (tl rs) ls) (LiveInterval (hd rs)) (tl rs) ls) (\<lambda>v.
         rbind (CheckIntervals v) (\<lambda>u. FillIntervalUsepoints p g v)))"

definition FillIntervals :: "agraph \<Rightarrow> lv_state \<Rightarrow> (nat option \<Rightarrow> live_interval option) res" where
  "FillIntervals g s =
     fold_res (\<lambda>p m. case insts_live_ranges s p of
         None \<Rightarrow> Inr m
       | Some x \<Rightarrow> rbind (fill_one p g x) (\<lambda>v. Inr (m(p := Some v))))
       (None # map Some [0..<g_insts_count g]) (\<lambda>_. None)"

text \<open>\<open>LivenessAnalysis(graph)\<close>; nothing is computed for an irreducible graph.\<close>

definition BuildLiveness :: "agraph \<Rightarrow> (nat option \<Rightarrow> live_interval option) res" where
  "BuildLiveness g =
     guard (IsLinearOrderValid g) AssertFailed
       (if g_reducible g then
          rbind (CalculateLifeRanges g \<lparr>blocks_live_set = (\<lambda>_. []), insts_live_ranges = (\<lambda>_. None)\<rparr>) (FillIntervals g)
        else Inr (\<lambda>_. None))"

end
