(* ===== verification/Jit_RegAlloc.thy ===== *)
theory Jit_RegAlloc
  imports Jit_Linear Jit_Intervals Jit_Liveness
begin

text \<open>
  The linear scan register allocator (analyses/reg_alloc.h), for the four registers of
  analyses/reg_descr.h.  The intervals are those of the graph, which the allocator holds by
  reference; \<open>active_\<close> is a list of pointers to them, here of their keys.  \<open>locations_\<close> is a field of
  the ranges (Jit_Intervals), and \<open>at\<close> on a missing entry throws, which nothing catches.  An
  iterator into the ranges is an index, one into \<open>active_\<close> the key it points at.
\<close>

subsection \<open>State\<close>

record ra_state =
  ra_ivs :: "nat option \<Rightarrow> live_interval option"
  ra_active :: "nat option list"
  busy_regs :: "bool list"
  busy_slots :: "bool list"
  slots_used :: nat

definition REGS_COUNT :: nat where
  "REGS_COUNT = 4"

definition SLOTS_COUNT :: nat where
  "SLOTS_COUNT = 255"

definition ra_init :: "(nat option \<Rightarrow> live_interval option) \<Rightarrow> ra_state" where
  "ra_init m = \<lparr>ra_ivs = m, ra_active = [], busy_regs = replicate REGS_COUNT False,
     busy_slots = replicate SLOTS_COUNT False, slots_used = 0\<rparr>"

definition GetInterval :: "nat option \<Rightarrow> ra_state \<Rightarrow> live_interval res" where
  "GetInterval p s = of_opt (Fatal ''out_of_range'') (ra_ivs s p)"

text \<open>A dereferenced \<open>LiveInterval *\<close>: pointers come from \<open>GetInterval\<close>, so the entry exists.\<close>

definition iv_of :: "ra_state \<Rightarrow> nat option \<Rightarrow> live_interval" where
  "iv_of s p = (case ra_ivs s p of None \<Rightarrow> \<lparr>iv_ranges = [], iv_usepoints = []\<rparr> | Some v \<Rightarrow> v)"

definition put_iv :: "nat option \<Rightarrow> live_interval \<Rightarrow> ra_state \<Rightarrow> ra_state" where
  "put_iv p v s = s\<lparr>ra_ivs := (ra_ivs s)(p := Some v)\<rparr>"

subsection \<open>Locations\<close>

definition location_at :: "live_range \<Rightarrow> location res" where
  "location_at r = of_opt (Fatal ''out_of_range'') (lr_loc r)"

definition CurrentLocation :: "live_interval \<Rightarrow> location res" where
  "CurrentLocation v = location_at (IntervalsBack v)"

definition FirstLocation :: "live_interval \<Rightarrow> location res" where
  "FirstLocation v = location_at (hd (iv_ranges v))"

text \<open>\<open>Get<Location::REG>\<close> and \<open>Set\<close> on the ranges from index \<open>k\<close> up to, but not including, \<open>m\<close>.\<close>

definition GetRegIdx :: "live_interval \<Rightarrow> nat res" where
  "GetRegIdx v = rbind (CurrentLocation v) (\<lambda>l. guard (loc_kind l = REG) AssertFailed (Inr (loc_idx l)))"

definition SetLoc :: "nat \<Rightarrow> nat \<Rightarrow> location \<Rightarrow> live_interval \<Rightarrow> live_interval" where
  "SetLoc k m l v = v\<lparr>iv_ranges :=
     take k (iv_ranges v) @ map (\<lambda>r. r\<lparr>lr_loc := Some l\<rparr>) (take (m - k) (drop k (iv_ranges v))) @ drop (max k m) (iv_ranges v)\<rparr>"

definition SetFrom :: "nat \<Rightarrow> location \<Rightarrow> live_interval \<Rightarrow> live_interval" where
  "SetFrom k l v = SetLoc k (length (iv_ranges v)) l v"

definition IsActive :: "nat option \<Rightarrow> u32 \<Rightarrow> ra_state \<Rightarrow> bool res" where
  "IsActive p n s =
     rbind (CurrentLocation (iv_of s p)) (\<lambda>l.
       let is_reg_loc = loc_kind l = REG; found_in_active = p \<in> set (ra_active s);
           is_expiring = lr_e (IntervalsBack (iv_of s p)) = n
       in guard (found_in_active = is_reg_loc \<or> is_expiring \<and> is_reg_loc \<and> \<not> found_in_active) AssertFailed
            (Inr is_reg_loc))"

subsection \<open>Active intervals\<close>

definition Recycle :: "nat option \<Rightarrow> ra_state \<Rightarrow> ra_state res" where
  "Recycle j s =
     rbind (CurrentLocation (iv_of s j)) (\<lambda>l.
       rbind
         (case loc_kind l of
            REG \<Rightarrow> rbind (nth_res (busy_regs s) (loc_idx l)) (\<lambda>b.
              guard b AssertFailed (Inr (s\<lparr>busy_regs := (busy_regs s)[loc_idx l := False]\<rparr>)))
          | SLOT \<Rightarrow> rbind (nth_res (busy_slots s) (loc_idx l)) (\<lambda>b.
              guard b AssertFailed (Inr (s\<lparr>busy_slots := (busy_slots s)[loc_idx l := False]\<rparr>)))
          | UNDEF \<Rightarrow> Inr s)
         (\<lambda>t. Inr (t\<lparr>ra_active := remove1 j (ra_active t)\<rparr>)))"

fun expire_loop :: "u32 \<Rightarrow> nat option list \<Rightarrow> ra_state \<Rightarrow> ra_state res" where
  "expire_loop n [] s = Inr s"
| "expire_loop n (j # js) s =
     (if n < Endpoint (iv_of s j) then Inr s else rbind (Recycle j s) (expire_loop n js))"

definition ExpireOldIntervals :: "u32 \<Rightarrow> ra_state \<Rightarrow> ra_state res" where
  "ExpireOldIntervals n s = expire_loop n (ra_active s) s"

definition AllocateFreeReg :: "ra_state \<Rightarrow> (nat \<times> ra_state) res" where
  "AllocateFreeReg s =
     (case find (\<lambda>i. \<not> busy_regs s ! i) [0..<REGS_COUNT] of
        None \<Rightarrow> Inl (Fatal ''UNREACHABLE'')
      | Some i \<Rightarrow> Inr (i, s\<lparr>busy_regs := (busy_regs s)[i := True]\<rparr>))"

text \<open>Behind the last active interval that does not end later.\<close>

definition InsertActive :: "nat option \<Rightarrow> ra_state \<Rightarrow> ra_state" where
  "InsertActive p s =
     (let after = takeWhile (\<lambda>j. \<not> Endpoint (iv_of s j) \<le> Endpoint (iv_of s p)) (rev (ra_active s));
          k = length (ra_active s) - length after
      in s\<lparr>ra_active := take k (ra_active s) @ p # drop k (ra_active s)\<rparr>)"

subsection \<open>Spilling\<close>

definition furthest_step :: "u32 \<Rightarrow> nat option \<Rightarrow> u32 \<times> nat option \<times> ra_state \<Rightarrow> u32 \<times> nat option \<times> ra_state" where
  "furthest_step n j = (\<lambda>(f, q, s).
     let us = dropWhile (\<lambda>u. u \<le> n) (iv_usepoints (iv_of s j));
         t = put_iv j ((iv_of s j)\<lparr>iv_usepoints := us\<rparr>) s
     in case us of
          [] \<Rightarrow> (f, j, t)
        | u # _ \<Rightarrow> if f \<le> u then (u, j, t) else (f, q, t))"

definition GetUnusedIntervalToSpill :: "u32 \<Rightarrow> ra_state \<Rightarrow> (nat option \<times> ra_state) res" where
  "GetUnusedIntervalToSpill n s =
     guard (length (ra_active s) = REGS_COUNT) AssertFailed
       (case fold (furthest_step n) (ra_active s) (0, hd (ra_active s), s) of (f, q, t) \<Rightarrow> Inr (q, t))"

definition SpillUnusedAndActivate :: "nat option \<Rightarrow> u32 \<Rightarrow> ra_state \<Rightarrow> ra_state res" where
  "SpillUnusedAndActivate p n s =
     rbind (GetUnusedIntervalToSpill n s) (\<lambda>(q, s1).
       rbind (GetRegIdx (iv_of s1 q)) (\<lambda>r.
         rbind (nth_res (busy_regs s1) r) (\<lambda>b.
           guard b AssertFailed
             (rbind (SplitAt (n - 1) (iv_of s1 q)) (\<lambda>(k, w).
               let s2 = put_iv q w s1 in
               rbind (SplitAt n (iv_of s2 p)) (\<lambda>(m, v).
                 let s3 = put_iv p (SetFrom m \<lparr>loc_kind = REG, loc_idx = r\<rparr> v) s2;
                     s4 = put_iv q (SetFrom k \<lparr>loc_kind = SLOT, loc_idx = slots_used s\<rparr> (iv_of s3 q)) s3
                 in rbind (upd_res (busy_slots s4) (slots_used s) True) (\<lambda>bs.
                      Inr (InsertActive p (s4\<lparr>busy_slots := bs, slots_used := Suc (slots_used s),
                                             ra_active := remove1 q (ra_active s4)\<rparr>)))))))))"

text \<open>The branch of the callers for a free register; \<open>k\<close> is the first range that gets it.\<close>

definition activate :: "nat option \<Rightarrow> nat \<Rightarrow> nat \<Rightarrow> live_interval \<Rightarrow> ra_state \<Rightarrow> ra_state" where
  "activate p k r v s = InsertActive p (put_iv p (SetFrom k \<lparr>loc_kind = REG, loc_idx = r\<rparr> v) s)"

subsection \<open>One instruction\<close>

definition fill_input :: "u32 \<Rightarrow> nat option \<Rightarrow> ra_state \<Rightarrow> ra_state res" where
  "fill_input n x s =
     rbind (GetInterval x s) (\<lambda>v0.
       rbind (IsActive x n s) (\<lambda>a.
         if a then Inr s
         else if length (ra_active s) = REGS_COUNT then SpillUnusedAndActivate x n s
         else guard (length (ra_active s) < REGS_COUNT) AssertFailed
           (rbind (AllocateFreeReg s) (\<lambda>(r, t).
             rbind (SplitAt (n - 1) (iv_of t x)) (\<lambda>(k, v). Inr (activate x k r v t))))))"

definition FillInputs :: "agraph \<Rightarrow> nat \<Rightarrow> ra_state \<Rightarrow> ra_state res" where
  "FillInputs g i s =
     (if IsPhi g i then Inr s else fold_res (fill_input (LN g i)) (ji_inputs (g_inst g i)) s)"

definition place_result :: "nat option \<Rightarrow> ra_state \<Rightarrow> ra_state res" where
  "place_result p s =
     guard (ra_ivs s p \<noteq> None) AssertFailed
       (if length (ra_active s) = REGS_COUNT then SpillUnusedAndActivate p (Startpoint (iv_of s p)) s
        else guard (length (ra_active s) < REGS_COUNT) AssertFailed
          (rbind (AllocateFreeReg s) (\<lambda>(r, t). Inr (activate p 0 r (iv_of t p) t))))"

definition alloc_inst :: "agraph \<Rightarrow> nat \<Rightarrow> ra_state \<Rightarrow> ra_state res" where
  "alloc_inst g i s =
     rbind (ExpireOldIntervals (LN g i) s) (\<lambda>s1.
       rbind (FillInputs g i s1) (\<lambda>s2.
         if \<not> HasDst (ji_opcode (g_inst g i)) then Inr s2 else place_result (Some i) s2))"

text \<open>The blocks before the sentinel of the linear order, and the instructions the loop visits.\<close>

definition order_blocks :: "agraph \<Rightarrow> nat list" where
  "order_blocks g = map the (takeWhile (\<lambda>p. p \<noteq> None) (map fst (g_linear g)))"

definition alloc_order :: "agraph \<Rightarrow> nat list" where
  "alloc_order g = concat (map (GetAllInsts g) (order_blocks g))"

definition AllocateRegisters :: "agraph \<Rightarrow> ra_state \<Rightarrow> ra_state res" where
  "AllocateRegisters g = fold_res (alloc_inst g) (alloc_order g)"

subsection \<open>Phis\<close>

definition ProcessPhiInput :: "nat option \<Rightarrow> nat \<Rightarrow> location \<Rightarrow> agraph \<Rightarrow> ra_state \<Rightarrow> ra_state res" where
  "ProcessPhiInput p b l g s =
     guard (loc_kind l = REG) AssertFailed
       (rbind (GetBlockLinearIDX b g) (\<lambda>j.
         rbind (GetBlockEndLN j g) (\<lambda>n.
           rbind (GetInterval p s) (\<lambda>v.
             rbind (SplitAt (n - 1) v) (\<lambda>(k, w).
               if lr_e (iv_ranges w ! k) = n
               then Inr (put_iv p (SetLoc k (Suc k) \<lparr>loc_kind = REG, loc_idx = loc_idx l\<rparr> w) s)
               else
                 rbind (SplitAt n w) (\<lambda>(m, u).
                   guard (k \<noteq> 0) Undefined
                     (rbind (location_at (iv_ranges u ! (k - 1))) (\<lambda>old.
                       Inr (put_iv p (SetLoc m (Suc m) old (SetLoc k m \<lparr>loc_kind = REG, loc_idx = loc_idx l\<rparr> u)) s)))))))))"

definition merge_phi :: "agraph \<Rightarrow> nat \<Rightarrow> nat \<Rightarrow> ra_state \<Rightarrow> ra_state res" where
  "merge_phi g b p s =
     guard (length (bb_preds (g_bb g b)) = length (ji_inputs (g_inst g p))) AssertFailed
       (fold_res (\<lambda>i t.
           rbind (GetInput p i g) (\<lambda>x.
             rbind (nth_res (bb_preds (g_bb g b)) i) (\<lambda>c.
               rbind (GetInterval (Some p) t) (\<lambda>v.
                 rbind (FirstLocation v) (\<lambda>l. ProcessPhiInput x c l g t)))))
         [0..<length (ji_inputs (g_inst g p))] s)"

definition MergePhis :: "agraph \<Rightarrow> ra_state \<Rightarrow> ra_state res" where
  "MergePhis g = fold_res (\<lambda>b. fold_res (merge_phi g b) (GetPhis g b)) (order_blocks g)"

definition RegAlloc :: "agraph \<Rightarrow> (nat option \<Rightarrow> live_interval option) \<Rightarrow> ra_state res" where
  "RegAlloc g m = rbind (AllocateRegisters g (ra_init m)) (MergePhis g)"

end
