(* ===== verification/Jit_Regs.thy ===== *)
theory Jit_Regs
  imports Jit_RegAlloc
begin

text \<open>
  The invariant of the register allocator (\<open>AllocateRegisters\<close> of analyses/reg_alloc.h): the active
  intervals hold pairwise different registers, exactly the busy ones, and what an interval held
  before lies in the past.  It gives the property a register allocation is for, that no two
  values are in the same place at the same life number.
\<close>

subsection \<open>Splitting and locating\<close>

lemma SplitAt_shape:
  assumes "SplitAt p v = Inr (k, w)"
  shows "k < length (iv_ranges w)" and "iv_usepoints w = iv_usepoints v"
proof -
  from assms obtain j u where u: "FindRangeCoveringOrAfter p v = Inr (j, u)" "j < length (iv_ranges u)"
    and k: "(if lr_b (iv_ranges u ! j) < p then
               rbind (LiveRange p (lr_e (iv_ranges u ! j))) (\<lambda>n. Inr (Suc j, u\<lparr>iv_ranges :=
                 take j (iv_ranges u) @ (iv_ranges u ! j)\<lparr>lr_e := p\<rparr> # n # drop (Suc j) (iv_ranges u)\<rparr>))
             else Inr (j, u\<lparr>iv_ranges := (iv_ranges u)[j := (iv_ranges u ! j)\<lparr>lr_b := p\<rparr>]\<rparr>)) = Inr (k, w)"
    by (auto simp: SplitAt_def Let_def res_simps)
  show "k < length (iv_ranges w)" using k u(2) by (auto simp: res_simps split: if_splits)
  have "iv_usepoints u = iv_usepoints v" using u(1) by (auto simp: FindRangeCoveringOrAfter_def res_simps split: if_splits)
  then show "iv_usepoints w = iv_usepoints v" using k by (auto simp: res_simps split: if_splits)
qed

text \<open>The ranges before the split point are those of before, perhaps shortened.\<close>

definition shortened :: "live_range \<Rightarrow> live_interval \<Rightarrow> bool" where
  "shortened r v \<longleftrightarrow> (\<exists>s \<in> set (iv_ranges v). lr_loc r = lr_loc s \<and> lr_b s \<le> lr_b r \<and> lr_e r \<le> lr_e s)"

lemma shortenedI: "s \<in> set (iv_ranges v) \<Longrightarrow> lr_loc r = lr_loc s \<Longrightarrow> lr_b s \<le> lr_b r \<Longrightarrow> lr_e r \<le> lr_e s \<Longrightarrow> shortened r v"
  unfolding shortened_def by blast

lemma SplitAt_valid:
  assumes "SplitAt p v = Inr (k, w)" and "valid_ranges (iv_ranges v)" and "iv_ranges v \<noteq> []"
  shows "valid_ranges (iv_ranges w)" and "lr_b (iv_ranges w ! k) = p" and "k < length (iv_ranges w)"
    and "j < k \<Longrightarrow> lr_e (iv_ranges w ! j) \<le> p" and "j < k \<Longrightarrow> shortened (iv_ranges w ! j) v"
    and "Startpoint v \<le> p" and "Endpoint v \<le> p \<Longrightarrow> p < p + 2"
proof -
  from assms(1) show start: "Startpoint v \<le> p" by (auto simp: SplitAt_def FindRangeCoveringOrAfter_def res_simps)
  have all: "valid_ranges (iv_ranges w) \<and> lr_b (iv_ranges w ! k) = p \<and> k < length (iv_ranges w) \<and>
      (\<forall>j < k. lr_e (iv_ranges w ! j) \<le> p \<and> shortened (iv_ranges w ! j) v) \<and> (Endpoint v \<le> p \<longrightarrow> p < p + 2)"
  proof (cases "Endpoint v \<le> p")
    case True
    note end_split = SplitAt_end [OF assms(3) start True]
    have small: "p < p + 2" using assms(1) unfolding end_split by (simp split: if_splits)
    then have kw: "k = length (iv_ranges v)" "w = v\<lparr>iv_ranges := iv_ranges v @ [\<lparr>lr_b = p, lr_e = p + 2, lr_loc = None\<rparr>]\<rparr>"
      using assms(1) unfolding end_split by simp_all
    obtain xs x where x: "iv_ranges v = xs @ [x]" using assms(3) by (cases "iv_ranges v" rule: rev_cases) auto
    have "lr_e x \<le> p" using True x by (simp add: Endpoint_def IntervalsBack_def)
    moreover have "lr_e y \<le> lr_e x" if "y \<in> set xs" for y
      using assms(2) that unfolding x by (auto intro: order_trans less_imp_le)
    ultimately have past: "lr_e r \<le> p" if "r \<in> set (iv_ranges v)" for r
      using that x by (auto intro: order_trans)
    have "shortened (iv_ranges v ! j) v" if "j < k" for j
      using that kw(1) by (intro shortenedI [of "iv_ranges v ! j"]) auto
    moreover have "valid_ranges (iv_ranges w)" using assms(2) past small kw(2) by auto
    ultimately show ?thesis using kw past small by (auto simp: nth_append)
  next
    case False
    then have p: "p < Endpoint v" by simp
    obtain as r bs where v: "iv_ranges v = as @ r # bs" and found: "FindRangeCoveringOrAfter p v = Inr (length as, v)"
      and at: "\<forall>s \<in> set as. lr_e s \<le> p" "p < lr_e r"
      by (rule find_range [OF assms(2,3) start p]) (rule that)
    obtain k' w' where res: "SplitAt p v = Inr (k', w')" "split_result p v k' w'"
      using SplitAt_inside [OF assms(2,3) start p] by blast
    then have kw: "k' = k" "w' = w" using assms(1) by simp_all
    have "shortened (iv_ranges w ! j) v" if "j < k" for j
    proof (cases "lr_b r < p")
      case True
      then have w: "k = Suc (length as)" "iv_ranges w = as @ r\<lparr>lr_e := p\<rparr> # \<lparr>lr_b = p, lr_e = lr_e r, lr_loc = None\<rparr> # bs"
        using SplitAt_at [OF v found at(2)] assms(1) by auto
      show ?thesis
      proof (cases "j = length as")
        case True
        then have "iv_ranges w ! j = r\<lparr>lr_e := p\<rparr>" using w(2) by simp
        then show ?thesis using at(2) v by (intro shortenedI [of r]) (auto intro: less_imp_le)
      next
        case False
        then have "j < length as" using that w(1) by simp
        then show ?thesis using w(2) v by (intro shortenedI [of "as ! j"]) (auto simp: nth_append)
      qed
    next
      case False
      then have w: "k = length as" "iv_ranges w = as @ r\<lparr>lr_b := p\<rparr> # bs"
        using SplitAt_at [OF v found at(2)] assms(1) by auto
      show ?thesis using w v that by (intro shortenedI [of "as ! j"]) (auto simp: nth_append)
    qed
    then show ?thesis using res(2) False unfolding kw split_result_def by blast
  qed
  then show "valid_ranges (iv_ranges w)" "lr_b (iv_ranges w ! k) = p" "k < length (iv_ranges w)"
    "j < k \<Longrightarrow> lr_e (iv_ranges w ! j) \<le> p" "j < k \<Longrightarrow> shortened (iv_ranges w ! j) v"
    "Endpoint v \<le> p \<Longrightarrow> p < p + 2" by blast+
qed

lemma SetFrom_ranges:
  "iv_ranges (SetFrom k l v) = take k (iv_ranges v) @ map (\<lambda>r. r\<lparr>lr_loc := Some l\<rparr>) (drop k (iv_ranges v))"
  by (simp add: SetFrom_def SetLoc_def)

lemma valid_map: "(\<And>r. lr_b (f r) = lr_b r \<and> lr_e (f r) = lr_e r) \<Longrightarrow> valid_ranges (map f rs) = valid_ranges rs"
  by (induction rs) auto

lemma SetFrom_valid: "valid_ranges (iv_ranges v) \<Longrightarrow> valid_ranges (iv_ranges (SetFrom k l v))"
proof -
  assume "valid_ranges (iv_ranges v)"
  then have "valid_ranges (take k (iv_ranges v) @ drop k (iv_ranges v))" by simp
  then show ?thesis unfolding SetFrom_ranges valid_ranges_append by (simp add: valid_map)
qed

lemma SetFrom_last: "k < length (iv_ranges v) \<Longrightarrow> lr_loc (last (iv_ranges (SetFrom k l v))) = Some l"
  by (simp add: SetFrom_ranges last_map)

lemma SetFrom_empty [simp]: "iv_ranges (SetFrom k l v) = [] \<longleftrightarrow> iv_ranges v = []"
  by (metis SetFrom_ranges append_is_Nil_conv append_take_drop_id map_is_Nil_conv)

text \<open>A range of the new interval is one from the split point on, or a shortened old one.\<close>

lemma SetFrom_SplitAt:
  assumes "SplitAt p v = Inr (k, w)" and "valid_ranges (iv_ranges v)" and "iv_ranges v \<noteq> []"
    and "r \<in> set (iv_ranges (SetFrom k l w))"
  shows "lr_loc r = Some l \<and> p \<le> lr_b r \<or> lr_e r \<le> p \<and> shortened r v"
proof -
  note w = SplitAt_valid [OF assms(1-3)]
  from assms(4) consider "r \<in> set (take k (iv_ranges w))"
    | s where "s \<in> set (drop k (iv_ranges w))" "r = s\<lparr>lr_loc := Some l\<rparr>"
    by (auto simp: SetFrom_ranges)
  then show ?thesis
  proof cases
    case 1
    then obtain j where "j < k" "r = iv_ranges w ! j" using w(3) by (auto simp: in_set_conv_nth)
    then show ?thesis using w(4,5) by blast
  next
    case 2
    have "iv_ranges w = take k (iv_ranges w) @ (iv_ranges w ! k) # drop (Suc k) (iv_ranges w)"
      using w(3) by (simp add: id_take_nth_drop)
    then have "valid_ranges ((iv_ranges w ! k) # drop (Suc k) (iv_ranges w))"
      using w(1) by (metis valid_ranges_append)
    moreover have "drop k (iv_ranges w) = (iv_ranges w ! k) # drop (Suc k) (iv_ranges w)"
      using w(3) by (simp add: Cons_nth_drop_Suc)
    ultimately have "p \<le> lr_b s" using 2(1) w(2) by (auto intro: order_trans less_imp_le)
    then show ?thesis using 2(2) by simp
  qed
qed

subsection \<open>The invariant\<close>

definition reg_of :: "ra_state \<Rightarrow> nat option \<Rightarrow> nat option" where
  "reg_of s p = (case lr_loc (last (iv_ranges (iv_of s p))) of
     None \<Rightarrow> None | Some l \<Rightarrow> if loc_kind l = REG then Some (loc_idx l) else None)"

definition in_place :: "ra_state \<Rightarrow> nat option \<Rightarrow> location \<Rightarrow> live_range \<Rightarrow> bool" where
  "in_place s p l r \<longleftrightarrow> r \<in> set (iv_ranges (iv_of s p)) \<and> lr_loc r = Some l"

abbreviation reg :: "nat \<Rightarrow> location" where
  "reg r \<equiv> \<lparr>loc_kind = REG, loc_idx = r\<rparr>"

abbreviation slot_loc :: "nat \<Rightarrow> location" where
  "slot_loc k \<equiv> \<lparr>loc_kind = SLOT, loc_idx = k\<rparr>"

text \<open>The busy registers are those of the active intervals, each of one of them.\<close>

definition regs_ok :: "ra_state \<Rightarrow> bool" where
  "regs_ok s \<longleftrightarrow> distinct (ra_active s) \<and> (\<forall>p \<in> set (ra_active s). ra_ivs s p \<noteq> None) \<and>
     length (busy_regs s) = REGS_COUNT \<and> inj_on (reg_of s) (set (ra_active s)) \<and>
     reg_of s ` set (ra_active s) = Some ` {r. r < REGS_COUNT \<and> busy_regs s ! r}"

definition ivs_ok :: "ra_state \<Rightarrow> bool" where
  "ivs_ok s \<longleftrightarrow> (\<forall>p v. ra_ivs s p = Some v \<longrightarrow> iv_ranges v \<noteq> [] \<and> valid_ranges (iv_ranges v))"

text \<open>What an interval has in a register that is not its current one ends by the life number \<open>c\<close>.\<close>

definition past_ok :: "u32 \<Rightarrow> ra_state \<Rightarrow> bool" where
  "past_ok c s \<longleftrightarrow> (\<forall>p k r. in_place s p (reg k) r \<longrightarrow> p \<in> set (ra_active s) \<and> reg_of s p = Some k \<or> lr_e r \<le> c)"

definition apart :: "live_range \<Rightarrow> live_range \<Rightarrow> bool" where
  "apart r t \<longleftrightarrow> (\<forall>n. even n \<longrightarrow> \<not> (lr_b r \<le> n \<and> n < lr_e r \<and> lr_b t \<le> n \<and> n < lr_e t))"

definition regs_apart :: "ra_state \<Rightarrow> bool" where
  "regs_apart s \<longleftrightarrow> (\<forall>p q k r t. p \<noteq> q \<longrightarrow> in_place s p (reg k) r \<longrightarrow> in_place s q (reg k) t \<longrightarrow> apart r t)"

definition slots_apart :: "ra_state \<Rightarrow> bool" where
  "slots_apart s \<longleftrightarrow> (\<forall>p k r. in_place s p (slot_loc k) r \<longrightarrow> k < slots_used s) \<and>
     (\<forall>p q k r t. in_place s p (slot_loc k) r \<longrightarrow> in_place s q (slot_loc k) t \<longrightarrow> p = q)"

definition untouched :: "(nat option \<Rightarrow> live_interval option) \<Rightarrow> nat option set \<Rightarrow> ra_state \<Rightarrow> bool" where
  "untouched m vis s \<longleftrightarrow> (\<forall>p. p \<notin> vis \<longrightarrow> ra_ivs s p = m p \<and> p \<notin> set (ra_active s))"

definition alloc_ok :: "(nat option \<Rightarrow> live_interval option) \<Rightarrow> nat option set \<Rightarrow> u32 \<Rightarrow> ra_state \<Rightarrow> bool" where
  "alloc_ok m vis c s \<longleftrightarrow> regs_ok s \<and> ivs_ok s \<and> past_ok c s \<and> regs_apart s \<and> slots_apart s \<and> untouched m vis s"

lemma alloc_ok_later: "alloc_ok m vis c s \<Longrightarrow> c \<le> d \<Longrightarrow> vis \<subseteq> vis' \<Longrightarrow> alloc_ok m vis' d s"
  unfolding alloc_ok_def past_ok_def untouched_def by (blast intro: order_trans)

text \<open>The invariant looks only at the ranges, not at the use points.\<close>

definition same_ranges :: "ra_state \<Rightarrow> ra_state \<Rightarrow> bool" where
  "same_ranges s t \<longleftrightarrow> ra_active t = ra_active s \<and> busy_regs t = busy_regs s \<and> slots_used t = slots_used s \<and>
     busy_slots t = busy_slots s \<and> (\<forall>p. map_option iv_ranges (ra_ivs t p) = map_option iv_ranges (ra_ivs s p)) \<and>
     (\<forall>p. p \<notin> set (ra_active s) \<longrightarrow> ra_ivs t p = ra_ivs s p)"

lemma same_ranges_iv_of: "same_ranges s t \<Longrightarrow> iv_ranges (iv_of t p) = iv_ranges (iv_of s p)"
  by (auto simp: same_ranges_def iv_of_def split: option.splits) (metis option.map_disc_iff option.simps(3), metis option.map_disc_iff option.simps(3), metis option.sel option.simps(9))

lemma alloc_ok_same_ranges:
  assumes "same_ranges s t" and "alloc_ok m vis c s"
  shows "alloc_ok m vis c t"
proof -
  note r = same_ranges_iv_of [OF assms(1)]
  have reg: "reg_of t = reg_of s" by (rule ext) (simp add: reg_of_def r)
  have place: "in_place t = in_place s" by (intro ext) (simp add: in_place_def r)
  have eq: "ra_active t = ra_active s" "busy_regs t = busy_regs s" "slots_used t = slots_used s"
    and maps: "map_option iv_ranges (ra_ivs t p) = map_option iv_ranges (ra_ivs s p)"
    and out: "p \<notin> set (ra_active s) \<Longrightarrow> ra_ivs t p = ra_ivs s p" for p
    using assms(1) by (auto simp: same_ranges_def)
  have none: "ra_ivs t p = None \<longleftrightarrow> ra_ivs s p = None" for p using maps [of p] by (metis option.map_disc_iff)
  have "ivs_ok t" unfolding ivs_ok_def
  proof (intro allI impI)
    fix p v assume "ra_ivs t p = Some v"
    then obtain u where "ra_ivs s p = Some u" "iv_ranges u = iv_ranges v" using maps [of p] by (auto simp: map_option_case split: option.splits)
    then show "iv_ranges v \<noteq> [] \<and> valid_ranges (iv_ranges v)" using assms(2) by (metis alloc_ok_def ivs_ok_def)
  qed
  moreover have "untouched m vis t" using assms(2) out eq by (simp add: alloc_ok_def untouched_def)
  ultimately show ?thesis
    using assms(2) by (simp add: alloc_ok_def regs_ok_def past_ok_def regs_apart_def slots_apart_def reg place eq none)
qed

subsection \<open>A register changes hands\<close>

lemma apart_sym: "apart r t \<Longrightarrow> apart t r"
  by (auto simp: apart_def)

lemma apart_shorter: "apart r t \<Longrightarrow> lr_b r \<le> lr_b r' \<Longrightarrow> lr_e r' \<le> lr_e r \<Longrightarrow> apart r' t"
  unfolding apart_def by (blast intro: order_trans less_le_trans)

lemma shortened_place:
  assumes "shortened r (iv_of s p)" and "lr_loc r = Some l"
  obtains r0 where "in_place s p l r0" "lr_b r0 \<le> lr_b r" "lr_e r \<le> lr_e r0"
  using assms unfolding shortened_def in_place_def by auto

text \<open>Registers of a state where \<open>q\<close> is no longer active.\<close>

lemma regs_without:
  assumes "regs_ok s" and "q \<in> set (ra_active s)" and "reg_of s q = Some k"
    and "ra_active t = remove1 q (ra_active s)" and "busy_regs t = (busy_regs s)[k := False]"
    and "\<And>p. p \<noteq> q \<Longrightarrow> ra_ivs t p = ra_ivs s p"
  shows "regs_ok t"
proof -
  have same: "reg_of t p = reg_of s p" if "p \<noteq> q" for p using assms(6) that by (simp add: reg_of_def iv_of_def)
  have act: "set (ra_active t) = set (ra_active s) - {q}" using assms(1,4) by (simp add: regs_ok_def)
  have inj: "inj_on (reg_of s) (set (ra_active s))" and busy: "reg_of s ` set (ra_active s) = Some ` {r. r < REGS_COUNT \<and> busy_regs s ! r}"
    using assms(1) by (simp_all add: regs_ok_def)
  have k: "k < REGS_COUNT \<and> busy_regs s ! k" using busy assms(2,3) by (metis (mono_tags, lifting) image_eqI image_iff mem_Collect_eq option.inject)
  have "reg_of t ` set (ra_active t) = reg_of s ` (set (ra_active s) - {q})" using same act by (intro image_cong) auto
  also have "\<dots> = reg_of s ` set (ra_active s) - {Some k}" using inj assms(2,3) by (auto simp: inj_on_def)
  also have "\<dots> = Some ` {r. r < REGS_COUNT \<and> busy_regs t ! r}"
    unfolding busy using assms(1,5) k by (auto simp: regs_ok_def nth_list_update)
  finally have img: "reg_of t ` set (ra_active t) = Some ` {r. r < REGS_COUNT \<and> busy_regs t ! r}" .
  have "inj_on (reg_of t) (set (ra_active t))"
    using inj same act by (intro inj_onI) (auto dest: inj_onD)
  then show ?thesis using assms img act by (simp add: regs_ok_def)
qed

lemma regs_with:
  assumes "regs_ok s" and "p \<notin> set (ra_active s)" and "k < REGS_COUNT" and "Some k \<notin> reg_of s ` set (ra_active s)"
    and "set (ra_active t) = insert p (set (ra_active s))" and "distinct (ra_active t)" and "busy_regs t = (busy_regs s)[k := True]"
    and "\<And>q. q \<noteq> p \<Longrightarrow> ra_ivs t q = ra_ivs s q" and "reg_of t p = Some k" and "ra_ivs t p \<noteq> None"
  shows "regs_ok t"
proof -
  have same: "reg_of t q = reg_of s q" if "q \<noteq> p" for q using assms(8) that by (simp add: reg_of_def iv_of_def)
  have old: "reg_of t q = reg_of s q" if "q \<in> set (ra_active s)" for q using that same assms(2) by metis
  then have kept: "reg_of t ` set (ra_active s) = reg_of s ` set (ra_active s)" by (rule image_cong [OF refl])
  then have "reg_of t ` set (ra_active t) = insert (Some k) (reg_of s ` set (ra_active s))"
    unfolding assms(5) image_insert assms(9) by simp
  also have "\<dots> = Some ` {r. r < REGS_COUNT \<and> busy_regs t ! r}"
    using assms(1,3,7) by (auto simp: regs_ok_def nth_list_update)
  finally have img: "reg_of t ` set (ra_active t) = Some ` {r. r < REGS_COUNT \<and> busy_regs t ! r}" .
  have "inj_on (reg_of t) (set (ra_active s))"
    using assms(1) old by (intro inj_onI) (auto simp: regs_ok_def dest: inj_onD)
  then have "inj_on (reg_of t) (set (ra_active t))" unfolding assms(5) using assms(2,4,9) kept by simp
  moreover have "ra_ivs t q \<noteq> None" if "q \<in> set (ra_active t)" for q
    using assms(1,5,8,10) that by (cases "q = p") (auto simp: regs_ok_def)
  ultimately show ?thesis using assms(1,6,7) img by (simp add: regs_ok_def)
qed

lemma acquire:
  assumes inv: "alloc_ok m vis c s" and p: "p \<in> vis" "p \<notin> set (ra_active s)"
    and k: "k < REGS_COUNT" "Some k \<notin> reg_of s ` set (ra_active s)"
    and u: "iv_ranges u \<noteq> []" "valid_ranges (iv_ranges u)" "lr_loc (last (iv_ranges u)) = Some (reg k)"
    and new: "\<And>r. r \<in> set (iv_ranges u) \<Longrightarrow>
      lr_loc r = Some (reg k) \<and> (\<forall>n. even n \<longrightarrow> lr_b r \<le> n \<longrightarrow> c \<le> n) \<or> shortened r (iv_of s p)"
    and t: "ra_ivs t = (ra_ivs s)(p := Some u)" "set (ra_active t) = insert p (set (ra_active s))" "distinct (ra_active t)"
      "busy_regs t = (busy_regs s)[k := True]" "slots_used t = slots_used s"
  shows "alloc_ok m vis c t"
proof -
  have at: "iv_of t p = u" and other: "\<And>q. q \<noteq> p \<Longrightarrow> iv_of t q = iv_of s q" using t(1) by (simp_all add: iv_of_def)
  have regp: "reg_of t p = Some k" and reg: "\<And>q. q \<noteq> p \<Longrightarrow> reg_of t q = reg_of s q"
    using u(3) at other by (simp_all add: reg_of_def)
  have place: "in_place t q l r \<longleftrightarrow> in_place s q l r" if "q \<noteq> p" for q l r using other that by (simp add: in_place_def)
  have mine: "l = reg k \<and> (\<forall>n. even n \<longrightarrow> lr_b r \<le> n \<longrightarrow> c \<le> n) \<or> shortened r (iv_of s p)" "lr_loc r = Some l"
    if "in_place t p l r" for l r using new [of r] that at by (auto simp: in_place_def)
  have old: "regs_ok s" "ivs_ok s" "past_ok c s" "regs_apart s" "slots_apart s" "untouched m vis s"
    using inv by (simp_all add: alloc_ok_def)
  have "regs_ok t" by (rule regs_with [OF old(1) p(2) k t(2,3,4) _ regp]) (simp_all add: t(1))
  moreover have "ivs_ok t" using old(2) u t(1) by (auto simp: ivs_ok_def)
  moreover have "past_ok c t" unfolding past_ok_def
  proof (intro allI impI)
    fix q j r assume r: "in_place t q (reg j) r"
    show "q \<in> set (ra_active t) \<and> reg_of t q = Some j \<or> lr_e r \<le> c"
    proof (cases "q = p")
      case True
      with mine [of "reg j" r] r have "j = k \<or> shortened r (iv_of s p)" "lr_loc r = Some (reg j)" by auto
      moreover have "lr_e r \<le> c" if "shortened r (iv_of s p)" "lr_loc r = Some (reg j)"
        using that old(3) p(2) by (elim shortened_place) (auto simp: past_ok_def intro: order_trans)
      ultimately show ?thesis using True regp t(2) by auto
    next
      case False
      then show ?thesis using r old(3) place reg t(2) by (auto simp: past_ok_def)
    qed
  qed
  moreover have "regs_apart t" unfolding regs_apart_def
  proof (intro allI impI)
    have one: "apart r z" if q: "q \<noteq> p" "in_place t p (reg j) r" "in_place t q (reg j) z" for q j r z
    proof -
      have z: "in_place s q (reg j) z" using q(1,3) place by simp
      consider "j = k" "\<forall>n. even n \<longrightarrow> lr_b r \<le> n \<longrightarrow> c \<le> n" | "shortened r (iv_of s p)" "lr_loc r = Some (reg j)"
        using mine [OF q(2)] by auto
      then show ?thesis
      proof cases
        case 1
        have "lr_e z \<le> c" using old(3) z 1(1) k(2) unfolding past_ok_def by (metis image_eqI)
        then show ?thesis using 1(2) unfolding apart_def by (meson leD order_trans)
      next
        case 2
        then obtain r0 where r0: "in_place s p (reg j) r0" "lr_b r0 \<le> lr_b r" "lr_e r \<le> lr_e r0" by (rule shortened_place)
        have "apart r0 z" using old(4) r0(1) z q(1) unfolding regs_apart_def by metis
        then show ?thesis using r0(2,3) by (rule apart_shorter)
      qed
    qed
    fix q q' j r z assume "q \<noteq> q'" "in_place t q (reg j) r" "in_place t q' (reg j) z"
    then show "apart r z"
      using one [of q' j r z] one [of q j z r] old(4) place by (cases "q = p"; cases "q' = p") (auto simp: regs_apart_def dest: apart_sym)
  qed
  moreover have "slots_apart t"
  proof -
    have orig: "\<exists>r'. in_place s q (slot_loc j) r'" if "in_place t q (slot_loc j) r" for q j r
    proof (cases "q = p")
      case True
      then have "shortened r (iv_of s p)" "lr_loc r = Some (slot_loc j)" using mine [of "slot_loc j" r] that by auto
      then obtain r0 where "in_place s p (slot_loc j) r0" by (rule shortened_place)
      then show ?thesis unfolding True by (rule exI)
    qed (use that place in auto)
    then show ?thesis using old(5) t(5) orig unfolding slots_apart_def by metis
  qed
  moreover have "untouched m vis t" using old(6) p(1) t by (auto simp: untouched_def)
  ultimately show ?thesis by (simp add: alloc_ok_def)
qed

lemma release:
  assumes inv: "alloc_ok m vis c s" and q: "q \<in> set (ra_active s)" "reg_of s q = Some k"
    and u: "iv_ranges u \<noteq> []" "valid_ranges (iv_ranges u)"
    and new: "\<And>r. r \<in> set (iv_ranges u) \<Longrightarrow>
      lr_loc r = Some (slot_loc (slots_used s)) \<and> slots_used s < n \<or> lr_e r \<le> c \<and> shortened r (iv_of s q)"
    and t: "ra_ivs t = (ra_ivs s)(q := Some u)" "ra_active t = remove1 q (ra_active s)"
      "busy_regs t = (busy_regs s)[k := False]" "slots_used t = n" "slots_used s \<le> n"
  shows "alloc_ok m vis c t"
proof -
  have at: "iv_of t q = u" and other: "\<And>p. p \<noteq> q \<Longrightarrow> iv_of t p = iv_of s p" using t(1) by (simp_all add: iv_of_def)
  have reg: "\<And>p. p \<noteq> q \<Longrightarrow> reg_of t p = reg_of s p" using other by (simp add: reg_of_def)
  have place: "in_place t p l r \<longleftrightarrow> in_place s p l r" if "p \<noteq> q" for p l r using other that by (simp add: in_place_def)
  have mine: "l = slot_loc (slots_used s) \<and> slots_used s < n \<or> lr_e r \<le> c \<and> shortened r (iv_of s q)" "lr_loc r = Some l"
    if "in_place t q l r" for l r using new [of r] that at by (auto simp: in_place_def)
  have old: "regs_ok s" "ivs_ok s" "past_ok c s" "regs_apart s" "slots_apart s" "untouched m vis s"
    using inv by (simp_all add: alloc_ok_def)
  have act: "set (ra_active t) = set (ra_active s) - {q}" using old(1) t(2) by (simp add: regs_ok_def)
  have orig: "\<exists>r'. in_place s p (reg j) r' \<and> lr_b r' \<le> lr_b r \<and> lr_e r \<le> lr_e r'" if "in_place t p (reg j) r" for p j r
  proof (cases "p = q")
    case True
    then have "shortened r (iv_of s q)" "lr_loc r = Some (reg j)" using mine [of "reg j" r] that by auto
    then obtain r0 where "in_place s q (reg j) r0" "lr_b r0 \<le> lr_b r" "lr_e r \<le> lr_e r0" by (rule shortened_place)
    then show ?thesis unfolding True by (intro exI [of _ r0]) simp
  qed (use that place in auto)
  have "regs_ok t" by (rule regs_without [OF old(1) q t(2,3)]) (simp add: t(1))
  moreover have "ivs_ok t" using old(2) u t(1) by (auto simp: ivs_ok_def)
  moreover have "past_ok c t" unfolding past_ok_def
  proof (intro allI impI)
    fix p j r assume "in_place t p (reg j) r"
    then show "p \<in> set (ra_active t) \<and> reg_of t p = Some j \<or> lr_e r \<le> c"
      using mine [of "reg j" r] old(3) place reg act by (cases "p = q") (auto simp: past_ok_def)
  qed
  moreover have "regs_apart t" unfolding regs_apart_def
  proof (intro allI impI)
    fix p p' j r z assume pp: "p \<noteq> p'" and r: "in_place t p (reg j) r" and z: "in_place t p' (reg j) z"
    obtain r' where r': "in_place s p (reg j) r'" "lr_b r' \<le> lr_b r" "lr_e r \<le> lr_e r'" using orig [OF r] by blast
    obtain z' where z': "in_place s p' (reg j) z'" "lr_b z' \<le> lr_b z" "lr_e z \<le> lr_e z'" using orig [OF z] by blast
    have "apart r' z'" using old(4) pp r'(1) z'(1) unfolding regs_apart_def by blast
    then have "apart r z'" by (rule apart_shorter) (use r' in auto)
    then have "apart z' r" by (rule apart_sym)
    then have "apart z r" by (rule apart_shorter) (use z' in auto)
    then show "apart r z" by (rule apart_sym)
  qed
  moreover have "slots_apart t"
  proof -
    have fresh: "p = q \<and> j = slots_used s \<and> slots_used s < n \<or> (\<exists>r'. in_place s p (slot_loc j) r')" if r: "in_place t p (slot_loc j) r" for p j r
    proof (cases "p = q")
      case True
      then consider "j = slots_used s" "slots_used s < n" | "shortened r (iv_of s q)" "lr_loc r = Some (slot_loc j)"
        using mine [of "slot_loc j" r] r by auto
      then show ?thesis
      proof cases
        case 2
        then obtain r0 where "in_place s q (slot_loc j) r0" by (rule shortened_place)
        then show ?thesis unfolding True by (intro disjI2) (rule exI)
      qed (use True in simp)
    qed (use r place in auto)
    have lt: "j < slots_used s" if "in_place s p (slot_loc j) r" for p j r using old(5) that unfolding slots_apart_def by blast
    have uniq: "p = p'" if "in_place s p (slot_loc j) r" "in_place s p' (slot_loc j) r'" for p p' j r r'
      using old(5) that unfolding slots_apart_def by blast
    have "j < slots_used t" if "in_place t p (slot_loc j) r" for p j r
      using fresh [OF that] t(4,5) by (auto dest!: lt)
    moreover have "p = p'" if "in_place t p (slot_loc j) r" "in_place t p' (slot_loc j) r'" for p p' j r r'
      using fresh [OF that(1)] fresh [OF that(2)] lt uniq by blast
    ultimately show ?thesis unfolding slots_apart_def by blast
  qed
  moreover have "untouched m vis t"
  proof -
    have "q \<in> vis" using old(6) q(1) unfolding untouched_def by blast
    then show ?thesis using old(6) t act by (auto simp: untouched_def)
  qed
  ultimately show ?thesis by (simp add: alloc_ok_def)
qed

subsection \<open>The operations keep the invariant\<close>

lemma active_reg:
  assumes "regs_ok s" and "p \<in> set (ra_active s)"
  obtains k where "reg_of s p = Some k" "k < REGS_COUNT" "busy_regs s ! k" "lr_loc (IntervalsBack (iv_of s p)) = Some (reg k)"
proof -
  have "reg_of s p \<in> Some ` {r. r < REGS_COUNT \<and> busy_regs s ! r}" using assms unfolding regs_ok_def by blast
  then obtain k where k: "reg_of s p = Some k" "k < REGS_COUNT" "busy_regs s ! k" by auto
  moreover from k(1) have "lr_loc (IntervalsBack (iv_of s p)) = Some (reg k)"
    by (auto simp: reg_of_def IntervalsBack_def split: option.splits if_splits)
  ultimately show thesis by (rule that)
qed

lemma ivs_okD:
  assumes "ivs_ok s" and "ra_ivs s p \<noteq> None"
  shows "iv_ranges (iv_of s p) \<noteq> []" and "valid_ranges (iv_ranges (iv_of s p))"
  using assms by (auto simp: ivs_ok_def iv_of_def)

lemma ends_by_Endpoint:
  assumes "valid_ranges (iv_ranges v)" and "r \<in> set (iv_ranges v)"
  shows "lr_e r \<le> Endpoint v"
proof -
  have "iv_ranges v \<noteq> []" using assms(2) by auto
  then obtain xs x where x: "iv_ranges v = xs @ [x]" by (cases "iv_ranges v" rule: rev_cases) auto
  have "lr_e y \<le> lr_e x" if "y \<in> set xs" for y
    using assms(1) that unfolding x by (auto intro: order_trans less_imp_le)
  then show ?thesis using assms(2) by (auto simp: Endpoint_def IntervalsBack_def x)
qed

lemma begins_by_Startpoint:
  assumes "valid_ranges (iv_ranges v)" and "r \<in> set (iv_ranges v)"
  shows "Startpoint v \<le> lr_b r"
  using assms by (cases "iv_ranges v") (auto simp: Startpoint_def intro: order_trans less_imp_le)

lemma Recycle_ok:
  assumes inv: "alloc_ok m vis c s" and j: "j \<in> set (ra_active s)" "Endpoint (iv_of s j) \<le> c" and run: "Recycle j s = Inr t"
  shows "alloc_ok m vis c t" and "ra_active t = remove1 j (ra_active s)"
proof -
  have regs: "regs_ok s" and ivs: "ivs_ok s" using inv by (simp_all add: alloc_ok_def)
  obtain k where k: "reg_of s j = Some k" "lr_loc (IntervalsBack (iv_of s j)) = Some (reg k)"
    by (rule active_reg [OF regs j(1)])
  have some: "ra_ivs s j \<noteq> None" using regs j(1) unfolding regs_ok_def by blast
  have t: "t = s\<lparr>busy_regs := (busy_regs s)[k := False], ra_active := remove1 j (ra_active s)\<rparr>"
    using run k(2) by (auto simp: Recycle_def CurrentLocation_def location_at_def res_simps)
  then show "ra_active t = remove1 j (ra_active s)" by simp
  have same: "(ra_ivs s)(j := Some (iv_of s j)) = ra_ivs s" using some by (auto simp: iv_of_def)
  show "alloc_ok m vis c t"
  proof (rule release [OF inv j(1) k(1) ivs_okD [OF ivs some], where n = "slots_used s"])
    fix r assume r: "r \<in> set (iv_ranges (iv_of s j))"
    then have "lr_e r \<le> c" using ends_by_Endpoint ivs_okD(2) [OF ivs some] j(2) by (blast intro: order_trans)
    moreover have "shortened r (iv_of s j)" using r by (intro shortenedI) auto
    ultimately show "lr_loc r = Some (slot_loc (slots_used s)) \<and> slots_used s < slots_used s \<or> lr_e r \<le> c \<and> shortened r (iv_of s j)"
      by simp
  qed (simp_all add: t same)
qed

lemma expire_loop_ok:
  assumes "expire_loop n js s = Inr t" and "alloc_ok m vis n s" and "distinct js" and "set js \<subseteq> set (ra_active s)"
  shows "alloc_ok m vis n t"
  using assms
proof (induction js arbitrary: s)
  case (Cons j js)
  show ?case
  proof (cases "n < Endpoint (iv_of s j)")
    case True
    then show ?thesis using Cons.prems by simp
  next
    case False
    then obtain u where u: "Recycle j s = Inr u" "expire_loop n js u = Inr t" using Cons.prems(1) by (auto simp: res_simps)
    have "j \<in> set (ra_active s)" "Endpoint (iv_of s j) \<le> n" using Cons.prems(4) False by auto
    note r = Recycle_ok [OF Cons.prems(2) this u(1)]
    have "distinct (ra_active s)" using Cons.prems(2) by (simp add: alloc_ok_def regs_ok_def)
    then have "set js \<subseteq> set (ra_active u)" using r(2) Cons.prems(3,4) by auto
    then show ?thesis using Cons.IH [OF u(2) r(1)] Cons.prems(3) by simp
  qed
qed simp

lemma ExpireOldIntervals_ok:
  assumes "ExpireOldIntervals n s = Inr t" and "alloc_ok m vis c s" and "c \<le> n"
  shows "alloc_ok m vis n t"
proof (rule expire_loop_ok [OF assms(1) [unfolded ExpireOldIntervals_def]])
  show "alloc_ok m vis n s" using alloc_ok_later [OF assms(2,3)] by simp
  show "distinct (ra_active s)" using assms(2) by (simp add: alloc_ok_def regs_ok_def)
qed simp

lemma AllocateFreeReg_Inr:
  assumes "AllocateFreeReg s = Inr (k, t)" and "regs_ok s"
  shows "k < REGS_COUNT" and "t = s\<lparr>busy_regs := (busy_regs s)[k := True]\<rparr>" and "Some k \<notin> reg_of s ` set (ra_active s)"
proof -
  have k: "k < REGS_COUNT \<and> \<not> busy_regs s ! k \<and> t = s\<lparr>busy_regs := (busy_regs s)[k := True]\<rparr>"
    using assms(1) by (auto simp: AllocateFreeReg_def find_Some_iff split: option.splits)
  then show "k < REGS_COUNT" "t = s\<lparr>busy_regs := (busy_regs s)[k := True]\<rparr>" by simp_all
  show "Some k \<notin> reg_of s ` set (ra_active s)" using k assms(2) by (auto simp: regs_ok_def)
qed

lemma InsertActive_simps [simp]:
  "ra_ivs (InsertActive p s) = ra_ivs s" "busy_regs (InsertActive p s) = busy_regs s" "slots_used (InsertActive p s) = slots_used s"
  "busy_slots (InsertActive p s) = busy_slots s"
  by (simp_all add: InsertActive_def Let_def)

lemma InsertActive_active:
  shows "set (ra_active (InsertActive p s)) = insert p (set (ra_active s))"
    and "distinct (ra_active (InsertActive p s)) \<longleftrightarrow> p \<notin> set (ra_active s) \<and> distinct (ra_active s)"
proof -
  obtain k where k: "ra_active (InsertActive p s) = take k (ra_active s) @ p # drop k (ra_active s)"
    by (simp add: InsertActive_def Let_def)
  have split: "ra_active s = take k (ra_active s) @ drop k (ra_active s)" by simp
  have set: "set (ra_active s) = set (take k (ra_active s)) \<union> set (drop k (ra_active s))" by (metis set_append append_take_drop_id)
  have dist: "distinct (ra_active s) \<longleftrightarrow> distinct (take k (ra_active s)) \<and> distinct (drop k (ra_active s)) \<and>
      set (take k (ra_active s)) \<inter> set (drop k (ra_active s)) = {}"
    by (metis distinct_append append_take_drop_id)
  show "set (ra_active (InsertActive p s)) = insert p (set (ra_active s))" unfolding k set by auto
  show "distinct (ra_active (InsertActive p s)) \<longleftrightarrow> p \<notin> set (ra_active s) \<and> distinct (ra_active s)"
    unfolding k dist set distinct_append distinct.simps by auto
qed

lemma iv_of_put_iv [simp]: "iv_of (put_iv p v s) q = (if q = p then v else iv_of s q)"
  by (simp add: iv_of_def put_iv_def)

lemma put_iv_simps [simp]:
  "ra_ivs (put_iv p v s) = (ra_ivs s)(p := Some v)" "ra_active (put_iv p v s) = ra_active s"
  "busy_regs (put_iv p v s) = busy_regs s" "busy_slots (put_iv p v s) = busy_slots s" "slots_used (put_iv p v s) = slots_used s"
  by (simp_all add: put_iv_def)

text \<open>Giving a free register to an interval that is not active.\<close>

lemma activate_ok:
  assumes inv: "alloc_ok m vis c s" and p: "p \<in> vis" "p \<notin> set (ra_active s)"
    and free: "AllocateFreeReg s = Inr (r, t)" and k: "k < length (iv_ranges v)" "valid_ranges (iv_ranges v)"
    and new: "\<And>x. x \<in> set (iv_ranges (SetFrom k (reg r) v)) \<Longrightarrow>
      lr_loc x = Some (reg r) \<and> (\<forall>n. even n \<longrightarrow> lr_b x \<le> n \<longrightarrow> c \<le> n) \<or> shortened x (iv_of s p)"
  shows "alloc_ok m vis c (activate p k r v t)"
proof -
  have regs: "regs_ok s" using inv by (simp add: alloc_ok_def)
  note f = AllocateFreeReg_Inr [OF free regs]
  have ne: "iv_ranges (SetFrom k (reg r) v) \<noteq> []" using k(1) by auto
  show ?thesis
    by (rule acquire [OF inv p f(1) f(3) ne SetFrom_valid [OF k(2)] SetFrom_last [OF k(1)] new])
      (use regs p(2) in \<open>simp_all add: activate_def f(2) InsertActive_active regs_ok_def\<close>)
qed

lemma same_ranges_refl [simp]: "same_ranges s s"
  by (simp add: same_ranges_def)

lemma same_ranges_trans: "same_ranges s t \<Longrightarrow> same_ranges t u \<Longrightarrow> same_ranges s u"
  by (simp add: same_ranges_def)

lemma furthest_step_same:
  assumes "furthest_step n j (f, q, s) = (f', q', t)" and "j \<in> set (ra_active s)" and "ra_ivs s j \<noteq> None"
  shows "same_ranges s t" and "q' = q \<or> q' = j"
proof -
  have t: "t = put_iv j ((iv_of s j)\<lparr>iv_usepoints := dropWhile (\<lambda>u. u \<le> n) (iv_usepoints (iv_of s j))\<rparr>) s"
    using assms(1) by (auto simp: furthest_step_def Let_def split: list.splits if_splits)
  show "same_ranges s t" using assms(2,3) unfolding t by (auto simp: same_ranges_def iv_of_def)
  show "q' = q \<or> q' = j" using assms(1) by (auto simp: furthest_step_def Let_def split: list.splits if_splits)
qed

lemma furthest_same:
  assumes "fold (furthest_step n) js (f, q, s) = (f', q', t)" and "set js \<subseteq> set (ra_active s)"
    and "\<forall>j \<in> set (ra_active s). ra_ivs s j \<noteq> None"
  shows "same_ranges s t \<and> (q' = q \<or> q' \<in> set js)"
  using assms
proof (induction js arbitrary: f q s)
  case (Cons j js)
  obtain f1 q1 u where u: "furthest_step n j (f, q, s) = (f1, q1, u)" by (cases "furthest_step n j (f, q, s)") auto
  note one = furthest_step_same [OF u]
  have j: "j \<in> set (ra_active s)" "ra_ivs s j \<noteq> None" using Cons.prems(2,3) by auto
  have same: "same_ranges s u" using one(1) j by blast
  have "fold (furthest_step n) js (f1, q1, u) = (f', q', t)" using Cons.prems(1) u by simp
  moreover have "set js \<subseteq> set (ra_active u)" using same Cons.prems(2) by (simp add: same_ranges_def)
  moreover have "\<forall>j \<in> set (ra_active u). ra_ivs u j \<noteq> None"
    using same Cons.prems(3) unfolding same_ranges_def by (metis option.map_disc_iff)
  ultimately have "same_ranges u t \<and> (q' = q1 \<or> q' \<in> set js)" by (rule Cons.IH)
  then show ?case using same_ranges_trans [OF same] one(2) [OF j] by auto
qed simp

lemma GetUnused_same:
  assumes "GetUnusedIntervalToSpill n s = Inr (q, t)" and "regs_ok s"
  shows "same_ranges s t" and "q \<in> set (ra_active s)"
proof -
  from assms(1) obtain f where f: "fold (furthest_step n) (ra_active s) (0, hd (ra_active s), s) = (f, q, t)"
    and len: "length (ra_active s) = REGS_COUNT"
    by (auto simp: GetUnusedIntervalToSpill_def res_simps split: prod.splits)
  have "same_ranges s t \<and> (q = hd (ra_active s) \<or> q \<in> set (ra_active s))"
    by (rule furthest_same [OF f]) (use assms(2) in \<open>auto simp: regs_ok_def\<close>)
  moreover have "ra_active s \<noteq> []" using len by (auto simp: REGS_COUNT_def)
  ultimately show "same_ranges s t" "q \<in> set (ra_active s)" by auto
qed

lemma GetRegIdx_Inr: "GetRegIdx (iv_of s q) = Inr k \<longleftrightarrow> reg_of s q = Some k"
  by (auto simp: GetRegIdx_def CurrentLocation_def location_at_def IntervalsBack_def reg_of_def res_simps split: option.splits)

lemma even_pred:
  assumes "even (n :: u32)" and "n \<noteq> 0" and "even m" and "n - 1 \<le> m"
  shows "n \<le> m"
proof -
  have "n - 1 \<noteq> m" using assms(1,3) by auto
  then have "n - 1 < m" using assms(4) by simp
  moreover have "unat (n - 1) = unat n - 1" "0 < unat n" using assms(2) by (simp_all add: unat_minus_one word_neq_0_conv unat_gt_0)
  ultimately show ?thesis by (simp add: word_less_nat_alt word_le_nat_alt)
qed

lemma split_before_not_zero:
  assumes "SplitAt (n - 1) v = Inr (k, w)" and "valid_ranges (iv_ranges v)" and "iv_ranges v \<noteq> []"
  shows "(n :: u32) \<noteq> 0"
proof
  assume n: "n = 0"
  have "Endpoint v \<le> n - 1" unfolding n by simp
  then have "n - 1 < n - 1 + 2" by (rule SplitAt_valid(7) [OF assms])
  then show False unfolding n by simp
qed

lemma SpillUnusedAndActivate_ok:
  assumes run: "SpillUnusedAndActivate p n s = Inr t" and inv: "alloc_ok m vis n s" and "even n"
    and p: "p \<in> vis" "p \<notin> set (ra_active s)" "ra_ivs s p \<noteq> None"
  shows "alloc_ok m vis n t"
proof -
  from run obtain q s1 r k w j v bs where s1: "GetUnusedIntervalToSpill n s = Inr (q, s1)"
    and r: "GetRegIdx (iv_of s1 q) = Inr r" "busy_regs s1 ! r"
    and w: "SplitAt (n - 1) (iv_of s1 q) = Inr (k, w)" and v: "SplitAt n (iv_of (put_iv q w s1) p) = Inr (j, v)"
    and t: "t = InsertActive p (put_iv q (SetFrom k (slot_loc (slots_used s)) (iv_of (put_iv p (SetFrom j (reg r) v) (put_iv q w s1)) q))
         (put_iv p (SetFrom j (reg r) v) (put_iv q w s1))
         \<lparr>busy_slots := bs, slots_used := Suc (slots_used s), ra_active := remove1 q (ra_active s1)\<rparr>)"
    by (auto simp: SpillUnusedAndActivate_def Let_def res_simps)
  have regs: "regs_ok s" using inv by (simp add: alloc_ok_def)
  note same = GetUnused_same [OF s1 regs]
  have eq: "ra_active s1 = ra_active s" "slots_used s1 = slots_used s" and p1: "ra_ivs s1 p = ra_ivs s p"
    using same(1) p(2) by (simp_all add: same_ranges_def)
  note inv1 = alloc_ok_same_ranges [OF same(1) inv]
  have q1: "q \<in> set (ra_active s1)" "reg_of s1 q = Some r" "p \<noteq> q" using same(2) r(1) p(2) eq by (auto simp: GetRegIdx_Inr)
  have ivs: "ivs_ok s1" and regs1: "regs_ok s1" using inv1 by (simp_all add: alloc_ok_def)
  have "ra_ivs s1 q \<noteq> None" "ra_ivs s1 p \<noteq> None" using regs1 q1(1) p(3) p1 by (auto simp: regs_ok_def)
  note vq = ivs_okD [OF ivs this(1)] and vp = ivs_okD [OF ivs this(2)]
  have v': "SplitAt n (iv_of s1 p) = Inr (j, v)" using v q1(3) by simp
  note wv = SplitAt_valid [OF w vq(2,1)] and vv = SplitAt_valid [OF v' vp(2,1)]
  have "n \<noteq> 0" by (rule split_before_not_zero [OF w vq(2,1)])
  then have below: "n - 1 \<le> n" by (simp add: word_le_nat_alt unat_minus_one)
  define s' where "s' = s1\<lparr>ra_ivs := (ra_ivs s1)(q := Some (SetFrom k (slot_loc (slots_used s)) w)),
      ra_active := remove1 q (ra_active s1), busy_regs := (busy_regs s1)[r := False], slots_used := Suc (slots_used s)\<rparr>"
  have inv': "alloc_ok m vis n s'"
  proof (rule release [OF inv1 q1(1,2), where n = "Suc (slots_used s)" and u = "SetFrom k (slot_loc (slots_used s)) w"])
    show "iv_ranges (SetFrom k (slot_loc (slots_used s)) w) \<noteq> []" using wv(3) by auto
    show "valid_ranges (iv_ranges (SetFrom k (slot_loc (slots_used s)) w))" using wv(1) by (rule SetFrom_valid)
    fix x assume "x \<in> set (iv_ranges (SetFrom k (slot_loc (slots_used s)) w))"
    from SetFrom_SplitAt [OF w vq(2,1) this] show "lr_loc x = Some (slot_loc (slots_used s1)) \<and> slots_used s1 < Suc (slots_used s) \<or>
        lr_e x \<le> n \<and> shortened x (iv_of s1 q)" using below eq(2) by auto
  qed (simp_all add: s'_def eq)
  have rlt: "r < REGS_COUNT"
    by (rule active_reg [OF regs1 q1(1)]) (use q1(2) in simp)
  have regs': "regs_ok s'" using inv' by (simp add: alloc_ok_def)
  have len: "length (busy_regs s1) = REGS_COUNT" using regs1 by (simp add: regs_ok_def)
  have busy': "\<not> busy_regs s' ! r" "(busy_regs s')[r := True] = busy_regs s1"
    using rlt len r(2) by (simp_all add: s'_def nth_list_update list_update_same_conv)
  have gone: "p \<notin> set (ra_active s')" using p(2) eq(1) by (auto simp: s'_def dest: notin_set_remove1)
  have ip: "iv_of s' p = iv_of s1 p" using q1(3) by (simp add: s'_def iv_of_def)
  have dist: "distinct (ra_active s')" using regs' by (simp add: regs_ok_def)
  show ?thesis
  proof (rule acquire [OF inv' p(1) gone rlt, where u = "SetFrom j (reg r) v"])
    show "Some r \<notin> reg_of s' ` set (ra_active s')" using regs' busy'(1) by (auto simp: regs_ok_def)
    show "iv_ranges (SetFrom j (reg r) v) \<noteq> []" using vv(3) by auto
    show "valid_ranges (iv_ranges (SetFrom j (reg r) v))" using vv(1) by (rule SetFrom_valid)
    show "lr_loc (last (iv_ranges (SetFrom j (reg r) v))) = Some (reg r)" using vv(3) by (rule SetFrom_last)
    fix x assume "x \<in> set (iv_ranges (SetFrom j (reg r) v))"
    from SetFrom_SplitAt [OF v' vp(2,1) this]
    show "lr_loc x = Some (reg r) \<and> (\<forall>m. even m \<longrightarrow> lr_b x \<le> m \<longrightarrow> n \<le> m) \<or> shortened x (iv_of s' p)"
      unfolding ip by (auto intro: order_trans)
  next
    show "ra_ivs t = (ra_ivs s')(p := Some (SetFrom j (reg r) v))" using q1(3) by (simp add: t s'_def fun_upd_twist)
    show "set (ra_active t) = insert p (set (ra_active s'))" by (simp add: t InsertActive_active s'_def)
    show "distinct (ra_active t)" using gone dist by (simp add: t InsertActive_active s'_def)
    show "busy_regs t = (busy_regs s')[r := True]" unfolding busy'(2) by (simp add: t)
    show "slots_used t = slots_used s'" by (simp add: t s'_def)
  qed
qed

text \<open>Intervals as the liveness analysis leaves them: in order, and without a location.\<close>

definition unplaced :: "(nat option \<Rightarrow> live_interval option) \<Rightarrow> bool" where
  "unplaced m \<longleftrightarrow> (\<forall>p v. m p = Some v \<longrightarrow>
     iv_ranges v \<noteq> [] \<and> valid_ranges (iv_ranges v) \<and> (\<forall>r \<in> set (iv_ranges v). lr_loc r = None))"

lemma fill_input_ok:
  assumes run: "fill_input n x s = Inr t" and inv: "alloc_ok m vis n s" and m: "unplaced m" and "even n"
  shows "alloc_ok m vis n t"
proof -
  from run obtain v0 a where v0: "ra_ivs s x = Some v0" and a: "IsActive x n s = Inr a"
    and rest: "(if a then Inr s else if length (ra_active s) = REGS_COUNT then SpillUnusedAndActivate x n s
         else guard (length (ra_active s) < REGS_COUNT) AssertFailed
           (rbind (AllocateFreeReg s) (\<lambda>(r, t). rbind (SplitAt (n - 1) (iv_of t x)) (\<lambda>(k, v). Inr (activate x k r v t))))) = Inr t"
    by (auto simp: fill_input_def GetInterval_def res_simps)
  have iv: "iv_of s x = v0" using v0 by (simp add: iv_of_def)
  have ivs: "ivs_ok s" and un: "untouched m vis s" using inv by (simp_all add: alloc_ok_def)
  have some: "ra_ivs s x \<noteq> None" using v0 by simp
  note vx = ivs_okD [OF ivs some]
  from a obtain l where l: "lr_loc (last (iv_ranges v0)) = Some l" and found: "a = (loc_kind l = REG)" "\<not> a \<longrightarrow> x \<notin> set (ra_active s)"
    by (auto simp: IsActive_def CurrentLocation_def location_at_def IntervalsBack_def Let_def iv res_simps)
  have vis: "x \<in> vis"
  proof (rule ccontr)
    assume "x \<notin> vis"
    then have "m x = Some v0" using un v0 by (simp add: untouched_def)
    then show False using m l unfolding unplaced_def by (metis last_in_set option.distinct(1))
  qed
  show ?thesis
  proof (cases a)
    case True
    then show ?thesis using rest inv by simp
  next
    case False
    then have out: "x \<notin> set (ra_active s)" using found(2) by simp
    show ?thesis
    proof (cases "length (ra_active s) = REGS_COUNT")
      case True
      then have "SpillUnusedAndActivate x n s = Inr t" using rest False by simp
      then show ?thesis using inv assms(4) vis out some by (rule SpillUnusedAndActivate_ok)
    next
      case len: False
      then obtain r u k v where u: "AllocateFreeReg s = Inr (r, u)" and k: "SplitAt (n - 1) (iv_of u x) = Inr (k, v)"
        and t: "t = activate x k r v u" using rest False by (auto simp: res_simps)
      have regs: "regs_ok s" using inv by (simp add: alloc_ok_def)
      have "iv_of u x = iv_of s x" using AllocateFreeReg_Inr(2) [OF u regs] by (simp add: iv_of_def)
      with k have k: "SplitAt (n - 1) (iv_of s x) = Inr (k, v)" by simp
      note w = SplitAt_valid [OF k vx(2,1)]
      have pos: "n \<noteq> 0" by (rule split_before_not_zero [OF k vx(2,1)])
      show ?thesis unfolding t
      proof (rule activate_ok [OF inv vis out u w(3,1)])
        fix y assume "y \<in> set (iv_ranges (SetFrom k (reg r) v))"
        from SetFrom_SplitAt [OF k vx(2,1) this]
        show "lr_loc y = Some (reg r) \<and> (\<forall>z. even z \<longrightarrow> lr_b y \<le> z \<longrightarrow> n \<le> z) \<or> shortened y (iv_of s x)"
          using even_pred [OF assms(4) pos] by (meson order_trans)
      qed
    qed
  qed
qed

lemma place_result_ok:
  assumes run: "place_result p s = Inr t" and inv: "alloc_ok m vis n s" and "even n" and p: "p \<notin> vis"
    and start: "\<And>v. m p = Some v \<Longrightarrow> Startpoint v = n"
  shows "alloc_ok m (insert p vis) n t"
proof -
  have un: "untouched m vis s" and ivs: "ivs_ok s" using inv by (simp_all add: alloc_ok_def)
  have some: "ra_ivs s p \<noteq> None" and out: "p \<notin> set (ra_active s)" and "ra_ivs s p = m p"
    using run un p by (auto simp: place_result_def res_simps untouched_def)
  then have n: "Startpoint (iv_of s p) = n" using start by (auto simp: iv_of_def)
  have inv': "alloc_ok m (insert p vis) n s" by (rule alloc_ok_later [OF inv]) auto
  note v = ivs_okD [OF ivs some]
  show ?thesis
  proof (cases "length (ra_active s) = REGS_COUNT")
    case True
    then have "SpillUnusedAndActivate p n s = Inr t" using run n by (simp add: place_result_def res_simps)
    then show ?thesis using inv' assms(3) insertI1 out some by (rule SpillUnusedAndActivate_ok)
  next
    case False
    then obtain r u where u: "AllocateFreeReg s = Inr (r, u)" and t: "t = activate p 0 r (iv_of u p) u"
      using run by (auto simp: place_result_def res_simps)
    have regs: "regs_ok s" using inv by (simp add: alloc_ok_def)
    have eq: "iv_of u p = iv_of s p" using AllocateFreeReg_Inr(2) [OF u regs] by (simp add: iv_of_def)
    have len: "0 < length (iv_ranges (iv_of s p))" using v(1) by simp
    show ?thesis unfolding t eq
    proof (rule activate_ok [OF inv' insertI1 out u len v(2)])
      fix y assume "y \<in> set (iv_ranges (SetFrom 0 (reg r) (iv_of s p)))"
      then obtain z where z: "z \<in> set (iv_ranges (iv_of s p))" "y = z\<lparr>lr_loc := Some (reg r)\<rparr>" by (auto simp: SetFrom_ranges)
      have "n \<le> lr_b z" using begins_by_Startpoint [OF v(2) z(1)] n by simp
      then show "lr_loc y = Some (reg r) \<and> (\<forall>z. even z \<longrightarrow> lr_b y \<le> z \<longrightarrow> n \<le> z) \<or> shortened y (iv_of s p)"
        using z(2) by (auto intro: order_trans)
    qed
  qed
qed

lemma alloc_inst_ok:
  assumes run: "alloc_inst g i s = Inr t" and inv: "alloc_ok m vis c s" and m: "unplaced m"
    and n: "c \<le> LN g i" "even (LN g i)" and i: "Some i \<notin> vis"
    and start: "\<And>v. HasDst (ji_opcode (g_inst g i)) \<Longrightarrow> m (Some i) = Some v \<Longrightarrow> Startpoint v = LN g i"
  shows "alloc_ok m (insert (Some i) vis) (LN g i) t"
proof -
  from run obtain s1 s2 where s1: "ExpireOldIntervals (LN g i) s = Inr s1" and s2: "FillInputs g i s1 = Inr s2"
    and t: "(if \<not> HasDst (ji_opcode (g_inst g i)) then Inr s2 else place_result (Some i) s2) = Inr t"
    by (auto simp: alloc_inst_def res_simps)
  have inv1: "alloc_ok m vis (LN g i) s1" by (rule ExpireOldIntervals_ok [OF s1 inv n(1)])
  have inv2: "alloc_ok m vis (LN g i) s2"
  proof (cases "IsPhi g i")
    case False
    then have "fold_res (fill_input (LN g i)) (ji_inputs (g_inst g i)) s1 = Inr s2" using s2 by (simp add: FillInputs_def)
    then show ?thesis by (rule fold_res_invariant [where P = "alloc_ok m vis (LN g i)"])
        (use inv1 fill_input_ok [OF _ _ m n(2)] in blast)+
  qed (use s2 inv1 in \<open>simp add: FillInputs_def\<close>)
  show ?thesis
  proof (cases "HasDst (ji_opcode (g_inst g i))")
    case True
    then have "place_result (Some i) s2 = Inr t" using t by simp
    then show ?thesis using inv2 n(2) i start [OF True] by (rule place_result_ok)
  next
    case False
    then show ?thesis using t inv2 alloc_ok_later [OF inv2, of "LN g i" "insert (Some i) vis"] by auto
  qed
qed

text \<open>The order of the visited instructions, and where their intervals begin.\<close>

definition alloc_input :: "agraph \<Rightarrow> nat list \<Rightarrow> (nat option \<Rightarrow> live_interval option) \<Rightarrow> bool" where
  "alloc_input g is m \<longleftrightarrow> unplaced m \<and> distinct is \<and> sorted (map (LN g) is) \<and> (\<forall>i \<in> set is. even (LN g i)) \<and>
     (\<forall>i \<in> set is. \<forall>v. HasDst (ji_opcode (g_inst g i)) \<longrightarrow> m (Some i) = Some v \<longrightarrow> Startpoint v = LN g i)"

lemma alloc_insts_ok:
  assumes "fold_res (alloc_inst g) is s = Inr t" and "alloc_ok m vis c s" and "alloc_input g is m"
    and "Some ` set is \<inter> vis = {}" and "\<forall>i \<in> set is. c \<le> LN g i"
  shows "\<exists>vis d. alloc_ok m vis d t"
  using assms
proof (induction "is" arbitrary: s vis c)
  case (Cons i "is")
  then obtain u where u: "alloc_inst g i s = Inr u" "fold_res (alloc_inst g) is u = Inr t" by (auto simp: res_simps)
  have input: "unplaced m" "distinct (i # is)" "sorted (map (LN g) (i # is))" "even (LN g i)"
    "\<And>v. HasDst (ji_opcode (g_inst g i)) \<Longrightarrow> m (Some i) = Some v \<Longrightarrow> Startpoint v = LN g i"
    using Cons.prems(3) by (simp_all add: alloc_input_def)
  have "alloc_ok m (insert (Some i) vis) (LN g i) u"
    by (rule alloc_inst_ok [OF u(1) Cons.prems(2) input(1)]) (use Cons.prems(4,5) input in auto)
  then show ?case
  proof (rule Cons.IH [OF u(2)])
    show "alloc_input g is m" using Cons.prems(3) by (simp add: alloc_input_def)
    show "Some ` set is \<inter> insert (Some i) vis = {}" using Cons.prems(4) input(2) by auto
    show "\<forall>j \<in> set is. LN g i \<le> LN g j" using input(3) by simp
  qed
next
  case Nil
  then have "alloc_ok m vis c t" by simp
  then show ?case by (intro exI)
qed

lemma ra_init_ok:
  assumes "unplaced m"
  shows "alloc_ok m {} c (ra_init m)"
proof -
  have none: "\<not> in_place (ra_init m) p l r" for p l r
    using assms by (auto simp: in_place_def iv_of_def ra_init_def unplaced_def split: option.splits)
  have regs: "regs_ok (ra_init m)" by (auto simp: regs_ok_def ra_init_def)
  have ivs: "ivs_ok (ra_init m)" using assms by (auto simp: ivs_ok_def unplaced_def ra_init_def)
  have un: "untouched m {} (ra_init m)" by (simp add: untouched_def ra_init_def)
  show ?thesis unfolding alloc_ok_def past_ok_def regs_apart_def slots_apart_def
    using none regs ivs un by blast
qed

lemma alloc_prefix_ok:
  assumes "fold_res (alloc_inst g) is (ra_init m) = Inr t" and "alloc_input g is m"
  shows "\<exists>vis d. alloc_ok m vis d t"
  by (rule alloc_insts_ok [OF assms(1) ra_init_ok [of m 0] assms(2)]) (use assms(2) in \<open>simp_all add: alloc_input_def\<close>)

end
