(* ===== verification/Jit_LiveSets.thy ===== *)
theory Jit_LiveSets
  imports Jit_Liveness
begin

text \<open>
  The live sets of the blocks (\<open>InitializeBlock\<close> and \<open>ProcessInstructions\<close> of
  analyses/liveness.h): one visit of a block solves the transfer equation of liveness for it.  The
  last theorem is about the range \<open>ProcessLoop\<close> gives a value that is live around a loop.
\<close>

subsection \<open>Live sets\<close>

definition alive :: "lv_state \<Rightarrow> nat \<Rightarrow> nat set" where
  "alive s b = {i. Some i \<in> set (blocks_live_set s b)}"

text \<open>No instruction is twice in a live set, so that removing it once removes it.\<close>

definition once :: "nat option list \<Rightarrow> bool" where
  "once xs \<longleftrightarrow> distinct (filter (\<lambda>p. p \<noteq> None) xs)"

lemma once_append: "once (xs @ ys) \<longleftrightarrow> once xs \<and> once ys \<and> (\<forall>i. \<not> (Some i \<in> set xs \<and> Some i \<in> set ys))"
  by (auto simp: once_def)

lemma once_simps [simp]: "once []" "once (None # xs) = once xs" "once (Some i # xs) \<longleftrightarrow> Some i \<notin> set xs \<and> once xs"
  by (auto simp: once_def)

lemma index_of_split: "x \<notin> set as \<Longrightarrow> index_of x (as @ x # bs) = length as"
  by (induction as) (auto simp: index_of_def)

lemma LS_Remove_alive:
  assumes "LS_Remove b i s = Inr t" and "once (blocks_live_set s b)"
  shows "alive t b = alive s b - {i}" and "once (blocks_live_set t b)" and "c \<noteq> b \<Longrightarrow> blocks_live_set t c = blocks_live_set s c"
    and "insts_live_ranges t = insts_live_ranges s"
proof -
  from assms(1) have "Some i \<in> set (blocks_live_set s b)" by (auto simp: LS_Remove_def res_simps Has_def)
  then obtain as bs where s: "blocks_live_set s b = as @ Some i # bs" "Some i \<notin> set as" by (auto dest: split_list_first)
  have t: "t = s\<lparr>blocks_live_set := (blocks_live_set s)(b := as @ None # bs)\<rparr>"
    using assms(1) s by (auto simp: LS_Remove_def res_simps index_of_split)
  have "Some i \<notin> set bs" using assms(2) s by (auto simp: once_append)
  then show "alive t b = alive s b - {i}" using s by (auto simp: alive_def t)
  show "once (blocks_live_set t b)" using assms(2) s by (auto simp: t once_append)
  show "c \<noteq> b \<Longrightarrow> blocks_live_set t c = blocks_live_set s c" "insts_live_ranges t = insts_live_ranges s" by (simp_all add: t)
qed

lemma AddRange_sets: "AddRange i b e s = Inr t \<Longrightarrow> blocks_live_set t = blocks_live_set s"
  by (auto simp: AddRange_def res_simps Let_def put_ranges_def)

lemma FinalizeDef_sets: "FinalizeDef i d s = Inr t \<Longrightarrow> blocks_live_set t = blocks_live_set s"
  by (auto simp: FinalizeDef_def res_simps Let_def put_ranges_def)

text \<open>The instructions of a list of inputs.\<close>

definition values_of :: "nat option list \<Rightarrow> nat set" where
  "values_of xs = {i. Some i \<in> set xs}"

text \<open>What a step adds to the live set of a block, leaving the others alone.\<close>

definition lives :: "nat \<Rightarrow> nat set \<Rightarrow> lv_state \<Rightarrow> lv_state \<Rightarrow> bool" where
  "lives b A s t \<longleftrightarrow> alive t b = alive s b \<union> A \<and> once (blocks_live_set t b) \<and> (\<forall>c. c \<noteq> b \<longrightarrow> blocks_live_set t c = blocks_live_set s c)"

lemma lives_trans: "lives b A s t \<Longrightarrow> lives b B t u \<Longrightarrow> lives b (A \<union> B) s u"
  by (auto simp: lives_def)

lemma lives_fold:
  assumes "fold_res f xs s = Inr t" and "once (blocks_live_set s b)"
    and "\<And>x u v. x \<in> set xs \<Longrightarrow> lives b {} u u \<Longrightarrow> (\<forall>c. c \<noteq> b \<longrightarrow> blocks_live_set u c = blocks_live_set s c) \<Longrightarrow>
      alive s b \<subseteq> alive u b \<Longrightarrow> f x u = Inr v \<Longrightarrow> lives b (F x) u v"
  shows "lives b (\<Union>x \<in> set xs. F x) s t"
  using assms
proof (induction xs arbitrary: s)
  case (Cons x xs)
  from Cons.prems(1) obtain u where u: "f x s = Inr u" "fold_res f xs u = Inr t" by (auto simp: res_simps)
  have one: "lives b (F x) s u" by (rule Cons.prems(3)) (use Cons.prems(2) u(1) in \<open>auto simp: lives_def\<close>)
  have "lives b (\<Union>x \<in> set xs. F x) u t"
  proof (rule Cons.IH [OF u(2)])
    show "once (blocks_live_set u b)" using one by (simp add: lives_def)
    show "lives b (F x) v w" if "x \<in> set xs" "lives b {} v v" "\<forall>c. c \<noteq> b \<longrightarrow> blocks_live_set v c = blocks_live_set u c"
      "alive u b \<subseteq> alive v b" "f x v = Inr w" for x v w
      by (rule Cons.prems(3)) (use that one in \<open>auto simp: lives_def\<close>)
  qed
  from lives_trans [OF one this] show ?case by simp
qed (simp add: lives_def)

lemma lives_add:
  assumes "\<not> Has b i s" and "once (blocks_live_set s b)" and "blocks_live_set t = (blocks_live_set s)(b := blocks_live_set s b @ [i])"
  shows "lives b (values_of [i]) s t"
  using assms by (cases i) (auto simp: lives_def alive_def values_of_def Has_def once_append)

lemma lives_none: "once (blocks_live_set s b) \<Longrightarrow> A \<subseteq> alive s b \<Longrightarrow> lives b A s s"
  by (auto simp: lives_def)

lemma add_unless:
  assumes "(if P \<and> \<not> Has b i s then AddRange i x y (Extend b i s) else Inr s) = Inr t" and "once (blocks_live_set s b)"
    and "\<not> P \<Longrightarrow> i = None"
  shows "lives b (values_of [i]) s t"
proof (cases "P \<and> \<not> Has b i s")
  case True
  then have "blocks_live_set t = (blocks_live_set s)(b := blocks_live_set s b @ [i])"
    using assms(1) AddRange_sets by (fastforce simp: Extend_def)
  then show ?thesis using lives_add True assms(2) by blast
next
  case False
  then have "t = s" using assms(1) unfolding if_not_P [OF False] by simp
  moreover have "values_of [i] \<subseteq> alive s b" using False assms(3) by (cases i) (auto simp: values_of_def alive_def Has_def)
  ultimately show ?thesis using lives_none assms(2) by blast
qed

subsection \<open>Into the block from its successors\<close>

text \<open>The values the phis of the successors take from a block.\<close>

definition phi_uses :: "agraph \<Rightarrow> nat \<Rightarrow> nat \<Rightarrow> nat set" where
  "phi_uses g b c = {i. \<exists>k. GetPredIdx c b g = Inr k \<and> (\<exists>p \<in> set (GetPhis g c). GetInput p k g = Inr (Some i))}"

lemma InitializeBlock_alive:
  assumes "InitializeBlock b x y g s = Inr t"
  shows "alive t b = (\<Union>c \<in> set (bb_succs (g_bb g b)). alive s c \<union> phi_uses g b c)" and "once (blocks_live_set t b)"
    and "c \<noteq> b \<Longrightarrow> blocks_live_set t c = blocks_live_set s c"
proof -
  have empty: "blocks_live_set s b = []" using assms by (auto simp: InitializeBlock_def res_simps)
  then have start: "once (blocks_live_set s b)" "alive s b = {}" by (simp_all add: alive_def)
  have "lives b (\<Union>c \<in> set (bb_succs (g_bb g b)). alive s c \<union> phi_uses g b c) s t"
  proof (rule lives_fold [OF _ start(1)])
    show "fold_res (\<lambda>c t. rbind (fold_res (\<lambda>i u. if i \<noteq> None \<and> \<not> Has b i u then AddRange i x y (Extend b i u) else Inr u)
          (blocks_live_set t c) t) (\<lambda>t1. rbind (GetPredIdx c b g) (\<lambda>k. fold_res (\<lambda>p u. rbind (GetInput p k g) (\<lambda>i.
            if \<not> Has b i u then AddRange i x y (Extend b i u) else Inr u)) (GetPhis g c) t1)))
        (bb_succs (g_bb g b)) s = Inr t"
      using assms by (auto simp: InitializeBlock_def res_simps)
    fix c u v
    assume u: "lives b {} u u" "\<forall>c. c \<noteq> b \<longrightarrow> blocks_live_set u c = blocks_live_set s c" "alive s b \<subseteq> alive u b"
      and step: "rbind (fold_res (\<lambda>i u. if i \<noteq> None \<and> \<not> Has b i u then AddRange i x y (Extend b i u) else Inr u)
          (blocks_live_set u c) u) (\<lambda>t1. rbind (GetPredIdx c b g) (\<lambda>k. fold_res (\<lambda>p u. rbind (GetInput p k g) (\<lambda>i.
            if \<not> Has b i u then AddRange i x y (Extend b i u) else Inr u)) (GetPhis g c) t1)) = Inr v"
    from step obtain w k where w: "fold_res (\<lambda>i u. if i \<noteq> None \<and> \<not> Has b i u then AddRange i x y (Extend b i u) else Inr u)
          (blocks_live_set u c) u = Inr w" and k: "GetPredIdx c b g = Inr k"
      and v: "fold_res (\<lambda>p u. rbind (GetInput p k g) (\<lambda>i. if \<not> Has b i u then AddRange i x y (Extend b i u) else Inr u))
          (GetPhis g c) w = Inr v" by (auto simp: res_simps)
    have ou: "once (blocks_live_set u b)" using u(1) by (simp add: lives_def)
    have "lives b (\<Union>i \<in> set (blocks_live_set u c). values_of [i]) u w"
      by (rule lives_fold [OF w ou]) (rule add_unless [where P = "i \<noteq> None" for i], auto simp: lives_def)
    moreover have "(\<Union>i \<in> set (blocks_live_set u c). values_of [i]) = alive u c" by (auto simp: values_of_def alive_def)
    ultimately have one: "lives b (alive u c) u w" by simp
    then have ow: "once (blocks_live_set w b)" by (simp add: lives_def)
    have "lives b (\<Union>p \<in> set (GetPhis g c). {i. GetInput p k g = Inr (Some i)}) w v"
    proof (rule lives_fold [OF v ow])
      fix p u' v' assume u': "lives b {} u' u'"
        and "rbind (GetInput p k g) (\<lambda>i. if \<not> Has b i u' then AddRange i x y (Extend b i u') else Inr u') = Inr v'"
      then obtain i where i: "GetInput p k g = Inr i" "(if True \<and> \<not> Has b i u' then AddRange i x y (Extend b i u') else Inr u') = Inr v'"
        by (auto simp: res_simps)
      have "lives b (values_of [i]) u' v'" by (rule add_unless [OF i(2)]) (use u' in \<open>auto simp: lives_def\<close>)
      moreover have "values_of [i] = {j. GetInput p k g = Inr (Some j)}" using i(1) by (auto simp: values_of_def)
      ultimately show "lives b {j. GetInput p k g = Inr (Some j)} u' v'" by simp
    qed
    moreover have "(\<Union>p \<in> set (GetPhis g c). {i. GetInput p k g = Inr (Some i)}) = phi_uses g b c"
      using k by (auto simp: phi_uses_def)
    ultimately have "lives b (alive u c \<union> phi_uses g b c) u v" using lives_trans [OF one] by simp
    then show "lives b (alive s c \<union> phi_uses g b c) u v"
      using u(2) start(2) by (cases "c = b") (auto simp: lives_def alive_def)
  qed
  then show "alive t b = (\<Union>c \<in> set (bb_succs (g_bb g b)). alive s c \<union> phi_uses g b c)" "once (blocks_live_set t b)"
    "c \<noteq> b \<Longrightarrow> blocks_live_set t c = blocks_live_set s c"
    using start(2) by (auto simp: lives_def)
qed

subsection \<open>Through the instructions\<close>

definition transfer :: "agraph \<Rightarrow> nat \<Rightarrow> nat set \<Rightarrow> nat set" where
  "transfer g i L = (L - {i}) \<union> values_of (ji_inputs (g_inst g i))"

lemma process_inst_alive:
  assumes "process_inst b start g i s = Inr t" and "once (blocks_live_set s b)"
  shows "alive t b = transfer g i (alive s b)" and "once (blocks_live_set t b)" and "c \<noteq> b \<Longrightarrow> blocks_live_set t c = blocks_live_set s c"
proof -
  from assms(1) obtain u where u: "(if HasDst (ji_opcode (g_inst g i)) then
          if HasUsers g i then rbind (FinalizeDef (Some i) (LN g i) s) (LS_Remove b i)
          else rbind (AddRange (Some i) (LN g i) (LN g i + 2) s) (\<lambda>t. guard (\<not> Has b (Some i) t) AssertFailed (Inr t))
        else guard (\<not> Has b (Some i) s) AssertFailed (Inr s)) = Inr u"
    and t: "fold_res (\<lambda>x t. if \<not> Has b x t then rbind (AddRange x start (LN g i) t) (\<lambda>u. Inr (Extend b x u)) else Inr t)
             (ji_inputs (g_inst g i)) u = Inr t"
    by (auto simp: process_inst_def res_simps)
  have killed: "alive u b = alive s b - {i} \<and> once (blocks_live_set u b) \<and> (\<forall>c. c \<noteq> b \<longrightarrow> blocks_live_set u c = blocks_live_set s c)"
  proof (cases "HasDst (ji_opcode (g_inst g i)) \<and> HasUsers g i")
    case True
    then obtain w where w: "FinalizeDef (Some i) (LN g i) s = Inr w" "LS_Remove b i w = Inr u" using u by (auto simp: res_simps)
    note sets = FinalizeDef_sets [OF w(1)]
    have "once (blocks_live_set w b)" using sets assms(2) by simp
    then show ?thesis using LS_Remove_alive [OF w(2)] sets by (simp add: alive_def)
  next
    case False
    then have same: "blocks_live_set u = blocks_live_set s" "\<not> Has b (Some i) u"
      using u AddRange_sets by (auto simp: res_simps split: if_splits)
    then show ?thesis using assms(2) by (auto simp: alive_def Has_def)
  qed
  have "lives b (\<Union>x \<in> set (ji_inputs (g_inst g i)). values_of [x]) u t"
  proof (rule lives_fold [OF t])
    show "once (blocks_live_set u b)" using killed by simp
    fix x v w
    assume v: "lives b {} v v" and step: "(if \<not> Has b x v then rbind (AddRange x start (LN g i) v) (\<lambda>u. Inr (Extend b x u)) else Inr v) = Inr w"
    have ov: "once (blocks_live_set v b)" using v by (simp add: lives_def)
    show "lives b (values_of [x]) v w"
    proof (cases "Has b x v")
      case True
      then have "values_of [x] \<subseteq> alive v b" by (auto simp: values_of_def alive_def Has_def)
      then show ?thesis using True step lives_none ov by simp
    next
      case False
      then have "blocks_live_set w = (blocks_live_set v)(b := blocks_live_set v b @ [x])"
        using step AddRange_sets by (auto simp: res_simps Extend_def)
      then show ?thesis using lives_add False ov by blast
    qed
  qed
  moreover have "(\<Union>x \<in> set (ji_inputs (g_inst g i)). values_of [x]) = values_of (ji_inputs (g_inst g i))"
    by (auto simp: values_of_def)
  ultimately show "alive t b = transfer g i (alive s b)" "once (blocks_live_set t b)" "c \<noteq> b \<Longrightarrow> blocks_live_set t c = blocks_live_set s c"
    using killed by (auto simp: lives_def transfer_def)
qed

lemma ProcessInstructions_alive:
  assumes "ProcessInstructions b start g s = Inr t" and "once (blocks_live_set s b)"
  shows "alive t b = fold (transfer g) (GetInstsRev g b) (alive s b) - set (GetPhis g b)"
    and "c \<noteq> b \<Longrightarrow> blocks_live_set t c = blocks_live_set s c"
proof -
  from assms(1) obtain u where u: "fold_res (process_inst b start g) (GetInstsRev g b) s = Inr u"
    and t: "fold_res (LS_Remove b) (GetPhis g b) u = Inr t" by (auto simp: ProcessInstructions_def res_simps)
  have insts: "alive v b = fold (transfer g) is (alive w b) \<and> once (blocks_live_set v b) \<and>
      (\<forall>c. c \<noteq> b \<longrightarrow> blocks_live_set v c = blocks_live_set w c)"
    if "fold_res (process_inst b start g) is w = Inr v" "once (blocks_live_set w b)" for "is" v w
    using that
  proof (induction "is" arbitrary: w)
    case (Cons i "is")
    then obtain x where x: "process_inst b start g i w = Inr x" "fold_res (process_inst b start g) is x = Inr v" by (auto simp: res_simps)
    note p = process_inst_alive [OF x(1) Cons.prems(2)]
    show ?case using Cons.IH [OF x(2) p(2)] p by simp
  qed simp
  have phis: "alive v b = alive w b - set ps \<and> (\<forall>c. c \<noteq> b \<longrightarrow> blocks_live_set v c = blocks_live_set w c)"
    if "fold_res (LS_Remove b) ps w = Inr v" "once (blocks_live_set w b)" for ps v w
    using that
  proof (induction ps arbitrary: w)
    case (Cons p ps)
    then obtain x where x: "LS_Remove b p w = Inr x" "fold_res (LS_Remove b) ps x = Inr v" by (auto simp: res_simps)
    note r = LS_Remove_alive [OF x(1) Cons.prems(2)]
    show ?case using Cons.IH [OF x(2) r(2)] r by auto
  qed simp
  show "alive t b = fold (transfer g) (GetInstsRev g b) (alive s b) - set (GetPhis g b)"
    "c \<noteq> b \<Longrightarrow> blocks_live_set t c = blocks_live_set s c"
    using insts [OF u assms(2)] phis [OF t] by auto
qed

text \<open>
  C25: One visit of a block solves the equation of liveness for it: its live set is what is live into
  its successors, with the inputs their phis take along the edge, carried backwards through its
  instructions (an instruction kills its own value and makes its inputs live), without its phis.
  The live sets of the other blocks stay.
\<close>

theorem block_satisfies_liveness_equation:
  assumes "rbind (InitializeBlock b x y g s) (ProcessInstructions b start g) = Inr t"
  shows "alive t b = fold (transfer g) (GetInstsRev g b) (\<Union>c \<in> set (bb_succs (g_bb g b)). alive s c \<union> phi_uses g b c)
      - set (GetPhis g b) \<and> (\<forall>c. c \<noteq> b \<longrightarrow> alive t c = alive s c)"
proof -
  from assms obtain u where u: "InitializeBlock b x y g s = Inr u" "ProcessInstructions b start g u = Inr t"
    by (auto simp: res_simps)
  note i = InitializeBlock_alive [OF u(1)] and p = ProcessInstructions_alive [OF u(2) InitializeBlock_alive(2) [OF u(1)]]
  have "alive t c = alive s c" if "c \<noteq> b" for c using i(3) p(2) that by (simp add: alive_def)
  then show ?thesis using i(1) p(1) by simp
qed

subsection \<open>Loops\<close>

text \<open>
  The range a value gets for being live around a loop ends at the first later block of the
  linear order whose innermost loop is another one.  When the block after the header belongs to an
  inner loop, that is this block, although the rest of the outer loop comes after it.
\<close>

theorem loop_range_stops_at_inner_loop:
  assumes "g_linear g = es @ (Some h, m) # (Some b, n) # fs" and "Loop_of h g = Some l"
    and "Loop_of b g = Some j" "j \<noteq> l" and "blocks_live_set s h = [Some i]" and "(of_nat m :: u32) < of_nat n"
  shows "ProcessLoop (length es) g s = Inr (put_ranges (Some i) ((GetLiveRanges (Some i) s)
    \<lparr>lrs_loop_ranges := lrs_loop_ranges (GetLiveRanges (Some i) s) @ [\<lparr>lr_b = of_nat m, lr_e = of_nat n, lr_loc = None\<rparr>]\<rparr>) s)"
  using assms by (simp add: ProcessLoop_def deref_def AppendLoopRange_def LiveRange_def Let_def)

subsection \<open>Examples\<close>

text \<open>A constant that is returned in its block, where another value passes through.\<close>

definition live_demo :: agraph where
  "live_demo = demo_cfg\<lparr>
     g_inst := (\<lambda>_. new_inst JADD 2 UNKNOWN 0)
       (0 := (new_inst JCONST 0 INT64 7)\<lparr>ji_ln := 2, ji_first_user := Some (1, 0), ji_next := Some 1\<rparr>,
        1 := (new_inst JRETURN 1 INT64 0)\<lparr>ji_ln := 4, ji_inputs := [Some 0], ji_prev := Some 0\<rparr>),
     g_insts_count := 6,
     g_bb := (\<lambda>_. new_bb)(2 := new_bb\<lparr>bb_succs := [3], bb_first_inst := Some 0, bb_last_inst := Some 1\<rparr>, 3 := new_bb\<lparr>bb_preds := [2]\<rparr>)\<rparr>"

definition live_before :: lv_state where
  "live_before = \<lparr>blocks_live_set = (\<lambda>_. [])(3 := [Some 5]), insts_live_ranges = (\<lambda>_. None)\<rparr>"

lemmas live_defs = InitializeBlock_def ProcessInstructions_def process_inst_def GetInstsRev_def GetPhis_def GetPredIdx_def
  AddRange_def FinalizeDef_def TrimBegin_def Extend_def Has_def LS_Remove_def HasUsers_def LN_def LiveRange_def Let_def
  GetLiveRanges_def put_ranges_def HasDst_def IsPhi_def live_demo_def live_before_def demo_cfg_def new_bb_def new_inst_def

lemma follow_step: "follow f n None = []" "follow f (numeral k) (Some i) = i # follow f (pred_numeral k) (f i)"
  by (cases n) (simp_all add: numeral_eq_Suc)

lemma live_demo_run: "\<exists>t. rbind (InitializeBlock 2 0 6 live_demo live_before) (ProcessInstructions 2 0 live_demo) = Inr t"
  by (simp add: live_defs follow_step)

theorem block_satisfies_liveness_equation_witness:
  "\<exists>t. rbind (InitializeBlock 2 0 6 live_demo live_before) (ProcessInstructions 2 0 live_demo) = Inr t \<and> alive t 2 = {5} \<and> alive t 3 = {5}"
proof -
  obtain t where t: "rbind (InitializeBlock 2 0 6 live_demo live_before) (ProcessInstructions 2 0 live_demo) = Inr t"
    using live_demo_run by blast
  have phis: "GetPhis live_demo 2 = []" "GetPhis live_demo 3 = []" and insts: "GetInstsRev live_demo 2 = [1, 0]" and succs: "bb_succs (g_bb live_demo 2) = [3]"
    by (simp_all add: live_defs follow_step)
  have inputs: "ji_inputs (g_inst live_demo 0) = []" "ji_inputs (g_inst live_demo (Suc 0)) = [Some 0]"
    by (simp_all add: live_defs)
  have "alive live_before 3 = {5}" by (simp add: alive_def live_before_def)
  with block_satisfies_liveness_equation [OF t] t show ?thesis
    by (auto simp: phis insts succs inputs transfer_def values_of_def phi_uses_def)
qed

text \<open>The outer loop 1 has the header 2, block 3 is in the loop 0 inside it.\<close>

definition nested_demo :: agraph where
  "nested_demo = live_demo\<lparr>
     g_bb := (\<lambda>_. new_bb)(2 := new_bb\<lparr>bb_loop := Some 1\<rparr>, 3 := new_bb\<lparr>bb_loop := Some 0\<rparr>, 0 := new_bb\<lparr>bb_loop := Some 1\<rparr>),
     g_linear := [(Some 2, 0), (Some 3, 4), (Some 0, 8), (None, 12)]\<rparr>"

theorem loop_range_stops_at_inner_loop_witness:
  "ProcessLoop 0 nested_demo (live_before\<lparr>blocks_live_set := (\<lambda>_. [Some 5])\<rparr>) =
     Inr (put_ranges (Some 5) \<lparr>lrs_ranges = [], lrs_loop_ranges = [\<lparr>lr_b = 0, lr_e = 4, lr_loc = None\<rparr>]\<rparr>
       (live_before\<lparr>blocks_live_set := (\<lambda>_. [Some 5])\<rparr>))"
proof -
  have loops: "g_linear nested_demo = [] @ (Some 2, 0) # (Some 3, 4) # [(Some 0, 8), (None, 12)]"
    "Loop_of 2 nested_demo = Some 1" "Loop_of 3 nested_demo = Some 0"
    by (simp_all add: nested_demo_def Loop_of_def)
  show ?thesis
    using loop_range_stops_at_inner_loop [OF loops, of "live_before\<lparr>blocks_live_set := (\<lambda>_. [Some 5])\<rparr>" 5]
    by (simp add: GetLiveRanges_def live_before_def)
qed

end
