(* ===== verification/Jit_Places.thy ===== *)
theory Jit_Places
  imports Jit_Regs Jit_LiveSets
begin

text \<open>
  What the register allocator promises: values that are live at the same life number are in
  different places, the active intervals are in different registers, and the moves for the phis are
  where the phi expects its value.  Three theorems show where it breaks its promise.
\<close>

subsection \<open>Places are not shared\<close>

lemma regs_ok_length:
  assumes "regs_ok s"
  shows "length (ra_active s) \<le> REGS_COUNT"
    and "length (ra_active s) < REGS_COUNT \<Longrightarrow> \<exists>k u. AllocateFreeReg s = Inr (k, u)"
proof -
  let ?R = "{r. r < REGS_COUNT \<and> busy_regs s ! r}"
  have dist: "distinct (ra_active s)" and inj: "inj_on (reg_of s) (set (ra_active s))"
    and img: "reg_of s ` set (ra_active s) = Some ` ?R" using assms by (simp_all add: regs_ok_def)
  have "length (ra_active s) = card (reg_of s ` set (ra_active s))"
    by (simp add: card_image [OF inj] distinct_card [OF dist])
  then have card: "length (ra_active s) = card ?R" unfolding img by (simp add: card_image)
  have "card ?R \<le> card {..<REGS_COUNT}" by (rule card_mono) auto
  then show "length (ra_active s) \<le> REGS_COUNT" using card by simp
  assume less: "length (ra_active s) < REGS_COUNT"
  have "\<exists>r < REGS_COUNT. \<not> busy_regs s ! r"
  proof (rule ccontr)
    assume "\<not> (\<exists>r < REGS_COUNT. \<not> busy_regs s ! r)"
    then have "?R = {..<REGS_COUNT}" by auto
    then show False using card less by simp
  qed
  then have "find (\<lambda>i. \<not> busy_regs s ! i) [0..<REGS_COUNT] \<noteq> None" by (auto simp: find_None_iff)
  then show "\<exists>k u. AllocateFreeReg s = Inr (k, u)" by (auto simp: AllocateFreeReg_def)
qed

text \<open>
  C30: After any number of instructions the active intervals are at most as many as the registers,
  each is in a busy register, no two in the same, every busy register belongs to one of them, and
  when there are fewer a free register is found: \<open>AllocateFreeReg\<close> never comes to its
  \<open>UNREACHABLE\<close>.
\<close>

theorem active_intervals_own_the_registers:
  assumes "fold_res (alloc_inst g) is (ra_init m) = Inr t" and "alloc_input g is m"
  shows "length (ra_active t) \<le> REGS_COUNT \<and> distinct (ra_active t) \<and>
    (\<forall>p \<in> set (ra_active t). \<exists>k < REGS_COUNT. CurrentLocation (iv_of t p) = Inr (reg k) \<and> busy_regs t ! k) \<and>
    (\<forall>k < REGS_COUNT. busy_regs t ! k \<longrightarrow> (\<exists>!p. p \<in> set (ra_active t) \<and> CurrentLocation (iv_of t p) = Inr (reg k))) \<and>
    (length (ra_active t) < REGS_COUNT \<longrightarrow> (\<exists>k u. AllocateFreeReg t = Inr (k, u)))"
proof -
  obtain vis d where "alloc_ok m vis d t" using alloc_prefix_ok [OF assms] by blast
  then have ok: "regs_ok t" by (simp add: alloc_ok_def)
  have loc: "CurrentLocation (iv_of t p) = Inr (reg k) \<longleftrightarrow> reg_of t p = Some k" for p k
    by (auto simp: CurrentLocation_def location_at_def reg_of_def IntervalsBack_def res_simps split: option.splits)
  have own: "\<exists>!p. p \<in> set (ra_active t) \<and> reg_of t p = Some k" if "k < REGS_COUNT" "busy_regs t ! k" for k
  proof -
    have "Some k \<in> reg_of t ` set (ra_active t)" using ok that by (auto simp: regs_ok_def)
    then obtain p where p: "p \<in> set (ra_active t)" "reg_of t p = Some k" by auto
    show ?thesis
    proof (rule ex1I [of _ p])
      show "p \<in> set (ra_active t) \<and> reg_of t p = Some k" using p by simp
      show "q = p" if "q \<in> set (ra_active t) \<and> reg_of t q = Some k" for q
        using ok that p unfolding regs_ok_def by (metis inj_on_eq_iff)
    qed
  qed
  have "\<exists>k < REGS_COUNT. CurrentLocation (iv_of t p) = Inr (reg k) \<and> busy_regs t ! k" if "p \<in> set (ra_active t)" for p
    by (rule active_reg [OF ok that]) (auto simp: loc)
  moreover have "distinct (ra_active t)" using ok by (simp add: regs_ok_def)
  ultimately show ?thesis using regs_ok_length [OF ok] own unfolding loc by blast
qed

text \<open>
  After the allocation two different values that are live at the same even life number, where
  an instruction writes its result, are neither in the same register nor in the same slot.
\<close>

theorem live_values_do_not_share_a_place:
  assumes "AllocateRegisters g (ra_init m) = Inr t" and "alloc_input g (alloc_order g) m"
    and "p \<noteq> q" and "in_place t p l r" and "in_place t q l z" and "loc_kind l \<noteq> UNDEF"
    and "even n" and "lr_b r \<le> n" and "n < lr_e r"
  shows "\<not> (lr_b z \<le> n \<and> n < lr_e z)"
proof -
  obtain vis d where "alloc_ok m vis d t"
    using alloc_prefix_ok [OF assms(1) [unfolded AllocateRegisters_def] assms(2)] by blast
  then have regs: "regs_apart t" and slots: "slots_apart t" by (simp_all add: alloc_ok_def)
  show ?thesis
  proof (cases "loc_kind l")
    case REG
    then have "l = reg (loc_idx l)" by simp
    then have "apart r z" using regs assms(3,4,5) unfolding regs_apart_def by metis
    then show ?thesis using assms(7-9) unfolding apart_def by blast
  next
    case SLOT
    then have "l = slot_loc (loc_idx l)" by simp
    then have "p = q" using slots assms(4,5) unfolding slots_apart_def by metis
    then show ?thesis using assms(3) by simp
  qed (use assms(6) in simp)
qed

subsection \<open>Phis\<close>

lemma loc_at_append_past: "\<forall>r \<in> set xs. lr_e r \<le> p \<Longrightarrow> loc_at (v\<lparr>iv_ranges := xs @ ys\<rparr>) p = loc_at (v\<lparr>iv_ranges := ys\<rparr>) p"
proof -
  assume "\<forall>r \<in> set xs. lr_e r \<le> p"
  then have "find (\<lambda>r. lr_b r \<le> p \<and> p < lr_e r) xs = None" by (intro find_none) auto
  then show ?thesis by (simp add: loc_at_def find_append)
qed

lemma SetLoc_one:
  assumes "iv_ranges v = as @ r # bs"
  shows "SetLoc (length as) (Suc (length as)) l v = v\<lparr>iv_ranges := as @ r\<lparr>lr_loc := Some l\<rparr> # bs\<rparr>"
  using assms by (simp add: SetLoc_def)

text \<open>A range that begins where the ranges before it have ended gets a location.\<close>

lemma loc_at_SetLoc:
  assumes "iv_ranges v = as @ r # bs" and "\<forall>s \<in> set as. lr_e s \<le> lr_b r" and "lr_b r < lr_e r"
  shows "loc_at (SetLoc (length as) (Suc (length as)) l v) (lr_b r) = Some l"
  unfolding SetLoc_one [OF assms(1)] loc_at_append_past [OF assms(2)] using assms(3) by (simp add: loc_at_def)

lemma split_ranges:
  assumes "SplitAt p v = Inr (k, w)" and "valid_ranges (iv_ranges v)" and "iv_ranges v \<noteq> []"
  obtains as r bs where "iv_ranges w = as @ r # bs" "length as = k" "lr_b r = p" "\<forall>s \<in> set as. lr_e s \<le> p" "p < lr_e r"
    "valid_ranges (as @ r # bs)"
proof -
  note w = SplitAt_valid [OF assms]
  have eq: "iv_ranges w = take k (iv_ranges w) @ (iv_ranges w ! k) # drop (Suc k) (iv_ranges w)"
    using w(3) by (rule id_take_nth_drop)
  have val: "valid_ranges (take k (iv_ranges w) @ (iv_ranges w ! k) # drop (Suc k) (iv_ranges w))" using w(1) eq by metis
  show thesis
  proof (rule that [OF eq _ w(2) _ _ val])
    show "length (take k (iv_ranges w)) = k" using w(3) by simp
    show "\<forall>s \<in> set (take k (iv_ranges w)). lr_e s \<le> p" using w(3,4) by (auto simp: in_set_conv_nth)
    show "p < lr_e (iv_ranges w ! k)" using val w(2) by simp
  qed
qed

lemma pred_less: "(n :: u32) \<noteq> 0 \<Longrightarrow> n - 1 < n"
proof -
  assume n: "n \<noteq> 0"
  then have "unat (n - 1) = unat n - 1" "unat n \<noteq> 0" by (simp_all add: unat_minus_one unat_eq_zero)
  then show ?thesis by (simp add: word_less_nat_alt)
qed

lemma next_word: "(p :: u32) - 1 < e \<Longrightarrow> e \<noteq> p \<Longrightarrow> p \<noteq> 0 \<Longrightarrow> p < e"
proof -
  assume less: "p - 1 < e" and ne: "e \<noteq> p" and p: "p \<noteq> 0"
  have "unat (p - 1) = unat p - 1" "0 < unat p" "unat e \<noteq> unat p"
    using p ne by (simp_all add: unat_minus_one word_neq_0_conv unat_gt_0 unat_eq_iff)
  then show "p < e" using less by (simp add: word_less_nat_alt)
qed

text \<open>Splitting inside a known range.\<close>

lemma SplitAt_known:
  assumes v: "iv_ranges v = as @ r # bs" and ok: "valid_ranges (as @ r # bs)" and r: "lr_b r < p" "p < lr_e r"
    and as: "\<forall>s \<in> set as. lr_e s \<le> lr_b r"
  shows "SplitAt p v = Inr (Suc (length as), v\<lparr>iv_ranges := as @ r\<lparr>lr_e := p\<rparr> # \<lparr>lr_b = p, lr_e = lr_e r, lr_loc = None\<rparr> # bs\<rparr>)"
proof -
  have past: "\<not> (p \<le> lr_b s \<or> p < lr_e s)" if "s \<in> set as" for s
  proof -
    have "lr_b s < lr_e s" "lr_e s \<le> lr_b r" using ok as that by (auto simp: valid_ranges_def)
    then show ?thesis using r(1) by auto
  qed
  have here: "p \<le> lr_b r \<or> p < lr_e r" using r by simp
  have "takeWhile (\<lambda>s. \<not> (p \<le> lr_b s \<or> p < lr_e s)) (iv_ranges v) = as"
    using past here unfolding v by (simp add: takeWhile_append2)
  moreover have "Startpoint v \<le> p"
    using begins_by_Startpoint [of v r] ok r(1) unfolding v by auto
  moreover have "\<not> Endpoint v \<le> p"
    using ends_by_Endpoint [of v r] ok r(2) unfolding v by auto
  ultimately have "FindRangeCoveringOrAfter p v = Inr (length as, v)" by (simp add: FindRangeCoveringOrAfter_def)
  from SplitAt_at [OF v this r(2)] show ?thesis using r(1) by simp
qed

text \<open>
  C31: The move for an input of a phi: after \<open>ProcessPhiInput\<close> the value is in the register of the
  phi at the last life number of the predecessor block, and no other interval has changed.
\<close>

theorem phi_input_is_moved:
  assumes "ProcessPhiInput p b l g s = Inr t" and "ivs_ok s"
    and "GetBlockLinearIDX b g = Inr j" and "GetBlockEndLN j g = Inr n"
  shows "loc_at (iv_of t p) (n - 1) = Some (reg (loc_idx l)) \<and> (\<forall>q. q \<noteq> p \<longrightarrow> ra_ivs t q = ra_ivs s q)"
proof -
  from assms(1,3,4) obtain v k w where v: "ra_ivs s p = Some v" and w: "SplitAt (n - 1) v = Inr (k, w)"
    and rest: "(if lr_e (iv_ranges w ! k) = n then Inr (put_iv p (SetLoc k (Suc k) (reg (loc_idx l)) w) s)
               else rbind (SplitAt n w) (\<lambda>(m, u). guard (k \<noteq> 0) Undefined
                     (rbind (location_at (iv_ranges u ! (k - 1))) (\<lambda>old.
                       Inr (put_iv p (SetLoc m (Suc m) old (SetLoc k m (reg (loc_idx l)) u)) s))))) = Inr t"
    by (auto simp: ProcessPhiInput_def GetInterval_def res_simps)
  have valid: "iv_ranges v \<noteq> []" "valid_ranges (iv_ranges v)" using assms(2) v by (auto simp: ivs_ok_def)
  obtain as r bs where r: "iv_ranges w = as @ r # bs" "length as = k" "lr_b r = n - 1" "\<forall>s \<in> set as. lr_e s \<le> n - 1" "n - 1 < lr_e r"
    and ok: "valid_ranges (as @ r # bs)" by (rule split_ranges [OF w valid(2,1)])
  have nz: "n \<noteq> 0" by (rule split_before_not_zero [OF w valid(2,1)])
  have before: "\<forall>s \<in> set as. lr_e s \<le> lr_b r" using r(3,4) by simp
  show ?thesis
  proof (cases "lr_e r = n")
    case True
    then have t: "t = put_iv p (SetLoc k (Suc k) (reg (loc_idx l)) w) s" using rest r(1,2) by auto
    have "loc_at (SetLoc k (Suc k) (reg (loc_idx l)) w) (n - 1) = Some (reg (loc_idx l))"
      using loc_at_SetLoc [OF r(1) before] r(2,3,5) by simp
    then show ?thesis by (simp add: t)
  next
    case False
    then have n: "n < lr_e r" using next_word [OF r(5) _ nz] by simp
    have less: "n - 1 < n" using nz by (rule pred_less)
    have u: "SplitAt n w = Inr (Suc k, w\<lparr>iv_ranges := as @ r\<lparr>lr_e := n\<rparr> # \<lparr>lr_b = n, lr_e = lr_e r, lr_loc = None\<rparr> # bs\<rparr>)"
      using SplitAt_known [OF r(1) ok _ n before] less r(2,3) by simp
    define x where "x = w\<lparr>iv_ranges := as @ r\<lparr>lr_e := n\<rparr> # \<lparr>lr_b = n, lr_e = lr_e r, lr_loc = None\<rparr> # bs\<rparr>"
    have e: "lr_e (iv_ranges w ! k) \<noteq> n" using False r(1,2) by auto
    have "rbind (SplitAt n w) (\<lambda>(m, u). guard (k \<noteq> 0) Undefined
            (rbind (location_at (iv_ranges u ! (k - 1))) (\<lambda>old.
               Inr (put_iv p (SetLoc m (Suc m) old (SetLoc k m (reg (loc_idx l)) u)) s)))) = Inr t"
      using rest unfolding if_not_P [OF e] .
    then have "guard (k \<noteq> 0) Undefined (rbind (location_at (iv_ranges x ! (k - 1))) (\<lambda>old.
               Inr (put_iv p (SetLoc (Suc k) (Suc (Suc k)) old (SetLoc k (Suc k) (reg (loc_idx l)) x)) s))) = Inr t"
      unfolding u x_def [symmetric] rbind.simps prod.case .
    then obtain old where t: "t = put_iv p (SetLoc (Suc k) (Suc (Suc k)) old (SetLoc k (Suc k) (reg (loc_idx l)) x)) s"
      unfolding guard_eq_Inr rbind_eq_Inr by blast
    have x: "iv_ranges x = as @ r\<lparr>lr_e := n\<rparr> # \<lparr>lr_b = n, lr_e = lr_e r, lr_loc = None\<rparr> # bs" by (simp add: x_def)
    have "SetLoc k (Suc k) (reg (loc_idx l)) x =
        x\<lparr>iv_ranges := as @ r\<lparr>lr_e := n, lr_loc := Some (reg (loc_idx l))\<rparr> # \<lparr>lr_b = n, lr_e = lr_e r, lr_loc = None\<rparr> # bs\<rparr>"
      using SetLoc_one [OF x] r(2) by simp
    moreover have "SetLoc (Suc k) (Suc (Suc k)) old (x\<lparr>iv_ranges := as @ r\<lparr>lr_e := n, lr_loc := Some (reg (loc_idx l))\<rparr> # z # bs\<rparr>)
        = x\<lparr>iv_ranges := as @ r\<lparr>lr_e := n, lr_loc := Some (reg (loc_idx l))\<rparr> # z\<lparr>lr_loc := Some old\<rparr> # bs\<rparr>" for z
      using SetLoc_one [of "x\<lparr>iv_ranges := as @ r\<lparr>lr_e := n, lr_loc := Some (reg (loc_idx l))\<rparr> # z # bs\<rparr>"
          "as @ [r\<lparr>lr_e := n, lr_loc := Some (reg (loc_idx l))\<rparr>]" z bs old] r(2) by simp
    ultimately have "loc_at (iv_of t p) (n - 1) = Some (reg (loc_idx l))"
      unfolding t using loc_at_append_past [OF r(4)] r(3) less by (simp add: loc_at_def)
    then show ?thesis by (simp add: t)
  qed
qed

subsection \<open>Where the allocator fails\<close>

text \<open>
  C39: When a fifth phi of a block, or the result of an instruction at the life number where all four active
  intervals begin, needs a register, the allocator fails: it splits an active interval one before the
  life number where it begins.
\<close>

theorem fifth_phi_fails:
  assumes "regs_ok s" and "length (ra_active s) = REGS_COUNT" and "\<forall>q \<in> set (ra_active s). Startpoint (iv_of s q) = n"
    and "ra_ivs s p \<noteq> None" and "Startpoint (iv_of s p) = n" and "n \<noteq> 0"
  shows "place_result p s = Inl AssertFailed"
proof -
  obtain q f t where f: "fold (furthest_step n) (ra_active s) (0, hd (ra_active s), s) = (f, q, t)"
    by (cases "fold (furthest_step n) (ra_active s) (0, hd (ra_active s), s)") auto
  then have g: "GetUnusedIntervalToSpill n s = Inr (q, t)" using assms(2) by (simp add: GetUnusedIntervalToSpill_def)
  note same = GetUnused_same [OF g assms(1)]
  have ranges: "iv_ranges (iv_of t q) = iv_ranges (iv_of s q)" by (rule same_ranges_iv_of [OF same(1)])
  obtain k where k: "reg_of s q = Some k" "k < REGS_COUNT" "busy_regs s ! k" by (rule active_reg [OF assms(1) same(2)])
  have "reg_of t q = Some k" using k(1) ranges by (simp add: reg_of_def)
  then have r: "GetRegIdx (iv_of t q) = Inr k" by (simp add: GetRegIdx_Inr)
  have len: "length (busy_regs t) = REGS_COUNT" "busy_regs t ! k" using same(1) assms(1) k(3) by (simp_all add: same_ranges_def regs_ok_def)
  have "Startpoint (iv_of t q) = n" using assms(3) same(2) ranges by (simp add: Startpoint_def)
  moreover have "\<not> n \<le> n - 1" using pred_less [OF assms(6)] by simp
  ultimately have "SplitAt (n - 1) (iv_of t q) = Inl AssertFailed" by (simp add: SplitAt_def FindRangeCoveringOrAfter_def)
  then have "SpillUnusedAndActivate p n s = Inl AssertFailed"
    using g r k(2) len by (simp add: SpillUnusedAndActivate_def)
  then show ?thesis using assms(2,4,5) by (simp add: place_result_def)
qed

subsection \<open>Examples\<close>

text \<open>
  One block: five constants, a call of three of them, an addition whose first operand ends there and
  whose second was spilled when the fifth constant needed its register, and an addition of the
  other two.
\<close>

definition demo_inst :: "jopcode \<Rightarrow> u32 \<Rightarrow> nat option list \<Rightarrow> nat option \<Rightarrow> jinst" where
  "demo_inst c n is next = (new_inst c 0 INT64 0)\<lparr>ji_ln := n, ji_inputs := is, ji_next := next\<rparr>"

definition plain_iv :: "u32 \<Rightarrow> u32 \<Rightarrow> u32 list \<Rightarrow> live_interval" where
  "plain_iv b e us = \<lparr>iv_ranges = [\<lparr>lr_b = b, lr_e = e, lr_loc = None\<rparr>], iv_usepoints = us\<rparr>"

definition reload_demo :: agraph where
  "reload_demo = demo_cfg\<lparr>
     g_inst := (\<lambda>_. demo_inst JADD 16 [Some 3, Some 4] None)
       (0 := demo_inst JCONST 2 [] (Some 1), 1 := demo_inst JCONST 4 [] (Some 2), 2 := demo_inst JCONST 6 [] (Some 3),
        3 := demo_inst JCONST 8 [] (Some 4), 4 := demo_inst JCONST 10 [] (Some 5),
        5 := demo_inst JCALL 12 [Some 1, Some 2, Some 3] (Some 6), 6 := demo_inst JADD 14 [Some 1, Some 0] (Some 7)),
     g_insts_count := 8,
     g_bb := (\<lambda>_. new_bb)(2 := new_bb\<lparr>bb_first_inst := Some 0, bb_last_inst := Some 7\<rparr>),
     g_linear := [(Some 2, 0), (None, 18)]\<rparr>"

definition reload_ivs :: "nat option \<Rightarrow> live_interval option" where
  "reload_ivs = [Some 0 \<mapsto> plain_iv 2 14 [14], Some 1 \<mapsto> plain_iv 4 14 [12, 14], Some 2 \<mapsto> plain_iv 6 12 [12],
     Some 3 \<mapsto> plain_iv 8 16 [12, 16], Some 4 \<mapsto> plain_iv 10 16 [16], Some 5 \<mapsto> plain_iv 12 14 [],
     Some 6 \<mapsto> plain_iv 14 16 [], Some 7 \<mapsto> plain_iv 16 18 []]"

lemma alloc_order_demo: "alloc_order reload_demo = [0, 1, 2, 3, 4, 5, 6, 7]"
  by (simp add: alloc_order_def order_blocks_def GetAllInsts_def GetPhis_def GetInsts_def reload_demo_def demo_cfg_def new_bb_def
      follow_step demo_inst_def)

lemmas ra_defs = alloc_inst_def ExpireOldIntervals_def FillInputs_def fill_input_def place_result_def SpillUnusedAndActivate_def
  GetUnusedIntervalToSpill_def furthest_step_def AllocateFreeReg_def activate_def InsertActive_def Recycle_def IsActive_def GetRegIdx_def
  CurrentLocation_def location_at_def GetInterval_def iv_of_def put_iv_def SetFrom_def SetLoc_def Endpoint_def Startpoint_def
  IntervalsBack_def SplitAt_def FindRangeCoveringOrAfter_def LiveRange_def Let_def REGS_COUNT_def

lemma regs_lists: "[0..<4] = [0, 1, 2, 3]" "replicate 4 x = [x, x, x, x]" "0 < SLOTS_COUNT"
  by (simp_all add: SLOTS_COUNT_def upt_rec eval_nat_numeral)

lemma reload_run: "\<exists>t. AllocateRegisters reload_demo (ra_init reload_ivs) = Inr t \<and>
    iv_ranges (iv_of t (Some 0)) = [\<lparr>lr_b = 2, lr_e = 9, lr_loc = Some (reg 0)\<rparr>, \<lparr>lr_b = 9, lr_e = 13, lr_loc = Some (slot_loc 0)\<rparr>,
      \<lparr>lr_b = 13, lr_e = 14, lr_loc = Some (reg 1)\<rparr>] \<and>
    iv_ranges (iv_of t (Some 1)) = [\<lparr>lr_b = 4, lr_e = 14, lr_loc = Some (reg 1)\<rparr>] \<and>
    iv_ranges (iv_of t (Some 4)) = [\<lparr>lr_b = 10, lr_e = 16, lr_loc = Some (reg 0)\<rparr>]"
  unfolding AllocateRegisters_def alloc_order_demo
  by (simp add: ra_defs LN_def IsPhi_def HasDst_def ra_init_def reload_ivs_def plain_iv_def reload_demo_def demo_inst_def new_inst_def
      demo_cfg_def regs_lists)

lemma reload_input: "alloc_input reload_demo (alloc_order reload_demo) reload_ivs"
proof -
  have "unplaced reload_ivs" by (auto simp: unplaced_def reload_ivs_def plain_iv_def split: if_splits)
  then show ?thesis
    unfolding alloc_order_demo alloc_input_def
    by (simp add: LN_def reload_demo_def demo_inst_def new_inst_def reload_ivs_def plain_iv_def Startpoint_def)
qed

theorem active_intervals_own_the_registers_witness:
  "\<exists>t. AllocateRegisters reload_demo (ra_init reload_ivs) = Inr t \<and> length (ra_active t) \<le> REGS_COUNT"
proof -
  obtain t where t: "AllocateRegisters reload_demo (ra_init reload_ivs) = Inr t" using reload_run by blast
  from active_intervals_own_the_registers [OF t [unfolded AllocateRegisters_def] reload_input] t show ?thesis by blast
qed

theorem live_values_do_not_share_a_place_witness:
  "\<exists>t. AllocateRegisters reload_demo (ra_init reload_ivs) = Inr t \<and>
    in_place t (Some 0) (reg 0) \<lparr>lr_b = 2, lr_e = 9, lr_loc = Some (reg 0)\<rparr> \<and>
    in_place t (Some 4) (reg 0) \<lparr>lr_b = 10, lr_e = 16, lr_loc = Some (reg 0)\<rparr> \<and> \<not> ((10 :: u32) \<le> 8 \<and> (8 :: u32) < 16)"
proof -
  obtain t where t: "AllocateRegisters reload_demo (ra_init reload_ivs) = Inr t"
    and ranges: "in_place t (Some 0) (reg 0) \<lparr>lr_b = 2, lr_e = 9, lr_loc = Some (reg 0)\<rparr>"
      "in_place t (Some 4) (reg 0) \<lparr>lr_b = 10, lr_e = 16, lr_loc = Some (reg 0)\<rparr>"
    using reload_run by (auto simp: in_place_def)
  from live_values_do_not_share_a_place [OF t reload_input _ ranges, of 8] t ranges show ?thesis by simp
qed

definition phi_state :: ra_state where
  "phi_state = ra_init [Some 0 \<mapsto> \<lparr>iv_ranges = [\<lparr>lr_b = 2, lr_e = 20, lr_loc = Some (reg 0)\<rparr>], iv_usepoints = []\<rparr>]"

theorem phi_input_is_moved_witness:
  "\<exists>t. ProcessPhiInput (Some 0) 2 (reg 3) reload_demo phi_state = Inr t \<and> loc_at (iv_of t (Some 0)) 17 = Some (reg 3)"
proof -
  have idx: "GetBlockLinearIDX 2 reload_demo = Inr 0" "GetBlockEndLN 0 reload_demo = Inr 18"
    by (simp_all add: GetBlockLinearIDX_def GetBlockEndLN_def reload_demo_def index_of_def)
  have "\<exists>t. ProcessPhiInput (Some 0) 2 (reg 3) reload_demo phi_state = Inr t"
    by (simp add: ProcessPhiInput_def idx ra_defs phi_state_def ra_init_def)
  moreover have "ivs_ok phi_state" by (simp add: ivs_ok_def phi_state_def ra_init_def)
  ultimately show ?thesis using phi_input_is_moved [OF _ _ idx, of "Some 0" "reg 3" phi_state] by auto
qed

definition four_phis :: ra_state where
  "four_phis = \<lparr>ra_ivs = (\<lambda>p. case p of None \<Rightarrow> None | Some i \<Rightarrow>
       Some \<lparr>iv_ranges = [\<lparr>lr_b = 2, lr_e = 8, lr_loc = if i < 4 then Some (reg i) else None\<rparr>], iv_usepoints = [8]\<rparr>),
     ra_active = [Some 0, Some 1, Some 2, Some 3], busy_regs = replicate 4 True, busy_slots = replicate SLOTS_COUNT False, slots_used = 0\<rparr>"

theorem fifth_phi_fails_witness: "place_result (Some 4) four_phis = Inl AssertFailed"
proof (rule fifth_phi_fails)
  have "{r. r < 4 \<and> replicate 4 True ! r} = {0, 1, 2, 3 :: nat}" by (auto simp: less_Suc_eq eval_nat_numeral)
  then show "regs_ok four_phis"
    by (simp add: regs_ok_def four_phis_def REGS_COUNT_def reg_of_def iv_of_def)
  show "(2 :: u32) \<noteq> 0" by simp
qed (simp_all add: four_phis_def iv_of_def Startpoint_def REGS_COUNT_def)

end
