(* ===== verification/Jit_Merge.thy ===== *)
theory Jit_Merge
  imports Jit_Liveness
begin

text \<open>
  The merging of ranges and loop ranges into an interval (\<open>FillIntervals\<close> of
  analyses/liveness.h): the interval covers the ranges and nothing outside ranges and loops, the
  loop that computes it ends, and without loops it never fails an assertion.
\<close>

subsection \<open>Signed and unsigned bounds\<close>

lemma unat_zx [simp]: "unat (zx a) = unat a"
proof -
  have "unat a < 2 ^ 64" using unsigned_less [of a, where 'a = nat] by simp
  then show ?thesis by (simp add: zx_def unsigned_ucast_eq take_bit_nat_eq_self)
qed

lemma zx_le [simp]: "zx a \<le> zx b \<longleftrightarrow> a \<le> b"
  by (simp add: word_le_nat_alt)

lemma zx_less [simp]: "zx a < zx b \<longleftrightarrow> a < b"
  by (simp add: word_less_nat_alt)

text \<open>A life number that fits the \<open>int\<close> of the code.\<close>

definition small :: "u32 \<Rightarrow> bool" where
  "small w \<longleftrightarrow> unat w < 2 ^ 31"

lemma sx_small:
  assumes "small a"
  shows "sx a = zx a"
proof -
  have "int (unat a) < int (2 ^ 31)" using assms unfolding small_def of_nat_less_iff .
  then have u: "uint a < 2 ^ 31" by simp
  have "sint a = signed_take_bit 31 (uint a)" by (simp add: sint_uint)
  also have "\<dots> = uint a"
  proof (rule signed_take_bit_int_eq_self)
    show "- (2 ^ 31) \<le> uint a" by (rule order_trans [of _ 0]) simp_all
  qed (rule u)
  finally have "sint a = uint a" .
  then show ?thesis unfolding sx_def zx_def scast_eq ucast_eq by simp
qed

subsection \<open>The parts of the loop\<close>

definition inside :: "live_range \<Rightarrow> u32 \<Rightarrow> bool" where
  "inside r q \<longleftrightarrow> lr_b r \<le> q \<and> q < lr_e r"

definition among :: "live_range list \<Rightarrow> u32 \<Rightarrow> bool" where
  "among rs q \<longleftrightarrow> (\<exists>r \<in> set rs. inside r q)"

lemma among_simps [simp]:
  "\<not> among [] q" "among (r # rs) q \<longleftrightarrow> inside r q \<or> among rs q" "among (rs @ ss) q \<longleftrightarrow> among rs q \<or> among ss q"
  by (auto simp: among_def)

lemma covers_among: "covers v q \<longleftrightarrow> among (iv_ranges v) q"
  by (simp add: covers_def among_def inside_def)

text \<open>What holds of the interval so far and the ranges that are left.\<close>

definition pending :: "live_interval \<Rightarrow> live_range list \<Rightarrow> bool" where
  "pending v rs \<longleftrightarrow> iv_ranges v \<noteq> [] \<and> separated (iv_ranges v) \<and> valid_ranges rs \<and> (\<forall>r \<in> set rs. Endpoint v \<le> lr_b r)"

lemma pending_last: "pending v rs \<Longrightarrow> lr_b (IntervalsBack v) < Endpoint v"
  by (simp add: pending_def separated_def valid_ranges_def IntervalsBack_def Endpoint_def)

lemma separated_snoc:
  "separated (rs @ [r]) \<longleftrightarrow> separated rs \<and> lr_b r < lr_e r \<and> (\<forall>s \<in> set rs. lr_e s < lr_b r)"
  by (auto simp: separated_def sorted_wrt_append intro: less_imp_le)

lemma split_last: "iv_ranges v \<noteq> [] \<Longrightarrow> iv_ranges v = butlast (iv_ranges v) @ [IntervalsBack v]"
  by (simp add: IntervalsBack_def)

definition stretched :: "u32 \<Rightarrow> live_interval \<Rightarrow> live_interval" where
  "stretched e v = v\<lparr>iv_ranges := butlast (iv_ranges v) @ [(IntervalsBack v)\<lparr>lr_e := e\<rparr>]\<rparr>"

lemma ExtendActive_run: "ExtendActive e v = guard (Endpoint v \<le> e) AssertFailed (Inr (stretched e v))"
  by (simp add: ExtendActive_def Prolong_def Endpoint_def stretched_def guard_def)

lemma stretched_simps [simp]: "Endpoint (stretched e v) = e" "iv_ranges (stretched e v) \<noteq> []"
  "lr_b (IntervalsBack (stretched e v)) = lr_b (IntervalsBack v)"
  by (simp_all add: stretched_def Endpoint_def IntervalsBack_def)

lemma stretched_separated:
  assumes "iv_ranges v \<noteq> []" "separated (iv_ranges v)" "Endpoint v \<le> e"
  shows "separated (iv_ranges (stretched e v))"
proof -
  have s: "separated (butlast (iv_ranges v) @ [IntervalsBack v])" using assms(2) unfolding split_last [OF assms(1), symmetric] .
  then have "lr_b (IntervalsBack v) < e" using assms(3) unfolding separated_snoc by (auto simp: Endpoint_def)
  then show ?thesis using s unfolding separated_snoc stretched_def by (simp add: separated_snoc)
qed

lemma stretched_covers:
  assumes "iv_ranges v \<noteq> []" "lr_b (IntervalsBack v) < Endpoint v" "Endpoint v \<le> e"
  shows "covers (stretched e v) q \<longleftrightarrow> covers v q \<or> (Endpoint v \<le> q \<and> q < e)"
proof -
  have "covers v q \<longleftrightarrow> among (butlast (iv_ranges v) @ [IntervalsBack v]) q"
    unfolding covers_among split_last [OF assms(1), symmetric] ..
  moreover have "lr_b (IntervalsBack v) \<le> q \<and> q < e \<longleftrightarrow>
      (lr_b (IntervalsBack v) \<le> q \<and> q < Endpoint v) \<or> (Endpoint v \<le> q \<and> q < e)"
    using assms(2,3) by (meson le_less_trans less_imp_le less_le_trans not_le order_trans)
  ultimately show ?thesis by (auto simp: covers_among stretched_def inside_def Endpoint_def)
qed

lemma stretched_inside:
  "iv_ranges v \<noteq> [] \<Longrightarrow> lr_b (IntervalsBack v) \<le> q \<Longrightarrow> q < Endpoint v \<Longrightarrow> covers v q"
  using split_last [of v] by (auto simp: covers_def Endpoint_def IntervalsBack_def intro!: bexI [of _ "last (iv_ranges v)"])

lemma merge_ranges_run:
  assumes "pending v rs"
  shows "\<exists>w ss. merge_ranges v rs = Inr (w, ss) \<and> pending w ss \<and> length ss \<le> length rs \<and> Endpoint v \<le> Endpoint w \<and>
    (ss \<noteq> [] \<longrightarrow> Endpoint w < lr_b (hd ss)) \<and> set ss \<subseteq> set rs \<and> (\<forall>q. covers w q \<or> among ss q \<longleftrightarrow> covers v q \<or> among rs q)"
  using assms
proof (induction rs arbitrary: v)
  case (Cons r rs)
  have p: "iv_ranges v \<noteq> []" "separated (iv_ranges v)" "Endpoint v \<le> lr_b r" "lr_b r < lr_e r" "valid_ranges rs"
    "\<forall>s \<in> set rs. lr_e r \<le> lr_b s" using Cons.prems by (auto simp: pending_def)
  show ?case
  proof (cases "Endpoint v = lr_b r")
    case True
    then have le: "Endpoint v \<le> lr_e r" using p(4) by simp
    let ?v = "stretched (lr_e r) v"
    have "pending ?v rs" using p stretched_separated [OF p(1,2) le] by (simp add: pending_def)
    from Cons.IH [OF this] obtain w ss where w: "merge_ranges ?v rs = Inr (w, ss)" "pending w ss" "length ss \<le> length rs"
      "lr_e r \<le> Endpoint w" "ss \<noteq> [] \<longrightarrow> Endpoint w < lr_b (hd ss)" "set ss \<subseteq> set rs"
      "\<forall>q. covers w q \<or> among ss q \<longleftrightarrow> covers ?v q \<or> among rs q" by auto
    have "covers ?v q \<longleftrightarrow> covers v q \<or> inside r q" for q
      using stretched_covers [OF p(1) pending_last [OF Cons.prems] le, of q] True by (simp add: inside_def)
    then show ?thesis using w True le by (intro exI [of _ w] exI [of _ ss]) (auto simp: ExtendActive_run)
  next
    case False
    then have "Endpoint v < lr_b r" using p(3) by simp
    then show ?thesis using False Cons.prems by auto
  qed
qed simp

lemma absorb_loop_run:
  assumes p: "pending v rs" and le: "Endpoint v < le" "small le" and lb: "lr_b (IntervalsBack v) \<le> lb" "lb \<le> Endpoint v"
  shows "\<exists>w ss. absorb_loop lb le v rs = Inr (w, ss) \<and> pending w ss \<and> length ss \<le> length rs \<and> le \<le> Endpoint w \<and>
    lr_b (IntervalsBack w) = lr_b (IntervalsBack v) \<and> set ss \<subseteq> set rs \<and>
    (\<forall>q. covers w q \<or> among ss q \<longleftrightarrow> covers v q \<or> among rs q \<or> (lb \<le> q \<and> q < le))"
proof -
  have v: "iv_ranges v \<noteq> []" "separated (iv_ranges v)" and rs: "valid_ranges rs" "\<forall>r \<in> set rs. Endpoint v \<le> lr_b r"
    using p by (auto simp: pending_def)
  have lle: "Endpoint v \<le> le" using le(1) by simp
  let ?w = "stretched le v" and ?P = "\<lambda>r. lr_e r < le"
  have bk: "lr_b (IntervalsBack v) < Endpoint v" by (rule pending_last [OF p])
  have w: "separated (iv_ranges ?w)" by (rule stretched_separated [OF v lle])
  have in_v: "covers v q" if "lb \<le> q" "q < Endpoint v" for q
    using stretched_inside [OF v(1) _ that(2)] lb(1) that(1) by (meson order_trans)
  have cw: "covers ?w q \<longleftrightarrow> covers v q \<or> (lb \<le> q \<and> q < le)" for q
    using stretched_covers [OF v(1) bk lle, of q] in_v lb(2) by (meson order_trans not_le)
  have skip: "covers ?w q" if "among (takeWhile ?P rs) q" for q
  proof -
    from that obtain r where r: "r \<in> set (takeWhile ?P rs)" "lr_b r \<le> q" "q < lr_e r" by (auto simp: among_def inside_def)
    then have "Endpoint v \<le> lr_b r" "lr_e r < le" using rs(2) by (auto dest: set_takeWhileD)
    then show ?thesis using r stretched_covers [OF v(1) bk lle, of q] by (meson less_trans order_trans)
  qed
  have am: "among rs q \<longleftrightarrow> among (takeWhile ?P rs) q \<or> among (dropWhile ?P rs) q" for q
    by (metis among_simps(3) takeWhile_dropWhile_id)
  have len: "length (dropWhile ?P rs) \<le> length rs" by (rule length_dropWhile_le)
  have sub: "set (dropWhile ?P rs) \<subseteq> set rs" by (auto dest: set_dropWhileD)
  have val: "valid_ranges (dropWhile ?P rs)"
    using rs(1) valid_ranges_append [of "takeWhile ?P rs" "dropWhile ?P rs"] by simp
  have run: "absorb_loop lb le v rs = (case dropWhile ?P rs of [] \<Rightarrow> Inr (?w, [])
      | r # rest \<Rightarrow> if lr_b r \<le> le then rbind (ExtendActive (lr_e r) ?w) (\<lambda>x. Inr (x, rest)) else Inr (?w, r # rest))"
    using lle by (cases "dropWhile ?P rs")
      (simp_all add: absorb_loop_def ExtendActive_run sx_small [OF le(2)] del: dropWhile_eq_Nil_conv)
  show ?thesis
  proof (cases "dropWhile ?P rs")
    case Nil
    have "pending ?w []" using w by (simp add: pending_def)
    then show ?thesis using Nil cw skip am by (intro exI [of _ ?w] exI [of _ "[]"]) (auto simp: run simp del: dropWhile_eq_Nil_conv)
  next
    case (Cons r rest)
    have r: "le \<le> lr_e r" using Cons by (metis dropWhile_eq_Cons_conv not_le)
    have vr: "lr_b r < lr_e r" "valid_ranges rest" "\<forall>s \<in> set rest. lr_e r \<le> lr_b s" using val Cons by auto
    show ?thesis
    proof (cases "lr_b r \<le> le")
      case True
      let ?x = "stretched (lr_e r) ?w"
      have r2: "Endpoint ?w \<le> lr_e r" using r by simp
      have "pending ?x rest"
        using vr stretched_separated [OF _ w r2] by (simp add: pending_def)
      moreover have "covers ?x q \<longleftrightarrow> covers ?w q \<or> inside r q" for q
      proof -
        have "Endpoint v \<le> lr_b r" using rs(2) sub Cons by auto
        then have "covers ?w q" if "lr_b r \<le> q" "q < le" for q
          using that stretched_covers [OF v(1) bk lle, of q] by (meson order_trans)
        moreover have "lr_b (IntervalsBack ?w) < Endpoint ?w" using bk le(1) by (simp add: less_trans)
        ultimately show ?thesis
          using stretched_covers [OF _ _ r2, of q] True by (auto simp: inside_def)
      qed
      ultimately show ?thesis using True Cons cw skip am len sub r
        by (intro exI [of _ ?x] exI [of _ rest]) (auto simp: run ExtendActive_run)
    next
      case False
      have "pending ?w (r # rest)"
        using False w val Cons vr by (auto simp: pending_def intro: less_imp_le less_le_trans)
      then show ?thesis using False Cons cw skip am len sub
        by (intro exI [of _ ?w] exI [of _ "r # rest"]) (auto simp: run)
    qed
  qed
qed

subsection \<open>The whole loop\<close>

text \<open>The loop ranges that are left: valid, within \<open>int\<close>, by their begin.\<close>

definition loops_ok :: "live_range list \<Rightarrow> bool" where
  "loops_ok ls \<longleftrightarrow> (\<forall>l \<in> set ls. lr_b l < lr_e l \<and> small (lr_e l)) \<and> sorted_wrt (\<lambda>l k. lr_b l \<le> lr_b k) ls"

lemma small_less: "small a \<Longrightarrow> b < a \<Longrightarrow> small b"
  by (simp add: small_def word_less_nat_alt)

lemma loops_ok_Cons: "loops_ok (l # ls) \<Longrightarrow> loops_ok ls \<and> lr_b l < lr_e l \<and> sx (lr_b l) = zx (lr_b l) \<and> sx (lr_e l) = zx (lr_e l)"
  using sx_small small_less by (auto simp: loops_ok_def)

lemma skip_loops_run:
  assumes "skip_loops lb le ls = Inr ms" and "loops_ok ls" and "sx lb = zx lb" "sx le = zx le"
  shows "loops_ok ms \<and> length ms \<le> length ls \<and> set ms \<subseteq> set ls \<and>
    (\<forall>l \<in> set ls. l \<in> set ms \<or> (lb \<le> lr_b l \<and> lr_e l < le)) \<and> (\<forall>l ks. ls = l # ks \<and> \<not> lr_e l < le \<longrightarrow> ms = ls)"
  using assms(1,2)
proof (induction ls)
  case (Cons l ls)
  show ?case
  proof (cases "lr_e l < le")
    case True
    then have "skip_loops lb le ls = Inr ms" "lb \<le> lr_b l" using Cons.prems(1) assms(3,4) by (auto simp: res_simps)
    then show ?thesis using Cons.IH loops_ok_Cons [OF Cons.prems(2)] True by auto
  next
    case False
    then show ?thesis using Cons.prems assms(4) by auto
  qed
qed simp

definition answer :: "live_interval \<Rightarrow> live_range list \<Rightarrow> live_range list \<Rightarrow> live_interval \<Rightarrow> bool" where
  "answer v rs ls w \<longleftrightarrow> separated (iv_ranges w) \<and> iv_ranges w \<noteq> [] \<and>
     (\<forall>q. covers v q \<or> among rs q \<longrightarrow> covers w q) \<and>
     (\<forall>q. covers w q \<longrightarrow> covers v q \<or> among rs q \<or> among ls q) \<and>
     (\<forall>l \<in> set ls. lr_b l < Endpoint w \<longrightarrow> (\<forall>q. inside l q \<longrightarrow> covers w q))"

lemma append_pending:
  assumes "pending u (r # rest)" and "Endpoint u < lr_b r"
  shows "pending (AppendAfterHole r u) rest"
proof -
  have r: "lr_b r < lr_e r" "valid_ranges rest" "\<forall>s \<in> set rest. lr_e r \<le> lr_b s"
    and ne: "iv_ranges u \<noteq> []" "separated (iv_ranges u)" using assms(1) by (auto simp: pending_def)
  then have "separated (butlast (iv_ranges u) @ [IntervalsBack u])" using split_last by metis
  then have "\<forall>s \<in> set (butlast (iv_ranges u) @ [IntervalsBack u]). lr_e s \<le> Endpoint u"
    unfolding separated_snoc Endpoint_def by (auto intro: less_imp_le less_trans)
  then have "\<forall>s \<in> set (iv_ranges u). lr_e s < lr_b r" using assms(2) split_last [OF ne(1)] by (metis le_less_trans)
  then have "separated (iv_ranges u @ [r])" unfolding separated_snoc using r(1) ne(2) by blast
  then show ?thesis using r by (simp add: pending_def AppendAfterHole_def Endpoint_def IntervalsBack_def)
qed

text \<open>One round outside case 1, once the adjacent ranges are merged.\<close>

lemma fill_after_merge:
  assumes "\<not> (ls \<noteq> [] \<and> sx (lr_b (hd ls)) \<le> zx (Endpoint v))" and "merge_ranges v rs = Inr (u, ss)"
  shows "fill_interval (Suc n) v rs ls =
    (if ls \<noteq> [] \<and> sx (lr_b (hd ls)) < zx (Endpoint u) then fill_interval n u ss ls
     else case ss of [] \<Rightarrow> Inr u
       | r # rest \<Rightarrow> guard (Endpoint u < lr_b r) AssertFailed
           (guard (ls = [] \<or> zx (lr_b r) < sx (lr_b (hd ls))) AssertFailed (fill_interval n (AppendAfterHole r u) rest ls)))"
  unfolding fill_interval.simps(2) if_not_P [OF assms(1)] assms(2) rbind.simps prod.case ..

lemma fill_interval_answer:
  "fill_interval n v rs ls = Inr w \<Longrightarrow> pending v rs \<Longrightarrow> loops_ok ls \<Longrightarrow> answer v rs ls w"
proof (induction n arbitrary: v rs ls)
  case (Suc n)
  note v = Suc.prems(2) [unfolded pending_def]
  note bk = pending_last [OF Suc.prems(2)]
  show ?case
  proof (cases "ls \<noteq> [] \<and> sx (lr_b (hd ls)) \<le> zx (Endpoint v)")
    case True
    then obtain l ks where ls: "ls = l # ks" by (cases ls) auto
    note l = loops_ok_Cons [OF Suc.prems(3) [unfolded ls]]
    have lb: "lr_b l \<le> Endpoint v" "lr_b (IntervalsBack v) < lr_b l"
      using True l Suc.prems(1) by (auto simp: ls res_simps Let_def)
    show ?thesis
    proof (cases "lr_e l \<le> Endpoint v")
      case covered: True
      then have "fill_interval n v rs ks = Inr w" using True l Suc.prems(1) by (simp add: ls res_simps Let_def)
      then have a: "answer v rs ks w" using Suc.IH Suc.prems(2) l by blast
      have "covers v q" if "inside l q" for q
        using stretched_inside [of v q] v that lb(2) covered
        by (meson inside_def le_less_trans less_imp_le less_le_trans)
      then show ?thesis using a by (auto simp: answer_def ls)
    next
      case False
      then have beyond: "Endpoint v < lr_e l" by simp
      obtain u ss ms where run: "absorb_loop (lr_b l) (lr_e l) v rs = Inr (u, ss)"
        "skip_loops (lr_b l) (lr_e l) ls = Inr ms" "fill_interval n u ss ms = Inr w"
        using True l Suc.prems(1) False by (auto simp: ls res_simps Let_def)
      have sm: "small (lr_e l)" using Suc.prems(3) by (simp add: loops_ok_def ls)
      have u: "pending u ss" "lr_e l \<le> Endpoint u" "lr_b (IntervalsBack u) = lr_b (IntervalsBack v)"
        "\<forall>q. covers u q \<or> among ss q \<longleftrightarrow> covers v q \<or> among rs q \<or> (lr_b l \<le> q \<and> q < lr_e l)"
        using absorb_loop_run [OF Suc.prems(2) beyond sm less_imp_le [OF lb(2)] lb(1)] run(1) by auto
      have ms: "loops_ok ms" "set ms \<subseteq> set ls"
        "\<forall>k \<in> set ls. k \<in> set ms \<or> (lr_b l \<le> lr_b k \<and> lr_e k < lr_e l)"
        using skip_loops_run [OF run(2) Suc.prems(3)] l by auto
      have a: "answer u ss ms w" by (rule Suc.IH [OF run(3) u(1) ms(1)])
      have in_u: "covers u q" if "lr_b l \<le> q" "q < lr_e l" for q
      proof -
        have "iv_ranges u \<noteq> []" using u(1) by (simp add: pending_def)
        moreover have "lr_b (IntervalsBack u) \<le> q" using lb(2) that(1) unfolding u(3) by (meson less_imp_le order_trans)
        moreover have "q < Endpoint u" using u(2) that(2) by (rule less_le_trans [rotated])
        ultimately show ?thesis by (rule stretched_inside)
      qed
      have loops: "covers w q" if "k \<in> set ls" "lr_b k < Endpoint w" "inside k q" for k q
      proof (cases "k \<in> set ms")
        case False
        then have "lr_b l \<le> lr_b k" "lr_e k < lr_e l" using ms(3) that(1) by auto
        then have "lr_b l \<le> q" "q < lr_e l" using that(3) by (auto simp: inside_def intro: order_trans less_trans)
        then show ?thesis using in_u a by (simp add: answer_def)
      qed (use a that in \<open>auto simp: answer_def\<close>)
      have "among ls q" if "among ms q \<or> (lr_b l \<le> q \<and> q < lr_e l)" for q
        using that ms(2) by (auto simp: among_def ls inside_def)
      moreover have "covers u q \<or> among ss q \<or> among ms q" if "covers w q" for q using a that by (auto simp: answer_def)
      ultimately have "covers v q \<or> among rs q \<or> among ls q" if "covers w q" for q using u(4) that by blast
      then show ?thesis using a u(4) loops unfolding answer_def by blast
    qed
  next
    case False
    obtain u ss where u: "merge_ranges v rs = Inr (u, ss)" "pending u ss"
      "\<forall>q. covers u q \<or> among ss q \<longleftrightarrow> covers v q \<or> among rs q" using merge_ranges_run [OF Suc.prems(2)] by blast
    note start = Suc.prems(1) [unfolded fill_after_merge [OF False u(1)]]
    have trans: "answer v rs ls w" if "answer u ss ls w" using that u(3) by (auto simp: answer_def)
    show ?thesis
    proof (cases "ls \<noteq> [] \<and> sx (lr_b (hd ls)) < zx (Endpoint u)")
      case True
      then show ?thesis using start u(2) Suc.IH Suc.prems(3) trans by simp
    next
      case stop: False
      show ?thesis
      proof (cases ss)
        case Nil
        then have w: "w = u" using start [unfolded if_not_P [OF stop]] by simp
        have "\<not> lr_b l < Endpoint u" if l_in: "l \<in> set ls" for l
        proof -
          obtain k ks where ls: "ls = k # ks" using l_in by (cases ls) auto
          have "Endpoint u \<le> lr_b k" using stop loops_ok_Cons [OF Suc.prems(3) [unfolded ls]] by (simp add: ls)
          moreover have "lr_b k \<le> lr_b l" using Suc.prems(3) l_in by (auto simp: loops_ok_def ls)
          ultimately show ?thesis by (meson not_le order_trans)
        qed
        then have "answer u ss ls u" using u(2) Nil by (auto simp: answer_def pending_def)
        then show ?thesis using trans w by simp
      next
        case (Cons r rest)
        then have r: "Endpoint u < lr_b r" and run: "fill_interval n (AppendAfterHole r u) rest ls = Inr w"
          using start [unfolded if_not_P [OF stop]] by (auto simp: res_simps)
        have p: "pending (AppendAfterHole r u) rest" by (rule append_pending) (use u(2) Cons r in simp_all)
        have "covers (AppendAfterHole r u) q \<longleftrightarrow> covers u q \<or> inside r q" for q
          by (auto simp: covers_among AppendAfterHole_def)
        then have "answer u ss ls w" using Suc.IH [OF run p Suc.prems(3)] Cons by (auto simp: answer_def)
        then show ?thesis by (rule trans)
      qed
    qed
  qed
qed simp

subsection \<open>The loop ends\<close>

definition rank :: "live_interval \<Rightarrow> live_range list \<Rightarrow> nat" where
  "rank v ls = (if ls \<noteq> [] \<and> sx (lr_b (hd ls)) \<le> zx (Endpoint v)
     then if sx (lr_e (hd ls)) \<le> zx (Endpoint v) then 1 else 2 else 3)"

lemma rank_bounds: "1 \<le> rank v ls" "rank v ls \<le> 3"
  by (auto simp: rank_def)

lemma fill_interval_ends:
  "pending v rs \<Longrightarrow> loops_ok ls \<Longrightarrow> 4 * (length rs + length ls) + rank v ls \<le> n \<Longrightarrow> fill_interval n v rs ls \<noteq> Inl OutOfFuel"
proof (induction n arbitrary: v rs ls)
  case (Suc n)
  note bk = pending_last [OF Suc.prems(1)]
  show ?case
  proof (cases "ls \<noteq> [] \<and> sx (lr_b (hd ls)) \<le> zx (Endpoint v)")
    case True
    then obtain l ks where ls: "ls = l # ks" by (cases ls) auto
    note l = loops_ok_Cons [OF Suc.prems(2) [unfolded ls]]
    have lb: "lr_b l \<le> Endpoint v" using True l by (simp add: ls)
    show ?thesis
    proof (cases "lr_e l \<le> Endpoint v")
      case covered: True
      have "4 * (length rs + length ks) + rank v ks \<le> n" using Suc.prems(3) rank_bounds [of v ks] by (simp add: ls)
      then have "fill_interval n v rs ks \<noteq> Inl OutOfFuel" using Suc.IH Suc.prems(1) l by blast
      then show ?thesis using True covered l by (auto simp: ls Let_def guard_def)
    next
      case False
      then have beyond: "Endpoint v < lr_e l" by simp
      have r2: "rank v ls = 2" using True False l by (auto simp: rank_def ls)
      have sm: "small (lr_e l)" using Suc.prems(2) by (simp add: loops_ok_def ls)
      show ?thesis
      proof (cases "lr_b (IntervalsBack v) < lr_b l \<and> (\<exists>ms. skip_loops (lr_b l) (lr_e l) ls = Inr ms)")
        case ok: True
        then obtain ms where ms: "skip_loops (lr_b l) (lr_e l) ls = Inr ms" by blast
        obtain u ss where u: "absorb_loop (lr_b l) (lr_e l) v rs = Inr (u, ss)" "pending u ss" "length ss \<le> length rs"
          "lr_e l \<le> Endpoint u" using absorb_loop_run [OF Suc.prems(1) beyond sm _ lb] ok less_imp_le by blast
        have m: "loops_ok ms" "ms = ls" using skip_loops_run [OF ms Suc.prems(2)] l ls by auto
        have "zx (lr_b l) \<le> zx (Endpoint u)" using u(4) l by (meson less_imp_le order_trans zx_le)
        then have "rank u ms = 1" using u(4) l by (simp add: rank_def ls m(2))
        then have "4 * (length ss + length ms) + rank u ms \<le> n" using Suc.prems(3) r2 u(3) by (simp add: m(2))
        then have "fill_interval n u ss ms \<noteq> Inl OutOfFuel" using Suc.IH u(2) m(1) by blast
        then show ?thesis using True False l u(1) ms by (auto simp: ls Let_def guard_def)
      next
        case bad: False
        have er: "skip_loops (lr_b l) (lr_e l) xs = Inl e \<Longrightarrow> e = AssertFailed" for xs e
          by (induction xs) (auto simp: guard_def split: if_splits)
        show ?thesis
        proof (cases "lr_b (IntervalsBack v) < lr_b l")
          case inside: True
          then obtain u ss where u: "absorb_loop (lr_b l) (lr_e l) v rs = Inr (u, ss)"
            using absorb_loop_run [OF Suc.prems(1) beyond sm _ lb] less_imp_le by blast
          obtain e where "skip_loops (lr_b l) (lr_e l) ls = Inl e"
            using bad inside by (cases "skip_loops (lr_b l) (lr_e l) ls") auto
          then show ?thesis using True False l u er by (auto simp: ls Let_def guard_def simp del: skip_loops.simps)
        qed (use True l in \<open>auto simp: ls Let_def guard_def\<close>)
      qed
    qed
  next
    case False
    obtain u ss where u: "merge_ranges v rs = Inr (u, ss)" "pending u ss" "length ss \<le> length rs"
      "ss \<noteq> [] \<longrightarrow> Endpoint u < lr_b (hd ss)" using merge_ranges_run [OF Suc.prems(1)] by blast
    have r3: "rank v ls = 3" using False by (simp add: rank_def)
    show ?thesis
    proof (cases "ls \<noteq> [] \<and> sx (lr_b (hd ls)) < zx (Endpoint u)")
      case True
      then have "rank u ls \<le> 2" by (auto simp: rank_def)
      then have "4 * (length ss + length ls) + rank u ls \<le> n" using Suc.prems(3) r3 u(3) by simp
      then have "fill_interval n u ss ls \<noteq> Inl OutOfFuel" using Suc.IH u(2) Suc.prems(2) by blast
      then show ?thesis unfolding fill_after_merge [OF False u(1)] if_P [OF True] .
    next
      case stop: False
      show ?thesis
      proof (cases ss)
        case (Cons r rest)
        have "4 * (length rest + length ls) + rank (AppendAfterHole r u) ls \<le> n"
          using Suc.prems(3) r3 u(3) rank_bounds [of "AppendAfterHole r u" ls] by (simp add: Cons)
        then have "Endpoint u < lr_b r \<Longrightarrow> fill_interval n (AppendAfterHole r u) rest ls \<noteq> Inl OutOfFuel"
          using Suc.IH append_pending u(2) Cons Suc.prems(2) by blast
        then show ?thesis
          unfolding fill_after_merge [OF False u(1)] if_not_P [OF stop] Cons by (auto simp: guard_def)
      next
        case Nil
        then show ?thesis unfolding fill_after_merge [OF False u(1)] if_not_P [OF stop] by simp
      qed
    qed
  qed
next
  case 0
  then show ?case using rank_bounds(1) [of v ls] by simp
qed

subsection \<open>Intervals of instructions\<close>

lemma check_order_valid:
  "check_order (r # rs) = Inr () \<Longrightarrow> \<forall>s \<in> set (r # rs). lr_b s < lr_e s \<Longrightarrow> valid_ranges (r # rs)"
proof (induction rs arbitrary: r)
  case (Cons s rs)
  have c: "lr_e r \<le> lr_b s" "check_order (s # rs) = Inr ()" using Cons.prems(1) by (auto simp: res_simps)
  have v: "valid_ranges (s # rs)" using Cons.IH c(2) Cons.prems(2) by simp
  have "lr_e r \<le> lr_b t" if "t \<in> set (s # rs)" for t
    using that v c(1) by (auto intro: order_trans less_imp_le dest: order_trans)
  then show ?case using v Cons.prems(2) by simp
qed simp

lemma check_loop_order_sorted:
  "check_loop_order ls = Inr () \<Longrightarrow> \<forall>l \<in> set ls. lr_b l < lr_e l \<Longrightarrow> sorted_wrt (\<lambda>l k. lr_b l \<le> lr_b k) ls"
proof (induction ls)
  case (Cons l ls)
  show ?case
  proof (cases ls)
    case inner: (Cons k ks)
    have c: "lr_e l \<le> lr_b k \<or> lr_b l \<le> lr_b k" "check_loop_order ls = Inr ()" using Cons.prems(1) inner by (auto simp: res_simps)
    have "lr_b l < lr_e l" using Cons.prems(2) by simp
    then have lk: "lr_b l \<le> lr_b k" using c(1) by (meson less_imp_le order_trans)
    have s: "sorted_wrt (\<lambda>l k. lr_b l \<le> lr_b k) ls" using Cons.IH c(2) Cons.prems(2) by simp
    then have "\<forall>x \<in> set ls. lr_b l \<le> lr_b x" using lk inner by (auto intro: order_trans)
    then show ?thesis using s by simp
  qed simp
qed simp

text \<open>The bounds the constructors of the ranges guarantee, and that the life numbers fit \<open>int\<close>.\<close>

definition ranges_ok :: "live_ranges \<Rightarrow> bool" where
  "ranges_ok x \<longleftrightarrow> (\<forall>r \<in> set (lrs_ranges x) \<union> set (lrs_loop_ranges x). lr_b r < lr_e r \<and> small (lr_e r))"

lemma checked_ranges:
  assumes "CheckRanges x = Inr ()" and "ranges_ok x"
  obtains r rs where "rev (lrs_ranges x) = r # rs" "pending (LiveInterval r) rs" "loops_ok (rev (lrs_loop_ranges x))"
proof -
  have ne: "lrs_ranges x \<noteq> []" and c: "check_order (rev (lrs_ranges x)) = Inr ()" "check_loop_order (rev (lrs_loop_ranges x)) = Inr ()"
    using assms(1) by (auto simp: CheckRanges_def res_simps)
  obtain r rs where r: "rev (lrs_ranges x) = r # rs" using ne by (cases "rev (lrs_ranges x)") auto
  have "set (r # rs) = set (lrs_ranges x)" using r by (metis set_rev)
  then have "valid_ranges (r # rs)" using check_order_valid [of r rs] c(1) assms(2) unfolding r ranges_ok_def by blast
  then have p: "pending (LiveInterval r) rs"
    by (simp add: pending_def LiveInterval_def Endpoint_def IntervalsBack_def)
  have "loops_ok (rev (lrs_loop_ranges x))"
    using check_loop_order_sorted [OF c(2)] assms(2) unfolding loops_ok_def ranges_ok_def by auto
  then show thesis using that r p by blast
qed

lemma fill_one_parts:
  assumes "CheckRanges x = Inr ()" "rev (lrs_ranges x) = r # rs"
  shows "fill_one p g x = rbind (fill_interval (fill_fuel rs (rev (lrs_loop_ranges x))) (LiveInterval r) rs (rev (lrs_loop_ranges x)))
    (\<lambda>v. rbind (CheckIntervals v) (\<lambda>u. FillIntervalUsepoints p g v))"
  by (simp add: fill_one_def assms Let_def)

lemma usepoints_same:
  "FillIntervalUsepoints p g w = Inr v \<Longrightarrow> iv_ranges v = iv_ranges w"
  by (auto simp: FillIntervalUsepoints_def deref_def res_simps SetUsepoints_def)

lemma fill_one_answer:
  assumes "fill_one p g x = Inr v" and "ranges_ok x"
  obtains r rs w where "rev (lrs_ranges x) = r # rs" "answer (LiveInterval r) rs (rev (lrs_loop_ranges x)) w" "iv_ranges v = iv_ranges w"
proof -
  have c: "CheckRanges x = Inr ()" using assms(1) by (auto simp: fill_one_def res_simps)
  from checked_ranges [OF c assms(2)] obtain r rs where
    r: "rev (lrs_ranges x) = r # rs" "pending (LiveInterval r) rs" "loops_ok (rev (lrs_loop_ranges x))" by blast
  from assms(1) [unfolded fill_one_parts [OF c r(1)]] obtain w
    where w: "fill_interval (fill_fuel rs (rev (lrs_loop_ranges x))) (LiveInterval r) rs (rev (lrs_loop_ranges x)) = Inr w"
    "FillIntervalUsepoints p g w = Inr v" by (auto simp: res_simps)
  show thesis using that [OF r(1) fill_interval_answer [OF w(1) r(2,3)]] usepoints_same [OF w(2)] by blast
qed

lemma fill_one_covers:
  assumes "fill_one p g x = Inr v" and "ranges_ok x" and "among (lrs_ranges x) q"
  shows "covers v q"
proof -
  obtain r rs w where r: "rev (lrs_ranges x) = r # rs" and a: "answer (LiveInterval r) rs (rev (lrs_loop_ranges x)) w"
    and w: "iv_ranges v = iv_ranges w" by (rule fill_one_answer [OF assms(1,2)])
  have "set (r # rs) = set (lrs_ranges x)" using r by (metis set_rev)
  then have "covers (LiveInterval r) q \<or> among rs q" using assms(3) by (auto simp: among_def covers_among LiveInterval_def)
  then show ?thesis using a w by (auto simp: answer_def covers_def)
qed

text \<open>
  C26: The interval of an instruction covers every life number in one of its ranges, and nothing
  that is in none of its ranges and in none of the loops it is live around; it covers each of these
  loops that begins before its end.  Its ranges are in order, with a hole between any two.
\<close>

theorem interval_covers_ranges_and_loops:
  assumes "fill_one p g x = Inr v" and "ranges_ok x"
  shows "(\<forall>q. among (lrs_ranges x) q \<longrightarrow> covers v q) \<and>
    (\<forall>q. covers v q \<longrightarrow> among (lrs_ranges x) q \<or> among (lrs_loop_ranges x) q) \<and>
    (\<forall>l \<in> set (lrs_loop_ranges x). lr_b l < Endpoint v \<longrightarrow> (\<forall>q. inside l q \<longrightarrow> covers v q)) \<and>
    separated (iv_ranges v)"
proof -
  obtain r rs w where r: "rev (lrs_ranges x) = r # rs" and a: "answer (LiveInterval r) rs (rev (lrs_loop_ranges x)) w"
    and w: "iv_ranges v = iv_ranges w" by (rule fill_one_answer [OF assms])
  have v: "covers v q = covers w q" "Endpoint v = Endpoint w" for q
    using w by (simp_all add: covers_def Endpoint_def IntervalsBack_def)
  have "set (r # rs) = set (lrs_ranges x)" using r by (metis set_rev)
  then have "among (lrs_ranges x) q \<longleftrightarrow> covers (LiveInterval r) q \<or> among rs q" for q
    by (auto simp: among_def covers_among LiveInterval_def)
  moreover have "among (rev ls) q = among ls q" for ls q by (simp add: among_def)
  ultimately show ?thesis using a w unfolding answer_def v by auto
qed

text \<open>
  C35: The loop that merges ranges and loops ends: with the fuel of the model it never runs out.
\<close>

theorem merging_ends:
  assumes "ranges_ok x"
  shows "fill_one p g x \<noteq> Inl OutOfFuel"
proof (cases "CheckRanges x")
  case (Inr u)
  then have c: "CheckRanges x = Inr ()" by simp
  from checked_ranges [OF c assms] obtain r rs where
    r: "rev (lrs_ranges x) = r # rs" "pending (LiveInterval r) rs" "loops_ok (rev (lrs_loop_ranges x))" by blast
  let ?f = "fill_interval (fill_fuel rs (rev (lrs_loop_ranges x))) (LiveInterval r) rs (rev (lrs_loop_ranges x))"
  have "?f \<noteq> Inl OutOfFuel"
    by (rule fill_interval_ends [OF r(2,3)]) (use rank_bounds(2) [of "LiveInterval r" "rev (lrs_loop_ranges x)"] in \<open>simp add: fill_fuel_def\<close>)
  moreover have "CheckIntervals w \<noteq> Inl OutOfFuel" for w
  proof -
    have "check_pairs rs \<noteq> Inl OutOfFuel" for rs by (induction rs rule: check_pairs.induct) (auto simp: guard_def)
    then show ?thesis by (simp add: CheckIntervals_def guard_def)
  qed
  moreover have "FillIntervalUsepoints p g w \<noteq> Inl OutOfFuel" for w by (cases p) (simp_all add: FillIntervalUsepoints_def deref_def)
  ultimately show ?thesis unfolding fill_one_parts [OF c r(1)] by (auto simp: rbind_eq_Inl)
next
  case (Inl e)
  have "check_order rs \<noteq> Inl OutOfFuel" "check_loop_order rs \<noteq> Inl OutOfFuel" for rs
    by (induction rs rule: check_order.induct) (auto simp: guard_def)
  then have "e \<noteq> OutOfFuel" using Inl by (auto simp: CheckRanges_def rbind_eq_Inl guard_def split: if_splits)
  then show ?thesis using Inl by (simp add: fill_one_def)
qed

text \<open>
  For a value that is not live around a loop, merging its ranges cannot fail, and the interval
  covers exactly the ranges.
\<close>

theorem merging_without_loops:
  assumes "valid_ranges (rev (lrs_ranges x))" and "lrs_ranges x \<noteq> []" and "lrs_loop_ranges x = []"
  shows "\<exists>v. fill_one (Some i) g x = Inr v \<and> (\<forall>q. covers v q \<longleftrightarrow> among (lrs_ranges x) q)"
proof -
  have co: "valid_ranges rs \<Longrightarrow> check_order rs = Inr ()" for rs
    by (induction rs rule: check_order.induct) auto
  obtain r rs where r: "rev (lrs_ranges x) = r # rs" using assms(2) by (cases "rev (lrs_ranges x)") auto
  have c: "CheckRanges x = Inr ()" using co [OF assms(1)] assms(2,3) by (simp add: CheckRanges_def)
  have p: "pending (LiveInterval r) rs"
    using assms(1) unfolding r by (simp add: pending_def LiveInterval_def Endpoint_def IntervalsBack_def)
  have total: "\<exists>w. fill_interval n v rs [] = Inr w" if "pending v rs" "length rs < n" for n v rs
    using that
  proof (induction n arbitrary: v rs)
    case (Suc n)
    obtain u ss where u: "merge_ranges v rs = Inr (u, ss)" "pending u ss" "length ss \<le> length rs"
      "ss \<noteq> [] \<longrightarrow> Endpoint u < lr_b (hd ss)" using merge_ranges_run [OF Suc.prems(1)] by blast
    show ?case
    proof (cases ss)
      case (Cons s rest)
      then have hole: "Endpoint u < lr_b s" using u(4) by simp
      have "\<exists>w. fill_interval n (AppendAfterHole s u) rest [] = Inr w"
        by (rule Suc.IH) (use append_pending [OF _ hole] u Cons Suc.prems(2) in auto)
      then show ?thesis using u(1) Cons hole by simp
    qed (use u(1) in simp)
  qed simp
  obtain w where w: "fill_interval (fill_fuel rs []) (LiveInterval r) rs [] = Inr w"
    using total [OF p, of "fill_fuel rs []"] by (auto simp: fill_fuel_def)
  have a: "answer (LiveInterval r) rs [] w" by (rule fill_interval_answer [OF w p]) (simp add: loops_ok_def)
  have "CheckIntervals w = Inr ()" using a CheckIntervals_eq by (simp add: answer_def)
  then obtain v where v: "fill_one (Some i) g x = Inr v" "iv_ranges v = iv_ranges w"
    using fill_one_parts [OF c r] w assms(3) by (simp add: FillIntervalUsepoints_def deref_def SetUsepoints_def)
  have "set (r # rs) = set (lrs_ranges x)" using r by (metis set_rev)
  then have "among (lrs_ranges x) q \<longleftrightarrow> covers (LiveInterval r) q \<or> among rs q" for q
    by (auto simp: among_def covers_among LiveInterval_def)
  moreover have "covers v q = covers w q" for q using v(2) by (simp add: covers_def)
  ultimately show ?thesis using a v(1) by (auto simp: answer_def)
qed

text \<open>
  A value whose live range begins again exactly at the header of a loop it is live around, after
  a hole, stops the analysis: the assertion demands that the range begins before the loop.
\<close>

theorem hole_before_loop_fails:
  assumes "Endpoint v < lr_b r" and "lr_b r = lr_b l" and "small (lr_b l)"
  shows "fill_interval (Suc n) v (r # rs) (l # ls) = Inl AssertFailed"
proof -
  have "\<not> sx (lr_b l) \<le> zx (Endpoint v)" "\<not> sx (lr_b l) < zx (Endpoint v)" "\<not> zx (lr_b r) < sx (lr_b l)" "Endpoint v \<noteq> lr_b r"
    using assms by (auto simp: sx_small)
  then show ?thesis using assms(1) by simp
qed

subsection \<open>Examples\<close>

definition plain_range :: "u32 \<Rightarrow> u32 \<Rightarrow> live_range" where
  "plain_range b e = \<lparr>lr_b = b, lr_e = e, lr_loc = None\<rparr>"

text \<open>Three ranges, two of them adjacent, and a loop that reaches into the hole.\<close>

definition demo_ranges :: live_ranges where
  "demo_ranges = \<lparr>lrs_ranges = [plain_range 12 16, plain_range 6 8, plain_range 2 6], lrs_loop_ranges = [plain_range 4 10]\<rparr>"

lemma demo_ranges_ok: "ranges_ok demo_ranges"
  by (simp add: ranges_ok_def demo_ranges_def plain_range_def small_def)

lemmas merge_defs = fill_one_def CheckRanges_def LiveInterval_def plain_range_def Endpoint_def IntervalsBack_def
  Let_def absorb_loop_def ExtendActive_def Prolong_def AppendAfterHole_def CheckIntervals_def
  FillIntervalUsepoints_def deref_def SetUsepoints_def

theorem interval_covers_ranges_and_loops_witness:
  "\<exists>v. fill_one (Some 0) demo_cfg demo_ranges = Inr v \<and> covers v 9 \<and> \<not> covers v 11 \<and> separated (iv_ranges v)"
proof -
  have run: "\<exists>us. fill_one (Some 0) demo_cfg demo_ranges = Inr \<lparr>iv_ranges = [plain_range 2 10, plain_range 12 16], iv_usepoints = us\<rparr>"
  proof -
    have "sx 4 = zx 4" "sx 10 = zx 10" by (rule sx_small, simp add: small_def)+
    then have "fill_interval (Suc (Suc (Suc (Suc (Suc n))))) (LiveInterval (plain_range 2 6)) [plain_range 6 8, plain_range 12 16]
        [plain_range 4 10] = Inr \<lparr>iv_ranges = [plain_range 2 10, plain_range 12 16], iv_usepoints = []\<rparr>" for n
      by (simp add: merge_defs)
    from this [of 11] show ?thesis by (simp add: fill_one_def CheckRanges_def demo_ranges_def fill_fuel_def CheckIntervals_def
        FillIntervalUsepoints_def deref_def SetUsepoints_def) (simp add: plain_range_def)
  qed
  then obtain v where v: "fill_one (Some 0) demo_cfg demo_ranges = Inr v" "Endpoint v = 16"
    by (auto simp: Endpoint_def IntervalsBack_def plain_range_def)
  note c = interval_covers_ranges_and_loops [OF v(1) demo_ranges_ok]
  have "covers v 9" using c v(2) by (auto simp: demo_ranges_def inside_def plain_range_def)
  moreover have "\<not> covers v 11"
  proof
    assume "covers v 11"
    then have "among (lrs_ranges demo_ranges) 11 \<or> among (lrs_loop_ranges demo_ranges) 11" using c by blast
    then show False by (simp add: demo_ranges_def inside_def plain_range_def)
  qed
  ultimately show ?thesis using c v(1) by blast
qed

theorem merging_ends_witness: "fill_one (Some 0) demo_cfg demo_ranges \<noteq> Inl OutOfFuel"
  by (rule merging_ends [OF demo_ranges_ok])

theorem merging_without_loops_witness:
  "\<exists>v. fill_one (Some 0) demo_cfg (demo_ranges\<lparr>lrs_loop_ranges := []\<rparr>) = Inr v \<and>
    (\<forall>q. covers v q \<longleftrightarrow> among (lrs_ranges (demo_ranges\<lparr>lrs_loop_ranges := []\<rparr>)) q)"
  by (rule merging_without_loops) (simp_all add: demo_ranges_def plain_range_def)

theorem hole_before_loop_fails_witness:
  "fill_interval 9 (LiveInterval (plain_range 2 6)) [plain_range 10 14] [plain_range 10 14] = Inl AssertFailed"
proof -
  have "fill_interval (Suc 8) (LiveInterval (plain_range 2 6)) [plain_range 10 14] [plain_range 10 14] = Inl AssertFailed"
    by (rule hole_before_loop_fails)
      (simp_all add: LiveInterval_def plain_range_def Endpoint_def IntervalsBack_def small_def)
  then show ?thesis by (simp only: eval_nat_numeral)
qed

end
