(* ===== verification/Jit_Order.thy ===== *)
theory Jit_Order
  imports Jit_Places Jit_Merge
begin

text \<open>
  Code in SSA form and the linear order.  A block dominates another when every path from the entry
  to the other passes through it; the order of \<open>BuildLinearOrder\<close> puts dominators first, so that in
  SSA form every value is defined before the blocks that use it.  This is what liveness and register
  allocation rely on.
\<close>

subsection \<open>Dominance and SSA form\<close>

definition dominates :: "agraph \<Rightarrow> nat \<Rightarrow> nat \<Rightarrow> bool" where
  "dominates g a b \<longleftrightarrow> a = ENTRY_BLOCK_IDX \<or> (ENTRY_BLOCK_IDX, b) \<notin> (avoiding g (Some a))\<^sup>*"

text \<open>The values that are defined when the first \<open>k\<close> instructions of a block have been executed.\<close>

definition available :: "agraph \<Rightarrow> nat \<Rightarrow> nat \<Rightarrow> nat set" where
  "available g b k = set (GetPhis g b) \<union> set (take k (GetInsts g b)) \<union>
     {i. \<exists>d. d \<noteq> b \<and> dominates g d b \<and> i \<in> set (GetAllInsts g d)}"

text \<open>
  Every input of an instruction is available before it, and what a phi takes along an edge is
  available at the end of the block the edge leaves.
\<close>

definition ssa :: "agraph \<Rightarrow> bool" where
  "ssa g \<longleftrightarrow> (\<forall>b. (\<forall>k < length (GetInsts g b). values_of (ji_inputs (g_inst g (GetInsts g b ! k))) \<subseteq> available g b k) \<and>
     (\<forall>c \<in> set (bb_succs (g_bb g b)). phi_uses g b c \<subseteq> available g b (length (GetInsts g b))))"

lemma dominates_pred:
  assumes "dominates g a c" and "a \<noteq> c" and "c \<in> set (bb_succs (g_bb g b))"
  shows "dominates g a b"
proof (rule ccontr)
  assume "\<not> dominates g a b"
  then have ab: "a \<noteq> ENTRY_BLOCK_IDX" "(ENTRY_BLOCK_IDX, b) \<in> (avoiding g (Some a))\<^sup>*" by (auto simp: dominates_def)
  have "(b, c) \<in> avoiding g (Some a)" using assms(2,3) by (simp add: avoiding_def edges_def)
  with ab(2) have "(ENTRY_BLOCK_IDX, c) \<in> (avoiding g (Some a))\<^sup>*" by (rule rtrancl_into_rtrancl)
  then show False using assms(1) ab(1) by (simp add: dominates_def)
qed

lemma entered_path:
  assumes "entered g bs" and "k < length bs"
  shows "(ENTRY_BLOCK_IDX, bs ! k) \<in> {(u, v) \<in> edges g. v \<in> set (take (Suc k) bs)}\<^sup>*"
  using assms(2)
proof (induction k rule: less_induct)
  case (less k)
  from assms(1) less.prems consider "bs ! k = ENTRY_BLOCK_IDX" | p where "p \<in> set (take k bs)" "bs ! k \<in> set (bb_succs (g_bb g p))"
    unfolding entered_def by blast
  then show ?case
  proof cases
    case 2
    then obtain j where j: "j < k" "p = bs ! j" using less.prems by (auto simp: in_set_conv_nth)
    have "set (take (Suc j) bs) \<subseteq> set (take (Suc k) bs)" using j(1) by (intro set_take_subset_set_take) simp
    then have "{(u, v) \<in> edges g. v \<in> set (take (Suc j) bs)} \<subseteq> {(u, v) \<in> edges g. v \<in> set (take (Suc k) bs)}" by blast
    moreover have "(ENTRY_BLOCK_IDX, p) \<in> {(u, v) \<in> edges g. v \<in> set (take (Suc j) bs)}\<^sup>*" using less.IH [OF j(1)] j less.prems by simp
    ultimately have "(ENTRY_BLOCK_IDX, p) \<in> {(u, v) \<in> edges g. v \<in> set (take (Suc k) bs)}\<^sup>*" using rtrancl_mono by blast
    moreover have "(p, bs ! k) \<in> {(u, v) \<in> edges g. v \<in> set (take (Suc k) bs)}"
      using 2 less.prems by (simp add: edges_def take_Suc_conv_app_nth)
    ultimately show ?thesis by (rule rtrancl_into_rtrancl)
  qed simp
qed

lemma dominator_before:
  assumes "entered g bs" and "k < length bs" and "dominates g a (bs ! k)"
  shows "a \<in> set (take (Suc k) bs)"
proof (rule ccontr)
  assume a: "a \<notin> set (take (Suc k) bs)"
  have "bs ! 0 = ENTRY_BLOCK_IDX" using assms(1,2) unfolding entered_def by (metis le_zero_eq length_0_conv not_less_zero
        take0 list.set(1) empty_iff gr_implies_not0 not_gr_zero)
  moreover have "bs ! 0 \<in> set (take (Suc k) bs)" using assms(2) by (cases bs) simp_all
  ultimately have "a \<noteq> ENTRY_BLOCK_IDX" using a by metis
  moreover have "{(u, v) \<in> edges g. v \<in> set (take (Suc k) bs)} \<subseteq> avoiding g (Some a)" using a by (auto simp: avoiding_def)
  then have "(ENTRY_BLOCK_IDX, bs ! k) \<in> (avoiding g (Some a))\<^sup>*"
    using entered_path [OF assms(1,2)] rtrancl_mono by blast
  ultimately show False using assms(3) by (simp add: dominates_def)
qed

subsection \<open>The order of a graph\<close>

text \<open>What \<open>BuildLinearOrder\<close> leaves in the graph, when the life numbers fit an \<open>int\<close>.\<close>

definition laid_out :: "agraph \<Rightarrow> nat list \<Rightarrow> bool" where
  "laid_out g bs \<longleftrightarrow> g_linear g = order_of g bs @ [(None, total g bs)] \<and> distinct bs \<and> entered g bs \<and>
     numbered g g bs \<and> insts_apart g \<and> total g bs < 2 ^ 31"

definition doubly_linked :: "agraph \<Rightarrow> bool" where
  "doubly_linked g \<longleftrightarrow> (\<forall>b. GetInstsRev g b = rev (GetInsts g b))"

lemma same_view:
  assumes "same_graph g h"
  shows "ji_inputs (g_inst h i) = ji_inputs (g_inst g i)" "ji_opcode (g_inst h i) = ji_opcode (g_inst g i)"
    "ji_prev (g_inst h i) = ji_prev (g_inst g i)" "g_bb h = g_bb g" "g_insts_count h = g_insts_count g"
proof -
  have "(g_inst h i)\<lparr>ji_ln := 0\<rparr> = (g_inst g i)\<lparr>ji_ln := 0\<rparr>" using assms by (simp add: same_graph_def)
  then show "ji_inputs (g_inst h i) = ji_inputs (g_inst g i)" "ji_opcode (g_inst h i) = ji_opcode (g_inst g i)"
    "ji_prev (g_inst h i) = ji_prev (g_inst g i)"
    by (metis jinst.select_convs jinst.update_convs jinst.surjective)+
  show "g_bb h = g_bb g" "g_insts_count h = g_insts_count g" using assms by (simp_all add: same_graph_def)
qed

lemma same_order:
  assumes "same_graph g h"
  shows "size_of h = size_of g" "total h = total g" "order_of h = order_of g" "entered h = entered g"
    "numbered h = numbered g" "insts_apart h = insts_apart g" "GetInstsRev h = GetInstsRev g"
    "dominates h = dominates g" "phi_uses h = phi_uses g" "available h = available g"
proof -
  note l = same_lists [OF assms] and v = same_view [OF assms]
  show s: "size_of h = size_of g" by (simp add: size_of_def l fun_eq_iff)
  have t': "total h xs = total g xs" for xs by (simp add: total_def s)
  then show t: "total h = total g" by blast
  show "order_of h = order_of g" by (simp add: order_of_def t' fun_eq_iff)
  show "entered h = entered g" by (simp add: entered_def v fun_eq_iff)
  show "numbered h = numbered g" by (simp add: numbered_def l t' fun_eq_iff)
  show "insts_apart h = insts_apart g" by (simp add: insts_apart_def l)
  show "GetInstsRev h = GetInstsRev g" by (simp add: GetInstsRev_def v fun_eq_iff)
  have dom: "dominates h a b = dominates g a b" for a b by (simp add: dominates_def avoiding_def edges_def v)
  then show "dominates h = dominates g" by blast
  have "GetInput p k h = GetInput p k g" for p k by (simp add: GetInput_def v input_error_def)
  then show "phi_uses h = phi_uses g" by (simp add: phi_uses_def l v GetPredIdx_def fun_eq_iff)
  show "available h = available g" by (simp add: available_def l dom fun_eq_iff)
qed

lemma same_ssa: "same_graph g h \<Longrightarrow> ssa h = ssa g"
  by (simp add: ssa_def same_order same_lists same_view)

lemma linear_order_laid_out:
  assumes "BuildLinearOrder g = Inr h" and "marks_fresh g" and "insts_apart g" and "g_max_ln h < 2 ^ 31"
  obtains bs where "laid_out h bs" "same_graph g h" "length bs = g_bbs_count g"
proof -
  obtain bs where bs: "g_linear h = order_of g bs @ [(None, total g bs)]" "g_max_ln h = total g bs" "distinct bs"
    "length bs = g_bbs_count g" "preds_before g bs" "entered g bs" "numbered g h bs" "same_graph g h"
    by (rule linear_order_run [OF assms(1-3)])
  have "laid_out h bs" using bs assms(3,4) by (simp add: laid_out_def same_order [OF bs(8)])
  with bs show thesis using that by blast
qed

end
