(* ===== verification/Jit_Cover.thy ===== *)
theory Jit_Cover
  imports Jit_Order
begin

text \<open>
  The live ranges that one visit of a block leaves (analyses/liveness.h): the ranges of the values
  that the block defines begin at their definitions, and every value is covered from its definition,
  or from the beginning of the block, up to each of its uses.
\<close>

subsection \<open>Ranges of a value\<close>

definition ranges_of :: "lv_state \<Rightarrow> nat \<Rightarrow> live_range list" where
  "ranges_of s i = lrs_ranges (GetLiveRanges (Some i) s)"

definition starts_at :: "lv_state \<Rightarrow> nat \<Rightarrow> u32 \<Rightarrow> bool" where
  "starts_at s i w \<longleftrightarrow> ranges_of s i \<noteq> [] \<and> lr_b (last (ranges_of s i)) = w"

text \<open>The range added last begins at \<open>w\<close> and reaches at least to \<open>e\<close>.\<close>

definition opened :: "lv_state \<Rightarrow> nat \<Rightarrow> u32 \<Rightarrow> u32 \<Rightarrow> bool" where
  "opened s i w e \<longleftrightarrow> starts_at s i w \<and> e \<le> lr_e (last (ranges_of s i))"

definition has_range :: "lv_state \<Rightarrow> nat \<Rightarrow> u32 \<Rightarrow> u32 \<Rightarrow> bool" where
  "has_range s i lo hi \<longleftrightarrow> (\<exists>r \<in> set (ranges_of s i). lr_b r \<le> lo \<and> hi \<le> lr_e r)"

lemma opened_range: "opened s i w e \<Longrightarrow> has_range s i w e"
  unfolding opened_def starts_at_def has_range_def using last_in_set by blast

lemma same_ranges_of:
  assumes "ranges_of t i = ranges_of s i"
  shows "starts_at t i w = starts_at s i w" "opened t i w e = opened s i w e" "has_range t i lo hi = has_range s i lo hi"
  using assms by (simp_all add: opened_def starts_at_def has_range_def)

abbreviation fresh_range :: "u32 \<Rightarrow> u32 \<Rightarrow> live_range" where
  "fresh_range b e \<equiv> \<lparr>lr_b = b, lr_e = e, lr_loc = None\<rparr>"

lemma ranges_of_put: "ranges_of (put_ranges p x s) j = (if p = Some j then lrs_ranges x else ranges_of s j)"
  by (auto simp: ranges_of_def put_ranges_def GetLiveRanges_def)

lemma AddRange_ranges:
  assumes "AddRange p b e s = Inr t"
  shows "b < e" "ranges_of t j = ranges_of s j @ (if p = Some j then [fresh_range b e] else [])"
  using assms by (auto simp: AddRange_def LiveRange_def res_simps Let_def ranges_of_put) (auto simp: ranges_of_def)

lemma ranges_of_sets [simp]: "ranges_of (Extend b p s) = ranges_of s"
  by (simp add: ranges_of_def Extend_def GetLiveRanges_def fun_eq_iff)

lemma LS_Remove_ranges: "LS_Remove b i s = Inr t \<Longrightarrow> ranges_of t = ranges_of s"
  by (auto simp: LS_Remove_def res_simps ranges_of_def GetLiveRanges_def fun_eq_iff)

lemma FinalizeDef_ranges:
  assumes "FinalizeDef (Some i) d s = Inr t"
  shows "ranges_of s i \<noteq> []" "lr_b (last (ranges_of s i)) < d" "d < lr_e (last (ranges_of s i))"
    "ranges_of t j = (if j = i then butlast (ranges_of s i) @ [(last (ranges_of s i))\<lparr>lr_b := d\<rparr>] else ranges_of s j)"
  using assms by (auto simp: FinalizeDef_def TrimBegin_def res_simps Let_def ranges_of_put) (auto simp: ranges_of_def)

subsection \<open>Values that become live\<close>

text \<open>Every value that becomes live in the block gets the same range.\<close>

definition grown :: "nat \<Rightarrow> u32 \<Rightarrow> u32 \<Rightarrow> lv_state \<Rightarrow> lv_state \<Rightarrow> bool" where
  "grown b x y s t \<longleftrightarrow> alive s b \<subseteq> alive t b \<and>
     (\<forall>j. ranges_of t j = ranges_of s j @ (if j \<in> alive t b - alive s b then [fresh_range x y] else []))"

lemma grown_refl [simp]: "grown b x y s s"
  by (simp add: grown_def)

lemma grown_trans: "grown b x y s t \<Longrightarrow> grown b x y t u \<Longrightarrow> grown b x y s u"
  unfolding grown_def by auto

lemma grown_fold:
  assumes "fold_res f xs s = Inr t" and "\<And>z u v. z \<in> set xs \<Longrightarrow> f z u = Inr v \<Longrightarrow> grown b x y u v"
  shows "grown b x y s t"
  by (rule fold_res_invariant [OF assms(1), where P = "grown b x y s"]) (auto intro: grown_trans assms(2))

lemma grown_mono: "grown b x y s t \<Longrightarrow> has_range s j lo hi \<Longrightarrow> has_range t j lo hi"
  by (auto simp: grown_def has_range_def)

lemma grown_add:
  assumes "\<not> Has b i s" and "AddRange i x y w = Inr u" and "ranges_of w = ranges_of s" and "ranges_of t = ranges_of u"
    and "blocks_live_set t b = blocks_live_set s b @ [i]"
  shows "grown b x y s t"
proof (cases i)
  case None
  then have "alive t b = alive s b" using assms(5) by (simp add: alive_def)
  then show ?thesis using AddRange_ranges(2) [OF assms(2)] None assms(3,4) by (simp add: grown_def)
next
  case (Some j)
  then have "alive t b = insert j (alive s b)" "j \<notin> alive s b" using assms(1,5) by (auto simp: alive_def Has_def)
  then show ?thesis using AddRange_ranges(2) [OF assms(2)] Some assms(3,4) by (auto simp: grown_def)
qed

lemma grown_extend:
  assumes "(if \<not> Has b i s then AddRange i x y (Extend b i s) else Inr s) = Inr t"
  shows "grown b x y s t"
proof (cases "Has b i s")
  case False
  then have run: "AddRange i x y (Extend b i s) = Inr t" using assms by simp
  have "blocks_live_set t b = blocks_live_set s b @ [i]" using AddRange_sets [OF run] by (simp add: Extend_def)
  then show ?thesis using grown_add [OF False run] by simp
qed (use assms in simp)

lemma InitializeBlock_grown:
  assumes "InitializeBlock b x y g s = Inr t"
  shows "grown b x y s t"
proof -
  have run: "fold_res (\<lambda>c t. rbind (fold_res (\<lambda>i u. if i \<noteq> None \<and> \<not> Has b i u then AddRange i x y (Extend b i u) else Inr u)
          (blocks_live_set t c) t) (\<lambda>t1. rbind (GetPredIdx c b g) (\<lambda>k. fold_res (\<lambda>p u. rbind (GetInput p k g) (\<lambda>i.
            if \<not> Has b i u then AddRange i x y (Extend b i u) else Inr u)) (GetPhis g c) t1)))
        (bb_succs (g_bb g b)) s = Inr t"
    using assms by (auto simp: InitializeBlock_def res_simps)
  show ?thesis
  proof (rule grown_fold [OF run])
    fix c u v
    assume "rbind (fold_res (\<lambda>i u. if i \<noteq> None \<and> \<not> Has b i u then AddRange i x y (Extend b i u) else Inr u)
          (blocks_live_set u c) u) (\<lambda>t1. rbind (GetPredIdx c b g) (\<lambda>k. fold_res (\<lambda>p u. rbind (GetInput p k g) (\<lambda>i.
            if \<not> Has b i u then AddRange i x y (Extend b i u) else Inr u)) (GetPhis g c) t1)) = Inr v"
    then obtain w k where w: "fold_res (\<lambda>i u. if i \<noteq> None \<and> \<not> Has b i u then AddRange i x y (Extend b i u) else Inr u)
          (blocks_live_set u c) u = Inr w"
      and v: "fold_res (\<lambda>p u. rbind (GetInput p k g) (\<lambda>i. if \<not> Has b i u then AddRange i x y (Extend b i u) else Inr u))
          (GetPhis g c) w = Inr v" by (auto simp: res_simps)
    have "grown b x y u w"
      by (rule grown_fold [OF w]) (auto intro: grown_extend split: if_splits)
    moreover have "grown b x y w v"
      by (rule grown_fold [OF v]) (auto simp: res_simps intro: grown_extend)
    ultimately show "grown b x y u v" by (rule grown_trans)
  qed
qed

subsection \<open>One instruction\<close>

text \<open>The definition of the instruction ends the range of its value.\<close>

definition defined :: "nat \<Rightarrow> agraph \<Rightarrow> nat \<Rightarrow> lv_state \<Rightarrow> lv_state \<Rightarrow> bool" where
  "defined b g i s u \<longleftrightarrow> alive u b = alive s b - {i} \<and> (\<forall>j. j \<noteq> i \<longrightarrow> ranges_of u j = ranges_of s j) \<and>
     (HasDst (ji_opcode (g_inst g i)) \<longrightarrow> starts_at u i (LN g i)) \<and>
     (if i \<in> alive s b then ranges_of s i \<noteq> [] \<and> starts_at u i (LN g i) \<and>
          ranges_of u i = butlast (ranges_of s i) @ [(last (ranges_of s i))\<lparr>lr_b := LN g i\<rparr>]
      else \<exists>ys. ranges_of u i = ranges_of s i @ ys)"

lemma defined_mono:
  assumes "defined b g i s u" and "has_range s j lo hi" and "j = i \<Longrightarrow> LN g i \<le> lo"
  shows "has_range u j lo hi"
proof (cases "j = i \<and> i \<in> alive s b")
  case True
  obtain rs r where r: "ranges_of s i = rs @ [r]" using assms(1) True by (cases "ranges_of s i" rule: rev_cases) (auto simp: defined_def)
  then have "ranges_of u i = rs @ [r\<lparr>lr_b := LN g i\<rparr>]" using assms(1) True by (simp add: defined_def)
  then show ?thesis using assms(2,3) True r by (auto simp: has_range_def)
next
  case False
  then have "\<exists>ys. ranges_of u j = ranges_of s j @ ys"
    using assms(1) unfolding defined_def by (metis append_Nil2)
  then show ?thesis using assms(2) by (auto simp: has_range_def)
qed

lemma defined_opened:
  assumes "defined b g i s u" and "i \<in> alive s b" and "opened s i w e"
  shows "opened u i (LN g i) e"
  using assms by (auto simp: defined_def opened_def)

lemma process_inst_parts:
  assumes "process_inst b start g i s = Inr t" and "once (blocks_live_set s b)"
  obtains u where "defined b g i s u" "grown b start (LN g i) u t"
proof -
  from assms(1) obtain u where u: "(if HasDst (ji_opcode (g_inst g i)) then
          if HasUsers g i then rbind (FinalizeDef (Some i) (LN g i) s) (LS_Remove b i)
          else rbind (AddRange (Some i) (LN g i) (LN g i + 2) s) (\<lambda>t. guard (\<not> Has b (Some i) t) AssertFailed (Inr t))
        else guard (\<not> Has b (Some i) s) AssertFailed (Inr s)) = Inr u"
    and t: "fold_res (\<lambda>x t. if \<not> Has b x t then rbind (AddRange x start (LN g i) t) (\<lambda>u. Inr (Extend b x u)) else Inr t)
             (ji_inputs (g_inst g i)) u = Inr t"
    by (auto simp: process_inst_def res_simps)
  have "grown b start (LN g i) u t"
  proof (rule grown_fold [OF t])
    fix x v w
    assume w: "(if \<not> Has b x v then rbind (AddRange x start (LN g i) v) (\<lambda>u. Inr (Extend b x u)) else Inr v) = Inr w"
    show "grown b start (LN g i) v w"
    proof (cases "Has b x v")
      case False
      then obtain z where z: "AddRange x start (LN g i) v = Inr z" "w = Extend b x z" using w by (auto simp: res_simps)
      have "blocks_live_set w b = blocks_live_set v b @ [x]" using AddRange_sets [OF z(1)] z(2) by (simp add: Extend_def)
      then show ?thesis using grown_add [OF False z(1)] z(2) by simp
    qed (use w in simp)
  qed
  moreover have "defined b g i s u"
  proof (cases "HasDst (ji_opcode (g_inst g i)) \<and> HasUsers g i")
    case True
    then obtain w where w: "FinalizeDef (Some i) (LN g i) s = Inr w" "LS_Remove b i w = Inr u" using u by (auto simp: res_simps)
    note f = FinalizeDef_ranges [OF w(1)] and sets = FinalizeDef_sets [OF w(1)]
    have "once (blocks_live_set w b)" using sets assms(2) by simp
    then have "alive u b = alive s b - {i}" using LS_Remove_alive(1) [OF w(2)] sets by (simp add: alive_def)
    moreover have "i \<in> alive s b" using w(2) sets by (auto simp: LS_Remove_def res_simps Has_def alive_def)
    ultimately show ?thesis using f LS_Remove_ranges [OF w(2)] by (simp add: defined_def starts_at_def)
  next
    case no_users: False
    show ?thesis
    proof (cases "HasDst (ji_opcode (g_inst g i))")
      case True
      then have a: "AddRange (Some i) (LN g i) (LN g i + 2) s = Inr u" and "\<not> Has b (Some i) u" using u no_users by (auto simp: res_simps)
      then have "i \<notin> alive s b" "alive u b = alive s b" using AddRange_sets [OF a] by (auto simp: Has_def alive_def)
      then show ?thesis using AddRange_ranges(2) [OF a] by (auto simp: defined_def starts_at_def)
    next
      case False
      then have "u = s" "i \<notin> alive s b" using u by (auto simp: res_simps Has_def alive_def)
      then show ?thesis using False by (simp add: defined_def)
    qed
  qed
  ultimately show thesis using that by blast
qed

subsection \<open>The instructions of a block\<close>

text \<open>
  Backwards through instructions \<open>xs\<close>: none of them uses its own value or one that comes later in
  the block, and their life numbers fall.
\<close>

definition backwards :: "agraph \<Rightarrow> nat list \<Rightarrow> bool" where
  "backwards g xs \<longleftrightarrow> distinct xs \<and> sorted_wrt (\<lambda>i j. LN g j \<le> LN g i) xs \<and>
     (\<forall>us i vs. xs = us @ i # vs \<longrightarrow> values_of (ji_inputs (g_inst g i)) \<inter> set (us @ [i]) = {})"

lemma backwards_snoc:
  assumes "backwards g (xs @ [i])"
  shows "backwards g xs" "i \<notin> set xs" "values_of (ji_inputs (g_inst g i)) \<inter> set (xs @ [i]) = {}" "\<forall>j \<in> set xs. LN g i \<le> LN g j"
proof -
  show "values_of (ji_inputs (g_inst g i)) \<inter> set (xs @ [i]) = {}" using assms unfolding backwards_def by blast
  have "values_of (ji_inputs (g_inst g j)) \<inter> set (us @ [j]) = {}" if "xs = us @ j # vs" for us j vs
    using assms that unfolding backwards_def by (metis append.assoc append_Cons)
  then show "backwards g xs" using assms by (auto simp: backwards_def sorted_wrt_append)
  show "i \<notin> set xs" "\<forall>j \<in> set xs. LN g i \<le> LN g j" using assms by (auto simp: backwards_def sorted_wrt_append)
qed

text \<open>A value \<open>x\<close> that is needed up to \<open>hi\<close>: live at the end, or an input of one of the instructions.\<close>

definition needed :: "agraph \<Rightarrow> nat \<Rightarrow> lv_state \<Rightarrow> nat list \<Rightarrow> nat \<Rightarrow> u32 \<Rightarrow> bool" where
  "needed g b s xs x hi \<longleftrightarrow> (x \<in> alive s b \<and> hi \<le> lr_e (last (ranges_of s x))) \<or>
     (\<exists>i \<in> set xs. x \<in> values_of (ji_inputs (g_inst g i)) \<and> hi = LN g i)"

definition passed :: "agraph \<Rightarrow> nat \<Rightarrow> u32 \<Rightarrow> u32 \<Rightarrow> nat list \<Rightarrow> lv_state \<Rightarrow> lv_state \<Rightarrow> bool" where
  "passed g b start e0 xs s t \<longleftrightarrow> once (blocks_live_set t b) \<and> set xs \<inter> alive t b = {} \<and>
     (\<forall>j \<in> alive t b. \<forall>e. e \<le> e0 \<and> (\<forall>i \<in> set xs. e \<le> LN g i) \<longrightarrow> opened t j start e) \<and>
     (\<forall>i \<in> set xs. HasDst (ji_opcode (g_inst g i)) \<longrightarrow> starts_at t i (LN g i)) \<and>
     (\<forall>j. j \<notin> set xs \<and> j \<notin> alive t b \<longrightarrow> ranges_of t j = ranges_of s j) \<and>
     (\<forall>x hi. needed g b s xs x hi \<longrightarrow> (if x \<in> set xs then opened t x (LN g x) hi else x \<in> alive t b \<and> opened t x start hi)) \<and>
     (\<forall>j lo hi. has_range s j lo hi \<and> (j \<in> set xs \<longrightarrow> LN g j \<le> lo) \<longrightarrow> has_range t j lo hi)"

lemma passed_step:
  assumes w: "passed g b start e0 xs s w" and bw: "backwards g (xs @ [i])" and le: "LN g i \<le> e0"
    and d: "defined b g i w u" and gr: "grown b start (LN g i) u t"
    and al: "alive t b = transfer g i (alive w b)" and on: "once (blocks_live_set t b)"
  shows "passed g b start e0 (xs @ [i]) s t"
proof -
  let ?V = "values_of (ji_inputs (g_inst g i))"
  note bs = backwards_snoc [OF bw]
  have u: "alive u b = alive w b - {i}" and other: "\<And>j. j \<noteq> i \<Longrightarrow> ranges_of u j = ranges_of w j" using d by (simp_all add: defined_def)
  have t: "alive t b = (alive w b - {i}) \<union> ?V" using al by (simp add: transfer_def)
  have keep: "ranges_of t j = ranges_of u j" if "j \<in> alive u b \<or> j \<notin> alive t b" for j using gr that by (auto simp: grown_def)
  have new: "ranges_of t j = ranges_of u j @ [fresh_range start (LN g i)]" if "j \<in> ?V" "j \<notin> alive u b" for j
    using gr that t by (auto simp: grown_def)
  have i: "i \<notin> alive t b" using t bs(3) by auto
  then have ti: "ranges_of t i = ranges_of u i" using keep by blast
  have xs: "j \<notin> alive t b \<and> ranges_of t j = ranges_of w j" if "j \<in> set xs" for j
  proof -
    have "j \<notin> alive w b" "j \<noteq> i" using w that bs(2) by (auto simp: passed_def)
    moreover from this have "j \<notin> alive t b" using t bs(3) that by auto
    ultimately show ?thesis using keep other by simp
  qed
  have stay: "ranges_of t j = ranges_of w j" if "j \<in> alive w b" "j \<noteq> i" for j using that keep other u by auto
  have open1: "opened t j start e" if j: "j \<in> alive t b" and e: "e \<le> e0" "\<forall>k \<in> set (xs @ [i]). e \<le> LN g k" for j e
  proof (cases "j \<in> alive u b")
    case True
    then have "opened w j start e" using w e u by (auto simp: passed_def)
    then show ?thesis using same_ranges_of(2) [OF stay] True u by auto
  next
    case False
    then show ?thesis using new [of j] j t u e(2) by (auto simp: opened_def starts_at_def)
  qed
  have starts: "starts_at t j (LN g j)" if "j \<in> set (xs @ [i])" "HasDst (ji_opcode (g_inst g j))" for j
  proof (cases "j = i")
    case True
    then show ?thesis using d that(2) same_ranges_of(1) [OF ti] by (simp add: defined_def)
  next
    case False
    then have j: "j \<in> set xs" using that(1) by simp
    then have "starts_at w j (LN g j)" using w that(2) by (simp add: passed_def)
    then show ?thesis using same_ranges_of(1) [of t j w] xs [OF j] by simp
  qed
  have needs: "if x \<in> set (xs @ [i]) then opened t x (LN g x) hi else x \<in> alive t b \<and> opened t x start hi"
    if "needed g b s (xs @ [i]) x hi" for x hi
  proof (cases "needed g b s xs x hi")
    case True
    then have n: "if x \<in> set xs then opened w x (LN g x) hi else x \<in> alive w b \<and> opened w x start hi" using w by (simp add: passed_def)
    consider "x \<in> set xs" | "x = i" | "x \<notin> set xs" "x \<noteq> i" by blast
    then show ?thesis
    proof cases
      case 1
      then show ?thesis using n same_ranges_of(2) [of t x w] xs by auto
    next
      case 2
      then have "i \<in> alive w b" "opened w i start hi" using n bs(2) by auto
      then have "opened u i (LN g i) hi" by (rule defined_opened [OF d])
      then show ?thesis using 2 same_ranges_of(2) [OF ti] by simp
    next
      case 3
      then show ?thesis using n t same_ranges_of(2) [OF stay] by auto
    qed
  next
    case False
    then have x: "x \<in> ?V" "hi = LN g i" using that by (auto simp: needed_def)
    then have "x \<notin> set (xs @ [i])" "x \<in> alive t b" using bs(3) t by auto
    then show ?thesis using open1 [of x hi] x(2) le bs(4) by auto
  qed
  have mono: "has_range t j lo hi" if "has_range s j lo hi" "j \<in> set (xs @ [i]) \<longrightarrow> LN g j \<le> lo" for j lo hi
  proof -
    have "has_range w j lo hi" using w that by (simp add: passed_def)
    then show ?thesis using grown_mono [OF gr] defined_mono [OF d] that(2) by auto
  qed
  have rest: "ranges_of t j = ranges_of s j" if "j \<notin> set (xs @ [i])" "j \<notin> alive t b" for j
  proof -
    have "j \<notin> alive w b" using that t by auto
    then have "ranges_of w j = ranges_of s j" using w that(1) by (simp add: passed_def)
    then show ?thesis using keep other that by simp
  qed
  show ?thesis unfolding passed_def using on i xs open1 starts rest needs mono by auto
qed

lemma block_passed:
  assumes "fold_res (process_inst b start g) xs s = Inr t" and "backwards g xs" and "\<forall>i \<in> set xs. LN g i \<le> e0"
    and "once (blocks_live_set s b)" and "\<forall>j \<in> alive s b. opened s j start e0"
  shows "passed g b start e0 xs s t"
  using assms
proof (induction xs arbitrary: t rule: rev_induct)
  case Nil
  then show ?case by (auto simp: passed_def needed_def opened_def intro: order_trans)
next
  case (snoc i xs)
  from snoc.prems(1) obtain w where w: "fold_res (process_inst b start g) xs s = Inr w" "process_inst b start g i w = Inr t"
    by (auto simp: fold_res_append res_simps)
  have p: "passed g b start e0 xs s w" using snoc w(1) backwards_snoc(1) [OF snoc.prems(2)] by simp
  then have on: "once (blocks_live_set w b)" by (simp add: passed_def)
  obtain u where u: "defined b g i w u" "grown b start (LN g i) u t" by (rule process_inst_parts [OF w(2) on])
  show ?case
    by (rule passed_step [OF p snoc.prems(2) _ u process_inst_alive(1,2) [OF w(2) on]]) (use snoc.prems(3) in simp)
qed

end
