(* ===== verification/Jit_Visit.thy ===== *)
theory Jit_Visit
  imports Jit_Cover
begin

text \<open>
  The whole run of \<open>CalculateLifeRanges\<close> on a graph in SSA form: the ranges of every value begin at
  its definition and cover it up to each use and along every edge that leads forwards in the linear
  order.
\<close>

subsection \<open>Life numbers\<close>

lemma of_nat_less: "a < 2 ^ 32 \<Longrightarrow> b < 2 ^ 32 \<Longrightarrow> (of_nat a :: u32) < of_nat b \<longleftrightarrow> a < b"
  by (simp add: word_less_nat_alt unat_of_nat)

lemma of_nat_le: "a < 2 ^ 32 \<Longrightarrow> b < 2 ^ 32 \<Longrightarrow> (of_nat a :: u32) \<le> of_nat b \<longleftrightarrow> a \<le> b"
  by (simp add: word_le_nat_alt unat_of_nat)

definition start_of :: "agraph \<Rightarrow> nat list \<Rightarrow> nat \<Rightarrow> nat" where
  "start_of g bs k = total g (take k bs)"

lemma start_of_Suc: "k < length bs \<Longrightarrow> start_of g bs (Suc k) = start_of g bs k + size_of g (bs ! k)"
  by (simp add: start_of_def take_Suc_conv_app_nth)

lemma start_of_mono: "j \<le> k \<Longrightarrow> start_of g bs j \<le> start_of g bs k"
proof -
  assume "j \<le> k"
  then have "take k bs = take j bs @ take (k - j) (drop j bs)" by (metis le_add_diff_inverse take_add)
  then show ?thesis by (simp add: start_of_def)
qed

lemma start_of_bound: "start_of g bs k \<le> total g bs"
  using start_of_mono [of k "max k (length bs)" g bs] by (simp add: start_of_def)

lemma laid_outD:
  assumes "laid_out g bs"
  shows "g_linear g = order_of g bs @ [(None, total g bs)]" "distinct bs" "entered g bs" "insts_apart g" "total g bs < 2 ^ 31"
    "k < length bs \<Longrightarrow> p \<in> set (GetPhis g (bs ! k)) \<Longrightarrow> LN g p = of_nat (start_of g bs k)"
    "k < length bs \<Longrightarrow> j < length (GetInsts g (bs ! k)) \<Longrightarrow> LN g (GetInsts g (bs ! k) ! j) = of_nat (start_of g bs k + 2 * Suc j)"
  using assms by (auto simp: laid_out_def numbered_def start_of_def)

lemma linear_entry:
  assumes "laid_out g bs"
  shows "k < length bs \<Longrightarrow> g_linear g ! k = (Some (bs ! k), start_of g bs k)" "k \<le> length bs \<Longrightarrow> snd (g_linear g ! k) = start_of g bs k"
    "length (g_linear g) - 1 = length bs"
proof -
  note l = laid_outD(1) [OF assms]
  have len: "length (order_of g bs) = length bs" by (simp add: order_of_def)
  show one: "g_linear g ! k = (Some (bs ! k), start_of g bs k)" if "k < length bs"
    using that by (simp add: l nth_append len) (simp add: order_of_def start_of_def)
  show "snd (g_linear g ! k) = start_of g bs k" if "k \<le> length bs"
  proof (cases "k < length bs")
    case False
    then show ?thesis using that by (simp add: l nth_append len start_of_def)
  qed (simp add: one)
  show "length (g_linear g) - 1 = length bs" by (simp add: l len)
qed

text \<open>The instructions of a block have life numbers inside the block.\<close>

lemma inst_number:
  assumes "laid_out g bs" and "k < length bs" and "i \<in> set (GetInsts g (bs ! k))"
  obtains n where "LN g i = of_nat n" "start_of g bs k < n" "n + 2 \<le> start_of g bs (Suc k)" "n + 2 < 2 ^ 31"
proof -
  obtain j where j: "j < length (GetInsts g (bs ! k))" "i = GetInsts g (bs ! k) ! j" using assms(3) by (metis in_set_conv_nth)
  have "start_of g bs (Suc k) = start_of g bs k + 2 * Suc (length (GetInsts g (bs ! k)))"
    using start_of_Suc [OF assms(2), of g] by (simp add: size_of_def)
  moreover have "start_of g bs (Suc k) < 2 ^ 31" using start_of_bound [of g bs "Suc k"] laid_outD(5) [OF assms(1)] by linarith
  ultimately show thesis
    by (intro that [of "start_of g bs k + 2 * Suc j"]) (use laid_outD(7) [OF assms(1,2) j(1)] j in auto)
qed

lemma apart_blocks:
  assumes "insts_apart g" and "i \<in> set (GetAllInsts g b)" and "i \<in> set (GetAllInsts g c)"
  shows "b = c"
  using assms by (auto simp: insts_apart_def)

lemma insts_ascend:
  assumes lo: "laid_out g bs" and k: "k < length bs"
  shows "sorted_wrt (\<lambda>i j. LN g i \<le> LN g j) (GetInsts g (bs ! k))"
proof -
  let ?is = "GetInsts g (bs ! k)"
  have "LN g (?is ! i) \<le> LN g (?is ! j)" if "i < j" "j < length ?is" for i j
  proof -
    have "start_of g bs k + 2 * Suc j < 2 ^ 32"
      using inst_number [OF lo k, of "?is ! j"] that(2) start_of_Suc [OF k, of g] start_of_bound [of g bs "Suc k"] laid_outD(5) [OF lo]
      by (simp add: size_of_def)
    then have "(of_nat (start_of g bs k + 2 * Suc i) :: u32) \<le> of_nat (start_of g bs k + 2 * Suc j)"
      using that(1) by (subst of_nat_le) simp_all
    moreover have "i < length ?is" using that by simp
    ultimately show ?thesis using laid_outD(7) [OF lo k] that(2) by metis
  qed
  then show ?thesis by (simp add: sorted_wrt_iff_nth_less)
qed

lemma insts_backwards:
  assumes lo: "laid_out g bs" and ssa: "ssa g" and k: "k < length bs"
  shows "backwards g (rev (GetInsts g (bs ! k)))"
proof -
  let ?is = "GetInsts g (bs ! k)"
  have d: "distinct (GetAllInsts g (bs ! k))" using laid_outD(4) [OF lo] by (simp add: insts_apart_def)
  then have di: "distinct ?is" by (simp add: GetAllInsts_def)
  have sorted: "sorted_wrt (\<lambda>i j. LN g j \<le> LN g i) (rev ?is)" using insts_ascend [OF lo k] by (simp add: sorted_wrt_rev)
  have "values_of (ji_inputs (g_inst g i)) \<inter> set (us @ [i]) = {}" if "rev ?is = us @ i # vs" for us i vs
  proof -
    have split: "?is = rev vs @ i # rev us" using that by (metis rev_append rev_rev_ident rev.simps(2) append.assoc append_Cons append_Nil)
    have "values_of (ji_inputs (g_inst g (?is ! length vs))) \<subseteq> available g (bs ! k) (length vs)"
      using ssa arg_cong [OF split, of length] unfolding ssa_def by simp
    then have "values_of (ji_inputs (g_inst g i)) \<subseteq> available g (bs ! k) (length vs)" using split by (simp add: nth_append)
    moreover have "x \<notin> available g (bs ! k) (length vs)" if "x \<in> set (i # us)" for x
    proof
      assume "x \<in> available g (bs ! k) (length vs)"
      then consider "x \<in> set (GetPhis g (bs ! k)) \<union> set (rev vs)" | c where "c \<noteq> bs ! k" "x \<in> set (GetAllInsts g c)"
        using split by (auto simp: available_def)
      then show False
      proof cases
        case 1
        then show ?thesis using d that by (auto simp: GetAllInsts_def split)
      next
        case 2
        moreover have "x \<in> set (GetAllInsts g (bs ! k))" using that by (auto simp: GetAllInsts_def split)
        ultimately show ?thesis using apart_blocks [OF laid_outD(4) [OF lo]] by blast
      qed
    qed
    ultimately show ?thesis by auto
  qed
  then show ?thesis using di sorted by (simp add: backwards_def)
qed

subsection \<open>What is live into a block\<close>

definition dominated :: "agraph \<Rightarrow> nat \<Rightarrow> nat set" where
  "dominated g b = {i. \<exists>d. d \<noteq> b \<and> dominates g d b \<and> i \<in> set (GetAllInsts g d)}"

lemma available_dominated: "available g b k = set (GetPhis g b) \<union> set (take k (GetInsts g b)) \<union> dominated g b"
  by (simp add: available_def dominated_def)

lemma dominated_succ:
  assumes "c \<in> set (bb_succs (g_bb g b))"
  shows "dominated g c \<subseteq> available g b (length (GetInsts g b))"
proof
  fix x assume "x \<in> dominated g c"
  then obtain d where d: "d \<noteq> c" "dominates g d c" "x \<in> set (GetAllInsts g d)" by (auto simp: dominated_def)
  then have "dominates g d b" using dominates_pred [OF _ _ assms] by blast
  then show "x \<in> available g b (length (GetInsts g b))"
    using d(3) by (cases "d = b") (auto simp: available_def GetAllInsts_def)
qed

lemma transfer_available:
  assumes "ssa g" and "k \<le> length (GetInsts g b)" and "L \<subseteq> available g b (length (GetInsts g b))"
  shows "fold (transfer g) (rev (drop k (GetInsts g b))) L \<subseteq> available g b k"
  using assms(2)
proof (induction "length (GetInsts g b) - k" arbitrary: k)
  case 0
  then show ?case using assms(3) by simp
next
  case (Suc n)
  then have k: "k < length (GetInsts g b)" by simp
  let ?i = "GetInsts g b ! k"
  have "drop k (GetInsts g b) = ?i # drop (Suc k) (GetInsts g b)" using k by (simp add: Cons_nth_drop_Suc)
  then have run: "fold (transfer g) (rev (drop k (GetInsts g b))) L = transfer g ?i (fold (transfer g) (rev (drop (Suc k) (GetInsts g b))) L)"
    by simp
  have "fold (transfer g) (rev (drop (Suc k) (GetInsts g b))) L \<subseteq> available g b (Suc k)" using Suc k by simp
  moreover have "available g b (Suc k) - {?i} \<subseteq> available g b k" using k by (auto simp: available_def take_Suc_conv_app_nth)
  moreover have "values_of (ji_inputs (g_inst g ?i)) \<subseteq> available g b k" using assms(1) k by (simp add: ssa_def)
  ultimately show ?case unfolding run transfer_def by blast
qed

subsection \<open>One visit\<close>

lemma remove_phis:
  assumes "fold_res (LS_Remove b) ps w = Inr v" and "once (blocks_live_set w b)"
  shows "set ps \<subseteq> alive w b \<and> alive v b = alive w b - set ps \<and> ranges_of v = ranges_of w"
  using assms
proof (induction ps arbitrary: w)
  case (Cons p ps)
  then obtain x where x: "LS_Remove b p w = Inr x" "fold_res (LS_Remove b) ps x = Inr v" by (auto simp: res_simps)
  note r = LS_Remove_alive [OF x(1) Cons.prems(2)]
  have "p \<in> alive w b" using x(1) by (auto simp: LS_Remove_def res_simps Has_def alive_def)
  then show ?case using Cons.IH [OF x(2) r(2)] r(1) LS_Remove_ranges [OF x(1)] by auto
qed simp

lemma ProcessLoop_keeps:
  assumes "ProcessLoop k g s = Inr t"
  shows "blocks_live_set t = blocks_live_set s \<and> ranges_of t = ranges_of s"
proof -
  obtain h b e where run: "fold_res (\<lambda>i t. if i \<noteq> None then AppendLoopRange i b e t else Inr t) (blocks_live_set s h) s = Inr t"
    using assms by (auto simp: ProcessLoop_def deref_def res_simps)
  have step: "blocks_live_set v = blocks_live_set u \<and> ranges_of v = ranges_of u" if "AppendLoopRange i b e u = Inr v" for i u v
    using that by (auto simp: AppendLoopRange_def res_simps Let_def ranges_of_put put_ranges_def fun_eq_iff) (auto simp: ranges_of_def GetLiveRanges_def)
  show ?thesis
    by (rule fold_res_invariant [OF run, where P = "\<lambda>u. blocks_live_set u = blocks_live_set s \<and> ranges_of u = ranges_of s"])
      (use step in \<open>fastforce split: if_splits\<close>)+
qed

text \<open>Where a value begins to be live in a block, and up to where it is wanted there.\<close>

definition birth :: "agraph \<Rightarrow> nat list \<Rightarrow> nat \<Rightarrow> nat \<Rightarrow> u32" where
  "birth g bs k x = (if x \<in> set (GetAllInsts g (bs ! k)) then LN g x else of_nat (start_of g bs k))"

definition wanted :: "agraph \<Rightarrow> nat list \<Rightarrow> nat \<Rightarrow> lv_state \<Rightarrow> nat \<Rightarrow> u32 \<Rightarrow> bool" where
  "wanted g bs k s x hi \<longleftrightarrow>
     (\<exists>c \<in> set (bb_succs (g_bb g (bs ! k))). x \<in> alive s c \<union> phi_uses g (bs ! k) c) \<and> hi = of_nat (start_of g bs (Suc k)) \<or>
     (\<exists>i \<in> set (GetInsts g (bs ! k)). x \<in> values_of (ji_inputs (g_inst g i)) \<and> hi = LN g i)"

definition visited :: "agraph \<Rightarrow> nat list \<Rightarrow> nat \<Rightarrow> lv_state \<Rightarrow> lv_state \<Rightarrow> bool" where
  "visited g bs k s t \<longleftrightarrow> alive t (bs ! k) \<subseteq> dominated g (bs ! k) \<and> (\<forall>c. c \<noteq> bs ! k \<longrightarrow> alive t c = alive s c) \<and>
     (\<forall>i \<in> set (GetAllInsts g (bs ! k)). HasDst (ji_opcode (g_inst g i)) \<longrightarrow> starts_at t i (LN g i)) \<and>
     (\<forall>j. j \<notin> set (GetAllInsts g (bs ! k)) \<and> j \<notin> alive t (bs ! k) \<longrightarrow> ranges_of t j = ranges_of s j) \<and>
     (\<forall>x hi. wanted g bs k s x hi \<longrightarrow> opened t x (birth g bs k x) hi \<and> (x \<in> set (GetAllInsts g (bs ! k)) \<or> x \<in> alive t (bs ! k))) \<and>
     (\<forall>j lo hi. has_range s j lo hi \<and> (j \<in> set (GetInsts g (bs ! k)) \<longrightarrow> LN g j \<le> lo) \<longrightarrow> has_range t j lo hi)"

lemma live_block_parts:
  assumes "live_block g k s = Inr t" and "laid_out g bs" and "k < length bs" and "doubly_linked g"
  obtains u v w where "InitializeBlock (bs ! k) (of_nat (start_of g bs k)) (of_nat (start_of g bs (Suc k))) g s = Inr u"
    "fold_res (process_inst (bs ! k) (of_nat (start_of g bs k)) g) (rev (GetInsts g (bs ! k))) u = Inr v"
    "fold_res (LS_Remove (bs ! k)) (GetPhis g (bs ! k)) v = Inr w"
    "blocks_live_set t = blocks_live_set w" "ranges_of t = ranges_of w"
    "ProcessInstructions (bs ! k) (of_nat (start_of g bs k)) g u = Inr w"
    "w = t \<or> ProcessLoop k g w = Inr t"
proof -
  have e: "g_linear g ! k = (Some (bs ! k), start_of g bs k)" "snd (g_linear g ! Suc k) = start_of g bs (Suc k)"
    using linear_entry [OF assms(2)] assms(3) by auto
  from assms(1) obtain u w h where u: "InitializeBlock (bs ! k) (of_nat (start_of g bs k)) (of_nat (start_of g bs (Suc k))) g s = Inr u"
    and w: "ProcessInstructions (bs ! k) (of_nat (start_of g bs k)) g u = Inr w"
    and t: "(if h then ProcessLoop k g w else Inr w) = Inr t"
    by (auto simp: live_block_def e deref_def res_simps)
  obtain v where v: "fold_res (process_inst (bs ! k) (of_nat (start_of g bs k)) g) (rev (GetInsts g (bs ! k))) u = Inr v"
    "fold_res (LS_Remove (bs ! k)) (GetPhis g (bs ! k)) v = Inr w"
    using w assms(4) by (auto simp: ProcessInstructions_def res_simps doubly_linked_def)
  have "blocks_live_set t = blocks_live_set w \<and> ranges_of t = ranges_of w"
    using t ProcessLoop_keeps by (auto split: if_splits)
  moreover have "w = t \<or> ProcessLoop k g w = Inr t" using t by (auto split: if_splits)
  ultimately show thesis using that u v w by blast
qed

lemma live_block_visited:
  assumes run: "live_block g k s = Inr t" and lo: "laid_out g bs" and k: "k < length bs" and dl: "doubly_linked g"
    and ssa: "ssa g" and up: "\<forall>c. alive s c \<subseteq> dominated g c"
  shows "visited g bs k s t"
proof -
  let ?b = "bs ! k" and ?start = "of_nat (start_of g bs k)" and ?stop = "of_nat (start_of g bs (Suc k))" and ?is = "GetInsts g (bs ! k)"
  obtain u v w where u: "InitializeBlock ?b ?start ?stop g s = Inr u"
    and v: "fold_res (process_inst ?b ?start g) (rev ?is) u = Inr v" and w: "fold_res (LS_Remove ?b) (GetPhis g ?b) v = Inr w"
    and t: "blocks_live_set t = blocks_live_set w" "ranges_of t = ranges_of w" and pi: "ProcessInstructions ?b ?start g u = Inr w"
    by (rule live_block_parts [OF run lo k dl]) blast
  note ini = InitializeBlock_alive [OF u] and gr = InitializeBlock_grown [OF u]
  have "blocks_live_set s ?b = []" using u by (auto simp: InitializeBlock_def res_simps)
  then have empty: "alive s ?b = {}" by (simp add: alive_def)
  have op: "opened u x ?start e \<and> lr_e (last (ranges_of u x)) = ?stop" if "x \<in> alive u ?b" "e \<le> ?stop" for x e
    using gr that empty by (simp add: grown_def opened_def starts_at_def)
  have le: "\<forall>i \<in> set (rev ?is). LN g i \<le> ?stop"
  proof
    fix i assume "i \<in> set (rev ?is)"
    then obtain n where n: "LN g i = of_nat n" "n + 2 \<le> start_of g bs (Suc k)" using inst_number [OF lo k, of i] by auto
    have "start_of g bs (Suc k) < 2 ^ 31" using start_of_bound [of g bs "Suc k"] laid_outD(5) [OF lo] by linarith
    then show "LN g i \<le> ?stop" unfolding n(1) using n(2) by (subst of_nat_le) simp_all
  qed
  have p: "passed g ?b ?start ?stop (rev ?is) u v"
    by (rule block_passed [OF v insts_backwards [OF lo ssa k] le ini(2)]) (use op in blast)
  then have once: "once (blocks_live_set v ?b)" by (simp add: passed_def)
  note ph = remove_phis [OF w once]
  have tb: "alive t ?b = alive v ?b - set (GetPhis g ?b)" "ranges_of t = ranges_of v" using ph t by (simp_all add: alive_def)
  have phi: "p \<in> alive v ?b \<and> LN g p = ?start" if "p \<in> set (GetPhis g ?b)" for p using ph that laid_outD(6) [OF lo k] by auto
  have d: "set (GetPhis g ?b) \<inter> set ?is = {}" using laid_outD(4) [OF lo] by (auto simp: insts_apart_def GetAllInsts_def dest!: spec [of _ ?b])
  have live: "alive t ?b \<subseteq> dominated g ?b"
  proof -
    have "phi_uses g ?b c \<subseteq> available g ?b (length ?is)" if "c \<in> set (bb_succs (g_bb g ?b))" for c
      using ssa that unfolding ssa_def by blast
    moreover have "alive s c \<subseteq> available g ?b (length ?is)" if "c \<in> set (bb_succs (g_bb g ?b))" for c
      using up dominated_succ [OF that] by blast
    ultimately have "alive u ?b \<subseteq> available g ?b (length ?is)" unfolding ini(1) by (intro UN_least Un_least)
    then have "fold (transfer g) (rev ?is) (alive u ?b) \<subseteq> available g ?b 0" using transfer_available [OF ssa, of 0 ?b] by simp
    moreover have "alive t ?b = fold (transfer g) (rev ?is) (alive u ?b) - set (GetPhis g ?b)"
      using ProcessInstructions_alive(1) [OF pi ini(2)] t dl by (simp add: alive_def doubly_linked_def)
    ultimately show ?thesis by (auto simp: available_dominated)
  qed
  have others: "alive t c = alive s c" if "c \<noteq> ?b" for c
    using ini(3) ProcessInstructions_alive(2) [OF pi ini(2)] that t by (simp add: alive_def)
  have starts: "starts_at t i (LN g i)" if i: "i \<in> set (GetAllInsts g ?b)" "HasDst (ji_opcode (g_inst g i))" for i
  proof (cases "i \<in> set ?is")
    case True
    then show ?thesis using p i(2) same_ranges_of(1) tb(2) by (simp add: passed_def starts_at_def)
  next
    case False
    then have "i \<in> set (GetPhis g ?b)" using i(1) by (simp add: GetAllInsts_def)
    moreover from this have "opened v i ?start 0" using p phi by (simp add: passed_def)
    ultimately show ?thesis using phi tb(2) by (simp add: opened_def starts_at_def)
  qed
  have need: "if x \<in> set ?is then opened v x (LN g x) hi else x \<in> alive v ?b \<and> opened v x ?start hi" if "needed g ?b u (rev ?is) x hi" for x hi
    using p that unfolding passed_def set_rev by blast
  have rest: "ranges_of t j = ranges_of s j" if j: "j \<notin> set (GetAllInsts g ?b)" "j \<notin> alive t ?b" for j
  proof -
    have v: "j \<notin> set ?is" "j \<notin> alive v ?b" using j tb(1) by (auto simp: GetAllInsts_def)
    have "j \<notin> alive u ?b"
    proof
      assume "j \<in> alive u ?b"
      then have "needed g ?b u (rev ?is) j 0" by (simp add: needed_def)
      then show False using need v by auto
    qed
    then have "ranges_of u j = ranges_of s j" using gr by (simp add: grown_def)
    then show ?thesis using p v tb(2) by (simp add: passed_def)
  qed
  have wants: "opened t x (birth g bs k x) hi \<and> (x \<in> set (GetAllInsts g ?b) \<or> x \<in> alive t ?b)" if "wanted g bs k s x hi" for x hi
  proof -
    have "x \<in> alive u ?b \<and> hi = ?stop \<or> (\<exists>i \<in> set ?is. x \<in> values_of (ji_inputs (g_inst g i)) \<and> hi = LN g i)"
      using that ini(1) unfolding wanted_def by blast
    then have "needed g ?b u (rev ?is) x hi" using op [of x ?stop] unfolding needed_def set_rev by auto
    then have n: "if x \<in> set ?is then opened v x (LN g x) hi else x \<in> alive v ?b \<and> opened v x ?start hi" by (rule need)
    show ?thesis
    proof (cases "x \<in> set ?is")
      case True
      then show ?thesis using n tb(2) by (simp add: birth_def GetAllInsts_def opened_def starts_at_def)
    next
      case False
      then have n: "x \<in> alive v ?b" "opened v x ?start hi" using n by auto
      then show ?thesis using phi [of x] tb False by (auto simp: birth_def GetAllInsts_def opened_def starts_at_def)
    qed
  qed
  have mono: "has_range t j lo hi" if "has_range s j lo hi" "j \<in> set ?is \<longrightarrow> LN g j \<le> lo" for j lo hi
    using grown_mono [OF gr that(1)] p that(2) tb(2) unfolding passed_def has_range_def by simp
  show ?thesis unfolding visited_def using live others starts rest wants mono by blast
qed

end
