(* ===== verification/Jit_Pipeline.thy ===== *)
theory Jit_Pipeline
  imports Jit_Visit
begin

text \<open>
  The back end as a whole: the linear order, the liveness analysis and the register allocator, run one
  after the other on code in SSA form.  The results of each step are what the next one assumes.
\<close>

subsection \<open>Liveness along the order\<close>

text \<open>
  A value is live into the block at a position of the order when the block uses it, passes it to a
  phi of a successor, or when it is live into a successor that comes later in the order, and the
  block does not define it.
\<close>

inductive live_into :: "agraph \<Rightarrow> nat list \<Rightarrow> nat \<Rightarrow> nat \<Rightarrow> bool" for g bs where
  used: "i \<in> set (GetInsts g (bs ! k)) \<Longrightarrow> x \<in> values_of (ji_inputs (g_inst g i)) \<Longrightarrow> x \<notin> set (GetAllInsts g (bs ! k)) \<Longrightarrow> live_into g bs k x"
| to_phi: "c \<in> set (bb_succs (g_bb g (bs ! k))) \<Longrightarrow> x \<in> phi_uses g (bs ! k) c \<Longrightarrow> x \<notin> set (GetAllInsts g (bs ! k)) \<Longrightarrow> live_into g bs k x"
| through: "bs ! j \<in> set (bb_succs (g_bb g (bs ! k))) \<Longrightarrow> k < j \<Longrightarrow> j < length bs \<Longrightarrow> live_into g bs j x \<Longrightarrow>
    x \<notin> set (GetAllInsts g (bs ! k)) \<Longrightarrow> live_into g bs k x"

definition live_out :: "agraph \<Rightarrow> nat list \<Rightarrow> nat \<Rightarrow> nat \<Rightarrow> bool" where
  "live_out g bs k x \<longleftrightarrow> (\<exists>c \<in> set (bb_succs (g_bb g (bs ! k))). x \<in> phi_uses g (bs ! k) c \<or>
     (\<exists>j. k < j \<and> j < length bs \<and> c = bs ! j \<and> live_into g bs j x))"

text \<open>Up to where a value is live in a block: to its end, or to an instruction that uses it.\<close>

definition live_to :: "agraph \<Rightarrow> nat list \<Rightarrow> nat \<Rightarrow> nat \<Rightarrow> u32 \<Rightarrow> bool" where
  "live_to g bs k x hi \<longleftrightarrow> (live_out g bs k x \<and> hi = of_nat (start_of g bs (Suc k))) \<or>
     (\<exists>i \<in> set (GetInsts g (bs ! k)). x \<in> values_of (ji_inputs (g_inst g i)) \<and> hi = LN g i)"

lemma live_into_cases: "live_into g bs k x \<Longrightarrow> x \<notin> set (GetAllInsts g (bs ! k)) \<and> (\<exists>hi. live_to g bs k x hi)"
  by (erule live_into.cases) (auto simp: live_to_def live_out_def)

text \<open>The blocks from position \<open>k\<close> on have been visited.\<close>

definition solved :: "agraph \<Rightarrow> nat list \<Rightarrow> nat \<Rightarrow> lv_state \<Rightarrow> bool" where
  "solved g bs k s \<longleftrightarrow> (\<forall>c. alive s c \<subseteq> dominated g c) \<and>
     (\<forall>j i. k \<le> j \<and> j < length bs \<and> i \<in> set (GetAllInsts g (bs ! j)) \<and> HasDst (ji_opcode (g_inst g i)) \<longrightarrow> starts_at s i (LN g i)) \<and>
     (\<forall>j x hi. k \<le> j \<and> j < length bs \<and> live_to g bs j x hi \<longrightarrow> has_range s x (birth g bs j x) hi) \<and>
     (\<forall>j x. k \<le> j \<and> j < length bs \<and> live_into g bs j x \<longrightarrow> x \<in> alive s (bs ! j))"

lemma later_birth:
  assumes lo: "laid_out g bs" and "k < j" "j < length bs" and i: "i \<in> set (GetInsts g (bs ! k))"
  shows "LN g i \<le> birth g bs j i"
proof -
  have ne: "bs ! k \<noteq> bs ! j" using laid_outD(2) [OF lo] assms(2,3) by (simp add: nth_eq_iff_index_eq)
  have "i \<notin> set (GetAllInsts g (bs ! j))" using apart_blocks [OF laid_outD(4) [OF lo]] ne i by (auto simp: GetAllInsts_def)
  then have b: "birth g bs j i = of_nat (start_of g bs j)" by (simp add: birth_def)
  obtain n where n: "LN g i = of_nat n" "n + 2 \<le> start_of g bs (Suc k)" using inst_number [OF lo _ i] assms(2,3) by auto
  have "start_of g bs (Suc k) \<le> start_of g bs j" using assms(2) by (intro start_of_mono) simp
  moreover have "start_of g bs j < 2 ^ 31" using start_of_bound [of g bs j] laid_outD(5) [OF lo] by linarith
  ultimately show ?thesis unfolding b n(1) using n(2) by (subst of_nat_le) simp_all
qed

lemma solved_step:
  assumes s: "solved g bs (Suc k) s" and run: "live_block g k s = Inr t" and lo: "laid_out g bs" and k: "k < length bs"
    and dl: "doubly_linked g" and ssa: "ssa g"
  shows "solved g bs k t"
proof -
  let ?b = "bs ! k"
  have up: "\<forall>c. alive s c \<subseteq> dominated g c" using s by (simp add: solved_def)
  have v: "visited g bs k s t" by (rule live_block_visited [OF run lo k dl ssa up])
  have others: "alive t c = alive s c" if "c \<noteq> ?b" for c using v that by (simp add: visited_def)
  have ne: "bs ! j \<noteq> ?b" if "Suc k \<le> j" "j < length bs" for j
    using laid_outD(2) [OF lo] that k by (simp add: nth_eq_iff_index_eq)
  have up': "alive t c \<subseteq> dominated g c" for c using v up others by (cases "c = ?b") (auto simp: visited_def)
  have starts: "starts_at t i (LN g i)"
    if j: "k \<le> j" "j < length bs" and i: "i \<in> set (GetAllInsts g (bs ! j))" "HasDst (ji_opcode (g_inst g i))" for j i
  proof (cases "j = k")
    case False
    then have j': "Suc k \<le> j" using j by simp
    have "i \<notin> set (GetAllInsts g ?b)" using apart_blocks [OF laid_outD(4) [OF lo] i(1)] ne [OF j' j(2)] by blast
    moreover have "i \<notin> alive t ?b"
    proof
      assume "i \<in> alive t ?b"
      then obtain d where d: "dominates g d ?b" "i \<in> set (GetAllInsts g d)" using up' by (auto simp: dominated_def)
      have "d \<in> set (take (Suc k) bs)" by (rule dominator_before [OF laid_outD(3) [OF lo] k d(1)])
      moreover have "d = bs ! j" by (rule apart_blocks [OF laid_outD(4) [OF lo] d(2) i(1)])
      ultimately obtain m where "m < Suc k" "bs ! m = bs ! j" using k by (auto simp: in_set_conv_nth)
      then show False using laid_outD(2) [OF lo] j' j(2) k by (simp add: nth_eq_iff_index_eq)
    qed
    ultimately have "ranges_of t i = ranges_of s i" using v by (simp add: visited_def)
    moreover have "starts_at s i (LN g i)" using s j' j(2) i by (simp add: solved_def)
    ultimately show ?thesis using same_ranges_of(1) by blast
  qed (use v i in \<open>simp add: visited_def\<close>)
  have here: "opened t x (birth g bs k x) hi \<and> (x \<in> set (GetAllInsts g ?b) \<or> x \<in> alive t ?b)" if "live_to g bs k x hi" for x hi
  proof -
    have "x \<in> alive s (bs ! j)" if "k < j" "j < length bs" "live_into g bs j x" for j using s that by (simp add: solved_def)
    then have "wanted g bs k s x hi" using that unfolding live_to_def live_out_def wanted_def by blast
    then show ?thesis using v by (simp add: visited_def)
  qed
  have covers: "has_range t x (birth g bs j x) hi" if j: "k \<le> j" "j < length bs" and n: "live_to g bs j x hi" for j x hi
  proof (cases "j = k")
    case True
    then show ?thesis using here n opened_range by blast
  next
    case False
    then have "k < j" using j by simp
    then have "has_range s x (birth g bs j x) hi" using s j(2) n by (simp add: solved_def)
    then show ?thesis using v later_birth [OF lo \<open>k < j\<close> j(2)] by (simp add: visited_def)
  qed
  have into: "x \<in> alive t (bs ! j)" if j: "k \<le> j" "j < length bs" and n: "live_into g bs j x" for j x
  proof (cases "j = k")
    case True
    then show ?thesis using here live_into_cases n by blast
  next
    case False
    then show ?thesis using s n j ne [of j] others by (simp add: solved_def)
  qed
  show ?thesis unfolding solved_def using up' starts covers into by blast
qed

lemma solved_run:
  assumes "fold_res (live_block g) (rev [0..<n]) s = Inr t" and "solved g bs n s" and "n \<le> length bs"
    and "laid_out g bs" and "doubly_linked g" and "ssa g"
  shows "solved g bs 0 t"
  using assms(1-3)
proof (induction n arbitrary: s)
  case (Suc n)
  then obtain u where u: "live_block g n s = Inr u" "fold_res (live_block g) (rev [0..<n]) u = Inr t" by (auto simp: res_simps)
  have "solved g bs n u" by (rule solved_step [OF Suc.prems(2) u(1) assms(4) _ assms(5,6)]) (use Suc.prems(3) in simp)
  then show ?case using Suc.IH [OF u(2)] Suc.prems(3) by simp
qed simp

definition lv_init :: lv_state where
  "lv_init = \<lparr>blocks_live_set = (\<lambda>_. []), insts_live_ranges = (\<lambda>_. None)\<rparr>"

lemma life_ranges_solved:
  assumes "CalculateLifeRanges g lv_init = Inr t" and "laid_out g bs" and "doubly_linked g" and "ssa g"
  shows "solved g bs 0 t"
proof (rule solved_run)
  show "fold_res (live_block g) (rev [0..<length bs]) lv_init = Inr t"
    using assms(1) unfolding CalculateLifeRanges_def linear_entry(3) [OF assms(2)] .
  show "solved g bs (length bs) lv_init" by (auto simp: solved_def lv_init_def alive_def)
qed (use assms in simp_all)

subsection \<open>Bounds of the ranges\<close>

text \<open>All ranges end by the last life number and have no location.\<close>

definition unused :: "u32 \<Rightarrow> live_range \<Rightarrow> bool" where
  "unused N r \<longleftrightarrow> lr_b r < lr_e r \<and> lr_e r \<le> N \<and> lr_loc r = None"

definition bounded :: "u32 \<Rightarrow> lv_state \<Rightarrow> bool" where
  "bounded N s \<longleftrightarrow> (\<forall>p. \<forall>r \<in> set (lrs_ranges (GetLiveRanges p s)) \<union> set (lrs_loop_ranges (GetLiveRanges p s)). unused N r)"

lemma GetLiveRanges_put [simp]: "GetLiveRanges p (put_ranges q x s) = (if p = q then x else GetLiveRanges p s)"
  by (simp add: GetLiveRanges_def put_ranges_def)

lemma bounded_put:
  assumes "bounded N s" and "\<forall>r \<in> set (lrs_ranges x) \<union> set (lrs_loop_ranges x). unused N r"
  shows "bounded N (put_ranges p x s)"
  using assms by (auto simp: bounded_def)

lemma bounded_sets: "insts_live_ranges t = insts_live_ranges s \<Longrightarrow> bounded N t = bounded N s"
  by (simp add: bounded_def GetLiveRanges_def)

lemma bounded_Extend [simp]: "bounded N (Extend b p s) = bounded N s"
  by (rule bounded_sets) (simp add: Extend_def)

lemma bounded_LS_Remove: "LS_Remove b i s = Inr t \<Longrightarrow> bounded N s \<Longrightarrow> bounded N t"
  using bounded_sets [of t s N] by (auto simp: LS_Remove_def res_simps)

lemma bounded_AddRange: "AddRange p b e s = Inr t \<Longrightarrow> e \<le> N \<Longrightarrow> bounded N s \<Longrightarrow> bounded N t"
  by (auto simp: AddRange_def LiveRange_def res_simps Let_def unused_def intro!: bounded_put) (auto simp: bounded_def unused_def)

lemma bounded_AppendLoopRange: "AppendLoopRange p b e s = Inr t \<Longrightarrow> e \<le> N \<Longrightarrow> bounded N s \<Longrightarrow> bounded N t"
  by (auto simp: AppendLoopRange_def LiveRange_def res_simps Let_def unused_def intro!: bounded_put) (auto simp: bounded_def unused_def)

lemma bounded_FinalizeDef:
  assumes "FinalizeDef p d s = Inr t" and "bounded N s"
  shows "bounded N t"
proof -
  from assms(1) obtain r where r: "lrs_ranges (GetLiveRanges p s) \<noteq> []" "TrimBegin d (last (lrs_ranges (GetLiveRanges p s))) = Inr r"
    "t = put_ranges p ((GetLiveRanges p s)\<lparr>lrs_ranges := butlast (lrs_ranges (GetLiveRanges p s)) @ [r]\<rparr>) s"
    by (auto simp: FinalizeDef_def res_simps Let_def)
  have old: "\<forall>r \<in> set (lrs_ranges (GetLiveRanges p s)) \<union> set (lrs_loop_ranges (GetLiveRanges p s)). unused N r"
    using assms(2) by (simp add: bounded_def)
  then have "unused N (last (lrs_ranges (GetLiveRanges p s)))" using r(1) by simp
  then have "unused N r" using r(2) by (auto simp: TrimBegin_def res_simps unused_def)
  then show ?thesis unfolding r(3) using old by (intro bounded_put [OF assms(2)]) (auto dest: in_set_butlastD)
qed

lemma bounded_fold: "fold_res f xs s = Inr t \<Longrightarrow> bounded N s \<Longrightarrow> (\<And>x u v. x \<in> set xs \<Longrightarrow> f x u = Inr v \<Longrightarrow> bounded N u \<Longrightarrow> bounded N v) \<Longrightarrow> bounded N t"
  by (erule fold_res_invariant [where P = "bounded N"]) auto

lemma bounded_InitializeBlock:
  assumes "InitializeBlock b x y g s = Inr t" and "y \<le> N" and "bounded N s"
  shows "bounded N t"
proof -
  have run: "fold_res (\<lambda>c t. rbind (fold_res (\<lambda>i u. if i \<noteq> None \<and> \<not> Has b i u then AddRange i x y (Extend b i u) else Inr u)
          (blocks_live_set t c) t) (\<lambda>t1. rbind (GetPredIdx c b g) (\<lambda>k. fold_res (\<lambda>p u. rbind (GetInput p k g) (\<lambda>i.
            if \<not> Has b i u then AddRange i x y (Extend b i u) else Inr u)) (GetPhis g c) t1)))
        (bb_succs (g_bb g b)) s = Inr t"
    using assms(1) by (auto simp: InitializeBlock_def res_simps)
  have add: "bounded N v" if "(if P \<and> \<not> Has b i u then AddRange i x y (Extend b i u) else Inr u) = Inr v" "bounded N u" for P i u v
    using that bounded_AddRange [OF _ assms(2), of i x "Extend b i u" v] by (auto split: if_splits)
  show ?thesis
  proof (rule bounded_fold [OF run assms(3)])
    fix c u v
    assume "rbind (fold_res (\<lambda>i u. if i \<noteq> None \<and> \<not> Has b i u then AddRange i x y (Extend b i u) else Inr u)
          (blocks_live_set u c) u) (\<lambda>t1. rbind (GetPredIdx c b g) (\<lambda>k. fold_res (\<lambda>p u. rbind (GetInput p k g) (\<lambda>i.
            if \<not> Has b i u then AddRange i x y (Extend b i u) else Inr u)) (GetPhis g c) t1)) = Inr v" and u: "bounded N u"
    then obtain w k where w: "fold_res (\<lambda>i u. if i \<noteq> None \<and> \<not> Has b i u then AddRange i x y (Extend b i u) else Inr u)
          (blocks_live_set u c) u = Inr w"
      and v: "fold_res (\<lambda>p u. rbind (GetInput p k g) (\<lambda>i. if \<not> Has b i u then AddRange i x y (Extend b i u) else Inr u))
          (GetPhis g c) w = Inr v" by (auto simp: res_simps)
    have "bounded N w" by (rule bounded_fold [OF w u]) (rule add)
    then show "bounded N v" by (rule bounded_fold [OF v]) (use add [of True] in \<open>auto simp: res_simps\<close>)
  qed
qed

lemma bounded_process_inst:
  assumes "process_inst b start g i s = Inr t" and "LN g i \<le> N" "LN g i + 2 \<le> N" and "bounded N s"
  shows "bounded N t"
proof -
  from assms(1) obtain u where u: "(if HasDst (ji_opcode (g_inst g i)) then
          if HasUsers g i then rbind (FinalizeDef (Some i) (LN g i) s) (LS_Remove b i)
          else rbind (AddRange (Some i) (LN g i) (LN g i + 2) s) (\<lambda>t. guard (\<not> Has b (Some i) t) AssertFailed (Inr t))
        else guard (\<not> Has b (Some i) s) AssertFailed (Inr s)) = Inr u"
    and t: "fold_res (\<lambda>x t. if \<not> Has b x t then rbind (AddRange x start (LN g i) t) (\<lambda>u. Inr (Extend b x u)) else Inr t)
             (ji_inputs (g_inst g i)) u = Inr t"
    by (auto simp: process_inst_def res_simps)
  have "bounded N u"
    using u assms(2-4) by (auto simp: res_simps split: if_splits intro: bounded_FinalizeDef bounded_LS_Remove bounded_AddRange)
  then show ?thesis
    by (rule bounded_fold [OF t]) (auto simp: res_simps split: if_splits intro: bounded_AddRange [OF _ assms(2)])
qed

lemma bounded_ProcessLoop:
  assumes "ProcessLoop k g s = Inr t" and "laid_out g bs" and "k < length bs" and "bounded (of_nat (total g bs)) s"
  shows "bounded (of_nat (total g bs)) t"
proof -
  have loops: "loop_end l es g = Inr e \<Longrightarrow> e \<in> snd ` set es" for l es e
    by (induction es) (auto simp: deref_def res_simps split: if_splits)
  from assms(1) obtain h l b e where e0: "loop_end l (drop (Suc k) (g_linear g)) g = Inr e"
    and run: "fold_res (\<lambda>i t. if i \<noteq> None then AppendLoopRange i b (of_nat e) t else Inr t) (blocks_live_set s h) s = Inr t"
    by (auto simp: ProcessLoop_def deref_def res_simps)
  have "e \<in> snd ` set (g_linear g)" using loops [OF e0] set_drop_subset by fast
  then obtain j where j: "j < length (g_linear g)" "e = snd (g_linear g ! j)" by (auto simp: set_conv_nth)
  then have "e = start_of g bs j" using linear_entry(2,3) [OF assms(2)] by auto
  then have "e \<le> total g bs" using start_of_bound by simp
  then have "(of_nat e :: u32) \<le> of_nat (total g bs)" using laid_outD(5) [OF assms(2)] by (subst of_nat_le) simp_all
  then show ?thesis
    by (intro bounded_fold [OF run assms(4)]) (auto split: if_splits intro: bounded_AppendLoopRange)
qed

lemma bounded_live_block:
  assumes run: "live_block g k s = Inr t" and lo: "laid_out g bs" and k: "k < length bs" and dl: "doubly_linked g"
    and s: "bounded (of_nat (total g bs)) s"
  shows "bounded (of_nat (total g bs)) t"
proof -
  let ?N = "of_nat (total g bs) :: u32"
  obtain u v w where p: "InitializeBlock (bs ! k) (of_nat (start_of g bs k)) (of_nat (start_of g bs (Suc k))) g s = Inr u"
    "fold_res (process_inst (bs ! k) (of_nat (start_of g bs k)) g) (rev (GetInsts g (bs ! k))) u = Inr v"
    "fold_res (LS_Remove (bs ! k)) (GetPhis g (bs ! k)) v = Inr w" "w = t \<or> ProcessLoop k g w = Inr t"
    by (rule live_block_parts [OF run lo k dl]) blast
  have le: "(of_nat n :: u32) \<le> ?N" if "n \<le> start_of g bs (Suc k)" for n
    using that start_of_bound [of g bs "Suc k"] laid_outD(5) [OF lo] by (subst of_nat_le) simp_all
  have "bounded ?N u" by (rule bounded_InitializeBlock [OF p(1) le s]) simp
  then have "bounded ?N v"
  proof (rule bounded_fold [OF p(2)])
    fix i x y assume i: "i \<in> set (rev (GetInsts g (bs ! k)))" and "process_inst (bs ! k) (of_nat (start_of g bs k)) g i x = Inr y" "bounded ?N x"
    moreover obtain n where "LN g i = of_nat n" "n + 2 \<le> start_of g bs (Suc k)" using inst_number [OF lo k, of i] i by auto
    then have "LN g i \<le> ?N" "LN g i + 2 \<le> ?N" using le [of n] le [of "n + 2"] by (simp_all add: add.commute)
    ultimately show "bounded ?N y" using bounded_process_inst by blast
  qed
  then have "bounded ?N w" by (rule bounded_fold [OF p(3)]) (rule bounded_LS_Remove)
  then show ?thesis using p(4) bounded_ProcessLoop [OF _ lo k] by blast
qed

lemma life_ranges_bounded:
  assumes "CalculateLifeRanges g lv_init = Inr t" and "laid_out g bs" and "doubly_linked g"
  shows "bounded (of_nat (total g bs)) t"
proof -
  have run: "fold_res (live_block g) (rev [0..<length bs]) lv_init = Inr t"
    using assms(1) unfolding CalculateLifeRanges_def linear_entry(3) [OF assms(2)] .
  have "bounded (of_nat (total g bs)) lv_init" by (simp add: bounded_def lv_init_def GetLiveRanges_def)
  then show ?thesis by (rule bounded_fold [OF run]) (use bounded_live_block [OF _ assms(2) _ assms(3)] in auto)
qed

subsection \<open>Intervals\<close>

text \<open>Merging keeps where the interval begins, and gives no range a location.\<close>

definition begun :: "u32 \<Rightarrow> live_interval \<Rightarrow> bool" where
  "begun n v \<longleftrightarrow> iv_ranges v \<noteq> [] \<and> Startpoint v = n \<and> (\<forall>r \<in> set (iv_ranges v). lr_loc r = None)"

definition unlocated :: "live_range list \<Rightarrow> bool" where
  "unlocated rs \<longleftrightarrow> (\<forall>r \<in> set rs. lr_loc r = None)"

lemma begun_ExtendActive:
  assumes "ExtendActive e v = Inr w" and "begun n v"
  shows "begun n w"
proof -
  obtain rs r where v: "iv_ranges v = rs @ [r]" using assms(2) by (cases "iv_ranges v" rule: rev_cases) (auto simp: begun_def)
  then have "iv_ranges w = rs @ [r\<lparr>lr_e := e\<rparr>]"
    using assms(1) by (auto simp: ExtendActive_def Prolong_def IntervalsBack_def res_simps)
  then show ?thesis using assms(2) v by (cases rs) (auto simp: begun_def Startpoint_def)
qed

lemma begun_append: "begun n v \<Longrightarrow> lr_loc r = None \<Longrightarrow> begun n (AppendAfterHole r v)"
  by (auto simp: begun_def AppendAfterHole_def Startpoint_def hd_append)

lemma begun_merge: "merge_ranges v rs = Inr (w, ss) \<Longrightarrow> begun n v \<Longrightarrow> unlocated rs \<Longrightarrow> begun n w \<and> unlocated ss"
proof (induction v rs rule: merge_ranges.induct)
  case (2 v r rs)
  then show ?case by (auto simp: res_simps unlocated_def split: if_splits dest: begun_ExtendActive)
qed simp

lemma unlocated_dropWhile: "unlocated rs \<Longrightarrow> unlocated (dropWhile P rs)"
  by (auto simp: unlocated_def dest: set_dropWhileD)

lemma begun_absorb:
  assumes "absorb_loop lb le v rs = Inr (w, ss)" and "begun n v" and "unlocated rs"
  shows "begun n w \<and> unlocated ss"
proof -
  from assms(1) obtain x where x: "ExtendActive le v = Inr x" by (auto simp: absorb_loop_def res_simps)
  let ?ds = "dropWhile (\<lambda>r. zx (lr_e r) < sx le) rs"
  have run: "(case ?ds of [] \<Rightarrow> Inr (x, []) | r # rest \<Rightarrow>
      if zx (lr_b r) \<le> sx le then rbind (ExtendActive (lr_e r) x) (\<lambda>y. Inr (y, rest)) else Inr (x, r # rest)) = Inr (w, ss)"
    using assms(1) by (simp only: absorb_loop_def x rbind.simps)
  have b: "begun n x" by (rule begun_ExtendActive [OF x assms(2)])
  have u: "unlocated ?ds" by (rule unlocated_dropWhile [OF assms(3)])
  show ?thesis
  proof (cases ?ds)
    case Nil
    then show ?thesis using run b unfolding Nil by (simp add: unlocated_def)
  next
    case (Cons r rest)
    then have "unlocated (r # rest)" using u by simp
    then show ?thesis using run b unfolding Cons by (auto simp: unlocated_def res_simps split: if_splits dest: begun_ExtendActive)
  qed
qed

lemma begun_fill: "fill_interval k v rs ls = Inr w \<Longrightarrow> begun n v \<Longrightarrow> unlocated rs \<Longrightarrow> begun n w"
proof (induction k arbitrary: v rs ls)
  case (Suc k)
  show ?case
  proof (cases "ls \<noteq> [] \<and> sx (lr_b (hd ls)) \<le> zx (Endpoint v)")
    case True
    let ?lb = "lr_b (hd ls)" and ?le = "lr_e (hd ls)"
    show ?thesis
    proof (cases "sx ?le \<le> zx (Endpoint v)")
      case inner: True
      then have "fill_interval k v rs (tl ls) = Inr w" using Suc.prems(1) True by (auto simp: res_simps Let_def)
      then show ?thesis using Suc by blast
    next
      case False
      then obtain x ss ms where x: "absorb_loop ?lb ?le v rs = Inr (x, ss)" "fill_interval k x ss ms = Inr w"
        using Suc.prems(1) True by (auto simp: res_simps Let_def)
      show ?thesis using begun_absorb [OF x(1) Suc.prems(2,3)] Suc.IH [OF x(2)] by blast
    qed
  next
    case False
    obtain x ss where x: "merge_ranges v rs = Inr (x, ss)"
      using Suc.prems(1) False by (cases "merge_ranges v rs") (auto split: prod.splits)
    note rest = Suc.prems(1) [unfolded fill_after_merge [OF False x]]
    have b: "begun n x" "unlocated ss" using begun_merge [OF x Suc.prems(2,3)] by auto
    show ?thesis
    proof (cases ss)
      case Nil
      then show ?thesis using rest b Suc.IH by (auto split: if_splits)
    next
      case (Cons r rs')
      then have "begun n (AppendAfterHole r x)" "unlocated rs'" using b begun_append by (auto simp: unlocated_def)
      then show ?thesis using rest b Suc.IH Cons by (auto simp: res_simps split: if_splits)
    qed
  qed
qed simp

lemma fill_one_begun:
  assumes "fill_one p g x = Inr v" and "unlocated (lrs_ranges x)"
  shows "lrs_ranges x \<noteq> [] \<and> begun (lr_b (last (lrs_ranges x))) v"
proof -
  have c: "CheckRanges x = Inr ()" and ne: "lrs_ranges x \<noteq> []" using assms(1) by (auto simp: fill_one_def CheckRanges_def res_simps)
  obtain rs r where x: "lrs_ranges x = rs @ [r]" using ne by (cases "lrs_ranges x" rule: rev_cases) auto
  then have r: "rev (lrs_ranges x) = r # rev rs" by simp
  from assms(1) [unfolded fill_one_parts [OF c r]] obtain w
    where w: "fill_interval (fill_fuel (rev rs) (rev (lrs_loop_ranges x))) (LiveInterval r) (rev rs) (rev (lrs_loop_ranges x)) = Inr w"
    "FillIntervalUsepoints p g w = Inr v" by (auto simp: res_simps)
  have "begun (lr_b r) w"
    by (rule begun_fill [OF w(1)]) (use assms(2) x in \<open>auto simp: begun_def LiveInterval_def Startpoint_def unlocated_def\<close>)
  then show ?thesis using x usepoints_same [OF w(2)] by (simp add: begun_def Startpoint_def)
qed

lemma FillIntervals_entry:
  assumes "FillIntervals g s = Inr m" and "m p = Some v"
  shows "\<exists>x. insts_live_ranges s p = Some x \<and> fill_one p g x = Inr v"
proof -
  have "\<forall>p v. m p = Some v \<longrightarrow> (\<exists>x. insts_live_ranges s p = Some x \<and> fill_one p g x = Inr v)"
    by (rule fold_res_invariant [OF assms(1) [unfolded FillIntervals_def]]) (auto simp: res_simps split: option.splits if_splits)
  then show ?thesis using assms(2) by blast
qed

lemma FillIntervals_has:
  assumes "FillIntervals g s = Inr m" and "p \<in> set (None # map Some [0..<g_insts_count g])" and "insts_live_ranges s p = Some x"
  shows "m p \<noteq> None"
proof -
  have keep: "n q \<noteq> None" if "m0 q \<noteq> None" "fold_res (\<lambda>p m. case insts_live_ranges s p of None \<Rightarrow> Inr m
      | Some x \<Rightarrow> rbind (fill_one p g x) (\<lambda>v. Inr (m(p := Some v)))) ps m0 = Inr n" for m0 n ps q
    by (rule fold_res_invariant [OF that(2), where P = "\<lambda>m. m q \<noteq> None"]) (use that(1) in \<open>auto simp: res_simps split: option.splits\<close>)
  obtain us vs where split: "None # map Some [0..<g_insts_count g] = us @ p # vs" using assms(2) by (meson split_list)
  from assms(1) [unfolded FillIntervals_def split fold_res_append] obtain m1 v where
    "fold_res (\<lambda>p m. case insts_live_ranges s p of None \<Rightarrow> Inr m | Some x \<Rightarrow> rbind (fill_one p g x) (\<lambda>v. Inr (m(p := Some v)))) vs
      (m1(p := Some v)) = Inr m"
    using assms(3) by (auto simp: res_simps)
  then show ?thesis by (rule keep [rotated]) simp
qed

subsection \<open>The steps together\<close>

text \<open>What the back end assumes of a graph.\<close>

definition compilable :: "agraph \<Rightarrow> bool" where
  "compilable g \<longleftrightarrow> marks_fresh g \<and> insts_apart g \<and> doubly_linked g \<and> ssa g"

lemma ordered_graph:
  assumes "compilable g" and "BuildLinearOrder g = Inr h" and "g_max_ln h < 2 ^ 31"
  shows "laid_out h (order_blocks h)" "doubly_linked h" "ssa h" "same_graph g h"
proof -
  have c: "marks_fresh g" "insts_apart g" "doubly_linked g" "ssa g" using assms(1) by (simp_all add: compilable_def)
  obtain bs where bs: "laid_out h bs" "same_graph g h" by (rule linear_order_laid_out [OF assms(2) c(1,2) assms(3)])
  have "map fst (order_of h bs) = map Some bs" by (simp add: order_of_def) (rule nth_equalityI, simp_all)
  then have l: "map fst (g_linear h) = map Some bs @ [None]" using laid_outD(1) [OF bs(1)] by simp
  have t: "takeWhile (\<lambda>p. p \<noteq> None) (map Some xs @ [None]) = map Some xs" for xs :: "nat list" by (induction xs) simp_all
  have "order_blocks h = bs" unfolding order_blocks_def l t by (simp add: o_def)
  then show "laid_out h (order_blocks h)" "doubly_linked h" "ssa h" "same_graph g h"
    using bs c same_order(7) [OF bs(2)] same_lists [OF bs(2)] same_ssa [OF bs(2)] by (simp_all add: doubly_linked_def)
qed

lemma liveness_result:
  assumes lo: "laid_out g bs" and dl: "doubly_linked g" and ssa: "ssa g" and run: "BuildLiveness g = Inr m"
  obtains (reducible) s where "g_reducible g" "solved g bs 0 s" "FillIntervals g s = Inr m"
      "\<And>p v. m p = Some v \<Longrightarrow> \<exists>x. insts_live_ranges s p = Some x \<and> fill_one p g x = Inr v \<and> ranges_ok x \<and> unlocated (lrs_ranges x)"
    | (irreducible) "\<not> g_reducible g" "m = (\<lambda>_. None)"
proof (cases "g_reducible g")
  case True
  then obtain s where s: "CalculateLifeRanges g lv_init = Inr s" "FillIntervals g s = Inr m"
    using run by (auto simp: BuildLiveness_def lv_init_def res_simps)
  have b: "bounded (of_nat (total g bs)) s" by (rule life_ranges_bounded [OF s(1) lo dl])
  have ok: "ranges_ok x \<and> unlocated (lrs_ranges x)" if "insts_live_ranges s p = Some x" for p x
  proof -
    have u: "\<forall>r \<in> set (lrs_ranges x) \<union> set (lrs_loop_ranges x). unused (of_nat (total g bs)) r"
      using b that by (auto simp: bounded_def GetLiveRanges_def split: option.splits)
    have "small w" if "w \<le> of_nat (total g bs)" for w
      using that laid_outD(5) [OF lo] by (simp add: small_def word_le_nat_alt unat_of_nat)
    then show ?thesis using u by (auto simp: ranges_ok_def unlocated_def unused_def)
  qed
  show thesis by (rule reducible [OF True life_ranges_solved [OF s(1) lo dl ssa] s(2)]) (use FillIntervals_entry [OF s(2)] ok in blast)
next
  case False
  then show thesis using irreducible run by (auto simp: BuildLiveness_def res_simps)
qed

lemma interval_start:
  assumes "laid_out g bs" "doubly_linked g" "ssa g" "BuildLiveness g = Inr m" and "m (Some i) = Some v"
    and "k < length bs" "i \<in> set (GetAllInsts g (bs ! k))" "HasDst (ji_opcode (g_inst g i))"
  shows "Startpoint v = LN g i"
  using assms(1-4)
proof (cases rule: liveness_result)
  case (reducible s)
  then obtain x where x: "insts_live_ranges s (Some i) = Some x" "fill_one (Some i) g x = Inr v" "unlocated (lrs_ranges x)"
    using assms(5) by blast
  have "starts_at s i (LN g i)" using reducible(2) assms(6-8) by (simp add: solved_def)
  then show ?thesis using fill_one_begun [OF x(2,3)] x(1) by (simp add: starts_at_def ranges_of_def GetLiveRanges_def begun_def)
qed (use assms(5) in simp)

lemma intervals_unplaced:
  assumes "laid_out g bs" "doubly_linked g" "ssa g" "BuildLiveness g = Inr m"
  shows "unplaced m"
  using assms
proof (cases rule: liveness_result)
  case (reducible s)
  show ?thesis unfolding unplaced_def
  proof (intro allI impI)
    fix p v assume "m p = Some v"
    then obtain x where x: "fill_one p g x = Inr v" "ranges_ok x" "unlocated (lrs_ranges x)" using reducible(4) by blast
    obtain r rs w where "answer (LiveInterval r) rs (rev (lrs_loop_ranges x)) w" "iv_ranges v = iv_ranges w"
      by (rule fill_one_answer [OF x(1,2)])
    then have "valid_ranges (iv_ranges v)" by (simp add: answer_def separated_def)
    then show "iv_ranges v \<noteq> [] \<and> valid_ranges (iv_ranges v) \<and> (\<forall>r \<in> set (iv_ranges v). lr_loc r = None)"
      using fill_one_begun [OF x(1,3)] by (simp add: begun_def)
  qed
qed (simp add: unplaced_def)

text \<open>The allocator visits the instructions in the order of their life numbers.\<close>

lemma order_sorted:
  assumes lo: "laid_out g bs" and "n \<le> length bs"
  shows "distinct (concat (map (GetAllInsts g) (take n bs))) \<and> sorted (map (LN g) (concat (map (GetAllInsts g) (take n bs)))) \<and>
    (\<forall>i \<in> set (concat (map (GetAllInsts g) (take n bs))). LN g i < of_nat (start_of g bs n) \<and> even (LN g i))"
  using assms(2)
proof (induction n)
  case (Suc n)
  then have n: "n < length bs" by simp
  let ?b = "bs ! n"
  define pre where "pre = concat (map (GetAllInsts g) (take n bs))"
  have IH: "distinct pre" "sorted (map (LN g) pre)" "\<forall>i \<in> set pre. LN g i < of_nat (start_of g bs n) \<and> even (LN g i)"
    using Suc.IH n by (auto simp: pre_def)
  have split: "concat (map (GetAllInsts g) (take (Suc n) bs)) = pre @ GetAllInsts g ?b"
    using n by (simp add: pre_def take_Suc_conv_app_nth)
  have lt: "start_of g bs n < start_of g bs (Suc n)" "start_of g bs (Suc n) < 2 ^ 31"
    using start_of_Suc [OF n, of g] start_of_bound [of g bs "Suc n"] laid_outD(5) [OF lo] by (auto simp: size_of_def)
  have "even (total g xs)" for xs by (induction xs) (simp_all add: size_of_def)
  then have ev: "even (start_of g bs k)" for k by (simp add: start_of_def)
  have here: "of_nat (start_of g bs n) \<le> LN g i \<and> LN g i < of_nat (start_of g bs (Suc n)) \<and> even (LN g i)"
    if "i \<in> set (GetAllInsts g ?b)" for i
  proof (cases "i \<in> set (GetPhis g ?b)")
    case True
    then show ?thesis using laid_outD(6) [OF lo n] lt ev by (simp add: of_nat_less even_of_nat_iff)
  next
    case False
    then have "i \<in> set (GetInsts g ?b)" using that by (simp add: GetAllInsts_def)
    then obtain j where j: "j < length (GetInsts g ?b)" "i = GetInsts g ?b ! j" by (metis in_set_conv_nth)
    define c where "c = start_of g bs n + 2 * Suc j"
    have num: "LN g i = of_nat c" using laid_outD(7) [OF lo n j(1)] j(2) by (simp add: c_def)
    have bound: "start_of g bs n \<le> c" "c < start_of g bs (Suc n)" "even c"
      using start_of_Suc [OF n, of g] j(1) ev by (simp_all add: size_of_def c_def)
    then show ?thesis unfolding num using lt by (simp add: of_nat_less of_nat_le even_of_nat_iff)
  qed
  have "sorted (map (LN g) (GetAllInsts g ?b))"
  proof -
    have p: "LN g p = of_nat (start_of g bs n)" if "p \<in> set (GetPhis g ?b)" for p by (rule laid_outD(6) [OF lo n that])
    then have "map (LN g) (GetPhis g ?b) = replicate (length (GetPhis g ?b)) (of_nat (start_of g bs n))"
      by (intro nth_equalityI) simp_all
    then have "sorted (map (LN g) (GetPhis g ?b))" by simp
    moreover have "sorted (map (LN g) (GetInsts g ?b))" using insts_ascend [OF lo n] by (simp add: sorted_wrt_map)
    ultimately show ?thesis using p here by (auto simp: GetAllInsts_def sorted_append)
  qed
  moreover have "distinct (GetAllInsts g ?b)" using laid_outD(4) [OF lo] by (simp add: insts_apart_def)
  moreover have "i \<notin> set pre" if "i \<in> set (GetAllInsts g ?b)" for i
    using IH(3) here [OF that] leD by blast
  then have "set pre \<inter> set (GetAllInsts g ?b) = {}" by blast
  moreover have "LN g i \<le> LN g j" if "i \<in> set pre" "j \<in> set (GetAllInsts g ?b)" for i j
    using IH(3) here [OF that(2)] that(1) by (meson less_imp_le order_trans)
  moreover have "LN g i < of_nat (start_of g bs (Suc n))" if "i \<in> set pre" for i
    using IH(3) that lt of_nat_less [of "start_of g bs n" "start_of g bs (Suc n)"] by (fastforce intro: less_trans)
  ultimately show ?case unfolding split using IH here by (auto simp: sorted_append)
qed (simp add: start_of_def)

lemma in_order:
  assumes "i \<in> set (alloc_order h)"
  obtains k where "k < length (order_blocks h)" "i \<in> set (GetAllInsts h (order_blocks h ! k))"
  using assms that unfolding alloc_order_def by (auto) (metis in_set_conv_nth)

lemma allocator_input:
  assumes "compilable g" and "BuildLinearOrder g = Inr h" and "g_max_ln h < 2 ^ 31" and "BuildLiveness h = Inr m"
  shows "alloc_input h (alloc_order h) m"
proof -
  note o = ordered_graph [OF assms(1-3)]
  let ?bs = "order_blocks h"
  have order: "distinct (alloc_order h)" "sorted (map (LN h) (alloc_order h))" "\<forall>i \<in> set (alloc_order h). even (LN h i)"
    using order_sorted [OF o(1) order_refl] by (simp_all add: alloc_order_def)
  have "Startpoint v = LN h i" if i: "i \<in> set (alloc_order h)" "HasDst (ji_opcode (g_inst h i))" "m (Some i) = Some v" for i v
  proof -
    obtain k where k: "k < length ?bs" "i \<in> set (GetAllInsts h (?bs ! k))" by (rule in_order [OF i(1)])
    show ?thesis by (rule interval_start [OF o(1-3) assms(4) i(3) k i(2)])
  qed
  then show ?thesis using order intervals_unplaced [OF o(1-3) assms(4)] by (simp add: alloc_input_def)
qed

text \<open>
  C29: In code in SSA form that has been put in order, the interval that liveness analysis computes for
  a value begins at the instruction that defines it, and there is one for every such instruction of a
  reducible graph.
\<close>

theorem intervals_begin_at_definitions:
  assumes "compilable g" and "BuildLinearOrder g = Inr h" and "g_max_ln h < 2 ^ 31" and "BuildLiveness h = Inr m"
    and "i \<in> set (alloc_order h)" "HasDst (ji_opcode (g_inst h i))" and "g_reducible h" "i < g_insts_count h"
  shows "\<exists>v. m (Some i) = Some v \<and> Startpoint v = LN h i"
proof -
  note o = ordered_graph [OF assms(1-3)]
  obtain k where k: "k < length (order_blocks h)" "i \<in> set (GetAllInsts h (order_blocks h ! k))" by (rule in_order [OF assms(5)])
  from o(1-3) assms(4) show ?thesis
  proof (cases rule: liveness_result)
    case (reducible s)
    have "starts_at s i (LN h i)" using reducible(2) k assms(6) by (simp add: solved_def)
    then obtain x where "insts_live_ranges s (Some i) = Some x"
      by (auto simp: starts_at_def ranges_of_def GetLiveRanges_def split: option.splits)
    then obtain v where "m (Some i) = Some v" using FillIntervals_has [OF reducible(3)] assms(8) by fastforce
    then show ?thesis using interval_start [OF o(1-3) assms(4) _ k assms(6)] by blast
  next
    case irreducible
    then show ?thesis using assms(7) by simp
  qed
qed

text \<open>
  C28: The interval of a value covers it wherever it is live along the order: in every block from the
  definition, or from the beginning of the block, up to each instruction that uses it, and up to the
  end of the block when a phi of a successor takes it or it is live into a successor that comes later.
\<close>

theorem intervals_cover_live_values:
  assumes "compilable g" and "BuildLinearOrder g = Inr h" and "g_max_ln h < 2 ^ 31" and "BuildLiveness h = Inr m"
    and "m (Some x) = Some v" and "k < length (order_blocks h)" and "live_to h (order_blocks h) k x hi"
    and "birth h (order_blocks h) k x \<le> q" and "q < hi"
  shows "covers v q"
proof -
  note o = ordered_graph [OF assms(1-3)]
  from o(1-3) assms(4) show ?thesis
  proof (cases rule: liveness_result)
    case (reducible s)
    obtain y where y: "insts_live_ranges s (Some x) = Some y" "fill_one (Some x) h y = Inr v" "ranges_ok y"
      using reducible(4) assms(5) by blast
    have "has_range s x (birth h (order_blocks h) k x) hi" using reducible(2) assms(6,7) by (simp add: solved_def)
    then obtain r where r: "r \<in> set (lrs_ranges y)" "lr_b r \<le> birth h (order_blocks h) k x" "hi \<le> lr_e r"
      using y(1) by (auto simp: has_range_def ranges_of_def GetLiveRanges_def)
    then have "inside r q" using assms(8,9) by (simp add: inside_def) (meson order_trans less_le_trans)
    then show ?thesis using fill_one_covers [OF y(2,3)] r(1) by (auto simp: among_def)
  qed (use assms(5) in simp)
qed

text \<open>
  C27: The linear scan keeps intervals apart: when code in SSA form has been put in order and analysed and
  \<open>AllocateRegisters\<close> has run, no two intervals of different values cover the same even life number, where
  an instruction writes its result, with ranges that are placed in the same register or in the same
  slot.  This is the state before \<open>MergePhis\<close>, which \<open>RegAlloc\<close> runs afterwards and which may put the rest
  of an input of a phi that is still live back into a register another value has by then; and the
  intervals are those that the liveness analysis has computed.
\<close>

theorem compiled_values_do_not_share_a_place:
  assumes "compilable g" and "BuildLinearOrder g = Inr h" and "g_max_ln h < 2 ^ 31" and "BuildLiveness h = Inr m"
    and "AllocateRegisters h (ra_init m) = Inr t"
    and "p \<noteq> q" and "in_place t p l r" and "in_place t q l z" and "loc_kind l \<noteq> UNDEF"
    and "even n" and "lr_b r \<le> n" and "n < lr_e r"
  shows "\<not> (lr_b z \<le> n \<and> n < lr_e z)"
  by (rule live_values_do_not_share_a_place [OF assms(5) allocator_input [OF assms(1-4)] assms(6-12)])

subsection \<open>An example\<close>

text \<open>The sum of two constants: the graph before and after \<open>BuildLinearOrder\<close>, and its intervals.\<close>

definition pipe_inst :: "jopcode \<Rightarrow> u32 \<Rightarrow> nat option list \<Rightarrow> slot option \<Rightarrow> nat option \<Rightarrow> nat option \<Rightarrow> jinst" where
  "pipe_inst c n is u p q = (new_inst c 0 INT64 0)\<lparr>ji_ln := n, ji_inputs := is, ji_users := map (\<lambda>_. None) is, ji_first_user := u, ji_prev := p, ji_next := q\<rparr>"

definition pipe_code :: "u32 \<Rightarrow> nat \<Rightarrow> jinst" where
  "pipe_code n = (\<lambda>_. new_inst JNONE 0 UNKNOWN 0)
     (0 := pipe_inst JCONST n [] (Some (2, 0)) None (Some 1), 1 := pipe_inst JCONST (2 * n) [] (Some (2, 1)) (Some 0) (Some 2),
      2 := pipe_inst JADD (3 * n) [Some 0, Some 1] None (Some 1) None)"

definition pipe_demo :: agraph where
  "pipe_demo = demo_cfg\<lparr>g_inst := pipe_code 0, g_insts_count := 3, g_bbs_count := 2,
     g_bb := (\<lambda>_. new_bb)(1 := new_bb\<lparr>bb_succs := [0], bb_loop := Some 0, bb_first_inst := Some 0, bb_last_inst := Some 2\<rparr>,
       0 := new_bb\<lparr>bb_preds := [1], bb_loop := Some 0\<rparr>),
     g_root_loop := Some 0, g_loops_count := 1\<rparr>"

definition pipe_ordered :: agraph where
  "pipe_ordered = pipe_demo\<lparr>g_inst := pipe_code 2, g_marker := 1, g_marks := (\<lambda>_. 0)(1 := 1, 0 := 1),
     g_linear := [(Some 1, 0), (Some 0, 8), (None, 10)], g_max_ln := 10\<rparr>"

lemmas pipe_defs = pipe_demo_def pipe_code_def pipe_inst_def new_inst_def demo_cfg_def new_bb_def

lemma pipe_lists:
  "GetInsts pipe_demo b = (if b = 1 then [0, 1, 2] else [])" "GetInstsRev pipe_demo b = (if b = 1 then [2, 1, 0] else [])"
  "GetPhis pipe_demo b = []"
  by (simp_all add: pipe_defs GetInsts_def GetPhis_def GetInstsRev_def follow_step)

lemma pipe_compilable: "compilable pipe_demo"
proof -
  have "marks_fresh pipe_demo" by (simp add: marks_fresh_def pipe_defs small_markers)
  moreover have "insts_apart pipe_demo" by (auto simp: insts_apart_def GetAllInsts_def pipe_lists)
  moreover have "doubly_linked pipe_demo" by (simp add: doubly_linked_def pipe_lists)
  moreover have "ssa pipe_demo"
    by (auto simp: ssa_def pipe_lists available_def phi_uses_def values_of_def less_Suc_eq_0_disj split: if_splits) (auto simp: pipe_defs)
  ultimately show ?thesis by (simp add: compilable_def)
qed

lemma pipe_order: "BuildLinearOrder pipe_demo = Inr pipe_ordered"
proof -
  have m: "NewMarker pipe_demo = Inr (1, pipe_demo\<lparr>g_marker := 1\<rparr>)"
    by (simp add: NewMarker_def pipe_defs small_markers)
  show ?thesis
    unfolding BuildLinearOrder_def m rbind.simps prod.case
    by (simp add: pipe_ordered_def pipe_defs eval_nat_numeral loop_defs IsLoopAnalysisValid_def AllSidePredsMarked_def
        AssignLifeNumbers_def header_seen_def AllBackEdgesMarked_def GetInsts_def GetPhis_def SetLifeNumber_def upd_inst_def)
qed

definition pipe_ivs :: "nat option \<Rightarrow> live_interval option" where
  "pipe_ivs = [Some 0 \<mapsto> plain_iv 2 6 [6], Some 1 \<mapsto> plain_iv 4 6 [6], Some 2 \<mapsto> plain_iv 6 8 []]"

lemma pipe_ordered_lists:
  "GetInstsRev pipe_ordered b = (if b = 1 then [2, 1, 0] else [])" "GetPhis pipe_ordered b = []"
  "GetInsts pipe_ordered b = (if b = 1 then [0, 1, 2] else [])"
  "g_linear pipe_ordered = [(Some 1, 0), (Some 0, 8), (None, 10)]"
  by (simp_all add: pipe_ordered_def pipe_defs GetInsts_def GetPhis_def GetInstsRev_def follow_step)

lemma pipe_upt: "[0..<2] = [0, 1::nat]" "[0..<3] = [0, 1, 2::nat]" by (simp_all add: upt_rec eval_nat_numeral)

lemma pipe_liveness: "BuildLiveness pipe_ordered = Inr pipe_ivs"
proof -
  have g: "ji_inputs (g_inst pipe_ordered 0) = []" "ji_inputs (g_inst pipe_ordered 1) = []" "ji_inputs (g_inst pipe_ordered 2) = [Some 0, Some 1]"
    "LN pipe_ordered 0 = 2" "LN pipe_ordered 1 = 4" "LN pipe_ordered 2 = 6" "g_insts_count pipe_ordered = 3"
    "bb_succs (g_bb pipe_ordered 1) = [0]" "bb_succs (g_bb pipe_ordered 0) = []" "bb_preds (g_bb pipe_ordered 0) = [1]" "g_reducible pipe_ordered"
    "HasUsers pipe_ordered 0" "HasUsers pipe_ordered 1" "\<not> HasUsers pipe_ordered 2" "\<not> IsPhi pipe_ordered 0" "\<not> IsPhi pipe_ordered 1" "\<not> IsPhi pipe_ordered 2"
    "HasDst (ji_opcode (g_inst pipe_ordered 0))" "HasDst (ji_opcode (g_inst pipe_ordered 1))" "HasDst (ji_opcode (g_inst pipe_ordered 2))"
    "IsHeader 0 pipe_ordered = Inr False" "IsHeader 1 pipe_ordered = Inr False"
    by (simp_all add: pipe_ordered_def pipe_defs LN_def HasUsers_def IsPhi_def HasDst_def IsHeader_def Loop_of_def deref_def)
  let ?s = "\<lparr>blocks_live_set = (\<lambda>_. [])(1 := [None, None]), insts_live_ranges =
    [Some 2 \<mapsto> \<lparr>lrs_ranges = [fresh_range 6 8], lrs_loop_ranges = []\<rparr>, Some 1 \<mapsto> \<lparr>lrs_ranges = [fresh_range 4 6], lrs_loop_ranges = []\<rparr>,
     Some 0 \<mapsto> \<lparr>lrs_ranges = [fresh_range 2 6], lrs_loop_ranges = []\<rparr>]\<rparr>"
  have life: "CalculateLifeRanges pipe_ordered lv_init = Inr ?s"
    by (simp del: One_nat_def add: CalculateLifeRanges_def live_block_def pipe_ordered_lists g pipe_upt deref_def lv_init_def index_of_def
       InitializeBlock_def ProcessInstructions_def process_inst_def AddRange_def FinalizeDef_def TrimBegin_def Extend_def Has_def LS_Remove_def
       LiveRange_def Let_def GetLiveRanges_def put_ranges_def GetPredIdx_def)
  have one: "fill_one (Some i) pipe_ordered \<lparr>lrs_ranges = [fresh_range b e], lrs_loop_ranges = []\<rparr> = FillIntervalUsepoints (Some i) pipe_ordered (plain_iv b e [])"
    if "b < e" for i b e
    using that by (simp add: fill_one_def CheckRanges_def merge_defs fill_fuel_def plain_iv_def CheckIntervals_def eval_nat_numeral)
  have chain: "user_chain n None pipe_ordered = []" for n by (cases n) simp_all
  have users: "ji_first_user (g_inst pipe_ordered 0) = Some (2, 0)" "ji_first_user (g_inst pipe_ordered 1) = Some (2, 1)"
    "ji_first_user (g_inst pipe_ordered 2) = None" "next_user pipe_ordered (2, 0) = None" "next_user pipe_ordered (2, 1) = None"
    by (simp_all add: pipe_ordered_def pipe_defs next_user_def)
  have use: "FillIntervalUsepoints (Some 0) pipe_ordered (plain_iv 2 6 []) = Inr (plain_iv 2 6 [6])"
    "FillIntervalUsepoints (Some 1) pipe_ordered (plain_iv 4 6 []) = Inr (plain_iv 4 6 [6])"
    "FillIntervalUsepoints (Some 2) pipe_ordered (plain_iv 6 8 []) = Inr (plain_iv 6 8 [])"
    by (simp_all del: One_nat_def add: FillIntervalUsepoints_def deref_def SetUsepoints_def plain_iv_def users chain g)
  show ?thesis
    by (simp del: One_nat_def add: BuildLiveness_def IsLinearOrderValid_def pipe_ordered_lists g lv_init_def [symmetric] life FillIntervals_def pipe_upt one use pipe_ivs_def fun_upd_twist)
qed

lemma pipe_alloc_order: "order_blocks pipe_ordered = [1, 0]" "alloc_order pipe_ordered = [0, 1, 2]"
  by (simp_all add: alloc_order_def order_blocks_def pipe_ordered_lists GetAllInsts_def)

lemma pipe_run: "\<exists>t. AllocateRegisters pipe_ordered (ra_init pipe_ivs) = Inr t \<and>
    iv_ranges (iv_of t (Some 0)) = [\<lparr>lr_b = 2, lr_e = 6, lr_loc = Some (reg 0)\<rparr>] \<and>
    iv_ranges (iv_of t (Some 2)) = [\<lparr>lr_b = 6, lr_e = 8, lr_loc = Some (reg 0)\<rparr>]"
  unfolding AllocateRegisters_def pipe_alloc_order
  by (simp add: ra_defs LN_def IsPhi_def HasDst_def ra_init_def pipe_ivs_def plain_iv_def pipe_ordered_def pipe_defs regs_lists)

theorem intervals_begin_at_definitions_witness:
  "\<exists>v. pipe_ivs (Some 1) = Some v \<and> Startpoint v = LN pipe_ordered 1 \<and> LN pipe_ordered 1 = 4"
proof -
  have m: "g_max_ln pipe_ordered < 2 ^ 31" by (simp add: pipe_ordered_def)
  have i: "1 \<in> set (alloc_order pipe_ordered)" "HasDst (ji_opcode (g_inst pipe_ordered 1))" "g_reducible pipe_ordered"
    "1 < g_insts_count pipe_ordered" "LN pipe_ordered 1 = 4"
    by (simp_all add: pipe_alloc_order) (simp_all add: pipe_ordered_def pipe_defs HasDst_def LN_def)
  from intervals_begin_at_definitions [OF pipe_compilable pipe_order m pipe_liveness i(1-4)] i(5) show ?thesis by blast
qed

theorem intervals_cover_live_values_witness:
  "live_to pipe_ordered [1, 0] 0 0 6 \<and> covers (plain_iv 2 6 [6]) 5"
proof -
  have m: "g_max_ln pipe_ordered < 2 ^ 31" by (simp add: pipe_ordered_def)
  have i: "ji_inputs (g_inst pipe_ordered 2) = [Some 0, Some 1]" "LN pipe_ordered 2 = 6" "LN pipe_ordered 0 = 2"
    by (simp_all add: pipe_ordered_def pipe_defs LN_def)
  have live: "live_to pipe_ordered (order_blocks pipe_ordered) 0 0 6"
    unfolding live_to_def pipe_alloc_order by (auto simp: pipe_ordered_lists values_of_def i intro!: bexI [of _ 2])
  have birth: "birth pipe_ordered (order_blocks pipe_ordered) 0 0 \<le> 5"
    by (simp add: birth_def pipe_alloc_order GetAllInsts_def pipe_ordered_lists i)
  have k: "0 < length (order_blocks pipe_ordered)" and v: "pipe_ivs (Some 0) = Some (plain_iv 2 6 [6])"
    by (simp_all add: pipe_alloc_order pipe_ivs_def)
  have "covers (plain_iv 2 6 [6]) 5"
    by (rule intervals_cover_live_values [OF pipe_compilable pipe_order m pipe_liveness v k live birth]) simp
  then show ?thesis using live by (simp add: pipe_alloc_order)
qed

theorem compiled_values_do_not_share_a_place_witness:
  "\<exists>t. AllocateRegisters pipe_ordered (ra_init pipe_ivs) = Inr t \<and>
    in_place t (Some 0) (reg 0) \<lparr>lr_b = 2, lr_e = 6, lr_loc = Some (reg 0)\<rparr> \<and>
    in_place t (Some 2) (reg 0) \<lparr>lr_b = 6, lr_e = 8, lr_loc = Some (reg 0)\<rparr> \<and> \<not> ((6 :: u32) \<le> 4 \<and> (4 :: u32) < 8)"
proof -
  have m: "g_max_ln pipe_ordered < 2 ^ 31" by (simp add: pipe_ordered_def)
  obtain t where t: "AllocateRegisters pipe_ordered (ra_init pipe_ivs) = Inr t"
    and ranges: "in_place t (Some 0) (reg 0) \<lparr>lr_b = 2, lr_e = 6, lr_loc = Some (reg 0)\<rparr>"
      "in_place t (Some 2) (reg 0) \<lparr>lr_b = 6, lr_e = 8, lr_loc = Some (reg 0)\<rparr>"
    using pipe_run by (auto simp: in_place_def)
  from compiled_values_do_not_share_a_place [OF pipe_compilable pipe_order m pipe_liveness t _ ranges, of 4] t ranges
  show ?thesis by simp
qed

end
