(* ===== verification/Jit_Peepholes.thy ===== *)
theory Jit_Peepholes
  imports Jit_Cfg
begin

text \<open>
  The rewriting passes over single instructions: optimizations/peepholes.h (SUB, XOR and ASHR) and
  optimizations/checks_elimination.h.  A rule returns whether it has applied, as in the code, with
  the graph.  \<open>Equal\<close> compares pointers.  The range of the loop of \<open>Peepholes\<close> follows \<open>next_\<close> of the
  visited instruction after the rules have run on it.
\<close>

subsection \<open>Types and constants\<close>

definition is_op :: "jopcode \<Rightarrow> 'g graph_scheme \<Rightarrow> nat \<Rightarrow> bool" where
  "is_op c g i \<longleftrightarrow> ji_opcode (g_inst g i) = c"

definition GetImm :: "'g graph_scheme \<Rightarrow> nat \<Rightarrow> u64" where
  "GetImm g i = ji_imm (g_inst g i)"

definition GetType :: "'g graph_scheme \<Rightarrow> nat \<Rightarrow> jtype" where
  "GetType g i = ji_type (g_inst g i)"

definition SetType :: "nat \<Rightarrow> jtype \<Rightarrow> 'g graph_scheme \<Rightarrow> 'g graph_scheme" where
  "SetType i t = upd_inst i (\<lambda>x. x\<lparr>ji_type := t\<rparr>)"

definition GetSizeInBits :: "jtype \<Rightarrow> u64 res" where
  "GetSizeInBits t =
     (case t of FLOAT64 \<Rightarrow> Inr 64 | INT64 \<Rightarrow> Inr 64 | UINT64 \<Rightarrow> Inr 64 | INT32 \<Rightarrow> Inr 32 | ARRAY \<Rightarrow> Inr 8
              | _ \<Rightarrow> Inl (Fatal ''UNREACHABLE''))"

definition GetDownCastType :: "u64 \<Rightarrow> jtype \<Rightarrow> jtype res" where
  "GetDownCastType d t =
     guard (t \<noteq> FLOAT64) AssertFailed
       (guard (d = 32) AssertFailed
          (case t of INT64 \<Rightarrow> Inr INT32 | UINT64 \<Rightarrow> Inr UINT32 | _ \<Rightarrow> Inl (Fatal ''UNREACHABLE'')))"

text \<open>\<open>inst_->ReplaceWith(graph_->New<ConstInst>(inst_->GetType(), imm))\<close>.\<close>

definition replace_with_const :: "nat \<Rightarrow> u64 \<Rightarrow> 'g graph_scheme \<Rightarrow> 'g graph_scheme res" where
  "replace_with_const i imm g = (let (c, h) = New_inst JCONST (GetType g i) imm g in ReplaceWith i c h)"

definition applied :: "'g graph_scheme res \<Rightarrow> (bool \<times> 'g graph_scheme) res" where
  "applied m = rbind m (\<lambda>h. Inr (True, h))"

text \<open>\<open>if (rule) return;\<close> in front of the next rule.\<close>

definition or_else :: "(bool \<times> 'g graph_scheme) res \<Rightarrow> ('g graph_scheme \<Rightarrow> 'g graph_scheme res) \<Rightarrow> 'g graph_scheme res" where
  "or_else m f = rbind m (\<lambda>(b, h). if b then Inr h else f h)"

subsection \<open>SUB\<close>

definition SubConstFold :: "nat \<Rightarrow> nat \<Rightarrow> nat \<Rightarrow> 'g graph_scheme \<Rightarrow> (bool \<times> 'g graph_scheme) res" where
  "SubConstFold i i0 i1 g =
     (if is_op JCONST g i0 \<and> is_op JCONST g i1 then applied (replace_with_const i (GetImm g i0 - GetImm g i1) g)
      else Inr (False, g))"

definition SubNeg :: "nat \<Rightarrow> nat \<Rightarrow> nat \<Rightarrow> 'g graph_scheme \<Rightarrow> (bool \<times> 'g graph_scheme) res" where
  "SubNeg i i0 i1 g =
     (if is_op JNEG g i1 then
        let (n, g1) = New_inst JADD UNKNOWN 0 g; g2 = SetType n (GetType g1 i) g1 in
        rbind (GetInput i1 0 g2) (\<lambda>p.
          applied (rbind (ReplaceWith i n g2) (\<lambda>g3.
            rbind (SetInput n 0 i0 g3) (\<lambda>g4. deref p (\<lambda>x. SetInput n 1 x g4)))))
      else if is_op JNEG g i0 then
        let (n, g1) = New_inst JADD UNKNOWN 0 g; (m, g2) = New_inst JNEG UNKNOWN 0 g1;
            g3 = SetType m (GetType g2 i) (SetType n (GetType g2 i) g2) in
        rbind (GetInput i0 0 g3) (\<lambda>p.
          applied (rbind (ReplaceWith i m g3) (\<lambda>g4.
            rbind (Prepend m n g4) (\<lambda>g5.
              rbind (deref p (\<lambda>x. SetInput n 0 x g5)) (\<lambda>g6.
                rbind (SetInput n 1 i1 g6) (SetInput m 0 n))))))
      else Inr (False, g))"

definition SubZero :: "nat \<Rightarrow> nat \<Rightarrow> nat \<Rightarrow> 'g graph_scheme \<Rightarrow> (bool \<times> 'g graph_scheme) res" where
  "SubZero i i0 i1 g =
     (if is_op JCONST g i1 \<and> GetImm g i1 = 0 then applied (ReplaceWith i i0 g)
      else if is_op JCONST g i0 \<and> GetImm g i0 = 0 then
        let (n, g1) = New_inst JNEG UNKNOWN 0 g in
        applied (rbind (ReplaceWith i n g1) (SetInput n 0 i1))
      else Inr (False, g))"

definition VisitSub :: "nat \<Rightarrow> 'g graph_scheme \<Rightarrow> 'g graph_scheme res" where
  "VisitSub i g =
     rbind (GetInput i 0 g) (\<lambda>p0. rbind (GetInput i 1 g) (\<lambda>p1. deref p0 (\<lambda>i0. deref p1 (\<lambda>i1.
       or_else (SubConstFold i i0 i1 g) (\<lambda>g.
         if i0 = i1 then replace_with_const i 0 g
         else or_else (SubNeg i i0 i1 g) (\<lambda>g. or_else (SubZero i i0 i1 g) Inr))))))"

subsection \<open>XOR\<close>

definition XorConstFold :: "nat \<Rightarrow> nat \<Rightarrow> nat \<Rightarrow> 'g graph_scheme \<Rightarrow> (bool \<times> 'g graph_scheme) res" where
  "XorConstFold i i0 i1 g =
     (if is_op JCONST g i0 \<and> is_op JCONST g i1 then applied (replace_with_const i (xor (GetImm g i0) (GetImm g i1)) g)
      else Inr (False, g))"

definition XorNot :: "nat \<Rightarrow> nat \<Rightarrow> nat \<Rightarrow> 'g graph_scheme \<Rightarrow> (bool \<times> 'g graph_scheme) res" where
  "XorNot i i0 i1 g =
     (if is_op JNOT g i0 then
        rbind (GetInput i0 0 g) (\<lambda>p. deref p (\<lambda>x.
          if x = i1 then applied (replace_with_const i 0xFFFFFFFFFFFFFFFF g) else Inr (False, g)))
      else Inr (False, g))"

definition XorZero :: "nat \<Rightarrow> nat \<Rightarrow> nat \<Rightarrow> 'g graph_scheme \<Rightarrow> (bool \<times> 'g graph_scheme) res" where
  "XorZero i i0 i1 g =
     (if is_op JCONST g i0 \<and> GetImm g i0 = 0 then applied (ReplaceWith i i1 g) else Inr (False, g))"

definition VisitXor :: "nat \<Rightarrow> 'g graph_scheme \<Rightarrow> 'g graph_scheme res" where
  "VisitXor i g =
     rbind (GetInput i 0 g) (\<lambda>p0. rbind (GetInput i 1 g) (\<lambda>p1. deref p0 (\<lambda>i0. deref p1 (\<lambda>i1.
       or_else (XorConstFold i i1 i0 g) (\<lambda>g.
         if i0 = i1 then replace_with_const i 0 g
         else or_else (XorNot i i0 i1 g) (\<lambda>g. or_else (XorNot i i1 i0 g) (\<lambda>g. or_else (XorZero i i0 i1 g) Inr)))))))"

subsection \<open>ASHR\<close>

text \<open>A shift by the width of the type passes the assertion and is undefined.\<close>

definition AshrConstFold :: "nat \<Rightarrow> nat \<Rightarrow> nat \<Rightarrow> 'g graph_scheme \<Rightarrow> (bool \<times> 'g graph_scheme) res" where
  "AshrConstFold i i0 i1 g =
     (if is_op JCONST g i0 \<and> is_op JCONST g i1 then
        rbind (GetSizeInBits (GetType g i0)) (\<lambda>n.
          guard (GetImm g i1 \<le> n) AssertFailed
            (guard (GetImm g i1 < 64) Undefined
               (applied (replace_with_const i (signed_drop_bit (unat (GetImm g i1)) (GetImm g i0)) g))))
      else Inr (False, g))"

definition AshrZero :: "nat \<Rightarrow> nat \<Rightarrow> nat \<Rightarrow> 'g graph_scheme \<Rightarrow> (bool \<times> 'g graph_scheme) res" where
  "AshrZero i i0 i1 g =
     (if is_op JCONST g i1 \<and> GetImm g i1 = 0 then applied (ReplaceWith i i0 g) else Inr (False, g))"

definition AshrCast :: "nat \<Rightarrow> nat \<Rightarrow> nat \<Rightarrow> 'g graph_scheme \<Rightarrow> (bool \<times> 'g graph_scheme) res" where
  "AshrCast i i0 i1 g =
     (if \<not> is_op JCONST g i1 \<or> \<not> is_op JSHL g i0 then Inr (False, g)
      else rbind (GetInput i0 1 g) (\<lambda>p. deref p (\<lambda>s.
        if s \<noteq> i1 then Inr (False, g)
        else rbind (GetDownCastType (GetImm g i1) (GetType g i)) (\<lambda>t.
          let (c, g1) = New_inst JCAST t 0 g in
          applied (rbind (ReplaceWith i c g1) (\<lambda>g2.
            rbind (GetInput i0 0 g2) (\<lambda>p. deref p (\<lambda>x. SetInput c 0 x g2))))))))"

definition VisitAshr :: "nat \<Rightarrow> 'g graph_scheme \<Rightarrow> 'g graph_scheme res" where
  "VisitAshr i g =
     rbind (GetInput i 0 g) (\<lambda>p0. rbind (GetInput i 1 g) (\<lambda>p1. deref p0 (\<lambda>i0. deref p1 (\<lambda>i1.
       or_else (AshrConstFold i i0 i1 g) (\<lambda>g.
         or_else (AshrZero i i0 i1 g) (\<lambda>g. or_else (AshrCast i i0 i1 g) Inr))))))"

subsection \<open>The pass\<close>

definition TryApply :: "nat \<Rightarrow> 'g graph_scheme \<Rightarrow> 'g graph_scheme res" where
  "TryApply i g =
     (case ji_opcode (g_inst g i) of
        JXOR \<Rightarrow> VisitXor i g | JSUB \<Rightarrow> VisitSub i g | JASHR \<Rightarrow> VisitAshr i g | _ \<Rightarrow> Inr g)"

fun peep_insts :: "nat \<Rightarrow> nat option \<Rightarrow> agraph \<Rightarrow> agraph res" where
  "peep_insts 0 p g = Inl OutOfFuel"
| "peep_insts (Suc n) p g =
     (case p of None \<Rightarrow> Inr g | Some i \<Rightarrow> rbind (TryApply i g) (\<lambda>h. peep_insts n (ji_next (g_inst h i)) h))"

definition Peepholes :: "agraph \<Rightarrow> agraph res" where
  "Peepholes g =
     fold_res (\<lambda>p h. deref p (\<lambda>b. peep_insts (Suc (g_insts_count h)) (bb_first_inst (g_bb h b)) h)) (g_rpo g) g"

subsection \<open>Elimination of checks\<close>

record ce_state =
  ce_g :: agraph
  ce_nulls :: "nat list"    \<comment> \<open>\<open>unique_checks_.Get<CHECKNULL>()\<close>\<close>
  ce_bounds :: "nat list"

definition same_inst :: "agraph \<Rightarrow> nat \<Rightarrow> nat \<Rightarrow> bool" where
  "same_inst g i j \<longleftrightarrow> ji_opcode (g_inst g i) = ji_opcode (g_inst g j) \<and> ji_inputs (g_inst g i) = ji_inputs (g_inst g j)"

text \<open>The loop over the checks seen so far: the first equal one that dominates the instruction.\<close>

fun find_check :: "agraph \<Rightarrow> nat \<Rightarrow> nat list \<Rightarrow> nat option res" where
  "find_check g i [] = Inr None"
| "find_check g i (j # js) =
     (if same_inst g i j then rbind (Inst_Dominates j i g) (\<lambda>d. if d then Inr (Some j) else find_check g i js)
      else find_check g i js)"

definition visit_check :: "nat \<Rightarrow> agraph \<Rightarrow> nat list \<Rightarrow> (agraph \<times> nat list) res" where
  "visit_check i g js =
     rbind (find_check g i js) (\<lambda>r.
       case r of None \<Rightarrow> Inr (g, js @ [i]) | Some j \<Rightarrow> rbind (ReplaceWith i j g) (\<lambda>h. Inr (h, js)))"

definition elim_check :: "nat \<Rightarrow> ce_state \<Rightarrow> ce_state res" where
  "elim_check i s =
     (case ji_opcode (g_inst (ce_g s) i) of
        JCHECKNULL \<Rightarrow> rbind (visit_check i (ce_g s) (ce_nulls s)) (\<lambda>(h, js). Inr (s\<lparr>ce_g := h, ce_nulls := js\<rparr>))
      | JCHECKBOUNDS \<Rightarrow> rbind (visit_check i (ce_g s) (ce_bounds s)) (\<lambda>(h, js). Inr (s\<lparr>ce_g := h, ce_bounds := js\<rparr>))
      | _ \<Rightarrow> Inr s)"

fun elim_insts :: "nat \<Rightarrow> nat option \<Rightarrow> ce_state \<Rightarrow> ce_state res" where
  "elim_insts 0 p s = Inl OutOfFuel"
| "elim_insts (Suc n) p s =
     (case p of None \<Rightarrow> Inr s
      | Some i \<Rightarrow> let next_i = ji_next (g_inst (ce_g s) i) in rbind (elim_check i s) (elim_insts n next_i))"

definition ChecksElimination :: "agraph \<Rightarrow> agraph res" where
  "ChecksElimination g =
     rbind (fold_res (\<lambda>p s. deref p (\<lambda>b. elim_insts (Suc (g_insts_count (ce_g s))) (bb_first_inst (g_bb (ce_g s) b)) s))
        (g_rpo g) \<lparr>ce_g = g, ce_nulls = [], ce_bounds = []\<rparr>) (\<lambda>s. Inr (ce_g s))"

end
