(* ===== verification/Jit_Rewrite.thy ===== *)
theory Jit_Rewrite
  imports Jit_Peepholes Jit_Users
begin

text \<open>
  What a replacement of an instruction does to the code of a graph: opcodes, types, immediates and
  inputs.  The invariant \<open>ready\<close> is what the rewriting passes need between two rules: the def-use
  lists are those of the instructions that have not been replaced, which do not refer to replaced
  ones.
\<close>

subsection \<open>The code of an instruction\<close>

definition view :: "'g graph_scheme \<Rightarrow> nat \<Rightarrow> jopcode \<times> jtype \<times> u64 \<times> nat option list \<times> nat" where
  "view g j = (ji_opcode (g_inst g j), ji_type (g_inst g j), ji_imm (g_inst g j), ji_inputs (g_inst g j),
     length (ji_users (g_inst g j)))"

text \<open>The updates that change no code.\<close>

definition same_code :: "'g graph_scheme \<Rightarrow> 'g graph_scheme \<Rightarrow> bool" where
  "same_code g h \<longleftrightarrow> g_insts_count h = g_insts_count g \<and> (\<forall>j. view h j = view g j)"

definition same_bb :: "'g graph_scheme \<Rightarrow> 'g graph_scheme \<Rightarrow> bool" where
  "same_bb g h \<longleftrightarrow> (\<forall>j. ji_bb (g_inst h j) = ji_bb (g_inst g j))"

definition same_lists :: "'g graph_scheme \<Rightarrow> 'g graph_scheme \<Rightarrow> bool" where
  "same_lists g h \<longleftrightarrow> (\<forall>j. ji_first_user (g_inst h j) = ji_first_user (g_inst g j) \<and> ji_users (g_inst h j) = ji_users (g_inst g j))"

named_theorems frame_intros "updates that keep a part of the instructions"

lemma frame_refl [frame_intros]: "same_code g g" "same_bb g g" "same_lists g g"
  by (simp_all add: same_code_def same_bb_def same_lists_def)

lemma frame_trans:
  "same_code g h \<Longrightarrow> same_code h k \<Longrightarrow> same_code g k" "same_bb g h \<Longrightarrow> same_bb h k \<Longrightarrow> same_bb g k"
  "same_lists g h \<Longrightarrow> same_lists h k \<Longrightarrow> same_lists g k"
  by (simp_all add: same_code_def same_bb_def same_lists_def)

lemma frame_upd_bb [frame_intros]: "same_code g (upd_bb b f g)" "same_bb g (upd_bb b f g)" "same_lists g (upd_bb b f g)"
  by (simp_all add: same_code_def same_bb_def same_lists_def view_def upd_bb_def)

lemma frame_upd_inst:
  "view (upd_inst i f g) i = view g i \<Longrightarrow> same_code g (upd_inst i f g)"
  "ji_bb (f (g_inst g i)) = ji_bb (g_inst g i) \<Longrightarrow> same_bb g (upd_inst i f g)"
  "ji_first_user (f (g_inst g i)) = ji_first_user (g_inst g i) \<Longrightarrow> ji_users (f (g_inst g i)) = ji_users (g_inst g i) \<Longrightarrow>
    same_lists g (upd_inst i f g)"
  by (auto simp: same_code_def same_bb_def same_lists_def view_def upd_inst_def)

lemma frame_users [frame_intros]:
  "same_code g (set_next_user u n g)" "same_bb g (set_next_user u n g)"
  "same_code g (set_first_user d n g)" "same_bb g (set_first_user d n g)" "same_bb g (put_input i k x g)"
  by (auto simp: same_code_def same_bb_def view_def set_next_user_def set_first_user_def put_input_def upd_inst_def)

lemma frame_links [frame_intros]:
  "same_code g (upd_inst i (\<lambda>x. x\<lparr>ji_next := n\<rparr>) g)" "same_bb g (upd_inst i (\<lambda>x. x\<lparr>ji_next := n\<rparr>) g)"
  "same_lists g (upd_inst i (\<lambda>x. x\<lparr>ji_next := n\<rparr>) g)"
  "same_code g (upd_inst i (\<lambda>x. x\<lparr>ji_prev := n\<rparr>) g)" "same_bb g (upd_inst i (\<lambda>x. x\<lparr>ji_prev := n\<rparr>) g)"
  "same_lists g (upd_inst i (\<lambda>x. x\<lparr>ji_prev := n\<rparr>) g)"
  "same_code g (upd_inst i (\<lambda>x. x\<lparr>ji_bb := b, ji_next := n, ji_prev := p\<rparr>) g)"
  "same_lists g (upd_inst i (\<lambda>x. x\<lparr>ji_bb := b, ji_next := n, ji_prev := p\<rparr>) g)"
  "same_code g (upd_inst i (\<lambda>x. x\<lparr>ji_next := n, ji_prev := p, ji_bb := b\<rparr>) g)"
  "same_lists g (upd_inst i (\<lambda>x. x\<lparr>ji_next := n, ji_prev := p, ji_bb := b\<rparr>) g)"
  by (auto simp: same_code_def same_bb_def same_lists_def view_def upd_inst_def)

lemma set_next_frame: "set_next p n g = Inr h \<Longrightarrow> same_code g h \<and> same_bb g h \<and> same_lists g h"
  by (auto simp: set_next_def deref_def res_simps intro: frame_intros)

lemma set_prev_frame: "set_prev p n g = Inr h \<Longrightarrow> same_code g h \<and> same_bb g h \<and> same_lists g h"
  by (auto simp: set_prev_def deref_def res_simps intro: frame_intros)

lemma SetFirstInst_frame: "SetFirstInst b p g = Inr h \<Longrightarrow> same_code g h \<and> same_bb g h \<and> same_lists g h"
  by (auto simp: SetFirstInst_def res_simps intro: frame_intros)

lemma SetLastInst_frame: "SetLastInst b p g = Inr h \<Longrightarrow> same_code g h \<and> same_bb g h \<and> same_lists g h"
  by (auto simp: SetLastInst_def res_simps intro: frame_intros)

subsection \<open>Taking an instruction out of its block\<close>

text \<open>Only the block of the replaced and of the new instruction change.\<close>

lemma RemoveFromBB_frame:
  assumes "RemoveFromBB i g = Inr h"
  shows "same_code g h" "same_lists g h" "ji_bb (g_inst g i) \<noteq> None"
    "ji_bb (g_inst h j) = (if j = i then None else ji_bb (g_inst g j))"
proof -
  from assms obtain b g1 g2 where b: "ji_bb (g_inst g i) = Some b"
    and g1: "(if bb_first_inst (g_bb g b) = Some i then guard (ji_prev (g_inst g i) = None) AssertFailed (SetFirstInst b (ji_next (g_inst g i)) g)
        else set_next (ji_prev (g_inst g i)) (ji_next (g_inst g i)) g) = Inr g1"
    and g2: "(if bb_last_inst (g_bb g1 b) = Some i then guard (ji_next (g_inst g i) = None) AssertFailed (SetLastInst b (ji_prev (g_inst g i)) g1)
        else set_prev (ji_next (g_inst g i)) (ji_prev (g_inst g i)) g1) = Inr g2"
    and h: "h = unlink i g2"
    by (auto simp: RemoveFromBB_def deref_def Let_def res_simps split del: if_split)
  have f1: "same_code g g1 \<and> same_bb g g1 \<and> same_lists g g1"
    using g1 by (auto simp: res_simps split: if_splits dest: SetFirstInst_frame set_next_frame)
  have f2: "same_code g1 g2 \<and> same_bb g1 g2 \<and> same_lists g1 g2"
    using g2 by (auto simp: res_simps split: if_splits dest: SetLastInst_frame set_prev_frame)
  have u: "same_code g2 h" "same_lists g2 h" unfolding h unlink_def by (rule frame_intros)+
  show "same_code g h" "same_lists g h" using f1 f2 u by (simp_all add: same_code_def same_lists_def)
  show "ji_bb (g_inst g i) \<noteq> None" using b by simp
  show "ji_bb (g_inst h j) = (if j = i then None else ji_bb (g_inst g j))"
    using f1 f2 by (simp add: h unlink_def upd_inst_def same_bb_def)
qed

lemma ReplaceInBB_frame:
  assumes "ReplaceInBB i new g = Inr h" and "new \<noteq> i"
  shows "same_code g h" "same_lists g h" "ji_bb (g_inst g i) \<noteq> None"
    "ji_bb (g_inst h i) = None" "j \<noteq> i \<Longrightarrow> j \<noteq> new \<Longrightarrow> ji_bb (g_inst h j) = ji_bb (g_inst g j)" "ji_bb (g_inst h new) \<noteq> None"
proof -
  have "same_code g h \<and> same_lists g h \<and> ji_bb (g_inst g i) \<noteq> None \<and> ji_bb (g_inst h i) = None \<and>
      (\<forall>j. j \<noteq> i \<longrightarrow> j \<noteq> new \<longrightarrow> ji_bb (g_inst h j) = ji_bb (g_inst g j)) \<and> ji_bb (g_inst h new) \<noteq> None"
  proof (cases "ji_bb (g_inst g new) = None")
    case True
    with assms(1) obtain b g1 g2 g3 g4 g5 where b: "ji_bb (g_inst g i) = Some b"
      and g1: "(if bb_first_inst (g_bb g b) = Some i then SetFirstInst b (Some new) g else Inr g) = Inr g1"
      and g2: "(if bb_last_inst (g_bb g1 b) = Some i then SetLastInst b (Some new) g1 else Inr g1) = Inr g2"
      and g3: "g3 = upd_inst new (\<lambda>x. x\<lparr>ji_next := ji_next (g_inst g i), ji_prev := ji_prev (g_inst g i), ji_bb := Some b\<rparr>) g2"
      and g4: "set_prev (ji_next (g_inst g i)) (Some new) g3 = Inr g4"
      and g5: "set_next (ji_prev (g_inst g i)) (Some new) g4 = Inr g5" and h: "h = unlink i g5"
      by (auto simp: ReplaceInBB_def deref_def Let_def res_simps split del: if_split)
    have f1: "same_code g g1 \<and> same_bb g g1 \<and> same_lists g g1"
      using g1 by (auto split: if_splits dest: SetFirstInst_frame intro: frame_refl)
    have f2: "same_code g1 g2 \<and> same_bb g1 g2 \<and> same_lists g1 g2"
      using g2 by (auto split: if_splits dest: SetLastInst_frame intro: frame_refl)
    have f3: "same_code g2 g3" "same_lists g2 g3" unfolding g3 by (rule frame_intros)+
    note f4 = set_prev_frame [OF g4] and f5 = set_next_frame [OF g5]
    have f6: "same_code g5 h" "same_lists g5 h" unfolding h unlink_def by (rule frame_intros)+
    have bbs: "ji_bb (g_inst h j) = (if j = i then None else if j = new then Some b else ji_bb (g_inst g j))" for j
      using f1 f2 f4 f5 by (simp add: h g3 unlink_def upd_inst_def same_bb_def)
    have "same_code g h" "same_lists g h" using f1 f2 f3 f4 f5 f6 by (simp_all add: same_code_def same_lists_def)
    then show ?thesis using b bbs assms(2) by simp
  next
    case False
    then have "RemoveFromBB i g = Inr h" using assms(1) unfolding ReplaceInBB_def if_not_P [OF False] guard_eq_Inr by blast
    note r = RemoveFromBB_frame [OF this]
    show ?thesis using r(1-3) r(4) False assms(2) by auto
  qed
  then show "same_code g h" "same_lists g h" "ji_bb (g_inst g i) \<noteq> None" "ji_bb (g_inst h i) = None"
    "j \<noteq> i \<Longrightarrow> j \<noteq> new \<Longrightarrow> ji_bb (g_inst h j) = ji_bb (g_inst g j)" "ji_bb (g_inst h new) \<noteq> None" by blast+
qed

subsection \<open>Def-use lists\<close>

lemma view_simps:
  "same_code g h \<Longrightarrow> slot_ok h u = slot_ok g u" "same_code g h \<Longrightarrow> input_at h u = input_at g u"
  "same_code g h \<Longrightarrow> GetInputsCount h i = GetInputsCount g i"
  by (auto simp: same_code_def view_def slot_ok_def input_at_def GetInputsCount_def)

lemma uses_ok_same:
  assumes "same_code g h" and "same_lists g h" and "uses_ok D S g"
  shows "uses_ok D S h"
proof -
  have "next_user h = next_user g" using assms(2) by (intro ext) (simp add: next_user_def same_lists_def)
  then have "users_list h d xs = users_list g d xs" for d xs
    using assms(1,2) by (simp add: users_list_def same_lists_def view_simps)
  then show ?thesis using assms(1,3) by (simp add: uses_ok_def view_simps)
qed

lemma RemoveUser_uses:
  assumes "uses_ok D S g" and "slot_ok g u" and "u \<notin> S" and "input_at g u = Some d" and "d \<in> D"
    and "RemoveUser d u g = Inr h"
  shows "uses_ok D (insert u S) h" and "same_code g h" and "same_bb g h"
proof -
  have frame: "same_code g h \<and> same_bb g h"
  proof (cases "ji_first_user (g_inst g d) = Some u")
    case True
    then show ?thesis using assms(6) by (auto simp: RemoveUser_def intro: frame_intros)
  next
    case False
    have "FindAndRemoveFromChain n u v g = Inr h \<Longrightarrow> same_code g h \<and> same_bb g h" for n v
      by (induction n arbitrary: v) (auto simp: deref_def res_simps intro: frame_intros split: if_splits)
    then show ?thesis using assms(6) unfolding RemoveUser_def if_not_P [OF False] .
  qed
  then show "same_code g h" "same_bb g h" by simp_all
  from uses_okE [OF assms(1,5)] obtain xs where xs: "users_list g d xs"
    "\<And>u. u \<in> set xs \<longleftrightarrow> slot_ok g u \<and> u \<notin> S \<and> input_at g u = Some d" by blast
  have "u \<in> set xs" using xs(2) assms(2-4) by simp
  from RemoveUser_list [OF xs(1) this] obtain g' where g': "RemoveUser d u g = Inr g'"
    "\<And>v. slot_ok g' v = slot_ok g v" "\<And>v. input_at g' v = input_at g v"
    "\<And>e ys. users_list g e ys \<Longrightarrow> (e \<noteq> d \<Longrightarrow> set ys \<inter> set xs = {}) \<Longrightarrow> users_list g' e (filter (\<lambda>v. v \<noteq> u) ys)"
    by blast
  have h: "g' = h" using g'(1) assms(6) by simp
  show "uses_ok D (insert u S) h" unfolding uses_ok_def
  proof
    fix e assume "e \<in> D"
    from uses_okE [OF assms(1) this] obtain ys where ys: "users_list g e ys"
      "\<And>u. u \<in> set ys \<longleftrightarrow> slot_ok g u \<and> u \<notin> S \<and> input_at g u = Some e" by blast
    have "set ys \<inter> set xs = {}" if "e \<noteq> d" using xs(2) ys(2) that by auto
    from g'(4) [OF ys(1) this] show "\<exists>zs. users_list h e zs \<and>
        (\<forall>v. v \<in> set zs \<longleftrightarrow> slot_ok h v \<and> v \<notin> insert u S \<and> input_at h v = Some e)"
      using ys(2) g'(2,3) unfolding h by (intro exI [of _ "filter (\<lambda>v. v \<noteq> u) ys"]) auto
  qed
qed

text \<open>The invariant of the rewriting passes; \<open>X\<close> are the instructions replaced so far.\<close>

definition shaped :: "'g graph_scheme \<Rightarrow> bool" where
  "shaped g \<longleftrightarrow> (\<forall>j < g_insts_count g. length (ji_inputs (g_inst g j)) = GetInputsCount g j \<and>
     length (ji_users (g_inst g j)) = GetInputsCount g j)"

definition closed_code :: "nat set \<Rightarrow> 'g graph_scheme \<Rightarrow> bool" where
  "closed_code X g \<longleftrightarrow> (\<forall>j d. j < g_insts_count g \<longrightarrow> Some d \<in> set (ji_inputs (g_inst g j)) \<longrightarrow>
     d < g_insts_count g \<and> (j \<notin> X \<longrightarrow> d \<notin> X))"

definition loose :: "nat set \<Rightarrow> 'g graph_scheme \<Rightarrow> bool" where
  "loose X g \<longleftrightarrow> (\<forall>j. g_insts_count g \<le> j \<or> j \<in> X \<longrightarrow> ji_bb (g_inst g j) = None)"

definition ready :: "nat set \<Rightarrow> 'g graph_scheme \<Rightarrow> bool" where
  "ready X g \<longleftrightarrow> uses_ok (- X) {u. fst u \<in> X} g \<and> shaped g \<and> closed_code X g \<and> loose X g \<and> (\<forall>j \<in> X. j < g_insts_count g)"

lemma same_code_inputs: "same_code g h \<Longrightarrow> ji_inputs (g_inst h j) = ji_inputs (g_inst g j)"
  "same_code g h \<Longrightarrow> length (ji_users (g_inst h j)) = length (ji_users (g_inst g j))" "same_code g h \<Longrightarrow> g_insts_count h = g_insts_count g"
  by (simp_all add: same_code_def view_def)

lemma ready_same:
  assumes "same_code g h" and "same_lists g h" and "ready X g" and "loose X h"
  shows "ready X h"
proof -
  note same = same_code_inputs [OF assms(1)] view_simps(3) [OF assms(1)]
  show ?thesis
    using assms(3,4) uses_ok_same [OF assms(1,2)] unfolding ready_def shaped_def closed_code_def same by blast
qed

lemma ClearInputs_uses:
  assumes "ClearInputs i g = Inr h" and "ready X g" and i: "i \<notin> X" "i < g_insts_count g"
  shows "uses_ok (- X) {u. fst u \<in> insert i X} h" and "same_code g h" and "same_bb g h"
proof -
  let ?S = "\<lambda>k :: nat. {u :: slot. fst u \<in> X \<or> fst u = i \<and> snd u < k}"
  have old: "uses_ok (- X) {u. fst u \<in> X} g" "shaped g" "closed_code X g" using assms(2) by (simp_all add: ready_def)
  have loop: "uses_ok (- X) (?S (k + n)) h \<and> same_code g h \<and> same_bb g h"
    if "fold_res (\<lambda>k h. rbind (GetInput i k h) (\<lambda>inp. deref inp (\<lambda>d. RemoveUser d (i, k) h))) [k..<k + n] u = Inr h"
      "uses_ok (- X) (?S k) u" "same_code g u" "same_bb g u" "k + n \<le> GetInputsCount g i" for k n u
    using that
  proof (induction n arbitrary: k u)
    case (Suc n)
    have range: "[k..<k + Suc n] = k # [Suc k..<Suc k + n]" by (simp add: upt_conv_Cons)
    from Suc.prems(1) obtain d v where d: "GetInput i k u = Inr (Some d)" and v: "RemoveUser d (i, k) u = Inr v"
      and rest: "fold_res (\<lambda>k h. rbind (GetInput i k h) (\<lambda>inp. deref inp (\<lambda>d. RemoveUser d (i, k) h))) [Suc k..<Suc k + n] v = Inr h"
      unfolding range by (auto simp: deref_def res_simps)
    note same = view_simps [OF Suc.prems(3)] same_code_inputs [OF Suc.prems(3)]
    have ok: "slot_ok u (i, k)"
      using Suc.prems(5) old(2) i(2) by (simp add: slot_ok_def same shaped_def)
    have at: "input_at u (i, k) = Some d" using d GetInput_at [OF ok] by simp
    have "d \<notin> X"
    proof -
      have "Some d \<in> set (ji_inputs (g_inst g i))"
        using at ok by (simp add: input_at_def slot_ok_def same) (metis nth_mem)
      then show ?thesis using old(3) i unfolding closed_code_def by blast
    qed
    then have dD: "d \<in> - X" by simp
    have "(i, k) \<notin> ?S k" using i(1) by simp
    note r = RemoveUser_uses [OF Suc.prems(2) ok this at dD v]
    have S: "insert (i, k) (?S k) = ?S (Suc k)" by (auto simp: less_Suc_eq prod_eq_iff)
    have "uses_ok (- X) (?S (Suc k)) v" using r(1) unfolding S .
    moreover have "same_code g v" "same_bb g v" using Suc.prems(3,4) r(2,3) by (simp_all add: same_code_def same_bb_def)
    moreover have "Suc k + n \<le> GetInputsCount g i" using Suc.prems(5) by simp
    ultimately show ?case using Suc.IH [OF rest] by simp
  qed simp
  have all: "uses_ok (- X) (?S (GetInputsCount g i)) h \<and> same_code g h \<and> same_bb g h"
  proof -
    have empty: "?S 0 = {u. fst u \<in> X}" by simp
    have "uses_ok (- X) (?S (0 + GetInputsCount g i)) h \<and> same_code g h \<and> same_bb g h"
    proof (rule loop)
      show "fold_res (\<lambda>k h. rbind (GetInput i k h) (\<lambda>inp. deref inp (\<lambda>d. RemoveUser d (i, k) h))) [0..<0 + GetInputsCount g i] g = Inr h"
        using assms(1) by (simp add: ClearInputs_def)
      show "uses_ok (- X) (?S 0) g" unfolding empty by (rule old(1))
    qed (simp_all add: frame_refl)
    then show ?thesis by simp
  qed
  then show "same_code g h" "same_bb g h" by simp_all
  have cover: "slot_ok h u \<Longrightarrow> u \<in> ?S (GetInputsCount g i) \<longleftrightarrow> u \<in> {u. fst u \<in> insert i X}" for u
  proof -
    assume u: "slot_ok h u"
    have "snd u < GetInputsCount g i" if "fst u = i"
      using u that old(2) i(2) view_simps(1) [OF conjunct1 [OF conjunct2 [OF all]], of u] by (auto simp: slot_ok_def shaped_def)
    then show ?thesis by (cases u) auto
  qed
  show "uses_ok (- X) {u. fst u \<in> insert i X} h"
    unfolding uses_ok_def
  proof
    fix d assume "d \<in> - X"
    then have "\<exists>xs. users_list h d xs \<and> (\<forall>u. u \<in> set xs \<longleftrightarrow> slot_ok h u \<and> u \<notin> ?S (GetInputsCount g i) \<and> input_at h u = Some d)"
      by (rule bspec [OF conjunct1 [OF all, unfolded uses_ok_def]])
    then obtain xs where xs: "users_list h d xs"
      and xs2: "\<forall>u. u \<in> set xs \<longleftrightarrow> slot_ok h u \<and> u \<notin> ?S (GetInputsCount g i) \<and> input_at h u = Some d"
      by (elim exE conjE)
    have "u \<in> set xs \<longleftrightarrow> slot_ok h u \<and> u \<notin> {u. fst u \<in> insert i X} \<and> input_at h u = Some d" for u
    proof (cases "slot_ok h u")
      case True
      show ?thesis using spec [OF xs2, of u] unfolding cover [OF True] .
    next
      case False
      then show ?thesis using spec [OF xs2, of u] by simp
    qed
    then show "\<exists>xs. users_list h d xs \<and> (\<forall>u. u \<in> set xs \<longleftrightarrow> slot_ok h u \<and> u \<notin> {u. fst u \<in> insert i X} \<and> input_at h u = Some d)"
      using xs by (intro exI [of _ xs]) simp
  qed
qed

subsection \<open>Replacing an instruction\<close>

lemma User_SetInput_frame: "User_SetInput u x g = Inr h \<Longrightarrow> h = put_input (fst u) (snd u) x g"
  by (auto simp: User_SetInput_def res_simps)

lemma put_input_frame:
  "g_insts_count (put_input i k x g) = g_insts_count g" "same_bb g (put_input i k x g)"
  "ji_opcode (g_inst (put_input i k x g) j) = ji_opcode (g_inst g j)" "ji_type (g_inst (put_input i k x g) j) = ji_type (g_inst g j)"
  "ji_imm (g_inst (put_input i k x g) j) = ji_imm (g_inst g j)"
  "length (ji_inputs (g_inst (put_input i k x g) j)) = length (ji_inputs (g_inst g j))"
  "ji_users (g_inst (put_input i k x g) j) = ji_users (g_inst g j)"
  by (auto simp: put_input_def upd_inst_def same_bb_def)

text \<open>Everything but the inputs.\<close>

definition same_ops :: "'g graph_scheme \<Rightarrow> 'g graph_scheme \<Rightarrow> bool" where
  "same_ops g h \<longleftrightarrow> g_insts_count h = g_insts_count g \<and> (\<forall>j. ji_opcode (g_inst h j) = ji_opcode (g_inst g j) \<and>
     ji_type (g_inst h j) = ji_type (g_inst g j) \<and> ji_imm (g_inst h j) = ji_imm (g_inst g j) \<and>
     length (ji_inputs (g_inst h j)) = length (ji_inputs (g_inst g j)) \<and> length (ji_users (g_inst h j)) = length (ji_users (g_inst g j)))"

lemma same_ops_refl [simp]: "same_ops g g"
  by (simp add: same_ops_def)

lemma same_ops_trans: "same_ops g h \<Longrightarrow> same_ops h k \<Longrightarrow> same_ops g k"
  by (simp add: same_ops_def)

lemma same_code_ops: "same_code g h \<Longrightarrow> same_ops g h"
  by (simp add: same_code_def same_ops_def view_def)

lemma same_ops_slots: "same_ops g h \<Longrightarrow> slot_ok h u = slot_ok g u"
  by (auto simp: same_ops_def slot_ok_def)

lemma same_ops_count: "same_ops g h \<Longrightarrow> GetInputsCount h j = GetInputsCount g j"
  by (simp add: same_ops_def GetInputsCount_def)

lemma redirect_frame:
  "redirect_users n new u prev g = Inr (p, h) \<Longrightarrow> same_ops g h \<and> same_bb g h"
proof (induction n arbitrary: u prev g)
  case (Suc n)
  show ?case
  proof (cases u)
    case None
    then show ?thesis using Suc.prems by (auto intro: frame_refl)
  next
    case (Some v)
    then obtain k where k: "User_SetInput v new g = Inr k" "redirect_users n new (next_user k v) (Some v) k = Inr (p, h)"
      using Suc.prems by (auto simp: res_simps)
    have "same_ops g k \<and> same_bb g k"
      unfolding User_SetInput_frame [OF k(1)] by (simp add: same_ops_def put_input_frame)
    then show ?thesis using Suc.IH [OF k(2)] by (auto simp: same_ops_def same_bb_def)
  qed
qed simp

lemma ReplaceUsersTo_frame:
  assumes "ReplaceUsersTo old new g = Inr h"
  shows "same_ops g h" "same_bb g h"
proof -
  from assms obtain p k where k: "redirect_users (Suc (slot_count g)) new (ji_first_user (g_inst g old)) None g = Inr (p, k)"
    and h: "(case p of None \<Rightarrow> Inr k | Some p \<Rightarrow> guard (next_user k p = None) AssertFailed
             (Inr (set_first_user new (ji_first_user (g_inst k old)) (set_next_user p (ji_first_user (g_inst k new)) k)))) = Inr h"
    by (auto simp: ReplaceUsersTo_def res_simps)
  note f = redirect_frame [OF k]
  have "same_code k h \<and> same_bb k h"
  proof (cases p)
    case None
    then show ?thesis using h by (auto intro: frame_refl)
  next
    case (Some q)
    then have "h = set_first_user new (ji_first_user (g_inst k old)) (set_next_user q (ji_first_user (g_inst k new)) k)"
      using h by (auto simp: res_simps)
    then show ?thesis using frame_trans(1,2) frame_users by blast
  qed
  then show "same_ops g h" "same_bb g h" using f same_code_ops same_ops_trans frame_trans(2) by blast+
qed

definition subst_input :: "nat \<Rightarrow> nat \<Rightarrow> nat option \<Rightarrow> nat option" where
  "subst_input old new p = (if p = Some old then Some new else p)"

lemma ClearInputs_bb:
  assumes "ClearInputs i g = Inr h"
  shows "same_bb g h"
proof -
  have "same_bb u v" if "fold_res (\<lambda>k h. rbind (GetInput i k h) (\<lambda>inp. deref inp (\<lambda>d. RemoveUser d (i, k) h))) ks u = Inr v" for ks u v
    using that
  proof (induction ks arbitrary: u)
    case (Cons k ks)
    then obtain d w where w: "RemoveUser d (i, k) u = Inr w"
      "fold_res (\<lambda>k h. rbind (GetInput i k h) (\<lambda>inp. deref inp (\<lambda>d. RemoveUser d (i, k) h))) ks w = Inr v"
      by (auto simp: deref_def res_simps)
    have chain: "FindAndRemoveFromChain n y z u = Inr w \<Longrightarrow> same_bb u w" for n y z
      by (induction n arbitrary: z) (auto simp: deref_def res_simps intro: frame_intros split: if_splits)
    have "same_bb u w"
    proof (cases "ji_first_user (g_inst u d) = Some (i, k)")
      case True
      then show ?thesis using w(1) by (auto simp: RemoveUser_def intro: frame_intros)
    next
      case False
      show ?thesis using w(1) unfolding RemoveUser_def if_not_P [OF False] by (rule chain)
    qed
    then show ?case using Cons.IH [OF w(2)] frame_trans(2) by blast
  qed (simp add: frame_refl)
  then show ?thesis using assms by (simp add: ClearInputs_def)
qed

text \<open>Only an instruction that is in a block can be replaced.\<close>

lemma ReplaceWith_bb:
  assumes "ReplaceWith i new g = Inr h"
  shows "ji_bb (g_inst g i) \<noteq> None"
proof -
  from assms obtain g1 g2 where g1: "ClearInputs i g = Inr g1" and g2: "ReplaceInBB i new g1 = Inr g2"
    by (auto simp: ReplaceWith_def res_simps)
  have "ji_bb (g_inst g1 i) \<noteq> None"
  proof (cases "new = i")
    case True
    show ?thesis
    proof
      assume "ji_bb (g_inst g1 i) = None"
      then show False using g2 True by (simp add: ReplaceInBB_def deref_def res_simps)
    qed
  next
    case False
    show ?thesis by (rule ReplaceInBB_frame(3) [OF g2 False])
  qed
  then show ?thesis using ClearInputs_bb [OF g1] by (simp add: same_bb_def)
qed

lemma ready_live: "ready X g \<Longrightarrow> ji_bb (g_inst g i) \<noteq> None \<Longrightarrow> i \<notin> X \<and> i < g_insts_count g"
  by (auto simp: ready_def loose_def not_le [symmetric])

text \<open>
  After the replacement the code is the same, except that the instructions that have not been
  replaced refer to the new instruction where they referred to the old one.
\<close>

lemma ReplaceWith_ready:
  assumes run: "ReplaceWith i new g = Inr h" and ready: "ready X g"
    and new: "new < g_insts_count g" "new \<notin> X" "new \<noteq> i"
  shows "i \<notin> X" "i < g_insts_count g" "ready (insert i X) h" "same_ops g h"
    "j < g_insts_count g \<Longrightarrow> ji_inputs (g_inst h j) =
       (if j \<in> insert i X then ji_inputs (g_inst g j) else map (subst_input i new) (ji_inputs (g_inst g j)))"
    "\<And>j. j \<noteq> i \<Longrightarrow> j \<noteq> new \<Longrightarrow> ji_bb (g_inst h j) = ji_bb (g_inst g j)"
proof -
  from run obtain g1 g2 where g1: "ClearInputs i g = Inr g1" and g2: "ReplaceInBB i new g1 = Inr g2" and g3: "ReplaceUsersTo i new g2 = Inr h"
    by (auto simp: ReplaceWith_def res_simps)
  have old: "uses_ok (- X) {u. fst u \<in> X} g" "shaped g" "closed_code X g" "loose X g" "\<forall>j \<in> X. j < g_insts_count g"
    using ready by (simp_all add: ready_def)
  have bb: "ji_bb (g_inst g i) \<noteq> None" by (rule ReplaceWith_bb [OF run])
  show i: "i \<notin> X" "i < g_insts_count g" using bb old(4) unfolding loose_def by (auto simp: not_le [symmetric])
  note c = ClearInputs_uses [OF g1 ready i]
  note r = ReplaceInBB_frame [OF g2 new(3)]
  let ?S = "{u :: slot. fst u \<in> insert i X}"
  have uses2: "uses_ok (- X) ?S g2" by (rule uses_ok_same [OF r(1,2) c(1)])
  have code2: "same_code g g2" using c(2) r(1) by (simp add: same_code_def)
  have "\<exists>h'. ReplaceUsersTo i new g2 = Inr h' \<and> uses_ok (- X - {i}) ?S h' \<and> (\<forall>u. slot_ok h' u = slot_ok g2 u) \<and>
      (\<forall>u. input_at h' u = (if slot_ok g2 u \<and> u \<notin> ?S \<and> input_at g2 u = Some i then Some new else input_at g2 u))"
    by (rule ReplaceUsersTo_uses [OF uses2]) (use i new in auto)
  then have h: "uses_ok (- X - {i}) ?S h" "\<And>u. slot_ok h u = slot_ok g2 u"
      "\<And>u. input_at h u = (if slot_ok g2 u \<and> u \<notin> ?S \<and> input_at g2 u = Some i then Some new else input_at g2 u)"
    using g3 by auto
  note f = ReplaceUsersTo_frame [OF g3]
  show ops: "same_ops g h" using same_code_ops [OF code2] f(1) by (rule same_ops_trans)
  have inputs: "ji_inputs (g_inst h j) = (if j \<in> insert i X then ji_inputs (g_inst g j) else map (subst_input i new) (ji_inputs (g_inst g j)))"
    if j: "j < g_insts_count g" for j
  proof (rule nth_equalityI)
    show len: "length (ji_inputs (g_inst h j)) =
        length (if j \<in> insert i X then ji_inputs (g_inst g j) else map (subst_input i new) (ji_inputs (g_inst g j)))"
      using ops by (simp add: same_ops_def)
    fix k assume "k < length (ji_inputs (g_inst h j))"
    then have k: "k < length (ji_inputs (g_inst g j))" using ops by (simp add: same_ops_def)
    have ok: "slot_ok g (j, k)" using k j old(2) by (simp add: slot_ok_def shaped_def)
    have "input_at h (j, k) = (if j \<notin> insert i X \<and> input_at g (j, k) = Some i then Some new else input_at g (j, k))"
      using h(3) [of "(j, k)"] ok unfolding view_simps(1,2) [OF code2] by simp
    then show "ji_inputs (g_inst h j) ! k =
        (if j \<in> insert i X then ji_inputs (g_inst g j) else map (subst_input i new) (ji_inputs (g_inst g j))) ! k"
      using k by (simp add: input_at_def subst_input_def)
  qed
  then show "j < g_insts_count g \<Longrightarrow> ji_inputs (g_inst h j) =
      (if j \<in> insert i X then ji_inputs (g_inst g j) else map (subst_input i new) (ji_inputs (g_inst g j)))" .
  have count: "g_insts_count h = g_insts_count g" using ops by (simp add: same_ops_def)
  have bbs: "ji_bb (g_inst h j) = ji_bb (g_inst g j)" if "j \<noteq> i" "j \<noteq> new" for j
    using r(5) [OF that] f(2) c(3) by (simp add: same_bb_def)
  then show "\<And>j. j \<noteq> i \<Longrightarrow> j \<noteq> new \<Longrightarrow> ji_bb (g_inst h j) = ji_bb (g_inst g j)" .
  show "ready (insert i X) h" unfolding ready_def
  proof (intro conjI)
    have D: "- insert i X = - X - {i}" by auto
    show "uses_ok (- insert i X) ?S h" unfolding D by (rule h(1))
    show "shaped h" using old(2) ops same_ops_count [OF ops] by (simp add: shaped_def same_ops_def)
    show "closed_code (insert i X) h" unfolding closed_code_def count
    proof (intro allI impI)
      fix j d assume j: "j < g_insts_count g" and d: "Some d \<in> set (ji_inputs (g_inst h j))"
      show "d < g_insts_count g \<and> (j \<notin> insert i X \<longrightarrow> d \<notin> insert i X)"
      proof (cases "j \<in> insert i X")
        case True
        then show ?thesis using d inputs [OF j] old(3) j unfolding closed_code_def by auto
      next
        case False
        then obtain p where p: "p \<in> set (ji_inputs (g_inst g j))" "subst_input i new p = Some d" using d inputs [OF j] by auto
        then show ?thesis
          using old(3) j False new i unfolding closed_code_def subst_input_def by (cases "p = Some i") auto
      qed
    qed
    show "loose (insert i X) h" unfolding loose_def count
    proof (intro allI impI)
      fix j assume j: "g_insts_count g \<le> j \<or> j \<in> insert i X"
      show "ji_bb (g_inst h j) = None"
      proof (cases "j = i")
        case True
        then show ?thesis using r(4) f(2) by (simp add: same_bb_def)
      next
        case False
        then have J: "g_insts_count g \<le> j \<or> j \<in> X" using j by simp
        then have "j \<noteq> new" using new by auto
        then show ?thesis using J old(4) bbs [OF False] unfolding loose_def by auto
      qed
    qed
    show "\<forall>j \<in> insert i X. j < g_insts_count h" using old(5) i(2) count by simp
  qed
qed

end
