(* ===== verification/Jit_Values.thy ===== *)
theory Jit_Values
  imports Jit_Rewrite
begin

text \<open>
  The peephole rules keep the values of the code.  \<open>op_value\<close> is the reference meaning of the
  integer opcodes on 64 bits; \<open>follows v g\<close> says that the assignment \<open>v\<close> of values to instructions
  agrees with the opcodes.  Phis, parameters, calls and loads may have any value.  A rewriting keeps
  the values when every such assignment extends to the new instructions so that all instructions
  that were there see the same values at their inputs.
\<close>

subsection \<open>The meaning of the opcodes\<close>

definition wide_type :: "jtype \<Rightarrow> bool" where
  "wide_type t \<longleftrightarrow> t = UNKNOWN \<or> t = INT64 \<or> t = UINT64"

fun op_value :: "jopcode \<Rightarrow> jtype \<Rightarrow> u64 \<Rightarrow> u64 list \<Rightarrow> u64 option" where
  "op_value JCONST t imm [] = Some imm"
| "op_value JCAST t imm [a] =
     (if t = INT32 then Some (signed_take_bit 31 a) else if t = UINT32 then Some (take_bit 32 a) else None)"
| "op_value JADD t imm [a, b] = (if wide_type t then Some (a + b) else None)"
| "op_value JSUB t imm [a, b] = (if wide_type t then Some (a - b) else None)"
| "op_value JMUL t imm [a, b] = (if wide_type t then Some (a * b) else None)"
| "op_value JNEG t imm [a] = (if wide_type t then Some (- a) else None)"
| "op_value JNOT t imm [a] = (if wide_type t then Some (not a) else None)"
| "op_value JXOR t imm [a, b] = (if wide_type t then Some (xor a b) else None)"
| "op_value JASHR t imm [a, b] = (if wide_type t \<and> b < 64 then Some (signed_drop_bit (unat b) a) else None)"
| "op_value JSHL t imm [a, b] = (if wide_type t \<and> b < 64 then Some (push_bit (unat b) a) else None)"
| "op_value c t imm xs = None"

definition follows_at :: "(nat \<Rightarrow> u64) \<Rightarrow> 'g graph_scheme \<Rightarrow> nat \<Rightarrow> bool" where
  "follows_at v g j \<longleftrightarrow> (\<forall>xs y. ji_inputs (g_inst g j) = map Some xs \<longrightarrow>
     op_value (ji_opcode (g_inst g j)) (ji_type (g_inst g j)) (ji_imm (g_inst g j)) (map v xs) = Some y \<longrightarrow> v j = y)"

definition follows :: "(nat \<Rightarrow> u64) \<Rightarrow> 'g graph_scheme \<Rightarrow> bool" where
  "follows v g \<longleftrightarrow> (\<forall>j < g_insts_count g. follows_at v g j)"

definition same_head :: "'g graph_scheme \<Rightarrow> 'h graph_scheme \<Rightarrow> nat \<Rightarrow> bool" where
  "same_head g h j \<longleftrightarrow> ji_opcode (g_inst h j) = ji_opcode (g_inst g j) \<and> ji_type (g_inst h j) = ji_type (g_inst g j) \<and>
     ji_imm (g_inst h j) = ji_imm (g_inst g j)"

definition keeps_values :: "'g graph_scheme \<Rightarrow> 'g graph_scheme \<Rightarrow> bool" where
  "keeps_values g h \<longleftrightarrow> g_insts_count g \<le> g_insts_count h \<and> (\<forall>j < g_insts_count g. same_head g h j) \<and>
     (\<forall>v. follows v g \<longrightarrow> (\<exists>w. follows w h \<and> (\<forall>j < g_insts_count g. w j = v j \<and>
        map (map_option w) (ji_inputs (g_inst h j)) = map (map_option v) (ji_inputs (g_inst g j)))))"

lemma keeps_values_refl: "keeps_values g g"
  by (auto simp: keeps_values_def same_head_def)

lemma keeps_values_trans:
  assumes "keeps_values g h" and "keeps_values h k"
  shows "keeps_values g k"
  unfolding keeps_values_def
proof (intro conjI allI impI)
  show "g_insts_count g \<le> g_insts_count k" using assms by (auto simp: keeps_values_def)
  show "same_head g k j" if "j < g_insts_count g" for j
    using assms that by (auto simp: keeps_values_def same_head_def)
  fix v assume "follows v g"
  then obtain w where w: "follows w h" "\<forall>j < g_insts_count g. w j = v j \<and>
        map (map_option w) (ji_inputs (g_inst h j)) = map (map_option v) (ji_inputs (g_inst g j))"
    using assms(1) unfolding keeps_values_def by blast
  then obtain z where z: "follows z k" "\<forall>j < g_insts_count h. z j = w j \<and>
        map (map_option z) (ji_inputs (g_inst k j)) = map (map_option w) (ji_inputs (g_inst h j))"
    using assms(2) unfolding keeps_values_def by blast
  then show "\<exists>w. follows w k \<and> (\<forall>j < g_insts_count g. w j = v j \<and>
      map (map_option w) (ji_inputs (g_inst k j)) = map (map_option v) (ji_inputs (g_inst g j)))"
    using w(2) assms(1) unfolding keeps_values_def by (intro exI [of _ z]) auto
qed

text \<open>What the rules assume of the code: integer operations have 64 bits, arithmetic shifts are signed.\<close>

definition wide_op :: "jopcode \<Rightarrow> bool" where
  "wide_op c \<longleftrightarrow> c = JADD \<or> c = JSUB \<or> c = JMUL \<or> c = JNEG \<or> c = JNOT \<or> c = JXOR \<or> c = JASHR \<or> c = JSHL"

definition wide_code :: "'g graph_scheme \<Rightarrow> bool" where
  "wide_code g \<longleftrightarrow> (\<forall>j < g_insts_count g. wide_op (ji_opcode (g_inst g j)) \<longrightarrow>
     wide_type (ji_type (g_inst g j)) \<and> (ji_opcode (g_inst g j) = JASHR \<longrightarrow> ji_type (g_inst g j) \<noteq> UINT64))"

text \<open>No instruction but a phi depends on itself.\<close>

definition ranked :: "(nat \<Rightarrow> nat) \<Rightarrow> 'g graph_scheme \<Rightarrow> bool" where
  "ranked r g \<longleftrightarrow> (\<forall>j < g_insts_count g. ji_opcode (g_inst g j) \<noteq> JPHI \<longrightarrow>
     (\<forall>d. Some d \<in> set (ji_inputs (g_inst g j)) \<longrightarrow> r d < r j))"

definition sound_code :: "nat set \<Rightarrow> 'g graph_scheme \<Rightarrow> bool" where
  "sound_code X g \<longleftrightarrow> ready X g \<and> wide_code g \<and> (\<exists>r. ranked r g)"

subsection \<open>New instructions\<close>

definition fresh_head :: "'g graph_scheme \<Rightarrow> 'g graph_scheme \<Rightarrow> nat \<Rightarrow> jopcode \<Rightarrow> jtype \<Rightarrow> u64 \<Rightarrow> nat option list \<Rightarrow> bool" where
  "fresh_head g h n c t imm ins \<longleftrightarrow> ji_opcode (g_inst h n) = c \<and> ji_type (g_inst h n) = t \<and> ji_imm (g_inst h n) = imm \<and>
     ji_inputs (g_inst h n) = ins"

lemma New_variadic_inst:
  "New_variadic c m t imm g = (n, h) \<Longrightarrow> n = g_insts_count g \<and> g_insts_count h = Suc n \<and> g_bb h = g_bb g \<and>
     g_inst h = (g_inst g)(n := new_inst c m t imm)"
  by (auto simp: New_variadic_def)

lemma New_variadic_ready:
  assumes "ready X g" and "New_variadic c m t imm g = (n, h)" and "IsFixed c \<Longrightarrow> m = fixed_inputs c"
  shows "ready X h"
proof -
  note h = New_variadic_inst [OF assms(2)]
  have old: "uses_ok (- X) {u. fst u \<in> X} g" "shaped g" "closed_code X g" "loose X g" "\<forall>j \<in> X. j < g_insts_count g"
    using assms(1) by (simp_all add: ready_def)
  have new: "slot_ok h u \<longleftrightarrow> slot_ok g u \<or> fst u = n \<and> snd u < m" for u
    using h by (auto simp: slot_ok_def new_inst_def less_Suc_eq)
  have at: "input_at h u = (if fst u = n then None else input_at g u)" if "slot_ok h u" for u
    using h that by (auto simp: input_at_def slot_ok_def new_inst_def)
  have "uses_ok (- X) {u. fst u \<in> X} h"
    unfolding uses_ok_def
  proof
    fix d assume "d \<in> - X"
    from uses_okE [OF old(1) this] obtain xs where xs: "users_list g d xs"
      "\<And>u. u \<in> set xs \<longleftrightarrow> slot_ok g u \<and> u \<notin> {u. fst u \<in> X} \<and> input_at g u = Some d" by blast
    have low: "fst u < n" if "u \<in> set xs" for u using xs(2) that h by (auto simp: slot_ok_def)
    have iff: "u \<in> set xs \<longleftrightarrow> slot_ok h u \<and> u \<notin> {u. fst u \<in> X} \<and> input_at h u = Some d" for u
      using xs(2) [of u] new [of u] at [of u] low [of u] h by (cases "fst u = n") (auto simp: slot_ok_def)
    have first: "ji_first_user (g_inst h d) = ji_first_user (g_inst g d)"
    proof (cases "d = n")
      case True
      have "xs = []"
      proof (rule ccontr)
        assume "xs \<noteq> []"
        then obtain u where u: "slot_ok g u" "input_at g u = Some n" using xs(2) True by (cases xs) auto
        then have "Some n \<in> set (ji_inputs (g_inst g (fst u)))" by (simp add: input_at_def slot_ok_def) (metis nth_mem)
        then show False using old(3) u(1) h by (auto simp: closed_code_def slot_ok_def)
      qed
      then show ?thesis using xs(1) True h by (simp add: users_list_def new_inst_def)
    qed (use h in simp)
    have "users_list h d xs" unfolding users_list_def
    proof (intro conjI ballI)
      have "seg (next_user h) (ji_first_user (g_inst g d)) xs None = seg (next_user g) (ji_first_user (g_inst g d)) xs None"
      proof (rule seg_cong)
        fix u assume "u \<in> set xs"
        then have "fst u \<noteq> n" using low by blast
        then show "next_user h u = next_user g u" using h by (simp add: next_user_def)
      qed
      then show "seg (next_user h) (ji_first_user (g_inst h d)) xs None" using xs(1) first by (simp add: users_list_def)
      show "distinct xs" using xs(1) by (simp add: users_list_def)
      show "slot_ok h u" if "u \<in> set xs" for u using iff that by blast
    qed
    then show "\<exists>xs. users_list h d xs \<and> (\<forall>u. u \<in> set xs \<longleftrightarrow> slot_ok h u \<and> u \<notin> {u. fst u \<in> X} \<and> input_at h u = Some d)"
      using iff by blast
  qed
  moreover have "shaped h" using old(2) h assms(3) by (auto simp: shaped_def GetInputsCount_def new_inst_def less_Suc_eq)
  moreover have "closed_code X h"
    using old(3) h unfolding closed_code_def by (auto simp: new_inst_def less_Suc_eq)
  moreover have "loose X h" using old(4) h unfolding loose_def by (auto simp: new_inst_def)
  moreover have "\<forall>j \<in> X. j < g_insts_count h" using old(5) h by auto
  ultimately show ?thesis by (simp add: ready_def)
qed

lemma New_inst_inst:
  "New_inst c t imm g = (n, h) \<Longrightarrow> n = g_insts_count g \<and> g_insts_count h = Suc n \<and> g_bb h = g_bb g \<and>
     g_inst h = (g_inst g)(n := new_inst c (fixed_inputs c) t imm)"
  unfolding New_inst_def by (rule New_variadic_inst)

lemma New_inst_ready: "ready X g \<Longrightarrow> New_inst c t imm g = (n, h) \<Longrightarrow> IsFixed c \<Longrightarrow> ready X h"
  unfolding New_inst_def by (rule New_variadic_ready) auto

lemma SetType_ready: "ready X g \<Longrightarrow> ready X (SetType n t g)"
proof -
  assume r: "ready X g"
  have same: "same_lists g (SetType n t g)" "same_bb g (SetType n t g)"
    by (simp_all add: same_lists_def same_bb_def SetType_def upd_inst_def)
  have s: "slot_ok (SetType n t g) u = slot_ok g u" "input_at (SetType n t g) u = input_at g u"
    "GetInputsCount (SetType n t g) j = GetInputsCount g j" "g_insts_count (SetType n t g) = g_insts_count g"
    "ji_inputs (g_inst (SetType n t g) j) = ji_inputs (g_inst g j)" for u j
    by (auto simp: SetType_def upd_inst_def slot_ok_def input_at_def GetInputsCount_def)
  have nu: "next_user (SetType n t g) = next_user g" using same(1) by (intro ext) (simp add: next_user_def same_lists_def)
  have ul: "users_list (SetType n t g) d xs = users_list g d xs" for d xs
    using same(1) by (simp add: users_list_def nu s same_lists_def)
  have "uses_ok D S (SetType n t g) = uses_ok D S g" for D S unfolding uses_ok_def ul s ..
  moreover have "shaped (SetType n t g) = shaped g" "closed_code X (SetType n t g) = closed_code X g"
    using same(1) unfolding shaped_def closed_code_def s same_lists_def by simp_all
  moreover have "loose X (SetType n t g) = loose X g" using same(2) unfolding loose_def s same_bb_def by simp
  ultimately show "ready X (SetType n t g)" using r by (simp add: ready_def s)
qed

text \<open>What filling an empty input and inserting an instruction leave alone.\<close>

definition same_heads :: "'g graph_scheme \<Rightarrow> 'g graph_scheme \<Rightarrow> bool" where
  "same_heads g h \<longleftrightarrow> g_insts_count h = g_insts_count g \<and> (\<forall>j. same_head g h j)"

lemma same_ops_heads: "same_ops g h \<Longrightarrow> same_heads g h"
  by (simp add: same_ops_def same_heads_def same_head_def)

lemma SetInput_frame:
  assumes "SetInput n k d g = Inr h" and "ji_inputs (g_inst g n) ! k = None"
  shows "same_ops g h" "same_bb g h" "k < length (ji_inputs (g_inst g n))" "next_user g (n, k) = None"
    "ji_inputs (g_inst h j) = (if j = n then (ji_inputs (g_inst g n))[k := Some d] else ji_inputs (g_inst g j))"
proof -
  from assms have h: "h = put_input n k d (set_first_user d (Some (n, k)) (set_next_user (n, k) (ji_first_user (g_inst g d)) g))"
    and k: "k < length (ji_inputs (g_inst g n))" "next_user g (n, k) = None"
    by (auto simp: SetInput_def AppendUseOf_def Let_def res_simps)
  show "same_ops g h" "same_bb g h" unfolding h
    by (auto simp: same_ops_def same_bb_def put_input_def set_first_user_def set_next_user_def upd_inst_def)
  show "k < length (ji_inputs (g_inst g n))" "next_user g (n, k) = None" by (rule k)+
  show "ji_inputs (g_inst h j) = (if j = n then (ji_inputs (g_inst g n))[k := Some d] else ji_inputs (g_inst g j))"
    unfolding h by (auto simp: put_input_def set_first_user_def set_next_user_def upd_inst_def)
qed

lemma SetInput_ready:
  assumes "SetInput n k d g = Inr h" and "ji_inputs (g_inst g n) ! k = None" and "ready X g"
    and n: "n < g_insts_count g" "n \<notin> X" and d: "d < g_insts_count g" "d \<notin> X"
  shows "ready X h"
proof -
  note f = SetInput_frame [OF assms(1,2)]
  have old: "uses_ok (- X) {u. fst u \<in> X} g" "shaped g" "closed_code X g" "loose X g" "\<forall>j \<in> X. j < g_insts_count g"
    using assms(3) by (simp_all add: ready_def)
  have slot: "slot_ok g (n, k)" using f(3) n(1) old(2) by (simp add: slot_ok_def shaped_def)
  have "\<exists>h. SetInput n k d g = Inr h \<and> consistent (- X) X h \<and> (\<forall>u. input_at h u = (if u = (n, k) then Some d else input_at g u))"
    by (rule SetInput_empty [OF _ slot n(2) assms(2) f(4)]) (use old(1) in \<open>simp add: consistent_uses_ok\<close>)
  then have uses: "uses_ok (- X) {u. fst u \<in> X} h" using assms(1) by (simp add: consistent_uses_ok)
  have count: "g_insts_count h = g_insts_count g" using f(1) by (simp add: same_ops_def)
  have "shaped h" using old(2) f(1) same_ops_count [OF f(1)] by (simp add: shaped_def same_ops_def)
  moreover have "closed_code X h" unfolding closed_code_def count
  proof (intro allI impI)
    fix j e assume j: "j < g_insts_count g" and e: "Some e \<in> set (ji_inputs (g_inst h j))"
    have "Some e \<in> set (ji_inputs (g_inst g j)) \<or> j = n \<and> e = d"
      using e set_update_subset_insert unfolding f(5) by (fastforce split: if_splits)
    then show "e < g_insts_count g \<and> (j \<notin> X \<longrightarrow> e \<notin> X)" using old(3) j d unfolding closed_code_def by blast
  qed
  moreover have "loose X h" using old(4) f(2) unfolding loose_def count same_bb_def by simp
  ultimately show ?thesis using uses old(5) count by (simp add: ready_def)
qed

lemma Prepend_frame:
  assumes "Prepend i n g = Inr h"
  shows "same_code g h" "same_lists g h" "ji_bb (g_inst g i) \<noteq> None" "n \<noteq> j \<Longrightarrow> ji_bb (g_inst h j) = ji_bb (g_inst g j)"
proof -
  let ?g1 = "upd_inst n (\<lambda>x. x\<lparr>ji_bb := ji_bb (g_inst g i), ji_next := Some i, ji_prev := ji_prev (g_inst g i)\<rparr>) g"
  let ?g2 = "upd_inst i (\<lambda>x. x\<lparr>ji_prev := Some n\<rparr>) ?g1"
  from assms obtain b k where k: "set_next (ji_prev (g_inst g i)) (Some n) ?g2 = Inr k" and b: "ji_bb (g_inst g i) = Some b"
    and h: "(if bb_first_inst (g_bb k b) = Some i then SetFirstInst b (Some n) k else Inr k) = Inr h"
    by (auto simp: Prepend_def Let_def deref_def res_simps)
  have f1: "same_code g ?g1" "same_lists g ?g1" by (rule frame_intros)+
  have f2: "same_code ?g1 ?g2" "same_lists ?g1 ?g2" "same_bb ?g1 ?g2" by (rule frame_intros)+
  note f3 = set_next_frame [OF k]
  have f4: "same_code k h \<and> same_bb k h \<and> same_lists k h"
    using h SetFirstInst_frame [of b "Some n" k h] by (cases "bb_first_inst (g_bb k b) = Some i") (auto intro: frame_refl)
  show "same_code g h" "same_lists g h" using f1 f2 f3 f4 by (meson frame_trans)+
  show "ji_bb (g_inst g i) \<noteq> None" using b by simp
  assume "n \<noteq> j"
  then have "ji_bb (g_inst ?g1 j) = ji_bb (g_inst g j)" by (simp add: upd_inst_def)
  then show "ji_bb (g_inst h j) = ji_bb (g_inst g j)" using f2(3) f3 f4 by (simp add: same_bb_def)
qed

lemma Prepend_ready:
  assumes "Prepend i n g = Inr h" and "ready X g" and "n < g_insts_count g" "n \<notin> X"
  shows "ready X h"
proof (rule ready_same)
  note f = Prepend_frame [OF assms(1)]
  show "same_code g h" "same_lists g h" by (rule f)+
  show "ready X g" by (rule assms(2))
  show "loose X h"
    using assms(2-4) f(4) same_code_inputs(3) [OF f(1)] unfolding loose_def ready_def by (metis linorder_not_le)
qed

subsection \<open>One rewriting\<close>

definition code_at :: "'g graph_scheme \<Rightarrow> nat \<Rightarrow> jopcode \<times> jtype \<times> u64 \<times> nat option list" where
  "code_at g j = (ji_opcode (g_inst g j), ji_type (g_inst g j), ji_imm (g_inst g j), ji_inputs (g_inst g j))"

definition extends :: "'g graph_scheme \<Rightarrow> 'g graph_scheme \<Rightarrow> bool" where
  "extends g h \<longleftrightarrow> g_insts_count g \<le> g_insts_count h \<and> (\<forall>j < g_insts_count g. g_inst h j = g_inst g j) \<and>
     (\<forall>j. g_insts_count g \<le> j \<longrightarrow> j < g_insts_count h \<longrightarrow> ji_bb (g_inst h j) = None)"

lemma extends_refl [simp]: "extends g g"
  by (simp add: extends_def)

lemma extends_New: "extends g h \<Longrightarrow> New_inst c t imm h = (n, k) \<Longrightarrow> extends g k"
  using New_inst_inst [of c t imm h n k] by (auto simp: extends_def new_inst_def)

lemma extends_SetType: "extends g h \<Longrightarrow> g_insts_count g \<le> n \<Longrightarrow> extends g (SetType n t h)"
  by (auto simp: extends_def SetType_def upd_inst_def)

lemma code_at_New: "New_inst c t imm g = (n, h) \<Longrightarrow> code_at h j = (if j = n then (c, t, imm, replicate (fixed_inputs c) None) else code_at g j)"
  using New_inst_inst [of c t imm g n h] by (auto simp: code_at_def new_inst_def)

lemma code_at_SetType: "code_at (SetType n t g) j = (if j = n then (ji_opcode (g_inst g n), t, ji_imm (g_inst g n), ji_inputs (g_inst g n)) else code_at g j)"
  by (simp add: code_at_def SetType_def upd_inst_def)

text \<open>The instruction \<open>i\<close> has been replaced by \<open>new\<close>; the instructions that are new may be incomplete.\<close>

definition rewriting :: "nat set \<Rightarrow> nat \<Rightarrow> nat \<Rightarrow> 'g graph_scheme \<Rightarrow> 'g graph_scheme \<Rightarrow> bool" where
  "rewriting X i new g h \<longleftrightarrow> i < g_insts_count g \<and> g_insts_count g \<le> g_insts_count h \<and> ready (insert i X) h \<and>
     (\<forall>j < g_insts_count g. same_head g h j \<and> ji_inputs (g_inst h j) =
        (if j \<in> insert i X then ji_inputs (g_inst g j) else map (subst_input i new) (ji_inputs (g_inst g j))))"

lemma extends_live:
  assumes "ReplaceWith i new g1 = Inr h" and "extends g g1" and "ready X g1"
  shows "i < g_insts_count g" "i \<notin> X"
  using ReplaceWith_bb [OF assms(1)] ready_live [OF assms(3), of i] assms(2) unfolding extends_def by (auto simp: not_le [symmetric])

lemma rewriting_start:
  assumes "ReplaceWith i new g1 = Inr h" and "extends g g1" and "ready X g1"
    and "new < g_insts_count g1" "new \<notin> X" "new \<noteq> i"
  shows "rewriting X i new g h" "g_insts_count h = g_insts_count g1"
    "j < g_insts_count g1 \<Longrightarrow> Some i \<notin> set (ji_inputs (g_inst g1 j)) \<Longrightarrow> code_at h j = code_at g1 j"
proof -
  note r = ReplaceWith_ready [OF assms(1,3-6)]
  have heads: "same_heads g1 h" by (rule same_ops_heads [OF r(4)])
  then show count: "g_insts_count h = g_insts_count g1" by (simp add: same_heads_def)
  show "rewriting X i new g h"
    unfolding rewriting_def
  proof (intro conjI allI impI)
    fix j assume j: "j < g_insts_count g"
    then have j1: "j < g_insts_count g1" and same: "g_inst g1 j = g_inst g j" using assms(2) by (auto simp: extends_def)
    show "same_head g h j" using heads same by (simp add: same_heads_def same_head_def)
    show "ji_inputs (g_inst h j) =
        (if j \<in> insert i X then ji_inputs (g_inst g j) else map (subst_input i new) (ji_inputs (g_inst g j)))"
      using r(5) [OF j1] same by simp
  qed (use assms(2) extends_live [OF assms(1-3)] r(3) count in \<open>simp_all add: extends_def\<close>)
  assume j: "j < g_insts_count g1" and none: "Some i \<notin> set (ji_inputs (g_inst g1 j))"
  have "map (subst_input i new) (ji_inputs (g_inst g1 j)) = ji_inputs (g_inst g1 j)"
    by (rule map_idI) (use none in \<open>auto simp: subst_input_def\<close>)
  then show "code_at h j = code_at g1 j"
    using r(5) [OF j] heads by (simp add: code_at_def same_heads_def same_head_def)
qed

lemma rewriting_SetInput:
  assumes "SetInput n k d h = Inr h'" and "rewriting X i new g h" and "\<forall>j \<in> X. j < g_insts_count g"
    and n: "g_insts_count g \<le> n" "n < g_insts_count h" "ji_inputs (g_inst h n) ! k = None"
    and d: "d < g_insts_count h" "d \<notin> X" "d \<noteq> i"
  shows "rewriting X i new g h'" "g_insts_count h' = g_insts_count h"
    "j \<noteq> n \<Longrightarrow> code_at h' j = code_at h j"
    "code_at h n = (c, t, imm, ins) \<Longrightarrow> code_at h' n = (c, t, imm, ins[k := Some d])"
proof -
  note f = SetInput_frame [OF assms(1) n(3)]
  have heads: "same_heads h h'" by (rule same_ops_heads [OF f(1)])
  have r: "i < g_insts_count g" "ready (insert i X) h" using assms(2) by (simp_all add: rewriting_def)
  then have nX: "n \<notin> insert i X" using assms(3) n(1) by auto
  have "ready (insert i X) h'" by (rule SetInput_ready [OF assms(1) n(3) r(2) n(2) nX]) (use d in auto)
  then show "rewriting X i new g h'"
    using assms(2) heads f(5) n(1) unfolding rewriting_def same_heads_def same_head_def by auto
  show "g_insts_count h' = g_insts_count h" using heads by (simp add: same_heads_def)
  show "j \<noteq> n \<Longrightarrow> code_at h' j = code_at h j"
    using heads f(5) by (simp add: code_at_def same_heads_def same_head_def)
  show "code_at h n = (c, t, imm, ins) \<Longrightarrow> code_at h' n = (c, t, imm, ins[k := Some d])"
    using heads f(5) by (simp add: code_at_def same_heads_def same_head_def)
qed

lemma rewriting_Prepend:
  assumes "Prepend m n h = Inr h'" and "rewriting X i new g h" and "\<forall>j \<in> X. j < g_insts_count g"
    and n: "g_insts_count g \<le> n" "n < g_insts_count h"
  shows "rewriting X i new g h'" "g_insts_count h' = g_insts_count h" "code_at h' j = code_at h j"
proof -
  note f = Prepend_frame [OF assms(1)]
  have code: "code_at h' j = code_at h j" "g_insts_count h' = g_insts_count h" for j
    using f(1) by (simp_all add: same_code_def view_def code_at_def)
  have r: "i < g_insts_count g" "ready (insert i X) h" using assms(2) by (simp_all add: rewriting_def)
  then have nX: "n \<notin> insert i X" using assms(3) n(1) by auto
  have "ready (insert i X) h'" by (rule Prepend_ready [OF assms(1) r(2) n(2) nX])
  then show "rewriting X i new g h'"
    using assms(2) code by (auto simp: rewriting_def code_at_def same_head_def)
  show "g_insts_count h' = g_insts_count h" "code_at h' j = code_at h j" by (rule code)+
qed

text \<open>When the new instruction has the value of the old one, the rewriting keeps the values.\<close>

lemma map_Some_inputs: "map (map_option w) ps = map (map_option v) qs \<Longrightarrow> ps = map Some xs \<Longrightarrow> \<exists>ys. qs = map Some ys \<and> map v ys = map w xs"
proof (induction ps arbitrary: qs xs)
  case (Cons p ps)
  then obtain q qs' x xs' where q: "qs = q # qs'" "xs = x # xs'" "p = Some x" "ps = map Some xs'" by (cases qs; cases xs) auto
  then obtain ys where "qs' = map Some ys" "map v ys = map w xs'" using Cons.IH [of qs' xs'] Cons.prems by auto
  moreover obtain y where "q = Some y" "v y = w x" using Cons.prems(1) q by (cases q) auto
  ultimately show ?case using q by (intro exI [of _ "y # ys"]) simp
qed auto

lemma rewriting_keeps:
  assumes rw: "rewriting X i new g h" and closed: "closed_code X g"
    and val: "\<And>v. follows v g \<Longrightarrow> \<exists>w. (\<forall>j < g_insts_count g. w j = v j) \<and> w new = v i \<and>
      (\<forall>j. g_insts_count g \<le> j \<longrightarrow> j < g_insts_count h \<longrightarrow> follows_at w h j)"
  shows "keeps_values g h"
  unfolding keeps_values_def
proof (intro conjI allI impI)
  show "g_insts_count g \<le> g_insts_count h" using rw by (simp add: rewriting_def)
  show "same_head g h j" if "j < g_insts_count g" for j using rw that by (simp add: rewriting_def)
  fix v assume v: "follows v g"
  then obtain w where w: "\<forall>j < g_insts_count g. w j = v j" "w new = v i"
      "\<forall>j. g_insts_count g \<le> j \<longrightarrow> j < g_insts_count h \<longrightarrow> follows_at w h j" using val by blast
  have ins: "map (map_option w) (ji_inputs (g_inst h j)) = map (map_option v) (ji_inputs (g_inst g j))"
    if j: "j < g_insts_count g" for j
  proof -
    have "map_option w p = map_option v p" "map_option w (subst_input i new p) = map_option v p"
      if "p \<in> set (ji_inputs (g_inst g j))" for p
      using closed j that w(1,2) unfolding closed_code_def by (cases p; force simp: subst_input_def)+
    then show ?thesis using rw j by (simp add: rewriting_def)
  qed
  have "follows_at w h j" if "j < g_insts_count h" for j
  proof (cases "j < g_insts_count g")
    case True
    show ?thesis
      unfolding follows_at_def
    proof (intro allI impI)
      fix xs y assume xs: "ji_inputs (g_inst h j) = map Some xs"
        and y: "op_value (ji_opcode (g_inst h j)) (ji_type (g_inst h j)) (ji_imm (g_inst h j)) (map w xs) = Some y"
      from map_Some_inputs [OF ins [OF True] xs] obtain ys where ys: "ji_inputs (g_inst g j) = map Some ys" "map v ys = map w xs" by blast
      have "same_head g h j" using rw True by (simp add: rewriting_def)
      then have "v j = y" using v True ys y by (simp add: follows_def follows_at_def same_head_def)
      then show "w j = y" using w(1) True by simp
    qed
  qed (use w(3) that in simp)
  then show "\<exists>w. follows w h \<and> (\<forall>j < g_insts_count g. w j = v j \<and>
      map (map_option w) (ji_inputs (g_inst h j)) = map (map_option v) (ji_inputs (g_inst g j)))"
    using w(1) ins by (auto simp: follows_def)
qed

lemma rewriting_sound:
  assumes rw: "rewriting X i new g h" and old: "wide_code g" "ranked r g"
    and wide: "\<And>j. g_insts_count g \<le> j \<Longrightarrow> j < g_insts_count h \<Longrightarrow> wide_op (ji_opcode (g_inst h j)) \<Longrightarrow>
       wide_type (ji_type (g_inst h j)) \<and> ji_opcode (g_inst h j) \<noteq> JASHR"
    and rank: "\<forall>j < g_insts_count g. s j = 2 * r j" "s new \<le> 2 * r i" "closed_code X g"
      "\<And>j d. g_insts_count g \<le> j \<Longrightarrow> j < g_insts_count h \<Longrightarrow> Some d \<in> set (ji_inputs (g_inst h j)) \<Longrightarrow> s d < s j"
  shows "sound_code (insert i X) h"
proof -
  have "ready (insert i X) h" using rw by (simp add: rewriting_def)
  moreover have "wide_code h" unfolding wide_code_def
  proof (intro allI impI)
    fix j assume j: "j < g_insts_count h" "wide_op (ji_opcode (g_inst h j))"
    then show "wide_type (ji_type (g_inst h j)) \<and> (ji_opcode (g_inst h j) = JASHR \<longrightarrow> ji_type (g_inst h j) \<noteq> UINT64)"
      using wide [of j] old(1) rw by (cases "j < g_insts_count g") (auto simp: rewriting_def same_head_def wide_code_def)
  qed
  moreover have "ranked s h" unfolding ranked_def
  proof (intro allI impI)
    fix j d assume j: "j < g_insts_count h" "ji_opcode (g_inst h j) \<noteq> JPHI" and d: "Some d \<in> set (ji_inputs (g_inst h j))"
    show "s d < s j"
    proof (cases "j < g_insts_count g")
      case True
      then have head: "ji_opcode (g_inst g j) \<noteq> JPHI" using rw j(2) by (simp add: rewriting_def same_head_def)
      have low: "e < g_insts_count g \<and> s e < s j" if "Some e \<in> set (ji_inputs (g_inst g j))" for e
      proof -
        have "r e < r j" using old(2) True head that by (simp add: ranked_def)
        moreover have "e < g_insts_count g" using rank(3) True that by (auto simp: closed_code_def)
        ultimately show ?thesis using rank(1) True by simp
      qed
      from d rw True obtain p where p: "p \<in> set (ji_inputs (g_inst g j))" "p = Some d \<or> subst_input i new p = Some d"
        by (auto simp: rewriting_def split: if_splits)
      show ?thesis
      proof (cases "p = Some d")
        case False
        then have "p = Some i" "d = new" using p(2) by (auto simp: subst_input_def split: if_splits)
        then have "s i < s j" "s i = 2 * r i" using low [of i] p(1) rank(1) by auto
        then show ?thesis using rank(2) \<open>d = new\<close> by simp
      qed (use low p(1) in auto)
    qed (use rank(4) j(1) d in auto)
  qed
  ultimately show ?thesis by (auto simp: sound_code_def)
qed

end
