(* ===== verification/Jit_Optimize.thy ===== *)
theory Jit_Optimize
  imports Jit_Values
begin

text \<open>
  The peephole rules, one by one, and the pass over the graph: every rule that applies keeps the
  values of the code (\<open>keeps_values\<close>) and the invariant the next rule needs (\<open>sound_code\<close>).
\<close>

subsection \<open>Operands\<close>

definition kept :: "'g graph_scheme \<Rightarrow> 'g graph_scheme \<Rightarrow> bool" where
  "kept g h \<longleftrightarrow> keeps_values g h \<and> (\<exists>Y. sound_code Y h)"

lemma kept_refl: "sound_code X g \<Longrightarrow> kept g g"
  by (auto simp: kept_def keeps_values_refl)

lemma kept_trans: "kept g h \<Longrightarrow> kept h k \<Longrightarrow> kept g k"
  by (auto simp: kept_def intro: keeps_values_trans)

lemma sound_parts:
  assumes "sound_code X g"
  shows "ready X g" "wide_code g" "closed_code X g" "shaped g" "\<forall>j \<in> X. j < g_insts_count g"
  using assms by (simp_all add: sound_code_def ready_def)

lemma fixed_length:
  "shaped g \<Longrightarrow> i < g_insts_count g \<Longrightarrow> is_op c g i \<Longrightarrow> IsFixed c \<Longrightarrow> length (ji_inputs (g_inst g i)) = fixed_inputs c"
  by (auto simp: shaped_def GetInputsCount_def is_op_def)

lemma no_inputs: "shaped g \<Longrightarrow> i < g_insts_count g \<Longrightarrow> is_op JCONST g i \<Longrightarrow> ji_inputs (g_inst g i) = []"
  using fixed_length [of g i JCONST] by (simp add: IsFixed_def fixed_inputs_def)

lemma one_input:
  "shaped g \<Longrightarrow> i < g_insts_count g \<Longrightarrow> is_op c g i \<Longrightarrow> IsFixed c \<Longrightarrow> fixed_inputs c = 1 \<Longrightarrow> GetInput i 0 g = Inr (Some x) \<Longrightarrow>
   ji_inputs (g_inst g i) = [Some x]"
  using fixed_length [of g i c] by (cases "ji_inputs (g_inst g i)") (auto simp: GetInput_def)

lemma two_inputs:
  "shaped g \<Longrightarrow> i < g_insts_count g \<Longrightarrow> is_op c g i \<Longrightarrow> IsFixed c \<Longrightarrow> fixed_inputs c = 2 \<Longrightarrow> GetInput i 0 g = Inr (Some x) \<Longrightarrow>
   GetInput i 1 g = Inr (Some y) \<Longrightarrow> ji_inputs (g_inst g i) = [Some x, Some y]"
  using fixed_length [of g i c] by (auto simp: GetInput_def length_Suc_conv numeral_2_eq_2 split: if_splits)

lemma follows_value:
  "follows v g \<Longrightarrow> i < g_insts_count g \<Longrightarrow> ji_inputs (g_inst g i) = map Some xs \<Longrightarrow>
   op_value (ji_opcode (g_inst g i)) (ji_type (g_inst g i)) (ji_imm (g_inst g i)) (map v xs) = Some y \<Longrightarrow> v i = y"
  by (auto simp: follows_def follows_at_def)

lemma const_value: "follows v g \<Longrightarrow> shaped g \<Longrightarrow> i < g_insts_count g \<Longrightarrow> is_op JCONST g i \<Longrightarrow> v i = GetImm g i"
  using no_inputs [of g i] follows_value [of v g i "[]" "GetImm g i"] by (simp add: is_op_def GetImm_def)

text \<open>An operand of an instruction that is not a phi comes before it and has not been replaced.\<close>

definition operand :: "nat set \<Rightarrow> 'g graph_scheme \<Rightarrow> nat \<Rightarrow> nat \<Rightarrow> bool" where
  "operand X g i d \<longleftrightarrow> d < g_insts_count g \<and> (i \<notin> X \<longrightarrow> d \<notin> X) \<and> (\<forall>r. ranked r g \<longrightarrow> r d < r i)"

lemma operandI:
  "sound_code X g \<Longrightarrow> i < g_insts_count g \<Longrightarrow> \<not> IsPhi g i \<Longrightarrow> Some d \<in> set (ji_inputs (g_inst g i)) \<Longrightarrow> operand X g i d"
  using sound_parts(3) [of X g] by (auto simp: operand_def closed_code_def ranked_def IsPhi_def)

lemma operand_trans: "operand X g i d \<Longrightarrow> operand X g d e \<Longrightarrow> operand X g i e"
  by (auto simp: operand_def intro: less_trans)

lemma operand_other: "sound_code X g \<Longrightarrow> operand X g i d \<Longrightarrow> d \<noteq> i"
  by (auto simp: operand_def sound_code_def)

subsection \<open>Replacing by an instruction that exists\<close>

lemma replace_existing:
  assumes run: "ReplaceWith i e g = Inr h" and sound: "sound_code X g" and e: "i < g_insts_count g \<Longrightarrow> operand X g i e"
    and val: "\<And>v. i < g_insts_count g \<Longrightarrow> follows v g \<Longrightarrow> v e = v i"
  shows "kept g h"
proof -
  note p = sound_parts [OF sound]
  note l = extends_live [OF run extends_refl p(1)]
  note e = e [OF l(1)]
  have ei: "e \<noteq> i" by (rule operand_other [OF sound e])
  have e': "e < g_insts_count g" "e \<notin> X" using e l by (simp_all add: operand_def)
  note s = rewriting_start [OF run extends_refl p(1) e' ei]
  obtain r where r: "ranked r g" using sound by (auto simp: sound_code_def)
  have "keeps_values g h"
    by (rule rewriting_keeps [OF s(1) p(3)]) (use val l s(2) in \<open>auto intro!: exI\<close>)
  moreover have "sound_code (insert i X) h"
    by (rule rewriting_sound [OF s(1) p(2) r, where s = "\<lambda>j. 2 * r j"]) (use s(2) e r p(3) in \<open>auto simp: operand_def\<close>)
  ultimately show ?thesis by (auto simp: kept_def)
qed

subsection \<open>Replacing by a new instruction\<close>

text \<open>The instruction \<open>n\<close> created by a rule, whose inputs are still empty, replaces \<open>i\<close>.\<close>

lemma replace_fresh:
  assumes run: "ReplaceWith i n k = Inr h" and sound: "sound_code X g" and k: "extends g k" "ready X k"
    and n: "g_insts_count g \<le> n" "n < g_insts_count k"
    and empty: "\<forall>j. g_insts_count g \<le> j \<and> j < g_insts_count k \<longrightarrow> set (ji_inputs (g_inst k j)) \<subseteq> {None}"
  shows "rewriting X i n g h" "g_insts_count h = g_insts_count k"
    "g_insts_count g \<le> j \<Longrightarrow> j < g_insts_count k \<Longrightarrow> code_at h j = code_at k j"
    "i < g_insts_count g" "i \<notin> X"
proof -
  note l = extends_live [OF run k]
  have nX: "n \<notin> X" "n \<noteq> i" using sound_parts(5) [OF sound] n(1) l(1) by auto
  note s = rewriting_start [OF run k n(2) nX]
  show "rewriting X i n g h" "g_insts_count h = g_insts_count k" by (rule s)+
  show "i < g_insts_count g" "i \<notin> X" by (rule l)+
  assume j: "g_insts_count g \<le> j" "j < g_insts_count k"
  show "code_at h j = code_at k j" by (rule s(3)) (use empty j in auto)
qed

text \<open>The finished rewriting with one new instruction.\<close>

lemma one_fresh:
  assumes rw: "rewriting X i n g h" and sound: "sound_code X g" and n: "n = g_insts_count g" "g_insts_count h = Suc n"
    and code: "code_at h n = (c, t, imm, map Some ds)" and ds: "\<forall>d \<in> set ds. operand X g i d"
    and wide: "wide_op c \<Longrightarrow> wide_type t \<and> c \<noteq> JASHR"
    and val: "\<And>v y. follows v g \<Longrightarrow> op_value c t imm (map v ds) = Some y \<Longrightarrow> v i = y"
  shows "kept g h"
proof -
  note p = sound_parts [OF sound]
  obtain r where r: "ranked r g" using sound by (auto simp: sound_code_def)
  have only: "g_insts_count g \<le> j \<Longrightarrow> j < g_insts_count h \<Longrightarrow> j = n" for j using n by simp
  have "keeps_values g h"
  proof (rule rewriting_keeps [OF rw p(3)])
    fix v assume v: "follows v g"
    let ?w = "v(n := v i)"
    have "follows_at ?w h n" unfolding follows_at_def
    proof (intro allI impI)
      fix xs y assume xs: "ji_inputs (g_inst h n) = map Some xs"
        and y: "op_value (ji_opcode (g_inst h n)) (ji_type (g_inst h n)) (ji_imm (g_inst h n)) (map ?w xs) = Some y"
      have "map Some xs = map Some ds" using xs code by (simp add: code_at_def)
      then have xs: "xs = ds" by (rule map_injective) simp
      have "op_value c t imm (map ?w ds) = Some y" using y code by (simp add: code_at_def xs)
      moreover have "map ?w ds = map v ds" using ds n(1) by (auto simp: operand_def)
      ultimately have "op_value c t imm (map v ds) = Some y" by (simp only:)
      then show "?w n = y" using val [OF v] by simp
    qed
    then show "\<exists>w. (\<forall>j < g_insts_count g. w j = v j) \<and> w n = v i \<and>
        (\<forall>j. g_insts_count g \<le> j \<longrightarrow> j < g_insts_count h \<longrightarrow> follows_at w h j)"
      using only n(1) by (intro exI [of _ ?w]) auto
  qed
  moreover have "sound_code (insert i X) h"
  proof (rule rewriting_sound [OF rw p(2) r _ _ _ p(3), where s = "(\<lambda>j. 2 * r j)(n := 2 * r i)"])
    fix j assume j: "g_insts_count g \<le> j" "j < g_insts_count h"
    have jn: "j = n" by (rule only [OF j])
    show "wide_op (ji_opcode (g_inst h j)) \<Longrightarrow> wide_type (ji_type (g_inst h j)) \<and> ji_opcode (g_inst h j) \<noteq> JASHR"
      using wide code by (simp add: jn code_at_def)
    fix d assume "Some d \<in> set (ji_inputs (g_inst h j))"
    then have "operand X g i d" using ds code by (auto simp: jn code_at_def)
    then show "((\<lambda>j. 2 * r j)(n := 2 * r i)) d < ((\<lambda>j. 2 * r j)(n := 2 * r i)) j"
      using n(1) r by (auto simp: jn operand_def)
  qed (use n(1) in auto)
  ultimately show ?thesis by (auto simp: kept_def)
qed

lemma replace_const:
  assumes run: "replace_with_const i imm g = Inr h" and sound: "sound_code X g"
    and val: "\<And>v. i < g_insts_count g \<Longrightarrow> follows v g \<Longrightarrow> v i = imm"
  shows "kept g h"
proof -
  obtain n k where k: "New_inst JCONST (GetType g i) imm g = (n, k)" by fastforce
  have run': "ReplaceWith i n k = Inr h" using run k by (simp add: replace_with_const_def)
  note p = sound_parts [OF sound]
  note K = New_inst_inst [OF k]
  have kr: "ready X k" by (rule New_inst_ready [OF p(1) k]) (simp add: IsFixed_def)
  have code: "code_at k n = (JCONST, GetType g i, imm, [])"
    by (simp add: code_at_New [OF k] fixed_inputs_def)
  have n: "g_insts_count g \<le> n" "n < g_insts_count k" using K by simp_all
  have empty: "\<forall>j. g_insts_count g \<le> j \<and> j < g_insts_count k \<longrightarrow> set (ji_inputs (g_inst k j)) \<subseteq> {None}"
    using K by (auto simp: new_inst_def fixed_inputs_def less_Suc_eq)
  note f = replace_fresh [OF run' sound extends_New [OF extends_refl k] kr n empty]
  have s: "rewriting X i n g h" "g_insts_count h = Suc n" "code_at h n = (JCONST, GetType g i, imm, [])" "i < g_insts_count g"
    using f(1,2,4) f(3) [OF n] code K by simp_all
  show ?thesis
    by (rule one_fresh [OF s(1) sound _ s(2), where ds = "[]"]) (use s(3) K val [OF s(4)] in \<open>auto simp: wide_op_def\<close>)
qed

lemma replace_unary:
  assumes new: "New_inst c t 0 g = (n, k)" and rep: "ReplaceWith i n k = Inr k2" and set: "SetInput n 0 d k2 = Inr h"
    and sound: "sound_code X g" and d: "i < g_insts_count g \<Longrightarrow> operand X g i d" and c: "IsFixed c" "fixed_inputs c = 1"
    and wide: "wide_op c \<Longrightarrow> wide_type t \<and> c \<noteq> JASHR"
    and val: "\<And>v y. i < g_insts_count g \<Longrightarrow> follows v g \<Longrightarrow> op_value c t 0 [v d] = Some y \<Longrightarrow> v i = y"
  shows "kept g h"
proof -
  note p = sound_parts [OF sound]
  note K = New_inst_inst [OF new]
  have kr: "ready X k" by (rule New_inst_ready [OF p(1) new c(1)])
  have code: "code_at k n = (c, t, 0, [None])" using c(2) by (simp add: code_at_New [OF new])
  have n: "g_insts_count g \<le> n" "n < g_insts_count k" using K by simp_all
  have empty: "\<forall>j. g_insts_count g \<le> j \<and> j < g_insts_count k \<longrightarrow> set (ji_inputs (g_inst k j)) \<subseteq> {None}"
    using K c(2) by (auto simp: new_inst_def less_Suc_eq)
  note f = replace_fresh [OF rep sound extends_New [OF extends_refl new] kr n empty]
  note d = d [OF f(4)]
  have code2: "code_at k2 n = (c, t, 0, [None])" using f(3) [OF n] code by simp
  have none: "ji_inputs (g_inst k2 n) ! 0 = None" using code2 by (simp add: code_at_def)
  have n2: "n < g_insts_count k2" using n(2) f(2) by simp
  have d': "d < g_insts_count k2" "d \<notin> X" "d \<noteq> i"
    using d f(2,5) K operand_other [OF sound d] by (auto simp: operand_def)
  note s = rewriting_SetInput [OF set f(1) p(5) n(1) n2 none d']
  have code3: "code_at h n = (c, t, 0, map Some [d])" using s(4) [OF code2] by simp
  show ?thesis
    by (rule one_fresh [OF s(1) sound _ _ code3])
      (use s(2) f(2) K d wide val [OF f(4)] in auto)
qed

text \<open>\<open>a - (- b)\<close> becomes \<open>a + b\<close>.\<close>

lemma replace_add:
  assumes new: "New_inst JADD UNKNOWN 0 g = (n, k)" and rep: "ReplaceWith i n (SetType n t k) = Inr k2"
    and set: "SetInput n 0 a k2 = Inr k3" "SetInput n 1 b k3 = Inr h"
    and sound: "sound_code X g" and ds: "i < g_insts_count g \<Longrightarrow> operand X g i a \<and> operand X g i b" and t: "wide_type t"
    and val: "\<And>v. i < g_insts_count g \<Longrightarrow> follows v g \<Longrightarrow> v i = v a + v b"
  shows "kept g h"
proof -
  note p = sound_parts [OF sound]
  note K = New_inst_inst [OF new]
  have add: "IsFixed JADD" "fixed_inputs JADD = 2" by (simp_all add: IsFixed_def fixed_inputs_def)
  let ?k = "SetType n t k"
  have kr: "ready X ?k" by (rule SetType_ready, rule New_inst_ready [OF p(1) new add(1)])
  have code: "code_at ?k n = (JADD, t, 0, [None, None])"
    using K add(2) by (simp add: code_at_SetType new_inst_def numeral_2_eq_2)
  have cnt: "g_insts_count ?k = Suc n" using K by (simp add: SetType_def upd_inst_def)
  have n: "g_insts_count g \<le> n" "n < g_insts_count ?k" using K cnt by simp_all
  have ext: "extends g ?k" by (rule extends_SetType [OF extends_New [OF extends_refl new] n(1)])
  have empty: "\<forall>j. g_insts_count g \<le> j \<and> j < g_insts_count ?k \<longrightarrow> set (ji_inputs (g_inst ?k j)) \<subseteq> {None}"
    using K code cnt by (auto simp: code_at_def less_Suc_eq)
  note f = replace_fresh [OF rep sound ext kr n empty]
  have d: "operand X g i a" "operand X g i b" using ds [OF f(4)] by simp_all
  have code2: "code_at k2 n = (JADD, t, 0, [None, None])" using f(3) [OF n] code by simp
  have none2: "ji_inputs (g_inst k2 n) ! 0 = None" using code2 by (simp add: code_at_def)
  have n2: "n < g_insts_count k2" using n(2) f(2) by simp
  have low: "x < g_insts_count k2" "x \<notin> X" "x \<noteq> i" if "operand X g i x" for x
    using that f(2,5) K cnt operand_other [OF sound that] by (auto simp: operand_def)
  note s = rewriting_SetInput [OF set(1) f(1) p(5) n(1) n2 none2 low [OF d(1)]]
  have code3: "code_at k3 n = (JADD, t, 0, [Some a, None])" using s(4) [OF code2] by simp
  have none3: "ji_inputs (g_inst k3 n) ! 1 = None" using code3 by (simp add: code_at_def)
  have n3: "n < g_insts_count k3" using n2 s(2) by simp
  have b: "b < g_insts_count k3" using low(1) [OF d(2)] s(2) by simp
  note s' = rewriting_SetInput [OF set(2) s(1) p(5) n(1) n3 none3 b low(2,3) [OF d(2)]]
  have code4: "code_at h n = (JADD, t, 0, map Some [a, b])" using s'(4) [OF code3] by simp
  show ?thesis
    by (rule one_fresh [OF s'(1) sound _ _ code4]) (use s'(2) s(2) f(2) K cnt d t val [OF f(4)] in auto)
qed

text \<open>\<open>(- a) - b\<close> becomes \<open>- (a + b)\<close>, with two new instructions.\<close>

lemma replace_neg_add:
  assumes new: "New_inst JADD UNKNOWN 0 g = (n, k)" "New_inst JNEG UNKNOWN 0 k = (m, l)"
    and rep: "ReplaceWith i m (SetType m t (SetType n t l)) = Inr l1" and pre: "Prepend m n l1 = Inr l2"
    and set: "SetInput n 0 a l2 = Inr l3" "SetInput n 1 b l3 = Inr l4" "SetInput m 0 n l4 = Inr h"
    and sound: "sound_code X g" and ds: "i < g_insts_count g \<Longrightarrow> operand X g i a \<and> operand X g i b"
    and t: "wide_type t"
    and val: "\<And>v. i < g_insts_count g \<Longrightarrow> follows v g \<Longrightarrow> v i = - (v a + v b)"
  shows "kept g h"
proof -
  note p = sound_parts [OF sound]
  note K = New_inst_inst [OF new(1)] and L = New_inst_inst [OF new(2)]
  have ops: "IsFixed JADD" "fixed_inputs JADD = 2" "IsFixed JNEG" "fixed_inputs JNEG = 1" by (simp_all add: IsFixed_def fixed_inputs_def)
  let ?k = "SetType m t (SetType n t l)"
  have kr: "ready X ?k"
    by (rule SetType_ready, rule SetType_ready, rule New_inst_ready [OF New_inst_ready [OF p(1) new(1) ops(1)] new(2) ops(3)])
  have mn: "n = g_insts_count g" "m = Suc n" using K L by simp_all
  have cnt: "g_insts_count ?k = Suc m" using K L by (simp add: SetType_def upd_inst_def)
  have code: "code_at ?k n = (JADD, t, 0, [None, None])" "code_at ?k m = (JNEG, t, 0, [None])"
    using K L ops by (simp_all add: code_at_def SetType_def upd_inst_def new_inst_def numeral_2_eq_2)
  have n: "g_insts_count g \<le> n" "n < g_insts_count ?k" and m: "g_insts_count g \<le> m" "m < g_insts_count ?k" using mn cnt by simp_all
  have ext: "extends g ?k"
    by (rule extends_SetType [OF extends_SetType [OF extends_New [OF extends_New [OF extends_refl new(1)] new(2)] n(1)] m(1)])
  have only: "j = n \<or> j = m" if "g_insts_count g \<le> j" "j < Suc m" for j using that mn by auto
  have empty: "\<forall>j. g_insts_count g \<le> j \<and> j < g_insts_count ?k \<longrightarrow> set (ji_inputs (g_inst ?k j)) \<subseteq> {None}"
  proof (intro allI impI)
    fix j assume "g_insts_count g \<le> j \<and> j < g_insts_count ?k"
    then have "j = n \<or> j = m" using only cnt by simp
    then show "set (ji_inputs (g_inst ?k j)) \<subseteq> {None}" using code by (auto simp: code_at_def)
  qed
  note f = replace_fresh [OF rep sound ext kr m empty]
  have d: "operand X g i a" "operand X g i b" using ds [OF f(4)] by simp_all
  note q = rewriting_Prepend [OF pre f(1) p(5) n(1), unfolded f(2), OF n(2)]
  have code2: "code_at l2 n = (JADD, t, 0, [None, None])" "code_at l2 m = (JNEG, t, 0, [None])"
    using f(3) [OF n] f(3) [OF m] code q(3) by simp_all
  have low: "x < Suc m" "x \<notin> X" "x \<noteq> i" if "operand X g i x" for x
    using that f(5) mn operand_other [OF sound that] by (auto simp: operand_def)
  have c2: "g_insts_count l2 = Suc m" using q(2) cnt by simp
  have n2: "n < g_insts_count l2" "ji_inputs (g_inst l2 n) ! 0 = None" using code2 mn c2 by (simp_all add: code_at_def)
  have a2: "a < g_insts_count l2" using low(1) [OF d(1)] c2 by simp
  note s3 = rewriting_SetInput [OF set(1) q(1) p(5) n(1) n2 a2 low(2,3) [OF d(1)]]
  have c3: "g_insts_count l3 = Suc m" using s3(2) c2 by simp
  have code3: "code_at l3 n = (JADD, t, 0, [Some a, None])" "code_at l3 m = (JNEG, t, 0, [None])"
    using s3(4) [OF code2(1)] s3(3) [of m] code2(2) mn by simp_all
  have n3: "n < g_insts_count l3" "ji_inputs (g_inst l3 n) ! 1 = None" using code3 mn c3 by (simp_all add: code_at_def)
  have b3: "b < g_insts_count l3" using low(1) [OF d(2)] c3 by simp
  note s4 = rewriting_SetInput [OF set(2) s3(1) p(5) n(1) n3 b3 low(2,3) [OF d(2)]]
  have c4: "g_insts_count l4 = Suc m" using s4(2) c3 by simp
  have code4: "code_at l4 n = (JADD, t, 0, [Some a, Some b])" "code_at l4 m = (JNEG, t, 0, [None])"
    using s4(4) [OF code3(1)] s4(3) [of m] code3(2) mn by simp_all
  have m4: "m < g_insts_count l4" "ji_inputs (g_inst l4 m) ! 0 = None" using code4 c4 by (simp_all add: code_at_def)
  have n4: "n < g_insts_count l4" "n \<notin> X" "n \<noteq> i" using mn c4 p(5) f(4) by auto
  note s5 = rewriting_SetInput [OF set(3) s4(1) p(5) m(1) m4 n4]
  have c5: "g_insts_count h = Suc m" using s5(2) c4 by simp
  have code5: "code_at h n = (JADD, t, 0, [Some a, Some b])" "code_at h m = (JNEG, t, 0, [Some n])"
    using s5(4) [OF code4(2)] s5(3) [of n] code4(1) mn by simp_all
  have ab: "a < n" "b < n" using d mn by (simp_all add: operand_def)
  obtain r where r: "ranked r g" using sound by (auto simp: sound_code_def)
  have "keeps_values g h"
  proof (rule rewriting_keeps [OF s5(1) p(3)])
    fix v assume v: "follows v g"
    let ?w = "v(n := v a + v b, m := v i)"
    have vi: "v i = - (v a + v b)" by (rule val [OF f(4) v])
    have "follows_at ?w h n" "follows_at ?w h m"
      using code5 ab mn t vi by (auto simp: follows_at_def code_at_def Cons_eq_map_conv)
    moreover have "\<forall>j. g_insts_count g \<le> j \<longrightarrow> j < g_insts_count h \<longrightarrow> j = n \<or> j = m" using only c5 by simp
    moreover have "\<forall>j < g_insts_count g. ?w j = v j" "?w m = v i" using mn by simp_all
    ultimately show "\<exists>w. (\<forall>j < g_insts_count g. w j = v j) \<and> w m = v i \<and>
        (\<forall>j. g_insts_count g \<le> j \<longrightarrow> j < g_insts_count h \<longrightarrow> follows_at w h j)"
      by (intro exI [of _ ?w]) blast
  qed
  moreover have "sound_code (insert i X) h"
  proof (rule rewriting_sound [OF s5(1) p(2) r _ _ _ p(3), where s = "(\<lambda>j. 2 * r j)(n := 2 * r i - 1, m := 2 * r i)"])
    fix j assume "g_insts_count g \<le> j" "j < g_insts_count h"
    then have j: "j = n \<or> j = m" using only c5 by simp
    then show "wide_op (ji_opcode (g_inst h j)) \<Longrightarrow> wide_type (ji_type (g_inst h j)) \<and> ji_opcode (g_inst h j) \<noteq> JASHR"
      using code5 t by (auto simp: code_at_def)
    have "r a < r i" "r b < r i" using d(1,2) r by (simp_all add: operand_def)
    moreover fix d assume "Some d \<in> set (ji_inputs (g_inst h j))"
    then have "j = n \<and> (d = a \<or> d = b) \<or> j = m \<and> d = n" using code5 j by (auto simp: code_at_def)
    ultimately show "((\<lambda>j. 2 * r j)(n := 2 * r i - 1, m := 2 * r i)) d < ((\<lambda>j. 2 * r j)(n := 2 * r i - 1, m := 2 * r i)) j"
      using ab mn by auto
  qed (use mn in auto)
  ultimately show ?thesis by (auto simp: kept_def)
qed

subsection \<open>The rules\<close>

text \<open>An instruction with two inputs as the rules find it.\<close>

definition binary :: "jopcode \<Rightarrow> 'g graph_scheme \<Rightarrow> nat \<Rightarrow> nat \<Rightarrow> nat \<Rightarrow> bool" where
  "binary c g i i0 i1 \<longleftrightarrow> is_op c g i \<and> GetInput i 0 g = Inr (Some i0) \<and> GetInput i 1 g = Inr (Some i1)"

lemma binary_operands:
  assumes "sound_code X g" and "binary c g i i0 i1" and "IsFixed c" "fixed_inputs c = 2" and "i < g_insts_count g"
  shows "ji_inputs (g_inst g i) = [Some i0, Some i1]" "operand X g i i0" "operand X g i i1"
    "wide_op c \<Longrightarrow> wide_type (GetType g i)" "c = JASHR \<Longrightarrow> GetType g i \<noteq> UINT64"
    "follows v g \<Longrightarrow> op_value c (GetType g i) (GetImm g i) [v i0, v i1] = Some y \<Longrightarrow> v i = y"
    "i0 < g_insts_count g" "i1 < g_insts_count g"
proof -
  have op: "is_op c g i" using assms(2) by (simp add: binary_def)
  show ins: "ji_inputs (g_inst g i) = [Some i0, Some i1]"
    by (rule two_inputs [OF sound_parts(4) [OF assms(1)] assms(5) op assms(3,4)]) (use assms(2) in \<open>simp_all add: binary_def\<close>)
  have "\<not> IsPhi g i" using op assms(3) by (auto simp: IsPhi_def is_op_def IsFixed_def)
  then show o: "operand X g i i0" "operand X g i i1" by (auto intro: operandI [OF assms(1,5)] simp: ins)
  then show "i0 < g_insts_count g" "i1 < g_insts_count g" by (simp_all add: operand_def)
  show "wide_op c \<Longrightarrow> wide_type (GetType g i)" "c = JASHR \<Longrightarrow> GetType g i \<noteq> UINT64"
    using sound_parts(2) [OF assms(1)] assms(5) op by (auto simp: wide_code_def GetType_def is_op_def wide_op_def)
  show "follows v g \<Longrightarrow> op_value c (GetType g i) (GetImm g i) [v i0, v i1] = Some y \<Longrightarrow> v i = y"
    using follows_value [of v g i "[i0, i1]" y] assms(5) op by (simp add: ins GetType_def GetImm_def is_op_def)
qed

lemma unary_operands:
  assumes "sound_code X g" and "is_op c g i" and "GetInput i 0 g = Inr (Some x)" and "IsFixed c" "fixed_inputs c = 1" and "i < g_insts_count g"
  shows "ji_inputs (g_inst g i) = [Some x]" "operand X g i x" "wide_op c \<Longrightarrow> wide_type (GetType g i)"
    "follows v g \<Longrightarrow> op_value c (GetType g i) (GetImm g i) [v x] = Some y \<Longrightarrow> v i = y"
proof -
  show ins: "ji_inputs (g_inst g i) = [Some x]"
    by (rule one_input [OF sound_parts(4) [OF assms(1)] assms(6,2,4,5,3)])
  have "\<not> IsPhi g i" using assms(2,4) by (auto simp: IsPhi_def is_op_def IsFixed_def)
  then show "operand X g i x" by (auto intro: operandI [OF assms(1,6)] simp: ins)
  show "wide_op c \<Longrightarrow> wide_type (GetType g i)"
    using sound_parts(2) [OF assms(1)] assms(2,6) by (auto simp: wide_code_def GetType_def is_op_def)
  show "follows v g \<Longrightarrow> op_value c (GetType g i) (GetImm g i) [v x] = Some y \<Longrightarrow> v i = y"
    using follows_value [of v g i "[x]" y] assms(2,6) by (simp add: ins GetType_def GetImm_def is_op_def)
qed

lemma arity [simp]:
  "IsFixed JSUB" "IsFixed JXOR" "IsFixed JASHR" "IsFixed JSHL" "IsFixed JNEG" "IsFixed JNOT" "IsFixed JCAST" "IsFixed JADD" "IsFixed JCONST"
  "fixed_inputs JSUB = 2" "fixed_inputs JXOR = 2" "fixed_inputs JASHR = 2" "fixed_inputs JSHL = 2" "fixed_inputs JNEG = 1"
  "fixed_inputs JNOT = 1" "fixed_inputs JCAST = 1" "fixed_inputs JADD = 2" "fixed_inputs JCONST = 0"
  "wide_op JSUB" "wide_op JXOR" "wide_op JASHR" "wide_op JSHL" "wide_op JNEG" "wide_op JNOT" "wide_op JADD" "\<not> wide_op JCAST" "\<not> wide_op JCONST"
  by (simp_all add: IsFixed_def fixed_inputs_def wide_op_def)

lemma sub_value:
  "sound_code X g \<Longrightarrow> binary JSUB g i i0 i1 \<Longrightarrow> i < g_insts_count g \<Longrightarrow> follows v g \<Longrightarrow> v i = v i0 - v i1"
  using binary_operands(4,6) [of X g JSUB i i0 i1] by simp

lemma const_operand:
  "sound_code X g \<Longrightarrow> d < g_insts_count g \<Longrightarrow> follows v g \<Longrightarrow> is_op JCONST g d \<Longrightarrow> v d = GetImm g d"
  by (rule const_value [OF _ sound_parts(4)])

lemma applied_Inr: "applied m = Inr (b, h) \<longleftrightarrow> b \<and> m = Inr h"
  by (auto simp: applied_def res_simps)

lemma SubConstFold_kept:
  assumes "sound_code X g" and "binary JSUB g i i0 i1" and "SubConstFold i i0 i1 g = Inr (b, h)"
  shows "kept g h" "\<not> b \<Longrightarrow> h = g"
proof -
  note o = binary_operands [OF assms(1,2)]
  show "kept g h"
  proof (cases "is_op JCONST g i0 \<and> is_op JCONST g i1")
    case True
    then have "replace_with_const i (GetImm g i0 - GetImm g i1) g = Inr h"
      using assms(3) by (simp add: SubConstFold_def applied_Inr)
    then show ?thesis
      by (rule replace_const [OF _ assms(1)])
        (use True o(7,8) sub_value [OF assms(1,2)] const_operand [OF assms(1)] in simp)
  next
    case False
    then show ?thesis using assms(1,3) by (auto simp: SubConstFold_def intro: kept_refl)
  qed
  show "\<not> b \<Longrightarrow> h = g" using assms(3) by (auto simp: SubConstFold_def applied_Inr split: if_splits)
qed

lemma SubNeg_kept:
  assumes sound: "sound_code X g" and bin: "binary JSUB g i i0 i1" and run: "SubNeg i i0 i1 g = Inr (b, h)"
  shows "kept g h" "\<not> b \<Longrightarrow> h = g"
proof -
  note o = binary_operands [OF sound bin, simplified]
  have neg: "operand X g d x \<and> (follows v g \<longrightarrow> v d = - v x)"
    if "is_op JNEG g d" "GetInput d 0 g = Inr (Some x)" "d < g_insts_count g" for d x v
    using unary_operands(2,3) [OF sound that(1,2) _ _ that(3)] unary_operands(4) [OF sound that(1,2) _ _ that(3), of v "- v x"] by simp
  have ext: "extends g k \<Longrightarrow> d < g_insts_count g \<Longrightarrow> GetInput d 0 k = GetInput d 0 g" for k d
    by (simp add: extends_def GetInput_def input_error_def)
  show "kept g h"
  proof (cases "is_op JNEG g i1")
    case True
    obtain n k where k: "New_inst JADD UNKNOWN 0 g = (n, k)" by fastforce
    note K = New_inst_inst [OF k]
    let ?k = "SetType n (GetType k i) k"
    from run True obtain x k2 k3 where x: "GetInput i1 0 ?k = Inr (Some x)"
      and r: "ReplaceWith i n ?k = Inr k2" "SetInput n 0 i0 k2 = Inr k3" "SetInput n 1 x k3 = Inr h"
      by (auto simp: SubNeg_def k Let_def applied_Inr deref_def res_simps)
    have e: "extends g ?k" by (rule extends_SetType [OF extends_New [OF extends_refl k]]) (use K in simp)
    have i: "i < g_insts_count g"
      by (rule extends_live [OF r(1) e SetType_ready [OF New_inst_ready [OF sound_parts(1) [OF sound] k]]]) simp
    note o = o(2-4) [OF i] o(7,8) [OF i]
    have x': "GetInput i1 0 g = Inr (Some x)" using x ext [OF e o(5)] by simp
    have t: "GetType k i = GetType g i" using K i by (simp add: GetType_def)
    note r' = r(1) [unfolded t]
    have val: "v i = v i0 + v x" if "follows v g" for v
      using neg [OF True x' o(5), of v] sub_value [OF sound bin i that] that by simp
    show ?thesis
      by (rule replace_add [OF k r' r(2,3) sound _ o(3) val]) (use o neg [OF True x' o(5)] operand_trans [OF o(2)] in auto)
  next
    case False
    show ?thesis
    proof (cases "is_op JNEG g i0")
      case True
      obtain n k where k: "New_inst JADD UNKNOWN 0 g = (n, k)" by fastforce
      obtain m l where l: "New_inst JNEG UNKNOWN 0 k = (m, l)" by fastforce
      note K = New_inst_inst [OF k] and L = New_inst_inst [OF l]
      let ?k = "SetType m (GetType l i) (SetType n (GetType l i) l)"
      from run True False obtain x l1 l2 l3 l4 where x: "GetInput i0 0 ?k = Inr (Some x)"
        and r: "ReplaceWith i m ?k = Inr l1" "Prepend m n l1 = Inr l2" "SetInput n 0 x l2 = Inr l3" "SetInput n 1 i1 l3 = Inr l4"
          "SetInput m 0 n l4 = Inr h"
        by (auto simp: SubNeg_def k l Let_def applied_Inr deref_def res_simps)
      have e: "extends g ?k"
        by (rule extends_SetType [OF extends_SetType [OF extends_New [OF extends_New [OF extends_refl k] l]]]) (use K L in simp_all)
      have "ready X ?k"
        by (rule SetType_ready, rule SetType_ready, rule New_inst_ready [OF New_inst_ready [OF sound_parts(1) [OF sound] k] l]) simp_all
      note i = extends_live(1) [OF r(1) e this]
      note o = o(2-4) [OF i] o(7,8) [OF i]
      have x': "GetInput i0 0 g = Inr (Some x)" using x ext [OF e o(4)] by simp
      have t: "GetType l i = GetType g i" using K L i by (simp add: GetType_def)
      note r' = r(1) [unfolded t]
      have val: "v i = - (v x + v i1)" if "follows v g" for v
        using neg [OF True x' o(4), of v] sub_value [OF sound bin i that] that by simp
      show ?thesis
        by (rule replace_neg_add [OF k l r' r(2-5) sound _ o(3) val])
          (use o neg [OF True x' o(4)] operand_trans [OF o(1)] in auto)
    next
      case f: False
      then show ?thesis using sound run False by (auto simp: SubNeg_def intro: kept_refl)
    qed
  qed
  show "\<not> b \<Longrightarrow> h = g" using run by (auto simp: SubNeg_def applied_Inr Let_def res_simps split: if_splits prod.splits)
qed

lemma SubZero_kept:
  assumes sound: "sound_code X g" and bin: "binary JSUB g i i0 i1" and run: "SubZero i i0 i1 g = Inr (b, h)"
  shows "kept g h" "\<not> b \<Longrightarrow> h = g"
proof -
  note o = binary_operands [OF sound bin, simplified]
  have zero: "v d = 0" if "is_op JCONST g d" "GetImm g d = 0" "d < g_insts_count g" "follows v g" for v d
    using const_operand [OF sound that(3,4,1)] that(2) by simp
  show "kept g h"
  proof (cases "is_op JCONST g i1 \<and> GetImm g i1 = 0")
    case True
    then have rep: "ReplaceWith i i0 g = Inr h" using run by (simp add: SubZero_def applied_Inr)
    have val: "v i0 = v i" if "i < g_insts_count g" "follows v g" for v
      using True o(8) [OF that(1)] zero [of i1 v] sub_value [OF sound bin that] that(2) by simp
    show ?thesis by (rule replace_existing [OF rep sound o(2) val])
  next
    case F: False
    show ?thesis
    proof (cases "is_op JCONST g i0 \<and> GetImm g i0 = 0")
      case True
      obtain n k where k: "New_inst JNEG UNKNOWN 0 g = (n, k)" by fastforce
      from run True F obtain k2 where r: "ReplaceWith i n k = Inr k2" "SetInput n 0 i1 k2 = Inr h"
        by (auto simp: SubZero_def k Let_def applied_Inr res_simps)
      have val: "v i = - v i1" if "i < g_insts_count g" "follows v g" for v
        using True o(7) [OF that(1)] zero [of i0 v] sub_value [OF sound bin that] that(2) by simp
      show ?thesis
        by (rule replace_unary [OF k r sound o(3)]) (use val in \<open>auto simp: wide_type_def split: if_splits\<close>)
    next
      case False
      then show ?thesis using F sound run by (auto simp: SubZero_def intro: kept_refl)
    qed
  qed
  show "\<not> b \<Longrightarrow> h = g" using run by (auto simp: SubZero_def applied_Inr Let_def split: if_splits prod.splits)
qed

text \<open>Running a rule, and the next one if it did not apply.\<close>

lemma or_else_kept:
  assumes "or_else m f = Inr h" and "\<And>b k. m = Inr (b, k) \<Longrightarrow> kept g k \<and> (\<not> b \<longrightarrow> k = g)"
    and "f g = Inr h \<Longrightarrow> kept g h"
  shows "kept g h"
  using assms by (auto simp: or_else_def res_simps split: if_splits)

lemma VisitSub_kept:
  assumes sound: "sound_code X g" and op: "is_op JSUB g i" and run: "VisitSub i g = Inr h"
  shows "kept g h"
proof -
  from run obtain i0 i1 where in01: "GetInput i 0 g = Inr (Some i0)" "GetInput i 1 g = Inr (Some i1)"
    and r: "or_else (SubConstFold i i0 i1 g) (\<lambda>g. if i0 = i1 then replace_with_const i 0 g
         else or_else (SubNeg i i0 i1 g) (\<lambda>g. or_else (SubZero i i0 i1 g) Inr)) = Inr h"
    by (auto simp: VisitSub_def deref_def res_simps)
  have bin: "binary JSUB g i i0 i1" using op in01 by (simp add: binary_def)
  show ?thesis
  proof (rule or_else_kept [OF r])
    assume s: "(if i0 = i1 then replace_with_const i 0 g
         else or_else (SubNeg i i0 i1 g) (\<lambda>g. or_else (SubZero i i0 i1 g) Inr)) = Inr h"
    show "kept g h"
    proof (cases "i0 = i1")
      case True
      then have "replace_with_const i 0 g = Inr h" using s by simp
      then show ?thesis by (rule replace_const [OF _ sound]) (use sub_value [OF sound bin] True in simp)
    next
      case False
      then have "or_else (SubNeg i i0 i1 g) (\<lambda>g. or_else (SubZero i i0 i1 g) Inr) = Inr h" using s by simp
      then show ?thesis
      proof (rule or_else_kept)
        assume "or_else (SubZero i i0 i1 g) Inr = Inr h"
        then show "kept g h" by (rule or_else_kept) (use SubZero_kept [OF sound bin] kept_refl [OF sound] in auto)
      qed (use SubNeg_kept [OF sound bin] in blast)
    qed
  qed (use SubConstFold_kept [OF sound bin] in blast)
qed

lemma xor_value:
  "sound_code X g \<Longrightarrow> binary JXOR g i i0 i1 \<Longrightarrow> i < g_insts_count g \<Longrightarrow> follows v g \<Longrightarrow> v i = xor (v i0) (v i1)"
  using binary_operands(4,6) [of X g JXOR i i0 i1] by simp

lemma XorConstFold_kept:
  assumes "sound_code X g" and "binary JXOR g i i0 i1" and "XorConstFold i i1 i0 g = Inr (b, h)"
  shows "kept g h \<and> (\<not> b \<longrightarrow> h = g)"
proof (cases "is_op JCONST g i1 \<and> is_op JCONST g i0")
  case True
  note o = binary_operands [OF assms(1,2), simplified]
  have rep: "b" "replace_with_const i (xor (GetImm g i1) (GetImm g i0)) g = Inr h"
    using True assms(3) by (simp_all add: XorConstFold_def applied_Inr)
  have "kept g h"
    by (rule replace_const [OF rep(2) assms(1)])
      (use True o(7,8) xor_value [OF assms(1,2)] const_operand [OF assms(1)] in \<open>simp add: xor.commute\<close>)
  then show ?thesis using rep(1) by simp
next
  case False
  then show ?thesis using assms(1,3) by (auto simp: XorConstFold_def intro: kept_refl)
qed

lemma XorNot_kept:
  assumes sound: "sound_code X g" and bin: "binary JXOR g i i0 i1" and run: "XorNot i d e g = Inr (b, h)"
    and de: "d = i0 \<and> e = i1 \<or> d = i1 \<and> e = i0"
  shows "kept g h \<and> (\<not> b \<longrightarrow> h = g)"
proof (cases "is_op JNOT g d")
  case True
  note o = binary_operands [OF sound bin, simplified]
  from run True obtain x where x: "GetInput d 0 g = Inr (Some x)"
    and r: "(if x = e then applied (replace_with_const i 0xFFFFFFFFFFFFFFFF g) else Inr (False, g)) = Inr (b, h)"
    by (auto simp: XorNot_def deref_def res_simps)
  show ?thesis
  proof (cases "x = e")
    case eq: True
    have rep: "b" "replace_with_const i 0xFFFFFFFFFFFFFFFF g = Inr h" using r eq by (simp_all add: applied_Inr)
    have val: "v i = 0xFFFFFFFFFFFFFFFF" if i: "i < g_insts_count g" and v: "follows v g" for v
    proof -
      have d: "d < g_insts_count g" using o(7,8) [OF i] de by auto
      have "v d = not (v e)"
        using unary_operands(3) [OF sound True x _ _ d] unary_operands(4) [OF sound True x _ _ d, of v "not (v x)"] v eq by simp
      moreover have "v i = xor (v d) (v e)" using xor_value [OF sound bin i v] de by (auto simp: xor.commute)
      moreover have "xor (not w) w = (0xFFFFFFFFFFFFFFFF :: u64)" for w :: u64
      proof -
        have "xor (not w) w = - 1" by (rule bit_eqI) (auto simp: bit_simps)
        then show ?thesis by simp
      qed
      ultimately show ?thesis by simp
    qed
    have "kept g h" by (rule replace_const [OF rep(2) sound]) (rule val)
    then show ?thesis using rep(1) by simp
  next
    case False
    then show ?thesis using r sound by (auto intro: kept_refl)
  qed
next
  case False
  then show ?thesis using sound run by (auto simp: XorNot_def intro: kept_refl)
qed

lemma XorZero_kept:
  assumes sound: "sound_code X g" and bin: "binary JXOR g i i0 i1" and run: "XorZero i i0 i1 g = Inr (b, h)"
  shows "kept g h \<and> (\<not> b \<longrightarrow> h = g)"
proof (cases "is_op JCONST g i0 \<and> GetImm g i0 = 0")
  case True
  note o = binary_operands [OF sound bin, simplified]
  have rep: "b" "ReplaceWith i i1 g = Inr h" using run True by (simp_all add: XorZero_def applied_Inr)
  have val: "v i1 = v i" if "i < g_insts_count g" "follows v g" for v
  proof -
    have "v i0 = GetImm g i0" by (rule const_operand [OF sound o(7) [OF that(1)] that(2)]) (use True in simp)
    then show ?thesis using xor_value [OF sound bin that] True by simp
  qed
  have "kept g h" by (rule replace_existing [OF rep(2) sound], rule o(3), assumption, rule val)
  then show ?thesis using rep(1) by simp
next
  case False
  then show ?thesis using sound run by (auto simp: XorZero_def intro: kept_refl)
qed

lemma VisitXor_kept:
  assumes sound: "sound_code X g" and op: "is_op JXOR g i" and run: "VisitXor i g = Inr h"
  shows "kept g h"
proof -
  from run obtain i0 i1 where in01: "GetInput i 0 g = Inr (Some i0)" "GetInput i 1 g = Inr (Some i1)"
    and r: "or_else (XorConstFold i i1 i0 g) (\<lambda>g. if i0 = i1 then replace_with_const i 0 g
         else or_else (XorNot i i0 i1 g) (\<lambda>g. or_else (XorNot i i1 i0 g) (\<lambda>g. or_else (XorZero i i0 i1 g) Inr))) = Inr h"
    by (auto simp: VisitXor_def deref_def res_simps)
  have bin: "binary JXOR g i i0 i1" using op in01 by (simp add: binary_def)
  note self = kept_refl [OF sound]
  show ?thesis
  proof (rule or_else_kept [OF r XorConstFold_kept [OF sound bin]])
    assume s: "(if i0 = i1 then replace_with_const i 0 g
         else or_else (XorNot i i0 i1 g) (\<lambda>g. or_else (XorNot i i1 i0 g) (\<lambda>g. or_else (XorZero i i0 i1 g) Inr))) = Inr h"
    show "kept g h"
    proof (cases "i0 = i1")
      case True
      then have "replace_with_const i 0 g = Inr h" using s by simp
      then show ?thesis by (rule replace_const [OF _ sound]) (use xor_value [OF sound bin] True in simp)
    next
      case False
      then have "or_else (XorNot i i0 i1 g) (\<lambda>g. or_else (XorNot i i1 i0 g) (\<lambda>g. or_else (XorZero i i0 i1 g) Inr)) = Inr h"
        using s by simp
      then show ?thesis
      proof (rule or_else_kept)
        assume "or_else (XorNot i i1 i0 g) (\<lambda>g. or_else (XorZero i i0 i1 g) Inr) = Inr h"
        then show "kept g h"
        proof (rule or_else_kept)
          assume "or_else (XorZero i i0 i1 g) Inr = Inr h"
          then show "kept g h" by (rule or_else_kept [OF _ XorZero_kept [OF sound bin]]) (use self in auto)
        qed (erule XorNot_kept [OF sound bin], simp)
      qed (erule XorNot_kept [OF sound bin], simp)
    qed
  qed
qed

lemma ashr_value:
  "sound_code X g \<Longrightarrow> binary JASHR g i i0 i1 \<Longrightarrow> i < g_insts_count g \<Longrightarrow> follows v g \<Longrightarrow> v i1 < 64 \<Longrightarrow>
   v i = signed_drop_bit (unat (v i1)) (v i0)"
  using binary_operands(4,6) [of X g JASHR i i0 i1] by simp

lemma AshrConstFold_kept:
  assumes sound: "sound_code X g" and bin: "binary JASHR g i i0 i1" and run: "AshrConstFold i i0 i1 g = Inr (b, h)"
  shows "kept g h \<and> (\<not> b \<longrightarrow> h = g)"
proof (cases "is_op JCONST g i0 \<and> is_op JCONST g i1")
  case True
  note o = binary_operands [OF sound bin, simplified]
  have rep: "b" "GetImm g i1 < 64" "replace_with_const i (signed_drop_bit (unat (GetImm g i1)) (GetImm g i0)) g = Inr h"
    using True run by (auto simp: AshrConstFold_def applied_Inr res_simps)
  have val: "v i = signed_drop_bit (unat (GetImm g i1)) (GetImm g i0)" if i: "i < g_insts_count g" and v: "follows v g" for v
  proof -
    have c: "v i0 = GetImm g i0" "v i1 = GetImm g i1"
      by (rule const_operand [OF sound o(7) [OF i] v], use True in simp)
        (rule const_operand [OF sound o(8) [OF i] v], use True in simp)
    then show ?thesis using ashr_value [OF sound bin i v] rep(2) by simp
  qed
  have "kept g h" by (rule replace_const [OF rep(3) sound]) (rule val)
  then show ?thesis using rep(1) by simp
next
  case False
  then show ?thesis using sound run by (auto simp: AshrConstFold_def intro: kept_refl)
qed

lemma AshrZero_kept:
  assumes sound: "sound_code X g" and bin: "binary JASHR g i i0 i1" and run: "AshrZero i i0 i1 g = Inr (b, h)"
  shows "kept g h \<and> (\<not> b \<longrightarrow> h = g)"
proof (cases "is_op JCONST g i1 \<and> GetImm g i1 = 0")
  case True
  note o = binary_operands [OF sound bin, simplified]
  have rep: "b" "ReplaceWith i i0 g = Inr h" using run True by (simp_all add: AshrZero_def applied_Inr)
  have val: "v i0 = v i" if "i < g_insts_count g" "follows v g" for v
  proof -
    have "v i1 = 0" using const_operand [OF sound o(8) [OF that(1)] that(2)] True by auto
    then show ?thesis using ashr_value [OF sound bin that] by simp
  qed
  have "kept g h" by (rule replace_existing [OF rep(2) sound], rule o(2), assumption, rule val)
  then show ?thesis using rep(1) by simp
next
  case False
  then show ?thesis using sound run by (auto simp: AshrZero_def intro: kept_refl)
qed

text \<open>Shifting left and back by 32 keeps the lower half with its sign.\<close>

lemma shift_back: "signed_drop_bit 32 (push_bit 32 (x :: u64)) = signed_take_bit 31 x"
proof (rule bit_eqI)
  fix n :: nat assume "possible_bit TYPE(u64) n"
  then have n: "n < 64" by simp
  show "bit (signed_drop_bit 32 (push_bit 32 x)) n = bit (signed_take_bit 31 x) n"
    using n by (cases "n = 31") (auto simp: bit_signed_drop_bit_iff bit_signed_take_bit_iff bit_push_bit_iff min_def)
qed

lemma rewriting_GetInput:
  assumes "rewriting X i n g h" and "sound_code X g" and "d < g_insts_count g" "\<not> IsPhi g d" "operand X g i d"
  shows "GetInput d k h = GetInput d k g"
proof -
  obtain r where r: "ranked r g" using assms(2) by (auto simp: sound_code_def)
  have "r d < r i" using assms(5) r by (simp add: operand_def)
  then have "Some i \<notin> set (ji_inputs (g_inst g d))"
    using r assms(3,4) unfolding ranked_def IsPhi_def by (meson less_asym)
  then have "map (subst_input i n) (ji_inputs (g_inst g d)) = ji_inputs (g_inst g d)"
    by (intro map_idI) (auto simp: subst_input_def)
  then have "ji_inputs (g_inst h d) = ji_inputs (g_inst g d)" "ji_opcode (g_inst h d) = ji_opcode (g_inst g d)"
    using assms(1,3) by (simp_all add: rewriting_def same_head_def)
  then show ?thesis by (simp add: GetInput_def input_error_def)
qed

lemma AshrCast_kept:
  assumes sound: "sound_code X g" and bin: "binary JASHR g i i0 i1" and run: "AshrCast i i0 i1 g = Inr (b, h)"
  shows "kept g h \<and> (\<not> b \<longrightarrow> h = g)"
proof (cases "is_op JCONST g i1 \<and> is_op JSHL g i0 \<and> GetInput i0 1 g = Inr (Some i1)")
  case True
  note o = binary_operands [OF sound bin, simplified]
  from run True obtain t where t: "GetDownCastType (GetImm g i1) (GetType g i) = Inr t"
    and rest: "(let (c, g1) = New_inst JCAST t 0 g in applied (rbind (ReplaceWith i c g1) (\<lambda>g2.
        rbind (GetInput i0 0 g2) (\<lambda>p. deref p (\<lambda>x. SetInput c 0 x g2))))) = Inr (b, h)"
    by (auto simp: AshrCast_def deref_def res_simps)
  obtain c k where k: "New_inst JCAST t 0 g = (c, k)" by fastforce
  from rest k obtain k2 x where b: "b" and r: "ReplaceWith i c k = Inr k2" "GetInput i0 0 k2 = Inr (Some x)" "SetInput c 0 x k2 = Inr h"
    by (auto simp: deref_def applied_Inr res_simps)
  note K = New_inst_inst [OF k]
  have kr: "ready X k" by (rule New_inst_ready [OF sound_parts(1) [OF sound] k]) simp
  have n: "g_insts_count g \<le> c" "c < g_insts_count k" using K by simp_all
  have empty: "\<forall>j. g_insts_count g \<le> j \<and> j < g_insts_count k \<longrightarrow> set (ji_inputs (g_inst k j)) \<subseteq> {None}"
    using K by (auto simp: new_inst_def less_Suc_eq)
  note f = replace_fresh [OF r(1) sound extends_New [OF extends_refl k] kr n empty]
  note i = f(4)
  have nphi: "\<not> IsPhi g i0" using True by (simp add: IsPhi_def is_op_def)
  have x: "GetInput i0 0 g = Inr (Some x)"
    using rewriting_GetInput [OF f(1) sound o(7) [OF i] nphi o(2) [OF i]] r(2) by simp
  have shl: "binary JSHL g i0 x i1" using True x by (simp add: binary_def)
  note o0 = binary_operands [OF sound shl _ _ o(7) [OF i], simplified]
  have t': "GetImm g i1 = 32" "t = INT32"
    using t o(4) [OF i] o(5) [OF i] by (auto simp: GetDownCastType_def wide_type_def res_simps split: jtype.splits)
  have val: "v i = signed_take_bit 31 (v x)" if v: "follows v g" for v
  proof -
    have v1: "v i1 = 32" using const_operand [OF sound o(8) [OF i] v] True t'(1) by auto
    have "v i0 = push_bit 32 (v x)" using o0(6) [OF v, of "push_bit 32 (v x)"] o0(4) v1 by simp
    then show ?thesis using ashr_value [OF sound bin i v] v1 by (simp add: shift_back)
  qed
  have "kept g h"
    by (rule replace_unary [OF k r(1,3) sound]) (use operand_trans [OF o(2) o0(2)] val t' i in \<open>auto split: if_splits\<close>)
  then show ?thesis using b by simp
next
  case False
  then show ?thesis using sound run by (auto simp: AshrCast_def deref_def res_simps split: if_splits intro: kept_refl)
qed

lemma VisitAshr_kept:
  assumes sound: "sound_code X g" and op: "is_op JASHR g i" and run: "VisitAshr i g = Inr h"
  shows "kept g h"
proof -
  from run obtain i0 i1 where in01: "GetInput i 0 g = Inr (Some i0)" "GetInput i 1 g = Inr (Some i1)"
    and r: "or_else (AshrConstFold i i0 i1 g) (\<lambda>g. or_else (AshrZero i i0 i1 g) (\<lambda>g. or_else (AshrCast i i0 i1 g) Inr)) = Inr h"
    by (auto simp: VisitAshr_def deref_def res_simps)
  have bin: "binary JASHR g i i0 i1" using op in01 by (simp add: binary_def)
  show ?thesis
  proof (rule or_else_kept [OF r AshrConstFold_kept [OF sound bin]])
    assume "or_else (AshrZero i i0 i1 g) (\<lambda>g. or_else (AshrCast i i0 i1 g) Inr) = Inr h"
    then show "kept g h"
    proof (rule or_else_kept [OF _ AshrZero_kept [OF sound bin]])
      assume "or_else (AshrCast i i0 i1 g) Inr = Inr h"
      then show "kept g h" by (rule or_else_kept [OF _ AshrCast_kept [OF sound bin]]) (use kept_refl [OF sound] in auto)
    qed
  qed
qed

subsection \<open>The pass\<close>

lemma TryApply_kept: "sound_code X g \<Longrightarrow> TryApply i g = Inr h \<Longrightarrow> kept g h"
  using VisitSub_kept [of X g i h] VisitXor_kept [of X g i h] VisitAshr_kept [of X g i h] kept_refl [of X g]
  by (auto simp: TryApply_def is_op_def split: jopcode.splits)

lemma peep_insts_kept: "sound_code X g \<Longrightarrow> peep_insts n p g = Inr h \<Longrightarrow> kept g h"
proof (induction n arbitrary: X p g)
  case (Suc n)
  show ?case
  proof (cases p)
    case None
    then show ?thesis using Suc.prems by (auto intro: kept_refl)
  next
    case (Some i)
    then obtain k where k: "TryApply i g = Inr k" "peep_insts n (ji_next (g_inst k i)) k = Inr h"
      using Suc.prems(2) by (auto simp: res_simps)
    have "kept g k" by (rule TryApply_kept [OF Suc.prems(1) k(1)])
    moreover then obtain Y where "sound_code Y k" by (auto simp: kept_def)
    ultimately show ?thesis using Suc.IH k(2) kept_trans by blast
  qed
qed simp

lemma Peepholes_kept:
  assumes "sound_code X g" and "Peepholes g = Inr h"
  shows "kept g h"
proof -
  have "kept u h" if "fold_res (\<lambda>p h. deref p (\<lambda>b. peep_insts (Suc (g_insts_count h)) (bb_first_inst (g_bb h b)) h)) ps u = Inr h"
    "sound_code Y u" for ps u Y
    using that
  proof (induction ps arbitrary: u Y)
    case Nil
    then show ?case by (auto intro: kept_refl)
  next
    case (Cons p ps)
    then obtain b w where w: "peep_insts (Suc (g_insts_count u)) (bb_first_inst (g_bb u b)) u = Inr w"
      "fold_res (\<lambda>p h. deref p (\<lambda>b. peep_insts (Suc (g_insts_count h)) (bb_first_inst (g_bb h b)) h)) ps w = Inr h"
      by (auto simp: deref_def res_simps)
    have "kept u w" by (rule peep_insts_kept [OF Cons.prems(2) w(1)])
    moreover then obtain Z where "sound_code Z w" by (auto simp: kept_def)
    ultimately show ?case using Cons.IH [OF w(2)] kept_trans by blast
  qed
  then show ?thesis using assms by (simp add: Peepholes_def)
qed

text \<open>
  C20: On 64-bit integer code without arithmetic right shifts of the type UINT64 (\<open>wide_code\<close>), with
  def-use lists that agree with the inputs (\<open>ready\<close>) and operands that are computed before their users
  unless the user is a phi (\<open>ranked\<close>), the peephole pass keeps the values of the code: every assignment of
  values that agrees with the 64-bit integer operations of the graph extends to the instructions the
  pass creates so that it agrees with the resulting graph, and every instruction that was there,
  phis, calls and returns included, has the same value and sees the same values at its inputs.  The
  unsigned shifts are left out because the rule for a shift to the left and back is wrong for them: it
  makes a zero-extending cast of the type UINT32.
\<close>

theorem peepholes_keep_values:
  assumes "wide_code g" and "ready X g" and "ranked r g" and "Peepholes g = Inr h" and "follows v g"
  shows "\<exists>w. follows w h \<and> (\<forall>j < g_insts_count g. w j = v j \<and> ji_opcode (g_inst h j) = ji_opcode (g_inst g j) \<and>
    map (map_option w) (ji_inputs (g_inst h j)) = map (map_option v) (ji_inputs (g_inst g j)))"
proof -
  have "sound_code X g" using assms(1-3) by (auto simp: sound_code_def)
  from Peepholes_kept [OF this assms(4)] assms(5) show ?thesis
    unfolding kept_def keeps_values_def same_head_def by blast
qed

definition demo_agraph :: agraph where
  "demo_agraph = graph.extend demo_graph
     \<lparr>g_marker = 0, g_marks = (\<lambda>_. 0), g_rpo = [Some 1, Some 0], g_idoms = [], g_loops = undefined, g_loops_count = 0,
      g_loop_id = 0, g_root_loop = None, g_reducible = True, g_linear = [], g_max_ln = 0\<rparr>"

lemma demo_agraph_parts:
  "g_inst demo_agraph = g_inst demo_graph" "g_insts_count demo_agraph = 5" "g_bb demo_agraph = g_bb demo_graph"
  "g_rpo demo_agraph = [Some 1, Some 0]"
  by (simp_all add: demo_agraph_def graph.defs demo_graph_def)

lemma demo_sound: "sound_code {} demo_agraph"
proof -
  have low: "j < 5 \<Longrightarrow> j = 0 \<or> j = 1 \<or> j = 2 \<or> j = 3 \<or> j = 4" for j :: nat by auto
  have count: "g_insts_count demo_graph = 5" by (simp add: demo_graph_def)
  have same: "next_user demo_agraph = next_user demo_graph" "slot_ok demo_agraph = slot_ok demo_graph" "input_at demo_agraph = input_at demo_graph"
    by (intro ext; simp add: next_user_def slot_ok_def input_at_def demo_agraph_parts count)+
  have "consistent UNIV {} demo_agraph = consistent UNIV {} demo_graph"
    unfolding consistent_def users_list_def same demo_agraph_parts ..
  then have "uses_ok (- {}) {u. fst u \<in> {}} demo_agraph" using demo_consistent by (simp add: consistent_uses_ok)
  moreover have "shaped demo_agraph"
    by (auto simp: shaped_def demo_agraph_parts GetInputsCount_def demo_graph_def new_inst_def IsFixed_def fixed_inputs_def dest!: low)
  moreover have "closed_code {} demo_agraph"
    by (auto simp: closed_code_def demo_agraph_parts demo_graph_def new_inst_def dest!: low)
  moreover have "loose {} demo_agraph" by (auto simp: loose_def demo_agraph_parts demo_graph_def new_inst_def)
  moreover have "wide_code demo_agraph"
    by (auto simp: wide_code_def demo_agraph_parts demo_graph_def new_inst_def wide_op_def wide_type_def dest!: low)
  moreover have "ranked (\<lambda>j. j) demo_agraph"
    by (auto simp: ranked_def demo_agraph_parts demo_graph_def new_inst_def dest!: low)
  ultimately show ?thesis by (auto simp: sound_code_def ready_def)
qed

lemmas eval_graph = Peepholes_def demo_agraph_def graph.defs demo_graph_def TryApply_def VisitSub_def SubConstFold_def applied_def or_else_def
      replace_with_const_def New_inst_def New_variadic_def ReplaceWith_def ClearInputs_def GetInputsCount_def RemoveUser_def
      ReplaceInBB_def ReplaceUsersTo_def GetInput_def deref_def new_inst_def is_op_def GetImm_def GetType_def IsPhi_def
      IsFixed_def fixed_inputs_def next_user_def set_next_user_def set_first_user_def slot_count_def upd_inst_def upd_bb_def
      set_next_def set_prev_def unlink_def User_SetInput_def put_input_def new_bb_def SetFirstInst_def SetLastInst_def eval_nat_numeral

lemma demo_peepholes: "\<exists>h. Peepholes demo_agraph = Inr h"
  by (simp add: eval_graph)

lemma demo_follows: "follows ((\<lambda>_. 7)(2 := 0)) demo_agraph"
  by (auto simp: follows_def follows_at_def demo_agraph_parts demo_graph_def new_inst_def Cons_eq_map_conv less_Suc_eq
      numeral_eq_Suc)

theorem peepholes_keep_values_witness:
  "\<exists>h w. Peepholes demo_agraph = Inr h \<and> follows w h \<and> w 2 = 0 \<and>
     map (map_option w) (ji_inputs (g_inst h 3)) = [Some 0]"
proof -
  obtain h where h: "Peepholes demo_agraph = Inr h" using demo_peepholes by blast
  have three: "ji_inputs (g_inst demo_agraph 3) = [Some 2]" by (simp add: demo_agraph_parts demo_graph_def new_inst_def)
  from demo_sound obtain r where "wide_code demo_agraph" "ready {} demo_agraph" "ranked r demo_agraph"
    by (auto simp: sound_code_def)
  from peepholes_keep_values [OF this h demo_follows] show ?thesis
    using h three by (auto simp: demo_agraph_parts)
qed

subsection \<open>After a rewriting\<close>

text \<open>A replaced instruction leaves the list of its block, and with it the pass leaves the block.\<close>

lemma redirect_links:
  "redirect_users n new u prev g = Inr (p, h) \<Longrightarrow> ji_next (g_inst h j) = ji_next (g_inst g j)"
proof (induction n arbitrary: u prev g)
  case (Suc n)
  then show ?case
    by (cases u) (auto simp: res_simps put_input_def upd_inst_def dest!: Suc.IH User_SetInput_frame split: if_splits)
qed simp

lemma ReplaceUsersTo_links:
  assumes "ReplaceUsersTo old new g = Inr h"
  shows "ji_next (g_inst h j) = ji_next (g_inst g j)"
proof -
  from assms obtain p k where k: "redirect_users (Suc (slot_count g)) new (ji_first_user (g_inst g old)) None g = Inr (p, k)"
    and h: "(case p of None \<Rightarrow> Inr k | Some p \<Rightarrow> guard (next_user k p = None) AssertFailed
             (Inr (set_first_user new (ji_first_user (g_inst k old)) (set_next_user p (ji_first_user (g_inst k new)) k)))) = Inr h"
    by (auto simp: ReplaceUsersTo_def res_simps)
  have "ji_next (g_inst h j) = ji_next (g_inst k j)"
    using h by (auto simp: res_simps set_first_user_def set_next_user_def upd_inst_def split: option.splits)
  then show ?thesis using redirect_links [OF k] by simp
qed

lemma RemoveFromBB_unlinks: "RemoveFromBB i g = Inr h \<Longrightarrow> ji_next (g_inst h i) = None"
  by (auto simp: RemoveFromBB_def deref_def unlink_def upd_inst_def Let_def res_simps)

lemma ReplaceInBB_unlinks: "ReplaceInBB i new g = Inr h \<Longrightarrow> ji_next (g_inst h i) = None"
  by (cases "ji_bb (g_inst g new) = None")
    (auto simp: ReplaceInBB_def deref_def unlink_def upd_inst_def Let_def res_simps intro: RemoveFromBB_unlinks)

lemma ReplaceWith_unlinks: "ReplaceWith i new g = Inr h \<Longrightarrow> ji_next (g_inst h i) = None"
  by (auto simp: ReplaceWith_def res_simps ReplaceUsersTo_links dest: ReplaceInBB_unlinks)

text \<open>
  Folding a subtraction of two constants ends the pass over its block: the loop continues with
  \<open>next_\<close> of the replaced instruction, which is null, so the instructions after it are not visited.
\<close>

theorem pass_stops_after_rewriting:
  assumes "binary JSUB g i i0 i1" and "is_op JCONST g i0" and "is_op JCONST g i1" and "TryApply i g = Inr h"
  shows "peep_insts (Suc (Suc n)) (Some i) g = Inr h"
proof -
  have "replace_with_const i (GetImm g i0 - GetImm g i1) g = Inr h"
    using assms by (auto simp: TryApply_def binary_def is_op_def VisitSub_def SubConstFold_def deref_def or_else_def applied_def res_simps)
  then have "ji_next (g_inst h i) = None"
    by (auto simp: replace_with_const_def intro: ReplaceWith_unlinks split: prod.splits)
  then show ?thesis using assms(4) by simp
qed

lemma demo_TryApply: "\<exists>h. TryApply 2 demo_agraph = Inr h"
  by (simp add: eval_graph)

theorem pass_stops_after_rewriting_witness:
  "ji_next (g_inst demo_agraph 2) = Some 3 \<and> (\<exists>h. TryApply 2 demo_agraph = Inr h \<and> peep_insts 9 (Some 2) demo_agraph = Inr h)"
proof -
  obtain h where h: "TryApply 2 demo_agraph = Inr h" using demo_TryApply by blast
  have "binary JSUB demo_agraph 2 0 0" "is_op JCONST demo_agraph 0" "ji_next (g_inst demo_agraph 2) = Some 3"
    by (simp_all add: binary_def is_op_def GetInput_def demo_agraph_parts demo_graph_def new_inst_def)
  then show ?thesis using pass_stops_after_rewriting [of demo_agraph 2 0 0 h 7] h by (simp add: eval_nat_numeral)
qed

subsection \<open>Checks\<close>

lemma find_check_cases:
  assumes "find_check g i js = Inr r"
  shows "case r of
      None \<Rightarrow> \<forall>j \<in> set js. same_inst g i j \<longrightarrow> Inst_Dominates j i g = Inr False
    | Some j \<Rightarrow> j \<in> set js \<and> same_inst g i j \<and> Inst_Dominates j i g = Inr True"
  using assms by (induction js) (auto simp: res_simps split: if_splits option.splits)

lemma dominates_other: "Inst_Dominates j i g = Inr d \<Longrightarrow> j \<noteq> i"
  by (auto simp: Inst_Dominates_def)

text \<open>
  C24: The elimination of null checks replaces a check exactly by an equal one that dominates it: either
  the check is recorded because no recorded check with the same input dominates it, or its users,
  and only they, are redirected to such a check, which stays in the graph.
\<close>

theorem check_is_replaced_by_a_dominating_one:
  assumes ready: "ready X (ce_g s)" and op: "ji_opcode (g_inst (ce_g s) i) = JCHECKNULL" and run: "elim_check i s = Inr s'"
    and seen: "\<forall>j \<in> set (ce_nulls s). j \<notin> X \<and> j < g_insts_count (ce_g s)"
  shows "s' = s\<lparr>ce_nulls := ce_nulls s @ [i]\<rparr> \<and>
       (\<forall>j \<in> set (ce_nulls s). same_inst (ce_g s) i j \<longrightarrow> Inst_Dominates j i (ce_g s) = Inr False) \<or>
     (\<exists>j \<in> set (ce_nulls s). same_inst (ce_g s) i j \<and> Inst_Dominates j i (ce_g s) = Inr True \<and> ce_nulls s' = ce_nulls s \<and>
       ready (insert i X) (ce_g s') \<and> (\<forall>k < g_insts_count (ce_g s). ji_inputs (g_inst (ce_g s') k) =
         (if k \<in> insert i X then ji_inputs (g_inst (ce_g s) k) else map (subst_input i j) (ji_inputs (g_inst (ce_g s) k)))))"
proof -
  from run op obtain r where r: "find_check (ce_g s) i (ce_nulls s) = Inr r"
    and s': "(case r of None \<Rightarrow> s' = s\<lparr>ce_nulls := ce_nulls s @ [i]\<rparr>
      | Some j \<Rightarrow> \<exists>h. ReplaceWith i j (ce_g s) = Inr h \<and> s' = s\<lparr>ce_g := h\<rparr>)"
    by (auto simp: elim_check_def visit_check_def res_simps split: option.splits)
  note f = find_check_cases [OF r]
  show ?thesis
  proof (cases r)
    case None
    then show ?thesis using f s' by simp
  next
    case (Some j)
    then obtain h where h: "ReplaceWith i j (ce_g s) = Inr h" "s' = s\<lparr>ce_g := h\<rparr>" using s' by auto
    have j: "j \<in> set (ce_nulls s)" "same_inst (ce_g s) i j" "Inst_Dominates j i (ce_g s) = Inr True" using f Some by simp_all
    have "j < g_insts_count (ce_g s)" "j \<notin> X" using seen j(1) by simp_all
    note w = ReplaceWith_ready [OF h(1) ready this dominates_other [OF j(3)]]
    show ?thesis by (rule disjI2, rule bexI [OF _ j(1)]) (use j w(3,5) h(2) in simp)
  qed
qed

definition checks_demo :: agraph where
  "checks_demo = demo_agraph
     \<lparr>g_inst := (\<lambda>_. new_inst JCONST 0 INT64 7)
        (0 := (new_inst JPARAMETER 0 ARRAY 0)\<lparr>ji_first_user := Some (2, 0), ji_bb := Some 1, ji_next := Some 1\<rparr>,
         1 := (new_inst JCHECKNULL 1 ARRAY 0)\<lparr>ji_bb := Some 1, ji_prev := Some 0, ji_next := Some 2, ji_inputs := [Some 0]\<rparr>,
         2 := (new_inst JCHECKNULL 1 ARRAY 0)\<lparr>ji_first_user := Some (3, 0), ji_bb := Some 1, ji_prev := Some 1,
                ji_next := Some 3, ji_inputs := [Some 0], ji_users := [Some (1, 0)]\<rparr>,
         3 := (new_inst JRETURN 1 ARRAY 0)\<lparr>ji_bb := Some 1, ji_prev := Some 2, ji_inputs := [Some 2]\<rparr>),
      g_insts_count := 4\<rparr>"

lemma checks_demo_ready: "ready {} checks_demo"
proof -
  have low: "j < 4 \<Longrightarrow> j = 0 \<or> j = 1 \<or> j = 2 \<or> j = 3" for j :: nat by auto
  have slots: "slot_ok checks_demo (i, k) \<longleftrightarrow> (i = 1 \<or> i = 2 \<or> i = 3) \<and> k = 0" for i k
    by (auto simp: slot_ok_def checks_demo_def demo_agraph_def graph.defs new_inst_def less_Suc_eq dest!: low)
  have ins: "input_at checks_demo (Suc 0, 0) = Some 0" "input_at checks_demo (2, 0) = Some 0" "input_at checks_demo (3, 0) = Some 2"
    by (simp_all add: input_at_def checks_demo_def demo_agraph_def graph.defs new_inst_def)
  have "uses_ok (- {}) {u. fst u \<in> {}} checks_demo"
    unfolding uses_ok_def
  proof
    fix d :: nat
    let ?xs = "if d = 0 then [(2, 0), (1, 0)] else if d = 2 then [(3, 0)] else []"
    have "users_list checks_demo d ?xs"
      by (simp add: users_list_def slots) (simp add: checks_demo_def demo_agraph_def graph.defs next_user_def new_inst_def)
    moreover have "u \<in> set ?xs \<longleftrightarrow> slot_ok checks_demo u \<and> u \<notin> {u. fst u \<in> {}} \<and> input_at checks_demo u = Some d" for u
      by (cases u) (auto simp: slots ins)
    ultimately show "\<exists>xs. users_list checks_demo d xs \<and>
        (\<forall>u. u \<in> set xs \<longleftrightarrow> slot_ok checks_demo u \<and> u \<notin> {u. fst u \<in> {}} \<and> input_at checks_demo u = Some d)" by blast
  qed
  moreover have "shaped checks_demo"
    by (auto simp: shaped_def checks_demo_def demo_agraph_def graph.defs GetInputsCount_def new_inst_def IsFixed_def fixed_inputs_def dest!: low)
  moreover have "closed_code {} checks_demo"
    by (auto simp: closed_code_def checks_demo_def demo_agraph_def graph.defs new_inst_def dest!: low)
  moreover have "loose {} checks_demo" by (auto simp: loose_def checks_demo_def new_inst_def)
  ultimately show ?thesis by (simp add: ready_def)
qed

definition checks_state :: ce_state where
  "checks_state = \<lparr>ce_g = checks_demo, ce_nulls = [1], ce_bounds = []\<rparr>"

lemma checks_demo_run: "\<exists>s. elim_check 2 checks_state = Inr s"
  by (simp add: checks_state_def checks_demo_def elim_check_def visit_check_def same_inst_def Inst_Dominates_def RemoveFromBB_def Let_def eval_graph)

theorem check_is_replaced_by_a_dominating_one_witness:
  "\<exists>s. elim_check 2 checks_state = Inr s \<and> (ce_nulls s = [1] \<longrightarrow> ji_inputs (g_inst (ce_g s) 3) = [Some 1])"
proof -
  obtain s where s: "elim_check 2 checks_state = Inr s" using checks_demo_run by blast
  have op: "ji_opcode (g_inst (ce_g checks_state) 2) = JCHECKNULL"
    by (simp add: checks_state_def checks_demo_def new_inst_def)
  have seen: "\<forall>j \<in> set (ce_nulls checks_state). j \<notin> {} \<and> j < g_insts_count (ce_g checks_state)"
    by (simp add: checks_state_def checks_demo_def)
  have ready: "ready {} (ce_g checks_state)" using checks_demo_ready by (simp add: checks_state_def)
  have three: "ji_inputs (g_inst checks_demo 3) = [Some 2]" "3 < g_insts_count checks_demo"
    by (simp_all add: checks_demo_def new_inst_def)
  from check_is_replaced_by_a_dominating_one [OF ready op s seen] s three show ?thesis
    by (auto simp: checks_state_def subst_input_def)
qed

end
