(* ===== verification/Jit_Build.thy ===== *)
theory Jit_Build
  imports Jit_Optimize
begin

text \<open>
  The construction of graphs: the classes of instructions (gen/instructions.inl), the macros that
  create and append them, blocks and edges (gen/graph_ctor.h) and \<open>GraphInternalsFixup\<close> (graph.cpp).
  \<open>built\<close> are the graphs a program of these macros can reach; they satisfy what the optimizations
  assume.  The graph is the global \<open>GRAPH\<close> with the identifiers reset, so its blocks are numbered from
  0 and \<open>GetBlockById()\<close> is the block created last.  The condition of a JMP is only printed and left
  out.
\<close>

subsection \<open>Instructions\<close>

text \<open>The constructors of the classes: opcode, inputs, type and immediate.\<close>

type_synonym ctor = "jopcode \<times> nat \<times> jtype \<times> u64"

definition ConstInst :: "jtype \<Rightarrow> u64 \<Rightarrow> ctor" where "ConstInst t imm = (JCONST, 0, t, imm)"
definition ParameterInst :: "jtype \<Rightarrow> ctor" where "ParameterInst t = (JPARAMETER, 0, t, 0)"
definition CastInst :: "jtype \<Rightarrow> ctor" where "CastInst t = (JCAST, 1, t, 0)"
definition CallInst :: "nat \<Rightarrow> ctor" where "CallInst n = (JCALL, n, UNKNOWN, 0)"
definition ReturnInst :: "jtype \<Rightarrow> ctor" where "ReturnInst t = (JRETURN, 1, t, 0)"
definition ReturnVoidInst :: ctor where "ReturnVoidInst = (JRETURNVOID, 0, UNKNOWN, 0)"
definition CheckNullInst :: ctor where "CheckNullInst = (JCHECKNULL, 1, UNKNOWN, 0)"
definition CheckBoundsInst :: ctor where "CheckBoundsInst = (JCHECKBOUNDS, 2, UNKNOWN, 0)"
definition GetElemInst :: "jtype \<Rightarrow> ctor" where "GetElemInst t = (JGETELEM, 2, t, 0)"
definition AddInst :: ctor where "AddInst = (JADD, 2, UNKNOWN, 0)"
definition SubInst :: ctor where "SubInst = (JSUB, 2, UNKNOWN, 0)"
definition MulInst :: ctor where "MulInst = (JMUL, 2, UNKNOWN, 0)"
definition NegInst :: ctor where "NegInst = (JNEG, 1, UNKNOWN, 0)"
definition NotInst :: ctor where "NotInst = (JNOT, 1, UNKNOWN, 0)"
definition XorInst :: ctor where "XorInst = (JXOR, 2, UNKNOWN, 0)"
definition AshrInst :: ctor where "AshrInst = (JASHR, 2, UNKNOWN, 0)"
definition ShlInst :: ctor where "ShlInst = (JSHL, 2, UNKNOWN, 0)"
definition PhiInst :: "nat \<Rightarrow> ctor" where "PhiInst n = (JPHI, n, UNKNOWN, 0)"
definition JmpInst :: ctor where "JmpInst = (JJMP, 2, UNKNOWN, 0)"

definition new_of :: "ctor \<Rightarrow> 'g graph_scheme \<Rightarrow> nat \<times> 'g graph_scheme" where
  "new_of k g = (case k of (c, n, t, imm) \<Rightarrow> New_variadic c n t imm g)"

definition set_inputs :: "nat \<Rightarrow> nat list \<Rightarrow> 'g graph_scheme \<Rightarrow> 'g graph_scheme res" where
  "set_inputs i ins g = fold_res (\<lambda>(k, x). SetInput i k x) (enumerate 0 ins) g"

text \<open>\<open>GetBlockById()\<close>: \<open>blocks_.back()\<close>.\<close>

definition last_block :: "'g graph_scheme \<Rightarrow> nat res" where
  "last_block g = guard (g_bbs_count g \<noteq> 0) Undefined (Inr (g_bbs_count g - 1))"

definition HandleRet :: "nat \<Rightarrow> 'g graph_scheme \<Rightarrow> 'g graph_scheme res" where
  "HandleRet b g = rbind (GetEndBlock g) (\<lambda>e. SetSucc b e g)"

definition GraphInternalsFixup :: "jopcode \<Rightarrow> nat \<Rightarrow> 'g graph_scheme \<Rightarrow> 'g graph_scheme res" where
  "GraphInternalsFixup c b g = (if c = JRETURN \<or> c = JRETURNVOID then HandleRet b g else Inr g)"

definition AppendInst :: "jopcode \<Rightarrow> nat \<Rightarrow> 'g graph_scheme \<Rightarrow> 'g graph_scheme res" where
  "AppendInst c i g = rbind (last_block g) (\<lambda>b. if c = JPHI then PushPhi b i g else PushBack b i g)"

text \<open>The body of every \<open>_ctor\<close>.\<close>

definition make_inst :: "ctor \<Rightarrow> nat list \<Rightarrow> 'g graph_scheme \<Rightarrow> (nat \<times> 'g graph_scheme) res" where
  "make_inst k ins g =
     (let (i, g1) = new_of k g in
      rbind (set_inputs i ins g1) (\<lambda>g2.
        rbind (AppendInst (fst k) i g2) (\<lambda>g3.
          rbind (last_block g3) (\<lambda>b. rbind (GraphInternalsFixup (fst k) b g3) (\<lambda>g4. Inr (i, g4))))))"

text \<open>The macros: arguments of the class, then the list of inputs.\<close>

definition CONST_ctor :: "jtype \<Rightarrow> u64 \<Rightarrow> nat list \<Rightarrow> 'g graph_scheme \<Rightarrow> (nat \<times> 'g graph_scheme) res" where "CONST_ctor t imm = make_inst (ConstInst t imm)"
definition PARAMETER_ctor :: "jtype \<Rightarrow> nat list \<Rightarrow> 'g graph_scheme \<Rightarrow> (nat \<times> 'g graph_scheme) res" where "PARAMETER_ctor t = make_inst (ParameterInst t)"
definition CAST_ctor :: "jtype \<Rightarrow> nat list \<Rightarrow> 'g graph_scheme \<Rightarrow> (nat \<times> 'g graph_scheme) res" where "CAST_ctor t = make_inst (CastInst t)"
definition CALL_ctor :: "nat \<Rightarrow> nat list \<Rightarrow> 'g graph_scheme \<Rightarrow> (nat \<times> 'g graph_scheme) res" where "CALL_ctor n = make_inst (CallInst n)"
definition RETURN_ctor :: "jtype \<Rightarrow> nat list \<Rightarrow> 'g graph_scheme \<Rightarrow> (nat \<times> 'g graph_scheme) res" where "RETURN_ctor t = make_inst (ReturnInst t)"
definition RETURNVOID_ctor :: "nat list \<Rightarrow> 'g graph_scheme \<Rightarrow> (nat \<times> 'g graph_scheme) res" where "RETURNVOID_ctor = make_inst ReturnVoidInst"
definition CHECKNULL_ctor :: "nat list \<Rightarrow> 'g graph_scheme \<Rightarrow> (nat \<times> 'g graph_scheme) res" where "CHECKNULL_ctor = make_inst CheckNullInst"
definition CHECKBOUNDS_ctor :: "nat list \<Rightarrow> 'g graph_scheme \<Rightarrow> (nat \<times> 'g graph_scheme) res" where "CHECKBOUNDS_ctor = make_inst CheckBoundsInst"
definition GETELEM_ctor :: "jtype \<Rightarrow> nat list \<Rightarrow> 'g graph_scheme \<Rightarrow> (nat \<times> 'g graph_scheme) res" where "GETELEM_ctor t = make_inst (GetElemInst t)"
definition ADD_ctor :: "nat list \<Rightarrow> 'g graph_scheme \<Rightarrow> (nat \<times> 'g graph_scheme) res" where "ADD_ctor = make_inst AddInst"
definition SUB_ctor :: "nat list \<Rightarrow> 'g graph_scheme \<Rightarrow> (nat \<times> 'g graph_scheme) res" where "SUB_ctor = make_inst SubInst"
definition MUL_ctor :: "nat list \<Rightarrow> 'g graph_scheme \<Rightarrow> (nat \<times> 'g graph_scheme) res" where "MUL_ctor = make_inst MulInst"
definition NEG_ctor :: "nat list \<Rightarrow> 'g graph_scheme \<Rightarrow> (nat \<times> 'g graph_scheme) res" where "NEG_ctor = make_inst NegInst"
definition NOT_ctor :: "nat list \<Rightarrow> 'g graph_scheme \<Rightarrow> (nat \<times> 'g graph_scheme) res" where "NOT_ctor = make_inst NotInst"
definition XOR_ctor :: "nat list \<Rightarrow> 'g graph_scheme \<Rightarrow> (nat \<times> 'g graph_scheme) res" where "XOR_ctor = make_inst XorInst"
definition ASHR_ctor :: "nat list \<Rightarrow> 'g graph_scheme \<Rightarrow> (nat \<times> 'g graph_scheme) res" where "ASHR_ctor = make_inst AshrInst"
definition SHL_ctor :: "nat list \<Rightarrow> 'g graph_scheme \<Rightarrow> (nat \<times> 'g graph_scheme) res" where "SHL_ctor = make_inst ShlInst"
definition PHI_ctor :: "nat \<Rightarrow> nat list \<Rightarrow> 'g graph_scheme \<Rightarrow> (nat \<times> 'g graph_scheme) res" where "PHI_ctor n = make_inst (PhiInst n)"
definition JMP_ctor :: "nat list \<Rightarrow> 'g graph_scheme \<Rightarrow> (nat \<times> 'g graph_scheme) res" where "JMP_ctor = make_inst JmpInst"

lemmas macros =
  CONST_ctor_def PARAMETER_ctor_def CAST_ctor_def CALL_ctor_def RETURN_ctor_def RETURNVOID_ctor_def CHECKNULL_ctor_def CHECKBOUNDS_ctor_def GETELEM_ctor_def ADD_ctor_def SUB_ctor_def MUL_ctor_def NEG_ctor_def NOT_ctor_def XOR_ctor_def ASHR_ctor_def SHL_ctor_def PHI_ctor_def JMP_ctor_def

subsection \<open>Blocks and edges\<close>

text \<open>\<open>Graph::Graph\<close>: the end block.\<close>

definition NewGraph :: graph where
  "NewGraph = snd (NewBB \<lparr>g_inst = (\<lambda>_. new_inst JNONE 0 UNKNOWN 0), g_insts_count = 0, g_bb = (\<lambda>_. new_bb), g_bbs_count = 0\<rparr>)"

text \<open>The inputs of the phis of the successor for a new predecessor, in the order of the phis.\<close>

fun fill_phis :: "nat \<Rightarrow> nat option \<Rightarrow> nat list \<Rightarrow> 'g graph_scheme \<Rightarrow> 'g graph_scheme res" where
  "fill_phis idx p [] g = Inr g"
| "fill_phis idx p (m # ms) g =
     deref p (\<lambda>i. guard (IsPhi g i) AssertFailed
       (rbind (GetInput i idx g) (\<lambda>old. guard (old = None) AssertFailed
         (rbind (SetInput i idx m g) (\<lambda>h. fill_phis idx (ji_next (g_inst h i)) ms h)))))"

definition edge_to :: "nat \<Rightarrow> nat list \<Rightarrow> nat list \<Rightarrow> 'g graph_scheme \<Rightarrow> 'g graph_scheme res" where
  "edge_to s ids missing g =
     guard (missing = [] \<or> length ids = 1) AssertFailed
       (fold_res (\<lambda>b g. rbind (SetSucc b s g) (\<lambda>h.
          fill_phis (length (bb_preds (g_bb h s)) - 1) (bb_first_phi (g_bb h s)) missing h)) ids g)"

definition edges_to :: "nat list \<Rightarrow> nat list \<Rightarrow> nat list \<Rightarrow> 'g graph_scheme \<Rightarrow> 'g graph_scheme res" where
  "edges_to ss ids missing g =
     (case ss of
        [s] \<Rightarrow> guard (missing = []) AssertFailed (fold_res (\<lambda>b. SetSucc b s) ids g)
      | [t, f] \<Rightarrow> rbind (fold_res (\<lambda>b. SetTrueFalseSuccs b t f) ids g) (\<lambda>h.
          if missing = [] then Inr h
          else guard (bb_first_phi (g_bb h t) \<noteq> None) AssertFailed
                 (fill_phis (length (bb_preds (g_bb h t)) - 1) (bb_first_phi (g_bb h t)) missing h))
      | _ \<Rightarrow> Inl AssertFailed)"

subsection \<open>The graphs that can be built\<close>

text \<open>The macros name instructions and blocks that exist.\<close>

definition fits :: "ctor \<Rightarrow> bool" where
  "fits k \<longleftrightarrow> (case k of (c, n, t, imm) \<Rightarrow> IsFixed c \<longrightarrow> n = fixed_inputs c)"

definition existing :: "'g graph_scheme \<Rightarrow> nat list \<Rightarrow> bool" where
  "existing g xs \<longleftrightarrow> (\<forall>x \<in> set xs. x < g_insts_count g)"

definition blocks :: "'g graph_scheme \<Rightarrow> nat list \<Rightarrow> bool" where
  "blocks g bs \<longleftrightarrow> (\<forall>b \<in> set bs. b < g_bbs_count g)"

inductive built :: "graph \<Rightarrow> bool" where
  graph: "built NewGraph"
| block: "built g \<Longrightarrow> built (snd (NewBB g))"
| inst: "built g \<Longrightarrow> fits k \<Longrightarrow> existing g ins \<Longrightarrow> make_inst k ins g = Inr (i, h) \<Longrightarrow> built h"
| edge: "built g \<Longrightarrow> existing g missing \<Longrightarrow> blocks g (s # ids) \<Longrightarrow> edge_to s ids missing g = Inr h \<Longrightarrow> built h"
| edges: "built g \<Longrightarrow> existing g missing \<Longrightarrow> blocks g (ss @ ids) \<Longrightarrow> edges_to ss ids missing g = Inr h \<Longrightarrow> built h"

lemma classes_fit:
  "fits (ConstInst t imm)" "fits (ParameterInst t)" "fits (CastInst t)" "fits (CallInst n)" "fits (ReturnInst t)"
  "fits ReturnVoidInst" "fits CheckNullInst" "fits CheckBoundsInst" "fits (GetElemInst t)" "fits AddInst" "fits SubInst"
  "fits MulInst" "fits NegInst" "fits NotInst" "fits XorInst" "fits AshrInst" "fits ShlInst" "fits (PhiInst n)" "fits JmpInst"
  by (simp_all add: fits_def ConstInst_def ParameterInst_def CastInst_def CallInst_def ReturnInst_def ReturnVoidInst_def
      CheckNullInst_def CheckBoundsInst_def GetElemInst_def AddInst_def SubInst_def MulInst_def NegInst_def NotInst_def
      XorInst_def AshrInst_def ShlInst_def PhiInst_def JmpInst_def IsFixed_def fixed_inputs_def)

lemma built_macros:
  assumes "built g" and "existing g ins"
  shows
    "CONST_ctor t imm ins g = Inr (i, h) \<Longrightarrow> built h"
    "PARAMETER_ctor t ins g = Inr (i, h) \<Longrightarrow> built h"
    "CAST_ctor t ins g = Inr (i, h) \<Longrightarrow> built h"
    "CALL_ctor n ins g = Inr (i, h) \<Longrightarrow> built h"
    "RETURN_ctor t ins g = Inr (i, h) \<Longrightarrow> built h"
    "RETURNVOID_ctor ins g = Inr (i, h) \<Longrightarrow> built h"
    "CHECKNULL_ctor ins g = Inr (i, h) \<Longrightarrow> built h"
    "CHECKBOUNDS_ctor ins g = Inr (i, h) \<Longrightarrow> built h"
    "GETELEM_ctor t ins g = Inr (i, h) \<Longrightarrow> built h"
    "ADD_ctor ins g = Inr (i, h) \<Longrightarrow> built h"
    "SUB_ctor ins g = Inr (i, h) \<Longrightarrow> built h"
    "MUL_ctor ins g = Inr (i, h) \<Longrightarrow> built h"
    "NEG_ctor ins g = Inr (i, h) \<Longrightarrow> built h"
    "NOT_ctor ins g = Inr (i, h) \<Longrightarrow> built h"
    "XOR_ctor ins g = Inr (i, h) \<Longrightarrow> built h"
    "ASHR_ctor ins g = Inr (i, h) \<Longrightarrow> built h"
    "SHL_ctor ins g = Inr (i, h) \<Longrightarrow> built h"
    "PHI_ctor n ins g = Inr (i, h) \<Longrightarrow> built h"
    "JMP_ctor ins g = Inr (i, h) \<Longrightarrow> built h"
  using assms by (auto simp: macros intro: built.inst classes_fit)

subsection \<open>The invariant of the construction\<close>

definition below :: "nat \<Rightarrow> nat option \<Rightarrow> bool" where
  "below n p \<longleftrightarrow> (case p of None \<Rightarrow> True | Some i \<Rightarrow> i < n)"

lemma below_simps [simp]: "below n None" "below n (Some i) = (i < n)"
  by (simp_all add: below_def)

lemma below_mono: "below n p \<Longrightarrow> n \<le> m \<Longrightarrow> below m p"
  by (auto simp: below_def split: option.splits)

text \<open>Pointers lead to instructions that exist.\<close>

definition links_below :: "'g graph_scheme \<Rightarrow> bool" where
  "links_below g \<longleftrightarrow> (\<forall>b. below (g_insts_count g) (bb_first_phi (g_bb g b)) \<and> below (g_insts_count g) (bb_last_phi (g_bb g b)) \<and>
     below (g_insts_count g) (bb_first_inst (g_bb g b)) \<and> below (g_insts_count g) (bb_last_inst (g_bb g b))) \<and>
     (\<forall>i. below (g_insts_count g) (ji_next (g_inst g i)))"

definition edges_match :: "'g graph_scheme \<Rightarrow> bool" where
  "edges_match g \<longleftrightarrow> (\<forall>b s. count_list (bb_preds (g_bb g s)) b = count_list (bb_succs (g_bb g b)) s)"

definition unused_blank :: "'g graph_scheme \<Rightarrow> bool" where
  "unused_blank g \<longleftrightarrow> (\<forall>b \<ge> g_bbs_count g. g_bb g b = new_bb)"

definition build_inv :: "'g graph_scheme \<Rightarrow> bool" where
  "build_inv g \<longleftrightarrow> ready {} g \<and> ranked (\<lambda>j. j) g \<and> links_below g \<and> edges_match g \<and> unused_blank g"

lemma build_invD:
  assumes "build_inv g"
  shows "ready {} g" "ranked (\<lambda>j. j) g" "links_below g" "edges_match g" "unused_blank g"
  using assms by (simp_all add: build_inv_def)

lemma edges_exist:
  assumes "edges_match g" "unused_blank g" "s \<in> set (bb_succs (g_bb g b))"
  shows "b < g_bbs_count g \<and> s < g_bbs_count g"
proof -
  have "count_list (bb_succs (g_bb g b)) s \<noteq> 0" using assms(3) by (simp add: count_list_0_iff)
  then have "b \<in> set (bb_preds (g_bb g s))" using assms(1) by (metis count_list_0_iff edges_match_def)
  moreover have "bb_succs (g_bb g c) = [] \<and> bb_preds (g_bb g c) = []" if "g_bbs_count g \<le> c" for c
    using assms(2) that by (simp add: unused_blank_def new_bb_def)
  ultimately show ?thesis using assms(3) by (metis empty_iff list.set(1) not_less)
qed

text \<open>Changes of the blocks that leave the instructions alone.\<close>

definition same_insts :: "'g graph_scheme \<Rightarrow> 'g graph_scheme \<Rightarrow> bool" where
  "same_insts g h \<longleftrightarrow> g_inst h = g_inst g \<and> g_insts_count h = g_insts_count g"

lemma same_insts_inv:
  assumes "same_insts g h" and "ready {} g" "ranked (\<lambda>j. j) g"
  shows "ready {} h" "ranked (\<lambda>j. j) h"
proof -
  have "same_code g h" "same_lists g h" using assms(1) by (simp_all add: same_insts_def same_code_def same_lists_def view_def)
  moreover have "loose {} h" using assms(1,2) by (simp add: same_insts_def ready_def loose_def)
  ultimately show "ready {} h" by (rule ready_same [OF _ _ assms(2)])
  show "ranked (\<lambda>j. j) h" using assms(1,3) by (simp add: same_insts_def ranked_def)
qed

lemma NewBB_inv:
  assumes "build_inv g"
  shows "build_inv (snd (NewBB g))"
proof -
  note i = build_invD [OF assms]
  let ?h = "snd (NewBB g)" and ?n = "g_bbs_count g"
  have h: "g_bb ?h = (g_bb g)(?n := new_bb)" "g_bbs_count ?h = Suc ?n" "same_insts g ?h"
    by (simp_all add: NewBB_def same_insts_def)
  have "g_bb g ?n = new_bb" using i(5) by (simp add: unused_blank_def)
  then have same: "g_bb ?h = g_bb g" using h(1) by (metis fun_upd_triv)
  have "links_below ?h" using i(3) h(3) same by (simp add: links_below_def same_insts_def)
  moreover have "edges_match ?h" using i(4) by (simp add: edges_match_def same)
  moreover have "unused_blank ?h" using i(5) h(2) same by (simp add: unused_blank_def)
  ultimately show ?thesis using same_insts_inv [OF h(3) i(1,2)] by (simp add: build_inv_def)
qed

lemma SetSucc_inv:
  assumes "build_inv g" and "SetSucc b s g = Inr h" and "b < g_bbs_count g" "s < g_bbs_count g"
  shows "build_inv h" "g_bbs_count h = g_bbs_count g" "same_insts g h"
proof -
  note i = build_invD [OF assms(1)]
  from assms(2) have none: "bb_succs (g_bb g b) = []"
    and h: "h = upd_bb s (\<lambda>x. x\<lparr>bb_preds := bb_preds x @ [b]\<rparr>) (upd_bb b (\<lambda>x. x\<lparr>bb_succs := [s]\<rparr>) g)"
    by (auto simp: SetSucc_def res_simps)
  show f: "g_bbs_count h = g_bbs_count g" "same_insts g h" by (simp_all add: h upd_bb_def same_insts_def)
  have "links_below h" using i(3) by (simp add: links_below_def h upd_bb_def)
  moreover have "edges_match h" unfolding edges_match_def
  proof (intro allI)
    fix c t
    have "count_list (bb_preds (g_bb g t)) b = 0" using i(4) none by (simp add: edges_match_def)
    then show "count_list (bb_preds (g_bb h t)) c = count_list (bb_succs (g_bb h c)) t"
      using i(4) unfolding edges_match_def by (cases "c = b") (auto simp: h upd_bb_def)
  qed
  moreover have "unused_blank h" using i(5) assms(3,4) by (auto simp: unused_blank_def h upd_bb_def)
  ultimately show "build_inv h" using same_insts_inv [OF f(2) i(1,2)] by (simp add: build_inv_def)
qed

lemma SetTrueFalseSuccs_inv:
  assumes "build_inv g" and "SetTrueFalseSuccs b t f g = Inr h" and "b < g_bbs_count g" "t < g_bbs_count g" "f < g_bbs_count g"
  shows "build_inv h" "g_bbs_count h = g_bbs_count g" "same_insts g h"
proof -
  note i = build_invD [OF assms(1)]
  from assms(2) have none: "bb_succs (g_bb g b) = []"
    and h: "h = upd_bb f (\<lambda>x. x\<lparr>bb_preds := bb_preds x @ [b]\<rparr>) (upd_bb t (\<lambda>x. x\<lparr>bb_preds := bb_preds x @ [b]\<rparr>)
      (upd_bb b (\<lambda>x. x\<lparr>bb_succs := [t, f]\<rparr>) g))"
    by (auto simp: SetTrueFalseSuccs_def res_simps)
  show fr: "g_bbs_count h = g_bbs_count g" "same_insts g h" by (simp_all add: h upd_bb_def same_insts_def)
  have "links_below h" using i(3) by (simp add: links_below_def h upd_bb_def)
  moreover have "edges_match h" unfolding edges_match_def
  proof (intro allI)
    fix c s
    have "count_list (bb_preds (g_bb g s)) b = 0" using i(4) none by (simp add: edges_match_def)
    then show "count_list (bb_preds (g_bb h s)) c = count_list (bb_succs (g_bb h c)) s"
      using i(4) unfolding edges_match_def by (cases "c = b") (auto simp: h upd_bb_def)
  qed
  moreover have "unused_blank h" using i(5) assms(3-5) by (auto simp: unused_blank_def h upd_bb_def)
  ultimately show "build_inv h" using same_insts_inv [OF fr(2) i(1,2)] by (simp add: build_inv_def)
qed

text \<open>Filling an empty input with an instruction that exists, for a phi or with an earlier one.\<close>

lemma SetInput_inv:
  assumes inv: "build_inv g" and run: "SetInput i k x g = Inr h" and none: "ji_inputs (g_inst g i) ! k = None"
    and bounds: "i < g_insts_count g" "x < g_insts_count g" "IsPhi g i \<or> x < i"
  shows "build_inv h" "same_ops g h" "g_bbs_count h = g_bbs_count g"
    "ji_inputs (g_inst h j) = (if j = i then (ji_inputs (g_inst g i))[k := Some x] else ji_inputs (g_inst g j))"
    "ji_bb (g_inst h j) = ji_bb (g_inst g j)"
proof -
  note i = build_invD [OF inv]
  note f = SetInput_frame [OF run none]
  have h: "g_bb h = g_bb g" "g_bbs_count h = g_bbs_count g" "ji_next (g_inst h j) = ji_next (g_inst g j)" for j
    using run none by (auto simp: SetInput_def AppendUseOf_def Let_def res_simps put_input_def set_first_user_def set_next_user_def upd_inst_def)
  show ops: "same_ops g h" by (rule f(1))
  show "g_bbs_count h = g_bbs_count g" by (rule h(2))
  show "ji_inputs (g_inst h j) = (if j = i then (ji_inputs (g_inst g i))[k := Some x] else ji_inputs (g_inst g j))" by (rule f(5))
  show "ji_bb (g_inst h j) = ji_bb (g_inst g j)" using f(2) by (simp add: same_bb_def)
  have count: "g_insts_count h = g_insts_count g" using ops by (simp add: same_ops_def)
  have "ready {} h" by (rule SetInput_ready [OF run none i(1) bounds(1) _ bounds(2)]) simp_all
  moreover have "ranked (\<lambda>j. j) h"
    unfolding ranked_def count
  proof (intro allI impI)
    fix j d assume j: "j < g_insts_count g" "ji_opcode (g_inst h j) \<noteq> JPHI" and d: "Some d \<in> set (ji_inputs (g_inst h j))"
    have op: "ji_opcode (g_inst g j) \<noteq> JPHI" using j(2) ops by (simp add: same_ops_def)
    have "Some d \<in> set (ji_inputs (g_inst g j)) \<or> j = i \<and> d = x"
      using d set_update_subset_insert unfolding f(5) by (fastforce split: if_splits)
    then show "d < j" using i(2) j(1) op bounds(3) by (auto simp: ranked_def IsPhi_def)
  qed
  moreover have "links_below h" using i(3) by (simp add: links_below_def h count)
  moreover have "edges_match h" "unused_blank h" using i(4,5) by (simp_all add: edges_match_def unused_blank_def h)
  ultimately show "build_inv h" by (simp add: build_inv_def)
qed

lemma set_inputs_inv:
  assumes "fold_res (\<lambda>(k, x). SetInput i k x) (enumerate n ins) g = Inr h" and "build_inv g" and "i < g_insts_count g"
    and "\<forall>k \<ge> n. k < length (ji_inputs (g_inst g i)) \<longrightarrow> ji_inputs (g_inst g i) ! k = None"
    and "\<forall>x \<in> set ins. x < g_insts_count g \<and> (IsPhi g i \<or> x < i)"
  shows "build_inv h \<and> same_ops g h \<and> g_bbs_count h = g_bbs_count g \<and> same_bb g h"
  using assms
proof (induction ins arbitrary: n g)
  case Nil
  then show ?case by (simp add: frame_refl)
next
  case (Cons x ins)
  then obtain u where u: "SetInput i n x g = Inr u" "fold_res (\<lambda>(k, x). SetInput i k x) (enumerate (Suc n) ins) u = Inr h"
    by (auto simp: res_simps)
  have "n < length (ji_inputs (g_inst g i))" using u(1) by (auto simp: SetInput_def res_simps)
  then have none: "ji_inputs (g_inst g i) ! n = None" using Cons.prems(4) by simp
  note s = SetInput_inv [OF Cons.prems(2) u(1) none Cons.prems(3)]
  have x: "x < g_insts_count g" "IsPhi g i \<or> x < i" using Cons.prems(5) by simp_all
  note s = s [OF x]
  have count: "g_insts_count u = g_insts_count g" "IsPhi u i = IsPhi g i" using s(2) by (simp_all add: same_ops_def IsPhi_def)
  have "build_inv h \<and> same_ops u h \<and> g_bbs_count h = g_bbs_count u \<and> same_bb u h"
    by (rule Cons.IH [OF u(2) s(1)]) (use Cons.prems(3-5) count s(4) in auto)
  then show ?case using s(2,3,5) same_ops_trans by (auto simp: same_bb_def)
qed

lemma new_of_inv:
  assumes "build_inv g" and "fits k" and "new_of k g = (i, h)"
  shows "build_inv h" "i = g_insts_count g" "g_insts_count h = Suc i" "g_bbs_count h = g_bbs_count g"
    "\<forall>k < length (ji_inputs (g_inst h i)). ji_inputs (g_inst h i) ! k = None" "ji_opcode (g_inst h i) = fst k"
proof -
  obtain c n t imm where k: "k = (c, n, t, imm)" by (cases k)
  have new: "New_variadic c n t imm g = (i, h)" using assms(3) by (simp add: new_of_def k)
  note f = New_variadic_inst [OF new]
  note b = build_invD [OF assms(1)]
  have "ready {} h" by (rule New_variadic_ready [OF b(1) new]) (use assms(2) in \<open>simp add: fits_def k\<close>)
  moreover have "ranked (\<lambda>j. j) h" using b(2) f by (auto simp: ranked_def new_inst_def less_Suc_eq)
  moreover have "links_below h" using b(3) f by (auto simp: links_below_def new_inst_def intro: below_mono)
  moreover have "edges_match h" "unused_blank h"
    using b(4,5) f new by (auto simp: edges_match_def unused_blank_def New_variadic_def)
  ultimately show "build_inv h" by (simp add: build_inv_def)
  show "i = g_insts_count g" "g_insts_count h = Suc i" using f by simp_all
  show "g_bbs_count h = g_bbs_count g" using new by (auto simp: New_variadic_def)
  show "\<forall>k < length (ji_inputs (g_inst h i)). ji_inputs (g_inst h i) ! k = None" "ji_opcode (g_inst h i) = fst k"
    using f k by (simp_all add: new_inst_def)
qed

lemma link_inv:
  assumes "build_inv g" and "same_code g h" "same_lists g h" "\<forall>j \<ge> g_insts_count g. ji_bb (g_inst h j) = ji_bb (g_inst g j)"
    and "links_below h" and "\<forall>b. bb_preds (g_bb h b) = bb_preds (g_bb g b) \<and> bb_succs (g_bb h b) = bb_succs (g_bb g b)"
    and "unused_blank h"
  shows "build_inv h"
proof -
  note b = build_invD [OF assms(1)]
  note c = same_code_inputs [OF assms(2)]
  have "loose {} h" using b(1) assms(4) c(3) by (simp add: ready_def loose_def)
  then have "ready {} h" by (rule ready_same [OF assms(2,3) b(1)])
  moreover have "ranked (\<lambda>j. j) h" using b(2) assms(2) c by (simp add: ranked_def same_code_def view_def)
  moreover have "edges_match h" using b(4) assms(6) by (simp add: edges_match_def)
  ultimately show ?thesis using assms(5,7) by (simp add: build_inv_def)
qed

lemma PushBack_inv:
  assumes inv: "build_inv g" and run: "PushBack b i g = Inr h" and bounds: "i < g_insts_count g" "b < g_bbs_count g"
  shows "build_inv h" "g_insts_count h = g_insts_count g" "g_bbs_count h = g_bbs_count g"
proof -
  note d = build_invD [OF inv]
  have "h = upd_inst i (\<lambda>x. x\<lparr>ji_bb := Some b\<rparr>) (upd_bb b (\<lambda>x. x\<lparr>bb_first_inst := Some i, bb_last_inst := Some i\<rparr>) g) \<or>
      (\<exists>l. h = upd_inst i (\<lambda>x. x\<lparr>ji_prev := Some l, ji_bb := Some b\<rparr>) (upd_bb b (\<lambda>x. x\<lparr>bb_last_inst := Some i\<rparr>)
        (upd_inst l (\<lambda>x. x\<lparr>ji_next := Some i\<rparr>) g)))"
    using run by (auto simp: PushBack_def set_next_def deref_def Let_def res_simps split: if_splits)
  then consider "h = upd_inst i (\<lambda>x. x\<lparr>ji_bb := Some b\<rparr>) (upd_bb b (\<lambda>x. x\<lparr>bb_first_inst := Some i, bb_last_inst := Some i\<rparr>) g)"
    | l where "h = upd_inst i (\<lambda>x. x\<lparr>ji_prev := Some l, ji_bb := Some b\<rparr>) (upd_bb b (\<lambda>x. x\<lparr>bb_last_inst := Some i\<rparr>)
        (upd_inst l (\<lambda>x. x\<lparr>ji_next := Some i\<rparr>) g))" by blast
  then have "build_inv h \<and> g_insts_count h = g_insts_count g \<and> g_bbs_count h = g_bbs_count g"
  proof cases
    case h: 1
    have "build_inv h"
      by (rule link_inv [OF inv])
        (use d(3,5) bounds in \<open>auto simp: h upd_inst_def upd_bb_def same_code_def same_lists_def view_def links_below_def unused_blank_def\<close>)
    then show ?thesis by (simp add: h upd_inst_def upd_bb_def)
  next
    case h: (2 l)
    have "build_inv h"
      by (rule link_inv [OF inv])
        (use d(3,5) bounds in \<open>auto simp: h upd_inst_def upd_bb_def same_code_def same_lists_def view_def links_below_def unused_blank_def\<close>)
    then show ?thesis by (simp add: h upd_inst_def upd_bb_def)
  qed
  then show "build_inv h" "g_insts_count h = g_insts_count g" "g_bbs_count h = g_bbs_count g" by simp_all
qed

lemma PushPhi_inv:
  assumes inv: "build_inv g" and run: "PushPhi b i g = Inr h" and bounds: "i < g_insts_count g" "b < g_bbs_count g"
  shows "build_inv h" "g_insts_count h = g_insts_count g" "g_bbs_count h = g_bbs_count g"
proof -
  note d = build_invD [OF inv]
  have "h = upd_inst i (\<lambda>x. x\<lparr>ji_bb := Some b\<rparr>) (upd_bb b (\<lambda>x. x\<lparr>bb_first_phi := Some i, bb_last_phi := Some i\<rparr>) g) \<or>
      (\<exists>l q. h = upd_inst i (\<lambda>x. x\<lparr>ji_bb := Some b\<rparr>) (upd_bb b (\<lambda>x. x\<lparr>bb_last_phi := Some i\<rparr>)
        (upd_inst i (\<lambda>x. x\<lparr>ji_prev := q\<rparr>) (upd_inst l (\<lambda>x. x\<lparr>ji_next := Some i\<rparr>) g))))"
    using run by (auto simp: PushPhi_def set_next_def deref_def Let_def res_simps split: if_splits)
  then consider "h = upd_inst i (\<lambda>x. x\<lparr>ji_bb := Some b\<rparr>) (upd_bb b (\<lambda>x. x\<lparr>bb_first_phi := Some i, bb_last_phi := Some i\<rparr>) g)"
    | l q where "h = upd_inst i (\<lambda>x. x\<lparr>ji_bb := Some b\<rparr>) (upd_bb b (\<lambda>x. x\<lparr>bb_last_phi := Some i\<rparr>)
        (upd_inst i (\<lambda>x. x\<lparr>ji_prev := q\<rparr>) (upd_inst l (\<lambda>x. x\<lparr>ji_next := Some i\<rparr>) g)))" by blast
  then have "build_inv h \<and> g_insts_count h = g_insts_count g \<and> g_bbs_count h = g_bbs_count g"
  proof cases
    case h: 1
    have "build_inv h"
      by (rule link_inv [OF inv])
        (use d(3,5) bounds in \<open>auto simp: h upd_inst_def upd_bb_def same_code_def same_lists_def view_def links_below_def unused_blank_def\<close>)
    then show ?thesis by (simp add: h upd_inst_def upd_bb_def)
  next
    case h: (2 l q)
    have "build_inv h"
      by (rule link_inv [OF inv])
        (use d(3,5) bounds in \<open>auto simp: h upd_inst_def upd_bb_def same_code_def same_lists_def view_def links_below_def unused_blank_def\<close>)
    then show ?thesis by (simp add: h upd_inst_def upd_bb_def)
  qed
  then show "build_inv h" "g_insts_count h = g_insts_count g" "g_bbs_count h = g_bbs_count g" by simp_all
qed

definition same_counts :: "'g graph_scheme \<Rightarrow> 'g graph_scheme \<Rightarrow> bool" where
  "same_counts g h \<longleftrightarrow> g_insts_count h = g_insts_count g \<and> g_bbs_count h = g_bbs_count g"

lemma make_inst_inv:
  assumes inv: "build_inv g" and fits: "fits k" and ex: "existing g ins" and run: "make_inst k ins g = Inr (i, h)"
  shows "build_inv h"
proof -
  obtain j g1 where g1: "new_of k g = (j, g1)" by (cases "new_of k g")
  from run obtain g2 b g3 c where g2: "set_inputs j ins g1 = Inr g2"
    and b: "last_block g2 = Inr b" and g3: "(if fst k = JPHI then PushPhi b j g2 else PushBack b j g2) = Inr g3"
    and c: "last_block g3 = Inr c" and h: "GraphInternalsFixup (fst k) c g3 = Inr h"
    by (simp add: make_inst_def AppendInst_def Let_def g1 res_simps) blast
  note n = new_of_inv [OF inv fits g1]
  have "build_inv g2 \<and> same_ops g1 g2 \<and> g_bbs_count g2 = g_bbs_count g1 \<and> same_bb g1 g2"
    by (rule set_inputs_inv [OF g2 [unfolded set_inputs_def] n(1)]) (use n ex in \<open>auto simp: existing_def\<close>)
  then have inv2: "build_inv g2" and i2: "j < g_insts_count g2" using n(3) by (simp_all add: same_ops_def)
  have b2: "b < g_bbs_count g2" using b by (auto simp: last_block_def res_simps)
  have inv3: "build_inv g3"
    using g3 PushPhi_inv(1) [OF inv2 _ i2 b2] PushBack_inv(1) [OF inv2 _ i2 b2] by (cases "fst k = JPHI") simp_all
  have c3: "c < g_bbs_count g3" using c by (auto simp: last_block_def res_simps)
  show "build_inv h"
  proof (cases "fst k = JRETURN \<or> fst k = JRETURNVOID")
    case True
    then obtain e where "GetEndBlock g3 = Inr e" "SetSucc c e g3 = Inr h"
      using h by (auto simp: GraphInternalsFixup_def HandleRet_def res_simps)
    then show ?thesis using SetSucc_inv(1) [OF inv3 _ c3] by (auto simp: GetEndBlock_def res_simps)
  next
    case False
    then show ?thesis using h inv3 by (simp add: GraphInternalsFixup_def)
  qed
qed

lemma fill_phis_inv:
  assumes "fill_phis idx p ms g = Inr h" and "build_inv g" and "below (g_insts_count g) p" and "existing g ms"
  shows "build_inv h \<and> same_counts g h"
  using assms
proof (induction ms arbitrary: p g)
  case Nil
  then show ?case by (simp add: same_counts_def)
next
  case (Cons m ms)
  then obtain i u where i: "p = Some i" "IsPhi g i" "GetInput i idx g = Inr None" "SetInput i idx m g = Inr u"
    and u: "fill_phis idx (ji_next (g_inst u i)) ms u = Inr h"
    by (auto simp: deref_def res_simps)
  have none: "ji_inputs (g_inst g i) ! idx = None" using i(3) by (auto simp: GetInput_def split: if_splits)
  have m: "m < g_insts_count g" using Cons.prems(4) by (simp add: existing_def)
  have "i < g_insts_count g" using Cons.prems(3) i(1) by simp
  note s = SetInput_inv [OF Cons.prems(2) i(4) none this m disjI1 [OF i(2)]]
  have count: "g_insts_count u = g_insts_count g" using s(2) by (simp add: same_ops_def)
  have "build_inv h \<and> same_counts u h"
    by (rule Cons.IH [OF u s(1)]) (use build_invD(3) [OF s(1)] Cons.prems(4) count in \<open>auto simp: links_below_def existing_def\<close>)
  then show ?case using s(3) count by (simp add: same_counts_def)
qed

lemma first_phi_below: "build_inv g \<Longrightarrow> below (g_insts_count g) (bb_first_phi (g_bb g b))"
  using build_invD(3) [of g] by (simp add: links_below_def)

lemma existing_counts: "same_counts g h \<Longrightarrow> existing h xs = existing g xs" "same_counts g h \<Longrightarrow> blocks h bs = blocks g bs"
  by (simp_all add: same_counts_def existing_def blocks_def)

text \<open>A loop over predecessors whose body keeps the invariant.\<close>

lemma fold_inv:
  assumes "fold_res f ids g = Inr h" and "build_inv g" and "\<forall>b \<in> set ids. P b"
    and "\<And>b u v. P b \<Longrightarrow> build_inv u \<Longrightarrow> same_counts g u \<Longrightarrow> f b u = Inr v \<Longrightarrow> build_inv v \<and> same_counts g v"
  shows "build_inv h \<and> same_counts g h"
proof -
  have "build_inv h \<and> same_counts g h" if "fold_res f xs u = Inr h" "build_inv u" "same_counts g u" "\<forall>b \<in> set xs. P b" for xs u
    using that
  proof (induction xs arbitrary: u)
    case (Cons b xs)
    then obtain v where v: "f b u = Inr v" "fold_res f xs v = Inr h" by (auto simp: res_simps)
    have "build_inv v \<and> same_counts g v" by (rule assms(4) [of b u]) (use Cons.prems v(1) in simp_all)
    then show ?case using Cons.IH [OF v(2)] Cons.prems(4) by simp
  qed simp
  then show ?thesis using assms(1-3) by (auto simp: same_counts_def)
qed

lemma edge_to_inv:
  assumes inv: "build_inv g" and ex: "existing g missing" "blocks g (s # ids)" and run: "edge_to s ids missing g = Inr h"
  shows "build_inv h"
proof -
  have "build_inv h \<and> same_counts g h"
  proof (rule fold_inv [where P = "\<lambda>b. b < g_bbs_count g"])
    show "fold_res (\<lambda>b g. rbind (SetSucc b s g) (\<lambda>h.
          fill_phis (length (bb_preds (g_bb h s)) - 1) (bb_first_phi (g_bb h s)) missing h)) ids g = Inr h"
      using run by (auto simp: edge_to_def res_simps)
    fix b u v assume b: "b < g_bbs_count g" and u: "build_inv u" "same_counts g u"
      and "rbind (SetSucc b s u) (\<lambda>h. fill_phis (length (bb_preds (g_bb h s)) - 1) (bb_first_phi (g_bb h s)) missing h) = Inr v"
    then obtain w where w: "SetSucc b s u = Inr w"
      "fill_phis (length (bb_preds (g_bb w s)) - 1) (bb_first_phi (g_bb w s)) missing w = Inr v" by (auto simp: res_simps)
    have "b < g_bbs_count u" "s < g_bbs_count u" using b u(2) ex(2) by (simp_all add: same_counts_def blocks_def)
    note t = SetSucc_inv [OF u(1) w(1) this]
    have c: "same_counts g w" using t(2,3) u(2) by (simp add: same_counts_def same_insts_def)
    have "build_inv v \<and> same_counts w v"
      by (rule fill_phis_inv [OF w(2) t(1) first_phi_below [OF t(1)]]) (use ex(1) existing_counts [OF c] in simp)
    then show "build_inv v \<and> same_counts g v" using c by (simp add: same_counts_def)
  qed (use inv ex(2) in \<open>simp_all add: blocks_def\<close>)
  then show ?thesis ..
qed

lemma edges_to_inv:
  assumes inv: "build_inv g" and ex: "existing g missing" "blocks g (ss @ ids)" and run: "edges_to ss ids missing g = Inr h"
  shows "build_inv h"
proof -
  have ids: "\<forall>b \<in> set ids. b < g_bbs_count g" using ex(2) by (simp add: blocks_def)
  consider s where "ss = [s]" | t f where "ss = [t, f]"
    using run by (auto simp: edges_to_def split: list.splits)
  then show ?thesis
  proof cases
    case (1 s)
    then have f: "fold_res (\<lambda>b. SetSucc b s) ids g = Inr h" using run by (auto simp: edges_to_def res_simps)
    have "build_inv h \<and> same_counts g h"
    proof (rule fold_inv [OF f inv ids])
      fix b u v assume b: "b < g_bbs_count g" "build_inv u" "same_counts g u" "SetSucc b s u = Inr v"
      have "b < g_bbs_count u" "s < g_bbs_count u" using b ex(2) 1 by (simp_all add: same_counts_def blocks_def)
      from SetSucc_inv [OF b(2,4) this] b(3) show "build_inv v \<and> same_counts g v" by (simp add: same_counts_def same_insts_def)
    qed
    then show ?thesis ..
  next
    case (2 t f)
    then obtain k where k: "fold_res (\<lambda>b. SetTrueFalseSuccs b t f) ids g = Inr k"
      and h: "h = k \<or> fill_phis (length (bb_preds (g_bb k t)) - 1) (bb_first_phi (g_bb k t)) missing k = Inr h"
      using run by (auto simp: edges_to_def res_simps split: if_splits)
    have "build_inv k \<and> same_counts g k"
    proof (rule fold_inv [OF k inv ids])
      fix b u v assume b: "b < g_bbs_count g" "build_inv u" "same_counts g u" "SetTrueFalseSuccs b t f u = Inr v"
      have "b < g_bbs_count u" "t < g_bbs_count u" "f < g_bbs_count u" using b ex(2) 2 by (simp_all add: same_counts_def blocks_def)
      from SetTrueFalseSuccs_inv [OF b(2,4) this] b(3) show "build_inv v \<and> same_counts g v" by (simp add: same_counts_def same_insts_def)
    qed
    then have k': "build_inv k" "existing k missing" using existing_counts ex(1) by auto
    from h show ?thesis
      using k'(1) fill_phis_inv [OF _ k'(1) first_phi_below [OF k'(1)] k'(2)] by auto
  qed
qed

lemma NewGraph_inv: "build_inv NewGraph"
proof -
  let ?z = "\<lparr>g_inst = (\<lambda>_. new_inst JNONE 0 UNKNOWN 0), g_insts_count = 0, g_bb = (\<lambda>_. new_bb), g_bbs_count = 0\<rparr> :: graph"
  have "build_inv ?z"
    by (auto simp: build_inv_def ready_def uses_ok_def users_list_def slot_ok_def shaped_def closed_code_def loose_def ranked_def
        links_below_def edges_match_def unused_blank_def new_inst_def new_bb_def)
  then show ?thesis unfolding NewGraph_def by (rule NewBB_inv)
qed

lemma built_inv: "built g \<Longrightarrow> build_inv g"
  by (induction rule: built.induct)
    (auto intro: NewGraph_inv NewBB_inv make_inst_inv edge_to_inv edges_to_inv)

text \<open>
  C23: A graph built by the macros for instructions, blocks and edges, without \<open>SUBGRAPH\<close>, satisfies what
  the optimizations assume: the def-use lists agree with the inputs and instructions refer to
  instructions that exist (\<open>ready\<close>), only a phi refers to itself or to a later instruction, edges connect
  blocks that exist, and the predecessors of a block are exactly the blocks that have it as a
  successor, with the same number of edges.
\<close>

theorem built_graphs_are_well_formed:
  assumes "built g"
  shows "ready {} g \<and> (\<forall>j < g_insts_count g. ji_opcode (g_inst g j) \<noteq> JPHI \<longrightarrow> (\<forall>d. Some d \<in> set (ji_inputs (g_inst g j)) \<longrightarrow> d < j)) \<and>
    (\<forall>b s. s \<in> set (bb_succs (g_bb g b)) \<longrightarrow> b < g_bbs_count g \<and> s < g_bbs_count g) \<and>
    (\<forall>b s. count_list (bb_preds (g_bb g s)) b = count_list (bb_succs (g_bb g b)) s)"
proof -
  note i = build_invD [OF built_inv [OF assms]]
  show ?thesis using i(1,2,4) edges_exist [OF i(4,5)] by (simp add: ranked_def edges_match_def)
qed

text \<open>With 64-bit integer code, the peephole pass may run on it.\<close>

lemma built_sound: "built g \<Longrightarrow> wide_code g \<Longrightarrow> sound_code {} g"
  using built_inv [of g] by (auto simp: build_inv_def sound_code_def)

text \<open>\<open>BLOCK(b, CONST c; CONST d; SUB s {c, d}; RETURN r {s})\<close>.\<close>

definition script_inst :: "ctor \<Rightarrow> nat list \<Rightarrow> graph \<Rightarrow> graph res" where
  "script_inst k ins g = guard (fits k \<and> existing g ins) AssertFailed (rbind (make_inst k ins g) (\<lambda>(i, h). Inr h))"

definition script :: "graph res" where
  "script =
     rbind (script_inst (ConstInst INT64 7) [] (snd (NewBB NewGraph))) (\<lambda>g.
       rbind (script_inst (ConstInst INT64 5) [] g) (\<lambda>g.
         rbind (script_inst SubInst [0, 1] g) (script_inst (ReturnInst INT64) [2])))"

lemma script_inst_built: "script_inst k ins g = Inr h \<Longrightarrow> built g \<Longrightarrow> built h"
  by (auto simp: script_inst_def res_simps intro: built.inst)

lemma script_built: "script = Inr g \<Longrightarrow> built g"
  by (auto simp: script_def res_simps elim!: script_inst_built intro: built.graph built.block)

lemma script_runs: "\<exists>g. script = Inr g \<and> g_insts_count g = 4 \<and> ji_inputs (g_inst g 2) = [Some 0, Some 1] \<and> bb_preds (g_bb g 0) = [1]"
  by (simp add: script_def script_inst_def make_inst_def classes_fit existing_def new_of_def New_variadic_def set_inputs_def
      AppendInst_def PushBack_def last_block_def GraphInternalsFixup_def HandleRet_def GetEndBlock_def END_BLOCK_IDX_def SetSucc_def
      NewGraph_def NewBB_def ConstInst_def SubInst_def ReturnInst_def new_inst_def new_bb_def IsPhi_def SetInput_def AppendUseOf_def
      GetInput_def next_user_def set_first_user_def set_next_user_def put_input_def upd_inst_def upd_bb_def set_next_def deref_def
      fits_def IsFixed_def fixed_inputs_def Let_def eval_nat_numeral)

theorem built_graphs_are_well_formed_witness:
  "\<exists>g. built g \<and> ready {} g \<and> ji_inputs (g_inst g 2) = [Some 0, Some 1] \<and> count_list (bb_succs (g_bb g 1)) 0 = 1"
proof -
  from script_runs obtain g where g: "script = Inr g" "ji_inputs (g_inst g 2) = [Some 0, Some 1]" "bb_preds (g_bb g 0) = [1]" by blast
  have built: "built g" by (rule script_built [OF g(1)])
  have "count_list (bb_preds (g_bb g 0)) 1 = count_list (bb_succs (g_bb g 1)) 0" "ready {} g"
    using built_graphs_are_well_formed [OF built] by blast+
  then show ?thesis using built g(2,3) by auto
qed

end
