(* ===== verification/Jit_Inlining.thy ===== *)
theory Jit_Inlining
  imports Jit_Rewrite
begin

text \<open>
  Inlining of calls (optimizations/inlining.h) and \<open>Graph::InsertInto\<close> (graph.h).  Instructions and
  blocks live in one store and keep their numbers when they move from one graph to another; a graph
  object has the offset of its blocks, the vector of pointers to them and the callee that
  \<open>SetCalleeInfo\<close> has set.  \<open>BLOCK_ID_\<close> and \<open>INST_ID_\<close> are the numbers of blocks and instructions
  created; the identifiers are taken not to be reset in between.

  The loop over the blocks of the caller uses iterators of \<open>blocks_\<close> while inlining resizes it.
  \<open>moves m n\<close> says whether \<open>resize\<close> from \<open>m\<close> to \<open>n\<close> elements moves them, which depends on the
  capacity of the vector and is a parameter; reading through an iterator then is \<open>Undefined\<close>.
\<close>

subsection \<open>Graph objects\<close>

record graph_object =
  go_offset :: nat
  go_blocks :: "nat option list"
  go_callee :: "nat option"

record inl_state = graph +
  i_objects :: "nat \<Rightarrow> graph_object"
  i_GRAPH :: "nat option"

abbreviation object :: "inl_state \<Rightarrow> nat \<Rightarrow> graph_object" where
  "object s \<gamma> \<equiv> i_objects s \<gamma>"

definition upd_object :: "nat \<Rightarrow> (graph_object \<Rightarrow> graph_object) \<Rightarrow> inl_state \<Rightarrow> inl_state" where
  "upd_object \<gamma> f s = s\<lparr>i_objects := (i_objects s)(\<gamma> := f (i_objects s \<gamma>))\<rparr>"

definition UpperBlockId :: "inl_state \<Rightarrow> nat \<Rightarrow> nat" where
  "UpperBlockId s \<gamma> = go_offset (object s \<gamma>) + length (go_blocks (object s \<gamma>))"

text \<open>\<open>blocks_[k]\<close>, with the block behind the pointer.\<close>

definition block_at :: "inl_state \<Rightarrow> nat \<Rightarrow> nat \<Rightarrow> nat res" where
  "block_at s \<gamma> k =
     guard (k < length (go_blocks (object s \<gamma>))) Undefined (of_opt Undefined (go_blocks (object s \<gamma>) ! k))"

definition entry_of :: "inl_state \<Rightarrow> nat \<Rightarrow> nat res" where
  "entry_of s \<gamma> = rbind (block_at s \<gamma> 1) (\<lambda>b. guard (bb_preds (g_bb s b) = []) AssertFailed (Inr b))"

definition end_of :: "inl_state \<Rightarrow> nat \<Rightarrow> nat res" where
  "end_of s \<gamma> = rbind (block_at s \<gamma> 0) (\<lambda>b. guard (bb_succs (g_bb s b) = []) AssertFailed (Inr b))"

text \<open>
  The part of \<open>NewBB\<close> that concerns the vector, for the block with the identifier \<open>k\<close>; the offset is
  subtracted as \<open>size_t\<close>, and all identifiers of a graph are at least its offset.
\<close>

definition grow_blocks :: "nat \<Rightarrow> nat \<Rightarrow> inl_state \<Rightarrow> inl_state res" where
  "grow_blocks \<gamma> k s =
     (let o1 = object s \<gamma> in
      guard (length (go_blocks o1) < Suc k - go_offset o1) AssertFailed
        (Inr (upd_object \<gamma> (\<lambda>x. x\<lparr>go_blocks :=
           (go_blocks x @ replicate (Suc k - go_offset x - length (go_blocks x)) None)[k - go_offset x := Some k]\<rparr>) s)))"

definition InsertInto :: "nat \<Rightarrow> nat \<Rightarrow> inl_state \<Rightarrow> inl_state res" where
  "InsertInto \<gamma> \<tau> s =
     (let c = object s \<gamma>; t = object s \<tau>; from = go_offset c - go_offset t in
      guard (go_offset t < go_offset c) AssertFailed
        (guard (UpperBlockId s \<gamma> < UpperBlockId s \<tau>) AssertFailed
          (guard (\<forall>b \<in> set (go_blocks c). b \<noteq> None) AssertFailed
            (guard (\<forall>b \<in> set (take (length (go_blocks c)) (drop from (go_blocks t))). b = None) AssertFailed
              (Inr (upd_object \<tau> (\<lambda>x. x\<lparr>go_blocks :=
                 take from (go_blocks x) @ go_blocks c @ drop (from + length (go_blocks c)) (go_blocks x)\<rparr>) s))))))"

subsection \<open>The steps of one inlining\<close>

definition SplitCallBlock :: "nat \<Rightarrow> nat \<Rightarrow> inl_state \<Rightarrow> (nat \<times> nat \<times> inl_state) res" where
  "SplitCallBlock \<gamma> call s =
     guard (i_GRAPH s = Some \<gamma>) AssertFailed
       (rbind (SplitBlockAfter call s) (\<lambda>(cont, s1).
          rbind (grow_blocks \<gamma> cont s1) (\<lambda>s2. deref (ji_bb (g_inst s call)) (\<lambda>b. Inr (b, cont, s2)))))"

text \<open>The loop over the first block of the callee; \<open>k\<close> parameters have been replaced.\<close>

fun fix_params :: "nat \<Rightarrow> nat \<Rightarrow> nat \<Rightarrow> nat option \<Rightarrow> 'g graph_scheme \<Rightarrow> 'g graph_scheme res" where
  "fix_params 0 call k p g = Inl OutOfFuel"
| "fix_params (Suc n) call k p g =
     (case p of
        None \<Rightarrow> Inr g
      | Some i \<Rightarrow>
          let nxt = ji_next (g_inst g i) in
          if ji_opcode (g_inst g i) = JPARAMETER then
            rbind (GetInput call k g) (\<lambda>a. deref a (\<lambda>x. rbind (ReplaceWith i x g) (fix_params n call (Suc k) nxt)))
          else fix_params n call k nxt g)"

definition FixParametersDF :: "nat \<Rightarrow> nat \<Rightarrow> inl_state \<Rightarrow> inl_state res" where
  "FixParametersDF \<gamma> call s =
     rbind (entry_of s \<gamma>) (\<lambda>b. fix_params (Suc (g_insts_count s)) call 0 (bb_first_inst (g_bb s b)) s)"

definition last_of :: "nat \<Rightarrow> 'g graph_scheme \<Rightarrow> nat res" where
  "last_of b g = of_opt Undefined (bb_last_inst (g_bb g b))"

definition FixSingleReturn :: "nat \<Rightarrow> nat \<Rightarrow> inl_state \<Rightarrow> inl_state res" where
  "FixSingleReturn \<gamma> call s =
     rbind (end_of s \<gamma>) (\<lambda>e.
       guard (length (bb_preds (g_bb s e)) = 1) AssertFailed
         (rbind (last_of (last (bb_preds (g_bb s e))) s) (\<lambda>ret.
            guard (ji_opcode (g_inst s ret) = JRETURN) AssertFailed
              (rbind (GetInput ret 0 s) (\<lambda>v. deref v (\<lambda>x. rbind (ReplaceWith call x s) (Remove ret)))))))"

definition phi_return :: "nat \<Rightarrow> nat \<Rightarrow> nat \<Rightarrow> 'g graph_scheme \<Rightarrow> 'g graph_scheme res" where
  "phi_return phi k p g =
     rbind (last_of p g) (\<lambda>ret.
       guard (ji_opcode (g_inst g ret) = JRETURN) AssertFailed
         (rbind (GetInput ret 0 g) (\<lambda>v. deref v (\<lambda>x. rbind (SetInput phi k x g) (Remove ret)))))"

definition FixMultipleReturns :: "nat \<Rightarrow> nat \<Rightarrow> inl_state \<Rightarrow> inl_state res" where
  "FixMultipleReturns \<gamma> call s =
     rbind (end_of s \<gamma>) (\<lambda>e.
       let ps = bb_preds (g_bb s e); (phi, s1) = New_variadic JPHI (length ps) UNKNOWN 0 s in
       rbind (PushPhi e phi s1) (\<lambda>s2.
         rbind (fold_res (\<lambda>(k, p). phi_return phi k p) (enumerate 0 ps) s2) (ReplaceWith call phi)))"

definition drop_return :: "nat \<Rightarrow> 'g graph_scheme \<Rightarrow> 'g graph_scheme res" where
  "drop_return p g =
     rbind (last_of p g) (\<lambda>ret.
       guard (ji_opcode (g_inst g ret) = JRETURN \<or> ji_opcode (g_inst g ret) = JRETURNVOID) AssertFailed (Remove ret g))"

definition FixReturn :: "nat \<Rightarrow> nat \<Rightarrow> inl_state \<Rightarrow> inl_state res" where
  "FixReturn \<gamma> call s =
     rbind (end_of s \<gamma>) (\<lambda>e.
       let ps = bb_preds (g_bb s e) in
       guard (1 \<le> length ps) AssertFailed
         (if ji_first_user (g_inst s call) \<noteq> None then
            if 1 < length ps then FixMultipleReturns \<gamma> call s else FixSingleReturn \<gamma> call s
          else fold_res drop_return ps s))"

definition FixCF :: "nat \<Rightarrow> nat \<Rightarrow> nat \<Rightarrow> nat \<Rightarrow> inl_state \<Rightarrow> inl_state res" where
  "FixCF \<gamma> \<tau> call_block cont s =
     rbind (InsertInto \<gamma> \<tau> s) (\<lambda>s1.
       rbind (entry_of s1 \<gamma>) (\<lambda>e. rbind (SetSucc call_block e s1) (\<lambda>s2.
         rbind (end_of s2 \<gamma>) (\<lambda>x. SetSucc x cont s2))))"

subsection \<open>The pass\<close>

definition DEPTH_LIMIT :: nat where
  "DEPTH_LIMIT = 4"

definition INSTS_LIMIT :: nat where
  "INSTS_LIMIT = 1024"

text \<open>
  \<open>Inline\<close>: \<open>rec\<close> is the inlining into the callee, run with the depth before it is increased.  The
  result has the new depth.
\<close>

definition Inline :: "(nat \<Rightarrow> nat \<Rightarrow> inl_state \<Rightarrow> inl_state res) \<Rightarrow> nat \<Rightarrow> nat \<Rightarrow> nat \<Rightarrow> inl_state \<Rightarrow> (nat \<times> inl_state) res" where
  "Inline rec \<gamma> call depth s =
     deref (go_callee (object s \<gamma>)) (\<lambda>\<kappa>.
       rbind (rec \<kappa> depth s) (\<lambda>s1.
         rbind (SplitCallBlock \<gamma> call s1) (\<lambda>(b, cont, s2).
           rbind (FixParametersDF \<kappa> call s2) (\<lambda>s3.
             rbind (FixReturn \<kappa> call s3) (\<lambda>s4.
               rbind (FixCF \<kappa> \<gamma> b cont s4) (\<lambda>s5. Inr (Suc depth, s5)))))))"

text \<open>The loop over the instructions of a block; \<open>True\<close> is the \<open>return\<close> at the limit.\<close>

fun inline_insts :: "nat \<Rightarrow> (nat \<Rightarrow> nat \<Rightarrow> inl_state \<Rightarrow> (nat \<times> inl_state) res) \<Rightarrow> nat option \<Rightarrow> nat \<Rightarrow> inl_state \<Rightarrow> (bool \<times> nat \<times> inl_state) res" where
  "inline_insts 0 f p depth s = Inl OutOfFuel"
| "inline_insts (Suc n) f p depth s =
     (case p of
        None \<Rightarrow> Inr (False, depth, s)
      | Some i \<Rightarrow>
          if ji_opcode (g_inst s i) = JCALL then
            rbind (f i depth s) (\<lambda>(depth, s).
              if INSTS_LIMIT \<le> g_insts_count s then Inr (True, depth, s)
              else inline_insts n f (ji_next (g_inst s i)) depth s)
          else inline_insts n f (ji_next (g_inst s i)) depth s)"

text \<open>The loop over the blocks that were there at its begin; \<open>sz\<close> is their number.\<close>

fun inline_blocks :: "(nat \<Rightarrow> nat \<Rightarrow> bool) \<Rightarrow> nat \<Rightarrow> (nat \<Rightarrow> nat \<Rightarrow> inl_state \<Rightarrow> (nat \<times> inl_state) res) \<Rightarrow> nat \<Rightarrow> nat \<Rightarrow> nat list \<Rightarrow> nat \<Rightarrow> inl_state \<Rightarrow> inl_state res" where
  "inline_blocks moves n f \<gamma> sz [] depth s = Inr s"
| "inline_blocks moves n f \<gamma> sz (k # ks) depth s =
     (let now = length (go_blocks (object s \<gamma>)) in
      guard (now = sz \<or> \<not> moves sz now) Undefined
        (case go_blocks (object s \<gamma>) ! k of
           None \<Rightarrow> inline_blocks moves n f \<gamma> sz ks depth s
         | Some b \<Rightarrow> rbind (inline_insts n f (bb_first_inst (g_bb s b)) depth s) (\<lambda>(stop, depth, s).
             if stop then Inr s else inline_blocks moves n f \<gamma> sz ks depth s)))"

fun ApplyInlining :: "(nat \<Rightarrow> nat \<Rightarrow> bool) \<Rightarrow> nat \<Rightarrow> nat \<Rightarrow> nat \<Rightarrow> inl_state \<Rightarrow> inl_state res" where
  "ApplyInlining moves 0 \<gamma> depth s = Inl OutOfFuel"
| "ApplyInlining moves (Suc n) \<gamma> depth s =
     (if INSTS_LIMIT \<le> g_insts_count s \<or> DEPTH_LIMIT \<le> depth then Inr s
      else inline_blocks moves n (Inline (ApplyInlining moves n) \<gamma>) \<gamma> (length (go_blocks (object s \<gamma>)))
             [0..<length (go_blocks (object s \<gamma>))] depth s)"

end
