(* ===== verification/Jit_Inline_Proofs.thy ===== *)
theory Jit_Inline_Proofs
  imports Jit_Inlining Jit_Blocks Jit_Optimize
begin

text \<open>
  What inlining does: it fails for calls in the callee, does not end for a graph that calls itself,
  keeps the values that the instructions of caller and callee see, and connects the blocks.
\<close>

subsection \<open>The graph objects are left alone\<close>

named_theorems more_keep "updates of the store that leave the rest of the state alone"

lemma more_upd [more_keep]:
  "graph.more (upd_inst i f g) = graph.more g" "graph.more (upd_bb b h g) = graph.more g"
  "graph.more (set_next_user u n g) = graph.more g" "graph.more (set_first_user d n g) = graph.more g"
  "graph.more (put_input i k x g) = graph.more g" "graph.more (unlink i g) = graph.more g"
  by (simp_all add: upd_inst_def upd_bb_def set_next_user_def set_first_user_def put_input_def unlink_def)

lemma more_chain: "FindAndRemoveFromChain n u v g = Inr h \<Longrightarrow> graph.more h = graph.more g"
  by (induction n arbitrary: v) (auto simp: deref_def res_simps more_keep split: if_splits)

lemma more_RemoveUser: "RemoveUser d u g = Inr h \<Longrightarrow> graph.more h = graph.more g"
  unfolding RemoveUser_def by (auto simp: more_keep simp del: FindAndRemoveFromChain.simps dest: more_chain split: if_splits)

lemma more_User_SetInput: "User_SetInput u x g = Inr h \<Longrightarrow> graph.more h = graph.more g"
  by (auto simp: more_keep dest!: User_SetInput_frame)

lemma more_fold:
  assumes "fold_res f xs g = Inr h" and "\<And>x u v. f x u = Inr v \<Longrightarrow> graph.more v = graph.more u"
  shows "graph.more h = graph.more g"
  using assms(1)
proof (induction xs arbitrary: g)
  case (Cons x xs)
  then obtain u where u: "f x g = Inr u" "fold_res f xs u = Inr h" by (auto simp: res_simps)
  show ?case using Cons.IH [OF u(2)] assms(2) [OF u(1)] by simp
qed simp

lemma more_ClearInputs: "ClearInputs i g = Inr h \<Longrightarrow> graph.more h = graph.more g"
  unfolding ClearInputs_def by (erule more_fold) (auto simp: deref_def res_simps dest: more_RemoveUser)

lemma more_set: "set_next p n g = Inr h \<Longrightarrow> graph.more h = graph.more g" "set_prev p n g = Inr h \<Longrightarrow> graph.more h = graph.more g"
  "SetFirstInst b p g = Inr h \<Longrightarrow> graph.more h = graph.more g" "SetLastInst b p g = Inr h \<Longrightarrow> graph.more h = graph.more g"
  "SetSucc b c g = Inr h \<Longrightarrow> graph.more h = graph.more g"
  by (auto simp: set_next_def set_prev_def SetFirstInst_def SetLastInst_def SetSucc_def deref_def res_simps more_keep)

lemma more_RemoveFromBB: "RemoveFromBB i g = Inr h \<Longrightarrow> graph.more h = graph.more g"
  by (auto simp: RemoveFromBB_def deref_def Let_def res_simps more_keep dest!: more_set split: if_splits)

lemma more_ReplaceInBB: "ReplaceInBB i new g = Inr h \<Longrightarrow> graph.more h = graph.more g"
  by (cases "ji_bb (g_inst g new) = None")
    (auto simp: ReplaceInBB_def deref_def Let_def res_simps more_keep dest!: more_set more_RemoveFromBB split: if_splits)

lemma more_redirect: "redirect_users n new u prev g = Inr (p, h) \<Longrightarrow> graph.more h = graph.more g"
proof (induction n arbitrary: u prev g)
  case (Suc n)
  then show ?case by (cases u) (auto simp: res_simps dest!: Suc.IH more_User_SetInput)
qed simp

lemma more_ReplaceUsersTo: "ReplaceUsersTo old new g = Inr h \<Longrightarrow> graph.more h = graph.more g"
  by (auto simp: ReplaceUsersTo_def res_simps more_keep simp del: redirect_users.simps dest!: more_redirect split: option.splits)

lemma more_ReplaceWith: "ReplaceWith i new g = Inr h \<Longrightarrow> graph.more h = graph.more g"
  by (auto simp: ReplaceWith_def res_simps dest!: more_ClearInputs more_ReplaceInBB more_ReplaceUsersTo)

lemma more_Remove: "Remove i g = Inr h \<Longrightarrow> graph.more h = graph.more g"
  by (auto simp: Remove_def res_simps dest!: more_ClearInputs more_RemoveFromBB)

lemma more_SetInput: "SetInput i k x g = Inr h \<Longrightarrow> graph.more h = graph.more g"
  by (cases "ji_inputs (g_inst g i) ! k = None")
    (auto simp: SetInput_def AppendUseOf_def ReplaceUserWith_def deref_def Let_def res_simps more_keep)

lemma more_PushPhi: "PushPhi b i g = Inr h \<Longrightarrow> graph.more h = graph.more g"
  by (auto simp: PushPhi_def deref_def Let_def res_simps more_keep dest!: more_set split: if_splits)

lemma more_SplitBlockAfter:
  assumes "SplitBlockAfter i g = Inr (nb, h)"
  shows "graph.more h = graph.more g"
proof -
  have insts: "graph.more (fold (\<lambda>j. upd_inst j f) js k) = graph.more k" for js k f
    by (induction js arbitrary: k) (simp_all add: more_keep)
  have preds: "fold_res (\<lambda>s. FindAndReplaceInPreds s b c) ss k = Inr h \<Longrightarrow> graph.more h = graph.more k" for b c ss k h
    by (erule more_fold) (auto simp: FindAndReplaceInPreds_def Let_def res_simps more_keep)
  obtain c g1 where g1: "NewBB g = (c, g1)" by fastforce
  have m1: "graph.more g1 = graph.more g" using g1 by (auto simp: NewBB_def)
  from assms g1 obtain b k l where "(if bb_last_inst (g_bb g1 b) \<noteq> Some i then
               rbind (SetLastInst c (bb_last_inst (g_bb g1 b)) g1) (\<lambda>g2.
                 rbind (SetLastInst b (Some i) g2) (\<lambda>g3.
                   rbind (SetFirstInst c (ji_next (g_inst g3 i)) g3) (\<lambda>g4.
                     rbind (set_prev (ji_next (g_inst g4 i)) None g4) (\<lambda>g5.
                       let g6 = upd_inst i (\<lambda>x. x\<lparr>ji_next := None\<rparr>) g5
                       in Inr (fold (\<lambda>j. upd_inst j (\<lambda>x. x\<lparr>ji_bb := Some c\<rparr>)) (GetInsts g6 c) g6)))))
             else Inr g1) = Inr k"
    and l: "fold_res (\<lambda>s. FindAndReplaceInPreds s b c) (bb_succs (g_bb k b)) k = Inr l" and h: "h = MoveSuccsFrom c b l"
    by (auto simp: SplitBlockAfter_def deref_def res_simps)
  then have "graph.more k = graph.more g1"
    by (auto simp: Let_def res_simps insts more_keep dest!: more_set split: if_splits)
  then show ?thesis using m1 preds [OF l] by (simp add: h MoveSuccsFrom_def more_keep)
qed

subsection \<open>Calls in the callee\<close>

lemma more_GRAPH: "graph.more s = graph.more t \<Longrightarrow> i_GRAPH s = i_GRAPH t \<and> i_objects s = i_objects t"
  by (cases s; cases t) simp

lemma fix_params_more: "fix_params n call k p g = Inr h \<Longrightarrow> graph.more h = graph.more g"
proof (induction n arbitrary: k p g)
  case (Suc n)
  then show ?case
    by (cases p) (auto simp: Let_def deref_def res_simps dest!: Suc.IH more_ReplaceWith split: if_splits)
qed simp

lemma FixReturn_more: "FixReturn \<gamma> call s = Inr t \<Longrightarrow> graph.more t = graph.more s"
proof -
  have drop: "fold_res drop_return ps s = Inr t \<Longrightarrow> graph.more t = graph.more s" for ps s t
    by (erule more_fold) (auto simp: drop_return_def res_simps dest: more_Remove)
  have single: "FixSingleReturn \<gamma> call s = Inr t \<Longrightarrow> graph.more t = graph.more s"
    by (auto simp: FixSingleReturn_def deref_def res_simps dest!: more_Remove more_ReplaceWith)
  have phis: "fold_res (\<lambda>(k, p). phi_return phi k p) ps u = Inr w \<Longrightarrow> graph.more w = graph.more u" for phi ps u w
    by (erule more_fold) (auto simp: phi_return_def deref_def res_simps dest!: more_Remove more_SetInput)
  have multi: "FixMultipleReturns \<gamma> call s = Inr t \<Longrightarrow> graph.more t = graph.more s"
    by (auto simp: FixMultipleReturns_def Let_def New_variadic_def res_simps dest!: phis more_PushPhi more_ReplaceWith)
  show "FixReturn \<gamma> call s = Inr t \<Longrightarrow> graph.more t = graph.more s"
    by (auto simp: FixReturn_def Let_def res_simps split: if_splits dest: drop single multi)
qed

definition keeps_GRAPH :: "inl_state \<Rightarrow> inl_state \<Rightarrow> bool" where
  "keeps_GRAPH s t \<longleftrightarrow> i_GRAPH t = i_GRAPH s"

lemma more_keeps_GRAPH: "graph.more t = graph.more s \<Longrightarrow> keeps_GRAPH s t"
  using more_GRAPH [of t s] by (simp add: keeps_GRAPH_def)

lemma grow_GRAPH: "grow_blocks \<gamma> k s = Inr t \<Longrightarrow> keeps_GRAPH s t"
  by (auto simp: grow_blocks_def upd_object_def Let_def res_simps keeps_GRAPH_def)

lemma InsertInto_GRAPH: "InsertInto \<gamma> \<tau> s = Inr t \<Longrightarrow> keeps_GRAPH s t"
  by (auto simp: InsertInto_def upd_object_def Let_def res_simps keeps_GRAPH_def)

lemma Inline_GRAPH:
  assumes "Inline rec \<gamma> call d s = Inr (d', t)" and "\<And>\<kappa> d u w. rec \<kappa> d u = Inr w \<Longrightarrow> keeps_GRAPH u w"
  shows "keeps_GRAPH s t" "i_GRAPH s = Some \<gamma>"
proof -
  from assms(1) obtain \<kappa> s1 b cont s2 s3 s4 where r: "rec \<kappa> d s = Inr s1" "SplitCallBlock \<gamma> call s1 = Inr (b, cont, s2)"
    "FixParametersDF \<kappa> call s2 = Inr s3" "FixReturn \<kappa> call s3 = Inr s4" "FixCF \<kappa> \<gamma> b cont s4 = Inr t"
    by (auto simp: Inline_def deref_def res_simps)
  have 1: "keeps_GRAPH s s1" by (rule assms(2) [OF r(1)])
  have 2: "keeps_GRAPH s1 s2" "i_GRAPH s1 = Some \<gamma>"
    using r(2) by (auto simp: SplitCallBlock_def deref_def keeps_GRAPH_def res_simps dest!: more_SplitBlockAfter more_GRAPH grow_GRAPH)
  have 3: "keeps_GRAPH s2 s3" using r(3) by (auto simp: FixParametersDF_def res_simps simp del: fix_params.simps intro!: more_keeps_GRAPH dest: fix_params_more)
  have 4: "keeps_GRAPH s3 s4" using r(4) by (intro more_keeps_GRAPH FixReturn_more)
  have 5: "keeps_GRAPH s4 t"
    using r(5) by (auto simp: FixCF_def res_simps keeps_GRAPH_def dest!: more_set more_GRAPH InsertInto_GRAPH)
  show "keeps_GRAPH s t" "i_GRAPH s = Some \<gamma>" using 1 2 3 4 5 by (simp_all add: keeps_GRAPH_def)
qed

lemma inline_insts_GRAPH:
  assumes "inline_insts n f p d s = Inr (b, d', t)" and "\<And>i d u d' w. f i d u = Inr (d', w) \<Longrightarrow> keeps_GRAPH u w"
  shows "keeps_GRAPH s t"
  using assms(1)
proof (induction n arbitrary: p d s)
  case (Suc n)
  show ?case
  proof (cases p)
    case None
    then show ?thesis using Suc.prems by (simp add: keeps_GRAPH_def)
  next
    case (Some i)
    show ?thesis
    proof (cases "ji_opcode (g_inst s i) = JCALL")
      case True
      then obtain e u where "f i d s = Inr (e, u)"
        "(if INSTS_LIMIT \<le> g_insts_count u then Inr (True, e, u) else inline_insts n f (ji_next (g_inst u i)) e u) = Inr (b, d', t)"
        using Suc.prems Some by (auto simp: res_simps)
      then show ?thesis using assms(2) [of i d s e u] Suc.IH by (auto simp: keeps_GRAPH_def split: if_splits)
    next
      case False
      then show ?thesis using Suc.IH Suc.prems Some by simp
    qed
  qed
qed simp

lemma inline_blocks_GRAPH:
  assumes "inline_blocks moves n f \<gamma> sz ks d s = Inr t" and "\<And>i d u d' w. f i d u = Inr (d', w) \<Longrightarrow> keeps_GRAPH u w"
  shows "keeps_GRAPH s t"
  using assms(1)
proof (induction ks arbitrary: d s)
  case Nil
  then show ?case by (simp add: keeps_GRAPH_def)
next
  case (Cons k ks)
  show ?case
  proof (cases "go_blocks (object s \<gamma>) ! k")
    case None
    then show ?thesis using Cons by (auto simp: Let_def res_simps)
  next
    case (Some b)
    then obtain stop e u where u: "inline_insts n f (bb_first_inst (g_bb s b)) d s = Inr (stop, e, u)"
      "(if stop then Inr u else inline_blocks moves n f \<gamma> sz ks e u) = Inr t"
      using Cons.prems by (auto simp: Let_def res_simps)
    have "keeps_GRAPH s u" using inline_insts_GRAPH [OF u(1)] assms(2) by blast
    moreover have "keeps_GRAPH u t" using u(2) Cons.IH by (cases stop) (auto simp: keeps_GRAPH_def)
    ultimately show ?thesis by (simp add: keeps_GRAPH_def)
  qed
qed

lemma ApplyInlining_GRAPH: "ApplyInlining moves n \<gamma> d s = Inr t \<Longrightarrow> keeps_GRAPH s t"
proof (induction n arbitrary: \<gamma> d s t)
  case (Suc n)
  show ?case
  proof (cases "INSTS_LIMIT \<le> g_insts_count s \<or> DEPTH_LIMIT \<le> d")
    case True
    then show ?thesis using Suc.prems by (auto simp: keeps_GRAPH_def)
  next
    case False
    then have "inline_blocks moves n (Inline (ApplyInlining moves n) \<gamma>) \<gamma> (length (go_blocks (object s \<gamma>)))
             [0..<length (go_blocks (object s \<gamma>))] d s = Inr t" using Suc.prems by simp
    then show ?thesis by (rule inline_blocks_GRAPH) (rule Inline_GRAPH(1) [OF _ Suc.IH])
  qed
qed simp

text \<open>A call that the loops over the blocks and instructions of the graph reach.\<close>

definition has_call :: "inl_state \<Rightarrow> nat \<Rightarrow> bool" where
  "has_call s \<gamma> \<longleftrightarrow> (\<exists>b. Some b \<in> set (go_blocks (object s \<gamma>)) \<and> (\<exists>j \<in> set (GetInsts s b). ji_opcode (g_inst s j) = JCALL))"

definition no_calls :: "inl_state \<Rightarrow> nat option \<Rightarrow> bool" where
  "no_calls s p \<longleftrightarrow> (\<forall>m. \<forall>j \<in> set (follow (\<lambda>i. ji_next (g_inst s i)) m p). ji_opcode (g_inst s j) \<noteq> JCALL)"

lemma no_calls_None [simp]: "no_calls s None"
proof -
  have "follow f m None = []" for f m by (cases m) simp_all
  then show ?thesis by (simp add: no_calls_def)
qed

lemma no_calls_Some: "no_calls s (Some i) \<longleftrightarrow> ji_opcode (g_inst s i) \<noteq> JCALL \<and> no_calls s (ji_next (g_inst s i))"
proof
  assume c: "no_calls s (Some i)"
  have "ji_opcode (g_inst s j) \<noteq> JCALL" if "j \<in> set (follow (\<lambda>i. ji_next (g_inst s i)) (Suc m) (Some i))" for j m
    using c that unfolding no_calls_def by blast
  then show "ji_opcode (g_inst s i) \<noteq> JCALL \<and> no_calls s (ji_next (g_inst s i))" by (auto simp: no_calls_def)
next
  assume c: "ji_opcode (g_inst s i) \<noteq> JCALL \<and> no_calls s (ji_next (g_inst s i))"
  show "no_calls s (Some i)" unfolding no_calls_def
  proof (intro allI ballI)
    fix m j assume "j \<in> set (follow (\<lambda>i. ji_next (g_inst s i)) m (Some i))"
    then show "ji_opcode (g_inst s j) \<noteq> JCALL" using c by (cases m) (auto simp: no_calls_def)
  qed
qed

lemma has_callD: "has_call s \<gamma> \<Longrightarrow> \<exists>b. Some b \<in> set (go_blocks (object s \<gamma>)) \<and> \<not> no_calls s (bb_first_inst (g_bb s b))"
  by (auto simp: has_call_def no_calls_def GetInsts_def)

text \<open>When a call can only end in an error of the set \<open>E\<close>, so does a loop that meets one.\<close>

lemma inline_insts_fails:
  assumes "\<forall>i. ji_opcode (g_inst s i) = JCALL \<longrightarrow> (\<exists>e \<in> E. f i d s = Inl e)" and "OutOfFuel \<in> E"
  shows "(\<exists>e \<in> E. inline_insts n f p d s = Inl e) \<or> inline_insts n f p d s = Inr (False, d, s) \<and> no_calls s p"
proof (induction n arbitrary: p)
  case (Suc n)
  show ?case
  proof (cases p)
    case (Some i)
    show ?thesis
    proof (cases "ji_opcode (g_inst s i) = JCALL")
      case True
      then show ?thesis using assms(1) Some by (auto simp: res_simps)
    next
      case False
      then show ?thesis using Suc.IH [of "ji_next (g_inst s i)"] Some by (simp add: no_calls_Some)
    qed
  qed simp
qed (use assms(2) in auto)

lemma inline_blocks_fails:
  assumes "\<forall>i. ji_opcode (g_inst s i) = JCALL \<longrightarrow> (\<exists>e \<in> E. f i d s = Inl e)" and "OutOfFuel \<in> E"
    and "\<exists>k \<in> set ks. \<exists>b. go_blocks (object s \<gamma>) ! k = Some b \<and> \<not> no_calls s (bb_first_inst (g_bb s b))"
  shows "\<exists>e \<in> E. inline_blocks moves n f \<gamma> (length (go_blocks (object s \<gamma>))) ks d s = Inl e"
  using assms(3)
proof (induction ks)
  case (Cons k ks)
  show ?case
  proof (cases "go_blocks (object s \<gamma>) ! k")
    case None
    then show ?thesis using Cons by simp
  next
    case (Some b)
    from inline_insts_fails [where s = s and f = f and d = d and E = E and n = n and p = "bb_first_inst (g_bb s b)", OF assms(1,2)]
    consider e where "e \<in> E" "inline_insts n f (bb_first_inst (g_bb s b)) d s = Inl e"
      | "inline_insts n f (bb_first_inst (g_bb s b)) d s = Inr (False, d, s)" "no_calls s (bb_first_inst (g_bb s b))" by blast
    then show ?thesis
    proof cases
      case 1
      then show ?thesis using Some by (auto simp: Let_def)
    next
      case 2
      then have "\<exists>k \<in> set ks. \<exists>b. go_blocks (object s \<gamma>) ! k = Some b \<and> \<not> no_calls s (bb_first_inst (g_bb s b))"
        using Cons.prems Some by (metis option.inject set_ConsD)
      then show ?thesis using Cons.IH Some 2(1) by (simp add: Let_def)
    qed
  qed
qed simp

lemma has_call_fails:
  assumes "has_call s \<gamma>" and "g_insts_count s < INSTS_LIMIT" "d < DEPTH_LIMIT"
    and "\<forall>i. ji_opcode (g_inst s i) = JCALL \<longrightarrow> (\<exists>e \<in> E. Inline (ApplyInlining moves n) \<gamma> i d s = Inl e)" and "OutOfFuel \<in> E"
  shows "\<exists>e \<in> E. ApplyInlining moves (Suc n) \<gamma> d s = Inl e"
proof -
  let ?bs = "go_blocks (object s \<gamma>)"
  from has_callD [OF assms(1)] obtain b where b: "Some b \<in> set ?bs" "\<not> no_calls s (bb_first_inst (g_bb s b))" by blast
  then obtain k where "k < length ?bs" "?bs ! k = Some b" by (metis in_set_conv_nth)
  then have "\<exists>k \<in> set [0..<length ?bs]. \<exists>b. ?bs ! k = Some b \<and> \<not> no_calls s (bb_first_inst (g_bb s b))"
    using b(2) by (intro bexI [of _ k]) auto
  from inline_blocks_fails [where s = s and d = d and E = E and n = n and moves = moves and f = "Inline (ApplyInlining moves n) \<gamma>",
    OF assms(4,5) this] show ?thesis using assms(2,3) by simp
qed

text \<open>
  A call in a callee cannot be inlined: whatever the callee of the callee is, the inlining into a
  graph that is not the global \<open>GRAPH\<close> and has a call ends in an error, because \<open>SplitCallBlock\<close>
  asserts that the graph is the global one.
\<close>

theorem calls_in_a_callee_are_fatal:
  assumes "i_GRAPH s \<noteq> Some \<gamma>" and "has_call s \<gamma>" and "g_insts_count s < INSTS_LIMIT" and "d < DEPTH_LIMIT"
  shows "\<exists>e. ApplyInlining moves n \<gamma> d s = Inl e"
proof (cases n)
  case (Suc m)
  have "\<exists>e \<in> UNIV. Inline (ApplyInlining moves m) \<gamma> i d s = Inl e" for i
  proof (cases "Inline (ApplyInlining moves m) \<gamma> i d s")
    case (Inr r)
    then have "i_GRAPH s = Some \<gamma>"
      using Inline_GRAPH(2) [of "ApplyInlining moves m" \<gamma> i d s "fst r" "snd r"] ApplyInlining_GRAPH by simp
    then show ?thesis using assms(1) by simp
  qed simp
  then show ?thesis using has_call_fails [OF assms(2-4), of UNIV moves m] by (simp add: Suc)
qed simp

text \<open>
  C40: The limit of the depth does not stop a recursion: for a graph that calls itself the inlining runs
  out of any fuel, since the callee is inlined into with the depth before it is increased and before
  any instruction is created.
\<close>

theorem recursive_inlining_never_ends:
  assumes "go_callee (object s \<gamma>) = Some \<gamma>" and "has_call s \<gamma>" and "g_insts_count s < INSTS_LIMIT" and "d < DEPTH_LIMIT"
  shows "ApplyInlining moves n \<gamma> d s = Inl OutOfFuel"
proof (induction n)
  case (Suc n)
  have "Inline (ApplyInlining moves n) \<gamma> i d s = Inl OutOfFuel" for i
    using assms(1) Suc by (simp add: Inline_def deref_def)
  then show ?case using has_call_fails [OF assms(2-4), of "{OutOfFuel}" moves n] by simp
qed simp

subsection \<open>Values\<close>

text \<open>Every instruction sees the same values at its inputs.\<close>

definition same_view :: "(nat \<Rightarrow> u64) \<Rightarrow> 'g graph_scheme \<Rightarrow> 'g graph_scheme \<Rightarrow> bool" where
  "same_view v g h \<longleftrightarrow> (\<forall>j < g_insts_count g. map (map_option v) (ji_inputs (g_inst h j)) = map (map_option v) (ji_inputs (g_inst g j)))"

lemma same_view_refl [simp]: "same_view v g g"
  by (simp add: same_view_def)

lemma same_view_trans: "same_view v g h \<Longrightarrow> g_insts_count h = g_insts_count g \<Longrightarrow> same_view v h k \<Longrightarrow> same_view v g k"
  by (simp add: same_view_def)

lemma ReplaceWith_view:
  assumes "ReplaceWith i new g = Inr h" and "ready X g" and "new < g_insts_count g" "new \<notin> X" "new \<noteq> i" and "v i = v new"
  shows "same_view v g h"
proof -
  note r = ReplaceWith_ready [OF assms(1-5)]
  have "map_option v (subst_input i new p) = map_option v p" for p using assms(6) by (simp add: subst_input_def)
  then show ?thesis using r(5) by (simp add: same_view_def comp_def)
qed

text \<open>The links between instructions and blocks.\<close>

definition same_links :: "'g graph_scheme \<Rightarrow> 'g graph_scheme \<Rightarrow> bool" where
  "same_links g h \<longleftrightarrow> nx h = nx g \<and> pv h = pv g \<and> bb_of h = bb_of g \<and> IsPhi h = IsPhi g \<and> g_bb h = g_bb g"

lemma same_links_trans: "same_links g h \<Longrightarrow> same_links h k \<Longrightarrow> same_links g k"
  by (simp add: same_links_def)

lemma same_links_upd:
  "same_links g (set_next_user u n g)" "same_links g (set_first_user d n g)" "same_links g (put_input i k x g)" "same_links g g"
  by (auto simp: same_links_def nx_def pv_def bb_of_def IsPhi_def fun_eq_iff set_next_user_def set_first_user_def put_input_def upd_inst_def)

lemma chain_links: "FindAndRemoveFromChain n u v g = Inr h \<Longrightarrow> same_links g h"
  by (induction n arbitrary: v) (auto simp: deref_def res_simps intro: same_links_upd split: if_splits)

lemma RemoveUser_links: "RemoveUser d u g = Inr h \<Longrightarrow> same_links g h"
  unfolding RemoveUser_def by (auto simp del: FindAndRemoveFromChain.simps intro: same_links_upd dest: chain_links split: if_splits)

lemma ClearInputs_links: "ClearInputs i g = Inr h \<Longrightarrow> same_links g h"
proof -
  have "fold_res (\<lambda>k h. rbind (GetInput i k h) (\<lambda>inp. deref inp (\<lambda>d. RemoveUser d (i, k) h))) ks g = Inr h \<Longrightarrow> same_links g h" for ks
  proof (induction ks arbitrary: g)
    case (Cons k ks)
    then show ?case by (auto simp: deref_def res_simps dest!: RemoveUser_links intro: same_links_trans)
  qed (simp add: same_links_upd)
  then show "ClearInputs i g = Inr h \<Longrightarrow> same_links g h" unfolding ClearInputs_def .
qed

lemma redirect_same_links: "redirect_users n new u prev g = Inr (p, h) \<Longrightarrow> same_links g h"
proof (induction n arbitrary: u prev g)
  case (Suc n)
  show ?case
  proof (cases u)
    case (Some w)
    then obtain k where k: "User_SetInput w new g = Inr k" "redirect_users n new (next_user k w) (Some w) k = Inr (p, h)"
      using Suc.prems by (auto simp: res_simps)
    have "same_links g k" unfolding User_SetInput_frame [OF k(1)] by (rule same_links_upd)
    then show ?thesis using Suc.IH [OF k(2)] by (rule same_links_trans)
  qed (use Suc.prems in \<open>auto intro: same_links_upd\<close>)
qed simp

lemma ReplaceUsersTo_same_links:
  assumes "ReplaceUsersTo old new g = Inr h"
  shows "same_links g h"
proof -
  from assms obtain p k where k: "redirect_users (Suc (slot_count g)) new (ji_first_user (g_inst g old)) None g = Inr (p, k)"
    and h: "(case p of None \<Rightarrow> Inr k | Some p \<Rightarrow> guard (next_user k p = None) AssertFailed
             (Inr (set_first_user new (ji_first_user (g_inst k old)) (set_next_user p (ji_first_user (g_inst k new)) k)))) = Inr h"
    by (auto simp: ReplaceUsersTo_def res_simps)
  have "same_links k h"
    using h by (cases p) (auto simp: res_simps intro: same_links_upd same_links_trans [OF same_links_upd(1) same_links_upd(2)])
  then show ?thesis using redirect_same_links [OF k] same_links_trans by blast
qed

lemma block_list_links: "same_links g h \<Longrightarrow> block_list h b xs = block_list g b xs"
  by (simp add: same_links_def block_list_def)

definition edges_of :: "'g graph_scheme \<Rightarrow> nat \<Rightarrow> nat list \<times> nat list" where
  "edges_of g = (\<lambda>c. (bb_preds (g_bb g c), bb_succs (g_bb g c)))"

definition same_edges :: "'g graph_scheme \<Rightarrow> 'g graph_scheme \<Rightarrow> bool" where
  "same_edges g h \<longleftrightarrow> edges_of h = edges_of g"

lemma same_edges_refl [simp]: "same_edges g g"
  by (simp add: same_edges_def)

lemma same_edges_trans: "same_edges g h \<Longrightarrow> same_edges h k \<Longrightarrow> same_edges g k"
  by (simp add: same_edges_def)

lemma same_edgesD: "same_edges g h \<Longrightarrow> bb_preds (g_bb h c) = bb_preds (g_bb g c)" "same_edges g h \<Longrightarrow> bb_succs (g_bb h c) = bb_succs (g_bb g c)"
  by (auto simp: same_edges_def edges_of_def fun_eq_iff)

lemma edges_upd: "edges_of (upd_inst i f g) = edges_of g" "edges_of (unlink i g) = edges_of g"
  by (simp_all add: edges_of_def unlink_def)

lemma edges_set: "set_next p n g = Inr h \<Longrightarrow> edges_of h = edges_of g" "set_prev p n g = Inr h \<Longrightarrow> edges_of h = edges_of g"
  "SetFirstInst b p g = Inr h \<Longrightarrow> edges_of h = edges_of g" "SetLastInst b p g = Inr h \<Longrightarrow> edges_of h = edges_of g"
  by (auto simp: set_next_def set_prev_def SetFirstInst_def SetLastInst_def deref_def res_simps edges_upd) (auto simp: edges_of_def)

lemma RemoveFromBB_edges: "RemoveFromBB i g = Inr h \<Longrightarrow> edges_of h = edges_of g"
  by (auto simp: RemoveFromBB_def deref_def Let_def res_simps edges_upd dest!: edges_set split: if_splits)

lemma ReplaceInBB_edges: "ReplaceInBB i new g = Inr h \<Longrightarrow> edges_of h = edges_of g"
  by (cases "ji_bb (g_inst g new) = None")
    (auto simp: ReplaceInBB_def deref_def Let_def res_simps edges_upd dest!: edges_set RemoveFromBB_edges split: if_splits)

lemma same_links_edges: "same_links g h \<Longrightarrow> edges_of h = edges_of g"
  by (simp add: same_links_def edges_of_def)

lemma ReplaceWith_edges: "ReplaceWith i new g = Inr h \<Longrightarrow> same_edges g h"
  by (auto simp: ReplaceWith_def same_edges_def res_simps
      dest!: ClearInputs_links ReplaceInBB_edges ReplaceUsersTo_same_links same_links_edges)

text \<open>Replacing by an instruction that is in a block takes the old one out of the list of its block.\<close>

lemma ReplaceWith_unlists:
  assumes "ReplaceWith i new g = Inr h" and "block_list g b (xs @ i # ys)" and "bb_of g new \<noteq> None" "new \<noteq> i"
  shows "block_list h b (xs @ ys)" "\<And>c. c \<noteq> b \<Longrightarrow> g_bb h c = g_bb g c" "bb_of h = (bb_of g)(i := None)"
proof -
  from assms(1) obtain g1 g2 where g1: "ClearInputs i g = Inr g1" and g2: "ReplaceInBB i new g1 = Inr g2" and g3: "ReplaceUsersTo i new g2 = Inr h"
    by (auto simp: ReplaceWith_def res_simps)
  note l1 = ClearInputs_links [OF g1] and l3 = ReplaceUsersTo_same_links [OF g3]
  have bl1: "block_list g1 b (xs @ i # ys)" using assms(2) block_list_links [OF l1] by simp
  have "bb_of g1 = bb_of g" using l1 by (simp add: same_links_def)
  then have "bb_of g1 new \<noteq> None" using assms(3) by simp
  then have ne: "ji_bb (g_inst g1 new) \<noteq> None" by (simp add: bb_of_def)
  have r: "RemoveFromBB i g1 = Inr g2" using g2 unfolding ReplaceInBB_def if_not_P [OF ne] guard_eq_Inr by blast
  from RemoveFromBB_list [OF bl1] r have k: "block_list g2 b (xs @ ys)" "bb_of g2 = (bb_of g1)(i := None)"
    "\<forall>c. c \<noteq> b \<longrightarrow> g_bb g2 c = g_bb g1 c" by auto
  show "block_list h b (xs @ ys)" using k(1) block_list_links [OF l3] by simp
  show "g_bb h c = g_bb g c" if "c \<noteq> b" for c using k(3) that l1 l3 by (simp add: same_links_def)
  show "bb_of h = (bb_of g)(i := None)" using k(2) l1 l3 by (simp add: same_links_def)
qed

lemma ready_input:
  assumes "ready X g" and "j < g_insts_count g" and "Some d \<in> set (ji_inputs (g_inst g j))"
  shows "d < g_insts_count g \<and> (j \<notin> X \<longrightarrow> d \<notin> X)"
proof -
  have "closed_code X g" using assms(1) by (simp add: ready_def)
  then show ?thesis using assms(2,3) unfolding closed_code_def by blast
qed

lemma Remove_ready:
  assumes "Remove i g = Inr h" and "ready X g" and unused: "\<forall>j < g_insts_count g. j \<notin> X \<longrightarrow> Some i \<notin> set (ji_inputs (g_inst g j))"
  shows "ready (insert i X) h" "same_code g h"
proof -
  from assms(1) obtain g1 where g1: "ClearInputs i g = Inr g1" and h: "RemoveFromBB i g1 = Inr h" by (auto simp: Remove_def res_simps)
  note r = RemoveFromBB_frame [OF h]
  have bb1: "same_bb g g1" by (rule ClearInputs_bb [OF g1])
  then have i: "i \<notin> X" "i < g_insts_count g"
    using ready_live [OF assms(2), of i] r(3) by (simp_all add: same_bb_def)
  note c = ClearInputs_uses [OF g1 assms(2) i]
  show code: "same_code g h" using c(2) r(1) by (rule frame_trans(1))
  have old: "shaped g" "closed_code X g" "loose X g" "\<forall>j \<in> X. j < g_insts_count g" using assms(2) by (simp_all add: ready_def)
  note same = same_code_inputs [OF code] view_simps(3) [OF code]
  have "uses_ok (- X) {u. fst u \<in> insert i X} h" by (rule uses_ok_same [OF r(1,2) c(1)])
  then have "uses_ok (- insert i X) {u. fst u \<in> insert i X} h" by (auto simp: uses_ok_def)
  moreover have "shaped h" using old(1) by (simp add: shaped_def same)
  moreover have "closed_code (insert i X) h"
    using old(2) unused unfolding closed_code_def same by blast
  moreover have "loose (insert i X) h"
    using old(3) bb1 r(4) unfolding loose_def same_bb_def same(3) by auto
  ultimately show "ready (insert i X) h" using old(4) i(2) by (simp add: ready_def same(3))
qed

lemma used_first_user:
  assumes "ready X g" and "j < g_insts_count g" "j \<notin> X" and "Some d \<in> set (ji_inputs (g_inst g j))"
  shows "ji_first_user (g_inst g d) \<noteq> None"
proof -
  have old: "uses_ok (- X) {u. fst u \<in> X} g" "shaped g" "closed_code X g" using assms(1) by (simp_all add: ready_def)
  have "d \<in> - X" using old(3) assms(2-4) by (auto simp: closed_code_def)
  from uses_okE [OF old(1) this] obtain xs where xs: "users_list g d xs"
    "\<And>u. u \<in> set xs \<longleftrightarrow> slot_ok g u \<and> u \<notin> {u. fst u \<in> X} \<and> input_at g u = Some d" by blast
  obtain k where k: "k < length (ji_inputs (g_inst g j))" "ji_inputs (g_inst g j) ! k = Some d" using assms(4) by (metis in_set_conv_nth)
  then have "(j, k) \<in> set xs" using xs(2) [of "(j, k)"] assms(2,3) old(2) by (simp add: slot_ok_def shaped_def input_at_def)
  then show ?thesis using xs(1) by (cases xs) (auto simp: users_list_def)
qed

subsection \<open>Parameters\<close>

definition is_param :: "'g graph_scheme \<Rightarrow> nat \<Rightarrow> bool" where
  "is_param g i \<longleftrightarrow> ji_opcode (g_inst g i) = JPARAMETER"

text \<open>The values of the parameters \<open>ps\<close> are those of the inputs of the call from the \<open>k\<close>-th on.\<close>

definition passes :: "(nat \<Rightarrow> u64) \<Rightarrow> nat \<Rightarrow> nat option list \<Rightarrow> nat list \<Rightarrow> bool" where
  "passes v k ins ps \<longleftrightarrow> (\<forall>m < length ps. \<forall>a. k + m < length ins \<longrightarrow> ins ! (k + m) = Some a \<longrightarrow> v (ps ! m) = v a)"

lemma passes_Cons: "passes v k ins (p # ps) \<Longrightarrow> passes v (Suc k) ins ps"
  unfolding passes_def
proof (intro allI impI)
  fix m a assume h: "\<forall>m < length (p # ps). \<forall>a. k + m < length ins \<longrightarrow> ins ! (k + m) = Some a \<longrightarrow> v ((p # ps) ! m) = v a"
    and m: "m < length ps" "Suc k + m < length ins" "ins ! (Suc k + m) = Some a"
  show "v (ps ! m) = v a" using h [rule_format, of "Suc m" a] m by simp
qed

lemma fix_params_values:
  assumes "fix_params n call k (after ys) g = Inr h" and "ready X g" and "block_list g b (zs @ ys)"
    and call: "call < g_insts_count g" "call \<notin> X" "ji_opcode (g_inst g call) = JCALL"
    and args: "\<forall>a. Some a \<in> set (ji_inputs (g_inst g call)) \<longrightarrow> bb_of g a \<noteq> None \<and> a \<notin> set (filter (is_param g) ys)"
    and vals: "passes v k (ji_inputs (g_inst g call)) (filter (is_param g) ys)"
  shows "ready (X \<union> set (filter (is_param g) ys)) h \<and> same_ops g h \<and> same_view v g h \<and>
    block_list h b (zs @ filter (\<lambda>i. \<not> is_param g i) ys) \<and> (\<forall>c. c \<noteq> b \<longrightarrow> g_bb h c = g_bb g c) \<and>
    same_edges g h \<and> ji_inputs (g_inst h call) = ji_inputs (g_inst g call) \<and>
    (\<forall>j d. j < g_insts_count g \<longrightarrow> Some d \<in> set (ji_inputs (g_inst h j)) \<longrightarrow>
       Some d \<in> set (ji_inputs (g_inst g j)) \<or> Some d \<in> set (ji_inputs (g_inst g call))) \<and>
    (\<forall>j d. j < g_insts_count g \<longrightarrow> \<not> is_param g d \<longrightarrow> Some d \<in> set (ji_inputs (g_inst g j)) \<longrightarrow> Some d \<in> set (ji_inputs (g_inst h j)))"
  using assms
proof (induction ys arbitrary: n k g X zs)
  case Nil
  then show ?case by (cases n) auto
next
  case (Cons i ys)
  note at = block_list_at [OF Cons.prems(3)]
  obtain n' where n: "n = Suc n'" using Cons.prems(1) by (cases n) auto
  have nxt: "ji_next (g_inst g i) = after ys" using at(1) by (simp add: nx_def)
  show ?case
  proof (cases "is_param g i")
    case False
    have bl: "block_list g b ((zs @ [i]) @ ys)" using Cons.prems(3) by simp
    have "fix_params n' call k (after ys) g = Inr h"
      using Cons.prems(1) False nxt by (simp add: n is_param_def Let_def)
    from Cons.IH [OF this Cons.prems(2) bl Cons.prems(4-6)] show ?thesis using Cons.prems(7,8) False by simp
  next
    case True
    let ?ins = "ji_inputs (g_inst g call)"
    from Cons.prems(1) True nxt obtain x u where x: "GetInput call k g = Inr (Some x)" and u: "ReplaceWith i x g = Inr u"
      and rest: "fix_params n' call (Suc k) (after ys) u = Inr h"
      by (auto simp: n is_param_def Let_def deref_def res_simps)
    have k: "k < length ?ins" "?ins ! k = Some x" using x by (auto simp: GetInput_def split: if_splits)
    then have xin: "Some x \<in> set ?ins" by (metis nth_mem)
    have xi: "x \<noteq> i" "bb_of g x \<noteq> None" using Cons.prems(7) xin True by auto
    have xX: "x < g_insts_count g" "x \<notin> X" using ready_input [OF Cons.prems(2,4) xin] Cons.prems(5) by blast+
    have vi: "v i = v x"
      using Cons.prems(8) True k unfolding passes_def by (elim allE [of _ 0]) simp
    note r = ReplaceWith_ready [OF u Cons.prems(2) xX xi(1)]
    note l = ReplaceWith_unlists [OF u Cons.prems(3) xi(2,1)]
    have view: "same_view v g u" by (rule ReplaceWith_view [OF u Cons.prems(2) xX xi(1) vi])
    have count: "g_insts_count u = g_insts_count g" and ops: "is_param u = is_param g" "ji_opcode (g_inst u call) = JCALL"
      using r(4) Cons.prems(6) by (auto simp: same_ops_def is_param_def)
    have ci: "call \<noteq> i" using Cons.prems(6) True by (auto simp: is_param_def)
    have noi: "Some i \<notin> set ?ins" using Cons.prems(7) True by auto
    have ins: "ji_inputs (g_inst u call) = ?ins"
      using r(5) [OF Cons.prems(4)] Cons.prems(5) ci noi by (auto simp: subst_input_def intro!: map_idI)
    have "ready (insert i X \<union> set (filter (is_param u) ys)) h \<and> same_ops u h \<and> same_view v u h \<and>
        block_list h b (zs @ filter (\<lambda>i. \<not> is_param u i) ys) \<and> (\<forall>c. c \<noteq> b \<longrightarrow> g_bb h c = g_bb u c) \<and>
        same_edges u h \<and> ji_inputs (g_inst h call) = ji_inputs (g_inst u call) \<and>
        (\<forall>j d. j < g_insts_count u \<longrightarrow> Some d \<in> set (ji_inputs (g_inst h j)) \<longrightarrow>
           Some d \<in> set (ji_inputs (g_inst u j)) \<or> Some d \<in> set (ji_inputs (g_inst u call))) \<and>
        (\<forall>j d. j < g_insts_count u \<longrightarrow> \<not> is_param u d \<longrightarrow> Some d \<in> set (ji_inputs (g_inst u j)) \<longrightarrow> Some d \<in> set (ji_inputs (g_inst h j)))"
    proof (rule Cons.IH [OF rest r(3) l(1)])
      show "call < g_insts_count u" "call \<notin> insert i X" "ji_opcode (g_inst u call) = JCALL"
        using Cons.prems(4,5) count ci ops by simp_all
      show "\<forall>a. Some a \<in> set (ji_inputs (g_inst u call)) \<longrightarrow> bb_of u a \<noteq> None \<and> a \<notin> set (filter (is_param u) ys)"
        using Cons.prems(7) noi True unfolding ins ops(1) l(3) by auto
      show "passes v (Suc k) (ji_inputs (g_inst u call)) (filter (is_param u) ys)"
        using Cons.prems(8) True passes_Cons unfolding ins ops(1) by auto
    qed
    note c = this [unfolded ins ops(1) count]
    have step: "Some d \<in> set (ji_inputs (g_inst g j)) \<or> Some d \<in> set ?ins" if "j < g_insts_count g" "Some d \<in> set (ji_inputs (g_inst u j))" for j d
      using r(5) [OF that(1)] that(2) xin by (auto simp: subst_input_def split: if_splits)
    have parts: "same_ops u h" "same_view v u h" "same_edges u h" "\<forall>c. c \<noteq> b \<longrightarrow> g_bb h c = g_bb u c"
      "ready (insert i X \<union> set (filter (is_param g) ys)) h" "block_list h b (zs @ filter (\<lambda>i. \<not> is_param g i) ys)"
      "ji_inputs (g_inst h call) = ?ins"
      using c by simp_all
    from c have later: "\<And>j d. j < g_insts_count g \<Longrightarrow> Some d \<in> set (ji_inputs (g_inst h j)) \<Longrightarrow>
       Some d \<in> set (ji_inputs (g_inst u j)) \<or> Some d \<in> set ?ins" by (elim conjE) blast
    have ops': "same_ops g h" by (rule same_ops_trans [OF r(4) parts(1)])
    have view': "same_view v g h" by (rule same_view_trans [OF view count parts(2)])
    have edges: "same_edges g h" by (rule same_edges_trans [OF ReplaceWith_edges [OF u] parts(3)])
    have ins': "\<forall>j d. j < g_insts_count g \<longrightarrow> Some d \<in> set (ji_inputs (g_inst h j)) \<longrightarrow>
       Some d \<in> set (ji_inputs (g_inst g j)) \<or> Some d \<in> set ?ins"
      by (intro allI impI) (use later step in blast)
    have stay: "Some d \<in> set (ji_inputs (g_inst u j))"
      if "j < g_insts_count g" "\<not> is_param g d" "Some d \<in> set (ji_inputs (g_inst g j))" for j d
    proof -
      have "subst_input i x (Some d) = Some d" using that(2) True by (auto simp: subst_input_def)
      then show ?thesis using r(5) [OF that(1)] that(3) by (metis image_eqI set_map)
    qed
    from c have rest': "\<And>j d. j < g_insts_count g \<Longrightarrow> \<not> is_param g d \<Longrightarrow> Some d \<in> set (ji_inputs (g_inst u j)) \<Longrightarrow>
       Some d \<in> set (ji_inputs (g_inst h j))" by (elim conjE) blast
    have stay': "\<forall>j d. j < g_insts_count g \<longrightarrow> \<not> is_param g d \<longrightarrow> Some d \<in> set (ji_inputs (g_inst g j)) \<longrightarrow>
       Some d \<in> set (ji_inputs (g_inst h j))" by (intro allI impI) (use rest' stay in blast)
    show ?thesis using True ops' view' edges ins' stay' parts(4-7) l(2) by simp
  qed
qed

subsection \<open>A callee that returns once\<close>

text \<open>
  The callee \<open>\<kappa>\<close> with the list \<open>xs\<close> of its first block returns the value of \<open>x\<close> with the instruction
  \<open>ret\<close>, the last one of the only predecessor \<open>p\<close> of its last block.
\<close>

definition returns_once :: "inl_state \<Rightarrow> nat \<Rightarrow> nat \<Rightarrow> nat list \<Rightarrow> nat \<Rightarrow> nat \<Rightarrow> bool" where
  "returns_once s \<kappa> e xs ret x \<longleftrightarrow> entry_of s \<kappa> = Inr e \<and> block_list s e xs \<and> ji_opcode (g_inst s ret) = JRETURN \<and>
     ji_inputs (g_inst s ret) = [Some x] \<and>
     (\<exists>z p. end_of s \<kappa> = Inr z \<and> bb_preds (g_bb s z) = [p] \<and> bb_last_inst (g_bb s p) = Some ret)"

text \<open>A call that is used, whose inputs are in blocks and are neither it nor parameters of the callee.\<close>

definition inlinable :: "nat set \<Rightarrow> inl_state \<Rightarrow> nat \<Rightarrow> nat list \<Rightarrow> nat \<Rightarrow> bool" where
  "inlinable X s call xs ret \<longleftrightarrow> call < g_insts_count s \<and> call \<notin> X \<and> ji_opcode (g_inst s call) = JCALL \<and>
     ret < g_insts_count s \<and> ret \<notin> X \<and>
     (\<forall>a. Some a \<in> set (ji_inputs (g_inst s call)) \<longrightarrow> bb_of s a \<noteq> None \<and> a \<notin> set (filter (is_param s) xs)) \<and>
     (\<exists>j < g_insts_count s. j \<notin> X \<and> \<not> is_param s j \<and> Some call \<in> set (ji_inputs (g_inst s j))) \<and>
     Some call \<notin> set (ji_inputs (g_inst s call)) \<and> Some call \<notin> set (ji_inputs (g_inst s ret)) \<and>
     (\<forall>j < g_insts_count s. Some ret \<notin> set (ji_inputs (g_inst s j)))"

lemma same_ops_opcode: "same_ops g h \<Longrightarrow> ji_opcode (g_inst h j) = ji_opcode (g_inst g j)" "same_ops g h \<Longrightarrow> g_insts_count h = g_insts_count g"
  by (simp_all add: same_ops_def)

lemma entry_of_unfold: "entry_of s \<kappa> = Inr e \<longleftrightarrow> block_at s \<kappa> 1 = Inr e \<and> bb_preds (g_bb s e) = []"
  by (auto simp: entry_of_def res_simps)

lemma end_of_unfold: "end_of s \<kappa> = Inr e \<longleftrightarrow> block_at s \<kappa> 0 = Inr e \<and> bb_succs (g_bb s e) = []"
  by (auto simp: end_of_def res_simps)

lemma block_at_more: "graph.more t = graph.more s \<Longrightarrow> block_at t \<kappa> k = block_at s \<kappa> k"
  using more_GRAPH [of t s] by (simp add: block_at_def)

text \<open>The return instruction is still the last one of its block after the parameters have been replaced.\<close>

lemma block_list_last: "block_list g b xs \<Longrightarrow> bb_last_inst (g_bb g b) = (if xs = [] then None else Some (last xs))"
  by (cases xs rule: rev_cases) (auto simp: block_list_def)

lemma return_stays_last:
  assumes "block_list s e xs" "block_list t e (filter (\<lambda>i. \<not> P i) xs)" "\<forall>c. c \<noteq> e \<longrightarrow> g_bb t c = g_bb s c"
    and "bb_last_inst (g_bb s p) = Some ret" "\<not> P ret"
  shows "bb_last_inst (g_bb t p) = Some ret"
proof (cases "p = e")
  case True
  have "xs \<noteq> []" "last xs = ret" using block_list_last [OF assms(1)] assms(4) True by (auto split: if_splits)
  then have "ret \<in> set (filter (\<lambda>i. \<not> P i) xs)" "last (filter (\<lambda>i. \<not> P i) xs) = ret"
    using assms(5) by (auto intro: last_in_set) (metis append_butlast_last_id filter.simps filter_append last_snoc)
  then show ?thesis using block_list_last [OF assms(2)] True by (cases "filter (\<lambda>i. \<not> P i) xs") auto
next
  case False
  then show ?thesis using assms(3,4) by simp
qed

text \<open>The call is replaced by the value that the only return instruction gives back.\<close>

lemma single_return:
  assumes "ready Y t" and stop: "end_of t \<kappa> = Inr z" "bb_preds (g_bb t z) = [p]" "bb_last_inst (g_bb t p) = Some ret"
    and "ji_opcode (g_inst t ret) = JRETURN" and y: "ji_inputs (g_inst t ret) = [Some y]" "y \<noteq> call"
    and ret: "ret < g_insts_count t" "ret \<notin> Y" and "v call = v y" and used: "ji_first_user (g_inst t call) \<noteq> None"
    and unused: "\<forall>i < g_insts_count t. Some ret \<notin> set (ji_inputs (g_inst t i))" and run: "FixReturn \<kappa> call t = Inr u"
  shows "same_view v t u" "same_ops t u" "ready (insert ret (insert call Y)) u"
proof -
  have yin: "Some y \<in> set (ji_inputs (g_inst t ret))" by (simp add: y(1))
  have yok: "y < g_insts_count t" "y \<notin> Y" "y \<noteq> ret" using ready_input [OF assms(1) ret(1) yin] ret unused yin by auto
  have "GetInput ret 0 t = Inr (Some y)" by (simp add: GetInput_def y(1))
  then obtain w where w: "ReplaceWith call y t = Inr w" "Remove ret w = Inr u"
    using run used assms(5) by (auto simp: FixReturn_def FixSingleReturn_def stop Let_def last_of_def deref_def res_simps)
  note r = ReplaceWith_ready [OF w(1) assms(1) yok(1,2) y(2)]
  have count: "g_insts_count w = g_insts_count t" using r(4) by (simp add: same_ops_def)
  have "Some ret \<notin> set (ji_inputs (g_inst w i))" if "i < g_insts_count t" for i
    using r(5) [OF that] unused that yok(3) by (auto simp: subst_input_def split: if_splits)
  then have rm: "ready (insert ret (insert call Y)) u" "same_code w u"
    using Remove_ready [OF w(2) r(3)] count by auto
  have view: "same_view v t w" by (rule ReplaceWith_view [OF w(1) assms(1) yok(1,2) y(2) assms(10)])
  have "same_view v w u" "same_ops w u"
    using rm(2) by (simp_all add: same_view_def same_code_inputs [OF rm(2)] same_ops_def same_code_def view_def)
  then show "same_view v t u" "same_ops t u" "ready (insert ret (insert call Y)) u"
    using same_view_trans [OF view count] same_ops_trans [OF r(4)] rm(1) by auto
qed

text \<open>
  C21: Inlining a callee that returns once replaces the call: parameters stand for the arguments and the
  call for the returned value, so under any values of the instructions that agree on these, every
  instruction of caller and callee sees the values that it saw, no opcode changes, and the use lists
  stay consistent with the parameters, the call and the return taken out.
\<close>

theorem inlining_keeps_values:
  assumes "ready X s" and "returns_once s \<kappa> e xs ret x" and "inlinable X s call xs ret"
    and "passes v 0 (ji_inputs (g_inst s call)) (filter (is_param s) xs)" and "v call = v x"
    and "FixParametersDF \<kappa> call s = Inr t" and "FixReturn \<kappa> call t = Inr u"
  shows "same_view v s u \<and> same_ops s u \<and> ready (X \<union> set (filter (is_param s) xs) \<union> {call, ret}) u"
proof -
  let ?ps = "filter (is_param s) xs" and ?ins = "ji_inputs (g_inst s call)"
  obtain z p where e: "entry_of s \<kappa> = Inr e" "block_list s e xs" and ret: "ji_opcode (g_inst s ret) = JRETURN"
      "ji_inputs (g_inst s ret) = [Some x]"
    and z: "end_of s \<kappa> = Inr z" "bb_preds (g_bb s z) = [p]" "bb_last_inst (g_bb s p) = Some ret"
    using assms(2) by (auto simp: returns_once_def)
  obtain j where call: "call < g_insts_count s" "call \<notin> X" "ji_opcode (g_inst s call) = JCALL"
      "ret < g_insts_count s" "ret \<notin> X"
    and args: "\<forall>a. Some a \<in> set ?ins \<longrightarrow> bb_of s a \<noteq> None \<and> a \<notin> set ?ps"
    and user: "j < g_insts_count s" "j \<notin> X" "\<not> is_param s j" "Some call \<in> set (ji_inputs (g_inst s j))"
    and noself: "Some call \<notin> set ?ins" "Some call \<notin> set (ji_inputs (g_inst s ret))"
    and unused: "\<forall>j < g_insts_count s. Some ret \<notin> set (ji_inputs (g_inst s j))"
    using assms(3) by (auto simp: inlinable_def)
  have first: "bb_first_inst (g_bb s e) = after xs" using e(2) by (cases xs) (auto simp: block_list_def)
  have run: "fix_params (Suc (g_insts_count s)) call 0 (after xs) s = Inr t"
    using assms(6) by (simp add: FixParametersDF_def e(1) first del: fix_params.simps)
  have "block_list s e ([] @ xs)" using e(2) by simp
  note c = fix_params_values [OF run assms(1) this call(1-3) args assms(4)]
  let ?Y = "X \<union> set ?ps"
  from c have t: "ready ?Y t" "same_ops s t" "same_view v s t" "block_list t e (filter (\<lambda>i. \<not> is_param s i) xs)"
    "\<forall>c. c \<noteq> e \<longrightarrow> g_bb t c = g_bb s c" "same_edges s t" "ji_inputs (g_inst t call) = ?ins"
    by simp_all
  from c have from_old: "\<And>j d. j < g_insts_count s \<Longrightarrow> Some d \<in> set (ji_inputs (g_inst t j)) \<Longrightarrow>
      Some d \<in> set (ji_inputs (g_inst s j)) \<or> Some d \<in> set ?ins"
    and kept: "\<And>j d. j < g_insts_count s \<Longrightarrow> \<not> is_param s d \<Longrightarrow> Some d \<in> set (ji_inputs (g_inst s j)) \<Longrightarrow> Some d \<in> set (ji_inputs (g_inst t j))"
    by (elim conjE, blast)+
  note ops = same_ops_opcode [OF t(2)]
  have notps: "call \<notin> ?Y" "ret \<notin> ?Y" "j \<notin> ?Y" using call ret(1) user by (auto simp: is_param_def)
  have "Some call \<in> set (ji_inputs (g_inst t j))" using kept [OF user(1) _ user(4)] call(3) by (simp add: is_param_def)
  then have used: "ji_first_user (g_inst t call) \<noteq> None" using used_first_user [OF t(1) _ notps(3)] user(1) ops(2) by simp
  have more: "graph.more t = graph.more s" using run by (rule fix_params_more)
  have zt: "end_of t \<kappa> = Inr z" "bb_preds (g_bb t z) = [p]"
    using z(1,2) same_edgesD [OF t(6)] block_at_more [OF more] by (simp_all add: end_of_unfold)
  have last: "bb_last_inst (g_bb t p) = Some ret"
    by (rule return_stays_last [OF e(2) t(4,5) z(3)]) (simp add: is_param_def ret(1))
  obtain y where y: "ji_inputs (g_inst t ret) = [Some y]" "v y = v x"
  proof -
    have "map (map_option v) (ji_inputs (g_inst t ret)) = map (map_option v) (ji_inputs (g_inst s ret))"
      using t(3) call(4) by (simp add: same_view_def)
    then show ?thesis using that by (auto simp: ret(2) map_eq_Cons_conv)
  qed
  then have yin: "Some y \<in> set (ji_inputs (g_inst t ret))" by simp
  have ycall: "y \<noteq> call" using from_old [OF call(4) yin] noself by auto
  have "v call = v y" by (simp add: assms(5) y(2))
  moreover have "\<forall>i < g_insts_count t. Some ret \<notin> set (ji_inputs (g_inst t i))"
    using from_old unused call(1) ops(2) by (metis (no_types))
  ultimately have u: "same_view v t u" "same_ops t u" "ready (insert ret (insert call ?Y)) u"
    using single_return [OF t(1) zt last _ y(1) ycall _ notps(2) _ used _ assms(7)] ret(1) call(4) ops by auto
  have "same_view v s u" "same_ops s u"
    using same_view_trans [OF t(3) ops(2) u(1)] same_ops_trans [OF t(2) u(2)] by auto
  moreover have "insert ret (insert call ?Y) = X \<union> set ?ps \<union> {call, ret}" by auto
  ultimately show ?thesis using u(3) by simp
qed

subsection \<open>Control flow\<close>

text \<open>The edges that the blocks have, read from the successors and from the predecessors.\<close>

definition succ_edges :: "'g graph_scheme \<Rightarrow> (nat \<times> nat) set" where
  "succ_edges g = {(b, c). c \<in> set (bb_succs (g_bb g b))}"

definition pred_edges :: "'g graph_scheme \<Rightarrow> (nat \<times> nat) set" where
  "pred_edges g = {(b, c). b \<in> set (bb_preds (g_bb g c))}"

lemma SetSucc_edges:
  assumes "SetSucc b c g = Inr h"
  shows "succ_edges h = insert (b, c) (succ_edges g)" "pred_edges h = insert (b, c) (pred_edges g)" "graph.more h = graph.more g"
  using assms by (auto simp: SetSucc_def res_simps succ_edges_def pred_edges_def upd_bb_def split: if_splits)

text \<open>The vector of the target after the insertion.\<close>

lemma InsertInto_blocks:
  assumes "InsertInto \<kappa> \<tau> s = Inr t"
  defines "from \<equiv> go_offset (object s \<kappa>) - go_offset (object s \<tau>)" and "n \<equiv> length (go_blocks (object s \<kappa>))"
  shows "\<kappa> \<noteq> \<tau>" "object t \<kappa> = object s \<kappa>" "length (go_blocks (object t \<tau>)) = length (go_blocks (object s \<tau>))"
    "\<And>k. k < n \<Longrightarrow> from + k < length (go_blocks (object s \<tau>)) \<and> go_blocks (object s \<tau>) ! (from + k) = None \<and>
       go_blocks (object t \<tau>) ! (from + k) = go_blocks (object s \<kappa>) ! k \<and> go_blocks (object s \<kappa>) ! k \<noteq> None"
    "\<And>k. k < length (go_blocks (object s \<tau>)) \<Longrightarrow> k < from \<or> from + n \<le> k \<Longrightarrow> go_blocks (object t \<tau>) ! k = go_blocks (object s \<tau>) ! k"
    "g_bb t = g_bb s"
proof -
  let ?c = "go_blocks (object s \<kappa>)" and ?t = "go_blocks (object s \<tau>)"
  have g: "go_offset (object s \<tau>) < go_offset (object s \<kappa>)" "UpperBlockId s \<kappa> < UpperBlockId s \<tau>"
    "\<forall>b \<in> set ?c. b \<noteq> None" "\<forall>b \<in> set (take n (drop from ?t)). b = None"
    and t: "t = upd_object \<tau> (\<lambda>x. x\<lparr>go_blocks := take from (go_blocks x) @ ?c @ drop (from + n) (go_blocks x)\<rparr>) s"
    using assms(1) unfolding InsertInto_def Let_def guard_eq_Inr from_def n_def by auto
  have room: "from + n < length ?t" using g(1,2) by (simp add: UpperBlockId_def from_def n_def)
  show ne: "\<kappa> \<noteq> \<tau>" using g(1) by auto
  show "object t \<kappa> = object s \<kappa>" "g_bb t = g_bb s" using ne by (simp_all add: t upd_object_def)
  have v: "go_blocks (object t \<tau>) = take from ?t @ ?c @ drop (from + n) ?t" by (simp add: t upd_object_def)
  show "length (go_blocks (object t \<tau>)) = length ?t" using room by (simp add: v n_def)
  show "from + k < length ?t \<and> ?t ! (from + k) = None \<and> go_blocks (object t \<tau>) ! (from + k) = ?c ! k \<and> ?c ! k \<noteq> None"
    if "k < n" for k
  proof -
    have "?t ! (from + k) \<in> set (take n (drop from ?t))" using that room by (auto simp: in_set_conv_nth intro!: exI [of _ k])
    moreover have "?c ! k \<in> set ?c" using that by (simp add: n_def)
    ultimately show ?thesis using that room g(3,4) by (auto simp: v nth_append n_def)
  qed
  show "go_blocks (object t \<tau>) ! k = ?t ! k" if "k < length ?t" "k < from \<or> from + n \<le> k" for k
    using that room by (auto simp: v nth_append n_def [symmetric])
qed

text \<open>
  C22: \<open>FixCF\<close> connects the two graphs: the only new edges lead from the block of the call to the first
  block of the callee and from its last block to the continuation, read forwards and backwards, and the
  vector of the caller has every block of the callee at the place of its identifier, where there was
  none, and is otherwise as it was.
\<close>

theorem inlining_connects_the_callee:
  assumes "FixCF \<kappa> \<tau> b cont s = Inr t"
  shows "(\<exists>e z. block_at s \<kappa> 1 = Inr e \<and> block_at s \<kappa> 0 = Inr z \<and>
      succ_edges t = succ_edges s \<union> {(b, e), (z, cont)} \<and> pred_edges t = pred_edges s \<union> {(b, e), (z, cont)}) \<and>
    (let from = go_offset (object s \<kappa>) - go_offset (object s \<tau>); n = length (go_blocks (object s \<kappa>)) in
      \<forall>k < length (go_blocks (object s \<tau>)).
        if from \<le> k \<and> k < from + n
        then go_blocks (object s \<tau>) ! k = None \<and> go_blocks (object t \<tau>) ! k = go_blocks (object s \<kappa>) ! (k - from) \<and>
             go_blocks (object t \<tau>) ! k \<noteq> None
        else go_blocks (object t \<tau>) ! k = go_blocks (object s \<tau>) ! k)"
proof (rule conjI)
  from assms obtain s1 e s2 z where i: "InsertInto \<kappa> \<tau> s = Inr s1" and e: "entry_of s1 \<kappa> = Inr e" "SetSucc b e s1 = Inr s2"
    and z: "end_of s2 \<kappa> = Inr z" "SetSucc z cont s2 = Inr t" by (auto simp: FixCF_def res_simps)
  note v = InsertInto_blocks [OF i] and e' = SetSucc_edges [OF e(2)] and z' = SetSucc_edges [OF z(2)]
  have 1: "block_at s1 \<kappa> k = block_at s \<kappa> k" "block_at s2 \<kappa> k = block_at s1 \<kappa> k" for k
    using v(2) block_at_more [OF e'(3)] by (simp_all add: block_at_def)
  have "succ_edges s1 = succ_edges s" "pred_edges s1 = pred_edges s" by (simp_all add: succ_edges_def pred_edges_def v(6))
  then show "\<exists>e z. block_at s \<kappa> 1 = Inr e \<and> block_at s \<kappa> 0 = Inr z \<and>
      succ_edges t = succ_edges s \<union> {(b, e), (z, cont)} \<and> pred_edges t = pred_edges s \<union> {(b, e), (z, cont)}"
    using e(1) z(1) e'(1,2) z'(1,2) 1 by (intro exI [of _ e] exI [of _ z]) (auto simp: entry_of_unfold end_of_unfold)
  have "i_objects t = i_objects s1" using more_GRAPH [of t s2] more_GRAPH [of s2 s1] e'(3) z'(3) by simp
  then show "let from = go_offset (object s \<kappa>) - go_offset (object s \<tau>); n = length (go_blocks (object s \<kappa>)) in
      \<forall>k < length (go_blocks (object s \<tau>)).
        if from \<le> k \<and> k < from + n
        then go_blocks (object s \<tau>) ! k = None \<and> go_blocks (object t \<tau>) ! k = go_blocks (object s \<kappa>) ! (k - from) \<and>
             go_blocks (object t \<tau>) ! k \<noteq> None
        else go_blocks (object t \<tau>) ! k = go_blocks (object s \<tau>) ! k"
    using v(4,5) unfolding Let_def by (auto dest: le_Suc_ex)
qed

subsection \<open>A caller and a callee\<close>

text \<open>
  \<open>f(5)\<close> for a \<open>f\<close> that returns its parameter, after the block of the call has been split: the caller
  has the blocks 0, 1 and 4, the callee 2 and 3.
\<close>

definition inl_demo :: inl_state where
  "inl_demo =
     \<lparr>g_inst = (\<lambda>_. new_inst JCONST 0 INT64 5)
        (0 := (new_inst JCONST 0 INT64 5)\<lparr>ji_first_user := Some (1, 0), ji_bb := Some 1, ji_next := Some 1\<rparr>,
         1 := (new_inst JCALL 1 INT64 0)\<lparr>ji_first_user := Some (2, 0), ji_bb := Some 1, ji_prev := Some 0, ji_inputs := [Some 0]\<rparr>,
         2 := (new_inst JRETURN 1 INT64 0)\<lparr>ji_bb := Some 4, ji_inputs := [Some 1]\<rparr>,
         3 := (new_inst JPARAMETER 0 INT64 0)\<lparr>ji_first_user := Some (4, 0), ji_bb := Some 3, ji_next := Some 4\<rparr>,
         4 := (new_inst JRETURN 1 INT64 0)\<lparr>ji_bb := Some 3, ji_prev := Some 3, ji_inputs := [Some 3]\<rparr>),
      g_insts_count = 5,
      g_bb = (\<lambda>_. new_bb)
        (0 := new_bb\<lparr>bb_preds := [4]\<rparr>,
         1 := new_bb\<lparr>bb_first_inst := Some 0, bb_last_inst := Some 1\<rparr>,
         2 := new_bb\<lparr>bb_preds := [3]\<rparr>,
         3 := new_bb\<lparr>bb_first_inst := Some 3, bb_last_inst := Some 4, bb_succs := [2]\<rparr>,
         4 := new_bb\<lparr>bb_first_inst := Some 2, bb_last_inst := Some 2, bb_succs := [0]\<rparr>),
      g_bbs_count = 5,
      i_objects = (\<lambda>_. \<lparr>go_offset = 0, go_blocks = [Some 0, Some 1, None, None, Some 4], go_callee = Some 1\<rparr>)
        (1 := \<lparr>go_offset = 2, go_blocks = [Some 2, Some 3], go_callee = None\<rparr>),
      i_GRAPH = Some 0\<rparr>"

lemma inl_demo_low: "j < 5 \<Longrightarrow> j = 0 \<or> j = 1 \<or> j = 2 \<or> j = 3 \<or> j = 4" for j :: nat
  by auto

lemma inl_demo_parts:
  "g_insts_count inl_demo = 5" "i_GRAPH inl_demo = Some 0"
  "object inl_demo 0 = \<lparr>go_offset = 0, go_blocks = [Some 0, Some 1, None, None, Some 4], go_callee = Some 1\<rparr>"
  "ji_inputs (g_inst inl_demo 1) = [Some 0]" "ji_opcode (g_inst inl_demo 1) = JCALL"
  by (simp_all add: inl_demo_def new_inst_def)

lemma inl_demo_ready: "ready {} inl_demo"
proof -
  have slots: "slot_ok inl_demo (i, k) \<longleftrightarrow> (i = 1 \<or> i = 2 \<or> i = 4) \<and> k = 0" for i k
    by (auto simp: slot_ok_def inl_demo_def new_inst_def less_Suc_eq dest!: inl_demo_low)
  have ins: "input_at inl_demo (Suc 0, 0) = Some 0" "input_at inl_demo (2, 0) = Some 1" "input_at inl_demo (4, 0) = Some 3"
    by (simp_all add: input_at_def inl_demo_def new_inst_def)
  have "uses_ok (- {}) {u. fst u \<in> {}} inl_demo"
    unfolding uses_ok_def
  proof
    fix d :: nat
    let ?xs = "if d = 0 then [(1, 0)] else if d = 1 then [(2, 0)] else if d = 3 then [(4, 0)] else []"
    have "users_list inl_demo d ?xs"
      by (simp add: users_list_def slots) (simp add: inl_demo_def next_user_def new_inst_def)
    moreover have "u \<in> set ?xs \<longleftrightarrow> slot_ok inl_demo u \<and> u \<notin> {u. fst u \<in> {}} \<and> input_at inl_demo u = Some d" for u
      by (cases u) (auto simp: slots ins)
    ultimately show "\<exists>xs. users_list inl_demo d xs \<and>
        (\<forall>u. u \<in> set xs \<longleftrightarrow> slot_ok inl_demo u \<and> u \<notin> {u. fst u \<in> {}} \<and> input_at inl_demo u = Some d)" by blast
  qed
  moreover have "shaped inl_demo"
    by (auto simp: shaped_def inl_demo_def GetInputsCount_def new_inst_def IsFixed_def fixed_inputs_def dest!: inl_demo_low)
  moreover have "closed_code {} inl_demo"
    by (auto simp: closed_code_def inl_demo_def new_inst_def dest!: inl_demo_low)
  moreover have "loose {} inl_demo" by (auto simp: loose_def inl_demo_def new_inst_def)
  ultimately show ?thesis by (simp add: ready_def)
qed

lemma inl_demo_once: "returns_once inl_demo 1 3 [3, 4] 4 3"
  by (simp add: returns_once_def entry_of_def end_of_def block_at_def block_list_def inl_demo_def new_inst_def new_bb_def
      nx_def pv_def bb_of_def IsPhi_def)

lemma inl_demo_inlinable: "inlinable {} inl_demo 1 [3, 4] 4"
proof -
  have "\<forall>j < 5. Some 4 \<notin> set (ji_inputs (g_inst inl_demo j))" by (auto simp: inl_demo_def new_inst_def dest!: inl_demo_low)
  moreover have "\<not> is_param inl_demo 2 \<and> Some 1 \<in> set (ji_inputs (g_inst inl_demo 2))"
    by (simp add: is_param_def inl_demo_def new_inst_def)
  ultimately show ?thesis unfolding inlinable_def
    by (auto simp: is_param_def bb_of_def inl_demo_def new_inst_def intro!: exI [of _ 2])
qed

lemma inl_demo_run: "\<exists>t u. FixParametersDF 1 1 inl_demo = Inr t \<and> FixReturn 1 1 t = Inr u"
  by (simp add: inl_demo_def FixParametersDF_def FixReturn_def FixSingleReturn_def entry_of_def end_of_def block_at_def last_of_def
      Remove_def RemoveFromBB_def eval_graph Let_def)

theorem inlining_keeps_values_witness:
  "\<exists>t u. FixParametersDF 1 1 inl_demo = Inr t \<and> FixReturn 1 1 t = Inr u \<and>
     same_view (\<lambda>_. 5) inl_demo u \<and> ready {1, 3, 4} u"
proof -
  obtain t u where t: "FixParametersDF 1 1 inl_demo = Inr t" "FixReturn 1 1 t = Inr u" using inl_demo_run by blast
  have "passes (\<lambda>_. 5) 0 (ji_inputs (g_inst inl_demo 1)) (filter (is_param inl_demo) [3, 4])" by (simp add: passes_def)
  from inlining_keeps_values [OF inl_demo_ready inl_demo_once inl_demo_inlinable this refl t]
  have "same_view (\<lambda>_. 5) inl_demo u" "ready ({} \<union> set (filter (is_param inl_demo) [3, 4]) \<union> {1, 4}) u" by simp_all
  moreover have "{} \<union> set (filter (is_param inl_demo) [3, 4]) \<union> {1, 4} = {1, 3, 4}"
    by (auto simp: is_param_def inl_demo_def new_inst_def)
  ultimately show ?thesis using t by auto
qed

theorem inlining_connects_the_callee_witness:
  "\<exists>t. FixCF 1 0 1 4 inl_demo = Inr t \<and> {(1, 3), (2, 4)} \<subseteq> succ_edges t \<and> go_blocks (object t 0) ! 3 = Some 3"
proof -
  have "\<exists>t. FixCF 1 0 1 4 inl_demo = Inr t"
    by (simp add: inl_demo_def FixCF_def InsertInto_def UpperBlockId_def upd_object_def SetSucc_def entry_of_def end_of_def
        block_at_def upd_bb_def new_bb_def Let_def eval_nat_numeral)
  then obtain t where t: "FixCF 1 0 1 4 inl_demo = Inr t" ..
  have "block_at inl_demo 1 1 = Inr 3" "block_at inl_demo 1 0 = Inr 2" by (simp_all add: block_at_def inl_demo_def)
  then have "{(1, 3), (2, 4)} \<subseteq> succ_edges t" using conjunct1 [OF inlining_connects_the_callee [OF t]] by auto
  moreover have "go_blocks (object t 0) ! 3 = Some 3"
    using conjunct2 [OF inlining_connects_the_callee [OF t]] by (auto simp: inl_demo_def Let_def eval_nat_numeral)
  ultimately show ?thesis using t by blast
qed

lemma inl_demo_call: "has_call inl_demo 0"
  by (auto simp: has_call_def inl_demo_def new_inst_def new_bb_def GetInsts_def eval_nat_numeral)

theorem calls_in_a_callee_are_fatal_witness:
  "\<exists>e. ApplyInlining (\<lambda>_ _. True) 9 0 1 (inl_demo\<lparr>i_GRAPH := None\<rparr>) = Inl e"
proof -
  have "has_call (inl_demo\<lparr>i_GRAPH := None\<rparr>) 0" using inl_demo_call by (simp add: has_call_def GetInsts_def)
  then show ?thesis using calls_in_a_callee_are_fatal [of "inl_demo\<lparr>i_GRAPH := None\<rparr>" 0 1 "\<lambda>_ _. True" 9]
    by (simp add: inl_demo_parts INSTS_LIMIT_def DEPTH_LIMIT_def)
qed

theorem recursive_inlining_never_ends_witness:
  "ApplyInlining (\<lambda>_ _. True) 9 0 0 (upd_object 0 (\<lambda>x. x\<lparr>go_callee := Some 0\<rparr>) inl_demo) = Inl OutOfFuel"
proof -
  let ?s = "upd_object 0 (\<lambda>x. x\<lparr>go_callee := Some 0\<rparr>) inl_demo"
  have "has_call ?s 0" using inl_demo_call by (simp add: has_call_def GetInsts_def upd_object_def)
  then show ?thesis using recursive_inlining_never_ends [of ?s 0 0 "\<lambda>_ _. True" 9]
    by (simp add: upd_object_def inl_demo_parts INSTS_LIMIT_def DEPTH_LIMIT_def)
qed

end
