(* ===== verification/Jit_Dispatch.thy ===== *)
theory Jit_Dispatch
  imports Jit_Graph
begin

text \<open>
  The inputs of an instruction as the code reaches them: \<open>Inst::SetInput\<close>, \<open>GetInput\<close>,
  \<open>GetUserPointee\<close> and \<open>GetInputs\<close> switch on the opcode (gen/instructions.inl) and call the method of
  \<open>FixedInputsInst\<close>, of its specialisation for no inputs, or of \<open>VariadicInputsInst\<close>
  (instructions.h).  The passes are modelled with the operations of Jit_Graph, which look at the
  instruction only; the theorem says that these are what the switches compute.
\<close>

subsection \<open>The three base classes\<close>

definition write_input :: "bool \<Rightarrow> nat \<Rightarrow> nat \<Rightarrow> nat \<Rightarrow> 'g graph_scheme \<Rightarrow> 'g graph_scheme res" where
  "write_input upd i k inp g =
     rbind (if upd then (if ji_inputs (g_inst g i) ! k \<noteq> None then ReplaceUserWith (i, k) inp g else AppendUseOf (i, k) inp g)
            else Inr g) (\<lambda>g1.
       Inr (put_input i k inp g1))"

definition Fixed0_SetInput :: "bool \<Rightarrow> nat \<Rightarrow> nat \<Rightarrow> nat \<Rightarrow> 'g graph_scheme \<Rightarrow> 'g graph_scheme res" where
  "Fixed0_SetInput upd i k inp g = Inl (Fatal ''UNREACHABLE'')"

definition Fixed_SetInput :: "bool \<Rightarrow> nat \<Rightarrow> nat \<Rightarrow> nat \<Rightarrow> 'g graph_scheme \<Rightarrow> 'g graph_scheme res" where
  "Fixed_SetInput upd i k inp g =
     guard (k < fixed_inputs (ji_opcode (g_inst g i))) AssertFailed (write_input upd i k inp g)"

definition Variadic_SetInput :: "bool \<Rightarrow> nat \<Rightarrow> nat \<Rightarrow> nat \<Rightarrow> 'g graph_scheme \<Rightarrow> 'g graph_scheme res" where
  "Variadic_SetInput upd i k inp g =
     guard (k < length (ji_inputs (g_inst g i))) AssertFailed (write_input upd i k inp g)"

definition Fixed0_GetInput :: "nat \<Rightarrow> nat \<Rightarrow> 'g graph_scheme \<Rightarrow> nat option res" where
  "Fixed0_GetInput i k g = Inl (Fatal ''UNREACHABLE'')"

definition Fixed_GetInput :: "nat \<Rightarrow> nat \<Rightarrow> 'g graph_scheme \<Rightarrow> nat option res" where
  "Fixed_GetInput i k g = nth_res (ji_inputs (g_inst g i)) k"

definition Variadic_GetInput :: "nat \<Rightarrow> nat \<Rightarrow> 'g graph_scheme \<Rightarrow> nat option res" where
  "Variadic_GetInput i k g =
     guard (k < length (ji_inputs (g_inst g i))) AssertFailed (nth_res (ji_inputs (g_inst g i)) k)"

text \<open>The array of users has one element more than the inputs, the special last one.\<close>

definition Fixed0_GetUserPointee :: "nat \<Rightarrow> nat \<Rightarrow> 'g graph_scheme \<Rightarrow> slot res" where
  "Fixed0_GetUserPointee i k g = Inl (Fatal ''UNREACHABLE'')"

definition Fixed_GetUserPointee :: "nat \<Rightarrow> nat \<Rightarrow> 'g graph_scheme \<Rightarrow> slot res" where
  "Fixed_GetUserPointee i k g = guard (k \<le> length (ji_inputs (g_inst g i))) Undefined (Inr (i, k))"

definition Variadic_GetUserPointee :: "nat \<Rightarrow> nat \<Rightarrow> 'g graph_scheme \<Rightarrow> slot res" where
  "Variadic_GetUserPointee i k g = guard (k \<le> length (ji_inputs (g_inst g i))) Undefined (Inr (i, k))"

definition Fixed0_GetInputs :: "nat \<Rightarrow> 'g graph_scheme \<Rightarrow> nat option list res" where
  "Fixed0_GetInputs i g = Inr []"

definition Fixed_GetInputs :: "nat \<Rightarrow> 'g graph_scheme \<Rightarrow> nat option list res" where
  "Fixed_GetInputs i g = Inr (ji_inputs (g_inst g i))"

definition Variadic_GetInputs :: "nat \<Rightarrow> 'g graph_scheme \<Rightarrow> nat option list res" where
  "Variadic_GetInputs i g = Inr (ji_inputs (g_inst g i))"

subsection \<open>The switches\<close>

definition Inst_SetInput :: "bool \<Rightarrow> nat \<Rightarrow> nat \<Rightarrow> nat \<Rightarrow> 'g graph_scheme \<Rightarrow> 'g graph_scheme res" where
  "Inst_SetInput upd i k inp g =
     (case ji_opcode (g_inst g i) of
        JNONE \<Rightarrow> Inl (Fatal ''UNREACHABLE'')
      | JCONST \<Rightarrow> Fixed0_SetInput upd i k inp g
      | JPARAMETER \<Rightarrow> Fixed0_SetInput upd i k inp g
      | JCAST \<Rightarrow> Fixed_SetInput upd i k inp g
      | JCALL \<Rightarrow> Variadic_SetInput upd i k inp g
      | JRETURN \<Rightarrow> Fixed_SetInput upd i k inp g
      | JRETURNVOID \<Rightarrow> Fixed0_SetInput upd i k inp g
      | JCHECKNULL \<Rightarrow> Fixed_SetInput upd i k inp g
      | JCHECKBOUNDS \<Rightarrow> Fixed_SetInput upd i k inp g
      | JGETELEM \<Rightarrow> Fixed_SetInput upd i k inp g
      | JADD \<Rightarrow> Fixed_SetInput upd i k inp g
      | JSUB \<Rightarrow> Fixed_SetInput upd i k inp g
      | JMUL \<Rightarrow> Fixed_SetInput upd i k inp g
      | JNEG \<Rightarrow> Fixed_SetInput upd i k inp g
      | JNOT \<Rightarrow> Fixed_SetInput upd i k inp g
      | JXOR \<Rightarrow> Fixed_SetInput upd i k inp g
      | JASHR \<Rightarrow> Fixed_SetInput upd i k inp g
      | JSHL \<Rightarrow> Fixed_SetInput upd i k inp g
      | JPHI \<Rightarrow> Variadic_SetInput upd i k inp g
      | JJMP \<Rightarrow> Fixed_SetInput upd i k inp g)"

definition Inst_GetInput :: "nat \<Rightarrow> nat \<Rightarrow> 'g graph_scheme \<Rightarrow> nat option res" where
  "Inst_GetInput i k g =
     (case ji_opcode (g_inst g i) of
        JNONE \<Rightarrow> Inl (Fatal ''UNREACHABLE'')
      | JCONST \<Rightarrow> Fixed0_GetInput i k g
      | JPARAMETER \<Rightarrow> Fixed0_GetInput i k g
      | JCAST \<Rightarrow> Fixed_GetInput i k g
      | JCALL \<Rightarrow> Variadic_GetInput i k g
      | JRETURN \<Rightarrow> Fixed_GetInput i k g
      | JRETURNVOID \<Rightarrow> Fixed0_GetInput i k g
      | JCHECKNULL \<Rightarrow> Fixed_GetInput i k g
      | JCHECKBOUNDS \<Rightarrow> Fixed_GetInput i k g
      | JGETELEM \<Rightarrow> Fixed_GetInput i k g
      | JADD \<Rightarrow> Fixed_GetInput i k g
      | JSUB \<Rightarrow> Fixed_GetInput i k g
      | JMUL \<Rightarrow> Fixed_GetInput i k g
      | JNEG \<Rightarrow> Fixed_GetInput i k g
      | JNOT \<Rightarrow> Fixed_GetInput i k g
      | JXOR \<Rightarrow> Fixed_GetInput i k g
      | JASHR \<Rightarrow> Fixed_GetInput i k g
      | JSHL \<Rightarrow> Fixed_GetInput i k g
      | JPHI \<Rightarrow> Variadic_GetInput i k g
      | JJMP \<Rightarrow> Fixed_GetInput i k g)"

definition Inst_GetUserPointee :: "nat \<Rightarrow> nat \<Rightarrow> 'g graph_scheme \<Rightarrow> slot res" where
  "Inst_GetUserPointee i k g =
     (case ji_opcode (g_inst g i) of
        JNONE \<Rightarrow> Inl (Fatal ''UNREACHABLE'')
      | JCONST \<Rightarrow> Fixed0_GetUserPointee i k g
      | JPARAMETER \<Rightarrow> Fixed0_GetUserPointee i k g
      | JCAST \<Rightarrow> Fixed_GetUserPointee i k g
      | JCALL \<Rightarrow> Variadic_GetUserPointee i k g
      | JRETURN \<Rightarrow> Fixed_GetUserPointee i k g
      | JRETURNVOID \<Rightarrow> Fixed0_GetUserPointee i k g
      | JCHECKNULL \<Rightarrow> Fixed_GetUserPointee i k g
      | JCHECKBOUNDS \<Rightarrow> Fixed_GetUserPointee i k g
      | JGETELEM \<Rightarrow> Fixed_GetUserPointee i k g
      | JADD \<Rightarrow> Fixed_GetUserPointee i k g
      | JSUB \<Rightarrow> Fixed_GetUserPointee i k g
      | JMUL \<Rightarrow> Fixed_GetUserPointee i k g
      | JNEG \<Rightarrow> Fixed_GetUserPointee i k g
      | JNOT \<Rightarrow> Fixed_GetUserPointee i k g
      | JXOR \<Rightarrow> Fixed_GetUserPointee i k g
      | JASHR \<Rightarrow> Fixed_GetUserPointee i k g
      | JSHL \<Rightarrow> Fixed_GetUserPointee i k g
      | JPHI \<Rightarrow> Variadic_GetUserPointee i k g
      | JJMP \<Rightarrow> Fixed_GetUserPointee i k g)"

definition Inst_GetInputs :: "nat \<Rightarrow> 'g graph_scheme \<Rightarrow> nat option list res" where
  "Inst_GetInputs i g =
     (case ji_opcode (g_inst g i) of
        JNONE \<Rightarrow> Inl (Fatal ''UNREACHABLE'')
      | JCONST \<Rightarrow> Fixed0_GetInputs i g
      | JPARAMETER \<Rightarrow> Fixed0_GetInputs i g
      | JCAST \<Rightarrow> Fixed_GetInputs i g
      | JCALL \<Rightarrow> Variadic_GetInputs i g
      | JRETURN \<Rightarrow> Fixed_GetInputs i g
      | JRETURNVOID \<Rightarrow> Fixed0_GetInputs i g
      | JCHECKNULL \<Rightarrow> Fixed_GetInputs i g
      | JCHECKBOUNDS \<Rightarrow> Fixed_GetInputs i g
      | JGETELEM \<Rightarrow> Fixed_GetInputs i g
      | JADD \<Rightarrow> Fixed_GetInputs i g
      | JSUB \<Rightarrow> Fixed_GetInputs i g
      | JMUL \<Rightarrow> Fixed_GetInputs i g
      | JNEG \<Rightarrow> Fixed_GetInputs i g
      | JNOT \<Rightarrow> Fixed_GetInputs i g
      | JXOR \<Rightarrow> Fixed_GetInputs i g
      | JASHR \<Rightarrow> Fixed_GetInputs i g
      | JSHL \<Rightarrow> Fixed_GetInputs i g
      | JPHI \<Rightarrow> Variadic_GetInputs i g
      | JJMP \<Rightarrow> Fixed_GetInputs i g)"

subsection \<open>They are the operations of the graph\<close>

lemmas input_methods =
  Fixed0_SetInput_def Fixed_SetInput_def Variadic_SetInput_def Fixed0_GetInput_def Fixed_GetInput_def Variadic_GetInput_def
  Fixed0_GetUserPointee_def Fixed_GetUserPointee_def Variadic_GetUserPointee_def Fixed0_GetInputs_def Fixed_GetInputs_def
  Variadic_GetInputs_def

definition class_of :: "jopcode \<Rightarrow> nat" where
  "class_of c = (if \<not> IsFixed c then 2 else if fixed_inputs c = 0 then 0 else 1)"

text \<open>Each switch, by the base class of the instruction.\<close>

lemma switches:
  assumes "ji_opcode (g_inst g i) \<noteq> JNONE"
  defines "c \<equiv> class_of (ji_opcode (g_inst g i))"
  shows "Inst_SetInput upd i k inp g =
           (if c = 0 then Fixed0_SetInput upd i k inp g else if c = 1 then Fixed_SetInput upd i k inp g else Variadic_SetInput upd i k inp g)"
    and "Inst_GetInput i k g =
           (if c = 0 then Fixed0_GetInput i k g else if c = 1 then Fixed_GetInput i k g else Variadic_GetInput i k g)"
    and "Inst_GetUserPointee i k g =
           (if c = 0 then Fixed0_GetUserPointee i k g else if c = 1 then Fixed_GetUserPointee i k g else Variadic_GetUserPointee i k g)"
    and "Inst_GetInputs i g =
           (if c = 0 then Fixed0_GetInputs i g else if c = 1 then Fixed_GetInputs i g else Variadic_GetInputs i g)"
  using assms(1) unfolding c_def Inst_SetInput_def Inst_GetInput_def Inst_GetUserPointee_def Inst_GetInputs_def class_of_def
  by (cases "ji_opcode (g_inst g i)"; simp add: IsFixed_def fixed_inputs_def)+

text \<open>
  The switches over the opcode implement the operations the passes are modelled with: for an
  instruction whose number of inputs is that of its opcode, \<open>Inst::SetInput\<close> updates the users and
  the input exactly as \<open>SetInput\<close> of the graph model does, with the same error for every index
  outside, without the update of users it is what \<open>User::SetInput\<close> does to the input, and
  \<open>Inst::GetInput\<close>, \<open>GetInputs\<close> and \<open>GetUserPointee\<close> give the inputs and the slot.
\<close>

theorem switches_are_graph_operations:
  assumes c: "ji_opcode (g_inst g i) \<noteq> JNONE" and n: "length (ji_inputs (g_inst g i)) = GetInputsCount g i"
  shows "Inst_SetInput True i k inp g = SetInput i k inp g \<and>
    User_SetInput (i, k) inp g =
      rbind (Inst_GetInput i k g) (\<lambda>old. guard (old \<noteq> Some i) AssertFailed (Inst_SetInput False i k inp g)) \<and>
    Inst_GetInput i k g = GetInput i k g \<and>
    Inst_GetInputs i g = Inr (ji_inputs (g_inst g i)) \<and>
    (k < GetInputsCount g i \<longrightarrow> Inst_GetUserPointee i k g = Inr (i, k))"
proof -
  note sw = switches [OF c] class_of_def input_methods write_input_def
  have none: "ji_inputs (g_inst g i) = []" if "IsFixed (ji_opcode (g_inst g i))" "fixed_inputs (ji_opcode (g_inst g i)) = 0"
    using n that by (simp add: GetInputsCount_def)
  have some: "ji_inputs (g_inst g i) \<noteq> []" if "IsFixed (ji_opcode (g_inst g i))" "fixed_inputs (ji_opcode (g_inst g i)) \<noteq> 0"
    using n that by (auto simp: GetInputsCount_def)
  have "Inst_SetInput True i k inp g = SetInput i k inp g"
    using n none some by (auto simp: sw SetInput_def GetInputsCount_def guard_def Let_def split: if_splits)
  moreover have get: "Inst_GetInput i k g = GetInput i k g"
    using none some by (auto simp: sw GetInput_def input_error_def guard_def nth_res_def)
  moreover have "User_SetInput (i, k) inp g =
      rbind (Inst_GetInput i k g) (\<lambda>old. guard (old \<noteq> Some i) AssertFailed (Inst_SetInput False i k inp g))"
    unfolding get using n none
    by (auto simp: sw User_SetInput_def GetInput_def GetInputsCount_def guard_def split: if_splits)
  moreover have "Inst_GetInputs i g = Inr (ji_inputs (g_inst g i))"
    using none by (simp add: sw)
  moreover have "Inst_GetUserPointee i k g = Inr (i, k)" if "k < GetInputsCount g i"
    using that n none by (auto simp: sw)
  ultimately show ?thesis by blast
qed

text \<open>An addition whose second input is not set yet.\<close>

definition half_add :: graph where
  "half_add =
     \<lparr>g_inst = (\<lambda>_. new_inst JCONST 0 INT64 7)
        (1 := (new_inst JADD 2 UNKNOWN 0)\<lparr>ji_inputs := [Some 0, None]\<rparr>),
      g_insts_count = 3, g_bb = (\<lambda>_. new_bb), g_bbs_count = 2\<rparr>"

lemma switches_are_graph_operations_witness:
  "Inst_SetInput True 1 1 2 half_add = SetInput 1 1 2 half_add \<and>
   Inst_GetInput 1 0 half_add = Inr (Some 0) \<and> Inst_GetInput 1 5 half_add = Inl Undefined \<and>
   Inst_GetUserPointee 1 1 half_add = Inr (1, 1)"
proof -
  have c: "ji_opcode (g_inst half_add 1) \<noteq> JNONE" and n: "length (ji_inputs (g_inst half_add 1)) = GetInputsCount half_add 1"
    and k: "1 < GetInputsCount half_add 1" and "GetInput 1 0 half_add = Inr (Some 0)" "GetInput 1 5 half_add = Inl Undefined"
    by code_simp+
  then show ?thesis
    using switches_are_graph_operations [OF c n, of 1 2] switches_are_graph_operations [OF c n, of 0]
      switches_are_graph_operations [OF c n, of 5] by (simp del: One_nat_def)
qed

end
