(* ===== verification/Jit_Text.thy ===== *)
theory Jit_Text
  imports Jit_Graph
begin

text \<open>
  The part of \<open>std::ostream\<close> that the printing functions of the graph use (jit/ir/graph/): the text
  written so far and the two formatting fields they change, the width and the adjustment.  Every
  output of a string, a character or a number is padded to the width and resets it, as the standard
  says of \<open>operator<<\<close>; \<open>copyfmt\<close> copies the fields.  Numbers are printed in decimal.  The second
  half reads such a text back, for the round trip of Jit_Dump.
\<close>

subsection \<open>Streams\<close>

record ostream =
  os_out :: string
  os_width :: nat
  os_left :: bool

definition pad :: "nat \<Rightarrow> bool \<Rightarrow> string \<Rightarrow> string" where
  "pad w l t = (if l then t @ replicate (w - length t) CHR '' '' else replicate (w - length t) CHR '' '' @ t)"

definition put :: "string \<Rightarrow> ostream \<Rightarrow> ostream" where
  "put t s = s\<lparr>os_out := os_out s @ pad (os_width s) (os_left s) t, os_width := 0\<rparr>"

definition setw :: "nat \<Rightarrow> ostream \<Rightarrow> ostream" where
  "setw n s = s\<lparr>os_width := n\<rparr>"

definition left_adjust :: "ostream \<Rightarrow> ostream" where
  "left_adjust s = s\<lparr>os_left := True\<rparr>"

definition right_adjust :: "ostream \<Rightarrow> ostream" where
  "right_adjust s = s\<lparr>os_left := False\<rparr>"

definition copyfmt :: "ostream \<Rightarrow> ostream \<Rightarrow> ostream" where
  "copyfmt src s = s\<lparr>os_width := os_width src, os_left := os_left src\<rparr>"

definition newline :: char where
  "newline = CHR 0x0A"

definition digit :: "nat \<Rightarrow> char" where
  "digit d = char_of (48 + d)"

fun digits :: "nat \<Rightarrow> string" where
  "digits n = (if n < 10 then [digit n] else digits (n div 10) @ [digit (n mod 10)])"

declare digits.simps [simp del]

definition puts :: "string list \<Rightarrow> ostream \<Rightarrow> ostream" where
  "puts ts s = fold put ts s"

text \<open>What is written at width 0 is appended as it is.\<close>

definition appended :: "string \<Rightarrow> ostream \<Rightarrow> ostream" where
  "appended t s = s\<lparr>os_out := os_out s @ t\<rparr>"

named_theorems text_simps "writing to a stream of width 0"

lemma pad_0 [simp]: "pad 0 l t = t"
  by (simp add: pad_def)

lemma put_appended [text_simps]: "os_width s = 0 \<Longrightarrow> put t s = appended t s"
  by (simp add: put_def appended_def)

lemma appended_fields [simp]:
  "os_width (appended t s) = os_width s" "os_left (appended t s) = os_left s"
  "os_out (appended t s) = os_out s @ t"
  by (simp_all add: appended_def)

lemma appended_appended [simp]: "appended u (appended t s) = appended (t @ u) s"
  by (simp add: appended_def)

lemma appended_Nil [simp]: "appended [] s = s"
  by (simp add: appended_def)

lemma put_width [simp]: "os_width (put t s) = 0" "os_left (put t s) = os_left s"
  by (simp_all add: put_def)

lemma put_setw [text_simps]: "put t (setw w s) = appended (pad w (os_left s) t) (s\<lparr>os_width := 0\<rparr>)"
  by (simp add: put_def setw_def appended_def)

lemma puts_simps [simp]: "puts [] s = s" "puts (t # ts) s = puts ts (put t s)"
  by (simp_all add: puts_def)

lemma puts_appended [text_simps]: "os_width s = 0 \<Longrightarrow> puts ts s = appended (concat ts) s"
  by (induction ts arbitrary: s) (simp_all add: text_simps)

subsection \<open>Reading a number\<close>

definition is_digit :: "char \<Rightarrow> bool" where
  "is_digit c \<longleftrightarrow> 48 \<le> (of_char c :: nat) \<and> (of_char c :: nat) < 58"

fun number :: "nat \<Rightarrow> string \<Rightarrow> nat" where
  "number a [] = a"
| "number a (c # cs) = (if is_digit c then number (10 * a + (of_char c - 48)) cs else a)"

lemma of_char_digit: "d < 10 \<Longrightarrow> of_char (digit d) = 48 + d"
  by (simp add: digit_def)

lemma is_digit_digit: "d < 10 \<Longrightarrow> is_digit (digit d)"
  by (simp add: is_digit_def of_char_digit)

lemma digits_are_digits: "c \<in> set (digits n) \<Longrightarrow> is_digit c"
proof (induction n rule: digits.induct)
  case (1 n)
  then show ?case
    by (subst (asm) (2) digits.simps) (auto simp: is_digit_digit split: if_splits)
qed

lemma number_digits_run: "number a (digits n @ cs) = number (a * 10 ^ length (digits n) + n) cs"
proof (induction n arbitrary: a cs rule: digits.induct)
  case (1 n)
  show ?case
  proof (cases "n < 10")
    case True
    then show ?thesis by (simp add: digits.simps [of n] is_digit_digit of_char_digit mult.commute)
  next
    case False
    have "number a (digits n @ cs) = number a (digits (n div 10) @ digit (n mod 10) # cs)"
      using False by (simp add: digits.simps [of n])
    also have "\<dots> = number (10 * (a * 10 ^ length (digits (n div 10)) + n div 10) + n mod 10) cs"
      using 1 [OF False] by (simp add: is_digit_digit of_char_digit)
    also have "10 * (a * 10 ^ length (digits (n div 10)) + n div 10) + n mod 10 = a * 10 ^ length (digits n) + n"
      using False by (simp add: digits.simps [of n] algebra_simps)
    finally show ?thesis .
  qed
qed

lemma number_digits: "cs = [] \<or> \<not> is_digit (hd cs) \<Longrightarrow> number 0 (digits n @ cs) = n"
  using number_digits_run [of 0 n cs] by (cases cs) auto

lemma digits_inject: "digits m = digits n \<Longrightarrow> m = n"
  using number_digits [of "[]" m] number_digits [of "[]" n] by simp

lemma digits_not_Nil [simp]: "digits n \<noteq> []"
  by (simp add: digits.simps [of n])

subsection \<open>Finding things in a text\<close>

fun after :: "char \<Rightarrow> string \<Rightarrow> string" where
  "after c [] = []"
| "after c (x # xs) = (if x = c then xs else after c xs)"

text \<open>The letters v and b with the numbers that follow them.\<close>

fun tagged :: "string \<Rightarrow> (char \<times> nat) list" where
  "tagged [] = []"
| "tagged (c # cs) = (if c = CHR ''v'' \<or> c = CHR ''b'' then (c, number 0 cs) # tagged cs else tagged cs)"

lemma after_append: "c \<notin> set xs \<Longrightarrow> after c (xs @ c # ys) = ys"
  by (induction xs) auto

lemma tagged_skip: "CHR ''v'' \<notin> set xs \<Longrightarrow> CHR ''b'' \<notin> set xs \<Longrightarrow> tagged (xs @ ys) = tagged ys"
  by (induction xs) auto

lemma digits_have_no: "\<not> is_digit c \<Longrightarrow> c \<notin> set (digits n)"
  using digits_are_digits by blast

lemma tagged_digits:
  "cs = [] \<or> \<not> is_digit (hd cs) \<Longrightarrow> c = CHR ''v'' \<or> c = CHR ''b'' \<Longrightarrow> tagged (c # digits n @ cs) = (c, n) # tagged cs"
  by (simp add: number_digits tagged_skip digits_have_no is_digit_def)

end
