(* ===== verification/Jit_Dump.thy ===== *)
theory Jit_Dump
  imports Jit_Text
begin

text \<open>
  Printing instructions: the mixins and the three \<open>DumpDF\<close> of jit/ir/graph/instructions.h, the
  \<open>Dump\<close> of every class and the dispatcher \<open>Inst::Dump\<close> of gen/instructions.inl.  The condition of a
  jump is the only field the instructions of Jit_Graph do not have (no analysis reads it), so it is
  an argument: \<open>cs i\<close> for the instruction \<open>i\<close>.  \<open>Id()\<close> counts the instructions from 1, in 32 bits.
  The round trip says that the text of an instruction determines what was printed.
\<close>

subsection \<open>Mixins\<close>

datatype jcond = EQ | NE | GT | GE

definition Type_ToString :: "jtype \<Rightarrow> string res" where
  "Type_ToString t =
     (case t of FLOAT64 \<Rightarrow> Inr ''FLOAT64'' | INT64 \<Rightarrow> Inr ''INT64'' | UINT64 \<Rightarrow> Inr ''UINT64''
              | ARRAY \<Rightarrow> Inr ''ARRAY'' | _ \<Rightarrow> Inl (Fatal ''UNREACHABLE''))"

definition TypedMixin_Dump :: "jtype \<Rightarrow> ostream \<Rightarrow> ostream res" where
  "TypedMixin_Dump t s = rbind (Type_ToString t) (\<lambda>n. Inr (put n (put ''Type::'' s)))"

definition ImplicitlyTypedMixin_Dump :: "ostream \<Rightarrow> ostream res" where
  "ImplicitlyTypedMixin_Dump s = Inr s"

definition ImmediateMixin_Dump :: "u64 \<Rightarrow> ostream \<Rightarrow> ostream res" where
  "ImmediateMixin_Dump n s = Inr (put (digits (unat n)) s)"

definition Cond_ToString :: "jcond \<Rightarrow> string" where
  "Cond_ToString c = (case c of EQ \<Rightarrow> ''EQ'' | NE \<Rightarrow> ''NE'' | GT \<Rightarrow> ''GT'' | GE \<Rightarrow> ''GE'')"

definition ConditionalMixin_Dump :: "jcond \<Rightarrow> ostream \<Rightarrow> ostream res" where
  "ConditionalMixin_Dump c s = Inr (put (Cond_ToString c) (put ''If::'' s))"

subsection \<open>Inputs\<close>

definition Inst_Id :: "nat \<Rightarrow> u32" where
  "Inst_Id i = of_nat (Suc i)"

definition id_text :: "nat \<Rightarrow> string" where
  "id_text i = digits (unat (Inst_Id i))"

definition GetBBId :: "nat \<Rightarrow> 'g graph_scheme \<Rightarrow> nat res" where
  "GetBBId i g = deref (ji_bb (g_inst g i)) Inr"

text \<open>One input: the block it is in, when that is another one, and its identifier.\<close>

definition dump_input :: "nat \<Rightarrow> 'g graph_scheme \<Rightarrow> nat option \<Rightarrow> ostream \<Rightarrow> ostream res" where
  "dump_input i g p s =
     rbind (of_opt AssertFailed p) (\<lambda>x.
       rbind (if ji_bb (g_inst g i) = ji_bb (g_inst g x) then Inr []
              else rbind (GetBBId x g) (\<lambda>b. Inr (''b'' @ digits b @ ''.''))) (\<lambda>pre.
         Inr (puts [pre, ''v'', id_text x] s)))"

definition dump_inputs :: "nat \<Rightarrow> 'g graph_scheme \<Rightarrow> ostream \<Rightarrow> ostream res" where
  "dump_inputs i g s =
     (case ji_inputs (g_inst g i) of
        [] \<Rightarrow> Inl Undefined
      | p # ps \<Rightarrow>
          rbind (dump_input i g p (put ''{ '' s)) (\<lambda>s1.
            rbind (fold_res (\<lambda>q t. dump_input i g q (put '', '' t)) ps s1) (\<lambda>s2. Inr (put '' }'' s2))))"

definition Fixed0_DumpDF :: "nat \<Rightarrow> 'g graph_scheme \<Rightarrow> ostream \<Rightarrow> ostream res" where
  "Fixed0_DumpDF i g s = Inr s"

definition Fixed_DumpDF :: "nat \<Rightarrow> 'g graph_scheme \<Rightarrow> ostream \<Rightarrow> ostream res" where
  "Fixed_DumpDF i g s = dump_inputs i g s"

text \<open>A variadic instruction may have no input; the code reads the first one all the same.\<close>

definition Variadic_DumpDF :: "nat \<Rightarrow> 'g graph_scheme \<Rightarrow> ostream \<Rightarrow> ostream res" where
  "Variadic_DumpDF i g s = dump_inputs i g s"

subsection \<open>The classes\<close>

text \<open>The body shared by the classes: name, what the mixins print, identifier, inputs, life number.\<close>

definition dump_class ::
    "string \<Rightarrow> (ostream \<Rightarrow> ostream res) \<Rightarrow> (nat \<Rightarrow> 'g graph_scheme \<Rightarrow> ostream \<Rightarrow> ostream res) \<Rightarrow>
     nat \<Rightarrow> 'g graph_scheme \<Rightarrow> ostream \<Rightarrow> ostream res" where
  "dump_class name mixins df i g s =
     rbind (mixins (put ''('' (setw 0 (put name (left_adjust (setw 20 (put ''        '' s))))))) (\<lambda>s1.
       rbind (df i g (setw 0 (put (id_text i) (put '' v'' (right_adjust (setw 15 (put '')'' s1))))))) (\<lambda>s2.
         Inr (puts ['';  // LN = '', digits (unat (ji_ln (g_inst g i))), [newline]] (copyfmt s s2))))"

definition ConstInst_Dump :: "nat \<Rightarrow> 'g graph_scheme \<Rightarrow> ostream \<Rightarrow> ostream res" where
  "ConstInst_Dump i g =
     dump_class ''CONST'' (\<lambda>s. rbind (TypedMixin_Dump (ji_type (g_inst g i)) s) (\<lambda>t.
         ImmediateMixin_Dump (ji_imm (g_inst g i)) (put '', '' t))) Fixed0_DumpDF i g"

definition ParameterInst_Dump :: "nat \<Rightarrow> 'g graph_scheme \<Rightarrow> ostream \<Rightarrow> ostream res" where
  "ParameterInst_Dump i g =
     dump_class ''PARAMETER'' (TypedMixin_Dump (ji_type (g_inst g i))) Fixed0_DumpDF i g"

definition CastInst_Dump :: "nat \<Rightarrow> 'g graph_scheme \<Rightarrow> ostream \<Rightarrow> ostream res" where
  "CastInst_Dump i g =
     dump_class ''CAST'' (TypedMixin_Dump (ji_type (g_inst g i))) Fixed_DumpDF i g"

definition CallInst_Dump :: "nat \<Rightarrow> 'g graph_scheme \<Rightarrow> ostream \<Rightarrow> ostream res" where
  "CallInst_Dump i g =
     dump_class ''CALL'' ImplicitlyTypedMixin_Dump Variadic_DumpDF i g"

definition ReturnInst_Dump :: "nat \<Rightarrow> 'g graph_scheme \<Rightarrow> ostream \<Rightarrow> ostream res" where
  "ReturnInst_Dump i g =
     dump_class ''RETURN'' (TypedMixin_Dump (ji_type (g_inst g i))) Fixed_DumpDF i g"

definition ReturnVoidInst_Dump :: "nat \<Rightarrow> 'g graph_scheme \<Rightarrow> ostream \<Rightarrow> ostream res" where
  "ReturnVoidInst_Dump i g =
     dump_class ''RETURNVOID'' Inr Fixed0_DumpDF i g"

definition CheckNullInst_Dump :: "nat \<Rightarrow> 'g graph_scheme \<Rightarrow> ostream \<Rightarrow> ostream res" where
  "CheckNullInst_Dump i g =
     dump_class ''CHECKNULL'' ImplicitlyTypedMixin_Dump Fixed_DumpDF i g"

definition CheckBoundsInst_Dump :: "nat \<Rightarrow> 'g graph_scheme \<Rightarrow> ostream \<Rightarrow> ostream res" where
  "CheckBoundsInst_Dump i g =
     dump_class ''CHECKBOUNDS'' ImplicitlyTypedMixin_Dump Fixed_DumpDF i g"

definition GetElemInst_Dump :: "nat \<Rightarrow> 'g graph_scheme \<Rightarrow> ostream \<Rightarrow> ostream res" where
  "GetElemInst_Dump i g =
     dump_class ''GETELEM'' (TypedMixin_Dump (ji_type (g_inst g i))) Fixed_DumpDF i g"

definition AddInst_Dump :: "nat \<Rightarrow> 'g graph_scheme \<Rightarrow> ostream \<Rightarrow> ostream res" where
  "AddInst_Dump i g =
     dump_class ''ADD'' ImplicitlyTypedMixin_Dump Fixed_DumpDF i g"

definition SubInst_Dump :: "nat \<Rightarrow> 'g graph_scheme \<Rightarrow> ostream \<Rightarrow> ostream res" where
  "SubInst_Dump i g =
     dump_class ''SUB'' ImplicitlyTypedMixin_Dump Fixed_DumpDF i g"

definition MulInst_Dump :: "nat \<Rightarrow> 'g graph_scheme \<Rightarrow> ostream \<Rightarrow> ostream res" where
  "MulInst_Dump i g =
     dump_class ''MUL'' ImplicitlyTypedMixin_Dump Fixed_DumpDF i g"

definition NegInst_Dump :: "nat \<Rightarrow> 'g graph_scheme \<Rightarrow> ostream \<Rightarrow> ostream res" where
  "NegInst_Dump i g =
     dump_class ''NEG'' ImplicitlyTypedMixin_Dump Fixed_DumpDF i g"

definition NotInst_Dump :: "nat \<Rightarrow> 'g graph_scheme \<Rightarrow> ostream \<Rightarrow> ostream res" where
  "NotInst_Dump i g =
     dump_class ''NOT'' ImplicitlyTypedMixin_Dump Fixed_DumpDF i g"

definition XorInst_Dump :: "nat \<Rightarrow> 'g graph_scheme \<Rightarrow> ostream \<Rightarrow> ostream res" where
  "XorInst_Dump i g =
     dump_class ''XOR'' ImplicitlyTypedMixin_Dump Fixed_DumpDF i g"

definition AshrInst_Dump :: "nat \<Rightarrow> 'g graph_scheme \<Rightarrow> ostream \<Rightarrow> ostream res" where
  "AshrInst_Dump i g =
     dump_class ''ASHR'' ImplicitlyTypedMixin_Dump Fixed_DumpDF i g"

definition ShlInst_Dump :: "nat \<Rightarrow> 'g graph_scheme \<Rightarrow> ostream \<Rightarrow> ostream res" where
  "ShlInst_Dump i g =
     dump_class ''SHL'' ImplicitlyTypedMixin_Dump Fixed_DumpDF i g"

definition PhiInst_Dump :: "nat \<Rightarrow> 'g graph_scheme \<Rightarrow> ostream \<Rightarrow> ostream res" where
  "PhiInst_Dump i g =
     dump_class ''PHI'' ImplicitlyTypedMixin_Dump Variadic_DumpDF i g"

definition JmpInst_Dump :: "jcond \<Rightarrow> nat \<Rightarrow> 'g graph_scheme \<Rightarrow> ostream \<Rightarrow> ostream res" where
  "JmpInst_Dump c i g =
     dump_class ''JMP'' (ConditionalMixin_Dump c) Fixed_DumpDF i g"

definition Inst_Dump :: "(nat \<Rightarrow> jcond) \<Rightarrow> nat \<Rightarrow> 'g graph_scheme \<Rightarrow> ostream \<Rightarrow> ostream res" where
  "Inst_Dump cs i g s =
     (case ji_opcode (g_inst g i) of
        JNONE \<Rightarrow> Inl (Fatal ''UNREACHABLE'')
      | JCONST \<Rightarrow> ConstInst_Dump i g s
      | JPARAMETER \<Rightarrow> ParameterInst_Dump i g s
      | JCAST \<Rightarrow> CastInst_Dump i g s
      | JCALL \<Rightarrow> CallInst_Dump i g s
      | JRETURN \<Rightarrow> ReturnInst_Dump i g s
      | JRETURNVOID \<Rightarrow> ReturnVoidInst_Dump i g s
      | JCHECKNULL \<Rightarrow> CheckNullInst_Dump i g s
      | JCHECKBOUNDS \<Rightarrow> CheckBoundsInst_Dump i g s
      | JGETELEM \<Rightarrow> GetElemInst_Dump i g s
      | JADD \<Rightarrow> AddInst_Dump i g s
      | JSUB \<Rightarrow> SubInst_Dump i g s
      | JMUL \<Rightarrow> MulInst_Dump i g s
      | JNEG \<Rightarrow> NegInst_Dump i g s
      | JNOT \<Rightarrow> NotInst_Dump i g s
      | JXOR \<Rightarrow> XorInst_Dump i g s
      | JASHR \<Rightarrow> AshrInst_Dump i g s
      | JSHL \<Rightarrow> ShlInst_Dump i g s
      | JPHI \<Rightarrow> PhiInst_Dump i g s
      | JJMP \<Rightarrow> JmpInst_Dump (cs i) i g s)"

subsection \<open>The text of an instruction\<close>

text \<open>
  What the printers write, as a function of the instruction: \<open>op_text\<close> between the parentheses,
  \<open>inputs_text\<close> between the braces, \<open>inst_line\<close> the whole line.  \<open>printable\<close> is the condition under
  which no printer aborts, asserts or reads outside an array.
\<close>

definition opcode_name :: "jopcode \<Rightarrow> string" where
  "opcode_name c =
     (case c of JNONE \<Rightarrow> [] | JCONST \<Rightarrow> ''CONST'' | JPARAMETER \<Rightarrow> ''PARAMETER'' | JCAST \<Rightarrow> ''CAST''
      | JCALL \<Rightarrow> ''CALL'' | JRETURN \<Rightarrow> ''RETURN'' | JRETURNVOID \<Rightarrow> ''RETURNVOID'' | JCHECKNULL \<Rightarrow> ''CHECKNULL''
      | JCHECKBOUNDS \<Rightarrow> ''CHECKBOUNDS'' | JGETELEM \<Rightarrow> ''GETELEM'' | JADD \<Rightarrow> ''ADD'' | JSUB \<Rightarrow> ''SUB''
      | JMUL \<Rightarrow> ''MUL'' | JNEG \<Rightarrow> ''NEG'' | JNOT \<Rightarrow> ''NOT'' | JXOR \<Rightarrow> ''XOR'' | JASHR \<Rightarrow> ''ASHR''
      | JSHL \<Rightarrow> ''SHL'' | JPHI \<Rightarrow> ''PHI'' | JJMP \<Rightarrow> ''JMP'')"

definition typed :: "jopcode \<Rightarrow> bool" where
  "typed c \<longleftrightarrow> c = JCONST \<or> c = JPARAMETER \<or> c = JCAST \<or> c = JRETURN \<or> c = JGETELEM"

definition type_name :: "jtype \<Rightarrow> string" where
  "type_name t = (case Type_ToString t of Inl e \<Rightarrow> [] | Inr n \<Rightarrow> n)"

definition op_text :: "(nat \<Rightarrow> jcond) \<Rightarrow> nat \<Rightarrow> 'g graph_scheme \<Rightarrow> string" where
  "op_text cs i g =
     (let x = g_inst g i; c = ji_opcode x in
      if c = JJMP then ''If::'' @ Cond_ToString (cs i)
      else if c = JCONST then ''Type::'' @ type_name (ji_type x) @ '', '' @ digits (unat (ji_imm x))
      else if typed c then ''Type::'' @ type_name (ji_type x)
      else [])"

definition input_text :: "nat \<Rightarrow> 'g graph_scheme \<Rightarrow> nat option \<Rightarrow> string" where
  "input_text i g p =
     (if ji_bb (g_inst g i) = ji_bb (g_inst g (the p)) then []
      else ''b'' @ digits (the (ji_bb (g_inst g (the p)))) @ ''.'') @ ''v'' @ id_text (the p)"

definition more_inputs :: "nat \<Rightarrow> 'g graph_scheme \<Rightarrow> nat option list \<Rightarrow> string" where
  "more_inputs i g ps = concat (map (\<lambda>q. '', '' @ input_text i g q) ps)"

definition inputs_text :: "nat \<Rightarrow> 'g graph_scheme \<Rightarrow> string" where
  "inputs_text i g =
     (case ji_inputs (g_inst g i) of
        [] \<Rightarrow> []
      | p # ps \<Rightarrow> ''{ '' @ input_text i g p @ more_inputs i g ps @ '' }'')"

definition line :: "string \<Rightarrow> string \<Rightarrow> string \<Rightarrow> nat \<Rightarrow> 'g graph_scheme \<Rightarrow> string" where
  "line name ops ins i g =
     ''        '' @ pad 20 True name @ ''('' @ ops @ '')'' @ pad 15 False '' v'' @ id_text i @ ins
     @ '';  // LN = '' @ digits (unat (ji_ln (g_inst g i))) @ [newline]"

definition inst_line :: "(nat \<Rightarrow> jcond) \<Rightarrow> nat \<Rightarrow> 'g graph_scheme \<Rightarrow> string" where
  "inst_line cs i g = line (opcode_name (ji_opcode (g_inst g i))) (op_text cs i g) (inputs_text i g) i g"

definition printable_input :: "nat \<Rightarrow> 'g graph_scheme \<Rightarrow> nat option \<Rightarrow> bool" where
  "printable_input i g p \<longleftrightarrow>
     (case p of None \<Rightarrow> False
      | Some x \<Rightarrow> ji_bb (g_inst g i) = ji_bb (g_inst g x) \<or> ji_bb (g_inst g x) \<noteq> None)"

definition printable :: "nat \<Rightarrow> 'g graph_scheme \<Rightarrow> bool" where
  "printable i g \<longleftrightarrow>
     (let x = g_inst g i; c = ji_opcode x in
      c \<noteq> JNONE \<and> length (ji_inputs x) = GetInputsCount g i \<and>
      (\<not> IsFixed c \<longrightarrow> ji_inputs x \<noteq> []) \<and> list_all (printable_input i g) (ji_inputs x) \<and>
      (typed c \<longrightarrow> ji_type x \<in> {FLOAT64, INT64, UINT64, ARRAY}))"

lemma more_inputs_simps [simp]:
  "more_inputs i g [] = []"
  "more_inputs i g (q # ps) = '', '' @ input_text i g q @ more_inputs i g ps"
  by (simp_all add: more_inputs_def)

lemma dump_input_text:
  "os_width s = 0 \<Longrightarrow> printable_input i g p \<Longrightarrow> dump_input i g p s = Inr (appended (input_text i g p) s)"
  by (auto simp: printable_input_def dump_input_def input_text_def GetBBId_def deref_def text_simps split: option.splits)

lemma dump_rest_text:
  "os_width s = 0 \<Longrightarrow> list_all (printable_input i g) ps \<Longrightarrow>
   fold_res (\<lambda>q t. dump_input i g q (put '', '' t)) ps s =
     Inr (appended (more_inputs i g ps) s)"
proof (induction ps arbitrary: s)
  case (Cons q ps)
  then show ?case by (simp add: put_appended dump_input_text)
qed simp

lemma dump_inputs_text:
  assumes "os_width s = 0" and "list_all (printable_input i g) (ji_inputs (g_inst g i))" and "ji_inputs (g_inst g i) \<noteq> []"
  shows "dump_inputs i g s = Inr (appended (inputs_text i g) s)"
  using assms
  by (cases "ji_inputs (g_inst g i)") (simp_all add: dump_inputs_def inputs_text_def put_appended dump_input_text dump_rest_text)

lemma dump_class_text:
  assumes "os_width s = 0" and "nm = name" and "\<And>u. os_width u = 0 \<Longrightarrow> mixins u = Inr (appended ops u)"
    and "\<And>u. os_width u = 0 \<Longrightarrow> df i g u = Inr (appended ins u)"
  shows "dump_class nm mixins df i g s = Inr (appended (line name ops ins i g) s)"
  using assms
  by (simp add: dump_class_def line_def put_def setw_def left_adjust_def right_adjust_def copyfmt_def appended_def pad_def)

lemma TypedMixin_text:
  "os_width u = 0 \<Longrightarrow> t \<in> {FLOAT64, INT64, UINT64, ARRAY} \<Longrightarrow>
   TypedMixin_Dump t u = Inr (appended (''Type::'' @ type_name t) u)"
  by (auto simp: TypedMixin_Dump_def type_name_def Type_ToString_def put_appended)

lemmas class_dumps =
  ConstInst_Dump_def ParameterInst_Dump_def CastInst_Dump_def CallInst_Dump_def ReturnInst_Dump_def
  ReturnVoidInst_Dump_def CheckNullInst_Dump_def CheckBoundsInst_Dump_def GetElemInst_Dump_def
  AddInst_Dump_def SubInst_Dump_def MulInst_Dump_def NegInst_Dump_def NotInst_Dump_def
  XorInst_Dump_def AshrInst_Dump_def ShlInst_Dump_def PhiInst_Dump_def JmpInst_Dump_def

lemma Inst_Dump_text:
  assumes w: "os_width s = 0" and p: "printable i g"
  shows "Inst_Dump cs i g s = Inr (appended (inst_line cs i g) s)"
proof -
  let ?x = "g_inst g i"
  let ?c = "ji_opcode ?x"
  have c: "?c \<noteq> JNONE" and n: "length (ji_inputs ?x) = GetInputsCount g i"
    and v: "\<not> IsFixed ?c \<Longrightarrow> ji_inputs ?x \<noteq> []" and ins: "list_all (printable_input i g) (ji_inputs ?x)"
    and t: "typed ?c \<Longrightarrow> ji_type ?x \<in> {FLOAT64, INT64, UINT64, ARRAY}"
    using p by (auto simp: printable_def Let_def)
  have ty: "TypedMixin_Dump (ji_type ?x) u = Inr (appended (''Type::'' @ type_name (ji_type ?x)) u)"
    if "typed ?c" "os_width u = 0" for u
    using TypedMixin_text [OF that(2) t [OF that(1)]] .
  have df: "dump_inputs i g u = Inr (appended (inputs_text i g) u)" if "ji_inputs ?x \<noteq> []" "os_width u = 0" for u
    using dump_inputs_text [OF that(2) ins that(1)] .
  have no: "inputs_text i g = []" if "ji_inputs ?x = []"
    using that by (simp add: inputs_text_def)
  have some: "ji_inputs ?x \<noteq> []" if "IsFixed ?c" "fixed_inputs ?c \<noteq> 0"
    using that n by (auto simp: GetInputsCount_def)
  have none: "ji_inputs ?x = []" if "IsFixed ?c" "fixed_inputs ?c = 0"
    using that n by (auto simp: GetInputsCount_def)
  show ?thesis
    unfolding Inst_Dump_def inst_line_def class_dumps
    by (cases ?c; simp only: jopcode.case; (rule dump_class_text [OF w])?)
      (use c v some none in \<open>auto simp: IsFixed_def fixed_inputs_def typed_def op_text_def opcode_name_def
         Fixed0_DumpDF_def Fixed_DumpDF_def Variadic_DumpDF_def df no ty ImplicitlyTypedMixin_Dump_def
         ImmediateMixin_Dump_def ConditionalMixin_Dump_def put_appended Let_def\<close>)
qed

subsection \<open>Reading the text back\<close>

text \<open>
  \<open>read_dump\<close> gives the name of the opcode, the text between the parentheses, the identifiers of the
  instruction and of its inputs (tag v), each after that of the block of the input if it is printed
  (tag b), and the life number.
\<close>

definition read_dump :: "string \<Rightarrow> string \<times> string \<times> (char \<times> nat) list \<times> nat" where
  "read_dump t =
     (let rest = after CHR '')'' t in
      (takeWhile (\<lambda>c. c \<noteq> CHR '' '') (dropWhile (\<lambda>c. c = CHR '' '') t),
       takeWhile (\<lambda>c. c \<noteq> CHR '')'') (after CHR ''('' t),
       tagged rest, number 0 (drop 1 (after CHR ''='' rest))))"

definition input_ids :: "nat \<Rightarrow> 'g graph_scheme \<Rightarrow> nat option \<Rightarrow> (char \<times> nat) list" where
  "input_ids i g p =
     (if ji_bb (g_inst g i) = ji_bb (g_inst g (the p)) then [] else [(CHR ''b'', the (ji_bb (g_inst g (the p))))]) @
     [(CHR ''v'', unat (Inst_Id (the p)))]"

definition inst_ids :: "nat \<Rightarrow> 'g graph_scheme \<Rightarrow> (char \<times> nat) list" where
  "inst_ids i g = (CHR ''v'', unat (Inst_Id i)) # concat (map (input_ids i g) (ji_inputs (g_inst g i)))"

lemma takeWhile_before: "c \<notin> set xs \<Longrightarrow> takeWhile (\<lambda>d. d \<noteq> c) (xs @ c # ys) = xs"
  by (induction xs) auto

lemma opcode_name_chars:
  "c \<noteq> JNONE \<Longrightarrow> opcode_name c \<noteq> [] \<and> length (opcode_name c) < 20 \<and> list_all (\<lambda>x. x \<notin> set '' ()'') (opcode_name c)"
  by (cases c) (simp_all add: opcode_name_def)

lemma pad_left: "length n < w \<Longrightarrow> pad w True n = n @ CHR '' '' # replicate (w - Suc (length n)) CHR '' ''"
  by (simp add: pad_def Suc_diff_Suc flip: replicate_Suc)

lemma op_text_chars: "CHR '')'' \<notin> set (op_text cs i g)"
  by (auto simp: op_text_def Let_def type_name_def Type_ToString_def Cond_ToString_def digits_have_no is_digit_def
      split: jtype.splits jcond.splits)

lemma not_digits [simp]:
  "\<not> is_digit CHR '','' " "\<not> is_digit CHR '' ''" "\<not> is_digit CHR '';''" "\<not> is_digit CHR ''.''" "\<not> is_digit CHR ''=''"
  "\<not> is_digit CHR ''v''" "\<not> is_digit CHR ''b''" "\<not> is_digit CHR ''{''" "\<not> is_digit newline"
  by (simp_all add: is_digit_def newline_def)

lemma inputs_text_chars: "CHR ''='' \<notin> set (inputs_text i g)"
  by (auto simp: inputs_text_def more_inputs_def input_text_def id_text_def digits_have_no split: list.splits)

lemma tagged_input:
  "cs = [] \<or> \<not> is_digit (hd cs) \<Longrightarrow> tagged (input_text i g p @ cs) = input_ids i g p @ tagged cs"
  by (simp add: input_text_def input_ids_def id_text_def tagged_skip number_digits digits_have_no)

lemma more_inputs_head:
  "cs = [] \<or> \<not> is_digit (hd cs) \<Longrightarrow> more_inputs i g ps @ cs = [] \<or> \<not> is_digit (hd (more_inputs i g ps @ cs))"
  by (cases ps) simp_all

lemma tagged_more:
  assumes "cs = [] \<or> \<not> is_digit (hd cs)"
  shows "tagged (more_inputs i g ps @ cs) = concat (map (input_ids i g) ps) @ tagged cs"
proof (induction ps)
  case (Cons q ps)
  then show ?case by (simp add: tagged_input [OF more_inputs_head [OF assms]])
qed simp

lemma tagged_inputs:
  "tagged (inputs_text i g @ cs) = concat (map (input_ids i g) (ji_inputs (g_inst g i))) @ tagged cs"
proof (cases "ji_inputs (g_inst g i)")
  case (Cons p ps)
  have sep: "CHR '' '' # CHR ''}'' # cs = [] \<or> \<not> is_digit (hd (CHR '' '' # CHR ''}'' # cs))" by simp
  show ?thesis
    by (simp add: inputs_text_def Cons tagged_input [OF more_inputs_head [OF sep]] tagged_more [OF sep])
qed (simp add: inputs_text_def)

lemma read_inst_line:
  assumes "ji_opcode (g_inst g i) \<noteq> JNONE"
  shows "read_dump (inst_line cs i g) =
           (opcode_name (ji_opcode (g_inst g i)), op_text cs i g, inst_ids i g, unat (ji_ln (g_inst g i)))"
proof -
  let ?n = "opcode_name (ji_opcode (g_inst g i))" and ?o = "op_text cs i g"
  define mid where "mid = CHR '' '' # replicate (19 - length ?n) CHR '' ''"
  define tail where "tail = '' '' @ digits (unat (ji_ln (g_inst g i))) @ [newline]"
  define rest where "rest = pad 15 False '' v'' @ id_text i @ inputs_text i g @ '';  // LN '' @ CHR ''='' # tail"
  have n: "?n \<noteq> []" "length ?n < 20" "list_all (\<lambda>x. x \<notin> set '' ()'') ?n"
    using opcode_name_chars [OF assms] by auto
  have shape: "inst_line cs i g = ''        '' @ ?n @ mid @ CHR ''('' # ?o @ CHR '')'' # rest"
    using n(2) by (simp add: inst_line_def line_def pad_left mid_def rest_def tail_def)
  have name: "takeWhile (\<lambda>c. c \<noteq> CHR '' '') (dropWhile (\<lambda>c. c = CHR '' '') (inst_line cs i g)) = ?n"
    using n(1,3) by (cases ?n) (auto simp: shape mid_def takeWhile_before list_all_iff)
  have no: "CHR ''('' \<notin> set (''        '' @ ?n @ mid)" "CHR '')'' \<notin> set (''        '' @ ?n @ mid @ CHR ''('' # ?o)"
    using n(3) op_text_chars [of cs i g] by (auto simp: mid_def list_all_iff)
  have "after CHR ''('' ((''        '' @ ?n @ mid) @ CHR ''('' # ?o @ CHR '')'' # rest) = ?o @ CHR '')'' # rest"
    by (rule after_append [OF no(1)])
  then have ops: "takeWhile (\<lambda>c. c \<noteq> CHR '')'') (after CHR ''('' (inst_line cs i g)) = ?o"
    by (simp only: shape append_assoc takeWhile_before op_text_chars not_False_eq_True)
  have "after CHR '')'' ((''        '' @ ?n @ mid @ CHR ''('' # ?o) @ CHR '')'' # rest) = rest"
    by (rule after_append [OF no(2)])
  then have r: "after CHR '')'' (inst_line cs i g) = rest"
    by (simp only: shape append_assoc append_Cons)
  have "after CHR ''='' ((pad 15 False '' v'' @ id_text i @ inputs_text i g @ '';  // LN '') @ CHR ''='' # tail) = tail"
    by (rule after_append) (use inputs_text_chars [of i g] in \<open>auto simp: pad_def id_text_def digits_have_no\<close>)
  then have "after CHR ''='' rest = tail"
    by (simp only: rest_def append_assoc)
  then have ln: "number 0 (drop 1 (after CHR ''='' rest)) = unat (ji_ln (g_inst g i))"
    by (simp add: tail_def number_digits)
  have "tagged tail = []" by (simp add: tail_def tagged_skip digits_have_no newline_def)
  then have "tagged (inputs_text i g @ '';  // LN '' @ CHR ''='' # tail) = concat (map (input_ids i g) (ji_inputs (g_inst g i)))"
    by (subst tagged_inputs) simp_all
  moreover have "inputs_text i g @ '';  // LN '' @ CHR ''='' # tail = [] \<or> \<not> is_digit (hd (inputs_text i g @ '';  // LN '' @ CHR ''='' # tail))"
    by (cases "ji_inputs (g_inst g i)") (simp_all add: inputs_text_def)
  ultimately have "tagged rest = inst_ids i g"
    by (simp add: rest_def pad_def inst_ids_def id_text_def number_digits tagged_skip digits_have_no o_def)
  then show ?thesis by (simp del: One_nat_def add: read_dump_def r name ops ln)
qed

subsection \<open>When an instruction can be printed\<close>

lemma dump_input_ok: "dump_input i g p s = Inr t \<Longrightarrow> printable_input i g p"
  by (auto simp: dump_input_def printable_input_def GetBBId_def deref_def res_simps split: if_splits option.splits)

lemma dump_rest_ok:
  "fold_res (\<lambda>q t. dump_input i g q (put '', '' t)) ps s = Inr t \<Longrightarrow> list_all (printable_input i g) ps"
  by (induction ps arbitrary: s) (auto simp: res_simps dest: dump_input_ok)

lemma dump_inputs_ok:
  "dump_inputs i g s = Inr t \<Longrightarrow> ji_inputs (g_inst g i) \<noteq> [] \<and> list_all (printable_input i g) (ji_inputs (g_inst g i))"
  by (auto simp: dump_inputs_def res_simps split: list.splits dest: dump_input_ok dump_rest_ok)

lemma TypedMixin_ok: "TypedMixin_Dump ty s = Inr t \<Longrightarrow> ty \<in> {FLOAT64, INT64, UINT64, ARRAY}"
  by (cases ty) (simp_all add: TypedMixin_Dump_def Type_ToString_def)

lemma dump_class_ok:
  "dump_class nm mixins df i g s = Inr t \<Longrightarrow> (\<exists>u v. mixins u = Inr v) \<and> (\<exists>u v. df i g u = Inr v)"
  by (auto simp: dump_class_def res_simps)

lemma class_type_ok:
  "dump_class nm (TypedMixin_Dump ty) df i g s = Inr t \<Longrightarrow> ty \<in> {FLOAT64, INT64, UINT64, ARRAY}"
  "dump_class nm (\<lambda>u. rbind (TypedMixin_Dump ty u) f) df i g s = Inr t \<Longrightarrow> ty \<in> {FLOAT64, INT64, UINT64, ARRAY}"
  by (auto dest!: dump_class_ok TypedMixin_ok simp: rbind_eq_Inr)

lemma class_inputs_ok:
  "dump_class nm m Fixed_DumpDF i g s = Inr t \<Longrightarrow> ji_inputs (g_inst g i) \<noteq> [] \<and> list_all (printable_input i g) (ji_inputs (g_inst g i))"
  "dump_class nm m Variadic_DumpDF i g s = Inr t \<Longrightarrow> ji_inputs (g_inst g i) \<noteq> [] \<and> list_all (printable_input i g) (ji_inputs (g_inst g i))"
  by (auto dest!: dump_class_ok dump_inputs_ok simp: Fixed_DumpDF_def Variadic_DumpDF_def)

lemma Inst_Dump_ok:
  assumes run: "Inst_Dump cs i g s = Inr t" and n: "length (ji_inputs (g_inst g i)) = GetInputsCount g i"
  shows "printable i g"
proof -
  let ?x = "g_inst g i"
  let ?c = "ji_opcode ?x" and ?T = "ji_type ?x \<in> {FLOAT64, INT64, UINT64, ARRAY}"
    and ?I = "ji_inputs ?x \<noteq> [] \<and> list_all (printable_input i g) (ji_inputs ?x)"
  have "?c \<noteq> JNONE \<and> (typed ?c \<longrightarrow> ?T)"
    using run unfolding Inst_Dump_def class_dumps typed_def
    by (cases ?c; simp only: jopcode.case; simp del: insert_iff; blast dest: class_type_ok)
  moreover have "\<not> IsFixed ?c \<or> fixed_inputs ?c \<noteq> 0 \<longrightarrow> ?I"
    using run unfolding Inst_Dump_def class_dumps IsFixed_def fixed_inputs_def
    by (cases ?c; simp only: jopcode.case; simp del: insert_iff; blast dest: class_inputs_ok)
  moreover have "fixed_inputs ?c \<noteq> 0" if "ji_inputs ?x \<noteq> []" "IsFixed ?c"
    using n that by (metis GetInputsCount_def length_0_conv)
  ultimately show ?thesis using n
    by (cases "ji_inputs ?x = []") (auto simp: printable_def Let_def GetInputsCount_def)
qed

text \<open>
  C37: For an instruction with as many inputs as its class has, \<open>Inst::Dump\<close> succeeds exactly when the
  instruction is \<open>printable\<close>: it has an opcode; if its class prints the type, the type is one of the four
  with a name; it has an input if it is variadic (a call without arguments fails); and every input is set
  and is in a block, or in no block like the instruction itself.  From the line it writes a reader
  recovers the opcode, the text of the operands, the identifier of the instruction, those of its inputs
  in their order, each with the identifier of its block when it is in another one, and the life number.
\<close>

theorem dump_can_be_read_back:
  assumes w: "os_width s = 0" and n: "length (ji_inputs (g_inst g i)) = GetInputsCount g i"
  shows "if printable i g
         then \<exists>t. Inst_Dump cs i g s = Inr (s\<lparr>os_out := os_out s @ t\<rparr>) \<and>
                  read_dump t = (opcode_name (ji_opcode (g_inst g i)), op_text cs i g, inst_ids i g, unat (ji_ln (g_inst g i)))
         else \<exists>e. Inst_Dump cs i g s = Inl e"
proof (cases "printable i g")
  case True
  then have "ji_opcode (g_inst g i) \<noteq> JNONE" by (simp add: printable_def Let_def)
  from read_inst_line [OF this] Inst_Dump_text [OF w True] True show ?thesis by (auto simp: appended_def)
next
  case False
  then show ?thesis using Inst_Dump_ok [OF _ n, of cs s] by (cases "Inst_Dump cs i g s") auto
qed

text \<open>A constant, a parameter, and a conditional jump on them in another block.\<close>

definition dump_demo :: graph where
  "dump_demo =
     \<lparr>g_inst = (\<lambda>_. new_inst JNONE 0 UNKNOWN 0)
        (0 := (new_inst JCONST 0 INT64 7)\<lparr>ji_bb := Some 1\<rparr>,
         1 := (new_inst JPARAMETER 0 INT64 0)\<lparr>ji_bb := Some 2, ji_ln := 2\<rparr>,
         2 := (new_inst JJMP 2 UNKNOWN 0)\<lparr>ji_bb := Some 2, ji_ln := 14, ji_inputs := [Some 1, Some 0]\<rparr>),
      g_insts_count = 3, g_bb = (\<lambda>_. new_bb), g_bbs_count = 3\<rparr>"

definition empty_stream :: ostream where
  "empty_stream = \<lparr>os_out = [], os_width = 0, os_left = False\<rparr>"

lemma dump_can_be_read_back_witness:
  "\<exists>t. Inst_Dump (\<lambda>_. GE) 2 dump_demo empty_stream = Inr (empty_stream\<lparr>os_out := t\<rparr>) \<and>
       read_dump t = (''JMP'', ''If::GE'', [(CHR ''v'', 3), (CHR ''v'', 2), (CHR ''b'', 1), (CHR ''v'', 1)], 14)"
proof -
  have n: "length (ji_inputs (g_inst dump_demo 2)) = GetInputsCount dump_demo 2" by code_simp
  have p: "printable 2 dump_demo" by code_simp
  have r: "opcode_name (ji_opcode (g_inst dump_demo 2)) = ''JMP''" "op_text (\<lambda>_. GE) 2 dump_demo = ''If::GE''"
    "inst_ids 2 dump_demo = [(CHR ''v'', 3), (CHR ''v'', 2), (CHR ''b'', 1), (CHR ''v'', 1)]" "unat (ji_ln (g_inst dump_demo 2)) = 14"
    by code_simp+
  have "os_width empty_stream = 0" by (simp add: empty_stream_def)
  from dump_can_be_read_back [OF this n, of "\<lambda>_. GE"] p r show ?thesis by (simp add: empty_stream_def)
qed

lemma dump_demo_line:
  "inst_line (\<lambda>_. GE) 2 dump_demo = ''        JMP                 (If::GE)              v3{ v2, b1.v1 };  // LN = 14'' @ [newline]"
  by code_simp

end
