(* ===== verification/Jit_GraphDump.thy ===== *)
theory Jit_GraphDump
  imports Jit_Dump Jit_RegAlloc
begin

text \<open>
  Printing blocks, loops and whole graphs: \<open>BasicBlock::Dump\<close> (basic_block.cpp), \<open>Loop::Dump\<close>
  (analyses/loop.h) and \<open>Graph::Dump\<close>, \<open>DumpRPO\<close>, \<open>DumpLiveness\<close>, \<open>DumpRegalloc\<close> (graph.cpp).  The last
  two print one row per value, with a cell of two characters per life number, while an iterator walks
  through the ranges of the value.  The instructions come in the order in which \<open>std::sort\<close> leaves the
  keys of the map; the phis of a block have equal life numbers, so that order is an argument here,
  \<open>sorted_order\<close> says which orders there are.  \<open>Loop::Dump\<close> recurs into the inner loops and has as fuel
  the number of loops, plus one.
\<close>

subsection \<open>Blocks and loops\<close>

definition dump_edges :: "nat list \<Rightarrow> ostream \<Rightarrow> ostream" where
  "dump_edges bs s = put (''}'' @ [newline]) (fold (\<lambda>b. puts [''b'', digits b, '' '']) bs s)"

definition BB_Dump :: "(nat \<Rightarrow> jcond) \<Rightarrow> nat \<Rightarrow> agraph \<Rightarrow> ostream \<Rightarrow> ostream res" where
  "BB_Dump cs b g s =
     (let s1 = (case Loop_of b g of
                  Some l \<Rightarrow> puts [''    // Loop: '', digits (l_id (g_loops g l)), [newline]] s
                | None \<Rightarrow> put (''    // Loop: unknown'' @ [newline]) s);
          s2 = dump_edges (bb_preds (g_bb g b)) (put ''    // Preds: { '' s1)
      in rbind (fold_res (\<lambda>i. Inst_Dump cs i g) (GetAllInsts g b) s2) (\<lambda>s3.
           Inr (dump_edges (bb_succs (g_bb g b)) (put ''    // Succs: { '' s3))))"

primrec Loop_Dump :: "nat \<Rightarrow> nat \<Rightarrow> nat \<Rightarrow> agraph \<Rightarrow> ostream \<Rightarrow> ostream res" where
  "Loop_Dump 0 rec_lvl l g s = Inl OutOfFuel"
| "Loop_Dump (Suc n) rec_lvl l g s =
     (let x = g_loops g l;
          pref = replicate (rec_lvl * 2) CHR ''.'';
          s1 = puts [pref, ''Loop('', digits (l_id x), '')'' @ [newline]] s
      in rbind (if l_id x = 0 then Inr (puts [pref, ''  Outer: none'' @ [newline]] s1)
                else deref (l_outer x) (\<lambda>m. Inr (puts [pref, ''  Outer: '', digits (l_id (g_loops g m)), [newline]] s1))) (\<lambda>s2.
           rbind (fold_res (\<lambda>k. Loop_Dump n (rec_lvl + 1) k g) (l_inner x) (puts [pref, ''  Inner:'' @ [newline]] s2)) (\<lambda>s3.
             case l_header x of
               None \<Rightarrow> Inr (puts [pref, ''  Is root'', [newline]] s3)
             | Some h \<Rightarrow>
                 let s4 = puts [pref, ''  Header: '', digits h, [newline], pref, ''  BackEdges:'' @ [newline]] s3;
                     s5 = fold (\<lambda>b. puts [pref, ''    '', digits b, [newline]]) (l_back_edges x) s4
                 in Inr (puts [pref, ''  Reducible: '', digits (if l_reducible x then 1 else 0), [newline]] s5))))"

subsection \<open>Graphs\<close>

definition dump_block :: "(nat \<Rightarrow> jcond) \<Rightarrow> agraph \<Rightarrow> nat \<Rightarrow> ostream \<Rightarrow> ostream res" where
  "dump_block cs g b s =
     rbind (BB_Dump cs b g (puts [''    BLOCK(b'', digits b, '','' @ [newline]] s)) (\<lambda>s1.
       Inr (put (''    );'' @ [newline]) s1))"

text \<open>The loops, and the parenthesis that closes the graph.\<close>

definition dump_loops :: "agraph \<Rightarrow> nat \<Rightarrow> ostream \<Rightarrow> ostream res" where
  "dump_loops g l s =
     rbind (Loop_Dump (Suc (g_loops_count g)) 1 l g (puts [''/**'' @ [newline], '' Loops:'' @ [newline]] s)) (\<lambda>s1.
       Inr (puts [''*/'' @ [newline], '');'' @ [newline]] s1))"

definition Graph_DumpRPO :: "(nat \<Rightarrow> jcond) \<Rightarrow> agraph \<Rightarrow> ostream \<Rightarrow> ostream res" where
  "Graph_DumpRPO cs g s =
     rbind (fold_res (\<lambda>p t. deref p (\<lambda>b. dump_block cs g b t)) (g_rpo g) (put (''GRAPH(g0,'' @ [newline]) s)) (\<lambda>s1.
       deref (g_root_loop g) (\<lambda>l. dump_loops g l s1))"

definition Graph_Dump :: "(nat \<Rightarrow> jcond) \<Rightarrow> agraph \<Rightarrow> ostream \<Rightarrow> ostream res" where
  "Graph_Dump cs g s =
     rbind (fold_res (dump_block cs g) [0..<g_bbs_count g] (put (''GRAPH(g0,'' @ [newline]) s)) (\<lambda>s1.
       case g_root_loop g of None \<Rightarrow> Inr s1 | Some l \<Rightarrow> dump_loops g l s1)"

subsection \<open>The numbers above the rows\<close>

text \<open>
  \<open>dig_sel\<close> is an \<open>int\<close>: the multiplication that would exceed 31 bits is undefined.  It has happened
  after nine rounds at the latest, so the fuel of ten is enough.
\<close>

fun grow_digit :: "nat \<Rightarrow> nat \<Rightarrow> nat \<Rightarrow> nat res" where
  "grow_digit 0 lst d = Inl OutOfFuel"
| "grow_digit (Suc n) lst d =
     (if d < lst then (if d * 10 < 2 ^ 31 then grow_digit n lst (d * 10) else Inl Undefined) else Inr d)"

fun dig_sels :: "nat \<Rightarrow> nat list" where
  "dig_sels d = (if 1 \<le> d then d # dig_sels (d div 10) else [])"

declare dig_sels.simps [simp del]

definition digit_row :: "nat \<Rightarrow> nat \<Rightarrow> ostream \<Rightarrow> ostream" where
  "digit_row lst d s =
     put [newline]
       (fold (\<lambda>i. puts [if i div d \<noteq> 0 \<or> d = 1 then digits (i div d mod 10) else '' '', ''|''])
         [0..<lst] (put ''|'' (setw 9 s)))"

definition digit_rows :: "nat \<Rightarrow> ostream \<Rightarrow> ostream res" where
  "digit_rows lst s = rbind (grow_digit 10 lst 10) (\<lambda>d. Inr (fold (digit_row lst) (dig_sels (d div 10)) s))"

subsection \<open>Liveness\<close>

definition sorted_order :: "agraph \<Rightarrow> (nat option \<Rightarrow> live_interval option) \<Rightarrow> nat list \<Rightarrow> bool" where
  "sorted_order g m ks \<longleftrightarrow> distinct ks \<and> Some ` set ks = dom m \<and> sorted (map (\<lambda>i. unat (LN g i)) ks)"

definition blank :: "nat \<Rightarrow> string" where
  "blank i = (if even i then ''  '' else '' |'')"

text \<open>One turn of the loop over the life numbers; \<open>k\<close> is \<open>interval_it\<close>.\<close>

definition live_cell :: "live_range list \<Rightarrow> nat \<Rightarrow> nat \<times> ostream \<Rightarrow> nat \<times> ostream" where
  "live_cell rs i = (\<lambda>(k, s).
     if k = length rs \<or> i < unat (lr_b (rs ! k)) then (k, put (blank i) s)
     else if i < unat (lr_e (rs ! k)) then (k, put (if even i then ''--'' else ''-|'') s)
     else if i = unat (lr_e (rs ! k)) then (Suc k, put ''> '' s)
     else (k, s))"

definition use_cell :: "u32 list \<Rightarrow> nat \<Rightarrow> nat \<times> ostream \<Rightarrow> nat \<times> ostream" where
  "use_cell us i = (\<lambda>(k, s).
     if k < length us \<and> unat (us ! k) = i then (Suc k, put (if even i then ''^ '' else ''^|'') s)
     else (k, put (blank i) s))"

definition live_row :: "nat \<Rightarrow> nat \<Rightarrow> live_interval \<Rightarrow> ostream \<Rightarrow> ostream" where
  "live_row lst i v s =
     puts ['' v'', id_text i, [newline]]
       (snd (fold (live_cell (iv_ranges v)) [0..<lst] (0, put (''v'' @ id_text i @ ''|'') (setw 9 s))))"

definition use_row :: "nat \<Rightarrow> live_interval \<Rightarrow> ostream \<Rightarrow> ostream" where
  "use_row lst v s = put [newline] (snd (fold (use_cell (iv_usepoints v)) [0..<lst] (0, put ''|'' (setw 9 s))))"

fun dump_linear :: "(nat \<Rightarrow> jcond) \<Rightarrow> agraph \<Rightarrow> (nat option \<times> nat) list \<Rightarrow> ostream \<Rightarrow> ostream res" where
  "dump_linear cs g [] s = Inl Undefined"
| "dump_linear cs g ((p, n) # es) s =
     (case p of None \<Rightarrow> Inr s | Some b \<Rightarrow> rbind (dump_block cs g b s) (dump_linear cs g es))"

definition DumpLiveness ::
    "(nat \<Rightarrow> jcond) \<Rightarrow> agraph \<Rightarrow> (nat option \<Rightarrow> live_interval option) \<Rightarrow> nat list \<Rightarrow> ostream \<Rightarrow> ostream res" where
  "DumpLiveness cs g m ks s =
     guard (IsLinearOrderValid g) AssertFailed
       (rbind (dump_linear cs g (g_linear g) (put (''GRAPH(g0,'' @ [newline]) s)) (\<lambda>s1.
          rbind (digit_rows (g_max_ln g) (put (''/**'' @ [newline] @ ''Liveness:'' @ [newline]) s1)) (\<lambda>s2.
            rbind (fold_res (\<lambda>i t. rbind (of_opt (Fatal ''out_of_range'') (m (Some i))) (\<lambda>v.
                Inr (use_row (g_max_ln g) v (live_row (g_max_ln g) i v t)))) ks s2) (\<lambda>s3.
              Inr (puts [''*/'' @ [newline], '');'' @ [newline]] s3)))))"

subsection \<open>Register allocation\<close>

definition LocToChar :: "location \<Rightarrow> char res" where
  "LocToChar l =
     (if loc_kind l = SLOT then Inr CHR ''#''
      else guard (loc_kind l = REG) AssertFailed
        (if loc_idx l < 10 then Inr (char_of (48 + loc_idx l))
         else guard (loc_idx l < 36) AssertFailed (Inr (char_of (65 + loc_idx l - 10)))))"

definition dump_range :: "live_range \<Rightarrow> ostream \<Rightarrow> ostream res" where
  "dump_range r s =
     (let s1 = puts [''- ['', digits (unat (lr_b r)), '', '', digits (unat (lr_e r)), ''): ''] s in
      rbind (location_at r) (\<lambda>l.
        if loc_kind l = REG then Inr (puts [''r'', digits (loc_idx l), '';'' @ [newline]] s1)
        else guard (loc_kind l = SLOT) AssertFailed (Inr (puts [''s'', digits (loc_idx l), '';'' @ [newline]] s1))))"

definition reg_cell :: "live_range list \<Rightarrow> nat \<Rightarrow> nat \<times> ostream \<Rightarrow> (nat \<times> ostream) res" where
  "reg_cell rs i = (\<lambda>(k, s).
     if k = length rs \<or> i < unat (lr_b (rs ! k)) then Inr (k, put (blank i) s)
     else if i < unat (lr_e (rs ! k)) then
       (if even i then rbind (location_at (rs ! k)) (\<lambda>l. rbind (LocToChar l) (\<lambda>c. Inr (k, puts [''-'', [c]] s)))
        else Inr (k, put ''-|'' s))
     else if i = unat (lr_e (rs ! k)) then
       (if Suc k \<noteq> length rs \<and> unat (lr_b (rs ! Suc k)) = i then
          rbind (location_at (rs ! Suc k)) (\<lambda>l. rbind (LocToChar l) (\<lambda>c. Inr (Suc k, puts [''>'', [c]] s)))
        else Inr (Suc k, puts [''>'', '' ''] s))
     else Inr (k, s))"

definition reg_row :: "nat \<Rightarrow> nat \<Rightarrow> live_interval \<Rightarrow> ostream \<Rightarrow> ostream res" where
  "reg_row lst i v s =
     rbind (fold_res (reg_cell (iv_ranges v)) [0..<lst] (0, put (''v'' @ id_text i @ ''|'') (setw 9 s))) (\<lambda>(k, s1).
       Inr (puts ['' v'', id_text i, [newline]] s1))"

definition DumpRegalloc ::
    "agraph \<Rightarrow> (nat option \<Rightarrow> live_interval option) \<Rightarrow> nat list \<Rightarrow> ostream \<Rightarrow> ostream res" where
  "DumpRegalloc g m ks s =
     guard (IsLinearOrderValid g) AssertFailed
       (rbind (fold_res (\<lambda>i t. rbind (of_opt (Fatal ''out_of_range'') (m (Some i))) (\<lambda>v.
            fold_res dump_range (iv_ranges v) (puts [''v'', id_text i, '':'' @ [newline]] t)))
          ks (put (''/**'' @ [newline] @ ''Regalloc:'' @ [newline]) s)) (\<lambda>s1.
        rbind (digit_rows (g_max_ln g) s1) (\<lambda>s2.
          rbind (fold_res (\<lambda>i t. rbind (of_opt (Fatal ''out_of_range'') (m (Some i))) (\<lambda>v. reg_row (g_max_ln g) i v t)) ks s2) (\<lambda>s3.
            Inr (put (''*/'' @ [newline]) s3)))))"

subsection \<open>The fuel is enough\<close>

lemma grow_digit_fuel: "0 < d \<Longrightarrow> 2 ^ 31 \<le> d * 10 ^ n \<Longrightarrow> grow_digit n lst d \<noteq> Inl OutOfFuel \<or> n = 0"
proof (induction n arbitrary: d)
  case (Suc n)
  then show ?case
  proof (cases "n = 0")
    case False
    then show ?thesis using Suc.IH [of "d * 10"] Suc.prems by (simp add: mult.assoc)
  qed simp
qed simp

lemma digit_rows_fuel: "digit_rows lst s \<noteq> Inl OutOfFuel"
  using grow_digit_fuel [of 10 10 lst] by (auto simp: digit_rows_def rbind_eq_Inl)

text \<open>A measure that falls from a loop to its inner loops, as in a tree, bounds the recursion.\<close>

lemma fold_res_not_OutOfFuel:
  assumes "\<And>x t. x \<in> set xs \<Longrightarrow> f x t \<noteq> Inl OutOfFuel"
  shows "fold_res f xs s \<noteq> Inl OutOfFuel"
  using assms by (induction xs arbitrary: s) (auto simp: rbind_eq_Inl)

lemma Loop_Dump_fuel:
  assumes "\<And>l k. k \<in> set (l_inner (g_loops g l)) \<Longrightarrow> r k < (r l :: nat)"
  shows "r l < n \<Longrightarrow> Loop_Dump n lv l g s \<noteq> Inl OutOfFuel"
proof (induction n arbitrary: lv l s)
  case (Suc n)
  have "Loop_Dump n (lv + 1) k g t \<noteq> Inl OutOfFuel" if "k \<in> set (l_inner (g_loops g l))" for k t
    using assms [OF that] Suc by simp
  then have "fold_res (\<lambda>k. Loop_Dump n (lv + 1) k g) (l_inner (g_loops g l)) t \<noteq> Inl OutOfFuel" for t
    by (rule fold_res_not_OutOfFuel)
  then show ?case
    by (auto simp: Let_def rbind_eq_Inl deref_def of_opt_def split: option.splits if_splits)
qed simp

subsection \<open>A row shows its interval\<close>

definition range_at :: "live_range list \<Rightarrow> nat \<Rightarrow> live_range option" where
  "range_at rs i = find (\<lambda>r. unat (lr_b r) \<le> i \<and> i < unat (lr_e r)) rs"

definition ends_at :: "live_range list \<Rightarrow> nat \<Rightarrow> bool" where
  "ends_at rs i \<longleftrightarrow> (\<exists>r \<in> set rs. unat (lr_e r) = i)"

lemma range_at_simps [simp]:
  "range_at [] i = None"
  "range_at (r # rs) i = (if unat (lr_b r) \<le> i \<and> i < unat (lr_e r) then Some r else range_at rs i)"
  by (simp_all add: range_at_def)

lemma ends_at_simps [simp]: "\<not> ends_at [] i" "ends_at (r # rs) i \<longleftrightarrow> unat (lr_e r) = i \<or> ends_at rs i"
  by (auto simp: ends_at_def)

text \<open>How many ranges lie before a life number: where the iterator stands when the loop gets there.\<close>

fun past :: "live_range list \<Rightarrow> nat \<Rightarrow> nat" where
  "past [] i = 0"
| "past (r # rs) i = (if unat (lr_e r) < i then Suc (past rs i) else 0)"

lemma past_0 [simp]: "past rs 0 = 0"
  by (cases rs) simp_all

lemma cursor:
  assumes "valid_ranges rs"
  shows "let k = past rs i in
         if k = length rs \<or> i < unat (lr_b (rs ! k)) then range_at rs i = None \<and> \<not> ends_at rs i \<and> past rs (Suc i) = k
         else if i < unat (lr_e (rs ! k)) then range_at rs i = Some (rs ! k) \<and> \<not> ends_at rs i \<and> past rs (Suc i) = k
         else i = unat (lr_e (rs ! k)) \<and> ends_at rs i \<and> past rs (Suc i) = Suc k \<and>
           range_at rs i = (if Suc k \<noteq> length rs \<and> unat (lr_b (rs ! Suc k)) = i then Some (rs ! Suc k) else None)"
  using assms
proof (induction rs)
  case Nil
  then show ?case by simp
next
  case (Cons r rs)
  have later: "unat (lr_e r) \<le> unat (lr_b q)" "unat (lr_b q) < unat (lr_e q)" if "q \<in> set rs" for q
    using Cons.prems that by (auto simp: valid_ranges_def word_le_nat_alt word_less_nat_alt)
  show ?case
  proof (cases "unat (lr_e r) < i")
    case True
    then show ?thesis using Cons by (simp add: Let_def)
  next
    case False
    have "past rs (Suc i) = 0" if "unat (lr_e r) = i"
      using later that by (cases rs) force+
    moreover have "range_at rs i = None" "\<not> ends_at rs i" if "i < unat (lr_e r)"
      using later that by (force simp: range_at_def ends_at_def find_None_iff)+
    moreover have "range_at rs i = (if rs \<noteq> [] \<and> unat (lr_b (hd rs)) = i then Some (hd rs) else None)" if "unat (lr_e r) = i"
      using later that Cons.prems by (cases rs) (force simp: range_at_def find_None_iff word_le_nat_alt word_less_nat_alt)+
    moreover have "unat (lr_b r) < unat (lr_e r)"
      using Cons.prems by (simp add: word_less_nat_alt)
    ultimately show ?thesis using False
      by (auto simp: Let_def hd_conv_nth)
  qed
qed

definition place_char :: "location option \<Rightarrow> char" where
  "place_char p = (case p of None \<Rightarrow> CHR '' '' | Some l \<Rightarrow> (case LocToChar l of Inl e \<Rightarrow> CHR '' '' | Inr c \<Rightarrow> c))"

text \<open>The two characters for a life number, without an iterator.\<close>

definition live_text :: "live_range list \<Rightarrow> nat \<Rightarrow> string" where
  "live_text rs i =
     (if ends_at rs i then ''> ''
      else if range_at rs i \<noteq> None then (if even i then ''--'' else ''-|'')
      else blank i)"

definition place_text :: "live_range list \<Rightarrow> nat \<Rightarrow> string" where
  "place_text rs i =
     (let c = place_char (case range_at rs i of None \<Rightarrow> None | Some r \<Rightarrow> lr_loc r) in
      if ends_at rs i then [CHR ''>'', c]
      else if range_at rs i \<noteq> None then (if even i then [CHR ''-'', c] else ''-|'')
      else blank i)"

definition located :: "live_range list \<Rightarrow> bool" where
  "located rs \<longleftrightarrow> (\<forall>r \<in> set rs. \<exists>l c. lr_loc r = Some l \<and> LocToChar l = Inr c)"

lemma live_cells:
  assumes "valid_ranges rs" and "os_width s = 0"
  shows "fold (live_cell rs) [0..<n] (0, s) = (past rs n, appended (concat (map (live_text rs) [0..<n])) s)"
proof (induction n)
  case (Suc n)
  then show ?case
    using cursor [OF assms(1), of n] assms(2)
    by (auto simp: Let_def live_cell_def live_text_def text_simps split: if_splits)
qed simp

lemma located_at:
  assumes "located rs" and "range_at rs i = Some r"
  obtains l c where "lr_loc r = Some l" and "LocToChar l = Inr c"
proof -
  have "r \<in> set rs" using assms(2) by (auto simp: range_at_def find_Some_iff)
  then show thesis using assms(1) that by (auto simp: located_def)
qed

lemma reg_cells:
  assumes v: "valid_ranges rs" and l: "located rs" and w: "os_width s = 0"
  shows "fold_res (reg_cell rs) [0..<n] (0, s) = Inr (past rs n, appended (concat (map (place_text rs) [0..<n])) s)"
proof (induction n)
  case (Suc n)
  have "reg_cell rs n (past rs n, u) = Inr (past rs (Suc n), appended (place_text rs n) u)" if "os_width u = 0" for u
  proof (cases "range_at rs n")
    case None
    then show ?thesis using cursor [OF v, of n] that
      by (auto simp: Let_def reg_cell_def place_text_def place_char_def text_simps split: if_splits)
  next
    case (Some r)
    then obtain p c where "lr_loc r = Some p" "LocToChar p = Inr c" by (rule located_at [OF l])
    then show ?thesis using cursor [OF v, of n] that Some
      by (auto simp: Let_def reg_cell_def place_text_def place_char_def location_at_def text_simps split: if_splits)
  qed
  then show ?case using Suc w by (simp add: fold_res_append)
qed simp

lemma length_cells: "(\<And>i. length (f i) = 2) \<Longrightarrow> length (concat (map f [0..<n])) = 2 * n"
  by (induction n) simp_all

lemma nth_cells:
  assumes f: "\<And>i. length (f i) = 2"
  shows "i < n \<Longrightarrow> concat (map f [0..<n]) ! (2 * i) = f i ! 0 \<and> concat (map f [0..<n]) ! (2 * i + 1) = f i ! 1"
proof (induction n)
  case (Suc n)
  have len: "length (concat (map f [0..<n])) = 2 * n" by (rule length_cells [OF f])
  show ?case
  proof (cases "i = n")
    case True
    then show ?thesis by (simp add: nth_append len)
  next
    case False
    then show ?thesis using Suc by (simp add: nth_append len)
  qed
qed simp

lemma range_at_word:
  "range_at (iv_ranges v) (unat p) = find (\<lambda>r. lr_b r \<le> p \<and> p < lr_e r) (iv_ranges v)"
  by (simp add: range_at_def word_le_nat_alt word_less_nat_alt)

lemma range_at_covers: "range_at (iv_ranges v) (unat p) \<noteq> None \<longleftrightarrow> covers v p"
  by (auto simp: range_at_word covers_def find_None_iff)

lemma range_at_place: "(case range_at (iv_ranges v) (unat p) of None \<Rightarrow> None | Some r \<Rightarrow> lr_loc r) = loc_at v p"
  by (simp add: range_at_word loc_at_def)

text \<open>
  C36: The rows of the printed tables as a function of the interval.  For ranges that do not overlap the
  iterator of \<open>DumpLiveness\<close> and of \<open>DumpRegalloc\<close> never falls behind: each row has one cell of two
  characters per life number.  The first character is an arrow where a range ends, whether or not the
  next range begins there, otherwise a dash where a range covers the number, and otherwise a space.
  The second one is a bar at odd numbers at which no range ends.  In the other cells
  \<open>DumpRegalloc\<close>, when every range has a place that has a character, shows the place of the range that
  covers the number (the number of a register, or # for any slot), and a space when none does;
  \<open>DumpLiveness\<close> shows a space in the cells with an arrow and repeats the first character in the others.
\<close>

theorem rows_show_the_interval:
  assumes v: "valid_ranges (iv_ranges v)" and w: "os_width s = 0" and l: "located (iv_ranges v)"
  shows "\<exists>head cs ds. live_row lst i v s = appended (head @ cs @ '' v'' @ id_text i @ [newline]) s \<and>
           reg_row lst i v s = Inr (appended (head @ ds @ '' v'' @ id_text i @ [newline]) s) \<and>
           length cs = 2 * lst \<and> length ds = 2 * lst \<and>
           (\<forall>p. unat p < lst \<longrightarrow>
              cs ! (2 * unat p) = (if \<exists>r \<in> set (iv_ranges v). lr_e r = p then CHR ''>'' else if covers v p then CHR ''-'' else CHR '' '') \<and>
              ds ! (2 * unat p) = cs ! (2 * unat p) \<and>
              cs ! (2 * unat p + 1) = (if \<exists>r \<in> set (iv_ranges v). lr_e r = p then CHR '' ''
                 else if odd (unat p) then CHR ''|'' else cs ! (2 * unat p)) \<and>
              ds ! (2 * unat p + 1) = (if odd (unat p) \<and> \<not> (\<exists>r \<in> set (iv_ranges v). lr_e r = p) then CHR ''|''
                 else place_char (loc_at v p)))"
proof -
  let ?rs = "iv_ranges v"
  define head where "head = pad 9 (os_left s) (''v'' @ id_text i @ ''|'')"
  define cs where "cs = concat (map (live_text ?rs) [0..<lst])"
  define ds where "ds = concat (map (place_text ?rs) [0..<lst])"
  have start: "put (''v'' @ id_text i @ ''|'') (setw 9 s) = appended head s"
    using w by (simp add: put_def setw_def appended_def head_def)
  have live: "live_row lst i v s = appended (head @ cs @ '' v'' @ id_text i @ [newline]) s"
    using w unfolding live_row_def start by (simp add: live_cells [OF v] cs_def put_appended)
  have reg: "reg_row lst i v s = Inr (appended (head @ ds @ '' v'' @ id_text i @ [newline]) s)"
    using w unfolding reg_row_def start by (simp add: reg_cells [OF v l] ds_def put_appended)
  have two: "length (live_text ?rs n) = 2" "length (place_text ?rs n) = 2" for n
    by (simp_all add: live_text_def place_text_def blank_def Let_def)
  have "cs ! (2 * unat p) = (if \<exists>r \<in> set ?rs. lr_e r = p then CHR ''>'' else if covers v p then CHR ''-'' else CHR '' '') \<and>
      ds ! (2 * unat p) = cs ! (2 * unat p) \<and>
      cs ! (2 * unat p + 1) = (if \<exists>r \<in> set ?rs. lr_e r = p then CHR '' ''
         else if odd (unat p) then CHR ''|'' else cs ! (2 * unat p)) \<and>
      ds ! (2 * unat p + 1) = (if odd (unat p) \<and> \<not> (\<exists>r \<in> set ?rs. lr_e r = p) then CHR ''|'' else place_char (loc_at v p))"
    if "unat p < lst" for p
  proof -
    have ends: "ends_at ?rs (unat p) \<longleftrightarrow> (\<exists>r \<in> set ?rs. lr_e r = p)" by (auto simp: ends_at_def unat_eq_iff)
    have no: "place_char (loc_at v p) = CHR '' ''" if "\<not> covers v p"
      using that range_at_covers [of v p] range_at_place [of v p, symmetric] by (simp add: place_char_def)
    have "cs ! (2 * unat p) = live_text ?rs (unat p) ! 0" "cs ! (2 * unat p + 1) = live_text ?rs (unat p) ! 1"
      "ds ! (2 * unat p) = place_text ?rs (unat p) ! 0"
      "ds ! (2 * unat p + 1) = place_text ?rs (unat p) ! 1"
      using nth_cells [of "live_text ?rs", OF two(1) that] nth_cells [of "place_text ?rs", OF two(2) that]
      by (simp_all only: cs_def ds_def)
    then show ?thesis
      using no by (simp add: live_text_def place_text_def blank_def Let_def ends range_at_place flip: range_at_covers)
  qed
  with live reg two show ?thesis
    using length_cells [of "live_text ?rs" lst] length_cells [of "place_text ?rs" lst] unfolding cs_def ds_def by blast
qed

text \<open>The value v1 of the loop graph in jit/tests/hw_5.h, with the row that file documents.\<close>

definition hw5_v1 :: live_interval where
  "hw5_v1 =
     \<lparr>iv_ranges = [\<lparr>lr_b = 2, lr_e = 7, lr_loc = Some \<lparr>loc_kind = REG, loc_idx = 0\<rparr>\<rparr>,
                   \<lparr>lr_b = 7, lr_e = 8, lr_loc = Some \<lparr>loc_kind = REG, loc_idx = 1\<rparr>\<rparr>,
                   \<lparr>lr_b = 8, lr_e = 18, lr_loc = Some \<lparr>loc_kind = REG, loc_idx = 0\<rparr>\<rparr>],
      iv_usepoints = [10, 16]\<rparr>"

lemma rows_show_the_interval_witness:
  "\<exists>head cs ds. live_row 24 0 hw5_v1 empty_stream = appended (head @ cs @ '' v'' @ id_text 0 @ [newline]) empty_stream \<and>
     reg_row 24 0 hw5_v1 empty_stream = Inr (appended (head @ ds @ '' v'' @ id_text 0 @ [newline]) empty_stream) \<and>
     cs ! 16 = CHR ''>'' \<and> ds ! 16 = CHR ''>'' \<and> ds ! 17 = CHR ''0''"
proof -
  have v: "valid_ranges (iv_ranges hw5_v1)" by (simp add: hw5_v1_def)
  have l: "located (iv_ranges hw5_v1)" by (simp add: hw5_v1_def located_def LocToChar_def)
  have w: "os_width empty_stream = 0" by (simp add: empty_stream_def)
  have p: "place_char (loc_at hw5_v1 8) = CHR ''0''" by code_simp
  have e: "\<exists>r \<in> set (iv_ranges hw5_v1). lr_e r = 8" by (simp add: hw5_v1_def)
  obtain head cs ds where rows: "live_row 24 0 hw5_v1 empty_stream = appended (head @ cs @ '' v'' @ id_text 0 @ [newline]) empty_stream"
      "reg_row 24 0 hw5_v1 empty_stream = Inr (appended (head @ ds @ '' v'' @ id_text 0 @ [newline]) empty_stream)"
    and cells: "\<forall>p. unat p < 24 \<longrightarrow>
       cs ! (2 * unat p) = (if \<exists>r \<in> set (iv_ranges hw5_v1). lr_e r = p then CHR ''>'' else if covers hw5_v1 p then CHR ''-'' else CHR '' '') \<and>
       ds ! (2 * unat p) = cs ! (2 * unat p) \<and>
       cs ! (2 * unat p + 1) = (if \<exists>r \<in> set (iv_ranges hw5_v1). lr_e r = p then CHR '' ''
         else if odd (unat p) then CHR ''|'' else cs ! (2 * unat p)) \<and>
       ds ! (2 * unat p + 1) = (if odd (unat p) \<and> \<not> (\<exists>r \<in> set (iv_ranges hw5_v1). lr_e r = p) then CHR ''|''
         else place_char (loc_at hw5_v1 p))"
    using rows_show_the_interval [OF v w l, of 24 0] by blast
  from cells [rule_format, of 8] e p have "cs ! 16 = CHR ''>''" "ds ! 16 = CHR ''>''" "ds ! 17 = CHR ''0''" by auto
  with rows show ?thesis by blast
qed

lemma hw5_v1_row:
  "concat (map (place_text (iv_ranges hw5_v1)) [0..<24]) = ''   |-0-|-0-|-0>1>0-|-0-|-0-|-0-|-0-|>  |   |   |''"
  by code_simp

end
