(* ===== verification/Spec2Isabelle.thy ===== *)
theory Spec2Isabelle
  imports K3s_Source K3s_Machine K3s_Safety K3s_Regions Jit_Blocks Jit_LoopTree Jit_Users Jit_Pipeline Jit_Optimize Jit_Build Jit_Inline_Proofs Jit_Dispatch Jit_GraphDump
begin

text \<open>
  A verification development of the k3s virtual machine.

  The program has two halves.  The first is a virtual machine for a small dynamic language: an
  assembler writes a class file, the runtime loads it, and a threaded interpreter runs it over a heap
  with a generational copying collector.  The second is a compiler for hot code in SSA form: graphs of
  instructions and blocks, their analyses up to register allocation, and optimisations.  The halves do
  not call each other.

  \<^bold>\<open>Conventions.\<close>  Code that can fail returns \<open>vm_error + 'a\<close> (\<open>'a res\<close>, \<open>K3s_Prelude\<close>): a failing
  \<open>ASSERT\<close> is \<open>AssertFailed\<close>, \<open>LOG_FATAL\<close> is \<open>Fatal\<close> with the module, reading outside an array or
  through a null pointer is \<open>Undefined\<close>, and a loop that the model stops is \<open>OutOfFuel\<close>.  Machine
  integers are words of their width.  State is passed explicitly.  The names are those of the code.

  \<^bold>\<open>The virtual machine.\<close>
  \<^item> \<open>K3s_Isa\<close>: the instruction set (isa/isa.yaml) as a table, the dispatch table and the decoder that the
    templates generate from it, with the choice of an overload by the types of the operands.
  \<^item> \<open>K3s_Double\<close>: the \<open>double\<close> operations of the handlers on IEEE-754 bit patterns.
  \<^item> \<open>K3s_Object\<close>, \<open>K3s_Heap\<close>, \<open>K3s_Alloc\<close>: tagged registers, the four kinds of heap objects, the state
    \<open>vm\<close> of the runtime with its regions, and the constructors of objects.
  \<^item> \<open>K3s_GC\<close>: marking, moving, redirecting of references, nested collections (allocator/gc_region.cpp).
    \<open>K3s_Mark\<close>, \<open>K3s_Collect\<close> and \<open>K3s_Machine\<close> prove it: marking is reachability, and a collection is
    an isomorphism of the reachable heap that re-establishes the heap invariant.  The vectors of the
    collector are charged to their region: both theorems say for which collections it runs out.
  \<^item> \<open>K3s_Regions\<close>: the regions as they lie in memory, with their cursors in their first words
    (allocator/region.h, allocator/allocator.h); blocks never overlap, and the cursors of \<open>vm\<close> are these words.
  \<^item> \<open>K3s_Interp\<close>: every handler of the dispatch table, the step of the threaded code, the run and
    \<open>Invoke\<close>.  \<open>K3s_Safety\<close> composes interpreter, constructors and collector: no program can make a
    register refer to anything but an object of the class of its tag.  The interface between the
    constructors and the pool is the locale \<open>object_allocator\<close>.
  \<^item> \<open>K3s_Lexer\<close>, \<open>K3s_Parser\<close>: the scanner that flex makes of lexer.l.erb, rule by rule with longest match
    and first rule, and the parser that bison makes of grammar.l.erb, one function per nonterminal.
    \<open>K3s_Grammar\<close>: the parser accepts exactly the tokens of well-formed programs and performs their
    actions in order.  \<open>K3s_Source\<close>: the scanner finds the tokens of a file whatever spaces, newlines and
    comments are between them, so the theorems on the assembler hold from the text of a source file.
  \<^item> \<open>K3s_Asm\<close>, \<open>K3s_ClassFile\<close>, \<open>K3s_Runtime\<close>, \<open>K3s_Toolchain\<close>: the one-pass assembler with its
    backpatching refines a two-pass assembler, class files can be read back, jumps reach their labels.
    The loops over declarations interpret the locale \<open>step_system\<close>.

  \<^bold>\<open>The compiler.\<close>
  \<^item> \<open>Jit_Graph\<close>: instructions, def-use lists threaded through the inputs, doubly linked lists of blocks,
    edges (jit/ir/graph/instructions.h, basic_block.h, graph.h, graph.cpp).  \<open>Jit_Users\<close> and
    \<open>Jit_Blocks\<close> prove the lists; \<open>Jit_Rewrite\<close> what a replacement does to the code.
    \<open>Jit_Dispatch\<close> relates the operations on inputs to the switches over the opcode that the code has.
  \<^item> \<open>Jit_Text\<close>, \<open>Jit_Dump\<close>, \<open>Jit_GraphDump\<close>: the printing of instructions, blocks, loops and graphs
    as functions on an output stream.  The line of an instruction can be read back, and the cells of the
    rows of the tables of intervals are given exactly.
  \<^item> \<open>Jit_Build\<close>: the classes of instructions and the macros that build graphs; every graph they build
    has the invariant that the optimisations start from.
  \<^item> \<open>Jit_Cfg\<close>, \<open>Jit_Rpo\<close>, \<open>Jit_Dom\<close>: markers, reverse post order and dominator tree, each related to
    paths of the graph.  \<open>Jit_Loops\<close>, \<open>Jit_LoopTree\<close>, \<open>Jit_Linear\<close>: the loops, which form a tree, and the
    linear order of the blocks.
  \<^item> \<open>Jit_Intervals\<close>, \<open>Jit_Liveness\<close>, \<open>Jit_LiveSets\<close>, \<open>Jit_Merge\<close>: live ranges, live sets against the
    backward liveness equation, merging of ranges and loops into intervals.
  \<^item> \<open>Jit_RegAlloc\<close>, \<open>Jit_Regs\<close>, \<open>Jit_Places\<close>: linear scan with four registers; values whose
    computed intervals meet do not share a register or a slot while the scan runs.  The moves for phis
    (\<open>MergePhis\<close>) come after it.
  \<^item> \<open>Jit_Order\<close>, \<open>Jit_Cover\<close>, \<open>Jit_Visit\<close>, \<open>Jit_Pipeline\<close>: the linear order, the liveness analysis and the
    allocator one after the other on code in SSA form.  Dominators come first in the order, the ranges
    of a value begin at its definition and cover it up to each use, and this is what the allocator
    assumes.
  \<^item> \<open>Jit_Peepholes\<close>, \<open>Jit_Values\<close>, \<open>Jit_Optimize\<close>: the rewriting rules and the elimination of checks,
    against a reference meaning of the operations.  The rule for ASHR is proved for the types other than
    UINT64, for which it is wrong.
  \<^item> \<open>Jit_Inlining\<close>, \<open>Jit_Inline_Proofs\<close>: inlining of calls, with several graph objects over one store.

  \<^bold>\<open>Bounds and fuel.\<close>  Marking recurses at most once per object (\<open>mark_fuel\<close>, shown to be enough).  The
  searches over blocks get one more than the number of blocks, the loops over lists of instructions one
  more than the number of instructions, the loops over users one more than the number of inputs; that
  each is enough is part of the theorems that say that the operation succeeds.  \<open>run\<close>, \<open>Dump\<close> and
  \<open>ApplyInlining\<close> may not end, and their fuel is an argument.  A stage of the collector fits into
  its region of 4 MB (\<open>GC_INTERNALS_SIZE\<close>) or the collection is out of memory; \<open>need\<close> counts its bytes.
  The marks of the collector are 64-bit numbers that grow by at most two for each handler; the theorems on collections ask that they do not
  reach their end.

  \<^bold>\<open>What stands for code that is not here.\<close>  The decoder of \<open>Invoke\<close> is an uninitialised local variable
  and an argument of the model.  Whether \<open>resize\<close> moves the elements of a vector is an argument of the
  inlining.  Uninitialised bytes of the file buffer are an argument of the writer.  What the \<open>Runtime\<close> object
  and the hash maps of the standard library take from the constant region are arguments of the loading.
  What \<open>mmap\<close> returns is an argument of \<open>Allocator_Init\<close>.

  \<^bold>\<open>Not modelled.\<close>  The bound of bison on the depth of its stack and the line numbers of the messages, the
  mapping of memory and the files (the model starts from the bytes), the timestamps, and the test graphs
  and benchmarks.
\<close>

end
